(* ===== verification/Boost_Prelude.thy ===== *)
theory Boost_Prelude
  imports Main "HOL-Library.Word"
begin

text \<open>
  What the component theories share: the collections their automation is kept in, the parts of the
  C++ standard library the sources call (\<^verbatim>\<open>std::size_t\<close>, \<^verbatim>\<open>std::vector::resize\<close>,
  \<^verbatim>\<open>std::fill_n\<close>, truncating division), and generic lemmas on lists, options and words.

  Conventions of the whole development.
  \<^item> A failed \<^verbatim>\<open>assert\<close> or \<^verbatim>\<open>BOOST_ASSERT\<close>, and an access outside a buffer, is the value
    \<^term>\<open>None\<close>; an exception of the source is a value of the component's error type.
  \<^item> \<^verbatim>\<open>std::size_t\<close> values count objects in memory and are natural numbers; where the source
    relies on the largest value (\<^verbatim>\<open>npos\<close>) it is written out.
\<close>

unbundle bit_operations_syntax

named_theorems blocks \<open>arithmetic of block and bit indices\<close>
named_theorems flat_simps \<open>the bits of a buffer after an update of the buffer\<close>

type_synonym ulong = "64 word"
type_synonym byte_type = "8 word"

abbreviation ulong_width :: nat where
  "ulong_width \<equiv> 64"

subsection \<open>The standard library\<close>

definition npos :: nat where
  "npos = 2 ^ 64 - 1"

definition vec_resize :: "nat \<Rightarrow> 'a \<Rightarrow> 'a list \<Rightarrow> 'a list" where
  "vec_resize n v xs = take n xs @ replicate (n - length xs) v"

definition fill_n :: "nat \<Rightarrow> nat \<Rightarrow> 'a \<Rightarrow> 'a list \<Rightarrow> 'a list" where
  "fill_n start n v xs = take start xs @ replicate (min n (length xs - start)) v @ drop (start + n) xs"

text \<open>A \<^verbatim>\<open>for\<close> loop over indices that returns false at the first failing index.\<close>

definition all_upto :: "nat \<Rightarrow> (nat \<Rightarrow> bool) \<Rightarrow> bool" where
  "all_upto n P = list_all P [0..<n]"

text \<open>C++ integer division and remainder round towards zero.\<close>

definition tdiv :: "int \<Rightarrow> int \<Rightarrow> int" where
  "tdiv a b = sgn a * sgn b * (\<bar>a\<bar> div \<bar>b\<bar>)"

definition tmod :: "int \<Rightarrow> int \<Rightarrow> int" where
  "tmod a b = a - tdiv a b * b"

subsection \<open>Lists\<close>

lemma length_vec_resize [simp]: "length (vec_resize n v xs) = n"
  by (simp add: vec_resize_def)

lemma nth_vec_resize: "i < n \<Longrightarrow> vec_resize n v xs ! i = (if i < length xs then xs ! i else v)"
  by (simp add: vec_resize_def nth_append)

lemma length_fill_n [simp]: "length (fill_n s n v xs) = length xs"
  by (auto simp: fill_n_def)

lemma nth_fill_n:
  "i < length xs \<Longrightarrow> fill_n s n v xs ! i = (if s \<le> i \<and> i < s + n then v else xs ! i)"
  by (auto simp: fill_n_def nth_append min_def)

lemma all_upto_iff [simp]: "all_upto n P \<longleftrightarrow> (\<forall>i<n. P i)"
  by (auto simp: all_upto_def list_all_iff)

lemma last_update: "xs \<noteq> [] \<Longrightarrow> xs[length xs - 1 := v] = butlast xs @ [v]"
  by (cases xs rule: rev_cases) simp_all

subsection \<open>Division\<close>

lemma div_less_iff_mult: "0 < (w::nat) \<Longrightarrow> i div w < k \<longleftrightarrow> i < k * w"
  by (simp add: div_less_iff_less_mult)

lemma block_split: "0 < (w::nat) \<Longrightarrow> i = (i div w) * w + i mod w"
  by simp

lemma div_mod_unique: "j < (w::nat) \<Longrightarrow> (k * w + j) div w = k \<and> (k * w + j) mod w = j"
  by simp

lemma ceil_div_le:
  assumes "0 < (w::nat)"
  shows "n div w + (if n mod w \<noteq> 0 then 1 else 0) \<le> k \<longleftrightarrow> n \<le> k * w"
proof -
  define q r where "q = n div w" and "r = n mod w"
  have n: "n = q * w + r" and r: "r < w"
    using assms by (simp_all add: q_def r_def)
  have "q * w + r \<le> k * w" if "0 < r" "q + 1 \<le> k"
    using mult_le_mono1 [OF that(2), of w] r by simp
  moreover have "q + 1 \<le> k" if "0 < r" "q * w + r \<le> k * w"
  proof (rule ccontr)
    assume "\<not> q + 1 \<le> k"
    then have "k * w \<le> q * w" by simp
    with that show False by linarith
  qed
  ultimately show ?thesis
    using assms r unfolding n by (cases "r = 0") auto
qed

text \<open>Block and bit index of \<open>i - n\<close>, from those of \<open>i\<close> and \<open>n\<close>.\<close>

lemma div_mod_diff:
  assumes "0 < (w::nat)" and "n \<le> i"
  shows "n mod w \<le> i mod w \<Longrightarrow>
           n div w \<le> i div w \<and> (i - n) div w = i div w - n div w \<and> (i - n) mod w = i mod w - n mod w"
    and "i mod w < n mod w \<Longrightarrow>
           n div w < i div w \<and> (i - n) div w = i div w - n div w - 1
             \<and> (i - n) mod w = w - n mod w + i mod w"
proof -
  define a b c d where "a = i div w" and "b = i mod w" and "c = n div w" and "d = n mod w"
  have i: "i = a * w + b" and n: "n = c * w + d" and b: "b < w" and d: "d < w"
    using assms by (simp_all add: a_def b_def c_def d_def)
  {
    assume le: "d \<le> b"
    have ca: "c \<le> a"
      using div_le_mono [OF assms(2), of w] by (simp add: a_def c_def)
    then have "i - n = (a - c) * w + (b - d)"
      using le by (simp add: i n diff_mult_distrib)
    with ca b show "n div w \<le> i div w \<and> (i - n) div w = i div w - n div w \<and> (i - n) mod w = i mod w - n mod w"
      using div_mod_unique [of "b - d" w "a - c"] by (simp add: a_def b_def c_def d_def)
  }
  {
    assume lt: "b < d"
    have ca: "c < a"
    proof (rule ccontr)
      assume "\<not> c < a"
      then have "a * w \<le> c * w" by simp
      with lt assms(2) show False by (simp add: i n)
    qed
    then obtain e where e: "a = c + Suc e"
      using less_imp_Suc_add by auto
    then have "i - n = e * w + (w - d + b)"
      using lt d by (simp add: i n algebra_simps)
    moreover have "w - d + b < w"
      using lt d by simp
    ultimately show "n div w < i div w \<and> (i - n) div w = i div w - n div w - 1
             \<and> (i - n) mod w = w - n mod w + i mod w"
      using div_mod_unique [of "w - d + b" w e] ca e by (simp add: a_def b_def c_def d_def)
  }
qed

lemma tdiv_nonneg: "0 \<le> a \<Longrightarrow> 0 \<le> b \<Longrightarrow> tdiv a b = a div b"
  by (auto simp: tdiv_def sgn_if)

lemma tmod_nonneg: "0 \<le> a \<Longrightarrow> 0 \<le> b \<Longrightarrow> tmod a b = a mod b"
  by (simp add: tmod_def tdiv_nonneg minus_div_mult_eq_mod)

lemma tdiv_dvd: "b dvd a \<Longrightarrow> tdiv a b = a div b"
proof (elim dvdE)
  fix k assume "a = b * k"
  then show ?thesis
    by (cases "b = 0") (auto simp: tdiv_def abs_mult sgn_mult mult.commute abs_mult_sgn
        simp flip: mult.assoc)
qed

end
