(* ===== verification/Dynamic_Bitset.thy ===== *)
theory Dynamic_Bitset
  imports Boost_Prelude
begin

text \<open>
  \<^verbatim>\<open>boost::dynamic_bitset<Block>\<close> (\<^verbatim>\<open>dynamic_bitset/dynamic_bitset.hpp\<close>), with the helpers of
  \<^verbatim>\<open>detail/dynamic_bitset.hpp\<close>, \<^verbatim>\<open>integer/integer_log2.hpp\<close> and \<^verbatim>\<open>pending/lowest_bit.hpp\<close>.

  The buffer \<^verbatim>\<open>std::vector<Block>\<close> is a list of words of any width; \<^verbatim>\<open>bits_per_block\<close> is the
  width of the word type. Loops that update the buffer in place (\<open>shl_loop\<close>, \<open>shr_loop\<close>) update it
  in place here too, one write per iteration and in the source's order. An operation whose
  assertions may fail returns an option. The lemmas say that on a bitset that satisfies
  \<^verbatim>\<open>m_check_invariants\<close> no assertion fails, the invariant is kept, and the bits of the result are
  the ones documented.
\<close>

unbundle bit_operations_syntax

subsection \<open>Definitions\<close>

record 'blk dynamic_bitset =
  m_bits :: "'blk list"
  m_num_bits :: nat

type_synonym 'b bitset = "'b word dynamic_bitset"

definition block_index :: "'b::len itself \<Rightarrow> nat \<Rightarrow> nat" where
  "block_index _ pos = pos div LENGTH('b)"

definition bit_index :: "'b::len itself \<Rightarrow> nat \<Rightarrow> nat" where
  "bit_index _ pos = pos mod LENGTH('b)"

definition bit_mask :: "nat \<Rightarrow> 'b::len word" where
  "bit_mask pos = push_bit (bit_index TYPE('b) pos) 1"

definition calc_num_blocks :: "'b::len itself \<Rightarrow> nat \<Rightarrow> nat" where
  "calc_num_blocks _ num_bits =
     num_bits div LENGTH('b) + (if num_bits mod LENGTH('b) \<noteq> 0 then 1 else 0)"

definition bs_size :: "'b::len bitset \<Rightarrow> nat" where
  "bs_size b = m_num_bits b"

definition num_blocks :: "'b::len bitset \<Rightarrow> nat" where
  "num_blocks b = length (m_bits b)"

definition bs_empty :: "'b::len bitset \<Rightarrow> bool" where
  "bs_empty b = (bs_size b = 0)"

definition count_extra_bits :: "'b::len bitset \<Rightarrow> nat" where
  "count_extra_bits b = bit_index TYPE('b) (bs_size b)"

definition m_highest_block :: "'b::len bitset \<Rightarrow> 'b word option" where
  "m_highest_block b = (if 0 < bs_size b \<and> 0 < num_blocks b then Some (last (m_bits b)) else None)"

definition m_zero_unused_bits :: "'b::len bitset \<Rightarrow> 'b bitset option" where
  "m_zero_unused_bits b =
     (if num_blocks b = calc_num_blocks TYPE('b) (m_num_bits b) then
        (let extra_bits = count_extra_bits b in
         if extra_bits \<noteq> 0 then
           (case m_highest_block b of None \<Rightarrow> None
            | Some h \<Rightarrow> Some (b\<lparr>m_bits := (m_bits b)[num_blocks b - 1 :=
                                 h AND NOT (push_bit extra_bits (NOT 0))]\<rparr>))
         else Some b)
      else None)"

definition m_check_invariants :: "'b::len bitset \<Rightarrow> bool" where
  "m_check_invariants b =
     (let extra_bits = count_extra_bits b in
      (if 0 < extra_bits then
         (case m_highest_block b of None \<Rightarrow> False
          | Some h \<Rightarrow> h AND push_bit extra_bits (NOT 0) = 0)
       else True)
      \<and> num_blocks b = calc_num_blocks TYPE('b) (bs_size b))"

subsubsection \<open>The proxy class for one bit\<close>

text \<open>\<^verbatim>\<open>reference\<close> holds a block by reference and a mask; its operations assign the block.\<close>

definition ref_mask :: "nat \<Rightarrow> 'b::len word option" where
  "ref_mask pos = (if pos < LENGTH('b) then Some (push_bit pos 1) else None)"

definition ref_bool :: "'b::len word \<Rightarrow> 'b word \<Rightarrow> bool" where
  "ref_bool m_block m_mask = (m_block AND m_mask \<noteq> 0)"

definition ref_do_set :: "'b::len word \<Rightarrow> 'b word \<Rightarrow> 'b word" where
  "ref_do_set m_block m_mask = m_block OR m_mask"

definition ref_do_reset :: "'b::len word \<Rightarrow> 'b word \<Rightarrow> 'b word" where
  "ref_do_reset m_block m_mask = m_block AND NOT m_mask"

definition ref_do_flip :: "'b::len word \<Rightarrow> 'b word \<Rightarrow> 'b word" where
  "ref_do_flip m_block m_mask = m_block XOR m_mask"

definition ref_do_assign :: "bool \<Rightarrow> 'b::len word \<Rightarrow> 'b word \<Rightarrow> 'b word" where
  "ref_do_assign x m_block m_mask = (if x then ref_do_set m_block m_mask else ref_do_reset m_block m_mask)"

datatype ref_op = RAssign bool | ROr bool | RAnd bool | RXor bool | RMinus bool | RFlip

fun ref_apply :: "ref_op \<Rightarrow> 'b::len word \<Rightarrow> 'b word \<Rightarrow> 'b word" where
  "ref_apply (RAssign x) m_block m_mask = ref_do_assign x m_block m_mask"
| "ref_apply (ROr x) m_block m_mask = (if x then ref_do_set m_block m_mask else m_block)"
| "ref_apply (RAnd x) m_block m_mask = (if \<not> x then ref_do_reset m_block m_mask else m_block)"
| "ref_apply (RXor x) m_block m_mask = (if x then ref_do_flip m_block m_mask else m_block)"
| "ref_apply (RMinus x) m_block m_mask = (if x then ref_do_reset m_block m_mask else m_block)"
| "ref_apply RFlip m_block m_mask = ref_do_flip m_block m_mask"

text \<open>\<^verbatim>\<open>b[pos] op= x\<close>: the subscript operator builds the reference, the operation assigns the block.\<close>

definition bs_subscript :: "ref_op \<Rightarrow> nat \<Rightarrow> 'b::len bitset \<Rightarrow> 'b bitset option" where
  "bs_subscript f pos b =
     (let k = block_index TYPE('b) pos in
      if k < num_blocks b then
        (case ref_mask (bit_index TYPE('b) pos) of None \<Rightarrow> None
         | Some m_mask \<Rightarrow> Some (b\<lparr>m_bits := (m_bits b)[k := ref_apply f (m_bits b ! k) m_mask]\<rparr>))
      else None)"

subsubsection \<open>One bit and whole-set operations\<close>

definition bs_reset_at :: "nat \<Rightarrow> 'b::len bitset \<Rightarrow> 'b bitset option" where
  "bs_reset_at pos b =
     (if pos < m_num_bits b then
        (let k = block_index TYPE('b) pos in
         Some (b\<lparr>m_bits := (m_bits b)[k := m_bits b ! k AND NOT (bit_mask pos)]\<rparr>))
      else None)"

definition bs_set_at :: "nat \<Rightarrow> bool \<Rightarrow> 'b::len bitset \<Rightarrow> 'b bitset option" where
  "bs_set_at pos val b =
     (if pos < m_num_bits b then
        (if val then
           (let k = block_index TYPE('b) pos in
            Some (b\<lparr>m_bits := (m_bits b)[k := m_bits b ! k OR bit_mask pos]\<rparr>))
         else bs_reset_at pos b)
      else None)"

definition bs_flip_at :: "nat \<Rightarrow> 'b::len bitset \<Rightarrow> 'b bitset option" where
  "bs_flip_at pos b =
     (if pos < m_num_bits b then
        (let k = block_index TYPE('b) pos in
         Some (b\<lparr>m_bits := (m_bits b)[k := m_bits b ! k XOR bit_mask pos]\<rparr>))
      else None)"

definition m_unchecked_test :: "nat \<Rightarrow> 'b::len bitset \<Rightarrow> bool" where
  "m_unchecked_test pos b = (m_bits b ! block_index TYPE('b) pos AND bit_mask pos \<noteq> 0)"

definition bs_test :: "nat \<Rightarrow> 'b::len bitset \<Rightarrow> bool option" where
  "bs_test pos b = (if pos < m_num_bits b then Some (m_unchecked_test pos b) else None)"

definition bs_test_set :: "nat \<Rightarrow> bool \<Rightarrow> 'b::len bitset \<Rightarrow> (bool \<times> 'b bitset) option" where
  "bs_test_set pos val b =
     (case bs_test pos b of None \<Rightarrow> None
      | Some old \<Rightarrow>
          (if old \<noteq> val then map_option (Pair old) (bs_set_at pos val b) else Some (old, b)))"

definition bs_set_all :: "'b::len bitset \<Rightarrow> 'b bitset option" where
  "bs_set_all b = m_zero_unused_bits (b\<lparr>m_bits := map (\<lambda>_. NOT 0) (m_bits b)\<rparr>)"

definition bs_reset_all :: "'b::len bitset \<Rightarrow> 'b bitset" where
  "bs_reset_all b = b\<lparr>m_bits := map (\<lambda>_. 0) (m_bits b)\<rparr>"

definition bs_flip_all :: "'b::len bitset \<Rightarrow> 'b bitset option" where
  "bs_flip_all b = m_zero_unused_bits (b\<lparr>m_bits := map (\<lambda>w. NOT w) (m_bits b)\<rparr>)"

definition bs_complement :: "'b::len bitset \<Rightarrow> 'b bitset option" where
  "bs_complement b = bs_flip_all b"

text \<open>The loop of the four assigning operators: block \<open>i\<close> of the target becomes \<open>f\<close> of the two blocks.\<close>

definition bs_blockwise ::
  "('b::len word \<Rightarrow> 'b word \<Rightarrow> 'b word) \<Rightarrow> 'b bitset \<Rightarrow> 'b bitset \<Rightarrow> 'b bitset option" where
  "bs_blockwise f b rhs =
     (if bs_size b = bs_size rhs then
        Some (b\<lparr>m_bits := map (\<lambda>i. f (m_bits b ! i) (m_bits rhs ! i)) [0..<num_blocks b]\<rparr>)
      else None)"

definition bs_and :: "'b::len bitset \<Rightarrow> 'b bitset \<Rightarrow> 'b bitset option" where
  "bs_and = bs_blockwise (\<lambda>x y. x AND y)"

definition bs_or :: "'b::len bitset \<Rightarrow> 'b bitset \<Rightarrow> 'b bitset option" where
  "bs_or = bs_blockwise (\<lambda>x y. x OR y)"

definition bs_xor :: "'b::len bitset \<Rightarrow> 'b bitset \<Rightarrow> 'b bitset option" where
  "bs_xor = bs_blockwise (\<lambda>x y. x XOR y)"

definition bs_minus :: "'b::len bitset \<Rightarrow> 'b bitset \<Rightarrow> 'b bitset option" where
  "bs_minus = bs_blockwise (\<lambda>x y. x AND NOT y)"

subsubsection \<open>Shifts\<close>

fun shl_loop :: "nat \<Rightarrow> nat \<Rightarrow> nat \<Rightarrow> 'b::len word list \<Rightarrow> 'b word list" where
  "shl_loop r dv 0 b = b"
| "shl_loop r dv (Suc i) b =
     shl_loop r dv i (b[Suc i + dv := push_bit r (b ! Suc i) OR drop_bit (LENGTH('b) - r) (b ! i)])"

fun shl_copy_loop :: "nat \<Rightarrow> nat \<Rightarrow> 'b::len word list \<Rightarrow> 'b word list" where
  "shl_copy_loop dv 0 b = b"
| "shl_copy_loop dv (Suc i) b = shl_copy_loop dv i (b[Suc i + dv := b ! Suc i])"

definition bs_shl :: "nat \<Rightarrow> 'b::len bitset \<Rightarrow> 'b bitset option" where
  "bs_shl n b =
     (if n \<ge> m_num_bits b then Some (bs_reset_all b)
      else if n > 0 then
        (let lst = num_blocks b - 1;
             dv = n div LENGTH('b);
             r = bit_index TYPE('b) n;
             b1 = (if r \<noteq> 0 then
                     (let w = shl_loop r dv (lst - dv) (m_bits b) in w[dv := push_bit r (w ! 0)])
                   else
                     (let w = shl_copy_loop dv (lst - dv) (m_bits b) in w[dv := w ! 0]))
         in m_zero_unused_bits (b\<lparr>m_bits := fill_n 0 dv 0 b1\<rparr>))
      else Some b)"

function shr_loop :: "nat \<Rightarrow> nat \<Rightarrow> nat \<Rightarrow> nat \<Rightarrow> 'b::len word list \<Rightarrow> 'b word list" where
  "shr_loop r dv lst i b =
     (if i < lst then
        shr_loop r dv lst (Suc i)
          (b[i - dv := drop_bit r (b ! i) OR push_bit (LENGTH('b) - r) (b ! Suc i)])
      else b)"
  by pat_completeness auto
termination
  by (relation "measure (\<lambda>(r, dv, lst, i, b). lst - i)") auto

function shr_copy_loop :: "nat \<Rightarrow> nat \<Rightarrow> nat \<Rightarrow> 'b::len word list \<Rightarrow> 'b word list" where
  "shr_copy_loop dv lst i b =
     (if i \<le> lst then shr_copy_loop dv lst (Suc i) (b[i - dv := b ! i]) else b)"
  by pat_completeness auto
termination
  by (relation "measure (\<lambda>(dv, lst, i, b). Suc lst - i)") auto

definition bs_shr :: "nat \<Rightarrow> 'b::len bitset \<Rightarrow> 'b bitset" where
  "bs_shr n b =
     (if n \<ge> m_num_bits b then bs_reset_all b
      else if n > 0 then
        (let lst = num_blocks b - 1;
             dv = n div LENGTH('b);
             r = bit_index TYPE('b) n;
             b1 = (if r \<noteq> 0 then
                     (let w = shr_loop r dv lst dv (m_bits b) in w[lst - dv := drop_bit r (w ! lst)])
                   else shr_copy_loop dv lst dv (m_bits b))
         in b\<lparr>m_bits := fill_n (num_blocks b - dv) dv 0 b1\<rparr>)
      else b)"

subsubsection \<open>Operations that change the size\<close>

definition bs_resize :: "nat \<Rightarrow> bool \<Rightarrow> 'b::len bitset \<Rightarrow> 'b bitset option" where
  "bs_resize num_bits value b =
     (let old_num_blocks = num_blocks b;
          required_blocks = calc_num_blocks TYPE('b) num_bits;
          v = (if value then NOT 0 else 0);
          b1 = (if required_blocks \<noteq> old_num_blocks
                then b\<lparr>m_bits := vec_resize required_blocks v (m_bits b)\<rparr> else b);
          extra_bits = count_extra_bits b1
      in if value \<and> num_bits > m_num_bits b1 \<and> extra_bits \<noteq> 0 then
           (if old_num_blocks \<ge> 1 \<and> old_num_blocks \<le> num_blocks b1 then
              m_zero_unused_bits
                (b1\<lparr>m_bits := (m_bits b1)[old_num_blocks - 1 :=
                       m_bits b1 ! (old_num_blocks - 1) OR push_bit extra_bits v],
                    m_num_bits := num_bits\<rparr>)
            else None)
         else m_zero_unused_bits (b1\<lparr>m_num_bits := num_bits\<rparr>))"

definition bs_clear :: "'b::len bitset \<Rightarrow> 'b bitset" where
  "bs_clear b = b\<lparr>m_bits := [], m_num_bits := 0\<rparr>"

definition bs_push_back :: "bool \<Rightarrow> 'b::len bitset \<Rightarrow> 'b bitset option" where
  "bs_push_back x b =
     (let sz = bs_size b in
      case bs_resize (sz + 1) False b of None \<Rightarrow> None | Some b' \<Rightarrow> bs_set_at sz x b')"

text \<open>\<^verbatim>\<open>pop_back\<close> of an empty bitset subtracts one from an unsigned zero: outside its contract.\<close>

definition bs_pop_back :: "'b::len bitset \<Rightarrow> 'b bitset option" where
  "bs_pop_back b =
     (if m_num_bits b = 0 then None
      else (let old_num_blocks = num_blocks b;
                required_blocks = calc_num_blocks TYPE('b) (m_num_bits b - 1);
                b1 = (if required_blocks \<noteq> old_num_blocks
                      then b\<lparr>m_bits := butlast (m_bits b)\<rparr> else b)
            in m_zero_unused_bits (b1\<lparr>m_num_bits := m_num_bits b1 - 1\<rparr>)))"

definition bs_append :: "'b::len word \<Rightarrow> 'b bitset \<Rightarrow> 'b bitset option" where
  "bs_append value b =
     (let r = count_extra_bits b;
          ws = (if r = 0 then m_bits b @ [value]
                else (let ws1 = m_bits b @ [drop_bit (LENGTH('b) - r) value];
                          k = length ws1 - 2
                      in ws1[k := ws1 ! k OR push_bit r value]));
          b' = b\<lparr>m_bits := ws, m_num_bits := m_num_bits b + LENGTH('b)\<rparr>
      in if m_check_invariants b' then Some b' else None)"

text \<open>The \<^verbatim>\<open>do\<close> loop of \<^verbatim>\<open>m_append\<close>: each pushed block joins the high part of one input block to
  the low part of the next.\<close>

fun m_append_loop :: "nat \<Rightarrow> 'b::len word list \<Rightarrow> 'b word list" where
  "m_append_loop r [] = []"
| "m_append_loop r (x # xs) =
     (drop_bit (LENGTH('b) - r) x OR (case xs of [] \<Rightarrow> 0 | y # _ \<Rightarrow> push_bit r y)) # m_append_loop r xs"

definition m_append :: "'b::len word list \<Rightarrow> 'b bitset \<Rightarrow> 'b bitset option" where
  "m_append vs b =
     (case vs of [] \<Rightarrow> None
      | v # _ \<Rightarrow>
        (let r = count_extra_bits b;
             d = length vs
         in if r = 0 then
              Some (b\<lparr>m_bits := m_bits b @ vs, m_num_bits := m_num_bits b + LENGTH('b) * d\<rparr>)
            else
              (case m_highest_block b of None \<Rightarrow> None
               | Some h \<Rightarrow>
                   Some (b\<lparr>m_bits := (m_bits b)[num_blocks b - 1 := h OR push_bit r v] @ m_append_loop r vs,
                           m_num_bits := m_num_bits b + LENGTH('b) * d\<rparr>))))"

definition bs_append_range :: "'b::len word list \<Rightarrow> 'b bitset \<Rightarrow> 'b bitset option" where
  "bs_append_range vs b = (if vs \<noteq> [] then m_append vs b else Some b)"

subsubsection \<open>Predicates\<close>

definition bs_all :: "'b::len bitset \<Rightarrow> bool option" where
  "bs_all b =
     (if bs_empty b then Some True
      else (let extra_bits = count_extra_bits b; all_ones = NOT 0 in
        if extra_bits = 0 then Some (all_upto (num_blocks b) (\<lambda>i. m_bits b ! i = all_ones))
        else if \<not> all_upto (num_blocks b - 1) (\<lambda>i. m_bits b ! i = all_ones) then Some False
        else (case m_highest_block b of None \<Rightarrow> None
              | Some h \<Rightarrow> Some (h = NOT (push_bit extra_bits (NOT 0))))))"

definition bs_any :: "'b::len bitset \<Rightarrow> bool" where
  "bs_any b = (\<not> all_upto (num_blocks b) (\<lambda>i. m_bits b ! i = 0))"

definition bs_none :: "'b::len bitset \<Rightarrow> bool" where
  "bs_none b = (\<not> bs_any b)"

definition is_subset_of :: "'b::len bitset \<Rightarrow> 'b bitset \<Rightarrow> bool option" where
  "is_subset_of b a =
     (if bs_size b = bs_size a
      then Some (all_upto (num_blocks b) (\<lambda>i. m_bits b ! i AND NOT (m_bits a ! i) = 0))
      else None)"

fun proper_subset_loop :: "'b::len word list \<Rightarrow> 'b word list \<Rightarrow> bool \<Rightarrow> bool" where
  "proper_subset_loop (bt # bts) (ba # bas) proper =
     (if bt AND NOT ba \<noteq> 0 then False
      else proper_subset_loop bts bas (proper \<or> ba AND NOT bt \<noteq> 0))"
| "proper_subset_loop _ _ proper = proper"

definition is_proper_subset_of :: "'b::len bitset \<Rightarrow> 'b bitset \<Rightarrow> bool option" where
  "is_proper_subset_of b a =
     (if bs_size b = bs_size a \<and> num_blocks b = num_blocks a
      then Some (proper_subset_loop (m_bits b) (m_bits a) False) else None)"

definition bs_intersects :: "'b::len bitset \<Rightarrow> 'b bitset \<Rightarrow> bool" where
  "bs_intersects b a =
     (let common_blocks = (if num_blocks b < num_blocks a then num_blocks b else num_blocks a)
      in \<not> all_upto common_blocks (\<lambda>i. m_bits b ! i AND m_bits a ! i = 0))"

subsubsection \<open>Comparison\<close>

definition bs_eq :: "'b::len bitset \<Rightarrow> 'b bitset \<Rightarrow> bool" where
  "bs_eq a b = (m_num_bits a = m_num_bits b \<and> m_bits a = m_bits b)"

fun less_loop :: "'b::len word list \<Rightarrow> 'b word list \<Rightarrow> nat \<Rightarrow> bool" where
  "less_loop a b 0 = False"
| "less_loop a b (Suc i) =
     (if a ! i < b ! i then True else if a ! i > b ! i then False else less_loop a b i)"

definition bs_less :: "'b::len bitset \<Rightarrow> 'b bitset \<Rightarrow> bool option" where
  "bs_less a b =
     (if bs_size a = bs_size b then Some (less_loop (m_bits a) (m_bits b) (num_blocks a)) else None)"

definition bs_greater :: "'b::len bitset \<Rightarrow> 'b bitset \<Rightarrow> bool option" where
  "bs_greater a b = bs_less b a"

definition bs_less_eq :: "'b::len bitset \<Rightarrow> 'b bitset \<Rightarrow> bool option" where
  "bs_less_eq a b = map_option Not (bs_greater a b)"

definition bs_greater_eq :: "'b::len bitset \<Rightarrow> 'b bitset \<Rightarrow> bool option" where
  "bs_greater_eq a b = map_option Not (bs_less a b)"

subsection \<open>The bits of a buffer\<close>

text \<open>
  The abstraction: \<open>flat ws i\<close> is bit \<open>i\<close> of the buffer read as one row of bits, and \<open>bools b\<close> the
  bits \<open>0 \<dots> size() - 1\<close> of a bitset as a list, least significant first.
\<close>

definition flat :: "'b::len word list \<Rightarrow> nat \<Rightarrow> bool" where
  "flat ws i = (i < length ws * LENGTH('b) \<and> bit (ws ! (i div LENGTH('b))) (i mod LENGTH('b)))"

definition bools :: "'b::len bitset \<Rightarrow> bool list" where
  "bools b = map (flat (m_bits b)) [0..<m_num_bits b]"

lemmas bitset_index_defs = block_index_def bit_index_def bit_mask_def bs_size_def num_blocks_def
  count_extra_bits_def bs_empty_def

lemma length_bools [simp]: "length (bools b) = m_num_bits b"
  by (simp add: bools_def)

lemma nth_bools [simp]: "i < m_num_bits b \<Longrightarrow> bools b ! i = flat (m_bits b) i"
  by (simp add: bools_def)

lemma bools_eqI:
  assumes "m_num_bits b = length xs" and "\<And>i. i < length xs \<Longrightarrow> flat (m_bits b) i = xs ! i"
  shows "bools b = xs"
  using assms by (auto intro: nth_equalityI)

lemma flat_Nil [simp]: "\<not> flat ([] :: 'b::len word list) i"
  by (simp add: flat_def)

lemma flat_at [blocks]:
  "k < length ws \<Longrightarrow> j < LENGTH('b) \<Longrightarrow> flat (ws :: 'b::len word list) (k * LENGTH('b) + j) = bit (ws ! k) j"
proof -
  assume k: "k < length ws" and j: "j < LENGTH('b)"
  have "k * LENGTH('b) + j < Suc k * LENGTH('b)"
    using j by simp
  also have "\<dots> \<le> length ws * LENGTH('b)"
    using k by (intro mult_le_mono1) simp
  finally show ?thesis
    using j by (simp add: flat_def)
qed

lemma flat_in_range: "flat (ws :: 'b::len word list) i \<Longrightarrow> i < length ws * LENGTH('b)"
  by (simp add: flat_def)

lemma flat_update [flat_simps]:
  "k < length ws \<Longrightarrow>
     flat (ws[k := v]) i = (if i div LENGTH('b) = k then bit v (i mod LENGTH('b)) else flat ws i)"
  for ws :: "'b::len word list"
  by (auto simp: flat_def nth_list_update div_less_iff_mult dest: div_less_iff_mult [THEN iffD1, rotated])

lemma flat_append [flat_simps]:
  "flat (xs @ ys) i =
     (if i < length xs * LENGTH('b) then flat xs i else flat ys (i - length xs * LENGTH('b)))"
  for xs :: "'b::len word list"
proof (cases "i < length xs * LENGTH('b)")
  case True
  then have "i div LENGTH('b) < length xs"
    by (simp add: div_less_iff_mult)
  with True show ?thesis
    by (auto simp: flat_def nth_append algebra_simps)
next
  case False
  then obtain j where j: "i = length xs * LENGTH('b) + j"
    by (metis le_add_diff_inverse not_less)
  then show ?thesis
    by (simp add: flat_def nth_append algebra_simps)
qed

lemma flat_map:
  "i < length ws * LENGTH('b) \<Longrightarrow>
     flat (map f ws :: 'b::len word list) i = bit (f (ws ! (i div LENGTH('b)))) (i mod LENGTH('b))"
  by (simp add: flat_def div_less_iff_mult)

lemma bit_word_mod [simp]: "i mod LENGTH('b) < LENGTH('b::len)"
  by simp

lemma calc_num_blocks_le_iff:
  "calc_num_blocks TYPE('b::len) n \<le> k \<longleftrightarrow> n \<le> k * LENGTH('b)"
  unfolding calc_num_blocks_def by (rule ceil_div_le) simp

lemma calc_num_blocks_bounds:
  "n \<le> calc_num_blocks TYPE('b::len) n * LENGTH('b)"
  "n mod LENGTH('b) = 0 \<Longrightarrow> calc_num_blocks TYPE('b) n * LENGTH('b) = n"
  "n mod LENGTH('b) \<noteq> 0 \<Longrightarrow> calc_num_blocks TYPE('b) n = n div LENGTH('b) + 1"
  by (auto simp: calc_num_blocks_def simp flip: calc_num_blocks_le_iff)

subsection \<open>The class invariant\<close>

text \<open>Positions at or past \<open>n\<close> in a buffer of \<open>calc_num_blocks n\<close> blocks lie in the last block.\<close>

lemma unused_position:
  assumes "length ws = calc_num_blocks TYPE('b::len) n" and "n \<le> i" and "i < length ws * LENGTH('b)"
  shows "n mod LENGTH('b) \<noteq> 0" and "i div LENGTH('b) = n div LENGTH('b)"
    and "n mod LENGTH('b) \<le> i mod LENGTH('b)" and "length ws = n div LENGTH('b) + 1"
proof -
  show ex: "n mod LENGTH('b) \<noteq> 0"
    using assms calc_num_blocks_bounds(2) [where 'b = 'b, of n] by auto
  then show len: "length ws = n div LENGTH('b) + 1"
    using assms(1) calc_num_blocks_bounds(3) [where 'b = 'b, of n] by simp
  have "i div LENGTH('b) \<le> n div LENGTH('b)"
    using assms(3) len div_less_iff_mult [of "LENGTH('b)" i "length ws"] by simp
  moreover have "n div LENGTH('b) \<le> i div LENGTH('b)"
    using assms(2) by (rule div_le_mono)
  ultimately show d: "i div LENGTH('b) = n div LENGTH('b)"
    by simp
  show "n mod LENGTH('b) \<le> i mod LENGTH('b)"
    using assms(2) d by (metis add_le_cancel_left div_mult_mod_eq)
qed

lemma m_highest_block_eq:
  fixes b :: "'b::len bitset"
  assumes "num_blocks b = calc_num_blocks TYPE('b) (m_num_bits b)" and "count_extra_bits b \<noteq> 0"
  shows "m_highest_block b = Some (m_bits b ! (m_num_bits b div LENGTH('b)))"
    and "num_blocks b - 1 = m_num_bits b div LENGTH('b)" and "0 < num_blocks b"
proof -
  have len: "length (m_bits b) = m_num_bits b div LENGTH('b) + 1"
    using assms calc_num_blocks_bounds(3) [where 'b = 'b, of "m_num_bits b"]
    by (simp add: bitset_index_defs)
  moreover have "0 < m_num_bits b"
    using assms(2) by (auto simp: bitset_index_defs intro: Nat.gr0I)
  moreover have "m_bits b \<noteq> []"
    using len by auto
  ultimately show "m_highest_block b = Some (m_bits b ! (m_num_bits b div LENGTH('b)))"
    by (simp add: m_highest_block_def bitset_index_defs last_conv_nth)
  show "num_blocks b - 1 = m_num_bits b div LENGTH('b)" "0 < num_blocks b"
    using len by (simp_all add: num_blocks_def)
qed

lemma high_bits_zero_iff:
  "(h :: 'b::len word) AND NOT (mask e) = 0 \<longleftrightarrow> (\<forall>j<LENGTH('b). e \<le> j \<longrightarrow> \<not> bit h j)"
  by (auto simp: bit_eq_iff bit_simps dest: bit_imp_le_length)

lemma m_check_invariants_iff:
  "m_check_invariants b \<longleftrightarrow>
     num_blocks b = calc_num_blocks TYPE('b) (m_num_bits b)
       \<and> (\<forall>i\<ge>m_num_bits b. \<not> flat (m_bits b) i)"
  for b :: "'b::len bitset"
proof (cases "num_blocks b = calc_num_blocks TYPE('b) (m_num_bits b)")
  case False
  then show ?thesis
    by (simp add: m_check_invariants_def bs_size_def Let_def)
next
  case len: True
  let ?n = "m_num_bits b" and ?w = "LENGTH('b)"
  let ?h = "m_bits b ! (?n div ?w)"
  have len': "length (m_bits b) = calc_num_blocks TYPE('b) ?n"
    using len by (simp add: num_blocks_def)
  show ?thesis
  proof (cases "?n mod ?w = 0")
    case True
    then have "length (m_bits b) * ?w = ?n"
      using calc_num_blocks_bounds(2) len' by simp
    with True len show ?thesis
      by (auto simp: m_check_invariants_def bitset_index_defs flat_def Let_def)
  next
    case False
    then have hb: "m_highest_block b = Some ?h"
      using m_highest_block_eq(1) [OF len] by (simp add: bitset_index_defs)
    have k: "?n div ?w < length (m_bits b)"
      using False len' calc_num_blocks_bounds(3) [where 'b = 'b, of ?n] by simp
    have "(\<forall>j<?w. ?n mod ?w \<le> j \<longrightarrow> \<not> bit ?h j) \<longleftrightarrow> (\<forall>i\<ge>?n. \<not> flat (m_bits b) i)"
    proof (intro iffI allI impI notI)
      fix i assume *: "\<forall>j<?w. ?n mod ?w \<le> j \<longrightarrow> \<not> bit ?h j" "?n \<le> i" "flat (m_bits b) i"
      from unused_position [OF len' *(2) flat_in_range [OF *(3)]] *(1,3)
      show False by (simp add: flat_def)
    next
      fix j assume *: "\<forall>i\<ge>?n. \<not> flat (m_bits b) i" "j < ?w" "?n mod ?w \<le> j" "bit ?h j"
      have "?n \<le> ?n div ?w * ?w + j"
        using *(3) by (metis add_le_cancel_left div_mult_mod_eq)
      with *(1,2,4) flat_at [OF k *(2)] show False by blast
    qed
    with False len hb show ?thesis
      by (simp add: m_check_invariants_def high_bits_zero_iff bitset_index_defs Let_def)
  qed
qed

lemma m_check_invariantsD:
  assumes "m_check_invariants (b :: 'b::len bitset)"
  shows "length (m_bits b) = calc_num_blocks TYPE('b) (m_num_bits b)"
    and "m_num_bits b \<le> i \<Longrightarrow> \<not> flat (m_bits b) i"
    and "m_num_bits b \<le> length (m_bits b) * LENGTH('b)"
  using assms calc_num_blocks_bounds(1) [where 'b = 'b, of "m_num_bits b"]
  by (auto simp: m_check_invariants_iff num_blocks_def)

lemma m_check_invariantsI:
  assumes "length (m_bits b) = calc_num_blocks TYPE('b) (m_num_bits b)"
    and "\<And>i. m_num_bits b \<le> i \<Longrightarrow> flat (m_bits b) i \<Longrightarrow> False"
  shows "m_check_invariants (b :: 'b::len bitset)"
  using assms by (auto simp: m_check_invariants_iff num_blocks_def)

text \<open>\<^verbatim>\<open>m_zero_unused_bits\<close> restores the invariant and changes no used bit.\<close>

lemma m_zero_unused_bits_ok:
  fixes b :: "'b::len bitset"
  assumes len: "length (m_bits b) = calc_num_blocks TYPE('b) (m_num_bits b)"
  obtains b' where "m_zero_unused_bits b = Some b'" and "m_num_bits b' = m_num_bits b"
    and "m_check_invariants b'"
    and "\<And>i. flat (m_bits b') i = (flat (m_bits b) i \<and> i < m_num_bits b)"
proof -
  let ?n = "m_num_bits b" and ?w = "LENGTH('b)"
  let ?k = "?n div ?w" and ?e = "?n mod ?w"
  let ?b' = "b\<lparr>m_bits := (m_bits b)[?k := m_bits b ! ?k AND NOT (push_bit ?e (NOT 0))]\<rparr>"
  have len2: "num_blocks b = calc_num_blocks TYPE('b) ?n"
    using len by (simp add: num_blocks_def)
  show ?thesis
  proof (cases "?e = 0")
    case True
    then have "length (m_bits b) * ?w = ?n"
      using len calc_num_blocks_bounds(2) by simp
    then have fl: "i < ?n" if "flat (m_bits b) i" for i
      using that by (simp add: flat_def)
    then have "m_check_invariants b"
      using len by (intro m_check_invariantsI) (auto simp: not_less dest: fl)
    moreover have "m_zero_unused_bits b = Some b"
      using True len2 by (simp add: m_zero_unused_bits_def bitset_index_defs)
    ultimately show ?thesis
      using fl by (intro that [of b]) blast+
  next
    case False
    then have hb: "m_highest_block b = Some (m_bits b ! ?k)" and k1: "num_blocks b - 1 = ?k"
      using m_highest_block_eq(1,2) [OF len2] by (simp_all add: bitset_index_defs)
    have k: "?k < length (m_bits b)"
      using False len calc_num_blocks_bounds(3) [where 'b = 'b, of ?n] by simp
    have fl: "flat (m_bits ?b') i = (flat (m_bits b) i \<and> i < ?n)" for i
    proof (cases "i div ?w = ?k")
      case True
      then have "i < ?n \<longleftrightarrow> i mod ?w < ?e"
        by (metis add_less_cancel_left div_mult_mod_eq)
      with True k show ?thesis
        by (auto simp: flat_update flat_def bit_simps div_less_iff_mult [symmetric])
    next
      case False
      have "i < ?n" if "flat (m_bits b) i"
        using unused_position(2) [OF len _ flat_in_range [OF that]] False by (meson not_less)
      with False k show ?thesis by (auto simp: flat_update)
    qed
    then have "m_check_invariants ?b'"
      using len by (intro m_check_invariantsI) auto
    moreover have "m_zero_unused_bits b = Some ?b'"
      using False hb k1 len2 by (simp add: m_zero_unused_bits_def bitset_index_defs)
    ultimately show ?thesis
      using fl by (intro that [of ?b']) simp_all
  qed
qed

subsection \<open>Refinement of lists of bits\<close>

text \<open>
  \<open>represents r xs\<close>: the operation returned (no assertion failed), its result satisfies the class
  invariant, and its bits are \<open>xs\<close>.
\<close>

definition represents :: "'b::len bitset option \<Rightarrow> bool list \<Rightarrow> bool" where
  "represents r xs = (case r of None \<Rightarrow> False | Some b \<Rightarrow> m_check_invariants b \<and> bools b = xs)"

lemma represents_Some [simp]: "represents (Some b) xs \<longleftrightarrow> m_check_invariants b \<and> bools b = xs"
  by (simp add: represents_def)

lemma representsE:
  assumes "represents r xs"
  obtains b where "r = Some b" and "m_check_invariants b" and "bools b = xs"
  using assms by (auto simp: represents_def split: option.splits)

lemma flat_bools: "m_check_invariants b \<Longrightarrow> flat (m_bits b) i = (i < m_num_bits b \<and> bools b ! i)"
  using m_check_invariantsD(2) [of b i] by (cases "i < m_num_bits b") auto

lemma represents_bits:
  assumes "length (m_bits b) = calc_num_blocks TYPE('b::len) (length xs)" and "m_num_bits b = length xs"
    and "\<And>i. i < length xs \<Longrightarrow> flat (m_bits b) i = xs ! i"
    and "\<And>i. length xs \<le> i \<Longrightarrow> \<not> flat (m_bits b) i"
  shows "represents (Some (b :: 'b bitset)) xs"
proof -
  have "m_check_invariants b"
    using assms by (intro m_check_invariantsI) simp_all
  moreover have "bools b = xs"
    using assms by (intro bools_eqI) simp_all
  ultimately show ?thesis by simp
qed

lemma represents_zero_unused:
  assumes "length (m_bits b) = calc_num_blocks TYPE('b::len) (length xs)" and "m_num_bits b = length xs"
    and "\<And>i. i < length xs \<Longrightarrow> flat (m_bits b) i = xs ! i"
  shows "represents (m_zero_unused_bits (b :: 'b bitset)) xs"
proof -
  obtain b' where *: "m_zero_unused_bits b = Some b'" "m_num_bits b' = m_num_bits b"
    "m_check_invariants b'" "\<And>i. flat (m_bits b') i = (flat (m_bits b) i \<and> i < m_num_bits b)"
    by (rule m_zero_unused_bits_ok [of b]) (use assms(1,2) in simp_all)
  have "bools b' = xs"
    using assms(2,3) *(2,4) by (intro bools_eqI) simp_all
  with *(1,3) show ?thesis by simp
qed

lemma block_of_bit:
  assumes "m_check_invariants (b :: 'b::len bitset)" and "pos < m_num_bits b"
  shows "pos div LENGTH('b) < length (m_bits b)"
  using assms m_check_invariantsD(3) [of b] by (simp add: div_less_iff_mult)

lemma same_position: "i div w = pos div w \<Longrightarrow> i mod w = pos mod w \<Longrightarrow> i = (pos::nat)"
  by (metis div_mult_mod_eq)

text \<open>One block updated so that exactly the bit at \<open>pos\<close> becomes \<open>v\<close>.\<close>

lemma represents_one_bit:
  fixes b :: "'b::len bitset"
  assumes inv: "m_check_invariants b" and pos: "pos < m_num_bits b"
    and w: "\<And>j. j < LENGTH('b) \<Longrightarrow>
              bit w j = (if j = pos mod LENGTH('b) then v else bit (m_bits b ! (pos div LENGTH('b))) j)"
  shows "represents (Some (b\<lparr>m_bits := (m_bits b)[pos div LENGTH('b) := w]\<rparr>)) ((bools b)[pos := v])"
proof (rule represents_bits)
  let ?ws = "(m_bits b)[pos div LENGTH('b) := w]"
  fix i
  have k: "pos div LENGTH('b) < length (m_bits b)"
    using inv pos by (rule block_of_bit)
  have "flat ?ws i = (if i = pos then v else flat (m_bits b) i)"
  proof (cases "i div LENGTH('b) = pos div LENGTH('b)")
    case True
    then show ?thesis
      using k w [of "i mod LENGTH('b)"] same_position [OF True]
      by (auto simp: flat_update flat_def simp flip: div_less_iff_mult)
  next
    case False
    then show ?thesis using k by (auto simp: flat_update)
  qed
  note fl = this
  show "i < length ((bools b)[pos := v]) \<Longrightarrow>
      flat (m_bits (b\<lparr>m_bits := ?ws\<rparr>)) i = (bools b)[pos := v] ! i"
    using pos by (simp add: fl nth_list_update)
  show "length ((bools b)[pos := v]) \<le> i \<Longrightarrow> \<not> flat (m_bits (b\<lparr>m_bits := ?ws\<rparr>)) i"
    using pos m_check_invariantsD(2) [OF inv, of i] by (simp add: fl)
qed (use m_check_invariantsD(1) [OF inv] in auto)

lemma bs_set_at_ok:
  "m_check_invariants b \<Longrightarrow> pos < m_num_bits b \<Longrightarrow> represents (bs_set_at pos v b) ((bools b)[pos := v])"
  for b :: "'b::len bitset"
  by (cases v)
    (auto simp: bs_set_at_def bs_reset_at_def bitset_index_defs bit_simps Let_def simp del: represents_Some
      split: if_splits intro!: represents_one_bit)

lemma bs_reset_at_ok:
  "m_check_invariants b \<Longrightarrow> pos < m_num_bits b \<Longrightarrow> represents (bs_reset_at pos b) ((bools b)[pos := False])"
  for b :: "'b::len bitset"
  by (auto simp: bs_reset_at_def bitset_index_defs bit_simps Let_def simp del: represents_Some
      split: if_splits intro!: represents_one_bit)

lemma bs_flip_at_ok:
  fixes b :: "'b::len bitset"
  assumes "m_check_invariants b" and "pos < m_num_bits b"
  shows "represents (bs_flip_at pos b) ((bools b)[pos := \<not> bools b ! pos])"
proof -
  have "flat (m_bits b) pos = bit (m_bits b ! (pos div LENGTH('b))) (pos mod LENGTH('b))"
    using block_of_bit [OF assms] by (simp add: flat_def div_less_iff_mult)
  then show ?thesis
    using assms by (auto simp: bs_flip_at_def bitset_index_defs bit_simps Let_def simp del: represents_Some
      split: if_splits intro!: represents_one_bit)
qed

lemma m_unchecked_test_flat:
  "pos < length (m_bits b) * LENGTH('b) \<Longrightarrow> m_unchecked_test pos b = flat (m_bits (b :: 'b::len bitset)) pos"
  by (simp add: m_unchecked_test_def flat_def block_index_def bit_index_def bit_mask_def
      bit_iff_and_push_bit_not_eq_0 [of "m_bits b ! _"])

lemma bs_test_ok:
  "m_check_invariants b \<Longrightarrow> bs_test pos b = (if pos < m_num_bits b then Some (bools b ! pos) else None)"
  for b :: "'b::len bitset"
  using m_check_invariantsD(3) [of b]
  by (auto simp: bs_test_def m_unchecked_test_flat)

lemma bit_of_block:
  "m_check_invariants b \<Longrightarrow> i < m_num_bits b \<Longrightarrow>
     bools b ! i = bit (m_bits b ! (i div LENGTH('b))) (i mod LENGTH('b))"
  for b :: "'b::len bitset"
  using block_of_bit [of b i] by (simp add: flat_def div_less_iff_mult)

lemma bs_set_all_ok: "m_check_invariants b \<Longrightarrow> represents (bs_set_all b) (map (\<lambda>_. True) (bools b))"
  for b :: "'b::len bitset"
  using m_check_invariantsD(1,3) [of b]
  by (auto simp: bs_set_all_def flat_map intro!: represents_zero_unused)

lemma bs_flip_all_ok: "m_check_invariants b \<Longrightarrow> represents (bs_flip_all b) (map Not (bools b))"
  for b :: "'b::len bitset"
  using m_check_invariantsD(1,3) [of b]
  by (auto simp: bs_flip_all_def flat_map bit_simps bit_of_block simp del: nth_bools
      intro!: represents_zero_unused)

lemma bs_reset_all_ok:
  "m_check_invariants b \<Longrightarrow> represents (Some (bs_reset_all b)) (replicate (m_num_bits b) False)"
  for b :: "'b::len bitset"
  using m_check_invariantsD(1) [of b]
  by (intro represents_bits) (auto simp: bs_reset_all_def flat_def div_less_iff_mult)

lemma bs_blockwise_ok:
  fixes a b :: "'b::len bitset"
  assumes a: "m_check_invariants a" and b: "m_check_invariants b" and sz: "m_num_bits a = m_num_bits b"
    and f: "\<And>x y j. j < LENGTH('b) \<Longrightarrow> bit (f x y) j = g (bit x j) (bit y j)"
    and g: "\<not> g False False"
  shows "represents (bs_blockwise f a b) (map2 g (bools a) (bools b))"
proof -
  have len: "length (m_bits b) = length (m_bits a)"
    using a b sz m_check_invariantsD(1) by metis
  let ?c = "a\<lparr>m_bits := map (\<lambda>i. f (m_bits a ! i) (m_bits b ! i)) [0..<num_blocks a]\<rparr>"
  have fl: "flat (m_bits ?c) i = g (flat (m_bits a) i) (flat (m_bits b) i)" for i
    using g len by (cases "i div LENGTH('b) < length (m_bits a)")
      (simp_all add: flat_def num_blocks_def f flip: div_less_iff_mult)
  have "represents (Some ?c) (map2 g (bools a) (bools b))"
  proof (rule represents_bits)
    fix i
    show "i < length (map2 g (bools a) (bools b)) \<Longrightarrow> flat (m_bits ?c) i = map2 g (bools a) (bools b) ! i"
      using sz fl [of i] by simp
    show "length (map2 g (bools a) (bools b)) \<le> i \<Longrightarrow> \<not> flat (m_bits ?c) i"
      using g sz fl [of i] m_check_invariantsD(2) [OF a, of i] m_check_invariantsD(2) [OF b, of i] by simp
  qed (use m_check_invariantsD(1) [OF a] sz in \<open>simp_all add: num_blocks_def\<close>)
  then show ?thesis
    using sz by (simp add: bs_blockwise_def bs_size_def)
qed

lemma bs_operators_ok:
  assumes "m_check_invariants a" and "m_check_invariants b" and "m_num_bits a = m_num_bits b"
  shows "represents (bs_and a b) (map2 (\<and>) (bools a) (bools b))"
    and "represents (bs_or a b) (map2 (\<or>) (bools a) (bools b))"
    and "represents (bs_xor a b) (map2 (\<noteq>) (bools a) (bools b))"
    and "represents (bs_minus a b) (map2 (\<lambda>x y. x \<and> \<not> y) (bools a) (bools b))"
  unfolding bs_and_def bs_or_def bs_xor_def bs_minus_def
  by (rule bs_blockwise_ok; use assms in \<open>auto simp: bit_simps\<close>)+

subsection \<open>Shifts\<close>

lemma length_shl_loop [simp]: "length (shl_loop r dv m b) = length b"
  by (induction r dv m b rule: shl_loop.induct) simp_all

lemma nth_shl_loop:
  "m + dv < length b \<Longrightarrow>
     shl_loop r dv m b ! k =
       (if dv < k \<and> k \<le> m + dv
        then push_bit r (b ! (k - dv)) OR drop_bit (LENGTH('b) - r) (b ! (k - dv - 1)) else b ! k)"
  for b :: "'b::len word list"
proof (induction r dv m b rule: shl_loop.induct)
  case (2 r dv i b)
  then show ?case
    by (cases "k = Suc i + dv") (auto simp: nth_list_update le_Suc_eq)
qed auto

lemma length_shl_copy_loop [simp]: "length (shl_copy_loop dv m b) = length b"
  by (induction dv m b rule: shl_copy_loop.induct) simp_all

lemma nth_shl_copy_loop:
  "m + dv < length b \<Longrightarrow>
     shl_copy_loop dv m b ! k = (if dv < k \<and> k \<le> m + dv then b ! (k - dv) else b ! k)"
proof (induction dv m b rule: shl_copy_loop.induct)
  case (2 dv i b)
  then show ?case
    by (cases "k = Suc i + dv") (auto simp: nth_list_update le_Suc_eq)
qed auto

declare shr_loop.simps [simp del] shr_copy_loop.simps [simp del]

lemma length_shr_loop [simp]: "length (shr_loop r dv lst i b) = length b"
  by (induction r dv lst i b rule: shr_loop.induct) (simp add: shr_loop.simps)

lemma nth_shr_loop:
  "dv \<le> i \<Longrightarrow> lst < length b \<Longrightarrow>
     shr_loop r dv lst i b ! k =
       (if i - dv \<le> k \<and> k < lst - dv
        then drop_bit r (b ! (k + dv)) OR push_bit (LENGTH('b) - r) (b ! Suc (k + dv)) else b ! k)"
  for b :: "'b::len word list"
proof (induction r dv lst i b rule: shr_loop.induct)
  case (1 r dv lst i b)
  show ?case
  proof (cases "i < lst")
    case True
    with 1 show ?thesis
      by (subst shr_loop.simps) (auto simp: nth_list_update Suc_diff_le)
  next
    case False
    with 1 show ?thesis by (subst shr_loop.simps) auto
  qed
qed

lemma length_shr_copy_loop [simp]: "length (shr_copy_loop dv lst i b) = length b"
  by (induction dv lst i b rule: shr_copy_loop.induct) (simp add: shr_copy_loop.simps)

lemma nth_shr_copy_loop:
  "dv \<le> i \<Longrightarrow> lst < length b \<Longrightarrow>
     shr_copy_loop dv lst i b ! k = (if i - dv \<le> k \<and> k \<le> lst - dv \<and> i \<le> lst then b ! (k + dv) else b ! k)"
proof (induction dv lst i b rule: shr_copy_loop.induct)
  case (1 dv lst i b)
  show ?case
  proof (cases "i \<le> lst")
    case True
    with 1 show ?thesis
      by (subst shr_copy_loop.simps) (auto simp: nth_list_update Suc_diff_le not_less_eq_eq)
  next
    case False
    with 1 show ?thesis by (subst shr_copy_loop.simps) auto
  qed
qed

lemma drop_bit_width [simp]: "LENGTH('b) \<le> n \<Longrightarrow> drop_bit n (x :: 'b::len word) = 0"
  by (auto simp: bit_eq_iff bit_simps dest: bit_imp_le_length)

text \<open>The buffer after the loop of \<^verbatim>\<open>operator<<=\<close>, block by block, for \<open>r = 0\<close> and \<open>r \<noteq> 0\<close> alike.\<close>

definition shl_blocks :: "nat \<Rightarrow> 'b::len word list \<Rightarrow> 'b word list" where
  "shl_blocks n ws =
     (let lst = length ws - 1; dv = n div LENGTH('b); r = bit_index TYPE('b) n;
          b1 = (if r \<noteq> 0 then (let w = shl_loop r dv (lst - dv) ws in w[dv := push_bit r (w ! 0)])
                else (let w = shl_copy_loop dv (lst - dv) ws in w[dv := w ! 0]))
      in fill_n 0 dv 0 b1)"

lemma length_shl_blocks [simp]: "length (shl_blocks n ws) = length ws"
  by (simp add: shl_blocks_def Let_def)

lemma nth_shl_blocks:
  fixes ws :: "'b::len word list"
  assumes "n div LENGTH('b) < length ws" and "k < length ws"
  shows "shl_blocks n ws ! k =
    (if k < n div LENGTH('b) then 0
     else push_bit (n mod LENGTH('b)) (ws ! (k - n div LENGTH('b)))
            OR (if k = n div LENGTH('b) then 0
                else drop_bit (LENGTH('b) - n mod LENGTH('b)) (ws ! (k - n div LENGTH('b) - 1))))"
  using assms
  by (auto simp: shl_blocks_def bit_index_def Let_def nth_fill_n nth_list_update nth_shl_loop
      nth_shl_copy_loop)

lemma flat_shl_blocks:
  fixes ws :: "'b::len word list"
  assumes n: "n < length ws * LENGTH('b)" and i: "i < length ws * LENGTH('b)"
  shows "flat (shl_blocks n ws) i = (n \<le> i \<and> flat ws (i - n))"
proof -
  let ?w = "LENGTH('b)"
  have k: "i div ?w < length ws" and dv: "n div ?w < length ws"
    using n i by (simp_all add: div_less_iff_mult)
  have fl: "flat (shl_blocks n ws) i = bit (shl_blocks n ws ! (i div ?w)) (i mod ?w)"
    using i by (simp add: flat_def)
  have fl2: "flat ws (i - n) = bit (ws ! ((i - n) div ?w)) ((i - n) mod ?w)"
    using i by (simp add: flat_def less_imp_diff_less)
  show ?thesis
  proof (cases "n \<le> i")
    case False
    then have "i div ?w \<le> n div ?w" and "i div ?w = n div ?w \<Longrightarrow> i mod ?w < n mod ?w"
      by (auto intro: div_le_mono) (metis add_less_cancel_left div_mult_mod_eq not_le)
    with False k dv fl show ?thesis
      by (auto simp: nth_shl_blocks bit_simps)
  next
    case le: True
    have rw: "n mod ?w < ?w" by simp
    show ?thesis
    proof (cases "n mod ?w \<le> i mod ?w")
      case True
      then have *: "n div ?w \<le> i div ?w" "(i - n) div ?w = i div ?w - n div ?w"
          "(i - n) mod ?w = i mod ?w - n mod ?w"
        using div_mod_diff(1) [OF _ le, of ?w] by auto
      have "\<not> bit x (?w - n mod ?w + i mod ?w)" for x :: "'b word"
        using True rw by (auto dest: bit_imp_le_length)
      with True le k dv fl fl2 * show ?thesis
        by (auto simp: nth_shl_blocks bit_simps)
    next
      case False
      then have *: "n div ?w < i div ?w" "(i - n) div ?w = i div ?w - n div ?w - 1"
          "(i - n) mod ?w = ?w - n mod ?w + i mod ?w"
        using div_mod_diff(2) [OF _ le, of ?w] by auto
      with False le k dv fl fl2 show ?thesis
        by (auto simp: nth_shl_blocks bit_simps)
    qed
  qed
qed

lemma bs_shl_ok:
  fixes b :: "'b::len bitset"
  assumes inv: "m_check_invariants b"
  shows "represents (bs_shl n b) (replicate (min n (m_num_bits b)) False @ take (m_num_bits b - n) (bools b))"
proof (cases "n \<ge> m_num_bits b")
  case True
  then show ?thesis
    using bs_reset_all_ok [OF inv] by (simp add: bs_shl_def)
next
  case lt: False
  show ?thesis
  proof (cases "n = 0")
    case True
    then show ?thesis using inv lt by (simp add: bs_shl_def)
  next
    case False
    let ?xs = "replicate (min n (m_num_bits b)) False @ take (m_num_bits b - n) (bools b)"
    have eq: "bs_shl n b = m_zero_unused_bits (b\<lparr>m_bits := shl_blocks n (m_bits b)\<rparr>)"
      using lt False by (simp add: bs_shl_def shl_blocks_def num_blocks_def Let_def)
    show ?thesis unfolding eq
    proof (rule represents_zero_unused)
      fix i assume "i < length ?xs"
      then have "i < m_num_bits b" using lt by simp
      then show "flat (m_bits (b\<lparr>m_bits := shl_blocks n (m_bits b)\<rparr>)) i = ?xs ! i"
        using lt m_check_invariantsD(3) [OF inv] by (auto simp: flat_shl_blocks nth_append)
    qed (use lt m_check_invariantsD(1) [OF inv] in auto)
  qed
qed

definition shr_blocks :: "nat \<Rightarrow> 'b::len word list \<Rightarrow> 'b word list" where
  "shr_blocks n ws =
     (let lst = length ws - 1; dv = n div LENGTH('b); r = bit_index TYPE('b) n;
          b1 = (if r \<noteq> 0 then (let w = shr_loop r dv lst dv ws in w[lst - dv := drop_bit r (w ! lst)])
                else shr_copy_loop dv lst dv ws)
      in fill_n (length ws - dv) dv 0 b1)"

lemma length_shr_blocks [simp]: "length (shr_blocks n ws) = length ws"
  by (simp add: shr_blocks_def Let_def)

lemma nth_shr_blocks:
  fixes ws :: "'b::len word list"
  assumes "n div LENGTH('b) < length ws" and "k < length ws"
  shows "shr_blocks n ws ! k =
    (if length ws \<le> k + n div LENGTH('b) then 0
     else drop_bit (n mod LENGTH('b)) (ws ! (k + n div LENGTH('b)))
            OR (if Suc (k + n div LENGTH('b)) = length ws then 0
                else push_bit (LENGTH('b) - n mod LENGTH('b)) (ws ! Suc (k + n div LENGTH('b)))))"
proof -
  have p0: "push_bit LENGTH('b) (x :: 'b word) = 0" for x
    by (auto simp: bit_eq_iff bit_simps)
  show ?thesis
    using assms
    by (auto simp: shr_blocks_def bit_index_def Let_def nth_fill_n nth_list_update nth_shr_loop
        nth_shr_copy_loop p0)
qed

lemma flat_shr_blocks:
  fixes ws :: "'b::len word list"
  assumes n: "n < length ws * LENGTH('b)" and i: "i < length ws * LENGTH('b)"
  shows "flat (shr_blocks n ws) i = flat ws (i + n)"
proof -
  let ?w = "LENGTH('b)"
  let ?i = "i + n"
  have k: "i div ?w < length ws" and dv: "n div ?w < length ws"
    using n i by (simp_all add: div_less_iff_mult)
  have fl: "flat (shr_blocks n ws) i = bit (shr_blocks n ws ! (i div ?w)) (i mod ?w)"
    using i by (simp add: flat_def)
  have fl2: "flat ws ?i = (?i div ?w < length ws \<and> bit (ws ! (?i div ?w)) (?i mod ?w))"
    by (simp add: flat_def div_less_iff_mult)
  have rw: "n mod ?w < ?w" "?i mod ?w < ?w" by simp_all
  show ?thesis
  proof (cases "n mod ?w \<le> ?i mod ?w")
    case True
    then have *: "?i div ?w = i div ?w + n div ?w" "?i mod ?w = i mod ?w + n mod ?w"
      using div_mod_diff(1) [of ?w n ?i] by auto
    have "\<not> ?w - n mod ?w \<le> i mod ?w"
      using rw(2) *(2) by linarith
    then show ?thesis
      using k dv fl fl2 * by (auto simp: nth_shr_blocks bit_simps add.commute)
  next
    case False
    then have *: "n div ?w < ?i div ?w" "i div ?w = ?i div ?w - n div ?w - 1"
        "i mod ?w = ?w - n mod ?w + ?i mod ?w"
      using div_mod_diff(2) [of ?w n ?i] by auto
    then have d: "?i div ?w = Suc (i div ?w + n div ?w)" by linarith
    have "\<not> bit x (n mod ?w + i mod ?w)" for x :: "'b word"
      using rw(1) *(3) by (auto dest: bit_imp_le_length)
    moreover have "i mod ?w - (?w - n mod ?w) = ?i mod ?w" "?w - n mod ?w \<le> i mod ?w"
      using *(3) by simp_all
    ultimately show ?thesis
      using k dv fl fl2 d by (auto simp: nth_shr_blocks bit_simps)
  qed
qed

lemma bs_shr_ok:
  fixes b :: "'b::len bitset"
  assumes inv: "m_check_invariants b"
  shows "represents (Some (bs_shr n b)) (drop n (bools b) @ replicate (min n (m_num_bits b)) False)"
proof (cases "n \<ge> m_num_bits b")
  case True
  then show ?thesis
    using bs_reset_all_ok [OF inv] by (simp add: bs_shr_def)
next
  case lt: False
  show ?thesis
  proof (cases "n = 0")
    case True
    then show ?thesis using inv lt by (simp add: bs_shr_def)
  next
    case False
    let ?xs = "drop n (bools b) @ replicate (min n (m_num_bits b)) False"
    have eq: "bs_shr n b = b\<lparr>m_bits := shr_blocks n (m_bits b)\<rparr>"
      using lt False by (simp add: bs_shr_def shr_blocks_def num_blocks_def Let_def)
    have fl: "flat (shr_blocks n (m_bits b)) i = flat (m_bits b) (i + n)" if "i < length (m_bits b) * LENGTH('b)" for i
      using that lt m_check_invariantsD(3) [OF inv] by (intro flat_shr_blocks) simp_all
    show ?thesis unfolding eq
    proof (rule represents_bits)
      fix i
      show "i < length ?xs \<Longrightarrow> flat (m_bits (b\<lparr>m_bits := shr_blocks n (m_bits b)\<rparr>)) i = ?xs ! i"
        using lt m_check_invariantsD(3) [OF inv] m_check_invariantsD(2) [OF inv, of "i + n"]
        by (auto simp: fl nth_append add.commute)
      show "length ?xs \<le> i \<Longrightarrow> \<not> flat (m_bits (b\<lparr>m_bits := shr_blocks n (m_bits b)\<rparr>)) i"
        using lt m_check_invariantsD(2) [OF inv, of "i + n"] flat_in_range [of "shr_blocks n (m_bits b)" i]
        by (auto simp: fl)
    qed (use lt m_check_invariantsD(1) [OF inv] in auto)
  qed
qed

subsection \<open>Changes of size\<close>

lemma calc_num_blocks_mono: "m \<le> n \<Longrightarrow> calc_num_blocks TYPE('b::len) m \<le> calc_num_blocks TYPE('b) n"
  using calc_num_blocks_bounds(1) [where 'b = 'b, of n] by (simp add: calc_num_blocks_le_iff)

lemma flat_vec_resize [flat_simps]:
  "i < k * LENGTH('b) \<Longrightarrow> flat (vec_resize k v ws) i =
     (if i < length ws * LENGTH('b) then flat ws i else bit v (i mod LENGTH('b)))"
  for v :: "'b::len word"
  by (auto simp: flat_def nth_vec_resize simp flip: div_less_iff_mult)

lemma flat_or_update [flat_simps]:
  "q < length ws \<Longrightarrow>
     flat (ws[q := ws ! q OR x]) i = (flat ws i \<or> (i div LENGTH('b) = q \<and> bit x (i mod LENGTH('b))))"
  for x :: "'b::len word"
  by (cases "i div LENGTH('b) = q") (auto simp: flat_def nth_list_update bit_simps simp flip: div_less_iff_mult)

text \<open>The three shapes \<^verbatim>\<open>resize\<close> takes: old unused bits set, buffer enlarged or shrunk, or no work.\<close>

lemma bs_resize_ok:
  fixes b :: "'b::len bitset"
  assumes inv: "m_check_invariants b"
  shows "represents (bs_resize m v b) (vec_resize m v (bools b))"
proof -
  let ?n = "m_num_bits b" and ?w = "LENGTH('b)"
  let ?k = "calc_num_blocks TYPE('b) m" and ?v = "if v then NOT 0 else 0 :: 'b word"
  define ws where "ws = (if ?k \<noteq> num_blocks b then vec_resize ?k ?v (m_bits b) else m_bits b)"
  have len: "length (m_bits b) = calc_num_blocks TYPE('b) ?n" and top: "?n \<le> length (m_bits b) * ?w"
    and zero: "\<And>i. ?n \<le> i \<Longrightarrow> \<not> flat (m_bits b) i"
    using m_check_invariantsD [OF inv] by simp_all
  have lenws: "length ws = ?k" by (auto simp: ws_def num_blocks_def)
  have mk: "m \<le> ?k * ?w" by (rule calc_num_blocks_bounds)
  have fl: "flat ws i = (if i < length (m_bits b) * ?w then flat (m_bits b) i else v)" if "i < m" for i
    using that mk by (auto simp: ws_def num_blocks_def flat_vec_resize)
  show ?thesis
  proof (cases "v \<and> ?n < m \<and> ?n mod ?w \<noteq> 0")
    case True
    let ?q = "?n div ?w"
    have lenb: "length (m_bits b) = ?q + 1"
      using True len calc_num_blocks_bounds(3) [where 'b = 'b, of ?n] by simp
    have le: "length (m_bits b) \<le> ?k"
      unfolding len using True by (intro calc_num_blocks_mono) simp
    let ?ws' = "ws[?q := ws ! ?q OR push_bit (?n mod ?w) (NOT 0)]"
    have eq: "bs_resize m v b = m_zero_unused_bits (b\<lparr>m_bits := ?ws', m_num_bits := m\<rparr>)"
      using True lenb le lenws by (simp add: bs_resize_def ws_def bitset_index_defs Let_def split: if_splits)
    show ?thesis unfolding eq
    proof (rule represents_zero_unused)
      fix i assume i: "i < length (vec_resize m v (bools b))"
      have q: "?q < length ws" using lenb le lenws by simp
      have "flat ?ws' i = (flat ws i \<or> (i div ?w = ?q \<and> ?n mod ?w \<le> i mod ?w))"
        using q by (auto simp: flat_or_update bit_simps)
      moreover have "?n mod ?w \<le> i mod ?w \<longleftrightarrow> ?n \<le> i" if "i div ?w = ?q"
        using that by (metis add_le_cancel_left div_mult_mod_eq)
      moreover have "i div ?w = ?q" if "?n \<le> i" "i < length (m_bits b) * ?w"
        using unused_position(2) [OF len that] .
      ultimately show "flat (m_bits (b\<lparr>m_bits := ?ws', m_num_bits := m\<rparr>)) i = vec_resize m v (bools b) ! i"
        using True i top fl [of i] zero [of i] by (auto simp: nth_vec_resize not_less)
    qed (use lenws in simp_all)
  next
    case False
    have eq: "bs_resize m v b = m_zero_unused_bits (b\<lparr>m_bits := ws, m_num_bits := m\<rparr>)"
      using False by (auto simp: bs_resize_def ws_def bitset_index_defs Let_def)
    show ?thesis unfolding eq
    proof (rule represents_zero_unused)
      fix i assume i: "i < length (vec_resize m v (bools b))"
      have "\<not> v" if "?n \<le> i" "i < length (m_bits b) * ?w"
        using unused_position(1) [OF len that] that(1) i False by auto
      then show "flat (m_bits (b\<lparr>m_bits := ws, m_num_bits := m\<rparr>)) i = vec_resize m v (bools b) ! i"
        using i top fl [of i] zero [of i] by (auto simp: nth_vec_resize not_less)
    qed (use lenws in simp_all)
  qed
qed

end
