(* ===== verification/Bitset_Growth.thy ===== *)
theory Bitset_Growth
  imports Dynamic_Bitset
begin

text \<open>
  \<^verbatim>\<open>push_back\<close>, \<^verbatim>\<open>pop_back\<close> and the block appends of \<^verbatim>\<open>dynamic_bitset\<close>: what they do to the
  list of bits, with no assertion failing.
\<close>

lemma bs_push_back_ok:
  fixes b :: "'b::len bitset"
  assumes "m_check_invariants b"
  shows "represents (bs_push_back x b) (bools b @ [x])"
proof -
  obtain b' where b': "bs_resize (m_num_bits b + 1) False b = Some b'" "m_check_invariants b'"
    "bools b' = vec_resize (m_num_bits b + 1) False (bools b)"
    using bs_resize_ok [OF assms] by (rule representsE)
  have n': "m_num_bits b' = m_num_bits b + 1"
    using arg_cong [OF b'(3), of length] by simp
  then have "represents (bs_set_at (m_num_bits b) x b') ((bools b')[m_num_bits b := x])"
    using b'(2) by (intro bs_set_at_ok) simp_all
  moreover have "(bools b')[m_num_bits b := x] = bools b @ [x]"
    by (simp add: b'(3) vec_resize_def list_update_append)
  ultimately show ?thesis
    using b'(1) by (simp add: bs_push_back_def bs_size_def)
qed

lemma bs_pop_back_ok:
  fixes b :: "'b::len bitset"
  assumes inv: "m_check_invariants b" and ne: "0 < m_num_bits b"
  shows "represents (bs_pop_back b) (butlast (bools b))"
proof -
  let ?n = "m_num_bits b" and ?k = "calc_num_blocks TYPE('b) (m_num_bits b - 1)"
  define ws where "ws = (if ?k \<noteq> num_blocks b then butlast (m_bits b) else m_bits b)"
  have len: "length (m_bits b) = calc_num_blocks TYPE('b) ?n"
    using m_check_invariantsD(1) [OF inv] .
  have "?k \<le> calc_num_blocks TYPE('b) ?n" by (intro calc_num_blocks_mono) simp
  moreover have "calc_num_blocks TYPE('b) ?n \<le> ?k + 1"
    unfolding calc_num_blocks_le_iff
    using calc_num_blocks_bounds(1) [where 'b = 'b, of "?n - 1"] len_gt_0 [where 'a = 'b]
    unfolding add_mult_distrib by linarith
  ultimately have lenws: "length ws = ?k"
    using len by (auto simp: ws_def num_blocks_def)
  have eq: "bs_pop_back b = m_zero_unused_bits (b\<lparr>m_bits := ws, m_num_bits := ?n - 1\<rparr>)"
    using ne by (auto simp: bs_pop_back_def ws_def Let_def)
  have mk: "?n - 1 \<le> ?k * LENGTH('b)" by (rule calc_num_blocks_bounds)
  have fl: "flat ws i = flat (m_bits b) i" if "i < ?n - 1" for i
  proof -
    have "i div LENGTH('b) < length ws"
      using that mk lenws by (simp add: div_less_iff_mult)
    then show ?thesis
      by (auto simp: ws_def flat_def nth_butlast simp flip: div_less_iff_mult)
  qed
  show ?thesis unfolding eq
    by (rule represents_zero_unused) (use lenws fl ne in \<open>auto simp: nth_butlast\<close>)
qed

lemma nth_m_append_loop:
  "k < length vs \<Longrightarrow>
     m_append_loop r vs ! k = drop_bit (LENGTH('b) - r) (vs ! k) OR
       (if Suc k < length vs then push_bit r (vs ! Suc k) else 0)"
  for vs :: "'b::len word list"
proof (induction r vs arbitrary: k rule: m_append_loop.induct)
  case (2 r x xs)
  then show ?case by (cases k; cases xs) auto
qed simp

lemma length_m_append_loop [simp]: "length (m_append_loop r vs) = length vs"
  by (induction r vs rule: m_append_loop.induct) simp_all

text \<open>The bits of a range of blocks, in order.\<close>

definition block_bools :: "'b::len word list \<Rightarrow> bool list" where
  "block_bools vs = map (flat vs) [0..<length vs * LENGTH('b)]"

lemma length_block_bools [simp]: "length (block_bools (vs :: 'b::len word list)) = length vs * LENGTH('b)"
  by (simp add: block_bools_def)

lemma nth_block_bools [simp]:
  "i < length vs * LENGTH('b) \<Longrightarrow> block_bools vs ! i = flat (vs :: 'b::len word list) i"
  by (simp add: block_bools_def)

text \<open>
  The joined buffer of an append at bit offset \<open>r\<close> is the old buffer and the input shifted left by
  the old size, put together bit by bit.
\<close>

lemma flat_blockwise_or:
  assumes "length us = length zs" and "length vs = length zs"
    and "\<And>k. k < length zs \<Longrightarrow> zs ! k = us ! k OR vs ! k"
  shows "flat zs i = (flat us i \<or> flat (vs :: 'b::len word list) i)"
  using assms by (auto simp: flat_def bit_simps simp flip: div_less_iff_mult)

lemma flat_zeros [simp]: "\<not> flat (replicate n 0 :: 'b::len word list) i"
  by (auto simp: flat_def simp flip: div_less_iff_mult)

lemma flat_joined:
  fixes ws vs :: "'b::len word list"
  assumes r: "r < LENGTH('b)" and vs: "vs \<noteq> []" and ws: "ws \<noteq> []"
    and i: "i < (length ws + length vs) * LENGTH('b)"
  defines "n \<equiv> (length ws - 1) * LENGTH('b) + r"
  shows "flat (ws[length ws - 1 := last ws OR push_bit r (hd vs)] @ m_append_loop r vs) i
    = (flat ws i \<or> n \<le> i \<and> flat vs (i - n))"
proof -
  let ?zs = "ws[length ws - 1 := last ws OR push_bit r (hd vs)] @ m_append_loop r vs"
  let ?us = "ws @ replicate (length vs) 0" and ?vs = "vs @ replicate (length ws) 0"
  have n: "n div LENGTH('b) = length ws - 1" "n mod LENGTH('b) = r"
    using r by (simp_all add: n_def)
  have lt: "length ws - 1 < length ws + length vs" "0 < length vs"
    using vs ws by (simp_all add: length_greater_0_conv [symmetric] del: length_greater_0_conv)
  then have nl: "n < length ?vs * LENGTH('b)"
    using n(1) by (simp flip: div_less_iff_mult add: add.commute)
  have "?zs ! k = ?us ! k OR shl_blocks n ?vs ! k" if k: "k < length ?zs" for k
  proof (cases "k < length ws")
    case True
    then have "shl_blocks n ?vs ! k = (if k = length ws - 1 then push_bit r (hd vs) else 0)"
      using lt ws vs n by (subst nth_shl_blocks) (auto simp: nth_append hd_conv_nth)
    with True ws show ?thesis by (auto simp: nth_append nth_list_update last_conv_nth)
  next
    case False
    then obtain j where j: "k = length ws + j" and jl: "j < length vs"
      using k by (metis le_add_diff_inverse length_append length_list_update length_m_append_loop
          nat_add_left_cancel_less not_less)
    have "k - n div LENGTH('b) = Suc j" "n div LENGTH('b) < k"
      using ws n(1) j by (cases ws; simp)+
    then have "shl_blocks n ?vs ! k = push_bit r (?vs ! Suc j) OR drop_bit (LENGTH('b) - r) (?vs ! j)"
      using lt n jl j by (subst nth_shl_blocks) auto
    with j jl ws show ?thesis
      by (auto simp: nth_append nth_m_append_loop or.commute)
  qed
  then have "flat ?zs i = (flat ?us i \<or> flat (shl_blocks n ?vs) i)"
    by (intro flat_blockwise_or) simp_all
  also have "\<dots> = (flat ws i \<or> n \<le> i \<and> flat ?vs (i - n))"
    using i nl flat_in_range [of ws i] by (auto simp: flat_shl_blocks flat_append add.commute)
  also have "flat ?vs (i - n) = flat vs (i - n)"
    using flat_in_range [of vs "i - n"] by (auto simp: flat_append)
  finally show ?thesis .
qed

text \<open>Both appends, from any offset.\<close>

lemma represents_appended:
  fixes b :: "'b::len bitset"
  assumes inv: "m_check_invariants b" and vs: "vs \<noteq> []"
    and b': "m_num_bits b' = m_num_bits b + length vs * LENGTH('b)"
    and ws: "m_bits b' =
      (let r = m_num_bits b mod LENGTH('b) in
       if r = 0 then m_bits b @ vs
       else (m_bits b)[length (m_bits b) - 1 := last (m_bits b) OR push_bit r (hd vs)] @ m_append_loop r vs)"
  shows "represents (Some (b' :: 'b bitset)) (bools b @ block_bools vs)"
proof (rule represents_bits)
  let ?n = "m_num_bits b" and ?w = "LENGTH('b)"
  have len: "length (m_bits b) = calc_num_blocks TYPE('b) ?n"
    using m_check_invariantsD(1) [OF inv] .
  have "length (m_bits b') = length (m_bits b) + length vs"
    by (simp add: ws Let_def)
  then show "length (m_bits b') = calc_num_blocks TYPE('b) (length (bools b @ block_bools vs))"
    by (simp add: len calc_num_blocks_def)
  have "flat (m_bits b') i = (flat (m_bits b) i \<or> ?n \<le> i \<and> flat vs (i - ?n))"
    if i: "i < (length (m_bits b) + length vs) * ?w" for i
  proof (cases "?n mod ?w = 0")
    case True
    then have "length (m_bits b) * ?w = ?n"
      using len calc_num_blocks_bounds(2) by simp
    with True m_check_invariantsD(2) [OF inv, of i] flat_in_range [of "m_bits b" i] show ?thesis
      by (auto simp: ws flat_append)
  next
    case False
    then have l: "length (m_bits b) = ?n div ?w + 1"
      using len calc_num_blocks_bounds(3) [where 'b = 'b, of ?n] by simp
    then have ne: "m_bits b \<noteq> []" and n: "(length (m_bits b) - 1) * ?w + ?n mod ?w = ?n"
      by (auto simp: div_mult_mod_eq)
    with False flat_joined [OF _ vs ne i, of "?n mod ?w"] show ?thesis
      by (simp add: ws n Let_def)
  qed
  note fl = this
  have rng: "\<not> flat (m_bits b') i" if "\<not> i < (length (m_bits b) + length vs) * ?w" for i
    using that flat_in_range [of "m_bits b'" i] by (auto simp: ws Let_def split: if_splits)
  have top: "?n \<le> length (m_bits b) * ?w" using m_check_invariantsD(3) [OF inv] .
  fix i
  show "flat (m_bits b') i = (bools b @ block_bools vs) ! i" if i: "i < length (bools b @ block_bools vs)"
  proof -
    have "i < (length (m_bits b) + length vs) * ?w"
      using i top by (simp add: add_mult_distrib)
    then show ?thesis
      using i m_check_invariantsD(2) [OF inv, of i] by (auto simp: fl nth_append)
  qed
  show "\<not> flat (m_bits b') i" if "length (bools b @ block_bools vs) \<le> i"
    using that fl [of i] rng [of i] m_check_invariantsD(2) [OF inv, of i] flat_in_range [of vs "i - ?n"]
    by fastforce
qed (simp add: b')

lemma bs_append_range_ok:
  fixes b :: "'b::len bitset"
  assumes "m_check_invariants b"
  shows "represents (bs_append_range vs b) (bools b @ block_bools vs)"
proof (cases vs)
  case Nil
  with assms show ?thesis by (simp add: bs_append_range_def block_bools_def)
next
  case (Cons v vs')
  have nb: "num_blocks b = calc_num_blocks TYPE('b) (m_num_bits b)"
    using m_check_invariantsD(1) [OF assms] by (simp add: num_blocks_def)
  have "bs_append_range vs b = Some (b\<lparr>m_bits :=
      (let r = m_num_bits b mod LENGTH('b) in
       if r = 0 then m_bits b @ vs
       else (m_bits b)[length (m_bits b) - 1 := last (m_bits b) OR push_bit r (hd vs)] @ m_append_loop r vs),
      m_num_bits := m_num_bits b + length vs * LENGTH('b)\<rparr>)"
    using Cons m_highest_block_eq(1,3) [OF nb]
    by (auto simp: bs_append_range_def m_append_def bitset_index_defs Let_def m_highest_block_def
        mult.commute split: if_splits)
  then show ?thesis
    using Cons assms by (simp only:) (rule represents_appended; simp)
qed

lemma bs_append_ok:
  fixes b :: "'b::len bitset"
  assumes "m_check_invariants b"
  shows "represents (bs_append v b) (bools b @ block_bools [v])"
proof -
  let ?r = "m_num_bits b mod LENGTH('b)"
  let ?ws = "if ?r = 0 then m_bits b @ [v]
       else (m_bits b)[length (m_bits b) - 1 := last (m_bits b) OR push_bit ?r v] @ m_append_loop ?r [v]"
  let ?b = "b\<lparr>m_bits := ?ws, m_num_bits := m_num_bits b + LENGTH('b)\<rparr>"
  have rep: "represents (Some ?b) (bools b @ block_bools [v])"
    using assms by (rule represents_appended) (simp_all add: Let_def)
  have ne: "m_bits b \<noteq> []" if "?r \<noteq> 0"
    using that m_check_invariantsD(1) [OF assms] calc_num_blocks_bounds(3) [where 'b = 'b, of "m_num_bits b"]
    by auto
  have "(if ?r = 0 then m_bits b @ [v]
        else (let ws1 = m_bits b @ [drop_bit (LENGTH('b) - ?r) v]; k = length ws1 - 2
              in ws1[k := ws1 ! k OR push_bit ?r v])) = ?ws"
    using ne by (auto simp: Let_def nth_append list_update_append last_conv_nth)
  with rep show ?thesis
    by (simp add: bs_append_def bitset_index_defs Let_def)
qed

end
