(* ===== verification/Bitset_Query.thy ===== *)
theory Bitset_Query
  imports Dynamic_Bitset
begin

text \<open>
  Counting, searching and comparing: \<^verbatim>\<open>count\<close> with its table of \<^verbatim>\<open>detail/dynamic_bitset.hpp\<close>,
  \<^verbatim>\<open>find_first\<close> and \<^verbatim>\<open>find_next\<close> with \<^verbatim>\<open>lowest_bit\<close> and \<^verbatim>\<open>integer_log2\<close>, the predicates over all
  blocks, and the lexicographic order.
\<close>

unbundle bit_operations_syntax

subsection \<open>Definitions\<close>

definition count_table :: "nat list" where
  "count_table =
    [0, 1, 1, 2, 1, 2, 2, 3, 1, 2, 2, 3, 2, 3, 3, 4, 1, 2, 2, 3, 2, 3, 3, 4, 2, 3, 3, 4, 3, 4, 4, 5,
     1, 2, 2, 3, 2, 3, 3, 4, 2, 3, 3, 4, 3, 4, 4, 5, 2, 3, 3, 4, 3, 4, 4, 5, 3, 4, 4, 5, 4, 5, 5, 6,
     1, 2, 2, 3, 2, 3, 3, 4, 2, 3, 3, 4, 3, 4, 4, 5, 2, 3, 3, 4, 3, 4, 4, 5, 3, 4, 4, 5, 4, 5, 5, 6,
     2, 3, 3, 4, 3, 4, 4, 5, 3, 4, 4, 5, 4, 5, 5, 6, 3, 4, 4, 5, 4, 5, 5, 6, 4, 5, 5, 6, 5, 6, 6, 7,
     1, 2, 2, 3, 2, 3, 3, 4, 2, 3, 3, 4, 3, 4, 4, 5, 2, 3, 3, 4, 3, 4, 4, 5, 3, 4, 4, 5, 4, 5, 5, 6,
     2, 3, 3, 4, 3, 4, 4, 5, 3, 4, 4, 5, 4, 5, 5, 6, 3, 4, 4, 5, 4, 5, 5, 6, 4, 5, 5, 6, 5, 6, 6, 7,
     2, 3, 3, 4, 3, 4, 4, 5, 3, 4, 4, 5, 4, 5, 5, 6, 3, 4, 4, 5, 4, 5, 5, 6, 4, 5, 5, 6, 5, 6, 6, 7,
     3, 4, 4, 5, 4, 5, 5, 6, 4, 5, 5, 6, 5, 6, 6, 7, 4, 5, 5, 6, 5, 6, 6, 7, 5, 6, 6, 7, 6, 7, 7, 8]"

text \<open>The object representation of a block without padding, least significant byte first.\<close>

definition object_representation :: "'b::len word \<Rightarrow> byte_type list" where
  "object_representation w = map (\<lambda>k. ucast (drop_bit (8 * k) w)) [0..<LENGTH('b) div 8]"

fun count_bytes_loop :: "byte_type list \<Rightarrow> nat \<Rightarrow> nat" where
  "count_bytes_loop [] num = num"
| "count_bytes_loop (p # ps) num = count_bytes_loop ps (num + count_table ! unat p)"

definition do_count_bytes :: "'b::len word list \<Rightarrow> nat" where
  "do_count_bytes ws = (if length ws \<noteq> 0 then count_bytes_loop (concat (map object_representation ws)) 0 else 0)"

lemma unat_drop_bit_div: "unat (drop_bit n w) = unat (w :: 'b::len word) div 2 ^ n"
  unfolding unat_drop_bit_eq by (rule drop_bit_eq_div)

lemma unat_eq_one_iff: "unat (w :: 'b::len word) = 1 \<longleftrightarrow> w = 1"
  by (simp add: word_unat_eq_iff)

lemma unat_drop_bit_less: "w \<noteq> 0 \<Longrightarrow> 0 < n \<Longrightarrow> unat (drop_bit n w) < unat (w :: 'b::len word)"
  unfolding unat_drop_bit_div
  using one_less_power [of "2::nat" n] by (intro div_less_dividend) (simp_all add: unat_gt_0)

function count_block_loop :: "'b::len word \<Rightarrow> nat \<Rightarrow> nat" where
  "count_block_loop value num =
     (if value \<noteq> 0 then count_block_loop (drop_bit 8 value) (num + count_table ! unat (value AND mask 8))
      else num)"
  by pat_completeness auto
termination
  by (relation "measure (\<lambda>(value, num). unat value)")
    (rule wf_measure, unfold in_measure prod.case, erule unat_drop_bit_less, simp)

declare count_block_loop.simps [simp del]

fun do_count_blocks :: "'b::len word list \<Rightarrow> nat \<Rightarrow> nat" where
  "do_count_blocks [] num = num"
| "do_count_blocks (w # ws) num = do_count_blocks ws (count_block_loop w num)"

definition bs_count :: "'b::len bitset \<Rightarrow> nat" where
  "bs_count b = (if LENGTH('b) mod 8 = 0 then do_count_bytes (m_bits b) else do_count_blocks (m_bits b) 0)"

text \<open>\<^verbatim>\<open>integer_log2_impl\<close> does not return once \<open>n\<close> is 0 and \<open>x\<close> is not 1.\<close>

fun integer_log2_impl :: "'b::len word \<Rightarrow> nat \<Rightarrow> nat \<Rightarrow> nat option" where
  "integer_log2_impl x n result =
     (if x = 1 then Some result
      else if n = 0 then None
      else (let t = drop_bit n x in
            if t \<noteq> 0 then integer_log2_impl t (n div 2) (result + n)
            else integer_log2_impl x (n div 2) result))"

function max_pow2_less :: "nat \<Rightarrow> nat \<Rightarrow> nat" where
  "max_pow2_less p n = (if n \<noteq> 0 \<and> 2 * n < p then max_pow2_less p (2 * n) else n)"
  by pat_completeness auto
termination
  by (relation "measure (\<lambda>(p, n). p - n)") auto

definition integer_log2 :: "'b::len word \<Rightarrow> nat option" where
  "integer_log2 x = (if 0 < x then integer_log2_impl x (max_pow2_less LENGTH('b) 4) 0 else None)"

definition lowest_bit :: "'b::len word \<Rightarrow> nat option" where
  "lowest_bit x = (if 1 \<le> x then integer_log2 (x - (x AND (x - 1))) else None)"

function skip_null_blocks :: "nat \<Rightarrow> 'b::len word list \<Rightarrow> nat" where
  "skip_null_blocks i ws = (if i < length ws \<and> ws ! i = 0 then skip_null_blocks (Suc i) ws else i)"
  by pat_completeness auto
termination
  by (relation "measure (\<lambda>(i, ws). length ws - i)") auto

definition m_do_find_from :: "nat \<Rightarrow> 'b::len bitset \<Rightarrow> nat option" where
  "m_do_find_from first_block b =
     (let i = skip_null_blocks first_block (m_bits b) in
      if i \<ge> num_blocks b then Some npos
      else map_option (\<lambda>l. i * LENGTH('b) + l) (lowest_bit (m_bits b ! i)))"

definition bs_find_first :: "'b::len bitset \<Rightarrow> nat option" where
  "bs_find_first b = m_do_find_from 0 b"

text \<open>\<^verbatim>\<open>sz - 1\<close> wraps when \<open>sz = 0\<close>; the second disjunct then decides.\<close>

definition bs_find_next :: "nat \<Rightarrow> 'b::len bitset \<Rightarrow> nat option" where
  "bs_find_next pos b =
     (let sz = bs_size b in
      if (0 < sz \<and> pos \<ge> sz - 1) \<or> sz = 0 then Some npos
      else
        (let pos1 = pos + 1;
             blk = block_index TYPE('b) pos1;
             ind = bit_index TYPE('b) pos1;
             fore = drop_bit ind (m_bits b ! blk)
         in if fore \<noteq> 0 then map_option (\<lambda>l. pos1 + l) (lowest_bit fore)
            else m_do_find_from (blk + 1) b))"

subsection \<open>The lowest bit of a block\<close>

declare integer_log2_impl.simps [simp del] max_pow2_less.simps [simp del] skip_null_blocks.simps [simp del]

lemma max_pow2_less_ok: "0 < n \<Longrightarrow> p \<le> 2 * max_pow2_less p n \<and> (\<exists>e. max_pow2_less p n = n * 2 ^ e)"
proof (induction p n rule: max_pow2_less.induct)
  case (1 p n)
  show ?case
  proof (cases "2 * n < p")
    case True
    with 1 obtain e where "p \<le> 2 * max_pow2_less p (2 * n)" "max_pow2_less p (2 * n) = 2 * n * 2 ^ e"
      by auto
    moreover have "max_pow2_less p n = max_pow2_less p (2 * n)"
      using True 1(2) by (simp add: max_pow2_less.simps [of p n])
    ultimately show ?thesis by (auto intro: exI [of _ "Suc e"])
  next
    case False
    then have "max_pow2_less p n = n" by (simp add: max_pow2_less.simps [of p n])
    with False show ?thesis by (auto intro: exI [of _ 0])
  qed
qed

lemma integer_log2_impl_pow2:
  fixes x :: "'b::len word"
  assumes "unat x = 2 ^ k" and "k < 2 * 2 ^ e"
  shows "integer_log2_impl x (2 ^ e) r = Some (r + k)"
  using assms
proof (induction e arbitrary: x k r)
  case 0
  show ?case
  proof (cases "k = 0")
    case True
    then have "x = 1" using 0 unat_eq_one_iff [of x] by simp
    then show ?thesis using True by (simp add: integer_log2_impl.simps)
  next
    case False
    then have k: "k = 1" using 0 by simp
    then have "x \<noteq> 1" and d: "drop_bit 1 x = 1"
      using 0(1) by (auto simp: word_unat_eq_iff unat_drop_bit_div)
    then show ?thesis using k by (simp add: integer_log2_impl.simps Let_def)
  qed
next
  case (Suc e)
  let ?n = "2 ^ Suc e :: nat"
  show ?case
  proof (cases "k = 0")
    case True
    then have "x = 1" using Suc unat_eq_one_iff [of x] by simp
    then show ?thesis using True by (simp add: integer_log2_impl.simps)
  next
    case False
    then have x: "x \<noteq> 1"
      using Suc.prems(1) unat_eq_one_iff [of x] by auto
    have t: "unat (drop_bit ?n x) = 2 ^ k div 2 ^ ?n"
      using Suc.prems(1) by (simp add: unat_drop_bit_div)
    show ?thesis
    proof (cases "?n \<le> k")
      case True
      then have t2: "unat (drop_bit ?n x) = 2 ^ (k - ?n)"
        using t by (simp add: power_diff)
      then have "drop_bit ?n x \<noteq> 0" by (auto simp: unat_eq_zero [symmetric])
      moreover have "integer_log2_impl (drop_bit ?n x) (2 ^ e) (r + ?n) = Some (r + ?n + (k - ?n))"
        using t2 Suc.prems(2) True by (intro Suc.IH) auto
      ultimately show ?thesis
        using x True by (subst integer_log2_impl.simps) (simp add: Let_def)
    next
      case f: False
      then have "unat (drop_bit ?n x) = 0" using t by simp
      then have "drop_bit ?n x = 0" by (simp add: unat_eq_zero)
      moreover have "integer_log2_impl x (2 ^ e) r = Some (r + k)"
        using f Suc.prems(1) by (intro Suc.IH) auto
      ultimately show ?thesis
        using x by (subst integer_log2_impl.simps) (simp add: Let_def)
    qed
  qed
qed

lemma clear_lowest_bit:
  fixes x :: "'b::len word"
  assumes k: "bit x k" and low: "\<And>j. j < k \<Longrightarrow> \<not> bit x j"
  shows "x - (x AND (x - 1)) = 2 ^ k"
proof -
  define y where "y = x AND NOT (2 ^ k)"
  have kl: "k < LENGTH('b)" using k by (rule bit_imp_le_length)
  have ylow: "\<not> bit y j" if "j \<le> k" for j
    using that low [of j] kl by (auto simp: y_def bit_simps le_less)
  have x: "x = y OR 2 ^ k"
    using k kl by (intro bit_word_eqI) (auto simp: y_def bit_simps)
  also have "\<dots> = y + 2 ^ k"
    by (rule disjunctive_add [symmetric]) (use ylow in \<open>auto simp: bit_simps\<close>)
  finally have xs: "x = y + 2 ^ k" .
  then have "x - 1 = y + mask k"
    by (simp add: mask_eq_exp_minus_1)
  also have "\<dots> = y OR mask k"
    by (rule disjunctive_add) (use ylow in \<open>auto simp: bit_simps\<close>)
  finally have "x AND (x - 1) = (y OR 2 ^ k) AND (y OR mask k)"
    using x by simp
  also have "\<dots> = y"
    by (intro bit_word_eqI) (auto simp: bit_simps)
  finally show ?thesis using xs by simp
qed

lemma lowest_bit_ok:
  fixes x :: "'b::len word"
  assumes "x \<noteq> 0"
  obtains k where "lowest_bit x = Some k" and "bit x k" and "\<And>j. j < k \<Longrightarrow> \<not> bit x j"
proof -
  have "\<exists>j. bit x j" using assms by (auto simp: bit_eq_iff)
  define k where "k = (LEAST j. bit x j)"
  have k: "bit x k" and low: "\<And>j. j < k \<Longrightarrow> \<not> bit x j"
    using \<open>\<exists>j. bit x j\<close> by (auto simp: k_def intro: LeastI_ex dest: not_less_Least)
  have kl: "k < LENGTH('b)" using k by (rule bit_imp_le_length)
  have p: "unat (2 ^ k :: 'b word) = 2 ^ k"
    using kl unat_of_nat [of "2 ^ k", where 'a = 'b] by simp
  obtain e where e: "LENGTH('b) \<le> 2 * max_pow2_less LENGTH('b) 4" "max_pow2_less LENGTH('b) 4 = 4 * 2 ^ e"
    using max_pow2_less_ok [of 4 "LENGTH('b)"] by auto
  have "max_pow2_less LENGTH('b) 4 = 2 ^ (e + 2)" using e(2) by (simp add: power_add)
  moreover have "integer_log2_impl (2 ^ k :: 'b word) (2 ^ (e + 2)) 0 = Some (0 + k)"
    using p kl e by (intro integer_log2_impl_pow2) (auto simp: power_add)
  moreover have "(0 :: 'b word) < 2 ^ k" using kl by (simp add: word_gt_0)
  ultimately have "integer_log2 (2 ^ k :: 'b word) = Some k"
    by (simp add: integer_log2_def)
  then have "lowest_bit x = Some k"
    using assms clear_lowest_bit [OF k low]
    by (simp add: lowest_bit_def word_le_nat_alt Suc_le_eq unat_gt_0)
  with k low show ?thesis by (intro that)
qed

subsection \<open>Searching\<close>

lemma find_upt_Some:
  "P k \<Longrightarrow> i \<le> k \<Longrightarrow> k < n \<Longrightarrow> (\<And>j. i \<le> j \<Longrightarrow> j < k \<Longrightarrow> \<not> P j) \<Longrightarrow> find P [i..<n] = Some k"
proof -
  assume *: "P k" "i \<le> k" "k < n" "\<And>j. i \<le> j \<Longrightarrow> j < k \<Longrightarrow> \<not> P j"
  then show ?thesis
    unfolding find_Some_iff by (intro exI [of _ "k - i"]) auto
qed

lemma skip_null_blocks_ok:
  "i \<le> skip_null_blocks i ws \<and> (\<forall>j. i \<le> j \<and> j < skip_null_blocks i ws \<and> j < length ws \<longrightarrow> ws ! j = 0)
   \<and> (skip_null_blocks i ws < length ws \<longrightarrow> ws ! skip_null_blocks i ws \<noteq> 0)"
proof (induction i ws rule: skip_null_blocks.induct)
  case (1 i ws)
  show ?case
  proof (cases "i < length ws \<and> ws ! i = 0")
    case True
    then have "skip_null_blocks i ws = skip_null_blocks (Suc i) ws"
      by (simp add: skip_null_blocks.simps [of i ws])
    with 1 True show ?thesis
      by (metis Suc_leI Suc_le_lessD le_neq_implies_less less_imp_le_nat)
  next
    case False
    then have "skip_null_blocks i ws = i"
      by (subst skip_null_blocks.simps) auto
    with False show ?thesis by auto
  qed
qed

text \<open>The first set bit of the buffer at or after a position, as the search functions return it.\<close>

definition first_set_from :: "nat \<Rightarrow> 'b::len bitset \<Rightarrow> nat" where
  "first_set_from i b = (case find (flat (m_bits b)) [i..<m_num_bits b] of None \<Rightarrow> npos | Some k \<Rightarrow> k)"

lemma first_set_from_Some:
  assumes "m_check_invariants b" and "flat (m_bits b) k" and "i \<le> k"
    and "\<And>j. i \<le> j \<Longrightarrow> j < k \<Longrightarrow> \<not> flat (m_bits b) j"
  shows "first_set_from i b = k"
proof -
  have "k < m_num_bits b"
    using m_check_invariantsD(2) [OF assms(1), of k] assms(2) by (meson not_less)
  then have "find (flat (m_bits b)) [i..<m_num_bits b] = Some k"
    using assms(2-4) by (intro find_upt_Some)
  then show ?thesis by (simp add: first_set_from_def)
qed

lemma first_set_from_None:
  assumes "\<And>j. i \<le> j \<Longrightarrow> \<not> flat (m_bits b) j"
  shows "first_set_from i b = npos"
proof -
  have "find (flat (m_bits b)) [i..<m_num_bits b] = None"
    using assms by (auto simp: find_None_iff)
  then show ?thesis by (simp add: first_set_from_def)
qed

lemma first_set_from_step:
  assumes "i \<le> k" and "\<And>j. i \<le> j \<Longrightarrow> j < k \<Longrightarrow> \<not> flat (m_bits b) j" and "m_check_invariants b"
  shows "first_set_from i b = first_set_from k b"
proof (cases "\<exists>j\<ge>k. flat (m_bits b) j")
  case True
  define l where "l = (LEAST j. k \<le> j \<and> flat (m_bits b) j)"
  have l: "k \<le> l \<and> flat (m_bits b) l"
    unfolding l_def by (rule LeastI_ex) (use True in blast)
  have low: "\<not> flat (m_bits b) j" if "k \<le> j" "j < l" for j
    using not_less_Least [of j "\<lambda>j. k \<le> j \<and> flat (m_bits b) j"] that by (auto simp: l_def)
  have "first_set_from k b = l"
    using l low by (intro first_set_from_Some [OF assms(3)]) simp_all
  moreover have "first_set_from i b = l"
  proof (rule first_set_from_Some [OF assms(3)])
    fix j assume "i \<le> j" "j < l"
    then show "\<not> flat (m_bits b) j" using assms(2) [of j] low [of j] by (cases "j < k") simp_all
  qed (use l assms(1) in simp_all)
  ultimately show ?thesis by simp
next
  case False
  then show ?thesis
    using assms(1,2) by (metis first_set_from_None not_le)
qed

lemma m_do_find_from_ok:
  fixes b :: "'b::len bitset"
  assumes inv: "m_check_invariants b"
  shows "m_do_find_from f b = Some (first_set_from (f * LENGTH('b)) b)"
proof -
  let ?w = "LENGTH('b)" and ?i = "skip_null_blocks f (m_bits b)"
  have sk: "f \<le> ?i" "\<And>j. f \<le> j \<Longrightarrow> j < ?i \<Longrightarrow> j < length (m_bits b) \<Longrightarrow> m_bits b ! j = 0"
    "?i < length (m_bits b) \<Longrightarrow> m_bits b ! ?i \<noteq> 0"
    using skip_null_blocks_ok [of f "m_bits b"] by auto
  have none: "\<not> flat (m_bits b) j" if "f * ?w \<le> j" "j < ?i * ?w" for j
  proof -
    have "f \<le> j div ?w" using that(1) by (simp add: less_eq_div_iff_mult_less_eq)
    moreover have "j div ?w < ?i" using that(2) by (simp add: div_less_iff_mult)
    ultimately show ?thesis using sk(2) by (auto simp: flat_def simp flip: div_less_iff_mult)
  qed
  show ?thesis
  proof (cases "?i < length (m_bits b)")
    case False
    have "\<not> flat (m_bits b) j" if "f * ?w \<le> j" for j
    proof (cases "j < ?i * ?w")
      case True
      then show ?thesis using none that by blast
    next
      case f: False
      have "length (m_bits b) * ?w \<le> ?i * ?w" using False by (intro mult_le_mono1) simp
      then show ?thesis using f flat_in_range [of "m_bits b" j] by linarith
    qed
    then have "first_set_from (f * ?w) b = npos" by (rule first_set_from_None)
    then show ?thesis using False by (simp add: m_do_find_from_def num_blocks_def Let_def)
  next
    case True
    obtain l where l: "lowest_bit (m_bits b ! ?i) = Some l" "bit (m_bits b ! ?i) l"
      "\<And>j. j < l \<Longrightarrow> \<not> bit (m_bits b ! ?i) j"
      by (rule lowest_bit_ok [OF sk(3) [OF True]]) blast
    have lw: "l < ?w" using l(2) by (rule bit_imp_le_length)
    have "first_set_from (f * ?w) b = ?i * ?w + l"
    proof (rule first_set_from_Some [OF inv])
      show "flat (m_bits b) (?i * ?w + l)" using l(2) lw True by (simp add: flat_at)
      show "f * ?w \<le> ?i * ?w + l" using sk(1) by (simp add: trans_le_add1)
      fix j assume j: "f * ?w \<le> j" "j < ?i * ?w + l"
      show "\<not> flat (m_bits b) j"
      proof (cases "j < ?i * ?w")
        case False
        then obtain m where m: "j = ?i * ?w + m" by (metis le_add_diff_inverse not_less)
        with j l(3) [of m] lw True show ?thesis by (simp add: flat_at)
      qed (use none j in blast)
    qed
    with True l(1) show ?thesis by (simp add: m_do_find_from_def num_blocks_def Let_def)
  qed
qed

lemma bs_find_next_ok:
  fixes b :: "'b::len bitset"
  assumes inv: "m_check_invariants b"
  shows "bs_find_next pos b = Some (first_set_from (Suc pos) b)"
proof (cases "Suc pos < m_num_bits b")
  case False
  then have "first_set_from (Suc pos) b = npos"
    by (simp add: first_set_from_def)
  with False show ?thesis by (auto simp: bs_find_next_def bs_size_def Let_def)
next
  case True
  let ?w = "LENGTH('b)" and ?p = "Suc pos"
  let ?k = "?p div ?w" and ?j = "?p mod ?w"
  let ?fore = "drop_bit ?j (m_bits b ! ?k)"
  have k: "?k < length (m_bits b)" using block_of_bit [OF inv True] .
  have p: "?k * ?w + ?j = ?p" by simp
  have fore: "flat (m_bits b) (?p + m) = bit ?fore m" if "?j + m < ?w" for m
    using flat_at [OF k that] p by (simp add: bit_simps add.assoc [symmetric])
  have eq: "bs_find_next pos b =
     (if ?fore \<noteq> 0 then map_option (\<lambda>l. pos + 1 + l) (lowest_bit ?fore) else m_do_find_from (?k + 1) b)"
  proof -
    have "\<not> ((0 < m_num_bits b \<and> m_num_bits b - 1 \<le> pos) \<or> m_num_bits b = 0)"
      using True by linarith
    then show ?thesis
      unfolding bs_find_next_def bitset_index_defs Let_def by (simp only: if_False Suc_eq_plus1 simp_thms)
  qed
  show ?thesis
  proof (cases "?fore = 0")
    case z: True
    have "first_set_from ?p b = first_set_from ((?k + 1) * ?w) b"
    proof (rule first_set_from_step [OF _ _ inv])
      have "?j < ?w" by simp
      then show "?p \<le> (?k + 1) * ?w" using p by (metis Suc_eq_plus1 add.commute less_imp_le mult_Suc nat_add_left_cancel_le)
      fix j assume j: "?p \<le> j" "j < (?k + 1) * ?w"
      then obtain m where m: "j = ?p + m" by (metis le_add_diff_inverse)
      have "?j + m < ?w" using j(2) p unfolding m add_mult_distrib by linarith
      then show "\<not> flat (m_bits b) j" using fore z by (simp add: m)
    qed
    with z eq show ?thesis by (simp add: m_do_find_from_ok [OF inv])
  next
    case nz: False
    obtain l where l: "lowest_bit ?fore = Some l" "bit ?fore l" "\<And>j. j < l \<Longrightarrow> \<not> bit ?fore j"
      by (rule lowest_bit_ok [OF nz]) blast
    have lw: "?j + l < ?w" using l(2) by (auto simp: bit_simps dest: bit_imp_le_length)
    have "first_set_from ?p b = ?p + l"
    proof (rule first_set_from_Some [OF inv])
      show "flat (m_bits b) (?p + l)" using fore [OF lw] l(2) by simp
      fix j assume j: "?p \<le> j" "j < ?p + l"
      then obtain m where m: "j = ?p + m" by (metis le_add_diff_inverse)
      with j l(3) [of m] fore [of m] lw show "\<not> flat (m_bits b) j" by simp
    qed simp
    with nz eq l(1) show ?thesis by simp
  qed
qed

lemma bs_find_first_ok: "m_check_invariants b \<Longrightarrow> bs_find_first b = Some (first_set_from 0 b)"
  by (simp add: bs_find_first_def m_do_find_from_ok)

subsection \<open>Counting\<close>

definition popcount :: "nat \<Rightarrow> nat \<Rightarrow> nat" where
  "popcount m n = length (filter (bit n) [0..<m])"

fun popcount_table :: "nat \<Rightarrow> nat list" where
  "popcount_table 0 = [0]"
| "popcount_table (Suc k) = popcount_table k @ map Suc (popcount_table k)"

lemma length_popcount_table [simp]: "length (popcount_table k) = 2 ^ k"
  by (induction k) simp_all

lemma nth_popcount_table: "n < 2 ^ k \<Longrightarrow> popcount_table k ! n = popcount k n"
proof (induction k arbitrary: n)
  case (Suc k)
  show ?case
  proof (cases "n < 2 ^ k")
    case True
    then have "\<not> bit n k" by (simp add: bit_iff_odd)
    with True show ?thesis by (simp add: nth_append Suc.IH popcount_def)
  next
    case False
    then have n: "n = 2 ^ k + (n - 2 ^ k)" and lt: "n - 2 ^ k < 2 ^ k" using Suc.prems by simp_all
    have b: "bit n j = (j = k \<or> bit (n - 2 ^ k) j)" for j
    proof -
      have "\<not> bit (n - 2 ^ k) k" using lt by (simp add: bit_iff_odd)
      then have "2 ^ k + (n - 2 ^ k) = 2 ^ k OR (n - 2 ^ k)"
        by (intro disjunctive_add) (auto simp: bit_simps)
      with n show ?thesis by (metis bit_exp_iff bit_or_iff possible_bit_nat)
    qed
    have "filter (bit n) [0..<k] = filter (bit (n - 2 ^ k)) [0..<k]"
      by (rule filter_cong) (auto simp: b)
    with False lt show ?thesis by (simp add: nth_append Suc.IH popcount_def b [of k])
  qed
qed (simp add: popcount_def)

lemma count_table_eq: "count_table = popcount_table 8"
  by (simp add: count_table_def eval_nat_numeral)

lemma count_table_byte: "count_table ! unat (w :: byte_type) = length (filter (bit w) [0..<8])"
proof -
  have "unat w < 2 ^ 8" using unsigned_less [of w] by simp
  moreover have "filter (bit (unat w)) [0..<8] = filter (bit w) [0..<8]"
    by (rule filter_cong) (simp_all add: bit_unsigned_iff)
  ultimately show ?thesis by (simp add: count_table_eq nth_popcount_table popcount_def)
qed

text \<open>Set bits of the first \<open>m\<close> positions of a word, eight at a time.\<close>

lemma filter_bit_chunk:
  "length (filter (bit (w :: 'b::len word)) [0..<8 * Suc k]) =
     length (filter (bit w) [0..<8 * k]) + length (filter (bit (drop_bit (8 * k) w)) [0..<8])"
proof -
  have "[0..<8 * Suc k] = [0..<8 * k] @ map (\<lambda>j. j + 8 * k) [0..<8]"
    using upt_add_eq_append [of 0 "8 * k" 8] by (simp add: map_add_upt add.commute)
  then show ?thesis
    by (simp add: filter_map comp_def bit_simps add.commute)
qed

lemma object_representation_count:
  assumes "LENGTH('b) mod 8 = 0"
  shows "sum_list (map (\<lambda>p. count_table ! unat p) (object_representation (w :: 'b::len word)))
    = length (filter (bit w) [0..<LENGTH('b)])"
proof -
  have byte: "count_table ! unat (ucast (drop_bit (8 * k) w) :: byte_type)
      = length (filter (bit (drop_bit (8 * k) w)) [0..<8])" for k
    unfolding count_table_byte
    by (rule arg_cong [where f = length], rule filter_cong) (simp_all add: bit_ucast_iff)
  have "sum_list (map (\<lambda>k. count_table ! unat (ucast (drop_bit (8 * k) w) :: byte_type)) [0..<m])
      = length (filter (bit w) [0..<8 * m])" for m
    by (induction m) (simp_all add: byte filter_bit_chunk del: mult_Suc_right)
  moreover have "8 * (LENGTH('b) div 8) = LENGTH('b)"
    using assms by auto
  ultimately show ?thesis
    by (simp add: object_representation_def comp_def)
qed

lemma count_bytes_loop_sum: "count_bytes_loop ps num = num + sum_list (map (\<lambda>p. count_table ! unat p) ps)"
  by (induction ps num rule: count_bytes_loop.induct) simp_all

lemma filter_bit_low_byte:
  "length (filter (bit (w :: 'b::len word)) [0..<LENGTH('b)]) =
     length (filter (bit w) [0..<8]) + length (filter (bit (drop_bit 8 w)) [0..<LENGTH('b)])"
proof -
  have high: "filter (bit w) [LENGTH('b)..<8 + LENGTH('b)] = []"
    by (auto simp: filter_empty_conv dest: bit_imp_le_length)
  have "filter (bit w) [0..<8 + LENGTH('b)] = filter (bit w) [0..<LENGTH('b)]"
    using upt_add_eq_append [of 0 "LENGTH('b)" 8] high by (simp add: add.commute)
  moreover have "[0..<8 + LENGTH('b)] = [0..<8] @ map (\<lambda>j. j + 8) [0..<LENGTH('b)]"
    using upt_add_eq_append [of 0 8 "LENGTH('b)"] by (simp add: map_add_upt add.commute)
  ultimately show ?thesis
    by (metis (no_types, lifting) ext bit_drop_bit_eq comp_apply filter_append filter_map length_append
        length_map add.commute)
qed

lemma count_table_low_byte:
  "count_table ! unat (w AND mask 8) = length (filter (bit (w :: 'b::len word)) [0..<8])"
proof -
  have "unat (w AND mask 8) = take_bit 8 (unat w)"
    by (simp add: unsigned_take_bit_eq flip: take_bit_eq_mask)
  then have "unat (w AND mask 8) < 2 ^ 8"
    using take_bit_nat_less_exp [of 8 "unat w"] by simp
  moreover have "filter (bit (unat (w AND mask 8))) [0..<8] = filter (bit w) [0..<8]"
    by (rule filter_cong) (auto simp: bit_unsigned_iff bit_simps dest: bit_imp_le_length)
  ultimately show ?thesis by (simp add: count_table_eq nth_popcount_table popcount_def)
qed

lemma count_block_loop_ok:
  "count_block_loop (w :: 'b::len word) num = num + length (filter (bit w) [0..<LENGTH('b)])"
proof (induction w num rule: count_block_loop.induct)
  case (1 w num)
  show ?case
  proof (cases "w = 0")
    case True
    then show ?thesis by (subst count_block_loop.simps) simp
  next
    case False
    then have "count_block_loop w num =
        num + count_table ! unat (w AND mask 8) + length (filter (bit (drop_bit 8 w)) [0..<LENGTH('b)])"
      using 1 by (subst count_block_loop.simps) simp
    then show ?thesis unfolding count_table_low_byte by (simp add: filter_bit_low_byte [of w])
  qed
qed

lemma do_count_blocks_sum:
  "do_count_blocks (ws :: 'b::len word list) num
     = num + sum_list (map (\<lambda>w. length (filter (bit w) [0..<LENGTH('b)])) ws)"
  by (induction ws num rule: do_count_blocks.induct) (simp_all add: count_block_loop_ok)

lemma do_count_bytes_sum:
  assumes "LENGTH('b) mod 8 = 0"
  shows "do_count_bytes (ws :: 'b::len word list)
    = sum_list (map (\<lambda>w. length (filter (bit w) [0..<LENGTH('b)])) ws)"
proof -
  have "sum_list (map (\<lambda>p. count_table ! unat p) (concat (map object_representation ws)))
      = sum_list (map (\<lambda>w. length (filter (bit w) [0..<LENGTH('b)])) ws)"
    by (induction ws) (simp_all add: object_representation_count [OF assms])
  then show ?thesis by (simp add: do_count_bytes_def count_bytes_loop_sum)
qed

lemma flat_Cons_low: "i < LENGTH('b) \<Longrightarrow> flat (w # ws) i = bit (w :: 'b::len word) i"
  by (simp add: flat_def)

lemma flat_Cons_high: "flat (w # ws) (i + LENGTH('b)) = flat ws (i :: nat)" for w :: "'b::len word"
  by (simp add: flat_def div_add_self2)

lemma count_flat_blocks:
  "length (filter (flat ws) [0..<length ws * LENGTH('b)])
     = sum_list (map (\<lambda>w. length (filter (bit w) [0..<LENGTH('b)])) (ws :: 'b::len word list))"
proof (induction ws)
  case (Cons w ws)
  have "[0..<length (w # ws) * LENGTH('b)]
      = [0..<LENGTH('b)] @ map (\<lambda>j. j + LENGTH('b)) [0..<length ws * LENGTH('b)]"
    using upt_add_eq_append [of 0 "LENGTH('b)" "length ws * LENGTH('b)"] by (simp add: map_add_upt add.commute)
  then have "length (filter (flat (w # ws)) [0..<length (w # ws) * LENGTH('b)])
      = length (filter (flat (w # ws)) [0..<LENGTH('b)])
        + length (filter (flat ws) [0..<length ws * LENGTH('b)])"
    by (simp add: filter_map comp_def flat_Cons_high)
  also have "filter (flat (w # ws)) [0..<LENGTH('b)] = filter (bit w) [0..<LENGTH('b)]"
    by (rule filter_cong) (simp_all add: flat_Cons_low)
  finally show ?case by (simp add: Cons.IH)
qed simp

lemma bs_count_ok:
  fixes b :: "'b::len bitset"
  assumes inv: "m_check_invariants b"
  shows "bs_count b = count_list (bools b) True"
proof -
  let ?ws = "m_bits b" and ?w = "LENGTH('b)"
  have "bs_count b = length (filter (flat ?ws) [0..<length ?ws * ?w])"
    by (simp add: bs_count_def do_count_blocks_sum do_count_bytes_sum count_flat_blocks)
  also have "[0..<length ?ws * ?w] = [0..<m_num_bits b] @ [m_num_bits b..<length ?ws * ?w]"
    using upt_add_eq_append [of 0 "m_num_bits b" "length ?ws * ?w - m_num_bits b"]
      m_check_invariantsD(3) [OF inv] by simp
  also have "filter (flat ?ws) ([0..<m_num_bits b] @ [m_num_bits b..<length ?ws * ?w])
      = filter (flat ?ws) [0..<m_num_bits b]"
    using m_check_invariantsD(2) [OF inv] by (auto simp: filter_empty_conv)
  also have "length (filter (flat ?ws) [0..<m_num_bits b]) = count_list (bools b) True"
    by (simp add: bools_def count_list_eq_length_filter filter_map comp_def)
  finally show ?thesis .
qed

subsection \<open>Predicates over all bits\<close>

lemma all_blocks_iff:
  assumes "m_check_invariants (b :: 'b::len bitset)"
  shows "(\<forall>k<length (m_bits b). m_bits b ! k = 0) \<longleftrightarrow> (\<forall>i. \<not> flat (m_bits b) i)"
proof (intro iffI allI impI)
  fix k assume *: "\<forall>i. \<not> flat (m_bits b) i" "k < length (m_bits b)"
  show "m_bits b ! k = 0"
    using * flat_at [OF *(2)] by (intro bit_word_eqI) auto
qed (auto simp: flat_def simp flip: div_less_iff_mult)

lemma bs_any_ok: "m_check_invariants b \<Longrightarrow> bs_any b \<longleftrightarrow> True \<in> set (bools b)"
proof -
  assume inv: "m_check_invariants b"
  have "bs_any b \<longleftrightarrow> (\<exists>i. flat (m_bits b) i)"
    using all_blocks_iff [OF inv] by (auto simp: bs_any_def num_blocks_def)
  also have "\<dots> \<longleftrightarrow> True \<in> set (bools b)"
    using m_check_invariantsD(2) [OF inv] by (fastforce simp: bools_def not_less [symmetric])
  finally show ?thesis .
qed

text \<open>Under the invariant a bitset is determined by its bits.\<close>

lemma bools_inject:
  fixes a b :: "'b::len bitset"
  assumes a: "m_check_invariants a" and b: "m_check_invariants b" and eq: "bools a = bools b"
  shows "a = b"
proof -
  have n: "m_num_bits a = m_num_bits b" using arg_cong [OF eq, of length] by simp
  then have len: "length (m_bits a) = length (m_bits b)"
    using m_check_invariantsD(1) [OF a] m_check_invariantsD(1) [OF b] by simp
  have fl: "flat (m_bits a) i = flat (m_bits b) i" for i
    by (metis a b eq flat_bools n)
  have "m_bits a = m_bits b"
  proof (intro nth_equalityI len bit_word_eqI)
    fix k j assume "k < length (m_bits a)" "j < LENGTH('b)"
    then show "bit (m_bits a ! k) j = bit (m_bits b ! k) j"
      using fl [of "k * LENGTH('b) + j"] len by (simp add: flat_at)
  qed
  with n show ?thesis by simp
qed

text \<open>\<^verbatim>\<open>all()\<close> compares the buffer with the one \<^verbatim>\<open>set()\<close> would leave.\<close>

lemma bs_all_set_all:
  fixes b :: "'b::len bitset"
  assumes inv: "m_check_invariants b"
  shows "bs_all b = Some (bs_set_all b = Some b)"
proof -
  let ?e = "m_num_bits b mod LENGTH('b)" and ?ws = "m_bits b"
  have len: "num_blocks b = calc_num_blocks TYPE('b) (m_num_bits b)"
    using m_check_invariantsD(1) [OF inv] by (simp add: num_blocks_def)
  have rec: "b\<lparr>m_bits := ws\<rparr> = b \<longleftrightarrow> ws = ?ws" for ws
    by (metis dynamic_bitset.select_convs(1) dynamic_bitset.surjective dynamic_bitset.update_convs(1))
  show ?thesis
  proof (cases "?e = 0")
    case True
    have "bs_set_all b = Some (b\<lparr>m_bits := map (\<lambda>_. - 1) ?ws\<rparr>)"
      using True len by (simp add: bs_set_all_def m_zero_unused_bits_def bitset_index_defs)
    moreover have "bs_all b = Some (\<forall>i<length ?ws. ?ws ! i = - 1)"
      using True len by (auto simp: bs_all_def bitset_index_defs Let_def calc_num_blocks_def)
    moreover have "map (\<lambda>_. - 1) ?ws = ?ws \<longleftrightarrow> (\<forall>i<length ?ws. ?ws ! i = - 1)"
      by (auto simp: list_eq_iff_nth_eq)
    ultimately show ?thesis using rec by simp
  next
    case False
    then have l: "0 < length ?ws" and n: "0 < m_num_bits b"
      using m_highest_block_eq(3) [OF len] by (auto simp: bitset_index_defs intro: Nat.gr0I)
    let ?ones = "(map (\<lambda>_. - 1) ?ws)[length ?ws - 1 := mask ?e]"
    have lm: "last (map (\<lambda>_. - 1 :: 'b word) ?ws) = - 1" using l by (subst last_map) auto
    have "bs_set_all b = Some (b\<lparr>m_bits := ?ones\<rparr>)"
      using False len l n lm
      by (simp add: bs_set_all_def m_zero_unused_bits_def m_highest_block_def bitset_index_defs)
    moreover have "bs_all b = Some ((\<forall>i<length ?ws - 1. ?ws ! i = - 1) \<and> last ?ws = mask ?e)"
      using False l n by (simp add: bs_all_def m_highest_block_def bitset_index_defs Let_def)
    moreover have "?ones = ?ws \<longleftrightarrow> (\<forall>i<length ?ws - 1. ?ws ! i = - 1) \<and> last ?ws = mask ?e"
    proof -
      have "?ws \<noteq> []" using l by auto
      then have "?ones = map (\<lambda>_. - 1) (butlast ?ws) @ [mask ?e]"
        by (cases ?ws rule: rev_cases) (simp_all add: list_update_append)
      then have "?ones = ?ws \<longleftrightarrow> map (\<lambda>_. - 1) (butlast ?ws) = butlast ?ws \<and> mask ?e = last ?ws"
        using \<open>?ws \<noteq> []\<close> by (metis append_butlast_last_id append_same_eq butlast_snoc last_snoc)
      then show ?thesis by (auto simp: list_eq_iff_nth_eq nth_butlast)
    qed
    ultimately show ?thesis using rec by simp
  qed
qed

lemma bs_all_ok:
  assumes inv: "m_check_invariants (b :: 'b::len bitset)"
  shows "bs_all b = Some (\<forall>x\<in>set (bools b). x)"
proof -
  obtain c where c: "bs_set_all b = Some c" "m_check_invariants c" "bools c = map (\<lambda>_. True) (bools b)"
    using bs_set_all_ok [OF inv] by (rule representsE)
  then have "c = b \<longleftrightarrow> map (\<lambda>_. True) (bools b) = bools b"
    using bools_inject [OF c(2) inv] by auto
  also have "\<dots> \<longleftrightarrow> (\<forall>x\<in>set (bools b). x)"
    by (auto simp: list_eq_iff_nth_eq all_set_conv_all_nth)
  finally show ?thesis using c(1) bs_all_set_all [OF inv] by simp
qed

lemma same_block_count:
  "m_check_invariants a \<Longrightarrow> m_check_invariants b \<Longrightarrow> m_num_bits a = m_num_bits b \<Longrightarrow>
     length (m_bits a) = length (m_bits b)"
  for a b :: "'b::len bitset"
  using m_check_invariantsD(1) [of a] m_check_invariantsD(1) [of b] by simp

text \<open>A property of pairs of blocks that is a property of pairs of bits.\<close>

lemma blocks_bits_iff:
  fixes us vs :: "'b::len word list"
  assumes "n \<le> length us" and "n \<le> length vs"
    and "\<And>x y :: 'b word. P x y \<longleftrightarrow> (\<forall>j<LENGTH('b). Q (bit x j) (bit y j))"
  shows "(\<forall>k<n. P (us ! k) (vs ! k)) \<longleftrightarrow> (\<forall>i<n * LENGTH('b). Q (flat us i) (flat vs i))"
proof (intro iffI allI impI)
  fix i assume *: "\<forall>k<n. P (us ! k) (vs ! k)" "i < n * LENGTH('b)"
  then have "i div LENGTH('b) < n" by (simp add: div_less_iff_mult)
  with * assms show "Q (flat us i) (flat vs i)"
    by (simp add: flat_def flip: div_less_iff_mult)
next
  fix k assume *: "\<forall>i<n * LENGTH('b). Q (flat us i) (flat vs i)" "k < n"
  have "Q (bit (us ! k) j) (bit (vs ! k) j)" if "j < LENGTH('b)" for j
  proof -
    have "k * LENGTH('b) + j < n * LENGTH('b)"
      using *(2) that by (metis div_less_iff_mult div_mod_unique len_gt_0)
    with * that assms(1,2) show ?thesis
      using flat_at [of k us j] flat_at [of k vs j] by force
  qed
  then show "P (us ! k) (vs ! k)" by (simp add: assms(3))
qed

lemma and_not_zero_iff: "x AND NOT y = 0 \<longleftrightarrow> (\<forall>j<LENGTH('b). bit x j \<longrightarrow> bit (y :: 'b::len word) j)"
  by (auto simp: bit_eq_iff bit_simps)

lemma and_zero_iff: "x AND y = 0 \<longleftrightarrow> (\<forall>j<LENGTH('b). \<not> (bit x j \<and> bit (y :: 'b::len word) j))"
  by (auto simp: bit_eq_iff bit_simps dest: bit_imp_le_length)

definition subset_bits :: "bool list \<Rightarrow> bool list \<Rightarrow> bool" where
  "subset_bits xs ys = list_all2 (\<longrightarrow>) xs ys"

lemma is_subset_of_ok:
  fixes a b :: "'b::len bitset"
  assumes a: "m_check_invariants a" and b: "m_check_invariants b" and n: "m_num_bits b = m_num_bits a"
  shows "is_subset_of b a = Some (subset_bits (bools b) (bools a))"
proof -
  let ?l = "length (m_bits b)"
  have len: "length (m_bits a) = ?l" using same_block_count [OF a b] n by simp
  have "(\<forall>k<?l. m_bits b ! k AND NOT (m_bits a ! k) = 0)
      \<longleftrightarrow> (\<forall>i<?l * LENGTH('b). flat (m_bits b) i \<longrightarrow> flat (m_bits a) i)"
    by (rule blocks_bits_iff) (simp_all add: len and_not_zero_iff)
  also have "\<dots> \<longleftrightarrow> (\<forall>i<m_num_bits b. flat (m_bits b) i \<longrightarrow> flat (m_bits a) i)"
    using m_check_invariantsD(2,3) [OF b] by (metis less_le_trans not_le)
  finally show ?thesis
    using n by (auto simp: is_subset_of_def bs_size_def num_blocks_def subset_bits_def list_all2_conv_all_nth)
qed

lemma proper_subset_loop_iff:
  "length bts = length bas \<Longrightarrow>
     proper_subset_loop bts bas p \<longleftrightarrow>
       (\<forall>k<length bts. bts ! k AND NOT (bas ! k) = 0) \<and> (p \<or> bts \<noteq> (bas :: 'b::len word list))"
proof (induction bts bas arbitrary: p rule: list_induct2)
  case (Cons x xs y ys)
  have "x = y" if "x AND NOT y = 0" "y AND NOT x = 0"
    using that by (intro bit_word_eqI) (auto simp: and_not_zero_iff)
  with Cons show ?case by (auto simp: All_less_Suc2)
qed simp

lemma is_proper_subset_of_ok:
  fixes a b :: "'b::len bitset"
  assumes a: "m_check_invariants a" and b: "m_check_invariants b" and n: "m_num_bits b = m_num_bits a"
  shows "is_proper_subset_of b a = Some (subset_bits (bools b) (bools a) \<and> bools b \<noteq> bools a)"
proof -
  have len: "length (m_bits b) = length (m_bits a)" using same_block_count [OF b a n] .
  have "bools b = bools a \<longleftrightarrow> m_bits b = m_bits a"
    using bools_inject [OF b a] n by (auto simp: bools_def)
  then show ?thesis
    using is_subset_of_ok [OF a b n] n len
    by (auto simp: is_proper_subset_of_def is_subset_of_def bs_size_def num_blocks_def proper_subset_loop_iff)
qed

lemma bs_intersects_ok:
  fixes a b :: "'b::len bitset"
  assumes a: "m_check_invariants a" and b: "m_check_invariants b"
  shows "bs_intersects b a \<longleftrightarrow> (\<exists>i<min (m_num_bits b) (m_num_bits a). bools b ! i \<and> bools a ! i)"
proof -
  let ?m = "min (length (m_bits b)) (length (m_bits a))"
  have "(\<forall>k<?m. m_bits b ! k AND m_bits a ! k = 0)
      \<longleftrightarrow> (\<forall>i<?m * LENGTH('b). \<not> (flat (m_bits b) i \<and> flat (m_bits a) i))"
    by (rule blocks_bits_iff) (simp_all add: and_zero_iff)
  also have "\<dots> \<longleftrightarrow> (\<forall>i<min (m_num_bits b) (m_num_bits a). \<not> (flat (m_bits b) i \<and> flat (m_bits a) i))"
  proof (intro iffI allI impI)
    fix i assume *: "\<forall>i<?m * LENGTH('b). \<not> (flat (m_bits b) i \<and> flat (m_bits a) i)"
    show "\<not> (flat (m_bits b) i \<and> flat (m_bits a) i)"
      using * flat_in_range [of "m_bits b" i] flat_in_range [of "m_bits a" i] by (auto simp: min_def)
  next
    fix i assume *: "\<forall>i<min (m_num_bits b) (m_num_bits a). \<not> (flat (m_bits b) i \<and> flat (m_bits a) i)"
    show "\<not> (flat (m_bits b) i \<and> flat (m_bits a) i)"
      using * m_check_invariantsD(2) [OF b, of i] m_check_invariantsD(2) [OF a, of i]
      by (meson min_less_iff_conj not_le)
  qed
  finally have *: "(\<forall>k<?m. m_bits b ! k AND m_bits a ! k = 0)
      \<longleftrightarrow> (\<forall>i<min (m_num_bits b) (m_num_bits a). \<not> (flat (m_bits b) i \<and> flat (m_bits a) i))" .
  have "(if num_blocks b < num_blocks a then num_blocks b else num_blocks a) = ?m"
    by (simp add: num_blocks_def min_def)
  then have "bs_intersects b a \<longleftrightarrow> \<not> (\<forall>k<?m. m_bits b ! k AND m_bits a ! k = 0)"
    by (simp add: bs_intersects_def Let_def)
  then show ?thesis unfolding * by auto
qed

subsection \<open>Order\<close>

text \<open>The value of a list of bits, least significant first, and of a buffer of blocks.\<close>

definition bits_value :: "bool list \<Rightarrow> nat" where
  "bits_value xs = horner_sum of_bool 2 xs"

fun blocks_value :: "'b::len word list \<Rightarrow> nat \<Rightarrow> nat" where
  "blocks_value ws 0 = 0"
| "blocks_value ws (Suc k) = blocks_value ws k + unat (ws ! k) * 2 ^ (k * LENGTH('b))"

lemma blocks_value_less: "blocks_value (ws :: 'b::len word list) k < 2 ^ (k * LENGTH('b))"
proof (induction k)
  case (Suc k)
  have "unat (ws ! k) + 1 \<le> 2 ^ LENGTH('b)" using unsigned_less [of "ws ! k"] by (simp add: Suc_le_eq)
  then have "(unat (ws ! k) + 1) * 2 ^ (k * LENGTH('b)) \<le> 2 ^ LENGTH('b) * 2 ^ (k * LENGTH('b))"
    by (rule mult_le_mono1)
  with Suc show ?case by (simp add: power_add algebra_simps)
qed simp

lemma less_loop_value:
  "less_loop a b m \<longleftrightarrow> blocks_value (a :: 'b::len word list) m < blocks_value b m"
proof (induction m)
  case (Suc m)
  let ?p = "2 ^ (m * LENGTH('b)) :: nat"
  have lt: "blocks_value x m + u * ?p < blocks_value y m + v * ?p" if "u < v"
    for x y :: "'b word list" and u v
  proof -
    have "(u + 1) * ?p \<le> v * ?p" using that by (intro mult_le_mono1) simp
    with blocks_value_less [of x m] show ?thesis by simp
  qed
  show ?case
    using Suc lt [of "unat (a ! m)" "unat (b ! m)" a b] lt [of "unat (b ! m)" "unat (a ! m)" b a]
    by (auto simp: word_less_nat_alt word_unat_eq_iff not_less_iff_gr_or_eq)
qed simp

lemma blocks_value_bits:
  fixes ws :: "'b::len word list"
  assumes "m \<le> length ws"
  shows "blocks_value ws m = bits_value (map (flat ws) [0..<m * LENGTH('b)])"
  using assms
proof (induction m)
  case (Suc m)
  have "[0..<Suc m * LENGTH('b)] = [0..<m * LENGTH('b)] @ map (\<lambda>j. m * LENGTH('b) + j) [0..<LENGTH('b)]"
    using upt_add_eq_append [of 0 "m * LENGTH('b)" "LENGTH('b)"] by (simp add: map_add_upt add.commute)
  moreover have "map (flat ws) (map (\<lambda>j. m * LENGTH('b) + j) [0..<LENGTH('b)])
      = map (bit (unat (ws ! m))) [0..<LENGTH('b)]"
    using Suc.prems by (auto simp: flat_at bit_unsigned_iff)
  ultimately have "map (flat ws) [0..<Suc m * LENGTH('b)]
      = map (flat ws) [0..<m * LENGTH('b)] @ map (bit (unat (ws ! m))) [0..<LENGTH('b)]"
    by (metis map_append)
  moreover have "horner_sum of_bool 2 (map (bit (unat (ws ! m))) [0..<LENGTH('b)]) = unat (ws ! m)"
    unfolding horner_sum_bit_eq_take_bit using unsigned_less [of "ws ! m"]
    by (simp add: take_bit_nat_eq_self)
  ultimately show ?case
    using Suc by (simp add: bits_value_def horner_sum_append mult.commute del: mult_Suc)
qed (simp add: bits_value_def)

lemma bits_value_zeros: "bits_value (xs @ replicate k False) = bits_value xs"
proof -
  have "bits_value (replicate k False) = 0" by (induction k) (simp_all add: bits_value_def)
  then show ?thesis by (simp add: bits_value_def horner_sum_append)
qed

lemma bitset_value:
  fixes b :: "'b::len bitset"
  assumes inv: "m_check_invariants b"
  shows "blocks_value (m_bits b) (length (m_bits b)) = bits_value (bools b)"
proof -
  let ?n = "m_num_bits b" and ?t = "length (m_bits b) * LENGTH('b)"
  have "[0..<?t] = [0..<?n] @ [?n..<?t]"
    using upt_add_eq_append [of 0 ?n "?t - ?n"] m_check_invariantsD(3) [OF inv] by simp
  moreover have "map (flat (m_bits b)) [?n..<?t] = replicate (?t - ?n) False"
    using m_check_invariantsD(2) [OF inv] by (intro nth_equalityI) auto
  ultimately show ?thesis
    by (simp add: blocks_value_bits bools_def bits_value_zeros)
qed

lemma bs_less_ok:
  assumes a: "m_check_invariants a" and b: "m_check_invariants b" and n: "m_num_bits a = m_num_bits b"
  shows "bs_less a b = Some (bits_value (bools a) < bits_value (bools (b :: 'b::len bitset)))"
  using n same_block_count [OF a b n] bitset_value [OF a] bitset_value [OF b]
  by (simp add: bs_less_def bs_size_def num_blocks_def less_loop_value)

end
