(* ===== verification/Bitset_Convert.thy ===== *)
theory Bitset_Convert
  imports Bitset_Growth Bitset_Query
begin

text \<open>
  Conversions of \<^verbatim>\<open>dynamic_bitset\<close>: from and to \<^verbatim>\<open>unsigned long\<close>, block ranges and strings, and the
  stream operators with the \<^verbatim>\<open>bit_appender\<close> helper.

  Streams are the part of \<^verbatim>\<open>basic_ostream\<close> and \<^verbatim>\<open>basic_istream\<close> the operators use: an output buffer
  accepts \<open>os_room\<close> characters before \<^verbatim>\<open>sputc\<close> returns end-of-file, an input buffer holds the
  characters left. Exceptions thrown by a user's stream buffer or by an exception mask are not
  modelled; the error bits are.
\<close>

unbundle bit_operations_syntax

subsection \<open>Constructors\<close>

definition bitset_default :: "'b::len bitset" where
  "bitset_default = \<lparr>m_bits = [], m_num_bits = 0\<rparr>"

definition left_shift_ulong :: "'b::len itself \<Rightarrow> ulong \<Rightarrow> ulong" where
  "left_shift_ulong _ v = (if LENGTH('b) \<ge> ulong_width then 0 else drop_bit LENGTH('b) v)"

lemma left_shift_ulong_eq: "left_shift_ulong TYPE('b::len) v = drop_bit LENGTH('b) v"
  by (simp add: left_shift_ulong_def)

text \<open>\<open>None\<close>: the iterator would be dereferenced past the end of the buffer.\<close>

function init_ulong_loop :: "ulong \<Rightarrow> nat \<Rightarrow> 'b::len word list \<Rightarrow> 'b word list option" where
  "init_ulong_loop value it ws =
     (if value \<noteq> 0 then
        (if it < length ws
         then init_ulong_loop (left_shift_ulong TYPE('b) value) (Suc it) (ws[it := ucast value])
         else None)
      else Some ws)"
  by pat_completeness auto
termination
  by (relation "measure (\<lambda>(value, it, ws). unat value)")
    (rule wf_measure, unfold in_measure prod.case left_shift_ulong_eq, erule unat_drop_bit_less, simp)

definition init_from_unsigned_long :: "nat \<Rightarrow> ulong \<Rightarrow> 'b::len bitset \<Rightarrow> 'b bitset option" where
  "init_from_unsigned_long num_bits value b =
     (if length (m_bits b) = 0 then
        (let ws = vec_resize (calc_num_blocks TYPE('b) num_bits) 0 (m_bits b);
             v = (if num_bits < ulong_width then value AND (push_bit num_bits 1 - 1) else value)
         in map_option (\<lambda>ws'. b\<lparr>m_bits := ws', m_num_bits := num_bits\<rparr>) (init_ulong_loop v 0 ws))
      else None)"

definition bitset_of_ulong :: "nat \<Rightarrow> ulong \<Rightarrow> 'b::len bitset option" where
  "bitset_of_ulong num_bits value = init_from_unsigned_long num_bits value bitset_default"

definition init_from_block_range :: "'b::len word list \<Rightarrow> 'b bitset \<Rightarrow> 'b bitset option" where
  "init_from_block_range vs b =
     (if length (m_bits b) = 0 then
        Some (b\<lparr>m_bits := m_bits b @ vs, m_num_bits := length (m_bits b @ vs) * LENGTH('b)\<rparr>)
      else None)"

text \<open>\<open>None\<close>: a character that is neither digit (an assertion), or one outside the string.\<close>

function init_string_loop :: "string \<Rightarrow> nat \<Rightarrow> nat \<Rightarrow> nat \<Rightarrow> 'b::len bitset \<Rightarrow> 'b bitset option" where
  "init_string_loop s pos m i b =
     (if i < m then
        (let k = (pos + m - 1) - i in
         if k < length s \<and> (s ! k = CHR ''1'' \<or> s ! k = CHR ''0'') then
           (if s ! k = CHR ''1'' then
              (case bs_set_at i True b of None \<Rightarrow> None | Some b' \<Rightarrow> init_string_loop s pos m (Suc i) b')
            else init_string_loop s pos m (Suc i) b)
         else None)
      else Some b)"
  by pat_completeness auto
termination
  by (relation "measure (\<lambda>(s, pos, m, i, b). m - i)") auto

definition init_from_string :: "string \<Rightarrow> nat \<Rightarrow> nat \<Rightarrow> nat \<Rightarrow> 'b::len bitset \<Rightarrow> 'b bitset option" where
  "init_from_string s pos n num_bits b =
     (if pos \<le> length s then
        (let rlen = min n (length s - pos);
             sz = (if num_bits \<noteq> npos then num_bits else rlen);
             b1 = b\<lparr>m_bits := vec_resize (calc_num_blocks TYPE('b) sz) 0 (m_bits b), m_num_bits := sz\<rparr>;
             m = (if num_bits < rlen then num_bits else rlen)
         in init_string_loop s pos m 0 b1)
      else None)"

subsection \<open>Conversions\<close>

definition to_string_helper :: "bool \<Rightarrow> 'b::len bitset \<Rightarrow> string" where
  "to_string_helper dump_all b =
     (let len = (if dump_all then LENGTH('b) * num_blocks b else bs_size b) in
      fold (\<lambda>i s. if m_unchecked_test i b then s[len - 1 - i := CHR ''1''] else s)
        [0..<len] (replicate len CHR ''0''))"

definition to_string :: "'b::len bitset \<Rightarrow> string" where
  "to_string b = to_string_helper False b"

definition dump_to_string :: "'b::len bitset \<Rightarrow> string" where
  "dump_to_string b = to_string_helper True b"

definition to_block_range :: "'b::len bitset \<Rightarrow> 'b word list" where
  "to_block_range b = m_bits b"

text \<open>\<^verbatim>\<open>std::copy\<close> onto the front of the buffer; a longer range would leave it.\<close>

definition from_block_range :: "'b::len word list \<Rightarrow> 'b bitset \<Rightarrow> 'b bitset option" where
  "from_block_range vs b =
     (if length vs \<le> num_blocks b then Some (b\<lparr>m_bits := vs @ drop (length vs) (m_bits b)\<rparr>) else None)"

datatype ulong_error = OverflowError | AssertionFailed

definition to_ulong :: "'b::len bitset \<Rightarrow> ulong_error + ulong" where
  "to_ulong b =
     (if m_num_bits b = 0 then Inr 0
      else (case bs_find_next (ulong_width - 1) b of
        None \<Rightarrow> Inl AssertionFailed
      | Some r \<Rightarrow>
          (if r \<noteq> npos then Inl OverflowError
           else (let maximum_size = min (m_num_bits b) ulong_width;
                     last_block = block_index TYPE('b) (maximum_size - 1)
                 in if last_block * LENGTH('b) < ulong_width then
                      Inr (fold (\<lambda>i result. result OR push_bit (i * LENGTH('b)) (ucast (m_bits b ! i)))
                             [0..<last_block + 1] 0)
                    else Inl AssertionFailed))))"

subsection \<open>Output to a stream\<close>

record ostream =
  os_good :: bool
  os_width :: int
  os_left :: bool
  os_fill :: char
  os_out :: string
  os_room :: nat
  os_fail :: bool

text \<open>\<^verbatim>\<open>sputc\<close>: \<open>None\<close> is end-of-file.\<close>

definition sputc :: "char \<Rightarrow> ostream \<Rightarrow> ostream option" where
  "sputc c os = (if os_room os = 0 then None
                 else Some (os\<lparr>os_out := os_out os @ [c], os_room := os_room os - 1\<rparr>))"

fun pad_loop :: "nat \<Rightarrow> ostream \<Rightarrow> bool \<times> nat \<times> ostream" where
  "pad_loop 0 os = (True, 0, os)"
| "pad_loop (Suc npad) os =
     (case sputc (os_fill os) os of None \<Rightarrow> (False, Suc npad, os) | Some os' \<Rightarrow> pad_loop npad os')"

text \<open>\<open>None\<close> of the outer option: the assertion in \<^verbatim>\<open>test\<close>.\<close>

fun bits_loop :: "'b::len bitset \<Rightarrow> nat \<Rightarrow> ostream \<Rightarrow> (bool \<times> ostream) option" where
  "bits_loop b 0 os = Some (True, os)"
| "bits_loop b (Suc i) os =
     (case bs_test i b of None \<Rightarrow> None
      | Some x \<Rightarrow> (case sputc (if x then CHR ''1'' else CHR ''0'') os of
            None \<Rightarrow> Some (False, os)
          | Some os' \<Rightarrow> bits_loop b i os'))"

definition bs_output :: "'b::len bitset \<Rightarrow> ostream \<Rightarrow> ostream option" where
  "bs_output b os =
     (if os_good os then
        (let width = (if os_width os \<le> 0 then 0 else nat (os_width os));
             npad0 = (if width \<le> bs_size b then 0 else width - bs_size b);
             (ok1, npad1, os1) = (if \<not> os_left os then pad_loop npad0 os else (True, npad0, os))
         in case (if ok1 then bits_loop b (bs_size b) os1 else Some (False, os1)) of
              None \<Rightarrow> None
            | Some (ok2, os2) \<Rightarrow>
                (let (ok3, _, os3) = (if ok2 then pad_loop npad1 os2 else (False, npad1, os2))
                 in Some (os3\<lparr>os_width := 0, os_fail := os_fail os3 \<or> \<not> ok3,
                               os_good := os_good os3 \<and> ok3\<rparr>)))
      else Some os)"

subsection \<open>Input from a stream\<close>

record 'blk bit_appender =
  ba_bs :: "'blk dynamic_bitset"
  ba_n :: nat
  ba_mask :: 'blk
  ba_current :: nat

definition bit_appender_init :: "'b::len bitset \<Rightarrow> 'b word bit_appender" where
  "bit_appender_init r = \<lparr>ba_bs = r, ba_n = 0, ba_mask = 0, ba_current = 0\<rparr>"

text \<open>\<^verbatim>\<open>current\<close> points at a block; the model keeps the block's index.\<close>

definition do_append :: "bool \<Rightarrow> 'b::len word bit_appender \<Rightarrow> 'b word bit_appender option" where
  "do_append value ba =
     (case (if ba_mask ba = 0 then
              (case bs_append 0 (ba_bs ba) of None \<Rightarrow> None
               | Some bs' \<Rightarrow> (case m_highest_block bs' of None \<Rightarrow> None
                   | Some _ \<Rightarrow> Some (ba\<lparr>ba_bs := bs', ba_current := num_blocks bs' - 1,
                                        ba_mask := push_bit (LENGTH('b) - 1) 1\<rparr>)))
            else Some ba)
      of None \<Rightarrow> None
       | Some ba1 \<Rightarrow>
           (let bs1 = ba_bs ba1; c = ba_current ba1;
                bs2 = (if value then bs1\<lparr>m_bits := (m_bits bs1)[c := m_bits bs1 ! c OR ba_mask ba1]\<rparr> else bs1)
            in Some (ba1\<lparr>ba_bs := bs2, ba_mask := ba_mask ba1 div 2, ba_n := Suc (ba_n ba1)\<rparr>)))"

definition bit_appender_destroy :: "'b::len word bit_appender \<Rightarrow> 'b bitset option" where
  "bit_appender_destroy ba =
     (let b1 = (ba_bs ba)\<lparr>m_bits := rev (m_bits (ba_bs ba))\<rparr>;
          offs = bit_index TYPE('b) (ba_n ba);
          b2 = (if offs \<noteq> 0 then bs_shr (LENGTH('b) - offs) b1 else b1)
      in case bs_resize (ba_n ba) False b2 of None \<Rightarrow> None
         | Some b3 \<Rightarrow> if m_check_invariants b3 then Some b3 else None)"

record istream =
  is_good :: bool
  is_skipws :: bool
  is_width :: int
  is_in :: string
  is_eofbit :: bool
  is_failbit :: bool

definition is_space :: "char \<Rightarrow> bool" where
  "is_space c = (c \<in> {CHR '' '', CHR 0x09, CHR 0x0A, CHR 0x0B, CHR 0x0C, CHR 0x0D})"

text \<open>The constructor of \<^verbatim>\<open>basic_istream::sentry\<close>, which skips white space.\<close>

definition istream_sentry :: "istream \<Rightarrow> bool \<times> istream" where
  "istream_sentry st =
     (if \<not> is_good st then (False, st\<lparr>is_failbit := True\<rparr>)
      else if is_skipws st then
        (let rest = dropWhile is_space (is_in st) in
         if rest = [] then (False, st\<lparr>is_in := [], is_good := False, is_eofbit := True, is_failbit := True\<rparr>)
         else (True, st\<lparr>is_in := rest\<rparr>))
      else (True, st))"

text \<open>The extraction loop: the appender, the characters left, and whether end-of-file was met.\<close>

fun read_bits_loop ::
  "nat \<Rightarrow> string \<Rightarrow> 'b::len word bit_appender \<Rightarrow> ('b word bit_appender \<times> string \<times> bool) option" where
  "read_bits_loop limit [] ba = (if ba_n ba < limit then Some (ba, [], True) else Some (ba, [], False))"
| "read_bits_loop limit (c # cs) ba =
     (if ba_n ba < limit then
        (if c \<noteq> CHR ''1'' \<and> c \<noteq> CHR ''0'' then Some (ba, c # cs, False)
         else (case do_append (c = CHR ''1'') ba of None \<Rightarrow> None
               | Some ba' \<Rightarrow> read_bits_loop limit cs ba'))
      else Some (ba, c # cs, False))"

definition bs_input :: "nat \<Rightarrow> istream \<Rightarrow> 'b::len bitset \<Rightarrow> (istream \<times> 'b bitset) option" where
  "bs_input mx st b =
     (let w = is_width st;
          limit = (if 0 < w \<and> nat w < mx then nat w else mx);
          (ok, st1) = istream_sentry st
      in case (if ok then
                 (case read_bits_loop limit (is_in st1) (bit_appender_init (bs_clear b)) of None \<Rightarrow> None
                  | Some (ba, rest, eof) \<Rightarrow>
                      map_option (\<lambda>b'. (b', rest, eof)) (bit_appender_destroy ba))
               else Some (b, is_in st1, False))
         of None \<Rightarrow> None
          | Some (b', rest, eof) \<Rightarrow>
              (let err = (bs_size b' = 0)
               in Some (st1\<lparr>is_in := rest, is_width := 0, is_eofbit := is_eofbit st1 \<or> eof,
                            is_failbit := is_failbit st1 \<or> err,
                            is_good := is_good st1 \<and> \<not> eof \<and> \<not> err\<rparr>, b')))"

subsection \<open>From and to integers\<close>

declare init_ulong_loop.simps [simp del] init_string_loop.simps [simp del]

lemma init_ulong_loop_ok:
  fixes ws :: "'b::len word list"
  assumes "\<And>i. bit val i \<Longrightarrow> i < (length ws - it) * LENGTH('b)"
    and "\<And>k. it \<le> k \<Longrightarrow> k < length ws \<Longrightarrow> ws ! k = 0"
  shows "\<exists>ws'. init_ulong_loop val it ws = Some ws' \<and> length ws' = length ws
    \<and> (\<forall>k<length ws. ws' ! k = (if k < it then ws ! k else ucast (drop_bit ((k - it) * LENGTH('b)) val)))"
  using assms
proof (induction val it ws rule: init_ulong_loop.induct)
  case (1 val it ws)
  let ?w = "LENGTH('b)"
  show ?case
  proof (cases "val = 0")
    case True
    then have "init_ulong_loop val it ws = Some ws" by (simp add: init_ulong_loop.simps)
    with True 1(3) show ?thesis by auto
  next
    case False
    then obtain i where "bit val i" by (auto simp: bit_eq_iff)
    then have it: "it < length ws" using 1(2) [of i] by (cases "it < length ws") auto
    let ?v = "left_shift_ulong TYPE('b) val" and ?ws = "ws[it := ucast val]"
    have "i < (length ?ws - Suc it) * ?w" if "bit ?v i" for i
    proof -
      have "?w + i < (length ws - it) * ?w"
        using 1(2) [of "?w + i"] that by (simp add: left_shift_ulong_eq bit_simps)
      moreover have "length ws - it = Suc (length ws - Suc it)" using it by simp
      ultimately show ?thesis by simp
    qed
    then obtain ws' where ws': "init_ulong_loop ?v (Suc it) ?ws = Some ws'" "length ws' = length ?ws"
      "\<And>k. k < length ?ws \<Longrightarrow> ws' ! k = (if k < Suc it then ?ws ! k else ucast (drop_bit ((k - Suc it) * ?w) ?v))"
      using 1(1) [OF False it] 1(3) by auto
    have sub: "(k - it) * ?w = ?w + (k - Suc it) * ?w" if "it < k" for k
      using that by (metis Suc_diff_Suc mult_Suc)
    have "ws' ! k = (if k < it then ws ! k else ucast (drop_bit ((k - it) * ?w) val))"
      if "k < length ws" for k
      using ws'(3) [of k] that it sub [of k]
      by (cases k it rule: linorder_cases) (auto simp: left_shift_ulong_eq drop_bit_drop_bit add.commute)
    moreover have "init_ulong_loop val it ws = Some ws'"
      using False it ws'(1) by (simp add: init_ulong_loop.simps [of val it ws])
    ultimately show ?thesis using ws'(2) by simp
  qed
qed

lemma flat_of_ulong:
  assumes "length ws = calc_num_blocks TYPE('b::len) n" and "\<And>i. bit v i \<Longrightarrow> i < n"
    and "\<And>k. k < length ws \<Longrightarrow> ws ! k = ucast (drop_bit (k * LENGTH('b)) (v :: ulong))"
  shows "flat (ws :: 'b word list) i = bit v i"
proof (cases "i div LENGTH('b) < length ws")
  case True
  then show ?thesis
    using assms(3) [OF True]
    by (simp add: flat_def bit_ucast_iff bit_simps flip: div_less_iff_mult)
next
  case False
  then have "length ws * LENGTH('b) \<le> i" by (simp add: div_less_iff_mult)
  then have "\<not> bit v i"
    using assms(1) assms(2) [of i] calc_num_blocks_bounds(1) [where 'b = 'b, of n] by fastforce
  then show ?thesis using False by (simp add: flat_def div_less_iff_mult)
qed

lemma bitset_of_ulong_ok:
  "represents (bitset_of_ulong n v :: 'b::len bitset option) (map (bit v) [0..<n])"
proof -
  let ?ws = "vec_resize (calc_num_blocks TYPE('b) n) 0 [] :: 'b word list"
  define u where "u = (if n < 64 then v AND (push_bit n 1 - 1) else v)"
  have u: "bit u i = (i < n \<and> bit v i)" for i
    using bit_imp_le_length [of v i] by (auto simp: u_def bit_simps simp flip: mask_eq_exp_minus_1)
  have rng: "i < (length ?ws - 0) * LENGTH('b)" if "bit u i" for i
    using that u [of i] calc_num_blocks_bounds(1) [where 'b = 'b, of n] by simp
  obtain ws' where ws': "init_ulong_loop u 0 ?ws = Some ws'" "length ws' = length ?ws"
    "\<And>k. k < length ?ws \<Longrightarrow> ws' ! k = ucast (drop_bit (k * LENGTH('b)) u)"
    using init_ulong_loop_ok [of u ?ws 0, OF rng] by (auto simp: nth_vec_resize)
  then have "flat ws' i = bit u i" for i
    by (intro flat_of_ulong [of ws' n]) (auto simp: u)
  then have "represents (Some \<lparr>m_bits = ws', m_num_bits = n\<rparr>) (map (bit v) [0..<n])"
    using ws'(2) by (intro represents_bits) (auto simp: u)
  with ws'(1) show ?thesis
    by (simp add: bitset_of_ulong_def init_from_unsigned_long_def bitset_default_def u_def Let_def del: push_bit_of_1)
qed

lemma bit_fold_or:
  "bit (fold (\<lambda>i r. r OR f i) xs (a :: 'c::len word)) j = (bit a j \<or> (\<exists>i\<in>set xs. bit (f i) j))"
  by (induction xs arbitrary: a) (auto simp: bit_simps)

lemma bit_joined_blocks:
  fixes ws :: "'b::len word list"
  assumes "m \<le> length ws" and "j < 64"
  shows "bit (fold (\<lambda>i r. r OR push_bit (i * LENGTH('b)) (ucast (ws ! i))) [0..<m] (0 :: ulong)) j
    = (j < m * LENGTH('b) \<and> flat ws j)"
proof -
  let ?w = "LENGTH('b)"
  have "bit (push_bit (i * ?w) (ucast (ws ! i) :: ulong)) j = (j div ?w = i \<and> bit (ws ! i) (j mod ?w))" for i
  proof (cases "j div ?w = i")
    case True
    then have "i * ?w \<le> j" "j - i * ?w = j mod ?w"
      by (auto simp: minus_div_mult_eq_mod)
    with True assms(2) show ?thesis
      by (auto simp: bit_simps)
  next
    case False
    have "\<not> j - i * ?w < ?w" if "i * ?w \<le> j"
      using that False by (metis add.commute div_mod_unique le_add_diff_inverse2 less_diff_conv2)
    with False show ?thesis by (auto simp: bit_simps dest: bit_imp_le_length)
  qed
  then show ?thesis
    using assms(1) by (auto simp: bit_fold_or flat_def simp flip: div_less_iff_mult)
qed

lemma bit_bits_value: "bit (bits_value xs) i = (i < length xs \<and> xs ! i)"
  by (simp add: bits_value_def bit_horner_sum_bit_iff)

lemma bits_value_less_iff: "bits_value xs < 2 ^ m \<longleftrightarrow> (\<forall>i<length xs. xs ! i \<longrightarrow> i < m)"
proof -
  have "bits_value xs < 2 ^ m \<longleftrightarrow> take_bit m (bits_value xs) = bits_value xs"
    by (simp add: take_bit_nat_eq_self_iff)
  also have "\<dots> \<longleftrightarrow> (\<forall>i. bit (bits_value xs) i \<longrightarrow> i < m)"
    by (auto simp: bit_eq_iff bit_simps)
  finally show ?thesis by (auto simp: bit_bits_value)
qed

lemma first_set_from_npos_iff:
  assumes "m_num_bits b \<le> npos"
  shows "first_set_from k b = npos \<longleftrightarrow> (\<forall>i<m_num_bits b. bools b ! i \<longrightarrow> i < k)"
proof (cases "find (flat (m_bits b)) [k..<m_num_bits b]")
  case None
  then have "\<forall>i<m_num_bits b. bools b ! i \<longrightarrow> i < k"
    unfolding find_None_iff by (auto simp: not_less [symmetric])
  with None show ?thesis by (simp add: first_set_from_def)
next
  case (Some i)
  then have "flat (m_bits b) i" "k \<le> i" "i < m_num_bits b"
    by (auto simp: find_Some_iff)
  with Some assms show ?thesis by (auto simp: first_set_from_def not_less)
qed

lemma to_ulong_ok:
  fixes b :: "'b::len bitset"
  assumes inv: "m_check_invariants b" and sz: "m_num_bits b \<le> npos"
  shows "to_ulong b = (if bits_value (bools b) < 2 ^ 64 then Inr (of_nat (bits_value (bools b)))
    else Inl OverflowError)"
proof (cases "m_num_bits b = 0")
  case True
  then have "bools b = []" by (simp add: bools_def)
  then show ?thesis using True by (simp add: to_ulong_def bits_value_def)
next
  case False
  let ?w = "LENGTH('b)" and ?n = "m_num_bits b"
  have fn: "bs_find_next 63 b = Some (first_set_from 64 b)"
    using bs_find_next_ok [OF inv, of 63] by simp
  have iff: "first_set_from 64 b = npos \<longleftrightarrow> bits_value (bools b) < 2 ^ 64"
    unfolding first_set_from_npos_iff [OF sz] bits_value_less_iff by simp
  show ?thesis
  proof (cases "bits_value (bools b) < 2 ^ 64")
    case False
    with \<open>?n \<noteq> 0\<close> fn iff show ?thesis by (simp add: to_ulong_def)
  next
    case True
    let ?m = "min ?n 64"
    let ?l = "(?m - 1) div ?w"
    let ?r = "fold (\<lambda>i r. r OR push_bit (i * ?w) (ucast (m_bits b ! i))) [0..<?l + 1] (0 :: ulong)"
    have l64: "?l * ?w < 64"
      using \<open>?n \<noteq> 0\<close> div_times_less_eq_dividend [of "?m - 1" ?w] by linarith
    have ln: "?l + 1 \<le> length (m_bits b)"
      using block_of_bit [OF inv, of "?m - 1"] \<open>?n \<noteq> 0\<close> by (simp add: Suc_le_eq)
    have ml: "?m \<le> (?l + 1) * ?w"
      using div_less_iff_mult [of ?w "?m - 1" "?l + 1"] \<open>?n \<noteq> 0\<close> by simp
    have "?r = of_nat (bits_value (bools b))"
    proof (rule bit_word_eqI)
      fix j assume "j < LENGTH(64)"
      then have j: "j < 64" by simp
      have "flat (m_bits b) j = (j < ?n \<and> bools b ! j)" using flat_bools [OF inv] .
      then show "bit ?r j = bit (of_nat (bits_value (bools b)) :: ulong) j"
        unfolding bit_joined_blocks [OF ln j] using j ml
        by (auto simp: bit_of_nat_iff bit_bits_value)
    qed
    moreover have "to_ulong b = Inr ?r"
      using \<open>?n \<noteq> 0\<close> fn iff True l64 by (simp add: to_ulong_def block_index_def Let_def)
    ultimately show ?thesis using True by simp
  qed
qed

subsection \<open>Strings\<close>

definition digit :: "bool \<Rightarrow> char" where
  "digit x = (if x then CHR ''1'' else CHR ''0'')"

definition digits :: "bool list \<Rightarrow> string" where
  "digits xs = map digit (rev xs)"

lemma digit_simps [simp]: "digit x = CHR ''1'' \<longleftrightarrow> x" "digit x = CHR ''0'' \<longleftrightarrow> \<not> x"
  "digit x = CHR ''1'' \<or> digit x = CHR ''0''"
  by (simp_all add: digit_def)

lemma fold_set_digits:
  assumes "k \<le> len"
  shows "fold (\<lambda>i s. if P i then s[len - 1 - i := CHR ''1''] else s) [0..<k] (replicate len CHR ''0'')
    = replicate (len - k) CHR ''0'' @ map digit (rev (map P [0..<k]))"
  using assms
proof (induction k)
  case (Suc k)
  then have "replicate (len - k) CHR ''0'' = replicate (len - Suc k) CHR ''0'' @ [CHR ''0'']"
    by (metis Suc_diff_Suc Suc_le_eq replicate_Suc replicate_append_same)
  with Suc show ?case
    by (simp add: list_update_append digit_def)
qed simp

lemma to_string_ok:
  fixes b :: "'b::len bitset"
  assumes inv: "m_check_invariants b"
  shows "to_string b = digits (bools b)"
proof -
  have "map (\<lambda>i. m_unchecked_test i b) [0..<m_num_bits b] = bools b"
    using m_check_invariantsD(3) [OF inv] by (auto simp: bools_def m_unchecked_test_flat)
  then show ?thesis
    using fold_set_digits [of "m_num_bits b" "m_num_bits b" "\<lambda>i. m_unchecked_test i b"]
    by (simp add: to_string_def to_string_helper_def bs_size_def digits_def)
qed

text \<open>The loop sets bit \<open>i\<close> from the \<open>i\<close>-th character counted from the right end of the field.\<close>

lemma init_string_loop_ok:
  fixes b :: "'b::len bitset"
  assumes "m_check_invariants b" and "m \<le> m_num_bits b" and "pos + m \<le> length s"
    and "\<And>k. pos \<le> k \<Longrightarrow> k < pos + m \<Longrightarrow> s ! k = CHR ''1'' \<or> s ! k = CHR ''0''"
    and "i \<le> m" and "\<And>j. i \<le> j \<Longrightarrow> j < m_num_bits b \<Longrightarrow> \<not> bools b ! j"
  shows "represents (init_string_loop s pos m i b)
    (map (\<lambda>j. if j < i then bools b ! j else j < m \<and> s ! (pos + m - 1 - j) = CHR ''1'') [0..<m_num_bits b])"
  using assms
proof (induction "m - i" arbitrary: i b)
  case 0
  then have "init_string_loop s pos m i b = Some b"
    by (simp add: init_string_loop.simps)
  moreover have "bools b = map (\<lambda>j. if j < i then bools b ! j else j < m \<and> s ! (pos + m - 1 - j) = CHR ''1'') [0..<m_num_bits b]"
    using 0 by (intro nth_equalityI) auto
  ultimately show ?case using 0 by simp
next
  case (Suc d)
  then have im: "i < m" by simp
  let ?k = "pos + m - 1 - i"
  have k: "pos \<le> ?k" "?k < pos + m" using im by auto
  with Suc.prems(3,4) have dig: "s ! ?k = CHR ''1'' \<or> s ! ?k = CHR ''0''" "?k < length s"
    by (blast, simp)
  define b' where "b' = (if s ! ?k = CHR ''1'' then the (bs_set_at i True b) else b)"
  have "represents (bs_set_at i True b) ((bools b)[i := True])"
    using Suc.prems(1,2) im by (intro bs_set_at_ok) simp_all
  moreover have id: "(bools b)[i := False] = bools b"
    using Suc.prems(2) Suc.prems(6) [of i] im list_update_id [of "bools b" i] by simp
  ultimately have b': "init_string_loop s pos m i b = init_string_loop s pos m (Suc i) b'"
    "m_check_invariants b'" "bools b' = (bools b)[i := (s ! ?k = CHR ''1'')]"
    using dig im Suc.prems(1)
    by (auto simp: b'_def init_string_loop.simps [of s pos m i] Let_def elim!: representsE)
  have n': "m_num_bits b' = m_num_bits b"
    using arg_cong [OF b'(3), of length] by simp
  have "represents (init_string_loop s pos m (Suc i) b')
    (map (\<lambda>j. if j < Suc i then bools b' ! j else j < m \<and> s ! (pos + m - 1 - j) = CHR ''1'') [0..<m_num_bits b'])"
    using Suc.prems(2-4,6) Suc.hyps(2) b' n' im
    by (intro Suc.hyps(1)) auto
  moreover have "map (\<lambda>j. if j < Suc i then bools b' ! j else j < m \<and> s ! (pos + m - 1 - j) = CHR ''1'') [0..<m_num_bits b']
    = map (\<lambda>j. if j < i then bools b ! j else j < m \<and> s ! (pos + m - 1 - j) = CHR ''1'') [0..<m_num_bits b]"
    using im Suc.prems(2) by (auto simp: n' b'(3) nth_list_update less_Suc_eq)
  ultimately show ?case by (simp add: b'(1))
qed

lemma zero_bitset: "represents (Some \<lparr>m_bits = vec_resize (calc_num_blocks TYPE('b::len) n) 0 [] :: 'b word list,
    m_num_bits = n\<rparr>) (replicate n False)"
  by (rule represents_bits) (auto simp: flat_def nth_vec_resize simp flip: div_less_iff_mult)

text \<open>The string constructor of an empty bitset, in terms of the characters it reads.\<close>

lemma init_from_string_ok:
  assumes pos: "pos \<le> length s" and num: "num_bits = npos \<Longrightarrow> length s < npos"
    and dig: "\<And>c. c \<in> set (take (min (min n (length s - pos)) num_bits) (drop pos s)) \<Longrightarrow> c = CHR ''1'' \<or> c = CHR ''0''"
  shows "represents (init_from_string s pos n num_bits (bitset_default :: 'b::len bitset))
    (vec_resize (if num_bits \<noteq> npos then num_bits else min n (length s - pos)) False
       (rev (map (\<lambda>c. c = CHR ''1'') (take (min (min n (length s - pos)) num_bits) (drop pos s)))))"
proof -
  let ?rlen = "min n (length s - pos)"
  let ?m = "min ?rlen num_bits"
  let ?sz = "if num_bits \<noteq> npos then num_bits else ?rlen"
  let ?b = "\<lparr>m_bits = vec_resize (calc_num_blocks TYPE('b) ?sz) 0 [], m_num_bits = ?sz\<rparr> :: 'b bitset"
  have b: "m_check_invariants ?b" "bools ?b = replicate ?sz False"
    using zero_bitset [where 'b = 'b, of ?sz] by simp_all
  have m: "(if num_bits < ?rlen then num_bits else ?rlen) = ?m" by auto
  have msz: "?m \<le> ?sz" by auto
  have pm: "pos + ?m \<le> length s" using pos by auto
  have dig': "s ! k = CHR ''1'' \<or> s ! k = CHR ''0''" if "pos \<le> k" "k < pos + ?m" for k
  proof -
    have "k - pos < ?m" "k - pos < length s - pos" using that pm by linarith+
    then have "take ?m (drop pos s) ! (k - pos) = s ! k" and "k - pos < length (take ?m (drop pos s))"
      using that pos by (simp, simp)
    then show ?thesis using dig by (metis nth_mem)
  qed
  have "represents (init_string_loop s pos ?m 0 ?b)
    (map (\<lambda>j. if j < 0 then bools ?b ! j else j < ?m \<and> s ! (pos + ?m - 1 - j) = CHR ''1'') [0..<m_num_bits ?b])"
    using b msz pm dig' by (intro init_string_loop_ok) auto
  moreover have "map (\<lambda>j. if j < 0 then bools ?b ! j else j < ?m \<and> s ! (pos + ?m - 1 - j) = CHR ''1'') [0..<m_num_bits ?b]
    = vec_resize ?sz False (rev (map (\<lambda>c. c = CHR ''1'') (take ?m (drop pos s))))"
    using pm by (intro nth_equalityI) (auto simp: nth_vec_resize rev_nth min_def)
  ultimately show ?thesis
    using pos m by (simp add: init_from_string_def bitset_default_def Let_def)
qed

subsection \<open>Streams\<close>

lemma pad_loop_ok:
  "n \<le> os_room os \<Longrightarrow>
     pad_loop n os = (True, 0, os\<lparr>os_out := os_out os @ replicate n (os_fill os), os_room := os_room os - n\<rparr>)"
  by (induction n os rule: pad_loop.induct) (simp_all add: sputc_def replicate_app_Cons_same)

lemma bits_loop_ok:
  assumes "m_check_invariants b" and "n \<le> m_num_bits b" and "n \<le> os_room os"
  shows "bits_loop b n os =
    Some (True, os\<lparr>os_out := os_out os @ digits (take n (bools b)), os_room := os_room os - n\<rparr>)"
  using assms
proof (induction b n os rule: bits_loop.induct)
  case (2 b i os)
  then show ?case
    by (simp add: bs_test_ok sputc_def digits_def digit_def take_Suc_conv_app_nth)
qed (simp add: digits_def)

text \<open>Into a buffer with room, \<^verbatim>\<open>operator<<\<close> writes the digits padded to the width, and resets the width.\<close>

lemma bs_output_ok:
  assumes inv: "m_check_invariants b" and good: "os_good os"
    and room: "max (nat (os_width os)) (m_num_bits b) \<le> os_room os"
  shows "bs_output b os =
    Some (os\<lparr>os_width := 0,
      os_out := os_out os @ (let pad = replicate (nat (os_width os) - m_num_bits b) (os_fill os)
         in if os_left os then digits (bools b) @ pad else pad @ digits (bools b)),
      os_room := os_room os - max (nat (os_width os)) (m_num_bits b)\<rparr>)"
proof -
  let ?n = "m_num_bits b"
  define p where "p = nat (os_width os) - ?n"
  have p: "(if (if os_width os \<le> 0 then 0 else nat (os_width os)) \<le> bs_size b then 0
      else (if os_width os \<le> 0 then 0 else nat (os_width os)) - bs_size b) = p"
    by (simp add: p_def bs_size_def)
  have mx: "max (nat (os_width os)) ?n = p + ?n" by (simp add: p_def max_def)
  then have r: "p + ?n \<le> os_room os" using room by simp
  have n: "take ?n (bools b) = bools b" by simp
  show ?thesis
    unfolding bs_output_def p Let_def mx using good r
    by (cases "os_left os")
      (simp_all add: pad_loop_ok bits_loop_ok [OF inv] bs_size_def n p_def [symmetric] add.commute)
qed

text \<open>The state of a \<^verbatim>\<open>bit_appender\<close> that has been given the bits \<open>cs\<close>.\<close>

definition ba_inv :: "'b::len word bit_appender \<Rightarrow> bool list \<Rightarrow> bool" where
  "ba_inv ba cs \<longleftrightarrow>
     (let ws = m_bits (ba_bs ba); w = LENGTH('b); n = length cs in
      m_num_bits (ba_bs ba) = length ws * w \<and> ba_n ba = n \<and> length ws = calc_num_blocks TYPE('b) n
      \<and> rev (block_bools (rev ws)) = cs @ replicate (length ws * w - n) False
      \<and> ba_mask ba = (if n mod w = 0 then 0 else 2 ^ (w - 1 - n mod w))
      \<and> (n mod w \<noteq> 0 \<longrightarrow> ba_current ba = length ws - 1))"

lemma full_blocks_invariant:
  "m_num_bits b = length (m_bits b) * LENGTH('b) \<Longrightarrow> m_check_invariants (b :: 'b::len bitset)"
  by (rule m_check_invariantsI) (auto simp: calc_num_blocks_def dest: flat_in_range)

lemma block_bools_Cons: "block_bools (w # ws) = map (bit w) [0..<LENGTH('b)] @ block_bools (ws :: 'b::len word list)"
proof -
  have "[0..<length (w # ws) * LENGTH('b)] = [0..<LENGTH('b)] @ map (\<lambda>j. j + LENGTH('b)) [0..<length ws * LENGTH('b)]"
    using upt_add_eq_append [of 0 "LENGTH('b)" "length ws * LENGTH('b)"] by (simp add: map_add_upt add.commute)
  then show ?thesis
    by (auto simp: block_bools_def flat_Cons_low flat_Cons_high)
qed

text \<open>Setting one bit of the most recent block sets one element of the reversed row of bits.\<close>

lemma set_recent_bit:
  fixes ws :: "'b::len word list"
  assumes ws: "ws \<noteq> []" and j: "j < LENGTH('b)"
  shows "rev (block_bools (rev (ws[length ws - 1 := last ws OR 2 ^ j])))
    = (rev (block_bools (rev ws)))[length ws * LENGTH('b) - 1 - j := True]"
proof -
  obtain us u where u: "ws = us @ [u]" using ws by (cases ws rule: rev_cases) auto
  have "map (bit (u OR 2 ^ j)) [0..<LENGTH('b)] = (map (bit u) [0..<LENGTH('b)])[j := True]"
    using j by (intro nth_equalityI) (auto simp: bit_simps nth_list_update)
  then have "block_bools (rev (ws[length ws - 1 := last ws OR 2 ^ j])) = (block_bools (rev ws))[j := True]"
    using j by (simp add: u block_bools_Cons list_update_append)
  moreover have "j < length (block_bools (rev ws))" using j by (simp add: u)
  ultimately show ?thesis by (simp add: rev_update)
qed

lemma calc_num_blocks_Suc: "calc_num_blocks TYPE('b::len) (Suc n) = n div LENGTH('b) + 1"
proof (rule antisym)
  show "calc_num_blocks TYPE('b) (Suc n) \<le> n div LENGTH('b) + 1"
    unfolding calc_num_blocks_le_iff Suc_le_eq by (simp add: div_less_iff_mult [symmetric] del: mult_Suc)
  have "Suc n \<le> calc_num_blocks TYPE('b) (Suc n) * LENGTH('b)"
    by (rule calc_num_blocks_bounds)
  then show "n div LENGTH('b) + 1 \<le> calc_num_blocks TYPE('b) (Suc n)"
    unfolding Suc_le_eq by (simp add: Suc_le_eq div_less_iff_mult)
qed

lemma pow2_div2: "k < LENGTH('b) \<Longrightarrow> (2 ^ k :: 'b::len word) div 2 = (if k = 0 then 0 else 2 ^ (k - 1))"
proof -
  assume k: "k < LENGTH('b)"
  have "(2 ^ k :: 'b word) div 2 = drop_bit 1 (2 ^ k)"
    using drop_bit_eq_div [of 1 "2 ^ k :: 'b word"] by simp
  also have "\<dots> = (if k = 0 then 0 else 2 ^ (k - 1))"
    using k by (intro bit_word_eqI) (auto simp: bit_simps)
  finally show ?thesis .
qed

text \<open>The appender once it has a block with room for the next bit.\<close>

definition ba_ready :: "'b::len word bit_appender \<Rightarrow> bool list \<Rightarrow> bool" where
  "ba_ready ba cs \<longleftrightarrow>
     (let ws = m_bits (ba_bs ba); w = LENGTH('b); n = length cs in
      m_num_bits (ba_bs ba) = length ws * w \<and> ba_n ba = n \<and> length ws = n div w + 1
      \<and> rev (block_bools (rev ws)) = cs @ replicate (length ws * w - n) False
      \<and> ba_mask ba = 2 ^ (w - 1 - n mod w) \<and> ba_current ba = length ws - 1)"

definition ba_grow :: "'b::len word bit_appender \<Rightarrow> 'b word bit_appender option" where
  "ba_grow ba =
     (if ba_mask ba = 0 then
        (case bs_append 0 (ba_bs ba) of None \<Rightarrow> None
         | Some bs' \<Rightarrow> (case m_highest_block bs' of None \<Rightarrow> None
             | Some _ \<Rightarrow> Some (ba\<lparr>ba_bs := bs', ba_current := num_blocks bs' - 1,
                                  ba_mask := push_bit (LENGTH('b) - 1) 1\<rparr>)))
      else Some ba)"

lemma bs_append_full:
  "m_num_bits b = length (m_bits b) * LENGTH('b) \<Longrightarrow>
     bs_append v b = Some (b\<lparr>m_bits := m_bits b @ [v], m_num_bits := length (m_bits b @ [v]) * LENGTH('b)\<rparr>)"
  for b :: "'b::len bitset"
  by (simp add: bs_append_def bitset_index_defs Let_def full_blocks_invariant add.commute)

lemma ba_grow_ready:
  fixes ba :: "'b::len word bit_appender"
  assumes inv: "ba_inv ba cs"
  shows "\<exists>ba1. ba_grow ba = Some ba1 \<and> ba_ready ba1 cs"
proof (cases "length cs mod LENGTH('b) = 0")
  case True
  let ?bs = "ba_bs ba" and ?w = "LENGTH('b)"
  let ?bs' = "?bs\<lparr>m_bits := m_bits ?bs @ [0], m_num_bits := length (m_bits ?bs @ [0 :: 'b word]) * ?w\<rparr>"
  have full: "m_num_bits ?bs = length (m_bits ?bs) * ?w" and len: "length (m_bits ?bs) * ?w = length cs"
    and d: "length (m_bits ?bs) = length cs div ?w"
    and row: "rev (block_bools (rev (m_bits ?bs))) = cs" and m: "ba_mask ba = 0" and n: "ba_n ba = length cs"
    using inv True by (auto simp: ba_inv_def Let_def calc_num_blocks_def)
  have zero: "block_bools (0 # rev (m_bits ?bs)) = replicate ?w False @ block_bools (rev (m_bits ?bs))"
    by (auto simp: block_bools_Cons intro: nth_equalityI)
  have "ba_grow ba = Some (ba\<lparr>ba_bs := ?bs', ba_current := length (m_bits ?bs), ba_mask := 2 ^ (?w - 1)\<rparr>)"
    using m full by (simp add: ba_grow_def bs_append_full m_highest_block_def bs_size_def num_blocks_def)
  moreover have "ba_ready (ba\<lparr>ba_bs := ?bs', ba_current := length (m_bits ?bs), ba_mask := 2 ^ (?w - 1)\<rparr>) cs"
    using True n row d len by (simp add: ba_ready_def Let_def zero)
  ultimately show ?thesis by blast
next
  case False
  have "LENGTH('b) - 1 - length cs mod LENGTH('b) < LENGTH('b)" by (simp add: less_imp_diff_less)
  then have "(2 :: 'b word) ^ (LENGTH('b) - 1 - length cs mod LENGTH('b)) \<noteq> 0"
    by (simp only: exp_eq_zero_iff)
  then have "ba_mask ba \<noteq> 0"
    using inv False by (simp add: ba_inv_def Let_def del: exp_eq_zero_iff)
  moreover have "calc_num_blocks TYPE('b) (length cs) = length cs div LENGTH('b) + 1"
    using False by (rule calc_num_blocks_bounds)
  ultimately show ?thesis
    using inv False by (auto simp: ba_grow_def ba_inv_def ba_ready_def Let_def)
qed

lemma ba_ready_step:
  fixes ba :: "'b::len word bit_appender" and x :: bool
  assumes rdy: "ba_ready ba cs"
  defines "bs' \<equiv> (if x then (ba_bs ba)\<lparr>m_bits := (m_bits (ba_bs ba))[ba_current ba :=
      m_bits (ba_bs ba) ! ba_current ba OR ba_mask ba]\<rparr> else ba_bs ba)"
  shows "ba_inv (ba\<lparr>ba_bs := bs', ba_mask := ba_mask ba div 2, ba_n := Suc (ba_n ba)\<rparr>) (cs @ [x])"
proof -
  let ?w = "LENGTH('b)" and ?n = "length cs" and ?ws = "m_bits (ba_bs ba)"
  let ?r = "?n mod ?w"
  have rw: "?r < ?w" by simp
  have len: "length ?ws = ?n div ?w + 1" and ne: "?ws \<noteq> []" and cur: "ba_current ba = length ?ws - 1"
    and row: "rev (block_bools (rev ?ws)) = cs @ replicate (length ?ws * ?w - ?n) False"
    and msk: "ba_mask ba = 2 ^ (?w - 1 - ?r)" and nb: "m_num_bits (ba_bs ba) = length ?ws * ?w" "ba_n ba = ?n"
    using rdy by (auto simp: ba_ready_def Let_def)
  have n: "?n = ?n div ?w * ?w + ?r" by simp
  have lw: "length ?ws * ?w = ?n div ?w * ?w + ?w" using len by simp
  have pos: "length ?ws * ?w - 1 - (?w - 1 - ?r) = ?n" using n lw rw by linarith
  have pad: "length ?ws * ?w - ?n = Suc (length ?ws * ?w - Suc ?n)" using n lw rw by linarith
  have row': "rev (block_bools (rev (m_bits bs'))) = (cs @ [x]) @ replicate (length ?ws * ?w - Suc ?n) False"
  proof (cases x)
    case True
    have "?w - 1 - ?r < ?w" by (simp add: less_imp_diff_less)
    from set_recent_bit [OF ne this] True show ?thesis
      by (simp only: bs'_def cur msk if_True dynamic_bitset.simps last_conv_nth [OF ne, symmetric] pos row)
        (simp add: pad list_update_append)
  next
    case False
    then show ?thesis by (simp add: bs'_def row pad)
  qed
  have md: "Suc ?n mod ?w = (if Suc ?r = ?w then 0 else Suc ?r)" by (simp add: mod_Suc)
  have half: "ba_mask ba div 2 = (if Suc ?n mod ?w = 0 then 0 else 2 ^ (?w - 1 - Suc ?n mod ?w))"
  proof -
    have "?w - 1 - ?r < ?w" by (simp add: less_imp_diff_less)
    from pow2_div2 [OF this] show ?thesis using rw by (auto simp: msk md not_less_eq_eq [symmetric] le_less)
  qed
  have l': "length (m_bits bs') = length ?ws" "m_num_bits bs' = length ?ws * ?w"
    using nb by (simp_all add: bs'_def)
  show ?thesis
    using row' half l' nb cur len by (simp add: ba_inv_def Let_def calc_num_blocks_Suc)
qed

lemma do_append_ok:
  assumes "ba_inv ba cs"
  shows "\<exists>ba'. do_append x ba = Some ba' \<and> ba_inv ba' (cs @ [x])"
proof -
  obtain ba1 where "ba_grow ba = Some ba1" "ba_ready ba1 cs"
    using ba_grow_ready [OF assms] by blast
  then show ?thesis
    using ba_ready_step [of ba1 cs x] by (simp add: do_append_def ba_grow_def [symmetric] Let_def)
qed

lemma bit_appender_destroy_ok:
  fixes ba :: "'b::len word bit_appender"
  assumes inv: "ba_inv ba cs"
  shows "represents (bit_appender_destroy ba) (rev cs)"
proof -
  let ?w = "LENGTH('b)" and ?n = "length cs" and ?ws = "m_bits (ba_bs ba)"
  let ?b1 = "(ba_bs ba)\<lparr>m_bits := rev ?ws\<rparr>"
  let ?p = "length ?ws * ?w - ?n"
  have full: "m_num_bits ?b1 = length (m_bits ?b1) * ?w" and len: "length ?ws = calc_num_blocks TYPE('b) ?n"
    and row: "rev (block_bools (rev ?ws)) = cs @ replicate ?p False" and n: "ba_n ba = ?n"
    using inv by (auto simp: ba_inv_def Let_def)
  have b1: "bools ?b1 = replicate ?p False @ rev cs"
    using row full by (simp add: bools_def block_bools_def rev_swap)
  have inv1: "m_check_invariants ?b1" using full by (rule full_blocks_invariant)
  define b2 where "b2 = (if ?n mod ?w \<noteq> 0 then bs_shr (?w - ?n mod ?w) ?b1 else ?b1)"
  have b2: "m_check_invariants b2 \<and> take ?n (bools b2) = rev cs"
  proof (cases "?n mod ?w = 0")
    case True
    then have "?p = 0" using len calc_num_blocks_bounds(2) [where 'b = 'b, of ?n] by simp
    with True inv1 b1 show ?thesis by (simp add: b2_def)
  next
    case False
    have "length ?ws * ?w = ?n div ?w * ?w + ?w"
      using False len calc_num_blocks_bounds(3) [where 'b = 'b, of ?n] by simp
    moreover have "?n = ?n div ?w * ?w + ?n mod ?w" "?n mod ?w < ?w" by simp_all
    ultimately have p: "?w - ?n mod ?w = ?p" by linarith
    have "represents (Some (bs_shr ?p ?b1)) (drop ?p (bools ?b1) @ replicate (min ?p (m_num_bits ?b1)) False)"
      using inv1 by (rule bs_shr_ok)
    then show ?thesis using False by (simp add: b2_def p b1)
  qed
  have "represents (bs_resize ?n False b2) (vec_resize ?n False (bools b2))"
    using b2 by (intro bs_resize_ok) simp
  moreover have "vec_resize ?n False (bools b2) = rev cs"
    using b2 by (simp add: vec_resize_def) (metis append_Nil2 diff_is_0_eq length_rev length_take min.cobounded1 replicate_0 length_bools)
  ultimately show ?thesis
    by (auto simp: bit_appender_destroy_def bit_index_def n b2_def Let_def elim!: representsE)
qed

subsubsection \<open>The extraction operator\<close>

definition is_digit :: "char \<Rightarrow> bool" where
  "is_digit c \<longleftrightarrow> c = CHR ''0'' \<or> c = CHR ''1''"

lemma read_bits_loop_ok:
  assumes "ba_inv ba xs" "length xs \<le> limit"
  shows "let ds = take (limit - length xs) (takeWhile is_digit cs); rest = drop (length ds) cs in
    \<exists>ba'. read_bits_loop limit cs ba = Some (ba', rest, rest = [] \<and> length xs + length ds < limit)
      \<and> ba_inv ba' (xs @ map (\<lambda>c. c = CHR ''1'') ds)"
  using assms
proof (induction cs arbitrary: ba xs)
  case Nil
  have "ba_n ba = length xs" using Nil(1) by (simp add: ba_inv_def Let_def)
  with Nil show ?case by (auto simp: Let_def)
next
  case (Cons c cs)
  have n: "ba_n ba = length xs" using Cons.prems(1) by (simp add: ba_inv_def Let_def)
  show ?case
  proof (cases "length xs < limit \<and> is_digit c")
    case True
    obtain ba' where ba': "do_append (c = CHR ''1'') ba = Some ba'" "ba_inv ba' (xs @ [c = CHR ''1''])"
      using do_append_ok [OF Cons.prems(1)] by blast
    have "limit - length xs = Suc (limit - Suc (length xs))" using True by (simp add: Suc_diff_Suc)
    with Cons.IH [OF ba'(2)] True n ba'(1) show ?thesis
      by (auto simp: Let_def is_digit_def)
  next
    case False
    with n Cons.prems show ?thesis by (auto simp: Let_def is_digit_def)
  qed
qed

lemma bit_appender_init_ok: "ba_inv (bit_appender_init (bs_clear b)) []"
  by (simp add: ba_inv_def bit_appender_init_def bs_clear_def calc_num_blocks_def block_bools_def Let_def)

text \<open>
  Extraction from a good stream: the field read is the longest run of digits after the white space,
  cut at the limit, and the bit-set holds it with the first digit as its highest bit. An empty field
  sets \<^verbatim>\<open>failbit\<close>.
\<close>

lemma bs_input_ok:
  fixes b :: "'b::len bitset" and mx limit :: nat
  assumes good: "is_good st" "\<not> is_eofbit st" "\<not> is_failbit st"
    and src_def: "src = (if is_skipws st then dropWhile is_space (is_in st) else is_in st)"
    and limit_def: "limit = (if 0 < is_width st \<and> nat (is_width st) < mx then nat (is_width st) else mx)"
    and ds_def: "ds = take limit (takeWhile is_digit src)"
    and src: "is_skipws st \<Longrightarrow> src \<noteq> []"
  shows "\<exists>b'. bs_input mx st b = Some (st\<lparr>is_in := drop (length ds) src, is_width := 0,
      is_eofbit := drop (length ds) src = [] \<and> length ds < limit, is_failbit := ds = [],
      is_good := \<not> (drop (length ds) src = [] \<and> length ds < limit) \<and> ds \<noteq> []\<rparr>, b')
    \<and> m_check_invariants b' \<and> bools b' = rev (map (\<lambda>c. c = CHR ''1'') ds)"
proof -
  let ?e = "drop (length ds) src = [] \<and> length ds < limit"
  have sentry: "istream_sentry st = (True, st\<lparr>is_in := src\<rparr>)"
    using good src by (auto simp: istream_sentry_def src_def Let_def)
  obtain ba where ba: "read_bits_loop limit src (bit_appender_init (bs_clear b)) = Some (ba, drop (length ds) src, ?e)"
    "ba_inv ba (map (\<lambda>c. c = CHR ''1'') ds)"
    using read_bits_loop_ok [OF bit_appender_init_ok [of b], of limit src] by (auto simp: Let_def ds_def)
  obtain b' where b': "bit_appender_destroy ba = Some b'" "m_check_invariants b'"
    "bools b' = rev (map (\<lambda>c. c = CHR ''1'') ds)"
    using bit_appender_destroy_ok [OF ba(2)] by (auto elim!: representsE)
  have "length (bools b') = length ds" using b'(3) by simp
  then have "bs_size b' = length ds" by (simp add: bs_size_def)
  then show ?thesis using good ba(1) b'
    unfolding bs_input_def limit_def [symmetric] Let_def sentry prod.case if_True istream.simps
    by simp
qed

end
