(* ===== verification/Data_Refinement.thy ===== *)
theory Data_Refinement
  imports Boost_Prelude
begin

text \<open>
  The contract between a container and its abstract model: every operation that the container
  accepts has on its state the effect that the model's operation has on the abstraction, keeps the
  invariant, and the container refuses exactly the operations the model refuses. The lemmas carry
  the contract from one operation to every sequence of operations a client can issue.
\<close>

fun run_ops :: "('c \<Rightarrow> 's \<Rightarrow> 's option) \<Rightarrow> 'c list \<Rightarrow> 's \<Rightarrow> 's option" where
  "run_ops step [] s = Some s"
| "run_ops step (c # cs) s = (case step c s of None \<Rightarrow> None | Some s' \<Rightarrow> run_ops step cs s')"

lemma run_ops_append: "run_ops step (cs @ ds) s = Option.bind (run_ops step cs s) (run_ops step ds)"
  by (induction cs arbitrary: s) (auto split: option.splits)

text \<open>The result of an operation against the result the model prescribes.\<close>

definition agrees :: "('s \<Rightarrow> bool) \<Rightarrow> ('s \<Rightarrow> 'a) \<Rightarrow> 's option \<Rightarrow> 'a option \<Rightarrow> bool" where
  "agrees valid view r m =
     (case r of None \<Rightarrow> m = None | Some s \<Rightarrow> valid s \<and> m = Some (view s))"

lemma agrees_simps [simp]:
  "agrees valid view None m \<longleftrightarrow> m = None"
  "agrees valid view (Some s) m \<longleftrightarrow> valid s \<and> m = Some (view s)"
  by (simp_all add: agrees_def)

lemma agrees_None_iff: "agrees valid view r m \<Longrightarrow> r = None \<longleftrightarrow> m = None"
  by (cases r) auto

locale data_refinement =
  fixes valid :: "'s \<Rightarrow> bool" and view :: "'s \<Rightarrow> 'a" and ok :: "'c \<Rightarrow> bool"
    and step :: "'c \<Rightarrow> 's \<Rightarrow> 's option" and spec :: "'c \<Rightarrow> 'a \<Rightarrow> 'a option"
  assumes step_agrees: "valid s \<Longrightarrow> ok c \<Longrightarrow> agrees valid view (step c s) (spec c (view s))"
begin

lemma run_agrees:
  "valid s \<Longrightarrow> list_all ok cs \<Longrightarrow> agrees valid view (run_ops step cs s) (run_ops spec cs (view s))"
proof (induction cs arbitrary: s)
  case (Cons c cs)
  show ?case
  proof (cases "step c s")
    case None
    then show ?thesis using step_agrees [of s c] Cons.prems by simp
  next
    case (Some s')
    then show ?thesis using step_agrees [of s c] Cons by simp
  qed
qed simp

lemma run_view:
  "valid s \<Longrightarrow> list_all ok cs \<Longrightarrow> map_option view (run_ops step cs s) = run_ops spec cs (view s)"
  using run_agrees [of s cs] by (cases "run_ops step cs s") auto

lemma run_keeps_valid:
  "valid s \<Longrightarrow> list_all ok cs \<Longrightarrow> run_ops step cs s = Some s' \<Longrightarrow> valid s'"
  using run_agrees [of s cs] by simp

text \<open>Two states with the same abstraction cannot be told apart by any sequence of operations.\<close>

lemma run_congruent:
  "valid s \<Longrightarrow> valid t \<Longrightarrow> view s = view t \<Longrightarrow> list_all ok cs \<Longrightarrow>
     map_option view (run_ops step cs s) = map_option view (run_ops step cs t)"
  by (simp add: run_view)

end

end
