(* ===== verification/Bitset_Properties.thy ===== *)
theory Bitset_Properties
  imports Bitset_Convert Data_Refinement
begin

text \<open>
  The contract of \<^verbatim>\<open>dynamic_bitset\<close>: the modifying members as one command type, the list of bits as
  the abstract model, and the properties of the queries and the conversions.
\<close>

subsection \<open>The modifying members against a list of bits\<close>

datatype 'blk bs_command =
  SetAt nat bool | ResetAt nat | FlipAt nat | SetAll | ResetAll | FlipAll
| AndWith "'blk dynamic_bitset" | OrWith "'blk dynamic_bitset" | XorWith "'blk dynamic_bitset"
| MinusWith "'blk dynamic_bitset" | ShiftL nat | ShiftR nat
| Resize nat bool | Clear | PushBack bool | PopBack | AppendBlock 'blk | AppendRange "'blk list"

fun bs_exec :: "'b::len word bs_command \<Rightarrow> 'b bitset \<Rightarrow> 'b bitset option" where
  "bs_exec (SetAt i x) b = bs_set_at i x b"
| "bs_exec (ResetAt i) b = bs_reset_at i b"
| "bs_exec (FlipAt i) b = bs_flip_at i b"
| "bs_exec SetAll b = bs_set_all b"
| "bs_exec ResetAll b = Some (bs_reset_all b)"
| "bs_exec FlipAll b = bs_flip_all b"
| "bs_exec (AndWith r) b = bs_and b r"
| "bs_exec (OrWith r) b = bs_or b r"
| "bs_exec (XorWith r) b = bs_xor b r"
| "bs_exec (MinusWith r) b = bs_minus b r"
| "bs_exec (ShiftL n) b = bs_shl n b"
| "bs_exec (ShiftR n) b = Some (bs_shr n b)"
| "bs_exec (Resize n x) b = bs_resize n x b"
| "bs_exec Clear b = Some (bs_clear b)"
| "bs_exec (PushBack x) b = bs_push_back x b"
| "bs_exec PopBack b = bs_pop_back b"
| "bs_exec (AppendBlock w) b = bs_append w b"
| "bs_exec (AppendRange ws) b = bs_append_range ws b"

definition list_update_at :: "nat \<Rightarrow> (bool \<Rightarrow> bool) \<Rightarrow> bool list \<Rightarrow> bool list option" where
  "list_update_at i f xs = (if i < length xs then Some (xs[i := f (xs ! i)]) else None)"

definition list_zip_with :: "(bool \<Rightarrow> bool \<Rightarrow> bool) \<Rightarrow> bool list \<Rightarrow> bool list \<Rightarrow> bool list option" where
  "list_zip_with f xs ys = (if length xs = length ys then Some (map2 f xs ys) else None)"

fun bits_exec :: "'b::len word bs_command \<Rightarrow> bool list \<Rightarrow> bool list option" where
  "bits_exec (SetAt i x) xs = list_update_at i (\<lambda>_. x) xs"
| "bits_exec (ResetAt i) xs = list_update_at i (\<lambda>_. False) xs"
| "bits_exec (FlipAt i) xs = list_update_at i Not xs"
| "bits_exec SetAll xs = Some (map (\<lambda>_. True) xs)"
| "bits_exec ResetAll xs = Some (map (\<lambda>_. False) xs)"
| "bits_exec FlipAll xs = Some (map Not xs)"
| "bits_exec (AndWith r) xs = list_zip_with (\<and>) xs (bools r)"
| "bits_exec (OrWith r) xs = list_zip_with (\<or>) xs (bools r)"
| "bits_exec (XorWith r) xs = list_zip_with (\<noteq>) xs (bools r)"
| "bits_exec (MinusWith r) xs = list_zip_with (\<lambda>x y. x \<and> \<not> y) xs (bools r)"
| "bits_exec (ShiftL n) xs = Some (take (length xs) (replicate n False @ xs))"
| "bits_exec (ShiftR n) xs = Some (take (length xs) (drop n xs @ replicate n False))"
| "bits_exec (Resize n x) xs = Some (take n xs @ replicate (n - length xs) x)"
| "bits_exec Clear xs = Some []"
| "bits_exec (PushBack x) xs = Some (xs @ [x])"
| "bits_exec PopBack xs = (if xs = [] then None else Some (butlast xs))"
| "bits_exec (AppendBlock w) xs = Some (xs @ map (bit w) [0..<LENGTH('b)])"
| "bits_exec (AppendRange ws) xs = Some (xs @ concat (map (\<lambda>w. map (bit w) [0..<LENGTH('b)]) ws))"

fun command_ok :: "'b::len word bs_command \<Rightarrow> bool" where
  "command_ok (AndWith r) = m_check_invariants r"
| "command_ok (OrWith r) = m_check_invariants r"
| "command_ok (XorWith r) = m_check_invariants r"
| "command_ok (MinusWith r) = m_check_invariants r"
| "command_ok _ = True"

lemma agrees_represents: "represents r xs \<Longrightarrow> agrees m_check_invariants bools r (Some xs)"
  by (auto elim: representsE)

lemma block_bools_concat: "block_bools ws = concat (map (\<lambda>w. map (bit w) [0..<LENGTH('b)]) (ws :: 'b::len word list))"
  by (induction ws) (simp_all add: block_bools_Cons, simp add: block_bools_def)

lemma bools_eq_Nil_iff: "bools b = [] \<longleftrightarrow> m_num_bits b = 0"
  by (simp add: bools_def)

lemma zip_agrees:
  assumes "m_num_bits b \<noteq> m_num_bits r \<Longrightarrow> res = None"
    and "m_num_bits b = m_num_bits r \<Longrightarrow> represents res (map2 f (bools b) (bools r))"
  shows "agrees m_check_invariants bools res (list_zip_with f (bools b) (bools r))"
  using assms by (cases "m_num_bits b = m_num_bits r") (auto simp: list_zip_with_def elim: representsE)

lemma update_agrees:
  assumes "\<not> i < m_num_bits b \<Longrightarrow> res = None"
    and "i < m_num_bits b \<Longrightarrow> represents res ((bools b)[i := f (bools b ! i)])"
  shows "agrees m_check_invariants bools res (list_update_at i f (bools b))"
  using assms by (cases "i < m_num_bits b") (auto simp: list_update_at_def elim: representsE)

lemma bs_refuses:
  "\<not> i < m_num_bits b \<Longrightarrow> bs_set_at i x b = None"
  "\<not> i < m_num_bits b \<Longrightarrow> bs_reset_at i b = None"
  "\<not> i < m_num_bits b \<Longrightarrow> bs_flip_at i b = None"
  "m_num_bits b \<noteq> m_num_bits r \<Longrightarrow> bs_and b r = None"
  "m_num_bits b \<noteq> m_num_bits r \<Longrightarrow> bs_or b r = None"
  "m_num_bits b \<noteq> m_num_bits r \<Longrightarrow> bs_xor b r = None"
  "m_num_bits b \<noteq> m_num_bits r \<Longrightarrow> bs_minus b r = None"
  by (simp_all add: bs_set_at_def bs_reset_at_def bs_flip_at_def bs_and_def bs_or_def bs_xor_def
      bs_minus_def bs_blockwise_def bs_size_def)

lemma bs_exec_agrees:
  fixes b :: "'b::len bitset"
  assumes inv: "m_check_invariants b" and ok: "command_ok c"
  shows "agrees m_check_invariants bools (bs_exec c b) (bits_exec c (bools b))"
proof (cases c)
  case (ShiftL n)
  have "take (m_num_bits b) (replicate n False @ bools b)
      = replicate (min n (m_num_bits b)) False @ take (m_num_bits b - n) (bools b)"
    by (simp add: min.commute)
  then show ?thesis using ShiftL agrees_represents [OF bs_shl_ok [OF inv, of n]] by simp
next
  case (ShiftR n)
  have "take (m_num_bits b) (drop n (bools b) @ replicate n False)
      = drop n (bools b) @ replicate (min n (m_num_bits b)) False"
    by (simp add: min_def)
  then show ?thesis using ShiftR bs_shr_ok [OF inv, of n] by simp
next
  case (PopBack)
  then show ?thesis
    using bs_pop_back_ok [OF inv] by (auto simp: bools_eq_Nil_iff bs_pop_back_def intro: agrees_represents)
next
  case Clear
  then show ?thesis by (simp add: bs_clear_def bools_def full_blocks_invariant)
next
  case ResetAll
  then show ?thesis using bs_reset_all_ok [OF inv] by (simp add: map_replicate_const)
next
  case (Resize n x)
  then show ?thesis using agrees_represents [OF bs_resize_ok [OF inv, of n x]] by (simp add: vec_resize_def)
next
  case (AppendRange ws)
  then show ?thesis using agrees_represents [OF bs_append_range_ok [OF inv, of ws]]
    by (simp add: block_bools_concat)
next
  case (XorWith r)
  then show ?thesis using ok inv by (simp only: bs_exec.simps bits_exec.simps command_ok.simps)
      (intro zip_agrees bs_refuses bs_operators_ok)
next
  case (AppendBlock w)
  then show ?thesis using agrees_represents [OF bs_append_ok [OF inv, of w]]
    by (simp add: block_bools_concat)
qed (use ok inv in \<open>auto intro!: zip_agrees update_agrees agrees_represents bs_set_at_ok bs_reset_at_ok
      bs_flip_at_ok bs_set_all_ok bs_flip_all_ok bs_push_back_ok bs_operators_ok bs_refuses
      simp del: nth_bools\<close>)

interpretation bs_impl: data_refinement m_check_invariants bools command_ok bs_exec bits_exec
  by unfold_locales (rule bs_exec_agrees)


text \<open>C1 Every sequence of modifying members of \<^verbatim>\<open>dynamic_bitset\<close> does to the bits what the same
  operations do to a list of Booleans, for every block width: it ends in a state that satisfies
  \<^verbatim>\<open>m_check_invariants\<close> and holds the list's result, and stops at a failed assertion exactly where the
  list operation is undefined (a position or an operand size out of range, \<^verbatim>\<open>pop_back\<close> when empty).\<close>

theorem bitset_refines_list:
  fixes b :: "'b::len bitset"
  assumes "m_check_invariants b" and "list_all command_ok cs"
  shows "agrees m_check_invariants bools (run_ops bs_exec cs b) (run_ops bits_exec cs (bools b))"
  using assms by (rule bs_impl.run_agrees)

theorem bitset_refines_list_witness:
  "map_option bools (run_ops bs_exec [PushBack True, ShiftL 1, Resize 7 True, FlipAt 3, PopBack]
     (\<lparr>m_bits = [5], m_num_bits = 4\<rparr> :: 8 bitset)) = Some [False, True, False, False, False, True]"
proof -
  let ?b = "\<lparr>m_bits = [5], m_num_bits = 4\<rparr> :: 8 bitset"
  let ?cs = "[PushBack True, ShiftL 1, Resize 7 True, FlipAt 3, PopBack] :: 8 word bs_command list"
  have "m_check_invariants ?b" and "list_all command_ok ?cs" and "bools ?b = [True, False, True, False]"
    by code_simp+
  moreover have "run_ops bits_exec ?cs [True, False, True, False] = Some [False, True, False, False, False, True]"
    by code_simp
  ultimately show ?thesis
    using bitset_refines_list [of ?b ?cs] by (cases "run_ops bs_exec ?cs ?b") simp_all
qed

subsection \<open>Queries\<close>

text \<open>C20 \<^verbatim>\<open>count\<close>, by whichever of the byte-table or the block-wise algorithm the block type selects,
  returns the number of set bits, and \<^verbatim>\<open>any\<close>, \<^verbatim>\<open>none\<close> and \<^verbatim>\<open>all\<close> are the comparisons of that number with
  zero and with the size.\<close>

theorem count_any_none_all:
  fixes b :: "'b::len bitset"
  assumes "m_check_invariants b"
  shows "bs_count b = count_list (bools b) True \<and> (bs_any b \<longleftrightarrow> 0 < bs_count b)
    \<and> (bs_none b \<longleftrightarrow> bs_count b = 0) \<and> bs_all b = Some (bs_count b = bs_size b)"
proof -
  have "count_list (bools b) True = length (bools b) \<longleftrightarrow> (\<forall>x\<in>set (bools b). x)"
    by (metis (full_types) count_list_eq_length_filter length_filter_less filter_True less_irrefl)
  then show ?thesis
    using bs_count_ok [OF assms] bs_any_ok [OF assms] bs_all_ok [OF assms]
    by (auto simp: bs_none_def bs_size_def count_list_0_iff simp flip: neq0_conv)
qed


lemma count_any_none_all_witness:
  "bs_count (\<lparr>m_bits = [5, 1], m_num_bits = 9\<rparr> :: 8 bitset) = 3"
proof -
  let ?b = "\<lparr>m_bits = [5, 1], m_num_bits = 9\<rparr> :: 8 bitset"
  have "m_check_invariants ?b" and "count_list (bools ?b) True = 3" by code_simp+
  then show ?thesis using count_any_none_all [of ?b] by simp
qed

lemma first_set_from_least:
  assumes inv: "m_check_invariants b"
  shows "(\<exists>k. first_set_from i b = k \<and> i \<le> k \<and> k < bs_size b \<and> bools b ! k \<and> (\<forall>j. i \<le> j \<and> j < k \<longrightarrow> \<not> bools b ! j))
    \<or> (first_set_from i b = npos \<and> (\<forall>j. i \<le> j \<and> j < bs_size b \<longrightarrow> \<not> bools b ! j))"
proof (cases "find (flat (m_bits b)) [i..<m_num_bits b]")
  case None
  then have "\<forall>j. i \<le> j \<and> j < m_num_bits b \<longrightarrow> \<not> flat (m_bits b) j"
    by (auto simp: find_None_iff)
  with None show ?thesis by (simp add: first_set_from_def bs_size_def)
next
  case (Some k)
  then obtain n where n: "n < m_num_bits b - i" "k = i + n" "flat (m_bits b) (i + n)"
    "\<And>j. j < n \<Longrightarrow> \<not> flat (m_bits b) (i + j)"
    by (auto simp: find_Some_iff)
  have "\<not> flat (m_bits b) j" if "i \<le> j" "j < k" for j
    using n(2,4) that by (metis add_less_cancel_left le_add_diff_inverse)
  with Some n(1-3) show ?thesis by (auto simp: first_set_from_def bs_size_def)
qed

text \<open>C22 \<^verbatim>\<open>find_first\<close> returns the lowest set position and \<^verbatim>\<open>find_next(pos)\<close> the lowest one above \<^verbatim>\<open>pos\<close>,
  or \<^verbatim>\<open>npos\<close> when there is none; neither fails an assertion of \<^verbatim>\<open>lowest_bit\<close> on the way.\<close>

theorem find_first_next_least:
  fixes b :: "'b::len bitset"
  assumes "m_check_invariants b"
  shows "\<exists>r s. bs_find_first b = Some r \<and> bs_find_next pos b = Some s
    \<and> (r < bs_size b \<and> bools b ! r \<and> (\<forall>j<r. \<not> bools b ! j)
       \<or> r = npos \<and> (\<forall>j<bs_size b. \<not> bools b ! j))
    \<and> (pos < s \<and> s < bs_size b \<and> bools b ! s \<and> (\<forall>j. pos < j \<and> j < s \<longrightarrow> \<not> bools b ! j)
       \<or> s = npos \<and> (\<forall>j. pos < j \<and> j < bs_size b \<longrightarrow> \<not> bools b ! j))"
  using first_set_from_least [OF assms, of 0] first_set_from_least [OF assms, of "Suc pos"]
  by (simp add: bs_find_first_ok [OF assms] bs_find_next_ok [OF assms] Suc_le_eq del: nth_bools)

lemma find_first_next_least_witness:
  "\<exists>r s. bs_find_first (\<lparr>m_bits = [4, 1], m_num_bits = 9\<rparr> :: 8 bitset) = Some r
     \<and> bs_find_next 2 (\<lparr>m_bits = [4, 1], m_num_bits = 9\<rparr> :: 8 bitset) = Some s \<and> r \<noteq> npos \<and> s \<noteq> npos"
proof -
  let ?b = "\<lparr>m_bits = [4, 1], m_num_bits = 9\<rparr> :: 8 bitset"
  have inv: "m_check_invariants ?b" and bs: "bs_size ?b = 9" "bools ?b ! 8" by code_simp+
  have n: "9 < npos" by (simp add: npos_def)
  define B where "B = bools ?b"
  have B8: "B ! 8" using bs(2) by (simp add: B_def)
  obtain r s where rs: "bs_find_first ?b = Some r" "bs_find_next 2 ?b = Some s"
    and r: "r < 9 \<and> B ! r \<or> r = npos \<and> (\<forall>j<9. \<not> B ! j)"
    and s: "s < 9 \<and> B ! s \<or> s = npos \<and> (\<forall>j. 2 < j \<and> j < 9 \<longrightarrow> \<not> B ! j)"
    using find_first_next_least [OF inv, of 2] unfolding bs(1) B_def [symmetric] by blast
  have "r \<noteq> npos" "s \<noteq> npos" using r s n B8 by force+
  with rs show ?thesis by blast
qed

lemma bits_value_inject:
  assumes "length xs = length ys"
  shows "bits_value xs = bits_value ys \<longleftrightarrow> xs = ys"
proof (rule iffI, rule nth_equalityI)
  fix i assume "bits_value xs = bits_value ys" "i < length xs"
  then show "xs ! i = ys ! i" using assms bit_bits_value [of xs i] bit_bits_value [of ys i] by simp
qed (use assms in auto)

text \<open>The relational operators order bit-sets of one size as the numbers their bits denote: \<^verbatim>\<open><\<close> is the
  strict order, \<^verbatim>\<open>==\<close> holds for equal numbers only, and the other operators follow from it; the model's
  assertion on the sizes never fails.\<close>

theorem comparison_is_numeric:
  fixes a b :: "'b::len bitset"
  assumes "m_check_invariants a" "m_check_invariants b" "bs_size a = bs_size b"
  shows "bs_less a b = Some (bits_value (bools a) < bits_value (bools b))
    \<and> (bs_eq a b \<longleftrightarrow> bits_value (bools a) = bits_value (bools b))
    \<and> bs_less_eq a b = Some (bits_value (bools a) \<le> bits_value (bools b))
    \<and> bs_greater a b = Some (bits_value (bools b) < bits_value (bools a))
    \<and> bs_greater_eq a b = Some (bits_value (bools b) \<le> bits_value (bools a))"
proof -
  have n: "m_num_bits a = m_num_bits b" using assms(3) by (simp add: bs_size_def)
  have lt: "bs_less a b = Some (bits_value (bools a) < bits_value (bools b))"
    "bs_less b a = Some (bits_value (bools b) < bits_value (bools a))"
    using bs_less_ok assms n by metis+
  have "bits_value (bools a) = bits_value (bools b) \<longleftrightarrow> bools a = bools b"
    using n by (auto simp: bits_value_inject)
  moreover have "bs_eq a b \<longleftrightarrow> a = b" using n by (auto simp: bs_eq_def intro!: dynamic_bitset.equality)
  moreover have "a = b \<longleftrightarrow> bools a = bools b" using bools_inject assms(1,2) by blast
  ultimately show ?thesis
    using lt by (auto simp: bs_less_eq_def bs_greater_def bs_greater_eq_def)
qed

lemma comparison_is_numeric_witness:
  "bs_less (\<lparr>m_bits = [255, 0], m_num_bits = 9\<rparr> :: 8 bitset) \<lparr>m_bits = [1, 1], m_num_bits = 9\<rparr> = Some True"
proof -
  let ?a = "\<lparr>m_bits = [255, 0], m_num_bits = 9\<rparr> :: 8 bitset" and ?b = "\<lparr>m_bits = [1, 1], m_num_bits = 9\<rparr> :: 8 bitset"
  have "m_check_invariants ?a" "m_check_invariants ?b" "bs_size ?a = bs_size ?b" by code_simp+
  moreover have "bools ?a = replicate 8 True @ [False]" "bools ?b = [True] @ replicate 7 False @ [True]"
    by code_simp+
  ultimately show ?thesis using comparison_is_numeric [of ?a ?b] by (simp add: bits_value_def numeral_eq_Suc)
qed

text \<open>\<^verbatim>\<open>to_ulong\<close> returns the number the bits denote, and throws \<^verbatim>\<open>overflow_error\<close> exactly when it does
  not fit in an \<^verbatim>\<open>unsigned long\<close>; on the constructor from \<^verbatim>\<open>unsigned long\<close> it returns the constructor's
  argument reduced to the given number of bits.\<close>

theorem ulong_round_trip:
  assumes "n \<le> npos"
  shows "\<exists>b :: 'b::len bitset. bitset_of_ulong n v = Some b \<and> m_check_invariants b \<and> bs_size b = n
    \<and> to_ulong b = Inr (take_bit n v)"
proof -
  obtain b :: "'b bitset" where b: "bitset_of_ulong n v = Some b" "m_check_invariants b"
    "bools b = map (bit v) [0..<n]"
    using bitset_of_ulong_ok [of n v, where 'b = 'b] by (rule representsE)
  have sz: "m_num_bits b = n" using arg_cong [OF b(3), of length] by simp
  have val: "bits_value (bools b) = take_bit n (unat v)"
  proof -
    have "map (bit v) [0..<n] = map (bit (unat v)) [0..<n]" by (auto simp: bit_unsigned_iff)
    then show ?thesis by (simp only: b(3) bits_value_def horner_sum_bit_eq_take_bit)
  qed
  have "unat v < 2 ^ LENGTH(64)" by (rule unsigned_less)
  then have "take_bit n (unat v) < 2 ^ 64"
    using take_bit_nat_less_eq_self [of n "unat v"] by (simp del: take_bit_nat_less_eq_self)
  moreover have "of_nat (take_bit n (unat v)) = take_bit n v"
    by (simp add: unsigned_take_bit_eq [symmetric])
  ultimately have "to_ulong b = Inr (take_bit n v)"
    using to_ulong_ok [OF b(2)] sz assms by (simp add: val)
  then show ?thesis using b(1,2) sz by (auto simp: bs_size_def)
qed


lemma ulong_round_trip_witness:
  "\<exists>b :: 8 bitset. bitset_of_ulong 12 70000 = Some b \<and> to_ulong b = Inr 368"
  using ulong_round_trip [of 12 70000, where 'b = 8] by (auto simp: npos_def take_bit_eq_mod)

text \<open>\<^verbatim>\<open>to_string\<close> and the constructor from a string are inverse: reading back the printed digits, the
  first of which is the highest bit, gives the same bit-set, for every block width.\<close>

theorem string_round_trip:
  fixes b :: "'b::len bitset"
  assumes inv: "m_check_invariants b" and sz: "bs_size b < npos"
  shows "init_from_string (to_string b) 0 npos npos bitset_default = Some b"
proof -
  let ?s = "to_string b"
  have s: "?s = map digit (rev (bools b))" "length ?s = m_num_bits b"
    using to_string_ok [OF inv] by (simp_all add: digits_def)
  have len: "min (min npos (length ?s - 0)) npos = m_num_bits b" using sz s(2) by (simp add: bs_size_def)
  have dig: "c = CHR ''1'' \<or> c = CHR ''0''" if "c \<in> set (take (m_num_bits b) (drop 0 ?s))" for c
    using in_set_takeD [OF that] by (auto simp: s(1))
  have "represents (init_from_string ?s 0 npos npos (bitset_default :: 'b bitset))
     (vec_resize (m_num_bits b) False (rev (map (\<lambda>c. c = CHR ''1'') ?s)))"
    using init_from_string_ok [of 0 ?s npos npos, where 'b = 'b, unfolded len, OF _ _ dig] sz s
    by (auto simp: bs_size_def min_def)
  moreover have "rev (map (\<lambda>c. c = CHR ''1'') ?s) = bools b" by (simp add: s(1) rev_map o_def)
  ultimately obtain b' :: "'b bitset" where "init_from_string ?s 0 npos npos bitset_default = Some b'"
    "m_check_invariants b'" "bools b' = bools b"
    by (auto simp: vec_resize_def elim!: representsE)
  then show ?thesis using bools_inject [OF _ inv] by blast
qed

lemma string_round_trip_witness:
  "init_from_string (to_string (\<lparr>m_bits = [5, 1], m_num_bits = 9\<rparr> :: 8 bitset)) 0 npos npos bitset_default
     = Some (\<lparr>m_bits = [5, 1], m_num_bits = 9\<rparr> :: 8 bitset)"
  by (rule string_round_trip) (code_simp, simp add: bs_size_def npos_def)








end
