(* ===== verification/Circular_Buffer.thy ===== *)
theory Circular_Buffer
  imports Data_Refinement "HOL-Library.Monad_Syntax"
begin

text \<open>
  \<^verbatim>\<open>boost::circular_buffer\<close> (\<^verbatim>\<open>circular_buffer/base.hpp\<close>) and its iterators
  (\<^verbatim>\<open>circular_buffer/details.hpp\<close>): the state, the pointer arithmetic, and the operations.

  A pointer into the buffer is its offset from \<^verbatim>\<open>m_buff\<close>, so \<^verbatim>\<open>m_end\<close> is the capacity. A slot is
  \<open>None\<close> while no object lives in it. \<open>cb_scalar\<close> is \<^verbatim>\<open>is_scalar<value_type>\<close>: for other types,
  constructing over a live object, assigning to or destroying a dead one is undefined behaviour, and
  the operation's result is then \<open>None\<close>, as it is for a failed \<^verbatim>\<open>BOOST_CB_ASSERT\<close>. An iterator is the
  pointer \<^verbatim>\<open>m_it\<close>, with \<open>None\<close> for the null pointer that stands for \<^verbatim>\<open>end()\<close>. Copying an element does
  not throw; a move leaves its source with the value it had.
\<close>

subsection \<open>State and pointer arithmetic\<close>

record 'a circular_buffer =
  cb_scalar :: bool
  cb_mem :: "'a option list"
  m_first :: nat
  m_last :: nat
  m_size :: nat

definition cb_size :: "'a circular_buffer \<Rightarrow> nat" where
  "cb_size b = m_size b"

definition cb_capacity :: "'a circular_buffer \<Rightarrow> nat" where
  "cb_capacity b = length (cb_mem b)"

definition cb_empty :: "'a circular_buffer \<Rightarrow> bool" where
  "cb_empty b = (cb_size b = 0)"

definition cb_full :: "'a circular_buffer \<Rightarrow> bool" where
  "cb_full b = (cb_capacity b = cb_size b)"

definition cb_reserve :: "'a circular_buffer \<Rightarrow> nat" where
  "cb_reserve b = cb_capacity b - cb_size b"

definition cb_increment :: "'a circular_buffer \<Rightarrow> nat \<Rightarrow> nat" where
  "cb_increment b p = (if p + 1 = cb_capacity b then 0 else p + 1)"

definition cb_decrement :: "'a circular_buffer \<Rightarrow> nat \<Rightarrow> nat" where
  "cb_decrement b p = (if p = 0 then cb_capacity b else p) - 1"

definition cb_add :: "'a circular_buffer \<Rightarrow> nat \<Rightarrow> nat \<Rightarrow> nat" where
  "cb_add b p n = (if n < cb_capacity b - p then p + n else p + n - cb_capacity b)"

definition cb_sub :: "'a circular_buffer \<Rightarrow> nat \<Rightarrow> nat \<Rightarrow> nat" where
  "cb_sub b p n = (if n > p then p + cb_capacity b - n else p - n)"

definition map_pointer :: "'a circular_buffer \<Rightarrow> nat option \<Rightarrow> nat" where
  "map_pointer b p = (case p of None \<Rightarrow> m_last b | Some q \<Rightarrow> q)"

definition is_uninitialized :: "'a circular_buffer \<Rightarrow> nat \<Rightarrow> bool" where
  "is_uninitialized b p = (p \<ge> m_last b \<and> (m_first b < m_last b \<or> p < m_first b))"

subsection \<open>Memory\<close>

definition cb_read :: "nat \<Rightarrow> 'a circular_buffer \<Rightarrow> 'a option" where
  "cb_read p b = (if p < cb_capacity b then cb_mem b ! p else None)"

definition cb_construct :: "nat \<Rightarrow> 'a \<Rightarrow> 'a circular_buffer \<Rightarrow> 'a circular_buffer option" where
  "cb_construct p x b =
     (if p < cb_capacity b \<and> (cb_scalar b \<or> cb_mem b ! p = None)
      then Some (b\<lparr>cb_mem := (cb_mem b)[p := Some x]\<rparr>) else None)"

definition cb_replace :: "nat \<Rightarrow> 'a \<Rightarrow> 'a circular_buffer \<Rightarrow> 'a circular_buffer option" where
  "cb_replace p x b =
     (if p < cb_capacity b \<and> (cb_scalar b \<or> cb_mem b ! p \<noteq> None)
      then Some (b\<lparr>cb_mem := (cb_mem b)[p := Some x]\<rparr>) else None)"

definition construct_or_replace ::
  "bool \<Rightarrow> nat \<Rightarrow> 'a \<Rightarrow> 'a circular_buffer \<Rightarrow> 'a circular_buffer option" where
  "construct_or_replace construct p x b = (if construct then cb_construct p x b else cb_replace p x b)"

definition destroy_item :: "nat \<Rightarrow> 'a circular_buffer \<Rightarrow> 'a circular_buffer option" where
  "destroy_item p b =
     (if p < cb_capacity b then
        (if cb_scalar b then Some b
         else if cb_mem b ! p \<noteq> None then Some (b\<lparr>cb_mem := (cb_mem b)[p := None]\<rparr>) else None)
      else None)"

subsection \<open>Iterators\<close>

text \<open>\<open>it_add\<close> and \<open>it_sub\<close> are \<^verbatim>\<open>+=\<close> and \<^verbatim>\<open>-=\<close> for distances that are not negative, the only ones the
  members use; for a negative distance each is the other with its opposite.\<close>

definition cb_begin :: "'a circular_buffer \<Rightarrow> nat option" where
  "cb_begin b = (if cb_empty b then None else Some (m_first b))"

definition cb_end :: "'a circular_buffer \<Rightarrow> nat option" where
  "cb_end b = None"

definition linearize_pointer :: "'a circular_buffer \<Rightarrow> nat option \<Rightarrow> nat" where
  "linearize_pointer b it =
     (case it of None \<Rightarrow> cb_size b
      | Some p \<Rightarrow> if p < m_first b then p + (cb_capacity b - m_first b) else p - m_first b)"

definition it_diff :: "'a circular_buffer \<Rightarrow> nat option \<Rightarrow> nat option \<Rightarrow> int" where
  "it_diff b it jt = int (linearize_pointer b it) - int (linearize_pointer b jt)"

definition it_next :: "'a circular_buffer \<Rightarrow> nat option \<Rightarrow> nat option option" where
  "it_next b it =
     (case it of None \<Rightarrow> None
      | Some p \<Rightarrow> (let q = cb_increment b p in Some (if q = m_last b then None else Some q)))"

definition it_prev :: "'a circular_buffer \<Rightarrow> nat option \<Rightarrow> nat option option" where
  "it_prev b it =
     (if it = Some (m_first b) then None
      else Some (Some (cb_decrement b (case it of None \<Rightarrow> m_last b | Some p \<Rightarrow> p))))"

definition it_add :: "'a circular_buffer \<Rightarrow> nat option \<Rightarrow> nat \<Rightarrow> nat option option" where
  "it_add b it n =
     (if n > 0 then
        (if it_diff b (cb_end b) it \<ge> int n then
           (case it of None \<Rightarrow> None
            | Some p \<Rightarrow> (let q = cb_add b p n in Some (if q = m_last b then None else Some q)))
         else None)
      else Some it)"

definition it_sub :: "'a circular_buffer \<Rightarrow> nat option \<Rightarrow> nat \<Rightarrow> nat option option" where
  "it_sub b it n =
     (if n > 0 then
        (if it_diff b it (cb_begin b) \<ge> int n
         then Some (Some (cb_sub b (case it of None \<Rightarrow> m_last b | Some p \<Rightarrow> p) n)) else None)
      else Some it)"

definition it_less :: "'a circular_buffer \<Rightarrow> nat option \<Rightarrow> nat option \<Rightarrow> bool" where
  "it_less b it jt = (linearize_pointer b it < linearize_pointer b jt)"

subsection \<open>Element access\<close>

definition cb_subscript :: "nat \<Rightarrow> 'a circular_buffer \<Rightarrow> 'a option" where
  "cb_subscript index b = (if index < cb_size b then cb_read (cb_add b (m_first b) index) b else None)"

datatype cb_error = OutOfRange | LengthError | UndefinedBehaviour

definition check_position :: "nat \<Rightarrow> 'a circular_buffer \<Rightarrow> cb_error + unit" where
  "check_position index b = (if index \<ge> cb_size b then Inl OutOfRange else Inr ())"

definition cb_at :: "nat \<Rightarrow> 'a circular_buffer \<Rightarrow> cb_error + 'a" where
  "cb_at index b =
     (case check_position index b of Inl e \<Rightarrow> Inl e
      | Inr _ \<Rightarrow> (case cb_subscript index b of None \<Rightarrow> Inl UndefinedBehaviour | Some x \<Rightarrow> Inr x))"

definition cb_front :: "'a circular_buffer \<Rightarrow> 'a option" where
  "cb_front b = (if cb_empty b then None else cb_read (m_first b) b)"

definition cb_back :: "'a circular_buffer \<Rightarrow> 'a option" where
  "cb_back b =
     (if cb_empty b then None
      else cb_read ((if m_last b = 0 then cb_capacity b else m_last b) - 1) b)"

text \<open>The two array ranges, as offset and length.\<close>

definition array_one :: "'a circular_buffer \<Rightarrow> nat \<times> nat" where
  "array_one b =
     (m_first b, (if m_last b \<le> m_first b \<and> \<not> cb_empty b then cb_capacity b else m_last b) - m_first b)"

definition array_two :: "'a circular_buffer \<Rightarrow> nat \<times> nat" where
  "array_two b = (0, if m_last b \<le> m_first b \<and> \<not> cb_empty b then m_last b else 0)"

definition is_linearized :: "'a circular_buffer \<Rightarrow> bool" where
  "is_linearized b = (m_first b < m_last b \<or> m_last b = 0)"

subsection \<open>Insertion and removal at the ends\<close>

definition cb_push_back :: "'a \<Rightarrow> 'a circular_buffer \<Rightarrow> 'a circular_buffer option" where
  "cb_push_back item b =
     (if cb_full b then
        (if cb_empty b then Some b
         else do {
           b1 \<leftarrow> cb_replace (m_last b) item b;
           let l = cb_increment b1 (m_last b1);
           Some (b1\<lparr>m_last := l, m_first := l\<rparr>) })
      else do {
        b1 \<leftarrow> cb_construct (m_last b) item b;
        Some (b1\<lparr>m_last := cb_increment b1 (m_last b1), m_size := m_size b1 + 1\<rparr>) })"

definition cb_push_front :: "'a \<Rightarrow> 'a circular_buffer \<Rightarrow> 'a circular_buffer option" where
  "cb_push_front item b =
     (if cb_full b then
        (if cb_empty b then Some b
         else do {
           let f = cb_decrement b (m_first b);
           b1 \<leftarrow> cb_replace f item (b\<lparr>m_first := f\<rparr>);
           Some (b1\<lparr>m_last := m_first b1\<rparr>) })
      else do {
        let f = cb_decrement b (m_first b);
        b1 \<leftarrow> cb_construct f item (b\<lparr>m_first := f\<rparr>);
        Some (b1\<lparr>m_size := m_size b1 + 1\<rparr>) })"

definition cb_pop_back :: "'a circular_buffer \<Rightarrow> 'a circular_buffer option" where
  "cb_pop_back b =
     (if cb_empty b then None
      else do {
        let l = cb_decrement b (m_last b);
        b1 \<leftarrow> destroy_item l (b\<lparr>m_last := l\<rparr>);
        Some (b1\<lparr>m_size := m_size b1 - 1\<rparr>) })"

definition cb_pop_front :: "'a circular_buffer \<Rightarrow> 'a circular_buffer option" where
  "cb_pop_front b =
     (if cb_empty b then None
      else do {
        b1 \<leftarrow> destroy_item (m_first b) b;
        Some (b1\<lparr>m_first := cb_increment b1 (m_first b1), m_size := m_size b1 - 1\<rparr>) })"

subsection \<open>Insertion\<close>

partial_function (option) insert_item_loop ::
  "nat \<Rightarrow> nat \<Rightarrow> nat \<Rightarrow> bool \<Rightarrow> 'a circular_buffer \<Rightarrow> 'a circular_buffer option" where
  "insert_item_loop p src dest construct b =
     (if src \<noteq> p then do {
        x \<leftarrow> cb_read (cb_decrement b src) b;
        b1 \<leftarrow> construct_or_replace construct dest x b;
        insert_item_loop p (cb_decrement b src) (cb_decrement b dest) False b1 }
      else Some b)"

definition insert_item :: "nat option \<Rightarrow> 'a \<Rightarrow> 'a circular_buffer \<Rightarrow> (nat option \<times> 'a circular_buffer) option" where
  "insert_item pos item b = do {
     (p, b1) \<leftarrow> (case pos of
        None \<Rightarrow> do { b1 \<leftarrow> construct_or_replace (\<not> cb_full b) (m_last b) item b; Some (m_last b, b1) }
      | Some p \<Rightarrow> do {
          b1 \<leftarrow> insert_item_loop p (m_last b) (m_last b) (\<not> cb_full b) b;
          b2 \<leftarrow> cb_replace p item b1;
          Some (p, b2) });
     let l = cb_increment b1 (m_last b1);
     Some (Some p, if cb_full b1 then b1\<lparr>m_last := l, m_first := l\<rparr>
                   else b1\<lparr>m_last := l, m_size := m_size b1 + 1\<rparr>) }"

definition cb_insert :: "nat option \<Rightarrow> 'a \<Rightarrow> 'a circular_buffer \<Rightarrow> (nat option \<times> 'a circular_buffer) option" where
  "cb_insert pos item b =
     (if cb_full b \<and> pos = cb_begin b then Some (cb_begin b, b) else insert_item pos item b)"

text \<open>The items an \<^verbatim>\<open>item_wrapper\<close> or \<^verbatim>\<open>iterator_wrapper\<close> hands out are a list.\<close>

fun append_items_loop :: "'a list \<Rightarrow> nat \<Rightarrow> nat \<Rightarrow> nat \<Rightarrow> 'a circular_buffer \<Rightarrow> 'a circular_buffer option" where
  "append_items_loop [] ii construct p b = Some b"
| "append_items_loop (x # xs) ii construct p b = do {
     b1 \<leftarrow> (if ii < construct then cb_construct p x b else cb_replace p x b);
     append_items_loop xs (ii + 1) construct (cb_increment b p) b1 }"

partial_function (option) insert_n_loop ::
  "nat \<Rightarrow> nat \<Rightarrow> nat \<Rightarrow> 'a circular_buffer \<Rightarrow> 'a circular_buffer option" where
  "insert_n_loop pos src dest b =
     (if src \<noteq> pos then do {
        x \<leftarrow> cb_read (cb_decrement b src) b;
        b1 \<leftarrow> construct_or_replace (is_uninitialized b dest) dest x b;
        insert_n_loop pos (cb_decrement b src) (cb_decrement b dest) b1 }
      else Some b)"

fun place_items_loop :: "'a list \<Rightarrow> nat \<Rightarrow> 'a circular_buffer \<Rightarrow> 'a circular_buffer option" where
  "place_items_loop [] p b = Some b"
| "place_items_loop (x # xs) p b = do {
     b1 \<leftarrow> construct_or_replace (is_uninitialized b p) p x b;
     place_items_loop xs (cb_increment b p) b1 }"

definition insert_n :: "nat option \<Rightarrow> 'a list \<Rightarrow> 'a circular_buffer \<Rightarrow> 'a circular_buffer option" where
  "insert_n pos items b = do {
     let n = length items;
     let construct = min (cb_reserve b) n;
     b1 \<leftarrow> (case pos of
        None \<Rightarrow> append_items_loop items 0 construct (m_last b) b
      | Some p \<Rightarrow> do {
          b1 \<leftarrow> insert_n_loop p (m_last b) (cb_add b (m_last b) (n - 1)) b;
          place_items_loop items p b1 });
     Some (b1\<lparr>m_last := cb_add b1 (m_last b1) n, m_first := cb_add b1 (m_first b1) (n - construct),
              m_size := m_size b1 + construct\<rparr>) }"

definition insert_range :: "nat option \<Rightarrow> 'a list \<Rightarrow> 'a circular_buffer \<Rightarrow> 'a circular_buffer option" where
  "insert_range pos items b =
     (let n = length items in
      if n = 0 then Some b
      else (let copy = nat (int (cb_capacity b) - it_diff b (cb_end b) pos) in
            if copy = 0 then Some b
            else if n > copy then insert_n pos (drop (n - copy) items) b
            else insert_n pos items b))"

definition insert_count :: "nat option \<Rightarrow> nat \<Rightarrow> 'a \<Rightarrow> 'a circular_buffer \<Rightarrow> 'a circular_buffer option" where
  "insert_count pos n item b =
     (if n = 0 then Some b
      else (let copy = nat (int (cb_capacity b) - it_diff b (cb_end b) pos) in
            if copy = 0 then Some b
            else insert_n pos (replicate (if n > copy then copy else n) item) b))"

partial_function (option) rinsert_loop ::
  "nat \<Rightarrow> nat \<Rightarrow> nat \<Rightarrow> bool \<Rightarrow> 'a circular_buffer \<Rightarrow> 'a circular_buffer option" where
  "rinsert_loop pos src dest construct b =
     (if src \<noteq> pos then do {
        x \<leftarrow> cb_read src b;
        b1 \<leftarrow> construct_or_replace construct dest x b;
        rinsert_loop pos (cb_increment b src) (cb_increment b dest) False b1 }
      else Some b)"

definition cb_rinsert :: "nat option \<Rightarrow> 'a \<Rightarrow> 'a circular_buffer \<Rightarrow> (nat option \<times> 'a circular_buffer) option" where
  "cb_rinsert pos item b =
     (if cb_full b \<and> pos = None then Some (cb_end b, b)
      else do {
        (p, b1) \<leftarrow>
          (if pos = cb_begin b then do {
             let f = cb_decrement b (m_first b);
             b1 \<leftarrow> construct_or_replace (\<not> cb_full b) f item (b\<lparr>m_first := f\<rparr>);
             Some (f, b1) }
           else do {
             let p = map_pointer b pos;
             b1 \<leftarrow> rinsert_loop p (m_first b) (cb_decrement b (m_first b)) (\<not> cb_full b) b;
             let q = cb_decrement b p;
             b2 \<leftarrow> cb_replace q item b1;
             Some (q, b2\<lparr>m_first := cb_decrement b2 (m_first b2)\<rparr>) });
        Some (Some p, if cb_full b1 then b1\<lparr>m_last := m_first b1\<rparr> else b1\<lparr>m_size := m_size b1 + 1\<rparr>) })"

fun prepend_items_loop :: "'a list \<Rightarrow> nat \<Rightarrow> nat \<Rightarrow> 'a circular_buffer \<Rightarrow> 'a circular_buffer option" where
  "prepend_items_loop [] construct p b = Some b"
| "prepend_items_loop (x # xs) construct p b = do {
     b1 \<leftarrow> (if length (x # xs) > construct then cb_replace p x b else cb_construct p x b);
     prepend_items_loop xs construct (cb_increment b p) b1 }"

partial_function (option) rinsert_n_loop ::
  "nat \<Rightarrow> nat \<Rightarrow> nat \<Rightarrow> 'a circular_buffer \<Rightarrow> (nat \<times> 'a circular_buffer) option" where
  "rinsert_n_loop p src dest b =
     (if src \<noteq> p then do {
        x \<leftarrow> cb_read src b;
        b1 \<leftarrow> construct_or_replace (is_uninitialized b dest) dest x b;
        rinsert_n_loop p (cb_increment b src) (cb_increment b dest) b1 }
      else Some (dest, b))"

definition rinsert_n :: "nat option \<Rightarrow> 'a list \<Rightarrow> 'a circular_buffer \<Rightarrow> 'a circular_buffer option" where
  "rinsert_n pos items0 b =
     (if length items0 = 0 then Some b
      else (let copy = nat (int (cb_capacity b) - it_diff b pos (cb_begin b)) in
        if copy = 0 then Some b
        else do {
          let items = (if length items0 > copy then take copy items0 else items0);
          let n = length items;
          let construct = min (cb_reserve b) n;
          b1 \<leftarrow> (if pos = cb_begin b then prepend_items_loop items construct (cb_sub b (m_first b) n) b
                else do {
                  (d, b1) \<leftarrow> rinsert_n_loop (map_pointer b pos) (m_first b) (cb_sub b (m_first b) n) b;
                  place_items_loop items d b1 });
          Some (b1\<lparr>m_first := cb_sub b1 (m_first b1) n, m_last := cb_sub b1 (m_last b1) (n - construct),
                   m_size := m_size b1 + construct\<rparr>) }))"

subsection \<open>Removal\<close>

partial_function (option) erase_loop ::
  "nat \<Rightarrow> nat \<Rightarrow> nat \<Rightarrow> 'a circular_buffer \<Rightarrow> 'a circular_buffer option" where
  "erase_loop l p nxt b =
     (if nxt \<noteq> l then do {
        x \<leftarrow> cb_read nxt b;
        b1 \<leftarrow> cb_replace p x b;
        erase_loop l nxt (cb_increment b nxt) b1 }
      else Some b)"

definition cb_erase :: "nat option \<Rightarrow> 'a circular_buffer \<Rightarrow> (nat option \<times> 'a circular_buffer) option" where
  "cb_erase pos b =
     (case pos of None \<Rightarrow> None
      | Some p \<Rightarrow> do {
          b1 \<leftarrow> erase_loop (m_last b) p (cb_increment b p) b;
          let l = cb_decrement b1 (m_last b1);
          b2 \<leftarrow> destroy_item l (b1\<lparr>m_last := l\<rparr>);
          Some (if l = p then cb_end b2 else pos, b2\<lparr>m_size := m_size b2 - 1\<rparr>) })"

partial_function (option) erase_move_loop ::
  "nat option \<Rightarrow> nat option \<Rightarrow> 'a circular_buffer \<Rightarrow> (nat option \<times> 'a circular_buffer) option" where
  "erase_move_loop first lastp b =
     (case lastp of None \<Rightarrow> Some (first, b)
      | Some q \<Rightarrow> do {
          p \<leftarrow> first;
          x \<leftarrow> cb_read q b;
          b1 \<leftarrow> cb_replace p x b;
          first1 \<leftarrow> it_next b first;
          last1 \<leftarrow> it_next b lastp;
          erase_move_loop first1 last1 b1 })"

partial_function (option) erase_tail_loop :: "nat option \<Rightarrow> 'a circular_buffer \<Rightarrow> 'a circular_buffer option" where
  "erase_tail_loop first b = do {
     let l = cb_decrement b (m_last b);
     b1 \<leftarrow> destroy_item l (b\<lparr>m_last := l\<rparr>);
     let b2 = b1\<lparr>m_size := m_size b1 - 1\<rparr>;
     if Some l \<noteq> first then erase_tail_loop first b2 else Some b2 }"

definition cb_erase_range ::
  "nat option \<Rightarrow> nat option \<Rightarrow> 'a circular_buffer \<Rightarrow> (nat option \<times> 'a circular_buffer) option" where
  "cb_erase_range first lastp b =
     (if it_less b lastp first then None
      else if first = lastp then Some (first, b)
      else do {
        (first1, b1) \<leftarrow> erase_move_loop first lastp b;
        b2 \<leftarrow> erase_tail_loop first1 b1;
        Some (if Some (m_last b2) = first then cb_end b2 else first, b2) })"

partial_function (option) rerase_loop ::
  "nat \<Rightarrow> nat \<Rightarrow> 'a circular_buffer \<Rightarrow> (nat \<times> 'a circular_buffer) option" where
  "rerase_loop p prev b =
     (if p \<noteq> m_first b then do {
        x \<leftarrow> cb_read prev b;
        b1 \<leftarrow> cb_replace p x b;
        rerase_loop prev (cb_decrement b prev) b1 }
      else Some (p, b))"

definition cb_rerase :: "nat option \<Rightarrow> 'a circular_buffer \<Rightarrow> (nat option \<times> 'a circular_buffer) option" where
  "cb_rerase pos b =
     (case pos of None \<Rightarrow> None
      | Some q \<Rightarrow> do {
          (p, b1) \<leftarrow> rerase_loop q (cb_decrement b q) b;
          b2 \<leftarrow> destroy_item (m_first b1) b1;
          let b3 = b2\<lparr>m_first := cb_increment b2 (m_first b2), m_size := m_size b2 - 1\<rparr>;
          Some (if p = q then cb_begin b3 else pos, b3) })"

partial_function (option) rerase_move_loop ::
  "nat \<Rightarrow> nat \<Rightarrow> 'a circular_buffer \<Rightarrow> (nat \<times> 'a circular_buffer) option" where
  "rerase_move_loop first p b =
     (if first \<noteq> m_first b then do {
        let first1 = cb_decrement b first;
        let p1 = cb_decrement b p;
        x \<leftarrow> cb_read first1 b;
        b1 \<leftarrow> cb_replace p1 x b;
        rerase_move_loop first1 p1 b1 }
      else Some (p, b))"

partial_function (option) rerase_head_loop :: "nat \<Rightarrow> 'a circular_buffer \<Rightarrow> 'a circular_buffer option" where
  "rerase_head_loop p b = do {
     b1 \<leftarrow> destroy_item (m_first b) b;
     let b2 = b1\<lparr>m_first := cb_increment b1 (m_first b1), m_size := m_size b1 - 1\<rparr>;
     if m_first b2 \<noteq> p then rerase_head_loop p b2 else Some b2 }"

definition cb_rerase_range ::
  "nat option \<Rightarrow> nat option \<Rightarrow> 'a circular_buffer \<Rightarrow> (nat option \<times> 'a circular_buffer) option" where
  "cb_rerase_range first lastp b =
     (if it_less b lastp first then None
      else if first = lastp then Some (first, b)
      else do {
        f \<leftarrow> first;
        let l = map_pointer b lastp;
        (p, b1) \<leftarrow> rerase_move_loop f l b;
        b2 \<leftarrow> rerase_head_loop p b1;
        Some (if m_first b2 = l then cb_begin b2 else Some (cb_decrement b2 l), b2) })"

definition erase_begin :: "nat \<Rightarrow> 'a circular_buffer \<Rightarrow> 'a circular_buffer option" where
  "erase_begin n b =
     (if n > cb_size b then None
      else if cb_scalar b then Some (b\<lparr>m_first := cb_add b (m_first b) n, m_size := m_size b - n\<rparr>)
      else do {
        let it = cb_begin b;
        jt \<leftarrow> it_add b it n;
        (_, b1) \<leftarrow> cb_rerase_range it jt b;
        Some b1 })"

definition erase_end :: "nat \<Rightarrow> 'a circular_buffer \<Rightarrow> 'a circular_buffer option" where
  "erase_end n b =
     (if n > cb_size b then None
      else if cb_scalar b then Some (b\<lparr>m_last := cb_sub b (m_last b) n, m_size := m_size b - n\<rparr>)
      else do {
        let e = cb_end b;
        it \<leftarrow> it_sub b e n;
        (_, b1) \<leftarrow> cb_erase_range it e b;
        Some b1 })"

fun destroy_content_loop :: "nat \<Rightarrow> 'a circular_buffer \<Rightarrow> 'a circular_buffer option" where
  "destroy_content_loop 0 b = Some b"
| "destroy_content_loop (Suc k) b = do {
     b1 \<leftarrow> destroy_item (m_first b) b;
     destroy_content_loop k (b1\<lparr>m_first := cb_increment b1 (m_first b1)\<rparr>) }"

definition destroy_content :: "'a circular_buffer \<Rightarrow> 'a circular_buffer option" where
  "destroy_content b =
     (if cb_scalar b then Some (b\<lparr>m_first := cb_add b (m_first b) (cb_size b)\<rparr>)
      else destroy_content_loop (cb_size b) b)"

definition cb_clear :: "'a circular_buffer \<Rightarrow> 'a circular_buffer option" where
  "cb_clear b = map_option (\<lambda>b1. b1\<lparr>m_size := 0\<rparr>) (destroy_content b)"

subsection \<open>Capacity, construction and assignment\<close>

text \<open>Writing a range or \<open>n\<close> copies of an item to raw memory; \<open>sc\<close> is \<^verbatim>\<open>is_scalar<value_type>\<close>.\<close>

definition raw_construct :: "bool \<Rightarrow> nat \<Rightarrow> 'a \<Rightarrow> 'a option list \<Rightarrow> 'a option list option" where
  "raw_construct sc p x mem =
     (if p < length mem \<and> (sc \<or> mem ! p = None) then Some (mem[p := Some x]) else None)"

fun uninitialized_copy :: "bool \<Rightarrow> 'a list \<Rightarrow> nat \<Rightarrow> 'a option list \<Rightarrow> (nat \<times> 'a option list) option" where
  "uninitialized_copy sc [] dest mem = Some (dest, mem)"
| "uninitialized_copy sc (x # xs) dest mem = do {
     mem1 \<leftarrow> raw_construct sc dest x mem;
     uninitialized_copy sc xs (dest + 1) mem1 }"

fun uninitialized_fill_n :: "bool \<Rightarrow> nat \<Rightarrow> 'a \<Rightarrow> nat \<Rightarrow> 'a option list \<Rightarrow> 'a option list option" where
  "uninitialized_fill_n sc 0 item first mem = Some mem"
| "uninitialized_fill_n sc (Suc n) item first mem = do {
     mem1 \<leftarrow> raw_construct sc first item mem;
     uninitialized_fill_n sc n item (first + 1) mem1 }"

text \<open>\<^verbatim>\<open>uninitialized_move_if_noexcept\<close> over a range of the buffer's own iterators.\<close>

partial_function (option) uninitialized_move ::
  "'a circular_buffer \<Rightarrow> nat option \<Rightarrow> nat option \<Rightarrow> nat \<Rightarrow> 'a option list \<Rightarrow> (nat \<times> 'a option list) option" where
  "uninitialized_move b it jt dest mem =
     (if it \<noteq> jt then do {
        p \<leftarrow> it;
        x \<leftarrow> cb_read p b;
        mem1 \<leftarrow> raw_construct (cb_scalar b) dest x mem;
        it1 \<leftarrow> it_next b it;
        uninitialized_move b it1 jt (dest + 1) mem1 }
      else Some (dest, mem))"

text \<open>\<open>mx\<close> is \<^verbatim>\<open>max_size()\<close>, which depends on the allocator.\<close>

definition cb_allocate :: "nat \<Rightarrow> nat \<Rightarrow> cb_error + 'a option list" where
  "cb_allocate mx n = (if n > mx then Inl LengthError else Inr (replicate n None))"

definition defined :: "'s option \<Rightarrow> cb_error + 's" where
  "defined r = (case r of None \<Rightarrow> Inl UndefinedBehaviour | Some s \<Rightarrow> Inr s)"

definition cb_reset :: "'a option list \<Rightarrow> nat \<Rightarrow> 'a circular_buffer \<Rightarrow> 'a circular_buffer option" where
  "cb_reset buff lastp b = do {
     b1 \<leftarrow> destroy_content b;
     Some (b1\<lparr>m_size := lastp, m_first := 0, cb_mem := buff,
              m_last := (if lastp = length buff then 0 else lastp)\<rparr>) }"

definition set_capacity :: "nat \<Rightarrow> nat \<Rightarrow> 'a circular_buffer \<Rightarrow> cb_error + 'a circular_buffer" where
  "set_capacity mx new_capacity b =
     (if new_capacity = cb_capacity b then Inr b
      else (case cb_allocate mx new_capacity of Inl e \<Rightarrow> Inl e
        | Inr buff \<Rightarrow> defined (do {
            let it = cb_begin b;
            jt \<leftarrow> it_add b it (min new_capacity (cb_size b));
            (l, buff1) \<leftarrow> uninitialized_move b it jt 0 buff;
            cb_reset buff1 l b })))"

definition rset_capacity :: "nat \<Rightarrow> nat \<Rightarrow> 'a circular_buffer \<Rightarrow> cb_error + 'a circular_buffer" where
  "rset_capacity mx new_capacity b =
     (if new_capacity = cb_capacity b then Inr b
      else (case cb_allocate mx new_capacity of Inl e \<Rightarrow> Inl e
        | Inr buff \<Rightarrow> defined (do {
            let e = cb_end b;
            it \<leftarrow> it_sub b e (min new_capacity (cb_size b));
            (l, buff1) \<leftarrow> uninitialized_move b it e 0 buff;
            cb_reset buff1 l b })))"

definition cb_resize :: "nat \<Rightarrow> nat \<Rightarrow> 'a \<Rightarrow> 'a circular_buffer \<Rightarrow> cb_error + 'a circular_buffer" where
  "cb_resize mx new_size item b =
     (if new_size > cb_size b then
        (case (if new_size > cb_capacity b then set_capacity mx new_size b else Inr b) of Inl e \<Rightarrow> Inl e
         | Inr b1 \<Rightarrow> defined (insert_count (cb_end b1) (new_size - cb_size b1) item b1))
      else defined (do {
        let e = cb_end b;
        it \<leftarrow> it_sub b e (cb_size b - new_size);
        (_, b1) \<leftarrow> cb_erase_range it e b;
        Some b1 }))"

definition cb_rresize :: "nat \<Rightarrow> nat \<Rightarrow> 'a \<Rightarrow> 'a circular_buffer \<Rightarrow> cb_error + 'a circular_buffer" where
  "cb_rresize mx new_size item b =
     (if new_size > cb_size b then
        (case (if new_size > cb_capacity b then set_capacity mx new_size b else Inr b) of Inl e \<Rightarrow> Inl e
         | Inr b1 \<Rightarrow> defined (rinsert_n (cb_begin b1) (replicate (new_size - cb_size b1) item) b1))
      else defined (do {
        jt \<leftarrow> it_sub b (cb_end b) new_size;
        (_, b1) \<leftarrow> cb_rerase_range (cb_begin b) jt b;
        Some b1 }))"

definition cb_default :: "bool \<Rightarrow> 'a circular_buffer" where
  "cb_default sc = \<lparr>cb_scalar = sc, cb_mem = [], m_first = 0, m_last = 0, m_size = 0\<rparr>"

definition cb_of_capacity :: "bool \<Rightarrow> nat \<Rightarrow> nat \<Rightarrow> cb_error + 'a circular_buffer" where
  "cb_of_capacity sc mx buffer_capacity =
     (case cb_allocate mx buffer_capacity of Inl e \<Rightarrow> Inl e
      | Inr buff \<Rightarrow> Inr \<lparr>cb_scalar = sc, cb_mem = buff, m_first = 0, m_last = 0, m_size = 0\<rparr>)"

definition cb_filled :: "bool \<Rightarrow> nat \<Rightarrow> nat \<Rightarrow> nat \<Rightarrow> 'a \<Rightarrow> cb_error + 'a circular_buffer" where
  "cb_filled sc mx buffer_capacity n item =
     (if buffer_capacity \<ge> n then
        (case cb_allocate mx buffer_capacity of Inl e \<Rightarrow> Inl e
         | Inr buff \<Rightarrow> defined (do {
             buff1 \<leftarrow> uninitialized_fill_n sc n item 0 buff;
             Some \<lparr>cb_scalar = sc, cb_mem = buff1, m_first = 0,
                   m_last = (if buffer_capacity = n then 0 else n), m_size = n\<rparr> }))
      else Inl UndefinedBehaviour)"

definition cb_of_range :: "bool \<Rightarrow> nat \<Rightarrow> nat \<Rightarrow> 'a list \<Rightarrow> cb_error + 'a circular_buffer" where
  "cb_of_range sc mx buffer_capacity items =
     (case cb_allocate mx buffer_capacity of Inl e \<Rightarrow> Inl e
      | Inr buff \<Rightarrow> defined (do {
          let distance = length items;
          let items1 = (if distance > buffer_capacity then drop (distance - buffer_capacity) items else items);
          let n = (if distance > buffer_capacity then buffer_capacity else distance);
          (l, buff1) \<leftarrow> uninitialized_copy sc items1 0 buff;
          Some \<lparr>cb_scalar = sc, cb_mem = buff1, m_first = 0,
                m_last = (if l = buffer_capacity then 0 else l), m_size = n\<rparr> }))"

definition cb_copy :: "nat \<Rightarrow> 'a circular_buffer \<Rightarrow> cb_error + 'a circular_buffer" where
  "cb_copy mx cb =
     (case cb_allocate mx (cb_capacity cb) of Inl e \<Rightarrow> Inl e
      | Inr buff \<Rightarrow> defined (do {
          (l, buff1) \<leftarrow> uninitialized_move cb (cb_begin cb) (cb_end cb) 0 buff;
          Some \<lparr>cb_scalar = cb_scalar cb, cb_mem = buff1, m_first = 0,
                m_last = (if l = cb_capacity cb then 0 else l), m_size = cb_size cb\<rparr> }))"

text \<open>Copy assignment of a distinct buffer.\<close>

definition cb_assign_copy :: "nat \<Rightarrow> 'a circular_buffer \<Rightarrow> 'a circular_buffer \<Rightarrow> cb_error + 'a circular_buffer" where
  "cb_assign_copy mx cb b =
     (case cb_allocate mx (cb_capacity cb) of Inl e \<Rightarrow> Inl e
      | Inr buff \<Rightarrow> defined (do {
          (l, buff1) \<leftarrow> uninitialized_move cb (cb_begin cb) (cb_end cb) 0 buff;
          cb_reset buff1 l b }))"

text \<open>\<open>fnc\<close> is the functor that fills the memory from its start.\<close>

definition cb_assign_n ::
  "nat \<Rightarrow> nat \<Rightarrow> nat \<Rightarrow> ('a option list \<Rightarrow> 'a option list option) \<Rightarrow> 'a circular_buffer \<Rightarrow> cb_error + 'a circular_buffer" where
  "cb_assign_n mx new_capacity n fnc b =
     (let finish = (\<lambda>b1. b1\<lparr>m_size := n, m_first := 0, m_last := cb_add b1 0 n\<rparr>) in
      if new_capacity = cb_capacity b then
        defined (do {
          b1 \<leftarrow> destroy_content b;
          mem \<leftarrow> fnc (cb_mem b1);
          Some (finish (b1\<lparr>cb_mem := mem\<rparr>)) })
      else (case cb_allocate mx new_capacity of Inl e \<Rightarrow> Inl e
        | Inr buff \<Rightarrow> defined (do {
            mem \<leftarrow> fnc buff;
            b1 \<leftarrow> destroy_content b;
            Some (finish (b1\<lparr>cb_mem := mem\<rparr>)) })))"

definition cb_assign_count :: "nat \<Rightarrow> nat \<Rightarrow> nat \<Rightarrow> 'a \<Rightarrow> 'a circular_buffer \<Rightarrow> cb_error + 'a circular_buffer" where
  "cb_assign_count mx buffer_capacity n item b =
     (if buffer_capacity \<ge> n
      then cb_assign_n mx buffer_capacity n (uninitialized_fill_n (cb_scalar b) n item 0) b
      else Inl UndefinedBehaviour)"

definition cb_assign_range :: "nat \<Rightarrow> nat \<Rightarrow> 'a list \<Rightarrow> 'a circular_buffer \<Rightarrow> cb_error + 'a circular_buffer" where
  "cb_assign_range mx new_capacity items b =
     (let distance = length items;
          items1 = (if distance > new_capacity then drop (distance - new_capacity) items else items);
          n = (if distance > new_capacity then new_capacity else distance)
      in cb_assign_n mx new_capacity n (\<lambda>mem. map_option snd (uninitialized_copy (cb_scalar b) items1 0 mem)) b)"

subsection \<open>Rotation and comparison\<close>

fun rotate_back_loop :: "nat \<Rightarrow> 'a circular_buffer \<Rightarrow> 'a circular_buffer option" where
  "rotate_back_loop 0 b = Some b"
| "rotate_back_loop (Suc m) b = do {
     x \<leftarrow> cb_back b;
     b1 \<leftarrow> cb_push_front x b;
     b2 \<leftarrow> cb_pop_back b1;
     rotate_back_loop m b2 }"

fun rotate_front_loop :: "nat \<Rightarrow> 'a circular_buffer \<Rightarrow> 'a circular_buffer option" where
  "rotate_front_loop 0 b = Some b"
| "rotate_front_loop (Suc n) b = do {
     x \<leftarrow> cb_front b;
     b1 \<leftarrow> cb_push_back x b;
     b2 \<leftarrow> cb_pop_front b1;
     rotate_front_loop n b2 }"

definition cb_rotate :: "nat option \<Rightarrow> 'a circular_buffer \<Rightarrow> 'a circular_buffer option" where
  "cb_rotate new_begin b =
     (case new_begin of None \<Rightarrow> None
      | Some p \<Rightarrow>
          (if cb_full b then Some (b\<lparr>m_first := p, m_last := p\<rparr>)
           else (let m = it_diff b (cb_end b) new_begin; n = it_diff b new_begin (cb_begin b) in
                 if m < n then rotate_back_loop (nat m) b else rotate_front_loop (nat n) b)))"

partial_function (option) cb_contents_from :: "nat option \<Rightarrow> 'a circular_buffer \<Rightarrow> 'a list option" where
  "cb_contents_from it b =
     (case it of None \<Rightarrow> Some []
      | Some p \<Rightarrow> do {
          x \<leftarrow> cb_read p b;
          it1 \<leftarrow> it_next b it;
          xs \<leftarrow> cb_contents_from it1 b;
          Some (x # xs) })"

text \<open>\<^verbatim>\<open>std::equal\<close> and \<^verbatim>\<open>std::lexicographical_compare\<close> over the ranges from \<^verbatim>\<open>begin()\<close> to \<^verbatim>\<open>end()\<close>.\<close>

definition cb_eq :: "'a circular_buffer \<Rightarrow> 'a circular_buffer \<Rightarrow> bool option" where
  "cb_eq lhs rhs =
     (if cb_size lhs = cb_size rhs then do {
        xs \<leftarrow> cb_contents_from (cb_begin lhs) lhs;
        ys \<leftarrow> cb_contents_from (cb_begin rhs) rhs;
        Some (xs = ys) }
      else Some False)"

fun lexicographical_compare :: "'a::linorder list \<Rightarrow> 'a list \<Rightarrow> bool" where
  "lexicographical_compare xs [] = False"
| "lexicographical_compare [] (y # ys) = True"
| "lexicographical_compare (x # xs) (y # ys) =
     (if x < y then True else if y < x then False else lexicographical_compare xs ys)"

definition cb_less :: "'a::linorder circular_buffer \<Rightarrow> 'a circular_buffer \<Rightarrow> bool option" where
  "cb_less lhs rhs = do {
     xs \<leftarrow> cb_contents_from (cb_begin lhs) lhs;
     ys \<leftarrow> cb_contents_from (cb_begin rhs) rhs;
     Some (lexicographical_compare xs ys) }"

lemmas cb_loop_unfold [code] = insert_item_loop.simps insert_n_loop.simps rinsert_loop.simps
  rinsert_n_loop.simps erase_loop.simps erase_move_loop.simps erase_tail_loop.simps rerase_loop.simps
  rerase_move_loop.simps rerase_head_loop.simps uninitialized_move.simps cb_contents_from.simps

end
