(* ===== verification/Circular_Ring.thy ===== *)
theory Circular_Ring
  imports Circular_Buffer
begin

text \<open>
  The ring as a list: the memory read from \<^verbatim>\<open>m_first\<close> on, \<open>rotate (m_first b) (cb_mem b)\<close>, is the
  elements followed by the free slots. This holds the invariant, the rules that turn pointer
  arithmetic and slot updates into list operations on such a reading, and the operations at the ends.
\<close>

definition cb_list :: "'a circular_buffer \<Rightarrow> 'a list" where
  "cb_list b = map the (take (m_size b) (rotate (m_first b) (cb_mem b)))"

definition cb_valid :: "'a circular_buffer \<Rightarrow> bool" where
  "cb_valid b \<longleftrightarrow>
     m_size b \<le> cb_capacity b
     \<and> (if cb_capacity b = 0 then m_first b = 0 else m_first b < cb_capacity b)
     \<and> m_last b = (m_first b + m_size b) mod cb_capacity b
     \<and> (\<forall>x\<in>set (take (m_size b) (rotate (m_first b) (cb_mem b))). x \<noteq> None)
     \<and> (\<not> cb_scalar b \<longrightarrow> (\<forall>x\<in>set (drop (m_size b) (rotate (m_first b) (cb_mem b))). x = None))"

definition ring :: "'a circular_buffer \<Rightarrow> 'a list \<Rightarrow> 'a option list \<Rightarrow> bool" where
  "ring b xs rest \<longleftrightarrow>
     rotate (m_first b) (cb_mem b) = map Some xs @ rest \<and> m_size b = length xs
     \<and> m_last b = (m_first b + length xs) mod cb_capacity b
     \<and> (if cb_capacity b = 0 then m_first b = 0 else m_first b < cb_capacity b)
     \<and> (\<not> cb_scalar b \<longrightarrow> set rest \<subseteq> {None})"

lemma ring_valid: "ring b xs rest \<Longrightarrow> cb_valid b \<and> cb_list b = xs"
proof -
  assume r: "ring b xs rest"
  then have "length (cb_mem b) = length xs + length rest"
    unfolding ring_def by (metis length_append length_map length_rotate)
  with r show ?thesis by (auto simp: ring_def cb_valid_def cb_list_def cb_capacity_def o_def)
qed

lemma valid_ring:
  assumes "cb_valid b"
  obtains rest where "ring b (cb_list b) rest"
proof -
  let ?R = "rotate (m_first b) (cb_mem b)"
  have "map Some (cb_list b) = take (m_size b) ?R"
    using assms by (auto simp: cb_list_def cb_valid_def intro!: map_idI)
  moreover have "length (cb_list b) = m_size b"
    using assms by (simp add: cb_list_def cb_valid_def cb_capacity_def)
  ultimately have "ring b (cb_list b) (drop (m_size b) ?R)"
    using assms by (auto simp: ring_def cb_valid_def)
  then show ?thesis by (rule that)
qed

lemma ring_capacity: "ring b xs rest \<Longrightarrow> cb_capacity b = length xs + length rest"
  unfolding ring_def cb_capacity_def by (metis length_append length_map length_rotate)

lemma ring_tests:
  assumes "ring b xs rest"
  shows "cb_full b \<longleftrightarrow> rest = []" "cb_empty b \<longleftrightarrow> xs = []" "cb_size b = length xs" "cb_reserve b = length rest"
  using assms ring_capacity [OF assms]
  by (auto simp: ring_def cb_full_def cb_empty_def cb_size_def cb_reserve_def)

subsection \<open>Readings of the memory\<close>

lemma add_mod_inject:
  fixes p j k n :: nat
  assumes "j < n" "k < n"
  shows "(p + j) mod n = (p + k) mod n \<longleftrightarrow> j = k"
proof -
  have "j = k" if "(p + j) mod n = (p + k) mod n" "j \<le> k" "k < n" for j k :: nat
  proof -
    have "n dvd (p + k) - (p + j)" using that by (simp only: mod_eq_dvd_iff_nat [symmetric] add_le_cancel_left)
    then show ?thesis using that by (auto dest: dvd_imp_le)
  qed
  then show ?thesis using assms by (metis nat_le_linear)
qed

lemma rotate_at:
  assumes "rotate p m = us @ c # vs"
  shows "(p + length us) mod length m < length m" "m ! ((p + length us) mod length m) = c"
proof -
  have l: "length us < length m" using arg_cong [OF assms, of length] by simp
  then show "(p + length us) mod length m < length m" by (cases m) auto
  show "m ! ((p + length us) mod length m) = c"
    using nth_rotate [OF l, of p] assms by simp
qed

lemma rotate_update:
  assumes "rotate p m = us @ c # vs"
  shows "rotate p (m[(p + length us) mod length m := d]) = us @ d # vs"
proof (rule nth_equalityI)
  have l: "length m = length us + Suc (length vs)" using arg_cong [OF assms, of length] by simp
  then show "length (rotate p (m[(p + length us) mod length m := d])) = length (us @ d # vs)" by simp
  fix j assume "j < length (rotate p (m[(p + length us) mod length m := d]))"
  then have j: "j < length m" by simp
  have inj: "(p + j) mod length m = (p + length us) mod length m \<longleftrightarrow> j = length us"
    using j l by (intro add_mod_inject) simp_all
  have "rotate p (m[(p + length us) mod length m := d]) ! j = (m[(p + length us) mod length m := d]) ! ((p + j) mod length m)"
    using j by (simp add: nth_rotate)
  also have "\<dots> = (if j = length us then d else rotate p m ! j)"
    using j inj rotate_at(1) [OF assms] by (simp add: nth_list_update nth_rotate) metis
  also have "\<dots> = (us @ d # vs) ! j"
    using assms by (auto simp: nth_append nth_Cons split: nat.splits)
  finally show "rotate p (m[(p + length us) mod length m := d]) ! j = (us @ d # vs) ! j" .
qed

lemma rotate_shift:
  assumes "rotate p m = us @ vs"
  shows "rotate ((p + length us) mod length m) m = vs @ us"
  using assms rotate_append [of us vs] by (simp add: rotate_conv_mod [symmetric] rotate_rotate add.commute flip: assms)

subsection \<open>Pointer arithmetic\<close>

lemma increment_off: "0 < cb_capacity b \<Longrightarrow> cb_increment b ((p + j) mod cb_capacity b) = (p + Suc j) mod cb_capacity b"
  by (simp add: cb_increment_def mod_Suc)

lemma decrement_off: "0 < cb_capacity b \<Longrightarrow> cb_decrement b ((p + Suc j) mod cb_capacity b) = (p + j) mod cb_capacity b"
  by (auto simp: cb_decrement_def mod_Suc)

lemma increment_lt: "q < cb_capacity b \<Longrightarrow> cb_increment b q = (q + 1) mod cb_capacity b"
  using increment_off [of b q 0] by simp

lemma decrement_lt: "q < cb_capacity b \<Longrightarrow> cb_decrement b q = (q + (cb_capacity b - 1)) mod cb_capacity b"
  using decrement_off [of b q "cb_capacity b - 1"] by simp

lemma add_off:
  assumes "0 < cb_capacity b" "n \<le> cb_capacity b"
  shows "cb_add b ((p + j) mod cb_capacity b) n = (p + (j + n)) mod cb_capacity b"
proof -
  define q where "q = (p + j) mod cb_capacity b"
  have q: "q < cb_capacity b" using assms by (simp add: q_def)
  have "cb_add b q n = (q + n) mod cb_capacity b"
    using q assms by (cases "q + n < cb_capacity b") (auto simp: cb_add_def mod_if)
  then show ?thesis by (simp add: q_def mod_add_left_eq add.assoc)
qed

lemma sub_off:
  assumes "0 < cb_capacity b" "n \<le> cb_capacity b"
  shows "cb_sub b ((p + (j + n)) mod cb_capacity b) n = (p + j) mod cb_capacity b"
proof -
  define r where "r = (p + j) mod cb_capacity b"
  have r: "r < cb_capacity b" using assms by (simp add: r_def)
  have "(p + (j + n)) mod cb_capacity b = (r + n) mod cb_capacity b"
    by (simp add: r_def mod_add_left_eq add.assoc)
  moreover have "cb_sub b ((r + n) mod cb_capacity b) n = r"
    using r assms by (cases "r + n < cb_capacity b") (auto simp: cb_sub_def mod_if)
  ultimately show ?thesis by (simp add: r_def)
qed

lemmas pointer_off = increment_off decrement_off add_off sub_off

lemma capacity_update [simp]:
  "cb_capacity (b\<lparr>m_first := f\<rparr>) = cb_capacity b" "cb_capacity (b\<lparr>m_last := l\<rparr>) = cb_capacity b"
  "cb_capacity (b\<lparr>m_size := n\<rparr>) = cb_capacity b" "cb_capacity (b\<lparr>cb_mem := m\<rparr>) = length m"
  by (simp_all add: cb_capacity_def)

lemma pointer_update [simp]:
  "cb_increment (b\<lparr>m_first := f\<rparr>) = cb_increment b" "cb_increment (b\<lparr>m_last := f\<rparr>) = cb_increment b"
  "cb_increment (b\<lparr>m_size := f\<rparr>) = cb_increment b"
  "cb_decrement (b\<lparr>m_first := f\<rparr>) = cb_decrement b" "cb_decrement (b\<lparr>m_last := f\<rparr>) = cb_decrement b"
  "cb_decrement (b\<lparr>m_size := f\<rparr>) = cb_decrement b"
  "cb_add (b\<lparr>m_first := f\<rparr>) = cb_add b" "cb_add (b\<lparr>m_last := f\<rparr>) = cb_add b"
  "cb_add (b\<lparr>m_size := f\<rparr>) = cb_add b"
  "cb_sub (b\<lparr>m_first := f\<rparr>) = cb_sub b" "cb_sub (b\<lparr>m_last := f\<rparr>) = cb_sub b"
  "cb_sub (b\<lparr>m_size := f\<rparr>) = cb_sub b"
  "length m = cb_capacity b \<Longrightarrow> cb_increment (b\<lparr>cb_mem := m\<rparr>) = cb_increment b"
  "length m = cb_capacity b \<Longrightarrow> cb_decrement (b\<lparr>cb_mem := m\<rparr>) = cb_decrement b"
  "length m = cb_capacity b \<Longrightarrow> cb_add (b\<lparr>cb_mem := m\<rparr>) = cb_add b"
  "length m = cb_capacity b \<Longrightarrow> cb_sub (b\<lparr>cb_mem := m\<rparr>) = cb_sub b"
  by (simp_all add: fun_eq_iff cb_increment_def cb_decrement_def cb_add_def cb_sub_def)

lemma wrap_full: "Suc (p mod Suc n + n) mod Suc n = p mod Suc n"
  using mod_add_self2 [of "p mod Suc n" "Suc n"] by simp

subsection \<open>Slots in a reading\<close>

lemma read_off: "rotate p (cb_mem b) = us @ c # vs \<Longrightarrow> cb_read ((p + length us) mod cb_capacity b) b = c"
  using rotate_at [of p "cb_mem b" us c vs] by (simp add: cb_read_def cb_capacity_def)

lemma construct_or_replace_simps [simp]:
  "construct_or_replace True = cb_construct" "construct_or_replace False = cb_replace"
  by (simp_all add: fun_eq_iff construct_or_replace_def)

lemma write_off:
  assumes "rotate p (cb_mem b) = us @ c # vs" and "q = (p + length us) mod cb_capacity b"
    and "cb_scalar b \<or> (k \<longleftrightarrow> c = None)"
  shows "\<exists>m. construct_or_replace k q x b = Some (b\<lparr>cb_mem := m\<rparr>) \<and> length m = cb_capacity b
    \<and> rotate p m = us @ Some x # vs"
  using assms rotate_at [OF assms(1)] rotate_update [OF assms(1), of "Some x"]
  by (auto simp: construct_or_replace_def cb_construct_def cb_replace_def cb_capacity_def)

lemma destroy_off:
  assumes "rotate p (cb_mem b) = us @ Some x # vs"
  obtains m d where "destroy_item ((p + length us) mod cb_capacity b) b = Some (b\<lparr>cb_mem := m\<rparr>)"
    and "length m = cb_capacity b" and "rotate p m = us @ d # vs" and "\<not> cb_scalar b \<Longrightarrow> d = None"
proof (cases "cb_scalar b")
  case True
  then have "destroy_item ((p + length us) mod cb_capacity b) b = Some (b\<lparr>cb_mem := cb_mem b\<rparr>)"
    using rotate_at [OF assms] by (simp add: destroy_item_def cb_capacity_def)
  then show ?thesis using True assms by (intro that) (simp_all add: cb_capacity_def)
next
  case False
  then have "destroy_item ((p + length us) mod cb_capacity b) b
      = Some (b\<lparr>cb_mem := (cb_mem b)[(p + length us) mod cb_capacity b := None]\<rparr>)"
    using rotate_at [OF assms] by (simp add: destroy_item_def cb_capacity_def)
  then show ?thesis
    using rotate_update [OF assms, of None] by (intro that) (simp_all add: cb_capacity_def)
qed

text \<open>The result of an operation: defined, the same capacity and element type, and the given list.\<close>

definition becomes :: "'a circular_buffer \<Rightarrow> 'a circular_buffer option \<Rightarrow> 'a list \<Rightarrow> bool" where
  "becomes b r ys \<longleftrightarrow>
     (\<exists>b' rest. r = Some b' \<and> ring b' ys rest \<and> cb_capacity b' = cb_capacity b \<and> cb_scalar b' = cb_scalar b)"

lemma becomesE:
  assumes "becomes b r ys"
  obtains b' rest where "r = Some b'" "ring b' ys rest" "cb_capacity b' = cb_capacity b" "cb_scalar b' = cb_scalar b"
  using assms by (auto simp: becomes_def)

lemma becomesI:
  "r = Some b' \<Longrightarrow> ring b' ys rest \<Longrightarrow> cb_capacity b' = cb_capacity b \<Longrightarrow> cb_scalar b' = cb_scalar b \<Longrightarrow> becomes b r ys"
  by (auto simp: becomes_def)

subsection \<open>The ends\<close>

lemma ring_parts:
  assumes "ring b xs rest"
  shows "rotate (m_first b) (cb_mem b) = map Some xs @ rest" "m_last b = (m_first b + length xs) mod cb_capacity b"
    "m_size b = length xs" "\<not> cb_scalar b \<Longrightarrow> set rest \<subseteq> {None}" "length (cb_mem b) = cb_capacity b"
    "cb_capacity b \<noteq> 0 \<Longrightarrow> m_first b < cb_capacity b" "cb_capacity b = 0 \<Longrightarrow> m_first b = 0"
  using assms by (auto simp: ring_def cb_capacity_def split: if_splits)

lemma push_back_ring:
  assumes r: "ring b xs rest"
  shows "becomes b (cb_push_back x b) (drop (length xs + 1 - cb_capacity b) (xs @ [x]))"
proof (cases rest)
  case Nil
  note cap = ring_capacity [OF r]
  show ?thesis
  proof (cases xs)
    case Nil
    then show ?thesis using \<open>rest = []\<close> r cap by (auto simp: cb_push_back_def ring_tests [OF r] becomes_def)
  next
    case (Cons y ys)
    let ?c = "cb_capacity b" and ?f = "m_first b"
    have last: "m_last b = (?f + length ([] :: 'a option list)) mod ?c" using ring_parts(2) [OF r] cap Nil by simp
    obtain m where m: "cb_replace (m_last b) x b = Some (b\<lparr>cb_mem := m\<rparr>)" "length m = ?c"
      "rotate ?f m = [] @ Some x # map Some ys"
      using write_off [of ?f b "[]" "Some y" "map Some ys" "m_last b" False x] ring_parts(1) [OF r] Cons Nil last
      by auto
    have inc: "cb_increment b (m_last b) = (?f + 1) mod ?c"
      using increment_off [of b ?f 0] cap Cons last by simp
    have "rotate ((?f + 1) mod ?c) m = map Some (ys @ [x])"
      using rotate_shift [of ?f m "[Some x]" "map Some ys"] m by simp
    then have "ring (b\<lparr>cb_mem := m, m_last := (?f + 1) mod ?c, m_first := (?f + 1) mod ?c\<rparr>) (ys @ [x]) []"
      using m(2) Nil Cons cap r by (simp add: ring_def wrap_full)
    moreover have "cb_push_back x b = Some (b\<lparr>cb_mem := m, m_last := (?f + 1) mod ?c, m_first := (?f + 1) mod ?c\<rparr>)"
      using m(1,2) inc Nil Cons by (simp add: cb_push_back_def ring_tests [OF r] Let_def)
    ultimately show ?thesis using m(2) Cons cap Nil by (auto simp: becomes_def)
  qed
next
  case (Cons c rest')
  let ?c = "cb_capacity b" and ?f = "m_first b"
  note cap = ring_capacity [OF r]
  have last: "m_last b = (?f + length (map Some xs)) mod ?c" using ring_parts(2) [OF r] by simp
  obtain m where m: "cb_construct (m_last b) x b = Some (b\<lparr>cb_mem := m\<rparr>)" "length m = ?c"
    "rotate ?f m = map Some xs @ Some x # rest'"
    using write_off [of ?f b "map Some xs" c rest' "m_last b" True x] ring_parts(1,4) [OF r] Cons last by auto
  have inc: "cb_increment b (m_last b) = (?f + Suc (length xs)) mod ?c"
    using increment_off [of b ?f "length xs"] cap Cons last by simp
  have "ring (b\<lparr>cb_mem := m, m_last := cb_increment b (m_last b), m_size := Suc (m_size b)\<rparr>) (xs @ [x]) rest'"
    using m inc r Cons cap by (auto simp: ring_def)
  moreover have "cb_push_back x b = Some (b\<lparr>cb_mem := m, m_last := cb_increment b (m_last b), m_size := Suc (m_size b)\<rparr>)"
    using m(1,2) Cons by (simp add: cb_push_back_def ring_tests [OF r])
  ultimately show ?thesis using m(2) Cons cap by (auto simp: becomes_def)
qed

text \<open>Stepping the start of a reading back by one slot.\<close>

lemma rotate_decrement:
  assumes "p < cb_capacity b" "rotate p (cb_mem b) = us @ [c]"
  shows "rotate (cb_decrement b p) (cb_mem b) = c # us" "cb_decrement b p < cb_capacity b"
    "(cb_decrement b p + Suc j) mod cb_capacity b = (p + j) mod cb_capacity b"
proof -
  let ?d = "cb_decrement b p"
  have d: "?d < cb_capacity b" "(?d + 1) mod cb_capacity b = p"
    using assms(1) by (auto simp: cb_decrement_def)
  then show "?d < cb_capacity b" by simp
  have "rotate ?d (cb_mem b) \<noteq> []" using assms(2) by (metis Nil_is_append_conv length_0_conv length_rotate list.distinct(1))
  then obtain e es where e: "rotate ?d (cb_mem b) = e # es" by (cases "rotate ?d (cb_mem b)") auto
  have "rotate p (cb_mem b) = es @ [e]"
    using rotate_shift [of ?d "cb_mem b" "[e]" es] e d(2) by (simp add: cb_capacity_def)
  then show "rotate ?d (cb_mem b) = c # us" using e assms(2) by simp
  show "(?d + Suc j) mod cb_capacity b = (p + j) mod cb_capacity b"
    using mod_add_left_eq [of "?d + 1" "cb_capacity b" j] d(2) by simp
qed

lemma push_front_ring:
  assumes r: "ring b xs rest"
  shows "becomes b (cb_push_front x b) (take (cb_capacity b) (x # xs))"
proof (cases "cb_capacity b = 0")
  case True
  then show ?thesis using r ring_capacity [OF r] by (auto simp: cb_push_front_def ring_tests [OF r] becomes_def)
next
  case False
  let ?c = "cb_capacity b" and ?f = "m_first b" and ?d = "cb_decrement b (m_first b)"
  note cap = ring_capacity [OF r] and rd = ring_parts [OF r]
  have f: "?f < ?c" using rd(6) False by simp
  have "map Some xs @ rest \<noteq> []" using cap False by auto
  then obtain us c where uc: "map Some xs @ rest = us @ [c]" by (metis append_butlast_last_id)
  then have read: "rotate ?f (cb_mem b) = us @ [c]" using rd(1) by simp
  note dec = rotate_decrement [OF f read]
  have d: "?d = (?d + length ([] :: 'a option list)) mod ?c" using dec(2) by simp
  let ?w = "construct_or_replace (rest \<noteq> [])"
  have "cb_scalar b \<or> (rest = [] \<longleftrightarrow> c \<noteq> None)"
    using uc rd(4) by (cases rest rule: rev_cases) (auto simp: map_eq_append_conv append_eq_append_conv2)
  then obtain m where m: "?w ?d x (b\<lparr>m_first := ?d\<rparr>) = Some (b\<lparr>m_first := ?d, cb_mem := m\<rparr>)" "length m = ?c"
    "rotate ?d m = Some x # us"
    using write_off [of ?d "b\<lparr>m_first := ?d\<rparr>" "[]" c us ?d "rest \<noteq> []" x] dec(1) d by auto
  show ?thesis
  proof (cases rest rule: rev_cases)
    case Nil
    then have "us = map Some (butlast xs)" using uc by (metis append_Nil2 butlast_snoc map_butlast)
    moreover have "take ?c (x # xs) = x # butlast xs" using cap Nil False by (cases xs) (auto simp: butlast_conv_take)
    moreover have "ring (b\<lparr>m_first := ?d, cb_mem := m, m_last := ?d\<rparr>) (x # butlast xs) []"
      using m calculation(1) dec(2) cap Nil False by (auto simp: ring_def rd(3))
    ultimately show ?thesis using m Nil cap False
      by (auto intro!: becomesI simp: cb_push_front_def ring_tests [OF r] Let_def)
  next
    case (snoc rest' c')
    then have us: "us = map Some xs @ rest'" using uc by simp
    have "ring (b\<lparr>m_first := ?d, cb_mem := m, m_size := Suc (m_size b)\<rparr>) (x # xs) rest'"
      using m us dec(2) dec(3) [of "length xs"] cap False rd snoc by (auto simp: ring_def)
    moreover have "take ?c (x # xs) = x # xs" using cap snoc by simp
    ultimately show ?thesis using m snoc cap False
      by (auto intro!: becomesI simp: cb_push_front_def ring_tests [OF r] Let_def)
  qed
qed

lemma pop_front_ring:
  assumes r: "ring b (x # xs) rest"
  shows "becomes b (cb_pop_front b) xs"
proof -
  let ?c = "cb_capacity b" and ?f = "m_first b"
  note cap = ring_capacity [OF r] and rd = ring_parts [OF r]
  have f: "?f < ?c" using rd(6) cap by simp
  obtain m d where m: "destroy_item ?f b = Some (b\<lparr>cb_mem := m\<rparr>)" "length m = ?c"
    "rotate ?f m = d # map Some xs @ rest" "\<not> cb_scalar b \<Longrightarrow> d = None"
    using destroy_off [of ?f b "[]" x "map Some xs @ rest"] rd(1) f by auto
  have inc: "cb_increment b ?f = (?f + 1) mod ?c" using f by (rule increment_lt)
  have "rotate ((?f + 1) mod ?c) m = map Some xs @ rest @ [d]"
    using rotate_shift [of ?f m "[d]" "map Some xs @ rest"] m by simp
  moreover have "((?f + 1) mod ?c + length xs) mod ?c = m_last b" using rd(2) by (simp add: mod_simps)
  ultimately have "ring (b\<lparr>cb_mem := m, m_first := (?f + 1) mod ?c, m_size := m_size b - 1\<rparr>) xs (rest @ [d])"
    using m cap rd by (auto simp: ring_def)
  then show ?thesis by (rule becomesI [rotated]) (use m inc in \<open>auto simp: cb_pop_front_def ring_tests [OF r]\<close>)
qed

lemma pop_back_ring:
  assumes r: "ring b (xs @ [x]) rest"
  shows "becomes b (cb_pop_back b) xs"
proof -
  let ?c = "cb_capacity b" and ?f = "m_first b" and ?l = "cb_decrement b (m_last b)"
  note cap = ring_capacity [OF r] and rd = ring_parts [OF r]
  have l: "?l = (?f + length (map Some xs)) mod ?c"
    using rd(2) decrement_off [of b ?f "length xs"] cap by simp
  obtain m d where m: "destroy_item ?l (b\<lparr>m_last := ?l\<rparr>) = Some (b\<lparr>m_last := ?l, cb_mem := m\<rparr>)" "length m = ?c"
    "rotate ?f m = map Some xs @ d # rest" "\<not> cb_scalar b \<Longrightarrow> d = None"
    using destroy_off [of ?f "b\<lparr>m_last := ?l\<rparr>" "map Some xs" x rest] rd(1) l by auto
  have "ring (b\<lparr>m_last := ?l, cb_mem := m, m_size := m_size b - 1\<rparr>) xs (d # rest)"
    using m cap rd l by (auto simp: ring_def)
  then show ?thesis
    by (rule becomesI [rotated]) (use m in \<open>auto simp: cb_pop_back_def ring_tests [OF r] Let_def\<close>)
qed

lemma subscript_ring:
  assumes r: "ring b xs rest"
  shows "cb_subscript i b = (if i < length xs then Some (xs ! i) else None)"
proof (cases "i < length xs")
  case True
  note cap = ring_capacity [OF r] and rd = ring_parts [OF r]
  have c: "cb_capacity b \<noteq> 0" using cap True by auto
  then have f: "m_first b < cb_capacity b" by (rule rd(6))
  have "map Some xs @ rest = map Some (take i xs) @ Some (xs ! i) # map Some (drop (Suc i) xs) @ rest"
    using id_take_nth_drop [OF True] by (metis append.assoc append_Cons list.simps(9) map_append)
  then have "cb_read ((m_first b + i) mod cb_capacity b) b = Some (xs ! i)"
    using read_off [of "m_first b" b "map Some (take i xs)"] rd(1) True by auto
  moreover have "cb_add b (m_first b) i = (m_first b + i) mod cb_capacity b"
    using add_off [of b i "m_first b" 0] c True cap f by auto
  ultimately show ?thesis using True by (simp add: cb_subscript_def ring_tests [OF r])
qed (simp add: cb_subscript_def ring_tests [OF r])

lemma front_ring: "ring b xs rest \<Longrightarrow> cb_front b = (if xs = [] then None else Some (hd xs))"
proof (cases xs)
  case (Cons y ys)
  assume r: "ring b xs rest"
  then have "m_first b < cb_capacity b" using ring_parts(6) [OF r] ring_capacity [OF r] Cons by simp
  then show ?thesis
    using read_off [of "m_first b" b "[]"] ring_parts(1) [OF r] Cons by (simp add: cb_front_def ring_tests [OF r])
qed (simp add: cb_front_def ring_tests)

lemma back_ring: "ring b xs rest \<Longrightarrow> cb_back b = (if xs = [] then None else Some (last xs))"
proof (cases xs rule: rev_cases)
  case (snoc ys y)
  assume r: "ring b xs rest"
  have "0 < cb_capacity b" using ring_capacity [OF r] snoc by simp
  then have "cb_decrement b (m_last b) = (m_first b + length (map Some ys)) mod cb_capacity b"
    using decrement_off [of b "m_first b" "length ys"] ring_parts(2) [OF r] snoc by simp
  then show ?thesis
    using read_off [of "m_first b" b "map Some ys" "Some y" rest] ring_parts(1) [OF r] snoc
    by (simp add: cb_back_def cb_decrement_def ring_tests [OF r])
qed (simp add: cb_back_def ring_tests)

lemma destroy_content_loop_off:
  assumes "rotate (m_first b) (cb_mem b) = map Some xs @ vs" "\<not> cb_scalar b" "k = length xs"
    and "m_first b mod cb_capacity b = m_first b"
  shows "\<exists>m. destroy_content_loop k b = Some (b\<lparr>cb_mem := m, m_first := (m_first b + k) mod cb_capacity b\<rparr>)
     \<and> length m = cb_capacity b \<and> rotate ((m_first b + k) mod cb_capacity b) m = vs @ replicate k None"
  using assms
proof (induction k arbitrary: b xs vs)
  case 0
  then show ?case by (auto intro!: exI [of _ "cb_mem b"] simp: cb_capacity_def)
next
  case (Suc k)
  from Suc.prems(3) obtain x xs' where xs: "xs = x # xs'" by (cases xs) auto
  let ?c = "cb_capacity b" and ?f = "m_first b"
  have c: "0 < ?c" using arg_cong [OF Suc.prems(1), of length] xs by (simp add: cb_capacity_def)
  obtain m where m: "destroy_item ?f b = Some (b\<lparr>cb_mem := m\<rparr>)" "length m = ?c"
    "rotate ?f m = [None] @ map Some xs' @ vs"
    using destroy_off [of ?f b "[]" x "map Some xs' @ vs"] Suc.prems xs by auto
  have inc: "cb_increment b ?f = (?f + 1) mod ?c" using increment_off [OF c, of ?f 0] Suc.prems(4) by simp
  let ?b = "b\<lparr>cb_mem := m, m_first := (?f + 1) mod ?c\<rparr>"
  have "rotate (m_first ?b) (cb_mem ?b) = map Some xs' @ (vs @ [None])"
    using rotate_shift [OF m(3)] m(2) by simp
  from Suc.IH [OF this] obtain m' where m': "length m' = ?c"
    "destroy_content_loop k ?b = Some (?b\<lparr>cb_mem := m', m_first := (?f + Suc k) mod ?c\<rparr>)"
    "rotate ((?f + Suc k) mod ?c) m' = (vs @ [None]) @ replicate k None"
    using Suc.prems xs m(2) by (auto simp: mod_simps)
  then show ?case using m(1,2) inc by (auto simp: replicate_append_same)
qed

lemma destroy_content_ring:
  assumes r: "ring b xs rest"
  shows "\<exists>m. destroy_content b = Some (b\<lparr>cb_mem := m, m_first := m_last b\<rparr>) \<and> length m = cb_capacity b
    \<and> (\<not> cb_scalar b \<longrightarrow> set m \<subseteq> {None})"
proof -
  note cap = ring_capacity [OF r] and rd = ring_parts [OF r]
  have f: "m_first b mod cb_capacity b = m_first b" using rd(6,7) by (cases "cb_capacity b = 0") auto
  show ?thesis
  proof (cases "cb_scalar b")
    case True
    have "cb_add b (m_first b) (length xs) = m_last b"
      using add_off [of b "length xs" "m_first b" 0] f cap rd(2,7)
      by (cases "cb_capacity b = 0") (auto simp: cb_add_def)
    then show ?thesis using True rd(5) by (auto simp: destroy_content_def ring_tests [OF r] intro!: exI [of _ "cb_mem b"])
  next
    case False
    obtain m where m: "destroy_content_loop (length xs) b = Some (b\<lparr>cb_mem := m, m_first := m_last b\<rparr>)"
      "length m = cb_capacity b" "rotate (m_last b) m = rest @ replicate (length xs) None"
      using destroy_content_loop_off [OF rd(1) False refl f] rd(2) by auto
    have "set m = set (rest @ replicate (length xs) None)" using m(3) by (metis set_rotate)
    then have "set m \<subseteq> {None}" using rd(4) [OF False] by auto
    then show ?thesis using False m(1,2) by (intro exI [of _ m]) (simp add: destroy_content_def ring_tests [OF r])
  qed
qed

lemma clear_ring:
  assumes r: "ring b xs rest"
  shows "becomes b (cb_clear b) []"
proof -
  note cap = ring_capacity [OF r] and rd = ring_parts [OF r]
  obtain m where m: "destroy_content b = Some (b\<lparr>cb_mem := m, m_first := m_last b\<rparr>)" "length m = cb_capacity b"
    "\<not> cb_scalar b \<longrightarrow> set m \<subseteq> {None}"
    using destroy_content_ring [OF r] by blast
  have "ring (b\<lparr>cb_mem := m, m_first := m_last b, m_size := 0\<rparr>) [] (rotate (m_last b) m)"
    using m rd(2,7) cap by (auto simp: ring_def)
  then show ?thesis by (rule becomesI [rotated]) (use m in \<open>auto simp: cb_clear_def\<close>)
qed

end
