(* ===== verification/Circular_Insert.thy ===== *)
theory Circular_Insert
  imports Circular_Ring
begin

text \<open>
  Iterators, insertion and removal inside the ring. The loops move elements slot by slot; each lemma
  reads the memory from a pointer that stays fixed during the loop.
\<close>

subsection \<open>Iterators\<close>

text \<open>The iterator at index \<open>i\<close>.\<close>

definition it_at :: "'a circular_buffer \<Rightarrow> nat \<Rightarrow> nat option" where
  "it_at b i = (if i < m_size b then Some ((m_first b + i) mod cb_capacity b) else None)"

lemma ring_first_lt: "ring b xs rest \<Longrightarrow> 0 < cb_capacity b \<Longrightarrow> m_first b < cb_capacity b"
  using ring_parts(6) by fastforce

lemma begin_at: "ring b xs rest \<Longrightarrow> cb_begin b = it_at b 0"
  using ring_first_lt [of b xs rest] ring_capacity [of b xs rest]
  by (auto simp: cb_begin_def it_at_def ring_tests ring_parts(3))

lemma end_at: "ring b xs rest \<Longrightarrow> cb_end b = it_at b (length xs)"
  by (simp add: cb_end_def it_at_def ring_parts(3))

lemma linearize_at:
  assumes r: "ring b xs rest" and i: "i \<le> length xs"
  shows "linearize_pointer b (it_at b i) = i"
proof (cases "i < length xs")
  case True
  have c: "0 < cb_capacity b" "i < cb_capacity b" using ring_capacity [OF r] True by auto
  then have f: "m_first b < cb_capacity b" using ring_first_lt [OF r] by simp
  then show ?thesis using True c ring_parts(3) [OF r]
    by (auto simp: linearize_pointer_def it_at_def mod_if)
qed (use assms in \<open>simp add: linearize_pointer_def it_at_def ring_parts(3) ring_tests\<close>)

lemma diff_at:
  "ring b xs rest \<Longrightarrow> i \<le> length xs \<Longrightarrow> j \<le> length xs \<Longrightarrow> it_diff b (it_at b i) (it_at b j) = int i - int j"
  by (simp add: it_diff_def linearize_at)

lemma at_inject:
  "ring b xs rest \<Longrightarrow> i \<le> length xs \<Longrightarrow> j \<le> length xs \<Longrightarrow> it_at b i = it_at b j \<longleftrightarrow> i = j"
  using linearize_at by metis

text \<open>Past the last element a pointer meets \<^verbatim>\<open>m_last\<close>, and only there.\<close>

lemma off_is_last:
  assumes r: "ring b xs rest" and i: "0 < i" "i \<le> length xs"
  shows "(m_first b + i) mod cb_capacity b = m_last b \<longleftrightarrow> i = length xs"
proof (cases "length xs < cb_capacity b")
  case True
  then show ?thesis using i ring_parts(2) [OF r] by (simp add: add_mod_inject)
next
  case False
  then have c: "cb_capacity b = length xs" using ring_capacity [OF r] by simp
  then have l: "m_last b = (m_first b + 0) mod cb_capacity b" using ring_parts(2) [OF r] by simp
  show ?thesis
  proof (cases "i < length xs")
    case True
    then show ?thesis unfolding l using i c by (simp only: add_mod_inject) simp
  qed (use i l c in simp)
qed

lemma next_at:
  assumes r: "ring b xs rest" and i: "i < length xs"
  shows "it_next b (it_at b i) = Some (it_at b (Suc i))"
proof -
  have "0 < cb_capacity b" using ring_capacity [OF r] i by auto
  then have "cb_increment b ((m_first b + i) mod cb_capacity b) = (m_first b + Suc i) mod cb_capacity b"
    by (rule increment_off)
  then show ?thesis using off_is_last [OF r, of "Suc i"] i ring_parts(3) [OF r]
    by (auto simp: it_next_def it_at_def Let_def)
qed

lemma add_at:
  assumes r: "ring b xs rest" and i: "i + n \<le> length xs"
  shows "it_add b (it_at b i) n = Some (it_at b (i + n))"
proof (cases "n = 0")
  case False
  have "0 < cb_capacity b" "n \<le> cb_capacity b" using ring_capacity [OF r] i False by auto
  then have "cb_add b ((m_first b + i) mod cb_capacity b) n = (m_first b + (i + n)) mod cb_capacity b"
    by (rule add_off)
  then show ?thesis using False off_is_last [OF r, of "i + n"] i ring_parts(3) [OF r]
      diff_at [OF r, of "length xs" i] end_at [OF r]
    by (auto simp: it_add_def it_at_def Let_def)
qed (simp add: it_add_def)

lemma sub_at:
  assumes r: "ring b xs rest" and i: "n \<le> i" "i \<le> length xs"
  shows "it_sub b (it_at b i) n = Some (it_at b (i - n))"
proof (cases "n = 0")
  case False
  have "0 < cb_capacity b" "n \<le> cb_capacity b" using ring_capacity [OF r] i False by auto
  then have "cb_sub b ((m_first b + (i - n + n)) mod cb_capacity b) n = (m_first b + (i - n)) mod cb_capacity b"
    by (rule sub_off)
  moreover have "(case it_at b i of None \<Rightarrow> m_last b | Some p \<Rightarrow> p) = (m_first b + i) mod cb_capacity b"
    using i ring_parts(2,3) [OF r] by (auto simp: it_at_def)
  ultimately show ?thesis using False i ring_parts(3) [OF r] diff_at [OF r, of i 0] begin_at [OF r]
    by (auto simp: it_sub_def it_at_def)
qed (simp add: it_sub_def)

subsection \<open>One element\<close>

lemma insert_item_loop_off:
  assumes "rotate p (cb_mem b) = map Some ys @ c # vs" and "p < cb_capacity b"
    and "cb_scalar b \<or> (k \<longleftrightarrow> c = None)"
    and "s = (p + length ys) mod cb_capacity b"
  shows "\<exists>m. insert_item_loop p s s k b = Some (b\<lparr>cb_mem := m\<rparr>) \<and> length m = cb_capacity b
    \<and> rotate p m = (if ys = [] then c # vs else Some (hd ys) # map Some ys @ vs)"
  using assms
proof (induction ys arbitrary: b c vs k s rule: rev_induct)
  case Nil
  then show ?case by (subst insert_item_loop.simps) (auto simp: cb_capacity_def intro!: exI [of _ "cb_mem b"])
next
  case (snoc y ys)
  let ?c = "cb_capacity b"
  have c: "0 < ?c" "Suc (length ys) < ?c"
    using arg_cong [OF snoc.prems(1), of length] by (auto simp: cb_capacity_def)
  have ne: "s \<noteq> p"
  proof
    assume "s = p"
    then have "(p + Suc (length ys)) mod ?c = (p + 0) mod ?c" using snoc.prems by simp
    then show False using c by (simp only: add_mod_inject)
  qed
  have dec: "cb_decrement b s = (p + length ys) mod ?c"
    using decrement_off [OF c(1), of p "length ys"] snoc.prems(4) by simp
  have rd: "cb_read (cb_decrement b s) b = Some y"
    using read_off [of p b "map Some ys" "Some y" "c # vs"] snoc.prems(1) by (simp add: dec)
  obtain m where m: "construct_or_replace k s y b = Some (b\<lparr>cb_mem := m\<rparr>)" "length m = ?c"
    "rotate p m = map Some (ys @ [y]) @ Some y # vs"
    using write_off [of p b "map Some (ys @ [y])" c vs s k y] snoc.prems by auto
  let ?b = "b\<lparr>cb_mem := m\<rparr>"
  obtain m' where m': "insert_item_loop p (cb_decrement b s) (cb_decrement b s) False ?b = Some (?b\<lparr>cb_mem := m'\<rparr>)"
    "length m' = ?c" "rotate p m' = (if ys = [] then Some y # Some y # vs else Some (hd ys) # map Some ys @ Some y # vs)"
    using snoc.IH [of ?b "Some y" "Some y # vs" False "cb_decrement b s"] m snoc.prems(2) dec by auto
  then show ?case using ne rd m(1)
    by (subst insert_item_loop.simps) (auto intro!: exI [of _ m'])
qed

lemma off_off: "((p + i) mod c + j) mod c = (p + (i + j)) mod (c :: nat)"
  by (simp add: mod_simps add.assoc)

lemma rotate_back:
  assumes "rotate ((f + i) mod length m) m = us @ vs" "length vs \<le> i"
  shows "rotate ((f + (i - length vs)) mod length m) m = vs @ us"
proof -
  let ?c = "length m"
  have l: "?c = length us + length vs" using arg_cong [OF assms(1), of length] by simp
  have "((f + i) mod ?c + length us) mod ?c = (f + (i - length vs) + ?c) mod ?c"
    using assms(2) l by (simp add: off_off)
  also have "\<dots> = (f + (i - length vs)) mod ?c" by simp
  finally show ?thesis using rotate_shift [OF assms(1)] by simp
qed

lemma full_update [simp]:
  "length m = cb_capacity b \<Longrightarrow> cb_full (b\<lparr>cb_mem := m\<rparr>) = cb_full b"
  by (simp add: cb_full_def cb_size_def)

lemma write_capacity:
  "construct_or_replace k p x b = Some b' \<Longrightarrow> \<exists>m. b' = b\<lparr>cb_mem := m\<rparr> \<and> length m = cb_capacity b"
  by (auto simp: construct_or_replace_def cb_construct_def cb_replace_def cb_capacity_def split: if_splits)

lemma insert_end_is_push_back:
  assumes "\<not> (cb_full b \<and> cb_empty b)"
  shows "map_option snd (insert_item None x b) = cb_push_back x b"
proof (cases "construct_or_replace (\<not> cb_full b) (m_last b) x b")
  case None
  then show ?thesis using assms by (auto simp: insert_item_def cb_push_back_def split: if_splits)
next
  case (Some b1)
  then show ?thesis using assms write_capacity [OF Some]
    by (auto simp: insert_item_def cb_push_back_def Let_def split: if_splits)
qed

lemma insert_middle_ring:
  assumes r: "ring b xs rest" and i: "i < length xs" and nf: "rest = [] \<Longrightarrow> 0 < i"
  shows "becomes b (map_option snd (insert_item (it_at b i) x b))
    (drop (length xs + 1 - cb_capacity b) (take i xs @ x # drop i xs))"
proof -
  let ?c = "cb_capacity b" and ?f = "m_first b" and ?p = "(m_first b + i) mod cb_capacity b"
  note cap = ring_capacity [OF r] and rd = ring_parts [OF r]
  have c: "0 < ?c" using cap i by auto
  then have f: "?f < ?c" using ring_first_lt [OF r] by simp
  define ys where "ys = drop i xs"
  have ys: "ys \<noteq> []" "length ys = length xs - i" using i by (auto simp: ys_def)
  have "rotate ?f (cb_mem b) = map Some (take i xs) @ map Some ys @ rest"
    using rd(1) by (simp add: ys_def flip: map_append append_assoc)
  then have "rotate ?p (cb_mem b) = map Some ys @ rest @ map Some (take i xs)"
    using rotate_shift [of ?f "cb_mem b" "map Some (take i xs)" "map Some ys @ rest"] rd(5) i by simp
  moreover obtain d vs where dvs: "rest @ map Some (take i xs) = d # vs"
    using nf i by (cases "rest @ map Some (take i xs)") auto
  moreover have kd: "cb_scalar b \<or> ((rest \<noteq> []) \<longleftrightarrow> d = None)"
    using dvs rd(4) by (cases rest) auto
  moreover have "m_last b = (?p + length ys) mod ?c" unfolding off_off using rd(2) i ys by simp
  ultimately obtain m where m: "insert_item_loop ?p (m_last b) (m_last b) (rest \<noteq> []) b = Some (b\<lparr>cb_mem := m\<rparr>)"
    "length m = ?c" "rotate ?p m = Some (hd ys) # map Some ys @ vs"
    using insert_item_loop_off [of ?p b ys d vs "rest \<noteq> []" "m_last b"] c ys by auto
  obtain m2 where m2: "cb_replace ?p x (b\<lparr>cb_mem := m\<rparr>) = Some (b\<lparr>cb_mem := m2\<rparr>)" "length m2 = ?c"
    "rotate ?p m2 = Some x # map Some ys @ vs"
    using write_off [of ?p "b\<lparr>cb_mem := m\<rparr>" "[]" "Some (hd ys)" "map Some ys @ vs" ?p False x] m by auto
  have inc: "cb_increment b (m_last b) = (?f + Suc (length xs)) mod ?c"
    using increment_off [OF c, of ?f "length xs"] rd(2) by simp
  show ?thesis
  proof (cases rest)
    case Nil
    then obtain t ts where ts: "take i xs = t # ts" using nf i by (cases "take i xs") auto
    have "length (take i xs) = i" using i by simp
    then have vs: "vs = map Some ts" "length ts = i - 1" using dvs Nil unfolding ts by auto
    have "?f + Suc (length xs) = ?f + 1 + ?c" using cap Nil by simp
    then have inc': "cb_increment b (m_last b) = (?f + 1) mod ?c" unfolding inc by (metis mod_add_self2)
    have i0: "0 < i" using nf Nil by simp
    have "rotate ((?f + 1) mod ?c) m2 = map Some (ts @ x # ys) @ []"
      using rotate_back [of ?f i m2 "Some x # map Some ys" "map Some ts"] m2 vs i0 by simp
    moreover have len: "length (ts @ x # ys) = ?c" using cap Nil i i0 ys vs(2) by simp
    ultimately have "ring (b\<lparr>cb_mem := m2, m_last := (?f + 1) mod ?c, m_first := (?f + 1) mod ?c\<rparr>) (ts @ x # ys) []"
      unfolding ring_def len using m2(2) c cap Nil rd(3) by simp
    moreover have "drop (length xs + 1 - ?c) (take i xs @ x # drop i xs) = ts @ x # ys"
      using cap Nil by (simp add: ts ys_def)
    ultimately show ?thesis using m m2 inc' Nil i
      by (auto intro!: becomesI simp: insert_item_def it_at_def rd(3) ring_tests [OF r] Let_def)
  next
    case (Cons c' rest')
    then have vs: "vs = rest' @ map Some (take i xs)" using dvs by simp
    have "rotate ?f m2 = map Some (take i xs @ x # ys) @ rest'"
      using rotate_back [of ?f i m2 "Some x # map Some ys @ rest'" "map Some (take i xs)"] m2 vs i f by simp
    then have "ring (b\<lparr>cb_mem := m2, m_last := (?f + Suc (length xs)) mod ?c, m_size := Suc (m_size b)\<rparr>) (take i xs @ x # ys) rest'"
      using m2(2) c cap Cons rd f i ys by (auto simp: ring_def)
    then show ?thesis using m m2 inc Cons i cap
      by (auto intro!: becomesI simp: insert_item_def it_at_def rd(3) ring_tests [OF r] Let_def ys_def)
  qed
qed

lemma insert_ring:
  assumes r: "ring b xs rest" and i: "i \<le> length xs"
  shows "becomes b (map_option snd (cb_insert (it_at b i) x b))
    (drop (length xs + 1 - cb_capacity b) (take i xs @ x # drop i xs))"
proof (cases "cb_full b \<and> i = 0")
  case True
  then have "map_option snd (cb_insert (it_at b i) x b) = Some b" using begin_at [OF r] by (simp add: cb_insert_def)
  moreover have "length xs + 1 - cb_capacity b = 1" using True ring_capacity [OF r] ring_tests(1) [OF r] by simp
  ultimately show ?thesis using True r by (auto simp: becomes_def)
next
  case nf: False
  have "\<not> (cb_full b \<and> it_at b i = cb_begin b)"
    using nf begin_at [OF r] at_inject [OF r, of i 0] i by auto
  then have eq: "cb_insert (it_at b i) x b = insert_item (it_at b i) x b"
    by (auto simp: cb_insert_def)
  show ?thesis
  proof (cases "i < length xs")
    case True
    then show ?thesis using insert_middle_ring [OF r True] nf by (auto simp: eq ring_tests [OF r])
  next
    case False
    then have "i = length xs" using i by simp
    moreover have "it_at b i = None" using False ring_parts(3) [OF r] by (simp add: it_at_def)
    moreover have "\<not> (cb_full b \<and> cb_empty b)" using nf calculation ring_tests(2) [OF r] by auto
    ultimately show ?thesis using push_back_ring [OF r, of x] eq
      by (simp add: insert_end_is_push_back)
  qed
qed

lemma rinsert_loop_off:
  assumes "rotate d (cb_mem b) = c # map Some ys @ vs" and "d < cb_capacity b"
    and "cb_scalar b \<or> (k \<longleftrightarrow> c = None)"
    and "s = (d + 1) mod cb_capacity b" and "p = (d + Suc (length ys)) mod cb_capacity b"
  shows "\<exists>m. rinsert_loop p s d k b = Some (b\<lparr>cb_mem := m\<rparr>) \<and> length m = cb_capacity b
    \<and> rotate d m = map Some ys @ (if ys = [] then c else Some (last ys)) # vs"
  using assms
proof (induction ys arbitrary: b c vs k s d)
  case Nil
  then show ?case by (subst rinsert_loop.simps) (auto simp: cb_capacity_def intro!: exI [of _ "cb_mem b"])
next
  case (Cons y ys)
  let ?c = "cb_capacity b"
  have c: "0 < ?c" "Suc (length ys) < ?c"
    using arg_cong [OF Cons.prems(1), of length] by (auto simp: cb_capacity_def)
  have "(d + 1 + 0) mod ?c \<noteq> (d + 1 + Suc (length ys)) mod ?c"
    using c by (simp only: add_mod_inject)
  then have ne: "s \<noteq> p" using Cons.prems(4,5) by simp
  have rd: "cb_read s b = Some y"
    using read_off [of d b "[c]" "Some y" "map Some ys @ vs"] Cons.prems(1,4) by simp
  obtain m where m: "construct_or_replace k d y b = Some (b\<lparr>cb_mem := m\<rparr>)" "length m = ?c"
    "rotate d m = [Some y] @ Some y # map Some ys @ vs"
    using write_off [of d b "[]" c "map Some (y # ys) @ vs" d k y] Cons.prems by auto
  let ?b = "b\<lparr>cb_mem := m\<rparr>"
  have inc: "cb_increment b d = s" "cb_increment b s = (d + 2) mod ?c"
    using increment_lt [of d b] increment_off [OF c(1), of d 1] Cons.prems(2,4) by (simp_all add: numeral_2_eq_2)
  have sh: "rotate s (cb_mem ?b) = Some y # map Some ys @ (vs @ [Some y])"
    using rotate_shift [OF m(3)] m(2) Cons.prems(4) by simp
  have s: "s < ?c" using c Cons.prems(4) by simp
  have s2: "(d + 2) mod ?c = (s + 1) mod ?c" "p = (s + Suc (length ys)) mod ?c"
    unfolding Cons.prems(4,5) off_off by (simp_all add: numeral_2_eq_2)
  obtain m' where m': "rinsert_loop p ((d + 2) mod ?c) s False ?b = Some (?b\<lparr>cb_mem := m'\<rparr>)"
    "length m' = ?c" "rotate s m' = map Some ys @ (if ys = [] then Some y else Some (last ys)) # (vs @ [Some y])"
    using Cons.IH [OF sh, of False] m(2) s s2 by auto
  then have "rotate ((d + 1) mod ?c) m' = (map Some ys @ (if ys = [] then Some y else Some (last ys)) # vs) @ [Some y]"
    using Cons.prems(4) by simp
  then have "rotate d m' = map Some (y # ys) @ Some (last (y # ys)) # vs"
    using rotate_back [of d 1 m' "map Some ys @ (if ys = [] then Some y else Some (last ys)) # vs" "[Some y]"]
      m'(2) Cons.prems(2) by auto
  then show ?case using ne rd m(1) m' inc
    by (subst rinsert_loop.simps) auto
qed

lemma rinsert_begin_is_push_front:
  assumes "\<not> (cb_full b \<and> cb_begin b = None)"
  shows "map_option snd (cb_rinsert (cb_begin b) x b) = cb_push_front x b"
proof (cases "construct_or_replace (\<not> cb_full b) (cb_decrement b (m_first b)) x (b\<lparr>m_first := cb_decrement b (m_first b)\<rparr>)")
  case None
  then show ?thesis using assms
    by (auto simp: cb_rinsert_def cb_push_front_def cb_begin_def Let_def split: if_splits)
next
  case (Some b1)
  then obtain m where m: "b1 = b\<lparr>m_first := cb_decrement b (m_first b), cb_mem := m\<rparr>" "length m = cb_capacity b"
    using write_capacity [OF Some] by auto
  then have "cb_full b1 = cb_full b" by (simp add: cb_full_def cb_size_def)
  then show ?thesis using assms Some m
    by (auto simp: cb_rinsert_def cb_push_front_def cb_begin_def Let_def split: if_splits)
qed

lemma rinsert_middle_ring:
  assumes r: "ring b xs rest" and i: "0 < i" "i \<le> length xs" and nf: "rest = [] \<Longrightarrow> i < length xs"
  shows "becomes b (map_option snd (cb_rinsert (it_at b i) x b)) (take (cb_capacity b) (take i xs @ x # drop i xs))"
proof -
  let ?c = "cb_capacity b" and ?f = "m_first b" and ?p = "(m_first b + i) mod cb_capacity b"
  let ?d = "cb_decrement b (m_first b)" and ?ys = "take i xs"
  note cap = ring_capacity [OF r] and rd = ring_parts [OF r]
  have c: "0 < ?c" using cap i by auto
  then have f: "?f < ?c" using ring_first_lt [OF r] by simp
  obtain vs e where ve: "map Some (drop i xs) @ rest = vs @ [e]"
    using nf by (cases "map Some (drop i xs) @ rest" rule: rev_cases) auto
  have "rotate ?f (cb_mem b) = map Some ?ys @ (map Some (drop i xs) @ rest)"
    using rd(1) by (simp flip: map_append append_assoc)
  then have "rotate ?f (cb_mem b) = (map Some ?ys @ vs) @ [e]" by (simp add: ve)
  note dec = rotate_decrement [OF f this]
  have ke: "cb_scalar b \<or> (rest \<noteq> [] \<longleftrightarrow> e = None)"
  proof (cases rest rule: rev_cases)
    case Nil
    then have "e \<in> Some ` set (drop i xs)" using arg_cong [OF ve, of set] by auto
    then show ?thesis using Nil by auto
  qed (use ve rd(4) in auto)
  have mp: "map_pointer b (it_at b i) = ?p"
    using i rd(2,3) by (auto simp: map_pointer_def it_at_def)
  have pd: "?p = (?d + Suc (length ?ys)) mod ?c" "?f = (?d + 1) mod ?c" "cb_decrement b ?p = (?d + length ?ys) mod ?c"
    using dec(3) [of i] dec(3) [of 0] dec(3) [of "i - 1"] i f decrement_off [OF c, of ?f "i - 1"] by auto
  have ne0: "?ys \<noteq> []" using i by auto
  obtain m where m: "rinsert_loop ?p ?f ?d (rest \<noteq> []) b = Some (b\<lparr>cb_mem := m\<rparr>)" "length m = ?c"
    "rotate ?d m = map Some ?ys @ Some (last ?ys) # vs"
    using rinsert_loop_off [OF dec(1,2) ke pd(2) pd(1), unfolded if_not_P [OF ne0]] by blast
  obtain m2 where m2: "cb_replace (cb_decrement b ?p) x (b\<lparr>cb_mem := m\<rparr>) = Some (b\<lparr>cb_mem := m2\<rparr>)" "length m2 = ?c"
    "rotate ?d m2 = map Some ?ys @ Some x # vs"
    using write_off [of ?d "b\<lparr>cb_mem := m\<rparr>" "map Some ?ys" "Some (last ?ys)" vs "cb_decrement b ?p" False x] m pd(3) by auto
  have ne: "\<not> (cb_full b \<and> it_at b i = None)" "it_at b i \<noteq> cb_begin b"
    using i nf ring_tests(1) [OF r] rd(3) begin_at [OF r] at_inject [OF r, of i 0] by (auto simp: it_at_def)
  let ?b2 = "b\<lparr>cb_mem := m2, m_first := ?d\<rparr>"
  have res: "map_option snd (cb_rinsert (it_at b i) x b)
     = Some (if rest = [] then ?b2\<lparr>m_last := ?d\<rparr> else ?b2\<lparr>m_size := Suc (m_size b)\<rparr>)"
    using m m2 ne mp by (auto simp: cb_rinsert_def Let_def cb_full_def ring_tests [OF r] cb_size_def cap rd(3))
  show ?thesis
  proof (cases rest rule: rev_cases)
    case Nil
    then have vs: "vs = map Some (butlast (drop i xs))" using ve by (metis append_Nil2 butlast_snoc map_butlast)
    have t: "take ?c (?ys @ x # drop i xs) = ?ys @ x # butlast (drop i xs)"
      using cap Nil i nf [OF Nil] by (simp add: take_Cons' butlast_conv_take)
    have len: "length (?ys @ x # butlast (drop i xs)) = ?c" using cap Nil nf i by simp
    have "ring (?b2\<lparr>m_last := ?d\<rparr>) (?ys @ x # butlast (drop i xs)) []"
      unfolding ring_def len using m2 dec(2) cap Nil rd(3) vs by auto
    then show ?thesis unfolding t by (rule becomesI [rotated]) (use res Nil m2(2) in auto)
  next
    case (snoc rest' e')
    then have vs: "vs = map Some (drop i xs) @ rest'" using ve by simp
    have "ring (?b2\<lparr>m_size := Suc (m_size b)\<rparr>) (?ys @ x # drop i xs) rest'"
      using m2 dec(2) dec(3) [of "length xs"] cap snoc rd vs i by (auto simp: ring_def)
    moreover have "take ?c (?ys @ x # drop i xs) = ?ys @ x # drop i xs" using cap snoc i by simp
    ultimately show ?thesis using res snoc m2(2) by (auto intro!: becomesI)
  qed
qed

lemma rinsert_ring:
  assumes r: "ring b xs rest" and i: "i \<le> length xs"
  shows "becomes b (map_option snd (cb_rinsert (it_at b i) x b)) (take (cb_capacity b) (take i xs @ x # drop i xs))"
proof (cases "rest = [] \<and> i = length xs")
  case True
  then have "map_option snd (cb_rinsert (it_at b i) x b) = Some b"
    using ring_tests(1) [OF r] ring_parts(3) [OF r] by (simp add: cb_rinsert_def it_at_def)
  then show ?thesis using True r ring_capacity [OF r] by (auto simp: becomes_def)
next
  case nf: False
  show ?thesis
  proof (cases "i = 0")
    case True
    then have "\<not> (cb_full b \<and> cb_begin b = None)"
      using nf ring_tests(1,2) [OF r] by (auto simp: cb_begin_def)
    then have "map_option snd (cb_rinsert (it_at b 0) x b) = cb_push_front x b"
      using rinsert_begin_is_push_front [of b x] begin_at [OF r] by simp
    then show ?thesis using True push_front_ring [OF r, of x] by simp
  next
    case False
    then show ?thesis using rinsert_middle_ring [OF r, of i x] nf i by auto
  qed
qed

end
