(* ===== verification/Circular_Erase.thy ===== *)
theory Circular_Erase
  imports Circular_Insert
begin

text \<open>Removal inside the ring: one element or a range, closing the gap from either side.\<close>

lemma erase_loop_off:
  assumes "rotate p (cb_mem b) = map Some (y # ys) @ vs" and "p < cb_capacity b"
    and "n = (p + 1) mod cb_capacity b" and "l = (p + Suc (length ys)) mod cb_capacity b"
  shows "\<exists>m. erase_loop l p n b = Some (b\<lparr>cb_mem := m\<rparr>) \<and> length m = cb_capacity b
    \<and> rotate p m = map Some ys @ Some (last (y # ys)) # vs"
  using assms
proof (induction ys arbitrary: b y vs p n)
  case Nil
  then show ?case by (subst erase_loop.simps) (auto simp: cb_capacity_def intro!: exI [of _ "cb_mem b"])
next
  case (Cons z ys)
  let ?c = "cb_capacity b"
  have c: "0 < ?c" "Suc (length ys) < ?c"
    using arg_cong [OF Cons.prems(1), of length] by (auto simp: cb_capacity_def)
  have "(p + 1 + 0) mod ?c \<noteq> (p + 1 + Suc (length ys)) mod ?c"
    using c by (simp only: add_mod_inject)
  then have ne: "n \<noteq> l" using Cons.prems(3,4) by simp
  have rd: "cb_read n b = Some z"
    using read_off [of p b "[Some y]" "Some z" "map Some ys @ vs"] Cons.prems(1,3) by simp
  obtain m where m: "cb_replace p z b = Some (b\<lparr>cb_mem := m\<rparr>)" "length m = ?c"
    "rotate p m = [Some z] @ map Some (z # ys) @ vs"
    using write_off [of p b "[]" "Some y" "map Some (z # ys) @ vs" p False z] Cons.prems by auto
  let ?b = "b\<lparr>cb_mem := m\<rparr>"
  have inc: "cb_increment b n = (n + 1) mod ?c" and n: "n < ?c"
    using c Cons.prems(3) increment_lt [of n b] by simp_all
  have sh: "rotate n (cb_mem ?b) = map Some (z # ys) @ (vs @ [Some z])"
    using rotate_shift [OF m(3)] m(2) Cons.prems(3) by simp
  have l: "l = (n + Suc (length ys)) mod ?c"
    unfolding Cons.prems(3,4) off_off by simp
  obtain m' where m': "erase_loop l n ((n + 1) mod ?c) ?b = Some (?b\<lparr>cb_mem := m'\<rparr>)"
    "length m' = ?c" "rotate n m' = map Some ys @ Some (last (z # ys)) # (vs @ [Some z])"
    using Cons.IH [OF sh] m(2) n l by auto
  then have "rotate p m' = map Some (z # ys) @ Some (last (z # ys)) # vs"
    using rotate_back [of p 1 m' "map Some ys @ Some (last (z # ys)) # vs" "[Some z]"] Cons.prems(2,3) by auto
  then show ?case using ne rd m(1) m' inc
    by (subst erase_loop.simps) auto
qed

text \<open>Dropping the last element of the ring once it has been moved.\<close>

lemma erase_ring:
  assumes r: "ring b xs rest" and i: "i < length xs"
  shows "becomes b (map_option snd (cb_erase (it_at b i) b)) (take i xs @ drop (Suc i) xs)"
proof -
  let ?c = "cb_capacity b" and ?f = "m_first b" and ?p = "(m_first b + i) mod cb_capacity b"
  note cap = ring_capacity [OF r] and rd = ring_parts [OF r]
  have c: "0 < ?c" using cap i by auto
  then have f: "?f < ?c" using ring_first_lt [OF r] by simp
  define ys where "ys = drop (Suc i) xs"
  have xs: "xs = take i xs @ xs ! i # ys" using id_take_nth_drop [OF i] by (simp add: ys_def)
  have "rotate ?f (cb_mem b) = map Some (take i xs) @ map Some (xs ! i # ys) @ rest"
    using rd(1) by (subst (asm) xs) simp
  then have rp: "rotate ?p (cb_mem b) = map Some (xs ! i # ys) @ rest @ map Some (take i xs)"
    using rotate_shift [of ?f "cb_mem b" "map Some (take i xs)"] rd(5) i by simp
  have lys: "length xs = i + Suc (length ys)" using i by (simp add: ys_def)
  have l: "m_last b = (?p + Suc (length ys)) mod ?c" unfolding off_off using rd(2) lys by simp
  have n: "cb_increment b ?p = (?p + 1) mod ?c" "?p < ?c" using c by (simp_all add: increment_lt)
  obtain m where m: "erase_loop (m_last b) ?p (cb_increment b ?p) b = Some (b\<lparr>cb_mem := m\<rparr>)" "length m = ?c"
    "rotate ?p m = map Some ys @ Some (last (xs ! i # ys)) # rest @ map Some (take i xs)"
    using erase_loop_off [OF rp n(2,1) l] by auto
  then have "rotate ?f m = map Some (take i xs @ ys @ [last (xs ! i # ys)]) @ rest"
    using rotate_back [of ?f i m "map Some ys @ Some (last (xs ! i # ys)) # rest" "map Some (take i xs)"] i f by simp
  then have "ring (b\<lparr>cb_mem := m\<rparr>) ((take i xs @ ys) @ [last (xs ! i # ys)]) rest"
    using m(2) rd f c lys by (auto simp: ring_def)
  from pop_back_ring [OF this] obtain b' rest' where
    b': "cb_pop_back (b\<lparr>cb_mem := m\<rparr>) = Some b'" "ring b' (take i xs @ ys) rest'" "cb_capacity b' = ?c" "cb_scalar b' = cb_scalar b"
    using m(2) by (auto elim!: becomesE)
  have "map_option snd (cb_erase (it_at b i) b) = cb_pop_back (b\<lparr>cb_mem := m\<rparr>)"
    using m(1,2) i rd(3)
    by (auto simp: cb_erase_def it_at_def cb_pop_back_def Let_def cb_empty_def cb_size_def split: option.splits bind_split)
  then show ?thesis using b' by (auto simp: ys_def intro: becomesI)
qed

lemma rerase_loop_off:
  assumes "rotate (m_first b) (cb_mem b) = map Some (xs @ [y]) @ vs" and "m_first b < cb_capacity b"
    and "q = (m_first b + length xs) mod cb_capacity b"
  shows "\<exists>m. rerase_loop q (cb_decrement b q) b = Some (m_first b, b\<lparr>cb_mem := m\<rparr>) \<and> length m = cb_capacity b
    \<and> rotate (m_first b) m = Some (hd (xs @ [y])) # map Some xs @ vs"
  using assms
proof (induction xs arbitrary: b y vs q rule: rev_induct)
  case Nil
  then show ?case by (subst rerase_loop.simps) (auto simp: cb_capacity_def intro!: exI [of _ "cb_mem b"])
next
  case (snoc x xs)
  let ?c = "cb_capacity b" and ?f = "m_first b"
  have c: "0 < ?c" "Suc (length xs) < ?c"
    using arg_cong [OF snoc.prems(1), of length] by (auto simp: cb_capacity_def)
  have "(?f + Suc (length xs)) mod ?c \<noteq> (?f + 0) mod ?c" using c by (simp only: add_mod_inject)
  then have ne: "q \<noteq> ?f" using snoc.prems(2,3) by simp
  have dec: "cb_decrement b q = (?f + length xs) mod ?c"
    using decrement_off [OF c(1), of ?f "length xs"] snoc.prems(3) by simp
  have rd: "cb_read (cb_decrement b q) b = Some x"
    using read_off [of ?f b "map Some xs" "Some x" "Some y # vs"] snoc.prems(1) by (simp add: dec)
  obtain m where m: "cb_replace q x b = Some (b\<lparr>cb_mem := m\<rparr>)" "length m = ?c"
    "rotate ?f m = map Some (xs @ [x]) @ Some x # vs"
    using write_off [of ?f b "map Some (xs @ [x])" "Some y" vs q False x] snoc.prems by auto
  let ?b = "b\<lparr>cb_mem := m\<rparr>"
  obtain m' where "rerase_loop (cb_decrement b q) (cb_decrement ?b (cb_decrement b q)) ?b = Some (?f, ?b\<lparr>cb_mem := m'\<rparr>)"
    "length m' = ?c" "rotate ?f m' = Some (hd (xs @ [x])) # map Some xs @ Some x # vs"
    using snoc.IH [of ?b x "Some x # vs" "cb_decrement b q"] m snoc.prems(2) dec by auto
  then show ?case using ne rd m(1,2)
    by (subst rerase_loop.simps) (auto simp: hd_append split: if_splits intro!: exI [of _ m'])
qed

lemma rerase_ring:
  assumes r: "ring b xs rest" and i: "i < length xs"
  shows "becomes b (map_option snd (cb_rerase (it_at b i) b)) (take i xs @ drop (Suc i) xs)"
proof -
  let ?c = "cb_capacity b" and ?f = "m_first b" and ?p = "(m_first b + i) mod cb_capacity b"
  note cap = ring_capacity [OF r] and rd = ring_parts [OF r]
  have c: "0 < ?c" using cap i by auto
  then have f: "?f < ?c" using ring_first_lt [OF r] by simp
  define ys where "ys = drop (Suc i) xs"
  have xs: "xs = take i xs @ xs ! i # ys" using id_take_nth_drop [OF i] by (simp add: ys_def)
  have rp: "rotate ?f (cb_mem b) = map Some (take i xs @ [xs ! i]) @ map Some ys @ rest"
    using rd(1) by (subst (asm) xs) simp
  let ?h = "hd (take i xs @ [xs ! i])"
  obtain m where m: "rerase_loop ?p (cb_decrement b ?p) b = Some (?f, b\<lparr>cb_mem := m\<rparr>)" "length m = ?c"
    "rotate ?f m = Some ?h # map Some (take i xs) @ map Some ys @ rest"
    using rerase_loop_off [OF rp f, of ?p] i by auto
  have len: "length (?h # (take i xs @ ys)) = length xs" using i by (simp add: ys_def)
  have "ring (b\<lparr>cb_mem := m\<rparr>) (?h # (take i xs @ ys)) rest"
    unfolding ring_def len using m rd f c by simp
  from pop_front_ring [OF this] obtain b' rest' where
    b': "cb_pop_front (b\<lparr>cb_mem := m\<rparr>) = Some b'" "ring b' (take i xs @ ys) rest'" "cb_capacity b' = ?c" "cb_scalar b' = cb_scalar b"
    using m(2) by (auto elim!: becomesE)
  have "map_option snd (cb_rerase (it_at b i) b) = cb_pop_front (b\<lparr>cb_mem := m\<rparr>)"
    using m(1,2) i rd(3)
    by (auto simp: cb_rerase_def it_at_def cb_pop_front_def Let_def cb_empty_def cb_size_def split: option.splits bind_split)
  then show ?thesis using b' by (auto simp: ys_def intro: becomesI)
qed

subsection \<open>Ranges\<close>

lemma ring_read: "ring b (us @ y # vs) rest \<Longrightarrow> cb_read ((m_first b + length us) mod cb_capacity b) b = Some y"
  using read_off [of "m_first b" b "map Some us" "Some y" "map Some vs @ rest"] ring_parts(1) by fastforce

lemma ring_replace:
  assumes r: "ring b (us @ y # vs) rest"
  shows "\<exists>m. cb_replace ((m_first b + length us) mod cb_capacity b) z b = Some (b\<lparr>cb_mem := m\<rparr>)
    \<and> length m = cb_capacity b \<and> ring (b\<lparr>cb_mem := m\<rparr>) (us @ z # vs) rest"
proof -
  obtain m where m: "cb_replace ((m_first b + length us) mod cb_capacity b) z b = Some (b\<lparr>cb_mem := m\<rparr>)"
    "length m = cb_capacity b" "rotate (m_first b) m = map Some us @ Some z # map Some vs @ rest"
    using write_off [of "m_first b" b "map Some us" "Some y" "map Some vs @ rest" _ False z] ring_parts(1) [OF r] by auto
  then have "ring (b\<lparr>cb_mem := m\<rparr>) (us @ z # vs) rest" using r by (simp add: ring_def)
  with m show ?thesis by blast
qed

lemma it_at_mem [simp]: "length m = cb_capacity b \<Longrightarrow> it_at (b\<lparr>cb_mem := m\<rparr>) = it_at b"
  by (simp add: fun_eq_iff it_at_def)

lemma erase_move_loop_ring:
  assumes "ring b (us @ ys @ zs) rest" "ys \<noteq> []"
  shows "\<exists>m ws. erase_move_loop (it_at b (length us)) (it_at b (length us + length ys)) b
      = Some (it_at b (length us + length zs), b\<lparr>cb_mem := m\<rparr>)
    \<and> length m = cb_capacity b \<and> ring (b\<lparr>cb_mem := m\<rparr>) (us @ zs @ ws) rest \<and> length ws = length ys"
  using assms
proof (induction zs arbitrary: b us ys)
  case Nil
  then have "it_at b (length us + length ys) = None" using ring_parts(3) [OF Nil(1)] by (simp add: it_at_def)
  then show ?case using Nil ring_parts(5) [OF Nil(1)]
    by (subst erase_move_loop.simps) (auto intro!: exI [of _ "cb_mem b"])
next
  case (Cons z zs)
  then obtain y ys' where ys: "ys = y # ys'" by (cases ys) auto
  let ?c = "cb_capacity b" and ?i = "length us" and ?j = "length us + length ys"
  note r = Cons.prems(1)
  have sz: "m_size b = ?i + length ys + Suc (length zs)" using ring_parts(3) [OF r] by simp
  have p: "it_at b ?i = Some ((m_first b + ?i) mod ?c)" "it_at b ?j = Some ((m_first b + ?j) mod ?c)"
    using sz ys by (simp_all add: it_at_def)
  have nx: "it_next b (it_at b ?i) = Some (it_at b (Suc ?i))" "it_next b (it_at b ?j) = Some (it_at b (Suc ?j))"
    using next_at [OF r, of ?i] next_at [OF r, of ?j] ys by simp_all
  have rd: "cb_read ((m_first b + ?j) mod ?c) b = Some z"
    using ring_read [of b "us @ ys" z zs rest] r by (simp add: add.assoc)
  obtain m where m: "cb_replace ((m_first b + ?i) mod ?c) z b = Some (b\<lparr>cb_mem := m\<rparr>)" "length m = ?c"
    "ring (b\<lparr>cb_mem := m\<rparr>) (us @ z # ys' @ z # zs) rest"
    using ring_replace [of b us y "ys' @ z # zs" rest z] r ys by auto
  then have "ring (b\<lparr>cb_mem := m\<rparr>) ((us @ [z]) @ (ys' @ [z]) @ zs) rest" by simp
  from Cons.IH [OF this] obtain m' ws where m': "length m' = ?c" "length ws = length ys"
    "erase_move_loop (it_at b (Suc ?i)) (it_at b (Suc ?j)) (b\<lparr>cb_mem := m\<rparr>)
      = Some (it_at b (?i + length (z # zs)), b\<lparr>cb_mem := m'\<rparr>)" "ring (b\<lparr>cb_mem := m'\<rparr>) (us @ (z # zs) @ ws) rest"
    using m(2) ys by auto
  then show ?case using rd m(1) nx p
    by (subst erase_move_loop.simps) auto
qed

lemma pop_back_pointers:
  "cb_pop_back b = Some b' \<Longrightarrow> m_first b' = m_first b \<and> m_last b' = cb_decrement b (m_last b)"
  by (auto simp: cb_pop_back_def destroy_item_def Let_def split: if_splits)

lemma pop_front_pointers:
  "cb_pop_front b = Some b' \<Longrightarrow> m_first b' = cb_increment b (m_first b)"
  by (auto simp: cb_pop_front_def destroy_item_def cb_increment_def cb_capacity_def split: if_splits)

lemma erase_tail_loop_ring:
  assumes "ring b (us @ ws) rest" "ws \<noteq> []" "first = Some ((m_first b + length us) mod cb_capacity b)"
  shows "becomes b (erase_tail_loop first b) us"
  using assms
proof (induction ws arbitrary: b rest rule: rev_induct)
  case (snoc w ws)
  let ?c = "cb_capacity b" and ?f = "m_first b"
  have r: "ring b ((us @ ws) @ [w]) rest" using snoc.prems(1) by simp
  have c: "0 < ?c" "length us < ?c" "length (us @ ws) < ?c" using ring_capacity [OF r] by auto
  obtain b' rest' where b': "cb_pop_back b = Some b'" "ring b' (us @ ws) rest'" "cb_capacity b' = ?c" "cb_scalar b' = cb_scalar b"
    using pop_back_ring [OF r] by (rule becomesE)
  have fl: "m_first b' = ?f" "m_last b' = (?f + length (us @ ws)) mod ?c"
    using pop_back_pointers [OF b'(1)] ring_parts(2) [OF b'(2)] b'(3) by auto
  have ne: "Some (m_last b') \<noteq> first \<longleftrightarrow> ws \<noteq> []"
    using add_mod_inject [OF c(3,2), of ?f] snoc.prems(3) fl(2) by auto
  have "erase_tail_loop first b = (if Some (m_last b') \<noteq> first then erase_tail_loop first b' else Some b')"
    using b'(1) pop_back_pointers [OF b'(1)] ring_tests(2) [OF r]
    by (subst erase_tail_loop.simps) (auto simp: cb_pop_back_def Let_def split: bind_split_asm)
  then show ?case using ne b' snoc.IH [OF b'(2)] snoc.prems(3) fl(1) by (auto simp: becomes_def)
qed simp

lemma split_range: "i \<le> j \<Longrightarrow> xs = take i xs @ take (j - i) (drop i xs) @ drop j xs"
  by (metis append_take_drop_id drop_drop le_add_diff_inverse2)

lemma erase_range_ring:
  assumes r: "ring b xs rest" and ij: "i \<le> j" "j \<le> length xs"
  shows "becomes b (map_option snd (cb_erase_range (it_at b i) (it_at b j) b)) (take i xs @ drop j xs)"
proof -
  have nl: "\<not> it_less b (it_at b j) (it_at b i)" using linearize_at [OF r] ij by (simp add: it_less_def)
  show ?thesis
  proof (cases "i = j")
    case True
    then show ?thesis using nl r by (auto simp: cb_erase_range_def becomes_def)
  next
    case False
    define us ys zs where "us = take i xs" and "ys = take (j - i) (drop i xs)" and "zs = drop j xs"
    have xs: "xs = us @ ys @ zs" and len: "length us = i" "length ys = j - i"
      using ij split_range [OF ij(1), of xs] by (simp_all add: us_def ys_def zs_def)
    have r': "ring b (us @ ys @ zs) rest" "ys \<noteq> []" using r xs False len ij by auto
    obtain m ws where m: "erase_move_loop (it_at b i) (it_at b j) b = Some (it_at b (i + length zs), b\<lparr>cb_mem := m\<rparr>)"
      "length m = cb_capacity b" "ring (b\<lparr>cb_mem := m\<rparr>) ((us @ zs) @ ws) rest" "length ws = length ys"
      using erase_move_loop_ring [OF r'] len ij by auto
    have wne: "ws \<noteq> []" using m(4) r'(2) by auto
    have "m_size b = length xs" using ring_parts(3) [OF r] .
    then have "it_at b (i + length zs) = Some ((m_first b + length (us @ zs)) mod cb_capacity b)"
      using len ij False by (simp add: it_at_def zs_def)
    then have "becomes (b\<lparr>cb_mem := m\<rparr>) (erase_tail_loop (it_at b (i + length zs)) (b\<lparr>cb_mem := m\<rparr>)) (us @ zs)"
      using erase_tail_loop_ring [OF m(3) wne] m(2) by auto
    then obtain b' rest' where "erase_tail_loop (it_at b (i + length zs)) (b\<lparr>cb_mem := m\<rparr>) = Some b'"
      "ring b' (us @ zs) rest'" "cb_capacity b' = cb_capacity b" "cb_scalar b' = cb_scalar b"
      using m(2) by (auto elim!: becomesE)
    moreover have "it_at b i \<noteq> it_at b j" using at_inject [OF r] ij False by simp
    ultimately show ?thesis using nl m(1) by (auto simp: cb_erase_range_def us_def zs_def intro: becomesI)
  qed
qed

lemma rerase_move_loop_ring:
  assumes "ring b (us @ ys @ vs) rest" "ys \<noteq> []"
  shows "\<exists>m ws. rerase_move_loop ((m_first b + length us) mod cb_capacity b) ((m_first b + (length us + length ys)) mod cb_capacity b) b
      = Some ((m_first b + length ys) mod cb_capacity b, b\<lparr>cb_mem := m\<rparr>)
    \<and> length m = cb_capacity b \<and> ring (b\<lparr>cb_mem := m\<rparr>) (ws @ us @ vs) rest \<and> length ws = length ys"
  using assms
proof (induction us arbitrary: b ys vs rule: rev_induct)
  case Nil
  have "m_first b < cb_capacity b" using ring_first_lt [OF Nil(1)] ring_capacity [OF Nil(1)] Nil(2) by auto
  then show ?case using Nil ring_parts(5) [OF Nil(1)]
    by (subst rerase_move_loop.simps) (auto intro!: exI [of _ "cb_mem b"])
next
  case (snoc u us)
  then obtain y ys' where ys: "ys = ys' @ [y]" by (cases ys rule: rev_cases) auto
  let ?c = "cb_capacity b" and ?f = "m_first b"
  note r = snoc.prems(1)
  have c: "0 < ?c" "Suc (length us) < ?c" using ring_capacity [OF r] ys by auto
  have f: "?f < ?c" using ring_first_lt [OF r c(1)] .
  have "(?f + Suc (length us)) mod ?c \<noteq> (?f + 0) mod ?c" using c by (simp only: add_mod_inject)
  then have ne: "(?f + length (us @ [u])) mod ?c \<noteq> ?f" using f by simp
  have dec: "cb_decrement b ((?f + length (us @ [u])) mod ?c) = (?f + length us) mod ?c"
    "cb_decrement b ((?f + (length (us @ [u]) + length ys)) mod ?c) = (?f + length (us @ u # ys')) mod ?c"
    using decrement_off [OF c(1), of ?f "length us"] decrement_off [OF c(1), of ?f "length us + length ys"] ys by simp_all
  have rd: "cb_read ((?f + length us) mod ?c) b = Some u"
    using ring_read [of b us u "ys @ vs" rest] r by simp
  obtain m where m: "cb_replace ((?f + length (us @ u # ys')) mod ?c) u b = Some (b\<lparr>cb_mem := m\<rparr>)" "length m = ?c"
    "ring (b\<lparr>cb_mem := m\<rparr>) (us @ (u # ys') @ (u # vs)) rest"
    using ring_replace [of b "us @ u # ys'" y vs rest u] r ys by auto
  from snoc.IH [OF m(3)] obtain m' ws where m': "length m' = ?c" "length ws = length ys"
    "rerase_move_loop ((?f + length us) mod ?c) ((?f + length (us @ u # ys')) mod ?c) (b\<lparr>cb_mem := m\<rparr>)
      = Some ((?f + length ys) mod ?c, b\<lparr>cb_mem := m'\<rparr>)" "ring (b\<lparr>cb_mem := m'\<rparr>) (ws @ (us @ [u]) @ vs) rest"
    using m(2) ys by auto
  then show ?case using rd m(1) ne dec
    by (subst rerase_move_loop.simps) (auto simp: Let_def)
qed

lemma rerase_head_loop_ring:
  assumes "ring b (ws @ us) rest" "ws \<noteq> []" "p = (m_first b + length ws) mod cb_capacity b"
  shows "becomes b (rerase_head_loop p b) us"
  using assms
proof (induction ws arbitrary: b rest)
  case (Cons w ws)
  let ?c = "cb_capacity b" and ?f = "m_first b"
  have r: "ring b (w # (ws @ us)) rest" using Cons.prems(1) by simp
  have c: "0 < ?c" "length ws < ?c" using ring_capacity [OF r] by auto
  obtain b' rest' where b': "cb_pop_front b = Some b'" "ring b' (ws @ us) rest'" "cb_capacity b' = ?c" "cb_scalar b' = cb_scalar b"
    using pop_front_ring [OF r] by (rule becomesE)
  have f': "m_first b' = (?f + 1) mod ?c"
    using pop_front_pointers [OF b'(1)] ring_first_lt [OF r c(1)] by (simp add: increment_lt)
  have "(?f + 1 + 0) mod ?c = (?f + 1 + length ws) mod ?c \<longleftrightarrow> 0 = length ws" using c by (simp only: add_mod_inject)
  then have ne: "m_first b' \<noteq> p \<longleftrightarrow> ws \<noteq> []" using Cons.prems(3) f' by auto
  have p: "p = (m_first b' + length ws) mod cb_capacity b'"
    unfolding f' b'(3) off_off using Cons.prems(3) by simp
  have "rerase_head_loop p b = (if m_first b' \<noteq> p then rerase_head_loop p b' else Some b')"
    using b'(1) ring_tests(2) [OF r]
    by (subst rerase_head_loop.simps) (auto simp: cb_pop_front_def Let_def split: bind_split_asm)
  then show ?case using ne b' Cons.IH [OF b'(2) _ p] by (auto simp: becomes_def)
qed simp

lemma rerase_range_ring:
  assumes r: "ring b xs rest" and ij: "i \<le> j" "j \<le> length xs"
  shows "becomes b (map_option snd (cb_rerase_range (it_at b i) (it_at b j) b)) (take i xs @ drop j xs)"
proof -
  have nl: "\<not> it_less b (it_at b j) (it_at b i)" using linearize_at [OF r] ij by (simp add: it_less_def)
  show ?thesis
  proof (cases "i = j")
    case True
    then show ?thesis using nl r by (auto simp: cb_rerase_range_def becomes_def)
  next
    case False
    define us ys zs where "us = take i xs" and "ys = take (j - i) (drop i xs)" and "zs = drop j xs"
    have xs: "xs = us @ ys @ zs" and len: "length us = i" "length ys = j - i"
      using ij split_range [OF ij(1), of xs] by (simp_all add: us_def ys_def zs_def)
    have r': "ring b (us @ ys @ zs) rest" "ys \<noteq> []" using r xs False len ij by auto
    let ?p = "(m_first b + length ys) mod cb_capacity b"
    have its: "it_at b i = Some ((m_first b + i) mod cb_capacity b)" "map_pointer b (it_at b j) = (m_first b + j) mod cb_capacity b"
      using False ij ring_parts(2,3) [OF r] by (auto simp: it_at_def map_pointer_def)
    obtain m ws where m: "rerase_move_loop ((m_first b + i) mod cb_capacity b) ((m_first b + j) mod cb_capacity b) b
        = Some (?p, b\<lparr>cb_mem := m\<rparr>)"
      "length m = cb_capacity b" "ring (b\<lparr>cb_mem := m\<rparr>) (ws @ (us @ zs)) rest" "length ws = length ys"
      using rerase_move_loop_ring [OF r'] len ij by auto
    have wne: "ws \<noteq> []" using m(4) r'(2) by auto
    have "becomes (b\<lparr>cb_mem := m\<rparr>) (rerase_head_loop ?p (b\<lparr>cb_mem := m\<rparr>)) (us @ zs)"
      using rerase_head_loop_ring [OF m(3) wne, of ?p] m(2,4) by auto
    then obtain b' rest' where "rerase_head_loop ?p (b\<lparr>cb_mem := m\<rparr>) = Some b'"
      "ring b' (us @ zs) rest'" "cb_capacity b' = cb_capacity b" "cb_scalar b' = cb_scalar b"
      using m(2) by (auto elim!: becomesE)
    moreover have "it_at b i \<noteq> it_at b j" using at_inject [OF r] ij False by simp
    ultimately show ?thesis using nl m(1) its
      by (auto simp: cb_rerase_range_def us_def zs_def Let_def intro: becomesI)
  qed
qed

lemma erase_begin_ring:
  assumes r: "ring b xs rest" and n: "n \<le> length xs"
  shows "becomes b (erase_begin n b) (drop n xs)"
proof (cases "cb_scalar b")
  case True
  note rd = ring_parts [OF r] and cap = ring_capacity [OF r]
  have "rotate (m_first b) (cb_mem b) = map Some (take n xs) @ map Some (drop n xs) @ rest"
    using rd(1) by (simp flip: map_append append_assoc)
  then have sh: "rotate ((m_first b + n) mod cb_capacity b) (cb_mem b) = map Some (drop n xs) @ rest @ map Some (take n xs)"
    using rotate_shift [of "m_first b" "cb_mem b" "map Some (take n xs)"] rd(5) n by simp
  have ad: "cb_add b (m_first b) n = (m_first b + n) mod cb_capacity b"
  proof (cases "cb_capacity b = 0")
    case True
    then show ?thesis using cap n rd(7) by (simp add: cb_add_def)
  next
    case False
    then show ?thesis using add_off [of b n "m_first b" 0] rd(6) cap n by auto
  qed
  have "((m_first b + n) mod cb_capacity b + length (drop n xs)) mod cb_capacity b = m_last b"
    unfolding off_off using rd(2) n by simp
  then have "ring (b\<lparr>m_first := cb_add b (m_first b) n, m_size := m_size b - n\<rparr>) (drop n xs) (rest @ map Some (take n xs))"
    using sh True rd cap n by (auto simp: ring_def ad)
  then show ?thesis by (rule becomesI [rotated]) (use True n in \<open>auto simp: erase_begin_def ring_tests [OF r]\<close>)
next
  case False
  then show ?thesis using rerase_range_ring [OF r, of 0 n] n begin_at [OF r] add_at [OF r, of 0 n]
    by (auto simp: erase_begin_def ring_tests [OF r] Let_def elim!: becomesE intro: becomesI)
qed

lemma erase_end_ring:
  assumes r: "ring b xs rest" and n: "n \<le> length xs"
  shows "becomes b (erase_end n b) (take (length xs - n) xs)"
proof (cases "cb_scalar b")
  case True
  note rd = ring_parts [OF r] and cap = ring_capacity [OF r]
  let ?k = "length xs - n"
  have "rotate (m_first b) (cb_mem b) = map Some (take ?k xs) @ map Some (drop ?k xs) @ rest"
    using rd(1) by (simp flip: map_append append_assoc)
  moreover have "cb_sub b (m_last b) n = (m_first b + ?k) mod cb_capacity b"
    using sub_off [of b n "m_first b" ?k] rd(2,7) cap n by (cases "cb_capacity b = 0") (auto simp: cb_sub_def)
  ultimately have "ring (b\<lparr>m_last := cb_sub b (m_last b) n, m_size := m_size b - n\<rparr>) (take ?k xs) (map Some (drop ?k xs) @ rest)"
    using True rd cap n by (auto simp: ring_def)
  then show ?thesis by (rule becomesI [rotated]) (use True n in \<open>auto simp: erase_end_def ring_tests [OF r]\<close>)
next
  case False
  then show ?thesis using erase_range_ring [OF r, of "length xs - n" "length xs"] n end_at [OF r]
      sub_at [OF r, of n "length xs"]
    by (auto simp: erase_end_def ring_tests [OF r] Let_def elim!: becomesE intro: becomesI)
qed

end
