(* ===== verification/Circular_Capacity.thy ===== *)
theory Circular_Capacity
  imports Circular_Erase
begin

text \<open>
  Insertion of several elements, construction, assignment, and the operations that change the
  capacity.
\<close>

subsection \<open>Filling raw memory\<close>

lemma raw_construct_at:
  "sc \<or> c = None \<Longrightarrow> raw_construct sc (length us) x (us @ c # vs) = Some (us @ Some x # vs)"
  by (auto simp: raw_construct_def)

lemma set_replicate_subset [simp]: "set (replicate n x) \<subseteq> {x}"
  by (induction n) auto

lemma uninitialized_copy_ok:
  assumes "length xs \<le> length vs" "sc \<or> set vs \<subseteq> {None}"
  shows "uninitialized_copy sc xs (length us) (us @ vs)
    = Some (length us + length xs, us @ map Some xs @ drop (length xs) vs)"
  using assms
proof (induction xs arbitrary: us vs)
  case (Cons x xs)
  then obtain v vs' where vs: "vs = v # vs'" by (cases vs) auto
  then have "raw_construct sc (length us) x (us @ vs) = Some ((us @ [Some x]) @ vs')"
    using raw_construct_at [of sc v us x vs'] Cons.prems(2) by auto
  moreover have "sc \<or> set vs' \<subseteq> {None}" using Cons.prems(2) vs by auto
  ultimately show ?case using Cons.IH [of vs' "us @ [Some x]"] Cons.prems(1) vs by simp
qed simp

lemma uninitialized_fill_is_copy:
  "uninitialized_fill_n sc n item d mem = map_option snd (uninitialized_copy sc (replicate n item) d mem)"
  by (induction n arbitrary: d mem) (auto split: bind_split)

lemma uninitialized_move_ring:
  assumes r: "ring b xs rest" and ij: "i \<le> j" "j \<le> length xs" and "j - i \<le> length vs" "cb_scalar b \<or> set vs \<subseteq> {None}"
  shows "uninitialized_move b (it_at b i) (it_at b j) (length us) (us @ vs)
    = Some (length us + (j - i), us @ map Some (take (j - i) (drop i xs)) @ drop (j - i) vs)"
  using ij assms(4,5)
proof (induction "j - i" arbitrary: i us vs)
  case 0
  then show ?case by (subst uninitialized_move.simps) simp
next
  case (Suc k)
  then have ij: "i < j" "i < length xs" by auto
  obtain v vs' where vs: "vs = v # vs'" using Suc.prems(3) ij by (cases vs) auto
  have "cb_read ((m_first b + i) mod cb_capacity b) b = Some (xs ! i)"
    using ring_read [of b "take i xs" "xs ! i" "drop (Suc i) xs" rest] r ij id_take_nth_drop [of i xs] by simp
  moreover have "it_at b i = Some ((m_first b + i) mod cb_capacity b)"
    using ij ring_parts(3) [OF r] by (simp add: it_at_def)
  moreover have "raw_construct (cb_scalar b) (length us) (xs ! i) (us @ vs) = Some ((us @ [Some (xs ! i)]) @ vs')"
    using raw_construct_at [of "cb_scalar b" v us "xs ! i" vs'] Suc.prems(4) vs by auto
  moreover have "it_at b i \<noteq> it_at b j" using at_inject [OF r] ij Suc.prems by simp
  moreover have "uninitialized_move b (it_at b (Suc i)) (it_at b j) (length (us @ [Some (xs ! i)])) ((us @ [Some (xs ! i)]) @ vs')
     = Some (length us + (j - i), us @ map Some (take (j - i) (drop i xs)) @ drop (j - i) vs)"
  proof -
    have k: "k = j - Suc i" "j - i = Suc (j - Suc i)" using Suc.hyps(2) ij by auto
    have "cb_scalar b \<or> set vs' \<subseteq> {None}" using Suc.prems(4) vs by auto
    then show ?thesis
      using Suc.hyps(1) [OF k(1), of vs' "us @ [Some (xs ! i)]"] Suc.prems(2,3) vs ij(1)
      by (simp add: k(2) Cons_nth_drop_Suc [OF ij(2), symmetric])
  qed
  ultimately show ?case using next_at [OF r ij(2)] by (subst uninitialized_move.simps) simp
qed

text \<open>A buffer whose elements start at \<^verbatim>\<open>m_buff\<close>.\<close>

lemma linear_ring:
  assumes "cb_mem b = map Some xs @ rest" "m_first b = 0" "m_size b = length xs" "\<not> cb_scalar b \<Longrightarrow> set rest \<subseteq> {None}"
    and "m_last b = (if length xs = cb_capacity b then 0 else length xs)"
  shows "ring b xs rest"
  using assms by (auto simp: ring_def cb_capacity_def)

text \<open>Results of the operations that may throw.\<close>

definition yields :: "nat \<Rightarrow> bool \<Rightarrow> cb_error + 'a circular_buffer \<Rightarrow> 'a list \<Rightarrow> bool" where
  "yields c sc r ys \<longleftrightarrow> (\<exists>b' rest. r = Inr b' \<and> ring b' ys rest \<and> cb_capacity b' = c \<and> cb_scalar b' = sc)"

lemma yieldsI: "ring b' ys rest \<Longrightarrow> r = Inr b' \<Longrightarrow> cb_capacity b' = c \<Longrightarrow> cb_scalar b' = sc \<Longrightarrow> yields c sc r ys"
  by (auto simp: yields_def)

lemma defined_simps [simp]: "defined None = Inl UndefinedBehaviour" "defined (Some s) = Inr s"
  by (simp_all add: defined_def)

lemma becomes_yields: "becomes b r ys \<Longrightarrow> yields (cb_capacity b) (cb_scalar b) (defined r) ys"
  by (auto simp: yields_def elim!: becomesE)

lemma allocate_simps [simp]:
  "n \<le> mx \<Longrightarrow> cb_allocate mx n = Inr (replicate n None)" "mx < n \<Longrightarrow> cb_allocate mx n = Inl LengthError"
  by (simp_all add: cb_allocate_def)

lemma reset_ring:
  assumes r: "ring b xs rest" and "buff = map Some ys @ vs" "l = length ys" "\<not> cb_scalar b \<Longrightarrow> set vs \<subseteq> {None}"
  shows "\<exists>b'. cb_reset buff l b = Some b' \<and> ring b' ys vs \<and> cb_capacity b' = length buff \<and> cb_scalar b' = cb_scalar b"
proof -
  obtain m where m: "destroy_content b = Some (b\<lparr>cb_mem := m, m_first := m_last b\<rparr>)"
    using destroy_content_ring [OF r] by blast
  let ?b = "b\<lparr>cb_mem := buff, m_first := 0, m_size := l, m_last := (if l = length buff then 0 else l)\<rparr>"
  have "cb_reset buff l b = Some ?b" using m by (simp add: cb_reset_def)
  moreover have "ring ?b ys vs" using assms by (intro linear_ring) auto
  ultimately show ?thesis by simp
qed

lemma set_capacity_ring:
  assumes r: "ring b xs rest"
  shows "if n = cb_capacity b \<or> n \<le> mx then yields n (cb_scalar b) (set_capacity mx n b) (take n xs)
    else set_capacity mx n b = Inl LengthError"
proof (cases "n = cb_capacity b")
  case True
  then show ?thesis using r ring_capacity [OF r] by (auto simp: set_capacity_def yields_def)
next
  case False
  show ?thesis
  proof (cases "n \<le> mx")
    case True
    let ?k = "min n (length xs)"
    have mv: "uninitialized_move b (it_at b 0) (it_at b ?k) 0 (replicate n None)
       = Some (?k, map Some (take ?k xs) @ replicate (n - ?k) None)"
      using uninitialized_move_ring [OF r, of 0 ?k "replicate n None" "[]"] by auto
    obtain b' where b': "cb_reset (map Some (take ?k xs) @ replicate (n - ?k) None) ?k b = Some b'"
      "ring b' (take ?k xs) (replicate (n - ?k) None)" "cb_capacity b' = n" "cb_scalar b' = cb_scalar b"
      using reset_ring [OF r, of "map Some (take ?k xs) @ replicate (n - ?k) None" "take ?k xs" "replicate (n - ?k) None" ?k]
      by auto
    have "set_capacity mx n b = Inr b'"
      using False True mv b'(1) begin_at [OF r] add_at [OF r, of 0 ?k]
      by (simp add: set_capacity_def ring_tests [OF r] Let_def)
    moreover have "take ?k xs = take n xs" by (simp add: min_def)
    ultimately show ?thesis using b' True by (auto simp: yields_def)
  qed (use False in \<open>simp add: set_capacity_def\<close>)
qed

lemma rset_capacity_ring:
  assumes r: "ring b xs rest"
  shows "if n = cb_capacity b \<or> n \<le> mx then yields n (cb_scalar b) (rset_capacity mx n b) (drop (length xs - n) xs)
    else rset_capacity mx n b = Inl LengthError"
proof (cases "n = cb_capacity b")
  case True
  then show ?thesis using r ring_capacity [OF r] by (auto simp: rset_capacity_def yields_def)
next
  case False
  show ?thesis
  proof (cases "n \<le> mx")
    case True
    let ?k = "min n (length xs)" and ?i = "length xs - min n (length xs)"
    have mv: "uninitialized_move b (it_at b ?i) (it_at b (length xs)) 0 (replicate n None)
       = Some (?k, map Some (drop ?i xs) @ replicate (n - ?k) None)"
      using uninitialized_move_ring [OF r, of ?i "length xs" "replicate n None" "[]"] by auto
    obtain b' where b': "cb_reset (map Some (drop ?i xs) @ replicate (n - ?k) None) ?k b = Some b'"
      "ring b' (drop ?i xs) (replicate (n - ?k) None)" "cb_capacity b' = n" "cb_scalar b' = cb_scalar b"
      using reset_ring [OF r, of "map Some (drop ?i xs) @ replicate (n - ?k) None" "drop ?i xs" "replicate (n - ?k) None" ?k]
      by auto
    have "rset_capacity mx n b = Inr b'"
      using False True mv b'(1) end_at [OF r] sub_at [OF r, of ?k "length xs"]
      by (simp add: rset_capacity_def ring_tests [OF r] Let_def)
    moreover have "drop ?i xs = drop (length xs - n) xs" by (simp add: min_def)
    ultimately show ?thesis using b' True by (auto simp: yields_def)
  qed (use False in \<open>simp add: rset_capacity_def\<close>)
qed

subsection \<open>Construction and assignment\<close>

lemma of_range_ring:
  assumes "c \<le> mx"
  shows "yields c sc (cb_of_range sc mx c items) (drop (length items - c) items)"
proof -
  let ?ys = "drop (length items - c) items"
  let ?b = "\<lparr>cb_scalar = sc, cb_mem = map Some ?ys @ replicate (c - length ?ys) None, m_first = 0,
      m_last = (if length ?ys = c then 0 else length ?ys), m_size = length ?ys\<rparr>"
  have "uninitialized_copy sc ?ys 0 (replicate c None)
      = Some (length ?ys, map Some ?ys @ replicate (c - length ?ys) None)"
    using uninitialized_copy_ok [of ?ys "replicate c None" sc "[]"] by auto
  moreover have "(if length items > c then drop (length items - c) items else items) = ?ys"
    "(if length items > c then c else length items) = length ?ys" by auto
  ultimately have eq: "cb_of_range sc mx c items = Inr ?b" using assms by (simp only: cb_of_range_def allocate_simps sum.case Let_def) simp
  have c: "cb_capacity ?b = c" by (auto simp: cb_capacity_def)
  have "ring ?b ?ys (replicate (c - length ?ys) None)"
    by (rule linear_ring) (auto simp: c simp del: length_drop)
  then show ?thesis by (rule yieldsI) (use eq c in simp_all)
qed

lemma filled_is_range: "n \<le> c \<Longrightarrow> cb_filled sc mx c n item = cb_of_range sc mx c (replicate n item)"
  by (cases "cb_allocate mx c") (auto simp: cb_filled_def cb_of_range_def uninitialized_fill_is_copy Let_def cb_allocate_def
      uninitialized_copy_ok [of "replicate n item" "replicate c None" sc "[]", simplified] split: if_splits)

lemma copy_ring:
  assumes r: "ring b xs rest" and mx: "cb_capacity b \<le> mx"
  shows "yields (cb_capacity b) (cb_scalar b) (cb_copy mx b) xs"
    and "ring b2 zs rest2 \<Longrightarrow> yields (cb_capacity b) (cb_scalar b2) (cb_assign_copy mx b b2) xs"
proof -
  let ?c = "cb_capacity b" and ?n = "length xs"
  let ?m = "map Some xs @ replicate (?c - ?n) None"
  have len: "?n \<le> ?c" using ring_capacity [OF r] by simp
  have mv: "uninitialized_move b (cb_begin b) (cb_end b) 0 (replicate ?c None) = Some (?n, ?m)"
    using uninitialized_move_ring [OF r, of 0 ?n "replicate ?c None" "[]"] begin_at [OF r] end_at [OF r] len by auto
  let ?b = "\<lparr>cb_scalar = cb_scalar b, cb_mem = ?m, m_first = 0, m_last = (if ?n = ?c then 0 else ?n), m_size = ?n\<rparr>"
  have eq: "cb_copy mx b = Inr ?b" using mv mx by (simp add: cb_copy_def ring_tests [OF r])
  have c: "cb_capacity ?b = ?c" using len by (simp add: cb_capacity_def)
  have "ring ?b xs (replicate (?c - ?n) None)" by (rule linear_ring) (auto simp: c)
  then show "yields ?c (cb_scalar b) (cb_copy mx b) xs" by (rule yieldsI) (use eq c in simp_all)
  assume r2: "ring b2 zs rest2"
  obtain b' where b': "cb_reset ?m ?n b2 = Some b'" "ring b' xs (replicate (?c - ?n) None)"
    "cb_capacity b' = ?c" "cb_scalar b' = cb_scalar b2"
    using reset_ring [OF r2, of ?m xs "replicate (?c - ?n) None" ?n] len by auto
  then show "yields ?c (cb_scalar b2) (cb_assign_copy mx b b2) xs"
    using mv mx by (auto simp: cb_assign_copy_def yields_def)
qed

lemma assign_n_ring:
  assumes r: "ring b xs rest" and n: "length ys \<le> c"
    and f: "\<And>mem. length mem = c \<Longrightarrow> cb_scalar b \<or> set mem \<subseteq> {None} \<Longrightarrow> f mem = Some (map Some ys @ drop (length ys) mem)"
  shows "if c = cb_capacity b \<or> c \<le> mx then yields c (cb_scalar b) (cb_assign_n mx c (length ys) f b) ys
    else cb_assign_n mx c (length ys) f b = Inl LengthError"
proof -
  obtain m where m: "destroy_content b = Some (b\<lparr>cb_mem := m, m_first := m_last b\<rparr>)" "length m = cb_capacity b"
    "\<not> cb_scalar b \<longrightarrow> set m \<subseteq> {None}"
    using destroy_content_ring [OF r] by blast
  let ?b = "\<lambda>mem. b\<lparr>cb_mem := map Some ys @ drop (length ys) mem, m_first := 0, m_size := length ys, m_last := cb_add (b\<lparr>cb_mem := map Some ys @ drop (length ys) mem\<rparr>) 0 (length ys)\<rparr>"
  have y: "yields c (cb_scalar b) (Inr (?b mem)) ys" if mem: "length mem = c" "\<not> cb_scalar b \<longrightarrow> set mem \<subseteq> {None}" for mem
  proof (rule yieldsI [OF _ refl])
    show "ring (?b mem) ys (drop (length ys) mem)"
      using mem n by (intro linear_ring) (auto simp: cb_add_def dest: in_set_dropD)
  qed (use mem n in auto)
  show ?thesis
  proof (cases "c = cb_capacity b")
    case True
    then have "cb_assign_n mx c (length ys) f b = Inr (?b m)"
      using m f [of m] by (auto simp: cb_assign_n_def Let_def cb_add_def)
    then show ?thesis using y [of m] m True by simp
  next
    case False
    show ?thesis
    proof (cases "c \<le> mx")
      case True
      then have "cb_assign_n mx c (length ys) f b = Inr (?b (replicate c None))"
        using False m f [of "replicate c None"] by (auto simp: cb_assign_n_def Let_def cb_add_def)
      then show ?thesis using y [of "replicate c None"] True by simp
    qed (use False in \<open>simp add: cb_assign_n_def Let_def\<close>)
  qed
qed

lemma assign_range_ring:
  assumes r: "ring b xs rest"
  shows "if c = cb_capacity b \<or> c \<le> mx then yields c (cb_scalar b) (cb_assign_range mx c items b) (drop (length items - c) items)
    else cb_assign_range mx c items b = Inl LengthError"
proof -
  let ?ys = "drop (length items - c) items"
  have eq: "cb_assign_range mx c items b
      = cb_assign_n mx c (length ?ys) (\<lambda>mem. map_option snd (uninitialized_copy (cb_scalar b) ?ys 0 mem)) b"
    by (auto simp: cb_assign_range_def Let_def)
  show ?thesis unfolding eq
    by (rule assign_n_ring [OF r]) (use uninitialized_copy_ok [of ?ys _ "cb_scalar b" "[]"] in auto)
qed

lemma assign_count_is_range:
  "n \<le> c \<Longrightarrow> cb_assign_count mx c n item b = cb_assign_range mx c (replicate n item) b"
  by (auto simp: cb_assign_count_def cb_assign_range_def uninitialized_fill_is_copy [abs_def] Let_def)

subsection \<open>Rotation and comparison\<close>

lemma rotate_front_loop_ring:
  assumes "ring b (us @ vs) rest" "rest \<noteq> []"
  shows "becomes b (rotate_front_loop (length us) b) (vs @ us)"
  using assms
proof (induction us arbitrary: b vs rest)
  case (Cons u us)
  have r: "ring b (u # (us @ vs)) rest" using Cons.prems(1) by simp
  have cap: "length (us @ vs) + 2 \<le> cb_capacity b" using ring_capacity [OF r] Cons.prems(2) by (cases rest) auto
  obtain b1 rest1 where b1: "cb_push_back u b = Some b1" "ring b1 (u # (us @ vs @ [u])) rest1"
    "cb_capacity b1 = cb_capacity b" "cb_scalar b1 = cb_scalar b"
    using push_back_ring [OF r, of u] cap by (auto elim!: becomesE)
  obtain b2 rest2 where b2: "cb_pop_front b1 = Some b2" "ring b2 (us @ vs @ [u]) rest2"
    "cb_capacity b2 = cb_capacity b" "cb_scalar b2 = cb_scalar b"
    using pop_front_ring [OF b1(2)] b1(3,4) by (auto elim!: becomesE)
  have "rest2 \<noteq> []" using ring_capacity [OF b2(2)] b2(3) cap by auto
  then have "becomes b2 (rotate_front_loop (length us) b2) ((vs @ [u]) @ us)"
    using Cons.IH [of b2 "vs @ [u]" rest2] b2(2) by simp
  then show ?case using front_ring [OF r] b1 b2 by (auto elim!: becomesE intro: becomesI)
qed (auto simp: becomes_def)

lemma rotate_back_loop_ring:
  assumes "ring b (us @ vs) rest" "rest \<noteq> []"
  shows "becomes b (rotate_back_loop (length vs) b) (vs @ us)"
  using assms
proof (induction vs arbitrary: b us rest rule: rev_induct)
  case (snoc v vs)
  have r: "ring b ((us @ vs) @ [v]) rest" using snoc.prems(1) by simp
  have cap: "length (us @ vs) + 2 \<le> cb_capacity b" using ring_capacity [OF r] snoc.prems(2) by (cases rest) auto
  obtain b1 rest1 where b1: "cb_push_front v b = Some b1" "ring b1 ((v # us @ vs) @ [v]) rest1"
    "cb_capacity b1 = cb_capacity b" "cb_scalar b1 = cb_scalar b"
    using push_front_ring [OF r, of v] cap by (auto elim!: becomesE)
  obtain b2 rest2 where b2: "cb_pop_back b1 = Some b2" "ring b2 (v # us @ vs) rest2"
    "cb_capacity b2 = cb_capacity b" "cb_scalar b2 = cb_scalar b"
    using pop_back_ring [OF b1(2)] b1(3,4) by (auto elim!: becomesE)
  have "rest2 \<noteq> []" using ring_capacity [OF b2(2)] b2(3) cap by auto
  then have "becomes b2 (rotate_back_loop (length vs) b2) (vs @ v # us)"
    using snoc.IH [of b2 "v # us" rest2] b2(2) by simp
  then show ?case using back_ring [OF r] b1 b2 by (auto elim!: becomesE intro: becomesI)
qed (auto simp: becomes_def)

lemma rotate_ring:
  assumes r: "ring b xs rest" and i: "i < length xs"
  shows "becomes b (cb_rotate (it_at b i) b) (drop i xs @ take i xs)"
proof (cases rest)
  case Nil
  note rd = ring_parts [OF r] and cap = ring_capacity [OF r]
  let ?p = "(m_first b + i) mod cb_capacity b"
  have "rotate ?p (cb_mem b) = map Some (drop i xs @ take i xs) @ []"
    using rotate_shift [of "m_first b" "cb_mem b" "map Some (take i xs)" "map Some (drop i xs)"] rd(1,5) i Nil
    by (simp flip: map_append)
  moreover have len: "length (drop i xs @ take i xs) = cb_capacity b" using i cap Nil by simp
  ultimately have "ring (b\<lparr>m_first := ?p, m_last := ?p\<rparr>) (drop i xs @ take i xs) []"
    unfolding ring_def len using rd cap Nil i by auto
  then show ?thesis
    by (rule becomesI [rotated]) (use i Nil rd(3) in \<open>auto simp: cb_rotate_def it_at_def ring_tests [OF r]\<close>)
next
  case (Cons d rest')
  have it: "it_at b i = Some ((m_first b + i) mod cb_capacity b)" using i ring_parts(3) [OF r] by (simp add: it_at_def)
  have d: "it_diff b (cb_end b) (it_at b i) = int (length xs - i)" "it_diff b (it_at b i) (cb_begin b) = int i"
    using diff_at [OF r, of "length xs" i] diff_at [OF r, of i 0] end_at [OF r] begin_at [OF r] i by auto
  have "becomes b (rotate_front_loop i b) (drop i xs @ take i xs)"
    using rotate_front_loop_ring [of b "take i xs" "drop i xs" rest] r i Cons by simp
  moreover have "becomes b (rotate_back_loop (length xs - i) b) (drop i xs @ take i xs)"
    using rotate_back_loop_ring [of b "take i xs" "drop i xs" rest] r i Cons by simp
  ultimately show ?thesis using Cons d unfolding cb_rotate_def it by (simp add: ring_tests [OF r] Let_def)
qed

lemma contents_from_ring:
  "ring b xs rest \<Longrightarrow> i \<le> length xs \<Longrightarrow> cb_contents_from (it_at b i) b = Some (drop i xs)"
proof (induction "length xs - i" arbitrary: i)
  case 0
  then show ?case using ring_parts(3) [OF 0(2)]
    by (subst cb_contents_from.simps) (simp add: it_at_def)
next
  case (Suc k)
  then have i: "i < length xs" by simp
  have "cb_read ((m_first b + i) mod cb_capacity b) b = Some (xs ! i)"
    using ring_read [of b "take i xs" "xs ! i" "drop (Suc i) xs" rest] Suc.prems(1) i id_take_nth_drop [of i xs] by simp
  moreover have "it_at b i = Some ((m_first b + i) mod cb_capacity b)"
    using i ring_parts(3) [OF Suc.prems(1)] by (simp add: it_at_def)
  moreover have "cb_contents_from (it_at b (Suc i)) b = Some (drop (Suc i) xs)"
    using Suc.hyps(1) [of "Suc i"] Suc.hyps(2) Suc.prems i by simp
  ultimately show ?case using next_at [OF Suc.prems(1) i] Cons_nth_drop_Suc [OF i]
    by (subst cb_contents_from.simps) simp
qed

lemma compare_ring:
  assumes "ring a xs rest" "ring b ys rest'"
  shows "cb_eq a b = Some (xs = ys)" and "cb_less (a :: 'a::linorder circular_buffer) b = Some (lexicographical_compare xs ys)"
  using contents_from_ring [OF assms(1), of 0] contents_from_ring [OF assms(2), of 0] begin_at [OF assms(1)] begin_at [OF assms(2)]
  by (auto simp: cb_eq_def cb_less_def ring_tests [OF assms(1)] ring_tests [OF assms(2)])

end
