(* ===== verification/Circular_Multi.thy ===== *)
theory Circular_Multi
  imports Circular_Capacity
begin

text \<open>
  Insertion of several elements at once. \<^verbatim>\<open>is_uninitialized\<close> overlooks the free slots below
  \<^verbatim>\<open>m_first\<close> when the elements do not wrap around, so for types with constructors these operations are
  defined under a condition on where the new elements fall.
\<close>

subsection \<open>Writing a run of slots\<close>

fun write_items :: "bool list \<Rightarrow> 'a list \<Rightarrow> nat \<Rightarrow> 'a circular_buffer \<Rightarrow> 'a circular_buffer option" where
  "write_items (k # ks) (x # xs) p b = do {
     b1 \<leftarrow> construct_or_replace k p x b;
     write_items ks xs (cb_increment b p) b1 }"
| "write_items _ _ p b = Some b"

lemma write_items_off:
  assumes "rotate p (cb_mem b) = us @ vs" "length us = length xs" "length ks = length xs"
    and "cb_scalar b \<or> list_all2 (\<lambda>k c. k \<longleftrightarrow> c = None) ks us" and "p < cb_capacity b"
  shows "\<exists>m. write_items ks xs p b = Some (b\<lparr>cb_mem := m\<rparr>) \<and> length m = cb_capacity b \<and> rotate p m = map Some xs @ vs"
  using assms
proof (induction xs arbitrary: ks us vs p b)
  case Nil
  then show ?case by (auto simp: cb_capacity_def intro!: exI [of _ "cb_mem b"])
next
  case (Cons x xs)
  then obtain k ks' c us' where ks: "ks = k # ks'" and us: "us = c # us'" by (cases ks; cases us) auto
  let ?c = "cb_capacity b"
  have c: "0 < ?c" using Cons.prems(5) by simp
  obtain m where m: "construct_or_replace k p x b = Some (b\<lparr>cb_mem := m\<rparr>)" "length m = ?c" "rotate p m = [Some x] @ us' @ vs"
    using write_off [of p b "[]" c "us' @ vs" p k x] Cons.prems ks us by auto
  let ?p = "(p + 1) mod ?c"
  have sh: "rotate ?p m = us' @ (vs @ [Some x])" using rotate_shift [OF m(3)] m(2) by simp
  from Cons.IH [of ?p "b\<lparr>cb_mem := m\<rparr>" us' "vs @ [Some x]" ks']
  obtain m' where m': "write_items ks' xs ?p (b\<lparr>cb_mem := m\<rparr>) = Some (b\<lparr>cb_mem := m'\<rparr>)" "length m' = ?c"
    "rotate ?p m' = map Some xs @ vs @ [Some x]"
    using sh Cons.prems ks us m(2) c by auto
  have "rotate p m' = Some x # map Some xs @ vs"
    using rotate_back [of p 1 m' "map Some xs @ vs" "[Some x]"] m' Cons.prems(5) by simp
  then show ?case using m m' Cons.prems(5) ks by (auto simp: increment_lt)
qed

lemma append_items_is_write:
  "append_items_loop xs ii construct p b = write_items (map (\<lambda>k. k < construct) [ii..<ii + length xs]) xs p b"
proof (induction xs arbitrary: ii p b)
  case (Cons x xs)
  have "[ii..<ii + length (x # xs)] = ii # [Suc ii..<Suc ii + length xs]"
    by (simp add: upt_conv_Cons del: upt_Suc)
  moreover have "append_items_loop xs (Suc ii) construct q = write_items (map (\<lambda>k. k < construct) [Suc ii..<Suc ii + length xs]) xs q" for q
    using Cons.IH by (intro ext)
  ultimately show ?case by (simp add: construct_or_replace_def del: upt_Suc)
qed simp

lemma prepend_items_is_write:
  "prepend_items_loop xs construct p b = write_items (map (\<lambda>k. k \<le> construct) (rev [1..<length xs + 1])) xs p b"
proof (induction xs arbitrary: p b)
  case (Cons x xs)
  let ?F = "map (\<lambda>k. k \<le> construct) (rev [1..<length xs + 1])"
  have eq: "map (\<lambda>k. k \<le> construct) (rev [1..<length (x # xs) + 1]) = (length (x # xs) \<le> construct) # ?F" by simp
  have "prepend_items_loop xs construct q = write_items ?F xs q" for q using Cons.IH by (intro ext)
  then show ?case unfolding eq by (simp add: construct_or_replace_def del: upt_Suc)
qed simp

lemma uninitialized_mem [simp]: "is_uninitialized (b\<lparr>cb_mem := m\<rparr>) = is_uninitialized b"
  by (simp add: fun_eq_iff is_uninitialized_def)

lemma place_items_is_write:
  assumes "p < cb_capacity b"
  shows "place_items_loop xs p b = write_items (map (\<lambda>j. is_uninitialized b ((p + j) mod cb_capacity b)) [0..<length xs]) xs p b"
  using assms
proof (induction xs arbitrary: p b)
  case (Cons x xs)
  let ?c = "cb_capacity b" and ?p = "(p + 1) mod cb_capacity b"
  have eq: "map (\<lambda>j. is_uninitialized b ((p + j) mod ?c)) [0..<length (x # xs)]
     = is_uninitialized b p # map (\<lambda>j. is_uninitialized b ((?p + j) mod ?c)) [0..<length xs]"
    using Cons.prems by (simp add: map_upt_Suc mod_simps del: upt_Suc)
  show ?case
  proof (cases "construct_or_replace (is_uninitialized b p) p x b")
    case (Some b1)
    then obtain m where "b1 = b\<lparr>cb_mem := m\<rparr>" "length m = ?c"
      using write_capacity [OF Some] by blast
    then show ?thesis unfolding eq using Some Cons.IH [of ?p b1] Cons.prems by (simp add: increment_lt)
  qed (unfold eq, simp)
qed simp

subsection \<open>At the end and at the beginning\<close>

text \<open>The final pointer updates, from the memory read at \<^verbatim>\<open>m_first\<close> plus the index of the first survivor.\<close>

lemma insert_finish:
  assumes r: "ring b xs rest" and n: "n \<le> cb_capacity b" and m: "length m = cb_capacity b"
    and rot: "rotate ((m_first b + (n - min (length rest) n)) mod cb_capacity b) m = map Some ys @ drop n rest"
    and len: "length ys + length (drop n rest) = cb_capacity b"
  shows "becomes b (Some (b\<lparr>cb_mem := m, m_last := cb_add b (m_last b) n,
      m_first := cb_add b (m_first b) (n - min (length rest) n), m_size := m_size b + min (length rest) n\<rparr>)) ys"
proof (cases "cb_capacity b = 0")
  case True
  then show ?thesis using assms ring_capacity [OF r] ring_parts [OF r]
    by (intro becomesI [OF refl, of _ _ "[]"]) (auto simp: ring_def cb_add_def)
next
  case False
  let ?c = "cb_capacity b" and ?k = "min (length rest) n"
  note rd = ring_parts [OF r] and cap = ring_capacity [OF r]
  have c: "0 < ?c" "m_first b < ?c" using False rd(6) by auto
  have f: "cb_add b (m_first b) (n - ?k) = (m_first b + (n - ?k)) mod ?c"
    using add_off [OF c(1), of "n - ?k" "m_first b" 0] n c(2) by simp
  have l: "cb_add b (m_last b) n = (m_first b + (length xs + n)) mod ?c"
    using add_off [OF c(1) n, of "m_first b" "length xs"] rd(2) by simp
  define e where "e = n - ?k"
  have ly: "length xs + n = e + length ys" using len cap by (auto simp: e_def)
  have d: "\<not> cb_scalar b \<Longrightarrow> set (drop n rest) \<subseteq> {None}" using rd(4) set_drop_subset [of n rest] by blast
  have sz: "m_size b + ?k = length ys" using rd(3) len cap by auto
  have "ring (b\<lparr>cb_mem := m, m_last := cb_add b (m_last b) n, m_first := cb_add b (m_first b) (n - ?k),
      m_size := m_size b + ?k\<rparr>) ys (drop n rest)"
    unfolding f l sz ly e_def [symmetric] f [folded e_def] ring_def using m rot [folded e_def] d c by (simp add: off_off)
  then show ?thesis by (rule becomesI [OF refl]) (use m in simp_all)
qed

lemma append_items_ring:
  assumes r: "ring b xs rest" and n: "length items \<le> cb_capacity b" "items \<noteq> []"
  shows "becomes b (insert_n None items b) (drop (length xs + length items - cb_capacity b) (xs @ items))"
proof -
  let ?c = "cb_capacity b" and ?n = "length items" and ?k = "min (length rest) (length items)"
  note rd = ring_parts [OF r] and cap = ring_capacity [OF r]
  let ?ks = "map (\<lambda>k. k < ?k) [0..<?n]"
  define W where "W = rest @ map Some xs"
  have lW: "length W = ?c" using cap by (simp add: W_def)
  have c: "0 < ?c" using n by (cases items) auto
  then have lt: "m_first b < ?c" "m_last b < ?c" using rd(2,6) by auto
  have "rotate (m_last b) (cb_mem b) = take ?n W @ drop ?n W"
    using rotate_shift [of "m_first b" "cb_mem b" "map Some xs" rest] rd unfolding append_take_drop_id by (simp add: W_def)
  moreover have "cb_scalar b \<or> list_all2 (\<lambda>k c. k \<longleftrightarrow> c = None) ?ks (take ?n W)"
  proof (cases "cb_scalar b")
    case False
    then have "set rest \<subseteq> {None}" using rd(4) by simp
    then have "list_all2 (\<lambda>k c. k \<longleftrightarrow> c = None) ?ks (take ?n W)"
      using n cap by (auto simp: W_def list_all2_conv_all_nth nth_append dest: subsetD [OF _ nth_mem])
    then show ?thesis ..
  qed simp
  ultimately obtain m where m: "append_items_loop items 0 ?k (m_last b) b = Some (b\<lparr>cb_mem := m\<rparr>)" "length m = ?c"
    "rotate (m_last b) m = map Some items @ drop ?n W"
    using write_items_off [of "m_last b" b "take ?n W" "drop ?n W" items ?ks] n(1) lW lt
    by (simp add: append_items_is_write) blast
  define ys where "ys = drop (length xs + ?n - ?c) (xs @ items)"
  have "rotate ((m_first b + (?n - ?k)) mod ?c) m = map Some ys @ drop ?n rest \<and> length ys + length (drop ?n rest) = ?c"
  proof (cases "?n \<le> length rest")
    case True
    then have "rotate (m_first b) m = map Some (xs @ items) @ drop ?n rest"
      using rotate_back [of "m_first b" "length xs" m "map Some items @ drop ?n rest" "map Some xs"] m rd(2) lt by (simp add: W_def)
    then show ?thesis using True cap lt by (simp add: ys_def min_def)
  next
    case False
    let ?d = "?n - length rest"
    have ys: "ys = drop ?d xs @ items" using False cap n(1) by (simp add: ys_def)
    have "drop ?n W = map Some (drop ?d xs)" using False n cap by (simp add: W_def drop_map)
    then have "rotate ((m_last b + ?n) mod ?c) m = map Some ys"
      using rotate_shift [of "m_last b" m "map Some items"] m ys by simp
    moreover have "(m_last b + ?n) mod ?c = (m_first b + ?d) mod ?c"
    proof -
      have "length xs + ?n = ?d + ?c" using False cap by simp
      then have "(m_last b + ?n) mod ?c = (m_first b + (?d + ?c)) mod ?c" unfolding rd(2) off_off by simp
      then show ?thesis by (simp flip: add.assoc)
    qed
    ultimately show ?thesis using False cap n ys by (simp add: min_def)
  qed
  then have "becomes b (Some (b\<lparr>cb_mem := m, m_last := cb_add b (m_last b) ?n,
      m_first := cb_add b (m_first b) (?n - ?k), m_size := m_size b + ?k\<rparr>)) ys"
    using insert_finish [OF r n(1) m(2)] by blast
  then show ?thesis using m by (simp add: insert_n_def Let_def ring_tests [OF r] ys_def)
qed

subsection \<open>In the middle\<close>

text \<open>The slots from \<open>p\<close> on, \<open>n\<close> of them, are judged right by \<^verbatim>\<open>is_uninitialized\<close>.\<close>

definition judged :: "'a circular_buffer \<Rightarrow> nat \<Rightarrow> nat \<Rightarrow> bool" where
  "judged b p n \<longleftrightarrow> cb_scalar b \<or>
     (\<forall>j<n. is_uninitialized b ((p + j) mod cb_capacity b) \<longleftrightarrow> rotate p (cb_mem b) ! j = None)"

lemma insert_n_loop_off:
  assumes "rotate p (cb_mem b) = map Some ys @ W" "p < cb_capacity b" "0 < n" "n \<le> length W"
    and "cb_scalar b \<or> (\<forall>j<length ys. is_uninitialized b ((p + (j + n)) mod cb_capacity b) \<longleftrightarrow> (map Some ys @ W) ! (j + n) = None)"
    and "s = (p + length ys) mod cb_capacity b" "ys \<noteq> [] \<Longrightarrow> d = (p + (length ys + n - 1)) mod cb_capacity b"
  shows "\<exists>m. insert_n_loop p s d b = Some (b\<lparr>cb_mem := m\<rparr>) \<and> length m = cb_capacity b
    \<and> rotate p m = take n (map Some ys @ W) @ map Some ys @ drop n W"
  using assms
proof (induction ys arbitrary: b W s d rule: rev_induct)
  case Nil
  then show ?case by (subst insert_n_loop.simps) (auto simp: cb_capacity_def intro!: exI [of _ "cb_mem b"])
next
  case (snoc y ys)
  let ?c = "cb_capacity b" and ?l = "length ys"
  have c: "0 < ?c" "Suc ?l < ?c" "?l + n < ?c" "length W = ?c - Suc ?l"
    using arg_cong [OF snoc.prems(1), of length] snoc.prems(3,4) by (auto simp: cb_capacity_def)
  have "(p + Suc ?l) mod ?c \<noteq> (p + 0) mod ?c" using c by (simp only: add_mod_inject)
  then have ne: "s \<noteq> p" using snoc.prems(2,6) by simp
  have dec: "cb_decrement b s = (p + ?l) mod ?c" using decrement_off [OF c(1), of p ?l] snoc.prems(6) by simp
  have d: "d = (p + (?l + n)) mod ?c" using snoc.prems(7) by simp
  have decd: "cb_decrement b d = (p + (?l + n - 1)) mod ?c"
    using decrement_off [OF c(1), of p "?l + n - 1"] snoc.prems(3) d by simp
  have rd: "cb_read (cb_decrement b s) b = Some y"
    using read_off [of p b "map Some ys" "Some y" W] snoc.prems(1) by (simp add: dec)
  define S where "S = map Some (ys @ [y]) @ W"
  have S: "length S = ?c" "S = take (?l + n) S @ S ! (?l + n) # drop (Suc (?l + n)) S"
    using c(3,4) id_take_nth_drop [of "?l + n" S] by (simp_all add: S_def)
  have fl: "cb_scalar b \<or> (is_uninitialized b d \<longleftrightarrow> S ! (?l + n) = None)"
    using snoc.prems(5) by (auto simp: d S_def)
  obtain m where m: "construct_or_replace (is_uninitialized b d) d y b = Some (b\<lparr>cb_mem := m\<rparr>)" "length m = ?c"
    "rotate p m = take (?l + n) S @ Some y # drop (Suc (?l + n)) S"
    using write_off [of p b "take (?l + n) S" "S ! (?l + n)" "drop (Suc (?l + n)) S" d "is_uninitialized b d" y]
      S snoc.prems(1) fl c(3) d unfolding S_def [symmetric] by auto
  define W' where "W' = take n (Some y # W) @ Some y # drop n W"
  have mS: "rotate p (cb_mem (b\<lparr>cb_mem := m\<rparr>)) = map Some ys @ W'" using m(3) by (simp add: S_def W'_def)
  have lt: "length (take n (Some y # W)) = n" using snoc.prems(4) by simp
  have W': "n \<le> length W'" "drop n W' = Some y # drop n W" using lt by (simp_all add: W'_def)
  have tk: "take n (map Some ys @ W') = take n S"
    using lt snoc.prems(4) by (simp add: W'_def S_def min_def take_Cons')
  have nt: "(map Some ys @ W') ! (j + n) = S ! (j + n)" if "j < ?l" for j
    using lt that by (auto simp: W'_def S_def nth_append)
  have fl': "cb_scalar b \<or> (\<forall>j<?l. is_uninitialized b ((p + (j + n)) mod ?c) \<longleftrightarrow> (map Some ys @ W') ! (j + n) = None)"
    using snoc.prems(5) nt by (auto simp: S_def)
  from snoc.IH [OF mS _ snoc.prems(3) W'(1), of "cb_decrement b s" "cb_decrement b d"]
  obtain m' where m': "insert_n_loop p (cb_decrement b s) (cb_decrement b d) (b\<lparr>cb_mem := m\<rparr>) = Some (b\<lparr>cb_mem := m'\<rparr>)"
    "length m' = ?c" "rotate p m' = take n S @ map Some ys @ Some y # drop n W"
    using fl' m(2) snoc.prems(2) dec decd unfolding tk W'(2) by auto
  then show ?case using ne rd m(1) unfolding S_def by (subst insert_n_loop.simps) auto
qed

lemma insert_n_middle_ring:
  assumes r: "ring b xs rest" and i: "i < length xs" and n: "items \<noteq> []" "length items \<le> cb_capacity b - (length xs - i)"
    and j: "judged b ((m_first b + i) mod cb_capacity b) (length xs - i + length items)"
  shows "becomes b (insert_n (it_at b i) items b)
    (drop (length xs + length items - cb_capacity b) (take i xs @ items @ drop i xs))"
proof -
  let ?c = "cb_capacity b" and ?f = "m_first b" and ?p = "(m_first b + i) mod cb_capacity b"
  let ?n = "length items" and ?k = "min (length rest) (length items)"
  note cap = ring_capacity [OF r] and rd = ring_parts [OF r]
  have c: "0 < ?c" using cap i by auto
  then have f: "?f < ?c" using ring_first_lt [OF r] by simp
  define ys W where "ys = drop i xs" and "W = rest @ map Some (take i xs)"
  have ys: "length ys = length xs - i" "ys \<noteq> []" and W: "?n \<le> length W" using i n cap by (auto simp: ys_def W_def)
  have "rotate ?f (cb_mem b) = map Some (take i xs) @ map Some ys @ rest"
    using rd(1) by (simp add: ys_def flip: map_append append_assoc)
  then have rp: "rotate ?p (cb_mem b) = map Some ys @ W"
    using rotate_shift [of ?f "cb_mem b" "map Some (take i xs)"] rd(5) i by (simp add: W_def)
  have jd: "cb_scalar b \<or> (\<forall>j<length ys + ?n. is_uninitialized b ((?p + j) mod ?c) \<longleftrightarrow> (map Some ys @ W) ! j = None)"
    using j by (simp add: judged_def rp ys)
  have l: "m_last b = (?p + length ys) mod ?c" unfolding off_off using rd(2) i ys by simp
  have "cb_add b (m_last b) (?n - 1) = (?p + (length ys + ?n - 1)) mod ?c"
    using add_off [OF c, of "?n - 1" ?p "length ys"] n cap i by (cases items) (auto simp: l)
  then obtain m where m: "insert_n_loop ?p (m_last b) (cb_add b (m_last b) (?n - 1)) b = Some (b\<lparr>cb_mem := m\<rparr>)" "length m = ?c"
    "rotate ?p m = take ?n (map Some ys @ W) @ (map Some ys @ drop ?n W)"
    using insert_n_loop_off [OF rp _ _ W, of "m_last b" "cb_add b (m_last b) (?n - 1)"] jd l c n(1) by auto
  let ?b = "b\<lparr>cb_mem := m\<rparr>" and ?ks = "map (\<lambda>j. is_uninitialized b ((?p + j) mod ?c)) [0..<?n]"
  have "cb_scalar b \<or> list_all2 (\<lambda>k c. k \<longleftrightarrow> c = None) ?ks (take ?n (map Some ys @ W))"
    using jd W by (auto simp: list_all2_conv_all_nth simp del: take_append)
  moreover have "length (take ?n (map Some ys @ W)) = ?n" using W by simp
  ultimately obtain m2 where m2: "place_items_loop items ?p ?b = Some (b\<lparr>cb_mem := m2\<rparr>)" "length m2 = ?c"
    "rotate ?p m2 = map Some items @ map Some ys @ drop ?n W"
    using write_items_off [of ?p ?b "take ?n (map Some ys @ W)" "map Some ys @ drop ?n W" items ?ks] m c W
      place_items_is_write [of ?p ?b items] by (auto simp del: take_append length_take)
  define zs where "zs = drop (length xs + ?n - ?c) (take i xs @ items @ drop i xs)"
  have "rotate ((?f + (?n - ?k)) mod ?c) m2 = map Some zs @ drop ?n rest \<and> length zs + length (drop ?n rest) = ?c"
  proof (cases "?n \<le> length rest")
    case True
    then have "rotate ?f m2 = map Some (take i xs @ items @ ys) @ drop ?n rest"
      using rotate_back [of ?f i m2 "map Some items @ map Some ys @ drop ?n rest" "map Some (take i xs)"] m2 f i by (simp add: W_def)
    then show ?thesis using True cap f i by (simp add: zs_def ys_def min_def)
  next
    case False
    let ?d = "?n - length rest"
    have d: "?d \<le> i" "length xs + ?n - ?c = ?d" using False W cap i by (simp_all add: W_def)
    then have zs: "zs = drop ?d (take i xs) @ items @ ys" using i by (simp add: zs_def ys_def)
    have "rotate ?p m2 = (map Some items @ map Some ys) @ map Some (drop ?d (take i xs))"
      using m2(3) False by (simp add: W_def drop_map)
    then have "rotate ((?f + ?d) mod ?c) m2 = map Some zs"
      using rotate_back [of ?f i m2 "map Some items @ map Some ys" "map Some (drop ?d (take i xs))"] m2(2) d(1) i zs by simp
    then show ?thesis using False cap d i by (simp add: min_def zs ys_def)
  qed
  then have "becomes b (Some (b\<lparr>cb_mem := m2, m_last := cb_add b (m_last b) ?n,
      m_first := cb_add b (m_first b) (?n - ?k), m_size := m_size b + ?k\<rparr>)) zs"
    using insert_finish [OF r _ m2(2), of ?n zs] n(2) by simp
  moreover have "it_at b i = Some ?p" using i rd(3) by (simp add: it_at_def)
  ultimately show ?thesis using m m2 by (simp add: insert_n_def Let_def ring_tests [OF r] zs_def)
qed

subsection \<open>Where the free slots are recognised\<close>

lemma raw_iff:
  assumes r: "ring b xs rest" and "\<not> cb_scalar b" and t: "t < cb_capacity b"
  shows "cb_mem b ! ((m_first b + t) mod cb_capacity b) = None \<longleftrightarrow> length xs \<le> t"
proof -
  have "cb_mem b ! ((m_first b + t) mod cb_capacity b) = (map Some xs @ rest) ! t"
    using nth_rotate [of t "cb_mem b" "m_first b"] ring_parts(1,5) [OF r] t by simp
  moreover have "rest ! k = None" if "k < length rest" for k
    using ring_parts(4) [OF r assms(2)] nth_mem [OF that] by auto
  ultimately show ?thesis using ring_capacity [OF r] t by (auto simp: nth_append)
qed

lemma uninitialized_iff:
  assumes r: "ring b xs rest" and "xs \<noteq> []" and t: "t < cb_capacity b" and ok: "m_last b \<le> m_first b \<or> m_first b + t < cb_capacity b"
  shows "is_uninitialized b ((m_first b + t) mod cb_capacity b) \<longleftrightarrow> length xs \<le> t"
proof -
  have f: "m_first b < cb_capacity b" using ring_first_lt [OF r] t by simp
  have "0 < length xs" "length xs \<le> cb_capacity b" using assms(2) ring_capacity [OF r] by simp_all
  then show ?thesis using f t ok ring_parts(2) [OF r]
    by (auto simp: is_uninitialized_def mod_if split: if_splits)
qed

lemma judgedI:
  assumes r: "ring b xs rest" and ne: "xs \<noteq> []" and n: "n \<le> cb_capacity b"
    and "\<And>j. \<not> cb_scalar b \<Longrightarrow> j < n \<Longrightarrow> \<exists>t<cb_capacity b. (p + j) mod cb_capacity b = (m_first b + t) mod cb_capacity b
      \<and> (m_last b \<le> m_first b \<or> m_first b + t < cb_capacity b)"
  shows "judged b p n"
proof (cases "cb_scalar b")
  case False
  have "is_uninitialized b ((p + j) mod cb_capacity b) \<longleftrightarrow> rotate p (cb_mem b) ! j = None" if j: "j < n" for j
  proof -
    obtain t where t: "t < cb_capacity b" "(p + j) mod cb_capacity b = (m_first b + t) mod cb_capacity b"
      "m_last b \<le> m_first b \<or> m_first b + t < cb_capacity b" using assms(4) [OF False j] by blast
    have "rotate p (cb_mem b) ! j = cb_mem b ! ((m_first b + t) mod cb_capacity b)"
      using nth_rotate [of j "cb_mem b" p] j n t(2) by (simp add: cb_capacity_def)
    then show ?thesis unfolding t(2) using uninitialized_iff [OF r ne t(1,3)] raw_iff [OF r False t(1)] by simp
  qed
  then show ?thesis by (simp add: judged_def)
qed (simp add: judged_def)

text \<open>For \<^verbatim>\<open>insert\<close>: the new elements do not run past the end of the memory into free slots.\<close>

definition insert_safe :: "'a circular_buffer \<Rightarrow> nat \<Rightarrow> bool" where
  "insert_safe b n \<longleftrightarrow> cb_scalar b \<or> m_last b \<le> m_first b \<or> m_first b = 0 \<or> m_last b + n \<le> cb_capacity b"

lemma judged_insert:
  assumes r: "ring b xs rest" and i: "i < length xs" and n: "n \<le> cb_capacity b - (length xs - i)" and s: "insert_safe b n"
  shows "judged b ((m_first b + i) mod cb_capacity b) (length xs - i + n)"
proof (rule judgedI [OF r])
  let ?c = "cb_capacity b" and ?f = "m_first b"
  have cap: "length xs \<le> ?c" using ring_capacity [OF r] by simp
  show "xs \<noteq> []" using i by auto
  show "length xs - i + n \<le> ?c" using n cap i by simp
  fix j assume ns: "\<not> cb_scalar b" and j: "j < length xs - i + n"
  define t where "t = (i + j) mod ?c"
  have f: "?f < ?c" using ring_first_lt [OF r] cap i by simp
  have t: "if i + j < ?c then t = i + j else t = i + j - ?c"
    using j n cap i by (auto simp: t_def le_mod_geq)
  have l: "m_last b = (if ?f + length xs < ?c then ?f + length xs else ?f + length xs - ?c)"
    using ring_parts(2) [OF r] f cap by (auto simp: le_mod_geq)
  have "((?f + i) mod ?c + j) mod ?c = (?f + t) mod ?c" by (simp add: t_def mod_simps add.assoc)
  moreover have "t < ?c" using f by (simp add: t_def)
  moreover have "m_last b \<le> ?f \<or> ?f + t < ?c"
    using s ns j n cap i f t l by (auto simp: insert_safe_def split: if_splits)
  ultimately show "\<exists>t<?c. ((?f + i) mod ?c + j) mod ?c = (?f + t) mod ?c \<and> (m_last b \<le> ?f \<or> ?f + t < ?c)" by blast
qed

end
