(* ===== verification/Circular_Rinsert.thy ===== *)
theory Circular_Rinsert
  imports Circular_Multi
begin

text \<open>\<^verbatim>\<open>rinsert\<close> of several elements: the mirror image of \<^verbatim>\<open>insert\<close>, dropping elements from the end.\<close>

lemma rinsert_finish:
  assumes r: "ring b xs rest" and n: "n \<le> cb_capacity b" "0 < n" and m: "length m = cb_capacity b"
    and rot: "rotate (cb_sub b (m_first b) n) m = map Some ys @ take (length rest - n) rest"
    and len: "length ys + (length rest - n) = cb_capacity b"
  shows "becomes b (Some (b\<lparr>cb_mem := m, m_first := cb_sub b (m_first b) n,
      m_last := cb_sub b (m_last b) (n - min (length rest) n), m_size := m_size b + min (length rest) n\<rparr>)) ys"
proof -
  let ?c = "cb_capacity b" and ?k = "min (length rest) n"
  note rd = ring_parts [OF r] and cap = ring_capacity [OF r]
  have c: "0 < ?c" "m_first b < ?c" using n ring_first_lt [OF r] by auto
  have f: "cb_sub b (m_first b) n = (m_first b + (?c - n)) mod ?c"
    using sub_off [OF c(1) n(1), of "m_first b" "?c - n"] n(1) c(2) by simp
  define e where "e = n - ?k"
  have e: "length xs - e + e = length xs" "e \<le> ?c" using n cap by (auto simp: e_def)
  have l: "cb_sub b (m_last b) e = (m_first b + (length xs - e)) mod ?c"
    using sub_off [OF c(1) e(2), of "m_first b" "length xs - e"] unfolding e(1) rd(2) .
  have "(m_first b + (length xs - e)) mod ?c = (m_first b + (?c - n) + length ys) mod ?c"
  proof -
    have eq: "m_first b + (?c - n) + length ys = m_first b + (length xs - e) + ?c" using n len cap by (auto simp: e_def)
    show ?thesis unfolding eq by (simp only: mod_add_self2)
  qed
  then have l': "cb_sub b (m_last b) e = (cb_sub b (m_first b) n + length ys) mod ?c"
    unfolding l f by (simp add: mod_simps)
  have d: "\<not> cb_scalar b \<Longrightarrow> set (take (length rest - n) rest) \<subseteq> {None}" using rd(4) set_take_subset [of _ rest] by blast
  have sz: "m_size b + ?k = length ys" using rd(3) len cap n by auto
  have "ring (b\<lparr>cb_mem := m, m_first := cb_sub b (m_first b) n, m_last := cb_sub b (m_last b) (n - ?k),
      m_size := m_size b + ?k\<rparr>) ys (take (length rest - n) rest)"
    unfolding e_def [symmetric] l' sz ring_def using m rot d c f by simp
  then show ?thesis by (rule becomesI [OF refl]) (use m in simp_all)
qed

text \<open>The memory read from the slot where the first new element goes.\<close>

lemma sub_reading:
  assumes r: "ring b xs rest" and n: "n \<le> cb_capacity b" "0 < n"
  shows "rotate (cb_sub b (m_first b) n) (cb_mem b)
      = drop (cb_capacity b - n) (map Some xs @ rest) @ take (cb_capacity b - n) (map Some xs @ rest)"
    and "cb_sub b (m_first b) n = (m_first b + (cb_capacity b - n)) mod cb_capacity b"
proof -
  let ?c = "cb_capacity b" and ?U = "map Some xs @ rest"
  note rd = ring_parts [OF r] and cap = ring_capacity [OF r]
  have c: "0 < ?c" "m_first b < ?c" using n ring_first_lt [OF r] by auto
  show f: "cb_sub b (m_first b) n = (m_first b + (?c - n)) mod ?c"
    using sub_off [OF c(1) n(1), of "m_first b" "?c - n"] n(1) c(2) by simp
  have "rotate (m_first b) (cb_mem b) = take (?c - n) ?U @ drop (?c - n) ?U"
    unfolding append_take_drop_id by (rule rd(1))
  from rotate_shift [OF this] show "rotate (cb_sub b (m_first b) n) (cb_mem b) = drop (?c - n) ?U @ take (?c - n) ?U"
    using cap rd(5) by (simp add: f del: take_append drop_append)
qed

lemma take_ring:
  assumes "n \<le> length xs + length rest"
  shows "take (length xs + length rest - n) (map Some xs @ rest)
    = map Some (take (length xs + length rest - n) xs) @ take (length rest - n) rest"
  by (simp add: take_map)

lemma prepend_items_ring:
  assumes r: "ring b xs rest" and n: "length items \<le> cb_capacity b" "items \<noteq> []"
  shows "becomes b (rinsert_n (it_at b 0) items b) (take (cb_capacity b) (items @ xs))"
proof -
  let ?c = "cb_capacity b" and ?n = "length items" and ?k = "min (length rest) (length items)"
  let ?d = "cb_sub b (m_first b) (length items)" and ?ks = "map (\<lambda>k. k \<le> min (length rest) (length items)) (rev [1..<length items + 1])"
  note rd = ring_parts [OF r] and cap = ring_capacity [OF r]
  define U where "U = map Some xs @ rest"
  have n0: "0 < ?n" using n by simp
  note sr = sub_reading [OF r n(1) n0, folded U_def]
  have U: "length U = ?c" using cap by (simp add: U_def)
  have "cb_scalar b \<or> list_all2 (\<lambda>k c. k \<longleftrightarrow> c = None) ?ks (drop (?c - ?n) U)"
  proof (cases "cb_scalar b")
    case False
    have "U ! t = None \<longleftrightarrow> length xs \<le> t" if "t < ?c" for t
      using raw_iff [OF r False that] nth_rotate [of t "cb_mem b" "m_first b"] rd(1,5) that by (simp add: U_def)
    then have "list_all2 (\<lambda>k c. k \<longleftrightarrow> c = None) ?ks (drop (?c - ?n) U)"
      using U n(1) cap by (auto simp: list_all2_conv_all_nth rev_nth simp del: upt_Suc)
    then show ?thesis ..
  qed simp
  moreover have "0 < ?c" using n0 n(1) by linarith
  then have "?d < ?c" using sr(2) by simp
  ultimately obtain m where m: "prepend_items_loop items ?k ?d b = Some (b\<lparr>cb_mem := m\<rparr>)" "length m = ?c"
    "rotate ?d m = map Some items @ take (?c - ?n) U"
    using write_items_off [OF sr(1), of items ?ks] U n(1) by (auto simp: prepend_items_is_write simp del: upt_Suc)
  have ys: "take ?c (items @ xs) = items @ take (?c - ?n) xs" using n(1) by simp
  have "rotate ?d m = map Some (take ?c (items @ xs)) @ take (length rest - ?n) rest"
    using m(3) take_ring [of ?n xs rest] n(1) cap ys by (simp add: U_def)
  then have "becomes b (Some (b\<lparr>cb_mem := m, m_first := ?d, m_last := cb_sub b (m_last b) (?n - ?k), m_size := m_size b + ?k\<rparr>))
      (take ?c (items @ xs))"
    by (rule rinsert_finish [OF r n(1) n0 m(2)]) (use n(1) cap in auto)
  moreover have "it_diff b (it_at b 0) (cb_begin b) = 0" using diff_at [OF r, of 0 0] begin_at [OF r] by simp
  ultimately show ?thesis using m n begin_at [OF r]
    by (auto simp: rinsert_n_def Let_def ring_tests [OF r])
qed

subsection \<open>In the middle\<close>

lemma rinsert_n_loop_off:
  assumes "rotate d (cb_mem b) = B @ map Some ys @ vs" "d < cb_capacity b" "B \<noteq> []"
    and "cb_scalar b \<or> (\<forall>j<length ys. is_uninitialized b ((d + j) mod cb_capacity b) \<longleftrightarrow> (B @ map Some ys) ! j = None)"
    and "s = (d + length B) mod cb_capacity b" "p = (d + (length B + length ys)) mod cb_capacity b"
  shows "\<exists>m. rinsert_n_loop p s d b = Some ((d + length ys) mod cb_capacity b, b\<lparr>cb_mem := m\<rparr>) \<and> length m = cb_capacity b
    \<and> rotate d m = map Some ys @ drop (length ys) (B @ map Some ys) @ vs"
  using assms
proof (induction ys arbitrary: b B vs s d)
  case Nil
  then show ?case by (subst rinsert_n_loop.simps) (auto simp: cb_capacity_def intro!: exI [of _ "cb_mem b"])
next
  case (Cons y ys)
  let ?c = "cb_capacity b" and ?d = "(d + 1) mod cb_capacity b"
  obtain c0 B' where B: "B = c0 # B'" using Cons.prems(3) by (cases B) auto
  have c: "0 < ?c" "Suc (length ys) < ?c"
    using arg_cong [OF Cons.prems(1), of length] B by (auto simp: cb_capacity_def)
  have "(d + length B + 0) mod ?c \<noteq> (d + length B + Suc (length ys)) mod ?c"
    using c by (simp only: add_mod_inject)
  then have ne: "s \<noteq> p" using Cons.prems(5,6) by (simp add: add.assoc)
  have rd: "cb_read s b = Some y"
    using read_off [of d b B "Some y" "map Some ys @ vs"] Cons.prems(1,5) by simp
  have "cb_scalar b \<or> (is_uninitialized b d \<longleftrightarrow> c0 = None)"
    using Cons.prems(2,4) B by (auto dest: spec [of _ 0])
  then obtain m where m: "construct_or_replace (is_uninitialized b d) d y b = Some (b\<lparr>cb_mem := m\<rparr>)" "length m = ?c"
    "rotate d m = [Some y] @ (B' @ map Some (y # ys) @ vs)"
    using write_off [of d b "[]" c0 "B' @ map Some (y # ys) @ vs" d "is_uninitialized b d" y] Cons.prems(1,2) B by auto
  let ?b = "b\<lparr>cb_mem := m\<rparr>"
  have sh: "rotate ?d (cb_mem ?b) = (B' @ [Some y]) @ map Some ys @ (vs @ [Some y])"
    using rotate_shift [OF m(3)] m(2) by simp
  have inc: "cb_increment b d = ?d" "cb_increment b s = (?d + length B) mod ?c"
    using increment_lt [OF Cons.prems(2)] increment_off [OF c(1), of d "length B"] Cons.prems(5) by (simp_all add: mod_simps)
  have fl: "cb_scalar ?b \<or> (\<forall>j<length ys. is_uninitialized ?b ((?d + j) mod cb_capacity ?b) \<longleftrightarrow> ((B' @ [Some y]) @ map Some ys) ! j = None)"
    using Cons.prems(4) m(2) B by (auto simp: mod_simps All_less_Suc2)
  have p: "p = (?d + (length B + length ys)) mod ?c" "(?d + length ys) mod ?c = (d + Suc (length ys)) mod ?c"
    using Cons.prems(6) by (simp_all add: mod_simps)
  obtain m' where m': "rinsert_n_loop p ((?d + length B) mod ?c) ?d ?b = Some ((d + Suc (length ys)) mod ?c, b\<lparr>cb_mem := m'\<rparr>)"
    "length m' = ?c" "rotate ?d m' = map Some ys @ drop (length ys) ((B' @ [Some y]) @ map Some ys) @ vs @ [Some y]"
    using Cons.IH [OF sh _ _ fl, of "(?d + length B) mod ?c"] c m(2) p B by auto
  have "rotate d m' = Some y # map Some ys @ drop (length ys) ((B' @ [Some y]) @ map Some ys) @ vs"
    using rotate_back [of d 1 m' "map Some ys @ drop (length ys) ((B' @ [Some y]) @ map Some ys) @ vs" "[Some y]"]
      m'(2,3) Cons.prems(2) by simp
  then show ?case using ne rd m(1) m' inc B
    by (subst rinsert_n_loop.simps) auto
qed

text \<open>For \<^verbatim>\<open>rinsert\<close>: no free slots below \<^verbatim>\<open>m_first\<close> unless the elements wrap around.\<close>

definition rinsert_safe :: "'a circular_buffer \<Rightarrow> bool" where
  "rinsert_safe b \<longleftrightarrow> cb_scalar b \<or> m_last b \<le> m_first b \<or> m_first b = 0"

lemma judged_rinsert:
  assumes r: "ring b xs rest" and i: "0 < i" "i \<le> length xs" and n: "0 < n" "n \<le> cb_capacity b - i" and s: "rinsert_safe b"
  shows "judged b (cb_sub b (m_first b) n) (i + n)"
proof (rule judgedI [OF r])
  let ?c = "cb_capacity b" and ?f = "m_first b"
  have cap: "length xs \<le> ?c" using ring_capacity [OF r] by simp
  show "xs \<noteq> []" using i by auto
  show "i + n \<le> ?c" using n cap i by simp
  fix j assume ns: "\<not> cb_scalar b"
  have d: "cb_sub b ?f n = (?f + (?c - n)) mod ?c" using sub_reading(2) [OF r] n by simp
  have c: "0 < ?c" using n by linarith
  have "(cb_sub b ?f n + j) mod ?c = (?f + (?c - n + j) mod ?c) mod ?c"
    unfolding d off_off by (simp only: mod_add_right_eq)
  moreover have "(?c - n + j) mod ?c < ?c" using c by simp
  ultimately show "\<exists>t<?c. (cb_sub b ?f n + j) mod ?c = (?f + t) mod ?c \<and> (m_last b \<le> ?f \<or> ?f + t < ?c)"
    using s ns unfolding rinsert_safe_def by auto
qed

lemma rinsert_n_middle_ring:
  assumes r: "ring b xs rest" and i: "0 < i" "i \<le> length xs"
    and n: "items \<noteq> []" "length items \<le> cb_capacity b - i" and s: "rinsert_safe b"
  shows "becomes b (rinsert_n (it_at b i) items b) (take (cb_capacity b) (take i xs @ items @ drop i xs))"
proof -
  let ?c = "cb_capacity b" and ?n = "length items" and ?k = "min (length rest) (length items)"
  let ?d = "cb_sub b (m_first b) (length items)"
  note rd = ring_parts [OF r] and cap = ring_capacity [OF r]
  have n0: "0 < ?n" "?n \<le> ?c" using n by auto
  define B A where "B = drop (?c - ?n) (map Some xs @ rest)" and "A = map Some (drop i (take (?c - ?n) xs)) @ take (length rest - ?n) rest"
  have B: "length B = ?n" using cap n0 by (simp add: B_def)
  have c0: "0 < ?c" using n0 by linarith
  then have c: "0 < ?c" "?d < ?c" using sub_reading(2) [OF r n0(2,1)] by simp_all
  have ti: "take (?c - ?n) xs = take i xs @ drop i (take (?c - ?n) xs)"
  proof -
    have "i \<le> ?c - ?n" using n n0 by linarith
    then have "take i (take (?c - ?n) xs) = take i xs" by (simp add: min_def)
    then show ?thesis by (metis append_take_drop_id)
  qed
  have rp: "rotate ?d (cb_mem b) = B @ map Some (take i xs) @ A"
    using sub_reading(1) [OF r n0(2,1)] take_ring [of ?n xs rest] n0(2) cap ti
    by (simp add: B_def A_def) (metis append_assoc map_append)
  have nt: "(B @ map Some (take i xs) @ A) ! j = (B @ map Some (take i xs)) ! j" if "j < i + ?n" for j
    using nth_append [of "B @ map Some (take i xs)" A j] that B i by simp
  have jd: "cb_scalar b \<or> (\<forall>j<i + ?n. is_uninitialized b ((?d + j) mod ?c) \<longleftrightarrow> (B @ map Some (take i xs)) ! j = None)"
    using judged_rinsert [OF r i n0(1) n(2) s] nt by (simp add: judged_def rp)
  have mp: "map_pointer b (it_at b i) = (m_first b + i) mod ?c"
    using i rd(2,3) by (auto simp: map_pointer_def it_at_def)
  have pf1: "m_first b = (?d + length B) mod ?c"
    using sub_reading(2) [OF r n0(2,1)] n0(2) ring_first_lt [OF r c(1)] by (simp add: B mod_simps)
  have pf2: "(m_first b + i) mod ?c = (?d + (length B + length (take i xs))) mod ?c"
    by (subst pf1, unfold off_off) (use i in simp)
  note pf = pf1 pf2
  have Bne: "B \<noteq> []" using B n0 by auto
  obtain m where m: "rinsert_n_loop ((m_first b + i) mod ?c) (m_first b) ?d b = Some ((?d + i) mod ?c, b\<lparr>cb_mem := m\<rparr>)" "length m = ?c"
    "rotate ?d m = map Some (take i xs) @ drop i (B @ map Some (take i xs)) @ A"
    using rinsert_n_loop_off [OF rp c(2) Bne _ pf] jd i by auto
  let ?b = "b\<lparr>cb_mem := m\<rparr>" and ?e = "(?d + i) mod ?c"
  let ?ks = "map (\<lambda>j. is_uninitialized b ((?e + j) mod ?c)) [0..<?n]" and ?D = "drop i (B @ map Some (take i xs))"
  have "rotate ?e m = ?D @ (A @ map Some (take i xs))"
    using rotate_shift [OF m(3)] m(2) i by simp
  moreover have "length ?D = ?n" using B i by simp
  moreover have "cb_scalar b \<or> list_all2 (\<lambda>k c. k \<longleftrightarrow> c = None) ?ks ?D"
    using jd B i by (auto simp: list_all2_conv_all_nth mod_simps add.assoc simp del: drop_append)
  ultimately obtain m2 where m2: "place_items_loop items ?e ?b = Some (b\<lparr>cb_mem := m2\<rparr>)" "length m2 = ?c"
    "rotate ?e m2 = map Some items @ A @ map Some (take i xs)"
    using write_items_off [of ?e ?b ?D "A @ map Some (take i xs)" items ?ks] m(2) c
      place_items_is_write [of ?e ?b items] by (auto simp del: drop_append length_drop)
  define zs where "zs = take ?c (take i xs @ items @ drop i xs)"
  have zs: "zs = take i xs @ items @ drop i (take (?c - ?n) xs)" proof -
    have "i + ?n \<le> ?c" using n n0 by linarith
    moreover from this n0 have "min ?c i = i" "min (length xs) i = i" using i(2) by simp_all
    ultimately show ?thesis using i(2) by (simp add: zs_def drop_take add.commute)
  qed
  have "rotate ?d m2 = map Some zs @ take (length rest - ?n) rest"
    using rotate_back [of ?d i m2 "map Some items @ A" "map Some (take i xs)"] m2(2,3) c i by (simp add: zs A_def)
  then have "becomes b (Some (b\<lparr>cb_mem := m2, m_first := ?d, m_last := cb_sub b (m_last b) (?n - ?k), m_size := m_size b + ?k\<rparr>)) zs"
    by (rule rinsert_finish [OF r n0(2,1) m2(2)]) (use n i cap n0 zs in \<open>auto simp: min_def\<close>)
  moreover have "it_diff b (it_at b i) (cb_begin b) = int i" "it_at b i \<noteq> cb_begin b"
    using diff_at [OF r, of i 0] begin_at [OF r] at_inject [OF r, of i 0] i by auto
  ultimately show ?thesis using m m2 n n0 i mp
    by (auto simp: rinsert_n_def Let_def ring_tests [OF r] zs_def nat_diff_distrib)
qed

subsection \<open>The public members\<close>

lemma rinsert_cut:
  assumes "ring b xs rest" "i \<le> length xs" "i < cb_capacity b"
  shows "rinsert_n (it_at b i) items b = rinsert_n (it_at b i) (take (cb_capacity b - i) items) b"
proof -
  have "it_diff b (it_at b i) (cb_begin b) = int i"
    using diff_at [OF assms(1), of i 0] begin_at [OF assms(1)] assms(2) by simp
  then have "nat (int (cb_capacity b) - it_diff b (it_at b i) (cb_begin b)) = cb_capacity b - i" by simp
  then show ?thesis using assms(3) by (auto simp: rinsert_n_def Let_def)
qed

lemma rinsert_n_ring:
  assumes r: "ring b xs rest" and i: "i \<le> length xs" and s: "i = 0 \<or> rinsert_safe b"
  shows "becomes b (rinsert_n (it_at b i) items b) (take (cb_capacity b) (take i xs @ items @ drop i xs))"
proof (cases "items = [] \<or> i = cb_capacity b")
  case True
  have "rinsert_n (it_at b i) items b = Some b"
    using True diff_at [OF r, of i 0] begin_at [OF r] i by (auto simp: rinsert_n_def Let_def)
  moreover have "take (cb_capacity b) (take i xs @ items @ drop i xs) = xs"
    using True i ring_capacity [OF r] by auto
  ultimately show ?thesis using r by (auto simp: becomes_def)
next
  case False
  let ?c = "cb_capacity b"
  have i': "i < ?c" using False i ring_capacity [OF r] by auto
  define items' where "items' = take (?c - i) items"
  have "items' \<noteq> []" "length items' \<le> ?c - i" using False i' by (auto simp: items'_def)
  moreover have "rinsert_n (it_at b i) items b = rinsert_n (it_at b i) items' b"
    unfolding items'_def using r i i' by (rule rinsert_cut)
  moreover have "take ?c (take i xs @ items' @ drop i xs) = take ?c (take i xs @ items @ drop i xs)"
    using i i' by (simp add: items'_def min_def)
  ultimately show ?thesis
    using prepend_items_ring [OF r, of items'] rinsert_n_middle_ring [OF r _ i, of items'] s by (cases "i = 0") auto
qed

lemma insert_range_ring:
  assumes r: "ring b xs rest" and i: "i \<le> length xs"
    and s: "i = length xs \<or> insert_safe b (min (length items) (cb_capacity b - (length xs - i)))"
  shows "becomes b (insert_range (it_at b i) items b)
    (drop (length xs + length items - cb_capacity b) (take i xs @ items @ drop i xs))"
proof -
  let ?c = "cb_capacity b" and ?k = "cb_capacity b - (length xs - i)"
  note cap = ring_capacity [OF r]
  have k: "nat (int ?c - it_diff b (cb_end b) (it_at b i)) = ?k"
    using diff_at [OF r, of "length xs" i] end_at [OF r] i cap by simp
  show ?thesis
  proof (cases "items = [] \<or> ?k = 0")
    case True
    then have "insert_range (it_at b i) items b = Some b" using k by (auto simp: insert_range_def Let_def)
    moreover have "drop (length xs + length items - ?c) (take i xs @ items @ drop i xs) = xs"
      using True cap i by auto
    ultimately show ?thesis using r by (auto simp: becomes_def)
  next
    case False
    define items' where "items' = drop (length items - ?k) items"
    have "0 < length items" "0 < ?k" using False by auto
    then have "0 < length items'" unfolding items'_def length_drop by linarith
    then have it': "items' \<noteq> []" "length items' \<le> ?k" "length items' = min (length items) ?k"
      by (auto simp: items'_def)
    have "insert_range (it_at b i) items b = insert_n (it_at b i) items' b"
      using False k by (auto simp: insert_range_def items'_def Let_def)
    moreover have "drop (length xs + length items' - ?c) (take i xs @ items' @ drop i xs)
       = drop (length xs + length items - ?c) (take i xs @ items @ drop i xs)"
      using i cap by (cases "length items \<le> ?k") (auto simp: items'_def)
    moreover have "becomes b (insert_n (it_at b i) items' b) (drop (length xs + length items' - ?c) (take i xs @ items' @ drop i xs))"
    proof (cases "i < length xs")
      case True
      then show ?thesis using insert_n_middle_ring [OF r True it'(1,2)] judged_insert [OF r True it'(2)] s it'(3) by auto
    next
      case False
      then have "i = length xs" "it_at b i = None" using i ring_parts(3) [OF r] by (auto simp: it_at_def)
      then show ?thesis using append_items_ring [OF r _ it'(1)] it'(2) by simp
    qed
    ultimately show ?thesis by (simp only:)
  qed
qed

lemma insert_count_is_range: "insert_count pos n item b = insert_range pos (replicate n item) b"
  by (simp add: insert_count_def insert_range_def Let_def)

end
