(* ===== verification/Circular_Linearize.thy ===== *)
theory Circular_Linearize
  imports Circular_Insert
begin

text \<open>
  \<^verbatim>\<open>circular_buffer::linearize\<close>: rotating the memory in place until the first element is in the first slot.
  The source element is moved to the destination slot by a swap, or, where no object lives in the
  destination, by a construction whose stale source is destroyed at the end. The correctness proof follows
  the virtual memory in which every step is a swap and a stale slot is empty.
\<close>

subsection \<open>The code\<close>

text \<open>The inner loop returns \<^verbatim>\<open>first\<close>, \<^verbatim>\<open>dest\<close>, \<^verbatim>\<open>moved\<close> and \<^verbatim>\<open>constructed\<close>; \<^verbatim>\<open>src\<close> is overwritten after it.\<close>

definition linearize_step :: "nat \<Rightarrow> nat \<Rightarrow> nat \<Rightarrow> 'a circular_buffer \<Rightarrow> (nat \<times> 'a circular_buffer) option" where
  "linearize_step src dest constructed b =
     (if is_uninitialized b dest then do {
        x \<leftarrow> cb_read src b;
        b1 \<leftarrow> cb_construct dest x b;
        Some (constructed + 1, b1) }
      else do {
        tmp \<leftarrow> cb_read src b;
        y \<leftarrow> cb_read dest b;
        b1 \<leftarrow> cb_replace src y b;
        b2 \<leftarrow> cb_replace dest tmp b1;
        Some (constructed, b2) })"

partial_function (option) linearize_inner ::
  "nat \<Rightarrow> nat \<Rightarrow> nat \<Rightarrow> nat \<Rightarrow> nat \<Rightarrow> nat \<Rightarrow> 'a circular_buffer \<Rightarrow> (nat \<times> nat \<times> nat \<times> nat \<times> 'a circular_buffer) option" where
  "linearize_inner src dest moved ii first constructed b =
     (if src < cb_capacity b then
        (if moved = cb_size b then Some (dest, dest, moved, constructed, b)
         else if dest = first then Some (first + ii, dest, moved, constructed, b)
         else do {
           (constructed1, b1) \<leftarrow> linearize_step src dest constructed b;
           linearize_inner (src + 1) (dest + 1) (moved + 1) (ii + 1) first constructed1 b1 })
      else Some (first, dest, moved, constructed, b))"

partial_function (option) linearize_outer ::
  "nat \<Rightarrow> nat \<Rightarrow> nat \<Rightarrow> nat \<Rightarrow> nat \<Rightarrow> 'a circular_buffer \<Rightarrow> (nat \<times> 'a circular_buffer) option" where
  "linearize_outer src dest moved first constructed b =
     (if dest < src then do {
        (first1, dest1, moved1, constructed1, b1) \<leftarrow> linearize_inner src dest moved 0 first constructed b;
        linearize_outer first1 dest1 moved1 first1 constructed1 b1 }
      else Some (constructed, b))"

partial_function (option) linearize_destroy :: "nat \<Rightarrow> 'a circular_buffer \<Rightarrow> 'a circular_buffer option" where
  "linearize_destroy src b =
     (if src < cb_capacity b then do {
        b1 \<leftarrow> destroy_item src b;
        linearize_destroy (src + 1) b1 }
      else Some b)"

text \<open>The result is the pointer and the buffer; \<open>None\<close> as a pointer is the null pointer.\<close>

definition cb_linearize :: "'a circular_buffer \<Rightarrow> (nat option \<times> 'a circular_buffer) option" where
  "cb_linearize b =
     (if cb_empty b then Some (None, b)
      else if m_first b < m_last b \<or> m_last b = 0 then Some (Some (m_first b), b)
      else do {
        (constructed, b1) \<leftarrow> linearize_outer (m_first b) 0 0 (m_first b) 0 b;
        b2 \<leftarrow> linearize_destroy (cb_capacity b1 - constructed) b1;
        Some (Some 0, b2\<lparr>m_first := 0, m_last := cb_add b2 0 (cb_size b2)\<rparr>) })"

lemmas linearize_unfold [code] = linearize_inner.simps linearize_outer.simps linearize_destroy.simps

subsection \<open>The virtual memory\<close>

text \<open>What is still to be written from \<open>d\<close> on, when the next element is read at \<open>s\<close> and the block in
  front of \<open>F\<close> has been cut at \<open>d\<close>.\<close>

definition pending :: "'v list \<Rightarrow> nat \<Rightarrow> nat \<Rightarrow> nat \<Rightarrow> 'v list" where
  "pending vm d s F = drop s vm @ take (s - F) (drop F vm) @ take (F - d) (drop d vm)"

definition swapped :: "nat \<Rightarrow> nat \<Rightarrow> 'v list \<Rightarrow> 'v list" where
  "swapped d s vm = vm[d := vm ! s, s := vm ! d]"

lemma split_at_two:
  assumes "d < F" "F \<le> s" "s < length vm"
  obtains A a B C c D where "vm = A @ a # B @ C @ c # D" "length A = d" "length B = F - Suc d" "length C = s - F"
proof
  let ?A = "take d vm" and ?B = "take (F - Suc d) (drop (Suc d) vm)" and ?C = "take (s - F) (drop F vm)"
  have "vm = ?A @ vm ! d # drop (Suc d) vm" using assms by (simp add: id_take_nth_drop)
  also have "drop (Suc d) vm = ?B @ drop F vm" using assms by (metis Suc_leI append_take_drop_id drop_drop le_add_diff_inverse2)
  also have "drop F vm = ?C @ drop s vm" using assms by (metis append_take_drop_id drop_drop le_add_diff_inverse2)
  also have "drop s vm = vm ! s # drop (Suc s) vm" using assms by (simp add: Cons_nth_drop_Suc)
  finally show "vm = ?A @ vm ! d # ?B @ ?C @ vm ! s # drop (Suc s) vm" .
qed (use assms in auto)

lemma pending_swap:
  assumes "d < F" "F \<le> s" "s < length vm"
  shows "pending vm d s F = vm ! s # pending (swapped d s vm) (Suc d) (Suc s) F"
    and "take (Suc d) (swapped d s vm) = take d vm @ [vm ! s]"
proof -
  obtain A a B C c D where vm: "vm = A @ a # B @ C @ c # D" and l: "length A = d" "length B = F - Suc d" "length C = s - F"
    using split_at_two [OF assms] .
  have s: "s = length (A @ a # B @ C)" using assms l by simp
  have at: "vm ! s = c" "vm ! d = a" using vm unfolding s l(1)[symmetric] by (simp_all add: nth_append)
  have sw: "swapped d s vm = A @ c # B @ C @ a # D"
    unfolding swapped_def at unfolding vm s l(1)[symmetric] by (simp add: list_update_append)
  have F: "F = length (A @ a # B)" using assms l by simp
  show "pending vm d s F = vm ! s # pending (swapped d s vm) (Suc d) (Suc s) F"
    unfolding pending_def sw at unfolding vm s F l(1)[symmetric] by simp
  show "take (Suc d) (swapped d s vm) = take d vm @ [vm ! s]"
    unfolding sw at unfolding vm l(1)[symmetric] by simp
qed

lemma pending_wrap: "d \<le> F \<Longrightarrow> F \<le> length vm \<Longrightarrow> pending vm d (length vm) F = pending vm d F F"
  by (simp add: pending_def)

lemma pending_meet: "d \<le> s \<Longrightarrow> pending vm d s d = pending vm d s s"
  by (simp add: pending_def)

lemma pending_done: "pending vm d d d = drop d vm"
  by (simp add: pending_def)

lemma set_pending:
  assumes "d \<le> F" "F \<le> s" "s \<le> length vm"
  shows "set (drop d vm) = set (pending vm d s F)"
proof -
  have "drop d vm = take (F - d) (drop d vm) @ drop F vm"
    using assms by (metis append_take_drop_id drop_drop le_add_diff_inverse2)
  moreover have "drop F vm = take (s - F) (drop F vm) @ drop s vm"
    using assms by (metis append_take_drop_id drop_drop le_add_diff_inverse2)
  ultimately have "set (drop d vm) = set (take (F - d) (drop d vm)) \<union> (set (take (s - F) (drop F vm)) \<union> set (drop s vm))"
    by (metis set_append)
  then show ?thesis unfolding pending_def by auto
qed

subsection \<open>The invariant of the loops\<close>

definition linear :: "nat \<Rightarrow> 'a list \<Rightarrow> 'a option list" where
  "linear c xs = map Some xs @ replicate (c - length xs) None"

text \<open>\<open>b\<close> is the buffer before the call; \<open>vm\<close> and \<open>m\<close> the virtual and the real memory, \<open>k\<close> the constructions.\<close>

definition moving ::
  "'a circular_buffer \<Rightarrow> 'a list \<Rightarrow> 'a option list \<Rightarrow> nat \<Rightarrow> nat \<Rightarrow> nat \<Rightarrow> nat \<Rightarrow> 'a option list \<Rightarrow> bool" where
  "moving b xs vm d s F k m \<longleftrightarrow>
     length vm = cb_capacity b \<and> length m = cb_capacity b \<and> d \<le> length xs \<and> d \<le> F \<and> F \<le> s \<and> s \<le> cb_capacity b
     \<and> take d vm = take d (linear (cb_capacity b) xs) \<and> pending vm d s F = drop d (linear (cb_capacity b) xs)
     \<and> (\<forall>i < cb_capacity b. vm ! i \<noteq> None \<longrightarrow> m ! i = vm ! i)
     \<and> (\<forall>i < cb_capacity b. max d (m_last b) \<le> i \<and> i < m_first b \<longrightarrow> vm ! i = None)
     \<and> (\<forall>i < cb_capacity b. m ! i = None \<longrightarrow> max d (m_last b) \<le> i \<and> i < m_first b)
     \<and> (\<not> cb_scalar b \<longrightarrow> (\<forall>i < cb_capacity b. max d (m_last b) \<le> i \<and> i < m_first b \<longrightarrow> m ! i = None))
     \<and> k = min d (m_first b) - m_last b"

lemma movingD:
  assumes "moving b xs vm d s F k m"
  shows "length vm = cb_capacity b" "length m = cb_capacity b" "d \<le> length xs" "d \<le> F" "F \<le> s" "s \<le> cb_capacity b"
    "take d vm = take d (linear (cb_capacity b) xs)" "pending vm d s F = drop d (linear (cb_capacity b) xs)"
    "\<And>i. i < cb_capacity b \<Longrightarrow> vm ! i \<noteq> None \<Longrightarrow> m ! i = vm ! i"
    "\<And>i. i < cb_capacity b \<Longrightarrow> max d (m_last b) \<le> i \<Longrightarrow> i < m_first b \<Longrightarrow> vm ! i = None"
    "\<And>i. i < cb_capacity b \<Longrightarrow> m ! i = None \<Longrightarrow> max d (m_last b) \<le> i \<and> i < m_first b"
    "\<And>i. i < cb_capacity b \<Longrightarrow> \<not> cb_scalar b \<Longrightarrow> max d (m_last b) \<le> i \<Longrightarrow> i < m_first b \<Longrightarrow> m ! i = None"
    "k = min d (m_first b) - m_last b"
  using assms unfolding moving_def by blast+

lemma uninitialized_wrapped:
  "m_last b \<le> m_first b \<Longrightarrow> is_uninitialized (b\<lparr>cb_mem := m\<rparr>) p \<longleftrightarrow> m_last b \<le> p \<and> p < m_first b"
  by (auto simp: is_uninitialized_def)

text \<open>What the swap leaves in a slot.\<close>

lemma swapped_nth:
  "d < length vm \<Longrightarrow> s < length vm \<Longrightarrow> d < s \<Longrightarrow> i < length vm
   \<Longrightarrow> swapped d s vm ! i = (if i = s then vm ! d else if i = d then vm ! s else vm ! i)"
  by (simp add: swapped_def nth_list_update)

lemma moving_step:
  assumes mv: "moving b xs vm d s F k m" and wr: "m_last b \<le> m_first b" "m_first b \<le> F"
    and s: "s < cb_capacity b" "d \<noteq> length xs" "d \<noteq> F" and len: "length xs \<le> cb_capacity b"
  obtains k' m' where "linearize_step s d k (b\<lparr>cb_mem := m\<rparr>) = Some (k', b\<lparr>cb_mem := m'\<rparr>)"
    "moving b xs (swapped d s vm) (Suc d) (Suc s) F k' m'"
proof -
  note D = movingD [OF mv]
  let ?c = "cb_capacity b" and ?L = "linear (cb_capacity b) xs" and ?vm = "swapped d s vm"
  have d: "d < F" "d < length xs" "d < s" "d < ?c" using D(3-6) s by auto
  note sw = pending_swap [OF d(1) D(5), of vm, unfolded D(1), OF s(1)]
  have L: "drop d ?L = Some (xs ! d) # drop (Suc d) ?L" and Ld: "?L ! d = Some (xs ! d)" "d < length ?L"
    using d(2) len by (simp_all add: linear_def nth_append Cons_nth_drop_Suc [symmetric])
  have vs: "vm ! s = Some (xs ! d)" and pd: "pending ?vm (Suc d) (Suc s) F = drop (Suc d) ?L"
    using sw(1) D(8) L by simp_all
  have tk: "take (Suc d) ?vm = take (Suc d) ?L" using sw(2) D(7) vs Ld by (simp add: take_Suc_conv_app_nth)
  have ms: "m ! s = Some (xs ! d)" using D(9) [of s] s(1) vs by simp
  have nth: "?vm ! i = (if i = s then vm ! d else if i = d then vm ! s else vm ! i)" if "i < ?c" for i
    using swapped_nth [of d vm s i] D(1) d s(1) that by simp
  have lv: "length ?vm = ?c" using D(1) by (simp add: swapped_def)
  have shape: "Suc d \<le> length xs" "Suc d \<le> F" "F \<le> Suc s" "Suc s \<le> ?c" using d D(5) s(1) by auto
  have gap: "?vm ! i = None" if "i < ?c" "max (Suc d) (m_last b) \<le> i" "i < m_first b" for i
    using nth [OF that(1)] D(10) [of i] that wr D(5) by auto
  show thesis
  proof (cases "m_last b \<le> d \<and> d < m_first b")
    case True
    let ?m = "m[d := Some (xs ! d)]"
    have vd: "vm ! d = None" using D(10) [of d] d(4) True by simp
    have "cb_scalar b \<or> m ! d = None" using D(12) [of d] d(4) True by (cases "cb_scalar b") auto
    then have "linearize_step s d k (b\<lparr>cb_mem := m\<rparr>) = Some (k + 1, b\<lparr>cb_mem := ?m\<rparr>)"
      using True wr(1) s(1) d(4) D(2) ms
      by (auto simp: linearize_step_def uninitialized_wrapped cb_read_def cb_construct_def)
    moreover have "moving b xs ?vm (Suc d) (Suc s) F (k + 1) ?m"
      unfolding moving_def
    proof (intro conjI impI allI)
      fix i assume "i < ?c" "?vm ! i \<noteq> None"
      then show "?m ! i = ?vm ! i" using nth [of i] vd vs D(9) [of i] D(2) d by (auto simp: nth_list_update split: if_splits)
    next
      fix i assume "i < ?c" "?m ! i = None"
      then show "max (Suc d) (m_last b) \<le> i" "i < m_first b" using D(11) [of i] D(2) by (cases "i = d"; auto)+
    next
      fix i assume "\<not> cb_scalar b" "i < ?c" "max (Suc d) (m_last b) \<le> i \<and> i < m_first b"
      then show "?m ! i = None" using D(12) [of i] D(2) by (auto simp: nth_list_update)
    qed (use lv D(2) shape tk pd gap True D(13) in \<open>auto simp: min_def\<close>)
    ultimately show thesis by (rule that)
  next
    case False
    then obtain y where y: "m ! d = Some y" using D(11) [of d] d(4) by (cases "m ! d") auto
    let ?m = "m[s := Some y, d := Some (xs ! d)]"
    have "linearize_step s d k (b\<lparr>cb_mem := m\<rparr>) = Some (k, b\<lparr>cb_mem := ?m\<rparr>)"
      using False wr(1) s(1) d(3,4) D(2) ms y
      by (auto simp: linearize_step_def uninitialized_wrapped cb_read_def cb_replace_def)
    moreover have "moving b xs ?vm (Suc d) (Suc s) F k ?m"
      unfolding moving_def
    proof (intro conjI impI allI)
      fix i assume "i < ?c" "?vm ! i \<noteq> None"
      then show "?m ! i = ?vm ! i" using nth [of i] vs y D(9) [of i] D(9) [of d] D(2) d s(1)
        by (auto simp: nth_list_update split: if_splits)
    next
      fix i assume "i < ?c" "?m ! i = None"
      then show "max (Suc d) (m_last b) \<le> i" "i < m_first b"
        using D(11) [of i] D(2) False by (cases "i = d"; cases "i = s"; auto)+
    next
      fix i assume i: "\<not> cb_scalar b" "i < ?c" "max (Suc d) (m_last b) \<le> i \<and> i < m_first b"
      then show "?m ! i = None" using D(12) [of i] D(2,5) wr by (auto simp: nth_list_update)
    qed (use lv D(2) shape tk pd gap False D(13) in \<open>auto simp: min_def\<close>)
    ultimately show thesis by (rule that)
  qed
qed

lemma moving_restart:
  "moving b xs vm d s F k m \<Longrightarrow> pending vm d s' F' = pending vm d s F \<Longrightarrow> d \<le> F' \<Longrightarrow> F' \<le> s' \<Longrightarrow> s' \<le> cb_capacity b
   \<Longrightarrow> moving b xs vm d s' F' k m"
  unfolding moving_def by (elim conjE, intro conjI) (assumption | simp only:)+

lemma moving_all:
  assumes mv: "moving b xs vm d s F k m" and d: "d = length xs" and len: "length xs \<le> cb_capacity b"
  shows "moving b xs vm d d d k m"
proof -
  note D = movingD [OF mv]
  have "set (drop d vm) \<subseteq> {None}"
    using set_pending [OF D(4,5), of vm] D(1,6,8) d by (auto simp: linear_def)
  then have "drop d vm = replicate (cb_capacity b - length xs) None"
    using D(1) d by (intro replicate_eqI) auto
  then have "pending vm d d d = pending vm d s F"
    using D(8) d by (simp add: pending_done linear_def)
  from moving_restart [OF mv this] show ?thesis using d len by simp
qed

lemma linearize_inner_moving:
  assumes "moving b xs vm d s F k m" "m_last b \<le> m_first b" "m_first b \<le> F" "F < cb_capacity b"
    and "length xs \<le> cb_capacity b" "m_size b = length xs"
  shows "\<exists>vm' d' F' k' m'. linearize_inner s d d (s - F) F k (b\<lparr>cb_mem := m\<rparr>) = Some (F', d', d', k', b\<lparr>cb_mem := m'\<rparr>)
    \<and> moving b xs vm' d' F' F' k' m' \<and> (F' = d' \<or> m_first b \<le> F' \<and> F' < cb_capacity b)
    \<and> d \<le> d' \<and> (d < d' \<or> F' = d' \<or> s = cb_capacity b \<or> d = F)"
  using assms(1)
proof (induction "cb_capacity b - s" arbitrary: vm d s k m rule: less_induct)
  case less
  note D = movingD [OF less.prems]
  let ?b = "b\<lparr>cb_mem := m\<rparr>"
  consider "s = cb_capacity b" | "s < cb_capacity b" "d = length xs" | "s < cb_capacity b" "d \<noteq> length xs" "d = F"
    | "s < cb_capacity b" "d \<noteq> length xs" "d \<noteq> F" using D(6) by linarith
  then show ?case
  proof cases
    case 1
    then have "pending vm d F F = pending vm d s F" using pending_wrap [OF D(4), of vm] D(1) assms(4) by simp
    from moving_restart [OF less.prems this] have "moving b xs vm d F F k m" using D(4) assms(4) by simp
    moreover have "linearize_inner s d d (s - F) F k ?b = Some (F, d, d, k, ?b)"
      using 1 D(2) by (subst linearize_inner.simps) simp
    ultimately show ?thesis using 1 assms(3,4) by blast
  next
    case 2
    have "linearize_inner s d d (s - F) F k ?b = Some (d, d, d, k, ?b)"
      using 2 D(2) assms(6) by (subst linearize_inner.simps) (simp add: cb_size_def)
    then show ?thesis using moving_all [OF less.prems 2(2) assms(5)] by blast
  next
    case 3
    have "pending vm d s s = pending vm d s F" using pending_meet [of d s vm] 3 D(5) by simp
    from moving_restart [OF less.prems this] have "moving b xs vm d s s k m" using 3 D(5) by simp
    moreover have "linearize_inner s d d (s - F) F k ?b = Some (s, d, d, k, ?b)"
      using 3 D(2,5) assms(6) by (subst linearize_inner.simps) (simp add: cb_size_def)
    moreover have "m_first b \<le> s" using assms(3) D(5) by simp
    ultimately show ?thesis using 3 by blast
  next
    case 4
    obtain k1 m1 where st: "linearize_step s d k ?b = Some (k1, b\<lparr>cb_mem := m1\<rparr>)"
      and mv: "moving b xs (swapped d s vm) (Suc d) (Suc s) F k1 m1"
      using moving_step [OF less.prems assms(2,3) 4 assms(5)] .
    have "linearize_inner s d d (s - F) F k ?b = linearize_inner (Suc s) (Suc d) (Suc d) (Suc s - F) F k1 (b\<lparr>cb_mem := m1\<rparr>)"
      using 4 D(2,5) assms(6) st by (subst linearize_inner.simps) (simp add: cb_size_def Suc_diff_le)
    moreover have "cb_capacity b - Suc s < cb_capacity b - s" using 4 by simp
    from less.hyps [OF this mv] obtain vm' d' F' k' m' where
      "linearize_inner (Suc s) (Suc d) (Suc d) (Suc s - F) F k1 (b\<lparr>cb_mem := m1\<rparr>) = Some (F', d', d', k', b\<lparr>cb_mem := m'\<rparr>)"
      "moving b xs vm' d' F' F' k' m'" "F' = d' \<or> m_first b \<le> F' \<and> F' < cb_capacity b" "Suc d \<le> d'" by blast
    ultimately show ?thesis by (intro exI [of _ vm'] exI [of _ d'] exI [of _ F'] exI [of _ k'] exI [of _ m']) simp
  qed
qed

lemma linearize_outer_moving:
  assumes "moving b xs vm d F F k m" "m_last b \<le> m_first b" "F = d \<or> m_first b \<le> F \<and> F < cb_capacity b"
    and "length xs \<le> cb_capacity b" "m_size b = length xs"
  shows "\<exists>vm' d' k' m'. linearize_outer F d d F k (b\<lparr>cb_mem := m\<rparr>) = Some (k', b\<lparr>cb_mem := m'\<rparr>)
    \<and> moving b xs vm' d' d' d' k' m'"
  using assms(1,3)
proof (induction "cb_capacity b - d" arbitrary: vm d F k m rule: less_induct)
  case less
  show ?case
  proof (cases "d < F")
    case False
    then have "F = d" using movingD(4) [OF less.prems(1)] by simp
    then show ?thesis using less.prems(1) by (subst linearize_outer.simps) auto
  next
    case True
    then have F: "m_first b \<le> F" "F < cb_capacity b" using less.prems(2) by auto
    obtain vm1 d1 F1 k1 m1 where st: "linearize_inner F d d 0 F k (b\<lparr>cb_mem := m\<rparr>) = Some (F1, d1, d1, k1, b\<lparr>cb_mem := m1\<rparr>)"
      and mv: "moving b xs vm1 d1 F1 F1 k1 m1" and ok: "F1 = d1 \<or> m_first b \<le> F1 \<and> F1 < cb_capacity b" and pr: "d < d1 \<or> F1 = d1"
      using linearize_inner_moving [OF less.prems(1) assms(2) F assms(4,5)] True F by auto
    have eq: "linearize_outer F d d F k (b\<lparr>cb_mem := m\<rparr>) = linearize_outer F1 d1 d1 F1 k1 (b\<lparr>cb_mem := m1\<rparr>)"
      using st True by (subst linearize_outer.simps) simp
    show ?thesis
    proof (cases "F1 = d1")
      case True
      then have "linearize_outer F1 d1 d1 F1 k1 (b\<lparr>cb_mem := m1\<rparr>) = Some (k1, b\<lparr>cb_mem := m1\<rparr>)"
        by (subst linearize_outer.simps) simp
      then show ?thesis using eq mv True by auto
    next
      case False
      then have "cb_capacity b - d1 < cb_capacity b - d" using pr True F by auto
      from less.hyps [OF this mv ok] show ?thesis unfolding eq .
    qed
  qed
qed

lemma linearize_destroy_off:
  assumes "s \<le> cb_capacity b" "\<forall>i. s \<le> i \<and> i < cb_capacity b \<longrightarrow> cb_mem b ! i \<noteq> None"
  shows "linearize_destroy s b = Some (if cb_scalar b then b
    else b\<lparr>cb_mem := take s (cb_mem b) @ replicate (cb_capacity b - s) None\<rparr>)"
  using assms
proof (induction "cb_capacity b - s" arbitrary: s b rule: less_induct)
  case less
  show ?case
  proof (cases "s < cb_capacity b")
    case False
    then show ?thesis using less.prems by (subst linearize_destroy.simps) (simp add: cb_capacity_def)
  next
    case True
    let ?b = "if cb_scalar b then b else b\<lparr>cb_mem := (cb_mem b)[s := None]\<rparr>"
    have cap: "cb_capacity ?b = cb_capacity b" "cb_scalar ?b = cb_scalar b" by (simp_all add: cb_capacity_def)
    have st: "destroy_item s b = Some ?b" using True less.prems(2) by (auto simp: destroy_item_def)
    have "cb_mem ?b ! i \<noteq> None" if "Suc s \<le> i" "i < cb_capacity b" for i using less.prems(2) that by simp
    then have "linearize_destroy (Suc s) ?b = Some (if cb_scalar b then ?b
      else ?b\<lparr>cb_mem := take (Suc s) (cb_mem ?b) @ replicate (cb_capacity b - Suc s) None\<rparr>)"
      using less.hyps [of ?b "Suc s"] True unfolding cap by simp
    moreover have "take (Suc s) ((cb_mem b)[s := None]) = take s (cb_mem b) @ [None]"
      using True by (simp add: take_Suc_conv_app_nth cb_capacity_def)
    moreover have "cb_capacity b - s = Suc (cb_capacity b - Suc s)" using True by simp
    ultimately show ?thesis using True st by (subst linearize_destroy.simps) simp
  qed
qed

subsection \<open>The first and the last state\<close>

text \<open>A ring that wraps around: the elements fill the slots from \<^verbatim>\<open>m_first\<close> on and those below \<^verbatim>\<open>m_last\<close>.\<close>

lemma wrapped_ring:
  assumes r: "ring b xs rest" and ne: "xs \<noteq> []" and wr: "m_last b \<le> m_first b" "m_last b \<noteq> 0"
  shows "m_last b + cb_capacity b = m_first b + length xs" "m_first b < cb_capacity b"
proof -
  have c: "0 < cb_capacity b" "length xs \<le> cb_capacity b" "0 < length xs" using ring_capacity [OF r] ne by (cases xs; simp)+
  from c(1) show f: "m_first b < cb_capacity b" by (rule ring_first_lt [OF r])
  have "m_last b = (if m_first b + length xs < cb_capacity b then m_first b + length xs
      else m_first b + length xs - cb_capacity b)"
    using ring_parts(2) [OF r] f c by (auto simp: mod_if)
  then show "m_last b + cb_capacity b = m_first b + length xs" using wr c by (auto split: if_splits)
qed

lemma wrapped_slot:
  assumes r: "ring b xs rest" and f: "m_first b < cb_capacity b" and i: "i < cb_capacity b"
  shows "cb_mem b ! i = (map Some xs @ rest) ! (if i < m_first b then i + cb_capacity b - m_first b else i - m_first b)"
proof -
  let ?c = "cb_capacity b" and ?f = "m_first b"
  let ?j = "if i < ?f then i + ?c - ?f else i - ?f"
  have j: "?j < length (cb_mem b)" "(?f + ?j) mod length (cb_mem b) = i"
    using f i ring_parts(5) [OF r] by (auto simp: mod_if)
  then show ?thesis using nth_rotate [OF j(1), of ?f] ring_parts(1) [OF r] by simp
qed

lemma moving_start:
  assumes r: "ring b xs rest" and ne: "xs \<noteq> []" and wr: "m_last b \<le> m_first b" "m_last b \<noteq> 0"
  shows "\<exists>vm. moving b xs vm 0 (m_first b) (m_first b) 0 (cb_mem b)"
proof -
  let ?c = "cb_capacity b" and ?f = "m_first b" and ?L = "linear (cb_capacity b) xs" and ?n = "length xs"
  note w = wrapped_ring [OF assms] and rd = ring_parts [OF r] and cap = ring_capacity [OF r]
  let ?vm = "drop (?c - ?f) ?L @ take (?c - ?f) ?L"
  let ?j = "\<lambda>i. if i < ?f then i + ?c - ?f else i - ?f"
  have L: "length ?L = ?c" using cap by (simp add: linear_def)
  have vm: "?vm ! i = ?L ! ?j i" if "i < ?c" for i
    using L w(2) that by (auto simp: nth_append algebra_simps)
  have m: "cb_mem b ! i = (map Some xs @ rest) ! ?j i" if "i < ?c" for i
    using wrapped_slot [OF r w(2) that] .
  have j: "?j i < ?c" "?j i < ?n \<longleftrightarrow> \<not> (m_last b \<le> i \<and> i < ?f)" if "i < ?c" for i
    using that w by auto
  have "moving b xs ?vm 0 ?f ?f 0 (cb_mem b)"
    unfolding moving_def
  proof (intro conjI impI allI)
    show "pending ?vm 0 ?f ?f = drop 0 ?L" using L w(2) by (simp add: pending_def)
  next
    fix i assume i: "i < ?c" "?vm ! i \<noteq> None"
    then have "?j i < ?n" using vm [of i] j(1) [of i] by (auto simp: linear_def nth_append split: if_splits)
    then show "cb_mem b ! i = ?vm ! i" using vm [of i] m [of i] i(1) by (auto simp: linear_def nth_append)
  next
    fix i assume i: "i < ?c" "max 0 (m_last b) \<le> i \<and> i < ?f"
    then have "\<not> ?j i < ?n" using j(2) [of i] by simp
    then show "?vm ! i = None" using vm [of i] j(1) [of i] i(1) by (auto simp: linear_def nth_append)
  next
    fix i assume i: "i < ?c" "cb_mem b ! i = None"
    then have "\<not> ?j i < ?n" using m [of i] by (auto simp: nth_append split: if_splits)
    then show "max 0 (m_last b) \<le> i" "i < ?f" using j(2) [of i] i(1) by auto
  next
    fix i assume i: "\<not> cb_scalar b" "i < ?c" "max 0 (m_last b) \<le> i \<and> i < ?f"
    then have "\<not> ?j i < ?n" using j(2) [of i] by simp
    then have "cb_mem b ! i \<in> set rest" using m [OF i(2)] j(1) [OF i(2)] cap by (auto simp: nth_append)
    then show "cb_mem b ! i = None" using rd(4) [OF i(1)] by auto
  qed (use L w rd(5) in auto)
  then show ?thesis by blast
qed

lemma moving_end:
  assumes mv: "moving b xs vm d d d k m" and w: "m_last b + cb_capacity b = m_first b + length xs" "m_last b \<le> m_first b"
    and c: "m_first b < cb_capacity b" "length xs \<le> cb_capacity b"
  obtains m' where "linearize_destroy (cb_capacity b - k) (b\<lparr>cb_mem := m\<rparr>) = Some (b\<lparr>cb_mem := m'\<rparr>)"
    "length m' = cb_capacity b" "take (length xs) m' = map Some xs" "\<not> cb_scalar b \<Longrightarrow> set (drop (length xs) m') \<subseteq> {None}"
proof -
  note D = movingD [OF mv]
  let ?c = "cb_capacity b" and ?n = "length xs" and ?k = "cb_capacity b - k"
  let ?m = "if cb_scalar b then m else take ?k m @ replicate (?c - ?k) None"
  have "vm = linear ?c xs" using D(7,8) by (metis append_take_drop_id pending_done)
  then have el: "m ! i = Some (xs ! i)" if "i < ?n" for i
    using D(9) [of i] that c(2) by (simp add: linear_def nth_append)
  have n: "?n \<le> ?k" using D(13) w by auto
  have "linearize_destroy ?k (b\<lparr>cb_mem := m\<rparr>) = Some (b\<lparr>cb_mem := ?m\<rparr>)"
  proof -
    have "m ! i \<noteq> None" if "?k \<le> i" "i < ?c" for i
    proof
      assume "m ! i = None"
      from D(11) [OF that(2) this] show False using that D(3,13) w by auto
    qed
    then show ?thesis using linearize_destroy_off [of ?k "b\<lparr>cb_mem := m\<rparr>"] D(2) by auto
  qed
  moreover have "length ?m = ?c" using D(2) by simp
  moreover have "take ?n ?m = map Some xs" using el n D(2) c(2) by (auto intro!: nth_equalityI)
  moreover have "set (drop ?n ?m) \<subseteq> {None}" if sc: "\<not> cb_scalar b"
  proof -
    have "m ! i = None" if i: "?n \<le> i" "i < ?k" for i
    proof -
      have "d = ?n" if "d < m_first b" "?n < ?c"
      proof (rule ccontr)
        assume "d \<noteq> ?n"
        then have "d < ?n" using D(3) by simp
        then show False using el [of "max d (m_last b)"] D(12) [of "max d (m_last b)"] sc w c that by auto
      qed
      then have "max d (m_last b) \<le> i \<and> i < m_first b" using i D(3,13) w c by (cases "d < m_first b") auto
      then show ?thesis using D(12) [of i] sc i by auto
    qed
    then show ?thesis using sc D(2) n by (auto simp: in_set_conv_nth)
  qed
  ultimately show thesis by (rule that)
qed

lemma linear_block:
  assumes r: "ring b xs rest" and f: "m_first b + length xs \<le> cb_capacity b"
  shows "take (length xs) (drop (m_first b) (cb_mem b)) = map Some xs"
proof (cases "xs = []")
  case False
  then have "m_first b < length (cb_mem b)" using f ring_parts(5) [OF r] by (cases xs) auto
  then have "drop (m_first b) (cb_mem b) @ take (m_first b) (cb_mem b) = map Some xs @ rest"
    using ring_parts(1) [OF r] by (simp add: rotate_drop_take)
  then have "take (length xs) (drop (m_first b) (cb_mem b) @ take (m_first b) (cb_mem b)) = map Some xs" by simp
  then show ?thesis using f ring_parts(5) [OF r] by simp
qed simp

lemma linearize_ring:
  assumes r: "ring b xs rest"
  shows "\<exists>p b'. cb_linearize b = Some (p, b') \<and> becomes b (Some b') xs \<and> (xs \<noteq> [] \<longrightarrow> is_linearized b')
    \<and> p = (if xs = [] then None else Some (m_first b')) \<and> take (length xs) (drop (m_first b') (cb_mem b')) = map Some xs"
proof -
  let ?c = "cb_capacity b" and ?n = "length xs"
  note cap = ring_capacity [OF r] and rd = ring_parts [OF r]
  consider "xs = []" | "xs \<noteq> []" "is_linearized b" | "xs \<noteq> []" "\<not> is_linearized b" by blast
  then show ?thesis
  proof cases
    case 1
    then show ?thesis using r by (auto simp: cb_linearize_def ring_tests [OF r] becomes_def)
  next
    case 2
    then have "m_first b < ?c" using ring_first_lt [OF r] cap by (cases xs) auto
    then have "m_first b + ?n \<le> ?c"
      using 2 rd(2) cap by (auto simp: is_linearized_def mod_if split: if_splits)
    then show ?thesis using 2 r linear_block [OF r]
      by (auto simp: cb_linearize_def ring_tests [OF r] becomes_def is_linearized_def)
  next
    case 3
    then have wr: "m_last b \<le> m_first b" "m_last b \<noteq> 0" by (auto simp: is_linearized_def)
    note w = wrapped_ring [OF r 3(1) wr]
    obtain vm where "moving b xs vm 0 (m_first b) (m_first b) 0 (cb_mem b)" using moving_start [OF r 3(1) wr] by blast
    from linearize_outer_moving [OF this wr(1)] obtain vm1 d k m
      where o: "linearize_outer (m_first b) 0 0 (m_first b) 0 b = Some (k, b\<lparr>cb_mem := m\<rparr>)"
      and mv: "moving b xs vm1 d d d k m" using w(2) cap rd(3) by auto
    obtain m' where m': "linearize_destroy (?c - k) (b\<lparr>cb_mem := m\<rparr>) = Some (b\<lparr>cb_mem := m'\<rparr>)" "length m' = ?c"
      "take ?n m' = map Some xs" "\<not> cb_scalar b \<Longrightarrow> set (drop ?n m') \<subseteq> {None}"
      using moving_end [OF mv w(1) wr(1) w(2)] cap by auto
    let ?b = "b\<lparr>cb_mem := m', m_first := 0, m_last := cb_add b 0 ?n\<rparr>"
    have l: "cb_add b 0 ?n = ?n mod ?c" using cap w(2) by (auto simp: cb_add_def mod_if)
    have "m' = map Some xs @ drop ?n m'" using m'(3) by (metis append_take_drop_id)
    then have "ring ?b xs (drop ?n m')" using m'(2,4) rd(3) w(2) by (simp add: ring_def l)
    then have "becomes b (Some ?b) xs" using m'(2) by (auto simp: becomes_def)
    moreover have "cb_linearize b = Some (Some 0, ?b)"
      using 3 wr o m'(1,2) movingD(2) [OF mv] rd(3)
      by (simp add: cb_linearize_def ring_tests [OF r] is_linearized_def cb_size_def)
    moreover have "is_linearized ?b" using l 3(1) cap by (auto simp: is_linearized_def mod_if)
    ultimately show ?thesis using 3 m'(3) by auto
  qed
qed

end
