(* ===== verification/Circular_Input.thy ===== *)
theory Circular_Input
  imports Circular_Capacity
begin

text \<open>
  The members of \<^verbatim>\<open>circular_buffer\<close> that take a pair of input iterators, which can be read only once: the
  elements such a pair yields are a list that the loops consume. Also \<^verbatim>\<open>swap\<close>, which the assignment from
  input iterators and the moves are built on, and the overloads whose capacity is the number of elements.
\<close>

subsection \<open>Swapping and moving\<close>

text \<open>\<^verbatim>\<open>adl_move_swap\<close> of the five members; both buffers have the same element type.\<close>

definition cb_swap :: "'a circular_buffer \<Rightarrow> 'a circular_buffer \<Rightarrow> 'a circular_buffer \<times> 'a circular_buffer" where
  "cb_swap a b =
     (a\<lparr>cb_mem := cb_mem b, m_first := m_first b, m_last := m_last b, m_size := m_size b\<rparr>,
      b\<lparr>cb_mem := cb_mem a, m_first := m_first a, m_last := m_last a, m_size := m_size a\<rparr>)"

text \<open>The destructor of a temporary: its elements must be destructible.\<close>

definition destroy_temporary :: "'a circular_buffer \<Rightarrow> unit option" where
  "destroy_temporary tmp = map_option (\<lambda>_. ()) (destroy_content tmp)"

text \<open>The move operations return the new value of the target and of the source.\<close>

definition cb_move :: "'a circular_buffer \<Rightarrow> 'a circular_buffer \<times> 'a circular_buffer" where
  "cb_move cb = (let (cb1, this) = cb_swap cb (cb_default (cb_scalar cb)) in (this, cb1))"

definition cb_move_assign :: "'a circular_buffer \<Rightarrow> 'a circular_buffer \<Rightarrow> ('a circular_buffer \<times> 'a circular_buffer) option" where
  "cb_move_assign cb this =
     (let (cb1, this1) = cb_swap cb this; (tmp, cb2) = cb_swap (cb_default (cb_scalar cb1)) cb1 in
      do { _ \<leftarrow> destroy_temporary tmp; Some (this1, cb2) })"

subsection \<open>Construction\<close>

fun initialize_construct_loop :: "'a list \<Rightarrow> 'a circular_buffer \<Rightarrow> ('a list \<times> 'a circular_buffer) option" where
  "initialize_construct_loop [] b = Some ([], b)"
| "initialize_construct_loop (x # xs) b =
     (if cb_full b then Some (x # xs, b)
      else do {
        b1 \<leftarrow> cb_construct (m_last b) x b;
        initialize_construct_loop xs (b1\<lparr>m_last := cb_increment b1 (m_last b1), m_size := m_size b1 + 1\<rparr>) })"

fun initialize_replace_loop :: "'a list \<Rightarrow> 'a circular_buffer \<Rightarrow> 'a circular_buffer option" where
  "initialize_replace_loop [] b = Some b"
| "initialize_replace_loop (x # xs) b = do {
     b1 \<leftarrow> cb_replace (m_last b) x b;
     let l = cb_increment b1 (m_last b1);
     initialize_replace_loop xs (b1\<lparr>m_last := l, m_first := l\<rparr>) }"

definition cb_of_input :: "bool \<Rightarrow> nat \<Rightarrow> nat \<Rightarrow> 'a list \<Rightarrow> cb_error + 'a circular_buffer" where
  "cb_of_input sc mx buffer_capacity items =
     (case cb_allocate mx buffer_capacity of Inl e \<Rightarrow> Inl e
      | Inr buff \<Rightarrow>
          (let b = \<lparr>cb_scalar = sc, cb_mem = buff, m_first = 0, m_last = 0, m_size = 0\<rparr> in
           if buffer_capacity = 0 then Inr b
           else defined (do {
             (items1, b1) \<leftarrow> initialize_construct_loop items b;
             initialize_replace_loop items1 b1 })))"

text \<open>A full buffer from a range, through a \<^verbatim>\<open>deque\<close> of the elements, and from copies of an item.\<close>

definition cb_of_items :: "bool \<Rightarrow> nat \<Rightarrow> 'a list \<Rightarrow> cb_error + 'a circular_buffer" where
  "cb_of_items sc mx items = (let tmp = items; distance = length tmp in cb_of_range sc mx distance tmp)"

definition cb_of_count :: "bool \<Rightarrow> nat \<Rightarrow> nat \<Rightarrow> 'a \<Rightarrow> cb_error + 'a circular_buffer" where
  "cb_of_count sc mx n item =
     (case cb_allocate mx n of Inl e \<Rightarrow> Inl e
      | Inr buff \<Rightarrow> defined (do {
          buff1 \<leftarrow> uninitialized_fill_n sc n item 0 buff;
          Some \<lparr>cb_scalar = sc, cb_mem = buff1, m_first = 0, m_last = 0, m_size = n\<rparr> }))"

subsection \<open>Insertion\<close>

fun insert_input_loop :: "'a list \<Rightarrow> nat option \<Rightarrow> 'a circular_buffer \<Rightarrow> 'a circular_buffer option" where
  "insert_input_loop [] pos b = Some b"
| "insert_input_loop (x # xs) pos b = do {
     (pos1, b1) \<leftarrow> cb_insert pos x b;
     pos2 \<leftarrow> it_next b1 pos1;
     insert_input_loop xs pos2 b1 }"

definition insert_input :: "nat option \<Rightarrow> 'a list \<Rightarrow> 'a circular_buffer \<Rightarrow> 'a circular_buffer option" where
  "insert_input pos items b =
     (if \<not> cb_full b \<or> pos \<noteq> cb_begin b then insert_input_loop items pos b else Some b)"

fun rinsert_input_loop :: "'a list \<Rightarrow> nat option \<Rightarrow> 'a circular_buffer \<Rightarrow> 'a circular_buffer option" where
  "rinsert_input_loop [] pos b = Some b"
| "rinsert_input_loop (x # xs) pos b = do {
     (pos1, b1) \<leftarrow> cb_rinsert pos x b;
     if pos1 = None then Some b1
     else do {
       pos2 \<leftarrow> it_next b1 pos1;
       rinsert_input_loop xs pos2 b1 } }"

definition rinsert_input :: "nat option \<Rightarrow> 'a list \<Rightarrow> 'a circular_buffer \<Rightarrow> 'a circular_buffer option" where
  "rinsert_input pos items b =
     (if \<not> cb_full b \<or> pos \<noteq> None then rinsert_input_loop items pos b else Some b)"

subsection \<open>Assignment\<close>

definition cb_assign_items :: "nat \<Rightarrow> 'a list \<Rightarrow> 'a circular_buffer \<Rightarrow> cb_error + 'a circular_buffer" where
  "cb_assign_items mx items b =
     (let tmp = items; distance = length tmp in
      cb_assign_n mx distance distance (\<lambda>mem. map_option snd (uninitialized_copy (cb_scalar b) tmp 0 mem)) b)"

definition cb_assign_fill :: "nat \<Rightarrow> nat \<Rightarrow> 'a \<Rightarrow> 'a circular_buffer \<Rightarrow> cb_error + 'a circular_buffer" where
  "cb_assign_fill mx n item b = cb_assign_n mx n n (uninitialized_fill_n (cb_scalar b) n item 0) b"

definition cb_assign_input :: "nat \<Rightarrow> nat \<Rightarrow> 'a list \<Rightarrow> 'a circular_buffer \<Rightarrow> cb_error + 'a circular_buffer" where
  "cb_assign_input mx new_capacity items b =
     (if new_capacity = cb_capacity b then defined (do {
        b1 \<leftarrow> cb_clear b;
        insert_input (cb_begin b1) items b1 })
      else (case cb_of_input (cb_scalar b) mx new_capacity items of Inl e \<Rightarrow> Inl e
        | Inr tmp \<Rightarrow>
            (let (tmp1, b1) = cb_swap tmp b in
             defined (do { _ \<leftarrow> destroy_temporary tmp1; Some b1 }))))"

subsection \<open>Construction and moves against the list\<close>

lemma swap_ring:
  assumes "ring a xs ra" "ring b ys rb" "cb_scalar a = cb_scalar b" "cb_swap a b = (a', b')"
  shows "ring a' ys rb" "ring b' xs ra" "cb_capacity a' = cb_capacity b" "cb_capacity b' = cb_capacity a"
    "cb_scalar a' = cb_scalar a" "cb_scalar b' = cb_scalar b"
proof -
  have a': "a' = a\<lparr>cb_mem := cb_mem b, m_first := m_first b, m_last := m_last b, m_size := m_size b\<rparr>"
    and b': "b' = b\<lparr>cb_mem := cb_mem a, m_first := m_first a, m_last := m_last a, m_size := m_size a\<rparr>"
    using assms(4) by (simp_all only: cb_swap_def prod.inject)
  show "ring a' ys rb" using assms(2,3) unfolding a' ring_def cb_capacity_def by simp
  show "ring b' xs ra" using assms(1,3) unfolding b' ring_def cb_capacity_def by simp
  show "cb_capacity a' = cb_capacity b" "cb_capacity b' = cb_capacity a" "cb_scalar a' = cb_scalar a" "cb_scalar b' = cb_scalar b"
    by (simp_all add: a' b' cb_capacity_def)
qed

lemma default_ring: "ring (cb_default sc) [] []"
  by (simp add: ring_def cb_default_def cb_capacity_def)

lemma destroy_temporary_ring: "ring b xs rest \<Longrightarrow> destroy_temporary b = Some ()"
  using destroy_content_ring [of b xs rest] by (auto simp: destroy_temporary_def)

lemma move_ring:
  assumes r: "ring b xs rest" and m: "cb_move b = (this, b')"
  shows "ring this xs rest" "cb_capacity this = cb_capacity b" "cb_scalar this = cb_scalar b" "ring b' [] []"
proof -
  have "cb_swap b (cb_default (cb_scalar b)) = (b', this)" using m by (simp add: cb_move_def split: prod.splits)
  from swap_ring [OF r default_ring _ this] show "ring this xs rest" "cb_capacity this = cb_capacity b" "cb_scalar this = cb_scalar b" "ring b' [] []"
    by (simp_all add: cb_default_def)
qed

lemma move_assign_ring:
  assumes r: "ring cb xs rest" and r2: "ring this ys rest2" and sc: "cb_scalar cb = cb_scalar this"
  obtains this' cb' where "cb_move_assign cb this = Some (this', cb')" "ring this' xs rest"
    "cb_capacity this' = cb_capacity cb" "ring cb' [] []"
proof -
  obtain cb1 this1 where s1: "cb_swap cb this = (cb1, this1)" by (cases "cb_swap cb this")
  note w1 = swap_ring [OF r r2 sc s1]
  obtain tmp cb2 where s2: "cb_swap (cb_default (cb_scalar cb1)) cb1 = (tmp, cb2)" by (cases "cb_swap (cb_default (cb_scalar cb1)) cb1")
  have w2: "ring tmp ys rest2" "ring cb2 [] []" using swap_ring(1,2) [OF default_ring w1(1) _ s2] by (simp_all add: cb_default_def)
  have "cb_move_assign cb this = Some (this1, cb2)"
    using s1 s2 destroy_temporary_ring [OF w2(1)] by (simp add: cb_move_assign_def)
  then show thesis using w1(2,4) w2(2) by (rule that)
qed

lemma construct_loop_is_push_back:
  "\<not> cb_full b \<Longrightarrow> initialize_construct_loop (x # xs) b = Option.bind (cb_push_back x b) (initialize_construct_loop xs)"
  by (cases "cb_construct (m_last b) x b") (simp_all add: cb_push_back_def)

lemma replace_loop_is_push_back:
  "cb_full b \<Longrightarrow> \<not> cb_empty b \<Longrightarrow> initialize_replace_loop (x # xs) b = Option.bind (cb_push_back x b) (initialize_replace_loop xs)"
  by (cases "cb_replace (m_last b) x b") (simp_all add: cb_push_back_def Let_def)

lemma construct_loop_ring:
  assumes "ring b xs rest"
  shows "\<exists>b'. initialize_construct_loop items b = Some (drop (length rest) items, b')
    \<and> becomes b (Some b') (xs @ take (length rest) items)"
  using assms
proof (induction items arbitrary: b xs rest)
  case Nil
  then show ?case by (auto simp: becomes_def)
next
  case (Cons x items)
  show ?case
  proof (cases rest)
    case Nil
    then show ?thesis using Cons.prems ring_tests(1) [OF Cons.prems] by (auto simp: becomes_def)
  next
    case (Cons c rest')
    note cap = ring_capacity [OF \<open>ring b xs rest\<close>]
    have "becomes b (cb_push_back x b) (xs @ [x])"
      using push_back_ring [OF Cons.prems, of x] cap Cons by simp
    then obtain b1 rest1 where b1: "cb_push_back x b = Some b1" "ring b1 (xs @ [x]) rest1"
      "cb_capacity b1 = cb_capacity b" "cb_scalar b1 = cb_scalar b" by (rule becomesE)
    have "length rest1 = length rest'" using ring_capacity [OF b1(2)] b1(3) cap Cons by simp
    with Cons.IH [OF b1(2)] obtain b' where b': "initialize_construct_loop items b1 = Some (drop (length rest) (x # items), b')"
      "becomes b1 (Some b') (xs @ take (length rest) (x # items))" using Cons by auto
    have "\<not> cb_full b" using Cons ring_tests(1) [OF \<open>ring b xs rest\<close>] by simp
    note construct_loop_is_push_back [OF this, of x items]
    then have "initialize_construct_loop (x # items) b = initialize_construct_loop items b1" using b1(1) by (simp only: Option.bind.simps)
    then show ?thesis using b' b1(3,4) by (simp only: becomes_def) metis
  qed
qed

lemma replace_loop_ring:
  assumes "ring b xs []" "xs \<noteq> []"
  shows "becomes b (initialize_replace_loop items b) (drop (length items) (xs @ items))"
  using assms
proof (induction items arbitrary: b xs)
  case Nil
  then show ?case by (auto simp: becomes_def)
next
  case (Cons x items)
  note cap = ring_capacity [OF Cons.prems(1)]
  from Cons.prems(2) obtain y ys where xs: "xs = y # ys" by (cases xs) auto
  have "becomes b (cb_push_back x b) (ys @ [x])"
    using push_back_ring [OF Cons.prems(1), of x] cap xs by simp
  then obtain b1 rest1 where b1: "cb_push_back x b = Some b1" "ring b1 (ys @ [x]) rest1"
    "cb_capacity b1 = cb_capacity b" "cb_scalar b1 = cb_scalar b" by (rule becomesE)
  have "rest1 = []" using ring_capacity [OF b1(2)] b1(3) cap xs by simp
  then have "becomes b1 (initialize_replace_loop items b1) (drop (length (x # items)) (xs @ x # items))"
    using Cons.IH [of b1 "ys @ [x]"] b1(2) xs by simp
  moreover have "cb_full b" "\<not> cb_empty b" using xs ring_tests(1,2) [OF Cons.prems(1)] by auto
  note replace_loop_is_push_back [OF this, of x items]
  then have "initialize_replace_loop (x # items) b = initialize_replace_loop items b1" using b1(1) by (simp only: Option.bind.simps)
  ultimately show ?case using b1(3,4) by (simp only: becomes_def)
qed

lemma of_input_ring:
  assumes "c \<le> mx"
  shows "yields c sc (cb_of_input sc mx c items) (drop (length items - c) items)"
proof -
  let ?b = "\<lparr>cb_scalar = sc, cb_mem = replicate c None, m_first = 0, m_last = 0, m_size = 0\<rparr> :: 'a circular_buffer"
  have r: "ring ?b [] (replicate c None)" and c: "cb_capacity ?b = c" by (auto simp: ring_def cb_capacity_def)
  show ?thesis
  proof (cases "c = 0")
    case True
    then have "cb_of_input sc mx c items = Inr ?b" by (simp add: cb_of_input_def)
    from yieldsI [OF r this c] True show ?thesis by simp
  next
    case False
    obtain b1 where l: "initialize_construct_loop items ?b = Some (drop c items, b1)" and "becomes ?b (Some b1) (take c items)"
      using construct_loop_ring [OF r, of items] by auto
    then obtain rest1 where b1: "ring b1 (take c items) rest1" "cb_capacity b1 = c" "cb_scalar b1 = sc"
      by (auto simp: becomes_def cb_capacity_def)
    have "becomes b1 (initialize_replace_loop (drop c items) b1) (drop (length items - c) items)"
    proof (cases "length items \<le> c")
      case True
      then show ?thesis using b1 by (auto simp: becomes_def)
    next
      case gt: False
      then have "rest1 = []" using ring_capacity [OF b1(1)] b1(2) by simp
      then have "becomes b1 (initialize_replace_loop (drop c items) b1) (drop (length (drop c items)) (take c items @ drop c items))"
        using b1(1) False gt by (intro replace_loop_ring) auto
      then show ?thesis by simp
    qed
    from becomes_yields [OF this] show ?thesis using l False assms b1 by (simp add: cb_of_input_def)
  qed
qed

lemma of_input_refuses: "mx < c \<Longrightarrow> cb_of_input sc mx c items = Inl LengthError"
  by (simp add: cb_of_input_def)

subsection \<open>Insertion element by element\<close>

text \<open>What the loops of a single insertion leave alone, and the iterator it returns.\<close>

lemma insert_item_loop_frame:
  assumes "insert_item_loop p src dest k b = Some b'"
  shows "\<exists>m. b' = b\<lparr>cb_mem := m\<rparr> \<and> length m = cb_capacity b"
proof (rule insert_item_loop.raw_induct [where P = "\<lambda>p src dest k b b'. \<exists>m. b' = b\<lparr>cb_mem := m\<rparr> \<and> length m = cb_capacity b", OF _ assms], goal_cases)
  case (1 loop p src dest k b b')
  show ?case
  proof (cases "src = p")
    case True
    then show ?thesis using 1(2) by (auto simp: cb_capacity_def intro!: exI [of _ "cb_mem b'"])
  next
    case False
    then obtain x b1 where b1: "construct_or_replace k dest x b = Some b1" "loop p (cb_decrement b src) (cb_decrement b dest) False b1 = Some b'"
      using 1(2) by (auto simp: bind_eq_Some_conv)
    from write_capacity [OF b1(1)] 1(1) [OF b1(2)] show ?thesis by auto
  qed
qed

lemma rinsert_loop_frame:
  assumes "rinsert_loop p src dest k b = Some b'"
  shows "\<exists>m. b' = b\<lparr>cb_mem := m\<rparr> \<and> length m = cb_capacity b"
proof (rule rinsert_loop.raw_induct [where P = "\<lambda>p src dest k b b'. \<exists>m. b' = b\<lparr>cb_mem := m\<rparr> \<and> length m = cb_capacity b", OF _ assms], goal_cases)
  case (1 loop p src dest k b b')
  show ?case
  proof (cases "src = p")
    case True
    then show ?thesis using 1(2) by (auto simp: cb_capacity_def intro!: exI [of _ "cb_mem b'"])
  next
    case False
    then obtain x b1 where b1: "construct_or_replace k dest x b = Some b1" "loop p (cb_increment b src) (cb_increment b dest) False b1 = Some b'"
      using 1(2) by (auto simp: bind_eq_Some_conv)
    from write_capacity [OF b1(1)] 1(1) [OF b1(2)] show ?thesis by auto
  qed
qed

lemma insert_item_iterator:
  assumes "insert_item pos x b = Some (it, b')"
  shows "it = Some (map_pointer b pos)" "m_first b' = (if cb_full b then cb_increment b (m_last b) else m_first b)"
proof -
  obtain m where "length m = cb_capacity b" and
    "(it, b') = (Some (map_pointer b pos), if cb_full (b\<lparr>cb_mem := m\<rparr>)
       then b\<lparr>cb_mem := m, m_last := cb_increment (b\<lparr>cb_mem := m\<rparr>) (m_last b), m_first := cb_increment (b\<lparr>cb_mem := m\<rparr>) (m_last b)\<rparr>
       else b\<lparr>cb_mem := m, m_last := cb_increment (b\<lparr>cb_mem := m\<rparr>) (m_last b), m_size := m_size b + 1\<rparr>)"
  proof (cases pos)
    case None
    then obtain b1 where b: "construct_or_replace (\<not> cb_full b) (m_last b) x b = Some b1"
      using assms by (auto simp: insert_item_def bind_eq_Some_conv)
    from write_capacity [OF b] obtain m where "b1 = b\<lparr>cb_mem := m\<rparr>" "length m = cb_capacity b" by auto
    then show thesis using None assms b by (intro that [of m]) (auto simp: insert_item_def Let_def map_pointer_def)
  next
    case (Some p)
    then obtain b1 b2 where b: "insert_item_loop p (m_last b) (m_last b) (\<not> cb_full b) b = Some b1" "construct_or_replace False p x b1 = Some b2"
      using assms by (auto simp: insert_item_def bind_eq_Some_conv)
    from insert_item_loop_frame [OF b(1)] write_capacity [OF b(2)] obtain m where "b2 = b\<lparr>cb_mem := m\<rparr>" "length m = cb_capacity b" by auto
    then show thesis using Some assms b by (intro that [of m]) (auto simp: insert_item_def Let_def map_pointer_def)
  qed
  then show "it = Some (map_pointer b pos)" "m_first b' = (if cb_full b then cb_increment b (m_last b) else m_first b)"
    by (auto split: if_splits)
qed

lemma rinsert_frame:
  assumes "cb_rinsert pos x b = Some (it, b')" "\<not> (cb_full b \<and> pos = None)"
  shows "m_first b' = cb_decrement b (m_first b)"
    "it = Some (cb_decrement b (if pos = cb_begin b then m_first b else map_pointer b pos))"
proof -
  let ?d = "cb_decrement b (m_first b)"
  obtain m where "length m = cb_capacity b" and
    "(it, b') = (Some (cb_decrement b (if pos = cb_begin b then m_first b else map_pointer b pos)),
       if cb_full (b\<lparr>cb_mem := m, m_first := ?d\<rparr>) then b\<lparr>cb_mem := m, m_first := ?d, m_last := ?d\<rparr>
       else b\<lparr>cb_mem := m, m_first := ?d, m_size := m_size b + 1\<rparr>)"
  proof (cases "pos = cb_begin b")
    case True
    then obtain b1 where b: "construct_or_replace (\<not> cb_full b) ?d x (b\<lparr>m_first := ?d\<rparr>) = Some b1"
      using assms by (auto simp: cb_rinsert_def bind_eq_Some_conv Let_def)
    have "cb_rinsert pos x b = Some (Some ?d, if cb_full b1 then b1\<lparr>m_last := m_first b1\<rparr> else b1\<lparr>m_size := m_size b1 + 1\<rparr>)"
      using True assms(2) b by (auto simp: cb_rinsert_def Let_def)
    then have e: "(it, b') = (Some ?d, if cb_full b1 then b1\<lparr>m_last := m_first b1\<rparr> else b1\<lparr>m_size := m_size b1 + 1\<rparr>)"
      using assms(1) by simp
    from write_capacity [OF b] obtain m where m: "b1 = b\<lparr>m_first := ?d, cb_mem := m\<rparr>" "length m = cb_capacity b" by auto
    show thesis by (rule that [OF m(2)]) (use True e m in \<open>simp add: cb_full_def cb_size_def\<close>)
  next
    case False
    let ?p = "map_pointer b pos"
    obtain b1 b2 where b: "rinsert_loop ?p (m_first b) ?d (\<not> cb_full b) b = Some b1"
      "construct_or_replace False (cb_decrement b ?p) x b1 = Some b2"
      using False assms by (auto simp: cb_rinsert_def bind_eq_Some_conv Let_def)
    from rinsert_loop_frame [OF b(1)] write_capacity [OF b(2)] obtain m where m: "b2 = b\<lparr>cb_mem := m\<rparr>" "length m = cb_capacity b" by auto
    let ?b = "b2\<lparr>m_first := cb_decrement b2 (m_first b2)\<rparr>"
    have "(it, b') = (Some (cb_decrement b ?p), if cb_full ?b then ?b\<lparr>m_last := m_first ?b\<rparr> else ?b\<lparr>m_size := m_size ?b + 1\<rparr>)"
      using False assms b by (simp add: cb_rinsert_def Let_def)
    then show thesis using False m by (intro that [of m]) simp_all
  qed
  then show "m_first b' = ?d" "it = Some (cb_decrement b (if pos = cb_begin b then m_first b else map_pointer b pos))"
    by (auto split: if_splits)
qed

lemma map_pointer_at: "ring b xs rest \<Longrightarrow> i \<le> length xs \<Longrightarrow> map_pointer b (it_at b i) = (m_first b + i) mod cb_capacity b"
  using ring_parts(2,3) [of b xs rest] by (auto simp: map_pointer_def it_at_def)

lemma insert_iterator:
  assumes r: "ring b xs rest" and i: "i \<le> length xs" and nf: "rest = [] \<Longrightarrow> 0 < i"
  obtains b' rest' where "cb_insert (it_at b i) x b = Some (it_at b' (if rest = [] then i - 1 else i), b')"
    "ring b' (drop (length xs + 1 - cb_capacity b) (take i xs @ x # drop i xs)) rest'"
    "cb_capacity b' = cb_capacity b" "cb_scalar b' = cb_scalar b"
proof -
  let ?c = "cb_capacity b" and ?f = "m_first b" and ?j = "if rest = [] then i - 1 else i"
  note cap = ring_capacity [OF r]
  have c: "0 < ?c" using cap nf i by (cases rest) auto
  obtain it b' rest' where b': "cb_insert (it_at b i) x b = Some (it, b')" "cb_capacity b' = ?c" "cb_scalar b' = cb_scalar b"
    and rg: "ring b' (drop (length xs + 1 - ?c) (take i xs @ x # drop i xs)) rest'"
    using insert_ring [OF r i, of x] by (auto elim!: becomesE)
  have "\<not> (cb_full b \<and> it_at b i = cb_begin b)"
    using nf begin_at [OF r] at_inject [OF r, of i 0] i ring_tests(1) [OF r] by auto
  then have it: "it = Some ((?f + i) mod ?c)" "m_first b' = (if rest = [] then cb_increment b (m_last b) else ?f)"
    using insert_item_iterator [of "it_at b i" x b it b'] b'(1) map_pointer_at [OF r i] ring_tests(1) [OF r]
    by (auto simp: cb_insert_def)
  have "cb_increment b (m_last b) = (?f + Suc (length xs)) mod ?c"
    using increment_off [OF c, of ?f "length xs"] ring_parts(2) [OF r] by simp
  moreover have "(?f + Suc ?c) mod ?c = (?f + 1) mod ?c" by (metis Suc_eq_plus1 add.assoc add.commute mod_add_self2)
  ultimately have "m_first b' = (if rest = [] then (?f + 1) mod ?c else ?f)" using it(2) cap by (cases rest) auto
  then have "(m_first b' + ?j) mod ?c = (?f + i) mod ?c"
    using off_off [of ?f 1 ?c "i - 1"] nf by (cases "rest = []") simp_all
  moreover have "?j < m_size b'" using ring_parts(3) [OF rg] cap i nf by (cases rest) auto
  ultimately have "it = it_at b' ?j" using it(1) b'(2) by (simp add: it_at_def)
  then show thesis using that b' rg by simp
qed

lemma rinsert_iterator:
  assumes r: "ring b xs rest" and i: "i \<le> length xs" and nf: "rest = [] \<Longrightarrow> i < length xs"
  obtains b' rest' where "cb_rinsert (it_at b i) x b = Some (it_at b' i, b')"
    "ring b' (take (cb_capacity b) (take i xs @ x # drop i xs)) rest'"
    "cb_capacity b' = cb_capacity b" "cb_scalar b' = cb_scalar b"
proof -
  let ?c = "cb_capacity b" and ?f = "m_first b"
  note cap = ring_capacity [OF r]
  have c: "0 < ?c" using cap nf by (cases rest) auto
  then have f: "?f < ?c" using ring_first_lt [OF r] by simp
  obtain it b' rest' where b': "cb_rinsert (it_at b i) x b = Some (it, b')" "cb_capacity b' = ?c" "cb_scalar b' = cb_scalar b"
    and rg: "ring b' (take ?c (take i xs @ x # drop i xs)) rest'"
    using rinsert_ring [OF r i, of x] by (auto elim!: becomesE)
  have "\<not> (cb_full b \<and> it_at b i = None)" using nf ring_tests(1) [OF r] ring_parts(3) [OF r] by (auto simp: it_at_def)
  note fr = rinsert_frame [OF b'(1) this]
  have "(if it_at b i = cb_begin b then ?f else map_pointer b (it_at b i)) = (?f + i) mod ?c"
    using map_pointer_at [OF r i] begin_at [OF r] at_inject [OF r i, of 0] f by auto
  then have "it = Some (((?f + i) mod ?c + (?c - 1)) mod ?c)" using fr(2) c decrement_lt [of "(?f + i) mod ?c" b] by simp
  then have "it = Some ((m_first b' + i) mod ?c)" unfolding fr(1) decrement_lt [OF f] off_off by (simp add: add.commute)
  moreover have "i < m_size b'" using ring_parts(3) [OF rg] cap i nf by (cases rest) auto
  ultimately have "it = it_at b' i" using b'(2) by (simp add: it_at_def)
  then show thesis using that b' rg by simp
qed

lemma becomes_same: "becomes b1 r ys \<Longrightarrow> cb_capacity b1 = cb_capacity b \<Longrightarrow> cb_scalar b1 = cb_scalar b \<Longrightarrow> becomes b r ys"
  by (simp add: becomes_def)

lemma insert_input_loop_ring:
  assumes "ring b (us @ vs) rest" "rest = [] \<Longrightarrow> us \<noteq> []"
  shows "becomes b (insert_input_loop items (it_at b (length us)) b)
    (drop (length us + length items + length vs - cb_capacity b) (us @ items) @ vs)"
  using assms
proof (induction items arbitrary: b us rest)
  case Nil
  then show ?case using ring_capacity [OF Nil(1)] by (auto simp: becomes_def)
next
  case (Cons x items)
  let ?c = "cb_capacity b" and ?j = "if rest = [] then length us - 1 else length us"
  note cap = ring_capacity [OF Cons.prems(1)]
  define us' where "us' = drop (length us + length vs + 1 - ?c) (us @ [x])"
  have d: "length us + length vs + 1 - ?c = (if rest = [] then 1 else 0)" using cap by (cases rest) auto
  have l: "length us' = Suc ?j" using Cons.prems(2) unfolding us'_def d by (cases us) auto
  have e: "drop (length (us @ vs) + 1 - ?c) (take (length us) (us @ vs) @ x # drop (length us) (us @ vs)) = us' @ vs"
    using Cons.prems(2) d by (cases "rest = []"; cases us) (simp_all add: us'_def)
  have "length us \<le> length (us @ vs)" "rest = [] \<Longrightarrow> 0 < length us" using Cons.prems(2) by simp_all
  from insert_iterator [OF Cons.prems(1) this, of x, unfolded e]
  obtain b1 rest1 where b1: "cb_insert (it_at b (length us)) x b = Some (it_at b1 ?j, b1)" "ring b1 (us' @ vs) rest1"
    "cb_capacity b1 = ?c" "cb_scalar b1 = cb_scalar b" by blast
  have n: "it_next b1 (it_at b1 ?j) = Some (it_at b1 (length us'))" using next_at [OF b1(2), of ?j] l by simp
  have ne: "us' \<noteq> []" using l by auto
  have "insert_input_loop (x # items) (it_at b (length us)) b = insert_input_loop items (it_at b1 (length us')) b1" using b1(1) n by simp
  moreover have "becomes b (insert_input_loop items (it_at b1 (length us')) b1) (drop (length us' + length items + length vs - ?c) (us' @ items) @ vs)"
    using becomes_same [OF Cons.IH [OF b1(2) ne] b1(3,4)] unfolding b1(3) .
  moreover have "drop (length us' + length items + length vs - ?c) (us' @ items) = drop (length us + length (x # items) + length vs - ?c) (us @ x # items)"
    using cap Cons.prems(2) by (cases rest; cases us) (auto simp: us'_def)
  ultimately show ?case by (simp only:)
qed

lemma insert_input_ring:
  assumes r: "ring b xs rest" and i: "i \<le> length xs"
  shows "becomes b (insert_input (it_at b i) items b) (drop (length xs + length items - cb_capacity b) (take i xs @ items @ drop i xs))"
proof (cases "rest = [] \<and> i = 0")
  case True
  then have "length xs = cb_capacity b" using ring_capacity [OF r] by simp
  then show ?thesis using True r ring_tests(1) [OF r] begin_at [OF r] by (auto simp: insert_input_def becomes_def)
next
  case False
  let ?k = "length xs + length items - cb_capacity b"
  have k: "?k \<le> i + length items" using ring_capacity [OF r] by simp
  have "insert_input (it_at b i) items b = insert_input_loop items (it_at b i) b"
    using False at_inject [OF r i, of 0] begin_at [OF r] ring_tests(1) [OF r] by (auto simp: insert_input_def)
  moreover have "becomes b (insert_input_loop items (it_at b (length (take i xs))) b)
    (drop (length (take i xs) + length items + length (drop i xs) - cb_capacity b) (take i xs @ items) @ drop i xs)"
    by (rule insert_input_loop_ring [where rest = rest]) (use r i False in auto)
  ultimately show ?thesis using i k by (simp add: add.commute)
qed

lemma rinsert_input_loop_ring:
  assumes "ring b (us @ vs) rest"
  shows "becomes b (rinsert_input_loop items (it_at b (length us)) b) (take (cb_capacity b) (us @ items @ vs))"
  using assms
proof (induction items arbitrary: b us vs rest)
  case Nil
  then show ?case using ring_capacity [OF Nil(1)] by (auto simp: becomes_def)
next
  case (Cons x items)
  let ?c = "cb_capacity b"
  note cap = ring_capacity [OF Cons.prems(1)]
  show ?case
  proof (cases "rest = [] \<and> vs = []")
    case True
    then have "cb_rinsert (it_at b (length us)) x b = Some (None, b)"
      using ring_tests(1) [OF Cons.prems] ring_parts(3) [OF Cons.prems] by (simp add: cb_rinsert_def it_at_def cb_end_def)
    then show ?thesis using True Cons.prems cap by (auto simp: becomes_def)
  next
    case False
    then have lt: "length us < ?c" using cap by (cases rest; cases vs) auto
    define vs' where "vs' = take (?c - Suc (length us)) vs"
    have t: "take ?c (us @ x # vs) = (us @ [x]) @ vs'" using lt by (simp add: vs'_def take_Cons')
    obtain b1 rest1 where b1: "cb_rinsert (it_at b (length us)) x b = Some (it_at b1 (length us), b1)" "ring b1 ((us @ [x]) @ vs') rest1"
      "cb_capacity b1 = ?c" "cb_scalar b1 = cb_scalar b"
      using rinsert_iterator [OF Cons.prems, of "length us" x] False t by auto
    have n: "it_next b1 (it_at b1 (length us)) = Some (it_at b1 (length (us @ [x])))" using next_at [OF b1(2), of "length us"] by simp
    have ne: "it_at b1 (length us) \<noteq> None" using ring_parts(3) [OF b1(2)] by (simp add: it_at_def)
    have "becomes b1 (rinsert_input_loop items (it_at b1 (length (us @ [x]))) b1) (take ?c ((us @ [x]) @ items @ vs'))"
      using Cons.IH [OF b1(2)] b1(3) by simp
    moreover have "take ?c ((us @ [x]) @ items @ vs') = take ?c (us @ (x # items) @ vs)"
      using lt by (simp add: vs'_def take_Cons')
    ultimately show ?thesis using b1 n ne by (auto simp: becomes_def)
  qed
qed

lemma rinsert_input_ring:
  assumes r: "ring b xs rest" and i: "i \<le> length xs"
  shows "becomes b (rinsert_input (it_at b i) items b) (take (cb_capacity b) (take i xs @ items @ drop i xs))"
proof (cases "rest = [] \<and> i = length xs")
  case True
  then show ?thesis using r ring_tests(1) [OF r] ring_parts(3) [OF r] ring_capacity [OF r]
    by (auto simp: rinsert_input_def becomes_def it_at_def)
next
  case False
  then have "rinsert_input (it_at b i) items b = rinsert_input_loop items (it_at b i) b"
    using i ring_tests(1) [OF r] ring_parts(3) [OF r] by (auto simp: rinsert_input_def it_at_def)
  then show ?thesis using rinsert_input_loop_ring [of b "take i xs" "drop i xs" rest items] r i by simp
qed

subsection \<open>Assignment\<close>

lemma assign_items_is_range: "cb_assign_items mx items b = cb_assign_range mx (length items) items b"
  by (simp add: cb_assign_items_def cb_assign_range_def)

lemma assign_fill_is_count: "cb_assign_fill mx n item b = cb_assign_count mx n n item b"
  by (simp add: cb_assign_fill_def cb_assign_count_def)

lemma of_count_is_filled: "cb_of_count sc mx n item = cb_filled sc mx n n item"
  by (simp add: cb_of_count_def cb_filled_def)

lemma assign_input_ring:
  assumes r: "ring b xs rest"
  shows "if c = cb_capacity b \<or> c \<le> mx then yields c (cb_scalar b) (cb_assign_input mx c items b) (drop (length items - c) items)
    else cb_assign_input mx c items b = Inl LengthError"
proof (cases "c = cb_capacity b")
  case True
  obtain b1 rest1 where b1: "cb_clear b = Some b1" "ring b1 [] rest1" "cb_capacity b1 = c" "cb_scalar b1 = cb_scalar b"
    using clear_ring [OF r] True by (auto elim!: becomesE)
  have "becomes b1 (insert_input (cb_begin b1) items b1) (drop (length items - c) items)"
    using insert_input_ring [OF b1(2), of 0 items] begin_at [OF b1(2)] b1(3) by simp
  from becomes_yields [OF this] show ?thesis using True b1 by (simp add: cb_assign_input_def)
next
  case False
  show ?thesis
  proof (cases "c \<le> mx")
    case True
    obtain tmp rt where t: "cb_of_input (cb_scalar b) mx c items = Inr tmp" "ring tmp (drop (length items - c) items) rt"
      "cb_capacity tmp = c" "cb_scalar tmp = cb_scalar b"
      using of_input_ring [OF True, of "cb_scalar b" items] by (auto simp: yields_def)
    obtain tmp1 b1 where s: "cb_swap tmp b = (tmp1, b1)" by (cases "cb_swap tmp b")
    note w = swap_ring [OF t(2) r t(4) s]
    show ?thesis using False True t s w destroy_temporary_ring [OF w(1)]
      by (auto simp: cb_assign_input_def yields_def)
  qed (use False in \<open>simp add: cb_assign_input_def of_input_refuses\<close>)
qed

end
