(* ===== verification/Circular_Properties.thy ===== *)
theory Circular_Properties
  imports Circular_Rinsert Circular_Linearize Circular_Input
begin

text \<open>
  The contract of \<^verbatim>\<open>circular_buffer\<close>: a capacity and a list; the members as commands; and what goes
  wrong in the insertion of several elements.
\<close>

subsection \<open>Resizing\<close>

lemma resize_ring:
  assumes r: "ring b xs rest"
  shows "if n \<le> cb_capacity b \<or> n \<le> mx
    then yields (max n (cb_capacity b)) (cb_scalar b) (cb_resize mx n x b) (take n xs @ replicate (n - length xs) x)
    else cb_resize mx n x b = Inl LengthError"
proof (cases "length xs < n")
  case gt: True
  show ?thesis
  proof (cases "n \<le> cb_capacity b \<or> n \<le> mx")
    case True
    then obtain b1 rest1 where b1: "(if n > cb_capacity b then set_capacity mx n b else Inr b) = Inr b1"
      "ring b1 xs rest1" "cb_capacity b1 = max n (cb_capacity b)" "cb_scalar b1 = cb_scalar b"
      using set_capacity_ring [OF r, of n mx] r gt by (cases "n > cb_capacity b") (auto simp: yields_def max_def)
    have "becomes b1 (insert_count (cb_end b1) (n - length xs) x b1) (xs @ replicate (n - length xs) x)"
      using insert_range_ring [OF b1(2), of "length xs" "replicate (n - length xs) x"] end_at [OF b1(2)] b1(3) gt
      by (simp add: insert_count_is_range)
    from becomes_yields [OF this] show ?thesis
      using True b1 gt by (simp add: cb_resize_def ring_tests [OF r] ring_tests [OF b1(2)])
  next
    case False
    then have "set_capacity mx n b = Inl LengthError" using set_capacity_ring [OF r, of n mx] by (auto split: if_splits)
    then show ?thesis using False gt by (simp add: cb_resize_def ring_tests [OF r])
  qed
next
  case False
  then have "becomes b (map_option snd (cb_erase_range (it_at b n) (cb_end b) b)) (take n xs)"
    using erase_range_ring [OF r, of n "length xs"] end_at [OF r] by simp
  moreover have "it_sub b (cb_end b) (length xs - n) = Some (it_at b n)"
    using sub_at [OF r, of "length xs - n" "length xs"] end_at [OF r] False by simp
  ultimately show ?thesis using False ring_capacity [OF r]
    by (auto simp: cb_resize_def ring_tests [OF r] yields_def Let_def max_def elim!: becomesE)
qed

lemma rresize_ring:
  assumes r: "ring b xs rest"
  shows "if n \<le> cb_capacity b \<or> n \<le> mx
    then yields (max n (cb_capacity b)) (cb_scalar b) (cb_rresize mx n x b) (replicate (n - length xs) x @ drop (length xs - n) xs)
    else cb_rresize mx n x b = Inl LengthError"
proof (cases "length xs < n")
  case gt: True
  show ?thesis
  proof (cases "n \<le> cb_capacity b \<or> n \<le> mx")
    case True
    then obtain b1 rest1 where b1: "(if n > cb_capacity b then set_capacity mx n b else Inr b) = Inr b1"
      "ring b1 xs rest1" "cb_capacity b1 = max n (cb_capacity b)" "cb_scalar b1 = cb_scalar b"
      using set_capacity_ring [OF r, of n mx] r gt by (cases "n > cb_capacity b") (auto simp: yields_def max_def)
    have "becomes b1 (rinsert_n (cb_begin b1) (replicate (n - length xs) x) b1) (replicate (n - length xs) x @ xs)"
      using rinsert_n_ring [OF b1(2), of 0 "replicate (n - length xs) x"] begin_at [OF b1(2)] b1(3) gt by simp
    from becomes_yields [OF this] show ?thesis
      using True b1 gt by (simp add: cb_rresize_def ring_tests [OF r] ring_tests [OF b1(2)])
  next
    case False
    then have "set_capacity mx n b = Inl LengthError" using set_capacity_ring [OF r, of n mx] by (auto split: if_splits)
    then show ?thesis using False gt by (simp add: cb_rresize_def ring_tests [OF r])
  qed
next
  case False
  let ?j = "length xs - n"
  have "becomes b (map_option snd (cb_rerase_range (cb_begin b) (it_at b ?j) b)) (drop ?j xs)"
    using rerase_range_ring [OF r, of 0 ?j] begin_at [OF r] by simp
  moreover have "it_sub b (cb_end b) n = Some (it_at b ?j)"
    using sub_at [OF r, of n "length xs"] end_at [OF r] False by simp
  ultimately show ?thesis using False ring_capacity [OF r]
    by (auto simp: cb_rresize_def ring_tests [OF r] yields_def Let_def max_def elim!: becomesE)
qed

subsection \<open>The members against a bounded list\<close>

text \<open>Positions are given as distances from \<^verbatim>\<open>begin()\<close>.\<close>

datatype 'a cb_command =
  CbPushBack 'a | CbPushFront 'a | CbPopBack | CbPopFront | CbInsert nat 'a | CbRinsert nat 'a
| CbErase nat | CbRerase nat | CbEraseRange nat nat | CbReraseRange nat nat | CbEraseBegin nat | CbEraseEnd nat
| CbClear | CbRotate nat | CbSetCapacity nat | CbRsetCapacity nat | CbResize nat 'a | CbRresize nat 'a
| CbAssign nat "'a list" | CbInsertRange nat "'a list" | CbRinsertRange nat "'a list"
| CbLinearize | CbInsertInput nat "'a list" | CbRinsertInput nat "'a list" | CbAssignInput nat "'a list"
| CbAssignItems "'a list" | CbAssignFill nat 'a

definition at_index :: "nat \<Rightarrow> 'a circular_buffer \<Rightarrow> nat option option" where
  "at_index i b = it_add b (cb_begin b) i"

definition returned :: "cb_error + 's \<Rightarrow> 's option" where
  "returned r = (case r of Inl _ \<Rightarrow> None | Inr s \<Rightarrow> Some s)"

fun cb_exec :: "nat \<Rightarrow> 'a cb_command \<Rightarrow> 'a circular_buffer \<Rightarrow> 'a circular_buffer option" where
  "cb_exec mx (CbPushBack x) b = cb_push_back x b"
| "cb_exec mx (CbPushFront x) b = cb_push_front x b"
| "cb_exec mx CbPopBack b = cb_pop_back b"
| "cb_exec mx CbPopFront b = cb_pop_front b"
| "cb_exec mx (CbInsert i x) b = do { p \<leftarrow> at_index i b; map_option snd (cb_insert p x b) }"
| "cb_exec mx (CbRinsert i x) b = do { p \<leftarrow> at_index i b; map_option snd (cb_rinsert p x b) }"
| "cb_exec mx (CbErase i) b = do { p \<leftarrow> at_index i b; map_option snd (cb_erase p b) }"
| "cb_exec mx (CbRerase i) b = do { p \<leftarrow> at_index i b; map_option snd (cb_rerase p b) }"
| "cb_exec mx (CbEraseRange i j) b = do { p \<leftarrow> at_index i b; q \<leftarrow> at_index j b; map_option snd (cb_erase_range p q b) }"
| "cb_exec mx (CbReraseRange i j) b = do { p \<leftarrow> at_index i b; q \<leftarrow> at_index j b; map_option snd (cb_rerase_range p q b) }"
| "cb_exec mx (CbEraseBegin n) b = erase_begin n b"
| "cb_exec mx (CbEraseEnd n) b = erase_end n b"
| "cb_exec mx CbClear b = cb_clear b"
| "cb_exec mx (CbRotate i) b = do { p \<leftarrow> at_index i b; cb_rotate p b }"
| "cb_exec mx (CbSetCapacity n) b = returned (set_capacity mx n b)"
| "cb_exec mx (CbRsetCapacity n) b = returned (rset_capacity mx n b)"
| "cb_exec mx (CbResize n x) b = returned (cb_resize mx n x b)"
| "cb_exec mx (CbRresize n x) b = returned (cb_rresize mx n x b)"
| "cb_exec mx (CbAssign c xs) b = returned (cb_assign_range mx c xs b)"
| "cb_exec mx (CbInsertRange i xs) b = do { p \<leftarrow> at_index i b; insert_range p xs b }"
| "cb_exec mx (CbRinsertRange i xs) b = do { p \<leftarrow> at_index i b; rinsert_n p xs b }"
| "cb_exec mx CbLinearize b = map_option snd (cb_linearize b)"
| "cb_exec mx (CbInsertInput i xs) b = do { p \<leftarrow> at_index i b; insert_input p xs b }"
| "cb_exec mx (CbRinsertInput i xs) b = do { p \<leftarrow> at_index i b; rinsert_input p xs b }"
| "cb_exec mx (CbAssignInput c xs) b = returned (cb_assign_input mx c xs b)"
| "cb_exec mx (CbAssignItems xs) b = returned (cb_assign_items mx xs b)"
| "cb_exec mx (CbAssignFill n x) b = returned (cb_assign_fill mx n x b)"

text \<open>The model: a capacity and the elements. Insertion keeps the last elements, its mirror image the first.\<close>

definition keep_back :: "nat \<Rightarrow> 'a list \<Rightarrow> 'a list" where
  "keep_back c xs = drop (length xs - c) xs"

definition splice :: "nat \<Rightarrow> 'a list \<Rightarrow> 'a list \<Rightarrow> 'a list" where
  "splice i ys xs = take i xs @ ys @ drop i xs"

definition guard :: "bool \<Rightarrow> 's \<Rightarrow> 's option" where
  "guard g s = (if g then Some s else None)"

fun list_exec :: "nat \<Rightarrow> 'a cb_command \<Rightarrow> nat \<times> 'a list \<Rightarrow> (nat \<times> 'a list) option" where
  "list_exec mx (CbPushBack x) (c, xs) = Some (c, keep_back c (xs @ [x]))"
| "list_exec mx (CbPushFront x) (c, xs) = Some (c, take c (x # xs))"
| "list_exec mx CbPopBack (c, xs) = guard (xs \<noteq> []) (c, butlast xs)"
| "list_exec mx CbPopFront (c, xs) = guard (xs \<noteq> []) (c, tl xs)"
| "list_exec mx (CbInsert i x) (c, xs) = guard (i \<le> length xs) (c, keep_back c (splice i [x] xs))"
| "list_exec mx (CbRinsert i x) (c, xs) = guard (i \<le> length xs) (c, take c (splice i [x] xs))"
| "list_exec mx (CbErase i) (c, xs) = guard (i < length xs) (c, take i xs @ drop (Suc i) xs)"
| "list_exec mx (CbRerase i) (c, xs) = guard (i < length xs) (c, take i xs @ drop (Suc i) xs)"
| "list_exec mx (CbEraseRange i j) (c, xs) = guard (i \<le> j \<and> j \<le> length xs) (c, take i xs @ drop j xs)"
| "list_exec mx (CbReraseRange i j) (c, xs) = guard (i \<le> j \<and> j \<le> length xs) (c, take i xs @ drop j xs)"
| "list_exec mx (CbEraseBegin n) (c, xs) = guard (n \<le> length xs) (c, drop n xs)"
| "list_exec mx (CbEraseEnd n) (c, xs) = guard (n \<le> length xs) (c, take (length xs - n) xs)"
| "list_exec mx CbClear (c, xs) = Some (c, [])"
| "list_exec mx (CbRotate i) (c, xs) = guard (i < length xs) (c, drop i xs @ take i xs)"
| "list_exec mx (CbSetCapacity n) (c, xs) = guard (n = c \<or> n \<le> mx) (n, take n xs)"
| "list_exec mx (CbRsetCapacity n) (c, xs) = guard (n = c \<or> n \<le> mx) (n, keep_back n xs)"
| "list_exec mx (CbResize n x) (c, xs) = guard (n \<le> c \<or> n \<le> mx) (max n c, take n xs @ replicate (n - length xs) x)"
| "list_exec mx (CbRresize n x) (c, xs) = guard (n \<le> c \<or> n \<le> mx) (max n c, replicate (n - length xs) x @ keep_back n xs)"
| "list_exec mx (CbAssign n ys) (c, xs) = guard (n = c \<or> n \<le> mx) (n, keep_back n ys)"
| "list_exec mx (CbInsertRange i ys) (c, xs) = guard (i \<le> length xs) (c, keep_back c (splice i ys xs))"
| "list_exec mx (CbRinsertRange i ys) (c, xs) = guard (i \<le> length xs) (c, take c (splice i ys xs))"
| "list_exec mx CbLinearize (c, xs) = Some (c, xs)"
| "list_exec mx (CbInsertInput i ys) (c, xs) = guard (i \<le> length xs) (c, keep_back c (splice i ys xs))"
| "list_exec mx (CbRinsertInput i ys) (c, xs) = guard (i \<le> length xs) (c, take c (splice i ys xs))"
| "list_exec mx (CbAssignInput n ys) (c, xs) = guard (n = c \<or> n \<le> mx) (n, keep_back n ys)"
| "list_exec mx (CbAssignItems ys) (c, xs) = guard (length ys = c \<or> length ys \<le> mx) (length ys, ys)"
| "list_exec mx (CbAssignFill n x) (c, xs) = guard (n = c \<or> n \<le> mx) (n, replicate n x)"

fun single_insertions :: "'a cb_command \<Rightarrow> bool" where
  "single_insertions (CbInsertRange i ys) = False"
| "single_insertions (CbRinsertRange i ys) = False"
| "single_insertions _ = True"

definition cb_view :: "'a circular_buffer \<Rightarrow> nat \<times> 'a list" where
  "cb_view b = (cb_capacity b, cb_list b)"

text \<open>Valid with the given element kind.\<close>

definition cb_valid_as :: "bool \<Rightarrow> 'a circular_buffer \<Rightarrow> bool" where
  "cb_valid_as sc b \<longleftrightarrow> cb_valid b \<and> cb_scalar b = sc"

lemma becomes_agrees:
  "becomes b r ys \<Longrightarrow> agrees (cb_valid_as (cb_scalar b)) cb_view r (Some (cb_capacity b, ys))"
  by (auto simp: cb_valid_as_def cb_view_def dest: ring_valid elim!: becomesE)

lemma yields_agrees:
  "yields c sc r ys \<Longrightarrow> agrees (cb_valid_as sc) cb_view (returned r) (Some (c, ys))"
  by (auto simp: cb_valid_as_def cb_view_def yields_def returned_def dest: ring_valid)

lemma at_index_ring: "ring b xs rest \<Longrightarrow> at_index i b = (if i \<le> length xs then Some (it_at b i) else None)"
  using add_at [of b xs rest 0 i] begin_at [of b xs rest] diff_at [of b xs rest "length xs" 0] end_at [of b xs rest]
  by (auto simp: at_index_def it_add_def)

lemma keep_back_insert:
  "keep_back c (xs @ [x]) = drop (length xs + 1 - c) (xs @ [x])"
  "i \<le> length xs \<Longrightarrow> keep_back c (splice i ys xs) = drop (length xs + length ys - c) (take i xs @ ys @ drop i xs)"
  by (simp_all add: keep_back_def splice_def add.commute)

lemma ring_refuses:
  assumes r: "ring b xs rest"
  shows "xs = [] \<Longrightarrow> cb_pop_back b = None" "xs = [] \<Longrightarrow> cb_pop_front b = None"
    "cb_erase (it_at b (length xs)) b = None" "cb_rerase (it_at b (length xs)) b = None"
    "j < i \<Longrightarrow> i \<le> length xs \<Longrightarrow> cb_erase_range (it_at b i) (it_at b j) b = None"
    "j < i \<Longrightarrow> i \<le> length xs \<Longrightarrow> cb_rerase_range (it_at b i) (it_at b j) b = None"
    "length xs < n \<Longrightarrow> erase_begin n b = None" "length xs < n \<Longrightarrow> erase_end n b = None"
    "cb_rotate (it_at b (length xs)) b = None"
  using ring_parts(3) [OF r] linearize_at [OF r]
  by (auto simp: ring_tests [OF r] cb_pop_back_def cb_pop_front_def cb_erase_def cb_rerase_def cb_erase_range_def
      cb_rerase_range_def erase_begin_def erase_end_def cb_rotate_def it_at_def [of b "length xs"] it_less_def)

lemma cb_exec_ring_agrees:
  assumes r: "ring b xs rest" and ok: "cb_scalar b \<or> single_insertions c"
  shows "agrees (cb_valid_as (cb_scalar b)) cb_view (cb_exec mx c b) (list_exec mx c (cb_capacity b, xs))"
proof (cases c)
  case (CbPushBack x)
  then show ?thesis using becomes_agrees [OF push_back_ring [OF r, of x]] by (simp add: keep_back_def)
next
  case (CbPushFront x)
  then show ?thesis using becomes_agrees [OF push_front_ring [OF r, of x]] by simp
next
  case CbPopBack
  then show ?thesis using r becomes_agrees [OF pop_back_ring] ring_refuses(1) [OF r]
    by (cases xs rule: rev_cases) (auto simp: guard_def)
next
  case CbPopFront
  then show ?thesis using r becomes_agrees [OF pop_front_ring] ring_refuses(2) [OF r]
    by (cases xs) (auto simp: guard_def)
next
  case (CbInsert i x)
  then show ?thesis using becomes_agrees [OF insert_ring [OF r, of i x]]
    by (auto simp: guard_def at_index_ring [OF r] keep_back_insert)
next
  case (CbRinsert i x)
  then show ?thesis using becomes_agrees [OF rinsert_ring [OF r, of i x]]
    by (auto simp: guard_def at_index_ring [OF r] splice_def)
next
  case (CbErase i)
  then show ?thesis using becomes_agrees [OF erase_ring [OF r, of i]] ring_refuses(3) [OF r]
    by (cases "i < length xs"; cases "i = length xs") (auto simp: guard_def at_index_ring [OF r])
next
  case (CbRerase i)
  then show ?thesis using becomes_agrees [OF rerase_ring [OF r, of i]] ring_refuses(4) [OF r]
    by (cases "i < length xs"; cases "i = length xs") (auto simp: guard_def at_index_ring [OF r])
next
  case (CbEraseRange i j)
  then show ?thesis using becomes_agrees [OF erase_range_ring [OF r, of i j]] ring_refuses(5) [OF r, of j i]
    by (cases "i \<le> j") (auto simp: guard_def at_index_ring [OF r])
next
  case (CbReraseRange i j)
  then show ?thesis using becomes_agrees [OF rerase_range_ring [OF r, of i j]] ring_refuses(6) [OF r, of j i]
    by (cases "i \<le> j") (auto simp: guard_def at_index_ring [OF r])
next
  case (CbEraseBegin n)
  then show ?thesis using becomes_agrees [OF erase_begin_ring [OF r, of n]] ring_refuses(7) [OF r, of n]
    by (cases "n \<le> length xs") (auto simp: guard_def)
next
  case (CbEraseEnd n)
  then show ?thesis using becomes_agrees [OF erase_end_ring [OF r, of n]] ring_refuses(8) [OF r, of n]
    by (cases "n \<le> length xs") (auto simp: guard_def)
next
  case CbClear
  then show ?thesis using becomes_agrees [OF clear_ring [OF r]] by simp
next
  case (CbRotate i)
  then show ?thesis using becomes_agrees [OF rotate_ring [OF r, of i]] ring_refuses(9) [OF r]
    by (cases "i < length xs"; cases "i = length xs") (auto simp: guard_def at_index_ring [OF r])
next
  case (CbSetCapacity n)
  then show ?thesis using yields_agrees set_capacity_ring [OF r, of n mx]
    by (auto simp: guard_def returned_def split: if_splits)
next
  case (CbRsetCapacity n)
  then show ?thesis using yields_agrees rset_capacity_ring [OF r, of n mx]
    by (auto simp: guard_def returned_def keep_back_def split: if_splits)
next
  case (CbResize n x)
  then show ?thesis using yields_agrees resize_ring [OF r, of n mx x]
    by (auto simp: guard_def returned_def split: if_splits)
next
  case (CbRresize n x)
  then show ?thesis using yields_agrees rresize_ring [OF r, of n mx x]
    by (auto simp: guard_def returned_def keep_back_def split: if_splits)
next
  case (CbAssign n ys)
  then show ?thesis using yields_agrees assign_range_ring [OF r, of n mx ys]
    by (auto simp: guard_def returned_def keep_back_def split: if_splits)
next
  case (CbInsertRange i ys)
  then have "insert_safe b n" for n using ok by (simp add: insert_safe_def)
  then show ?thesis using CbInsertRange becomes_agrees [OF insert_range_ring [OF r, of i ys]]
    by (auto simp: guard_def at_index_ring [OF r] keep_back_insert)
next
  case (CbRinsertRange i ys)
  then have "rinsert_safe b" using ok by (simp add: rinsert_safe_def)
  then show ?thesis using CbRinsertRange becomes_agrees [OF rinsert_n_ring [OF r, of i ys]]
    by (auto simp: guard_def at_index_ring [OF r] splice_def)
next
  case CbLinearize
  then show ?thesis using becomes_agrees [of b _ xs] linearize_ring [OF r] by fastforce
next
  case (CbInsertInput i ys)
  then show ?thesis using becomes_agrees [OF insert_input_ring [OF r, of i ys]]
    by (auto simp: guard_def at_index_ring [OF r] keep_back_insert)
next
  case (CbRinsertInput i ys)
  then show ?thesis using becomes_agrees [OF rinsert_input_ring [OF r, of i ys]]
    by (auto simp: guard_def at_index_ring [OF r] splice_def)
next
  case (CbAssignInput n ys)
  then show ?thesis using yields_agrees assign_input_ring [OF r, of n mx ys]
    by (auto simp: guard_def returned_def keep_back_def split: if_splits)
next
  case (CbAssignItems ys)
  then show ?thesis using yields_agrees assign_range_ring [OF r, of "length ys" mx ys]
    by (auto simp: guard_def returned_def assign_items_is_range split: if_splits)
next
  case (CbAssignFill n x)
  then show ?thesis using yields_agrees assign_range_ring [OF r, of n mx "replicate n x"]
    by (auto simp: guard_def returned_def assign_fill_is_count assign_count_is_range split: if_splits)
qed

lemma cb_exec_agrees:
  assumes "cb_valid_as sc b" "sc \<or> single_insertions c"
  shows "agrees (cb_valid_as sc) cb_view (cb_exec mx c b) (list_exec mx c (cb_view b))"
proof -
  obtain rest where "ring b (cb_list b) rest" using assms(1) valid_ring by (auto simp: cb_valid_as_def)
  from cb_exec_ring_agrees [OF this] assms show ?thesis by (simp add: cb_valid_as_def cb_view_def)
qed

interpretation cb_impl: data_refinement "cb_valid_as sc" cb_view "\<lambda>c. sc \<or> single_insertions c" "cb_exec mx" "list_exec mx" for sc mx
  by unfold_locales (rule cb_exec_agrees)


text \<open>C2 Every sequence of members of \<^verbatim>\<open>circular_buffer\<close>, the insertions of several elements, ranges by forward iterators and
  \<^verbatim>\<open>insert(pos, n, item)\<close>, apart, behaves as on a list with a capacity, for every element type: pushing and inserting into a full buffer drop elements from the
  other end, and no sequence constructs over a live element, assigns to or destroys a dead one. A member
  is refused (a failed assertion or \<^verbatim>\<open>length_error\<close>) exactly where the list operation is undefined.\<close>

theorem circular_buffer_refines_list:
  assumes "cb_valid b" and "list_all single_insertions cs"
  shows "agrees (cb_valid_as (cb_scalar b)) cb_view (run_ops (cb_exec mx) cs b) (run_ops (list_exec mx) cs (cb_view b))"
  using assms by (intro cb_impl.run_agrees) (auto simp: cb_valid_as_def list_all_iff)

definition example_buffer :: "bool \<Rightarrow> nat circular_buffer" where
  "example_buffer sc = \<lparr>cb_scalar = sc, cb_mem = [None, None, Some 1, Some 2, None], m_first = 2, m_last = 4, m_size = 2\<rparr>"

lemma circular_buffer_refines_list_witness:
  "map_option cb_view (run_ops (cb_exec 9) [CbPushBack 3, CbPushFront 0, CbInsert 1 7, CbErase 0, CbRotate 1, CbSetCapacity 3]
     (example_buffer False)) = Some (3, [1, 2, 3])"
proof -
  let ?cs = "[CbPushBack 3, CbPushFront 0, CbInsert 1 7, CbErase 0, CbRotate 1, CbSetCapacity 3] :: nat cb_command list"
  have "cb_valid (example_buffer False)" "list_all single_insertions ?cs" by code_simp+
  moreover have "run_ops (list_exec 9) ?cs (cb_view (example_buffer False)) = Some (3, [1, 2, 3])" by code_simp
  ultimately show ?thesis
    using circular_buffer_refines_list [of "example_buffer False" ?cs 9]
    by (cases "run_ops (cb_exec 9) ?cs (example_buffer False)") simp_all
qed

text \<open>C18 For scalar element types every sequence of members, insertions of ranges included, behaves as on a
  list with a capacity.\<close>

theorem circular_buffer_scalar_refines_list:
  assumes "cb_valid b" and "cb_scalar b"
  shows "agrees (cb_valid_as True) cb_view (run_ops (cb_exec mx) cs b) (run_ops (list_exec mx) cs (cb_view b))"
  using assms by (intro cb_impl.run_agrees [where sc = True, simplified]) (auto simp: cb_valid_as_def list_all_iff)

lemma circular_buffer_scalar_refines_list_witness:
  "map_option cb_view (run_ops (cb_exec 9) [CbInsertRange 1 [7, 8, 9], CbRinsertRange 2 [5, 6]] (example_buffer True))
     = Some (5, [1, 7, 5, 6, 8])"
proof -
  let ?cs = "[CbInsertRange 1 [7, 8, 9], CbRinsertRange 2 [5, 6]] :: nat cb_command list"
  have "cb_valid (example_buffer True)" "cb_scalar (example_buffer True)" by code_simp+
  moreover have "run_ops (list_exec 9) ?cs (cb_view (example_buffer True)) = Some (5, [1, 7, 5, 6, 8])" by code_simp
  ultimately show ?thesis
    using circular_buffer_scalar_refines_list [of "example_buffer True" 9 ?cs]
    by (cases "run_ops (cb_exec 9) ?cs (example_buffer True)") simp_all
qed

subsection \<open>Insertion of a range\<close>

text \<open>C24 For element types with constructors, inserting a range in the middle is right when the elements
  wrap around, start at the beginning of the memory, or the new elements do not run past its end; then the
  result is the list with the range spliced in, cut to the capacity from the front.\<close>

theorem insert_range_splices:
  assumes "cb_valid b" "i \<le> cb_size b"
    and "i = cb_size b \<or> insert_safe b (min (length items) (cb_capacity b - (cb_size b - i)))"
  shows "\<exists>b'. cb_exec mx (CbInsertRange i items) b = Some b' \<and> cb_valid b'
    \<and> cb_list b' = keep_back (cb_capacity b) (splice i items (cb_list b))"
proof -
  obtain rest where r: "ring b (cb_list b) rest" using assms(1) valid_ring by blast
  then have "becomes b (cb_exec mx (CbInsertRange i items) b) (keep_back (cb_capacity b) (splice i items (cb_list b)))"
    using insert_range_ring [OF r] assms(2,3) by (simp add: at_index_ring [OF r] keep_back_insert ring_tests [OF r])
  then show ?thesis by (auto elim!: becomesE dest: ring_valid)
qed

lemma insert_range_splices_witness:
  "\<exists>b'. cb_exec 9 (CbInsertRange 1 [7]) (example_buffer False) = Some b' \<and> cb_list b' = [1, 7, 2]"
proof -
  have "cb_valid (example_buffer False)" "1 \<le> cb_size (example_buffer False)"
    "insert_safe (example_buffer False) (min (length [7 :: nat]) (cb_capacity (example_buffer False) - (cb_size (example_buffer False) - 1)))"
    "keep_back (cb_capacity (example_buffer False)) (splice 1 [7] (cb_list (example_buffer False))) = [1, 7, 2]"
    by code_simp+
  then show ?thesis using insert_range_splices [of "example_buffer False" 1 "[7]" 9] by auto
qed

text \<open>Outside that condition the code assigns to memory in which no object lives: in a buffer of five slots
  whose two elements occupy the slots 2 and 3, inserting three elements after the first writes slots 0 and 1,
  which \<^verbatim>\<open>is_uninitialized\<close> takes for initialized.\<close>

lemma insert_range_assigns_raw_memory:
  "cb_valid (example_buffer False) \<and> is_uninitialized (example_buffer False) 1 = False
   \<and> cb_mem (example_buffer False) ! 1 = None
   \<and> cb_exec 9 (CbInsertRange 1 [7, 8, 9]) (example_buffer False) = None
   \<and> list_exec 9 (CbInsertRange 1 [7, 8, 9]) (cb_view (example_buffer False)) = Some (5, [1, 7, 8, 9, 2])"
  by code_simp

subsection \<open>Access, copies and comparison\<close>

definition slots_of :: "'a circular_buffer \<Rightarrow> nat \<times> nat \<Rightarrow> 'a option list" where
  "slots_of b r = take (snd r) (drop (fst r) (cb_mem b))"

lemma arrays_ring:
  assumes r: "ring b xs rest"
  shows "slots_of b (array_one b) @ slots_of b (array_two b) = map Some xs"
proof (cases "xs = []")
  case True
  have "m_last b = m_first b" using True ring_parts(2,6,7) [OF r] by (cases "cb_capacity b = 0") auto
  then show ?thesis using True by (simp add: slots_of_def array_one_def array_two_def ring_tests [OF r])
next
  case False
  note rd = ring_parts [OF r] and cap = ring_capacity [OF r]
  let ?f = "m_first b" and ?c = "cb_capacity b" and ?m = "cb_mem b" and ?n = "length xs"
  have f: "?f < ?c" "?n \<le> ?c" using ring_first_lt [OF r] cap False by auto
  have rot: "drop ?f ?m @ take ?f ?m = map Some xs @ rest" using rd(1,5) f by (simp add: rotate_drop_take)
  then have tk: "map Some xs = take ?n (drop ?f ?m @ take ?f ?m)" by simp
  have l: "m_last b = (if ?f + ?n < ?c then ?f + ?n else ?f + ?n - ?c)" using rd(2) f by (auto simp: le_mod_geq)
  have "0 < ?n" using False by simp
  then show ?thesis unfolding tk using f l False rd(5)
    by (auto simp: slots_of_def array_one_def array_two_def ring_tests [OF r] min_def add.commute)
qed

text \<open>Element access: \<^verbatim>\<open>at\<close> returns the element or throws \<^verbatim>\<open>out_of_range\<close>, \<^verbatim>\<open>front\<close> and \<^verbatim>\<open>back\<close> are the ends,
  and the two array ranges together are exactly the elements in order, all of them constructed.\<close>

theorem circular_buffer_access:
  assumes "cb_valid b"
  shows "cb_at i b = (if i < cb_size b then Inr (cb_list b ! i) else Inl OutOfRange)
    \<and> cb_front b = (if cb_list b = [] then None else Some (hd (cb_list b)))
    \<and> cb_back b = (if cb_list b = [] then None else Some (last (cb_list b)))
    \<and> slots_of b (array_one b) @ slots_of b (array_two b) = map Some (cb_list b)"
proof -
  obtain rest where r: "ring b (cb_list b) rest" using assms valid_ring by blast
  then show ?thesis using subscript_ring [OF r, of i] front_ring [OF r] back_ring [OF r] arrays_ring [OF r]
    by (simp add: cb_at_def check_position_def ring_tests [OF r])
qed

lemma circular_buffer_access_witness:
  "cb_at 1 (example_buffer False) = Inr 2 \<and> cb_at 2 (example_buffer False) = Inl OutOfRange"
proof -
  have "cb_valid (example_buffer False)" "cb_list (example_buffer False) = [1, 2]" "cb_size (example_buffer False) = 2"
    by code_simp+
  then show ?thesis
    using circular_buffer_access [of "example_buffer False" 1] circular_buffer_access [of "example_buffer False" 2] by simp
qed

text \<open>C19 \<^verbatim>\<open>linearize\<close> ends and is defined for every element type: it keeps the elements and their order, the
  capacity and the invariant, and leaves the elements in consecutive slots; it returns the pointer to the
  first of them, or the null pointer if there is none.\<close>

theorem circular_buffer_linearize:
  assumes "cb_valid b"
  shows "\<exists>p b'. cb_linearize b = Some (p, b') \<and> cb_valid b' \<and> cb_view b' = cb_view b
    \<and> (if cb_empty b then p = None
       else is_linearized b' \<and> p = Some (m_first b') \<and> slots_of b' (m_first b', cb_size b) = map Some (cb_list b))"
proof -
  obtain rest where r: "ring b (cb_list b) rest" using assms valid_ring by blast
  obtain p b' where "cb_linearize b = Some (p, b')" "becomes b (Some b') (cb_list b)" "cb_list b \<noteq> [] \<longrightarrow> is_linearized b'"
    "p = (if cb_list b = [] then None else Some (m_first b'))"
    "take (length (cb_list b)) (drop (m_first b') (cb_mem b')) = map Some (cb_list b)" using linearize_ring [OF r] by blast
  then show ?thesis using ring_tests [OF r]
    by (auto simp: slots_of_def cb_view_def dest: ring_valid elim!: becomesE)
qed

definition wrapped_buffer :: "nat circular_buffer" where
  "wrapped_buffer = \<lparr>cb_scalar = False, cb_mem = [Some 3, Some 4, None, Some 1, Some 2], m_first = 3, m_last = 2, m_size = 4\<rparr>"

lemma circular_buffer_linearize_witness:
  "\<exists>p b'. cb_linearize wrapped_buffer = Some (p, b') \<and> cb_view b' = (5, [1, 2, 3, 4])
     \<and> slots_of b' (m_first b', 4) = [Some 1, Some 2, Some 3, Some 4]"
proof -
  have v: "cb_valid wrapped_buffer" and e: "\<not> cb_empty wrapped_buffer" "cb_size wrapped_buffer = 4"
    "cb_view wrapped_buffer = (5, [1, 2, 3, 4])" "cb_list wrapped_buffer = [1, 2, 3, 4]" by code_simp+
  from circular_buffer_linearize [OF v] e show ?thesis by auto
qed

text \<open>The moves take over the capacity and the elements and leave an empty buffer of capacity 0.\<close>

theorem circular_buffer_moves:
  assumes "cb_valid a" "cb_valid b" "cb_scalar a = cb_scalar b"
  shows "(\<exists>t a'. cb_move a = (t, a') \<and> cb_valid t \<and> cb_view t = cb_view a \<and> cb_valid a' \<and> cb_view a' = (0, []))
    \<and> (\<exists>b' a'. cb_move_assign a b = Some (b', a') \<and> cb_valid b' \<and> cb_view b' = cb_view a \<and> cb_valid a' \<and> cb_view a' = (0, []))"
proof -
  obtain ra rb where r: "ring a (cb_list a) ra" "ring b (cb_list b) rb" using assms(1,2) valid_ring by metis
  have e: "cb_valid c \<and> cb_view c = (0, [])" if "ring c [] []" for c :: "'a circular_buffer"
    using that ring_valid [OF that] ring_capacity [OF that] by (simp add: cb_view_def)
  obtain t a' where m: "cb_move a = (t, a')" by (cases "cb_move a")
  from move_ring [OF r(1) m] have "cb_valid t \<and> cb_view t = cb_view a" "cb_valid a' \<and> cb_view a' = (0, [])"
    using e by (auto simp: cb_view_def dest: ring_valid)
  moreover obtain b' a2 where "cb_move_assign a b = Some (b', a2)" "ring b' (cb_list a) ra" "cb_capacity b' = cb_capacity a" "ring a2 [] []"
    using move_assign_ring [OF r assms(3)] by blast
  then have "\<exists>b' a'. cb_move_assign a b = Some (b', a') \<and> cb_valid b' \<and> cb_view b' = cb_view a \<and> cb_valid a' \<and> cb_view a' = (0, [])"
    using e by (auto simp: cb_view_def dest: ring_valid)
  ultimately show ?thesis using m by blast
qed

text \<open>Construction from a range, also of input iterators, keeps its last elements when it exceeds the capacity, a copy has the same
  capacity and elements and compares equal to its source, and \<^verbatim>\<open>==\<close> and \<^verbatim>\<open><\<close> compare the elements in order,
  wherever they lie in the two memories.\<close>

theorem circular_buffer_copies:
  fixes a b :: "'a::linorder circular_buffer"
  assumes "cb_valid a" "cb_valid b" "cb_capacity a \<le> mx" "c \<le> mx"
  shows "(\<exists>r. cb_of_range sc mx c items = Inr r \<and> cb_valid r \<and> cb_view r = (c, keep_back c items))
    \<and> (\<exists>r. cb_of_input sc mx c items = Inr r \<and> cb_valid r \<and> cb_view r = (c, keep_back c items))
    \<and> (\<exists>r. cb_of_count sc mx c x = Inr r \<and> cb_valid r \<and> cb_view r = (c, replicate c x))
    \<and> (\<exists>a'. cb_copy mx a = Inr a' \<and> cb_valid a' \<and> cb_view a' = cb_view a \<and> cb_eq a a' = Some True)
    \<and> cb_eq a b = Some (cb_list a = cb_list b) \<and> cb_less a b = Some (lexicographical_compare (cb_list a) (cb_list b))"
proof -
  obtain ra rb where r: "ring a (cb_list a) ra" "ring b (cb_list b) rb" using assms(1,2) valid_ring by metis
  have "\<exists>r. cb_of_range sc mx c items = Inr r \<and> cb_valid r \<and> cb_view r = (c, keep_back c items)"
    using of_range_ring [OF assms(4), of sc items] by (auto simp: yields_def cb_view_def keep_back_def dest: ring_valid)
  moreover have "\<exists>r. cb_of_input sc mx c items = Inr r \<and> cb_valid r \<and> cb_view r = (c, keep_back c items)"
    using of_input_ring [OF assms(4), of sc items] by (auto simp: yields_def cb_view_def keep_back_def dest: ring_valid)
  moreover have "\<exists>r. cb_of_count sc mx c x = Inr r \<and> cb_valid r \<and> cb_view r = (c, replicate c x)"
    using of_range_ring [OF assms(4), of sc "replicate c x"]
    by (auto simp: of_count_is_filled filled_is_range yields_def cb_view_def dest: ring_valid)
  moreover obtain a' rest' where "cb_copy mx a = Inr a'" "ring a' (cb_list a) rest'" "cb_capacity a' = cb_capacity a"
    using copy_ring(1) [OF r(1) assms(3)] by (auto simp: yields_def)
  moreover from this have "cb_eq a a' = Some True" using compare_ring(1) [OF r(1)] by simp
  ultimately show ?thesis using compare_ring [OF r] by (auto simp: cb_view_def dest: ring_valid)
qed

lemma circular_buffer_copies_witness:
  "cb_eq (example_buffer False) (example_buffer True) = Some True"
proof -
  have v: "cb_valid (example_buffer False)" "cb_valid (example_buffer True)" "cb_capacity (example_buffer False) \<le> 9"
    and l: "cb_list (example_buffer False) = cb_list (example_buffer True)" by code_simp+
  have "cb_eq (example_buffer False) (example_buffer True) = Some (cb_list (example_buffer False) = cb_list (example_buffer True))"
    using circular_buffer_copies [OF v, of 0 True "[]" 0] by blast
  then show ?thesis using l by simp
qed

end
