(* ===== verification/Common_Factor.thy ===== *)
theory Common_Factor
  imports Boost_Prelude "HOL-Library.Monad_Syntax"
begin

text \<open>
  \<^verbatim>\<open>boost::integer::gcd\<close> and \<^verbatim>\<open>lcm\<close> (\<^verbatim>\<open>integer/common_factor_rt.hpp\<close>).

  \<open>gcd_euclidean\<close>, \<open>gcd_integer\<close>, \<open>lcm_euclidean\<close> and \<open>lcm_integer\<close> are the templates for rings and
  signed integers, on unbounded integers with the truncating remainder of C++: they serve every
  number type that is not built in. \<open>gcd_binary\<close> is the algorithm of the built-in unsigned types, on
  words; the array \<^verbatim>\<open>r[2]\<close> it works on is a pair indexed by \<^verbatim>\<open>which\<close>, and each of its loops is a
  definition whose value is \<^term>\<open>None\<close> when the loop does not end. The evaluator of a built-in signed
  type negates its arguments first; negating the least value of the type is undefined behaviour for
  \<^verbatim>\<open>int\<close> and wider types, hence the option, while narrower types are promoted first (\<open>gcd_narrow\<close>).
  \<open>lcm_signed\<close> is the multiple at a built-in type, where products may overflow.
\<close>

unbundle bit_operations_syntax

subsection \<open>Definitions\<close>

lemma tmod_abs_less: "b \<noteq> 0 \<Longrightarrow> \<bar>tmod a b\<bar> < \<bar>b\<bar>"
proof -
  assume "b \<noteq> 0"
  have "tmod a b = sgn a * (\<bar>a\<bar> mod \<bar>b\<bar>)"
    by (simp add: tmod_def tdiv_def sgn_if minus_div_mult_eq_mod [symmetric] algebra_simps abs_if)
  then show ?thesis
    using \<open>b \<noteq> 0\<close> by (auto simp: abs_mult sgn_if)
qed

function gcd_euclidean :: "int \<Rightarrow> int \<Rightarrow> int" where
  "gcd_euclidean a b =
     (if a = 0 then b
      else (let b1 = tmod b a in
            if b1 = 0 then a
            else (let a1 = tmod a b1 in gcd_euclidean a1 b1)))"
  by pat_completeness auto
termination
  by (relation "measure (\<lambda>(a, b). nat \<bar>a\<bar>)") (auto intro: less_trans [OF tmod_abs_less tmod_abs_less])

definition gcd_integer :: "int \<Rightarrow> int \<Rightarrow> int" where
  "gcd_integer a b = (let result = gcd_euclidean a b in if result < 0 then - result else result)"

definition lcm_euclidean :: "int \<Rightarrow> int \<Rightarrow> int" where
  "lcm_euclidean a b = (let temp = gcd_euclidean a b in if temp \<noteq> 0 then tdiv a temp * b else 0)"

definition lcm_integer :: "int \<Rightarrow> int \<Rightarrow> int" where
  "lcm_integer a b = (let result = lcm_euclidean a b in if result < 0 then - result else result)"

text \<open>\<^verbatim>\<open>integer::gcd\<close> and \<^verbatim>\<open>integer::lcm\<close> at a signed number type that is not built in and does not overflow.\<close>

definition integer_gcd :: "int \<Rightarrow> int \<Rightarrow> int" where
  "integer_gcd a b = gcd_integer a b"

definition integer_lcm :: "int \<Rightarrow> int \<Rightarrow> int" where
  "integer_lcm a b = lcm_integer a b"

text \<open>Shift out the common factors of two.\<close>

partial_function (option) shift_common :: "'b::len word \<Rightarrow> 'b word \<Rightarrow> nat \<Rightarrow> ('b word \<times> 'b word \<times> nat) option" where
  "shift_common u v shifts =
     (if u AND 1 = 0 \<and> v AND 1 = 0 then shift_common (drop_bit 1 u) (drop_bit 1 v) (shifts + 1)
      else Some (u, v, shifts))"

text \<open>Remove the factors of two of one value.\<close>

partial_function (option) shift_out :: "'b::len word \<Rightarrow> 'b word option" where
  "shift_out x = (if x AND 1 = 0 then shift_out (drop_bit 1 x) else Some x)"

text \<open>\<open>x\<close> is \<^verbatim>\<open>r[which]\<close> and \<open>y\<close> is \<^verbatim>\<open>r[!which]\<close>; \<^verbatim>\<open>which ^= 1\<close> exchanges them.\<close>

partial_function (option) whittle :: "'b::len word \<Rightarrow> 'b word \<Rightarrow> 'b word option" where
  "whittle x y = do {
     x1 \<leftarrow> shift_out x;
     let (x2, y2) = (if y > x1 then (y, x1) else (x1, y));
     let x3 = x2 - y2;
     if x3 \<noteq> 0 then whittle x3 y2 else Some y2 }"

definition gcd_binary :: "'b::len word \<Rightarrow> 'b word \<Rightarrow> 'b word option" where
  "gcd_binary u v =
     (if u \<noteq> 0 \<and> v \<noteq> 0 then do {
        (u1, v1, shifts) \<leftarrow> shift_common u v 0;
        r \<leftarrow> (if u1 AND 1 \<noteq> 0 then whittle v1 u1 else whittle u1 v1);
        Some (push_bit shifts r) }
      else Some (u + v))"

lemmas gcd_loop_unfold [code] = shift_common.simps shift_out.simps whittle.simps

text \<open>The evaluator for a signed type of the width \<open>'b\<close>, as for \<^verbatim>\<open>int\<close> and \<^verbatim>\<open>long\<close>.\<close>

definition negate_signed :: "'b::len word \<Rightarrow> 'b word option" where
  "negate_signed a = (if sint a = - (2 ^ (LENGTH('b) - 1)) then None else Some (- a))"

definition gcd_signed :: "'b::len word \<Rightarrow> 'b word \<Rightarrow> 'b word option" where
  "gcd_signed a b = do {
     a_abs \<leftarrow> (if a <s 0 then negate_signed a else Some a);
     b_abs \<leftarrow> (if b <s 0 then negate_signed b else Some b);
     gcd_binary a_abs b_abs }"

text \<open>The same for a type narrower than \<^verbatim>\<open>int\<close>, as for \<^verbatim>\<open>short\<close>: the arguments are promoted before they are negated, and the result is converted back.\<close>

definition gcd_narrow :: "'b::len word \<Rightarrow> 'b word \<Rightarrow> 'b word option" where
  "gcd_narrow a b =
     (let a_abs = (if a <s 0 then - a else a); b_abs = (if b <s 0 then - b else b) in gcd_binary a_abs b_abs)"

text \<open>
  \<^verbatim>\<open>lcm\<close> at a built-in signed type of \<open>w\<close> bits, \<^verbatim>\<open>int\<close> or wider, whose evaluator is \<^verbatim>\<open>lcm_integer\<close> in the type itself: a quotient, product or negation
  outside the type is undefined.
\<close>

definition in_signed :: "nat \<Rightarrow> int \<Rightarrow> bool" where
  "in_signed w x \<longleftrightarrow> - (2 ^ (w - 1)) \<le> x \<and> x < 2 ^ (w - 1)"

definition signed_value :: "nat \<Rightarrow> int \<Rightarrow> int option" where
  "signed_value w x = (if in_signed w x then Some x else None)"

definition signed_div :: "nat \<Rightarrow> int \<Rightarrow> int \<Rightarrow> int option" where
  "signed_div w a b = (if b = 0 then None else signed_value w (tdiv a b))"

definition signed_mod :: "nat \<Rightarrow> int \<Rightarrow> int \<Rightarrow> int option" where
  "signed_mod w a b = (case signed_div w a b of None \<Rightarrow> None | Some q \<Rightarrow> Some (tmod a b))"

lemma signed_mod_less: "signed_mod w a b = Some r \<Longrightarrow> b \<noteq> 0 \<and> r = tmod a b \<and> \<bar>r\<bar> < \<bar>b\<bar>"
  using tmod_abs_less [of b a] by (auto simp: signed_mod_def signed_div_def split: option.splits if_splits)

function gcd_euclidean_signed :: "nat \<Rightarrow> int \<Rightarrow> int \<Rightarrow> int option" where
  "gcd_euclidean_signed w a b =
     (if a = 0 then Some b
      else (case signed_mod w b a of None \<Rightarrow> None
            | Some b1 \<Rightarrow>
                if b1 = 0 then Some a
                else (case signed_mod w a b1 of None \<Rightarrow> None | Some a1 \<Rightarrow> gcd_euclidean_signed w a1 b1)))"
  by pat_completeness auto
termination
  by (relation "measure (\<lambda>(w, a, b). nat \<bar>a\<bar>)") (auto dest!: signed_mod_less)

definition lcm_signed :: "nat \<Rightarrow> int \<Rightarrow> int \<Rightarrow> int option" where
  "lcm_signed w a b = do {
     temp \<leftarrow> gcd_euclidean_signed w a b;
     result \<leftarrow> (if temp \<noteq> 0 then do { q \<leftarrow> signed_div w a temp; signed_value w (q * b) } else Some 0);
     if result < 0 then signed_value w (- result) else Some result }"

subsection \<open>The Euclidean algorithm\<close>

declare gcd_euclidean.simps [simp del] gcd_euclidean_signed.simps [simp del]

lemma gcd_tmod: "gcd (tmod b a) a = gcd b (a::int)"
proof -
  have "tmod b a = b + (- tdiv b a) * a" by (simp add: tmod_def)
  then show ?thesis by (metis add.commute gcd.commute gcd_add_mult)
qed

lemma abs_gcd_euclidean: "\<bar>gcd_euclidean a b\<bar> = gcd a b"
proof (induction a b rule: gcd_euclidean.induct)
  case (1 a b)
  have ga: "gcd a b = gcd (tmod b a) a" by (metis gcd_tmod gcd.commute)
  show ?case
  proof (cases "a = 0 \<or> tmod b a = 0")
    case True
    then show ?thesis using ga by (auto simp: gcd_euclidean.simps [of a b])
  next
    case False
    then have "gcd_euclidean a b = gcd_euclidean (tmod a (tmod b a)) (tmod b a)"
      by (simp add: gcd_euclidean.simps [of a b] Let_def)
    then show ?thesis using 1 False ga gcd_tmod [of a "tmod b a"] by (simp add: gcd.commute)
  qed
qed

lemma gcd_integer_eq: "gcd_integer a b = gcd a b"
  using abs_gcd_euclidean [of a b] by (auto simp: gcd_integer_def Let_def)

lemma lcm_integer_eq: "lcm_integer a b = lcm a b"
proof -
  let ?g = "gcd_euclidean a b"
  have g: "\<bar>?g\<bar> = gcd a b" by (rule abs_gcd_euclidean)
  then have "?g = 0 \<longleftrightarrow> a = 0 \<and> b = 0" by (metis abs_eq_0_iff gcd_eq_0_iff)
  have "?g dvd a" using gcd_dvd1 [of a b] by (simp flip: g)
  then have "lcm_euclidean a b = a div ?g * b"
    using \<open>?g = 0 \<longleftrightarrow> a = 0 \<and> b = 0\<close> by (auto simp: lcm_euclidean_def Let_def tdiv_dvd)
  moreover have "\<bar>a div ?g * b\<bar> = lcm a b"
  proof (cases "?g = 0")
    case False
    obtain k where k: "a = ?g * k" using \<open>?g dvd a\<close> ..
    have "\<bar>k * b\<bar> * gcd a b = \<bar>a * b\<bar>"
      by (subst (2) k) (simp add: abs_mult g [symmetric])
    also have "\<dots> = lcm a b * gcd a b"
      by (metis abs_mult prod_gcd_lcm_int mult.commute)
    finally have "\<bar>k * b\<bar> = lcm a b"
      using False g by (metis abs_eq_0_iff mult_right_cancel)
    then show ?thesis using k False by (metis nonzero_mult_div_cancel_left)
  qed (use g in auto)
  ultimately show ?thesis by (auto simp: lcm_integer_def Let_def)
qed

subsection \<open>The binary algorithm\<close>

lemma and_one_iff: "(x::'b::len word) AND 1 = 0 \<longleftrightarrow> even (unat x)"
proof -
  have "x AND 1 = 0 \<longleftrightarrow> even x" by (simp add: and_one_eq mod_2_eq_odd)
  also have "\<dots> \<longleftrightarrow> even (unat x)" using bit_unsigned_iff [where ?'a = nat, of x 0] by (simp add: bit_0)
  finally show ?thesis .
qed

lemma unat_halve: "unat (drop_bit 1 (x::'b::len word)) = unat x div 2"
  by (metis unat_drop_bit_eq drop_bit_eq_div power_one_right)

lemma shift_common_ok:
  assumes "u \<noteq> 0"
  shows "\<exists>u' v' k. shift_common u v s = Some (u', v', s + k) \<and> unat u = 2 ^ k * unat u'
           \<and> unat v = 2 ^ k * unat v' \<and> \<not> (even (unat u') \<and> even (unat v'))"
  using assms
proof (induction "unat u" arbitrary: u v s rule: less_induct)
  case less
  show ?case
  proof (cases "even (unat u) \<and> even (unat v)")
    case True
    let ?u = "drop_bit 1 u" and ?v = "drop_bit 1 v"
    have "0 < unat u" using less.prems by (simp add: unat_gt_0)
    then have "0 < unat u div 2" "unat u div 2 < unat u" using True by auto
    then obtain u' v' k where "shift_common ?u ?v (s + 1) = Some (u', v', s + 1 + k)"
      "unat ?u = 2 ^ k * unat u'" "unat ?v = 2 ^ k * unat v'" "\<not> (even (unat u') \<and> even (unat v'))"
      using less.hyps [where u = ?u and v = ?v and s = "s + 1"] unat_halve [of u] by (auto simp: unat_gt_0 [symmetric])
    moreover have "unat u = 2 * unat ?u" "unat v = 2 * unat ?v"
      using True by (simp_all only: unat_halve) auto
    ultimately show ?thesis
      using True by (intro exI [of _ u'] exI [of _ v'] exI [of _ "Suc k"])
        (simp add: shift_common.simps [of u v] and_one_iff)
  qed (auto simp: shift_common.simps [of u v] and_one_iff intro!: exI [of _ 0])
qed

lemma shift_out_ok:
  assumes "x \<noteq> 0"
  shows "\<exists>x' k. shift_out x = Some x' \<and> unat x = 2 ^ k * unat x' \<and> odd (unat x')"
  using assms
proof (induction "unat x" arbitrary: x rule: less_induct)
  case less
  show ?case
  proof (cases "even (unat x)")
    case True
    let ?x = "drop_bit 1 x"
    have "0 < unat x" using less.prems by (simp add: unat_gt_0)
    then have "0 < unat x div 2" "unat x div 2 < unat x" using True by auto
    then obtain x' k where "shift_out ?x = Some x'" "unat ?x = 2 ^ k * unat x'" "odd (unat x')"
      using less.hyps [of ?x] unat_halve [of x] by (auto simp: unat_gt_0 [symmetric])
    moreover have "unat x = 2 * unat ?x" using True by (simp only: unat_halve) auto
    ultimately show ?thesis
      using True by (intro exI [of _ x'] exI [of _ "Suc k"])
        (simp add: shift_out.simps [of x] and_one_iff)
  qed (auto simp: shift_out.simps [of x] and_one_iff intro!: exI [of _ 0])
qed

lemma gcd_pow2_odd: "odd (y::nat) \<Longrightarrow> gcd (2 ^ k * x) y = gcd x y"
  by (simp add: gcd_mult_left_left_cancel coprime_commute)

lemma whittle_ok:
  assumes "x \<noteq> 0" and "odd (unat y)"
  shows "\<exists>g. whittle x y = Some g \<and> unat g = gcd (unat x) (unat y)"
  using assms
proof (induction "unat x + unat y" arbitrary: x y rule: less_induct)
  case less
  obtain x1 k where x1: "shift_out x = Some x1" "unat x = 2 ^ k * unat x1" "odd (unat x1)"
    using shift_out_ok [OF less.prems(1)] by blast
  define hi lo where "hi = max x1 y" and "lo = min x1 y"
  have le: "lo \<le> hi" and odd: "odd (unat hi)" "odd (unat lo)"
    using x1 less.prems by (auto simp: hi_def lo_def max_def min_def)
  have step: "whittle x y = (if hi - lo \<noteq> 0 then whittle (hi - lo) lo else Some lo)"
    using x1 by (cases "x1 < y") (auto simp: whittle.simps [of x y] hi_def lo_def max_def min_def not_less)
  have diff: "unat (hi - lo) = unat hi - unat lo" using le by (simp add: unat_sub)
  have le': "unat lo \<le> unat hi" using le by (simp add: word_le_nat_alt)
  have sum: "unat hi + unat lo = unat x1 + unat y" "gcd (unat hi) (unat lo) = gcd (unat x1) (unat y)"
    by (auto simp: hi_def lo_def max_def min_def gcd.commute)
  have "unat x1 \<le> unat x" "0 < unat lo" using x1 odd by (auto simp: odd_pos)
  then have dec: "unat (hi - lo) + unat lo < unat x + unat y" using sum diff le' by linarith
  have g: "gcd (unat hi - unat lo) (unat lo) = gcd (unat x) (unat y)"
    using le' sum x1 less.prems(2) by (simp add: gcd_diff1_nat gcd_pow2_odd)
  show ?case
  proof (cases "hi - lo = 0")
    case True
    then have "hi = lo" by simp
    then show ?thesis using step g by simp
  next
    case False
    then show ?thesis using less.hyps [OF dec False odd(2)] step g diff by simp
  qed
qed

lemma gcd_binary_ok: "\<exists>g. gcd_binary u v = Some g \<and> unat g = gcd (unat u) (unat v)"
proof (cases "u = 0 \<or> v = 0")
  case True
  then show ?thesis by (auto simp: gcd_binary_def)
next
  case False
  then obtain u' v' k where sc: "shift_common u v 0 = Some (u', v', k)" "unat u = 2 ^ k * unat u'"
      "unat v = 2 ^ k * unat v'" "\<not> (even (unat u') \<and> even (unat v'))"
    using shift_common_ok [of u v 0] by auto
  have "0 < unat u" using False by (simp add: unat_gt_0)
  moreover have "0 < unat v" using False by (simp add: unat_gt_0)
  ultimately have nz: "u' \<noteq> 0" "v' \<noteq> 0" using sc by (auto simp: unat_gt_0)
  obtain r where r: "(if u' AND 1 \<noteq> 0 then whittle v' u' else whittle u' v') = Some r"
      "unat r = gcd (unat u') (unat v')"
    using whittle_ok [of v' u'] whittle_ok [of u' v'] nz sc(4)
    by (cases "odd (unat u')") (auto simp: and_one_iff gcd.commute)
  have fits: "2 ^ k * unat r < 2 ^ LENGTH('a)"
  proof -
    have "unat r \<le> unat u'" using r nz by (simp add: gcd_le1_nat unat_eq_zero)
    then have "2 ^ k * unat r \<le> unat u" using sc by simp
    then show ?thesis using unsigned_less [of u, where ?'a = nat] by linarith
  qed
  have "unat (push_bit k r) = 2 ^ k * unat r"
    unfolding unsigned_push_bit_eq using fits
    by (simp add: push_bit_eq_mult mult.commute take_bit_nat_eq_self_iff)
  also have "\<dots> = gcd (unat u) (unat v)" using r sc by (simp add: gcd_mult_distrib_nat)
  finally show ?thesis using sc r False by (auto simp: gcd_binary_def)
qed

text \<open>On a pair of non-negative values that fit the signed type the signed evaluator is the binary one.\<close>

lemma negate_signed_ok:
  fixes a :: "'b::len word"
  assumes "sint a < 0" and "sint a \<noteq> - (2 ^ (LENGTH('b) - 1))"
  shows "negate_signed a = Some (- a) \<and> uint (- a) = \<bar>sint a\<bar>"
proof -
  have lo: "- (2 ^ (LENGTH('b) - 1)) \<le> sint a" by (rule sint_ge)
  have pow: "(2::int) ^ LENGTH('b) = 2 * 2 ^ (LENGTH('b) - 1)"
    using len_gt_0 [where ?'a = 'b] by (metis Suc_diff_1 power_Suc)
  have "- a = word_of_int (- sint a)" by simp
  then have "uint (- a) = (- sint a) mod 2 ^ LENGTH('b)" by (simp only: uint_word_of_int)
  also have "\<dots> = - sint a"
    using assms lo pow by (intro mod_pos_pos_trivial) auto
  finally show ?thesis using assms by (simp add: negate_signed_def)
qed

lemma sint_eq_uint_small:
  fixes g :: "'b::len word"
  assumes "uint g < 2 ^ (LENGTH('b) - 1)"
  shows "sint g = uint g"
  using assms by (simp add: sint_uint signed_take_bit_int_eq_self_iff order_trans [of _ 0])

lemma gcd_bounded: "0 \<le> a \<Longrightarrow> 0 \<le> b \<Longrightarrow> a < B \<Longrightarrow> b < B \<Longrightarrow> gcd a b < (B::int)"
  by (metis gcd_0_int abs_of_nonneg gcd_le1_int gcd_le2_int gcd.commute le_less le_less_trans)

lemma gcd_signed_ok:
  fixes a b :: "'b::len word"
  assumes "sint a \<noteq> - (2 ^ (LENGTH('b) - 1))" and "sint b \<noteq> - (2 ^ (LENGTH('b) - 1))"
  shows "\<exists>g. gcd_signed a b = Some g \<and> sint g = gcd (sint a) (sint b)"
proof -
  let ?m = "2 ^ (LENGTH('b) - 1) :: int"
  have abs_word: "\<exists>x'. (if x <s 0 then negate_signed x else Some x) = Some x'
      \<and> uint x' = \<bar>sint x\<bar> \<and> \<bar>sint x\<bar> < ?m" if "sint x \<noteq> - ?m" for x :: "'b word"
  proof (cases "sint x < 0")
    case True
    moreover have "- ?m \<le> sint x" by (rule sint_ge)
    ultimately show ?thesis using negate_signed_ok [OF True that] that
      by (auto simp: word_sless_alt)
  next
    case False
    have "sint x < ?m" by (rule sint_lt)
    moreover have "uint x = sint x"
    proof -
      have "x = word_of_int (sint x)" by simp
      then have "uint x = sint x mod 2 ^ LENGTH('b)" by (metis uint_word_of_int)
      moreover have "?m \<le> 2 ^ LENGTH('b)" by (rule power_increasing) auto
      ultimately show ?thesis using False \<open>sint x < ?m\<close> by simp
    qed
    ultimately show ?thesis using False by (auto simp: word_sless_alt)
  qed
  obtain a' b' where ab: "(if a <s 0 then negate_signed a else Some a) = Some a'"
      "(if b <s 0 then negate_signed b else Some b) = Some b'"
      "uint a' = \<bar>sint a\<bar>" "uint b' = \<bar>sint b\<bar>" "\<bar>sint a\<bar> < ?m" "\<bar>sint b\<bar> < ?m"
    using abs_word [OF assms(1)] abs_word [OF assms(2)] by blast
  obtain g where g: "gcd_binary a' b' = Some g" "unat g = gcd (unat a') (unat b')"
    using gcd_binary_ok by blast
  have "uint g = gcd (uint a') (uint b')"
    using g(2) by (metis gcd_int_int_eq uint_nat)
  then have u: "uint g = gcd (sint a) (sint b)" using ab by simp
  moreover have "gcd (sint a) (sint b) < ?m"
    using gcd_bounded [of "\<bar>sint a\<bar>" "\<bar>sint b\<bar>" ?m] ab by simp
  ultimately have "sint g = gcd (sint a) (sint b)" by (simp add: sint_eq_uint_small)
  then show ?thesis using ab g by (auto simp: gcd_signed_def)
qed

subsection \<open>The multiple at a built-in type\<close>

lemma tdiv_abs_le: "\<bar>tdiv a b\<bar> \<le> \<bar>a\<bar>"
proof (cases "b = 0")
  case False
  have n: "0 \<le> \<bar>a\<bar> div \<bar>b\<bar>" by (simp add: pos_imp_zdiv_nonneg_iff False)
  have "\<bar>tdiv a b\<bar> = \<bar>sgn a * sgn b\<bar> * (\<bar>a\<bar> div \<bar>b\<bar>)" unfolding tdiv_def abs_mult [of _ "\<bar>a\<bar> div \<bar>b\<bar>"] abs_of_nonneg [OF n] ..
  also have "\<dots> \<le> 1 * (\<bar>a\<bar> div \<bar>b\<bar>)" using n by (intro mult_right_mono) (simp_all add: abs_mult abs_sgn_eq)
  also have "\<dots> \<le> \<bar>a\<bar>" using zdiv_mono2 [of "\<bar>a\<bar>" 1 "\<bar>b\<bar>"] False by simp
  finally show ?thesis .
qed (simp add: tdiv_def)

lemma signed_div_small: "b \<noteq> 0 \<Longrightarrow> \<bar>a\<bar> < 2 ^ (w - 1) \<Longrightarrow> signed_div w a b = Some (tdiv a b)"
  using tdiv_abs_le [of a b] by (auto simp: signed_div_def signed_value_def in_signed_def)

lemma signed_mod_small: "b \<noteq> 0 \<Longrightarrow> \<bar>a\<bar> < 2 ^ (w - 1) \<Longrightarrow> signed_mod w a b = Some (tmod a b)"
  by (simp add: signed_mod_def signed_div_small)

lemma gcd_euclidean_signed_small:
  "\<bar>a\<bar> < 2 ^ (w - 1) \<Longrightarrow> \<bar>b\<bar> < 2 ^ (w - 1) \<Longrightarrow> gcd_euclidean_signed w a b = Some (gcd_euclidean a b)"
proof (induction a b rule: gcd_euclidean.induct)
  case (1 a b)
  show ?case
  proof (cases "a = 0 \<or> tmod b a = 0")
    case True
    then show ?thesis using 1(2,3) by (auto simp: gcd_euclidean_signed.simps [of w a b] gcd_euclidean.simps [of a b] signed_mod_small)
  next
    case False
    then have "\<bar>tmod b a\<bar> < 2 ^ (w - 1)" "\<bar>tmod a (tmod b a)\<bar> < 2 ^ (w - 1)"
      using 1(2) tmod_abs_less [of a b] tmod_abs_less [of "tmod b a" a] by auto
    then show ?thesis using 1 False by (simp add: gcd_euclidean_signed.simps [of w a b] gcd_euclidean.simps [of a b] signed_mod_small Let_def)
  qed
qed

lemma gcd_euclidean_signed_Some: "gcd_euclidean_signed w a b = Some g \<Longrightarrow> g = gcd_euclidean a b"
proof (induction w a b rule: gcd_euclidean_signed.induct)
  case (1 w a b)
  show ?case
  proof (cases "a = 0")
    case True
    then show ?thesis using 1(2) by (simp add: gcd_euclidean_signed.simps [of w 0 b] gcd_euclidean.simps [of 0])
  next
    case a: False
    show ?thesis
    proof (cases "signed_mod w b a")
      case None
      then show ?thesis using 1(2) a by (simp add: gcd_euclidean_signed.simps [of w a b])
    next
      case b1: (Some b1)
      have m: "tmod b a = b1" using signed_mod_less [OF b1] by simp
      show ?thesis
      proof (cases "b1 = 0")
        case True
        then have "g = a" using 1(2) a b1 by (simp add: gcd_euclidean_signed.simps [of w a b])
        then show ?thesis using True a m by (simp add: gcd_euclidean.simps [of a b])
      next
        case ne: False
        show ?thesis
        proof (cases "signed_mod w a b1")
          case None
          then show ?thesis using 1(2) a b1 ne by (simp add: gcd_euclidean_signed.simps [of w a b])
        next
          case a1: (Some a1)
          have m1: "tmod a b1 = a1" using signed_mod_less [OF a1] by simp
          have "gcd_euclidean_signed w a1 b1 = Some g" using 1(2) a b1 ne a1 by (simp add: gcd_euclidean_signed.simps [of w a b])
          from 1(1) [OF a b1 ne a1 this] show ?thesis using a ne m m1 by (simp add: gcd_euclidean.simps [of a b])
        qed
      qed
    qed
  qed
qed

lemma lcm_signed_exact:
  assumes w: "2 \<le> w" and ab: "in_signed w a" "in_signed w b"
  shows "lcm_signed w a b = (if lcm a b < 2 ^ (w - 1) then Some (lcm a b) else None)"
proof -
  let ?g = "gcd_euclidean a b" and ?M = "2 ^ (w - 1) :: int"
  have "(2::int) ^ 1 \<le> ?M" using w by (intro power_increasing) simp_all
  then have one: "in_signed w 0" "in_signed w 1" by (simp_all add: in_signed_def)
  have prod: "\<bar>tdiv a ?g * b\<bar> = lcm a b" if "?g \<noteq> 0"
    using lcm_integer_eq [of a b] that by (auto simp: lcm_integer_def lcm_euclidean_def Let_def split: if_splits)
  show ?thesis
  proof (cases "a = 0 \<or> b = 0")
    case True
    then have "lcm_signed w a b = Some 0"
    proof
      assume "a = 0"
      then show ?thesis using one by (simp add: lcm_signed_def gcd_euclidean_signed.simps [of w 0 b] signed_div_def signed_value_def tdiv_def)
    next
      assume b: "b = 0"
      have "signed_mod w 0 a = Some 0" if "a \<noteq> 0" using that one by (simp add: signed_mod_def signed_div_def signed_value_def tdiv_def tmod_def)
      then have "gcd_euclidean_signed w a 0 = Some a" by (simp add: gcd_euclidean_signed.simps [of w a 0])
      moreover have "tdiv a a = 1" if "a \<noteq> 0" using that by (simp add: tdiv_dvd)
      ultimately show ?thesis using b one by (simp add: lcm_signed_def signed_div_def signed_value_def)
    qed
    then show ?thesis using True by auto
  next
    case nz: False
    then have g: "?g \<noteq> 0" using abs_gcd_euclidean [of a b] by auto
    note p = prod [OF g]
    show ?thesis
    proof (cases "lcm a b < ?M")
      case True
      have "\<bar>a\<bar> \<le> lcm a b" "\<bar>b\<bar> \<le> lcm a b" using nz by (intro zdvd_imp_le; simp add: lcm_pos_int)+
      then have small: "\<bar>a\<bar> < ?M" "\<bar>b\<bar> < ?M" using True by linarith+
      have "in_signed w (tdiv a ?g * b)" "tdiv a ?g * b < 0 \<Longrightarrow> in_signed w (- (tdiv a ?g * b))"
        using True p by (auto simp: in_signed_def)
      then show ?thesis using True p g signed_div_small [OF g small(1)] by (auto simp: lcm_signed_def gcd_euclidean_signed_small [OF small] signed_value_def)
    next
      case False
      then have out: "\<not> in_signed w (tdiv a ?g * b) \<or> tdiv a ?g * b < 0 \<and> \<not> in_signed w (- (tdiv a ?g * b))"
        using p by (auto simp: in_signed_def)
      show ?thesis
      proof (cases "gcd_euclidean_signed w a b")
        case (Some t)
        then have "gcd_euclidean_signed w a b = Some ?g" using gcd_euclidean_signed_Some [OF Some] by simp
        then show ?thesis using False g out by (simp add: lcm_signed_def signed_div_def signed_value_def)
      qed (use False in \<open>simp add: lcm_signed_def\<close>)
    qed
  qed
qed

text \<open>The greatest common divisor at a narrow type, as an unsigned value: 2 to the number of value bits does not fit the signed type.\<close>

lemma uint_abs:
  fixes x :: "'b::len word"
  shows "uint (if x <s 0 then - x else x) = \<bar>sint x\<bar>"
proof (cases "sint x < 0")
  case True
  have lo: "- (2 ^ (LENGTH('b) - 1)) \<le> sint x" by (rule sint_ge)
  have pow: "(2::int) ^ LENGTH('b) = 2 * 2 ^ (LENGTH('b) - 1)" using len_gt_0 [where ?'a = 'b] by (metis Suc_diff_1 power_Suc)
  have "- x = word_of_int (- sint x)" by simp
  then have "uint (- x) = (- sint x) mod 2 ^ LENGTH('b)" by (simp only: uint_word_of_int)
  also have "\<dots> = - sint x"
    using True lo pow by (intro mod_pos_pos_trivial) (auto intro: le_less_trans [of _ "2 ^ (LENGTH('b) - 1)"])
  finally show ?thesis using True by (simp add: word_sless_alt)
next
  case False
  have "x = word_of_int (sint x)" by simp
  then have "uint x = sint x mod 2 ^ LENGTH('b)" by (metis uint_word_of_int)
  moreover have "sint x < 2 ^ (LENGTH('b) - 1)" by (rule sint_lt)
  moreover have "(2::int) ^ (LENGTH('b) - 1) \<le> 2 ^ LENGTH('b)" by (rule power_increasing) auto
  ultimately show ?thesis using False by (simp add: word_sless_alt)
qed

lemma gcd_narrow_ok: "\<exists>g. gcd_narrow a b = Some g \<and> uint g = gcd (sint a) (sint b)"
proof -
  obtain g where "gcd_narrow a b = Some g" "unat g = gcd (unat (if a <s 0 then - a else a)) (unat (if b <s 0 then - b else b))"
    using gcd_binary_ok by (metis gcd_narrow_def)
  moreover from this(2) have "uint g = gcd (uint (if a <s 0 then - a else a)) (uint (if b <s 0 then - b else b))" by (metis gcd_int_int_eq uint_nat)
  ultimately show ?thesis unfolding uint_abs by simp
qed


subsection \<open>What the clients of gcd rely on\<close>

locale gcd_laws =
  fixes g :: "int \<Rightarrow> int \<Rightarrow> int"
  assumes divides1: "g a b dvd a"
    and divides2: "g a b dvd b"
    and greatest: "k dvd a \<Longrightarrow> k dvd b \<Longrightarrow> k dvd g a b"
    and nonneg: "0 \<le> g a b"
begin

lemma is_gcd: "g a b = gcd a b"
  using divides1 divides2 greatest nonneg by (metis gcd_unique_int)

lemma pos_iff: "0 < g a b \<longleftrightarrow> a \<noteq> 0 \<or> b \<noteq> 0"
  by (simp add: is_gcd)

lemma tdiv_exact:
  "tdiv a (g a b) = a div g a b" "tdiv b (g a b) = b div g a b"
  by (simp_all add: tdiv_dvd divides1 divides2)

lemma lowest_terms: "a \<noteq> 0 \<or> b \<noteq> 0 \<Longrightarrow> coprime (a div g a b) (b div g a b)"
  by (simp add: is_gcd div_gcd_coprime)

end

interpretation int_gcd: gcd_laws integer_gcd
  by unfold_locales (simp_all add: integer_gcd_def gcd_integer_eq)

lemmas integer_gcd_eq = int_gcd.is_gcd

lemma integer_lcm_eq: "integer_lcm a b = lcm a b"
  by (simp add: integer_lcm_def lcm_integer_eq)

subsection \<open>Properties\<close>

text \<open>C17 The three algorithms agree. \<^verbatim>\<open>gcd_binary\<close>, for the built-in unsigned types of any width,
  ends on every input, and its value is the one the Euclidean template computes on the same
  numbers; both are the greatest common divisor.\<close>

theorem gcd_binary_is_euclid:
  "map_option uint (gcd_binary u v) = Some (integer_gcd (uint u) (uint v))
   \<and> integer_gcd (uint u) (uint v) = gcd (uint u) (uint v)"
proof -
  obtain g where "gcd_binary u v = Some g" "unat g = gcd (unat u) (unat v)"
    using gcd_binary_ok by blast
  moreover from this have "uint g = gcd (uint u) (uint v)"
    by (metis gcd_int_int_eq uint_nat)
  ultimately show ?thesis by (simp add: integer_gcd_eq)
qed

text \<open>C29 The evaluators of the built-in signed types. \<^verbatim>\<open>gcd\<close> returns the greatest common divisor, as a non-negative value of the type,
  whenever neither argument is the least value of the type. \<^verbatim>\<open>lcm\<close>, at \<^verbatim>\<open>int\<close> and wider types, returns the least common multiple exactly when that is a
  value of the type; otherwise a product or a negation in it overflows, which is undefined.\<close>

theorem gcd_signed_correct:
  fixes a b :: "'b::len word"
  assumes "2 \<le> LENGTH('b)" and "sint a \<noteq> - (2 ^ (LENGTH('b) - 1))" and "sint b \<noteq> - (2 ^ (LENGTH('b) - 1))"
  shows "map_option sint (gcd_signed a b) = Some (gcd (sint a) (sint b))
    \<and> lcm_signed LENGTH('b) (sint a) (sint b) =
        (if lcm (sint a) (sint b) < 2 ^ (LENGTH('b) - 1) then Some (lcm (sint a) (sint b)) else None)"
proof -
  have "in_signed LENGTH('b) (sint a)" "in_signed LENGTH('b) (sint b)" by (simp_all only: in_signed_def sint_ge sint_lt simp_thms)
  then show ?thesis using gcd_signed_ok [OF assms(2,3)] lcm_signed_exact [OF assms(1)] by auto
qed

theorem gcd_signed_correct_witness:
  "map_option sint (gcd_signed (- 12 :: 32 word) 18) = Some 6 \<and> lcm_signed 32 (- 12) 18 = Some 36 \<and> lcm_signed 32 65536 65537 = None"
proof -
  have "gcd (- 12) 18 = (6::int)" "lcm (- 12) 18 = (36::int)" "lcm 65536 65537 = (4295032832::int)" by code_simp+
  then show ?thesis using gcd_signed_correct [of "- 12 :: 32 word" 18] gcd_signed_correct [of "65536 :: 32 word" 65537] by simp
qed

end
