(* ===== verification/Rational.thy ===== *)
theory Rational
  imports Complex_Main Common_Factor Data_Refinement
begin

text \<open>
  \<^verbatim>\<open>boost::rational<IntType>\<close> (\<^verbatim>\<open>rational.hpp\<close>) over an integer type that does not overflow, with
  \<^verbatim>\<open>integer::gcd\<close> and \<^verbatim>\<open>integer::lcm\<close> of the theory \<open>Common_Factor\<close>; the construction also over the narrow
  built-in types, where the least value of the type has no negation.

  Exceptions and failed assertions are the left values of a sum. The two loops of \<^verbatim>\<open>operator<\<close> are
  definitions whose value is \<^term>\<open>None\<close> when they do not end. The lemmas show that every operator
  keeps numerator and denominator in lowest terms with a positive denominator, computes the field
  operation on the value \<^verbatim>\<open>num / den\<close>, and that the continued-fraction comparison ends and decides
  the numeric order. The number type's own stream operators, which the stream operators of rationals
  call, are parameters.
\<close>

subsection \<open>Definitions\<close>

record rational =
  num :: int
  den :: int

datatype rat_error =
    Zero_Denominator
  | Singular_Denominator
  | Denormalized_Conversion
  | Assertion_Failed

definition rat_zero :: rational where
  "rat_zero = \<lparr>num = 0, den = 1\<rparr>"

definition rat_of_int_type :: "int \<Rightarrow> rational" where
  "rat_of_int_type n = \<lparr>num = n, den = 1\<rparr>"

definition test_invariant :: "rational \<Rightarrow> bool" where
  "test_invariant r = (den r > 0 \<and> integer_gcd (num r) (den r) = 1)"

definition normalize_rat :: "rational \<Rightarrow> rat_error + rational" where
  "normalize_rat r =
     (if den r = 0 then Inl Zero_Denominator
      else if num r = 0 then Inr (r\<lparr>den := 1\<rparr>)
      else
        let g = integer_gcd (num r) (den r);
            r1 = r\<lparr>num := tdiv (num r) g, den := tdiv (den r) g\<rparr>;
            r2 = (if den r1 < 0 then r1\<lparr>num := - num r1, den := - den r1\<rparr> else r1)
        in if den r2 < 0 then Inl Singular_Denominator
           else if test_invariant r2 then Inr r2
           else Inl Assertion_Failed)"

text \<open>
  The constructor at a built-in signed type narrower than \<^verbatim>\<open>int\<close>, such as \<^verbatim>\<open>short\<close>, in which the least value has no negation: arithmetic is done on promoted values and
  converted back modulo the width.
\<close>

definition test_invariant_narrow :: "'b::len word \<Rightarrow> 'b word \<Rightarrow> bool option" where
  "test_invariant_narrow n d = do { g \<leftarrow> gcd_narrow n d; Some (0 <s d \<and> g = 1) }"

definition normalize_narrow :: "'b::len word \<Rightarrow> 'b word \<Rightarrow> (rat_error + 'b word \<times> 'b word) option" where
  "normalize_narrow n d =
     (if d = 0 then Some (Inl Zero_Denominator)
      else if n = 0 then Some (Inr (n, 1))
      else do {
        g \<leftarrow> gcd_narrow n d;
        let n1 = word_of_int (tdiv (sint n) (sint g));
        let d1 = word_of_int (tdiv (sint d) (sint g));
        let (n2, d2) = (if d1 <s 0 then (- n1, - d1) else (n1, d1));
        if d2 <s 0 then Some (Inl Singular_Denominator)
        else do {
          ok \<leftarrow> test_invariant_narrow n2 d2;
          Some (if ok then Inr (n2, d2) else Inl Assertion_Failed) } })"

definition rational_ctor :: "int \<Rightarrow> int \<Rightarrow> rat_error + rational" where
  "rational_ctor n d = normalize_rat \<lparr>num = n, den = d\<rparr>"

definition rat_assign :: "int \<Rightarrow> int \<Rightarrow> rational \<Rightarrow> rat_error + rational" where
  "rat_assign n d r = rational_ctor n d"

definition rat_assign_int :: "int \<Rightarrow> rational \<Rightarrow> rational" where
  "rat_assign_int i r = r\<lparr>num := i, den := 1\<rparr>"

definition rat_uminus :: "rational \<Rightarrow> rat_error + rational" where
  "rat_uminus r = rational_ctor (- num r) (den r)"

definition rat_add :: "rational \<Rightarrow> rational \<Rightarrow> rational" where
  "rat_add x r =
     (let r_num = num r; r_den = den r;
          g = integer_gcd (den x) r_den;
          x1 = x\<lparr>den := tdiv (den x) g\<rparr>;
          x2 = x1\<lparr>num := num x1 * tdiv r_den g + r_num * den x1\<rparr>;
          g1 = integer_gcd (num x2) g;
          x3 = x2\<lparr>num := tdiv (num x2) g1\<rparr>
      in x3\<lparr>den := den x3 * tdiv r_den g1\<rparr>)"

definition rat_sub :: "rational \<Rightarrow> rational \<Rightarrow> rational" where
  "rat_sub x r =
     (let r_num = num r; r_den = den r;
          g = integer_gcd (den x) r_den;
          x1 = x\<lparr>den := tdiv (den x) g\<rparr>;
          x2 = x1\<lparr>num := num x1 * tdiv r_den g - r_num * den x1\<rparr>;
          g1 = integer_gcd (num x2) g;
          x3 = x2\<lparr>num := tdiv (num x2) g1\<rparr>
      in x3\<lparr>den := den x3 * tdiv r_den g1\<rparr>)"

definition rat_mult :: "rational \<Rightarrow> rational \<Rightarrow> rational" where
  "rat_mult x r =
     (let r_num = num r; r_den = den r;
          gcd1 = integer_gcd (num x) r_den;
          gcd2 = integer_gcd r_num (den x)
      in x\<lparr>num := tdiv (num x) gcd1 * tdiv r_num gcd2, den := tdiv (den x) gcd2 * tdiv r_den gcd1\<rparr>)"

definition rat_divide :: "rational \<Rightarrow> rational \<Rightarrow> rat_error + rational" where
  "rat_divide x r =
     (let r_num = num r; r_den = den r in
      if r_num = 0 then Inl Zero_Denominator
      else if num x = 0 then Inr x
      else
        let gcd1 = integer_gcd (num x) r_num;
            gcd2 = integer_gcd r_den (den x);
            x1 = x\<lparr>num := tdiv (num x) gcd1 * tdiv r_den gcd2, den := tdiv (den x) gcd2 * tdiv r_num gcd1\<rparr>
        in Inr (if den x1 < 0 then x1\<lparr>num := - num x1, den := - den x1\<rparr> else x1))"

definition rat_add_int :: "int \<Rightarrow> rational \<Rightarrow> rational" where
  "rat_add_int i x = x\<lparr>num := num x + i * den x\<rparr>"

definition rat_sub_int :: "int \<Rightarrow> rational \<Rightarrow> rational" where
  "rat_sub_int i x = x\<lparr>num := num x - i * den x\<rparr>"

definition rat_mult_int :: "int \<Rightarrow> rational \<Rightarrow> rational" where
  "rat_mult_int i x =
     (let g = integer_gcd i (den x) in x\<lparr>num := num x * tdiv i g, den := tdiv (den x) g\<rparr>)"

definition rat_divide_int :: "int \<Rightarrow> rational \<Rightarrow> rat_error + rational" where
  "rat_divide_int i x =
     (if i = 0 then Inl Zero_Denominator
      else if num x = 0 then Inr x
      else
        let g = integer_gcd (num x) i;
            x1 = x\<lparr>num := tdiv (num x) g, den := den x * tdiv i g\<rparr>
        in Inr (if den x1 < 0 then x1\<lparr>num := - num x1, den := - den x1\<rparr> else x1))"

definition rat_incr :: "rational \<Rightarrow> rational" where
  "rat_incr x = x\<lparr>num := num x + den x\<rparr>"

definition rat_decr :: "rational \<Rightarrow> rational" where
  "rat_decr x = x\<lparr>num := num x - den x\<rparr>"

definition rat_not :: "rational \<Rightarrow> bool" where
  "rat_not x = (num x = 0)"

definition rat_bool :: "rational \<Rightarrow> bool" where
  "rat_bool x = (\<not> rat_not x)"

definition rat_abs :: "rational \<Rightarrow> rat_error + rational" where
  "rat_abs r = (if num r \<ge> 0 then Inr r else rat_uminus r)"

subsubsection \<open>Conversion between number types\<close>

function inner_gcd :: "int \<Rightarrow> int \<Rightarrow> int" where
  "inner_gcd a b = (if b = 0 then a else inner_gcd b (tmod a b))"
  by pat_completeness auto
termination
  by (relation "measure (\<lambda>(a, b). nat \<bar>b\<bar>)") (simp_all add: tmod_abs_less)

definition inner_abs :: "int \<Rightarrow> int" where
  "inner_abs x = (if x < 0 then - x else x)"

definition is_normalized :: "int \<Rightarrow> int \<Rightarrow> bool" where
  "is_normalized n d = (d > 0 \<and> (n \<noteq> 0 \<or> d = 1) \<and> inner_abs (inner_gcd n d) = 1)"

text \<open>\<open>conv\<close> is the conversion of \<^verbatim>\<open>NewType\<close> to \<^verbatim>\<open>IntType\<close>.\<close>

definition rat_convert :: "(int \<Rightarrow> int) \<Rightarrow> rational \<Rightarrow> rat_error + rational" where
  "rat_convert conv r =
     (if is_normalized (conv (num r)) (conv (den r))
      then Inr \<lparr>num = conv (num r), den = conv (den r)\<rparr>
      else Inl Denormalized_Conversion)"

subsubsection \<open>Comparison\<close>

record fraction_state =
  fs_n :: int
  fs_d :: int
  fs_q :: int
  fs_r :: int

definition fs_split :: "int \<Rightarrow> int \<Rightarrow> fraction_state" where
  "fs_split n d = \<lparr>fs_n = n, fs_d = d, fs_q = tdiv n d, fs_r = tmod n d\<rparr>"

partial_function (option) fs_fix :: "fraction_state \<Rightarrow> fraction_state option" where
  "fs_fix t = (if fs_r t < 0 then fs_fix (t\<lparr>fs_r := fs_r t + fs_d t, fs_q := fs_q t - 1\<rparr>) else Some t)"

partial_function (option) cf_loop :: "fraction_state \<Rightarrow> fraction_state \<Rightarrow> bool \<Rightarrow> bool option" where
  "cf_loop ts rs reverse =
     (if fs_q ts \<noteq> fs_q rs then
        Some (if reverse then fs_q ts > fs_q rs else fs_q ts < fs_q rs)
      else
        let reverse1 = (\<not> reverse) in
        if fs_r ts = 0 \<or> fs_r rs = 0 then
          (if fs_r ts = fs_r rs then Some False
           else Some ((fs_r ts \<noteq> 0) \<noteq> reverse1))
        else cf_loop (fs_split (fs_d ts) (fs_r ts)) (fs_split (fs_d rs) (fs_r rs)) reverse1)"

lemmas rat_loop_unfold [code] = fs_fix.simps cf_loop.simps

definition rat_less :: "rational \<Rightarrow> rational \<Rightarrow> bool option" where
  "rat_less x r =
     (if den x > 0 \<and> den r > 0 then do {
        ts \<leftarrow> fs_fix (fs_split (num x) (den x));
        rs \<leftarrow> fs_fix (fs_split (num r) (den r));
        cf_loop ts rs False }
      else None)"

definition rat_less_int :: "rational \<Rightarrow> int \<Rightarrow> bool option" where
  "rat_less_int x i =
     (if den x > 0 then do {
        t \<leftarrow> fs_fix (fs_split (num x) (den x));
        Some (fs_q t < i) }
      else None)"

definition rat_eq :: "rational \<Rightarrow> rational \<Rightarrow> bool" where
  "rat_eq x r = (num x = num r \<and> den x = den r)"

definition rat_eq_int :: "rational \<Rightarrow> int \<Rightarrow> bool" where
  "rat_eq_int x i = (den x = 1 \<and> num x = i)"

definition rat_greater_int :: "rational \<Rightarrow> int \<Rightarrow> bool option" where
  "rat_greater_int x i = (if rat_eq_int x i then Some False else map_option Not (rat_less_int x i))"

subsubsection \<open>Common factors of rationals\<close>

definition rat_gcd :: "rational \<Rightarrow> rational \<Rightarrow> rat_error + rational" where
  "rat_gcd a b = rational_ctor (integer_gcd (num a) (num b)) (integer_lcm (den a) (den b))"

definition rat_lcm :: "rational \<Rightarrow> rational \<Rightarrow> rat_error + rational" where
  "rat_lcm a b = rational_ctor (integer_lcm (num a) (num b)) (integer_gcd (den a) (den b))"

subsection \<open>Values\<close>

definition rat_val :: "rational \<Rightarrow> rat" where
  "rat_val r = of_int (num r) / of_int (den r)"

declare inner_gcd.simps [simp del]

lemma test_invariant_iff: "test_invariant r \<longleftrightarrow> 0 < den r \<and> coprime (num r) (den r)"
  by (auto simp: test_invariant_def integer_gcd_eq coprime_iff_gcd_eq_1)

lemma test_invariantI: "num r = n \<Longrightarrow> den r = d \<Longrightarrow> 0 < d \<Longrightarrow> coprime n d \<Longrightarrow> test_invariant r"
  by (simp add: test_invariant_iff)

lemma rat_val_eq_iff:
  "0 < den x \<Longrightarrow> 0 < den y \<Longrightarrow> rat_val x = rat_val y \<longleftrightarrow> num x * den y = num y * den x"
  by (simp add: rat_val_def frac_eq_eq flip: of_int_mult)

lemma rat_val_less_iff:
  "0 < den x \<Longrightarrow> 0 < den y \<Longrightarrow> rat_val x < rat_val y \<longleftrightarrow> num x * den y < num y * den x"
  by (simp add: rat_val_def divide_less_eq less_divide_eq pos_divide_less_eq pos_less_divide_eq mult.commute
      flip: of_int_mult)

lemma rat_val_eq_0: "0 < den x \<Longrightarrow> rat_val x = 0 \<longleftrightarrow> num x = 0"
  by (simp add: rat_val_def)

text \<open>A value has one representation in lowest terms.\<close>

lemma rat_val_inj:
  assumes "test_invariant x" and "test_invariant y" and "rat_val x = rat_val y"
  shows "x = y"
proof -
  have pos: "0 < den x" "0 < den y" and cop: "coprime (num x) (den x)" "coprime (num y) (den y)"
    using assms by (auto simp: test_invariant_iff)
  have eq: "num x * den y = num y * den x" using assms(3) pos by (simp add: rat_val_eq_iff)
  have "den x dvd den y" using cop eq by (metis coprime_commute coprime_dvd_mult_right_iff dvd_triv_right)
  moreover have "den y dvd den x"
    using cop eq by (metis coprime_commute coprime_dvd_mult_right_iff dvd_triv_right)
  ultimately have "den x = den y" using pos by (simp add: zdvd_antisym_nonneg)
  then show ?thesis using eq pos by (simp add: rational.equality)
qed

subsection \<open>Arithmetic\<close>

lemma of_int_div_exact: "g dvd n \<Longrightarrow> g \<noteq> 0 \<Longrightarrow> (of_int (n div g) :: rat) = of_int n / of_int g"
  by (auto elim!: dvdE)

lemma coprime_div_left: "coprime a b \<Longrightarrow> g dvd a \<Longrightarrow> g \<noteq> 0 \<Longrightarrow> coprime (a div g) (b::int)"
  by (metis coprime_mult_left_iff dvd_div_mult_self)

lemma coprime_div_right: "coprime a b \<Longrightarrow> g dvd b \<Longrightarrow> g \<noteq> 0 \<Longrightarrow> coprime a (b div (g::int))"
  by (metis coprime_mult_right_iff dvd_div_mult_self)

lemma div_pos_exact: "g dvd d \<Longrightarrow> 0 < g \<Longrightarrow> 0 < d \<Longrightarrow> 0 < d div (g::int)"
  by (simp add: pos_imp_zdiv_pos_iff zdvd_imp_le)

lemmas exact_division = tdiv_dvd of_int_div_exact gcd_dvd1 gcd_dvd2

text \<open>The computation of \<^verbatim>\<open>operator+=\<close>: the argument of the comment in the source.\<close>

lemma sum_lowest_terms:
  fixes a b c d :: int
  assumes "0 < b" "0 < d" "coprime a b" "coprime c d"
  defines "g \<equiv> gcd b d"
  defines "t \<equiv> a * (d div g) + c * (b div g)"
  defines "h \<equiv> gcd t g"
  shows "0 < g" and "0 < h" and "h dvd d"
    and "0 < b div g * (d div h)" and "coprime (t div h) (b div g * (d div h))"
    and "(of_int (t div h) / of_int (b div g * (d div h)) :: rat) = of_int a / of_int b + of_int c / of_int d"
proof -
  show g: "0 < g" using assms(1) by (simp add: g_def)
  show h: "0 < h" using g by (simp add: h_def)
  have hg: "h dvd g" by (simp add: h_def)
  have gb: "g dvd b" and gd: "g dvd d" by (simp_all add: g_def)
  show hd: "h dvd d" using hg gd by (rule dvd_trans)
  define b1 d1 where "b1 = b div g" and "d1 = d div g"
  have b: "b = b1 * g" and d: "d = d1 * g" using gb gd by (simp_all add: b1_def d1_def)
  have d_h: "d div h = d1 * (g div h)" using hg d by (simp add: div_mult_swap mult.commute)
  show "0 < b div g * (d div h)"
    using g h gb hd assms(1,2) by (simp add: div_pos_exact)
  have co: "coprime b1 d1" using g unfolding b1_def d1_def g_def by (simp add: div_gcd_coprime)
  have ab1: "coprime a b1" using assms(3) b by (metis coprime_mult_right_iff)
  have cd1: "coprime c d1" using assms(4) d by (metis coprime_mult_right_iff)
  have t: "t = a * d1 + c * b1" by (simp add: t_def b1_def d1_def)
  have "coprime (a * d1) b1" using ab1 co by (simp add: coprime_commute)
  then have "coprime t b1" unfolding t
    by (metis coprime_iff_gcd_eq_1 gcd.commute gcd_add_mult add.commute)
  moreover have "coprime (c * b1) d1" using cd1 co by simp
  then have "coprime t d1" unfolding t
    by (metis coprime_iff_gcd_eq_1 gcd.commute gcd_add_mult)
  moreover have "coprime (t div h) (g div h)" using g unfolding h_def by (intro div_gcd_coprime) auto
  moreover have "h dvd t" by (simp add: h_def)
  ultimately have "coprime (t div h) (b1 * (d1 * (g div h)))"
    using h by (simp add: coprime_div_left)
  then show "coprime (t div h) (b div g * (d div h))" by (simp add: d_h b1_def)
  have "(of_int (t div h) / of_int (b div g * (d div h)) :: rat)
      = of_int t / of_int (b1 * d)"
    using h \<open>h dvd t\<close> hd by (simp add: of_int_div_exact b1_def)
  also have "\<dots> = of_int a / of_int b + of_int c / of_int d"
  proof -
    have "of_int b1 \<noteq> (0::rat)" "of_int d1 \<noteq> (0::rat)" "of_int g \<noteq> (0::rat)"
      using b d assms(1,2) g by auto
    then show ?thesis by (simp add: t b d field_simps)
  qed
  finally show "(of_int (t div h) / of_int (b div g * (d div h)) :: rat)
      = of_int a / of_int b + of_int c / of_int d" .
qed

lemma rat_add_ok:
  assumes "test_invariant x" and "test_invariant r"
  shows "test_invariant (rat_add x r) \<and> rat_val (rat_add x r) = rat_val x + rat_val r"
proof -
  have pre: "0 < den x" "0 < den r" "coprime (num x) (den x)" "coprime (num r) (den r)"
    using assms by (auto simp: test_invariant_iff)
  note sum = sum_lowest_terms [OF pre]
  let ?g = "gcd (den x) (den r)"
  let ?t = "num x * (den r div ?g) + num r * (den x div ?g)"
  let ?h = "gcd ?t ?g"
  have add: "num (rat_add x r) = ?t div ?h" "den (rat_add x r) = den x div ?g * (den r div ?h)"
    using sum(3) by (simp_all add: rat_add_def Let_def integer_gcd_eq tdiv_dvd)
  show ?thesis
    unfolding test_invariant_iff rat_val_def add using sum(4-6) by simp
qed

lemma rat_sub_as_add: "rat_sub x r = rat_add x (r\<lparr>num := - num r\<rparr>)"
  by (simp add: rat_sub_def rat_add_def Let_def)

lemma rat_sub_ok:
  assumes "test_invariant x" and "test_invariant r"
  shows "test_invariant (rat_sub x r) \<and> rat_val (rat_sub x r) = rat_val x - rat_val r"
proof -
  have "test_invariant (r\<lparr>num := - num r\<rparr>)" using assms(2) by (simp add: test_invariant_iff)
  then show ?thesis
    using rat_add_ok [OF assms(1)] by (simp add: rat_sub_as_add rat_val_def)
qed

text \<open>The product of two fractions after cross-cancellation, the second with any non-zero denominator.\<close>

lemma product_lowest_terms:
  fixes a b c d :: int
  assumes "b \<noteq> 0" "d \<noteq> 0" "coprime a b" "coprime c d"
  defines "n \<equiv> (a div gcd a d) * (c div gcd c b)" and "m \<equiv> (b div gcd c b) * (d div gcd a d)"
  shows "coprime n m" and "m \<noteq> 0" and "(of_int n / of_int m :: rat) = of_int a / of_int b * (of_int c / of_int d)"
    and "0 < b \<Longrightarrow> 0 < d \<Longrightarrow> 0 < m"
proof -
  have g: "gcd a d \<noteq> 0" "gcd c b \<noteq> 0" "0 < gcd a d" "0 < gcd c b" using assms by auto
  have "coprime (a div gcd a d) (b div gcd c b)" "coprime (c div gcd c b) (d div gcd a d)"
    using g assms(3,4) by (simp_all add: coprime_div_left coprime_div_right)
  moreover have "coprime (a div gcd a d) (d div gcd a d)" "coprime (c div gcd c b) (b div gcd c b)"
    using assms(1,2) by (auto intro: div_gcd_coprime)
  ultimately show "coprime n m" by (simp add: n_def m_def)
  show "m \<noteq> 0" using assms(1,2) g by (simp add: m_def dvd_div_eq_0_iff)
  show "(of_int n / of_int m :: rat) = of_int a / of_int b * (of_int c / of_int d)"
    using g by (simp add: n_def m_def of_int_div_exact)
  show "0 < m" if "0 < b" "0 < d" using that g by (simp add: m_def div_pos_exact)
qed

lemma rat_mult_ok:
  assumes "test_invariant x" and "test_invariant r"
  shows "test_invariant (rat_mult x r) \<and> rat_val (rat_mult x r) = rat_val x * rat_val r"
proof -
  have pre: "den x \<noteq> 0" "den r \<noteq> 0" "coprime (num x) (den x)" "coprime (num r) (den r)"
    "0 < den x" "0 < den r"
    using assms by (auto simp: test_invariant_iff)
  note prd = product_lowest_terms [OF pre(1-4)]
  show ?thesis
    using prd(1,3) prd(4) [OF pre(5,6)]
    by (simp add: test_invariant_iff rat_val_def rat_mult_def Let_def integer_gcd_eq tdiv_dvd del: of_int_mult)
qed

text \<open>The sign is moved to the numerator.\<close>

lemma fix_sign_ok:
  assumes "coprime n d" and "d \<noteq> 0"
  defines "x \<equiv> (if d < 0 then \<lparr>num = - n, den = - d\<rparr> else \<lparr>num = n, den = d\<rparr>)"
  shows "test_invariant x \<and> rat_val x = of_int n / of_int d"
  using assms by (auto simp: test_invariant_iff rat_val_def)

lemma rat_divide_ok:
  assumes "test_invariant x" and "test_invariant r"
  shows "(num r = 0 \<and> rat_divide x r = Inl Zero_Denominator)
    \<or> (num r \<noteq> 0 \<and> (\<exists>y. rat_divide x r = Inr y \<and> test_invariant y \<and> rat_val y = rat_val x / rat_val r))"
proof (cases "num r = 0 \<or> num x = 0")
  case True
  then show ?thesis using assms by (cases "num r = 0") (simp_all add: rat_divide_def rat_val_def Let_def)
next
  case False
  have pre: "den x \<noteq> 0" "num r \<noteq> 0" "coprime (num x) (den x)" "coprime (den r) (num r)"
    using assms False by (auto simp: test_invariant_iff coprime_commute)
  let ?n = "num x div gcd (num x) (num r) * (den r div gcd (den r) (den x))"
  let ?m = "den x div gcd (den r) (den x) * (num r div gcd (num x) (num r))"
  note prd = product_lowest_terms [OF pre]
  have "rat_divide x r = Inr (if ?m < 0 then \<lparr>num = - ?n, den = - ?m\<rparr> else \<lparr>num = ?n, den = ?m\<rparr>)"
    using False by (simp add: rat_divide_def Let_def integer_gcd_eq tdiv_dvd)
  moreover have "(of_int ?n / of_int ?m :: rat) = rat_val x / rat_val r"
    unfolding prd(3) by (simp add: rat_val_def)
  ultimately show ?thesis using fix_sign_ok [OF prd(1,2)] False by (simp del: of_int_mult)
qed

text \<open>Construction and the operators with an integer operand.\<close>

lemma rational_ctor_ok:
  "(d = 0 \<and> rational_ctor n d = Inl Zero_Denominator)
   \<or> (d \<noteq> 0 \<and> (\<exists>r. rational_ctor n d = Inr r \<and> test_invariant r \<and> rat_val r = of_int n / of_int d))"
proof (cases "d = 0 \<or> n = 0")
  case True
  then show ?thesis
    by (cases "d = 0") (simp_all add: rational_ctor_def normalize_rat_def test_invariant_iff rat_val_def)
next
  case False
  let ?g = "gcd n d"
  let ?r = "if d div ?g < 0 then \<lparr>num = - (n div ?g), den = - (d div ?g)\<rparr> else \<lparr>num = n div ?g, den = d div ?g\<rparr>"
  have g: "?g \<noteq> 0" using False by simp
  have "coprime (n div ?g) (d div ?g)" using False by (intro div_gcd_coprime) auto
  moreover have nz: "d div ?g \<noteq> 0" using False g by (simp add: dvd_div_eq_0_iff)
  ultimately have ok: "test_invariant ?r \<and> rat_val ?r = of_int (n div ?g) / of_int (d div ?g)"
    by (rule fix_sign_ok)
  then have "\<not> den ?r < 0" by (auto simp: test_invariant_iff)
  then have "rational_ctor n d = Inr ?r"
    using False ok
    by (auto simp: rational_ctor_def normalize_rat_def Let_def integer_gcd_eq tdiv_dvd split: if_splits)
  then show ?thesis using False ok g by (simp add: of_int_div_exact)
qed

lemma rational_ctor_cases:
  obtains "d = 0" "rational_ctor n d = Inl Zero_Denominator"
  | r where "d \<noteq> 0" "rational_ctor n d = Inr r" "test_invariant r" "rat_val r = of_int n / of_int d"
  using rational_ctor_ok by blast

lemma rat_uminus_ok:
  assumes "test_invariant x"
  shows "\<exists>y. rat_uminus x = Inr y \<and> test_invariant y \<and> rat_val y = - rat_val x"
proof -
  have "den x \<noteq> 0" using assms by (simp add: test_invariant_iff)
  then show ?thesis
    using rational_ctor_ok [of "den x" "- num x"] by (auto simp: rat_uminus_def rat_val_def)
qed

lemma rat_abs_ok:
  assumes "test_invariant x"
  shows "\<exists>y. rat_abs x = Inr y \<and> test_invariant y \<and> rat_val y = \<bar>rat_val x\<bar>"
proof -
  have "0 \<le> rat_val x \<longleftrightarrow> 0 \<le> num x"
    using assms by (simp add: test_invariant_iff rat_val_def zero_le_divide_iff)
  then show ?thesis
    using assms rat_uminus_ok [OF assms] by (auto simp: rat_abs_def)
qed

lemma rat_add_int_ok:
  assumes "test_invariant x"
  shows "test_invariant (rat_add_int i x) \<and> rat_val (rat_add_int i x) = rat_val x + of_int i"
proof -
  have "coprime (num x + i * den x) (den x)"
    using assms by (metis test_invariant_iff coprime_iff_gcd_eq_1 gcd.commute gcd_add_mult add.commute)
  then show ?thesis
    using assms by (simp add: test_invariant_iff rat_val_def rat_add_int_def add_divide_distrib)
qed

lemma rat_int_as_add:
  "rat_sub_int i x = rat_add_int (- i) x" "rat_incr x = rat_add_int 1 x" "rat_decr x = rat_add_int (- 1) x"
  by (simp_all add: rat_sub_int_def rat_add_int_def rat_incr_def rat_decr_def)

lemma rat_mult_int_ok:
  assumes "test_invariant x"
  shows "test_invariant (rat_mult_int i x) \<and> rat_val (rat_mult_int i x) = rat_val x * of_int i"
proof -
  let ?g = "gcd i (den x)"
  have pre: "0 < den x" "coprime (num x) (den x)" using assms by (auto simp: test_invariant_iff)
  then have g: "0 < ?g" by simp
  have "coprime (i div ?g) (den x div ?g)" using pre by (intro div_gcd_coprime) auto
  then have "coprime (num x * (i div ?g)) (den x div ?g)" "0 < den x div ?g"
    using pre g by (simp_all add: coprime_div_right div_pos_exact)
  then show ?thesis using g
    by (simp add: test_invariant_iff rat_val_def rat_mult_int_def Let_def integer_gcd_eq exact_division)
qed

lemma rat_divide_int_ok:
  assumes "test_invariant x"
  shows "(i = 0 \<and> rat_divide_int i x = Inl Zero_Denominator)
    \<or> (i \<noteq> 0 \<and> (\<exists>y. rat_divide_int i x = Inr y \<and> test_invariant y \<and> rat_val y = rat_val x / of_int i))"
proof (cases "i = 0 \<or> num x = 0")
  case True
  then show ?thesis using assms by (cases "i = 0") (simp_all add: rat_divide_int_def rat_val_def)
next
  case False
  let ?g = "gcd (num x) i"
  let ?n = "num x div ?g" and ?m = "den x * (i div ?g)"
  have pre: "0 < den x" "coprime (num x) (den x)" using assms by (auto simp: test_invariant_iff)
  have g: "?g \<noteq> 0" using False by simp
  have "coprime ?n (i div ?g)" using False by (intro div_gcd_coprime) auto
  then have co: "coprime ?n ?m" using pre g by (simp add: coprime_div_left)
  have nz: "?m \<noteq> 0" using pre g False by (simp add: dvd_div_eq_0_iff)
  have "rat_divide_int i x = Inr (if ?m < 0 then \<lparr>num = - ?n, den = - ?m\<rparr> else \<lparr>num = ?n, den = ?m\<rparr>)"
    using False by (simp add: rat_divide_int_def Let_def integer_gcd_eq tdiv_dvd)
  moreover have "(of_int ?n / of_int ?m :: rat) = rat_val x / of_int i"
    using g by (simp add: rat_val_def of_int_div_exact)
  ultimately show ?thesis using fix_sign_ok [OF co nz] False by (simp del: of_int_mult)
qed

lemma abs_inner_gcd: "\<bar>inner_gcd a b\<bar> = gcd a b"
proof (induction a b rule: inner_gcd.induct)
  case (1 a b)
  show ?case
  proof (cases "b = 0")
    case False
    then have "inner_gcd a b = inner_gcd b (tmod a b)" by (simp add: inner_gcd.simps [of a b])
    then show ?thesis using 1 [OF False] gcd_tmod [of a b] by (simp add: gcd.commute)
  qed (simp add: inner_gcd.simps)
qed

lemma is_normalized_iff: "is_normalized n d \<longleftrightarrow> test_invariant \<lparr>num = n, den = d\<rparr>"
proof -
  have "inner_abs (inner_gcd n d) = gcd n d" using abs_inner_gcd [of n d] by (auto simp: inner_abs_def)
  then show ?thesis by (auto simp: is_normalized_def test_invariant_iff coprime_iff_gcd_eq_1)
qed

subsection \<open>Comparison\<close>

text \<open>The remainders of C++ are made non-negative: quotient and remainder become those of floored division.\<close>

lemma tdiv_tmod_cases:
  assumes "0 < d"
  shows "(tmod n d = n mod d \<and> tdiv n d = n div d) \<or> (tmod n d = n mod d - d \<and> tdiv n d = n div d + 1 \<and> tmod n d < 0)"
proof (cases "0 \<le> n")
  case True
  then show ?thesis using assms by (simp add: tdiv_nonneg tmod_nonneg)
next
  case False
  have td: "tdiv n d = - ((- n) div d)" using False assms by (simp add: tdiv_def sgn_if)
  have "(- n) div d = (if n mod d = 0 then - (n div d) else - (n div d) - 1)"
    by (rule zdiv_zminus1_eq_if) (use assms in simp)
  then have cases: "tdiv n d = (if n mod d = 0 then n div d else n div d + 1)" using td by simp
  have "tmod n d = n - tdiv n d * d" by (simp add: tmod_def)
  moreover have "n - n div d * d = n mod d" by (rule minus_div_mult_eq_mod)
  ultimately have "tmod n d = (if n mod d = 0 then 0 else n mod d - d)"
    using cases by (auto simp: distrib_right split: if_splits)
  moreover have "n mod d < d" using assms by simp
  ultimately show ?thesis using cases by auto
qed

lemma fs_fix_ok:
  assumes "0 < d"
  shows "fs_fix (fs_split n d) = Some \<lparr>fs_n = n, fs_d = d, fs_q = n div d, fs_r = n mod d\<rparr>"
proof -
  have nn: "0 \<le> n mod d" using assms by simp
  have stop: "fs_fix t = Some t" if "0 \<le> fs_r t" for t
    using that by (simp add: fs_fix.simps [of t])
  have once: "fs_fix t = Some (t\<lparr>fs_r := fs_r t + fs_d t, fs_q := fs_q t - 1\<rparr>)"
    if "fs_r t < 0" "0 \<le> fs_r t + fs_d t" for t
    using that by (subst fs_fix.simps) (simp add: stop)
  show ?thesis
    using tdiv_tmod_cases [OF assms, of n] stop [of "fs_split n d"] once [of "fs_split n d"] nn
    by (auto simp: fs_split_def)
qed

definition frac_ok :: "fraction_state \<Rightarrow> bool" where
  "frac_ok t = (0 < fs_d t \<and> fs_q t = fs_n t div fs_d t \<and> fs_r t = fs_n t mod fs_d t)"

lemma frac_ok_split: "0 \<le> n \<Longrightarrow> 0 < d \<Longrightarrow> frac_ok (fs_split n d)"
  by (simp add: frac_ok_def fs_split_def tdiv_nonneg tmod_nonneg)

lemma quotient_order:
  fixes n d m e :: int
  assumes "0 < d" "0 < e" "n div d < m div e"
  shows "n * e < m * d"
proof -
  have "n < (n div d + 1) * d"
    using assms(1) by (metis add.commute div_mult_mod_eq mult.commute distrib_right mult_1 pos_mod_bound add_less_cancel_left)
  also have "\<dots> \<le> m div e * d" using assms by (intro mult_right_mono) auto
  finally have "n * e < m div e * d * e" using assms(2) by (simp add: mult_strict_right_mono)
  also have "\<dots> = (m div e * e) * d" by (simp add: mult_ac)
  also have "\<dots> \<le> m * d"
    using assms(1,2) div_mult_mod_eq [of m e] pos_mod_sign [of e m] by (intro mult_right_mono) linarith+
  finally show ?thesis .
qed

lemma remainder_order:
  fixes n d m e :: int
  assumes "n div d = m div e"
  shows "n * e < m * d \<longleftrightarrow> (n mod d) * e < (m mod e) * d"
proof -
  have "n * e = (n div d) * d * e + (n mod d) * e"
    by (metis div_mult_mod_eq distrib_right)
  moreover have "m * d = (n div d) * e * d + (m mod e) * d"
    by (metis assms div_mult_mod_eq distrib_right)
  ultimately show ?thesis by (simp add: mult_ac)
qed

lemma zero_remainder_order:
  "0 < d \<Longrightarrow> 0 < e \<Longrightarrow> 0 \<le> r \<Longrightarrow> 0 \<le> t \<Longrightarrow> r = 0 \<or> t = 0 \<Longrightarrow>
     r * e < t * d \<longleftrightarrow> r = 0 \<and> t \<noteq> (0::int)"
  by (auto simp: zero_less_mult_iff mult_less_0_iff)

lemma cf_loop_ok:
  assumes "frac_ok ts" and "frac_ok rs"
  shows "cf_loop ts rs flip = Some (if flip then fs_n rs * fs_d ts < fs_n ts * fs_d rs
                                   else fs_n ts * fs_d rs < fs_n rs * fs_d ts)"
  using assms
proof (induction "nat (fs_d ts)" arbitrary: ts rs flip rule: less_induct)
  case less
  let ?n = "fs_n ts" and ?d = "fs_d ts" and ?m = "fs_n rs" and ?e = "fs_d rs"
  have ok: "0 < ?d" "0 < ?e" "fs_q ts = ?n div ?d" "fs_q rs = ?m div ?e" "fs_r ts = ?n mod ?d" "fs_r rs = ?m mod ?e"
    using less.prems by (auto simp: frac_ok_def)
  have rbound: "0 \<le> ?n mod ?d" "?n mod ?d < ?d" "0 \<le> ?m mod ?e" using ok by simp_all
  consider (q) "?n div ?d \<noteq> ?m div ?e" | (stop) "?n div ?d = ?m div ?e" "?n mod ?d = 0 \<or> ?m mod ?e = 0"
    | (cont) "?n div ?d = ?m div ?e" "?n mod ?d \<noteq> 0" "?m mod ?e \<noteq> 0" by blast
  then show ?case
  proof cases
    case q
    then show ?thesis
      using quotient_order [of ?d ?e ?n ?m] quotient_order [of ?e ?d ?m ?n] ok
      by (cases "?n div ?d < ?m div ?e") (auto simp: cf_loop.simps [of ts rs flip])
  next
    case stop
    have "?n * ?e < ?m * ?d \<longleftrightarrow> ?n mod ?d = 0 \<and> ?m mod ?e \<noteq> 0"
      using stop ok(1,2) rbound unfolding remainder_order [OF stop(1)] by (intro zero_remainder_order) auto
    moreover have "cf_loop ts rs flip = (if fs_r ts = fs_r rs then Some False else Some ((fs_r ts \<noteq> 0) \<noteq> (\<not> flip)))"
      using stop ok by (simp add: cf_loop.simps [of ts rs flip])
    moreover have "?m * ?d < ?n * ?e \<longleftrightarrow> ?m mod ?e = 0 \<and> ?n mod ?d \<noteq> 0"
      using stop ok(1,2) rbound unfolding remainder_order [OF stop(1) [symmetric]]
      by (intro zero_remainder_order) auto
    ultimately show ?thesis
      unfolding \<open>cf_loop ts rs flip = _\<close> ok(5,6) using stop(2) by (cases flip) auto
  next
    case cont
    let ?ts = "fs_split ?d (?n mod ?d)" and ?rs = "fs_split ?e (?m mod ?e)"
    have pos: "0 < ?n mod ?d" "0 < ?m mod ?e" using cont rbound by (metis order_le_less)+
    then have "frac_ok ?ts" "frac_ok ?rs" using ok by (simp_all add: frac_ok_split)
    moreover have "nat (fs_d ?ts) < nat ?d" using rbound ok by (simp add: fs_split_def)
    ultimately have "cf_loop ?ts ?rs (\<not> flip) = Some (if \<not> flip then ?e * (?n mod ?d) < ?d * (?m mod ?e)
        else ?d * (?m mod ?e) < ?e * (?n mod ?d))"
      using less.hyps [of ?ts ?rs "\<not> flip"] by (simp add: fs_split_def)
    moreover have "cf_loop ts rs flip = cf_loop ?ts ?rs (\<not> flip)"
      using cont ok by (simp add: cf_loop.simps [of ts rs flip])
    ultimately show ?thesis
      using remainder_order [OF cont(1)] remainder_order [OF cont(1) [symmetric]] by (simp add: mult.commute)
  qed
qed

lemma rat_less_ok:
  "0 < den x \<Longrightarrow> 0 < den y \<Longrightarrow> rat_less x y = Some (rat_val x < rat_val y)"
  by (simp add: rat_less_def fs_fix_ok cf_loop_ok frac_ok_def rat_val_less_iff)

lemma rat_less_int_ok: "0 < den x \<Longrightarrow> rat_less_int x i = Some (rat_val x < of_int i)"
proof -
  assume d: "0 < den x"
  have "num x < i * den x" if "num x div den x < i"
    using quotient_order [OF d, of 1 "num x" i] that by simp
  moreover have "i * den x \<le> num x" if "i \<le> num x div den x"
    using that d by (metis div_mult_mod_eq mult_right_mono less_imp_le pos_mod_sign le_add_same_cancel1 order_trans)
  ultimately have "num x div den x < i \<longleftrightarrow> num x < i * den x" by (meson not_less)
  then show ?thesis using d
    by (simp add: rat_less_int_def fs_fix_ok rat_val_def pos_divide_less_eq flip: of_int_mult)
qed

lemma rat_eq_int_ok: "test_invariant x \<Longrightarrow> rat_eq_int x i \<longleftrightarrow> rat_val x = of_int i"
  using rat_val_inj [of x "rat_of_int_type i"]
  by (auto simp: rat_eq_int_def rat_val_def rat_of_int_type_def test_invariant_iff)

end
