(* ===== verification/Rational_Narrow.thy ===== *)
theory Rational_Narrow
  imports Rational
begin

text \<open>
  The constructor of \<^verbatim>\<open>rational\<close> over a built-in signed type narrower than \<^verbatim>\<open>int\<close> (\<open>normalize_narrow\<close>): the value of the result, and the two ways in which the least value of the
  type shows, a denominator that has no negation, on which \<^verbatim>\<open>normalize\<close> throws, and a numerator that has none.
\<close>

subsection \<open>Construction at a narrow type\<close>

lemma sint_value:
  assumes "- (2 ^ (LENGTH('b) - 1)) \<le> x" "x < 2 ^ (LENGTH('b) - 1)"
  shows "sint (word_of_int x :: 'b::len word) = x"
  using assms by (simp add: signed_of_int signed_take_bit_int_eq_self)

lemma sint_zero: "sint x = 0 \<Longrightarrow> x = 0" for x :: "'b::len word"
proof -
  assume "sint x = 0"
  moreover have "x = word_of_int (sint x)" by simp
  ultimately show "x = 0" by (simp del: of_int_sint)
qed

lemma sint_top: "sint (word_of_int (2 ^ (LENGTH('b) - 1)) :: 'b::len word) = - (2 ^ (LENGTH('b) - 1))"
proof -
  let ?x = "word_of_int (2 ^ (LENGTH('b) - 1)) :: 'b word"
  have "(2::int) ^ (LENGTH('b) - 1) + 2 ^ (LENGTH('b) - 1) = 2 ^ LENGTH('b)" using len_gt_0 [where ?'a = 'b] power_Suc [of "2::int" "LENGTH('b) - 1"] by simp
  then have "?x + ?x = word_of_int (2 ^ LENGTH('b))" by (simp only: wi_hom_add)
  then have "?x + ?x = 0" by (simp only: word_of_int_2p_len)
  then have "?x = - ?x" by (rule minus_unique [symmetric])
  also have "\<dots> = word_of_int (- (2 ^ (LENGTH('b) - 1)))" by (simp only: wi_hom_neg)
  finally have "?x = word_of_int (- (2 ^ (LENGTH('b) - 1)))" .
  then show ?thesis by (simp only:) (rule sint_value, simp_all)
qed

lemma test_invariant_narrow_ok:
  "test_invariant_narrow n d = Some (test_invariant \<lparr>num = sint n, den = sint d\<rparr>)"
proof -
  obtain g where g: "gcd_narrow n d = Some g" "uint g = gcd (sint n) (sint d)" using gcd_narrow_ok by blast
  have "g = 1 \<longleftrightarrow> uint g = 1" by (metis uint_1 word_uint_eq_iff)
  then show ?thesis using g by (auto simp: test_invariant_narrow_def test_invariant_def integer_gcd_eq word_sless_alt)
qed

text \<open>The fraction in lowest terms, and the bounds its parts inherit.\<close>

lemma lowest_parts:
  fixes n d :: int
  assumes "n \<noteq> 0" "d \<noteq> 0" "- M \<le> n" "n < M" "- M \<le> d" "d < M"
  defines "p \<equiv> n div gcd n d" and "q \<equiv> d div gcd n d"
  shows "n = p * gcd n d" "d = q * gcd n d" "q \<noteq> 0" "- M \<le> p" "p < M" "- M \<le> q" "q < M" "d < 0 \<longleftrightarrow> q < 0" "p \<noteq> 0"
    "\<bar>x\<bar> = \<bar>p\<bar> \<Longrightarrow> test_invariant \<lparr>num = x, den = \<bar>q\<bar>\<rparr>"
proof -
  have gp: "1 \<le> gcd n d" using assms(1) gcd_pos_int [of n d] by linarith
  show pq: "n = p * gcd n d" "d = q * gcd n d" "q \<noteq> 0" "p \<noteq> 0" using assms by (simp_all add: p_def q_def dvd_div_eq_0_iff)
  have co: "coprime p q" using assms by (simp add: p_def q_def div_gcd_coprime)
  have "\<bar>p\<bar> * 1 \<le> \<bar>p\<bar> * gcd n d" "\<bar>q\<bar> * 1 \<le> \<bar>q\<bar> * gcd n d" using gp by (intro mult_left_mono; simp)+
  then have ran: "\<bar>p\<bar> \<le> \<bar>n\<bar>" "\<bar>q\<bar> \<le> \<bar>d\<bar>" using arg_cong [OF pq(1), of abs] arg_cong [OF pq(2), of abs] by (simp_all add: abs_mult)
  have sg: "0 < p \<Longrightarrow> 0 < n" "0 < q \<Longrightarrow> 0 < d" "q < 0 \<Longrightarrow> d < 0"
    using mult_pos_pos [of p "gcd n d"] mult_pos_pos [of q "gcd n d"] mult_neg_pos [of q "gcd n d"] gp unfolding pq(1,2) [symmetric] by linarith+
  show "- M \<le> p" "p < M" "- M \<le> q" "q < M" using ran sg(1,2) assms by linarith+
  show "d < 0 \<longleftrightarrow> q < 0" using sg(2,3) pq(3) by linarith
  show "\<bar>x\<bar> = \<bar>p\<bar> \<Longrightarrow> test_invariant \<lparr>num = x, den = \<bar>q\<bar>\<rparr>"
    using co pq(3) by (simp add: test_invariant_def integer_gcd_eq) (metis coprime_abs_left_iff coprime_iff_gcd_eq_1 gcd_abs2_int)
qed

text \<open>From the divided parts to the result.\<close>

definition narrow_result :: "int \<Rightarrow> int \<Rightarrow> rat_error + 'b::len word \<times> 'b word" where
  "narrow_result p q =
     (let (n2, d2) = (if q < 0 then (word_of_int (- p) :: 'b word, word_of_int (- q) :: 'b word) else (word_of_int p, word_of_int q)) in
      if sint d2 < 0 then Inl Singular_Denominator
      else if test_invariant \<lparr>num = sint n2, den = sint d2\<rparr> then Inr (n2, d2) else Inl Assertion_Failed)"

lemma normalize_narrow_divided:
  fixes nw dw :: "'b::len word"
  assumes nz: "sint nw \<noteq> 0" "sint dw \<noteq> 0" and g: "gcd_narrow nw dw = Some g"
    and p: "tdiv (sint nw) (sint g) = p" "tdiv (sint dw) (sint g) = q" "- (2 ^ (LENGTH('b) - 1)) \<le> q" "q < 2 ^ (LENGTH('b) - 1)"
  shows "normalize_narrow nw dw = Some (narrow_result p q)"
proof -
  have "nw \<noteq> 0" "dw \<noteq> 0" using nz by auto
  then show ?thesis using g p(1,2) sint_value [OF p(3,4)]
    by (simp add: normalize_narrow_def narrow_result_def test_invariant_narrow_ok word_sless_alt)
qed

lemma narrow_result_eq:
  fixes n d :: int
  defines "M \<equiv> 2 ^ (LENGTH('b) - 1) :: int" and "p \<equiv> n div gcd n d" and "q \<equiv> d div gcd n d"
  assumes n: "n \<noteq> 0" "d \<noteq> 0" "- M \<le> n" "n < M" "- M \<le> d" "d < M"
  shows "(narrow_result p q :: rat_error + 'b::len word \<times> 'b word) =
    (if q = - M then Inl Singular_Denominator else Inr (word_of_int (if d < 0 then - p else p), word_of_int \<bar>q\<bar>))"
proof -
  note l = lowest_parts [OF n, folded p_def q_def]
  have sv: "sint (word_of_int x :: 'b word) = x" if "- M \<le> x" "x < M" for x using sint_value [of x] that by (simp add: M_def)
  have top: "sint (word_of_int M :: 'b word) = - M" unfolding M_def by (rule sint_top)
  have "0 < M" by (simp add: M_def)
  consider "0 < q" | "q = - M" | "q < 0" "q \<noteq> - M" using l(3) by linarith
  then show ?thesis
  proof cases
    case 1
    then show ?thesis using l l(10) [of p] \<open>0 < M\<close> sv [of p] sv [of q] by (simp add: narrow_result_def)
  next
    case 2
    then show ?thesis using top \<open>0 < M\<close> by (simp add: narrow_result_def)
  next
    case 3
    then have "sint (word_of_int (- q) :: 'b word) = - q" using l(6) by (intro sv) linarith+
    moreover have "\<bar>sint (word_of_int (- p) :: 'b word)\<bar> = \<bar>p\<bar>" using top sv [of "- p"] l(4,5) by (cases "p = - M") simp_all
    ultimately show ?thesis using 3 l(8) l(10) [of "sint (word_of_int (- p) :: 'b word)"] by (simp add: narrow_result_def)
  qed
qed

lemma normalize_narrow_eq:
  fixes nw dw :: "'b::len word"
  assumes w: "2 \<le> LENGTH('b)"
  defines "n \<equiv> sint nw" and "d \<equiv> sint dw" and "M \<equiv> 2 ^ (LENGTH('b) - 1) :: int"
  defines "p \<equiv> n div gcd n d" and "q \<equiv> d div gcd n d"
  shows "normalize_narrow nw dw =
    Some (if d = 0 then Inl Zero_Denominator else if q = - M then Inl Singular_Denominator
          else Inr (word_of_int (if d < 0 then - p else p), word_of_int \<bar>q\<bar>))"
proof -
  have M: "2 \<le> M" using power_increasing [of 1 "LENGTH('b) - 1" "2::int"] w by (simp add: M_def)
  have r: "- M \<le> n" "n < M" "- M \<le> d" "d < M" by (simp_all only: n_def d_def M_def sint_ge sint_lt)
  have z: "nw = 0 \<longleftrightarrow> n = 0" "dw = 0 \<longleftrightarrow> d = 0" unfolding n_def d_def by (auto intro: sint_zero)
  show ?thesis
  proof (cases "d = 0 \<or> n = 0")
    case True
    have "d div \<bar>d\<bar> = sgn d" "\<bar>sgn d\<bar> = 1" if "d \<noteq> 0" using that nonzero_mult_div_cancel_right [of "\<bar>d\<bar>" "sgn d"] by (simp_all add: sgn_mult_abs)
    then show ?thesis using True z M by (auto simp: normalize_narrow_def p_def q_def)
  next
    case False
    then have nz: "n \<noteq> 0" "d \<noteq> 0" by simp_all
    note l = lowest_parts [OF nz r, folded p_def q_def] and res = narrow_result_eq [where ?'b = 'b, OF nz r [unfolded M_def], folded M_def p_def q_def]
    obtain g where g: "gcd_narrow nw dw = Some g" "uint g = gcd n d" using gcd_narrow_ok [of nw dw] by (auto simp: n_def d_def)
    have le: "gcd n d \<le> \<bar>n\<bar>" "gcd n d \<le> \<bar>d\<bar>" using nz by (intro zdvd_imp_le; simp)+
    note div = normalize_narrow_divided [OF nz [unfolded n_def d_def] g(1), folded n_def d_def M_def]
    show ?thesis
    proof (cases "gcd n d = M")
      case True
      then have nd: "n = - M" "d = - M" using r le by linarith+
      have "g = word_of_int (uint g)" by simp
      then have "sint g = - M" using g(2) True sint_top [where ?'b = 'b] by (simp add: M_def)
      then have "normalize_narrow nw dw = Some (narrow_result 1 1)" using M nd by (intro div) (simp_all add: tdiv_def)
      moreover have "p = - 1" "q = - 1" using nd M nonzero_mult_div_cancel_right [of M "- 1"] True unfolding p_def q_def by simp_all
      moreover have "narrow_result 1 1 = (narrow_result (- 1) (- 1) :: rat_error + 'b word \<times> 'b word)" by (simp add: narrow_result_def)
      ultimately show ?thesis using res nz by simp
    next
      case g_small: False
      then have "uint g < M" using g(2) le r by linarith
      then have "sint g = gcd n d" using g(2) sint_eq_uint_small [of g] by (simp add: M_def)
      then have "normalize_narrow nw dw = Some (narrow_result p q)" using l(6,7) by (intro div) (simp_all add: p_def q_def tdiv_dvd)
      then show ?thesis using res nz by simp
    qed
  qed
qed

lemma full_quotient:
  fixes n d :: int
  assumes M: "M = 2 ^ k" "1 \<le> k" and d: "d \<noteq> 0" "- M \<le> d" "d < M"
  shows "d div gcd n d = - M \<longleftrightarrow> d = - M \<and> odd n"
proof
  assume q: "d div gcd n d = - M"
  have "0 < gcd n d" using d by simp
  have dg: "d = - M * gcd n d" using q by (metis dvd_div_mult_self gcd_dvd2)
  have "0 < M" using M by simp
  moreover have "M * gcd n d \<le> M * 1" using dg d(2) by linarith
  ultimately have "gcd n d \<le> 1" by simp
  then have "gcd n d = 1" using \<open>0 < gcd n d\<close> by linarith
  then have "d = - M" using dg by simp
  then have "coprime n (2 ^ k)" using \<open>gcd n d = 1\<close> M by (simp add: coprime_iff_gcd_eq_1)
  then show "d = - M \<and> odd n" using \<open>d = - M\<close> M by simp
next
  assume "d = - M \<and> odd n"
  moreover from this have "coprime n M" using M by simp
  ultimately show "d div gcd n d = - M" by (simp add: coprime_iff_gcd_eq_1)
qed

lemma fraction_cancel: "g \<noteq> 0 \<Longrightarrow> of_int p / of_int q = (of_int (p * g) / of_int (q * g) :: rat)" for p q g :: int
  by simp

lemma narrow_value:
  fixes nw dw :: "'b::len word"
  assumes w: "2 \<le> LENGTH('b)" and ok: "normalize_narrow nw dw = Some (Inr (n', d'))"
  defines "n \<equiv> sint nw" and "d \<equiv> sint dw" and "M \<equiv> 2 ^ (LENGTH('b) - 1) :: int"
  shows "d \<noteq> 0 \<and> \<not> (d = - M \<and> odd n) \<and> test_invariant \<lparr>num = sint n', den = sint d'\<rparr>
    \<and> (if n = - M \<and> d < 0 \<and> odd d then sint n' = - M \<and> sint d' = - d
       else rat_val \<lparr>num = sint n', den = sint d'\<rparr> = of_int n / of_int d)"
proof -
  have r: "- M \<le> n" "n < M" "- M \<le> d" "d < M" by (simp_all only: n_def d_def M_def sint_ge sint_lt)
  have k: "M = 2 ^ (LENGTH('b) - 1)" "1 \<le> LENGTH('b) - 1" using w by (simp_all add: M_def)
  have M: "2 \<le> M" using power_increasing [of 1 "LENGTH('b) - 1" "2::int"] w by (simp add: M_def)
  have sv: "sint (word_of_int x :: 'b word) = x" if "- M \<le> x" "x < M" for x using sint_value [of x] that by (simp add: M_def)
  let ?p = "n div gcd n d" and ?q = "d div gcd n d"
  have e: "d \<noteq> 0" "?q \<noteq> - M" "n' = word_of_int (if d < 0 then - ?p else ?p)" "d' = word_of_int \<bar>?q\<bar>"
    using ok normalize_narrow_eq [OF w, of nw dw] by (auto simp: n_def d_def M_def split: if_splits)
  have "\<not> (d = - M \<and> odd n)" using full_quotient [OF k e(1) r(3,4), of n] e(2) by simp
  show ?thesis
  proof (cases "n = 0")
    case True
    have "\<bar>d div \<bar>d\<bar>\<bar> = 1" using e(1) nonzero_mult_div_cancel_right [of "\<bar>d\<bar>" "sgn d"] by (simp add: sgn_mult_abs)
    then show ?thesis using True e M sv [of 0] sv [of 1] by (simp add: test_invariant_def integer_gcd_eq rat_val_def)
  next
    case False
    note l = lowest_parts [OF False e(1) r]
    have sd: "sint d' = \<bar>?q\<bar>" unfolding e(4) using l(6,7) e(2) by (intro sv) linarith+
    have pM: "?p = - M \<longleftrightarrow> n = - M \<and> odd d" using full_quotient [OF k False r(1,2), of d] by (simp add: gcd.commute)
    show ?thesis
    proof (cases "d < 0 \<and> ?p = - M")
      case True
      have "sint n' = - M" using True e(3) sint_top [where ?'b = 'b] by (simp add: M_def)
      moreover have "gcd n d = 1" using True pM full_quotient [OF k False r(1,2), of d] k by (simp add: coprime_iff_gcd_eq_1 [symmetric])
      ultimately show ?thesis using True pM e(1) sd l(10) [of "- M"] \<open>\<not> (d = - M \<and> odd n)\<close> by simp
    next
      case ne: False
      then have sn: "sint n' = (if d < 0 then - ?p else ?p)" unfolding e(3) using l(4,5) by (intro sv) (auto split: if_splits)
      have "rat_val \<lparr>num = sint n', den = sint d'\<rparr> = of_int ?p / of_int ?q" using sn sd l(8) by (simp add: rat_val_def)
      also have "\<dots> = of_int n / of_int d"
        using fraction_cancel [of "gcd n d" ?p ?q] False unfolding l(1,2) [symmetric] by simp
      finally show ?thesis using ne pM e(1) sn sd l(10) [of "sint n'"] \<open>\<not> (d = - M \<and> odd n)\<close> by auto
    qed
  qed
qed

end
