(* ===== verification/Rational_Properties.thy ===== *)
theory Rational_Properties
  imports Rational_Narrow
begin

text \<open>
  The stream operators of \<^verbatim>\<open>boost::rational\<close> and the properties of the class: every sequence of
  operators computes in the field of the rational numbers and stays in lowest terms, the comparison
  operators decide the numeric order, construction and conversion report exactly the inputs that have
  no normal form, and the input operator reads back what the output operator wrote.
\<close>

subsection \<open>Stream operators\<close>

text \<open>
  An input stream is the text that is left, its fail bit, whether failing throws
  (\<^verbatim>\<open>exceptions()\<close>), and the \<^verbatim>\<open>skipws\<close> flag. \<open>get\<close> is the extraction of the number type: the number,
  if the text starts with one, and what is left.
\<close>

record in_stream =
  in_text :: string
  in_fail :: bool
  in_throws :: bool
  in_skipws :: bool

datatype in_exn = Ios_Failure | Bad_Rational rat_error

definition set_fail :: "in_stream \<Rightarrow> in_exn option \<times> in_stream" where
  "set_fail s = (if in_throws s then Some Ios_Failure else None, s\<lparr>in_fail := True\<rparr>)"

text \<open>\<^verbatim>\<open>is >> n\<close>: the value when the stream is still good afterwards.\<close>

definition extract_int ::
  "(bool \<Rightarrow> string \<Rightarrow> int option \<times> string) \<Rightarrow> bool \<Rightarrow> in_stream \<Rightarrow> int option \<times> in_exn option \<times> in_stream" where
  "extract_int get skip s =
     (if in_fail s then (None, set_fail s)
      else case get skip (in_text s) of
             (Some n, rest) \<Rightarrow> (Some n, None, s\<lparr>in_text := rest\<rparr>)
           | (None, rest) \<Rightarrow> (None, set_fail (s\<lparr>in_text := rest\<rparr>)))"

text \<open>\<^verbatim>\<open>is.get(c)\<close>\<close>

definition get_char :: "in_stream \<Rightarrow> char option \<times> in_exn option \<times> in_stream" where
  "get_char s =
     (if in_fail s then (None, set_fail s)
      else case in_text s of
             [] \<Rightarrow> (None, set_fail s)
           | c # rest \<Rightarrow> (Some c, None, s\<lparr>in_text := rest\<rparr>))"

definition rat_input ::
  "(bool \<Rightarrow> string \<Rightarrow> int option \<times> string) \<Rightarrow> in_stream \<Rightarrow> rational \<Rightarrow> in_exn option \<times> in_stream \<times> rational" where
  "rat_input get s r =
     (case extract_int get (in_skipws s) s of
        (None, ex, s1) \<Rightarrow> (ex, s1, r)
      | (Some n, _, s1) \<Rightarrow>
          (case get_char s1 of
             (None, ex, s2) \<Rightarrow> (ex, s2, r)
           | (Some c, _, s2) \<Rightarrow>
               if c = CHR ''/'' then
                 (case extract_int get False s2 of
                    (None, ex, s3) \<Rightarrow> (ex, s3, r)
                  | (Some d, _, s3) \<Rightarrow>
                      (case rat_assign n d r of
                         Inr r' \<Rightarrow> (None, s3, r')
                       | Inl e \<Rightarrow> (if in_throws s3 then Some (Bad_Rational e) else None,
                                  s3\<lparr>in_fail := True\<rparr>, r)))
               else (case set_fail s2 of (ex, s3) \<Rightarrow> (ex, s3, r))))"

datatype adjust_field = Adjust_None | Adjust_Left | Adjust_Right | Adjust_Internal

record out_format =
  out_width :: int
  out_fill :: char
  out_adjust :: adjust_field
  out_showpos :: bool
  out_showbase :: bool

text \<open>\<^verbatim>\<open>os << string\<close>: the text is padded to the width, on the right only when left-adjusted.\<close>

definition put_string :: "out_format \<Rightarrow> string \<Rightarrow> string" where
  "put_string f t =
     (let fill = replicate (nat (out_width f) - length t) (out_fill f)
      in if out_adjust f = Adjust_Left then t @ fill else fill @ t)"

definition rat_output :: "(out_format \<Rightarrow> int \<Rightarrow> string) \<Rightarrow> out_format \<Rightarrow> rational \<Rightarrow> string" where
  "rat_output put os r =
     (let ss = os\<lparr>out_width := 0, out_showpos := False, out_showbase := False\<rparr>;
          tail = ''/'' @ put ss (den r);
          w = out_width os - int (length tail);
          w1 = (if w < 0 \<or> out_adjust os \<noteq> Adjust_Internal then 0 else w)
      in put_string os (put (os\<lparr>out_width := w1\<rparr>) (num r) @ tail))"

subsection \<open>Sequences of operators\<close>

datatype rat_command =
    Add_Rat rational | Sub_Rat rational | Mult_Rat rational | Div_Rat rational
  | Add_Int int | Sub_Int int | Mult_Int int | Div_Int int
  | Assign_Rat int int | Assign_Int int | Incr_Rat | Decr_Rat | Neg_Rat | Abs_Rat

definition no_error :: "rat_error + rational \<Rightarrow> rational option" where
  "no_error r = (case r of Inl _ \<Rightarrow> None | Inr x \<Rightarrow> Some x)"

fun rat_exec :: "rat_command \<Rightarrow> rational \<Rightarrow> rational option" where
  "rat_exec (Add_Rat r) x = Some (rat_add x r)"
| "rat_exec (Sub_Rat r) x = Some (rat_sub x r)"
| "rat_exec (Mult_Rat r) x = Some (rat_mult x r)"
| "rat_exec (Div_Rat r) x = no_error (rat_divide x r)"
| "rat_exec (Add_Int i) x = Some (rat_add_int i x)"
| "rat_exec (Sub_Int i) x = Some (rat_sub_int i x)"
| "rat_exec (Mult_Int i) x = Some (rat_mult_int i x)"
| "rat_exec (Div_Int i) x = no_error (rat_divide_int i x)"
| "rat_exec (Assign_Rat n d) x = no_error (rat_assign n d x)"
| "rat_exec (Assign_Int i) x = Some (rat_assign_int i x)"
| "rat_exec Incr_Rat x = Some (rat_incr x)"
| "rat_exec Decr_Rat x = Some (rat_decr x)"
| "rat_exec Neg_Rat x = no_error (rat_uminus x)"
| "rat_exec Abs_Rat x = no_error (rat_abs x)"

fun field_exec :: "rat_command \<Rightarrow> rat \<Rightarrow> rat option" where
  "field_exec (Add_Rat r) v = Some (v + rat_val r)"
| "field_exec (Sub_Rat r) v = Some (v - rat_val r)"
| "field_exec (Mult_Rat r) v = Some (v * rat_val r)"
| "field_exec (Div_Rat r) v = (if rat_val r = 0 then None else Some (v / rat_val r))"
| "field_exec (Add_Int i) v = Some (v + of_int i)"
| "field_exec (Sub_Int i) v = Some (v - of_int i)"
| "field_exec (Mult_Int i) v = Some (v * of_int i)"
| "field_exec (Div_Int i) v = (if i = 0 then None else Some (v / of_int i))"
| "field_exec (Assign_Rat n d) v = (if d = 0 then None else Some (of_int n / of_int d))"
| "field_exec (Assign_Int i) v = Some (of_int i)"
| "field_exec Incr_Rat v = Some (v + 1)"
| "field_exec Decr_Rat v = Some (v - 1)"
| "field_exec Neg_Rat v = Some (- v)"
| "field_exec Abs_Rat v = Some \<bar>v\<bar>"

fun operand_ok :: "rat_command \<Rightarrow> bool" where
  "operand_ok (Add_Rat r) = test_invariant r"
| "operand_ok (Sub_Rat r) = test_invariant r"
| "operand_ok (Mult_Rat r) = test_invariant r"
| "operand_ok (Div_Rat r) = test_invariant r"
| "operand_ok _ = True"

lemma no_error_simps [simp]: "no_error (Inl e) = None" "no_error (Inr x) = Some x"
  by (simp_all add: no_error_def)

lemma rat_exec_agrees:
  assumes "test_invariant x" and "operand_ok c"
  shows "agrees test_invariant rat_val (rat_exec c x) (field_exec c (rat_val x))"
proof (cases c)
  case (Div_Rat r)
  then have "test_invariant r" using assms(2) by simp
  moreover from this have "rat_val r = 0 \<longleftrightarrow> num r = 0" by (simp add: rat_val_eq_0 test_invariant_iff)
  ultimately show ?thesis using rat_divide_ok [OF assms(1)] Div_Rat by fastforce
next
  case (Div_Int i)
  then show ?thesis using rat_divide_int_ok [OF assms(1), of i] by auto
next
  case (Assign_Rat n d)
  then show ?thesis using rational_ctor_ok [of d n] by (auto simp: rat_assign_def)
next
  case (Assign_Int i)
  then show ?thesis by (simp add: rat_assign_int_def test_invariant_iff rat_val_def)
next
  case Neg_Rat
  then show ?thesis using rat_uminus_ok [OF assms(1)] by auto
next
  case Abs_Rat
  then show ?thesis using rat_abs_ok [OF assms(1)] by auto
qed (use assms rat_add_ok rat_sub_ok rat_mult_ok rat_add_int_ok rat_mult_int_ok in
      \<open>simp_all add: rat_int_as_add\<close>)

interpretation rat_impl: data_refinement test_invariant rat_val operand_ok rat_exec field_exec
  by unfold_locales (rule rat_exec_agrees)

text \<open>C10 Every sequence of the modifying members of \<^verbatim>\<open>rational\<close> computes, on the value of the object,
  the same sequence of operations in the field of the rational numbers; the result is in lowest
  terms with a positive denominator, and \<^verbatim>\<open>bad_rational\<close> is thrown exactly at a division by zero or
  an assignment with denominator zero.\<close>

theorem rational_refines_field:
  assumes "test_invariant x" and "list_all operand_ok cs"
  shows "map_option rat_val (run_ops rat_exec cs x) = run_ops field_exec cs (rat_val x)
    \<and> (\<forall>y. run_ops rat_exec cs x = Some y \<longrightarrow> test_invariant y)"
  using rat_impl.run_view [OF assms] rat_impl.run_keeps_valid [OF assms] by blast

theorem rational_refines_field_witness:
  "map_option rat_val (run_ops rat_exec [Add_Rat \<lparr>num = 1, den = 6\<rparr>, Div_Int 2, Neg_Rat] \<lparr>num = 1, den = 3\<rparr>)
     = Some (- (1 / 4))"
proof -
  have "test_invariant \<lparr>num = 1, den = 3\<rparr>" "list_all operand_ok [Add_Rat \<lparr>num = 1, den = 6\<rparr>, Div_Int 2, Neg_Rat]"
    by (simp_all add: test_invariant_iff)
  from rational_refines_field [OF this] show ?thesis by (simp add: rat_val_def)
qed

text \<open>C14 The comparison operators decide the numeric order, the continued-fraction expansion always
  ends, and two rationals in lowest terms are equal member by member exactly when their values are.\<close>

theorem rational_order:
  assumes "test_invariant x" and "test_invariant y"
  shows "rat_less x y = Some (rat_val x < rat_val y)
    \<and> rat_eq x y = (rat_val x = rat_val y)
    \<and> rat_less_int x i = Some (rat_val x < of_int i)
    \<and> rat_greater_int x i = Some (rat_val x > of_int i)
    \<and> rat_eq_int x i = (rat_val x = of_int i)
    \<and> rat_bool x = (rat_val x \<noteq> 0)"
proof -
  have pos: "0 < den x" "0 < den y" using assms by (simp_all add: test_invariant_iff)
  have "rat_eq x y = (rat_val x = rat_val y)"
    using rat_val_inj [OF assms] by (auto simp: rat_eq_def rat_val_def)
  moreover have "rat_greater_int x i = Some (rat_val x > of_int i)"
    using rat_less_int_ok [OF pos(1), of i] rat_eq_int_ok [OF assms(1), of i]
    by (auto simp: rat_greater_int_def)
  ultimately show ?thesis
    using pos assms
    by (simp add: rat_less_ok rat_less_int_ok rat_eq_int_ok rat_bool_def rat_not_def rat_val_eq_0)
qed

theorem rational_order_witness:
  "rat_less \<lparr>num = - 7, den = 3\<rparr> \<lparr>num = - 9, den = 4\<rparr> = Some True"
proof -
  have "test_invariant \<lparr>num = - 7, den = 3\<rparr>" "test_invariant \<lparr>num = - 9, den = 4\<rparr>" by code_simp+
  from rational_order [OF this, of 0] show ?thesis by (simp add: rat_val_def)
qed

text \<open>C26 Over a number type that does not overflow the constructor with a numerator and a denominator throws \<^verbatim>\<open>bad_rational\<close> exactly when the denominator is zero and otherwise
  builds the one representation of the quotient that satisfies the invariant, and the test \<^verbatim>\<open>is_normalized\<close> of the converting constructor accepts exactly those representations.
  Over a built-in signed type narrower than \<^verbatim>\<open>int\<close> it throws exactly when the denominator is zero or, as a singular denominator, when it is the least value of the type and the numerator is odd; otherwise
  it builds the representation of the quotient, except that the least value over a negative odd denominator, whose negation the type lacks, keeps its sign. No assertion fails.\<close>

theorem rational_construction:
  fixes nw dw :: "'b::len word"
  assumes "2 \<le> LENGTH('b)"
  defines "M \<equiv> 2 ^ (LENGTH('b) - 1) :: int"
  shows "(case rational_ctor n d of
      Inl e \<Rightarrow> e = Zero_Denominator \<and> d = 0
    | Inr r \<Rightarrow> d \<noteq> 0 \<and> test_invariant r \<and> rat_val r = of_int n / of_int d)
   \<and> is_normalized n d = (rational_ctor n d = Inr \<lparr>num = n, den = d\<rparr>)
   \<and> (case normalize_narrow nw dw of
        None \<Rightarrow> False
      | Some (Inl e) \<Rightarrow> e = Zero_Denominator \<and> sint dw = 0 \<or> e = Singular_Denominator \<and> sint dw = - M \<and> odd (sint nw)
      | Some (Inr (n', d')) \<Rightarrow>
          sint dw \<noteq> 0 \<and> \<not> (sint dw = - M \<and> odd (sint nw)) \<and> test_invariant \<lparr>num = sint n', den = sint d'\<rparr>
          \<and> (if sint nw = - M \<and> sint dw < 0 \<and> odd (sint dw) then sint n' = - M \<and> sint d' = - sint dw
             else rat_val \<lparr>num = sint n', den = sint d'\<rparr> = of_int (sint nw) / of_int (sint dw)))"
proof -
  have k: "M = 2 ^ (LENGTH('b) - 1)" "1 \<le> LENGTH('b) - 1" using assms(1) by (simp_all add: M_def)
  have full: "sint dw \<noteq> 0 \<Longrightarrow> sint dw div gcd (sint nw) (sint dw) = - M \<longleftrightarrow> sint dw = - M \<and> odd (sint nw)"
    using full_quotient [OF k, of "sint dw" "sint nw"] sint_ge [of dw] sint_lt [of dw] by (simp add: M_def)
  have narrow: "case normalize_narrow nw dw of
        None \<Rightarrow> False
      | Some (Inl e) \<Rightarrow> e = Zero_Denominator \<and> sint dw = 0 \<or> e = Singular_Denominator \<and> sint dw = - M \<and> odd (sint nw)
      | Some (Inr (n', d')) \<Rightarrow>
          sint dw \<noteq> 0 \<and> \<not> (sint dw = - M \<and> odd (sint nw)) \<and> test_invariant \<lparr>num = sint n', den = sint d'\<rparr>
          \<and> (if sint nw = - M \<and> sint dw < 0 \<and> odd (sint dw) then sint n' = - M \<and> sint d' = - sint dw
             else rat_val \<lparr>num = sint n', den = sint d'\<rparr> = of_int (sint nw) / of_int (sint dw))"
  proof (cases "normalize_narrow nw dw")
    case None
    then show ?thesis using normalize_narrow_eq [OF assms(1), of nw dw] by simp
  next
    case (Some r)
    show ?thesis
    proof (cases r)
      case (Inl e)
      then show ?thesis using Some full normalize_narrow_eq [OF assms(1), of nw dw] by (auto simp: M_def split: if_splits)
    next
      case (Inr nd)
      then obtain n' d' where nd: "normalize_narrow nw dw = Some (Inr (n', d'))" using Some by (cases nd) simp
      from narrow_value [OF assms(1) this] show ?thesis unfolding nd M_def by simp
    qed
  qed
  show ?thesis
  proof (cases rule: rational_ctor_cases [of d n])
    case 1
    then show ?thesis using narrow by (simp add: is_normalized_iff test_invariant_iff)
  next
    case (2 r)
    have "test_invariant \<lparr>num = n, den = d\<rparr> \<Longrightarrow> r = \<lparr>num = n, den = d\<rparr>"
      using 2 by (intro rat_val_inj) (simp_all add: rat_val_def)
    then show ?thesis using 2 narrow by (auto simp: is_normalized_iff)
  qed
qed

theorem rational_construction_witness:
  "rational_ctor 6 (- 4) = Inr \<lparr>num = - 3, den = 2\<rparr> \<and> rat_val \<lparr>num = - 3, den = 2\<rparr> = 6 / - 4
   \<and> normalize_narrow (3 :: 16 word) (- 32768) = Some (Inl Singular_Denominator)
   \<and> normalize_narrow (- 32768 :: 16 word) (- 1) = Some (Inr (- 32768, 1))"
proof -
  have "rational_ctor 6 (- 4) = Inr \<lparr>num = - 3, den = 2\<rparr>" by code_simp
  moreover have "normalize_narrow (3 :: 16 word) (- 32768) = Some (Inl Singular_Denominator)" "normalize_narrow (- 32768 :: 16 word) (- 1) = Some (Inr (- 32768, 1))"
    by code_simp+
  ultimately show ?thesis using rational_construction [where n = 6 and d = "- 4" and nw = "3 :: 16 word" and dw = "- 32768"] by simp
qed

text \<open>C27 Conversion from a rational over another number type never yields an object outside the
  invariant, whatever the conversion of the numbers does; it is exact when that conversion keeps
  numerator and denominator.\<close>

theorem rational_conversion:
  assumes "test_invariant r"
  shows "(case rat_convert conv r of
      Inl e \<Rightarrow> e = Denormalized_Conversion \<and> (conv (num r) \<noteq> num r \<or> conv (den r) \<noteq> den r)
    | Inr y \<Rightarrow> test_invariant y \<and> num y = conv (num r) \<and> den y = conv (den r))"
  using assms by (auto simp: rat_convert_def is_normalized_iff test_invariant_iff)

theorem rational_conversion_witness:
  "rat_convert (\<lambda>k. k mod 256) \<lparr>num = 300, den = 7\<rparr> = Inr \<lparr>num = 44, den = 7\<rparr>
   \<and> test_invariant \<lparr>num = 44, den = 7\<rparr>"
proof -
  have "test_invariant \<lparr>num = 300, den = 7\<rparr>" by code_simp
  moreover have c: "rat_convert (\<lambda>k. k mod 256) \<lparr>num = 300, den = 7\<rparr> = Inr \<lparr>num = 44, den = 7\<rparr>" by code_simp
  ultimately show ?thesis using rational_conversion [of "\<lparr>num = 300, den = 7\<rparr>" "\<lambda>k. k mod 256"] by simp
qed

text \<open>C28 The input operator reads back the rational that the output operator wrote without padding,
  leaves the rest of the input, and throws nothing; the number type's own operators are only assumed
  to read back the numerator before a slash and the denominator before \<open>rest\<close>.\<close>

theorem rational_stream_round_trip:
  assumes "test_invariant r" and "out_width os = 0" and "\<not> in_fail s"
    and input: "in_text s = rat_output put os r @ rest"
    and get_num: "\<And>t. get (in_skipws s) (put os (num r) @ ''/'' @ t) = (Some (num r), ''/'' @ t)"
    and get_den: "get False (put (os\<lparr>out_showpos := False, out_showbase := False\<rparr>) (den r) @ rest)
                    = (Some (den r), rest)"
  shows "rat_input get s r0 = (None, s\<lparr>in_text := rest\<rparr>, r)"
proof -
  let ?ss = "os\<lparr>out_showpos := False, out_showbase := False\<rparr>"
  have os: "os\<lparr>out_width := 0\<rparr> = os" "os\<lparr>out_width := 0, out_showpos := False, out_showbase := False\<rparr> = ?ss"
    using assms(2) by simp_all
  have "rat_output put os r = put os (num r) @ ''/'' @ put ?ss (den r)"
    using assms(2) by (simp add: rat_output_def put_string_def os Let_def)
  then have "in_text s = put os (num r) @ ''/'' @ put ?ss (den r) @ rest" using input by simp
  then have n: "extract_int get (in_skipws s) s
      = (Some (num r), None, s\<lparr>in_text := ''/'' @ put ?ss (den r) @ rest\<rparr>)"
    using assms(3) get_num by (simp add: extract_int_def)
  obtain y where "rational_ctor (num r) (den r) = Inr y" "test_invariant y" "rat_val y = rat_val r"
    using rational_ctor_ok [of "den r" "num r"] assms(1) by (auto simp: rat_val_def test_invariant_iff)
  then have "rat_assign (num r) (den r) r0 = Inr r"
    using rat_val_inj [of y r] assms(1) by (simp add: rat_assign_def)
  then show ?thesis
    using n assms(3) get_den by (simp add: rat_input_def get_char_def extract_int_def)
qed

text \<open>A number type with decimal text, for a closed instance.\<close>

fun put_digits :: "nat \<Rightarrow> string" where
  "put_digits n = (if n < 10 then [char_of (48 + n)] else put_digits (n div 10) @ [char_of (48 + n mod 10)])"

definition put_decimal :: "out_format \<Rightarrow> int \<Rightarrow> string" where
  "put_decimal f n =
     (if n < 0 then ''-'' else if out_showpos f then ''+'' else []) @ put_digits (nat \<bar>n\<bar>)"

definition is_digit :: "char \<Rightarrow> bool" where
  "is_digit c = (48 \<le> (of_char c :: nat) \<and> (of_char c :: nat) \<le> 57)"

definition get_decimal :: "bool \<Rightarrow> string \<Rightarrow> int option \<times> string" where
  "get_decimal skip t =
     (let t1 = (if skip then dropWhile (\<lambda>c. c = CHR '' '') t else t);
          (sg, t2) = (case t1 of [] \<Rightarrow> (1, []) | c # cs \<Rightarrow>
             if c = CHR ''-'' then (-1, cs) else if c = CHR ''+'' then (1, cs) else (1, c # cs));
          ds = takeWhile is_digit t2
      in if ds = [] then (None, t2)
         else (Some (sg * foldl (\<lambda>a c. 10 * a + (of_char c - 48)) 0 ds), dropWhile is_digit t2))"

definition plain_format :: out_format where
  "plain_format = \<lparr>out_width = 0, out_fill = CHR '' '', out_adjust = Adjust_None,
                   out_showpos = False, out_showbase = False\<rparr>"

theorem rational_stream_round_trip_witness:
  "rat_input get_decimal
     \<lparr>in_text = rat_output put_decimal plain_format \<lparr>num = - 42, den = 23\<rparr> @ '' tail'',
      in_fail = False, in_throws = True, in_skipws = True\<rparr> rat_zero
   = (None, \<lparr>in_text = '' tail'', in_fail = False, in_throws = True, in_skipws = True\<rparr>, \<lparr>num = - 42, den = 23\<rparr>)"
proof -
  let ?r = "\<lparr>num = - 42, den = 23\<rparr>"
  let ?s = "\<lparr>in_text = rat_output put_decimal plain_format ?r @ '' tail'',
      in_fail = False, in_throws = True, in_skipws = True\<rparr>"
  have "test_invariant ?r" by code_simp
  moreover have "put_decimal plain_format (- 42) = ''-42''" by code_simp
  moreover have "get_decimal False (put_decimal (plain_format\<lparr>out_showpos := False, out_showbase := False\<rparr>) 23 @ '' tail'')
     = (Some 23, '' tail'')" by code_simp
  moreover have "get_decimal True (''-42'' @ ''/'' @ t) = (Some (- 42), ''/'' @ t)" for t
    by (simp add: get_decimal_def is_digit_def)
  ultimately show ?thesis
    using rational_stream_round_trip [of ?r plain_format ?s put_decimal "'' tail''" get_decimal rat_zero]
    by (simp add: plain_format_def)
qed

text \<open>The specialisations of \<^verbatim>\<open>gcd\<close> and \<^verbatim>\<open>lcm\<close> for rationals return, without an exception, a common
  divisor of both values (both are integral multiples of it) and a common multiple of both.\<close>

theorem rational_common_factor:
  assumes "test_invariant x" and "test_invariant y"
  shows "(\<exists>g j k. rat_gcd x y = Inr g \<and> test_invariant g
            \<and> rat_val x = of_int j * rat_val g \<and> rat_val y = of_int k * rat_val g)
       \<and> (\<exists>m j k. rat_lcm x y = Inr m \<and> test_invariant m
            \<and> rat_val m = of_int j * rat_val x \<and> rat_val m = of_int k * rat_val y)"
proof -
  let ?a = "num x" and ?b = "den x" and ?c = "num y" and ?d = "den y"
  have pos: "0 < ?b" "0 < ?d" using assms by (simp_all add: test_invariant_iff)
  then have nz: "lcm ?b ?d \<noteq> 0" "gcd ?b ?d \<noteq> 0" by auto
  obtain g where g: "rat_gcd x y = Inr g" "test_invariant g" "rat_val g = of_int (gcd ?a ?c) / of_int (lcm ?b ?d)"
    using rational_ctor_ok [of "lcm ?b ?d" "gcd ?a ?c"] nz
    by (auto simp: rat_gcd_def integer_gcd_eq integer_lcm_eq)
  obtain m where m: "rat_lcm x y = Inr m" "test_invariant m" "rat_val m = of_int (lcm ?a ?c) / of_int (gcd ?b ?d)"
    using rational_ctor_ok [of "gcd ?b ?d" "lcm ?a ?c"] nz
    by (auto simp: rat_lcm_def integer_gcd_eq integer_lcm_eq)
  have div: "\<exists>j. rat_val z = of_int j * rat_val g" if h: "gcd ?a ?c dvd num z" "den z dvd lcm ?b ?d" "0 < den z" for z
  proof -
    obtain u v where "num z = gcd ?a ?c * u" "lcm ?b ?d = den z * v" using h(1,2) by (elim dvdE)
    then have "rat_val z = of_int (u * v) * rat_val g" using nz(1) h(3)
      unfolding g(3) by (simp add: rat_val_def)
    then show ?thesis by blast
  qed
  have mul: "\<exists>j. rat_val m = of_int j * rat_val z" if h: "num z dvd lcm ?a ?c" "gcd ?b ?d dvd den z" "0 < den z" for z
  proof -
    obtain u v where "lcm ?a ?c = num z * u" "den z = gcd ?b ?d * v" using h(1,2) by (elim dvdE)
    then have "rat_val m = of_int (u * v) * rat_val z" using nz(2) h(3)
      unfolding m(3) by (cases "v = 0") (simp_all add: rat_val_def)
    then show ?thesis by blast
  qed
  show ?thesis
    using g(1,2) m(1,2) div [of x] div [of y] mul [of x] mul [of y] pos by auto
qed

theorem rational_common_factor_witness:
  "test_invariant \<lparr>num = 3, den = 4\<rparr> \<and> test_invariant \<lparr>num = 5, den = 6\<rparr>
   \<and> (\<exists>g j k. rat_gcd \<lparr>num = 3, den = 4\<rparr> \<lparr>num = 5, den = 6\<rparr> = Inr g \<and> test_invariant g
        \<and> rat_val \<lparr>num = 3, den = 4\<rparr> = of_int j * rat_val g \<and> rat_val \<lparr>num = 5, den = 6\<rparr> = of_int k * rat_val g)"
proof -
  have "test_invariant \<lparr>num = 3, den = 4\<rparr>" "test_invariant \<lparr>num = 5, den = 6\<rparr>" by code_simp+
  with rational_common_factor [OF this] show ?thesis by blast
qed

end
