(* ===== verification/Gated_Lock.thy ===== *)
theory Gated_Lock
  imports Boost_Prelude
begin

text \<open>
  Threads that share a reader-writer lock built from a mutex, two condition variables (the gates) and
  one state word, as the classes of \<^verbatim>\<open>thread/v2/shared_mutex.hpp\<close> are.

  Every member function runs under the mutex and gives it up only while it waits at a gate, so an
  atomic step is a stretch of one member function between two waits: from its call, or from a wait
  point, to the next wait point or the return. A thread runs outside the lock, is blocked at a wait
  point, or has been woken there (by a notification, a timeout or spuriously) and is about to take the
  mutex again. The step relation interleaves the steps of any number of threads in every order.

  The locales state what such a lock has to guarantee step by step (\<open>gated_lock\<close>: the state word
  accounts for what every thread holds; \<open>fair_gates\<close>: a step that ends a wait condition notifies the
  waiting threads) and derive mutual exclusion, and that no wake-up is lost, for every interleaving.
\<close>

subsection \<open>Threads\<close>

type_synonym count_t = "32 word"

datatype ownership = Unowned | Shared | Upgrade | Exclusive

datatype gate = Gate1 | Gate2

datatype notice = Quiet | Notify_One gate | Notify_All gate

datatype lock_op =
    Lock | Try_Lock | Try_Lock_Until | Unlock
  | Lock_Shared | Try_Lock_Shared | Try_Lock_Shared_Until | Unlock_Shared
  | Lock_Upgrade | Try_Lock_Upgrade | Try_Lock_Upgrade_Until | Unlock_Upgrade
  | Try_Unlock_Shared_And_Lock | Try_Unlock_Shared_And_Lock_Until | Unlock_And_Lock_Shared
  | Try_Unlock_Shared_And_Lock_Upgrade | Try_Unlock_Shared_And_Lock_Upgrade_Until
  | Unlock_Upgrade_And_Lock_Shared
  | Unlock_Upgrade_And_Lock | Try_Unlock_Upgrade_And_Lock | Try_Unlock_Upgrade_And_Lock_Until
  | Unlock_And_Lock_Upgrade

text \<open>The waits of the member functions: the operation, and which of its waits.\<close>

datatype wait_point =
    Lock_Gate1 | Lock_Gate2 | Shared_Gate1 | Upgrade_Gate1 | Upgraded_Gate2
  | Until_Gate1 | Until_Gate2 | Shared_Until_Gate1 | Upgrade_Until_Gate1
  | Shared_To_Exclusive_Gate2 | Shared_To_Upgrade_Gate2 | Upgrade_To_Exclusive_Gate2

datatype control = Returned bool | Waits wait_point

datatype phase = Running ownership | Blocked wait_point | Woken wait_point bool

fun before_op :: "lock_op \<Rightarrow> ownership" where
  "before_op Unlock = Exclusive"
| "before_op Unlock_And_Lock_Shared = Exclusive"
| "before_op Unlock_And_Lock_Upgrade = Exclusive"
| "before_op Unlock_Shared = Shared"
| "before_op Try_Unlock_Shared_And_Lock = Shared"
| "before_op Try_Unlock_Shared_And_Lock_Until = Shared"
| "before_op Try_Unlock_Shared_And_Lock_Upgrade = Shared"
| "before_op Try_Unlock_Shared_And_Lock_Upgrade_Until = Shared"
| "before_op Unlock_Upgrade = Upgrade"
| "before_op Unlock_Upgrade_And_Lock_Shared = Upgrade"
| "before_op Unlock_Upgrade_And_Lock = Upgrade"
| "before_op Try_Unlock_Upgrade_And_Lock = Upgrade"
| "before_op Try_Unlock_Upgrade_And_Lock_Until = Upgrade"
| "before_op _ = Unowned"

text \<open>What the caller holds after the operation succeeded.\<close>

fun after_op :: "lock_op \<Rightarrow> ownership" where
  "after_op Unlock = Unowned"
| "after_op Unlock_Shared = Unowned"
| "after_op Unlock_Upgrade = Unowned"
| "after_op Lock_Shared = Shared"
| "after_op Try_Lock_Shared = Shared"
| "after_op Try_Lock_Shared_Until = Shared"
| "after_op Unlock_And_Lock_Shared = Shared"
| "after_op Unlock_Upgrade_And_Lock_Shared = Shared"
| "after_op Lock_Upgrade = Upgrade"
| "after_op Try_Lock_Upgrade = Upgrade"
| "after_op Try_Lock_Upgrade_Until = Upgrade"
| "after_op Try_Unlock_Shared_And_Lock_Upgrade = Upgrade"
| "after_op Try_Unlock_Shared_And_Lock_Upgrade_Until = Upgrade"
| "after_op Unlock_And_Lock_Upgrade = Upgrade"
| "after_op _ = Exclusive"

fun op_at :: "wait_point \<Rightarrow> lock_op" where
  "op_at Lock_Gate1 = Lock"
| "op_at Lock_Gate2 = Lock"
| "op_at Shared_Gate1 = Lock_Shared"
| "op_at Upgrade_Gate1 = Lock_Upgrade"
| "op_at Upgraded_Gate2 = Unlock_Upgrade_And_Lock"
| "op_at Until_Gate1 = Try_Lock_Until"
| "op_at Until_Gate2 = Try_Lock_Until"
| "op_at Shared_Until_Gate1 = Try_Lock_Shared_Until"
| "op_at Upgrade_Until_Gate1 = Try_Lock_Upgrade_Until"
| "op_at Shared_To_Exclusive_Gate2 = Try_Unlock_Shared_And_Lock_Until"
| "op_at Shared_To_Upgrade_Gate2 = Try_Unlock_Shared_And_Lock_Upgrade_Until"
| "op_at Upgrade_To_Exclusive_Gate2 = Try_Unlock_Upgrade_And_Lock_Until"

fun gate_at :: "wait_point \<Rightarrow> gate" where
  "gate_at Lock_Gate1 = Gate1"
| "gate_at Shared_Gate1 = Gate1"
| "gate_at Upgrade_Gate1 = Gate1"
| "gate_at Until_Gate1 = Gate1"
| "gate_at Shared_Until_Gate1 = Gate1"
| "gate_at Upgrade_Until_Gate1 = Gate1"
| "gate_at _ = Gate2"

fun timed_op :: "lock_op \<Rightarrow> bool" where
  "timed_op Try_Lock_Until = True"
| "timed_op Try_Lock_Shared_Until = True"
| "timed_op Try_Lock_Upgrade_Until = True"
| "timed_op Try_Unlock_Shared_And_Lock_Until = True"
| "timed_op Try_Unlock_Shared_And_Lock_Upgrade_Until = True"
| "timed_op Try_Unlock_Upgrade_And_Lock_Until = True"
| "timed_op _ = False"

fun next_phase :: "lock_op \<Rightarrow> control \<Rightarrow> phase" where
  "next_phase f (Returned b) = Running (if b then after_op f else before_op f)"
| "next_phase f (Waits p) = Blocked p"

subsection \<open>Steps\<close>

record lock_system =
  lk_state :: count_t
  lk_threads :: "phase list"

fun wake :: "gate \<Rightarrow> phase \<Rightarrow> phase" where
  "wake g (Blocked p) = (if gate_at p = g then Woken p False else Blocked p)"
| "wake g ph = ph"

definition blocked_at :: "gate \<Rightarrow> phase \<Rightarrow> bool" where
  "blocked_at g ph = (case ph of Blocked p \<Rightarrow> gate_at p = g | _ \<Rightarrow> False)"

text \<open>\<^verbatim>\<open>notify_one\<close> wakes one of the threads blocked at the gate, if there is one.\<close>

inductive notified :: "notice \<Rightarrow> phase list \<Rightarrow> phase list \<Rightarrow> bool" where
  nobody: "notified Quiet ts ts"
| everybody: "notified (Notify_All g) ts (map (wake g) ts)"
| no_waiter: "list_all (\<lambda>ph. \<not> blocked_at g ph) ts \<Longrightarrow> notified (Notify_One g) ts ts"
| one_waiter: "j < length ts \<Longrightarrow> ts ! j = Blocked p \<Longrightarrow> gate_at p = g
    \<Longrightarrow> notified (Notify_One g) ts (ts[j := Woken p False])"

inductive_cases notified_Quiet: "notified Quiet ts us"
inductive_cases notified_All: "notified (Notify_All g) ts us"
inductive_cases notified_One: "notified (Notify_One g) ts us"

type_synonym lock_call = "lock_op \<Rightarrow> count_t \<Rightarrow> count_t \<times> notice \<times> control"
type_synonym lock_resume = "wait_point \<Rightarrow> bool \<Rightarrow> count_t \<Rightarrow> count_t \<times> notice \<times> control"

text \<open>A thread calls a member only with the ownership the member requires.\<close>

inductive lock_step :: "lock_call \<Rightarrow> lock_resume \<Rightarrow> (lock_op \<Rightarrow> bool) \<Rightarrow> lock_system \<Rightarrow> lock_system \<Rightarrow> bool"
  for call :: lock_call and resume :: lock_resume and ok :: "lock_op \<Rightarrow> bool" where
  calls: "ok f \<Longrightarrow> i < length ts \<Longrightarrow> ts ! i = Running (before_op f) \<Longrightarrow> call f s = (s', nt, c)
    \<Longrightarrow> notified nt (ts[i := next_phase f c]) us
    \<Longrightarrow> lock_step call resume ok \<lparr>lk_state = s, lk_threads = ts\<rparr> \<lparr>lk_state = s', lk_threads = us\<rparr>"
| resumes: "i < length ts \<Longrightarrow> ts ! i = Woken p late \<Longrightarrow> resume p late s = (s', nt, c)
    \<Longrightarrow> notified nt (ts[i := next_phase (op_at p) c]) us
    \<Longrightarrow> lock_step call resume ok \<lparr>lk_state = s, lk_threads = ts\<rparr> \<lparr>lk_state = s', lk_threads = us\<rparr>"
| spurious: "i < length ts \<Longrightarrow> ts ! i = Blocked p
    \<Longrightarrow> lock_step call resume ok \<lparr>lk_state = s, lk_threads = ts\<rparr> \<lparr>lk_state = s, lk_threads = ts[i := Woken p False]\<rparr>"
| timeout: "i < length ts \<Longrightarrow> ts ! i = Blocked p \<Longrightarrow> timed_op (op_at p)
    \<Longrightarrow> lock_step call resume ok \<lparr>lk_state = s, lk_threads = ts\<rparr> \<lparr>lk_state = s, lk_threads = ts[i := Woken p True]\<rparr>"

definition lock_start :: "nat \<Rightarrow> lock_system" where
  "lock_start n = \<lparr>lk_state = 0, lk_threads = replicate n (Running Unowned)\<rparr>"

inductive lock_reach :: "lock_call \<Rightarrow> lock_resume \<Rightarrow> (lock_op \<Rightarrow> bool) \<Rightarrow> nat \<Rightarrow> lock_system \<Rightarrow> bool"
  for call :: lock_call and resume :: lock_resume and ok :: "lock_op \<Rightarrow> bool" and n :: nat where
  start: "lock_reach call resume ok n (lock_start n)"
| step: "lock_reach call resume ok n \<sigma> \<Longrightarrow> lock_step call resume ok \<sigma> \<tau> \<Longrightarrow> lock_reach call resume ok n \<tau>"

subsection \<open>What a thread holds\<close>

fun point_holds :: "wait_point \<Rightarrow> ownership" where
  "point_holds Shared_To_Exclusive_Gate2 = Shared"
| "point_holds Shared_To_Upgrade_Gate2 = Shared"
| "point_holds Upgrade_To_Exclusive_Gate2 = Upgrade"
| "point_holds _ = Unowned"

fun holds :: "phase \<Rightarrow> ownership" where
  "holds (Running m) = m"
| "holds (Blocked p) = point_holds p"
| "holds (Woken p late) = point_holds p"

fun point_entered :: "wait_point \<Rightarrow> bool" where
  "point_entered Lock_Gate2 = True"
| "point_entered Until_Gate2 = True"
| "point_entered Upgraded_Gate2 = True"
| "point_entered _ = False"

text \<open>The thread has entered as a writer: it owns the lock or waits for the readers to leave.\<close>

fun entered :: "phase \<Rightarrow> bool" where
  "entered (Running m) = (m = Exclusive)"
| "entered (Blocked p) = point_entered p"
| "entered (Woken p late) = point_entered p"

definition reads :: "phase \<Rightarrow> bool" where
  "reads ph = (holds ph = Shared \<or> holds ph = Upgrade)"

definition upgrades :: "phase \<Rightarrow> bool" where
  "upgrades ph = (holds ph = Upgrade)"

definition num_of :: "('a \<Rightarrow> bool) \<Rightarrow> 'a list \<Rightarrow> nat" where
  "num_of P xs = length (filter P xs)"

lemma num_of_update:
  "i < length xs \<Longrightarrow> num_of P (xs[i := y]) + of_bool (P (xs ! i)) = num_of P xs + of_bool (P y)"
proof -
  assume i: "i < length xs"
  have "num_of P xs = num_of P (take i xs) + of_bool (P (xs ! i)) + num_of P (drop (Suc i) xs)"
    by (subst (1) id_take_nth_drop [OF i]) (simp add: num_of_def)
  moreover have "num_of P (xs[i := y]) = num_of P (take i xs) + of_bool (P y) + num_of P (drop (Suc i) xs)"
    using i by (simp add: num_of_def upd_conv_take_nth_drop)
  ultimately show ?thesis by simp
qed

lemma num_of_pos: "i < length xs \<Longrightarrow> P (xs ! i) \<Longrightarrow> 0 < num_of P xs"
  by (auto simp: num_of_def filter_empty_conv)

lemma num_of_ge: "i < length xs \<Longrightarrow> of_bool (P (xs ! i)) \<le> num_of P xs"
  using num_of_pos [of i xs P] by (cases "P (xs ! i)") auto

lemma num_of_le: "num_of P xs \<le> length xs"
  by (simp add: num_of_def)

lemma num_of_two:
  assumes "i < length xs" "j < length xs" "i \<noteq> j" "P (xs ! i)" "P (xs ! j)"
  shows "2 \<le> num_of P xs"
proof -
  have "{i, j} \<subseteq> {k. k < length xs \<and> P (xs ! k)}" using assms by auto
  then have "card {i, j} \<le> num_of P xs"
    unfolding num_of_def length_filter_conv_card by (intro card_mono) auto
  then show ?thesis using assms(3) by simp
qed

lemma num_of_map: "(\<And>x. P (f x) = P x) \<Longrightarrow> num_of P (map f xs) = num_of P xs"
  by (simp add: num_of_def filter_map o_def)

text \<open>Waking a thread changes nothing of what it holds.\<close>

lemma holds_wake [simp]: "holds (wake g ph) = holds ph" "entered (wake g ph) = entered ph"
  by (cases ph; simp)+

lemma reads_wake [simp]: "reads (wake g ph) = reads ph" "upgrades (wake g ph) = upgrades ph"
  by (simp_all add: reads_def upgrades_def)

lemma entered_Exclusive: "holds ph = Exclusive \<Longrightarrow> entered ph"
proof (cases ph)
  case (Blocked p)
  then show "holds ph = Exclusive \<Longrightarrow> entered ph" by (cases p) simp_all
next
  case (Woken p late)
  then show "holds ph = Exclusive \<Longrightarrow> entered ph" by (cases p) simp_all
qed simp

text \<open>Two thread lists in which every thread holds the same.\<close>

definition same_holding :: "phase list \<Rightarrow> phase list \<Rightarrow> bool" where
  "same_holding ts us = list_all2 (\<lambda>a b. holds a = holds b \<and> entered a = entered b) ts us"

lemma same_holding_refl [simp]: "same_holding ts ts"
  by (simp add: same_holding_def list.rel_refl)

lemma same_holding_wake: "same_holding ts (map (wake g) ts)"
  by (simp add: same_holding_def list.rel_map list.rel_refl)

lemma same_holding_update:
  "i < length ts \<Longrightarrow> ts ! i = Blocked p \<Longrightarrow> same_holding ts (ts[i := Woken p late])"
  by (auto simp: same_holding_def list_all2_conv_all_nth nth_list_update)

lemma notified_same: "notified nt ts us \<Longrightarrow> same_holding ts us"
  by (induction rule: notified.induct) (auto simp: same_holding_wake same_holding_update)

lemma same_holding_num:
  assumes "same_holding ts us" and "\<And>a b. holds a = holds b \<Longrightarrow> entered a = entered b \<Longrightarrow> P a = P b"
  shows "num_of P us = num_of P ts"
  using assms(1) unfolding same_holding_def
proof (induction rule: list_all2_induct)
  case (Cons x xs y ys)
  then have "P x = P y" by (intro assms(2)) auto
  then show ?case using Cons by (simp add: num_of_def)
qed simp


lemma same_holding_counts:
  assumes "same_holding ts us"
  shows "num_of entered us = num_of entered ts" "num_of reads us = num_of reads ts"
    "num_of upgrades us = num_of upgrades ts" "length us = length ts"
  using assms by (auto intro!: same_holding_num simp: reads_def upgrades_def
      dest: list_all2_lengthD simp: same_holding_def)

lemma same_holding_mem:
  "same_holding ts us \<Longrightarrow> ph \<in> set us \<Longrightarrow> \<exists>ph' \<in> set ts. holds ph' = holds ph"
proof -
  assume same: "same_holding ts us" and "ph \<in> set us"
  then obtain i where i: "i < length us" "us ! i = ph" by (auto simp: in_set_conv_nth)
  then have "i < length ts" "holds (ts ! i) = holds ph"
    using same list_all2_nthD2 [of _ ts us i] list_all2_lengthD [of _ ts us]
    by (fastforce simp: same_holding_def)+
  then show ?thesis by (metis nth_mem)
qed

subsection \<open>Safety\<close>

text \<open>
  \<open>enc w u n\<close> is the state word of a lock that a writer has entered (\<open>w\<close>), that has an upgrade
  owner (\<open>u\<close>), and on which \<open>n\<close> threads hold shared or upgrade ownership.
\<close>

definition lock_inv :: "(bool \<Rightarrow> bool \<Rightarrow> nat \<Rightarrow> count_t) \<Rightarrow> nat \<Rightarrow> lock_system \<Rightarrow> bool" where
  "lock_inv enc most \<sigma> \<longleftrightarrow>
     (let ts = lk_threads \<sigma>; w = num_of entered ts; u = num_of upgrades ts; n = num_of reads ts in
      w + u \<le> 1 \<and> n \<le> most \<and> lk_state \<sigma> = enc (w = 1) (u = 1) n
      \<and> (\<forall>ph \<in> set ts. holds ph = Exclusive \<longrightarrow> n = 0))"

text \<open>A step of one thread from the phase \<open>a\<close> to the phase \<open>b\<close>, on a lock in the state \<open>w\<close>, \<open>u\<close>, \<open>n\<close>.\<close>

definition may_step :: "nat \<Rightarrow> phase \<Rightarrow> bool \<Rightarrow> bool \<Rightarrow> nat \<Rightarrow> bool" where
  "may_step most a w u n \<longleftrightarrow>
     \<not> (w \<and> u) \<and> n \<le> most \<and> (entered a \<longrightarrow> w) \<and> (upgrades a \<longrightarrow> u) \<and> of_bool (reads a) \<le> n
     \<and> (holds a = Exclusive \<longrightarrow> n = 0)"

definition accounts :: "nat \<Rightarrow> phase \<Rightarrow> phase \<Rightarrow> bool \<Rightarrow> bool \<Rightarrow> nat \<Rightarrow> nat \<Rightarrow> bool" where
  "accounts most a b w u n n' \<longleftrightarrow>
     (let w0 = (w \<and> \<not> entered a); u0 = (u \<and> \<not> upgrades a) in
      n' + of_bool (reads a) = n + of_bool (reads b) \<and> n' \<le> most
      \<and> (entered b \<longrightarrow> \<not> w0 \<and> \<not> u0 \<and> \<not> upgrades b)
      \<and> (upgrades b \<longrightarrow> \<not> w0 \<and> \<not> u0)
      \<and> (reads b \<longrightarrow> \<not> reads a \<longrightarrow> \<not> w0)
      \<and> (holds b = Exclusive \<longrightarrow> n' = 0))"

definition left_over :: "(phase \<Rightarrow> bool) \<Rightarrow> bool \<Rightarrow> phase \<Rightarrow> phase \<Rightarrow> bool" where
  "left_over P w a b = ((w \<and> \<not> P a) \<or> P b)"

definition conforms ::
  "(bool \<Rightarrow> bool \<Rightarrow> nat \<Rightarrow> count_t) \<Rightarrow> nat \<Rightarrow> phase \<Rightarrow> phase \<Rightarrow> bool \<Rightarrow> bool \<Rightarrow> nat \<Rightarrow> count_t \<Rightarrow> bool" where
  "conforms enc most a b w u n s' \<longleftrightarrow>
     (\<exists>n'. s' = enc (left_over entered w a b) (left_over upgrades u a b) n' \<and> accounts most a b w u n n')"

lemma num_of_replace:
  fixes xs :: "phase list"
  assumes "i < length xs" and "num_of P xs \<le> 1" and "P b \<Longrightarrow> \<not> (num_of P xs = 1 \<and> \<not> P (xs ! i))"
  shows "num_of P (xs[i := b]) \<le> 1"
    and "(num_of P (xs[i := b]) = 1) = left_over P (num_of P xs = 1) (xs ! i) b"
  using num_of_update [OF assms(1), of P b] num_of_ge [OF assms(1), of P] assms(2,3)
  by (cases "P b"; cases "P (xs ! i)"; force simp: left_over_def)+

lemma lock_inv_may_step:
  assumes "lock_inv enc most \<sigma>" and "i < length (lk_threads \<sigma>)"
  shows "may_step most (lk_threads \<sigma> ! i) (num_of entered (lk_threads \<sigma>) = 1)
           (num_of upgrades (lk_threads \<sigma>) = 1) (num_of reads (lk_threads \<sigma>))"
proof -
  let ?ts = "lk_threads \<sigma>"
  have "?ts ! i \<in> set ?ts" using assms(2) by simp
  moreover have "of_bool (P (?ts ! i)) \<le> num_of P ?ts" for P by (rule num_of_ge [OF assms(2)])
  from this [of entered] this [of upgrades] this [of reads]
  have "entered (?ts ! i) \<longrightarrow> 0 < num_of entered ?ts" "upgrades (?ts ! i) \<longrightarrow> 0 < num_of upgrades ?ts"
    "of_bool (reads (?ts ! i)) \<le> num_of reads ?ts"
    by (auto split: if_splits)
  ultimately show ?thesis
    using assms(1) by (auto simp: lock_inv_def may_step_def Let_def)
qed

text \<open>One conforming step of one thread keeps the invariant.\<close>

lemma conforms_keeps_inv:
  assumes inv: "lock_inv enc most \<lparr>lk_state = s, lk_threads = ts\<rparr>" and i: "i < length ts"
    and step: "conforms enc most (ts ! i) b (num_of entered ts = 1) (num_of upgrades ts = 1) (num_of reads ts) s'"
    and us: "same_holding (ts[i := b]) us"
  shows "lock_inv enc most \<lparr>lk_state = s', lk_threads = us\<rparr>"
proof -
  let ?a = "ts ! i" and ?vs = "ts[i := b]"
  let ?w = "num_of entered ts" and ?u = "num_of upgrades ts" and ?n = "num_of reads ts"
  have le: "?w + ?u \<le> 1" and excl: "\<And>ph. ph \<in> set ts \<Longrightarrow> holds ph = Exclusive \<Longrightarrow> ?n = 0"
    using inv by (auto simp: lock_inv_def Let_def)
  obtain n' where s': "s' = enc (left_over entered (?w = 1) ?a b) (left_over upgrades (?u = 1) ?a b) n'"
    and acc: "accounts most ?a b (?w = 1) (?u = 1) ?n n'"
    using step by (auto simp: conforms_def)
  have w: "num_of entered ?vs \<le> 1" "(num_of entered ?vs = 1) = left_over entered (?w = 1) ?a b"
    using num_of_replace [OF i, of entered b] le acc by (auto simp: accounts_def Let_def)
  have u: "num_of upgrades ?vs \<le> 1" "(num_of upgrades ?vs = 1) = left_over upgrades (?u = 1) ?a b"
    using num_of_replace [OF i, of upgrades b] le acc by (auto simp: accounts_def Let_def)
  have n: "num_of reads ?vs = n'" "n' \<le> most"
    using num_of_update [OF i, of reads b] acc by (auto simp: accounts_def Let_def)
  have "\<not> (left_over entered (?w = 1) ?a b \<and> left_over upgrades (?u = 1) ?a b)"
    using le acc by (auto simp: accounts_def left_over_def Let_def)
  then have wu: "num_of entered ?vs + num_of upgrades ?vs \<le> 1" using w u by linarith
  have ex: "n' = 0" if ph: "ph \<in> set ?vs" "holds ph = Exclusive" for ph
  proof -
    obtain j where j: "j < length ts" "ph = ?vs ! j" using ph(1) by (auto simp: in_set_conv_nth)
    show ?thesis
    proof (cases "j = i")
      case True
      then show ?thesis using acc i j ph(2) by (simp add: accounts_def Let_def)
    next
      case False
      then have h: "holds (ts ! j) = Exclusive" "entered (ts ! j)" using j ph(2) entered_Exclusive by auto
      then have n0: "?n = 0" using excl j(1) by (auto simp: in_set_conv_nth)
      have "0 < ?w" using num_of_pos [OF j(1), of entered] h by simp
      then have "?w = 1" using le by simp
      moreover have "\<not> entered ?a"
        using num_of_two [OF i j(1), of entered] False h le by auto
      ultimately have "\<not> (reads b \<and> \<not> reads ?a)" using acc by (simp add: accounts_def Let_def)
      then show ?thesis using acc n0 by (auto simp: accounts_def Let_def of_bool_def split: if_splits)
    qed
  qed
  note same = same_holding_counts [OF us]
  have "holds ph = Exclusive \<Longrightarrow> n' = 0" if ph: "ph \<in> set us" for ph
  proof -
    obtain ph' where "ph' \<in> set ?vs" "holds ph' = holds ph"
      using same_holding_mem [OF us ph] by blast
    then show "holds ph = Exclusive \<Longrightarrow> n' = 0" using ex by metis
  qed
  then show ?thesis
    using same w u n wu s' by (auto simp: lock_inv_def Let_def)
qed

subsection \<open>The specification of the members\<close>

text \<open>
  What every member promises, in terms of \<open>w\<close>, \<open>u\<close> and \<open>n\<close> (documentation of the lock concepts in
  the class synopsis): when it waits, what it returns, what it leaves behind, whom it notifies.
\<close>

type_synonym lock_view = "bool \<times> bool \<times> nat"

abbreviation keep :: "bool \<Rightarrow> bool \<Rightarrow> nat \<Rightarrow> control \<Rightarrow> lock_view \<times> notice \<times> control" where
  "keep w u n c \<equiv> ((w, u, n), Quiet, c)"

definition enter_writer :: "wait_point \<Rightarrow> bool \<Rightarrow> nat \<Rightarrow> lock_view \<times> notice \<times> control" where
  "enter_writer q u n = keep True u n (if n = 0 then Returned True else Waits q)"

definition or_wait :: "wait_point option \<Rightarrow> bool \<Rightarrow> bool \<Rightarrow> nat \<Rightarrow> lock_view \<times> notice \<times> control" where
  "or_wait q w u n = keep w u n (case q of None \<Rightarrow> Returned False | Some p \<Rightarrow> Waits p)"

text \<open>A member that gives up returns false (\<^term>\<open>None\<close>); one that does not waits at the given point.\<close>

definition spec_exclusive :: "wait_point \<Rightarrow> wait_point option \<Rightarrow> bool \<Rightarrow> bool \<Rightarrow> nat \<Rightarrow> lock_view \<times> notice \<times> control" where
  "spec_exclusive q2 q w u n = (if w \<or> u then or_wait q w u n else enter_writer q2 u n)"

definition spec_shared :: "nat \<Rightarrow> wait_point option \<Rightarrow> bool \<Rightarrow> bool \<Rightarrow> nat \<Rightarrow> lock_view \<times> notice \<times> control" where
  "spec_shared most q w u n =
     (if w \<or> n = most then or_wait q w u n else keep w u (n + 1) (Returned True))"

definition spec_upgrade :: "nat \<Rightarrow> wait_point option \<Rightarrow> bool \<Rightarrow> bool \<Rightarrow> nat \<Rightarrow> lock_view \<times> notice \<times> control" where
  "spec_upgrade most q w u n =
     (if w \<or> u \<or> n = most then or_wait q w u n else keep w True (n + 1) (Returned True))"

definition spec_shared_to_exclusive :: "wait_point option \<Rightarrow> bool \<Rightarrow> bool \<Rightarrow> nat \<Rightarrow> lock_view \<times> notice \<times> control" where
  "spec_shared_to_exclusive q w u n =
     (if \<not> w \<and> \<not> u \<and> n = 1 then keep True False 0 (Returned True) else or_wait q w u n)"

definition spec_shared_to_upgrade :: "wait_point option \<Rightarrow> bool \<Rightarrow> bool \<Rightarrow> nat \<Rightarrow> lock_view \<times> notice \<times> control" where
  "spec_shared_to_upgrade q w u n =
     (if w \<or> u then or_wait q w u n else keep w True n (Returned True))"

definition spec_upgrade_to_exclusive :: "wait_point option \<Rightarrow> bool \<Rightarrow> bool \<Rightarrow> nat \<Rightarrow> lock_view \<times> notice \<times> control" where
  "spec_upgrade_to_exclusive q w u n =
     (if n = 1 then keep True False 0 (Returned True) else or_wait q w u n)"

fun spec_call :: "nat \<Rightarrow> lock_op \<Rightarrow> bool \<Rightarrow> bool \<Rightarrow> nat \<Rightarrow> lock_view \<times> notice \<times> control" where
  "spec_call most Lock w u n = spec_exclusive Lock_Gate2 (Some Lock_Gate1) w u n"
| "spec_call most Try_Lock w u n =
     (if w \<or> u \<or> n \<noteq> 0 then keep w u n (Returned False) else keep True False 0 (Returned True))"
| "spec_call most Try_Lock_Until w u n = spec_exclusive Until_Gate2 (Some Until_Gate1) w u n"
| "spec_call most Unlock w u n = ((False, False, 0), Notify_All Gate1, Returned True)"
| "spec_call most Lock_Shared w u n = spec_shared most (Some Shared_Gate1) w u n"
| "spec_call most Try_Lock_Shared w u n = spec_shared most None w u n"
| "spec_call most Try_Lock_Shared_Until w u n = spec_shared most (Some Shared_Until_Gate1) w u n"
| "spec_call most Unlock_Shared w u n =
     ((w, u, n - 1),
      if w then (if n = 1 then Notify_One Gate2 else Quiet)
      else (if n = most then Notify_One Gate1 else Quiet), Returned True)"
| "spec_call most Lock_Upgrade w u n = spec_upgrade most (Some Upgrade_Gate1) w u n"
| "spec_call most Try_Lock_Upgrade w u n = spec_upgrade most None w u n"
| "spec_call most Try_Lock_Upgrade_Until w u n = spec_upgrade most (Some Upgrade_Until_Gate1) w u n"
| "spec_call most Unlock_Upgrade w u n = ((w, False, n - 1), Notify_All Gate1, Returned True)"
| "spec_call most Try_Unlock_Shared_And_Lock w u n = spec_shared_to_exclusive None w u n"
| "spec_call most Try_Unlock_Shared_And_Lock_Until w u n =
     spec_shared_to_exclusive (Some Shared_To_Exclusive_Gate2) w u n"
| "spec_call most Unlock_And_Lock_Shared w u n = ((False, False, 1), Notify_All Gate1, Returned True)"
| "spec_call most Try_Unlock_Shared_And_Lock_Upgrade w u n = spec_shared_to_upgrade None w u n"
| "spec_call most Try_Unlock_Shared_And_Lock_Upgrade_Until w u n =
     spec_shared_to_upgrade (Some Shared_To_Upgrade_Gate2) w u n"
| "spec_call most Unlock_Upgrade_And_Lock_Shared w u n = ((w, False, n), Notify_All Gate1, Returned True)"
| "spec_call most Unlock_Upgrade_And_Lock w u n = enter_writer Upgraded_Gate2 False (n - 1)"
| "spec_call most Try_Unlock_Upgrade_And_Lock w u n = spec_upgrade_to_exclusive None w u n"
| "spec_call most Try_Unlock_Upgrade_And_Lock_Until w u n =
     spec_upgrade_to_exclusive (Some Upgrade_To_Exclusive_Gate2) w u n"
| "spec_call most Unlock_And_Lock_Upgrade w u n = ((False, True, 1), Notify_All Gate1, Returned True)"

definition again :: "bool \<Rightarrow> wait_point \<Rightarrow> wait_point option" where
  "again late p = (if late then None else Some p)"

fun spec_resume :: "nat \<Rightarrow> wait_point \<Rightarrow> bool \<Rightarrow> bool \<Rightarrow> bool \<Rightarrow> nat \<Rightarrow> lock_view \<times> notice \<times> control" where
  "spec_resume most Lock_Gate1 late w u n = spec_exclusive Lock_Gate2 (Some Lock_Gate1) w u n"
| "spec_resume most Lock_Gate2 late w u n = keep w u n (if n = 0 then Returned True else Waits Lock_Gate2)"
| "spec_resume most Shared_Gate1 late w u n = spec_shared most (Some Shared_Gate1) w u n"
| "spec_resume most Upgrade_Gate1 late w u n = spec_upgrade most (Some Upgrade_Gate1) w u n"
| "spec_resume most Upgraded_Gate2 late w u n = keep w u n (if n = 0 then Returned True else Waits Upgraded_Gate2)"
| "spec_resume most Until_Gate1 late w u n = spec_exclusive Until_Gate2 (again late Until_Gate1) w u n"
| "spec_resume most Until_Gate2 late w u n =
     (if n = 0 then keep w u n (Returned True)
      else if late then keep False u n (Returned False)
      else keep w u n (Waits Until_Gate2))"
| "spec_resume most Shared_Until_Gate1 late w u n = spec_shared most (again late Shared_Until_Gate1) w u n"
| "spec_resume most Upgrade_Until_Gate1 late w u n = spec_upgrade most (again late Upgrade_Until_Gate1) w u n"
| "spec_resume most Shared_To_Exclusive_Gate2 late w u n =
     spec_shared_to_exclusive (again late Shared_To_Exclusive_Gate2) w u n"
| "spec_resume most Shared_To_Upgrade_Gate2 late w u n =
     spec_shared_to_upgrade (again late Shared_To_Upgrade_Gate2) w u n"
| "spec_resume most Upgrade_To_Exclusive_Gate2 late w u n =
     spec_upgrade_to_exclusive (again late Upgrade_To_Exclusive_Gate2) w u n"

lemmas spec_members = enter_writer_def or_wait_def spec_exclusive_def spec_shared_def spec_upgrade_def
  spec_shared_to_exclusive_def spec_shared_to_upgrade_def spec_upgrade_to_exclusive_def again_def

lemmas step_accounting = may_step_def accounts_def left_over_def reads_def upgrades_def

definition spec_conforms :: "nat \<Rightarrow> phase \<Rightarrow> phase \<Rightarrow> bool \<Rightarrow> bool \<Rightarrow> nat \<Rightarrow> lock_view \<Rightarrow> bool" where
  "spec_conforms most a b w u n v \<longleftrightarrow>
     v = (left_over entered w a b, left_over upgrades u a b, snd (snd v)) \<and> accounts most a b w u n (snd (snd v))"


lemma spec_call_conforms:
  assumes "may_step most (Running (before_op f)) w u n" and "0 < most"
  shows "case spec_call most f w u n of (v, nt, c) \<Rightarrow>
           spec_conforms most (Running (before_op f)) (next_phase f c) w u n v"
  using assms by (cases f) (auto simp: spec_members spec_conforms_def step_accounting)

lemma spec_resume_conforms:
  assumes "may_step most (Woken p late) w u n" and "0 < most"
  shows "case spec_resume most p late w u n of (v, nt, c) \<Rightarrow>
           spec_conforms most (Woken p late) (next_phase (op_at p) c) w u n v"
  using assms by (cases p) (auto simp: spec_members spec_conforms_def step_accounting)

lemma spec_call_waits: "spec_call most f w u n = (v, nt, Waits q) \<Longrightarrow> op_at q = f"
  by (cases f) (auto simp: spec_members split: if_splits)

lemma spec_resume_waits: "spec_resume most p late w u n = (v, nt, Waits q) \<Longrightarrow> op_at q = op_at p"
  by (cases p) (auto simp: spec_members split: if_splits)

subsection \<open>The contract\<close>

text \<open>
  A class implements the specification when each of its members, on the state word, does what the
  specification does on what the word stands for. \<open>ok\<close> selects the members the class has, \<open>upg\<close> says
  whether it has upgrade ownership.
\<close>

definition encode :: "(bool \<Rightarrow> bool \<Rightarrow> nat \<Rightarrow> count_t) \<Rightarrow> lock_view \<times> notice \<times> control \<Rightarrow> count_t \<times> notice \<times> control" where
  "encode enc r = (case r of ((w, u, n), nt, c) \<Rightarrow> (enc w u n, nt, c))"

lemma encode_simp [simp]: "encode enc ((w, u, n), nt, c) = (enc w u n, nt, c)"
  by (simp add: encode_def)

definition phase_ok :: "(lock_op \<Rightarrow> bool) \<Rightarrow> bool \<Rightarrow> phase \<Rightarrow> bool" where
  "phase_ok ok upg ph = (case ph of Running m \<Rightarrow> m = Upgrade \<longrightarrow> upg | Blocked p \<Rightarrow> ok (op_at p) | Woken p _ \<Rightarrow> ok (op_at p))"

lemma phase_ok_simps [simp]:
  "phase_ok ok upg (Running m) = (m = Upgrade \<longrightarrow> upg)"
  "phase_ok ok upg (Blocked p) = ok (op_at p)"
  "phase_ok ok upg (Woken p late) = ok (op_at p)"
  by (simp_all add: phase_ok_def)

lemma phase_ok_wake [simp]: "phase_ok ok upg (wake g ph) = phase_ok ok upg ph"
  by (cases ph) auto

lemma list_all_update: "list_all P xs \<Longrightarrow> P x \<Longrightarrow> list_all P (xs[i := x])"
  by (auto simp: list_all_iff dest!: set_update_subset_insert [THEN subsetD])

lemma list_all_nth: "list_all P xs \<Longrightarrow> i < length xs \<Longrightarrow> P (xs ! i)"
  by (simp add: list_all_length)

lemma notified_phase_ok:
  "notified nt ts us \<Longrightarrow> list_all (phase_ok ok upg) ts \<Longrightarrow> list_all (phase_ok ok upg) us"
proof (induction rule: notified.induct)
  case (everybody g ts)
  then show ?case by (simp add: list_all_iff)
next
  case (one_waiter j ts p g)
  then show ?case using list_all_nth [OF one_waiter.prems one_waiter.hyps(1)] by (simp add: list_all_update)
qed

locale gated_lock =
  fixes call :: lock_call and resume :: lock_resume and ok :: "lock_op \<Rightarrow> bool"
    and enc :: "bool \<Rightarrow> bool \<Rightarrow> nat \<Rightarrow> count_t" and most :: nat and upg :: bool
  assumes enc_start: "enc False False 0 = 0"
    and most_pos: "0 < most"
    and no_upgrades: "ok f \<Longrightarrow> \<not> upg \<Longrightarrow> before_op f \<noteq> Upgrade \<and> after_op f \<noteq> Upgrade"
    and call_refines: "ok f \<Longrightarrow> may_step most (Running (before_op f)) w u n \<Longrightarrow> (u \<Longrightarrow> upg) \<Longrightarrow>
      call f (enc w u n) = encode enc (spec_call most f w u n)"
    and resume_refines: "ok (op_at p) \<Longrightarrow> may_step most (Woken p late) w u n \<Longrightarrow> (u \<Longrightarrow> upg) \<Longrightarrow>
      resume p late (enc w u n) = encode enc (spec_resume most p late w u n)"
begin

text \<open>Every step of the system is a step of one thread prescribed by the specification.\<close>

definition sys_ok :: "lock_system \<Rightarrow> bool" where
  "sys_ok \<sigma> = (lock_inv enc most \<sigma> \<and> list_all (phase_ok ok upg) (lk_threads \<sigma>))"

lemma no_upgrade_threads:
  assumes "list_all (phase_ok ok upg) ts" and "num_of upgrades ts = 1"
  shows upg
proof (rule ccontr)
  assume no: "\<not> upg"
  have none: "\<not> upgrades ph" if "phase_ok ok upg ph" for ph
  proof (cases ph)
    case (Blocked p)
    then show ?thesis using that no no_upgrades [of "op_at p"] by (cases p) (auto simp: upgrades_def)
  next
    case (Woken p late)
    then show ?thesis using that no no_upgrades [of "op_at p"] by (cases p) (auto simp: upgrades_def)
  qed (use that no in \<open>auto simp: upgrades_def\<close>)
  then have "filter upgrades ts = []" using assms(1) by (auto simp: filter_empty_conv list_all_iff)
  then show False using assms(2) by (simp add: num_of_def)
qed

lemma next_phase_ok:
  assumes "ok f" and "\<And>q. c = Waits q \<Longrightarrow> op_at q = f"
  shows "phase_ok ok upg (next_phase f c)"
  using assms no_upgrades [OF assms(1)] by (cases c) auto

lemma thread_view:
  assumes "sys_ok \<lparr>lk_state = s, lk_threads = ts\<rparr>" and "i < length ts"
  obtains w u n where "s = enc w u n" "may_step most (ts ! i) w u n" "u \<Longrightarrow> upg" "phase_ok ok upg (ts ! i)"
    "w = (num_of entered ts = 1)" "u = (num_of upgrades ts = 1)" "n = num_of reads ts"
proof
  show "s = enc (num_of entered ts = 1) (num_of upgrades ts = 1) (num_of reads ts)"
    using assms(1) by (simp add: sys_ok_def lock_inv_def Let_def)
  show "may_step most (ts ! i) (num_of entered ts = 1) (num_of upgrades ts = 1) (num_of reads ts)"
    using assms lock_inv_may_step [of enc most "\<lparr>lk_state = s, lk_threads = ts\<rparr>" i] by (simp add: sys_ok_def)
  show "num_of upgrades ts = 1 \<Longrightarrow> upg" using assms(1) no_upgrade_threads by (auto simp: sys_ok_def)
  show "phase_ok ok upg (ts ! i)" using assms list_all_nth by (auto simp: sys_ok_def)
qed auto

lemma commit:
  assumes "sys_ok \<lparr>lk_state = s, lk_threads = ts\<rparr>" and "i < length ts"
    and "spec_conforms most (ts ! i) b (num_of entered ts = 1) (num_of upgrades ts = 1) (num_of reads ts) (w', u', n')"
    and "phase_ok ok upg b" and "notified nt (ts[i := b]) us"
  shows "sys_ok \<lparr>lk_state = enc w' u' n', lk_threads = us\<rparr>"
proof -
  have "conforms enc most (ts ! i) b (num_of entered ts = 1) (num_of upgrades ts = 1) (num_of reads ts) (enc w' u' n')"
    using assms(3) by (auto simp: spec_conforms_def conforms_def)
  then have "lock_inv enc most \<lparr>lk_state = enc w' u' n', lk_threads = us\<rparr>"
    using assms conforms_keeps_inv notified_same unfolding sys_ok_def by blast
  moreover have "list_all (phase_ok ok upg) us"
    using notified_phase_ok [OF assms(5)] assms(1,4) by (simp add: sys_ok_def list_all_update)
  ultimately show ?thesis by (simp add: sys_ok_def)
qed

lemma wake_up:
  assumes "sys_ok \<lparr>lk_state = s, lk_threads = ts\<rparr>" and "i < length ts" and "ts ! i = Blocked p"
  shows "sys_ok \<lparr>lk_state = s, lk_threads = ts[i := Woken p late]\<rparr>"
proof -
  have same: "same_holding ts (ts[i := Woken p late])" using assms(2,3) by (rule same_holding_update)
  have "lock_inv enc most \<lparr>lk_state = s, lk_threads = ts[i := Woken p late]\<rparr>"
    using assms(1) same_holding_counts [OF same] same_holding_mem [OF same]
    unfolding sys_ok_def lock_inv_def Let_def by (metis lock_system.select_convs)
  moreover have "phase_ok ok upg (Blocked p)"
    using assms list_all_nth [of "phase_ok ok upg" ts i] by (simp add: sys_ok_def)
  ultimately show ?thesis using assms(1) by (simp add: sys_ok_def list_all_update)
qed

lemma step_ok: "lock_step call resume ok \<sigma> \<tau> \<Longrightarrow> sys_ok \<sigma> \<Longrightarrow> sys_ok \<tau>"
proof (induction rule: lock_step.induct)
  case (calls f i ts s s' nt c us)
  obtain w u n where v: "s = enc w u n" "may_step most (ts ! i) w u n" "u \<Longrightarrow> upg"
      "w = (num_of entered ts = 1)" "u = (num_of upgrades ts = 1)" "n = num_of reads ts"
    using thread_view [OF calls.prems calls.hyps(2)] by metis
  obtain w' u' n' where sp: "spec_call most f w u n = ((w', u', n'), nt, c)" "s' = enc w' u' n'"
    using call_refines [OF calls.hyps(1)] v(1-3) calls.hyps(3,4)
    by (cases "spec_call most f w u n") (auto simp: encode_def split: prod.splits)
  have "spec_conforms most (ts ! i) (next_phase f c) w u n (w', u', n')"
    using spec_call_conforms [of most f w u n] most_pos v(2) calls.hyps(3) sp(1) by simp
  moreover have "phase_ok ok upg (next_phase f c)"
    using calls.hyps(1) sp(1) spec_call_waits [of most f w u n] by (intro next_phase_ok) auto
  ultimately show ?case using commit [OF calls.prems calls.hyps(2)] calls.hyps(5) sp(2) v(4-6) by blast
next
  case (resumes i ts p late s s' nt c us)
  obtain w u n where v: "s = enc w u n" "may_step most (ts ! i) w u n" "u \<Longrightarrow> upg"
      "w = (num_of entered ts = 1)" "u = (num_of upgrades ts = 1)" "n = num_of reads ts"
      and okp: "ok (op_at p)"
    using thread_view [OF resumes.prems resumes.hyps(1)] resumes.hyps(2) by (metis phase_ok_simps(3))
  obtain w' u' n' where sp: "spec_resume most p late w u n = ((w', u', n'), nt, c)" "s' = enc w' u' n'"
    using resume_refines [OF okp] v(1-3) resumes.hyps(2,3)
    by (cases "spec_resume most p late w u n") (auto simp: encode_def split: prod.splits)
  have "spec_conforms most (ts ! i) (next_phase (op_at p) c) w u n (w', u', n')"
    using spec_resume_conforms [of most p late w u n] most_pos v(2) resumes.hyps(2) sp(1) by simp
  moreover have "phase_ok ok upg (next_phase (op_at p) c)"
    using okp sp(1) spec_resume_waits [of most p late w u n] by (intro next_phase_ok) auto
  ultimately show ?case using commit [OF resumes.prems resumes.hyps(1)] resumes.hyps(4) sp(2) v(4-6) by blast
next
  case (spurious i ts p s)
  then show ?case using wake_up by simp
next
  case (timeout i ts p s)
  then show ?case using wake_up by simp
qed

lemma start_counts: "num_of entered (replicate k (Running Unowned)) = 0"
  "num_of reads (replicate k (Running Unowned)) = 0" "num_of upgrades (replicate k (Running Unowned)) = 0"
  by (simp_all add: num_of_def filter_replicate reads_def upgrades_def)

lemma reach_ok:
  "lock_reach call resume ok k \<sigma> \<Longrightarrow> sys_ok \<sigma> \<and> length (lk_threads \<sigma>) = k"
proof (induction rule: lock_reach.induct)
  case start
  show ?case by (simp add: lock_start_def sys_ok_def lock_inv_def start_counts enc_start list_all_length)
next
  case (step \<sigma> \<tau>)
  have "length (lk_threads \<tau>) = length (lk_threads \<sigma>)"
    using step.hyps(2)
    by (induction rule: lock_step.induct) (auto dest!: notified_same same_holding_counts(4))
  then show ?case using step step_ok by simp
qed

text \<open>Mutual exclusion, and what the state word says.\<close>

lemma exclusive_alone:
  assumes "lock_reach call resume ok k \<sigma>" and "i < k" and "j < k" and "i \<noteq> j"
    and "holds (lk_threads \<sigma> ! i) = Exclusive"
  shows "holds (lk_threads \<sigma> ! j) = Unowned"
proof -
  let ?ts = "lk_threads \<sigma>"
  have inv: "lock_inv enc most \<sigma>" and len: "length ?ts = k" using reach_ok [OF assms(1)] by (auto simp: sys_ok_def)
  have "num_of reads ?ts = 0"
    using inv assms(2,5) len nth_mem [of i ?ts] by (auto simp: lock_inv_def Let_def)
  then have "\<not> reads (?ts ! j)" using num_of_pos [of j ?ts reads] assms(3) len by auto
  moreover have "holds (?ts ! j) \<noteq> Exclusive"
  proof
    assume "holds (?ts ! j) = Exclusive"
    then have "2 \<le> num_of entered ?ts"
      using num_of_two [of i ?ts j entered] assms len entered_Exclusive by auto
    then show False using inv by (simp add: lock_inv_def Let_def)
  qed
  ultimately show ?thesis by (cases "holds (?ts ! j)") (auto simp: reads_def)
qed

lemma upgrade_alone:
  assumes "lock_reach call resume ok k \<sigma>" and "i < k" and "j < k" and "i \<noteq> j"
    and "holds (lk_threads \<sigma> ! i) = Upgrade"
  shows "holds (lk_threads \<sigma> ! j) = Unowned \<or> holds (lk_threads \<sigma> ! j) = Shared"
proof -
  let ?ts = "lk_threads \<sigma>"
  have inv: "lock_inv enc most \<sigma>" and len: "length ?ts = k" using reach_ok [OF assms(1)] by (auto simp: sys_ok_def)
  have up: "upgrades (?ts ! i)" using assms(5) by (simp add: upgrades_def)
  have le: "num_of entered ?ts + num_of upgrades ?ts \<le> 1" using inv by (simp add: lock_inv_def Let_def)
  have "holds (?ts ! j) \<noteq> Upgrade"
    using num_of_two [of i ?ts j upgrades] assms len up le by (auto simp: upgrades_def)
  moreover have "holds (?ts ! j) \<noteq> Exclusive"
    using num_of_pos [of i ?ts upgrades] num_of_pos [of j ?ts entered] entered_Exclusive [of "?ts ! j"]
      assms(2,3) len up le by auto
  ultimately show ?thesis by (cases "holds (?ts ! j)") auto
qed

lemma state_word:
  assumes "lock_reach call resume ok k \<sigma>"
  shows "lk_state \<sigma> = enc (num_of entered (lk_threads \<sigma>) = 1) (num_of upgrades (lk_threads \<sigma>) = 1)
           (num_of reads (lk_threads \<sigma>)) \<and> num_of reads (lk_threads \<sigma>) \<le> most"
  using reach_ok [OF assms] by (simp add: sys_ok_def lock_inv_def Let_def)

end

subsection \<open>No wake-up is lost\<close>

text \<open>The condition under which a thread has to stay at a wait point of a member without a deadline.\<close>

fun must_wait :: "nat \<Rightarrow> wait_point \<Rightarrow> bool \<Rightarrow> bool \<Rightarrow> nat \<Rightarrow> bool" where
  "must_wait most Lock_Gate1 w u n = (w \<or> u)"
| "must_wait most Shared_Gate1 w u n = (w \<or> n = most)"
| "must_wait most Upgrade_Gate1 w u n = (w \<or> u \<or> n = most)"
| "must_wait most Lock_Gate2 w u n = (0 < n)"
| "must_wait most Upgraded_Gate2 w u n = (0 < n)"
| "must_wait most _ w u n = True"

definition keeps_waiting :: "nat \<Rightarrow> wait_point \<Rightarrow> bool \<Rightarrow> bool \<Rightarrow> nat \<Rightarrow> lock_view \<Rightarrow> notice \<Rightarrow> bool" where
  "keeps_waiting most p w u n v nt \<longleftrightarrow>
     must_wait most p w u n \<longrightarrow> (gate_at p = Gate2 \<longrightarrow> w) \<longrightarrow>
     must_wait most p (fst v) (fst (snd v)) (snd (snd v))
     \<or> nt = Notify_All (gate_at p) \<or> (nt = Notify_One Gate2 \<and> gate_at p = Gate2)"

definition blocks_rightly :: "nat \<Rightarrow> lock_view \<Rightarrow> control \<Rightarrow> bool" where
  "blocks_rightly most v c \<longleftrightarrow>
     (case c of Returned _ \<Rightarrow> True | Waits q \<Rightarrow> must_wait most q (fst v) (fst (snd v)) (snd (snd v)))"

lemma untimed_point: "\<not> timed_op (op_at p) \<Longrightarrow> gate_at p = Gate2 \<longleftrightarrow> point_entered p"
  by (cases p) simp_all

lemma spec_call_notifies:
  assumes "may_step most (Running (before_op f)) w u n" and "n < most" and "\<not> timed_op f"
    and "\<not> timed_op (op_at p)"
  shows "case spec_call most f w u n of (v, nt, c) \<Rightarrow>
           keeps_waiting most p w u n v nt \<and> blocks_rightly most v c \<and> nt \<noteq> Notify_One Gate1"
  using assms
  by (cases f; cases p)
    (auto simp: spec_members keeps_waiting_def blocks_rightly_def may_step_def reads_def upgrades_def)

lemma spec_resume_notifies:
  assumes "may_step most (Woken q late) w u n" and "n < most" and "\<not> timed_op (op_at q)"
    and "\<not> timed_op (op_at p)"
  shows "case spec_resume most q late w u n of (v, nt, c) \<Rightarrow>
           keeps_waiting most p w u n v nt \<and> blocks_rightly most v c \<and> nt \<noteq> Notify_One Gate1"
  using assms
  by (cases q; cases p)
    (auto simp: spec_members keeps_waiting_def blocks_rightly_def may_step_def reads_def upgrades_def)

lemma conforming_counts:
  assumes inv: "lock_inv enc most \<lparr>lk_state = s, lk_threads = ts\<rparr>" and i: "i < length ts"
    and step: "spec_conforms most (ts ! i) b (num_of entered ts = 1) (num_of upgrades ts = 1) (num_of reads ts) (w', u', n')"
    and us: "same_holding (ts[i := b]) us"
  shows "w' = (num_of entered us = 1)" "u' = (num_of upgrades us = 1)" "n' = num_of reads us"
proof -
  have le: "num_of entered ts + num_of upgrades ts \<le> 1" using inv by (simp add: lock_inv_def Let_def)
  note same = same_holding_counts [OF us]
  show "w' = (num_of entered us = 1)"
    using num_of_replace(2) [OF i, of entered b] le step same(1)
    by (auto simp: spec_conforms_def accounts_def Let_def)
  show "u' = (num_of upgrades us = 1)"
    using num_of_replace(2) [OF i, of upgrades b] le step same(3)
    by (auto simp: spec_conforms_def accounts_def Let_def)
  show "n' = num_of reads us"
    using num_of_update [OF i, of reads b] step same(2) by (auto simp: spec_conforms_def accounts_def Let_def)
qed

text \<open>A thread that is still blocked after the notification was blocked before, and not at a gate that
  everybody was called from.\<close>

lemma notified_blocked:
  assumes "notified nt vs us" and "j < length us" and "us ! j = Blocked p"
  shows "vs ! j = Blocked p \<and> nt \<noteq> Notify_All (gate_at p)"
  using assms
proof (induction rule: notified.induct)
  case (everybody g ts)
  then show ?case by (cases "ts ! j") (auto split: if_splits)
next
  case (one_waiter k ts q g)
  then show ?case by (cases "j = k") auto
qed auto

lemma notified_one_other:
  assumes "notified (Notify_One g) vs us" and "j < length us" and "us ! j = Blocked p" and "gate_at p = g"
  shows "\<exists>k q. k < length vs \<and> k \<noteq> j \<and> vs ! k = Blocked q \<and> gate_at q = g"
  using assms
proof (elim notified_One)
  assume "us = vs" "list_all (\<lambda>ph. \<not> blocked_at g ph) vs"
  then show ?thesis using assms(2-4) list_all_nth [of _ vs j] by (force simp: blocked_at_def)
next
  fix k q assume k: "us = vs[k := Woken q False]" "k < length vs" "vs ! k = Blocked q" "gate_at q = g"
  then have "k \<noteq> j" using assms(2,3) by auto
  then show ?thesis using k by blast
qed

locale untimed_lock = gated_lock +
  assumes untimed: "ok f \<Longrightarrow> \<not> timed_op f"
begin

definition nobody_forgotten :: "phase list \<Rightarrow> bool" where
  "nobody_forgotten ts \<longleftrightarrow>
     (\<forall>j p. j < length ts \<longrightarrow> ts ! j = Blocked p \<longrightarrow>
        must_wait most p (num_of entered ts = 1) (num_of upgrades ts = 1) (num_of reads ts))"

lemma commit_remembers:
  assumes ok: "sys_ok \<lparr>lk_state = s, lk_threads = ts\<rparr>" and i: "i < length ts"
    and b: "b = next_phase f c" "phase_ok ok upg b"
    and conf: "spec_conforms most (ts ! i) b (num_of entered ts = 1) (num_of upgrades ts = 1) (num_of reads ts) (w', u', n')"
    and fair: "\<And>p. \<not> timed_op (op_at p) \<Longrightarrow>
        keeps_waiting most p (num_of entered ts = 1) (num_of upgrades ts = 1) (num_of reads ts) (w', u', n') nt
        \<and> blocks_rightly most (w', u', n') c \<and> nt \<noteq> Notify_One Gate1"
    and us: "notified nt (ts[i := b]) us"
    and before: "nobody_forgotten ts"
  shows "nobody_forgotten us"
  unfolding nobody_forgotten_def
proof (intro allI impI)
  fix j p assume j: "j < length us" "us ! j = Blocked p"
  let ?vs = "ts[i := b]"
  have inv: "lock_inv enc most \<lparr>lk_state = s, lk_threads = ts\<rparr>" and phases: "list_all (phase_ok ok upg) ts"
    using ok by (simp_all add: sys_ok_def)
  note same = notified_same [OF us]
  note counts = conforming_counts [OF inv i conf same]
  have len: "length us = length ts" using same_holding_counts(4) [OF same] by simp
  have vs: "?vs ! j = Blocked p" "nt \<noteq> Notify_All (gate_at p)" using notified_blocked [OF us j] by auto
  have vs_ok: "list_all (phase_ok ok upg) ?vs" using phases b(2) by (rule list_all_update)
  have un: "\<not> timed_op (op_at p)" using list_all_nth [OF vs_ok, of j] j len vs untimed by simp
  have alone: "\<not> (nt = Notify_One Gate2 \<and> gate_at p = Gate2)"
  proof
    assume one: "nt = Notify_One Gate2 \<and> gate_at p = Gate2"
    then obtain k q where k: "k < length ?vs" "k \<noteq> j" "?vs ! k = Blocked q" "gate_at q = Gate2"
      using notified_one_other [of Gate2 ?vs us j p] us j by blast
    have "\<not> timed_op (op_at q)" using list_all_nth [OF vs_ok, of k] k untimed by simp
    then have "entered (?vs ! k)" "entered (?vs ! j)" using k vs one un untimed_point by auto
    then have "2 \<le> num_of entered ?vs" using num_of_two [of k ?vs j entered] k j len by auto
    moreover have "num_of entered ?vs = num_of entered us" using same_holding_counts(1) [OF same] by simp
    moreover have "num_of entered us \<le> 1"
      using commit [OF ok i conf b(2) us] by (auto simp: sys_ok_def lock_inv_def Let_def)
    ultimately show False by simp
  qed
  have "must_wait most p w' u' n'"
  proof (cases "j = i")
    case True
    then have "c = Waits p" using vs i b(1) by (cases c) auto
    then show ?thesis using fair [OF un] by (simp add: blocks_rightly_def)
  next
    case False
    then have ts: "ts ! j = Blocked p" using vs by simp
    have "gate_at p = Gate2 \<longrightarrow> num_of entered ts = 1"
    proof
      assume "gate_at p = Gate2"
      then have "0 < num_of entered ts" using num_of_pos [of j ts entered] ts j len un untimed_point by auto
      then show "num_of entered ts = 1" using inv by (simp add: lock_inv_def Let_def)
    qed
    moreover have "must_wait most p (num_of entered ts = 1) (num_of upgrades ts = 1) (num_of reads ts)"
      using before ts j len by (simp add: nobody_forgotten_def)
    ultimately show ?thesis using fair [OF un] vs(2) alone by (auto simp: keeps_waiting_def)
  qed
  then show "must_wait most p (num_of entered us = 1) (num_of upgrades us = 1) (num_of reads us)"
    using counts by simp
qed

lemma step_remembers:
  assumes "lock_step call resume ok \<sigma> \<tau>" and "sys_ok \<sigma>" and "length (lk_threads \<sigma>) < most"
    and "nobody_forgotten (lk_threads \<sigma>)"
  shows "nobody_forgotten (lk_threads \<tau>)"
  using assms
proof (induction rule: lock_step.induct)
  case (calls f i ts s s' nt c us)
  obtain w u n where v: "s = enc w u n" "may_step most (ts ! i) w u n" "u \<Longrightarrow> upg"
      "w = (num_of entered ts = 1)" "u = (num_of upgrades ts = 1)" "n = num_of reads ts"
    using thread_view [OF calls.prems(1) calls.hyps(2)] by metis
  obtain w' u' n' where sp: "spec_call most f w u n = ((w', u', n'), nt, c)"
    using call_refines [OF calls.hyps(1)] v(1-3) calls.hyps(3,4)
    by (cases "spec_call most f w u n") (auto simp: encode_def split: prod.splits)
  have conf: "spec_conforms most (ts ! i) (next_phase f c) w u n (w', u', n')"
    using spec_call_conforms [of most f w u n] most_pos v(2) calls.hyps(3) sp by simp
  have phase: "phase_ok ok upg (next_phase f c)"
    using calls.hyps(1) sp spec_call_waits [of most f w u n] by (intro next_phase_ok) auto
  have few: "n < most" using num_of_le [of reads ts] calls.prems(2) v(6) by simp
  have fair: "keeps_waiting most p w u n (w', u', n') nt \<and> blocks_rightly most (w', u', n') c \<and> nt \<noteq> Notify_One Gate1"
    if "\<not> timed_op (op_at p)" for p
    using spec_call_notifies [of most f w u n p] v(2) few calls.hyps(3) untimed [OF calls.hyps(1)] that sp by simp
  show ?case
    using commit_remembers [OF calls.prems(1) calls.hyps(2) refl phase conf [unfolded v(4-6)] fair [unfolded v(4-6)] calls.hyps(5)]
      calls.prems(3) by simp
next
  case (resumes i ts q late s s' nt c us)
  obtain w u n where v: "s = enc w u n" "may_step most (ts ! i) w u n" "u \<Longrightarrow> upg"
      "w = (num_of entered ts = 1)" "u = (num_of upgrades ts = 1)" "n = num_of reads ts"
      and okp: "ok (op_at q)"
    using thread_view [OF resumes.prems(1) resumes.hyps(1)] resumes.hyps(2) by (metis phase_ok_simps(3))
  obtain w' u' n' where sp: "spec_resume most q late w u n = ((w', u', n'), nt, c)"
    using resume_refines [OF okp] v(1-3) resumes.hyps(2,3)
    by (cases "spec_resume most q late w u n") (auto simp: encode_def split: prod.splits)
  have conf: "spec_conforms most (ts ! i) (next_phase (op_at q) c) w u n (w', u', n')"
    using spec_resume_conforms [of most q late w u n] most_pos v(2) resumes.hyps(2) sp by simp
  have phase: "phase_ok ok upg (next_phase (op_at q) c)"
    using okp sp spec_resume_waits [of most q late w u n] by (intro next_phase_ok) auto
  have few: "n < most" using num_of_le [of reads ts] resumes.prems(2) v(6) by simp
  have fair: "keeps_waiting most p w u n (w', u', n') nt \<and> blocks_rightly most (w', u', n') c \<and> nt \<noteq> Notify_One Gate1"
    if "\<not> timed_op (op_at p)" for p
    using spec_resume_notifies [of most q late w u n p] v(2) few resumes.hyps(2) untimed [OF okp] that sp by simp
  show ?case
    using commit_remembers [OF resumes.prems(1) resumes.hyps(1) refl phase conf [unfolded v(4-6)] fair [unfolded v(4-6)] resumes.hyps(4)]
      resumes.prems(3) by simp
next
  case (spurious i ts p s)
  note same = same_holding_counts [OF same_holding_update [OF spurious.hyps(1,2), of False]]
  show ?case using spurious same by (auto simp: nobody_forgotten_def nth_list_update split: if_splits)
next
  case (timeout i ts p s)
  note same = same_holding_counts [OF same_holding_update [OF timeout.hyps(1,2), of True]]
  show ?case using timeout same by (auto simp: nobody_forgotten_def nth_list_update split: if_splits)
qed

lemma reach_remembers:
  "lock_reach call resume ok k \<sigma> \<Longrightarrow> k < most \<Longrightarrow> nobody_forgotten (lk_threads \<sigma>)"
proof (induction rule: lock_reach.induct)
  case start
  then show ?case by (simp add: nobody_forgotten_def lock_start_def)
next
  case (step \<sigma> \<tau>)
  then show ?case using step_remembers reach_ok [OF step.hyps(1)] by blast
qed

text \<open>If nobody owns the lock and nobody is on the way back from a wait, nobody waits.\<close>

lemma no_deadlock:
  assumes "lock_reach call resume ok k \<sigma>" and "k < most"
    and idle: "\<And>ph. ph \<in> set (lk_threads \<sigma>) \<Longrightarrow> ph = Running Unowned \<or> (\<exists>p. ph = Blocked p)"
  shows "lk_threads \<sigma> = replicate k (Running Unowned)"
proof -
  let ?ts = "lk_threads \<sigma>"
  have ok: "sys_ok \<sigma>" and len: "length ?ts = k" using reach_ok [OF assms(1)] by auto
  have un: "\<not> timed_op (op_at p)" if "Blocked p \<in> set ?ts" for p
    using ok that untimed by (auto simp: sys_ok_def list_all_iff dest!: bspec)
  have mode: "holds ph = Unowned" if ph: "ph \<in> set ?ts" for ph
  proof (cases ph)
    case (Blocked p)
    then show ?thesis using un [of p] ph by (cases p) auto
  qed (use idle [OF ph] in auto)
  then have n0: "num_of reads ?ts = 0" "num_of upgrades ?ts = 0"
    by (auto simp: num_of_def filter_empty_conv reads_def upgrades_def)
  have waits: "must_wait most p (num_of entered ?ts = 1) False 0" if "Blocked p \<in> set ?ts" for p
    using reach_remembers [OF assms(1,2)] that n0 by (auto simp: nobody_forgotten_def in_set_conv_nth)
  have gate: "\<not> point_entered p" if "Blocked p \<in> set ?ts" for p
    using waits [OF that] by (cases p) (use un [OF that] in auto)
  have "\<not> entered ph" if "ph \<in> set ?ts" for ph
    using idle [OF that] gate that by auto
  then have "num_of entered ?ts = 0" by (simp add: num_of_def filter_empty_conv)
  then have "Blocked p \<notin> set ?ts" for p
    using waits [of p] un [of p] most_pos by (cases p) auto
  then have "\<forall>ph \<in> set ?ts. ph = Running Unowned" using idle by blast
  then show ?thesis using len by (simp add: list_eq_iff_nth_eq)
qed

end

end
