(* ===== verification/Upgrade_Mutex.thy ===== *)
theory Upgrade_Mutex
  imports Gated_Lock
begin

text \<open>
  \<^verbatim>\<open>boost::thread_v2::upgrade_mutex\<close> (\<^verbatim>\<open>thread/v2/shared_mutex.hpp\<close>), the class that
  \<^verbatim>\<open>boost::shared_mutex\<close> names.

  Each member is the function of the state word from its entry to its first wait or its return; what
  follows a wait is a function of its own, named after the wait point, that is given whether the wait
  timed out. \<open>um_call\<close> and \<open>um_resume\<close> collect them. The notification that some members send after
  releasing the mutex is part of the member's step: a thread that starts to wait in between can only be
  woken once more than necessary, and spurious wake-ups are steps of their own.
\<close>

unbundle bit_operations_syntax

subsection \<open>Definitions\<close>

definition um_write_entered :: count_t where
  "um_write_entered = push_bit 31 1"

definition um_upgradable_entered :: count_t where
  "um_upgradable_entered = drop_bit 1 um_write_entered"

definition um_n_readers :: count_t where
  "um_n_readers = NOT (um_write_entered OR um_upgradable_entered)"

definition um_new :: count_t where
  "um_new = 0"

subsubsection \<open>Exclusive ownership\<close>

definition um_lock_gate2 :: "count_t \<Rightarrow> count_t \<times> notice \<times> control" where
  "um_lock_gate2 s = (if s AND um_n_readers \<noteq> 0 then (s, Quiet, Waits Lock_Gate2) else (s, Quiet, Returned True))"

definition um_lock :: "count_t \<Rightarrow> count_t \<times> notice \<times> control" where
  "um_lock s =
     (if s AND (um_write_entered OR um_upgradable_entered) \<noteq> 0 then (s, Quiet, Waits Lock_Gate1)
      else um_lock_gate2 (s OR um_write_entered))"

definition um_try_lock :: "count_t \<Rightarrow> count_t \<times> notice \<times> control" where
  "um_try_lock s =
     (if s = 0 then (um_write_entered, Quiet, Returned True) else (s, Quiet, Returned False))"

definition um_unlock :: "count_t \<Rightarrow> count_t \<times> notice \<times> control" where
  "um_unlock s = (0, Notify_All Gate1, Returned True)"

definition um_until_enter :: "count_t \<Rightarrow> count_t \<times> notice \<times> control" where
  "um_until_enter s =
     (let s1 = s OR um_write_entered in
      if s1 AND um_n_readers \<noteq> 0 then (s1, Quiet, Waits Until_Gate2) else (s1, Quiet, Returned True))"

definition um_try_lock_until :: "count_t \<Rightarrow> count_t \<times> notice \<times> control" where
  "um_try_lock_until s =
     (if s AND (um_write_entered OR um_upgradable_entered) \<noteq> 0 then (s, Quiet, Waits Until_Gate1)
      else um_until_enter s)"

definition um_until_gate1 :: "bool \<Rightarrow> count_t \<Rightarrow> count_t \<times> notice \<times> control" where
  "um_until_gate1 late s =
     (if s AND (um_write_entered OR um_upgradable_entered) = 0 then um_until_enter s
      else if late then (s, Quiet, Returned False)
      else (s, Quiet, Waits Until_Gate1))"

definition um_until_gate2 :: "bool \<Rightarrow> count_t \<Rightarrow> count_t \<times> notice \<times> control" where
  "um_until_gate2 late s =
     (if s AND um_n_readers = 0 then (s, Quiet, Returned True)
      else if late then (s AND NOT um_write_entered, Quiet, Returned False)
      else (s, Quiet, Waits Until_Gate2))"

subsubsection \<open>Shared ownership\<close>

definition um_add_reader :: "count_t \<Rightarrow> count_t" where
  "um_add_reader s = (let num_readers = (s AND um_n_readers) + 1 in (s AND NOT um_n_readers) OR num_readers)"

definition um_lock_shared :: "count_t \<Rightarrow> count_t \<times> notice \<times> control" where
  "um_lock_shared s =
     (if s AND um_write_entered \<noteq> 0 \<or> s AND um_n_readers = um_n_readers then (s, Quiet, Waits Shared_Gate1)
      else (um_add_reader s, Quiet, Returned True))"

definition um_try_lock_shared :: "count_t \<Rightarrow> count_t \<times> notice \<times> control" where
  "um_try_lock_shared s =
     (let num_readers = s AND um_n_readers in
      if s AND um_write_entered = 0 \<and> num_readers \<noteq> um_n_readers
      then ((s AND NOT um_n_readers) OR (num_readers + 1), Quiet, Returned True)
      else (s, Quiet, Returned False))"

definition um_try_lock_shared_until :: "count_t \<Rightarrow> count_t \<times> notice \<times> control" where
  "um_try_lock_shared_until s =
     (if s AND um_write_entered \<noteq> 0 \<or> s AND um_n_readers = um_n_readers
      then (s, Quiet, Waits Shared_Until_Gate1)
      else (um_add_reader s, Quiet, Returned True))"

definition um_shared_until_gate1 :: "bool \<Rightarrow> count_t \<Rightarrow> count_t \<times> notice \<times> control" where
  "um_shared_until_gate1 late s =
     (if s AND um_write_entered = 0 \<and> s AND um_n_readers < um_n_readers
      then (um_add_reader s, Quiet, Returned True)
      else if late then (s, Quiet, Returned False)
      else (s, Quiet, Waits Shared_Until_Gate1))"

definition um_unlock_shared :: "count_t \<Rightarrow> count_t \<times> notice \<times> control" where
  "um_unlock_shared s =
     (let num_readers = (s AND um_n_readers) - 1;
          s1 = (s AND NOT um_n_readers) OR num_readers
      in if s1 AND um_write_entered \<noteq> 0
         then (s1, if num_readers = 0 then Notify_One Gate2 else Quiet, Returned True)
         else (s1, if num_readers = um_n_readers - 1 then Notify_One Gate1 else Quiet, Returned True))"

subsubsection \<open>Upgrade ownership\<close>

definition um_add_upgrade :: "count_t \<Rightarrow> count_t" where
  "um_add_upgrade s =
     (let num_readers = (s AND um_n_readers) + 1
      in (s AND NOT um_n_readers) OR (um_upgradable_entered OR num_readers))"

definition um_lock_upgrade :: "count_t \<Rightarrow> count_t \<times> notice \<times> control" where
  "um_lock_upgrade s =
     (if s AND (um_write_entered OR um_upgradable_entered) \<noteq> 0 \<or> s AND um_n_readers = um_n_readers
      then (s, Quiet, Waits Upgrade_Gate1)
      else (um_add_upgrade s, Quiet, Returned True))"

definition um_try_lock_upgrade :: "count_t \<Rightarrow> count_t \<times> notice \<times> control" where
  "um_try_lock_upgrade s =
     (let num_readers = s AND um_n_readers in
      if s AND (um_write_entered OR um_upgradable_entered) = 0 \<and> num_readers \<noteq> um_n_readers
      then ((s AND NOT um_n_readers) OR (um_upgradable_entered OR (num_readers + 1)), Quiet, Returned True)
      else (s, Quiet, Returned False))"

definition um_try_lock_upgrade_until :: "count_t \<Rightarrow> count_t \<times> notice \<times> control" where
  "um_try_lock_upgrade_until s =
     (if s AND (um_write_entered OR um_upgradable_entered) \<noteq> 0 \<or> s AND um_n_readers = um_n_readers
      then (s, Quiet, Waits Upgrade_Until_Gate1)
      else (um_add_upgrade s, Quiet, Returned True))"

definition um_upgrade_until_gate1 :: "bool \<Rightarrow> count_t \<Rightarrow> count_t \<times> notice \<times> control" where
  "um_upgrade_until_gate1 late s =
     (if s AND (um_write_entered OR um_upgradable_entered) = 0 \<and> s AND um_n_readers < um_n_readers
      then (um_add_upgrade s, Quiet, Returned True)
      else if late then (s, Quiet, Returned False)
      else (s, Quiet, Waits Upgrade_Until_Gate1))"

definition um_unlock_upgrade :: "count_t \<Rightarrow> count_t \<times> notice \<times> control" where
  "um_unlock_upgrade s =
     (let num_readers = (s AND um_n_readers) - 1
      in ((s AND NOT (um_upgradable_entered OR um_n_readers)) OR num_readers, Notify_All Gate1, Returned True))"

subsubsection \<open>Changes of ownership\<close>

definition um_try_unlock_shared_and_lock :: "count_t \<Rightarrow> count_t \<times> notice \<times> control" where
  "um_try_unlock_shared_and_lock s =
     (if s = 1 then (um_write_entered, Quiet, Returned True) else (s, Quiet, Returned False))"

definition um_try_unlock_shared_and_lock_until :: "count_t \<Rightarrow> count_t \<times> notice \<times> control" where
  "um_try_unlock_shared_and_lock_until s =
     (if s \<noteq> 1 then (s, Quiet, Waits Shared_To_Exclusive_Gate2) else (um_write_entered, Quiet, Returned True))"

definition um_shared_to_exclusive_gate2 :: "bool \<Rightarrow> count_t \<Rightarrow> count_t \<times> notice \<times> control" where
  "um_shared_to_exclusive_gate2 late s =
     (if s = 1 then (um_write_entered, Quiet, Returned True)
      else if late then (s, Quiet, Returned False)
      else (s, Quiet, Waits Shared_To_Exclusive_Gate2))"

definition um_unlock_and_lock_shared :: "count_t \<Rightarrow> count_t \<times> notice \<times> control" where
  "um_unlock_and_lock_shared s = (1, Notify_All Gate1, Returned True)"

definition um_try_unlock_shared_and_lock_upgrade :: "count_t \<Rightarrow> count_t \<times> notice \<times> control" where
  "um_try_unlock_shared_and_lock_upgrade s =
     (if s AND (um_write_entered OR um_upgradable_entered) = 0
      then (s OR um_upgradable_entered, Quiet, Returned True)
      else (s, Quiet, Returned False))"

definition um_try_unlock_shared_and_lock_upgrade_until :: "count_t \<Rightarrow> count_t \<times> notice \<times> control" where
  "um_try_unlock_shared_and_lock_upgrade_until s =
     (if s AND (um_write_entered OR um_upgradable_entered) \<noteq> 0 then (s, Quiet, Waits Shared_To_Upgrade_Gate2)
      else (s OR um_upgradable_entered, Quiet, Returned True))"

definition um_shared_to_upgrade_gate2 :: "bool \<Rightarrow> count_t \<Rightarrow> count_t \<times> notice \<times> control" where
  "um_shared_to_upgrade_gate2 late s =
     (if s AND (um_write_entered OR um_upgradable_entered) = 0
      then (s OR um_upgradable_entered, Quiet, Returned True)
      else if late then (s, Quiet, Returned False)
      else (s, Quiet, Waits Shared_To_Upgrade_Gate2))"

definition um_unlock_upgrade_and_lock_shared :: "count_t \<Rightarrow> count_t \<times> notice \<times> control" where
  "um_unlock_upgrade_and_lock_shared s = (s AND NOT um_upgradable_entered, Notify_All Gate1, Returned True)"

definition um_upgraded_gate2 :: "count_t \<Rightarrow> count_t \<times> notice \<times> control" where
  "um_upgraded_gate2 s =
     (if s AND um_n_readers \<noteq> 0 then (s, Quiet, Waits Upgraded_Gate2) else (s, Quiet, Returned True))"

definition um_unlock_upgrade_and_lock :: "count_t \<Rightarrow> count_t \<times> notice \<times> control" where
  "um_unlock_upgrade_and_lock s =
     (let num_readers = (s AND um_n_readers) - 1
      in um_upgraded_gate2 ((s AND NOT (um_upgradable_entered OR um_n_readers)) OR (um_write_entered OR num_readers)))"

definition um_try_unlock_upgrade_and_lock :: "count_t \<Rightarrow> count_t \<times> notice \<times> control" where
  "um_try_unlock_upgrade_and_lock s =
     (if s = um_upgradable_entered OR 1 then (um_write_entered, Quiet, Returned True)
      else (s, Quiet, Returned False))"

definition um_try_unlock_upgrade_and_lock_until :: "count_t \<Rightarrow> count_t \<times> notice \<times> control" where
  "um_try_unlock_upgrade_and_lock_until s =
     (if s AND um_n_readers \<noteq> 1 then (s, Quiet, Waits Upgrade_To_Exclusive_Gate2)
      else (um_write_entered, Quiet, Returned True))"

definition um_upgrade_to_exclusive_gate2 :: "bool \<Rightarrow> count_t \<Rightarrow> count_t \<times> notice \<times> control" where
  "um_upgrade_to_exclusive_gate2 late s =
     (if s AND um_n_readers = 1 then (um_write_entered, Quiet, Returned True)
      else if late then (s, Quiet, Returned False)
      else (s, Quiet, Waits Upgrade_To_Exclusive_Gate2))"

definition um_unlock_and_lock_upgrade :: "count_t \<Rightarrow> count_t \<times> notice \<times> control" where
  "um_unlock_and_lock_upgrade s = (um_upgradable_entered OR 1, Notify_All Gate1, Returned True)"

subsubsection \<open>Members for the date-time library\<close>

text \<open>
  Their waits report a timeout by a Boolean instead of \<^verbatim>\<open>cv_status\<close>; the text is otherwise that of
  the members with a deadline, and so are the wait points.
\<close>

definition um_timed_lock :: "count_t \<Rightarrow> count_t \<times> notice \<times> control" where
  "um_timed_lock s =
     (if s AND (um_write_entered OR um_upgradable_entered) \<noteq> 0 then (s, Quiet, Waits Until_Gate1)
      else um_until_enter s)"

definition um_timed_lock_shared :: "count_t \<Rightarrow> count_t \<times> notice \<times> control" where
  "um_timed_lock_shared s =
     (if s AND um_write_entered \<noteq> 0 \<or> s AND um_n_readers = um_n_readers
      then (s, Quiet, Waits Shared_Until_Gate1)
      else (um_add_reader s, Quiet, Returned True))"

definition um_timed_lock_upgrade :: "count_t \<Rightarrow> count_t \<times> notice \<times> control" where
  "um_timed_lock_upgrade s =
     (if s AND (um_write_entered OR um_upgradable_entered) \<noteq> 0 \<or> s AND um_n_readers = um_n_readers
      then (s, Quiet, Waits Upgrade_Until_Gate1)
      else (um_add_upgrade s, Quiet, Returned True))"

subsubsection \<open>The class\<close>

fun um_call :: lock_call where
  "um_call Lock s = um_lock s"
| "um_call Try_Lock s = um_try_lock s"
| "um_call Try_Lock_Until s = um_try_lock_until s"
| "um_call Unlock s = um_unlock s"
| "um_call Lock_Shared s = um_lock_shared s"
| "um_call Try_Lock_Shared s = um_try_lock_shared s"
| "um_call Try_Lock_Shared_Until s = um_try_lock_shared_until s"
| "um_call Unlock_Shared s = um_unlock_shared s"
| "um_call Lock_Upgrade s = um_lock_upgrade s"
| "um_call Try_Lock_Upgrade s = um_try_lock_upgrade s"
| "um_call Try_Lock_Upgrade_Until s = um_try_lock_upgrade_until s"
| "um_call Unlock_Upgrade s = um_unlock_upgrade s"
| "um_call Try_Unlock_Shared_And_Lock s = um_try_unlock_shared_and_lock s"
| "um_call Try_Unlock_Shared_And_Lock_Until s = um_try_unlock_shared_and_lock_until s"
| "um_call Unlock_And_Lock_Shared s = um_unlock_and_lock_shared s"
| "um_call Try_Unlock_Shared_And_Lock_Upgrade s = um_try_unlock_shared_and_lock_upgrade s"
| "um_call Try_Unlock_Shared_And_Lock_Upgrade_Until s = um_try_unlock_shared_and_lock_upgrade_until s"
| "um_call Unlock_Upgrade_And_Lock_Shared s = um_unlock_upgrade_and_lock_shared s"
| "um_call Unlock_Upgrade_And_Lock s = um_unlock_upgrade_and_lock s"
| "um_call Try_Unlock_Upgrade_And_Lock s = um_try_unlock_upgrade_and_lock s"
| "um_call Try_Unlock_Upgrade_And_Lock_Until s = um_try_unlock_upgrade_and_lock_until s"
| "um_call Unlock_And_Lock_Upgrade s = um_unlock_and_lock_upgrade s"

text \<open>The loops without a deadline test their condition again, whatever woke the thread.\<close>

fun um_resume :: lock_resume where
  "um_resume Lock_Gate1 late s = um_lock s"
| "um_resume Lock_Gate2 late s = um_lock_gate2 s"
| "um_resume Shared_Gate1 late s = um_lock_shared s"
| "um_resume Upgrade_Gate1 late s = um_lock_upgrade s"
| "um_resume Upgraded_Gate2 late s = um_upgraded_gate2 s"
| "um_resume Until_Gate1 late s = um_until_gate1 late s"
| "um_resume Until_Gate2 late s = um_until_gate2 late s"
| "um_resume Shared_Until_Gate1 late s = um_shared_until_gate1 late s"
| "um_resume Upgrade_Until_Gate1 late s = um_upgrade_until_gate1 late s"
| "um_resume Shared_To_Exclusive_Gate2 late s = um_shared_to_exclusive_gate2 late s"
| "um_resume Shared_To_Upgrade_Gate2 late s = um_shared_to_upgrade_gate2 late s"
| "um_resume Upgrade_To_Exclusive_Gate2 late s = um_upgrade_to_exclusive_gate2 late s"

subsection \<open>The state word\<close>

definition um_enc :: "bool \<Rightarrow> bool \<Rightarrow> nat \<Rightarrow> count_t" where
  "um_enc w u n = (if w then um_write_entered else 0) OR (if u then um_upgradable_entered else 0) OR of_nat n"

definition um_limit :: nat where
  "um_limit = 2 ^ 30"

definition um_most :: nat where
  "um_most = um_limit - 1"

lemma um_bits:
  "bit um_write_entered k \<longleftrightarrow> k = 31"
  "bit um_upgradable_entered k \<longleftrightarrow> k = 30"
  "bit um_n_readers k \<longleftrightarrow> k < 30"
proof -
  show w: "bit um_write_entered k \<longleftrightarrow> k = 31" for k
    unfolding um_write_entered_def bit_push_bit_iff by (auto simp: bit_1_iff)
  show u: "bit um_upgradable_entered k \<longleftrightarrow> k = 30" for k
    unfolding um_upgradable_entered_def by (auto simp: bit_drop_bit_eq w simp del: drop_bit_of_1)
  show "bit um_n_readers k \<longleftrightarrow> k < 30"
    by (auto simp: um_n_readers_def bit_not_iff bit_or_iff bit_and_iff w u)
qed

lemma reader_bits: "n < um_limit \<Longrightarrow> bit (of_nat n :: count_t) k \<Longrightarrow> k < 30"
  unfolding um_limit_def by (metis bit_of_nat_iff bit_take_bit_iff take_bit_nat_eq_self)

lemma um_enc_bits:
  "bit (um_enc w u n) k \<longleftrightarrow> (w \<and> k = 31) \<or> (u \<and> k = 30) \<or> bit (of_nat n :: count_t) k"
  by (auto simp: um_enc_def bit_or_iff um_bits)

lemmas um_bitwise = bit_and_iff bit_or_iff bit_not_iff um_enc_bits um_bits

lemma small_reader_numbers:
  "n < um_limit \<Longrightarrow> m < um_limit \<Longrightarrow> (of_nat n :: count_t) = of_nat m \<longleftrightarrow> n = m"
  "n < um_limit \<Longrightarrow> m < um_limit \<Longrightarrow> (of_nat n :: count_t) < of_nat m \<longleftrightarrow> n < m"
  by (simp_all add: um_limit_def word_of_nat_eq_iff word_of_nat_less_iff take_bit_nat_eq_self)

lemma um_enc_eq_iff:
  assumes "n < um_limit" "m < um_limit"
  shows "um_enc w u n = um_enc w' u' m \<longleftrightarrow> w = w' \<and> u = u' \<and> n = m"
proof
  assume eq: "um_enc w u n = um_enc w' u' m"
  have bits: "(w \<and> k = 31) \<or> (u \<and> k = 30) \<or> bit (of_nat n :: count_t) k \<longleftrightarrow>
      (w' \<and> k = 31) \<or> (u' \<and> k = 30) \<or> bit (of_nat m :: count_t) k" for k
    using um_enc_bits [of w u n] um_enc_bits [of w' u' m] eq by metis
  have small: "\<not> bit (of_nat n :: count_t) k" "\<not> bit (of_nat m :: count_t) k" if "30 \<le> k" for k
    using reader_bits assms that by (meson not_le)+
  have "w = w'" "u = u'" using bits [of 31] bits [of 30] small [of 31] small [of 30] by auto
  moreover have "(of_nat n :: count_t) = of_nat m"
  proof (rule bit_word_eqI)
    fix k show "bit (of_nat n :: count_t) k = bit (of_nat m :: count_t) k"
      using bits [of k] small [of k] by (cases "30 \<le> k") auto
  qed
  then have "n = m" using assms by (simp add: small_reader_numbers)
  ultimately show "w = w' \<and> u = u' \<and> n = m" by simp
qed simp

lemma um_limits [simp]: "0 < um_limit" "Suc 0 < um_limit" "1 < um_limit"
  by (simp_all add: um_limit_def)

lemma um_constants:
  "um_write_entered = um_enc True False 0"
  "um_upgradable_entered OR 1 = um_enc False True 1"
  "(0::count_t) = um_enc False False 0"
  "(1::count_t) = um_enc False False 1"
  by (simp_all add: um_enc_def)

lemma um_mask_write:
  assumes "n < um_limit"
  shows "um_enc w u n AND (um_write_entered OR um_upgradable_entered) = 0 \<longleftrightarrow> \<not> w \<and> \<not> u"
    and "um_enc w u n AND um_write_entered = 0 \<longleftrightarrow> \<not> w"
proof -
  have "um_enc w u n AND (um_write_entered OR um_upgradable_entered) = um_enc w u 0"
    "um_enc w u n AND um_write_entered = um_enc w False 0"
    by (rule bit_word_eqI; use assms in \<open>auto simp: um_bitwise dest: reader_bits\<close>)+
  then show "um_enc w u n AND (um_write_entered OR um_upgradable_entered) = 0 \<longleftrightarrow> \<not> w \<and> \<not> u"
    "um_enc w u n AND um_write_entered = 0 \<longleftrightarrow> \<not> w"
    by (simp_all add: um_constants(3) um_enc_eq_iff)
qed

lemma um_mask_readers: "n < um_limit \<Longrightarrow> um_enc w u n AND um_n_readers = of_nat n"
  by (rule bit_word_eqI) (auto simp: um_bitwise dest: reader_bits)

lemma um_set_flags:
  "um_enc w u n OR um_write_entered = um_enc True u n"
  "um_enc w u n OR um_upgradable_entered = um_enc w True n"
  by (rule bit_word_eqI, force simp: um_bitwise)+

lemma um_clear_write: "n < um_limit \<Longrightarrow> um_enc w u n AND NOT um_write_entered = um_enc False u n"
  by (rule bit_word_eqI) (auto simp: um_bitwise dest: reader_bits)

lemma um_clear_upgrade: "n < um_limit \<Longrightarrow> um_enc w u n AND NOT um_upgradable_entered = um_enc w False n"
  by (rule bit_word_eqI) (auto simp: um_bitwise dest: reader_bits)

lemma um_set_readers:
  assumes "n < um_limit"
  shows "(um_enc w u n AND NOT um_n_readers) OR of_nat m = um_enc w u m"
    and "(um_enc w u n AND NOT um_n_readers) OR (um_upgradable_entered OR of_nat m) = um_enc w True m"
    and "(um_enc w u n AND NOT (um_upgradable_entered OR um_n_readers)) OR of_nat m = um_enc w False m"
    and "(um_enc w u n AND NOT (um_upgradable_entered OR um_n_readers)) OR (um_write_entered OR of_nat m)
          = um_enc True False m"
  by (rule bit_word_eqI, use assms in \<open>auto simp: um_bitwise dest: reader_bits\<close>)+

lemma um_set_readers_upgrade:
  assumes "n < um_limit"
  shows "(um_enc w u n AND (NOT um_upgradable_entered AND NOT um_n_readers)) OR of_nat m = um_enc w False m"
    and "(um_enc w u n AND (NOT um_upgradable_entered AND NOT um_n_readers)) OR (um_write_entered OR of_nat m)
          = um_enc True False m"
    and "(um_enc w u n AND (NOT um_upgradable_entered AND NOT um_n_readers)) OR um_write_entered = um_enc True False 0"
  using um_set_readers(3,4) [OF assms] um_set_readers(4) [OF assms, of w u 0] by simp_all

lemma um_n_readers_nat: "um_n_readers = of_nat um_most"
proof -
  have "um_n_readers = mask 30" by (rule bit_word_eqI) (auto simp: um_bits bit_mask_iff)
  then show ?thesis by (simp add: mask_eq_exp_minus_1 um_most_def um_limit_def)
qed

lemma reader_arith:
  "(of_nat n :: count_t) + 1 = of_nat (n + 1)"
  "0 < n \<Longrightarrow> (of_nat n :: count_t) - 1 = of_nat (n - 1)"
  by simp_all

lemma um_most_less: "um_most < um_limit" "0 < um_most"
  by (simp_all add: um_most_def um_limit_def)

lemma reader_numbers:
  assumes "n < um_limit"
  shows "(of_nat n :: count_t) = um_n_readers \<longleftrightarrow> n = um_most"
    and "(of_nat n :: count_t) < um_n_readers \<longleftrightarrow> n < um_most"
    and "(of_nat n :: count_t) = um_n_readers - 1 \<longleftrightarrow> n = um_most - 1"
    and "(of_nat n :: count_t) = 0 \<longleftrightarrow> n = 0"
    and "(of_nat n :: count_t) = 1 \<longleftrightarrow> n = 1"
proof -
  have lt: "um_most - 1 < um_limit" using um_most_less by simp
  have pred: "um_n_readers - 1 = of_nat (um_most - 1)"
    using reader_arith(2) [OF um_most_less(2)] by (simp only: um_n_readers_nat)
  show "(of_nat n :: count_t) = um_n_readers \<longleftrightarrow> n = um_most" "(of_nat n :: count_t) < um_n_readers \<longleftrightarrow> n < um_most"
    by (simp_all only: um_n_readers_nat small_reader_numbers [OF assms um_most_less(1)])
  show "(of_nat n :: count_t) = um_n_readers - 1 \<longleftrightarrow> n = um_most - 1"
    unfolding pred by (rule small_reader_numbers(1) [OF assms lt])
  show "(of_nat n :: count_t) = 0 \<longleftrightarrow> n = 0" "(of_nat n :: count_t) = 1 \<longleftrightarrow> n = 1"
    using small_reader_numbers(1) [OF assms, of 0] small_reader_numbers(1) [OF assms, of 1] by simp_all
qed

lemma at_most_limit: "n \<le> um_most \<Longrightarrow> n < um_limit" "n \<le> um_most \<Longrightarrow> n \<noteq> um_most \<Longrightarrow> n + 1 < um_limit"
  by (auto simp: um_most_def um_limit_def)

subsection \<open>The members refine the specification\<close>

lemmas um_members = um_lock_gate2_def um_lock_def um_try_lock_def um_unlock_def um_until_enter_def
  um_try_lock_until_def um_until_gate1_def um_until_gate2_def um_add_reader_def um_lock_shared_def
  um_try_lock_shared_def um_try_lock_shared_until_def um_shared_until_gate1_def um_unlock_shared_def
  um_add_upgrade_def um_lock_upgrade_def um_try_lock_upgrade_def um_try_lock_upgrade_until_def
  um_upgrade_until_gate1_def um_unlock_upgrade_def um_try_unlock_shared_and_lock_def
  um_try_unlock_shared_and_lock_until_def um_shared_to_exclusive_gate2_def um_unlock_and_lock_shared_def
  um_try_unlock_shared_and_lock_upgrade_def um_try_unlock_shared_and_lock_upgrade_until_def
  um_shared_to_upgrade_gate2_def um_unlock_upgrade_and_lock_shared_def um_upgraded_gate2_def
  um_unlock_upgrade_and_lock_def um_try_unlock_upgrade_and_lock_def
  um_try_unlock_upgrade_and_lock_until_def um_upgrade_to_exclusive_gate2_def um_unlock_and_lock_upgrade_def

lemma um_state_tests:
  assumes "n < um_limit"
  shows "um_enc w u n = 0 \<longleftrightarrow> \<not> w \<and> \<not> u \<and> n = 0"
    and "um_enc w u n = 1 \<longleftrightarrow> \<not> w \<and> \<not> u \<and> n = 1"
    and "um_enc w u n = um_upgradable_entered OR 1 \<longleftrightarrow> \<not> w \<and> u \<and> n = 1"
proof -
  show "um_enc w u n = 0 \<longleftrightarrow> \<not> w \<and> \<not> u \<and> n = 0"
    by (subst um_constants(3)) (simp add: um_enc_eq_iff assms)
  show "um_enc w u n = 1 \<longleftrightarrow> \<not> w \<and> \<not> u \<and> n = 1"
    by (subst um_constants(4)) (simp add: um_enc_eq_iff assms)
  show "um_enc w u n = um_upgradable_entered OR 1 \<longleftrightarrow> \<not> w \<and> u \<and> n = 1"
    by (subst um_constants(2)) (simp add: um_enc_eq_iff assms)
qed

lemma um_state_results:
  "um_enc True False 0 = um_write_entered" "um_enc False True (Suc 0) = um_upgradable_entered OR 1"
  "um_enc False False 0 = 0" "um_enc False False (Suc 0) = 1"
  using um_constants by simp_all

lemma um_reader_step: "(of_nat n + 1 :: count_t) = of_nat (Suc n)" "(of_nat (Suc n) - 1 :: count_t) = of_nat n"
  by simp_all

lemma um_most_pred: "n = um_most - Suc 0 \<longleftrightarrow> Suc n = um_most"
  using um_most_less(2) by auto

lemmas um_word_rules = um_mask_write um_mask_readers um_set_flags um_clear_write um_clear_upgrade
  um_set_readers um_set_readers_upgrade reader_numbers um_state_tests um_reader_step um_most_pred

lemma um_call_refines:
  assumes step: "may_step um_most (Running (before_op f)) w u n"
  shows "um_call f (um_enc w u n) = encode um_enc (spec_call um_most f w u n)"
proof -
  have n: "n \<le> um_most" using assms by (simp add: may_step_def)
  then have lim: "n < um_limit" by (rule at_most_limit)
  show ?thesis
  proof (cases "\<exists>m. n = Suc m \<and> (f = Unlock_Shared \<or> f = Unlock_Upgrade \<or> f = Unlock_Upgrade_And_Lock)")
    case True
    then obtain m where m: "n = Suc m" and f: "f = Unlock_Shared \<or> f = Unlock_Upgrade \<or> f = Unlock_Upgrade_And_Lock"
      by blast
    have "m < um_limit" "Suc m < um_limit" using lim m by simp_all
    then show ?thesis
      using f m
      by (elim disjE)
        (simp_all add: um_members spec_members um_word_rules Let_def del: of_nat_Suc)
  next
    case False
    moreover have "n \<noteq> 0" if "f = Unlock_Shared \<or> f = Unlock_Upgrade \<or> f = Unlock_Upgrade_And_Lock"
      using step that by (auto simp: may_step_def reads_def)
    ultimately have "f \<noteq> Unlock_Shared \<and> f \<noteq> Unlock_Upgrade \<and> f \<noteq> Unlock_Upgrade_And_Lock"
      by (metis not0_implies_Suc)
    then show ?thesis
      using step lim
      by (cases f)
        (auto simp: um_members spec_members um_word_rules Let_def um_state_results may_step_def upgrades_def
          reads_def simp del: of_nat_Suc)
  qed
qed

lemma um_resume_refines:
  assumes step: "may_step um_most (Woken p late) w u n"
  shows "um_resume p late (um_enc w u n) = encode um_enc (spec_resume um_most p late w u n)"
proof -
  have n: "n \<le> um_most" using assms by (simp add: may_step_def)
  then have lim: "n < um_limit" by (rule at_most_limit)
  then show ?thesis
    using step n
    by (cases p)
      (auto simp: um_members spec_members um_word_rules Let_def um_state_results may_step_def upgrades_def
        reads_def simp del: of_nat_Suc)
qed

interpretation um: gated_lock um_call um_resume "\<lambda>_. True" um_enc um_most True
  by unfold_locales
    (use um_state_results(3) um_most_less um_call_refines um_resume_refines in auto)

interpretation um_untimed: untimed_lock um_call um_resume "\<lambda>f. \<not> timed_op f" um_enc um_most True
  by unfold_locales
    (use um_state_results(3) um_most_less um_call_refines um_resume_refines in auto)

end

