(* ===== verification/Shared_Mutex.thy ===== *)
theory Shared_Mutex
  imports Gated_Lock
begin

text \<open>
  \<^verbatim>\<open>boost::thread_v2::shared_mutex\<close> (\<^verbatim>\<open>thread/v2/shared_mutex.hpp\<close>), the lock without upgrade
  ownership: one bit of the state word for the writer, 31 for the number of readers. The members are
  laid out as those of \<^verbatim>\<open>upgrade_mutex\<close> in the theory \<open>Upgrade_Mutex\<close>; the class refines the same
  specification, with its own limit on the number of readers.
\<close>

unbundle bit_operations_syntax

subsection \<open>Definitions\<close>

definition sm_write_entered :: count_t where
  "sm_write_entered = push_bit 31 1"

definition sm_n_readers :: count_t where
  "sm_n_readers = NOT sm_write_entered"

definition sm_new :: count_t where
  "sm_new = 0"

definition sm_lock_gate2 :: "count_t \<Rightarrow> count_t \<times> notice \<times> control" where
  "sm_lock_gate2 s = (if s AND sm_n_readers \<noteq> 0 then (s, Quiet, Waits Lock_Gate2) else (s, Quiet, Returned True))"

definition sm_lock :: "count_t \<Rightarrow> count_t \<times> notice \<times> control" where
  "sm_lock s =
     (if s AND sm_write_entered \<noteq> 0 then (s, Quiet, Waits Lock_Gate1)
      else sm_lock_gate2 (s OR sm_write_entered))"

definition sm_try_lock :: "count_t \<Rightarrow> count_t \<times> notice \<times> control" where
  "sm_try_lock s =
     (if s = 0 then (sm_write_entered, Quiet, Returned True) else (s, Quiet, Returned False))"

definition sm_unlock :: "count_t \<Rightarrow> count_t \<times> notice \<times> control" where
  "sm_unlock s = (0, Notify_All Gate1, Returned True)"

definition sm_until_enter :: "count_t \<Rightarrow> count_t \<times> notice \<times> control" where
  "sm_until_enter s =
     (let s1 = s OR sm_write_entered in
      if s1 AND sm_n_readers \<noteq> 0 then (s1, Quiet, Waits Until_Gate2) else (s1, Quiet, Returned True))"

definition sm_try_lock_until :: "count_t \<Rightarrow> count_t \<times> notice \<times> control" where
  "sm_try_lock_until s =
     (if s AND sm_write_entered \<noteq> 0 then (s, Quiet, Waits Until_Gate1) else sm_until_enter s)"

definition sm_until_gate1 :: "bool \<Rightarrow> count_t \<Rightarrow> count_t \<times> notice \<times> control" where
  "sm_until_gate1 late s =
     (if s AND sm_write_entered = 0 then sm_until_enter s
      else if late then (s, Quiet, Returned False)
      else (s, Quiet, Waits Until_Gate1))"

definition sm_until_gate2 :: "bool \<Rightarrow> count_t \<Rightarrow> count_t \<times> notice \<times> control" where
  "sm_until_gate2 late s =
     (if s AND sm_n_readers = 0 then (s, Quiet, Returned True)
      else if late then (s AND NOT sm_write_entered, Quiet, Returned False)
      else (s, Quiet, Waits Until_Gate2))"

definition sm_add_reader :: "count_t \<Rightarrow> count_t" where
  "sm_add_reader s = (let num_readers = (s AND sm_n_readers) + 1 in (s AND NOT sm_n_readers) OR num_readers)"

definition sm_lock_shared :: "count_t \<Rightarrow> count_t \<times> notice \<times> control" where
  "sm_lock_shared s =
     (if s AND sm_write_entered \<noteq> 0 \<or> s AND sm_n_readers = sm_n_readers then (s, Quiet, Waits Shared_Gate1)
      else (sm_add_reader s, Quiet, Returned True))"

definition sm_try_lock_shared :: "count_t \<Rightarrow> count_t \<times> notice \<times> control" where
  "sm_try_lock_shared s =
     (let num_readers = s AND sm_n_readers in
      if s AND sm_write_entered = 0 \<and> num_readers \<noteq> sm_n_readers
      then ((s AND NOT sm_n_readers) OR (num_readers + 1), Quiet, Returned True)
      else (s, Quiet, Returned False))"

definition sm_try_lock_shared_until :: "count_t \<Rightarrow> count_t \<times> notice \<times> control" where
  "sm_try_lock_shared_until s =
     (if s AND sm_write_entered \<noteq> 0 \<or> s AND sm_n_readers = sm_n_readers
      then (s, Quiet, Waits Shared_Until_Gate1)
      else (sm_add_reader s, Quiet, Returned True))"

definition sm_shared_until_gate1 :: "bool \<Rightarrow> count_t \<Rightarrow> count_t \<times> notice \<times> control" where
  "sm_shared_until_gate1 late s =
     (if s AND sm_write_entered = 0 \<and> s AND sm_n_readers < sm_n_readers
      then (sm_add_reader s, Quiet, Returned True)
      else if late then (s, Quiet, Returned False)
      else (s, Quiet, Waits Shared_Until_Gate1))"

definition sm_unlock_shared :: "count_t \<Rightarrow> count_t \<times> notice \<times> control" where
  "sm_unlock_shared s =
     (let num_readers = (s AND sm_n_readers) - 1;
          s1 = (s AND NOT sm_n_readers) OR num_readers
      in if s1 AND sm_write_entered \<noteq> 0
         then (s1, if num_readers = 0 then Notify_One Gate2 else Quiet, Returned True)
         else (s1, if num_readers = sm_n_readers - 1 then Notify_One Gate1 else Quiet, Returned True))"

text \<open>
  The members for the date-time library. Their waits report a timeout by a Boolean instead of
  \<^verbatim>\<open>cv_status\<close>; \<^verbatim>\<open>timed_lock\<close> is otherwise the text of \<^verbatim>\<open>try_lock_until\<close>. The body of
  \<^verbatim>\<open>timed_lock_shared\<close> is that of \<^verbatim>\<open>timed_lock\<close>, the exclusive lock: it sets the writer's bit and
  waits for the readers to leave.
\<close>

definition sm_timed_lock :: "count_t \<Rightarrow> count_t \<times> notice \<times> control" where
  "sm_timed_lock s =
     (if s AND sm_write_entered \<noteq> 0 then (s, Quiet, Waits Until_Gate1) else sm_until_enter s)"

definition sm_timed_lock_shared :: "count_t \<Rightarrow> count_t \<times> notice \<times> control" where
  "sm_timed_lock_shared s =
     (if s AND sm_write_entered \<noteq> 0 then (s, Quiet, Waits Until_Gate1)
      else
        (let s1 = s OR sm_write_entered in
         if s1 AND sm_n_readers \<noteq> 0 then (s1, Quiet, Waits Until_Gate2) else (s1, Quiet, Returned True)))"

fun sm_member :: "lock_op \<Rightarrow> bool" where
  "sm_member Lock = True"
| "sm_member Try_Lock = True"
| "sm_member Try_Lock_Until = True"
| "sm_member Unlock = True"
| "sm_member Lock_Shared = True"
| "sm_member Try_Lock_Shared = True"
| "sm_member Try_Lock_Shared_Until = True"
| "sm_member Unlock_Shared = True"
| "sm_member _ = False"

text \<open>The operations of the class; the others (\<^term>\<open>sm_member f = False\<close>) are not declared by it.\<close>

fun sm_call :: lock_call where
  "sm_call Lock s = sm_lock s"
| "sm_call Try_Lock s = sm_try_lock s"
| "sm_call Try_Lock_Until s = sm_try_lock_until s"
| "sm_call Unlock s = sm_unlock s"
| "sm_call Lock_Shared s = sm_lock_shared s"
| "sm_call Try_Lock_Shared s = sm_try_lock_shared s"
| "sm_call Try_Lock_Shared_Until s = sm_try_lock_shared_until s"
| "sm_call Unlock_Shared s = sm_unlock_shared s"
| "sm_call _ s = (s, Quiet, Returned False)"

fun sm_resume :: lock_resume where
  "sm_resume Lock_Gate1 late s = sm_lock s"
| "sm_resume Lock_Gate2 late s = sm_lock_gate2 s"
| "sm_resume Shared_Gate1 late s = sm_lock_shared s"
| "sm_resume Until_Gate1 late s = sm_until_gate1 late s"
| "sm_resume Until_Gate2 late s = sm_until_gate2 late s"
| "sm_resume Shared_Until_Gate1 late s = sm_shared_until_gate1 late s"
| "sm_resume _ late s = (s, Quiet, Returned False)"

subsection \<open>The state word\<close>

definition sm_enc :: "bool \<Rightarrow> bool \<Rightarrow> nat \<Rightarrow> count_t" where
  "sm_enc w u n = (if w then sm_write_entered else 0) OR of_nat n"

definition sm_limit :: nat where
  "sm_limit = 2 ^ 31"

definition sm_most :: nat where
  "sm_most = sm_limit - 1"

lemma sm_bits: "bit sm_write_entered k \<longleftrightarrow> k = 31" "bit sm_n_readers k \<longleftrightarrow> k < 31"
proof -
  show w: "bit sm_write_entered k \<longleftrightarrow> k = 31" for k
    unfolding sm_write_entered_def bit_push_bit_iff by (auto simp: bit_1_iff)
  show "bit sm_n_readers k \<longleftrightarrow> k < 31"
    by (auto simp: sm_n_readers_def bit_not_iff w)
qed

lemma sm_reader_bits: "n < sm_limit \<Longrightarrow> bit (of_nat n :: count_t) k \<Longrightarrow> k < 31"
  unfolding sm_limit_def by (metis bit_of_nat_iff bit_take_bit_iff take_bit_nat_eq_self)

lemma sm_enc_bits: "bit (sm_enc w u n) k \<longleftrightarrow> (w \<and> k = 31) \<or> bit (of_nat n :: count_t) k"
  by (auto simp: sm_enc_def bit_or_iff sm_bits)

lemmas sm_bitwise = bit_and_iff bit_or_iff bit_not_iff sm_enc_bits sm_bits

lemma sm_small_numbers:
  "n < sm_limit \<Longrightarrow> m < sm_limit \<Longrightarrow> (of_nat n :: count_t) = of_nat m \<longleftrightarrow> n = m"
  "n < sm_limit \<Longrightarrow> m < sm_limit \<Longrightarrow> (of_nat n :: count_t) < of_nat m \<longleftrightarrow> n < m"
  by (simp_all add: sm_limit_def word_of_nat_eq_iff word_of_nat_less_iff take_bit_nat_eq_self)

lemma sm_limits [simp]: "0 < sm_limit" "Suc 0 < sm_limit"
  by (simp_all add: sm_limit_def)

lemma sm_most_less: "sm_most < sm_limit" "0 < sm_most"
  by (simp_all add: sm_most_def sm_limit_def)

lemma sm_at_most: "n \<le> sm_most \<Longrightarrow> n < sm_limit"
  using sm_most_less(1) by simp

lemma sm_mask_readers: "n < sm_limit \<Longrightarrow> sm_enc w u n AND sm_n_readers = of_nat n"
  by (rule bit_word_eqI) (auto simp: sm_bitwise dest: sm_reader_bits)

lemma sm_mask_write: "n < sm_limit \<Longrightarrow> sm_enc w u n AND sm_write_entered = 0 \<longleftrightarrow> \<not> w"
proof -
  assume n: "n < sm_limit"
  have "sm_enc w u n AND sm_write_entered = (if w then sm_write_entered else 0)"
    by (rule bit_word_eqI) (use n in \<open>auto simp: sm_bitwise dest: sm_reader_bits\<close>)
  moreover have "sm_write_entered \<noteq> 0" using sm_bits(1) [of 31] by auto
  ultimately show ?thesis by simp
qed

lemma sm_set_flags: "sm_enc w u n OR sm_write_entered = sm_enc True u n"
  by (rule bit_word_eqI, force simp: sm_bitwise)

lemma sm_clear_write: "n < sm_limit \<Longrightarrow> sm_enc w u n AND NOT sm_write_entered = sm_enc False u n"
  by (rule bit_word_eqI) (auto simp: sm_bitwise dest: sm_reader_bits)

lemma sm_set_readers: "n < sm_limit \<Longrightarrow> (sm_enc w u n AND NOT sm_n_readers) OR of_nat m = sm_enc w u m"
  by (rule bit_word_eqI) (auto simp: sm_bitwise dest: sm_reader_bits)

lemma sm_n_readers_nat: "sm_n_readers = of_nat sm_most"
proof -
  have "sm_n_readers = mask 31" by (rule bit_word_eqI) (auto simp: sm_bits bit_mask_iff)
  then show ?thesis by (simp add: mask_eq_exp_minus_1 sm_most_def sm_limit_def)
qed

lemma sm_reader_numbers:
  assumes "n < sm_limit"
  shows "(of_nat n :: count_t) = sm_n_readers \<longleftrightarrow> n = sm_most"
    and "(of_nat n :: count_t) < sm_n_readers \<longleftrightarrow> n < sm_most"
    and "(of_nat n :: count_t) = sm_n_readers - 1 \<longleftrightarrow> Suc n = sm_most"
    and "(of_nat n :: count_t) = 0 \<longleftrightarrow> n = 0"
proof -
  have pred: "sm_n_readers - 1 = of_nat (sm_most - 1)"
    using sm_most_less(2) by (simp add: sm_n_readers_nat)
  show "(of_nat n :: count_t) = sm_n_readers \<longleftrightarrow> n = sm_most" "(of_nat n :: count_t) < sm_n_readers \<longleftrightarrow> n < sm_most"
    by (simp_all only: sm_n_readers_nat sm_small_numbers [OF assms sm_most_less(1)])
  show "(of_nat n :: count_t) = sm_n_readers - 1 \<longleftrightarrow> Suc n = sm_most"
    unfolding pred using sm_small_numbers(1) [OF assms, of "sm_most - 1"] sm_most_less by auto
  show "(of_nat n :: count_t) = 0 \<longleftrightarrow> n = 0"
    using sm_small_numbers(1) [OF assms, of 0] by simp
qed

lemma sm_states: "sm_enc True False 0 = sm_write_entered" "sm_enc False u 0 = 0"
  by (simp_all add: sm_enc_def)

lemma sm_zero_iff: "n < sm_limit \<Longrightarrow> sm_enc w u n = 0 \<longleftrightarrow> \<not> w \<and> n = 0"
  using sm_mask_write [of n w u] sm_mask_readers [of n w u] sm_reader_numbers(4) [of n]
  by (auto simp: sm_states)

lemma sm_reader_step: "(of_nat n + 1 :: count_t) = of_nat (Suc n)" "(of_nat (Suc n) - 1 :: count_t) = of_nat n"
  by simp_all

lemmas sm_word_rules = sm_mask_write sm_mask_readers sm_set_flags sm_clear_write sm_set_readers
  sm_reader_numbers sm_zero_iff sm_reader_step

subsection \<open>The members refine the specification\<close>

lemmas sm_members = sm_lock_gate2_def sm_lock_def sm_try_lock_def sm_unlock_def sm_until_enter_def
  sm_try_lock_until_def sm_until_gate1_def sm_until_gate2_def sm_add_reader_def sm_lock_shared_def
  sm_try_lock_shared_def sm_try_lock_shared_until_def sm_shared_until_gate1_def sm_unlock_shared_def

lemma sm_unlock_shared_refines:
  "Suc m < sm_limit \<Longrightarrow>
     sm_unlock_shared (sm_enc w u (Suc m)) = encode sm_enc (spec_call sm_most Unlock_Shared w u (Suc m))"
  by (simp add: sm_members sm_word_rules Let_def del: of_nat_Suc)

lemma sm_call_refines:
  assumes "sm_member f" and step: "may_step sm_most (Running (before_op f)) w False n"
  shows "sm_call f (sm_enc w False n) = encode sm_enc (spec_call sm_most f w False n)"
proof (cases "f = Unlock_Shared")
  case True
  then obtain m where m: "n = Suc m" using step by (cases n) (auto simp: may_step_def reads_def)
  have "n \<le> sm_most" using step by (simp add: may_step_def)
  then have "Suc m < sm_limit" using sm_at_most m by simp
  then show ?thesis using True m sm_unlock_shared_refines by simp
next
  case False
  have n: "n \<le> sm_most" using step by (simp add: may_step_def)
  then have "n < sm_limit" by (rule sm_at_most)
  then show ?thesis
    using False assms n
    by (cases f)
      (auto simp: sm_members spec_members sm_word_rules Let_def sm_states may_step_def reads_def
        simp del: of_nat_Suc)
qed

lemma sm_resume_refines:
  assumes "sm_member (op_at p)" and step: "may_step sm_most (Woken p late) w False n"
  shows "sm_resume p late (sm_enc w False n) = encode sm_enc (spec_resume sm_most p late w False n)"
proof -
  have n: "n \<le> sm_most" using step by (simp add: may_step_def)
  then have "n < sm_limit" by (rule sm_at_most)
  then show ?thesis
    using assms n
    by (cases p)
      (auto simp: sm_members spec_members sm_word_rules Let_def sm_states may_step_def reads_def
        simp del: of_nat_Suc)
qed

lemma sm_call_implements:
  "sm_member f \<Longrightarrow> may_step sm_most (Running (before_op f)) w u n \<Longrightarrow> (u \<Longrightarrow> False) \<Longrightarrow>
     sm_call f (sm_enc w u n) = encode sm_enc (spec_call sm_most f w u n)"
  using sm_call_refines by (cases u) auto

lemma sm_resume_implements:
  "sm_member (op_at p) \<Longrightarrow> may_step sm_most (Woken p late) w u n \<Longrightarrow> (u \<Longrightarrow> False) \<Longrightarrow>
     sm_resume p late (sm_enc w u n) = encode sm_enc (spec_resume sm_most p late w u n)"
  using sm_resume_refines by (cases u) auto

lemma sm_member_modes: "sm_member f \<Longrightarrow> before_op f \<noteq> Upgrade \<and> after_op f \<noteq> Upgrade"
  by (cases f) simp_all

interpretation sm: gated_lock sm_call sm_resume sm_member sm_enc sm_most False
  by unfold_locales (auto simp: sm_states sm_most_less dest: sm_member_modes intro: sm_call_implements sm_resume_implements)

interpretation sm_untimed: untimed_lock sm_call sm_resume "\<lambda>f. sm_member f \<and> \<not> timed_op f" sm_enc sm_most False
  by unfold_locales (auto simp: sm_states sm_most_less dest: sm_member_modes intro: sm_call_implements sm_resume_implements)

end
