(* ===== verification/Mutex_Properties.thy ===== *)
theory Mutex_Properties
  imports Upgrade_Mutex Shared_Mutex
begin

text \<open>
  What the reader-writer locks guarantee for every interleaving of any number of threads, and where
  they do not do what they mean to.
\<close>

unbundle bit_operations_syntax

text \<open>C4 Mutual exclusion of \<^verbatim>\<open>upgrade_mutex\<close>, for every interleaving of all its members, timeouts and
  spurious wake-ups included: while a thread owns the lock exclusively no other thread owns it in any
  mode, and while a thread has upgrade ownership the others have at most shared ownership.\<close>

theorem upgrade_mutex_exclusion:
  assumes "lock_reach um_call um_resume (\<lambda>_. True) k \<sigma>" and "i < k" and "j < k" and "i \<noteq> j"
  shows "(holds (lk_threads \<sigma> ! i) = Exclusive \<longrightarrow> holds (lk_threads \<sigma> ! j) = Unowned)
       \<and> (holds (lk_threads \<sigma> ! i) = Upgrade \<longrightarrow> holds (lk_threads \<sigma> ! j) \<in> {Unowned, Shared})"
  using um.exclusive_alone [OF assms] um.upgrade_alone [OF assms] by auto

lemma reach_call:
  "lock_reach call resume ok k \<lparr>lk_state = s, lk_threads = ts\<rparr> \<Longrightarrow> call f s = (s', nt, c) \<Longrightarrow> ok f \<Longrightarrow>
   i < length ts \<Longrightarrow> ts ! i = Running (before_op f) \<Longrightarrow> notified nt (ts[i := next_phase f c]) us \<Longrightarrow>
   lock_reach call resume ok k \<lparr>lk_state = s', lk_threads = us\<rparr>"
  by (rule lock_reach.step) (auto intro: lock_step.calls)

lemma reach_resume:
  "lock_reach call resume ok k \<lparr>lk_state = s, lk_threads = ts\<rparr> \<Longrightarrow> resume p late s = (s', nt, c) \<Longrightarrow>
   i < length ts \<Longrightarrow> ts ! i = Woken p late \<Longrightarrow> notified nt (ts[i := next_phase (op_at p) c]) us \<Longrightarrow>
   lock_reach call resume ok k \<lparr>lk_state = s', lk_threads = us\<rparr>"
  by (rule lock_reach.step) (auto intro: lock_step.resumes)

lemma reach_timeout:
  "lock_reach call resume ok k \<lparr>lk_state = s, lk_threads = ts\<rparr> \<Longrightarrow> i < length ts \<Longrightarrow> ts ! i = Blocked p \<Longrightarrow>
   timed_op (op_at p) \<Longrightarrow> lock_reach call resume ok k \<lparr>lk_state = s, lk_threads = ts[i := Woken p True]\<rparr>"
  by (rule lock_reach.step) (auto intro: lock_step.timeout)

definition upgraded_system :: lock_system where
  "upgraded_system = \<lparr>lk_state = um_upgradable_entered OR 1, lk_threads = [Running Upgrade, Running Unowned]\<rparr>"

lemma um_reach_upgrade: "lock_reach um_call um_resume (\<lambda>_. True) 2 upgraded_system"
proof -
  have "lock_reach um_call um_resume (\<lambda>_. True) 2 \<lparr>lk_state = 0, lk_threads = [Running Unowned, Running Unowned]\<rparr>"
    using lock_reach.start [of um_call um_resume "\<lambda>_. True" 2] by (simp add: lock_start_def numeral_2_eq_2)
  moreover have "um_call Lock_Upgrade 0 = (um_upgradable_entered OR 1, Quiet, Returned True)" by code_simp
  ultimately show ?thesis
    unfolding upgraded_system_def by (rule reach_call [where i = 0]) (simp_all add: notified.nobody)
qed

theorem upgrade_mutex_exclusion_witness:
  "holds (lk_threads upgraded_system ! 0) = Upgrade \<and> holds (lk_threads upgraded_system ! 1) \<in> {Unowned, Shared}"
  using upgrade_mutex_exclusion [OF um_reach_upgrade, of 0 1] by (simp add: upgraded_system_def)

text \<open>C12 The state word of \<^verbatim>\<open>upgrade_mutex\<close> always accounts for the threads: its low 30 bits are the
  number of threads with shared or upgrade ownership (the count never overflows into the flags), the
  upgrade bit is set exactly when a thread has upgrade ownership, and the write bit exactly when a
  thread has entered as a writer, of which there is at most one.\<close>

theorem upgrade_mutex_state_word:
  assumes "lock_reach um_call um_resume (\<lambda>_. True) k \<sigma>"
  shows "unat (lk_state \<sigma> AND um_n_readers) = num_of reads (lk_threads \<sigma>)
       \<and> num_of reads (lk_threads \<sigma>) < 2 ^ 30
       \<and> (lk_state \<sigma> AND um_upgradable_entered \<noteq> 0 \<longleftrightarrow> num_of upgrades (lk_threads \<sigma>) = 1)
       \<and> (lk_state \<sigma> AND um_write_entered \<noteq> 0 \<longleftrightarrow> num_of entered (lk_threads \<sigma>) = 1)
       \<and> num_of entered (lk_threads \<sigma>) + num_of upgrades (lk_threads \<sigma>) \<le> 1"
proof -
  let ?w = "num_of entered (lk_threads \<sigma>)" and ?u = "num_of upgrades (lk_threads \<sigma>)" and ?n = "num_of reads (lk_threads \<sigma>)"
  have s: "lk_state \<sigma> = um_enc (?w = 1) (?u = 1) ?n" and most: "?n \<le> um_most"
    using um.state_word [OF assms] by auto
  have lim: "?n < um_limit" using most by (rule at_most_limit)
  have one: "?w + ?u \<le> 1" using um.reach_ok [OF assms] by (simp add: um.sys_ok_def lock_inv_def Let_def)
  have "unat (of_nat ?n :: count_t) = ?n" using lim by (simp add: unat_of_nat um_limit_def)
  moreover have "um_enc (?w = 1) (?u = 1) ?n AND um_upgradable_entered = um_enc False (?u = 1) 0"
    by (rule bit_word_eqI) (use lim in \<open>auto simp: um_bitwise dest: reader_bits\<close>)
  ultimately show ?thesis
    using lim one by (auto simp: s um_mask_readers um_mask_write um_state_tests um_limit_def)
qed

theorem upgrade_mutex_state_word_witness:
  "unat (lk_state upgraded_system AND um_n_readers) = 1"
  using upgrade_mutex_state_word [OF um_reach_upgrade]
  by (simp add: upgraded_system_def num_of_def reads_def)

text \<open>C13 Every member of \<^verbatim>\<open>upgrade_mutex\<close>, from its call and from each of its wait points, does on the
  state word what the specification of the member does on what the word stands for: the same result
  or wait, the same notification, the same change of the flags and of the number of readers.\<close>

theorem upgrade_mutex_refines_spec:
  "(may_step um_most (Running (before_op f)) w u n \<longrightarrow>
      um_call f (um_enc w u n) = encode um_enc (spec_call um_most f w u n))
   \<and> (may_step um_most (Woken p late) w u n \<longrightarrow>
      um_resume p late (um_enc w u n) = encode um_enc (spec_resume um_most p late w u n))"
  using um_call_refines um_resume_refines by blast

theorem upgrade_mutex_refines_spec_witness:
  "um_call Unlock_Upgrade_And_Lock (um_enc False True 3) = (um_enc True False 2, Quiet, Waits Upgraded_Gate2)"
proof -
  have "may_step um_most (Running (before_op Unlock_Upgrade_And_Lock)) False True 3"
    by (simp add: may_step_def upgrades_def reads_def um_most_def um_limit_def)
  then show ?thesis
    using upgrade_mutex_refines_spec [of Unlock_Upgrade_And_Lock False True 3 Lock_Gate1 False]
    by (simp add: enter_writer_def)
qed

text \<open>C11 Without deadlines no wake-up of \<^verbatim>\<open>upgrade_mutex\<close> is lost: as long as the threads (fewer than
  the reader count can hold) use only members without a timeout, it never happens that threads are
  blocked while nobody owns the lock and nobody is on the way back from a wait.\<close>

theorem upgrade_mutex_no_deadlock:
  assumes "lock_reach um_call um_resume (\<lambda>f. \<not> timed_op f) k \<sigma>" and "k < 2 ^ 30 - 1"
    and "\<forall>ph \<in> set (lk_threads \<sigma>). ph = Running Unowned \<or> (\<exists>p. ph = Blocked p)"
  shows "lk_threads \<sigma> = replicate k (Running Unowned)"
  using um_untimed.no_deadlock [OF assms(1)] assms(2,3) by (simp add: um_most_def um_limit_def)

theorem upgrade_mutex_no_deadlock_witness:
  "lk_threads (lock_start 2) = replicate 2 (Running Unowned)"
  by (rule upgrade_mutex_no_deadlock [OF lock_reach.start]) (simp_all add: lock_start_def)

text \<open>With deadlines that is not so: when \<^verbatim>\<open>try_lock_until\<close> times out waiting for the readers it clears
  the write bit without notifying the threads that the bit has kept waiting. In the state reached here
  the lock is free and both other threads have returned, while the third is still blocked in
  \<^verbatim>\<open>lock_shared\<close>: it goes on only after a spurious wake-up or when another thread takes the lock and unlocks it.\<close>

lemma upgrade_mutex_timeout_loses_wakeup:
  "lock_reach um_call um_resume (\<lambda>_. True) 3
     \<lparr>lk_state = 0, lk_threads = [Running Unowned, Running Unowned, Blocked Shared_Gate1]\<rparr>"
proof -
  let ?r = "lock_reach um_call um_resume (\<lambda>_. True) 3"
  have "?r \<lparr>lk_state = 0, lk_threads = [Running Unowned, Running Unowned, Running Unowned]\<rparr>"
    using lock_reach.start [of um_call um_resume "\<lambda>_. True" 3] by (simp add: lock_start_def numeral_3_eq_3)
  moreover have "um_call Lock_Shared 0 = (1, Quiet, Returned True)" by code_simp
  ultimately have "?r \<lparr>lk_state = 1, lk_threads = [Running Shared, Running Unowned, Running Unowned]\<rparr>"
    by (rule reach_call [where i = 0]) (simp_all add: notified.nobody)
  moreover have "um_call Try_Lock_Until 1 = (um_write_entered OR 1, Quiet, Waits Until_Gate2)" by code_simp
  ultimately have "?r \<lparr>lk_state = um_write_entered OR 1,
      lk_threads = [Running Shared, Blocked Until_Gate2, Running Unowned]\<rparr>"
    by (rule reach_call [where i = 1]) (simp_all add: notified.nobody)
  moreover have "um_call Lock_Shared (um_write_entered OR 1) = (um_write_entered OR 1, Quiet, Waits Shared_Gate1)"
    by code_simp
  ultimately have "?r \<lparr>lk_state = um_write_entered OR 1,
      lk_threads = [Running Shared, Blocked Until_Gate2, Blocked Shared_Gate1]\<rparr>"
    by (rule reach_call [where i = 2]) (simp_all add: notified.nobody)
  then have "?r \<lparr>lk_state = um_write_entered OR 1,
      lk_threads = [Running Shared, Woken Until_Gate2 True, Blocked Shared_Gate1]\<rparr>"
    using reach_timeout [where i = 1 and p = Until_Gate2] by fastforce
  moreover have "um_resume Until_Gate2 True (um_write_entered OR 1) = (1, Quiet, Returned False)" by code_simp
  ultimately have "?r \<lparr>lk_state = 1, lk_threads = [Running Shared, Running Unowned, Blocked Shared_Gate1]\<rparr>"
    by (rule reach_resume [where i = 1]) (simp_all add: notified.nobody)
  moreover have "um_call Unlock_Shared 1 = (0, Quiet, Returned True)" by code_simp
  ultimately show ?thesis
    by (rule reach_call [where i = 0]) (simp_all add: notified.nobody)
qed

text \<open>C25 A thread that waits to convert its shared or upgrade ownership
  (\<^verbatim>\<open>try_unlock_shared_and_lock_until\<close>, \<^verbatim>\<open>try_unlock_shared_and_lock_upgrade_until\<close>,
  \<^verbatim>\<open>try_unlock_upgrade_and_lock_until\<close>) waits at the second gate, but no member called by another
  thread ever notifies that gate while it is there: the conversion is tried again only at its deadline
  or after a spurious wake-up.\<close>

theorem upgrade_mutex_conversion_unnotified:
  assumes "lock_reach um_call um_resume (\<lambda>_. True) k \<sigma>" and "i < k" and "j < k" and "i \<noteq> j"
    and "lk_threads \<sigma> ! i = Running (before_op f)" and "um_call f (lk_state \<sigma>) = (s', nt, c)"
    and "lk_threads \<sigma> ! j = Blocked p" and "point_holds p \<noteq> Unowned"
  shows "gate_at p = Gate2 \<and> nt \<noteq> Notify_One Gate2 \<and> nt \<noteq> Notify_All Gate2"
proof -
  let ?ts = "lk_threads \<sigma>"
  let ?w = "num_of entered ?ts = 1" and ?u = "num_of upgrades ?ts = 1" and ?n = "num_of reads ?ts"
  have len: "length ?ts = k" and inv: "lock_inv um_enc um_most \<sigma>"
    using um.reach_ok [OF assms(1)] by (auto simp: um.sys_ok_def)
  have may: "may_step um_most (Running (before_op f)) ?w ?u ?n"
    using lock_inv_may_step [OF inv, of i] assms(2,5) len by simp
  have "lk_state \<sigma> = um_enc ?w ?u ?n" using um.state_word [OF assms(1)] by simp
  then obtain v where sp: "spec_call um_most f ?w ?u ?n = (v, nt, c)"
    using um_call_refines [OF may] assms(6)
    by (cases "spec_call um_most f ?w ?u ?n") (auto simp: encode_def split: prod.splits)
  have rd: "reads (?ts ! j)" "gate_at p = Gate2" using assms(7,8) by (cases p; simp add: reads_def)+
  have "2 \<le> ?n" if "before_op f = Shared"
    using num_of_two [of i ?ts j reads] assms(2-5) that rd len by (simp add: reads_def)
  then have "nt \<noteq> Notify_One Gate2 \<and> nt \<noteq> Notify_All Gate2"
    using sp by (cases f) (auto simp: spec_members split: if_splits)
  then show ?thesis using rd by simp
qed

theorem upgrade_mutex_conversion_unnotified_witness:
  "um_call Unlock_Shared 2 = (1, Quiet, Returned True) \<and> gate_at Shared_To_Exclusive_Gate2 = Gate2"
proof -
  let ?r = "lock_reach um_call um_resume (\<lambda>_. True) 2"
  have "?r \<lparr>lk_state = 0, lk_threads = [Running Unowned, Running Unowned]\<rparr>"
    using lock_reach.start [of um_call um_resume "\<lambda>_. True" 2] by (simp add: lock_start_def numeral_2_eq_2)
  moreover have "um_call Lock_Shared 0 = (1, Quiet, Returned True)" by code_simp
  ultimately have "?r \<lparr>lk_state = 1, lk_threads = [Running Shared, Running Unowned]\<rparr>"
    by (rule reach_call [where i = 0]) (simp_all add: notified.nobody)
  moreover have "um_call Lock_Shared 1 = (2, Quiet, Returned True)" by code_simp
  ultimately have "?r \<lparr>lk_state = 2, lk_threads = [Running Shared, Running Shared]\<rparr>"
    by (rule reach_call [where i = 1]) (simp_all add: notified.nobody)
  moreover have "um_call Try_Unlock_Shared_And_Lock_Until 2 = (2, Quiet, Waits Shared_To_Exclusive_Gate2)" by code_simp
  ultimately have r: "?r \<lparr>lk_state = 2, lk_threads = [Running Shared, Blocked Shared_To_Exclusive_Gate2]\<rparr>"
    by (rule reach_call [where i = 1]) (simp_all add: notified.nobody)
  have c: "um_call Unlock_Shared 2 = (1, Quiet, Returned True)" by code_simp
  show ?thesis
    using upgrade_mutex_conversion_unnotified [OF r, of 0 1 Unlock_Shared 1 Quiet "Returned True" Shared_To_Exclusive_Gate2] c
    by simp
qed

subsection \<open>The lock without upgrade ownership\<close>

text \<open>\<^verbatim>\<open>thread_v2::shared_mutex\<close>: mutual exclusion for every interleaving of its members, and the
  low 31 bits of the state word are the number of readers.\<close>

theorem shared_mutex_exclusion:
  assumes "lock_reach sm_call sm_resume sm_member k \<sigma>" and "i < k" and "j < k" and "i \<noteq> j"
  shows "(holds (lk_threads \<sigma> ! i) = Exclusive \<longrightarrow> holds (lk_threads \<sigma> ! j) = Unowned)
       \<and> unat (lk_state \<sigma> AND sm_n_readers) = num_of reads (lk_threads \<sigma>)
       \<and> num_of reads (lk_threads \<sigma>) < 2 ^ 31"
proof -
  let ?n = "num_of reads (lk_threads \<sigma>)"
  have s: "lk_state \<sigma> = sm_enc (num_of entered (lk_threads \<sigma>) = 1) (num_of upgrades (lk_threads \<sigma>) = 1) ?n"
    and "?n \<le> sm_most"
    using sm.state_word [OF assms(1)] by auto
  then have lim: "?n < sm_limit" by (intro sm_at_most)
  then have "unat (of_nat ?n :: count_t) = ?n" by (simp add: unat_of_nat sm_limit_def)
  then show ?thesis
    using sm.exclusive_alone [OF assms] lim by (simp add: s sm_mask_readers sm_limit_def)
qed

theorem shared_mutex_exclusion_witness:
  "unat (lk_state (lock_start 2) AND sm_n_readers) = 0"
  using shared_mutex_exclusion [OF lock_reach.start, of 0 2 1]
  by (simp add: lock_start_def num_of_def filter_replicate reads_def)

text \<open>No wake-up of \<^verbatim>\<open>thread_v2::shared_mutex\<close> is lost as long as members without a deadline are
  used.\<close>

theorem shared_mutex_no_deadlock:
  assumes "lock_reach sm_call sm_resume (\<lambda>f. sm_member f \<and> \<not> timed_op f) k \<sigma>" and "k < 2 ^ 31 - 1"
    and "\<forall>ph \<in> set (lk_threads \<sigma>). ph = Running Unowned \<or> (\<exists>p. ph = Blocked p)"
  shows "lk_threads \<sigma> = replicate k (Running Unowned)"
  using sm_untimed.no_deadlock [OF assms(1)] assms(2,3) by (simp add: sm_most_def sm_limit_def)

theorem shared_mutex_no_deadlock_witness:
  "lk_threads (lock_start 2) = replicate 2 (Running Unowned)"
  by (rule shared_mutex_no_deadlock [OF lock_reach.start]) (simp_all add: lock_start_def)

text \<open>An example of a defect: \<^verbatim>\<open>thread_v2::shared_mutex::timed_lock_shared\<close> takes the lock exclusively: on a free lock it
  succeeds and leaves the write bit set with no reader counted, so a second caller has to wait, and the
  matching \<^verbatim>\<open>unlock_shared\<close> wraps the reader count around and leaves every bit of the state set: the
  write bit and the full number of readers, on which no member that locks succeeds any more.\<close>

lemma shared_mutex_timed_lock_shared_corrupts:
  "sm_timed_lock_shared sm_new = (sm_write_entered, Quiet, Returned True)
   \<and> sm_timed_lock_shared sm_write_entered = (sm_write_entered, Quiet, Waits Until_Gate1)
   \<and> sm_unlock_shared sm_write_entered = (NOT 0, Quiet, Returned True)
   \<and> sm_lock (NOT 0) = (NOT 0, Quiet, Waits Lock_Gate1)
   \<and> sm_lock_shared (NOT 0) = (NOT 0, Quiet, Waits Shared_Gate1)
   \<and> sm_try_lock (NOT 0) = (NOT 0, Quiet, Returned False)
   \<and> sm_try_lock_shared (NOT 0) = (NOT 0, Quiet, Returned False)"
  by code_simp

end
