(* ===== verification/Crc.thy ===== *)
theory Crc
  imports Boost_Prelude
begin

text \<open>
  \<^verbatim>\<open>boost::crc_basic<Bits>\<close>, \<^verbatim>\<open>crc_optimal\<close>, \<^verbatim>\<open>crc\<close> and \<^verbatim>\<open>augmented_crc\<close> (\<^verbatim>\<open>crc.hpp\<close>).

  The template parameter \<^verbatim>\<open>Bits\<close> is the number \<open>B\<close>; the register is a word of any width that has at
  least \<open>B\<close> bits, because \<^verbatim>\<open>uint_t<Bits>\<close> may be wider, and the bits above \<open>B\<close> may hold anything, as in
  the source. \<^verbatim>\<open>CHAR_BIT\<close> is 8. A buffer is the list of its bytes. The lemmas reduce all three
  computations to one step on the low \<open>B\<close> bits, polynomial division by one bit, whose linearity
  carries the equivalence of the table-driven and the bitwise computation.
\<close>

unbundle bit_operations_syntax

subsection \<open>Definitions\<close>

definition high_bit :: "nat \<Rightarrow> 'v::len word" where
  "high_bit B = push_bit (B - 1) 1"

definition sig_bits :: "nat \<Rightarrow> 'v::len word" where
  "sig_bits B = NOT (push_bit B (NOT 0))"

function reflect_loop :: "nat \<Rightarrow> nat \<Rightarrow> 'v::len word \<Rightarrow> 'v word \<Rightarrow> 'v word" where
  "reflect_loop B i x reflection =
     (if i < B then
        reflect_loop B (i + 1) (drop_bit 1 x)
          (if x AND 1 \<noteq> 0 then reflection OR push_bit (B - 1 - i) 1 else reflection)
      else reflection)"
  by pat_completeness auto
termination
  by (relation "measure (\<lambda>(B, i, x, reflection). B - i)") auto

definition reflect :: "nat \<Rightarrow> 'v::len word \<Rightarrow> 'v word" where
  "reflect B x = reflect_loop B 0 x 0"

subsubsection \<open>The simple class\<close>

record 'w crc_basic =
  bc_rem :: 'w
  bc_poly :: 'w
  bc_init :: 'w
  bc_final :: 'w
  bc_rft_in :: bool
  bc_rft_out :: bool

type_synonym 'v basic_crc = "'v word crc_basic"

definition crc_basic_ctor ::
  "'v::len word \<Rightarrow> 'v word \<Rightarrow> 'v word \<Rightarrow> bool \<Rightarrow> bool \<Rightarrow> 'v basic_crc" where
  "crc_basic_ctor truncated_polynominal initial_remainder final_xor_value reflect_input reflect_remainder =
     \<lparr>bc_rem = initial_remainder, bc_poly = truncated_polynominal, bc_init = initial_remainder,
      bc_final = final_xor_value, bc_rft_in = reflect_input, bc_rft_out = reflect_remainder\<rparr>"

definition basic_interim_remainder :: "nat \<Rightarrow> 'v::len basic_crc \<Rightarrow> 'v word" where
  "basic_interim_remainder B c = bc_rem c AND sig_bits B"

definition basic_reset_to :: "'v::len word \<Rightarrow> 'v basic_crc \<Rightarrow> 'v basic_crc" where
  "basic_reset_to new_rem c = c\<lparr>bc_rem := new_rem\<rparr>"

definition basic_reset :: "'v::len basic_crc \<Rightarrow> 'v basic_crc" where
  "basic_reset c = basic_reset_to (bc_init c) c"

definition process_bit :: "nat \<Rightarrow> bool \<Rightarrow> 'v::len basic_crc \<Rightarrow> 'v basic_crc" where
  "process_bit B b c =
     (let rem1 = bc_rem c XOR (if b then high_bit B else 0);
          do_poly_div = (rem1 AND high_bit B \<noteq> 0);
          rem2 = push_bit 1 rem1
      in c\<lparr>bc_rem := (if do_poly_div then rem2 XOR bc_poly c else rem2)\<rparr>)"

fun process_bits_loop :: "nat \<Rightarrow> nat \<Rightarrow> byte_type \<Rightarrow> 'v::len basic_crc \<Rightarrow> 'v basic_crc" where
  "process_bits_loop B 0 bits c = c"
| "process_bits_loop B (Suc i) bits c =
     process_bits_loop B i (push_bit 1 bits) (process_bit B (bits AND push_bit 7 1 \<noteq> 0) c)"

text \<open>A shift count above the width, here after the unsigned \<^verbatim>\<open>CHAR_BIT - bit_count\<close> has wrapped around, is undefined.\<close>

definition process_bits :: "nat \<Rightarrow> byte_type \<Rightarrow> nat \<Rightarrow> 'v::len basic_crc \<Rightarrow> 'v basic_crc option" where
  "process_bits B bits bit_count c =
     (if bit_count \<le> 8 then Some (process_bits_loop B bit_count (push_bit (8 - bit_count) bits) c) else None)"

definition basic_process_byte :: "nat \<Rightarrow> byte_type \<Rightarrow> 'v::len basic_crc \<Rightarrow> 'v basic_crc option" where
  "basic_process_byte B byte c = process_bits B (if bc_rft_in c then reflect 8 byte else byte) 8 c"

fun basic_process_block :: "nat \<Rightarrow> byte_type list \<Rightarrow> 'v::len basic_crc \<Rightarrow> 'v basic_crc option" where
  "basic_process_block B [] c = Some c"
| "basic_process_block B (p # ps) c =
     (case basic_process_byte B p c of None \<Rightarrow> None | Some c1 \<Rightarrow> basic_process_block B ps c1)"

definition basic_checksum :: "nat \<Rightarrow> 'v::len basic_crc \<Rightarrow> 'v word" where
  "basic_checksum B c =
     ((if bc_rft_out c then reflect B (bc_rem c) else bc_rem c) XOR bc_final c) AND sig_bits B"

subsubsection \<open>The lookup table\<close>

function table_remainder_loop :: "nat \<Rightarrow> 'v::len word \<Rightarrow> byte_type \<Rightarrow> byte_type \<Rightarrow> 'v word \<Rightarrow> 'v word" where
  "table_remainder_loop B TruncPoly dividend m remainder =
     (if m \<noteq> 0 then
        let rem1 = (if dividend AND m \<noteq> 0 then remainder XOR high_bit B else remainder);
            rem2 = (if rem1 AND high_bit B \<noteq> 0 then push_bit 1 rem1 XOR TruncPoly else push_bit 1 rem1)
        in table_remainder_loop B TruncPoly dividend (drop_bit 1 m) rem2
      else remainder)"
  by pat_completeness auto
termination
proof (relation "measure (\<lambda>(B, TruncPoly, dividend, m, remainder). unat m)", goal_cases)
  case (2 B TruncPoly dividend m remainder x xa)
  then have "0 < unat m" by (simp add: unat_gt_0)
  moreover have "unat (drop_bit 1 m) = unat m div 2"
    by (metis unat_drop_bit_eq drop_bit_eq_div power_one_right)
  ultimately show ?case by simp
qed simp

definition helper_reflect :: "bool \<Rightarrow> nat \<Rightarrow> 'v::len word \<Rightarrow> 'v word" where
  "helper_reflect DoReflect B x = (if DoReflect then reflect B x else x)"

definition table_set :: "nat \<Rightarrow> 'v::len word \<Rightarrow> bool \<Rightarrow> byte_type \<Rightarrow> 'v word list \<Rightarrow> 'v word list" where
  "table_set B TruncPoly Reflect dividend table =
     (let remainder = table_remainder_loop B TruncPoly dividend (push_bit 7 1) 0
      in table[unat (helper_reflect Reflect 8 dividend) := helper_reflect Reflect B remainder])"

lemma byte_succ: "dividend + 1 \<noteq> 0 \<Longrightarrow> unat (dividend + 1 :: byte_type) = unat dividend + 1 \<and> unat dividend < 255"
proof -
  assume nz: "dividend + 1 \<noteq> 0"
  have mod: "unat (dividend + 1) = (unat dividend + 1) mod 256" by (simp add: unat_word_ariths)
  have "unat dividend < 256" using unsigned_less [of dividend, where ?'a = nat] by simp
  moreover have "unat dividend \<noteq> 255"
  proof
    assume "unat dividend = 255"
    then have "unat (dividend + 1) = 0" using mod by simp
    then show False using nz by (simp only: unat_eq_zero)
  qed
  ultimately show ?thesis using mod by simp
qed

function init_table_loop :: "nat \<Rightarrow> 'v::len word \<Rightarrow> bool \<Rightarrow> byte_type \<Rightarrow> 'v word list \<Rightarrow> 'v word list" where
  "init_table_loop B TruncPoly Reflect dividend table =
     (if dividend + 1 \<noteq> 0
      then init_table_loop B TruncPoly Reflect (dividend + 1) (table_set B TruncPoly Reflect dividend table)
      else table_set B TruncPoly Reflect dividend table)"
  by (rule prod_cases5) blast+
termination
proof (relation "measure (\<lambda>(B, TruncPoly, Reflect, dividend, table). 256 - unat dividend)", goal_cases)
  case (2 B TruncPoly Reflect dividend table)
  then show ?case using byte_succ [of dividend] by (auto intro: diff_less_mono2)
qed simp

definition crc_table :: "nat \<Rightarrow> 'v::len word \<Rightarrow> bool \<Rightarrow> 'v word list" where
  "crc_table B TruncPoly Reflect = init_table_loop B TruncPoly Reflect 0 (replicate 256 0)"

subsubsection \<open>The optimised class\<close>

record 'w crc_traits =
  ct_bits :: nat
  ct_trunc_poly :: 'w
  ct_init_rem :: 'w
  ct_final_xor :: 'w
  ct_reflect_in :: bool
  ct_reflect_rem :: bool

type_synonym 'v optimal_traits = "'v word crc_traits"

definition align_msb :: "nat \<Rightarrow> 'v::len word \<Rightarrow> byte_type" where
  "align_msb B rem = (if B > 8 then ucast (drop_bit (B - 8) rem) else ucast (push_bit (8 - B) rem))"

definition helper_index :: "bool \<Rightarrow> nat \<Rightarrow> 'v::len word \<Rightarrow> byte_type \<Rightarrow> byte_type" where
  "helper_index DoReflect B rem x = (if DoReflect then x XOR ucast rem else x XOR align_msb B rem)"

definition helper_shift :: "bool \<Rightarrow> 'v::len word \<Rightarrow> 'v word" where
  "helper_shift DoReflect rem = (if DoReflect then drop_bit 8 rem else push_bit 8 rem)"

definition optimal_ctor :: "'v::len optimal_traits \<Rightarrow> 'v word \<Rightarrow> 'v word" where
  "optimal_ctor t init_rem = helper_reflect (ct_reflect_in t) (ct_bits t) init_rem"

definition optimal_reset :: "'v::len optimal_traits \<Rightarrow> 'v word \<Rightarrow> 'v word \<Rightarrow> 'v word" where
  "optimal_reset t new_rem rem = helper_reflect (ct_reflect_in t) (ct_bits t) new_rem"

definition optimal_interim_remainder :: "'v::len optimal_traits \<Rightarrow> 'v word \<Rightarrow> 'v word" where
  "optimal_interim_remainder t rem = helper_reflect (ct_reflect_in t) (ct_bits t) rem AND sig_bits (ct_bits t)"

fun optimal_process_block :: "'v::len optimal_traits \<Rightarrow> byte_type list \<Rightarrow> 'v word \<Rightarrow> 'v word" where
  "optimal_process_block t [] rem = rem"
| "optimal_process_block t (p # ps) rem =
     (let byte_index = helper_index (ct_reflect_in t) (ct_bits t) rem p;
          rem1 = helper_shift (ct_reflect_in t) rem;
          rem2 = rem1 XOR crc_table (ct_bits t) (ct_trunc_poly t) (ct_reflect_in t) ! unat byte_index
      in optimal_process_block t ps rem2)"

definition optimal_process_byte :: "'v::len optimal_traits \<Rightarrow> byte_type \<Rightarrow> 'v word \<Rightarrow> 'v word" where
  "optimal_process_byte t byte rem = optimal_process_block t [byte] rem"

definition optimal_checksum :: "'v::len optimal_traits \<Rightarrow> 'v word \<Rightarrow> 'v word" where
  "optimal_checksum t rem =
     (helper_reflect (ct_reflect_rem t \<noteq> ct_reflect_in t) (ct_bits t) rem XOR ct_final_xor t) AND sig_bits (ct_bits t)"

definition crc :: "'v::len optimal_traits \<Rightarrow> byte_type list \<Rightarrow> 'v word" where
  "crc t buffer = optimal_checksum t (optimal_process_block t buffer (optimal_ctor t (ct_init_rem t)))"

subsubsection \<open>Augmented messages\<close>

fun augmented_loop :: "nat \<Rightarrow> 'v::len word \<Rightarrow> byte_type list \<Rightarrow> 'v word \<Rightarrow> 'v word" where
  "augmented_loop B TruncPoly [] rem = rem"
| "augmented_loop B TruncPoly (p # ps) rem =
     (let byte_index = ucast (drop_bit (B - 8) rem) :: byte_type;
          rem1 = push_bit 8 rem;
          rem2 = rem1 OR ucast p;
          rem3 = rem2 XOR crc_table B TruncPoly False ! unat byte_index
      in augmented_loop B TruncPoly ps rem3)"

text \<open>The shift by \<^verbatim>\<open>Bits - CHAR_BIT\<close> needs a register of at least one byte.\<close>

definition augmented_crc :: "nat \<Rightarrow> 'v::len word \<Rightarrow> byte_type list \<Rightarrow> 'v word \<Rightarrow> 'v word option" where
  "augmented_crc B TruncPoly buffer initial_remainder =
     (if 8 \<le> B then Some (augmented_loop B TruncPoly buffer initial_remainder AND sig_bits B) else None)"

subsection \<open>Division by one bit\<close>

text \<open>
  The low \<open>B\<close> bits of a register as a function, and one step of the division on them: the specification
  that all the computations are compared with.
\<close>

definition lows :: "nat \<Rightarrow> 'v::len word \<Rightarrow> nat \<Rightarrow> bool" where
  "lows B w = (\<lambda>i. i < B \<and> bit w i)"

definition div_step :: "nat \<Rightarrow> (nat \<Rightarrow> bool) \<Rightarrow> (nat \<Rightarrow> bool) \<Rightarrow> bool \<Rightarrow> nat \<Rightarrow> bool" where
  "div_step B p f b = (\<lambda>i. i < B \<and> ((0 < i \<and> f (i - 1)) \<noteq> (p i \<and> (f (B - 1) \<noteq> b))))"

definition div_steps :: "nat \<Rightarrow> (nat \<Rightarrow> bool) \<Rightarrow> bool list \<Rightarrow> (nat \<Rightarrow> bool) \<Rightarrow> nat \<Rightarrow> bool" where
  "div_steps B p bs f = foldl (div_step B p) f bs"

definition fxor :: "(nat \<Rightarrow> bool) \<Rightarrow> (nat \<Rightarrow> bool) \<Rightarrow> nat \<Rightarrow> bool" where
  "fxor f g = (\<lambda>i. f i \<noteq> g i)"

definition byte_bits :: "byte_type \<Rightarrow> bool list" where
  "byte_bits x = map (\<lambda>i. bit x (7 - i)) [0..<8]"

lemma div_steps_simps [simp]:
  "div_steps B p [] f = f"
  "div_steps B p (b # bs) f = div_steps B p bs (div_step B p f b)"
  "div_steps B p (bs @ cs) f = div_steps B p cs (div_steps B p bs f)"
  by (simp_all add: div_steps_def)

lemma div_step_xor: "div_step B p (fxor f g) (b = (\<not> c)) = fxor (div_step B p f b) (div_step B p g c)"
  by (rule ext) (auto simp: div_step_def fxor_def)

lemma div_steps_xor:
  "length bs = length cs \<Longrightarrow>
     div_steps B p (map2 (\<lambda>b c. b = (\<not> c)) bs cs) (fxor f g) = fxor (div_steps B p bs f) (div_steps B p cs g)"
  by (induction bs cs arbitrary: f g rule: list_induct2) (simp_all add: div_step_xor)

text \<open>Where the incoming bits are the high bits of the register, nothing is divided: the register shifts.\<close>

lemma div_steps_shift:
  assumes "\<And>i. B \<le> i \<Longrightarrow> \<not> f i" and "\<And>i. i < length bs \<Longrightarrow> bs ! i = (i < B \<and> f (B - 1 - i))"
  shows "div_steps B p bs f = (\<lambda>i. i < B \<and> length bs \<le> i \<and> f (i - length bs))"
  using assms
proof (induction bs arbitrary: f)
  case Nil
  then show ?case by (auto simp: fun_eq_iff) (meson not_le)
next
  case (Cons b bs)
  define g where "g = (\<lambda>i. i < B \<and> 0 < i \<and> f (i - 1))"
  have b: "b = (0 < B \<and> f (B - 1))" using Cons.prems(2) [of 0] by simp
  have step: "div_step B p f b = g"
    by (rule ext) (auto simp: div_step_def b g_def)
  have next_bits: "bs ! i = (i < B \<and> g (B - 1 - i))" if "i < length bs" for i
  proof (cases "Suc i < B")
    case True
    then have "B - 1 - Suc i = B - 1 - i - 1" by simp
    then show ?thesis using Cons.prems(2) [of "Suc i"] that True by (simp add: g_def)
  next
    case False
    then show ?thesis using Cons.prems(2) [of "Suc i"] that by (simp add: g_def)
  qed
  have "\<not> g i" if "B \<le> i" for i using that by (simp add: g_def)
  then have ih: "div_steps B p bs g = (\<lambda>i. i < B \<and> length bs \<le> i \<and> g (i - length bs))"
    using next_bits by (rule Cons.IH)
  show ?case
    unfolding div_steps_simps step ih by (rule ext) (auto simp: g_def Suc_le_eq)
qed

lemma lows_xor: "lows B (v XOR w) = fxor (lows B v) (lows B w)"
  by (rule ext) (auto simp: lows_def fxor_def bit_xor_iff)

lemma lows_outside: "B \<le> i \<Longrightarrow> \<not> lows B w i"
  by (simp add: lows_def)

text \<open>The two ways the source writes the step.\<close>

lemma bit_high_bit: "0 < B \<Longrightarrow> B \<le> LENGTH('v) \<Longrightarrow> bit (high_bit B :: 'v::len word) i \<longleftrightarrow> i = B - 1"
  unfolding high_bit_def bit_push_bit_iff by (auto simp: bit_1_iff)

lemma and_high_bit:
  fixes w :: "'v::len word"
  assumes "0 < B" and "B \<le> LENGTH('v)"
  shows "w AND high_bit B \<noteq> 0 \<longleftrightarrow> bit w (B - 1)"
proof
  assume "w AND high_bit B \<noteq> 0"
  then obtain n where "bit (w AND high_bit B) n" by (auto simp: bit_eq_iff)
  then show "bit w (B - 1)" using assms by (auto simp: bit_and_iff bit_high_bit)
next
  assume "bit w (B - 1)"
  then have "bit (w AND high_bit B) (B - 1)" using assms by (simp add: bit_and_iff bit_high_bit)
  then show "w AND high_bit B \<noteq> 0" by (metis bit_0_eq bot_apply bot_bool_def)
qed

lemma lows_step:
  fixes r p :: "'v::len word" and b :: bool
  assumes "0 < B" and "B \<le> LENGTH('v)"
  defines "r1 \<equiv> r XOR (if b then high_bit B else 0)"
  shows "lows B (if r1 AND high_bit B \<noteq> 0 then push_bit 1 r1 XOR p else push_bit 1 r1)
       = div_step B (lows B p) (lows B r) b"
proof -
  have hb: "bit r1 i \<longleftrightarrow> (bit r i \<noteq> (b \<and> i = B - 1))" for i
    using assms(1,2) by (auto simp: r1_def bit_xor_iff bit_high_bit)
  define q where "q = push_bit 1 r1"
  have pushed: "bit q i \<longleftrightarrow> 0 < i \<and> bit r1 (i - 1)" if "i < B" for i
    unfolding q_def bit_push_bit_iff using that assms(2) by (cases i) auto
  show ?thesis
    unfolding and_high_bit [OF assms(1,2)] q_def [symmetric]
    by (rule ext) (use assms(1,2) in \<open>auto simp: lows_def div_step_def bit_xor_iff pushed hb\<close>)
qed

subsection \<open>Reflection\<close>

declare reflect_loop.simps [simp del] table_remainder_loop.simps [simp del] init_table_loop.simps [simp del]

lemma bit_drop_one: "bit (drop_bit 1 (x :: 'v::len word)) j = bit x (Suc j)"
  unfolding bit_drop_bit_eq by (simp add: o_def)

lemma and_one_bit: "(x :: 'v::len word) AND 1 \<noteq> 0 \<longleftrightarrow> bit x 0"
  by (simp add: and_one_eq mod_2_eq_odd bit_0)

lemma bit_reflect_loop:
  fixes x r :: "'v::len word"
  assumes "B \<le> LENGTH('v)" and "i \<le> B"
  shows "bit (reflect_loop B i x r) j \<longleftrightarrow> bit r j \<or> (j < B - i \<and> bit x (B - 1 - i - j))"
  using assms
proof (induction B i x r rule: reflect_loop.induct)
  case (1 B i x r)
  show ?case
  proof (cases "i < B")
    case True
    let ?r = "if x AND 1 \<noteq> 0 then r OR push_bit (B - 1 - i) 1 else r"
    have one: "bit (push_bit (B - 1 - i) 1 :: 'v word) j \<longleftrightarrow> j = B - 1 - i"
      unfolding bit_push_bit_iff using True 1(2) by (auto simp: bit_1_iff)
    have r: "bit ?r j \<longleftrightarrow> bit r j \<or> (bit x 0 \<and> j = B - 1 - i)"
      unfolding and_one_bit by (cases "bit x 0") (simp_all only: bit_or_iff one if_True if_False simp_thms)
    have "bit (reflect_loop B (i + 1) (drop_bit 1 x) ?r) j \<longleftrightarrow>
        bit ?r j \<or> (j < B - (i + 1) \<and> bit x (Suc (B - 1 - (i + 1) - j)))"
      using 1(1) [OF True] 1(2) True by (simp only: bit_drop_one)
    moreover have "Suc (B - 1 - (i + 1) - j) = B - 1 - i - j" if "j < B - (i + 1)"
      using that by simp
    ultimately have "bit (reflect_loop B i x r) j \<longleftrightarrow>
        bit ?r j \<or> (j < B - (i + 1) \<and> bit x (B - 1 - i - j))"
      using True by (simp add: reflect_loop.simps [of B i x r] del: diff_diff_left) metis
    moreover have "j < B - i \<longleftrightarrow> j < B - (i + 1) \<or> j = B - 1 - i" using True by auto
    ultimately show ?thesis unfolding r by auto
  qed (simp add: reflect_loop.simps [of B i x r])
qed

lemma bit_reflect:
  "B \<le> LENGTH('v) \<Longrightarrow> bit (reflect B (x :: 'v::len word)) j \<longleftrightarrow> j < B \<and> bit x (B - 1 - j)"
  using bit_reflect_loop [of B 0 x 0 j] by (simp add: reflect_def)

lemma reflect_byte_twice: "reflect 8 (reflect 8 x) = (x :: byte_type)"
  by (rule bit_word_eqI) (auto simp: bit_reflect)

lemma reflect_byte_xor: "reflect 8 (x XOR y) = reflect 8 x XOR reflect 8 (y :: byte_type)"
  by (rule bit_word_eqI) (auto simp: bit_reflect bit_xor_iff)

lemma lows_reflect: "B \<le> LENGTH('v) \<Longrightarrow> lows B (reflect B (x :: 'v::len word)) = (\<lambda>i. i < B \<and> lows B x (B - 1 - i))"
  by (rule ext) (auto simp: lows_def bit_reflect)

subsection \<open>The simple class divides\<close>

lemma process_bit_lows:
  fixes c :: "'v::len basic_crc"
  assumes "0 < B" and "B \<le> LENGTH('v)"
  shows "lows B (bc_rem (process_bit B b c)) = div_step B (lows B (bc_poly c)) (lows B (bc_rem c)) b"
proof -
  have set: "bc_rem (c\<lparr>bc_rem := r\<rparr>) = r" for r by simp
  show ?thesis unfolding process_bit_def Let_def set by (rule lows_step [OF assms])
qed

lemma process_bit_fields [simp]:
  "bc_poly (process_bit B b c) = bc_poly c" "bc_init (process_bit B b c) = bc_init c"
  "bc_final (process_bit B b c) = bc_final c" "bc_rft_in (process_bit B b c) = bc_rft_in c"
  "bc_rft_out (process_bit B b c) = bc_rft_out c"
  by (simp_all add: process_bit_def Let_def)

lemma process_bits_loop_fields [simp]:
  "bc_poly (process_bits_loop B n x c) = bc_poly c" "bc_init (process_bits_loop B n x c) = bc_init c"
  "bc_final (process_bits_loop B n x c) = bc_final c" "bc_rft_in (process_bits_loop B n x c) = bc_rft_in c"
  "bc_rft_out (process_bits_loop B n x c) = bc_rft_out c"
  by (induction n arbitrary: x c) simp_all

lemma bit_push_one: "bit (push_bit 1 (x :: 'v::len word)) (Suc i) \<longleftrightarrow> Suc i < LENGTH('v) \<and> bit x i"
  unfolding bit_push_bit_iff by auto

lemma high_bit_of_byte: "(x :: byte_type) AND push_bit 7 1 \<noteq> 0 \<longleftrightarrow> bit x 7"
  using and_high_bit [of 8 x] by (simp add: high_bit_def)

lemma process_bits_loop_lows:
  fixes c :: "'v::len basic_crc"
  assumes "0 < B" and "B \<le> LENGTH('v)" and "n \<le> 8"
  shows "lows B (bc_rem (process_bits_loop B n x c))
       = div_steps B (lows B (bc_poly c)) (map (\<lambda>i. bit x (7 - i)) [0..<n]) (lows B (bc_rem c))"
  using assms(3)
proof (induction n arbitrary: x c)
  case (Suc n)
  have rest: "map (\<lambda>i. bit (push_bit 1 x) (7 - i)) [0..<n] = map (\<lambda>i. bit x (7 - Suc i)) [0..<n]"
  proof (rule map_cong [OF refl])
    fix i assume "i \<in> set [0..<n]"
    then have i: "7 - i = Suc (7 - Suc i)" "Suc (7 - Suc i) < LENGTH(8)" using Suc.prems by auto
    show "bit (push_bit 1 x) (7 - i) = bit x (7 - Suc i)"
      unfolding i(1) bit_push_one using i(2) by (simp only: simp_thms)
  qed
  have all: "map (\<lambda>i. bit x (7 - i)) [0..<Suc n] = bit x 7 # map (\<lambda>i. bit x (7 - Suc i)) [0..<n]"
    by (simp only: upt_conv_Cons [of 0 "Suc n"] map_Suc_upt [symmetric] list.map map_map o_def) simp
  have n: "n \<le> 8" using Suc.prems by simp
  show ?case
    unfolding process_bits_loop.simps Suc.IH [OF n] process_bit_fields process_bit_lows [OF assms(1,2)]
      high_bit_of_byte rest all div_steps_simps ..
qed simp

lemma basic_process_byte_ok:
  fixes c :: "'v::len basic_crc"
  assumes "0 < B" and "B \<le> LENGTH('v)"
  shows "\<exists>c'. basic_process_byte B x c = Some c' \<and>
    lows B (bc_rem c') = div_steps B (lows B (bc_poly c)) (byte_bits (if bc_rft_in c then reflect 8 x else x)) (lows B (bc_rem c))
    \<and> bc_poly c' = bc_poly c \<and> bc_final c' = bc_final c \<and> bc_rft_in c' = bc_rft_in c \<and> bc_rft_out c' = bc_rft_out c"
  using process_bits_loop_lows [OF assms, of 8 "if bc_rft_in c then reflect 8 x else x" c]
  by (auto simp: basic_process_byte_def process_bits_def byte_bits_def push_bit_eq_mult)

definition message_bits :: "bool \<Rightarrow> byte_type list \<Rightarrow> bool list" where
  "message_bits rin buffer = concat (map (\<lambda>x. byte_bits (if rin then reflect 8 x else x)) buffer)"

lemma basic_process_block_ok:
  fixes c :: "'v::len basic_crc"
  assumes "0 < B" and "B \<le> LENGTH('v)"
  shows "\<exists>c'. basic_process_block B buffer c = Some c' \<and>
    lows B (bc_rem c') = div_steps B (lows B (bc_poly c)) (message_bits (bc_rft_in c) buffer) (lows B (bc_rem c))
    \<and> bc_poly c' = bc_poly c \<and> bc_final c' = bc_final c \<and> bc_rft_in c' = bc_rft_in c \<and> bc_rft_out c' = bc_rft_out c"
proof (induction buffer arbitrary: c)
  case (Cons x buffer)
  obtain c1 where c1: "basic_process_byte B x c = Some c1"
    "lows B (bc_rem c1) = div_steps B (lows B (bc_poly c)) (byte_bits (if bc_rft_in c then reflect 8 x else x)) (lows B (bc_rem c))"
    "bc_poly c1 = bc_poly c" "bc_final c1 = bc_final c" "bc_rft_in c1 = bc_rft_in c" "bc_rft_out c1 = bc_rft_out c"
    using basic_process_byte_ok [OF assms] by blast
  then show ?case using Cons.IH [of c1] by (simp add: message_bits_def)
qed (simp add: message_bits_def)

subsection \<open>The lookup table\<close>

text \<open>The entry of a dividend: the division of its bits, starting with an empty register.\<close>

definition table_entry :: "nat \<Rightarrow> 'v::len word \<Rightarrow> byte_type \<Rightarrow> 'v word" where
  "table_entry B TruncPoly d = table_remainder_loop B TruncPoly d (push_bit 7 1) 0"

lemma and_bit_mask: "k < 8 \<Longrightarrow> (d :: byte_type) AND push_bit k 1 \<noteq> 0 \<longleftrightarrow> bit d k"
  using and_high_bit [of "Suc k" d] by (simp add: high_bit_def)

lemma mask_nonzero: "k < 8 \<Longrightarrow> (push_bit k 1 :: byte_type) \<noteq> 0"
  using bit_push_bit_iff [of k "1 :: byte_type" k] by (auto simp: bit_1_iff)

lemma drop_mask: "drop_bit 1 (push_bit (Suc k) 1 :: byte_type) = (if Suc k < 8 then push_bit k 1 else 0)"
proof (rule bit_word_eqI)
  fix j
  show "bit (drop_bit 1 (push_bit (Suc k) 1 :: byte_type)) j = bit (if Suc k < 8 then push_bit k 1 else 0 :: byte_type) j"
    unfolding bit_drop_one bit_push_bit_iff if_distrib [where f = "\<lambda>w. bit w j"]
    by (auto simp: bit_1_iff)
qed

lemma table_remainder_lows:
  fixes p r :: "'v::len word"
  assumes "0 < B" and "B \<le> LENGTH('v)" and "k < 8"
  shows "lows B (table_remainder_loop B p d (push_bit k 1) r)
       = div_steps B (lows B p) (map (\<lambda>i. bit d (k - i)) [0..<Suc k]) (lows B r)"
  using assms(3)
proof (induction k arbitrary: r)
  case 0
  let ?r1 = "r XOR (if bit d 0 then high_bit B else 0)"
  have m: "drop_bit 1 (push_bit 0 1 :: byte_type) = 0" by simp
  have "table_remainder_loop B p d (push_bit 0 1) r
      = (if ?r1 AND high_bit B \<noteq> 0 then push_bit 1 ?r1 XOR p else push_bit 1 ?r1)"
    unfolding table_remainder_loop.simps [of B p d "push_bit 0 1" r] m and_bit_mask [of 0 d, simplified]
    using mask_nonzero [of 0] and_bit_mask [of 0 d]
    by (cases "bit d 0") (simp_all add: Let_def table_remainder_loop.simps [of B p d 0])
  then show ?case using lows_step [OF assms(1,2), of r "bit d 0" p] by simp
next
  case (Suc k)
  let ?r1 = "r XOR (if bit d (Suc k) then high_bit B else 0)"
  let ?r2 = "if ?r1 AND high_bit B \<noteq> 0 then push_bit 1 ?r1 XOR p else push_bit 1 ?r1"
  have m: "drop_bit 1 (push_bit (Suc k) 1 :: byte_type) = push_bit k 1"
    using Suc.prems by (simp only: drop_mask if_True)
  have r1: "(if bit d (Suc k) then r XOR high_bit B else r) = ?r1" by simp
  have "table_remainder_loop B p d (push_bit (Suc k) 1) r = table_remainder_loop B p d (push_bit k 1) ?r2"
    unfolding table_remainder_loop.simps [of B p d "push_bit (Suc k) 1" r] m and_bit_mask [OF Suc.prems] Let_def r1
    by (simp only: mask_nonzero [OF Suc.prems] if_True not_False_eq_True)
  moreover have "map (\<lambda>i. bit d (Suc k - i)) [0..<Suc (Suc k)] = bit d (Suc k) # map (\<lambda>i. bit d (k - i)) [0..<Suc k]"
    by (simp only: upt_conv_Cons [of 0 "Suc (Suc k)"] map_Suc_upt [symmetric] list.map map_map o_def) simp
  ultimately show ?case
    using Suc.IH [of ?r2] Suc.prems lows_step [OF assms(1,2), of r "bit d (Suc k)" p]
    by (simp only: div_steps_simps Suc_lessD)
qed

lemma table_entry_lows:
  fixes p :: "'v::len word"
  assumes "0 < B" and "B \<le> LENGTH('v)"
  shows "lows B (table_entry B p d) = div_steps B (lows B p) (byte_bits d) (\<lambda>_. False)"
proof -
  have "lows B (0 :: 'v word) = (\<lambda>_. False)" by (simp add: lows_def)
  then show ?thesis
    using table_remainder_lows [OF assms, of 7 p d 0] by (simp add: table_entry_def byte_bits_def)
qed

lemma helper_reflect_byte_inj:
  "unat (helper_reflect f 8 d) = unat (helper_reflect f 8 e) \<longleftrightarrow> d = (e :: byte_type)"
  by (metis helper_reflect_def reflect_byte_twice word_unat_eq_iff)

lemma byte_index_less: "unat (d :: byte_type) < 256"
  using unsigned_less [of d, where ?'a = nat] by simp

lemma init_table_loop_ok:
  assumes "length table = 256"
  shows "length (init_table_loop B p f d table) = 256 \<and>
    (\<forall>e. init_table_loop B p f d table ! unat (helper_reflect f 8 e)
       = (if unat d \<le> unat e then helper_reflect f B (table_entry B p e) else table ! unat (helper_reflect f 8 e)))"
  using assms
proof (induction B p f d table rule: init_table_loop.induct)
  case (1 B p f d table)
  let ?t = "table_set B p f d table"
  have len: "length ?t = 256" using 1(2) by (simp add: table_set_def)
  have at: "?t ! unat (helper_reflect f 8 e) = (if e = d then helper_reflect f B (table_entry B p e)
      else table ! unat (helper_reflect f 8 e))" for e
    using 1(2) byte_index_less [of "helper_reflect f 8 d"] helper_reflect_byte_inj [of f d e]
    by (auto simp: table_set_def table_entry_def nth_list_update Let_def)
  show ?case
  proof (cases "d + 1 \<noteq> 0")
    case True
    have "unat (d + 1) \<le> unat e \<longleftrightarrow> unat d \<le> unat e \<and> e \<noteq> d" for e
      using byte_succ [OF True] word_unat_eq_iff [of e d] by auto
    then show ?thesis
      using 1(1) [OF True len] True at by (auto simp: init_table_loop.simps [of B p f d table])
  next
    case False
    then have "256 dvd Suc (unat d)"
      using unat_word_ariths(1) [of d 1] by auto
    then have "unat d = 255"
      using dvd_imp_le [of 256 "Suc (unat d)"] byte_index_less [of d] by auto
    then have "unat d \<le> unat e \<longleftrightarrow> e = d" for e
      using byte_index_less [of e] word_unat_eq_iff [of e d] by auto
    then show ?thesis
      using False at len by (simp add: init_table_loop.simps [of B p f d table])
  qed
qed

lemma crc_table_nth:
  "crc_table B p f ! unat (helper_reflect f 8 d) = helper_reflect f B (table_entry B p d)"
  using init_table_loop_ok [of "replicate 256 0" B p f 0] by (simp add: crc_table_def)

lemma crc_table_plain: "crc_table B p False ! unat d = table_entry B p d"
  using crc_table_nth [of B p False d] by (simp add: helper_reflect_def)

lemma crc_table_reflected: "crc_table B p True ! unat d = reflect B (table_entry B p (reflect 8 d))"
  using crc_table_nth [of B p True "reflect 8 d"] by (simp add: helper_reflect_def reflect_byte_twice)

subsection \<open>One byte by the table\<close>

lemma nth_byte_bits [simp]: "i < 8 \<Longrightarrow> byte_bits x ! i = bit x (7 - i)" "length (byte_bits x) = 8"
  by (simp_all add: byte_bits_def)

lemma byte_bits_xor: "map2 (\<lambda>b c. b = (\<not> c)) (byte_bits (x XOR a)) (byte_bits a) = byte_bits x"
  by (rule nth_equalityI) (auto simp: bit_xor_iff)

lemma lows_zero [simp]: "lows B 0 = (\<lambda>_. False)"
  by (simp add: lows_def)

text \<open>
  The bits of \<open>x\<close> are those of \<open>x XOR a\<close> and of \<open>a\<close>, the byte that leaves the register: the first go into
  an empty register, which the table holds, the second only shift it.
\<close>

lemma div_steps_byte:
  fixes p :: "'v::len word"
  assumes "0 < B" and "B \<le> LENGTH('v)" and f: "\<And>i. B \<le> i \<Longrightarrow> \<not> f i"
    and a: "\<And>i. i < 8 \<Longrightarrow> bit a (7 - i) = (i < B \<and> f (B - 1 - i))"
  shows "div_steps B (lows B p) (byte_bits x) f
       = fxor (lows B (table_entry B p (x XOR a))) (\<lambda>i. i < B \<and> 8 \<le> i \<and> f (i - 8))"
proof -
  have "div_steps B (lows B p) (byte_bits x) f
      = div_steps B (lows B p) (map2 (\<lambda>b c. b = (\<not> c)) (byte_bits (x XOR a)) (byte_bits a)) (fxor (\<lambda>_. False) f)"
    by (simp add: byte_bits_xor fxor_def)
  also have "\<dots> = fxor (div_steps B (lows B p) (byte_bits (x XOR a)) (\<lambda>_. False)) (div_steps B (lows B p) (byte_bits a) f)"
    by (rule div_steps_xor) simp
  also have "div_steps B (lows B p) (byte_bits a) f = (\<lambda>i. i < B \<and> 8 \<le> i \<and> f (i - 8))"
    using div_steps_shift [of B f "byte_bits a"] f a by simp
  finally show ?thesis by (simp add: table_entry_lows [OF assms(1,2)])
qed

text \<open>The register of the optimised class as the simple class keeps it, and what the reflected one relies on.\<close>

definition opt_reg :: "'v::len optimal_traits \<Rightarrow> 'v word \<Rightarrow> nat \<Rightarrow> bool" where
  "opt_reg t rem = lows (ct_bits t) (helper_reflect (ct_reflect_in t) (ct_bits t) rem)"

definition opt_inv :: "'v::len optimal_traits \<Rightarrow> 'v word \<Rightarrow> bool" where
  "opt_inv t rem \<longleftrightarrow> (ct_reflect_in t \<longrightarrow> rem AND sig_bits (ct_bits t) = rem)"

lemma bit_sig_bits: "bit (sig_bits B :: 'v::len word) i \<longleftrightarrow> i < LENGTH('v) \<and> i < B"
  unfolding sig_bits_def bit_not_iff bit_push_bit_iff by (auto simp: bit_not_iff)

lemma and_sig_bits_eq: "w AND sig_bits B = w \<longleftrightarrow> (\<forall>i. bit (w :: 'v::len word) i \<longrightarrow> i < B)"
  by (auto simp: bit_eq_iff bit_and_iff bit_sig_bits dest: bit_imp_le_length)

lemma opt_inv_bits: "opt_inv t rem \<longleftrightarrow> (ct_reflect_in t \<longrightarrow> (\<forall>i. bit rem i \<longrightarrow> i < ct_bits t))"
  by (simp add: opt_inv_def and_sig_bits_eq)

lemma reflect_inv: "B \<le> LENGTH('v) \<Longrightarrow> bit (reflect B (x :: 'v::len word)) i \<Longrightarrow> i < B"
  by (simp add: bit_reflect)

lemma lows_push: "B \<le> LENGTH('v) \<Longrightarrow> lows B (push_bit 8 (r :: 'v::len word)) = (\<lambda>i. i < B \<and> 8 \<le> i \<and> lows B r (i - 8))"
  unfolding lows_def bit_push_bit_iff by (rule ext) auto

lemma bit_align_msb:
  fixes r :: "'v::len word"
  assumes "0 < B" and "B \<le> LENGTH('v)" and "8 \<le> LENGTH('v)" and "i < 8"
  shows "bit (align_msb B r) (7 - i) \<longleftrightarrow> i < B \<and> lows B r (B - 1 - i)"
proof (cases "B > 8")
  case True
  then have "B - 8 + (7 - i) = B - 1 - i" using assms(4) by simp
  moreover have "7 - i < 8" by simp
  ultimately show ?thesis using True assms
    by (simp add: align_msb_def lows_def bit_ucast_iff bit_drop_bit_eq)
next
  case False
  define q where "q = push_bit (8 - B) r"
  have "bit q (7 - i) \<longleftrightarrow> i < B \<and> bit r (B - 1 - i)"
    unfolding q_def bit_push_bit_iff using False assms by (auto simp: not_less)
  then show ?thesis using False assms
    unfolding align_msb_def q_def [symmetric] by (auto simp: lows_def bit_ucast_iff)
qed

lemma opt_byte_plain:
  fixes r p :: "'v::len word"
  assumes "0 < B" and "B \<le> LENGTH('v)" and "8 \<le> LENGTH('v)"
  shows "lows B (push_bit 8 r XOR crc_table B p False ! unat (x XOR align_msb B r))
       = div_steps B (lows B p) (byte_bits x) (lows B r)"
proof -
  have "div_steps B (lows B p) (byte_bits x) (lows B r)
      = fxor (lows B (table_entry B p (x XOR align_msb B r))) (\<lambda>i. i < B \<and> 8 \<le> i \<and> lows B r (i - 8))"
    by (rule div_steps_byte [OF assms(1,2)]) (simp_all add: lows_outside bit_align_msb [OF assms, simplified])
  then show ?thesis
    unfolding crc_table_plain lows_xor lows_push [OF assms(2)] by (auto simp: fxor_def)
qed

lemma lows_reflect_drop:
  fixes r :: "'v::len word"
  assumes "B \<le> LENGTH('v)" and "\<And>i. bit r i \<Longrightarrow> i < B"
  shows "lows B (reflect B (drop_bit 8 r)) = (\<lambda>i. i < B \<and> 8 \<le> i \<and> lows B (reflect B r) (i - 8))"
proof
  fix i
  show "lows B (reflect B (drop_bit 8 r)) i = (i < B \<and> 8 \<le> i \<and> lows B (reflect B r) (i - 8))"
  proof (cases "i < B \<and> 8 \<le> i")
    case True
    then have "8 + (B - 1 - i) = B - 1 - (i - 8)" "i - 8 < B" by auto
    then show ?thesis using True assms(1) by (simp add: lows_def bit_reflect bit_drop_bit_eq)
  next
    case False
    then have "\<not> bit r (8 + (B - 1 - i))" if "i < B" using assms(2) [of "8 + (B - 1 - i)"] that by auto
    then show ?thesis using False assms(1) by (auto simp: lows_def bit_reflect bit_drop_bit_eq)
  qed
qed

lemma opt_byte_reflected:
  fixes r p :: "'v::len word"
  assumes "0 < B" and "B \<le> LENGTH('v)" and inv: "\<And>i. bit r i \<Longrightarrow> i < B"
  shows "lows B (reflect B (drop_bit 8 r XOR crc_table B p True ! unat (x XOR ucast r)))
       = div_steps B (lows B p) (byte_bits (reflect 8 x)) (lows B (reflect B r))"
proof -
  let ?e = "table_entry B p (reflect 8 x XOR reflect 8 (ucast r))"
  have a: "bit (reflect 8 (ucast r :: byte_type)) (7 - i) = (i < B \<and> lows B (reflect B r) (B - 1 - i))" if "i < 8" for i
    using that assms(2) inv [of i] by (auto simp: bit_reflect bit_ucast_iff lows_def dest: bit_imp_le_length)
  have "lows B (reflect B (drop_bit 8 r XOR reflect B ?e)) = fxor (lows B ?e) (lows B (reflect B (drop_bit 8 r)))"
    using assms(2) by (auto simp: fun_eq_iff fxor_def lows_def bit_reflect bit_xor_iff)
  moreover have "div_steps B (lows B p) (byte_bits (reflect 8 x)) (lows B (reflect B r))
      = fxor (lows B ?e) (\<lambda>i. i < B \<and> 8 \<le> i \<and> lows B (reflect B r) (i - 8))"
    by (rule div_steps_byte [OF assms(1,2)]) (simp_all add: lows_outside a [simplified])
  ultimately show ?thesis
    by (simp add: crc_table_reflected reflect_byte_xor lows_reflect_drop [OF assms(2) inv])
qed

lemma opt_process_block_ok:
  fixes t :: "'v::len optimal_traits"
  assumes "0 < ct_bits t" and "ct_bits t \<le> LENGTH('v)" and "8 \<le> LENGTH('v)" and "opt_inv t rem"
  shows "opt_inv t (optimal_process_block t buffer rem) \<and>
    opt_reg t (optimal_process_block t buffer rem)
      = div_steps (ct_bits t) (lows (ct_bits t) (ct_trunc_poly t)) (message_bits (ct_reflect_in t) buffer) (opt_reg t rem)"
  using assms(4)
proof (induction buffer arbitrary: rem)
  case (Cons x buffer)
  let ?B = "ct_bits t" and ?p = "ct_trunc_poly t"
  define r where "r = helper_shift (ct_reflect_in t) rem XOR
    crc_table ?B ?p (ct_reflect_in t) ! unat (helper_index (ct_reflect_in t) ?B rem x)"
  have step: "optimal_process_block t (x # buffer) rem = optimal_process_block t buffer r"
    by (simp add: r_def Let_def)
  have "opt_inv t r \<and> opt_reg t r = div_steps ?B (lows ?B ?p)
      (byte_bits (if ct_reflect_in t then reflect 8 x else x)) (opt_reg t rem)"
  proof (cases "ct_reflect_in t")
    case True
    then have inv: "\<And>i. bit rem i \<Longrightarrow> i < ?B" using Cons.prems by (simp add: opt_inv_bits)
    have "bit r i \<Longrightarrow> i < ?B" for i
      using True assms(2) inv [of "8 + i"]
      by (auto simp: r_def helper_shift_def helper_index_def crc_table_reflected bit_xor_iff bit_reflect bit_drop_bit_eq split: if_splits)
    then show ?thesis
      using True opt_byte_reflected [OF assms(1,2) inv, where p = ?p and x = x]
      by (simp add: opt_inv_bits opt_reg_def r_def helper_shift_def helper_index_def helper_reflect_def)
  next
    case False
    then show ?thesis
      using opt_byte_plain [OF assms(1-3), of rem ?p x]
      by (simp add: opt_inv_def opt_reg_def r_def helper_shift_def helper_index_def helper_reflect_def)
  qed
  then show ?case using Cons.IH [of r] unfolding step by (simp add: message_bits_def)
qed (simp add: message_bits_def)

subsection \<open>The two classes agree\<close>

lemma lows_of_nat:
  "B \<le> LENGTH('v) \<Longrightarrow> B \<le> LENGTH('w) \<Longrightarrow> lows B (of_nat P :: 'v::len word) = lows B (of_nat P :: 'w::len word)"
  by (auto simp: lows_def fun_eq_iff bit_of_nat_iff possible_bit_def)

lemma masked_eq_iff:
  assumes "B \<le> LENGTH('v)" and "B \<le> LENGTH('w)"
  shows "ucast (v AND sig_bits B :: 'v::len word) = (w AND sig_bits B :: 'w::len word) \<longleftrightarrow> lows B v = lows B w"
proof
  assume eq: "ucast (v AND sig_bits B) = (w AND sig_bits B :: 'w word)"
  have "bit v i = bit w i" if "i < B" for i
  proof -
    have "bit (ucast (v AND sig_bits B) :: 'w word) i = bit (w AND sig_bits B) i" by (simp only: eq)
    then show ?thesis using that assms by (simp add: bit_ucast_iff bit_and_iff bit_sig_bits)
  qed
  then show "lows B v = lows B w" by (auto simp: lows_def)
next
  assume "lows B v = lows B w"
  then have "i < B \<Longrightarrow> bit v i = bit w i" for i by (metis lows_def)
  then show "ucast (v AND sig_bits B) = (w AND sig_bits B :: 'w word)"
    using assms by (intro bit_word_eqI) (auto simp: bit_ucast_iff bit_and_iff bit_sig_bits)
qed

lemma lows_mask: "B \<le> LENGTH('v) \<Longrightarrow> lows B (w AND sig_bits B :: 'v::len word) = lows B w"
  by (auto simp: lows_def fun_eq_iff bit_and_iff bit_sig_bits)

lemma lows_out:
  fixes r :: "'v::len word"
  assumes "B \<le> LENGTH('v)"
  shows "lows B (if f then reflect B r else r) = (if f then \<lambda>i. i < B \<and> lows B r (B - 1 - i) else lows B r)"
  by (simp add: lows_reflect [OF assms])

lemma opt_out:
  fixes t :: "'v::len optimal_traits"
  assumes "ct_bits t \<le> LENGTH('v)"
  shows "lows (ct_bits t) (helper_reflect (ct_reflect_rem t \<noteq> ct_reflect_in t) (ct_bits t) rem)
       = (if ct_reflect_rem t then \<lambda>i. i < ct_bits t \<and> opt_reg t rem (ct_bits t - 1 - i) else opt_reg t rem)"
  using assms
  by (cases "ct_reflect_rem t"; cases "ct_reflect_in t")
    (auto simp: fun_eq_iff opt_reg_def helper_reflect_def lows_def bit_reflect)

lemma opt_inv_start: "ct_bits t \<le> LENGTH('v) \<Longrightarrow> opt_inv t (optimal_ctor t (r :: 'v::len word))"
  by (auto simp: opt_inv_bits optimal_ctor_def helper_reflect_def bit_reflect)

lemma opt_reg_start: "ct_bits t \<le> LENGTH('v) \<Longrightarrow> opt_reg t (optimal_ctor t (r :: 'v::len word)) = lows (ct_bits t) r"
  by (auto simp: opt_reg_def optimal_ctor_def helper_reflect_def lows_def bit_reflect fun_eq_iff)

subsection \<open>Augmented messages\<close>

text \<open>An augmented step shifts the bit in at the bottom, where \<^const>\<open>div_step\<close> adds it at the top.\<close>

definition aug_step :: "nat \<Rightarrow> (nat \<Rightarrow> bool) \<Rightarrow> (nat \<Rightarrow> bool) \<Rightarrow> bool \<Rightarrow> nat \<Rightarrow> bool" where
  "aug_step B p f b = fxor (div_step B p f False) (\<lambda>i. i = 0 \<and> b)"

definition aug_steps :: "nat \<Rightarrow> (nat \<Rightarrow> bool) \<Rightarrow> bool list \<Rightarrow> (nat \<Rightarrow> bool) \<Rightarrow> nat \<Rightarrow> bool" where
  "aug_steps B p bs f = foldl (aug_step B p) f bs"

lemma aug_steps_simps [simp]:
  "aug_steps B p [] f = f"
  "aug_steps B p (b # bs) f = aug_steps B p bs (aug_step B p f b)"
  "aug_steps B p (bs @ cs) f = aug_steps B p cs (aug_steps B p bs f)"
  by (simp_all add: aug_steps_def)

lemma fxor_assoc: "fxor (fxor f g) h = fxor f (fxor g h)"
  by (auto simp: fxor_def)

lemma fxor_zero [simp]: "fxor f (\<lambda>_. False) = f" "fxor (\<lambda>_. False) f = f"
  by (auto simp: fxor_def)

lemma div_zeros_xor:
  "div_steps B p (replicate n False) (fxor f g)
     = fxor (div_steps B p (replicate n False) f) (div_steps B p (replicate n False) g)"
  using div_steps_xor [of "replicate n False" "replicate n False" B p f g]
  by (simp add: zip_replicate map_replicate)

lemma div_zero_step_xor: "div_step B p (fxor f g) False = fxor (div_step B p f False) (div_step B p g False)"
  using div_zeros_xor [of B p 1 f g] by simp

text \<open>The message shifted in below is added to what the register becomes by itself.\<close>

lemma aug_steps_split:
  "aug_steps B p bs (fxor f g) = fxor (div_steps B p (replicate (length bs) False) f) (aug_steps B p bs g)"
proof (induction bs arbitrary: f g)
  case (Cons b bs)
  have "aug_step B p (fxor f g) b = fxor (div_step B p f False) (aug_step B p g b)"
    by (simp add: aug_step_def div_zero_step_xor fxor_assoc)
  then show ?case by (simp add: Cons.IH)
qed simp

lemma aug_steps_shift_in:
  assumes "n + length bs \<le> B" and "\<And>i. n \<le> i \<Longrightarrow> \<not> f i"
  shows "aug_steps B p bs f = (\<lambda>i. if i < length bs then bs ! (length bs - 1 - i) else f (i - length bs))"
  using assms
proof (induction bs arbitrary: f n)
  case (Cons b bs)
  define g where "g = (\<lambda>i. if i = 0 then b else f (i - 1))"
  have low: "\<not> f (B - Suc 0)" using Cons.prems by simp
  have step: "aug_step B p f b = g"
  proof
    fix i
    have "i < B \<or> \<not> f (i - 1)" using Cons.prems by auto
    then show "aug_step B p f b i = g i" using low Cons.prems(1) by (auto simp: aug_step_def div_step_def fxor_def g_def)
  qed
  have ih: "aug_steps B p bs g = (\<lambda>i. if i < length bs then bs ! (length bs - 1 - i) else g (i - length bs))"
    by (rule Cons.IH [of "Suc n"]) (use Cons.prems in \<open>auto simp: g_def\<close>)
  have "(if i < length bs then bs ! (length bs - 1 - i) else g (i - length bs))
      = (if i < Suc (length bs) then (b # bs) ! (length bs - i) else f (i - Suc (length bs)))" for i
  proof (cases "i < length bs")
    case True
    then have "length bs - i = Suc (length bs - 1 - i)" by simp
    then show ?thesis using True by simp
  next
    case False
    then show ?thesis by (cases "i = length bs") (auto simp: g_def)
  qed
  then show ?case unfolding aug_steps_simps step ih by simp
qed simp

text \<open>After as many zeros as the register has bits, a bit from the bottom has arrived where the top one enters.\<close>

lemma div_zeros_unit:
  assumes "0 < B"
  shows "div_steps B p (replicate B False) (\<lambda>i. i = 0 \<and> b) = div_step B p (\<lambda>_. False) b"
proof -
  have r: "replicate B False = replicate (B - 1) False @ [False]"
    using assms replicate_append_same [of "B - 1" False] by (cases B) auto
  have "div_steps B p (replicate (B - 1) False) (\<lambda>i. i = 0 \<and> b) = (\<lambda>i. i = B - 1 \<and> b)"
    by (subst div_steps_shift) (use assms in auto)
  then show ?thesis unfolding r div_steps_simps
    by (auto simp: fun_eq_iff div_step_def) 
qed

lemma div_step_split: "div_step B p f b = fxor (div_step B p f False) (div_step B p (\<lambda>_. False) b)"
  by (auto simp: div_step_def fxor_def)

lemma aug_steps_div:
  assumes "0 < B"
  shows "div_steps B p (replicate B False) (aug_steps B p bs f) = div_steps B p bs (div_steps B p (replicate B False) f)"
proof (induction bs arbitrary: f)
  case (Cons b bs)
  have swap: "div_steps B p (replicate B False) (div_step B p f False) = div_step B p (div_steps B p (replicate B False) f) False"
    using div_steps_simps(3) [of B p "replicate B False" "[False]" f] replicate_append_same [of B False] by simp
  have "div_steps B p (replicate B False) (aug_step B p f b)
      = fxor (div_step B p (div_steps B p (replicate B False) f) False) (div_step B p (\<lambda>_. False) b)"
    unfolding aug_step_def div_zeros_xor div_zeros_unit [OF assms] swap ..
  then show ?case by (simp add: Cons.IH flip: div_step_split)
qed simp

lemma lows_byte:
  "B \<le> LENGTH('v) \<Longrightarrow> 8 \<le> B \<Longrightarrow>
     lows B (ucast (x :: byte_type) :: 'v::len word) = aug_steps B p (byte_bits x) (\<lambda>_. False)"
  by (subst aug_steps_shift_in [of 0])
    (auto simp: lows_def bit_ucast_iff fun_eq_iff dest: bit_imp_le_length)

lemma aug_byte:
  fixes r p :: "'v::len word"
  assumes "8 \<le> B" and "B \<le> LENGTH('v)"
  shows "lows B ((push_bit 8 r OR ucast x) XOR crc_table B p False ! unat (ucast (drop_bit (B - 8) r) :: byte_type))
       = aug_steps B (lows B p) (byte_bits x) (lows B r)"
proof -
  let ?a = "ucast (drop_bit (B - 8) r) :: byte_type" and ?s = "\<lambda>i. i < B \<and> 8 \<le> i \<and> lows B r (i - 8)"
  have top: "bit ?a (7 - i) \<longleftrightarrow> i < B \<and> lows B r (B - 1 - i)" if "i < 8" for i
  proof -
    have "B - 8 + (7 - i) = B - 1 - i" "7 - i < 8" using that assms(1) by auto
    then show ?thesis using that assms by (simp add: lows_def bit_ucast_iff bit_drop_bit_eq)
  qed
  have zeros: "byte_bits 0 = replicate 8 False" by (rule nth_equalityI) auto
  have z: "div_steps B (lows B p) (byte_bits 0) (lows B r) = fxor (lows B (table_entry B p (0 XOR ?a))) ?s"
    by (rule div_steps_byte) (use assms in \<open>simp_all add: lows_outside top [simplified]\<close>)
  have "aug_steps B (lows B p) (byte_bits x) (lows B r)
      = fxor (div_steps B (lows B p) (byte_bits 0) (lows B r)) (aug_steps B (lows B p) (byte_bits x) (\<lambda>_. False))"
    using aug_steps_split [of B "lows B p" "byte_bits x" "lows B r" "\<lambda>_. False"] zeros by simp
  also have "\<dots> = fxor (fxor (lows B (table_entry B p ?a)) ?s) (lows B (ucast x :: 'v word))"
    unfolding z using lows_byte [OF assms(2,1), of x] by simp
  also have "\<dots> = fxor (lows B (push_bit 8 r OR ucast x)) (lows B (table_entry B p ?a))"
  proof -
    have "lows B (push_bit 8 r OR ucast x) = (\<lambda>i. ?s i \<or> lows B (ucast x :: 'v word) i)"
      using lows_push [OF assms(2), of r] by (auto simp: lows_def bit_or_iff fun_eq_iff)
    moreover have "\<not> (?s i \<and> lows B (ucast x :: 'v word) i)" for i
      using bit_imp_le_length [of x i] by (auto simp: lows_def bit_ucast_iff)
    ultimately show ?thesis by (auto simp: fun_eq_iff fxor_def)
  qed
  finally show ?thesis unfolding crc_table_plain lows_xor by simp
qed

lemma augmented_loop_ok:
  fixes r p :: "'v::len word"
  assumes "8 \<le> B" and "B \<le> LENGTH('v)"
  shows "lows B (augmented_loop B p buffer r) = aug_steps B (lows B p) (message_bits False buffer) (lows B r)"
proof (induction buffer arbitrary: r)
  case (Cons x buffer)
  show ?case unfolding augmented_loop.simps Let_def Cons.IH aug_byte [OF assms]
    by (simp add: message_bits_def)
qed (simp add: message_bits_def)

text \<open>A checksum appended to its message, most significant byte first.\<close>

definition big_endian :: "nat \<Rightarrow> 'v::len word \<Rightarrow> byte_type list" where
  "big_endian k w = map (\<lambda>j. ucast (drop_bit (8 * (k - 1 - j)) w)) [0..<k]"

lemma nth_message_bits:
  assumes "i < 8 * length buffer"
  shows "message_bits False buffer ! i = bit (buffer ! (i div 8)) (7 - i mod 8)"
  using assms
proof (induction buffer arbitrary: i)
  case (Cons x buffer)
  show ?case
  proof (cases "i < 8")
    case False
    then obtain j where "i = 8 + j" using le_Suc_ex [of 8 i] by auto
    moreover from this have "i div 8 = Suc (j div 8)" by simp
    ultimately show ?thesis using Cons by (simp add: message_bits_def nth_append)
  qed (simp add: message_bits_def nth_append)
qed simp

lemma length_message_bits [simp]: "length (message_bits f buffer) = 8 * length buffer"
  by (induction buffer) (simp_all add: message_bits_def)

lemma message_bits_append: "message_bits f (xs @ ys) = message_bits f xs @ message_bits f ys"
  by (simp add: message_bits_def)

lemma from_the_end:
  assumes "i < 8 * (k :: nat)"
  shows "(8 * k - 1 - i) div 8 = k - 1 - i div 8" and "7 - (8 * k - 1 - i) mod 8 = i mod 8" and "i div 8 < k"
proof -
  define a b where "a = i div 8" and "b = i mod 8"
  then have i: "i = 8 * a + b" and b: "b < 8" by simp_all
  then have a: "a < k" using assms by simp
  define c where "c = 7 - b"
  have c: "c < 8" "7 - c = b" using b by (simp_all add: c_def)
  have split: "8 * k - 1 - i = 8 * (k - 1 - a) + c" using i b a by (simp add: c_def)
  show "(8 * k - 1 - i) div 8 = k - 1 - i div 8" "7 - (8 * k - 1 - i) mod 8 = i mod 8" "i div 8 < k"
    unfolding split a_def [symmetric] b_def [symmetric] using a c by simp_all
qed

lemma aug_big_endian:
  fixes w :: "'v::len word"
  assumes "0 < k" and "8 * k \<le> LENGTH('v)"
  shows "aug_steps (8 * k) p (message_bits False (big_endian k w)) (\<lambda>_. False) = lows (8 * k) w"
proof -
  have "message_bits False (big_endian k w) ! (8 * k - 1 - i) = bit w i" if "i < 8 * k" for i
  proof -
    have lt: "8 * k - 1 - i < 8 * length (big_endian k w)" using that by (simp add: big_endian_def)
    note pos = from_the_end [OF that]
    have "k - 1 - (k - 1 - i div 8) = i div 8" and "k - 1 - i div 8 < k" using pos(3) by simp_all
    then have "big_endian k w ! (k - 1 - i div 8) = ucast (drop_bit (8 * (i div 8)) w)"
      by (simp add: big_endian_def)
    moreover have "8 * (i div 8) + i mod 8 = i" by simp
    ultimately show ?thesis unfolding nth_message_bits [OF lt] pos(1,2)
      by (simp add: bit_ucast_iff bit_drop_bit_eq)
  qed
  then show ?thesis
    by (subst aug_steps_shift_in [of 0]) (auto simp: fun_eq_iff lows_def big_endian_def)
qed

subsection \<open>Properties\<close>

text \<open>C21 (the table-driven computation is the bitwise one): for every register size from one bit up,
  every polynomial, initial remainder and final mask, and both reflections, processing a buffer byte by
  byte through the lookup table of \<^verbatim>\<open>crc_optimal\<close> gives the interim remainder and the checksum that
  \<^verbatim>\<open>crc_basic\<close> computes bit by bit, although the two keep their registers in words of different widths and,
  with reflected input, in opposite bit orders. The free function \<^verbatim>\<open>crc\<close> is that checksum.\<close>

theorem crc_optimal_is_basic:
  fixes P I F :: nat and t :: "'w::len optimal_traits"
  assumes "0 < B" and "B \<le> LENGTH('v::len)" and "B \<le> LENGTH('w)" and "8 \<le> LENGTH('w)"
    and "t = \<lparr>ct_bits = B, ct_trunc_poly = of_nat P, ct_init_rem = of_nat I, ct_final_xor = of_nat F,
              ct_reflect_in = rin, ct_reflect_rem = rout\<rparr>"
  shows "\<exists>c. basic_process_block B buffer (crc_basic_ctor (of_nat P) (of_nat I) (of_nat F) rin rout :: 'v basic_crc) = Some c
    \<and> optimal_interim_remainder t (optimal_process_block t buffer (optimal_ctor t (of_nat I))) = ucast (basic_interim_remainder B c)
    \<and> crc t buffer = ucast (basic_checksum B c)"
proof -
  let ?c0 = "crc_basic_ctor (of_nat P) (of_nat I) (of_nat F) rin rout :: 'v basic_crc"
  let ?rem = "optimal_process_block t buffer (optimal_ctor t (of_nat I))"
  have f: "ct_bits t = B" "ct_trunc_poly t = of_nat P" "ct_init_rem t = of_nat I" "ct_final_xor t = of_nat F"
    "ct_reflect_in t = rin" "ct_reflect_rem t = rout" by (simp_all add: assms(5))
  then have t: "0 < ct_bits t" "ct_bits t \<le> LENGTH('w)" using assms(1,3) by simp_all
  note same = lows_of_nat [OF assms(2,3)]
  obtain c where c: "basic_process_block B buffer ?c0 = Some c"
    "lows B (bc_rem c) = div_steps B (lows B (of_nat P :: 'w word)) (message_bits rin buffer) (lows B (of_nat I :: 'w word))"
    "bc_final c = of_nat F" "bc_rft_out c = rout"
    using basic_process_block_ok [OF assms(1,2), of buffer ?c0] by (auto simp: crc_basic_ctor_def same)
  have reg: "opt_reg t ?rem = lows B (bc_rem c)"
    using opt_process_block_ok [OF t assms(4) opt_inv_start [OF t(2)], of buffer "of_nat I"]
    by (simp only: opt_reg_start [OF t(2)] c(2) f)
  have "optimal_interim_remainder t ?rem = ucast (basic_interim_remainder B c)"
    using reg masked_eq_iff [OF assms(2,3), of "bc_rem c"]
    by (simp add: f optimal_interim_remainder_def basic_interim_remainder_def opt_reg_def eq_commute [of _ "ucast _"])
  moreover have "crc t buffer = ucast (basic_checksum B c)"
    using opt_out [OF t(2), of ?rem] lows_out [OF assms(2), of rout "bc_rem c"] reg
      masked_eq_iff [OF assms(2,3)]
    by (simp add: f crc_def optimal_checksum_def basic_checksum_def c(3,4) lows_xor same eq_commute [of _ "ucast _"])
  ultimately show ?thesis using c(1) by blast
qed

theorem crc_optimal_is_basic_witness:
  "\<exists>c. basic_process_block 16 [0x31, 0x32, 0x33] (crc_basic_ctor (of_nat 0x8005) (of_nat 0) (of_nat 0) True True :: 16 basic_crc) = Some c
    \<and> optimal_interim_remainder \<lparr>ct_bits = 16, ct_trunc_poly = of_nat 0x8005 :: 32 word, ct_init_rem = of_nat 0, ct_final_xor = of_nat 0,
              ct_reflect_in = True, ct_reflect_rem = True\<rparr> (optimal_process_block \<lparr>ct_bits = 16, ct_trunc_poly = of_nat 0x8005 :: 32 word, ct_init_rem = of_nat 0, ct_final_xor = of_nat 0,
              ct_reflect_in = True, ct_reflect_rem = True\<rparr> [0x31, 0x32, 0x33] (optimal_ctor \<lparr>ct_bits = 16, ct_trunc_poly = of_nat 0x8005 :: 32 word, ct_init_rem = of_nat 0, ct_final_xor = of_nat 0,
              ct_reflect_in = True, ct_reflect_rem = True\<rparr> (of_nat 0))) = ucast (basic_interim_remainder 16 c)
    \<and> crc \<lparr>ct_bits = 16, ct_trunc_poly = of_nat 0x8005 :: 32 word, ct_init_rem = of_nat 0, ct_final_xor = of_nat 0,
              ct_reflect_in = True, ct_reflect_rem = True\<rparr> [0x31, 0x32, 0x33] = ucast (basic_checksum 16 c)"
  by (rule crc_optimal_is_basic [where ?'v = 16, OF _ _ _ _ refl]) simp_all

text \<open>C30 (augmented messages): with an unreflected register of \<open>k\<close> bytes, \<^verbatim>\<open>augmented_crc\<close> of a message
  followed by \<open>k\<close> bytes \<open>w\<close>, most significant first, is the checksum of the message, without its augmentation
  and with the initial remainder carried over, combined by XOR with \<open>w\<close>. So a message followed by
  zeros gives the checksum, and a message followed by its own checksum gives zero.\<close>

theorem augmented_crc_checks:
  fixes P r0 i0 :: "'v::len word"
  assumes "0 < k" and "8 * k \<le> LENGTH('v)"
    and "augmented_crc (8 * k) P (replicate k 0) r0 = Some i0"
    and "t = \<lparr>ct_bits = 8 * k, ct_trunc_poly = P, ct_init_rem = i0, ct_final_xor = 0,
              ct_reflect_in = False, ct_reflect_rem = False\<rparr>"
  shows "augmented_crc (8 * k) P (msg @ big_endian k w) r0 = Some (crc t msg XOR (w AND sig_bits (8 * k)))
    \<and> augmented_crc (8 * k) P (msg @ big_endian k (crc t msg)) r0 = Some 0"
proof -
  let ?B = "8 * k" and ?T = "div_steps (8 * k) (lows (8 * k) P) (replicate (8 * k) False)"
  have f: "ct_bits t = ?B" "ct_trunc_poly t = P" "ct_init_rem t = i0" "ct_final_xor t = 0"
    "ct_reflect_in t = False" "ct_reflect_rem t = False" by (simp_all add: assms(4))
  then have B: "8 \<le> ?B" "0 < ?B" "0 < ct_bits t" "ct_bits t \<le> LENGTH('v)" "8 \<le> LENGTH('v)" using assms(1,2) by simp_all
  have len: "length (message_bits False (big_endian k w)) = ?B" for w :: "'v word" by (simp add: big_endian_def)
  have zero: "replicate k 0 = big_endian k (0 :: 'v word)"
    by (rule nth_equalityI) (simp_all add: big_endian_def)
  have tail: "aug_steps ?B (lows ?B P) (message_bits False (big_endian k w)) f = fxor (?T f) (lows ?B w)" for f and w :: "'v word"
    using aug_steps_split [of ?B "lows ?B P" "message_bits False (big_endian k w)" f "\<lambda>_. False"]
    unfolding len aug_big_endian [OF assms(1,2)] by simp
  have "i0 = augmented_loop ?B P (replicate k 0) r0 AND sig_bits ?B"
    using assms(3) by (simp add: augmented_crc_def split: if_splits)
  then have "lows ?B i0 = lows ?B (augmented_loop ?B P (replicate k 0) r0)"
    by (simp only: lows_mask [OF assms(2)])
  then have i0: "lows ?B i0 = ?T (lows ?B r0)"
    unfolding zero augmented_loop_ok [OF B(1) assms(2)] tail by simp
  have crc: "lows ?B (crc t msg) = div_steps ?B (lows ?B P) (message_bits False msg) (lows ?B i0)"
    using opt_process_block_ok [OF B(3,4,5) opt_inv_start [OF B(4)], of msg i0] opt_reg_start [OF B(4), of i0]
    by (simp add: f crc_def optimal_checksum_def opt_reg_def helper_reflect_def lows_mask [OF assms(2)])
  have all: "lows ?B (augmented_loop ?B P (msg @ big_endian k w) r0) = fxor (lows ?B (crc t msg)) (lows ?B w)" for w :: "'v word"
    unfolding augmented_loop_ok [OF B(1) assms(2)] message_bits_append aug_steps_simps tail aug_steps_div [OF B(2)] crc i0 ..
  have top: "crc t msg AND sig_bits ?B = crc t msg" by (simp add: f crc_def optimal_checksum_def ac_simps)
  have res: "augmented_loop ?B P (msg @ big_endian k w) r0 AND sig_bits ?B = crc t msg XOR (w AND sig_bits ?B)" for w :: "'v word"
  proof -
    have "ucast (augmented_loop ?B P (msg @ big_endian k w) r0 AND sig_bits ?B) = (crc t msg XOR w) AND sig_bits ?B"
      unfolding masked_eq_iff [OF assms(2,2)] all lows_xor ..
    then show ?thesis using top by (simp add: bit.conj_xor_distrib2)
  qed
  have "crc t msg XOR (crc t msg AND sig_bits ?B) = 0" unfolding top by simp
  then show ?thesis using res B(1) by (simp add: augmented_crc_def)
qed

theorem augmented_crc_checks_witness:
  "augmented_crc (8 * 2) (0x1021 :: 32 word) ([0x31, 0x32, 0x33] @ big_endian 2 (0x1234 :: 32 word)) 0
      = Some (crc \<lparr>ct_bits = 8 * 2, ct_trunc_poly = 0x1021 :: 32 word, ct_init_rem = 0, ct_final_xor = 0,
              ct_reflect_in = False, ct_reflect_rem = False\<rparr> [0x31, 0x32, 0x33] XOR (0x1234 AND sig_bits (8 * 2)))
    \<and> augmented_crc (8 * 2) (0x1021 :: 32 word) ([0x31, 0x32, 0x33] @ big_endian 2 (crc \<lparr>ct_bits = 8 * 2, ct_trunc_poly = 0x1021 :: 32 word, ct_init_rem = 0, ct_final_xor = 0,
              ct_reflect_in = False, ct_reflect_rem = False\<rparr> [0x31, 0x32, 0x33])) 0 = Some 0"
proof (rule augmented_crc_checks [OF _ _ _ refl])
  have "table_entry (8 * 2) (0x1021 :: 32 word) 0 = 0" by code_simp
  then show "augmented_crc (8 * 2) (0x1021 :: 32 word) (replicate 2 0) 0 = Some 0"
    using crc_table_plain [of "8 * 2" "0x1021 :: 32 word" 0] by (simp add: augmented_crc_def numeral_2_eq_2 Let_def)
qed simp_all

end
