(* ===== verification/Spsc_Queue.thy ===== *)
theory Spsc_Queue
  imports Data_Refinement "HOL-Library.Monad_Syntax"
begin

text \<open>
  The single-producer single-consumer ring buffer of \<^verbatim>\<open>lockfree/spsc_queue.hpp\<close>: \<^verbatim>\<open>ringbuffer_base\<close>, its
  two storage classes and \<^verbatim>\<open>spsc_queue\<close>.

  Indices are 64-bit words and keep the wrap-around of \<^verbatim>\<open>size_t\<close> (\<^verbatim>\<open>write_available\<close> relies on it). A
  slot of the buffer is \<^term>\<open>None\<close> while it holds no object. Every member first loads the two indices,
  then works on slots of the buffer, then stores one index. The first part is a definition of its own
  (\<open>\<dots>_plan\<close>) that yields the slots and the new index; this theory executes a plan at once, as a thread
  that is alone does, and \<open>Spsc_Threads\<close> slot by slot between the steps of the other thread.
\<close>

type_synonym size_t = "64 word"

subsection \<open>Indices\<close>

partial_function (option) next_index_loop :: "size_t \<Rightarrow> size_t \<Rightarrow> size_t option" where
  "next_index_loop ret max_size =
     (if ret \<ge> max_size then next_index_loop (ret - max_size) max_size else Some ret)"

definition next_index :: "size_t \<Rightarrow> size_t \<Rightarrow> size_t option" where
  "next_index arg max_size = next_index_loop (arg + 1) max_size"

definition read_available :: "size_t \<Rightarrow> size_t \<Rightarrow> size_t \<Rightarrow> size_t" where
  "read_available write_index read_index max_size =
     (if write_index \<ge> read_index then write_index - read_index
      else write_index + max_size - read_index)"

definition write_available :: "size_t \<Rightarrow> size_t \<Rightarrow> size_t \<Rightarrow> size_t" where
  "write_available write_index read_index max_size =
     (let ret = read_index - write_index - 1
      in if write_index \<ge> read_index then ret + max_size else ret)"

subsection \<open>The decisions of the members\<close>

text \<open>
  What the producer will construct, slot by slot, and the index it will store; \<^term>\<open>Some None\<close> when the
  member returns without an effect.
\<close>

type_synonym 'a push_plan = "((nat \<times> 'a) list \<times> size_t) option"

definition push_plan :: "size_t \<Rightarrow> size_t \<Rightarrow> 'a \<Rightarrow> size_t \<Rightarrow> 'a push_plan option" where
  "push_plan write_index read_index t max_size = do {
     next_idx \<leftarrow> next_index write_index max_size;
     Some (if next_idx = read_index then None
           else Some ([(unat write_index, t)], next_idx)) }"

definition uninitialized_copy_slots :: "'a list \<Rightarrow> nat \<Rightarrow> (nat \<times> 'a) list" where
  "uninitialized_copy_slots vals pos = zip [pos..<pos + length vals] vals"

definition push_range_plan :: "size_t \<Rightarrow> size_t \<Rightarrow> 'a list \<Rightarrow> size_t \<Rightarrow> 'a push_plan" where
  "push_range_plan write_index read_index vals max_size =
     (let avail = write_available write_index read_index max_size
      in if avail = 0 then None
         else
           let input_count = min (of_nat (length vals)) avail;
               new_write_index = write_index + input_count;
               lasts = take (unat input_count) vals
           in if write_index + input_count > max_size then
                let count0 = max_size - write_index
                in Some (uninitialized_copy_slots (take (unat count0) lasts) (unat write_index)
                           @ uninitialized_copy_slots (drop (unat count0) lasts) 0,
                         new_write_index - max_size)
              else Some (uninitialized_copy_slots lasts (unat write_index),
                         if new_write_index = max_size then 0 else new_write_index))"

text \<open>The slots the consumer will empty, in order, and the index it will store.\<close>

type_synonym pop_plan = "(nat list \<times> size_t) option"

definition consume_one_plan :: "size_t \<Rightarrow> size_t \<Rightarrow> size_t \<Rightarrow> pop_plan option" where
  "consume_one_plan write_index read_index max_size =
     (if write_index = read_index then Some None
      else do {
        next_idx \<leftarrow> next_index read_index max_size;
        Some (Some ([unat read_index], next_idx)) })"

definition drain :: "size_t \<Rightarrow> size_t \<Rightarrow> size_t \<Rightarrow> nat list \<times> size_t" where
  "drain read_index output_count max_size =
     (let new_read_index = read_index + output_count
      in if read_index + output_count > max_size then
           let count0 = max_size - read_index;
               count1 = output_count - count0
           in ([unat read_index..<unat max_size] @ [0..<unat count1], new_read_index - max_size)
         else ([unat read_index..<unat (read_index + output_count)],
               if new_read_index = max_size then 0 else new_read_index))"

definition consume_all_plan :: "size_t \<Rightarrow> size_t \<Rightarrow> size_t \<Rightarrow> pop_plan" where
  "consume_all_plan write_index read_index max_size =
     (let avail = read_available write_index read_index max_size
      in if avail = 0 then None else Some (drain read_index avail max_size))"

definition pop_array_plan :: "size_t \<Rightarrow> size_t \<Rightarrow> size_t \<Rightarrow> size_t \<Rightarrow> pop_plan" where
  "pop_array_plan write_index read_index output_count max_size =
     (let avail = read_available write_index read_index max_size
      in if avail = 0 then None else Some (drain read_index (min output_count avail) max_size))"

definition pop_to_output_iterator_plan :: "size_t \<Rightarrow> size_t \<Rightarrow> size_t \<Rightarrow> pop_plan" where
  "pop_to_output_iterator_plan write_index read_index max_size =
     (let avail = read_available write_index read_index max_size
      in if avail = 0 then None else Some (drain read_index avail max_size))"

subsection \<open>The work on the slots\<close>

text \<open>
  A construction over a live object would leak it; with a trivial destructor an object's lifetime may
  end by reuse of its memory. Reading a slot without an object is undefined.
\<close>

definition construct :: "bool \<Rightarrow> nat \<Rightarrow> 'a \<Rightarrow> 'a option list \<Rightarrow> 'a option list option" where
  "construct trivial i v buffer =
     (if i < length buffer \<and> (trivial \<or> buffer ! i = None) then Some (buffer[i := Some v]) else None)"

definition fetch :: "bool \<Rightarrow> nat \<Rightarrow> 'a option list \<Rightarrow> ('a \<times> 'a option list) option" where
  "fetch destroy i buffer =
     (if i < length buffer then
        case buffer ! i of None \<Rightarrow> None
        | Some v \<Rightarrow> Some (v, if destroy then buffer[i := None] else buffer)
      else None)"

fun construct_all :: "bool \<Rightarrow> (nat \<times> 'a) list \<Rightarrow> 'a option list \<Rightarrow> 'a option list option" where
  "construct_all trivial [] buffer = Some buffer"
| "construct_all trivial ((i, v) # todo) buffer =
     Option.bind (construct trivial i v buffer) (construct_all trivial todo)"

text \<open>\<^verbatim>\<open>run_functor_and_delete\<close> destroys every object, \<^verbatim>\<open>copy_and_delete\<close> only with a non-trivial destructor.\<close>

fun fetch_all :: "bool \<Rightarrow> nat list \<Rightarrow> 'a option list \<Rightarrow> ('a list \<times> 'a option list) option" where
  "fetch_all destroy [] buffer = Some ([], buffer)"
| "fetch_all destroy (i # todo) buffer = do {
     (v, buffer1) \<leftarrow> fetch destroy i buffer;
     (vs, buffer2) \<leftarrow> fetch_all destroy todo buffer1;
     Some (v # vs, buffer2) }"

subsection \<open>The members, for a thread that is alone\<close>

record 'a ringbuffer =
  rb_write_index :: size_t
  rb_read_index :: size_t
  rb_data :: "'a option list"
  rb_max_elements :: size_t
  has_trivial_destructor :: bool

definition ringbuffer_ctor :: "bool \<Rightarrow> size_t \<Rightarrow> 'a ringbuffer" where
  "ringbuffer_ctor trivial max_elements =
     \<lparr>rb_write_index = 0, rb_read_index = 0, rb_data = replicate (unat (max_elements + 1)) None,
      rb_max_elements = max_elements + 1, has_trivial_destructor = trivial\<rparr>"

definition commit_push :: "'a ringbuffer \<Rightarrow> 'a push_plan \<Rightarrow> ('a ringbuffer \<times> nat) option" where
  "commit_push b plan =
     (case plan of None \<Rightarrow> Some (b, 0)
      | Some (todo, new_index) \<Rightarrow> do {
          buffer \<leftarrow> construct_all (has_trivial_destructor b) todo (rb_data b);
          Some (b\<lparr>rb_data := buffer, rb_write_index := new_index\<rparr>, length todo) })"

definition commit_pop :: "bool \<Rightarrow> 'a ringbuffer \<Rightarrow> pop_plan \<Rightarrow> ('a ringbuffer \<times> 'a list) option" where
  "commit_pop destroy b plan =
     (case plan of None \<Rightarrow> Some (b, [])
      | Some (todo, new_index) \<Rightarrow> do {
          (vs, buffer) \<leftarrow> fetch_all destroy todo (rb_data b);
          Some (b\<lparr>rb_data := buffer, rb_read_index := new_index\<rparr>, vs) })"

definition rb_push :: "'a \<Rightarrow> 'a ringbuffer \<Rightarrow> ('a ringbuffer \<times> bool) option" where
  "rb_push t b = do {
     plan \<leftarrow> push_plan (rb_write_index b) (rb_read_index b) t (rb_max_elements b);
     (b1, n) \<leftarrow> commit_push b plan;
     Some (b1, plan \<noteq> None) }"

text \<open>The number of elements taken, which is the distance the returned iterator has moved.\<close>

definition rb_push_range :: "'a list \<Rightarrow> 'a ringbuffer \<Rightarrow> ('a ringbuffer \<times> nat) option" where
  "rb_push_range vals b =
     commit_push b (push_range_plan (rb_write_index b) (rb_read_index b) vals (rb_max_elements b))"

definition rb_consume_one :: "'a ringbuffer \<Rightarrow> ('a ringbuffer \<times> 'a list) option" where
  "rb_consume_one b = do {
     plan \<leftarrow> consume_one_plan (rb_write_index b) (rb_read_index b) (rb_max_elements b);
     commit_pop True b plan }"

definition rb_consume_all :: "'a ringbuffer \<Rightarrow> ('a ringbuffer \<times> 'a list) option" where
  "rb_consume_all b =
     commit_pop True b (consume_all_plan (rb_write_index b) (rb_read_index b) (rb_max_elements b))"

definition rb_pop_array :: "size_t \<Rightarrow> 'a ringbuffer \<Rightarrow> ('a ringbuffer \<times> 'a list) option" where
  "rb_pop_array output_count b =
     commit_pop (\<not> has_trivial_destructor b) b
       (pop_array_plan (rb_write_index b) (rb_read_index b) output_count (rb_max_elements b))"

definition rb_pop_to_output_iterator :: "'a ringbuffer \<Rightarrow> ('a ringbuffer \<times> 'a list) option" where
  "rb_pop_to_output_iterator b =
     commit_pop (\<not> has_trivial_destructor b) b
       (pop_to_output_iterator_plan (rb_write_index b) (rb_read_index b) (rb_max_elements b))"

definition rb_read_available :: "'a ringbuffer \<Rightarrow> size_t" where
  "rb_read_available b = read_available (rb_write_index b) (rb_read_index b) (rb_max_elements b)"

definition rb_write_available :: "'a ringbuffer \<Rightarrow> size_t" where
  "rb_write_available b = write_available (rb_write_index b) (rb_read_index b) (rb_max_elements b)"

definition rb_empty :: "'a ringbuffer \<Rightarrow> bool" where
  "rb_empty b \<longleftrightarrow> rb_write_index b = rb_read_index b"

definition rb_front :: "'a ringbuffer \<Rightarrow> 'a option" where
  "rb_front b =
     (if rb_read_available b > 0 then
        map_option fst (fetch False (unat (rb_read_index b)) (rb_data b))
      else None)"

partial_function (option) pop_until_empty :: "'a ringbuffer \<Rightarrow> 'a ringbuffer option" where
  "pop_until_empty b = do {
     (b1, vs) \<leftarrow> rb_consume_one b;
     if vs = [] then Some b1 else pop_until_empty b1 }"

definition rb_reset :: "'a ringbuffer \<Rightarrow> 'a ringbuffer option" where
  "rb_reset b =
     (if \<not> has_trivial_destructor b then pop_until_empty b
      else Some (b\<lparr>rb_write_index := 0, rb_read_index := 0\<rparr>))"

text \<open>The destructor of \<^verbatim>\<open>runtime_sized_ringbuffer\<close>, up to the release of the memory.\<close>

partial_function (option) rb_destroy :: "'a ringbuffer \<Rightarrow> 'a ringbuffer option" where
  "rb_destroy b = do {
     (b1, vs) \<leftarrow> rb_pop_array 1 b;
     if vs = [] then Some b1 else rb_destroy b1 }"

subsection \<open>Index arithmetic\<close>

text \<open>
  The indices count modulo the size of the buffer. The size is at most \<open>2\<^sup>6\<^sup>3\<close>: the source adds two values
  below it, and no object in memory is that large.
\<close>

definition size_ok :: "size_t \<Rightarrow> bool" where
  "size_ok m \<longleftrightarrow> 0 < unat m \<and> unat m \<le> 2 ^ 63"

definition slot_of :: "size_t \<Rightarrow> nat \<Rightarrow> nat" where
  "slot_of m k = k mod unat m"

definition idx :: "size_t \<Rightarrow> nat \<Rightarrow> size_t" where
  "idx m k = of_nat (slot_of m k)"

lemma slot_less: "size_ok m \<Longrightarrow> slot_of m k < unat m"
  by (simp add: size_ok_def slot_of_def)

lemma unat_of_nat_small: "n < 2 ^ 64 \<Longrightarrow> unat (of_nat n :: size_t) = n"
  by (simp add: unat_of_nat)

lemma unat_idx: "size_ok m \<Longrightarrow> unat (idx m k) = slot_of m k"
  unfolding idx_def by (rule unat_of_nat_small) (use slot_less [of m k] in \<open>simp add: size_ok_def\<close>)

text \<open>Two counts less than a turn apart.\<close>

lemma slot_ahead:
  assumes "size_ok m" and "d \<le> unat m"
  shows "slot_of m (k + d) = (if slot_of m k + d < unat m then slot_of m k + d else slot_of m k + d - unat m)"
proof -
  let ?M = "unat m" and ?b = "k mod unat m"
  have M: "0 < ?M" "?b < ?M" using assms(1) by (simp_all add: size_ok_def)
  have "(k + d) mod ?M = (?b + d) mod ?M" by (simp add: mod_add_left_eq)
  also have "\<dots> = (if ?b + d < ?M then ?b + d else ?b + d - ?M)"
    using M assms(2) mod_if [of "?b + d" ?M] by auto
  finally show ?thesis by (simp add: slot_of_def)
qed

lemma idx_eq_iff:
  assumes "size_ok m" and "R \<le> W" and "W < R + unat m"
  shows "idx m W = idx m R \<longleftrightarrow> W = R"
proof -
  have "slot_of m W = (if slot_of m R + (W - R) < unat m then slot_of m R + (W - R) else slot_of m R + (W - R) - unat m)"
    using slot_ahead [of m "W - R" R] assms by simp
  then have "slot_of m W = slot_of m R \<longleftrightarrow> W = R" using assms slot_less [of m R] by (auto split: if_splits)
  then show ?thesis using unat_idx [OF assms(1)] by (metis)
qed

lemma next_index_idx: "size_ok m \<Longrightarrow> next_index (idx m k) m = Some (idx m (Suc k))"
proof -
  assume m: "size_ok m"
  have lt: "slot_of m k < unat m" "unat m \<le> 2 ^ 63" "0 < unat m" using m slot_less by (auto simp: size_ok_def)
  then have suc: "idx m k + 1 = of_nat (Suc (slot_of m k))" "unat (idx m k + 1) = Suc (slot_of m k)"
    using unat_of_nat_small [of "Suc (slot_of m k)"] by (simp_all add: idx_def add.commute [of 1])
  show ?thesis
  proof (cases "Suc (slot_of m k) < unat m")
    case True
    then have "\<not> m \<le> idx m k + 1" using suc(2) by (simp add: word_le_nat_alt)
    moreover have "idx m (Suc k) = idx m k + 1"
      using True slot_ahead [OF m, of 1 k] lt(3) suc(1) by (simp add: idx_def [of m "Suc k"])
    ultimately show ?thesis
      by (simp add: next_index_def next_index_loop.simps [of "idx m k + 1"])
  next
    case False
    then have "unat (idx m k + 1) = unat m" using lt suc(2) by simp
    then have full: "idx m k + 1 = m" by (simp only: word_unat_eq_iff)
    have "\<not> m \<le> 0" using lt(3) by (simp add: word_le_nat_alt)
    then have "next_index (idx m k) m = Some 0"
      unfolding next_index_def full by (simp add: next_index_loop.simps [of m] next_index_loop.simps [of 0])
    moreover have "slot_of m (Suc k) = 0" using slot_ahead [OF m, of 1 k] False lt by simp
    ultimately show ?thesis by (simp add: idx_def)
  qed
qed

lemma read_available_idx:
  assumes m: "size_ok m" and "R \<le> W" and "W < R + unat m"
  shows "unat (read_available (idx m W) (idx m R) m) = W - R"
proof -
  have lt: "slot_of m R < unat m" "unat m \<le> 2 ^ 63" "slot_of m W < unat m" using m slot_less by (auto simp: size_ok_def)
  have w: "slot_of m W = (if slot_of m R + (W - R) < unat m then slot_of m R + (W - R) else slot_of m R + (W - R) - unat m)"
    using slot_ahead [OF m, of "W - R" R] assms(2,3) by simp
  have sum: "unat (idx m W + m) = slot_of m W + unat m"
    using lt by (simp add: unat_word_ariths unat_idx [OF m])
  show ?thesis
    using w lt sum assms(2,3) unat_sub_if' [of "idx m W" "idx m R"] unat_sub_if' [of "idx m W + m" "idx m R"]
    by (auto simp: read_available_def word_le_nat_alt unat_idx [OF m] split: if_splits)
qed

lemma write_available_idx:
  assumes m: "size_ok m" and "R \<le> W" and "W < R + unat m"
  shows "unat (write_available (idx m W) (idx m R) m) = unat m - 1 - (W - R)"
proof -
  have lt: "slot_of m R < unat m" "unat m \<le> 2 ^ 63" "slot_of m W < unat m" using m slot_less by (auto simp: size_ok_def)
  have w: "slot_of m W = (if slot_of m R + (W - R) < unat m then slot_of m R + (W - R) else slot_of m R + (W - R) - unat m)"
    using slot_ahead [OF m, of "W - R" R] assms(2,3) by simp
  show ?thesis
  proof (cases "slot_of m W \<ge> slot_of m R")
    case True
    have "write_available (idx m W) (idx m R) m = m - 1 - (idx m W - idx m R)"
      using True by (simp add: write_available_def word_le_nat_alt unat_idx [OF m])
    moreover have "unat (idx m W - idx m R) = slot_of m W - slot_of m R"
      using True unat_sub_if' [of "idx m W" "idx m R"] by (simp add: unat_idx [OF m])
    moreover have "unat (m - 1) = unat m - 1" using m unat_sub_if' [of m 1] by (simp add: size_ok_def)
    ultimately show ?thesis
      using True w lt assms(2,3) unat_sub_if' [of "m - 1" "idx m W - idx m R"] by (auto split: if_splits)
  next
    case False
    have "write_available (idx m W) (idx m R) m = idx m R - (idx m W + 1)"
      using False by (simp add: write_available_def word_le_nat_alt unat_idx [OF m])
    moreover have "unat (idx m W + 1) = slot_of m W + 1" using lt by (simp add: unat_word_ariths unat_idx [OF m])
    ultimately show ?thesis
      using False w lt assms(2,3) unat_sub_if' [of "idx m R" "idx m W + 1"]
      by (auto simp: unat_idx [OF m] split: if_splits)
  qed
qed

subsection \<open>The plans, in counts\<close>

text \<open>
  With \<open>W\<close> elements ever written and \<open>R\<close> ever read, the producer fills the slots of \<open>W, W + 1, \<dots>\<close> and the
  consumer empties those of \<open>R, R + 1, \<dots>\<close>.
\<close>

definition slots_from :: "size_t \<Rightarrow> nat \<Rightarrow> nat \<Rightarrow> nat list" where
  "slots_from m k n = map (slot_of m) [k..<k + n]"

lemma length_slots_from [simp]: "length (slots_from m k n) = n"
  by (simp add: slots_from_def)

lemma nth_slots_from [simp]: "i < n \<Longrightarrow> slots_from m k n ! i = slot_of m (k + i)"
  by (simp add: slots_from_def)

lemma push_plan_idx:
  assumes "size_ok m" and "R \<le> W" and "W < R + unat m"
  shows "push_plan (idx m W) (idx m R) t m =
    Some (if Suc W = R + unat m then None else Some ([(slot_of m W, t)], idx m (Suc W)))"
proof -
  have "idx m (Suc W) = idx m R \<longleftrightarrow> Suc W = R + unat m"
  proof (cases "Suc W < R + unat m")
    case True
    then show ?thesis using idx_eq_iff [of m R "Suc W"] assms by auto
  next
    case False
    then have "Suc W = R + unat m" using assms(3) by simp
    then show ?thesis using assms(1) by (simp add: idx_def slot_of_def)
  qed
  then show ?thesis using assms(1) by (simp add: push_plan_def next_index_idx unat_idx)
qed

text \<open>Two runs of slots around the end of the buffer.\<close>

lemma slots_wrap:
  assumes m: "size_ok m" and n: "n \<le> unat m" and le: "unat m \<le> slot_of m k + n"
  shows "slots_from m k n = [slot_of m k..<unat m] @ [0..<slot_of m k + n - unat m]"
proof (rule nth_equalityI)
  show "length (slots_from m k n) = length ([slot_of m k..<unat m] @ [0..<slot_of m k + n - unat m])"
    using le slot_less [OF m, of k] by simp
next
  fix i assume "i < length (slots_from m k n)"
  then show "slots_from m k n ! i = ([slot_of m k..<unat m] @ [0..<slot_of m k + n - unat m]) ! i"
    using n slot_ahead [OF m, of i k] slot_less [OF m, of k] by (auto simp: nth_append)
qed

lemma slots_straight:
  assumes m: "size_ok m" and le: "slot_of m k + n \<le> unat m"
  shows "slots_from m k n = [slot_of m k..<slot_of m k + n]"
  by (rule nth_equalityI) (use le slot_ahead [OF m, of _ k] in auto)

text \<open>The sum of an index and a number of elements, and the index it stands for.\<close>

lemma idx_advance:
  assumes m: "size_ok m" and n: "n \<le> unat m"
  shows "unat (idx m k + of_nat n) = slot_of m k + n"
    and "idx m k + of_nat n > m \<longleftrightarrow> slot_of m k + n > unat m"
    and "slot_of m k + n > unat m \<Longrightarrow> idx m k + of_nat n - m = idx m (k + n)"
    and "slot_of m k + n \<le> unat m \<Longrightarrow> (if idx m k + of_nat n = m then 0 else idx m k + of_nat n) = idx m (k + n)"
    and "unat (m - idx m k) = unat m - slot_of m k"
proof -
  have lt: "slot_of m k < unat m" "unat m \<le> 2 ^ 63" using m slot_less by (auto simp: size_ok_def)
  have small: "unat (of_nat n :: size_t) = n" by (rule unat_of_nat_small) (use n lt in simp)
  show sum: "unat (idx m k + of_nat n) = slot_of m k + n"
    using lt n by (simp add: unat_word_ariths unat_idx [OF m] small)
  then show "idx m k + of_nat n > m \<longleftrightarrow> slot_of m k + n > unat m" by (simp add: word_less_nat_alt)
  have ahead: "unat (idx m (k + n)) = (if slot_of m k + n < unat m then slot_of m k + n else slot_of m k + n - unat m)"
    using slot_ahead [OF m n] by (simp add: unat_idx [OF m])
  show "idx m k + of_nat n - m = idx m (k + n)" if "slot_of m k + n > unat m"
    using that ahead sum unat_sub_if' [of "idx m k + of_nat n" m] by (simp add: word_unat_eq_iff)
  show "(if idx m k + of_nat n = m then 0 else idx m k + of_nat n) = idx m (k + n)" if "slot_of m k + n \<le> unat m"
    using that ahead sum by (auto simp: word_unat_eq_iff)
  show "unat (m - idx m k) = unat m - slot_of m k"
    using lt unat_sub_if' [of m "idx m k"] by (simp add: unat_idx [OF m])
qed

lemma drain_idx:
  assumes m: "size_ok m" and n: "n \<le> unat m"
  shows "drain (idx m k) (of_nat n) m = (slots_from m k n, idx m (k + n))"
proof (cases "slot_of m k + n > unat m")
  case True
  have "unat (of_nat n :: size_t) = n" using n m by (intro unat_of_nat_small) (simp add: size_ok_def)
  then have "unat (of_nat n - (m - idx m k)) = slot_of m k + n - unat m"
    using True idx_advance(5) [OF m n, of k] slot_less [OF m, of k] unat_sub_if' [of "of_nat n" "m - idx m k"] by auto
  then show ?thesis
    using True idx_advance [OF m n, of k] slots_wrap [OF m n, of k] by (simp add: drain_def unat_idx [OF m] Let_def)
next
  case False
  then show ?thesis
    using idx_advance [OF m n, of k] slots_straight [OF m, of k n] by (simp add: drain_def unat_idx [OF m] Let_def)
qed

lemma push_range_plan_idx:
  assumes m: "size_ok m" and "R \<le> W" and "W < R + unat m" and len: "length vals < 2 ^ 64"
  defines "n \<equiv> min (length vals) (R + unat m - 1 - W)"
  shows "push_range_plan (idx m W) (idx m R) vals m =
    (if R + unat m - 1 - W = 0 then None
     else Some (zip (slots_from m W n) (take n vals), idx m (W + n)))"
proof -
  let ?avail = "write_available (idx m W) (idx m R) m"
  have M: "0 < unat m" "unat m \<le> 2 ^ 63" using m by (auto simp: size_ok_def)
  have av: "unat ?avail = R + unat m - 1 - W" using write_available_idx [OF m assms(2,3)] assms(2,3) by simp
  then have z: "?avail = 0 \<longleftrightarrow> R + unat m - 1 - W = 0" by (simp only: word_unat_eq_iff unat_0)
  have n: "n \<le> unat m" using assms(2) by (simp add: n_def)
  then have nat: "unat (of_nat n :: size_t) = n" using M(2) by (intro unat_of_nat_small) simp
  have cnt: "min (of_nat (length vals)) ?avail = of_nat n"
    using av unat_of_nat_small [OF len] nat by (auto simp: min_def word_le_nat_alt n_def word_unat_eq_iff)
  have ln: "length (take n vals) = n" by (simp add: n_def)
  show ?thesis
  proof (cases "slot_of m W + n > unat m")
    case True
    let ?c = "unat m - slot_of m W"
    have split: "slots_from m W n = [slot_of m W..<unat m] @ [0..<slot_of m W + n - unat m]"
      using slots_wrap [OF m n] True by simp
    have "zip (slots_from m W n) (take n vals)
        = zip [slot_of m W..<unat m] (take ?c (take n vals)) @ zip [0..<slot_of m W + n - unat m] (drop ?c (take n vals))"
      unfolding split by (simp add: zip_append1)
    moreover have "slot_of m W + length (take ?c (take n vals)) = unat m" "length (drop ?c (take n vals)) = slot_of m W + n - unat m"
      using True ln slot_less [OF m, of W] by auto
    ultimately show ?thesis
      using True idx_advance [OF m n, of W]
      by (simp add: push_range_plan_def Let_def z cnt nat unat_idx [OF m] uninitialized_copy_slots_def del: length_take length_drop take_take)
  next
    case False
    then show ?thesis
      using idx_advance [OF m n, of W] slots_straight [OF m, of W n]
      by (simp add: push_range_plan_def Let_def z cnt nat unat_idx [OF m] uninitialized_copy_slots_def ln del: length_take)
  qed
qed

lemma consume_one_plan_idx:
  assumes "size_ok m" and "R \<le> W" and "W < R + unat m"
  shows "consume_one_plan (idx m W) (idx m R) m =
    Some (if W = R then None else Some (slots_from m R 1, idx m (R + 1)))"
  using assms by (simp add: consume_one_plan_def idx_eq_iff next_index_idx unat_idx slots_from_def)

lemma read_available_of_nat:
  assumes "size_ok m" and "R \<le> W" and "W < R + unat m"
  shows "read_available (idx m W) (idx m R) m = of_nat (W - R)"
  unfolding read_available_idx [OF assms, symmetric] by simp

lemma pop_array_plan_idx:
  fixes count :: size_t
  assumes m: "size_ok m" and "R \<le> W" and "W < R + unat m"
  defines "n \<equiv> min (unat count) (W - R)"
  shows "pop_array_plan (idx m W) (idx m R) count m =
    (if W = R then None else Some (slots_from m R n, idx m (R + n)))"
proof -
  have av: "unat (read_available (idx m W) (idx m R) m) = W - R" using read_available_idx [OF m assms(2,3)] .
  then have z: "read_available (idx m W) (idx m R) m = 0 \<longleftrightarrow> W = R"
    using assms(2) by (simp only: word_unat_eq_iff) auto
  have n: "n \<le> unat m" using assms(2,3) by (simp add: n_def)
  then have "unat (of_nat n :: size_t) = n" using m by (intro unat_of_nat_small) (simp add: size_ok_def)
  then have "min count (read_available (idx m W) (idx m R) m) = of_nat n"
    using av by (auto simp: min_def word_le_nat_alt n_def word_unat_eq_iff)
  then show ?thesis using drain_idx [OF m n] by (simp add: pop_array_plan_def Let_def z)
qed

lemma consume_all_plan_idx:
  assumes m: "size_ok m" and "R \<le> W" and "W < R + unat m"
  shows "consume_all_plan (idx m W) (idx m R) m = (if W = R then None else Some (slots_from m R (W - R), idx m W))"
    and "pop_to_output_iterator_plan (idx m W) (idx m R) m = (if W = R then None else Some (slots_from m R (W - R), idx m W))"
proof -
  have av: "unat (read_available (idx m W) (idx m R) m) = W - R" using read_available_idx [OF m assms(2,3)] .
  then have z: "read_available (idx m W) (idx m R) m = 0 \<longleftrightarrow> W = R"
    using assms(2) by (simp only: word_unat_eq_iff) auto
  note d = drain_idx [OF m, of "W - R" R]
  show "consume_all_plan (idx m W) (idx m R) m = (if W = R then None else Some (slots_from m R (W - R), idx m W))"
    "pop_to_output_iterator_plan (idx m W) (idx m R) m = (if W = R then None else Some (slots_from m R (W - R), idx m W))"
    using d assms(2,3) z read_available_of_nat [OF assms]
    by (simp_all add: consume_all_plan_def pop_to_output_iterator_plan_def Let_def)
qed

subsection \<open>The slots as a queue\<close>

text \<open>The objects \<open>xs\<close> lie in the slots from count \<open>R\<close> on; without trivial destructors no other slot holds one.\<close>

definition filled :: "bool \<Rightarrow> size_t \<Rightarrow> 'a option list \<Rightarrow> nat \<Rightarrow> 'a list \<Rightarrow> bool" where
  "filled trivial m buffer R xs \<longleftrightarrow>
     size_ok m \<and> length buffer = unat m \<and> length xs \<le> unat m \<and>
     (\<forall>i < unat m. (i < length xs \<longrightarrow> buffer ! slot_of m (R + i) = Some (xs ! i)) \<and>
                   (length xs \<le> i \<longrightarrow> \<not> trivial \<longrightarrow> buffer ! slot_of m (R + i) = None))"

lemma slot_eq_iff:
  assumes "size_ok m" and "i < unat m" and "j < unat m"
  shows "slot_of m (R + i) = slot_of m (R + j) \<longleftrightarrow> i = j"
  using slot_ahead [OF assms(1), of i R] slot_ahead [OF assms(1), of j R] assms slot_less [OF assms(1), of R]
  by (auto split: if_splits)

lemma filled_construct:
  assumes f: "filled trivial m buffer R xs" and "length xs < unat m"
  shows "\<exists>buffer'. construct trivial (slot_of m (R + length xs)) v buffer = Some buffer' \<and> filled trivial m buffer' R (xs @ [v])"
proof -
  have m: "size_ok m" "length buffer = unat m" using f by (auto simp: filled_def)
  let ?i = "slot_of m (R + length xs)"
  have ok: "?i < length buffer" "trivial \<or> buffer ! ?i = None" using f m assms(2) slot_less by (auto simp: filled_def)
  have upd: "buffer[?i := Some v] ! slot_of m (R + i) = (if i = length xs then Some v else buffer ! slot_of m (R + i))"
    if "i < unat m" for i
    using ok(1) slot_eq_iff [OF m(1) that assms(2), of R] by (auto simp: nth_list_update)
  have "filled trivial m (buffer[?i := Some v]) R (xs @ [v])"
    using f assms(2) unfolding filled_def by (auto simp: upd nth_append less_Suc_eq)
  then show ?thesis using ok by (simp add: construct_def)
qed

lemma filled_fetch:
  assumes f: "filled trivial m buffer R (x # xs)" and "trivial \<or> destroy"
  shows "\<exists>buffer'. fetch destroy (slot_of m R) buffer = Some (x, buffer') \<and> filled trivial m buffer' (Suc R) xs"
proof -
  have m: "size_ok m" "length buffer = unat m" "0 < unat m" and len: "Suc (length xs) \<le> unat m"
    using f by (auto simp: filled_def)
  let ?i = "slot_of m R"
  have i: "?i < length buffer" using slot_less [OF m(1)] m(2) by simp
  have cell: "buffer ! slot_of m (R + i) = Some ((x # xs) ! i)" if "i < Suc (length xs)" for i
    using f that len by (auto simp: filled_def)
  have free: "buffer ! slot_of m (R + i) = None" if "Suc (length xs) \<le> i" "i < unat m" "\<not> trivial" for i
    using f that by (auto simp: filled_def)
  define buffer' where "buffer' = (if destroy then buffer[?i := None] else buffer)"
  have at: "buffer' ! slot_of m (Suc R + i) = Some (xs ! i)" if "i < length xs" for i
    using cell [of "Suc i"] that len slot_eq_iff [OF m(1) _ m(3), of "Suc i" R] by (auto simp: buffer'_def nth_list_update)
  have none: "buffer' ! slot_of m (Suc R + i) = None" if i: "length xs \<le> i" "i < unat m" "\<not> trivial" for i
  proof (cases "Suc i < unat m")
    case True
    then show ?thesis
      using free [of "Suc i"] i slot_eq_iff [OF m(1) _ m(3), of "Suc i" R] by (auto simp: buffer'_def nth_list_update)
  next
    case False
    then have "Suc R + i = R + unat m" using i by simp
    then have "slot_of m (Suc R + i) = ?i" by (simp only: slot_of_def mod_add_self2)
    then show ?thesis using assms(2) i \<open>?i < length buffer\<close> by (simp add: buffer'_def)
  qed
  have "filled trivial m buffer' (Suc R) xs"
    unfolding filled_def using m len at none by (simp add: buffer'_def)
  moreover have "fetch destroy ?i buffer = Some (x, buffer')"
    using cell [of 0] i by (simp add: fetch_def buffer'_def)
  ultimately show ?thesis by blast
qed

lemma slots_from_Suc: "slots_from m k (Suc n) = slot_of m k # slots_from m (Suc k) n"
  by (simp only: slots_from_def add_Suc_right upt_conv_Cons [of k "Suc (k + n)"] list.map add_Suc)

lemma filled_construct_all:
  assumes "filled trivial m buffer R xs" and "length xs + length vs \<le> unat m"
  shows "\<exists>buffer'. construct_all trivial (zip (slots_from m (R + length xs) (length vs)) vs) buffer = Some buffer'
    \<and> filled trivial m buffer' R (xs @ vs)"
  using assms
proof (induction vs arbitrary: buffer xs)
  case (Cons v vs)
  obtain b1 where b1: "construct trivial (slot_of m (R + length xs)) v buffer = Some b1" "filled trivial m b1 R (xs @ [v])"
    using filled_construct [of trivial m buffer R xs v] Cons.prems by auto
  have "\<exists>b'. construct_all trivial (zip (slots_from m (R + length (xs @ [v])) (length vs)) vs) b1 = Some b' \<and> filled trivial m b' R ((xs @ [v]) @ vs)"
    using Cons.prems by (intro Cons.IH [OF b1(2)]) simp
  then show ?case using b1(1) by (simp add: slots_from_Suc)
qed simp

lemma filled_fetch_all:
  assumes "filled trivial m buffer R (vs @ xs)" and "trivial \<or> destroy"
  shows "\<exists>buffer'. fetch_all destroy (slots_from m R (length vs)) buffer = Some (vs, buffer')
    \<and> filled trivial m buffer' (R + length vs) xs"
  using assms(1)
proof (induction vs arbitrary: buffer R)
  case Nil
  then show ?case by (simp add: slots_from_def)
next
  case (Cons v vs)
  obtain b1 where b1: "fetch destroy (slot_of m R) buffer = Some (v, b1)" "filled trivial m b1 (Suc R) (vs @ xs)"
    using filled_fetch [OF _ assms(2), of m buffer R v "vs @ xs"] Cons.prems by auto
  show ?case using Cons.IH [OF b1(2)] b1(1) by (auto simp: slots_from_Suc)
qed

subsection \<open>Alone, the members are a bounded queue\<close>

definition rb_holds :: "'a ringbuffer \<Rightarrow> nat \<Rightarrow> 'a list \<Rightarrow> bool" where
  "rb_holds b R xs \<longleftrightarrow>
     filled (has_trivial_destructor b) (rb_max_elements b) (rb_data b) R xs \<and>
     length xs < unat (rb_max_elements b) \<and>
     rb_read_index b = idx (rb_max_elements b) R \<and> rb_write_index b = idx (rb_max_elements b) (R + length xs)"

lemma rb_holdsD:
  assumes "rb_holds b R xs"
  shows "size_ok (rb_max_elements b)" and "R + length xs < R + unat (rb_max_elements b)"
    and "filled (has_trivial_destructor b) (rb_max_elements b) (rb_data b) R xs"
    and "rb_read_index b = idx (rb_max_elements b) R" and "rb_write_index b = idx (rb_max_elements b) (R + length xs)"
  using assms by (auto simp: rb_holds_def filled_def)

lemma commit_push_holds:
  assumes h: "rb_holds b R xs" and "length xs + length vs < unat (rb_max_elements b)"
  shows "\<exists>b'. commit_push b (Some (zip (slots_from (rb_max_elements b) (R + length xs) (length vs)) vs,
        idx (rb_max_elements b) (R + length xs + length vs))) = Some (b', length vs)
    \<and> rb_holds b' R (xs @ vs) \<and> rb_max_elements b' = rb_max_elements b \<and> has_trivial_destructor b' = has_trivial_destructor b"
proof -
  have len: "length xs + length vs \<le> unat (rb_max_elements b)" using assms(2) by simp
  show ?thesis
    using filled_construct_all [OF rb_holdsD(3) [OF h] len] assms(2) rb_holdsD(4) [OF h]
    by (auto simp: commit_push_def rb_holds_def add.assoc)
qed

lemma commit_pop_holds:
  assumes h: "rb_holds b R (vs @ xs)" and "has_trivial_destructor b \<or> destroy"
  shows "\<exists>b'. commit_pop destroy b (Some (slots_from (rb_max_elements b) R (length vs),
        idx (rb_max_elements b) (R + length vs))) = Some (b', vs)
    \<and> rb_holds b' (R + length vs) xs \<and> rb_max_elements b' = rb_max_elements b \<and> has_trivial_destructor b' = has_trivial_destructor b"
  using filled_fetch_all [OF rb_holdsD(3) [OF h] assms(2)] rb_holdsD(2,5) [OF h]
  by (auto simp: commit_pop_def rb_holds_def add.assoc)

lemma rb_push_holds:
  assumes h: "rb_holds b R xs"
  shows "\<exists>b'. rb_push t b = Some (b', Suc (length xs) < unat (rb_max_elements b))
    \<and> rb_holds b' R (if Suc (length xs) < unat (rb_max_elements b) then xs @ [t] else xs)
    \<and> rb_max_elements b' = rb_max_elements b \<and> has_trivial_destructor b' = has_trivial_destructor b"
proof -
  note d = rb_holdsD [OF h]
  have plan: "push_plan (rb_write_index b) (rb_read_index b) t (rb_max_elements b) =
      Some (if Suc (R + length xs) = R + unat (rb_max_elements b) then None
        else Some ([(slot_of (rb_max_elements b) (R + length xs), t)], idx (rb_max_elements b) (Suc (R + length xs))))"
    unfolding d(4,5) by (rule push_plan_idx [OF d(1)]) (use d(2) in auto)
  show ?thesis
  proof (cases "Suc (length xs) < unat (rb_max_elements b)")
    case True
    then have "Suc (R + length xs) \<noteq> R + unat (rb_max_elements b)" by simp
    then show ?thesis
      using True commit_push_holds [OF h, of "[t]"] plan by (auto simp: rb_push_def slots_from_def)
  next
    case False
    then have "Suc (R + length xs) = R + unat (rb_max_elements b)" using d(2) by simp
    then show ?thesis using False plan h by (simp add: rb_push_def commit_push_def)
  qed
qed

lemma rb_push_range_holds:
  assumes h: "rb_holds b R xs" and "length vals < 2 ^ 64"
  defines "n \<equiv> min (length vals) (unat (rb_max_elements b) - 1 - length xs)"
  shows "\<exists>b'. rb_push_range vals b = Some (b', n) \<and> rb_holds b' R (xs @ take n vals)
    \<and> rb_max_elements b' = rb_max_elements b \<and> has_trivial_destructor b' = has_trivial_destructor b"
proof -
  note d = rb_holdsD [OF h]
  let ?m = "rb_max_elements b"
  have n: "min (length vals) (R + unat ?m - 1 - (R + length xs)) = n" by (simp add: n_def)
  have plan: "push_range_plan (rb_write_index b) (rb_read_index b) vals ?m =
      (if R + unat ?m - 1 - (R + length xs) = 0 then None
       else Some (zip (slots_from ?m (R + length xs) n) (take n vals), idx ?m (R + length xs + n)))"
    using push_range_plan_idx [OF d(1) _ d(2) assms(2)] unfolding d(4,5) n by simp
  show ?thesis
  proof (cases "R + unat ?m - 1 - (R + length xs) = 0")
    case True
    then show ?thesis using plan h by (simp add: rb_push_range_def commit_push_def n_def)
  next
    case False
    have "length (take n vals) = n" by (simp add: n_def)
    moreover have "length xs + n < unat ?m" using d(2) by (auto simp: n_def)
    ultimately show ?thesis
      using False plan commit_push_holds [OF h, of "take n vals"] by (simp add: rb_push_range_def)
  qed
qed

text \<open>The members that take elements out, each with its number of elements.\<close>

lemma pops_holds:
  assumes h: "rb_holds b R xs"
    and plan: "plan = (if R + length xs = R then None else Some (slots_from (rb_max_elements b) R n, idx (rb_max_elements b) (R + n)))"
    and "n \<le> length xs" and "has_trivial_destructor b \<or> destroy"
  shows "\<exists>b'. commit_pop destroy b plan = Some (b', take n xs) \<and> rb_holds b' (R + n) (drop n xs)
    \<and> rb_max_elements b' = rb_max_elements b \<and> has_trivial_destructor b' = has_trivial_destructor b"
proof (cases "xs = []")
  case True
  then show ?thesis using assms by (simp add: commit_pop_def)
next
  case False
  then have "plan = Some (slots_from (rb_max_elements b) R n, idx (rb_max_elements b) (R + n))" using plan by simp
  then show ?thesis
    using commit_pop_holds [of b R "take n xs" "drop n xs" destroy] assms(3,4) h by (simp add: min_absorb2)
qed

lemma rb_consume_one_holds:
  assumes h: "rb_holds b R xs"
  shows "\<exists>b'. rb_consume_one b = Some (b', take 1 xs) \<and> rb_holds b' (R + min 1 (length xs)) (drop 1 xs)
    \<and> rb_max_elements b' = rb_max_elements b \<and> has_trivial_destructor b' = has_trivial_destructor b"
proof -
  note d = rb_holdsD [OF h]
  let ?n = "min 1 (length xs)"
  have plan: "consume_one_plan (rb_write_index b) (rb_read_index b) (rb_max_elements b) =
      Some (if R + length xs = R then None else Some (slots_from (rb_max_elements b) R ?n, idx (rb_max_elements b) (R + ?n)))"
    unfolding d(4,5) using consume_one_plan_idx [OF d(1) _ d(2)] by (cases xs) auto
  have "take ?n xs = take 1 xs" "drop ?n xs = drop 1 xs" by (cases xs; simp)+
  then show ?thesis using pops_holds [OF h refl, of ?n True] by (simp add: rb_consume_one_def plan)
qed

lemma rb_drains_holds:
  assumes h: "rb_holds b R xs"
  shows "\<exists>b'. rb_consume_all b = Some (b', xs) \<and> rb_holds b' (R + length xs) []
      \<and> rb_max_elements b' = rb_max_elements b \<and> has_trivial_destructor b' = has_trivial_destructor b"
    and "\<exists>b'. rb_pop_to_output_iterator b = Some (b', xs) \<and> rb_holds b' (R + length xs) []
      \<and> rb_max_elements b' = rb_max_elements b \<and> has_trivial_destructor b' = has_trivial_destructor b"
    and "\<exists>b'. rb_pop_array count b = Some (b', take (unat count) xs)
      \<and> rb_holds b' (R + min (unat count) (length xs)) (drop (unat count) xs)
      \<and> rb_max_elements b' = rb_max_elements b \<and> has_trivial_destructor b' = has_trivial_destructor b"
proof -
  note d = rb_holdsD [OF h]
  have le: "R \<le> R + length xs" by simp
  note all = consume_all_plan_idx [OF d(1) le d(2)]
  show "\<exists>b'. rb_consume_all b = Some (b', xs) \<and> rb_holds b' (R + length xs) []
      \<and> rb_max_elements b' = rb_max_elements b \<and> has_trivial_destructor b' = has_trivial_destructor b"
    "\<exists>b'. rb_pop_to_output_iterator b = Some (b', xs) \<and> rb_holds b' (R + length xs) []
      \<and> rb_max_elements b' = rb_max_elements b \<and> has_trivial_destructor b' = has_trivial_destructor b"
    using pops_holds [OF h refl, of "length xs" True] pops_holds [OF h refl, of "length xs" "\<not> has_trivial_destructor b"] all
    unfolding rb_consume_all_def rb_pop_to_output_iterator_def d(4,5) by (cases "xs = []"; simp)+
  let ?n = "min (unat count) (length xs)"
  have plan: "pop_array_plan (rb_write_index b) (rb_read_index b) count (rb_max_elements b) =
      (if R + length xs = R then None else Some (slots_from (rb_max_elements b) R ?n, idx (rb_max_elements b) (R + ?n)))"
    unfolding d(4,5) using pop_array_plan_idx [OF d(1) le d(2), of count] by simp
  have "take ?n xs = take (unat count) xs" "drop ?n xs = drop (unat count) xs" by (simp_all add: min_def)
  then show "\<exists>b'. rb_pop_array count b = Some (b', take (unat count) xs)
      \<and> rb_holds b' (R + min (unat count) (length xs)) (drop (unat count) xs)
      \<and> rb_max_elements b' = rb_max_elements b \<and> has_trivial_destructor b' = has_trivial_destructor b"
    using pops_holds [OF h plan, of "\<not> has_trivial_destructor b"] by (simp add: rb_pop_array_def)
qed

subsection \<open>Sequences of members\<close>

datatype 'a queue_op =
  Push 'a | Push_Range "'a list" | Consume_One | Consume_All | Pop_Array size_t | Pop_To_Iterator | Reset

datatype 'a reply = Accepted nat | Delivered "'a list" | Done

type_synonym 'a queue_state = "'a ringbuffer \<times> 'a reply list"

fun queue_call :: "'a queue_op \<Rightarrow> 'a ringbuffer \<Rightarrow> ('a ringbuffer \<times> 'a reply) option" where
  "queue_call (Push t) b = map_option (\<lambda>(b1, ok). (b1, Accepted (if ok then 1 else 0))) (rb_push t b)"
| "queue_call (Push_Range vals) b = map_option (\<lambda>(b1, n). (b1, Accepted n)) (rb_push_range vals b)"
| "queue_call Consume_One b = map_option (\<lambda>(b1, vs). (b1, Delivered vs)) (rb_consume_one b)"
| "queue_call Consume_All b = map_option (\<lambda>(b1, vs). (b1, Delivered vs)) (rb_consume_all b)"
| "queue_call (Pop_Array n) b = map_option (\<lambda>(b1, vs). (b1, Delivered vs)) (rb_pop_array n b)"
| "queue_call Pop_To_Iterator b = map_option (\<lambda>(b1, vs). (b1, Delivered vs)) (rb_pop_to_output_iterator b)"
| "queue_call Reset b = map_option (\<lambda>b1. (b1, Done)) (rb_reset b)"

definition queue_step :: "'a queue_op \<Rightarrow> 'a queue_state \<Rightarrow> 'a queue_state option" where
  "queue_step c s = map_option (\<lambda>(b, r). (b, snd s @ [r])) (queue_call c (fst s))"

text \<open>The specification: a list with a capacity, and the replies so far. No member is ever refused.\<close>

fun spsc_spec_call :: "nat \<Rightarrow> 'a queue_op \<Rightarrow> 'a list \<Rightarrow> 'a list \<times> 'a reply" where
  "spsc_spec_call cap (Push t) q = (if length q < cap then (q @ [t], Accepted 1) else (q, Accepted 0))"
| "spsc_spec_call cap (Push_Range vals) q =
     (let n = min (length vals) (cap - length q) in (q @ take n vals, Accepted n))"
| "spsc_spec_call cap Consume_One q = (drop 1 q, Delivered (take 1 q))"
| "spsc_spec_call cap Consume_All q = ([], Delivered q)"
| "spsc_spec_call cap (Pop_Array n) q = (drop (unat n) q, Delivered (take (unat n) q))"
| "spsc_spec_call cap Pop_To_Iterator q = ([], Delivered q)"
| "spsc_spec_call cap Reset q = ([], Done)"

type_synonym 'a queue_view = "nat \<times> 'a list \<times> 'a reply list"

definition spec_step :: "'a queue_op \<Rightarrow> 'a queue_view \<Rightarrow> 'a queue_view option" where
  "spec_step c v = (case v of (cap, q, log) \<Rightarrow>
     (case spsc_spec_call cap c q of (q1, r) \<Rightarrow> Some (cap, q1, log @ [r])))"

definition rb_list :: "'a ringbuffer \<Rightarrow> 'a list" where
  "rb_list b = map (\<lambda>i. the (rb_data b ! slot_of (rb_max_elements b) (unat (rb_read_index b) + i)))
     [0..<unat (rb_read_available b)]"

definition queue_valid :: "'a queue_state \<Rightarrow> bool" where
  "queue_valid s \<longleftrightarrow> (\<exists>R. rb_holds (fst s) R (rb_list (fst s)))"

definition queue_view :: "'a queue_state \<Rightarrow> 'a queue_view" where
  "queue_view s = (unat (rb_max_elements (fst s)) - 1, rb_list (fst s), snd s)"

definition queue_ok :: "'a queue_op \<Rightarrow> bool" where
  "queue_ok c \<longleftrightarrow> (case c of Push_Range vals \<Rightarrow> length vals < 2 ^ 64 | _ \<Rightarrow> True)"

lemma slot_of_slot: "slot_of m (slot_of m k + i) = slot_of m (k + i)"
  by (simp add: slot_of_def mod_add_left_eq)

lemma rb_holds_list: "rb_holds b R xs \<Longrightarrow> rb_list b = xs"
proof -
  assume h: "rb_holds b R xs"
  note d = rb_holdsD [OF h]
  have "unat (rb_read_available b) = length xs"
    using read_available_idx [OF d(1) _ d(2)] by (simp add: rb_read_available_def d(4,5))
  then show ?thesis
    using d(2,3) by (intro nth_equalityI) (auto simp: rb_list_def d(4) unat_idx [OF d(1)] slot_of_slot filled_def)
qed

lemma pop_until_empty_holds:
  "rb_holds b R xs \<Longrightarrow> \<exists>b'. pop_until_empty b = Some b' \<and> rb_holds b' (R + length xs) []
    \<and> rb_max_elements b' = rb_max_elements b \<and> has_trivial_destructor b' = has_trivial_destructor b"
proof (induction xs arbitrary: b R)
  case Nil
  then show ?case using rb_consume_one_holds [OF Nil] by (auto simp: pop_until_empty.simps [of b])
next
  case (Cons x xs)
  obtain b1 where b1: "rb_consume_one b = Some (b1, [x])" "rb_holds b1 (R + 1) xs"
    "rb_max_elements b1 = rb_max_elements b" "has_trivial_destructor b1 = has_trivial_destructor b"
    using rb_consume_one_holds [OF Cons.prems] by auto
  then show ?case using Cons.IH [OF b1(2)] by (auto simp: pop_until_empty.simps [of b])
qed

lemma rb_destroy_holds:
  "rb_holds b R xs \<Longrightarrow> \<exists>b'. rb_destroy b = Some b' \<and> rb_holds b' (R + length xs) []
    \<and> rb_max_elements b' = rb_max_elements b \<and> has_trivial_destructor b' = has_trivial_destructor b"
proof (induction xs arbitrary: b R)
  case Nil
  then show ?case using rb_drains_holds(3) [OF Nil, of 1] by (auto simp: rb_destroy.simps [of b])
next
  case (Cons x xs)
  obtain b1 where b1: "rb_pop_array 1 b = Some (b1, [x])" "rb_holds b1 (R + 1) xs"
    "rb_max_elements b1 = rb_max_elements b" "has_trivial_destructor b1 = has_trivial_destructor b"
    using rb_drains_holds(3) [OF Cons.prems, of 1] by auto
  then show ?case using Cons.IH [OF b1(2)] by (auto simp: rb_destroy.simps [of b])
qed

lemma idx_zero [simp]: "idx m 0 = 0"
  by (simp add: idx_def slot_of_def)

lemma filled_empty:
  "filled trivial m buffer R [] \<longleftrightarrow> size_ok m \<and> length buffer = unat m \<and>
     (trivial \<or> (\<forall>i < unat m. buffer ! slot_of m (R + i) = None))"
  by (auto simp: filled_def)

lemma rb_reset_holds:
  assumes h: "rb_holds b R xs"
  shows "\<exists>b' R'. rb_reset b = Some b' \<and> rb_holds b' R' []
    \<and> rb_max_elements b' = rb_max_elements b \<and> has_trivial_destructor b' = has_trivial_destructor b"
proof (cases "has_trivial_destructor b")
  case True
  have "rb_holds (b\<lparr>rb_write_index := 0, rb_read_index := 0\<rparr>) 0 []"
    using h True by (auto simp: rb_holds_def filled_def)
  then show ?thesis using True by (auto simp: rb_reset_def)
next
  case False
  then show ?thesis using pop_until_empty_holds [OF h] by (auto simp: rb_reset_def)
qed

lemma queue_call_holds:
  assumes h: "rb_holds b R xs" and "queue_ok c"
  shows "\<exists>b' R'. queue_call c b = Some (b', snd (spsc_spec_call (unat (rb_max_elements b) - 1) c xs))
    \<and> rb_holds b' R' (fst (spsc_spec_call (unat (rb_max_elements b) - 1) c xs)) \<and> rb_max_elements b' = rb_max_elements b"
proof (cases c)
  case (Push t)
  then show ?thesis using rb_push_holds [OF h, of t] by fastforce
next
  case (Push_Range vals)
  then show ?thesis
    using rb_push_range_holds [OF h, of vals] assms(2) by (fastforce simp: queue_ok_def Let_def diff_commute)
next
  case Consume_One
  then show ?thesis using rb_consume_one_holds [OF h] by fastforce
next
  case Consume_All
  then show ?thesis using rb_drains_holds(1) [OF h] by fastforce
next
  case (Pop_Array n)
  then show ?thesis using rb_drains_holds(3) [OF h, of n] by fastforce
next
  case Pop_To_Iterator
  then show ?thesis using rb_drains_holds(2) [OF h] by fastforce
next
  case Reset
  then show ?thesis using rb_reset_holds [OF h] by fastforce
qed

interpretation spsc_alone: data_refinement queue_valid queue_view queue_ok queue_step spec_step
proof unfold_locales
  fix s :: "'a queue_state" and c :: "'a queue_op"
  assume v: "queue_valid s" and c: "queue_ok c"
  obtain b log where s: "s = (b, log)" by (cases s)
  obtain R where h: "rb_holds b R (rb_list b)" using v s by (auto simp: queue_valid_def)
  obtain b' R' where b': "queue_call c b = Some (b', snd (spsc_spec_call (unat (rb_max_elements b) - 1) c (rb_list b)))"
    "rb_holds b' R' (fst (spsc_spec_call (unat (rb_max_elements b) - 1) c (rb_list b)))" "rb_max_elements b' = rb_max_elements b"
    using queue_call_holds [OF h c] by blast
  then show "agrees queue_valid queue_view (queue_step c s) (spec_step c (queue_view s))"
    using rb_holds_list [OF b'(2)]
    by (auto simp: queue_step_def spec_step_def queue_view_def queue_valid_def s split: prod.splits)
qed

lemma rb_holds_new:
  assumes "unat max_elements < 2 ^ 63"
  shows "rb_holds (ringbuffer_ctor trivial max_elements) 0 []"
    and "unat (rb_max_elements (ringbuffer_ctor trivial max_elements)) = unat max_elements + 1"
proof -
  have u: "unat (max_elements + 1) = unat max_elements + 1" using assms by (simp add: unat_word_ariths)
  then show "rb_holds (ringbuffer_ctor trivial max_elements) 0 []"
    using assms slot_less [of "max_elements + 1"]
    by (auto simp: rb_holds_def filled_empty ringbuffer_ctor_def size_ok_def simp del: replicate_Suc)
  show "unat (rb_max_elements (ringbuffer_ctor trivial max_elements)) = unat max_elements + 1"
    using u by (simp add: ringbuffer_ctor_def)
qed

end
