(* ===== verification/Spsc_Threads.thy ===== *)
theory Spsc_Threads
  imports Spsc_Queue "HOL-Library.Sublist"
begin

text \<open>
  One producer and one consumer thread on the ring buffer of \<open>Spsc_Queue\<close>, interleaved slot by slot.

  An index is an atomic variable that one thread stores with release and the other loads with acquire.
  The model keeps all values stored, oldest first, and how far the other thread has seen them: a load may
  return any value that is not older than the last one it returned, as the memory model allows. A thread reads
  its own index without synchronisation, which yields its last store. The slots are ordinary memory, so the
  two threads must never work on the same slot (\<open>pending_slots_disjoint\<close>); then what the consumer reads
  is what the producer wrote before the store it has seen.
\<close>

subsection \<open>Definitions\<close>

datatype 'a push_call = Push_One 'a | Push_Many "'a list"
datatype pop_call = Pop_One | Pop_All | Pop_Some size_t | Pop_Iterator

text \<open>A call in progress: its values, the slots still to be written or emptied, the index it will store.\<close>

datatype 'a producer = P_Idle | P_Copying "'a list" "(nat \<times> 'a) list" size_t
datatype consumer = C_Idle | C_Draining bool "nat list" size_t

record 'a spsc =
  sp_buffer :: "'a option list"
  sp_writes :: "size_t list"
  sp_reads :: "size_t list"
  sp_seen_write :: nat
  sp_seen_read :: nat
  sp_producer :: "'a producer"
  sp_consumer :: consumer
  sp_in :: "'a list"
  sp_out :: "'a list"

text \<open>\<open>sp_in\<close> are the elements of the pushes that have stored their index, \<open>sp_out\<close> those handed to the consumer.\<close>

fun push_decision :: "'a push_call \<Rightarrow> size_t \<Rightarrow> size_t \<Rightarrow> size_t \<Rightarrow> 'a push_plan option" where
  "push_decision (Push_One t) w r m = push_plan w r t m"
| "push_decision (Push_Many vals) w r m = Some (push_range_plan w r vals m)"

fun pop_decision :: "pop_call \<Rightarrow> size_t \<Rightarrow> size_t \<Rightarrow> size_t \<Rightarrow> pop_plan option" where
  "pop_decision Pop_One w r m = consume_one_plan w r m"
| "pop_decision Pop_All w r m = Some (consume_all_plan w r m)"
| "pop_decision (Pop_Some n) w r m = Some (pop_array_plan w r n m)"
| "pop_decision Pop_Iterator w r m = Some (pop_to_output_iterator_plan w r m)"

fun pop_destroys :: "bool \<Rightarrow> pop_call \<Rightarrow> bool" where
  "pop_destroys trivial Pop_One = True"
| "pop_destroys trivial Pop_All = True"
| "pop_destroys trivial (Pop_Some n) = (\<not> trivial)"
| "pop_destroys trivial Pop_Iterator = (\<not> trivial)"

definition producer_call :: "size_t \<Rightarrow> 'a push_call \<Rightarrow> nat \<Rightarrow> 'a spsc \<Rightarrow> 'a spsc option" where
  "producer_call m c j s = do {
     plan \<leftarrow> push_decision c (last (sp_writes s)) (sp_reads s ! j) m;
     Some (case plan of
         None \<Rightarrow> s\<lparr>sp_seen_read := j\<rparr>
       | Some (todo, new_index) \<Rightarrow>
           s\<lparr>sp_seen_read := j, sp_producer := P_Copying (map snd todo) todo new_index\<rparr>) }"

definition producer_work :: "bool \<Rightarrow> 'a spsc \<Rightarrow> 'a spsc option" where
  "producer_work trivial s =
     (case sp_producer s of
        P_Idle \<Rightarrow> Some s
      | P_Copying vals [] new_index \<Rightarrow>
          Some (s\<lparr>sp_writes := sp_writes s @ [new_index], sp_in := sp_in s @ vals, sp_producer := P_Idle\<rparr>)
      | P_Copying vals ((i, v) # todo) new_index \<Rightarrow>
          map_option (\<lambda>buffer. s\<lparr>sp_buffer := buffer, sp_producer := P_Copying vals todo new_index\<rparr>)
            (construct trivial i v (sp_buffer s)))"

definition consumer_call :: "bool \<Rightarrow> size_t \<Rightarrow> pop_call \<Rightarrow> nat \<Rightarrow> 'a spsc \<Rightarrow> 'a spsc option" where
  "consumer_call trivial m c j s = do {
     plan \<leftarrow> pop_decision c (sp_writes s ! j) (last (sp_reads s)) m;
     Some (case plan of
         None \<Rightarrow> s\<lparr>sp_seen_write := j\<rparr>
       | Some (todo, new_index) \<Rightarrow>
           s\<lparr>sp_seen_write := j, sp_consumer := C_Draining (pop_destroys trivial c) todo new_index\<rparr>) }"

definition consumer_work :: "'a spsc \<Rightarrow> 'a spsc option" where
  "consumer_work s =
     (case sp_consumer s of
        C_Idle \<Rightarrow> Some s
      | C_Draining destroy [] new_index \<Rightarrow>
          Some (s\<lparr>sp_reads := sp_reads s @ [new_index], sp_consumer := C_Idle\<rparr>)
      | C_Draining destroy (i # todo) new_index \<Rightarrow>
          map_option (\<lambda>(v, buffer). s\<lparr>sp_buffer := buffer, sp_out := sp_out s @ [v],
                                       sp_consumer := C_Draining destroy todo new_index\<rparr>)
            (fetch destroy i (sp_buffer s)))"

fun push_call_ok :: "'a push_call \<Rightarrow> bool" where
  "push_call_ok (Push_Many vals) = (length vals < 2 ^ 64)"
| "push_call_ok (Push_One t) = True"

text \<open>\<^term>\<open>None\<close> as the next state: a step whose behaviour is undefined.\<close>

inductive spsc_step :: "bool \<Rightarrow> size_t \<Rightarrow> 'a spsc \<Rightarrow> 'a spsc option \<Rightarrow> bool" for trivial m where
  step_push: "sp_producer s = P_Idle \<Longrightarrow> push_call_ok c \<Longrightarrow> sp_seen_read s \<le> j \<Longrightarrow> j < length (sp_reads s) \<Longrightarrow>
    spsc_step trivial m s (producer_call m c j s)"
| step_produce: "sp_producer s \<noteq> P_Idle \<Longrightarrow> spsc_step trivial m s (producer_work trivial s)"
| step_pop: "sp_consumer s = C_Idle \<Longrightarrow> sp_seen_write s \<le> j \<Longrightarrow> j < length (sp_writes s) \<Longrightarrow>
    spsc_step trivial m s (consumer_call trivial m c j s)"
| step_consume: "sp_consumer s \<noteq> C_Idle \<Longrightarrow> spsc_step trivial m s (consumer_work s)"

definition spsc_start :: "bool \<Rightarrow> size_t \<Rightarrow> 'a spsc" where
  "spsc_start trivial max_elements =
     (let b = ringbuffer_ctor trivial max_elements
      in \<lparr>sp_buffer = rb_data b, sp_writes = [rb_write_index b], sp_reads = [rb_read_index b],
          sp_seen_write = 0, sp_seen_read = 0, sp_producer = P_Idle, sp_consumer = C_Idle,
          sp_in = [], sp_out = []\<rparr>)"

inductive spsc_reachable :: "bool \<Rightarrow> size_t \<Rightarrow> 'a spsc \<Rightarrow> bool" for trivial max_elements where
  reach_start: "spsc_reachable trivial max_elements (spsc_start trivial max_elements)"
| reach_step: "spsc_reachable trivial max_elements s \<Longrightarrow> spsc_step trivial (max_elements + 1) s (Some s') \<Longrightarrow>
    spsc_reachable trivial max_elements s'"

text \<open>The slots a call in progress has still to work on.\<close>

fun producer_pending :: "'a producer \<Rightarrow> nat list" where
  "producer_pending P_Idle = []"
| "producer_pending (P_Copying vals todo new_index) = map fst todo"

fun consumer_pending :: "consumer \<Rightarrow> nat list" where
  "consumer_pending C_Idle = []"
| "consumer_pending (C_Draining destroy todo new_index) = todo"

subsection \<open>The invariant\<close>

text \<open>
  \<open>ws\<close> and \<open>rs\<close> are the numbers of elements behind the stored indices; \<open>written\<close> are the elements of the push in
  progress that are already in their slots, \<open>rest\<close> the objects in the buffer.
\<close>

definition producer_inv :: "size_t \<Rightarrow> nat \<Rightarrow> nat \<Rightarrow> 'a list \<Rightarrow> 'a producer \<Rightarrow> bool" where
  "producer_inv m n limit written p \<longleftrightarrow>
     (case p of P_Idle \<Rightarrow> written = [] \<and> n \<le> limit
      | P_Copying vals todo new_index \<Rightarrow>
          vals = written @ map snd todo \<and> map fst todo = slots_from m (n + length written) (length todo) \<and>
          new_index = idx m (n + length vals) \<and> n + length vals \<le> limit)"

definition consumer_inv :: "bool \<Rightarrow> size_t \<Rightarrow> nat \<Rightarrow> nat \<Rightarrow> nat \<Rightarrow> consumer \<Rightarrow> bool" where
  "consumer_inv trivial m n stored limit c \<longleftrightarrow>
     (case c of C_Idle \<Rightarrow> stored = n \<and> n \<le> limit
      | C_Draining destroy todo new_index \<Rightarrow>
          todo = slots_from m n (length todo) \<and> new_index = idx m (n + length todo) \<and>
          n + length todo \<le> limit \<and> stored \<le> n \<and> (trivial \<or> destroy))"

definition history :: "size_t \<Rightarrow> size_t list \<Rightarrow> nat list \<Rightarrow> nat \<Rightarrow> bool" where
  "history m stored ks seen \<longleftrightarrow> stored = map (idx m) ks \<and> ks \<noteq> [] \<and> sorted ks \<and> seen < length ks"

definition sp_inv :: "bool \<Rightarrow> size_t \<Rightarrow> 'a spsc \<Rightarrow> nat list \<Rightarrow> nat list \<Rightarrow> 'a list \<Rightarrow> 'a list \<Rightarrow> bool" where
  "sp_inv trivial m s ws rs written rest \<longleftrightarrow>
     history m (sp_writes s) ws (sp_seen_write s) \<and> history m (sp_reads s) rs (sp_seen_read s) \<and>
     last ws = length (sp_in s) \<and>
     producer_inv m (length (sp_in s)) (rs ! sp_seen_read s + unat m - 1) written (sp_producer s) \<and>
     consumer_inv trivial m (length (sp_out s)) (last rs) (ws ! sp_seen_write s) (sp_consumer s) \<and>
     filled trivial m (sp_buffer s) (length (sp_out s)) rest \<and> sp_out s @ rest = sp_in s @ written"

lemma sorted_le_last: "sorted ks \<Longrightarrow> x \<in> set ks \<Longrightarrow> x \<le> last (ks :: nat list)"
  by (induction ks) auto

lemma history_last:
  assumes "history m st ks seen" and "seen \<le> j" and "j < length st"
  shows "ks ! j \<le> last ks" and "ks ! seen \<le> ks ! j" and "st ! j = idx m (ks ! j)"
    and "last st = idx m (last ks)" and "history m st ks j"
  using assms sorted_le_last [of ks "ks ! j"] sorted_nth_mono [of ks seen j]
  by (simp_all add: history_def last_map)

lemma history_append:
  "history m st ks seen \<Longrightarrow> last ks \<le> k \<Longrightarrow> history m (st @ [idx m k]) (ks @ [k]) seen"
  using sorted_le_last [of ks] by (fastforce simp: history_def sorted_append)

lemma history_seen: "history m st ks seen \<Longrightarrow> (ks @ [k]) ! seen = ks ! seen"
  by (simp add: history_def nth_append)

lemma history_bound: "history m st ks seen \<Longrightarrow> seen < length st" "history m st ks seen \<Longrightarrow> ks ! seen \<le> last ks"
  using sorted_le_last [of ks "ks ! seen"] by (auto simp: history_def)

text \<open>What the two threads know of each other.\<close>

lemma sp_inv_bounds:
  assumes "sp_inv trivial m s ws rs written rest"
  shows "last rs \<le> length (sp_out s)" and "length (sp_out s) \<le> length (sp_in s)" and "size_ok m"
    and "length (sp_in s) \<le> rs ! sp_seen_read s + unat m - 1" and "rs ! sp_seen_read s \<le> last rs"
    and "ws ! sp_seen_write s \<le> length (sp_in s)"
  using assms history_bound(2) [of m "sp_writes s" ws "sp_seen_write s"] history_bound(2) [of m "sp_reads s" rs "sp_seen_read s"]
  by (auto simp: sp_inv_def producer_inv_def consumer_inv_def filled_def split: producer.splits consumer.splits)

subsection \<open>Its preservation\<close>

lemma push_decision_idx:
  assumes "size_ok m" and "R \<le> W" and "W < R + unat m" and "push_call_ok c"
  shows "\<exists>plan. push_decision c (idx m W) (idx m R) m = Some plan \<and>
    (case plan of None \<Rightarrow> W = R + unat m - 1
     | Some (todo, new_index) \<Rightarrow> map fst todo = slots_from m W (length todo) \<and>
         new_index = idx m (W + length todo) \<and> W + length todo \<le> R + unat m - 1)"
proof (cases c)
  case (Push_One t)
  then show ?thesis using push_plan_idx [OF assms(1-3), of t] assms(3) by (auto simp: slots_from_def)
next
  case (Push_Many vals)
  then show ?thesis
    using push_range_plan_idx [OF assms(1-3), of vals] assms(3,4) by (auto simp: min_def)
qed

lemma pop_decision_idx:
  assumes "size_ok m" and "R \<le> W" and "W < R + unat m"
  shows "\<exists>plan. pop_decision c (idx m W) (idx m R) m = Some plan \<and>
    (case plan of None \<Rightarrow> W = R
     | Some (todo, new_index) \<Rightarrow> todo = slots_from m R (length todo) \<and>
         new_index = idx m (R + length todo) \<and> R + length todo \<le> W)"
  using consume_one_plan_idx [OF assms] consume_all_plan_idx [OF assms] pop_array_plan_idx [OF assms] assms(2)
  by (cases c) auto

lemma producer_call_inv:
  assumes inv: "sp_inv trivial m s ws rs [] rest" and idle: "sp_producer s = P_Idle"
    and ok: "push_call_ok c" and j: "sp_seen_read s \<le> j" "j < length (sp_reads s)"
  shows "\<exists>s'. producer_call m c j s = Some s' \<and> sp_inv trivial m s' ws rs [] rest"
proof -
  note b = sp_inv_bounds [OF inv]
  have h: "history m (sp_writes s) ws (sp_seen_write s)" "history m (sp_reads s) rs (sp_seen_read s)"
    and last: "last ws = length (sp_in s)" using inv by (auto simp: sp_inv_def)
  note r = history_last [OF h(2) j]
  have w: "last (sp_writes s) = idx m (length (sp_in s))"
    using history_last(4) [OF h(1) order_refl] history_bound(1) [OF h(1)] last by simp
  have M: "0 < unat m" using b(3) by (simp add: size_ok_def)
  have le: "rs ! j \<le> length (sp_in s)" "length (sp_in s) < rs ! j + unat m" using r(1,2) b M by linarith+
  obtain plan where plan: "push_decision c (last (sp_writes s)) (sp_reads s ! j) m = Some plan"
    "case plan of None \<Rightarrow> length (sp_in s) = rs ! j + unat m - 1
     | Some (todo, new_index) \<Rightarrow> map fst todo = slots_from m (length (sp_in s)) (length todo) \<and>
         new_index = idx m (length (sp_in s) + length todo) \<and> length (sp_in s) + length todo \<le> rs ! j + unat m - 1"
    using push_decision_idx [OF b(3) le ok] unfolding w r(3) by blast
  then show ?thesis
    using inv idle r(5) le(2)
    by (cases plan) (auto simp: producer_call_def sp_inv_def producer_inv_def split: prod.splits)
qed

lemma consumer_call_inv:
  assumes inv: "sp_inv trivial m s ws rs written rest" and idle: "sp_consumer s = C_Idle"
    and j: "sp_seen_write s \<le> j" "j < length (sp_writes s)"
  shows "\<exists>s'. consumer_call trivial m c j s = Some s' \<and> sp_inv trivial m s' ws rs written rest"
proof -
  note b = sp_inv_bounds [OF inv]
  have h: "history m (sp_writes s) ws (sp_seen_write s)" "history m (sp_reads s) rs (sp_seen_read s)"
    and last: "last ws = length (sp_in s)" "last rs = length (sp_out s)" "length (sp_out s) \<le> ws ! sp_seen_write s"
    using inv idle by (auto simp: sp_inv_def consumer_inv_def)
  note w = history_last [OF h(1) j]
  have r: "last (sp_reads s) = idx m (length (sp_out s))"
    using history_last(4) [OF h(2) order_refl] history_bound(1) [OF h(2)] last by simp
  have M: "0 < unat m" using b(3) by (simp add: size_ok_def)
  have le: "length (sp_out s) \<le> ws ! j" "ws ! j < length (sp_out s) + unat m" using w(1,2) last b M by linarith+
  obtain plan where plan: "pop_decision c (sp_writes s ! j) (last (sp_reads s)) m = Some plan"
    "case plan of None \<Rightarrow> ws ! j = length (sp_out s)
     | Some (todo, new_index) \<Rightarrow> todo = slots_from m (length (sp_out s)) (length todo) \<and>
         new_index = idx m (length (sp_out s) + length todo) \<and> length (sp_out s) + length todo \<le> ws ! j"
    using pop_decision_idx [OF b(3) le] unfolding r w(3) by blast
  have "trivial \<or> pop_destroys trivial c" by (cases c) auto
  then show ?thesis
    using inv idle plan w(5) last le
    by (cases plan) (auto simp: consumer_call_def sp_inv_def consumer_inv_def split: prod.splits)
qed

lemma producer_work_inv:
  assumes inv: "sp_inv trivial m s ws rs written rest" and busy: "sp_producer s \<noteq> P_Idle"
  shows "\<exists>s' ws' written' rest'. producer_work trivial s = Some s' \<and> sp_inv trivial m s' ws' rs written' rest'"
proof -
  note b = sp_inv_bounds [OF inv]
  have h: "history m (sp_writes s) ws (sp_seen_write s)" and out: "sp_out s @ rest = sp_in s @ written"
    and f: "filled trivial m (sp_buffer s) (length (sp_out s)) rest" and last: "last ws = length (sp_in s)"
    using inv by (auto simp: sp_inv_def)
  obtain vals todo new_index where p: "sp_producer s = P_Copying vals todo new_index"
    using busy by (cases "sp_producer s") auto
  have pi: "vals = written @ map snd todo" "map fst todo = slots_from m (length (sp_in s) + length written) (length todo)"
    "new_index = idx m (length (sp_in s) + length vals)" "length (sp_in s) + length vals \<le> rs ! sp_seen_read s + unat m - 1"
    using inv p by (auto simp: sp_inv_def producer_inv_def)
  show ?thesis
  proof (cases todo)
    case Nil
    then have "producer_work trivial s = Some (s\<lparr>sp_writes := sp_writes s @ [new_index], sp_in := sp_in s @ vals, sp_producer := P_Idle\<rparr>)"
      using p by (simp add: producer_work_def)
    moreover have "sp_inv trivial m (s\<lparr>sp_writes := sp_writes s @ [new_index], sp_in := sp_in s @ vals, sp_producer := P_Idle\<rparr>)
        (ws @ [length (sp_in s) + length vals]) rs [] rest"
      using inv pi Nil out last history_append [OF h, of "length (sp_in s) + length vals"]
      by (simp add: sp_inv_def producer_inv_def history_seen [OF h])
    ultimately show ?thesis by blast
  next
    case (Cons iv todo')
    obtain i v where iv: "iv = (i, v)" by (cases iv)
    have "length (sp_out s) + length rest = length (sp_in s) + length written"
      using arg_cong [OF out, of length] by simp
    then have at: "i = slot_of m (length (sp_out s) + length rest)" "length rest < unat m"
      using pi Cons iv b by (auto simp: slots_from_Suc)
    obtain buffer where buffer: "construct trivial i v (sp_buffer s) = Some buffer"
      "filled trivial m buffer (length (sp_out s)) (rest @ [v])"
      using filled_construct [OF f at(2), of v] at(1) by blast
    have "sp_inv trivial m (s\<lparr>sp_buffer := buffer, sp_producer := P_Copying vals todo' new_index\<rparr>) ws rs (written @ [v]) (rest @ [v])"
      using inv pi Cons iv out buffer(2) by (simp add: sp_inv_def producer_inv_def slots_from_Suc)
    then show ?thesis using p Cons iv buffer(1) by (auto simp: producer_work_def)
  qed
qed

lemma consumer_work_inv:
  assumes inv: "sp_inv trivial m s ws rs written rest" and busy: "sp_consumer s \<noteq> C_Idle"
  shows "\<exists>s' rs' rest'. consumer_work s = Some s' \<and> sp_inv trivial m s' ws rs' written rest'"
proof -
  note b = sp_inv_bounds [OF inv]
  have h: "history m (sp_reads s) rs (sp_seen_read s)" and out: "sp_out s @ rest = sp_in s @ written"
    and f: "filled trivial m (sp_buffer s) (length (sp_out s)) rest"
    using inv by (auto simp: sp_inv_def)
  obtain destroy todo new_index where c: "sp_consumer s = C_Draining destroy todo new_index"
    using busy by (cases "sp_consumer s") auto
  have ci: "todo = slots_from m (length (sp_out s)) (length todo)" "new_index = idx m (length (sp_out s) + length todo)"
    "length (sp_out s) + length todo \<le> ws ! sp_seen_write s" "last rs \<le> length (sp_out s)" "trivial \<or> destroy"
    using inv c by (auto simp: sp_inv_def consumer_inv_def)
  show ?thesis
  proof (cases todo)
    case Nil
    then have "consumer_work s = Some (s\<lparr>sp_reads := sp_reads s @ [new_index], sp_consumer := C_Idle\<rparr>)"
      using c by (simp add: consumer_work_def)
    moreover have "sp_inv trivial m (s\<lparr>sp_reads := sp_reads s @ [new_index], sp_consumer := C_Idle\<rparr>)
        ws (rs @ [length (sp_out s)]) written rest"
      using inv ci Nil history_append [OF h ci(4)] by (simp add: sp_inv_def consumer_inv_def history_seen [OF h])
    ultimately show ?thesis by blast
  next
    case (Cons i todo')
    have "length (sp_out s) + length rest = length (sp_in s) + length written"
      using arg_cong [OF out, of length] by simp
    then obtain x rest' where rest: "rest = x # rest'" using ci(3) b(6) Cons by (cases rest) auto
    have i: "i = slot_of m (length (sp_out s))" "todo' = slots_from m (Suc (length (sp_out s))) (length todo')"
      using ci(1) Cons by (auto simp: slots_from_Suc)
    obtain buffer where buffer: "fetch destroy i (sp_buffer s) = Some (x, buffer)"
      "filled trivial m buffer (Suc (length (sp_out s))) rest'"
      using filled_fetch [OF f [unfolded rest] ci(5)] i(1) by blast
    have "sp_inv trivial m (s\<lparr>sp_buffer := buffer, sp_out := sp_out s @ [x], sp_consumer := C_Draining destroy todo' new_index\<rparr>)
        ws rs written rest'"
      using inv ci Cons i(2) out buffer(2) rest by (simp add: sp_inv_def consumer_inv_def)
    then show ?thesis using c Cons buffer(1) by (auto simp: consumer_work_def)
  qed
qed

lemma spsc_step_inv:
  assumes "spsc_step trivial m s r" and "sp_inv trivial m s ws rs written rest"
  shows "\<exists>s' ws' rs' written' rest'. r = Some s' \<and> sp_inv trivial m s' ws' rs' written' rest'"
  using assms
proof cases
  case (step_push c j)
  then have "written = []" using assms(2) by (simp add: sp_inv_def producer_inv_def)
  then show ?thesis using producer_call_inv [OF _ step_push(2-5)] step_push(1) assms(2) by blast
next
  case step_produce
  then show ?thesis using producer_work_inv [OF assms(2)] by blast
next
  case (step_pop j c)
  then show ?thesis using consumer_call_inv [OF assms(2)] by blast
next
  case step_consume
  then show ?thesis using consumer_work_inv [OF assms(2)] by blast
qed

lemma spsc_start_inv:
  assumes "unat max_elements < 2 ^ 63"
  shows "sp_inv trivial (max_elements + 1) (spsc_start trivial max_elements :: 'a spsc) [0] [0] [] []"
proof -
  let ?b = "ringbuffer_ctor trivial max_elements :: 'a ringbuffer"
  have h: "rb_holds ?b 0 []" using rb_holds_new(1) [OF assms] .
  have "rb_max_elements ?b = max_elements + 1" "has_trivial_destructor ?b = trivial" by (simp_all add: ringbuffer_ctor_def)
  then show ?thesis
    using rb_holdsD [OF h]
    by (simp add: sp_inv_def spsc_start_def Let_def history_def producer_inv_def consumer_inv_def)
qed

lemma spsc_reachable_inv:
  assumes "spsc_reachable trivial max_elements s" and "unat max_elements < 2 ^ 63"
  shows "\<exists>ws rs written rest. sp_inv trivial (max_elements + 1) s ws rs written rest"
  using assms(1)
proof induction
  case reach_start
  then show ?case using spsc_start_inv [OF assms(2)] by blast
next
  case (reach_step s s')
  then show ?case using spsc_step_inv by (metis option.inject)
qed

text \<open>The slots the two threads are working on never coincide.\<close>

lemma pending_slots_disjoint:
  assumes inv: "sp_inv trivial m s ws rs written rest"
  shows "set (producer_pending (sp_producer s)) \<inter> set (consumer_pending (sp_consumer s)) = {}"
proof -
  note b = sp_inv_bounds [OF inv]
  let ?o = "length (sp_out s)"
  have "\<exists>i. x = slot_of m (?o + i) \<and> length (sp_in s) \<le> ?o + i \<and> i < unat m"
    if x: "x \<in> set (producer_pending (sp_producer s))" for x
  proof -
    obtain vals todo new_index where p: "sp_producer s = P_Copying vals todo new_index" using x by (cases "sp_producer s") auto
    have pi: "vals = written @ map snd todo" "map fst todo = slots_from m (length (sp_in s) + length written) (length todo)"
      "length (sp_in s) + length vals \<le> rs ! sp_seen_read s + unat m - 1"
      using inv p by (auto simp: sp_inv_def producer_inv_def)
    obtain k where k: "x = slot_of m k" "length (sp_in s) + length written \<le> k" "k < length (sp_in s) + length written + length todo"
      using x p pi(2) by (auto simp: slots_from_def)
    then show ?thesis using pi(1,3) b by (intro exI [of _ "k - ?o"]) auto
  qed
  moreover have "\<exists>i. x = slot_of m (?o + i) \<and> ?o + i < length (sp_in s) \<and> i < unat m"
    if x: "x \<in> set (consumer_pending (sp_consumer s))" for x
  proof -
    obtain destroy todo new_index where c: "sp_consumer s = C_Draining destroy todo new_index" using x by (cases "sp_consumer s") auto
    have ci: "todo = slots_from m ?o (length todo)" "?o + length todo \<le> ws ! sp_seen_write s"
      using inv c by (auto simp: sp_inv_def consumer_inv_def)
    have "x \<in> set (slots_from m ?o (length todo))" using x c ci(1) by simp
    then obtain k where k: "x = slot_of m k" "?o \<le> k" "k < ?o + length todo" by (auto simp: slots_from_def)
    then show ?thesis using ci(2) b by (intro exI [of _ "k - ?o"]) auto
  qed
  ultimately show ?thesis using slot_eq_iff [OF b(3)] by (fastforce simp: disjoint_iff)
qed

subsection \<open>Properties\<close>

lemma spec_steps_total: "\<exists>q log. run_ops spec_step cs (cap, q0, log0) = Some (cap, q, log)"
  by (induction cs arbitrary: q0 log0) (auto simp: spec_step_def split: prod.splits)

lemma rb_front_holds:
  assumes h: "rb_holds b R xs"
  shows "rb_front b = (case xs of [] \<Rightarrow> None | x # _ \<Rightarrow> Some x)"
proof -
  note d = rb_holdsD [OF h]
  have av: "unat (rb_read_available b) = length xs"
    using read_available_idx [OF d(1) _ d(2)] by (simp add: rb_read_available_def d(4,5))
  then have pos: "rb_read_available b > 0 \<longleftrightarrow> xs \<noteq> []" by (simp add: word_less_nat_alt)
  show ?thesis
  proof (cases xs)
    case (Cons x ys)
    then show ?thesis
      using pos filled_fetch [of True "rb_max_elements b" "rb_data b" R x ys False] d(3)
      by (auto simp: rb_front_def d(4) unat_idx [OF d(1)] filled_def)
  qed (use pos in \<open>simp add: rb_front_def\<close>)
qed

lemma filled_nothing:
  assumes f: "filled False m buffer R []" and "i < length buffer"
  shows "buffer ! i = None"
proof -
  have m: "size_ok m" "length buffer = unat m" using f by (auto simp: filled_def)
  obtain j where "j < unat m" "i = slot_of m (R + j)"
  proof (cases "slot_of m R \<le> i")
    case True
    then show ?thesis
      using that [of "i - slot_of m R"] slot_ahead [OF m(1), of "i - slot_of m R" R] assms(2) m(2) by auto
  next
    case False
    then show ?thesis
      using that [of "i + unat m - slot_of m R"] slot_ahead [OF m(1), of "i + unat m - slot_of m R" R]
        slot_less [OF m(1), of R] by auto
  qed
  then show ?thesis using f by (simp add: filled_def)
qed

text \<open>(alone, the ring buffer is a bounded queue): from a new queue for at most \<open>2\<^sup>6\<^sup>3 - 1\<close> elements, every
  sequence of pushes, range pushes, pops of one, of several and of all elements, consumer functors and resets
  gives the results that a list bounded by the requested capacity gives, and is never undefined. Afterwards the
  two availability counts (computed with wrapping subtraction) are the length and the free space, \<^verbatim>\<open>front\<close>
  and \<^verbatim>\<open>empty\<close> are right, and the destructor of the queue with run-time size ends and leaves no object of
  a type with a destructor alive.\<close>

theorem spsc_alone_bounded_queue:
  assumes "unat max_elements < 2 ^ 63" and "list_all queue_ok cs"
  shows "\<exists>b log b'. run_ops queue_step cs (ringbuffer_ctor trivial max_elements, []) = Some (b, log)
    \<and> run_ops spec_step cs (unat max_elements, [], []) = Some (unat max_elements, rb_list b, log)
    \<and> unat (rb_read_available b) = length (rb_list b)
    \<and> unat (rb_write_available b) = unat max_elements - length (rb_list b)
    \<and> rb_empty b = (rb_list b = [])
    \<and> rb_front b = (case rb_list b of [] \<Rightarrow> None | x # _ \<Rightarrow> Some x)
    \<and> rb_destroy b = Some b' \<and> rb_list b' = [] \<and> (has_trivial_destructor b' \<or> (\<forall>x \<in> set (rb_data b'). x = None))"
proof -
  let ?s = "(ringbuffer_ctor trivial max_elements, []) :: 'a queue_state"
  have new: "rb_holds (fst ?s) 0 []" "unat (rb_max_elements (fst ?s)) = unat max_elements + 1"
    using rb_holds_new [OF assms(1), of trivial] by simp_all
  have v: "queue_valid ?s" and l: "rb_list (fst ?s) = []"
    using new rb_holds_list [OF new(1)] by (auto simp: queue_valid_def)
  have view: "queue_view ?s = (unat max_elements, [], [])"
    using rb_holds_list [OF new(1)] new(2) by (simp add: queue_view_def)
  obtain q log where spec: "run_ops spec_step cs (unat max_elements, [], []) = Some (unat max_elements, q, log)"
    using spec_steps_total by blast
  obtain b log' where run: "run_ops queue_step cs ?s = Some (b, log')"
    using spsc_alone.run_view [OF v assms(2)] view spec by (cases "run_ops queue_step cs ?s") auto
  have bv: "queue_view (b, log') = (unat max_elements, q, log)"
    using spsc_alone.run_view [OF v assms(2)] view spec run by simp
  obtain R where h: "rb_holds b R (rb_list b)"
    using spsc_alone.run_keeps_valid [OF v assms(2) run] by (auto simp: queue_valid_def)
  note d = rb_holdsD [OF h]
  obtain b' where b': "rb_destroy b = Some b'" "rb_holds b' (R + length (rb_list b)) []"
    using rb_destroy_holds [OF h] by blast
  have le: "R \<le> R + length (rb_list b)" by simp
  have "has_trivial_destructor b' \<or> (\<forall>x \<in> set (rb_data b'). x = None)"
    using filled_nothing [of "rb_max_elements b'" "rb_data b'"] rb_holdsD(3) [OF b'(2)]
    by (cases "has_trivial_destructor b'") (auto simp: in_set_conv_nth)
  moreover have "unat (rb_read_available b) = length (rb_list b)" "unat (rb_write_available b) = unat max_elements - length (rb_list b)"
    using read_available_idx [OF d(1) le d(2)] write_available_idx [OF d(1) le d(2)] bv
    by (auto simp: rb_read_available_def rb_write_available_def d(4,5) queue_view_def)
  moreover have "rb_empty b = (rb_list b = [])" using idx_eq_iff [OF d(1) le d(2)] by (simp add: rb_empty_def d(4,5))
  ultimately show ?thesis
    using run spec bv b'(1) rb_holds_list [OF b'(2)] rb_front_holds [OF h] by (auto simp: queue_view_def)
qed

theorem spsc_alone_bounded_queue_witness:
  "\<exists>b log b'. run_ops queue_step [Push_Range [1, 2, 3 :: nat], Consume_One, Push 4, Pop_Array 2]
        (ringbuffer_ctor False 2, []) = Some (b, log)
    \<and> run_ops spec_step [Push_Range [1, 2, 3 :: nat], Consume_One, Push 4, Pop_Array 2] (unat (2 :: size_t), [], [])
        = Some (unat (2 :: size_t), rb_list b, log)
    \<and> unat (rb_read_available b) = length (rb_list b)
    \<and> unat (rb_write_available b) = unat (2 :: size_t) - length (rb_list b)
    \<and> rb_empty b = (rb_list b = [])
    \<and> rb_front b = (case rb_list b of [] \<Rightarrow> None | x # _ \<Rightarrow> Some x)
    \<and> rb_destroy b = Some b' \<and> rb_list b' = [] \<and> (has_trivial_destructor b' \<or> (\<forall>x \<in> set (rb_data b'). x = None))"
  by (rule spsc_alone_bounded_queue) (simp_all add: queue_ok_def)

text \<open>C5 (one producer, one consumer): for a capacity below \<open>2\<^sup>6\<^sup>3\<close>, in every interleaving of the two threads, with loads of the other
  thread's index that may be out of date, no step is undefined (no object is read before it is constructed
  or after it is destroyed, none is overwritten), the elements handed to the consumer are a prefix of those
  pushed, at most the capacity are in between, and the slots that the producer still has to write and the
  consumer still has to read are disjoint: there is no data race.\<close>

theorem spsc_threads_fifo:
  assumes "spsc_reachable trivial max_elements s" and "unat max_elements < 2 ^ 63"
  shows "\<not> spsc_step trivial (max_elements + 1) s None
    \<and> prefix (sp_out s) (sp_in s) \<and> length (sp_in s) \<le> length (sp_out s) + unat max_elements
    \<and> set (producer_pending (sp_producer s)) \<inter> set (consumer_pending (sp_consumer s)) = {}"
proof -
  obtain ws rs written rest where inv: "sp_inv trivial (max_elements + 1) s ws rs written rest"
    using spsc_reachable_inv [OF assms] by blast
  note b = sp_inv_bounds [OF inv]
  have "sp_out s @ rest = sp_in s @ written" using inv by (simp add: sp_inv_def)
  then have "prefix (sp_out s) (sp_in s)" using b(2) by (metis prefixI prefix_length_prefix)
  moreover have "unat (max_elements + 1) = unat max_elements + 1"
    using rb_holds_new(2) [OF assms(2)] by (simp add: ringbuffer_ctor_def)
  moreover have "\<not> spsc_step trivial (max_elements + 1) s None"
    using spsc_step_inv [OF _ inv, of None] by auto
  ultimately show ?thesis using b pending_slots_disjoint [OF inv] by auto
qed

theorem spsc_threads_fifo_witness:
  "\<not> spsc_step False (2 + 1) (spsc_start False 2 :: nat spsc) None
    \<and> prefix (sp_out (spsc_start False 2 :: nat spsc)) (sp_in (spsc_start False 2))
    \<and> length (sp_in (spsc_start False 2 :: nat spsc)) \<le> length (sp_out (spsc_start False 2 :: nat spsc)) + unat (2 :: size_t)
    \<and> set (producer_pending (sp_producer (spsc_start False 2 :: nat spsc))) \<inter> set (consumer_pending (sp_consumer (spsc_start False 2 :: nat spsc))) = {}"
  by (rule spsc_threads_fifo [OF reach_start]) simp

text \<open>(full and empty are exact when seen up to date): a push that has loaded the last index stored by an
  idle consumer is refused exactly when the queue holds as many elements as its capacity, and a pop that
  has loaded the last index stored by an idle producer finds nothing exactly when everything pushed has
  been handed out.\<close>

theorem spsc_full_and_empty:
  assumes "spsc_reachable trivial max_elements s" and "unat max_elements < 2 ^ 63"
    and "sp_producer s = P_Idle" and "sp_consumer s = C_Idle"
  shows "\<exists>s1 s2. producer_call (max_elements + 1) (Push_One t) (length (sp_reads s) - 1) s = Some s1
    \<and> (sp_producer s1 = P_Idle \<longleftrightarrow> length (sp_in s) = length (sp_out s) + unat max_elements)
    \<and> consumer_call trivial (max_elements + 1) Pop_One (length (sp_writes s) - 1) s = Some s2
    \<and> (sp_consumer s2 = C_Idle \<longleftrightarrow> sp_in s = sp_out s)"
proof -
  let ?m = "max_elements + 1"
  obtain ws rs written rest where inv: "sp_inv trivial ?m s ws rs written rest"
    using spsc_reachable_inv [OF assms(1,2)] by blast
  note b = sp_inv_bounds [OF inv]
  have m: "unat ?m = unat max_elements + 1"
    using rb_holds_new(2) [OF assms(2)] by (simp add: ringbuffer_ctor_def)
  have h: "history ?m (sp_writes s) ws (sp_seen_write s)" "history ?m (sp_reads s) rs (sp_seen_read s)"
    and last: "last ws = length (sp_in s)" "last rs = length (sp_out s)" and out: "sp_out s @ rest = sp_in s"
    using inv assms(3,4) by (auto simp: sp_inv_def consumer_inv_def producer_inv_def)
  have latest: "sp_writes s ! (length (sp_writes s) - 1) = idx ?m (length (sp_in s))" "last (sp_writes s) = idx ?m (length (sp_in s))"
    "sp_reads s ! (length (sp_reads s) - 1) = idx ?m (length (sp_out s))" "last (sp_reads s) = idx ?m (length (sp_out s))"
    using h last by (auto simp: history_def last_conv_nth nth_map)
  have le: "length (sp_out s) \<le> length (sp_in s)" "length (sp_in s) < length (sp_out s) + unat ?m" using b m by auto
  have "sp_in s = sp_out s \<longleftrightarrow> length (sp_in s) = length (sp_out s)" unfolding out [symmetric] by auto
  then show ?thesis
    using push_plan_idx [OF b(3) le, of t] consume_one_plan_idx [OF b(3) le] assms(3,4) m
    unfolding producer_call_def consumer_call_def latest by auto
qed

theorem spsc_full_and_empty_witness:
  "\<exists>s1 s2. producer_call (2 + 1) (Push_One (7 :: nat)) (length (sp_reads (spsc_start False 2 :: nat spsc)) - 1) (spsc_start False 2) = Some s1
    \<and> (sp_producer s1 = P_Idle \<longleftrightarrow> length (sp_in (spsc_start False 2 :: nat spsc)) = length (sp_out (spsc_start False 2 :: nat spsc)) + unat (2 :: size_t))
    \<and> consumer_call False (2 + 1) Pop_One (length (sp_writes (spsc_start False 2 :: nat spsc)) - 1) (spsc_start False 2 :: nat spsc) = Some s2
    \<and> (sp_consumer s2 = C_Idle \<longleftrightarrow> sp_in (spsc_start False 2 :: nat spsc) = sp_out (spsc_start False 2))"
  by (rule spsc_full_and_empty [OF reach_start]) (simp_all add: spsc_start_def Let_def)

end
