(* ===== verification/Segregated_Storage.thy ===== *)
theory Segregated_Storage
  imports Data_Refinement "HOL-Library.Monad_Syntax"
begin

text \<open>
  \<^verbatim>\<open>simple_segregated_storage\<close> (\<^verbatim>\<open>pool/simple_segregated_storage.hpp\<close>): a free list threaded through the free chunks
  themselves.

  The memory is a list of words, a pointer the index of a word, 0 the null pointer: the class requires
  blocks and chunk sizes that are aligned for \<^verbatim>\<open>void *\<close>, so all addresses and sizes are counted in units of
  \<^verbatim>\<open>sizeof(void *)\<close>. The first word of a free chunk is the pointer to the next one; a chunk that has been handed
  out belongs to the client, who may overwrite every word of it. Reading or writing through the null
  pointer or outside the memory is \<^term>\<open>None\<close>.
\<close>

subsection \<open>Definitions\<close>

record storage =
  sss_first :: nat
  sss_mem :: "nat list"

definition nextof :: "nat \<Rightarrow> storage \<Rightarrow> nat option" where
  "nextof ptr s = (if ptr \<noteq> 0 \<and> ptr < length (sss_mem s) then Some (sss_mem s ! ptr) else None)"

definition set_nextof :: "nat \<Rightarrow> nat \<Rightarrow> storage \<Rightarrow> storage option" where
  "set_nextof ptr v s =
     (if ptr \<noteq> 0 \<and> ptr < length (sss_mem s) then Some (s\<lparr>sss_mem := (sss_mem s)[ptr := v]\<rparr>) else None)"

definition storage_ctor :: "nat list \<Rightarrow> storage" where
  "storage_ctor memory = \<lparr>sss_first = 0, sss_mem = memory\<rparr>"

definition storage_empty :: "storage \<Rightarrow> bool" where
  "storage_empty s \<longleftrightarrow> sss_first s = 0"

text \<open>A pointer moved below the start of the memory is undefined.\<close>

partial_function (option) segregate_loop :: "nat \<Rightarrow> nat \<Rightarrow> nat \<Rightarrow> nat \<Rightarrow> storage \<Rightarrow> (nat \<times> storage) option" where
  "segregate_loop block partition_sz iter old s =
     (if iter \<noteq> block then do {
        s1 \<leftarrow> set_nextof iter old s;
        if iter < partition_sz then None
        else segregate_loop block partition_sz (iter - partition_sz) iter s1 }
      else Some (old, s))"

text \<open>The precondition \<^verbatim>\<open>nsz >= npartition_sz\<close> keeps the unsigned subtraction from wrapping around.\<close>

definition segregate :: "nat \<Rightarrow> nat \<Rightarrow> nat \<Rightarrow> nat \<Rightarrow> storage \<Rightarrow> (nat \<times> storage) option" where
  "segregate block sz partition_sz list_end s =
     (if partition_sz = 0 \<or> sz < partition_sz then None
      else
        let old = block + ((sz - partition_sz) div partition_sz) * partition_sz
        in do {
          s1 \<leftarrow> set_nextof old list_end s;
          if old = block then Some (block, s1)
          else do {
            (old1, s2) \<leftarrow> segregate_loop block partition_sz (old - partition_sz) old s1;
            s3 \<leftarrow> set_nextof block old1 s2;
            Some (block, s3) } })"

definition add_block :: "nat \<Rightarrow> nat \<Rightarrow> nat \<Rightarrow> storage \<Rightarrow> storage option" where
  "add_block block nsz npartition_sz s = do {
     (p, s1) \<leftarrow> segregate block nsz npartition_sz (sss_first s) s;
     Some (s1\<lparr>sss_first := p\<rparr>) }"

partial_function (option) find_prev_loop :: "nat \<Rightarrow> nat \<Rightarrow> storage \<Rightarrow> nat option" where
  "find_prev_loop ptr iter s = do {
     q \<leftarrow> nextof iter s;
     if q = 0 \<or> q > ptr then Some iter else find_prev_loop ptr q s }"

definition find_prev :: "nat \<Rightarrow> storage \<Rightarrow> nat option" where
  "find_prev ptr s =
     (if sss_first s = 0 \<or> sss_first s > ptr then Some 0 else find_prev_loop ptr (sss_first s) s)"

definition add_ordered_block :: "nat \<Rightarrow> nat \<Rightarrow> nat \<Rightarrow> storage \<Rightarrow> storage option" where
  "add_ordered_block block nsz npartition_sz s = do {
     loc \<leftarrow> find_prev block s;
     if loc = 0 then add_block block nsz npartition_sz s
     else do {
       q \<leftarrow> nextof loc s;
       (p, s1) \<leftarrow> segregate block nsz npartition_sz q s;
       set_nextof loc p s1 } }"

definition storage_malloc :: "storage \<Rightarrow> (nat \<times> storage) option" where
  "storage_malloc s = do {
     q \<leftarrow> nextof (sss_first s) s;
     Some (sss_first s, s\<lparr>sss_first := q\<rparr>) }"

definition storage_free :: "nat \<Rightarrow> storage \<Rightarrow> storage option" where
  "storage_free chunk s = do {
     s1 \<leftarrow> set_nextof chunk (sss_first s) s;
     Some (s1\<lparr>sss_first := chunk\<rparr>) }"

definition ordered_free :: "nat \<Rightarrow> storage \<Rightarrow> storage option" where
  "ordered_free chunk s = do {
     loc \<leftarrow> find_prev chunk s;
     if loc = 0 then storage_free chunk s
     else do {
       q \<leftarrow> nextof loc s;
       s1 \<leftarrow> set_nextof chunk q s;
       set_nextof loc chunk s1 } }"

definition free_n :: "nat \<Rightarrow> nat \<Rightarrow> nat \<Rightarrow> storage \<Rightarrow> storage option" where
  "free_n chunks n partition_size s =
     (if n \<noteq> 0 then add_block chunks (n * partition_size) partition_size s else Some s)"

definition ordered_free_n :: "nat \<Rightarrow> nat \<Rightarrow> nat \<Rightarrow> storage \<Rightarrow> storage option" where
  "ordered_free_n chunks n partition_size s =
     (if n \<noteq> 0 then add_ordered_block chunks (n * partition_size) partition_size s else Some s)"

text \<open>The places that \<^verbatim>\<open>malloc_n\<close> takes \<^verbatim>\<open>nextof\<close> of: the member \<^verbatim>\<open>first\<close> itself, or a chunk.\<close>

datatype place = First | Chunk nat

fun nextof_place :: "place \<Rightarrow> storage \<Rightarrow> nat option" where
  "nextof_place First s = Some (sss_first s)"
| "nextof_place (Chunk p) s = nextof p s"

fun set_nextof_place :: "place \<Rightarrow> nat \<Rightarrow> storage \<Rightarrow> storage option" where
  "set_nextof_place First v s = Some (s\<lparr>sss_first := v\<rparr>)"
| "set_nextof_place (Chunk p) v s = set_nextof p v s"

text \<open>
  The result: the last chunk of the sequence, or the chunk that \<^verbatim>\<open>start\<close> is set to. The count is positive.
\<close>

fun try_malloc_n_loop :: "nat \<Rightarrow> nat \<Rightarrow> nat \<Rightarrow> storage \<Rightarrow> (nat + nat) option" where
  "try_malloc_n_loop iter 0 partition_size s = Some (Inr iter)"
| "try_malloc_n_loop iter (Suc n) partition_size s = do {
     next_chunk \<leftarrow> nextof iter s;
     if next_chunk \<noteq> iter + partition_size then Some (Inl iter)
     else try_malloc_n_loop next_chunk n partition_size s }"

definition try_malloc_n :: "place \<Rightarrow> nat \<Rightarrow> nat \<Rightarrow> storage \<Rightarrow> (nat + nat) option" where
  "try_malloc_n start n partition_size s = do {
     iter \<leftarrow> nextof_place start s;
     try_malloc_n_loop iter (n - 1) partition_size s }"

partial_function (option) malloc_n_loop :: "place \<Rightarrow> nat \<Rightarrow> nat \<Rightarrow> storage \<Rightarrow> (nat \<times> storage) option" where
  "malloc_n_loop start n partition_size s = do {
     q \<leftarrow> nextof_place start s;
     if q = 0 then Some (0, s)
     else do {
       r \<leftarrow> try_malloc_n start n partition_size s;
       case r of
         Inl start1 \<Rightarrow> malloc_n_loop (Chunk start1) n partition_size s
       | Inr iter \<Rightarrow> do {
           ret \<leftarrow> nextof_place start s;
           rest \<leftarrow> nextof iter s;
           s1 \<leftarrow> set_nextof_place start rest s;
           Some (ret, s1) } } }"

definition malloc_n :: "nat \<Rightarrow> nat \<Rightarrow> storage \<Rightarrow> (nat \<times> storage) option" where
  "malloc_n n partition_size s = (if n = 0 then Some (0, s) else malloc_n_loop First n partition_size s)"

partial_function (option) validate_loop :: "nat \<Rightarrow> nat \<Rightarrow> storage \<Rightarrow> nat option" where
  "validate_loop ptr index s =
     (if ptr \<noteq> 0 then do { q \<leftarrow> nextof ptr s; validate_loop q (index + 1) s } else Some index)"

definition validate :: "storage \<Rightarrow> nat option" where
  "validate s = validate_loop (sss_first s) 0 s"

subsection \<open>Paths through the memory\<close>

fun path :: "nat list \<Rightarrow> nat \<Rightarrow> nat list \<Rightarrow> nat \<Rightarrow> bool" where
  "path memory p [] q \<longleftrightarrow> p = q"
| "path memory p (x # xs) q \<longleftrightarrow> p = x \<and> x \<noteq> 0 \<and> x < length memory \<and> path memory (memory ! x) xs q"

lemma path_append: "path memory p (xs @ ys) q \<longleftrightarrow> (\<exists>r. path memory p xs r \<and> path memory r ys q)"
  by (induction xs arbitrary: p) auto

lemma path_frame:
  assumes "path memory p xs q" and "\<And>x. x \<in> set xs \<Longrightarrow> memory' ! x = memory ! x" and "length memory' = length memory"
  shows "path memory' p xs q"
  using assms(1,2) by (induction xs arbitrary: p) (auto simp: assms(3))

lemma path_update: "path memory p xs q \<Longrightarrow> a \<notin> set xs \<Longrightarrow> path (memory[a := v]) p xs q"
  by (rule path_frame) (auto intro: nth_list_update_neq)

lemma path_valid: "path memory p xs q \<Longrightarrow> x \<in> set xs \<Longrightarrow> x \<noteq> 0 \<and> x < length memory"
  by (induction xs arbitrary: p) auto

lemma path_start: "path memory p xs 0 \<Longrightarrow> p = (case xs of [] \<Rightarrow> 0 | x # _ \<Rightarrow> x)"
  by (cases xs) auto

text \<open>Redirecting the pointer of the last chunk of a prefix.\<close>

lemma path_relink:
  assumes "path memory p (us @ [l]) r" and "l \<notin> set us"
  shows "path (memory[l := v]) p (us @ [l]) v"
  using assms path_update [of memory p us l l v] by (auto simp: path_append)

text \<open>The free list is the path from \<^verbatim>\<open>first\<close> to the null pointer.\<close>

definition free_list :: "storage \<Rightarrow> nat list \<Rightarrow> bool" where
  "free_list s xs \<longleftrightarrow> path (sss_mem s) (sss_first s) xs 0 \<and> distinct xs"

lemma nextof_eq: "x \<noteq> 0 \<Longrightarrow> x < length (sss_mem s) \<Longrightarrow> nextof x s = Some (sss_mem s ! x)"
  by (simp add: nextof_def)

lemma set_nextof_eq:
  "x \<noteq> 0 \<Longrightarrow> x < length (sss_mem s) \<Longrightarrow> set_nextof x v s = Some (s\<lparr>sss_mem := (sss_mem s)[x := v]\<rparr>)"
  by (simp add: set_nextof_def)

subsection \<open>The members on the free list\<close>

lemma validate_loop_path: "path (sss_mem s) p xs 0 \<Longrightarrow> validate_loop p n s = Some (n + length xs)"
  by (induction xs arbitrary: p n) (simp_all add: validate_loop.simps nextof_eq)

lemma storage_malloc_list:
  assumes "free_list s (x # xs)"
  shows "\<exists>s'. storage_malloc s = Some (x, s') \<and> free_list s' xs \<and> sss_mem s' = sss_mem s"
  using assms by (auto simp: free_list_def storage_malloc_def nextof_eq)

lemma storage_free_list:
  assumes "free_list s xs" and "c \<noteq> 0" and "c < length (sss_mem s)" and "c \<notin> set xs"
  shows "\<exists>s'. storage_free c s = Some s' \<and> free_list s' (c # xs) \<and> sss_mem s' = (sss_mem s)[c := sss_first s]"
  using assms path_update [of "sss_mem s" "sss_first s" xs 0 c "sss_first s"]
  by (auto simp: free_list_def storage_free_def set_nextof_eq)

lemma find_prev_loop_path:
  "path (sss_mem s) p (x # xs) 0 \<Longrightarrow>
     find_prev_loop c x s = Some (last (x # takeWhile (\<lambda>y. y \<le> c) xs))"
proof (induction xs arbitrary: p x)
  case (Cons y ys)
  then show ?case by (simp add: find_prev_loop.simps [of c x] nextof_eq not_less)
qed (simp add: find_prev_loop.simps nextof_eq)

text \<open>The chunks up to the address, and the last of them.\<close>

lemma find_prev_list:
  assumes "free_list s xs"
  shows "find_prev c s = Some (if takeWhile (\<lambda>y. y \<le> c) xs = [] then 0 else last (takeWhile (\<lambda>y. y \<le> c) xs))"
proof (cases xs)
  case Nil
  then show ?thesis using assms by (simp add: find_prev_def free_list_def)
next
  case (Cons x ys)
  then show ?thesis
    using assms find_prev_loop_path [of s "sss_first s" x ys c]
    by (auto simp: find_prev_def free_list_def not_le)
qed

lemma find_prev_cases [consumes 1, case_names front after]:
  assumes "free_list s xs"
  obtains (front) "find_prev c s = Some 0" and "takeWhile (\<lambda>y. y \<le> c) xs = []" and "dropWhile (\<lambda>y. y \<le> c) xs = xs"
  | (after) us l ds where "find_prev c s = Some l" and "l \<noteq> 0" and "l < length (sss_mem s)"
    and "takeWhile (\<lambda>y. y \<le> c) xs = us @ [l]" and "dropWhile (\<lambda>y. y \<le> c) xs = ds" and "xs = us @ l # ds"
proof (cases "takeWhile (\<lambda>y. y \<le> c) xs" rule: rev_cases)
  case Nil
  then have "dropWhile (\<lambda>y. y \<le> c) xs = xs" by (metis append_Nil takeWhile_dropWhile_id)
  then show thesis using front find_prev_list [OF assms, of c] Nil by simp
next
  case (snoc us l)
  define ds where "ds = dropWhile (\<lambda>y. y \<le> c) xs"
  have xs: "xs = us @ l # ds"
    using takeWhile_dropWhile_id [of "\<lambda>y. y \<le> c" xs] snoc by (simp add: ds_def)
  then have "l \<noteq> 0" "l < length (sss_mem s)" using assms path_valid [of "sss_mem s" _ xs 0 l] by (auto simp: free_list_def)
  moreover have "find_prev c s = Some l" using find_prev_list [OF assms, of c] snoc by simp
  ultimately show thesis using after [OF _ _ _ snoc ds_def [symmetric] xs] by blast
qed

text \<open>New chunks \<open>cs\<close>, already linked to the successor of \<open>l\<close>, put in after \<open>l\<close>.\<close>

lemma path_splice:
  assumes p: "path m p (us @ l # ds) 0" and d: "distinct (us @ l # ds)"
    and cs: "path m1 q cs (m ! l)" "set cs \<inter> set (us @ l # ds) = {}"
    and frame: "length m1 = length m" "\<And>a. a \<in> set (us @ l # ds) \<Longrightarrow> m1 ! a = m ! a"
  shows "path (m1[l := q]) p (us @ l # cs @ ds) 0"
proof -
  have p1: "path m1 p (us @ l # ds) 0" using path_frame [OF p frame(2,1)] .
  then have us: "path m1 p us l" "l \<noteq> 0" "l < length m1" and ds: "path m1 (m ! l) ds 0"
    using frame(2) [of l] by (auto simp: path_append)
  have "path (m1[l := q]) p us l" "path (m1[l := q]) q cs (m ! l)" "path (m1[l := q]) (m ! l) ds 0"
    using path_update [OF us(1), of l q] path_update [OF cs(1), of l q] path_update [OF ds, of l q] d cs(2) by auto
  then show ?thesis using us(2,3) by (auto simp: path_append)
qed

lemma ordered_free_list:
  assumes f: "free_list s xs" and c: "c \<noteq> 0" "c < length (sss_mem s)" "c \<notin> set xs"
  shows "\<exists>s'. ordered_free c s = Some s' \<and>
    free_list s' (takeWhile (\<lambda>y. y \<le> c) xs @ c # dropWhile (\<lambda>y. y \<le> c) xs) \<and>
    length (sss_mem s') = length (sss_mem s) \<and> (\<forall>a. a \<notin> insert c (set xs) \<longrightarrow> sss_mem s' ! a = sss_mem s ! a)"
  using f
proof (cases rule: find_prev_cases [where c = c])
  case front
  then show ?thesis
    using storage_free_list [OF f c] by (auto simp: ordered_free_def)
next
  case (after us l ds)
  let ?m = "sss_mem s"
  have p: "path ?m (sss_first s) (us @ l # ds) 0" and d: "distinct (us @ l # ds)"
    using f by (simp_all add: free_list_def after(6))
  have notin: "c \<notin> set (us @ l # ds)" using c(3) after(6) by simp
  have "path (?m[c := ?m ! l, l := c]) (sss_first s) (us @ l # [c] @ ds) 0"
    by (rule path_splice [OF p d]) (use notin c in \<open>auto simp: nth_list_update\<close>)
  then show ?thesis
    using after(1-5) c notin d unfolding after(6)
    by (auto simp: ordered_free_def nextof_eq set_nextof_eq free_list_def nth_list_update)
qed

subsection \<open>Segregation\<close>

definition chunks_of :: "nat \<Rightarrow> nat \<Rightarrow> nat \<Rightarrow> nat list" where
  "chunks_of psz b n = map (\<lambda>i. b + i * psz) [0..<n]"

lemma length_chunks [simp]: "length (chunks_of psz b n) = n"
  by (simp add: chunks_of_def)

lemma nth_chunks [simp]: "i < n \<Longrightarrow> chunks_of psz b n ! i = b + i * psz"
  by (simp add: chunks_of_def)

lemma chunks_Suc: "chunks_of psz b (Suc n) = b # chunks_of psz (b + psz) n"
  by (rule nth_equalityI) (auto simp: nth_Cons split: nat.split)

lemma set_chunks: "set (chunks_of psz b n) = {b + i * psz | i. i < n}"
  by (auto simp: chunks_of_def)

lemma distinct_chunks: "0 < psz \<Longrightarrow> distinct (chunks_of psz b n)"
  by (auto simp: chunks_of_def distinct_map inj_on_def)

lemma drop_chunks: "drop k (chunks_of psz b n) = chunks_of psz (b + k * psz) (n - k)"
  by (rule nth_equalityI) (auto simp: algebra_simps)

text \<open>From the chunk with number \<open>k\<close> downwards, the loop puts every chunk but the first in front of the list.\<close>

lemma segregate_loop_path:
  assumes psz: "0 < psz" and b: "b \<noteq> 0"
    and k: "Suc k < n" and mem: "b + (n - 1) * psz < length (sss_mem s)"
    and p: "path (sss_mem s) (b + Suc k * psz) (drop (Suc k) (chunks_of psz b n) @ xs) 0"
    and disj: "set (chunks_of psz b n) \<inter> set xs = {}"
  shows "\<exists>s'. segregate_loop b psz (b + k * psz) (b + Suc k * psz) s = Some (b + psz, s')
    \<and> path (sss_mem s') (b + psz) (drop 1 (chunks_of psz b n) @ xs) 0
    \<and> sss_first s' = sss_first s \<and> length (sss_mem s') = length (sss_mem s)
    \<and> (\<forall>a. a \<notin> set (chunks_of psz b n) \<longrightarrow> sss_mem s' ! a = sss_mem s ! a)"
  using k mem p
proof (induction k arbitrary: s)
  case 0
  then show ?case by (simp add: segregate_loop.simps [of b psz b])
next
  case (Suc k)
  let ?it = "b + Suc k * psz" and ?old = "b + Suc (Suc k) * psz"
  have ne: "?it \<noteq> b" using psz by simp
  have "Suc k * psz \<le> (n - 1) * psz" using Suc.prems(1) by (intro mult_le_mono1) simp
  then have lt: "?it < length (sss_mem s)" using Suc.prems(2) by linarith
  let ?s = "s\<lparr>sss_mem := (sss_mem s)[?it := ?old]\<rparr>"
  have set: "set_nextof ?it ?old s = Some ?s" using lt b by (simp add: set_nextof_eq)
  have it: "?it \<in> set (chunks_of psz b n)" unfolding set_chunks using Suc.prems(1) by (intro CollectI exI [of _ "Suc k"]) simp
  have front: "drop (Suc k) (chunks_of psz b n) = ?it # drop (Suc (Suc k)) (chunks_of psz b n)"
    using Suc.prems(1) by (metis Cons_nth_drop_Suc Suc_lessD length_chunks nth_chunks)
  have "?it \<notin> set (drop (Suc (Suc k)) (chunks_of psz b n) @ xs)"
    using distinct_drop [OF distinct_chunks [OF psz, of b n], of "Suc k"] front it disj by auto
  then have "path (sss_mem ?s) ?it (drop (Suc k) (chunks_of psz b n) @ xs) 0"
    using path_update [OF Suc.prems(3), of ?it ?old] lt b front by simp
  then obtain s' where s': "segregate_loop b psz (b + k * psz) ?it ?s = Some (b + psz, s')"
    "path (sss_mem s') (b + psz) (drop 1 (chunks_of psz b n) @ xs) 0" "sss_first s' = sss_first ?s"
    "length (sss_mem s') = length (sss_mem ?s)" "\<forall>a. a \<notin> set (chunks_of psz b n) \<longrightarrow> sss_mem s' ! a = sss_mem ?s ! a"
    using Suc.IH [of ?s] Suc.prems(1,2) by auto
  have step: "\<not> ?it < psz" "?it - psz = b + k * psz" by simp_all
  have "segregate_loop b psz ?it ?old s = Some (b + psz, s')"
    using s'(1) ne step set by (simp only: segregate_loop.simps [of b psz ?it] if_True not_False_eq_True Option.bind.bind_lunit if_False) 
  moreover have "\<forall>a. a \<notin> set (chunks_of psz b n) \<longrightarrow> sss_mem s' ! a = sss_mem s ! a"
  proof (intro allI impI)
    fix a assume a: "a \<notin> set (chunks_of psz b n)"
    then have "a \<noteq> ?it" using it by blast
    then show "sss_mem s' ! a = sss_mem s ! a" using s'(5) a by simp
  qed
  ultimately show ?case using s'(2-4) by auto
qed

lemma segregate_path:
  assumes psz: "0 < psz" "psz \<le> sz" and b: "b \<noteq> 0" and mem: "b + (sz div psz - 1) * psz < length (sss_mem s)"
    and p: "path (sss_mem s) e xs 0" and disj: "set (chunks_of psz b (sz div psz)) \<inter> set xs = {}"
  shows "\<exists>s'. segregate b sz psz e s = Some (b, s')
    \<and> path (sss_mem s') b (chunks_of psz b (sz div psz) @ xs) 0
    \<and> sss_first s' = sss_first s \<and> length (sss_mem s') = length (sss_mem s)
    \<and> (\<forall>a. a \<notin> set (chunks_of psz b (sz div psz)) \<longrightarrow> sss_mem s' ! a = sss_mem s ! a)"
proof -
  define n where "n = sz div psz"
  have n: "(sz - psz) div psz = n - 1" "0 < n"
    using psz by (simp_all add: n_def le_div_geq div_greater_zero_iff)
  let ?cs = "chunks_of psz b n" and ?old = "b + (n - 1) * psz"
  let ?s = "s\<lparr>sss_mem := (sss_mem s)[?old := e]\<rparr>"
  have lt: "?old < length (sss_mem s)" using mem by (simp add: n_def)
  have old: "?old \<in> set ?cs" unfolding set_chunks using n(2) by (intro CollectI exI [of _ "n - 1"]) simp
  then have xs: "path (sss_mem ?s) e xs 0" using path_update [OF p, of ?old e] disj by (auto simp: n_def)
  have set: "set_nextof ?old e s = Some ?s" using lt b by (simp add: set_nextof_eq)
  have frame: "a \<notin> set ?cs \<Longrightarrow> sss_mem ?s ! a = sss_mem s ! a" for a
    using old by (cases "a = ?old") auto
  show ?thesis
  proof (cases "n = 1")
    case True
    then have "segregate b sz psz e s = Some (b, ?s)"
      using psz n(1) set by (simp add: segregate_def)
    moreover have "path (sss_mem ?s) b (?cs @ xs) 0" using True xs lt b by (simp add: chunks_of_def)
    ultimately show ?thesis using frame unfolding n_def [symmetric] by auto
  next
    case False
    then obtain k where k: "n = Suc (Suc k)" using n(2) by (cases n; cases "n - 1") auto
    have "drop (Suc k) ?cs = [?old]" using k by (simp add: drop_chunks chunks_of_def)
    then have start: "path (sss_mem ?s) (b + Suc k * psz) (drop (Suc k) ?cs @ xs) 0"
      using xs lt b k by simp
    obtain s' where s': "segregate_loop b psz (b + k * psz) (b + Suc k * psz) ?s = Some (b + psz, s')"
      "path (sss_mem s') (b + psz) (drop 1 ?cs @ xs) 0" "sss_first s' = sss_first ?s"
      "length (sss_mem s') = length (sss_mem ?s)" "\<forall>a. a \<notin> set ?cs \<longrightarrow> sss_mem s' ! a = sss_mem ?s ! a"
      using segregate_loop_path [OF psz(1) b, of k n ?s xs] start disj lt k by (auto simp: n_def)
    let ?s' = "s'\<lparr>sss_mem := (sss_mem s')[b := b + psz]\<rparr>"
    have cs: "?cs = b # drop 1 ?cs" using k by (simp add: chunks_Suc)
    have blt: "b < length (sss_mem s')" using s'(4) lt by simp
    have "distinct (b # drop 1 ?cs)" using distinct_chunks [OF psz(1), of b n] cs by metis
    moreover have "b \<in> set ?cs" using cs by (metis list.set_intros(1))
    ultimately have "b \<notin> set (drop 1 ?cs @ xs)" using disj by (auto simp: n_def)
    then have "path (sss_mem ?s') b ((b # drop 1 ?cs) @ xs) 0"
      using path_update [OF s'(2), of b "b + psz"] blt b by simp
    then have "path (sss_mem ?s') b (?cs @ xs) 0" using cs by metis
    moreover have "segregate b sz psz e s = Some (b, ?s')"
      using psz set s'(1) blt b k n(1) by (simp add: segregate_def Let_def set_nextof_eq)
    moreover have "a \<notin> set ?cs \<Longrightarrow> sss_mem ?s' ! a = sss_mem s ! a" for a
      using s'(5) frame [of a] cs by (metis list.set_intros(1) nth_list_update_neq storage.select_convs(2) storage.surjective storage.update_convs(2))
    ultimately show ?thesis using s'(3,4) unfolding n_def [symmetric] by auto
  qed
qed

lemma add_block_list:
  assumes f: "free_list s xs" and psz: "0 < psz" "psz \<le> sz" and b: "b \<noteq> 0"
    and mem: "b + (sz div psz - 1) * psz < length (sss_mem s)" and disj: "set (chunks_of psz b (sz div psz)) \<inter> set xs = {}"
  shows "\<exists>s'. add_block b sz psz s = Some s' \<and> free_list s' (chunks_of psz b (sz div psz) @ xs)
    \<and> length (sss_mem s') = length (sss_mem s)
    \<and> (\<forall>a. a \<notin> set (chunks_of psz b (sz div psz)) \<longrightarrow> sss_mem s' ! a = sss_mem s ! a)"
proof -
  have p: "path (sss_mem s) (sss_first s) xs 0" "distinct xs" using f by (auto simp: free_list_def)
  obtain s' where s': "segregate b sz psz (sss_first s) s = Some (b, s')"
    "path (sss_mem s') b (chunks_of psz b (sz div psz) @ xs) 0" "length (sss_mem s') = length (sss_mem s)"
    "\<forall>a. a \<notin> set (chunks_of psz b (sz div psz)) \<longrightarrow> sss_mem s' ! a = sss_mem s ! a"
    using segregate_path [OF psz b mem p(1) disj] by blast
  then show ?thesis
    using p(2) disj distinct_chunks [OF psz(1), of b "sz div psz"] by (auto simp: add_block_def free_list_def)
qed

lemma add_ordered_block_list:
  assumes f: "free_list s xs" and psz: "0 < psz" "psz \<le> sz" and b: "b \<noteq> 0"
    and mem: "b + (sz div psz - 1) * psz < length (sss_mem s)" and disj: "set (chunks_of psz b (sz div psz)) \<inter> set xs = {}"
  shows "\<exists>s'. add_ordered_block b sz psz s = Some s'
    \<and> free_list s' (takeWhile (\<lambda>y. y \<le> b) xs @ chunks_of psz b (sz div psz) @ dropWhile (\<lambda>y. y \<le> b) xs)
    \<and> length (sss_mem s') = length (sss_mem s)
    \<and> (\<forall>a. a \<notin> set (chunks_of psz b (sz div psz)) \<union> set xs \<longrightarrow> sss_mem s' ! a = sss_mem s ! a)"
  using f
proof (cases rule: find_prev_cases [where c = b])
  case front
  then show ?thesis using add_block_list [OF assms] by (auto simp: add_ordered_block_def)
next
  case (after us l ds)
  let ?cs = "chunks_of psz b (sz div psz)" and ?m = "sss_mem s"
  have p: "path ?m (sss_first s) (us @ l # ds) 0" and d: "distinct (us @ l # ds)"
    using f by (simp_all add: free_list_def after(6))
  have ds: "path ?m (?m ! l) ds 0" using p by (auto simp: path_append)
  have dj: "set ?cs \<inter> set (us @ l # ds) = {}" using disj after(6) by simp
  then have dj2: "set ?cs \<inter> set ds = {}" by auto
  obtain s1 where s1: "segregate b sz psz (?m ! l) s = Some (b, s1)" "path (sss_mem s1) b (?cs @ ds) 0"
    "sss_first s1 = sss_first s" "length (sss_mem s1) = length ?m" "\<forall>a. a \<notin> set ?cs \<longrightarrow> sss_mem s1 ! a = ?m ! a"
    using segregate_path [OF psz b mem ds dj2] by blast
  obtain r where r: "path (sss_mem s1) b ?cs r" "path (sss_mem s1) r ds 0" using s1(2) by (auto simp: path_append)
  have "r = ?m ! l" using path_start [OF r(2)] path_start [OF ds] by simp
  then have cs: "path (sss_mem s1) b ?cs (?m ! l)" using r(1) by simp
  have "path ((sss_mem s1)[l := b]) (sss_first s) (us @ l # ?cs @ ds) 0"
    by (rule path_splice [OF p d cs dj s1(4)]) (use s1(5) dj in blast)
  moreover have "distinct (us @ l # ?cs @ ds)" using d dj distinct_chunks [OF psz(1), of b "sz div psz"] by auto
  moreover have "add_ordered_block b sz psz s = Some (s1\<lparr>sss_mem := (sss_mem s1)[l := b]\<rparr>)"
    using after(1-3) s1(1,4) by (simp add: add_ordered_block_def nextof_eq set_nextof_eq)
  ultimately show ?thesis
    using s1(3-5) after(4,5) unfolding after(6) by (auto simp: free_list_def nth_list_update)
qed

subsection \<open>Contiguous chunks\<close>

text \<open>A sequence of \<open>n\<close> contiguous chunks in the free list, from position \<open>i\<close>.\<close>

definition contiguous_at :: "nat \<Rightarrow> nat \<Rightarrow> nat list \<Rightarrow> nat \<Rightarrow> bool" where
  "contiguous_at psz n xs i \<longleftrightarrow> i + n \<le> length xs \<and> (\<forall>j. Suc j < n \<longrightarrow> xs ! (i + Suc j) = xs ! (i + j) + psz)"

lemma try_malloc_n_loop_path:
  assumes "path (sss_mem s) p (y # ys) 0" and "0 < psz"
  shows "\<exists>r. try_malloc_n_loop y k psz s = Some r \<and>
    (case r of
       Inr l \<Rightarrow> \<exists>vs ws. y # ys = vs @ l # ws \<and> vs @ [l] = chunks_of psz y (Suc k)
     | Inl l \<Rightarrow> \<exists>vs ws j. y # ys = vs @ l # ws \<and> vs @ [l] = chunks_of psz y (Suc j) \<and> j < k \<and> (ws = [] \<or> hd ws \<noteq> l + psz))"
  using assms(1)
proof (induction k arbitrary: p y ys)
  case 0
  have "y # ys = [] @ y # ys \<and> [] @ [y] = chunks_of psz y (Suc 0)" by (simp add: chunks_of_def)
  then have "\<exists>vs ws. y # ys = vs @ y # ws \<and> vs @ [y] = chunks_of psz y (Suc 0)" by blast
  then show ?case by simp
next
  case (Suc k)
  have y: "y \<noteq> 0" "y < length (sss_mem s)" "path (sss_mem s) (sss_mem s ! y) ys 0" using Suc.prems by auto
  have one: "[] @ [y] = chunks_of psz y (Suc 0)" by (simp add: chunks_of_def)
  show ?case
  proof (cases "sss_mem s ! y = y + psz")
    case False
    then have "ys = [] \<or> hd ys \<noteq> y + psz" using y(3) by (cases ys) auto
    then have "y # ys = [] @ y # ys \<and> [] @ [y] = chunks_of psz y (Suc 0) \<and> 0 < Suc k \<and> (ys = [] \<or> hd ys \<noteq> y + psz)"
      using one by simp
    then have "\<exists>vs ws j. y # ys = vs @ y # ws \<and> vs @ [y] = chunks_of psz y (Suc j) \<and> j < Suc k \<and> (ws = [] \<or> hd ws \<noteq> y + psz)"
      by blast
    then show ?thesis using False y by (simp add: nextof_eq)
  next
    case True
    then obtain ys' where ys: "ys = (y + psz) # ys'" using y(3) assms(2) by (cases ys) auto
    have step: "try_malloc_n_loop y (Suc k) psz s = try_malloc_n_loop (y + psz) k psz s"
      using y True by (simp add: nextof_eq)
    obtain r where r: "try_malloc_n_loop (y + psz) k psz s = Some r" and c:
      "case r of
       Inr l \<Rightarrow> \<exists>vs ws. (y + psz) # ys' = vs @ l # ws \<and> vs @ [l] = chunks_of psz (y + psz) (Suc k)
     | Inl l \<Rightarrow> \<exists>vs ws j. (y + psz) # ys' = vs @ l # ws \<and> vs @ [l] = chunks_of psz (y + psz) (Suc j) \<and> j < k \<and> (ws = [] \<or> hd ws \<noteq> l + psz)"
      using Suc.IH [of "y + psz" "y + psz" ys'] y(3) ys True by auto
    have ext: "(y # vs) @ [l] = chunks_of psz y (Suc (Suc j))" if "vs @ [l] = chunks_of psz (y + psz) (Suc j)" for vs l j
      using that by (simp add: chunks_Suc [of psz y])
    show ?thesis
    proof (cases r)
      case (Inl l)
      then obtain vs ws j where "(y + psz) # ys' = vs @ l # ws" "vs @ [l] = chunks_of psz (y + psz) (Suc j)" "j < k" "ws = [] \<or> hd ws \<noteq> l + psz"
        using c by auto
      then have "y # ys = (y # vs) @ l # ws \<and> (y # vs) @ [l] = chunks_of psz y (Suc (Suc j)) \<and> Suc j < Suc k \<and> (ws = [] \<or> hd ws \<noteq> l + psz)"
        using ys ext by simp
      then have "\<exists>vs ws j. y # ys = vs @ l # ws \<and> vs @ [l] = chunks_of psz y (Suc j) \<and> j < Suc k \<and> (ws = [] \<or> hd ws \<noteq> l + psz)"
        by blast
      then show ?thesis unfolding step r Inl by auto
    next
      case (Inr l)
      then obtain vs ws where "(y + psz) # ys' = vs @ l # ws" "vs @ [l] = chunks_of psz (y + psz) (Suc k)" using c by auto
      then have "y # ys = (y # vs) @ l # ws \<and> (y # vs) @ [l] = chunks_of psz y (Suc (Suc k))" using ys ext by simp
      then have "\<exists>vs ws. y # ys = vs @ l # ws \<and> vs @ [l] = chunks_of psz y (Suc (Suc k))" by blast
      then show ?thesis unfolding step r Inr by auto
    qed
  qed
qed

text \<open>Where a sequence breaks off too early, none of the chunks before the break starts one that is long enough.\<close>

lemma no_run_across:
  assumes xs: "xs = pre @ vs @ l # ws" and j: "length (vs @ [l]) < n" and break: "ws = [] \<or> hd ws \<noteq> l + psz"
    and before: "\<And>i. i < length pre \<Longrightarrow> \<not> contiguous_at psz n xs i" and i: "i < length (pre @ vs @ [l])"
  shows "\<not> contiguous_at psz n xs i"
proof (cases "i < length pre")
  case False
  let ?e = "length (pre @ vs)"
  have le: "i \<le> ?e" using i by simp
  have at: "xs ! ?e = l" using xs by (simp add: nth_append)
  have long: "Suc (?e - i) < n" using j False by simp
  show ?thesis
  proof
    assume c: "contiguous_at psz n xs i"
    then have "xs ! (i + Suc (?e - i)) = xs ! (i + (?e - i)) + psz" using long unfolding contiguous_at_def by blast
    then have eq: "xs ! Suc ?e = l + psz" using le at by simp
    have "Suc ?e < length xs" using c long le unfolding contiguous_at_def by linarith
    then have "ws \<noteq> []" using xs by auto
    moreover have "xs ! Suc ?e = hd ws" using \<open>ws \<noteq> []\<close> xs by (simp add: nth_append hd_conv_nth)
    ultimately show False using eq break by simp
  qed
qed (use before in simp)

definition place_after :: "nat list \<Rightarrow> place" where
  "place_after pre = (if pre = [] then First else Chunk (last pre))"

lemma nextof_place_after:
  assumes "path (sss_mem s) (sss_first s) (pre @ ys) 0"
  shows "nextof_place (place_after pre) s = Some (case ys of [] \<Rightarrow> 0 | y # _ \<Rightarrow> y)"
proof (cases pre rule: rev_cases)
  case Nil
  then show ?thesis using path_start [of _ _ ys] assms by (simp add: place_after_def)
next
  case (snoc us l)
  then have "l \<noteq> 0" "l < length (sss_mem s)" "path (sss_mem s) (sss_mem s ! l) ys 0"
    using assms by (auto simp: path_append)
  then show ?thesis using path_start [of "sss_mem s" _ ys] snoc by (simp add: place_after_def nextof_eq)
qed

text \<open>Unlinking what lies between a place and a later chunk.\<close>

lemma set_nextof_place_after:
  assumes f: "free_list s (pre @ zs @ ws)" and q: "path (sss_mem s) q ws 0"
  shows "\<exists>s'. set_nextof_place (place_after pre) q s = Some s' \<and> free_list s' (pre @ ws)
    \<and> length (sss_mem s') = length (sss_mem s) \<and> (\<forall>a. a \<notin> set pre \<longrightarrow> sss_mem s' ! a = sss_mem s ! a)"
proof (cases pre rule: rev_cases)
  case Nil
  then show ?thesis using f q by (auto simp: place_after_def free_list_def)
next
  case (snoc us l)
  have d: "distinct (us @ [l] @ ws)" using f snoc by (auto simp: free_list_def)
  obtain r where r: "path (sss_mem s) (sss_first s) (us @ [l]) r" using f snoc by (auto simp: free_list_def path_append)
  then have l: "l \<noteq> 0" "l < length (sss_mem s)" by (auto simp: path_append)
  have "path ((sss_mem s)[l := q]) (sss_first s) (us @ [l]) q" using path_relink [OF r, of q] d by simp
  moreover have "path ((sss_mem s)[l := q]) q ws 0" using path_update [OF q, of l q] d by simp
  ultimately have "path ((sss_mem s)[l := q]) (sss_first s) ((us @ [l]) @ ws) 0" unfolding path_append by blast
  then show ?thesis
    using l d snoc by (auto simp: place_after_def free_list_def set_nextof_eq nth_list_update)
qed

lemma contiguous_chunks:
  assumes "xs = pre @ chunks_of psz y n @ ws"
  shows "contiguous_at psz n xs (length pre)"
  unfolding contiguous_at_def assms by (simp add: nth_append)

lemma malloc_n_loop_list:
  assumes f: "free_list s xs" and psz: "0 < psz" and n: "0 < n"
    and xs: "xs = pre @ ys" and before: "\<And>i. i < length pre \<Longrightarrow> \<not> contiguous_at psz n xs i"
  shows "(\<exists>i s'. contiguous_at psz n xs i \<and> (\<forall>i' < i. \<not> contiguous_at psz n xs i')
      \<and> malloc_n_loop (place_after pre) n psz s = Some (xs ! i, s') \<and> free_list s' (take i xs @ drop (i + n) xs)
      \<and> length (sss_mem s') = length (sss_mem s) \<and> (\<forall>a. a \<notin> set xs \<longrightarrow> sss_mem s' ! a = sss_mem s ! a))
    \<or> (\<forall>i. \<not> contiguous_at psz n xs i) \<and> malloc_n_loop (place_after pre) n psz s = Some (0, s)"
  using xs before
proof (induction "length ys" arbitrary: pre ys rule: less_induct)
  case less
  have p: "path (sss_mem s) (sss_first s) (pre @ ys) 0" using f less.prems(1) by (simp add: free_list_def)
  note start = nextof_place_after [OF p]
  show ?case
  proof (cases ys)
    case Nil
    have "\<not> contiguous_at psz n xs i" for i
      using less.prems Nil n by (cases "i < length pre") (auto simp: contiguous_at_def)
    then show ?thesis using Nil start by (simp add: malloc_n_loop.simps [of "place_after pre"])
  next
    case (Cons y ys')
    obtain q where q: "path (sss_mem s) q (y # ys') 0" using p Cons by (auto simp: path_append)
    then have y0: "y \<noteq> 0" by simp
    obtain r where r: "try_malloc_n_loop y (n - 1) psz s = Some r" and c:
      "case r of
       Inr l \<Rightarrow> \<exists>vs ws. y # ys' = vs @ l # ws \<and> vs @ [l] = chunks_of psz y (Suc (n - 1))
     | Inl l \<Rightarrow> \<exists>vs ws j. y # ys' = vs @ l # ws \<and> vs @ [l] = chunks_of psz y (Suc j) \<and> j < n - 1 \<and> (ws = [] \<or> hd ws \<noteq> l + psz)"
      using try_malloc_n_loop_path [OF q psz, of "n - 1"] by blast
    have loop: "malloc_n_loop (place_after pre) n psz s = (case r of
         Inl start1 \<Rightarrow> malloc_n_loop (Chunk start1) n psz s
       | Inr iter \<Rightarrow> do { rest \<leftarrow> nextof iter s; s1 \<leftarrow> set_nextof_place (place_after pre) rest s; Some (y, s1) })"
      using start Cons r y0 by (simp add: malloc_n_loop.simps [of "place_after pre"] try_malloc_n_def)
    show ?thesis
    proof (cases r)
      case (Inl l)
      then obtain vs ws j where v: "y # ys' = vs @ l # ws" "vs @ [l] = chunks_of psz y (Suc j)" "j < n - 1" "ws = [] \<or> hd ws \<noteq> l + psz"
        using c by auto
      have len: "length (vs @ [l]) < n" using v(2,3) by (metis length_chunks less_diff_conv Suc_eq_plus1)
      have xs': "xs = pre @ vs @ l # ws" using less.prems(1) Cons v(1) by simp
      have "\<not> contiguous_at psz n xs i" if "i < length (pre @ vs @ [l])" for i
        using no_run_across [OF xs' len v(4) less.prems(2) that] .
      moreover have "length ws < length ys" using Cons v(1) by (metis add_lessD1 length_Cons length_append lessI less_add_Suc2 not_add_less2 add.commute add_Suc_right less_Suc_eq)
      moreover have "place_after (pre @ vs @ [l]) = Chunk l" by (simp add: place_after_def)
      ultimately show ?thesis using less.hyps [of ws "pre @ vs @ [l]"] xs' Inl loop by simp
    next
      case (Inr l)
      then obtain vs ws where v: "y # ys' = vs @ l # ws" "vs @ [l] = chunks_of psz y (Suc (n - 1))" using c by auto
      then have cs: "vs @ [l] = chunks_of psz y n" using n by simp
      have xs': "xs = pre @ (vs @ [l]) @ ws" using less.prems(1) Cons v(1) by simp
      have l: "l \<noteq> 0" "l < length (sss_mem s)" "path (sss_mem s) (sss_mem s ! l) ws 0"
        using p Cons v(1) by (auto simp: path_append)
      obtain s' where s': "set_nextof_place (place_after pre) (sss_mem s ! l) s = Some s'" "free_list s' (pre @ ws)"
        "length (sss_mem s') = length (sss_mem s)" "\<forall>a. a \<notin> set pre \<longrightarrow> sss_mem s' ! a = sss_mem s ! a"
        using set_nextof_place_after [OF _ l(3), of pre "vs @ [l]"] f xs' by blast
      have len: "length (vs @ [l]) = n" using cs by (metis length_chunks)
      have "take (length pre) xs = pre" "xs ! length pre = y" using less.prems(1) Cons by simp_all
      moreover have "drop (length pre + n) xs = ws" unfolding xs' len [symmetric] by simp
      moreover have "contiguous_at psz n xs (length pre)" using contiguous_chunks [of xs pre psz y n ws] xs' cs by simp
      moreover have "malloc_n_loop (place_after pre) n psz s = Some (y, s')" using loop Inr l s'(1) by (simp add: nextof_eq)
      ultimately show ?thesis using s' less.prems xs' by (intro disjI1 exI [of _ "length pre"] exI [of _ s']) auto
    qed
  qed
qed

lemma malloc_n_list:
  assumes "free_list s xs" and "0 < psz" and "0 < n"
  shows "(\<exists>i s'. contiguous_at psz n xs i \<and> (\<forall>i' < i. \<not> contiguous_at psz n xs i')
      \<and> malloc_n n psz s = Some (xs ! i, s') \<and> free_list s' (take i xs @ drop (i + n) xs)
      \<and> length (sss_mem s') = length (sss_mem s) \<and> (\<forall>a. a \<notin> set xs \<longrightarrow> sss_mem s' ! a = sss_mem s ! a))
    \<or> (\<forall>i. \<not> contiguous_at psz n xs i) \<and> malloc_n n psz s = Some (0, s)"
  using malloc_n_loop_list [OF assms, of "[]" xs] assms(3) by (simp add: malloc_n_def place_after_def)

end
