(* ===== verification/Storage_Properties.thy ===== *)
theory Storage_Properties
  imports Segregated_Storage
begin

text \<open>
  Clients of \<^verbatim>\<open>simple_segregated_storage\<close> that keep its preconditions: blocks they add are memory of their own,
  they give back only chunks they hold, and they write only into those. Beside the storage the state has the
  chunks the client holds and all chunks ever added; they are what the preconditions speak of.
\<close>

subsection \<open>Definitions\<close>

datatype storage_op =
    Add_Block nat nat | Add_Ordered_Block nat nat
  | Malloc | Free nat | Ordered_Free nat
  | Malloc_N nat | Free_N nat nat | Ordered_Free_N nat nat
  | Client_Write nat nat nat

type_synonym client_state = "storage \<times> nat list \<times> nat list"
type_synonym client_view = "nat \<times> nat list \<times> nat list \<times> nat list"

definition apart :: "nat \<Rightarrow> nat \<Rightarrow> nat \<Rightarrow> bool" where
  "apart psz a b \<longleftrightarrow> a + psz \<le> b \<or> b + psz \<le> a"

definition new_block :: "nat \<Rightarrow> nat \<Rightarrow> nat \<Rightarrow> nat \<Rightarrow> nat list \<Rightarrow> bool" where
  "new_block psz msz b sz owned \<longleftrightarrow>
     psz \<le> sz \<and> b \<noteq> 0 \<and> b + sz \<le> msz \<and>
     (\<forall>c \<in> set (chunks_of psz b (sz div psz)). \<forall>x \<in> set owned. apart psz c x)"

fun client_exec :: "nat \<Rightarrow> storage_op \<Rightarrow> client_state \<Rightarrow> client_state option" where
  "client_exec psz (Add_Block b sz) (s, held, owned) =
     (if new_block psz (length (sss_mem s)) b sz owned
      then map_option (\<lambda>s1. (s1, held, chunks_of psz b (sz div psz) @ owned)) (add_block b sz psz s) else None)"
| "client_exec psz (Add_Ordered_Block b sz) (s, held, owned) =
     (if new_block psz (length (sss_mem s)) b sz owned
      then map_option (\<lambda>s1. (s1, held, chunks_of psz b (sz div psz) @ owned)) (add_ordered_block b sz psz s) else None)"
| "client_exec psz Malloc (s, held, owned) =
     (if storage_empty s then None else map_option (\<lambda>(p, s1). (s1, p # held, owned)) (storage_malloc s))"
| "client_exec psz (Free c) (s, held, owned) =
     (if c \<in> set held then map_option (\<lambda>s1. (s1, filter (\<lambda>x. x \<noteq> c) held, owned)) (storage_free c s) else None)"
| "client_exec psz (Ordered_Free c) (s, held, owned) =
     (if c \<in> set held then map_option (\<lambda>s1. (s1, filter (\<lambda>x. x \<noteq> c) held, owned)) (ordered_free c s) else None)"
| "client_exec psz (Malloc_N n) (s, held, owned) =
     map_option (\<lambda>(p, s1). (s1, (if p = 0 then [] else chunks_of psz p n) @ held, owned)) (malloc_n n psz s)"
| "client_exec psz (Free_N p n) (s, held, owned) =
     (if set (chunks_of psz p n) \<subseteq> set held
      then map_option (\<lambda>s1. (s1, filter (\<lambda>x. x \<notin> set (chunks_of psz p n)) held, owned)) (free_n p n psz s) else None)"
| "client_exec psz (Ordered_Free_N p n) (s, held, owned) =
     (if set (chunks_of psz p n) \<subseteq> set held
      then map_option (\<lambda>s1. (s1, filter (\<lambda>x. x \<notin> set (chunks_of psz p n)) held, owned)) (ordered_free_n p n psz s) else None)"
| "client_exec psz (Client_Write p off v) (s, held, owned) =
     (if p \<in> set held \<and> off < psz then Some (s\<lparr>sss_mem := (sss_mem s)[p + off := v]\<rparr>, held, owned) else None)"

text \<open>The specification, on the free list itself.\<close>

definition put_at :: "nat \<Rightarrow> nat list \<Rightarrow> nat list \<Rightarrow> nat list" where
  "put_at p cs xs = takeWhile (\<lambda>y. y \<le> p) xs @ cs @ dropWhile (\<lambda>y. y \<le> p) xs"

fun client_spec :: "nat \<Rightarrow> storage_op \<Rightarrow> client_view \<Rightarrow> client_view option" where
  "client_spec psz (Add_Block b sz) (msz, xs, held, owned) =
     (if new_block psz msz b sz owned
      then Some (msz, chunks_of psz b (sz div psz) @ xs, held, chunks_of psz b (sz div psz) @ owned) else None)"
| "client_spec psz (Add_Ordered_Block b sz) (msz, xs, held, owned) =
     (if new_block psz msz b sz owned
      then Some (msz, put_at b (chunks_of psz b (sz div psz)) xs, held, chunks_of psz b (sz div psz) @ owned) else None)"
| "client_spec psz Malloc (msz, xs, held, owned) =
     (case xs of [] \<Rightarrow> None | x # ys \<Rightarrow> Some (msz, ys, x # held, owned))"
| "client_spec psz (Free c) (msz, xs, held, owned) =
     (if c \<in> set held then Some (msz, c # xs, filter (\<lambda>x. x \<noteq> c) held, owned) else None)"
| "client_spec psz (Ordered_Free c) (msz, xs, held, owned) =
     (if c \<in> set held then Some (msz, put_at c [c] xs, filter (\<lambda>x. x \<noteq> c) held, owned) else None)"
| "client_spec psz (Malloc_N n) (msz, xs, held, owned) =
     (if n = 0 then Some (msz, xs, held, owned)
      else case find (contiguous_at psz n xs) [0..<length xs] of
        None \<Rightarrow> Some (msz, xs, held, owned)
      | Some i \<Rightarrow> Some (msz, take i xs @ drop (i + n) xs, take n (drop i xs) @ held, owned))"
| "client_spec psz (Free_N p n) (msz, xs, held, owned) =
     (if set (chunks_of psz p n) \<subseteq> set held
      then Some (msz, chunks_of psz p n @ xs, filter (\<lambda>x. x \<notin> set (chunks_of psz p n)) held, owned) else None)"
| "client_spec psz (Ordered_Free_N p n) (msz, xs, held, owned) =
     (if set (chunks_of psz p n) \<subseteq> set held
      then Some (msz, put_at p (chunks_of psz p n) xs, filter (\<lambda>x. x \<notin> set (chunks_of psz p n)) held, owned) else None)"
| "client_spec psz (Client_Write p off v) (msz, xs, held, owned) =
     (if p \<in> set held \<and> off < psz then Some (msz, xs, held, owned) else None)"

fun walk :: "nat \<Rightarrow> nat list \<Rightarrow> nat \<Rightarrow> nat list" where
  "walk 0 memory p = []"
| "walk (Suc k) memory p = (if p = 0 \<or> p \<ge> length memory then [] else p # walk k memory (memory ! p))"

fun client_view :: "client_state \<Rightarrow> client_view" where
  "client_view (s, held, owned) =
     (length (sss_mem s), walk (length (sss_mem s)) (sss_mem s) (sss_first s), held, owned)"

definition well_kept :: "nat \<Rightarrow> client_view \<Rightarrow> bool" where
  "well_kept psz v \<longleftrightarrow> (case v of (msz, xs, held, owned) \<Rightarrow>
     0 < psz \<and> distinct xs \<and> set xs \<union> set held = set owned \<and> set xs \<inter> set held = {} \<and>
     (\<forall>a \<in> set owned. a \<noteq> 0 \<and> a + psz \<le> msz \<and> (\<forall>b \<in> set owned. a \<noteq> b \<longrightarrow> apart psz a b)))"

definition client_valid :: "nat \<Rightarrow> client_state \<Rightarrow> bool" where
  "client_valid psz st \<longleftrightarrow>
     well_kept psz (client_view st) \<and> free_list (fst st) (fst (snd (client_view st)))"

subsection \<open>The free list read off the memory\<close>

lemma walk_path: "path memory p xs 0 \<Longrightarrow> length xs \<le> k \<Longrightarrow> walk k memory p = xs"
proof (induction xs arbitrary: p k)
  case Nil
  then show ?case by (cases k) auto
next
  case (Cons x xs)
  then show ?case by (cases k) auto
qed

lemma free_list_walk:
  assumes "free_list s xs"
  shows "walk (length (sss_mem s)) (sss_mem s) (sss_first s) = xs"
proof (rule walk_path)
  have "set xs \<subseteq> {..<length (sss_mem s)}" using assms path_valid by (fastforce simp: free_list_def)
  then have "card (set xs) \<le> length (sss_mem s)" using card_mono [of "{..<length (sss_mem s)}" "set xs"] by simp
  then show "length xs \<le> length (sss_mem s)" using assms by (simp add: free_list_def distinct_card)
qed (use assms in \<open>simp add: free_list_def\<close>)

lemma client_validI:
  assumes "free_list s xs" and "well_kept psz (length (sss_mem s), xs, held, owned)"
  shows "client_valid psz (s, held, owned) \<and> client_view (s, held, owned) = (length (sss_mem s), xs, held, owned)"
  using assms free_list_walk [OF assms(1)] by (simp add: client_valid_def)

lemma client_validE:
  assumes "client_valid psz (s, held, owned)"
  obtains xs where "free_list s xs" and "well_kept psz (length (sss_mem s), xs, held, owned)"
    and "client_view (s, held, owned) = (length (sss_mem s), xs, held, owned)"
  using assms by (auto simp: client_valid_def)

subsection \<open>The specification keeps the chunks apart\<close>

lemma set_put_at [simp]: "set (put_at p cs xs) = set cs \<union> set xs"
  unfolding put_at_def by (metis Un_left_commute set_append takeWhile_dropWhile_id)

lemma distinct_put_at: "distinct xs \<Longrightarrow> distinct cs \<Longrightarrow> set cs \<inter> set xs = {} \<Longrightarrow> distinct (put_at p cs xs)"
proof -
  assume d: "distinct xs" "distinct cs" "set cs \<inter> set xs = {}"
  have "distinct (takeWhile (\<lambda>y. y \<le> p) xs @ dropWhile (\<lambda>y. y \<le> p) xs)" using d(1) by simp
  moreover have "set (takeWhile (\<lambda>y. y \<le> p) xs) \<subseteq> set xs" "set (dropWhile (\<lambda>y. y \<le> p) xs) \<subseteq> set xs"
    by (auto dest: set_takeWhileD set_dropWhileD)
  ultimately show ?thesis using d(2,3) unfolding put_at_def distinct_append by (auto simp del: takeWhile_dropWhile_id)
qed

lemma chunks_in_block:
  assumes "c \<in> set (chunks_of psz b (sz div psz))"
  shows "b \<le> c" and "c + psz \<le> b + sz"
proof -
  obtain i where i: "c = b + i * psz" "i < sz div psz" using assms by (auto simp: set_chunks)
  have "Suc i * psz \<le> (sz div psz) * psz" using i(2) by (intro mult_le_mono1) simp
  also have "\<dots> \<le> sz" by simp
  finally show "b \<le> c" "c + psz \<le> b + sz" using i(1) by auto
qed

lemma chunks_apart: "a \<in> set (chunks_of psz b n) \<Longrightarrow> c \<in> set (chunks_of psz b n) \<Longrightarrow> a \<noteq> c \<Longrightarrow> apart psz a c"
proof -
  assume "a \<in> set (chunks_of psz b n)" "c \<in> set (chunks_of psz b n)" "a \<noteq> c"
  then obtain i j where ij: "a = b + i * psz" "c = b + j * psz" "i \<noteq> j" by (auto simp: set_chunks)
  then consider "Suc i \<le> j" | "Suc j \<le> i" by linarith
  then show ?thesis using mult_le_mono1 [of "Suc i" j psz] mult_le_mono1 [of "Suc j" i psz] ij by cases (auto simp: apart_def)
qed

lemma apart_neq: "0 < psz \<Longrightarrow> apart psz a b \<Longrightarrow> a \<noteq> b"
  by (auto simp: apart_def)

lemma well_keptD:
  assumes "well_kept psz (msz, xs, held, owned)"
  shows "0 < psz" and "distinct xs" and "set xs \<union> set held = set owned" and "set xs \<inter> set held = {}"
    and "\<And>a. a \<in> set owned \<Longrightarrow> a \<noteq> 0 \<and> a + psz \<le> msz"
    and "\<And>a b. a \<in> set owned \<Longrightarrow> b \<in> set owned \<Longrightarrow> a \<noteq> b \<Longrightarrow> apart psz a b"
    and "\<And>a. a \<in> set xs \<Longrightarrow> a \<in> set owned" and "\<And>a. a \<in> set held \<Longrightarrow> a \<in> set owned"
  using assms by (auto simp: well_kept_def)

text \<open>Chunks move between the free list and the client.\<close>

lemma well_kept_move:
  assumes "well_kept psz (msz, xs, held, owned)" and "distinct xs'"
    and "set xs' \<union> set held' = set owned" and "set xs' \<inter> set held' = {}"
  shows "well_kept psz (msz, xs', held', owned)"
  using assms by (simp add: well_kept_def)

lemma new_block_chunks:
  assumes w: "well_kept psz (msz, xs, held, owned)" and b: "new_block psz msz b sz owned"
  shows "set (chunks_of psz b (sz div psz)) \<inter> set owned = {}" and "b + (sz div psz - 1) * psz < msz"
    and "psz \<le> sz" and "b \<noteq> 0"
    and "\<And>c. c \<in> set (chunks_of psz b (sz div psz)) \<Longrightarrow> c \<noteq> 0 \<and> c + psz \<le> msz"
proof -
  note d = well_keptD [OF w]
  show "psz \<le> sz" "b \<noteq> 0" using b by (auto simp: new_block_def)
  show "set (chunks_of psz b (sz div psz)) \<inter> set owned = {}"
    using b apart_neq [OF d(1)] by (auto simp: new_block_def)
  show range: "c \<noteq> 0 \<and> c + psz \<le> msz" if "c \<in> set (chunks_of psz b (sz div psz))" for c
    using chunks_in_block [OF that] b by (auto simp: new_block_def)
  have "0 < sz div psz" using b d(1) by (simp add: new_block_def div_greater_zero_iff)
  then have "b + (sz div psz - 1) * psz \<in> set (chunks_of psz b (sz div psz))"
    unfolding set_chunks by (intro CollectI exI [of _ "sz div psz - 1"]) simp
  then show "b + (sz div psz - 1) * psz < msz" using range [of "b + (sz div psz - 1) * psz"] d(1) by linarith
qed

lemma well_kept_add:
  assumes w: "well_kept psz (msz, xs, held, owned)" and b: "new_block psz msz b sz owned"
    and xs': "distinct xs'" "set xs' = set (chunks_of psz b (sz div psz)) \<union> set xs"
  shows "well_kept psz (msz, xs', held, chunks_of psz b (sz div psz) @ owned)"
proof -
  note d = well_keptD [OF w] and nb = new_block_chunks [OF w b]
  have ap: "apart psz c a" "apart psz a c" if "c \<in> set (chunks_of psz b (sz div psz))" "a \<in> set owned" for a c
    using b that by (auto simp: new_block_def apart_def)
  show ?thesis
    unfolding well_kept_def prod.case
  proof (intro conjI ballI impI)
    show "0 < psz" "distinct xs'" by (fact d(1), fact xs'(1))
    show "set xs' \<union> set held = set (chunks_of psz b (sz div psz) @ owned)" using xs'(2) d(3) by auto
    show "set xs' \<inter> set held = {}" using xs'(2) d(3,4) nb(1) by auto
  next
    fix a assume "a \<in> set (chunks_of psz b (sz div psz) @ owned)"
    then show "a \<noteq> 0" "a + psz \<le> msz" using nb(5) d(5) by auto
  next
    fix a c assume "a \<in> set (chunks_of psz b (sz div psz) @ owned)" "c \<in> set (chunks_of psz b (sz div psz) @ owned)" "a \<noteq> c"
    then show "apart psz a c" using ap d(6) chunks_apart by auto
  qed
qed

text \<open>What \<^verbatim>\<open>malloc_n\<close> takes is the first sequence of adjacent chunks in the list.\<close>

lemma contiguous_take:
  assumes "contiguous_at psz n xs i"
  shows "take n (drop i xs) = chunks_of psz (xs ! i) n"
proof (rule nth_equalityI)
  show len: "length (take n (drop i xs)) = length (chunks_of psz (xs ! i) n)" using assms by (auto simp: contiguous_at_def)
  fix j assume "j < length (take n (drop i xs))"
  then have "j < n" using len by simp
  then have "xs ! (i + j) = xs ! i + j * psz"
  proof (induction j)
    case (Suc j)
    then have "xs ! (i + Suc j) = xs ! (i + j) + psz" using assms unfolding contiguous_at_def by blast
    then show ?case using Suc by simp
  qed simp
  then show "take n (drop i xs) ! j = chunks_of psz (xs ! i) n ! j" using \<open>j < n\<close> assms by (simp add: contiguous_at_def)
qed

lemma malloc_n_find:
  assumes "free_list s xs" and "0 < psz" and "0 < n"
  shows "case find (contiguous_at psz n xs) [0..<length xs] of
      None \<Rightarrow> malloc_n n psz s = Some (0, s)
    | Some i \<Rightarrow> contiguous_at psz n xs i \<and> i < length xs \<and>
        (\<exists>s'. malloc_n n psz s = Some (xs ! i, s') \<and> free_list s' (take i xs @ drop (i + n) xs)
          \<and> length (sss_mem s') = length (sss_mem s))"
proof -
  have range: "contiguous_at psz n xs i \<Longrightarrow> i < length xs" for i using assms(3) by (auto simp: contiguous_at_def)
  show ?thesis
    using malloc_n_list [OF assms]
  proof (elim disjE exE conjE)
    fix i s' assume i: "contiguous_at psz n xs i" "\<forall>i' < i. \<not> contiguous_at psz n xs i'"
      and m: "malloc_n n psz s = Some (xs ! i, s')" "free_list s' (take i xs @ drop (i + n) xs)" "length (sss_mem s') = length (sss_mem s)"
    have "find (contiguous_at psz n xs) [0..<length xs] = Some i"
      unfolding find_Some_iff using i range [OF i(1)] by (intro exI [of _ i]) simp
    then show ?thesis using i(1) m range by auto
  next
    assume "\<forall>i. \<not> contiguous_at psz n xs i" "malloc_n n psz s = Some (0, s)"
    then show ?thesis using find_None_iff [of "contiguous_at psz n xs" "[0..<length xs]"] by simp
  qed
qed

subsection \<open>Refinement\<close>

lemma well_kept_spec:
  assumes w: "well_kept psz (msz, xs, held, owned)" and "client_spec psz c (msz, xs, held, owned) = Some v"
  shows "well_kept psz v"
proof -
  note d = well_keptD [OF w]
  have dc: "distinct (chunks_of psz b n)" for b n using distinct_chunks [OF d(1)] .
  show ?thesis
  proof (cases c)
    case (Add_Block b sz)
    then have nb: "new_block psz msz b sz owned" and v: "v = (msz, chunks_of psz b (sz div psz) @ xs, held, chunks_of psz b (sz div psz) @ owned)"
      using assms(2) by (auto split: if_splits)
    then show ?thesis using well_kept_add [OF w nb, of "chunks_of psz b (sz div psz) @ xs"] new_block_chunks(1) [OF w nb] d(2,3) dc by auto
  next
    case (Add_Ordered_Block b sz)
    then have nb: "new_block psz msz b sz owned" and v: "v = (msz, put_at b (chunks_of psz b (sz div psz)) xs, held, chunks_of psz b (sz div psz) @ owned)"
      using assms(2) by (auto split: if_splits)
    have "distinct (put_at b (chunks_of psz b (sz div psz)) xs)"
      using new_block_chunks(1) [OF w nb] d(3) by (intro distinct_put_at [OF d(2) dc]) auto
    then show ?thesis unfolding v by (intro well_kept_add [OF w nb]) simp_all
  next
    case (Malloc_N n)
    show ?thesis
    proof (cases "n = 0 \<or> find (contiguous_at psz n xs) [0..<length xs] = None")
      case True
      then show ?thesis using Malloc_N assms by (auto split: option.splits)
    next
      case False
      then obtain i where v: "v = (msz, take i xs @ drop (i + n) xs, take n (drop i xs) @ held, owned)"
        using Malloc_N assms(2) by (auto split: option.splits)
      have xs: "xs = take i xs @ take n (drop i xs) @ drop (i + n) xs"
        by (metis add.commute append_take_drop_id drop_drop)
      then have dist: "distinct (take i xs @ take n (drop i xs) @ drop (i + n) xs)"
        and set: "set xs = set (take i xs) \<union> set (take n (drop i xs)) \<union> set (drop (i + n) xs)"
        using d(2) by (metis, metis set_append sup_assoc)
      show ?thesis unfolding v by (rule well_kept_move [OF w]) (use dist set d(3,4) in auto)
    qed
  next
    case (Free_N p n)
    then have p: "set (chunks_of psz p n) \<subseteq> set held"
      and v: "v = (msz, chunks_of psz p n @ xs, filter (\<lambda>x. x \<notin> set (chunks_of psz p n)) held, owned)"
      using assms(2) by (auto split: if_splits)
    show ?thesis unfolding v by (rule well_kept_move [OF w]) (use p d(2,3,4) dc in auto)
  next
    case (Ordered_Free_N p n)
    then have p: "set (chunks_of psz p n) \<subseteq> set held"
      and v: "v = (msz, put_at p (chunks_of psz p n) xs, filter (\<lambda>x. x \<notin> set (chunks_of psz p n)) held, owned)"
      using assms(2) by (auto split: if_splits)
    show ?thesis unfolding v
      by (rule well_kept_move [OF w]) (use p d(2,3,4) dc in \<open>auto intro!: distinct_put_at\<close>)
  qed (use assms(2) d(2,3,4) in \<open>auto split: if_splits list.splits intro!: well_kept_move [OF w] distinct_put_at\<close>)
qed

text \<open>The members on the free list, with the preconditions from the state of the client.\<close>

lemma client_agrees_if:
  assumes w: "well_kept psz (length (sss_mem s), xs, held, owned)"
    and "client_exec psz c (s, held, owned) = Some (s', held', owned')"
    and "client_spec psz c (length (sss_mem s), xs, held, owned) = Some (length (sss_mem s), xs', held', owned')"
    and "free_list s' xs'" and "length (sss_mem s') = length (sss_mem s)"
  shows "agrees (client_valid psz) client_view (client_exec psz c (s, held, owned))
    (client_spec psz c (length (sss_mem s), xs, held, owned))"
  using client_validI [OF assms(4), of psz held' owned'] well_kept_spec [OF w assms(3)] assms by simp

lemma free_n_list:
  assumes f: "free_list s xs" and w: "well_kept psz (length (sss_mem s), xs, held, owned)"
    and p: "set (chunks_of psz p n) \<subseteq> set held"
  shows "\<exists>s'. free_n p n psz s = Some s' \<and> free_list s' (chunks_of psz p n @ xs) \<and> length (sss_mem s') = length (sss_mem s)"
    and "\<exists>s'. ordered_free_n p n psz s = Some s' \<and> free_list s' (put_at p (chunks_of psz p n) xs) \<and> length (sss_mem s') = length (sss_mem s)"
proof -
  note d = well_keptD [OF w]
  have "(\<exists>s'. free_n p n psz s = Some s' \<and> free_list s' (chunks_of psz p n @ xs) \<and> length (sss_mem s') = length (sss_mem s))
    \<and> (\<exists>s'. ordered_free_n p n psz s = Some s' \<and> free_list s' (put_at p (chunks_of psz p n) xs) \<and> length (sss_mem s') = length (sss_mem s))"
  proof (cases n)
    case 0
    then show ?thesis using f by (simp add: free_n_def ordered_free_n_def chunks_of_def put_at_def)
  next
    case (Suc k)
    have k: "n * psz div psz = n" "psz \<le> n * psz" using d(1) Suc by simp_all
    have "p \<in> set (chunks_of psz p n)" "p + k * psz \<in> set (chunks_of psz p n)"
      unfolding set_chunks using Suc by (force, blast)
    then have "p \<in> set held" "p + k * psz \<in> set held" using p by auto
    then have b: "p \<noteq> 0" "p + (n - 1) * psz < length (sss_mem s)" using d(1) d(5) [OF d(8) [of p]] d(5) [OF d(8) [of "p + k * psz"]] Suc by auto
    have dj: "set (chunks_of psz p n) \<inter> set xs = {}" using p d(4) by auto
    show ?thesis
      using add_block_list [OF f d(1) k(2) b(1)] add_ordered_block_list [OF f d(1) k(2) b(1)] b(2) dj Suc
      unfolding k(1) by (auto simp: free_n_def ordered_free_n_def put_at_def)
  qed
  then show "\<exists>s'. free_n p n psz s = Some s' \<and> free_list s' (chunks_of psz p n @ xs) \<and> length (sss_mem s') = length (sss_mem s)"
    "\<exists>s'. ordered_free_n p n psz s = Some s' \<and> free_list s' (put_at p (chunks_of psz p n) xs) \<and> length (sss_mem s') = length (sss_mem s)"
    by blast+
qed

lemma client_write_list:
  assumes f: "free_list s xs" and w: "well_kept psz (length (sss_mem s), xs, held, owned)"
    and "p \<in> set held" and "off < psz"
  shows "free_list (s\<lparr>sss_mem := (sss_mem s)[p + off := v]\<rparr>) xs"
proof -
  note d = well_keptD [OF w]
  have "p + off \<notin> set xs"
  proof
    assume x: "p + off \<in> set xs"
    then have "p + off \<noteq> p" using assms(3) d(4) by auto
    then have "apart psz (p + off) p" using d(6) [OF d(7) [OF x] d(8) [OF assms(3)]] by blast
    then show False using assms(4) by (auto simp: apart_def)
  qed
  then show ?thesis using f path_update by (simp add: free_list_def)
qed

lemma malloc_list_cases:
  assumes "free_list s xs"
  shows "storage_empty s \<longleftrightarrow> xs = []"
  using assms by (cases xs) (auto simp: free_list_def storage_empty_def)

lemma agrees_both_None: "agrees valid view None None"
  by simp

lemma client_step:
  assumes f: "free_list s xs" and w: "well_kept psz (length (sss_mem s), xs, held, owned)"
  shows "agrees (client_valid psz) client_view (client_exec psz c (s, held, owned))
    (client_spec psz c (length (sss_mem s), xs, held, owned))"
proof -
  note d = well_keptD [OF w] and fin = client_agrees_if [OF w]
  have dj: "set (chunks_of psz b (sz div psz)) \<inter> set xs = {}" if "new_block psz (length (sss_mem s)) b sz owned" for b sz
    using new_block_chunks(1) [OF w that] d(3) by auto
  have held: "p \<noteq> 0" "p < length (sss_mem s)" "p \<notin> set xs" if "p \<in> set held" for p
    using d(1,4) d(5) [OF d(8) [OF that]] that by auto
  show ?thesis
  proof (cases c)
    case (Add_Block b sz)
    show ?thesis
    proof (cases "new_block psz (length (sss_mem s)) b sz owned")
      case True
      note nb = new_block_chunks [OF w True]
      obtain s' where "add_block b sz psz s = Some s'" "free_list s' (chunks_of psz b (sz div psz) @ xs)" "length (sss_mem s') = length (sss_mem s)"
        using add_block_list [OF f d(1) nb(3,4,2) dj [OF True]] by blast
      then show ?thesis using Add_Block True by (intro fin [where s' = s']) auto
    qed (simp add: Add_Block)
  next
    case (Add_Ordered_Block b sz)
    show ?thesis
    proof (cases "new_block psz (length (sss_mem s)) b sz owned")
      case True
      note nb = new_block_chunks [OF w True]
      obtain s' where "add_ordered_block b sz psz s = Some s'" "free_list s' (put_at b (chunks_of psz b (sz div psz)) xs)" "length (sss_mem s') = length (sss_mem s)"
        using add_ordered_block_list [OF f d(1) nb(3,4,2) dj [OF True]] unfolding put_at_def by blast
      then show ?thesis using Add_Ordered_Block True by (intro fin [where s' = s']) auto
    qed (simp add: Add_Ordered_Block)
  next
    case Malloc
    show ?thesis
    proof (cases xs)
      case (Cons x ys)
      obtain s' where "storage_malloc s = Some (x, s')" "free_list s' ys" "sss_mem s' = sss_mem s"
        using storage_malloc_list f Cons by blast
      then show ?thesis using Malloc Cons malloc_list_cases [OF f] by (intro fin [where s' = s']) auto
    qed (use Malloc malloc_list_cases [OF f] in simp)
  next
    case (Free p)
    show ?thesis
    proof (cases "p \<in> set held")
      case True
      obtain s' where "storage_free p s = Some s'" "free_list s' (p # xs)" "sss_mem s' = (sss_mem s)[p := sss_first s]"
        using storage_free_list [OF f held [OF True]] by blast
      then show ?thesis using Free True by (intro fin [where s' = s']) auto
    qed (simp add: Free)
  next
    case (Ordered_Free p)
    show ?thesis
    proof (cases "p \<in> set held")
      case True
      obtain s' where "ordered_free p s = Some s'" "free_list s' (put_at p [p] xs)" "length (sss_mem s') = length (sss_mem s)"
        using ordered_free_list [OF f held [OF True]] unfolding put_at_def by auto
      then show ?thesis using Ordered_Free True by (intro fin [where s' = s']) auto
    qed (simp add: Ordered_Free)
  next
    case (Malloc_N n)
    show ?thesis
    proof (cases "n = 0")
      case True
      then show ?thesis using Malloc_N f by (intro fin [where s' = s]) (auto simp: malloc_n_def)
    next
      case False
      note m = malloc_n_find [OF f d(1), of n]
      show ?thesis
      proof (cases "find (contiguous_at psz n xs) [0..<length xs]")
        case None
        then show ?thesis using m False Malloc_N f by (intro fin [where s' = s]) auto
      next
        case (Some i)
        then obtain s' where s': "malloc_n n psz s = Some (xs ! i, s')" "free_list s' (take i xs @ drop (i + n) xs)" "length (sss_mem s') = length (sss_mem s)"
          and i: "contiguous_at psz n xs i" "i < length xs" using m False by auto
        have "xs ! i \<noteq> 0" using d(5) [OF d(7) [OF nth_mem [OF i(2)]]] by blast
        then show ?thesis using s' Some False Malloc_N contiguous_take [OF i(1)] by (intro fin [where s' = s']) auto
      qed
    qed
  next
    case (Free_N p n)
    show ?thesis
    proof (cases "set (chunks_of psz p n) \<subseteq> set held")
      case True
      then obtain s' where "free_n p n psz s = Some s'" "free_list s' (chunks_of psz p n @ xs)" "length (sss_mem s') = length (sss_mem s)"
        using free_n_list(1) [OF f w] by blast
      then show ?thesis using Free_N True by (intro fin [where s' = s']) auto
    qed (simp add: Free_N)
  next
    case (Ordered_Free_N p n)
    show ?thesis
    proof (cases "set (chunks_of psz p n) \<subseteq> set held")
      case True
      then obtain s' where "ordered_free_n p n psz s = Some s'" "free_list s' (put_at p (chunks_of psz p n) xs)" "length (sss_mem s') = length (sss_mem s)"
        using free_n_list(2) [OF f w] by blast
      then show ?thesis using Ordered_Free_N True by (intro fin [where s' = s']) auto
    qed (simp add: Ordered_Free_N)
  next
    case (Client_Write p off v)
    show ?thesis
    proof (cases "p \<in> set held \<and> off < psz")
      case True
      then show ?thesis using Client_Write client_write_list [OF f w] by (intro fin [where s' = "s\<lparr>sss_mem := (sss_mem s)[p + off := v]\<rparr>"]) auto
    next
      case False
      then show ?thesis using Client_Write by auto
    qed
  qed
qed

interpretation storage_impl: data_refinement "client_valid psz" client_view "\<lambda>_. True" "client_exec psz" "client_spec psz" for psz
proof unfold_locales
  fix st :: client_state and c :: storage_op
  assume v: "client_valid psz st"
  obtain s held owned where st: "st = (s, held, owned)" by (cases st)
  obtain xs where xs: "free_list s xs" "well_kept psz (length (sss_mem s), xs, held, owned)"
    "client_view (s, held, owned) = (length (sss_mem s), xs, held, owned)"
    using client_validE v st by blast
  show "agrees (client_valid psz) client_view (client_exec psz c st) (client_spec psz c (client_view st))"
    unfolding st xs(3) by (rule client_step [OF xs(1,2)])
qed

subsection \<open>Ordered storage\<close>

text \<open>The members that keep the free list in the order of addresses.\<close>

fun ordered_op :: "storage_op \<Rightarrow> bool" where
  "ordered_op (Add_Block b sz) = False"
| "ordered_op (Free c) = False"
| "ordered_op (Free_N p n) = False"
| "ordered_op _ = True"

lemma sorted_put_at:
  assumes "sorted xs" and "sorted cs" and "\<And>c. c \<in> set cs \<Longrightarrow> p \<le> c" and "\<And>c y. c \<in> set cs \<Longrightarrow> y \<in> set xs \<Longrightarrow> p < y \<Longrightarrow> c \<le> y"
  shows "sorted (put_at p cs xs)"
proof -
  have above: "y \<in> set (dropWhile (\<lambda>y. y \<le> p) xs) \<Longrightarrow> p < y \<and> y \<in> set xs" for y
    using assms(1)
  proof (induction xs)
    case (Cons x xs)
    then show ?case by (cases "x \<le> p") auto
  qed simp
  have below: "y \<in> set (takeWhile (\<lambda>y. y \<le> p) xs) \<Longrightarrow> y \<le> p" for y by (metis set_takeWhileD)
  have parts: "sorted (takeWhile (\<lambda>y. y \<le> p) xs)" "sorted (dropWhile (\<lambda>y. y \<le> p) xs)"
    using assms(1) by (simp_all add: sorted_takeWhile sorted_dropWhile)
  show ?thesis unfolding put_at_def sorted_append
    using parts assms(2) above below assms(3,4) by (auto; meson below above assms(3) le_trans less_imp_le_nat)
qed

lemma sorted_chunks: "sorted (chunks_of psz b n)"
  by (simp add: sorted_iff_nth_mono)

text \<open>A chunk beyond the start of a run of chunks, and apart from all of them, lies beyond its end.\<close>

lemma apart_beyond:
  assumes "0 < psz" and "\<And>c. c \<in> set (chunks_of psz b n) \<Longrightarrow> apart psz c y" and "b < y"
  shows "b + n * psz \<le> y"
  using assms(2)
proof (induction n)
  case (Suc n)
  have "set (chunks_of psz b n) \<subseteq> set (chunks_of psz b (Suc n))" by (auto simp: chunks_of_def)
  then have "c \<in> set (chunks_of psz b n) \<Longrightarrow> apart psz c y" for c using Suc.prems [of c] by blast
  then have "b + n * psz \<le> y" by (rule Suc.IH)
  moreover have "apart psz (b + n * psz) y" using Suc.prems [of "b + n * psz"] by (auto simp: set_chunks)
  ultimately show ?case using assms(1) by (auto simp: apart_def)
qed (use assms(3) in simp)

lemma sorted_put_chunks:
  assumes "0 < psz" and "sorted xs"
    and apart: "\<And>c y. c \<in> set (chunks_of psz b n) \<Longrightarrow> y \<in> set xs \<Longrightarrow> apart psz c y"
  shows "sorted (put_at b (chunks_of psz b n) xs)"
proof (rule sorted_put_at [OF assms(2) sorted_chunks])
  fix c assume "c \<in> set (chunks_of psz b n)"
  then show "b \<le> c" by (auto simp: set_chunks)
next
  fix c y assume c: "c \<in> set (chunks_of psz b n)" and y: "y \<in> set xs" "b < y"
  have "b + n * psz \<le> y" using apart_beyond [OF assms(1) _ y(2), of n] apart y(1) by blast
  moreover have "c \<le> b + n * psz" using c by (auto simp: set_chunks)
  ultimately show "c \<le> y" by simp
qed

lemma ordered_spec_sorted:
  assumes w: "well_kept psz (msz, xs, held, owned)" and "sorted xs" and "ordered_op c"
    and "client_spec psz c (msz, xs, held, owned) = Some (msz', xs', held', owned')"
  shows "sorted xs'"
proof -
  note d = well_keptD [OF w]
  have one: "chunks_of psz p 1 = [p]" for p by (simp add: chunks_of_def)
  show ?thesis
  proof (cases c)
    case (Add_Ordered_Block b sz)
    then show ?thesis
      using assms(2,4) d(7) by (auto simp: new_block_def split: if_splits intro!: sorted_put_chunks [OF d(1)])
  next
    case (Ordered_Free p)
    then have p: "p \<in> set held" "xs' = put_at p (chunks_of psz p 1) xs" using assms(4) one by (auto split: if_splits)
    have "p \<noteq> y" if "y \<in> set xs" for y using p(1) that d(4) by auto
    then show ?thesis
      unfolding p(2) using assms(2) d(6,7,8) p(1) one by (intro sorted_put_chunks [OF d(1)]) auto
  next
    case (Ordered_Free_N p n)
    then have p: "set (chunks_of psz p n) \<subseteq> set held" "xs' = put_at p (chunks_of psz p n) xs" using assms(4) by (auto split: if_splits)
    have "apart psz c y" if "c \<in> set (chunks_of psz p n)" "y \<in> set xs" for c y
      using p(1) that d(4) d(6) [OF d(8) d(7), of c y] by auto
    then show ?thesis unfolding p(2) using assms(2) by (intro sorted_put_chunks [OF d(1)]) auto
  next
    case (Malloc_N n)
    have "sorted (take i xs @ drop (i + n) xs)" for i
    proof -
      have "sorted (take i xs @ drop i xs)" using assms(2) by simp
      moreover have "set (drop (i + n) xs) \<subseteq> set (drop i xs)" by (simp add: set_drop_subset_set_drop)
      ultimately show ?thesis using assms(2) unfolding sorted_append by (auto simp: sorted_wrt_take sorted_wrt_drop)
    qed
    then show ?thesis using Malloc_N assms(2,4) by (auto split: if_splits option.splits)
  qed (use assms in \<open>auto split: if_splits list.splits\<close>)
qed

lemma ordered_run_sorted:
  assumes "well_kept psz (msz, xs, held, owned)" and "sorted xs" and "list_all ordered_op cs"
    and "run_ops (client_spec psz) cs (msz, xs, held, owned) = Some (msz', xs', held', owned')"
  shows "sorted xs' \<and> well_kept psz (msz', xs', held', owned')"
  using assms
proof (induction cs arbitrary: msz xs held owned)
  case (Cons c cs)
  then obtain v where v: "client_spec psz c (msz, xs, held, owned) = Some v" by (cases "client_spec psz c (msz, xs, held, owned)") auto
  obtain m1 x1 h1 o1 where v1: "v = (m1, x1, h1, o1)" by (cases v)
  show ?case
    using Cons.IH [of m1 x1 h1 o1] well_kept_spec [OF Cons.prems(1) v] ordered_spec_sorted [OF Cons.prems(1,2), of c m1 x1 h1 o1]
      Cons.prems(3,4) v v1 by simp
qed simp

text \<open>In an ordered list adjacent chunks are neighbours.\<close>

lemma neighbours:
  assumes w: "well_kept psz (msz, xs, held, owned)" and s: "sorted xs"
    and i: "i < length xs" and "xs ! i + psz \<in> set xs"
  shows "Suc i < length xs \<and> xs ! Suc i = xs ! i + psz"
proof -
  note d = well_keptD [OF w]
  have less: "sorted_wrt (<) xs" using s d(2) by (simp add: strict_sorted_iff)
  obtain k where k: "k < length xs" "xs ! k = xs ! i + psz" using assms(4) by (auto simp: in_set_conv_nth)
  have "i < k"
  proof (rule ccontr)
    assume "\<not> i < k"
    then have "xs ! k \<le> xs ! i" using sorted_nth_mono [OF s] i by simp
    then show False using k(2) d(1) by simp
  qed
  moreover have "k \<le> Suc i"
  proof (rule ccontr)
    assume "\<not> k \<le> Suc i"
    then have lt: "xs ! i < xs ! Suc i" "xs ! Suc i < xs ! k" using sorted_wrt_nth_less [OF less] k(1) by auto
    have "xs ! Suc i \<in> set xs" "xs ! i \<in> set xs" using i k(1) \<open>\<not> k \<le> Suc i\<close> by simp_all
    then have "apart psz (xs ! Suc i) (xs ! i)" using d(6) [OF d(7) d(7)] lt(1) by simp
    then show False using lt k(2) by (auto simp: apart_def)
  qed
  ultimately have "k = Suc i" by simp
  then show ?thesis using k by simp
qed

lemma adjacent_contiguous:
  assumes w: "well_kept psz (msz, xs, held, owned)" and s: "sorted xs" and n: "0 < n"
    and sub: "set (chunks_of psz a n) \<subseteq> set xs"
  shows "\<exists>i. contiguous_at psz n xs i \<and> xs ! i = a"
proof -
  have "a \<in> set (chunks_of psz a n)" using n by (force simp: set_chunks)
  then obtain i where i: "i < length xs" "xs ! i = a" using sub by (metis in_set_conv_nth subsetD)
  have at: "i + j < length xs \<and> xs ! (i + j) = a + j * psz" if "j < n" for j
    using that
  proof (induction j)
    case (Suc j)
    then have "xs ! (i + j) + psz \<in> set (chunks_of psz a n)" by (auto simp: set_chunks intro!: exI [of _ "Suc j"])
    then show ?case using neighbours [OF w s, of "i + j"] sub Suc by auto
  qed (use i in simp)
  have "i + n \<le> length xs" using at [of "n - 1"] n by auto
  moreover have "xs ! (i + Suc j) = xs ! (i + j) + psz" if "Suc j < n" for j
    using at [OF that] at [OF Suc_lessD [OF that]] by simp
  ultimately show ?thesis using i unfolding contiguous_at_def by blast
qed

subsection \<open>Properties\<close>

lemma storage_new_valid: "0 < psz \<Longrightarrow> client_valid psz (storage_ctor memory, [], [])"
  and storage_new_view: "client_view (storage_ctor memory, [], []) = (length memory, [], [], [])"
proof -
  have f: "free_list (storage_ctor memory) []" by (simp add: free_list_def storage_ctor_def)
  have l: "length (sss_mem (storage_ctor memory)) = length memory" by (simp add: storage_ctor_def)
  show v: "client_view (storage_ctor memory, [], []) = (length memory, [], [], [])"
    using free_list_walk [OF f] l by simp
  show "client_valid psz (storage_ctor memory, [], [])" if "0 < psz"
    unfolding client_valid_def v using f that by (simp add: well_kept_def)
qed

text \<open>C6 (the free list threaded through the chunks): a client that keeps the preconditions of the class may call
  its members in any order, and write into every word of the chunks it holds: the memory then always
  contains the free list that the same calls produce on a list of addresses, every call that is allowed is
  defined and every chunk handed out is the one the list prescribes. Free and held chunks lie inside
  the memory and none overlaps another; the walk of \<^verbatim>\<open>validate\<close> along the list ends.\<close>

theorem storage_refines_free_list:
  assumes "0 < psz"
  shows "map_option client_view (run_ops (client_exec psz) cs (storage_ctor memory, [], []))
      = run_ops (client_spec psz) cs (length memory, [], [], [])
    \<and> (case run_ops (client_exec psz) cs (storage_ctor memory, [], []) of None \<Rightarrow> True
       | Some (s, held, owned) \<Rightarrow> \<exists>xs. free_list s xs \<and> validate s = Some (length xs) \<and> set xs \<inter> set held = {}
           \<and> (\<forall>a \<in> set xs \<union> set held. a \<noteq> 0 \<and> a + psz \<le> length (sss_mem s)
                \<and> (\<forall>b \<in> set xs \<union> set held. a \<noteq> b \<longrightarrow> apart psz a b)))"
proof (rule conjI)
  note new = storage_new_valid [OF assms, of memory]
  have ok: "list_all (\<lambda>_. True) cs" by (simp add: list.pred_True)
  show "map_option client_view (run_ops (client_exec psz) cs (storage_ctor memory, [], []))
      = run_ops (client_spec psz) cs (length memory, [], [], [])"
    using storage_impl.run_view [OF new ok] by (simp only: storage_new_view)
  show "case run_ops (client_exec psz) cs (storage_ctor memory, [], []) of None \<Rightarrow> True
       | Some (s, held, owned) \<Rightarrow> \<exists>xs. free_list s xs \<and> validate s = Some (length xs) \<and> set xs \<inter> set held = {}
           \<and> (\<forall>a \<in> set xs \<union> set held. a \<noteq> 0 \<and> a + psz \<le> length (sss_mem s)
                \<and> (\<forall>b \<in> set xs \<union> set held. a \<noteq> b \<longrightarrow> apart psz a b))"
  proof (cases "run_ops (client_exec psz) cs (storage_ctor memory, [], [])")
    case (Some st)
    obtain s held owned where st: "st = (s, held, owned)" by (cases st)
    obtain xs where xs: "free_list s xs" "well_kept psz (length (sss_mem s), xs, held, owned)"
      using client_validE storage_impl.run_keeps_valid [OF new ok Some] st by blast
    note d = well_keptD [OF xs(2)]
    have "validate s = Some (length xs)"
      using validate_loop_path [of s "sss_first s" xs 0] xs(1) by (simp add: validate_def free_list_def)
    then show ?thesis using Some st xs(1) d by auto
  qed simp
qed

theorem storage_refines_free_list_witness:
  "map_option client_view (run_ops (client_exec 2) [Add_Block 4 8, Malloc, Client_Write 4 0 9, Free 4] (storage_ctor (replicate 20 0), [], []))
      = run_ops (client_spec 2) [Add_Block 4 8, Malloc, Client_Write 4 0 9, Free 4] (length (replicate 20 (0 :: nat)), [], [], [])
    \<and> (case run_ops (client_exec 2) [Add_Block 4 8, Malloc, Client_Write 4 0 9, Free 4] (storage_ctor (replicate 20 0), [], []) of None \<Rightarrow> True
       | Some (s, held, owned) \<Rightarrow> \<exists>xs. free_list s xs \<and> validate s = Some (length xs) \<and> set xs \<inter> set held = {}
           \<and> (\<forall>a \<in> set xs \<union> set held. a \<noteq> 0 \<and> a + 2 \<le> length (sss_mem s)
                \<and> (\<forall>b \<in> set xs \<union> set held. a \<noteq> b \<longrightarrow> apart 2 a b)))"
  by (rule storage_refines_free_list) simp

text \<open>C31 (ordered storage): when only the order-preserving members are used, the free list is ordered by address, so
  that \<^verbatim>\<open>malloc\<close> returns the lowest free chunk, and \<^verbatim>\<open>malloc_n\<close> is complete: it always ends, it returns the null
  pointer only when no \<open>n\<close> adjacent chunks are all free, and otherwise the lowest address at which
  \<open>n\<close> adjacent chunks are free.\<close>

theorem ordered_storage_malloc_n_complete:
  assumes "0 < psz" and "list_all ordered_op cs" and "0 < n"
    and "run_ops (client_exec psz) cs (storage_ctor memory, [], []) = Some (s, held, owned)"
  shows "\<exists>xs p s'. free_list s xs \<and> sorted xs \<and> malloc_n n psz s = Some (p, s')
    \<and> (if p = 0 then s' = s \<and> (\<forall>a. \<not> set (chunks_of psz a n) \<subseteq> set xs)
       else set (chunks_of psz p n) \<subseteq> set xs \<and> (\<forall>a. set (chunks_of psz a n) \<subseteq> set xs \<longrightarrow> p \<le> a))"
proof -
  note new = storage_new_valid [OF assms(1), of memory]
  have ok: "list_all (\<lambda>_. True) cs" by (simp add: list.pred_True)
  obtain xs where xs: "free_list s xs" "client_view (s, held, owned) = (length (sss_mem s), xs, held, owned)"
    using client_validE storage_impl.run_keeps_valid [OF new ok assms(4)] by blast
  have run: "run_ops (client_spec psz) cs (length memory, [], [], []) = Some (length (sss_mem s), xs, held, owned)"
    using storage_impl.run_view [OF new ok] assms(4) xs(2) by (simp only: storage_new_view option.map)
  have "well_kept psz (length memory, [], [], [])" using assms(1) by (simp add: well_kept_def)
  then have s: "sorted xs" and w: "well_kept psz (length (sss_mem s), xs, held, owned)"
    using ordered_run_sorted [OF _ _ assms(2) run] by simp_all
  have all: "\<exists>i. contiguous_at psz n xs i \<and> xs ! i = a" if "set (chunks_of psz a n) \<subseteq> set xs" for a
    using adjacent_contiguous [OF w s assms(3) that] .
  show ?thesis
    using malloc_n_list [OF xs(1) assms(1,3)]
  proof (elim disjE exE conjE)
    fix i s' assume i: "contiguous_at psz n xs i" "\<forall>i' < i. \<not> contiguous_at psz n xs i'"
      and m: "malloc_n n psz s = Some (xs ! i, s')"
    have lt: "i < length xs" using i(1) assms(3) by (auto simp: contiguous_at_def)
    then have "xs ! i \<noteq> 0" using well_keptD(5,7) [OF w] nth_mem by blast
    moreover have "set (chunks_of psz (xs ! i) n) \<subseteq> set xs"
      unfolding contiguous_take [OF i(1), symmetric] by (meson set_drop_subset set_take_subset subset_trans)
    moreover have "xs ! i \<le> a" if a: "set (chunks_of psz a n) \<subseteq> set xs" for a
    proof -
      obtain k where k: "contiguous_at psz n xs k" "xs ! k = a" using all [OF a] by blast
      then have "i \<le> k" "k < length xs" using i(2) assms(3) by (auto simp: contiguous_at_def not_less [symmetric])
      then show ?thesis using sorted_nth_mono [OF s] k(2) by blast
    qed
    ultimately show ?thesis using xs(1) s m by auto
  next
    assume "\<forall>i. \<not> contiguous_at psz n xs i" "malloc_n n psz s = Some (0, s)"
    then show ?thesis using xs(1) s all by auto
  qed
qed

theorem ordered_storage_malloc_n_complete_witness:
  "\<exists>xs p s'. free_list \<lparr>sss_first = 0, sss_mem = [0, 0]\<rparr> xs \<and> sorted xs \<and> malloc_n 3 2 \<lparr>sss_first = 0, sss_mem = [0, 0]\<rparr> = Some (p, s')
    \<and> (if p = 0 then s' = \<lparr>sss_first = 0, sss_mem = [0, 0]\<rparr> \<and> (\<forall>a. \<not> set (chunks_of 2 a 3) \<subseteq> set xs)
       else set (chunks_of 2 p 3) \<subseteq> set xs \<and> (\<forall>a. set (chunks_of 2 a 3) \<subseteq> set xs \<longrightarrow> p \<le> a))"
  by (rule ordered_storage_malloc_n_complete [where cs = "[Malloc_N 1]" and memory = "[0, 0]" and held = "[]" and owned = "[]"])
    (simp_all add: malloc_n_def malloc_n_loop.simps storage_ctor_def)

end
