(* ===== verification/Pool.thy ===== *)
theory Pool
  imports Storage_Properties
begin

text \<open>
  \<^verbatim>\<open>boost::pool<UserAllocator>\<close> (\<^verbatim>\<open>pool/pool.hpp\<close>): memory blocks from a user allocator, divided into chunks by
  \<open>Segregated_Storage\<close>. A block ends in two words, the address and the size of the next block, which
  \<^verbatim>\<open>PODptr\<close> reads and writes.

  Addresses count words of \<^verbatim>\<open>sizeof(void *) = sizeof(size_type) = 8\<close> bytes; sizes are in bytes, as in the source, and
  arithmetic on them wraps around at \<open>2\<^sup>6\<^sup>4\<close>. The user allocator is a template parameter: its answers to
  the requests of one call are an argument \<open>um\<close> (size to address, 0 for failure), and what it does
  with a block given back is an argument \<open>junk\<close>, the words that the block holds from then on.
\<close>

subsection \<open>Definitions\<close>

definition wrap :: "nat \<Rightarrow> nat" where
  "wrap x = x mod 2 ^ 64"

subsubsection \<open>Blocks\<close>

type_synonym PODptr = "nat \<times> nat"

definition ptr_next_size :: "PODptr \<Rightarrow> nat" where
  "ptr_next_size b = fst b + snd b div 8 - 1"

definition ptr_next_ptr :: "PODptr \<Rightarrow> nat" where
  "ptr_next_ptr b = ptr_next_size b - 1"

definition pod_valid :: "PODptr \<Rightarrow> bool" where
  "pod_valid b \<longleftrightarrow> fst b \<noteq> 0"

definition pod_end :: "PODptr \<Rightarrow> nat" where
  "pod_end b = ptr_next_ptr b"

definition element_size :: "PODptr \<Rightarrow> nat" where
  "element_size b = snd b - 8 - 8"

definition pod_next :: "PODptr \<Rightarrow> storage \<Rightarrow> PODptr option" where
  "pod_next b s = do {
     p \<leftarrow> nextof (ptr_next_ptr b) s;
     sz \<leftarrow> nextof (ptr_next_size b) s;
     Some (p, sz) }"

definition set_pod_next :: "PODptr \<Rightarrow> PODptr \<Rightarrow> storage \<Rightarrow> storage option" where
  "set_pod_next b arg s = do {
     s1 \<leftarrow> set_nextof (ptr_next_ptr b) (fst arg) s;
     set_nextof (ptr_next_size b) (snd arg) s1 }"

subsubsection \<open>The pool\<close>

record pool =
  pl_store :: storage
  pl_list :: PODptr
  requested_size :: nat
  next_size :: nat
  start_size :: nat
  max_size :: nat
  pl_released :: "nat list"

text \<open>\<open>pl_released\<close> records the blocks passed to \<^verbatim>\<open>UserAllocator::free\<close>.\<close>

definition min_alloc_size :: nat where
  "min_alloc_size = 8"

definition min_align :: nat where
  "min_align = 8"

definition is_from_block :: "nat \<Rightarrow> nat \<Rightarrow> nat \<Rightarrow> bool" where
  "is_from_block chunk i sizeof_i \<longleftrightarrow> i \<le> chunk \<and> chunk < i + sizeof_i div 8"

definition alloc_size :: "pool \<Rightarrow> nat option" where
  "alloc_size pl =
     (let s = max (requested_size pl) min_alloc_size;
          rem = s mod min_align;
          s1 = (if rem \<noteq> 0 then wrap (s + (min_align - rem)) else s)
      in if s1 \<ge> min_alloc_size \<and> s1 mod min_align = 0 then Some s1 else None)"

definition pool_ctor :: "nat list \<Rightarrow> nat \<Rightarrow> nat \<Rightarrow> nat \<Rightarrow> pool" where
  "pool_ctor memory nrequested_size nnext_size nmax_size =
     \<lparr>pl_store = storage_ctor memory, pl_list = (0, 0), requested_size = nrequested_size,
      next_size = nnext_size, start_size = nnext_size, max_size = nmax_size, pl_released = []\<rparr>"

definition set_next_size :: "nat \<Rightarrow> pool \<Rightarrow> pool" where
  "set_next_size nnext_size pl = pl\<lparr>start_size := nnext_size, next_size := nnext_size\<rparr>"

definition set_max_size :: "nat \<Rightarrow> pool \<Rightarrow> pool" where
  "set_max_size nmax_size pl = pl\<lparr>max_size := nmax_size\<rparr>"

definition store_call :: "storage option \<Rightarrow> pool \<Rightarrow> pool option" where
  "store_call r pl = map_option (\<lambda>s. pl\<lparr>pl_store := s\<rparr>) r"

definition store_alloc :: "(nat \<times> storage) option \<Rightarrow> pool \<Rightarrow> (nat \<times> pool) option" where
  "store_alloc r pl = map_option (\<lambda>(p, s). (p, pl\<lparr>pl_store := s\<rparr>)) r"

definition pod_size :: "nat \<Rightarrow> nat \<Rightarrow> nat" where
  "pod_size n partition_size = wrap (n * partition_size + 8 + 8)"

definition grow_next_size :: "nat \<Rightarrow> pool \<Rightarrow> pool" where
  "grow_next_size partition_size pl =
     (if max_size pl = 0 then pl\<lparr>next_size := wrap (2 * next_size pl)\<rparr>
      else if wrap (next_size pl * partition_size) div requested_size pl < max_size pl
      then pl\<lparr>next_size := min (wrap (2 * next_size pl)) (wrap (max_size pl * requested_size pl) div partition_size)\<rparr>
      else pl)"

text \<open>The request of \<^verbatim>\<open>malloc_need_resize\<close> and \<^verbatim>\<open>ordered_malloc_need_resize\<close>, repeated once with half the size.\<close>

definition request_block :: "(nat \<Rightarrow> nat) \<Rightarrow> nat \<Rightarrow> pool \<Rightarrow> nat \<times> nat \<times> pool" where
  "request_block um partition_size pl =
     (let POD_size = pod_size (next_size pl) partition_size;
          ptr = um POD_size
      in if ptr = 0 \<and> next_size pl > 4 then
           let pl1 = pl\<lparr>next_size := next_size pl div 2\<rparr>;
               POD_size1 = pod_size (next_size pl1) partition_size
           in (um POD_size1, POD_size1, pl1)
         else (ptr, POD_size, pl))"

definition malloc_need_resize :: "(nat \<Rightarrow> nat) \<Rightarrow> pool \<Rightarrow> (nat \<times> pool) option" where
  "malloc_need_resize um pl = do {
     partition_size \<leftarrow> alloc_size pl;
     let (ptr, POD_size, pl1) = request_block um partition_size pl;
     if ptr = 0 then Some (0, pl1)
     else do {
       let node = (ptr, POD_size);
       let pl2 = grow_next_size partition_size pl1;
       pl3 \<leftarrow> store_call (add_block (fst node) (element_size node div 8) (partition_size div 8) (pl_store pl2)) pl2;
       pl4 \<leftarrow> store_call (set_pod_next node (pl_list pl3) (pl_store pl3)) pl3;
       let pl5 = pl4\<lparr>pl_list := node\<rparr>;
       store_alloc (storage_malloc (pl_store pl5)) pl5 } }"

partial_function (option) find_node_loop :: "PODptr \<Rightarrow> nat \<Rightarrow> storage \<Rightarrow> PODptr option" where
  "find_node_loop prev node_begin s = do {
     nxt \<leftarrow> pod_next prev s;
     if fst nxt = 0 \<or> fst nxt > node_begin then Some prev else find_node_loop nxt node_begin s }"

definition insert_node :: "PODptr \<Rightarrow> pool \<Rightarrow> pool option" where
  "insert_node node pl =
     (if \<not> pod_valid (pl_list pl) \<or> fst (pl_list pl) > fst node then do {
        pl1 \<leftarrow> store_call (set_pod_next node (pl_list pl) (pl_store pl)) pl;
        Some (pl1\<lparr>pl_list := node\<rparr>) }
      else do {
        prev \<leftarrow> find_node_loop (pl_list pl) (fst node) (pl_store pl);
        nxt \<leftarrow> pod_next prev (pl_store pl);
        pl1 \<leftarrow> store_call (set_pod_next node nxt (pl_store pl)) pl;
        store_call (set_pod_next prev node (pl_store pl1)) pl1 })"

definition ordered_malloc_need_resize :: "(nat \<Rightarrow> nat) \<Rightarrow> pool \<Rightarrow> (nat \<times> pool) option" where
  "ordered_malloc_need_resize um pl = do {
     partition_size \<leftarrow> alloc_size pl;
     let (ptr, POD_size, pl1) = request_block um partition_size pl;
     if ptr = 0 then Some (0, pl1)
     else do {
       let node = (ptr, POD_size);
       let pl2 = grow_next_size partition_size pl1;
       pl3 \<leftarrow> store_call (add_ordered_block (fst node) (element_size node div 8) (partition_size div 8) (pl_store pl2)) pl2;
       pl4 \<leftarrow> insert_node node pl3;
       store_alloc (storage_malloc (pl_store pl4)) pl4 } }"

definition pool_malloc :: "(nat \<Rightarrow> nat) \<Rightarrow> pool \<Rightarrow> (nat \<times> pool) option" where
  "pool_malloc um pl =
     (if \<not> storage_empty (pl_store pl) then store_alloc (storage_malloc (pl_store pl)) pl
      else malloc_need_resize um pl)"

definition pool_ordered_malloc :: "(nat \<Rightarrow> nat) \<Rightarrow> pool \<Rightarrow> (nat \<times> pool) option" where
  "pool_ordered_malloc um pl =
     (if \<not> storage_empty (pl_store pl) then store_alloc (storage_malloc (pl_store pl)) pl
      else ordered_malloc_need_resize um pl)"

definition num_chunks_of :: "nat \<Rightarrow> nat \<Rightarrow> nat \<Rightarrow> nat" where
  "num_chunks_of n requested partition_size =
     (let total_req_size = wrap (n * requested)
      in total_req_size div partition_size + (if total_req_size mod partition_size \<noteq> 0 then 1 else 0))"

text \<open>The request of \<^verbatim>\<open>ordered_malloc(n)\<close>, repeated once with less.\<close>

definition request_chunks :: "(nat \<Rightarrow> nat) \<Rightarrow> nat \<Rightarrow> nat \<Rightarrow> pool \<Rightarrow> nat \<times> nat \<times> pool" where
  "request_chunks um num_chunks partition_size pl =
     (let pl1 = pl\<lparr>next_size := max (next_size pl) num_chunks\<rparr>;
          POD_size = pod_size (next_size pl1) partition_size;
          ptr = um POD_size
      in if ptr = 0 \<and> num_chunks < next_size pl1 then
           let pl2 = pl1\<lparr>next_size := max (next_size pl1 div 2) num_chunks\<rparr>;
               POD_size1 = pod_size (next_size pl2) partition_size
           in (um POD_size1, POD_size1, pl2)
         else (ptr, POD_size, pl1))"

definition ordered_malloc_n :: "(nat \<Rightarrow> nat) \<Rightarrow> nat \<Rightarrow> pool \<Rightarrow> (nat \<times> pool) option" where
  "ordered_malloc_n um n pl = do {
     partition_size \<leftarrow> alloc_size pl;
     let num_chunks = num_chunks_of n (requested_size pl) partition_size;
     (ret, pl1) \<leftarrow> store_alloc (malloc_n num_chunks (partition_size div 8) (pl_store pl)) pl;
     if ret \<noteq> 0 \<or> n = 0 then Some (ret, pl1)
     else do {
       let (ptr, POD_size, pl2) = request_chunks um num_chunks partition_size pl1;
       if ptr = 0 then Some (0, pl2)
       else do {
         let node = (ptr, POD_size);
         pl3 \<leftarrow> (if next_size pl2 > num_chunks
                  then store_call (add_ordered_block (fst node + num_chunks * (partition_size div 8))
                         ((element_size node - num_chunks * partition_size) div 8) (partition_size div 8) (pl_store pl2)) pl2
                  else Some pl2);
         let pl4 = grow_next_size partition_size pl3;
         pl5 \<leftarrow> insert_node node pl4;
         Some (ptr, pl5) } } }"

definition pool_free :: "nat \<Rightarrow> pool \<Rightarrow> pool option" where
  "pool_free chunk pl = store_call (storage_free chunk (pl_store pl)) pl"

definition pool_ordered_free :: "nat \<Rightarrow> pool \<Rightarrow> pool option" where
  "pool_ordered_free chunk pl = store_call (ordered_free chunk (pl_store pl)) pl"

definition pool_free_n :: "nat \<Rightarrow> nat \<Rightarrow> pool \<Rightarrow> pool option" where
  "pool_free_n chunks n pl = do {
     partition_size \<leftarrow> alloc_size pl;
     let num_chunks = num_chunks_of n (requested_size pl) partition_size;
     store_call (free_n chunks num_chunks (partition_size div 8) (pl_store pl)) pl }"

definition pool_ordered_free_n :: "nat \<Rightarrow> nat \<Rightarrow> pool \<Rightarrow> pool option" where
  "pool_ordered_free_n chunks n pl = do {
     partition_size \<leftarrow> alloc_size pl;
     let num_chunks = num_chunks_of n (requested_size pl) partition_size;
     store_call (ordered_free_n chunks num_chunks (partition_size div 8) (pl_store pl)) pl }"

partial_function (option) find_POD_loop :: "nat \<Rightarrow> PODptr \<Rightarrow> storage \<Rightarrow> PODptr option" where
  "find_POD_loop chunk b s =
     (if pod_valid b then
        if is_from_block chunk (fst b) (element_size b) then Some b
        else do { nxt \<leftarrow> pod_next b s; find_POD_loop chunk nxt s }
      else Some b)"

definition is_from :: "nat \<Rightarrow> pool \<Rightarrow> bool option" where
  "is_from chunk pl = map_option pod_valid (find_POD_loop chunk (pl_list pl) (pl_store pl))"

subsubsection \<open>Giving memory back\<close>

definition user_free :: "(nat \<Rightarrow> nat) \<Rightarrow> PODptr \<Rightarrow> pool \<Rightarrow> pool" where
  "user_free junk b pl =
     (let s = pl_store pl
      in pl\<lparr>pl_store := s\<lparr>sss_mem := map (\<lambda>a. if fst b \<le> a \<and> a < fst b + snd b div 8 then junk a else sss_mem s ! a)
                                       [0..<length (sss_mem s)]\<rparr>,
            pl_released := pl_released pl @ [fst b]\<rparr>)"

partial_function (option) purge_loop :: "(nat \<Rightarrow> nat) \<Rightarrow> PODptr \<Rightarrow> pool \<Rightarrow> pool option" where
  "purge_loop junk iter pl = do {
     nxt \<leftarrow> pod_next iter (pl_store pl);
     let pl1 = user_free junk iter pl;
     if pod_valid nxt then purge_loop junk nxt pl1 else Some pl1 }"

definition purge_memory :: "(nat \<Rightarrow> nat) \<Rightarrow> pool \<Rightarrow> (bool \<times> pool) option" where
  "purge_memory junk pl =
     (if \<not> pod_valid (pl_list pl) then Some (False, pl)
      else do {
        pl1 \<leftarrow> purge_loop junk (pl_list pl) pl;
        Some (True, pl1\<lparr>pl_list := (0, snd (pl_list pl1)), pl_store := (pl_store pl1)\<lparr>sss_first := 0\<rparr>,
                        next_size := start_size pl1\<rparr>) })"

definition pool_dtor :: "(nat \<Rightarrow> nat) \<Rightarrow> pool \<Rightarrow> pool option" where
  "pool_dtor junk pl = map_option snd (purge_memory junk pl)"

text \<open>The loop over the chunks of a block: whether all are free, and where the free list is then.\<close>

partial_function (option) all_chunks_loop :: "nat \<Rightarrow> nat \<Rightarrow> nat \<Rightarrow> nat \<Rightarrow> nat \<Rightarrow> storage \<Rightarrow> (bool \<times> nat) option" where
  "all_chunks_loop partition_size saved_free i block_end free_p s =
     (if i \<noteq> block_end then
        if i \<noteq> free_p then Some (False, saved_free)
        else do {
          q \<leftarrow> nextof free_p s;
          all_chunks_loop partition_size saved_free (i + partition_size) block_end q s }
      else Some (True, free_p))"

partial_function (option) skip_block_loop :: "nat \<Rightarrow> nat \<Rightarrow> storage \<Rightarrow> (nat \<times> nat) option" where
  "skip_block_loop block_end free_p s = do {
     q \<leftarrow> nextof free_p s;
     if q \<noteq> 0 \<and> q < block_end then skip_block_loop block_end q s else Some (free_p, q) }"

partial_function (option) release_loop ::
  "(nat \<Rightarrow> nat) \<Rightarrow> nat \<Rightarrow> PODptr \<Rightarrow> PODptr \<Rightarrow> nat \<Rightarrow> nat \<Rightarrow> bool \<Rightarrow> pool \<Rightarrow> (bool \<times> pool) option" where
  "release_loop junk partition_size ptr prev free_p prev_free_p ret pl =
     (if \<not> pod_valid ptr \<or> free_p = 0 then Some (ret, pl)
      else do {
        (all_chunks_free, free1) \<leftarrow> all_chunks_loop partition_size free_p (fst ptr) (pod_end ptr) free_p (pl_store pl);
        nxt \<leftarrow> pod_next ptr (pl_store pl);
        if \<not> all_chunks_free then do {
          (prev_free1, free2) \<leftarrow> (if is_from_block free1 (fst ptr) (element_size ptr)
             then skip_block_loop (pod_end ptr) free1 (pl_store pl) else Some (prev_free_p, free1));
          release_loop junk partition_size nxt ptr free2 prev_free1 ret pl }
        else do {
          pl1 \<leftarrow> (if pod_valid prev then store_call (set_pod_next prev nxt (pl_store pl)) pl
                   else Some (pl\<lparr>pl_list := nxt\<rparr>));
          pl2 \<leftarrow> (if prev_free_p \<noteq> 0 then store_call (set_nextof prev_free_p free1 (pl_store pl1)) pl1
                   else Some (pl1\<lparr>pl_store := (pl_store pl1)\<lparr>sss_first := free1\<rparr>\<rparr>));
          release_loop junk partition_size nxt prev free1 prev_free_p True (user_free junk ptr pl2) } })"

definition release_memory :: "(nat \<Rightarrow> nat) \<Rightarrow> pool \<Rightarrow> (bool \<times> pool) option" where
  "release_memory junk pl = do {
     partition_size \<leftarrow> alloc_size pl;
     (ret, pl1) \<leftarrow> release_loop junk (partition_size div 8) (pl_list pl) (0, 0) (sss_first (pl_store pl)) 0 False pl;
     Some (ret, pl1\<lparr>next_size := start_size pl1\<rparr>) }"

subsection \<open>The layout of a block\<close>

definition num_in :: "nat \<Rightarrow> PODptr \<Rightarrow> nat" where
  "num_in pw b = (snd b - 16) div (8 * pw)"

definition bchunks :: "nat \<Rightarrow> PODptr \<Rightarrow> nat list" where
  "bchunks pw b = chunks_of pw (fst b) (num_in pw b)"

definition block_ok :: "nat \<Rightarrow> nat \<Rightarrow> PODptr \<Rightarrow> bool" where
  "block_ok pw msz b \<longleftrightarrow>
     0 < pw \<and> fst b \<noteq> 0 \<and> 0 < num_in pw b \<and> snd b = num_in pw b * (8 * pw) + 16 \<and> fst b + num_in pw b * pw + 2 \<le> msz"

text \<open>The words of two blocks do not overlap.\<close>

definition blocks_apart :: "PODptr \<Rightarrow> PODptr \<Rightarrow> bool" where
  "blocks_apart b c \<longleftrightarrow> fst b + snd b div 8 \<le> fst c \<or> fst c + snd c div 8 \<le> fst b"

lemma block_layout:
  assumes "block_ok pw msz b"
  shows "snd b div 8 = num_in pw b * pw + 2" and "pod_end b = fst b + num_in pw b * pw"
    and "ptr_next_ptr b = pod_end b" and "ptr_next_size b = Suc (pod_end b)" and "Suc (pod_end b) < msz" and "pod_end b \<noteq> 0"
    and "element_size b div 8 = num_in pw b * pw" and "element_size b = num_in pw b * (8 * pw)"
proof -
  have b: "snd b = 8 * (num_in pw b * pw + 2)" using assms by (simp add: block_ok_def algebra_simps)
  then show d: "snd b div 8 = num_in pw b * pw + 2" by simp
  then show "pod_end b = fst b + num_in pw b * pw" "ptr_next_size b = Suc (pod_end b)"
    by (simp_all add: pod_end_def ptr_next_ptr_def ptr_next_size_def)
  then show "Suc (pod_end b) < msz" "pod_end b \<noteq> 0" using assms by (auto simp: block_ok_def)
  show "ptr_next_ptr b = pod_end b" by (simp add: pod_end_def)
  show e: "element_size b = num_in pw b * (8 * pw)" using assms by (simp add: element_size_def block_ok_def)
  show "element_size b div 8 = num_in pw b * pw" unfolding e by simp
qed

lemma set_bchunks: "set (bchunks pw b) = {fst b + i * pw | i. i < num_in pw b}"
  by (simp add: bchunks_def set_chunks)

lemma bchunks_range: "x \<in> set (bchunks pw b) \<Longrightarrow> fst b \<le> x \<and> x + pw \<le> fst b + num_in pw b * pw"
proof -
  assume "x \<in> set (bchunks pw b)"
  then obtain i where i: "x = fst b + i * pw" "i < num_in pw b" by (auto simp: set_bchunks)
  then have "Suc i * pw \<le> num_in pw b * pw" by (intro mult_le_mono1) simp
  then show ?thesis using i(1) by simp
qed

text \<open>The two words at the end of a block belong to no chunk, neither of this block nor of another.\<close>

lemma header_no_chunk:
  assumes b: "block_ok pw msz b" and c: "block_ok pw msz c" and "b = c \<or> blocks_apart b c"
    and x: "x \<in> set (bchunks pw c)" and off: "off < pw"
  shows "x + off \<noteq> pod_end b" and "x + off \<noteq> Suc (pod_end b)"
proof -
  note lb = block_layout [OF b] and lc = block_layout [OF c] and r = bchunks_range [OF x]
  have "x + off < fst c + num_in pw c * pw" using r off by linarith
  then show "x + off \<noteq> pod_end b" "x + off \<noteq> Suc (pod_end b)"
    using assms(3) r lb(1,2) lc(1) by (auto simp: blocks_apart_def)
qed

lemma header_distinct:
  assumes b: "block_ok pw msz b" and c: "block_ok pw msz c" and "blocks_apart b c"
  shows "pod_end b \<noteq> pod_end c" and "pod_end b \<noteq> Suc (pod_end c)" and "Suc (pod_end b) \<noteq> pod_end c"
  using assms(3) block_layout(1,2) [OF b] block_layout(1,2) [OF c] by (auto simp: blocks_apart_def)

lemma block_chunks_apart:
  assumes b: "block_ok pw msz b" and c: "block_ok pw msz c" and "blocks_apart b c"
    and x: "x \<in> set (bchunks pw b)" and y: "y \<in> set (bchunks pw c)"
  shows "apart pw x y"
  using bchunks_range [OF x] bchunks_range [OF y] block_layout(1) [OF b] block_layout(1) [OF c] assms(3)
  by (auto simp: blocks_apart_def apart_def)

lemma blocks_apart_sym: "blocks_apart b c \<longleftrightarrow> blocks_apart c b"
  by (auto simp: blocks_apart_def)

subsection \<open>The list of blocks in the memory\<close>

fun podpath :: "nat list \<Rightarrow> PODptr \<Rightarrow> PODptr list \<Rightarrow> PODptr \<Rightarrow> bool" where
  "podpath memory b [] q \<longleftrightarrow> b = q"
| "podpath memory b (c # bs) q \<longleftrightarrow> b = c \<and> fst c \<noteq> 0 \<and>
     podpath memory (memory ! pod_end c, memory ! Suc (pod_end c)) bs q"

lemma podpath_append: "podpath memory b (bs @ cs) q \<longleftrightarrow> (\<exists>r. podpath memory b bs r \<and> podpath memory r cs q)"
  by (induction bs arbitrary: b) auto

lemma podpath_frame:
  assumes "podpath memory b bs q"
    and "\<And>c. c \<in> set bs \<Longrightarrow> memory' ! pod_end c = memory ! pod_end c \<and> memory' ! Suc (pod_end c) = memory ! Suc (pod_end c)"
  shows "podpath memory' b bs q"
  using assms by (induction bs arbitrary: b) auto

lemma podpath_relink:
  assumes "podpath memory b (bs @ [c]) r"
    and "\<And>d. d \<in> set bs \<Longrightarrow> memory' ! pod_end d = memory ! pod_end d \<and> memory' ! Suc (pod_end d) = memory ! Suc (pod_end d)"
    and "memory' ! pod_end c = fst q" and "memory' ! Suc (pod_end c) = snd q"
  shows "podpath memory' b (bs @ [c]) q"
  using assms podpath_frame [of memory b bs c memory'] by (auto simp: podpath_append)

lemma pod_next_eq:
  assumes "block_ok pw (length (sss_mem s)) b"
  shows "pod_next b s = Some (sss_mem s ! pod_end b, sss_mem s ! Suc (pod_end b))"
  using block_layout [OF assms] by (simp add: pod_next_def nextof_eq)

lemma set_pod_next_eq:
  assumes "block_ok pw (length (sss_mem s)) b"
  shows "set_pod_next b arg s = Some (s\<lparr>sss_mem := (sss_mem s)[pod_end b := fst arg, Suc (pod_end b) := snd arg]\<rparr>)"
  using block_layout [OF assms] by (simp add: set_pod_next_def set_nextof_eq)

subsection \<open>The state of a pool\<close>

definition owned_of :: "nat \<Rightarrow> PODptr list \<Rightarrow> nat list" where
  "owned_of pw bs = concat (map (bchunks pw) bs)"

definition blocks_ok :: "nat \<Rightarrow> nat \<Rightarrow> PODptr list \<Rightarrow> bool" where
  "blocks_ok pw msz bs \<longleftrightarrow>
     distinct bs \<and> (\<forall>b \<in> set bs. block_ok pw msz b \<and> (\<forall>c \<in> set bs. b \<noteq> c \<longrightarrow> blocks_apart b c))"

abbreviation pl_mem :: "pool \<Rightarrow> nat list" where
  "pl_mem pl \<equiv> sss_mem (pl_store pl)"

definition pool_rel :: "nat \<Rightarrow> pool \<Rightarrow> PODptr list \<Rightarrow> nat list \<Rightarrow> nat list \<Rightarrow> bool" where
  "pool_rel pw pl bs xs held \<longleftrightarrow>
     (\<exists>q. podpath (pl_mem pl) (pl_list pl) bs q \<and> fst q = 0) \<and> free_list (pl_store pl) xs \<and>
     blocks_ok pw (length (pl_mem pl)) bs \<and> well_kept pw (length (pl_mem pl), xs, held, owned_of pw bs)"

lemma pool_relD:
  assumes "pool_rel pw pl bs xs held"
  shows "\<exists>q. podpath (pl_mem pl) (pl_list pl) bs q \<and> fst q = 0" and "free_list (pl_store pl) xs"
    and "blocks_ok pw (length (pl_mem pl)) bs" and "well_kept pw (length (pl_mem pl), xs, held, owned_of pw bs)" and "0 < pw"
  using assms well_keptD(1) by (auto simp: pool_rel_def)

lemma blocks_okD:
  assumes "blocks_ok pw msz bs"
  shows "distinct bs" and "\<And>b. b \<in> set bs \<Longrightarrow> block_ok pw msz b"
    and "\<And>b c. b \<in> set bs \<Longrightarrow> c \<in> set bs \<Longrightarrow> b \<noteq> c \<Longrightarrow> blocks_apart b c"
  using assms by (auto simp: blocks_ok_def)

lemma set_owned_of: "set (owned_of pw bs) = (\<Union>b \<in> set bs. set (bchunks pw b))"
  by (simp add: owned_of_def)

lemma well_kept_cong: "set owned = set owned' \<Longrightarrow> well_kept pw (msz, xs, held, owned) = well_kept pw (msz, xs, held, owned')"
  by (simp add: well_kept_def)

lemma owned_ofE:
  assumes "x \<in> set (owned_of pw bs)"
  obtains c where "c \<in> set bs" and "x \<in> set (bchunks pw c)"
  using assms unfolding set_owned_of by blast

lemma owned_no_header:
  assumes ok: "blocks_ok pw msz bs" and b: "b \<in> set bs" and x: "x \<in> set (owned_of pw bs)" and off: "off < pw"
  shows "x + off \<noteq> pod_end b" and "x + off \<noteq> Suc (pod_end b)"
proof -
  obtain c where c: "c \<in> set bs" "x \<in> set (bchunks pw c)" using x by (rule owned_ofE)
  then show "x + off \<noteq> pod_end b" "x + off \<noteq> Suc (pod_end b)"
    using header_no_chunk [of pw msz b c x off] blocks_okD [OF ok] b off by blast+
qed

text \<open>Writes inside chunks leave the links between the blocks alone.\<close>

lemma headers_kept:
  assumes ok: "blocks_ok pw msz bs" and b: "b \<in> set bs" and pw: "0 < pw"
    and frame: "\<And>a. (\<And>x off. x \<in> set (owned_of pw bs) \<Longrightarrow> off < pw \<Longrightarrow> a \<noteq> x + off) \<Longrightarrow> m' ! a = m ! a"
  shows "m' ! pod_end b = m ! pod_end b" and "m' ! Suc (pod_end b) = m ! Suc (pod_end b)"
  using owned_no_header [OF ok b] by (intro frame; metis)+

text \<open>The words in the chunks that the client holds.\<close>

definition kept :: "nat \<Rightarrow> nat list \<Rightarrow> pool \<Rightarrow> pool \<Rightarrow> bool" where
  "kept pw held pl pl' \<longleftrightarrow> (\<forall>p \<in> set held. \<forall>off < pw. pl_mem pl' ! (p + off) = pl_mem pl ! (p + off))"

lemma kept_refl: "pl_mem pl' = pl_mem pl \<Longrightarrow> kept pw held pl pl'"
  by (simp add: kept_def)

lemma kept_trans: "kept pw held pl pl1 \<Longrightarrow> kept pw held pl1 pl2 \<Longrightarrow> kept pw held pl pl2"
  by (simp add: kept_def)

lemma held_no_free:
  assumes w: "well_kept pw (msz, xs, held, owned)" and p: "p \<in> set held" "off < pw"
  shows "p + off \<notin> set xs"
proof
  note d = well_keptD [OF w]
  assume x: "p + off \<in> set xs"
  moreover from this have "p \<noteq> p + off" using d(4) p(1) by auto
  ultimately show False using d(6) [OF d(8) [OF p(1)] d(7) [OF x]] p(2) by (auto simp: apart_def)
qed

lemma kept_free:
  assumes "pool_rel pw pl bs xs held" and "set held' \<subseteq> set held" and "\<And>a. a \<notin> set xs \<union> (set held - set held') \<Longrightarrow> pl_mem pl' ! a = pl_mem pl ! a"
  shows "kept pw held' pl pl'"
  unfolding kept_def
proof (intro ballI allI impI)
  fix p off assume p: "p \<in> set held'" "off < pw"
  note w = pool_relD(4) [OF assms(1)]
  have ph: "p \<in> set held" using p(1) assms(2) by blast
  have "p + off \<noteq> q" if q: "q \<in> set held - set held'" for q
  proof -
    have "p \<noteq> q" using p(1) q by blast
    then have "apart pw p q" using well_keptD(6) [OF w well_keptD(8) [OF w ph]] well_keptD(8) [OF w, of q] q by blast
    then show ?thesis using p(2) by (auto simp: apart_def)
  qed
  then show "pl_mem pl' ! (p + off) = pl_mem pl ! (p + off)"
    using assms(3) held_no_free [OF w ph p(2)] by blast
qed

definition fresh_block :: "nat \<Rightarrow> nat \<Rightarrow> PODptr list \<Rightarrow> PODptr \<Rightarrow> bool" where
  "fresh_block pw msz bs b \<longleftrightarrow> block_ok pw msz b \<and> (\<forall>c \<in> set bs. blocks_apart b c)"

lemma fresh_no_chunk:
  assumes b: "fresh_block pw msz bs b" and ok: "blocks_ok pw msz bs" and p: "p \<in> set (owned_of pw bs)" "off < pw"
  shows "p + off \<notin> set (bchunks pw b)"
proof
  assume x: "p + off \<in> set (bchunks pw b)"
  obtain c where c: "c \<in> set bs" "p \<in> set (bchunks pw c)" using p(1) by (rule owned_ofE)
  have "block_ok pw msz b" "blocks_apart b c" using b c(1) by (auto simp: fresh_block_def)
  then have "apart pw (p + off) p" using block_chunks_apart [OF _ blocks_okD(2) [OF ok c(1)] _ x c(2)] by blast
  then show False using p(2) by (auto simp: apart_def)
qed

lemma store_step:
  assumes r: "pool_rel pw pl bs xs held" and f: "free_list s' xs'" and len: "length (sss_mem s') = length (pl_mem pl)"
    and frame: "\<And>a. (\<And>x off. x \<in> set (owned_of pw bs) \<Longrightarrow> off < pw \<Longrightarrow> a \<noteq> x + off) \<Longrightarrow> sss_mem s' ! a = pl_mem pl ! a"
    and w: "well_kept pw (length (pl_mem pl), xs', held', owned_of pw bs)"
  shows "pool_rel pw (pl\<lparr>pl_store := s'\<rparr>) bs xs' held'"
proof -
  note d = pool_relD [OF r]
  obtain q where q: "podpath (pl_mem pl) (pl_list pl) bs q" "fst q = 0" using d(1) by blast
  have "podpath (sss_mem s') (pl_list pl) bs q"
    by (rule podpath_frame [OF q(1)]) (use headers_kept [OF d(3) _ d(5) frame] in blast)
  then show ?thesis unfolding pool_rel_def using q(2) f len w d(3) by (intro conjI exI [of _ q]) simp_all
qed

text \<open>Links written at the ends of blocks leave the free list alone.\<close>

lemma free_list_headers:
  assumes f: "free_list s xs" and "\<And>x. x \<in> set xs \<Longrightarrow> m' ! x = sss_mem s ! x" and "length m' = length (sss_mem s)"
  shows "free_list (s\<lparr>sss_mem := m'\<rparr>) xs"
  using f path_frame [of "sss_mem s" "sss_first s" xs 0 m'] assms(2,3) by (simp add: free_list_def)

lemma free_no_header:
  assumes w: "well_kept pw (msz, xs, held, owned_of pw bs)" and ok: "blocks_ok pw msz bs" and b: "b \<in> set bs" and x: "x \<in> set xs"
  shows "x \<noteq> pod_end b" and "x \<noteq> Suc (pod_end b)"
proof -
  have "x \<in> set (owned_of pw bs)" using well_keptD(7) [OF w x] .
  then obtain c where c: "c \<in> set bs" "x \<in> set (bchunks pw c)" by (rule owned_ofE)
  have "b = c \<or> blocks_apart b c" using blocks_okD(3) [OF ok b c(1)] by blast
  then show "x \<noteq> pod_end b" "x \<noteq> Suc (pod_end b)"
    using header_no_chunk [OF blocks_okD(2) [OF ok b] blocks_okD(2) [OF ok c(1)] _ c(2) well_keptD(1) [OF w]] by simp_all
qed

lemma fresh_new_block:
  assumes b: "fresh_block pw msz bs b" and ok: "blocks_ok pw msz bs"
  shows "new_block pw msz (fst b) (num_in pw b * pw) (owned_of pw bs)" and "num_in pw b * pw div pw = num_in pw b"
    and "b \<notin> set bs"
proof -
  have bo: "block_ok pw msz b" using b by (simp add: fresh_block_def)
  show n: "num_in pw b * pw div pw = num_in pw b" using bo by (simp add: block_ok_def)
  have "apart pw x y" if h: "x \<in> set (bchunks pw b)" "y \<in> set (owned_of pw bs)" for x y
  proof -
    obtain c where c: "c \<in> set bs" "y \<in> set (bchunks pw c)" using h(2) by (rule owned_ofE)
    have "blocks_apart b c" using b c(1) unfolding fresh_block_def by blast
    then show ?thesis using block_chunks_apart [OF bo blocks_okD(2) [OF ok c(1)] _ h(1) c(2)] by blast
  qed
  then show "new_block pw msz (fst b) (num_in pw b * pw) (owned_of pw bs)"
    using bo n unfolding new_block_def bchunks_def by (auto simp: block_ok_def)
  have "\<not> blocks_apart b b" using block_layout(1) [OF bo] by (simp add: blocks_apart_def)
  then show "b \<notin> set bs" using b by (auto simp: fresh_block_def)
qed

lemma blocks_ok_add:
  assumes "fresh_block pw msz bs b" and "blocks_ok pw msz bs" and "distinct bs'" and "set bs' = insert b (set bs)"
  shows "blocks_ok pw msz bs'"
  using assms blocks_apart_sym by (auto simp: blocks_ok_def fresh_block_def)

subsection \<open>Linking a new block\<close>

definition put_block :: "PODptr \<Rightarrow> PODptr list \<Rightarrow> PODptr list" where
  "put_block b bs = takeWhile (\<lambda>c. fst c \<le> fst b) bs @ b # dropWhile (\<lambda>c. fst c \<le> fst b) bs"

lemma set_put_block [simp]: "set (put_block b bs) = insert b (set bs)"
  unfolding put_block_def by (metis Un_insert_right list.simps(15) set_append takeWhile_dropWhile_id)

lemma distinct_put_block: "distinct bs \<Longrightarrow> b \<notin> set bs \<Longrightarrow> distinct (put_block b bs)"
proof -
  assume d: "distinct bs" "b \<notin> set bs"
  have "distinct (takeWhile (\<lambda>c. fst c \<le> fst b) bs @ dropWhile (\<lambda>c. fst c \<le> fst b) bs)" using d(1) by simp
  moreover have "set (takeWhile (\<lambda>c. fst c \<le> fst b) bs) \<subseteq> set bs" "set (dropWhile (\<lambda>c. fst c \<le> fst b) bs) \<subseteq> set bs"
    by (auto dest: set_takeWhileD set_dropWhileD)
  ultimately show ?thesis using d(2) unfolding put_block_def distinct_append by (auto simp del: takeWhile_dropWhile_id)
qed

text \<open>What an operation that only writes links has kept.\<close>

definition links_only :: "pool \<Rightarrow> pool \<Rightarrow> PODptr set \<Rightarrow> bool" where
  "links_only pl pl' B \<longleftrightarrow>
     pl' = pl\<lparr>pl_list := pl_list pl', pl_store := (pl_store pl)\<lparr>sss_mem := pl_mem pl'\<rparr>\<rparr> \<and>
     length (pl_mem pl') = length (pl_mem pl) \<and>
     (\<forall>a. (\<forall>c \<in> B. a \<noteq> pod_end c \<and> a \<noteq> Suc (pod_end c)) \<longrightarrow> pl_mem pl' ! a = pl_mem pl ! a)"

abbreviation set_links :: "PODptr \<Rightarrow> PODptr \<Rightarrow> nat list \<Rightarrow> nat list" where
  "set_links b arg m \<equiv> m[pod_end b := fst arg, Suc (pod_end b) := snd arg]"

lemma set_links_at:
  assumes "block_ok pw (length m) b"
  shows "set_links b arg m ! pod_end b = fst arg" and "set_links b arg m ! Suc (pod_end b) = snd arg"
  using block_layout(5) [OF assms] by simp_all

lemma set_links_other:
  assumes "block_ok pw msz b" and "block_ok pw msz c" and "blocks_apart b c"
  shows "set_links b arg m ! pod_end c = m ! pod_end c" and "set_links b arg m ! Suc (pod_end c) = m ! Suc (pod_end c)"
  using header_distinct [OF assms] by simp_all

lemma podpath_set_links:
  assumes "podpath m l bs q" and "block_ok pw msz b" and "\<And>c. c \<in> set bs \<Longrightarrow> block_ok pw msz c \<and> blocks_apart b c"
  shows "podpath (set_links b arg m) l bs q"
  by (rule podpath_frame [OF assms(1)]) (use set_links_other [OF assms(2)] assms(3) in blast)

lemma push_node:
  assumes p: "podpath (pl_mem pl) (pl_list pl) bs q" and ok: "blocks_ok pw (length (pl_mem pl)) bs"
    and b: "fresh_block pw (length (pl_mem pl)) bs b"
  shows "\<exists>pl'. store_call (set_pod_next b (pl_list pl) (pl_store pl)) pl = Some pl'
    \<and> podpath (pl_mem pl') b (b # bs) q \<and> links_only pl (pl'\<lparr>pl_list := b\<rparr>) (insert b (set bs))"
proof -
  have bo: "block_ok pw (length (pl_mem pl)) b" and ap: "\<And>c. c \<in> set bs \<Longrightarrow> blocks_apart b c" using b by (auto simp: fresh_block_def)
  let ?m = "set_links b (pl_list pl) (pl_mem pl)"
  let ?pl = "pl\<lparr>pl_store := (pl_store pl)\<lparr>sss_mem := ?m\<rparr>\<rparr>"
  have "store_call (set_pod_next b (pl_list pl) (pl_store pl)) pl = Some ?pl"
    by (simp add: store_call_def set_pod_next_eq [OF bo])
  moreover have "podpath ?m (pl_list pl) bs q"
    by (rule podpath_set_links [OF p bo]) (use ap blocks_okD(2) [OF ok] in blast)
  then have "podpath ?m b (b # bs) q" using set_links_at [OF bo, of "pl_list pl"] bo by (simp add: block_ok_def)
  moreover have "links_only pl (?pl\<lparr>pl_list := b\<rparr>) (insert b (set bs))" by (simp add: links_only_def)
  ultimately show ?thesis by (intro exI [of _ ?pl]) simp
qed

lemma find_node_loop_path:
  assumes "podpath (sss_mem s) c (c # cs) q" and "fst q = 0" and "\<And>d. d \<in> set (c # cs) \<Longrightarrow> block_ok pw (length (sss_mem s)) d"
  shows "find_node_loop c p s = Some (last (c # takeWhile (\<lambda>d. fst d \<le> p) cs))"
  using assms
proof (induction cs arbitrary: c)
  case Nil
  then show ?case using pod_next_eq [of pw s c] by (simp add: find_node_loop.simps [of c])
next
  case (Cons d ds)
  have d: "(sss_mem s ! pod_end c, sss_mem s ! Suc (pod_end c)) = d" "fst d \<noteq> 0" "podpath (sss_mem s) d (d # ds) q"
    using Cons.prems(1) by auto
  have ih: "find_node_loop d p s = Some (last (d # takeWhile (\<lambda>d. fst d \<le> p) ds))"
    using Cons.IH [OF d(3) Cons.prems(2)] Cons.prems(3) by simp
  have "pod_next c s = Some d" using pod_next_eq [of pw s c] Cons.prems(3) d(1) by simp
  then show ?case using ih d(2) by (simp add: find_node_loop.simps [of c] not_less [symmetric])
qed

lemma insert_node_links:
  assumes p: "podpath (pl_mem pl) (pl_list pl) bs q" "fst q = 0" and ok: "blocks_ok pw (length (pl_mem pl)) bs"
    and b: "fresh_block pw (length (pl_mem pl)) bs b"
  shows "\<exists>pl'. insert_node b pl = Some pl' \<and> podpath (pl_mem pl') (pl_list pl') (put_block b bs) q
    \<and> links_only pl pl' (insert b (set bs))"
proof (cases "\<not> pod_valid (pl_list pl) \<or> fst (pl_list pl) > fst b")
  case True
  then have "put_block b bs = b # bs" using p by (cases bs) (auto simp: put_block_def pod_valid_def)
  then show ?thesis using push_node [OF p(1) ok b] True by (auto simp: insert_node_def)
next
  case False
  have bo: "block_ok pw (length (pl_mem pl)) b" and ap: "\<And>c. c \<in> set bs \<Longrightarrow> blocks_apart b c" using b by (auto simp: fresh_block_def)
  note ob = blocks_okD [OF ok]
  obtain c cs where bs: "bs = c # cs" "pl_list pl = c" using p False by (cases bs) (auto simp: pod_valid_def)
  obtain us d ds where split: "bs = us @ d # ds" "takeWhile (\<lambda>c. fst c \<le> fst b) bs = us @ [d]" "dropWhile (\<lambda>c. fst c \<le> fst b) bs = ds"
  proof -
    have "takeWhile (\<lambda>c. fst c \<le> fst b) bs \<noteq> []" using bs False by simp
    then obtain us d where ud: "takeWhile (\<lambda>c. fst c \<le> fst b) bs = us @ [d]" by (metis rev_exhaust)
    then have "bs = us @ d # dropWhile (\<lambda>c. fst c \<le> fst b) bs" using takeWhile_dropWhile_id [of "\<lambda>c. fst c \<le> fst b" bs] by simp
    then show ?thesis using that [of us d "dropWhile (\<lambda>c. fst c \<le> fst b) bs"] ud by blast
  qed
  have "find_node_loop c (fst b) (pl_store pl) = Some (last (c # takeWhile (\<lambda>c. fst c \<le> fst b) cs))"
    by (rule find_node_loop_path) (use p bs ob(2) in auto)
  moreover have "c # takeWhile (\<lambda>c. fst c \<le> fst b) cs = us @ [d]" using split(2) bs False by simp
  ultimately have find: "find_node_loop (pl_list pl) (fst b) (pl_store pl) = Some d" using bs(2) by simp
  have d: "d \<in> set bs" "block_ok pw (length (pl_mem pl)) d" using split(1) ob(2) [of d] by auto
  let ?r = "(pl_mem pl ! pod_end d, pl_mem pl ! Suc (pod_end d))"
  let ?m1 = "set_links b ?r (pl_mem pl)"
  let ?m = "set_links d b ?m1"
  have dok: "block_ok pw (length ?m1) d" using d(2) by simp
  have pd: "podpath (pl_mem pl) (pl_list pl) (us @ [d]) ?r" "podpath (pl_mem pl) ?r ds q"
    using p(1) split(1) by (auto simp: podpath_append)
  have part: "x \<in> set us \<Longrightarrow> x \<in> set bs \<and> x \<noteq> d" "x \<in> set ds \<Longrightarrow> x \<in> set bs \<and> x \<noteq> d" for x
    using ob(1) split(1) by auto
  have same: "?m ! pod_end x = pl_mem pl ! pod_end x \<and> ?m ! Suc (pod_end x) = pl_mem pl ! Suc (pod_end x)"
    if x: "x \<in> set bs" "x \<noteq> d" for x
    using set_links_other [OF d(2) ob(2) [OF x(1)], where arg = b and m = ?m1] set_links_other [OF bo ob(2) [OF x(1)] ap [OF x(1)], where arg = ?r and m = "pl_mem pl"]
      ob(3) [OF d(1) x(1)] x(2) by simp
  have left: "podpath ?m (pl_list pl) (us @ [d]) b"
    by (rule podpath_relink [OF pd(1)]) (use same part(1) set_links_at [OF dok, of b] in auto)
  have "podpath ?m ?r ds q" by (rule podpath_frame [OF pd(2)]) (use same part(2) in blast)
  moreover have "?m ! pod_end b = fst ?r" "?m ! Suc (pod_end b) = snd ?r"
    using set_links_other [OF d(2) bo, where arg = b and m = ?m1] ap [OF d(1)] blocks_apart_sym [of b d] set_links_at [OF bo, of ?r] by simp_all
  ultimately have "podpath ?m b (b # ds) q" using bo by (simp add: block_ok_def)
  with left have "podpath ?m (pl_list pl) ((us @ [d]) @ b # ds) q" unfolding podpath_append by blast
  then have path: "podpath ?m (pl_list pl) (put_block b bs) q" using split(2,3) by (simp add: put_block_def)
  let ?pl = "pl\<lparr>pl_store := (pl_store pl)\<lparr>sss_mem := ?m\<rparr>\<rparr>"
  have "insert_node b pl = Some ?pl"
    using False find by (simp add: insert_node_def pod_next_eq [OF d(2)] set_pod_next_eq [OF bo] store_call_def)
      (use set_pod_next_eq [of pw "(pl_store pl)\<lparr>sss_mem := ?m1\<rparr>" d b] dok in simp)
  moreover have "links_only pl ?pl (insert b (set bs))" using d(1) by (auto simp: links_only_def)
  ultimately show ?thesis using path by (intro exI [of _ ?pl]) simp
qed

subsection \<open>A new block becomes part of the pool\<close>

text \<open>The sizes, the record of released blocks and the extent of the memory, without its contents.\<close>

definition erase :: "pool \<Rightarrow> pool" where
  "erase pl = pl\<lparr>pl_store := storage_ctor (replicate (length (pl_mem pl)) 0), pl_list := (0, 0)\<rparr>"

lemma erase_simps [simp]:
  "length (sss_mem s) = length (pl_mem pl) \<Longrightarrow> erase (pl\<lparr>pl_store := s\<rparr>) = erase pl" "erase (pl\<lparr>pl_list := l\<rparr>) = erase pl"
  "next_size (erase pl) = next_size pl" "start_size (erase pl) = start_size pl" "max_size (erase pl) = max_size pl"
  "requested_size (erase pl) = requested_size pl" "pl_released (erase pl) = pl_released pl"
  "length (pl_mem (erase pl)) = length (pl_mem pl)"
  by (simp_all add: erase_def storage_ctor_def)

lemma erase_update [simp]:
  "erase (pl\<lparr>next_size := n\<rparr>) = (erase pl)\<lparr>next_size := n\<rparr>"
  "erase (pl\<lparr>start_size := n\<rparr>) = (erase pl)\<lparr>start_size := n\<rparr>"
  "erase (pl\<lparr>max_size := n\<rparr>) = (erase pl)\<lparr>max_size := n\<rparr>"
  "erase (pl\<lparr>pl_released := rs\<rparr>) = (erase pl)\<lparr>pl_released := rs\<rparr>"
  by (simp_all add: erase_def)

lemma links_only_erase: "links_only pl pl' B \<Longrightarrow> erase pl' = erase pl"
proof -
  assume l: "links_only pl pl' B"
  let ?s = "(pl_store pl)\<lparr>sss_mem := pl_mem pl'\<rparr>"
  have "length (sss_mem ?s) = length (pl_mem (pl\<lparr>pl_list := pl_list pl'\<rparr>))" using l by (simp add: links_only_def)
  then have "erase (pl\<lparr>pl_list := pl_list pl', pl_store := ?s\<rparr>) = erase (pl\<lparr>pl_list := pl_list pl'\<rparr>)" by (rule erase_simps(1))
  then show ?thesis using l unfolding links_only_def by (metis erase_simps(2))
qed

lemma links_only_pool_rel:
  assumes l: "links_only pl1 pl2 (insert b (set bs))" and f: "free_list (pl_store pl1) xs"
    and p: "podpath (pl_mem pl2) (pl_list pl2) bs2 q" "fst q = 0"
    and ok: "blocks_ok pw (length (pl_mem pl1)) bs2" and bs2: "set bs2 = insert b (set bs)"
    and w: "well_kept pw (length (pl_mem pl1), xs, held, owned_of pw bs2)"
  shows "pool_rel pw pl2 bs2 xs held"
proof -
  have len: "length (pl_mem pl2) = length (pl_mem pl1)" using l by (simp add: links_only_def)
  have "pl_mem pl2 ! x = pl_mem pl1 ! x" if "x \<in> set xs" for x
    using l free_no_header [OF w ok _ that] bs2 unfolding links_only_def by metis
  then have "free_list ((pl_store pl1)\<lparr>sss_mem := pl_mem pl2\<rparr>) xs" using free_list_headers [OF f] len by blast
  moreover have "pl_store pl2 = (pl_store pl1)\<lparr>sss_mem := pl_mem pl2\<rparr>"
    using l unfolding links_only_def by (metis pool.select_convs(1) pool.surjective pool.update_convs(1,2))
  ultimately show ?thesis unfolding pool_rel_def len using p ok w by (intro conjI exI [of _ q]) simp_all
qed

lemma attach_block:
  assumes r: "pool_rel pw pl bs xs held" and b: "fresh_block pw (length (pl_mem pl)) bs b"
    and f1: "free_list (pl_store pl1) xs1" and len: "length (pl_mem pl1) = length (pl_mem pl)"
    and frame: "\<And>a. a \<notin> set (bchunks pw b) \<union> set xs \<Longrightarrow> pl_mem pl1 ! a = pl_mem pl ! a"
    and list: "pl_list pl1 = pl_list pl"
    and w: "well_kept pw (length (pl_mem pl), xs1, held1, owned_of pw (b # bs))"
  shows "\<exists>pl2. insert_node b pl1 = Some pl2 \<and> pool_rel pw pl2 (put_block b bs) xs1 held1 \<and> erase pl2 = erase pl1 \<and> kept pw held pl pl2"
    and "\<exists>pl2. store_call (set_pod_next b (pl_list pl1) (pl_store pl1)) pl1 = Some pl2
      \<and> pool_rel pw (pl2\<lparr>pl_list := b\<rparr>) (b # bs) xs1 held1 \<and> erase pl2 = erase pl1 \<and> kept pw held pl pl2"
proof -
  note d = pool_relD [OF r] and ok = pool_relD(3) [OF r]
  have nb: "b \<notin> set bs" using fresh_new_block(3) [OF b ok] .
  have ok2: "blocks_ok pw (length (pl_mem pl)) (b # bs)"
    using blocks_ok_add [OF b ok, of "b # bs"] nb blocks_okD(1) [OF ok] by simp
  have ok3: "blocks_ok pw (length (pl_mem pl)) (put_block b bs)"
    using blocks_ok_add [OF b ok, of "put_block b bs"] nb distinct_put_block [OF blocks_okD(1) [OF ok]] by simp
  obtain q where q: "podpath (pl_mem pl) (pl_list pl) bs q" "fst q = 0" using d(1) by blast
  have own: "set (owned_of pw (b # bs)) = set (bchunks pw b) \<union> set (owned_of pw bs)" by (simp add: owned_of_def)
  have own2: "set (owned_of pw (b # bs)) = set (owned_of pw (put_block b bs))" by (simp add: set_owned_of)
  have keep: "pl_mem pl1 ! a = pl_mem pl ! a" if "\<And>x off. x \<in> set (owned_of pw (b # bs)) \<Longrightarrow> off < pw \<Longrightarrow> a \<noteq> x + off" for a
    using that [of a 0] d(5) frame [of a] own well_keptD(7) [OF d(4), of a] by auto
  have data: "kept pw held pl pl2" if l: "links_only pl1 pl2 (insert b (set bs))" for pl2
    unfolding kept_def
  proof (intro ballI allI impI)
    fix p off assume p: "p \<in> set held" "off < pw"
    then have po: "p \<in> set (owned_of pw bs)" using well_keptD(8) [OF d(4)] by blast
    then have "p \<in> set (owned_of pw (b # bs))" using own by blast
    then have "pl_mem pl2 ! (p + off) = pl_mem pl1 ! (p + off)"
      using l owned_no_header [OF ok2 _ _ p(2)] unfolding links_only_def by (metis list.simps(15))
    also have "\<dots> = pl_mem pl ! (p + off)"
      using frame fresh_no_chunk [OF b ok po p(2)] held_no_free [OF d(4) p] by blast
    finally show "pl_mem pl2 ! (p + off) = pl_mem pl ! (p + off)" .
  qed
  have p1: "podpath (pl_mem pl1) (pl_list pl1) bs q"
    unfolding list by (rule podpath_frame [OF q(1)]) (use headers_kept [OF ok2 _ d(5) keep] in auto)
  have okl: "blocks_ok pw (length (pl_mem pl1)) bs" "fresh_block pw (length (pl_mem pl1)) bs b" using ok b len by simp_all
  obtain pl2 where pl2: "insert_node b pl1 = Some pl2" "podpath (pl_mem pl2) (pl_list pl2) (put_block b bs) q"
    "links_only pl1 pl2 (insert b (set bs))"
    using insert_node_links [OF p1 q(2) okl] by blast
  have "pool_rel pw pl2 (put_block b bs) xs1 held1"
    by (rule links_only_pool_rel [OF pl2(3) f1 pl2(2) q(2)]) (use ok3 len w well_kept_cong [OF own2] in auto)
  then show "\<exists>pl2. insert_node b pl1 = Some pl2 \<and> pool_rel pw pl2 (put_block b bs) xs1 held1 \<and> erase pl2 = erase pl1 \<and> kept pw held pl pl2"
    using pl2(1) links_only_erase [OF pl2(3)] data [OF pl2(3)] by blast
  obtain pl3 where pl3: "store_call (set_pod_next b (pl_list pl1) (pl_store pl1)) pl1 = Some pl3"
    "podpath (pl_mem pl3) b (b # bs) q" "links_only pl1 (pl3\<lparr>pl_list := b\<rparr>) (insert b (set bs))"
    using push_node [OF p1 okl] by blast
  have "pool_rel pw (pl3\<lparr>pl_list := b\<rparr>) (b # bs) xs1 held1"
    by (rule links_only_pool_rel [OF pl3(3) f1 _ q(2)]) (use pl3(2) ok2 len w in auto)
  then show "\<exists>pl2. store_call (set_pod_next b (pl_list pl1) (pl_store pl1)) pl1 = Some pl2
      \<and> pool_rel pw (pl2\<lparr>pl_list := b\<rparr>) (b # bs) xs1 held1 \<and> erase pl2 = erase pl1 \<and> kept pw held pl pl2"
    using pl3(1) links_only_erase [OF pl3(3)] data [OF pl3(3)] by (auto simp: kept_def)
qed

subsection \<open>Sizes\<close>

text \<open>
  Bounds under which no computation of a size wraps around: the memory has at most \<open>2\<^sup>5\<^sup>8\<close> words, and the next
  request stays below \<open>2\<^sup>6\<^sup>2\<close> bytes, which doubling keeps true as long as requests succeed.
\<close>

definition sizes_ok :: "nat \<Rightarrow> nat \<Rightarrow> pool \<Rightarrow> bool" where
  "sizes_ok pw msz pl \<longleftrightarrow>
     alloc_size pl = Some (8 * pw) \<and> 0 < requested_size pl \<and> msz \<le> 2 ^ 58 \<and> 8 * pw \<le> 2 ^ 61 \<and>
     0 < next_size pl \<and> next_size pl * (8 * pw) \<le> 2 ^ 62 \<and> 0 < start_size pl \<and> start_size pl * (8 * pw) \<le> 2 ^ 62 \<and>
     max_size pl * requested_size pl < 2 ^ 64"

lemma sizes_okD:
  assumes "sizes_ok pw msz pl"
  shows "alloc_size pl = Some (8 * pw)" and "0 < requested_size pl" and "msz \<le> 2 ^ 58" and "8 * pw \<le> 2 ^ 61"
    and "0 < next_size pl" and "next_size pl * (8 * pw) \<le> 2 ^ 62" and "0 < start_size pl"
    and "start_size pl * (8 * pw) \<le> 2 ^ 62" and "max_size pl * requested_size pl < 2 ^ 64" and "0 < pw"
  using assms by (auto simp: sizes_ok_def alloc_size_def Let_def min_alloc_size_def split: if_splits)

lemma alloc_size_cong: "requested_size pl = requested_size pl' \<Longrightarrow> alloc_size pl = alloc_size pl'"
  by (simp add: alloc_size_def)

lemma sizes_ok_erase: "erase pl = erase pl' \<Longrightarrow> sizes_ok pw msz pl = sizes_ok pw msz pl'"
proof -
  assume e: "erase pl = erase pl'"
  have "next_size pl = next_size pl'" "start_size pl = start_size pl'" "max_size pl = max_size pl'" "requested_size pl = requested_size pl'"
    using arg_cong [OF e, of next_size] arg_cong [OF e, of start_size] arg_cong [OF e, of max_size] arg_cong [OF e, of requested_size] by simp_all
  then show ?thesis using alloc_size_cong [of pl pl'] by (simp add: sizes_ok_def)
qed

lemma pod_size_eq: "n * (8 * pw) \<le> 2 ^ 62 \<Longrightarrow> pod_size n (8 * pw) = n * (8 * pw) + 16"
  by (simp add: pod_size_def wrap_def)

lemma num_in_block: "0 < pw \<Longrightarrow> num_in pw (p, n * (8 * pw) + 16) = n"
  by (simp add: num_in_def)

text \<open>What the user allocator may answer: failure, or memory that no block of the pool occupies.\<close>

definition user_ok :: "nat \<Rightarrow> PODptr list \<Rightarrow> (nat \<Rightarrow> nat) \<Rightarrow> nat \<Rightarrow> bool" where
  "user_ok msz bs um S \<longleftrightarrow> um S \<noteq> 0 \<longrightarrow> um S + S div 8 \<le> msz \<and> (\<forall>c \<in> set bs. blocks_apart (um S, S) c)"

lemma user_fresh:
  assumes "user_ok msz bs um S" and "um S \<noteq> 0" and "S = n * (8 * pw) + 16" and "0 < n" and "0 < pw"
  shows "fresh_block pw msz bs (um S, S)" and "num_in pw (um S, S) = n"
proof -
  have d: "S div 8 = n * pw + 2" using assms(3) by simp
  show n: "num_in pw (um S, S) = n" using num_in_block [OF assms(5)] assms(3) by simp
  have "um S + (n * pw + 2) \<le> msz" using assms(1,2) unfolding user_ok_def d by simp
  then have "block_ok pw msz (um S, S)" unfolding block_ok_def n using assms(2-5) by simp
  then show "fresh_block pw msz bs (um S, S)" using assms(1,2) by (simp add: fresh_block_def user_ok_def)
qed

lemma sizes_ok_next: "sizes_ok pw msz pl \<Longrightarrow> 0 < n \<Longrightarrow> n * (8 * pw) \<le> 2 ^ 62 \<Longrightarrow> sizes_ok pw msz (pl\<lparr>next_size := n\<rparr>)"
  by (simp add: sizes_ok_def alloc_size_def)

text \<open>The next request doubles, within \<^verbatim>\<open>max_size\<close>, and never becomes zero.\<close>

lemma grow_sizes_ok:
  assumes s: "sizes_ok pw msz pl" and fit: "next_size pl * pw + 2 \<le> msz"
  shows "sizes_ok pw msz (grow_next_size (8 * pw) pl)"
proof -
  note d = sizes_okD [OF s]
  let ?n = "next_size pl" and ?k = "max_size pl * requested_size pl div (8 * pw)"
  have fit2: "?n * pw \<le> 2 ^ 58" using fit d(3) by linarith
  then have small: "2 * ?n * (8 * pw) \<le> 2 ^ 62" by (simp add: mult.commute)
  have "?n \<le> ?n * pw" using d(10) by simp
  then have "?n \<le> 2 ^ 58" using fit2 by (rule le_trans)
  then have "2 * ?n < 2 ^ 64" by simp
  then have wr: "wrap (2 * ?n) = 2 * ?n" "wrap (?n * (8 * pw)) = ?n * (8 * pw)" "wrap (max_size pl * requested_size pl) = max_size pl * requested_size pl"
    using d(6,9) by (simp_all add: wrap_def)
  have lower: "?n \<le> ?k" if "?n * (8 * pw) div requested_size pl < max_size pl"
  proof -
    have "?n * (8 * pw) < max_size pl * requested_size pl" using that d(2) by (simp add: div_less_iff_less_mult)
    then show ?thesis using d(10) by (simp add: less_eq_div_iff_mult_less_eq)
  qed
  have upper: "min (2 * ?n) ?k * (8 * pw) \<le> 2 ^ 62"
    using small mult_le_mono1 [of "min (2 * ?n) ?k" "2 * ?n" "8 * pw"] by (meson le_trans min.cobounded1)
  show ?thesis
  proof (cases "max_size pl = 0")
    case True
    have "sizes_ok pw msz (pl\<lparr>next_size := 2 * ?n\<rparr>)" using d(5) small by (intro sizes_ok_next [OF s]) simp_all
    then show ?thesis using True wr(1) by (simp add: grow_next_size_def)
  next
    case False
    show ?thesis
    proof (cases "?n * (8 * pw) div requested_size pl < max_size pl")
      case True
      then have "0 < min (2 * ?n) ?k" using lower d(5) by simp
      then have "sizes_ok pw msz (pl\<lparr>next_size := min (2 * ?n) ?k\<rparr>)" using upper by (intro sizes_ok_next [OF s])
      then show ?thesis using True False by (simp only: grow_next_size_def wr if_True if_False)
    qed (use False s wr in \<open>simp only: grow_next_size_def if_False\<close>)
  qed
qed

lemma grow_simps [simp]:
  "pl_store (grow_next_size ps pl) = pl_store pl" "pl_list (grow_next_size ps pl) = pl_list pl"
  "erase (grow_next_size ps pl) = grow_next_size ps (erase pl)"
  by (simp_all add: grow_next_size_def)

lemma request_block_eq:
  assumes s: "sizes_ok pw msz pl"
  shows "\<exists>n. request_block um (8 * pw) pl = (um (n * (8 * pw) + 16), n * (8 * pw) + 16, pl\<lparr>next_size := n\<rparr>)
    \<and> n \<in> {next_size pl, next_size pl div 2} \<and> 0 < n \<and> n * (8 * pw) \<le> 2 ^ 62"
proof -
  note d = sizes_okD [OF s]
  have half: "next_size pl div 2 * (8 * pw) \<le> 2 ^ 62"
    using mult_le_mono1 [of "next_size pl div 2" "next_size pl" "8 * pw"] d(6) by linarith
  show ?thesis
  proof (cases "um (pod_size (next_size pl) (8 * pw)) = 0 \<and> next_size pl > 4")
    case True
    then have "0 < next_size pl div 2" by simp
    then show ?thesis using True half pod_size_eq [OF half]
      by (intro exI [of _ "next_size pl div 2"]) (simp add: request_block_def Let_def)
  next
    case False
    then show ?thesis using d(5,6) pod_size_eq [OF d(6)]
      by (intro exI [of _ "next_size pl"]) (auto simp: request_block_def Let_def)
  qed
qed

lemma request_chunks_eq:
  assumes s: "sizes_ok pw msz pl" and k: "k * (8 * pw) \<le> 2 ^ 62" and kpos: "0 < k"
  shows "\<exists>n. request_chunks um k (8 * pw) pl = (um (n * (8 * pw) + 16), n * (8 * pw) + 16, pl\<lparr>next_size := n\<rparr>)
    \<and> n \<in> {max (next_size pl) k, max (max (next_size pl) k div 2) k} \<and> k \<le> n \<and> n * (8 * pw) \<le> 2 ^ 62 \<and> 0 < n"
proof -
  note d = sizes_okD [OF s]
  let ?n = "max (next_size pl) k" and ?h = "max (max (next_size pl) k div 2) k"
  have n: "?n * (8 * pw) \<le> 2 ^ 62" using d(6) k by (cases "next_size pl \<le> k") (simp_all only: max_def if_True if_False)
  have h: "?h * (8 * pw) \<le> 2 ^ 62"
    using n mult_le_mono1 [of ?h ?n "8 * pw"] by linarith
  show ?thesis
  proof (cases "um (pod_size ?n (8 * pw)) = 0 \<and> k < ?n")
    case True
    moreover have "0 < ?h" using kpos by (rule less_le_trans) simp
    ultimately show ?thesis using h pod_size_eq [OF h] by (intro exI [of _ ?h]) (simp add: request_chunks_def Let_def)
  next
    case False
    then show ?thesis using n pod_size_eq [OF n] d(5) by (intro exI [of _ ?n]) (auto simp: request_chunks_def Let_def)
  qed
qed

subsection \<open>The members on blocks, free and held chunks\<close>

lemma pool_take:
  assumes r: "pool_rel pw pl bs (x # xs) held"
  shows "\<exists>pl'. store_alloc (storage_malloc (pl_store pl)) pl = Some (x, pl') \<and> pool_rel pw pl' bs xs (x # held) \<and> erase pl' = erase pl \<and> kept pw h pl pl'"
proof -
  note d = pool_relD [OF r]
  obtain s' where s': "storage_malloc (pl_store pl) = Some (x, s')" "free_list s' xs" "sss_mem s' = pl_mem pl"
    using storage_malloc_list [OF d(2)] by blast
  have "well_kept pw (length (pl_mem pl), xs, x # held, owned_of pw bs)"
    using well_keptD(2,3,4) [OF d(4)] by (intro well_kept_move [OF d(4)]) auto
  then have "pool_rel pw (pl\<lparr>pl_store := s'\<rparr>) bs xs (x # held)"
    by (intro store_step [OF r s'(2)]) (simp_all add: s'(3))
  then show ?thesis using s'(1,3) by (simp add: store_alloc_def kept_refl)
qed

lemma bchunks_Cons: "block_ok pw msz b \<Longrightarrow> bchunks pw b = fst b # tl (bchunks pw b)"
  unfolding bchunks_def block_ok_def by (cases "num_in pw b") (simp_all add: chunks_Suc)

lemma well_kept_attach:
  assumes w: "well_kept pw (msz, xs, held, owned_of pw bs)" and b: "fresh_block pw msz bs b" and ok: "blocks_ok pw msz bs"
    and "distinct xs1" and "set xs1 = set (bchunks pw b) \<union> set xs"
  shows "well_kept pw (msz, xs1, held, owned_of pw (b # bs))"
proof -
  note fn = fresh_new_block [OF b ok]
  have "well_kept pw (msz, xs1, held, chunks_of pw (fst b) (num_in pw b * pw div pw) @ owned_of pw bs)"
    by (rule well_kept_add [OF w fn(1)]) (use assms(4,5) fn(2) in \<open>simp_all add: bchunks_def\<close>)
  then show ?thesis using fn(2) by (simp add: owned_of_def bchunks_def)
qed

end
