(* ===== verification/Pool_Members.thy ===== *)
theory Pool_Members
  imports Pool
begin

text \<open>
  The members of \<^verbatim>\<open>pool\<close> on its blocks, its free chunks and the chunks the client holds: what each call
  returns and how it moves chunks, for every answer of the user allocator that is memory outside the pool.
\<close>

lemma pool_rel_sizes [simp]:
  "pool_rel pw (pl\<lparr>next_size := n\<rparr>) bs xs held = pool_rel pw pl bs xs held"
  "pool_rel pw (pl\<lparr>start_size := n\<rparr>) bs xs held = pool_rel pw pl bs xs held"
  "pool_rel pw (pl\<lparr>max_size := n\<rparr>) bs xs held = pool_rel pw pl bs xs held"
  "pool_rel pw (grow_next_size ps pl) bs xs held = pool_rel pw pl bs xs held"
  by (simp_all add: pool_rel_def)

lemma request_erase:
  "request_block um ps (erase pl) = (case request_block um ps pl of (ptr, S, pl1) \<Rightarrow> (ptr, S, erase pl1))"
  "request_chunks um k ps (erase pl) = (case request_chunks um k ps pl of (ptr, S, pl1) \<Rightarrow> (ptr, S, erase pl1))"
  by (simp_all add: request_block_def request_chunks_def Let_def)

text \<open>A block whose chunks have been added to an empty free list.\<close>

lemma whole_block:
  assumes r: "pool_rel pw pl bs [] held" and b: "fresh_block pw (length (pl_mem pl)) bs b"
  shows "\<exists>s'. add_block (fst b) (element_size b div 8) pw (pl_store pl) = Some s'
      \<and> free_list s' (bchunks pw b) \<and> length (sss_mem s') = length (pl_mem pl)
      \<and> (\<forall>a. a \<notin> set (bchunks pw b) \<longrightarrow> sss_mem s' ! a = pl_mem pl ! a)"
    and "add_ordered_block (fst b) (element_size b div 8) pw (pl_store pl) = add_block (fst b) (element_size b div 8) pw (pl_store pl)"
    and "well_kept pw (length (pl_mem pl), bchunks pw b, held, owned_of pw (b # bs))"
proof -
  note d = pool_relD [OF r]
  have bo: "block_ok pw (length (pl_mem pl)) b" using b by (simp add: fresh_block_def)
  note fn = fresh_new_block [OF b d(3)] and nc = new_block_chunks [OF d(4) fresh_new_block(1) [OF b d(3)]]
  show "\<exists>s'. add_block (fst b) (element_size b div 8) pw (pl_store pl) = Some s'
      \<and> free_list s' (bchunks pw b) \<and> length (sss_mem s') = length (pl_mem pl)
      \<and> (\<forall>a. a \<notin> set (bchunks pw b) \<longrightarrow> sss_mem s' ! a = pl_mem pl ! a)"
    using add_block_list [OF d(2,5) nc(3,4,2)] fn(2) block_layout(7) [OF bo] by (simp add: bchunks_def)
  have "sss_first (pl_store pl) = 0" using d(2) by (simp add: free_list_def)
  then show "add_ordered_block (fst b) (element_size b div 8) pw (pl_store pl) = add_block (fst b) (element_size b div 8) pw (pl_store pl)"
    by (simp add: add_ordered_block_def find_prev_def)
  show "well_kept pw (length (pl_mem pl), bchunks pw b, held, owned_of pw (b # bs))"
    by (rule well_kept_attach [OF d(4) b d(3)]) (simp_all add: bchunks_def distinct_chunks [OF d(5)])
qed

lemma request_block_fresh:
  assumes s: "sizes_ok pw msz pl" and rq: "request_block um (8 * pw) pl = (ptr, S, pl1)" and u: "user_ok msz bs um S"
  shows "\<exists>n. pl1 = pl\<lparr>next_size := n\<rparr>" and "sizes_ok pw msz pl1"
    and "ptr \<noteq> 0 \<Longrightarrow> fresh_block pw msz bs (ptr, S)" and "ptr \<noteq> 0 \<Longrightarrow> sizes_ok pw msz (grow_next_size (8 * pw) pl1)"
proof -
  obtain n where n: "request_block um (8 * pw) pl = (um (n * (8 * pw) + 16), n * (8 * pw) + 16, pl\<lparr>next_size := n\<rparr>)"
    "0 < n" "n * (8 * pw) \<le> 2 ^ 62" using request_block_eq [OF s] by blast
  then have eq: "ptr = um S" "S = n * (8 * pw) + 16" "pl1 = pl\<lparr>next_size := n\<rparr>" using rq by auto
  show "\<exists>n. pl1 = pl\<lparr>next_size := n\<rparr>" using eq(3) by blast
  show s1: "sizes_ok pw msz pl1" unfolding eq(3) by (rule sizes_ok_next [OF s n(2,3)])
  assume p: "ptr \<noteq> 0"
  then show fr: "fresh_block pw msz bs (ptr, S)" using user_fresh(1) [OF u] eq(1,2) n(2) sizes_okD(10) [OF s] by blast
  have "num_in pw (ptr, S) = n" using num_in_block [OF sizes_okD(10) [OF s]] eq(2) by simp
  then have "n * pw + 2 \<le> msz" using fr unfolding fresh_block_def block_ok_def by simp
  then show "sizes_ok pw msz (grow_next_size (8 * pw) pl1)" using grow_sizes_ok [OF s1] eq(3) by simp
qed

lemma need_resize:
  assumes r: "pool_rel pw pl bs [] held" and s: "sizes_ok pw (length (pl_mem pl)) pl"
    and rq: "request_block um (8 * pw) pl = (ptr, S, pl1)" and u: "user_ok (length (pl_mem pl)) bs um S"
  shows "ptr = 0 \<Longrightarrow> malloc_need_resize um pl = Some (0, pl1) \<and> ordered_malloc_need_resize um pl = Some (0, pl1)"
    and "ptr \<noteq> 0 \<Longrightarrow> \<exists>pl'. malloc_need_resize um pl = Some (ptr, pl')
      \<and> pool_rel pw pl' ((ptr, S) # bs) (tl (bchunks pw (ptr, S))) (ptr # held) \<and> erase pl' = grow_next_size (8 * pw) (erase pl1) \<and> kept pw held pl pl'"
    and "ptr \<noteq> 0 \<Longrightarrow> \<exists>pl'. ordered_malloc_need_resize um pl = Some (ptr, pl')
      \<and> pool_rel pw pl' (put_block (ptr, S) bs) (tl (bchunks pw (ptr, S))) (ptr # held) \<and> erase pl' = grow_next_size (8 * pw) (erase pl1) \<and> kept pw held pl pl'"
proof -
  note d = sizes_okD [OF s] and rf = request_block_fresh [OF s rq u]
  show "malloc_need_resize um pl = Some (0, pl1) \<and> ordered_malloc_need_resize um pl = Some (0, pl1)" if "ptr = 0"
    using that d(1) rq by (simp add: malloc_need_resize_def ordered_malloc_need_resize_def)
  let ?b = "(ptr, S)" and ?pl2 = "grow_next_size (8 * pw) pl1"
  obtain n where pl1: "pl1 = pl\<lparr>next_size := n\<rparr>" using rf(1) by blast
  have store: "pl_store ?pl2 = pl_store pl" "pl_list ?pl2 = pl_list pl" "erase ?pl2 = grow_next_size (8 * pw) (erase pl1)" by (simp_all add: pl1)
  assume p: "ptr \<noteq> 0"
  note fb = rf(3) [OF p] and wb = whole_block [OF r rf(3) [OF p]]
  obtain s' where s': "add_block (fst ?b) (element_size ?b div 8) pw (pl_store pl) = Some s'" "free_list s' (bchunks pw ?b)"
    "length (sss_mem s') = length (pl_mem pl)" "\<And>a. a \<notin> set (bchunks pw ?b) \<Longrightarrow> sss_mem s' ! a = pl_mem pl ! a"
    using wb(1) by blast
  let ?pl3 = "?pl2\<lparr>pl_store := s'\<rparr>"
  have e3: "erase ?pl3 = grow_next_size (8 * pw) (erase pl1)" using s'(3) store by (metis erase_simps(1))
  note at = attach_block [OF r fb, of ?pl3 "bchunks pw ?b" held]
  have bc: "bchunks pw ?b = ptr # tl (bchunks pw ?b)" using bchunks_Cons [of pw "length (pl_mem pl)" ?b] fb unfolding fresh_block_def by simp
  have prem: "free_list (pl_store ?pl3) (bchunks pw ?b)" "length (pl_mem ?pl3) = length (pl_mem pl)"
    "\<And>a. a \<notin> set (bchunks pw ?b) \<union> set [] \<Longrightarrow> pl_mem ?pl3 ! a = pl_mem pl ! a" "pl_list ?pl3 = pl_list pl"
    using s' store by simp_all
  obtain pl4 where pl4: "insert_node ?b ?pl3 = Some pl4" "pool_rel pw pl4 (put_block ?b bs) (ptr # tl (bchunks pw ?b)) held" "erase pl4 = erase ?pl3" "kept pw held pl pl4"
    using at(1) [OF prem wb(3)] bc by auto
  obtain pl5 where pl5: "store_call (set_pod_next ?b (pl_list ?pl3) (pl_store ?pl3)) ?pl3 = Some pl5"
    "pool_rel pw (pl5\<lparr>pl_list := ?b\<rparr>) (?b # bs) (ptr # tl (bchunks pw ?b)) held" "erase pl5 = erase ?pl3" "kept pw held pl pl5"
    using at(2) [OF prem wb(3)] bc by auto
  obtain pl6 where pl6: "store_alloc (storage_malloc (pl_store pl4)) pl4 = Some (ptr, pl6)"
    "pool_rel pw pl6 (put_block ?b bs) (tl (bchunks pw ?b)) (ptr # held)" "erase pl6 = erase pl4" "kept pw held pl4 pl6" using pool_take [OF pl4(2), of held] by blast
  obtain pl7 where pl7: "store_alloc (storage_malloc (pl_store (pl5\<lparr>pl_list := ?b\<rparr>))) (pl5\<lparr>pl_list := ?b\<rparr>) = Some (ptr, pl7)"
    "pool_rel pw pl7 (?b # bs) (tl (bchunks pw ?b)) (ptr # held)" "erase pl7 = erase pl5" "kept pw held pl5 pl7" using pool_take [OF pl5(2), of held] by (auto simp: kept_def)
  have call: "store_call (add_block (fst ?b) (element_size ?b div 8) pw (pl_store ?pl2)) ?pl2 = Some ?pl3"
    using s'(1) store by (simp add: store_call_def)
  have "malloc_need_resize um pl = Some (ptr, pl7)"
    using d(1) rq p call pl5(1) pl7(1) by (simp add: malloc_need_resize_def)
  then show "\<exists>pl'. malloc_need_resize um pl = Some (ptr, pl')
      \<and> pool_rel pw pl' ((ptr, S) # bs) (tl (bchunks pw (ptr, S))) (ptr # held) \<and> erase pl' = grow_next_size (8 * pw) (erase pl1) \<and> kept pw held pl pl'"
    using pl7(2-4) pl5(3,4) e3 by (auto intro: kept_trans)
  have "ordered_malloc_need_resize um pl = Some (ptr, pl6)"
    using d(1) rq p call pl4(1) pl6(1) wb(2) store(1) by (simp add: ordered_malloc_need_resize_def)
  then show "\<exists>pl'. ordered_malloc_need_resize um pl = Some (ptr, pl')
      \<and> pool_rel pw pl' (put_block (ptr, S) bs) (tl (bchunks pw (ptr, S))) (ptr # held) \<and> erase pl' = grow_next_size (8 * pw) (erase pl1) \<and> kept pw held pl pl'"
    using pl6(2-4) pl4(3,4) e3 by (auto intro: kept_trans)
qed

lemma store_empty_list: "free_list s xs \<Longrightarrow> storage_empty s \<longleftrightarrow> xs = []"
  by (cases xs) (auto simp: free_list_def storage_empty_def)

text \<open>The number of chunks that \<open>n\<close> elements of the requested size take.\<close>

lemma num_chunks_of_bound:
  assumes "n * requested \<le> 2 ^ 61" and "8 * pw \<le> 2 ^ 61" and "0 < pw"
  shows "num_chunks_of n requested (8 * pw) * (8 * pw) \<le> 2 ^ 62"
    and "n * requested \<le> num_chunks_of n requested (8 * pw) * (8 * pw)"
    and "0 < n \<Longrightarrow> 0 < requested \<Longrightarrow> 0 < num_chunks_of n requested (8 * pw)"
proof -
  define t p k where "t = n * requested" and "p = 8 * pw" and "k = num_chunks_of n requested (8 * pw)"
  have k: "k = t div p + (if t mod p \<noteq> 0 then 1 else 0)"
    using assms(1) by (simp add: k_def num_chunks_of_def t_def p_def wrap_def Let_def)
  have eq: "t = t div p * p + t mod p" by (rule div_mult_mod_eq [symmetric])
  have md: "t mod p < p" using assms(3) by (simp add: p_def)
  have "k * p = t div p * p + (if t mod p \<noteq> 0 then p else 0)" unfolding k by (simp add: add_mult_distrib)
  then have kp: "t mod p = 0 \<and> k * p = t div p * p \<or> k * p = t div p * p + p" by simp
  have le: "t \<le> k * p" using kp eq md by linarith
  have le2: "k * p \<le> t + p" using kp eq md by linarith
  have "t + p \<le> 2 ^ 61 + 2 ^ 61" using add_mono [OF assms(1,2)] by (simp only: t_def p_def)
  then have "k * p \<le> 2 ^ 62" using le2 by simp
  then show "num_chunks_of n requested (8 * pw) * (8 * pw) \<le> 2 ^ 62" by (simp only: k_def p_def)
  show "n * requested \<le> num_chunks_of n requested (8 * pw) * (8 * pw)" using le by (simp only: k_def t_def p_def)
  assume "0 < n" "0 < requested"
  then have "0 < t" by (simp add: t_def)
  then have "0 < k * p" using le by linarith
  then show "0 < num_chunks_of n requested (8 * pw)" by (simp add: k_def)
qed

text \<open>Chunks that the client holds go back to the free list.\<close>

lemma held_chunks:
  assumes w: "well_kept pw (msz, xs, held, owned)" and sub: "set cs \<subseteq> set held"
  shows "set cs \<inter> set xs = {}" and "\<And>c. c \<in> set cs \<Longrightarrow> c \<noteq> 0 \<and> c < msz"
    and "distinct xs' \<Longrightarrow> set xs' = set cs \<union> set xs \<Longrightarrow> well_kept pw (msz, xs', filter (\<lambda>x. x \<notin> set cs) held, owned)"
proof -
  note d = well_keptD [OF w]
  show "set cs \<inter> set xs = {}" using sub d(4) by blast
  show "c \<noteq> 0 \<and> c < msz" if "c \<in> set cs" for c
    using d(1) d(5) [of c] d(8) [of c] that sub by auto
  assume "distinct xs'" "set xs' = set cs \<union> set xs"
  then show "well_kept pw (msz, xs', filter (\<lambda>x. x \<notin> set cs) held, owned)"
    using d(3,4) sub by (intro well_kept_move [OF w]) auto
qed

lemma give_back:
  assumes r: "pool_rel pw pl bs xs held" and sub: "set cs \<subseteq> set held"
    and s': "free_list s' xs'" "length (sss_mem s') = length (pl_mem pl)" "\<And>a. a \<notin> set cs \<union> set xs \<Longrightarrow> sss_mem s' ! a = pl_mem pl ! a"
    and xs': "set xs' = set cs \<union> set xs"
  shows "pool_rel pw (pl\<lparr>pl_store := s'\<rparr>) bs xs' (filter (\<lambda>x. x \<notin> set cs) held)"
    and "kept pw (filter (\<lambda>x. x \<notin> set cs) held) pl (pl\<lparr>pl_store := s'\<rparr>)"
proof -
  note d = pool_relD [OF r] and w = well_keptD [OF pool_relD(4) [OF r]]
  have "well_kept pw (length (pl_mem pl), xs', filter (\<lambda>x. x \<notin> set cs) held, owned_of pw bs)"
    using held_chunks(3) [OF d(4) sub _ xs'] s'(1) by (simp add: free_list_def)
  moreover have "sss_mem s' ! a = pl_mem pl ! a" if h: "\<And>x off. x \<in> set (owned_of pw bs) \<Longrightarrow> off < pw \<Longrightarrow> a \<noteq> x + off" for a
    using h [of a 0] d(5) s'(3) [of a] w(7,8) sub by auto
  ultimately show "pool_rel pw (pl\<lparr>pl_store := s'\<rparr>) bs xs' (filter (\<lambda>x. x \<notin> set cs) held)"
    by (intro store_step [OF r s'(1,2)]) auto
  have "set held - set (filter (\<lambda>x. x \<notin> set cs) held) = set cs" using sub by auto
  then show "kept pw (filter (\<lambda>x. x \<notin> set cs) held) pl (pl\<lparr>pl_store := s'\<rparr>)"
    using s'(3) by (intro kept_free [OF r]) auto
qed

lemma free_chunk:
  assumes r: "pool_rel pw pl bs xs held" and c: "c \<in> set held"
  shows "\<exists>pl'. pool_free c pl = Some pl' \<and> pool_rel pw pl' bs (c # xs) (filter (\<lambda>x. x \<noteq> c) held) \<and> erase pl' = erase pl \<and> kept pw (filter (\<lambda>x. x \<noteq> c) held) pl pl'"
    and "\<exists>pl'. pool_ordered_free c pl = Some pl' \<and> pool_rel pw pl' bs (put_at c [c] xs) (filter (\<lambda>x. x \<noteq> c) held) \<and> erase pl' = erase pl \<and> kept pw (filter (\<lambda>x. x \<noteq> c) held) pl pl'"
proof -
  note d = pool_relD [OF r]
  have sub: "set [c] \<subseteq> set held" using c by simp
  note hc = held_chunks(1,2) [OF d(4) sub]
  have c': "c \<noteq> 0" "c < length (pl_mem pl)" "c \<notin> set xs" using hc by auto
  obtain s' where s': "storage_free c (pl_store pl) = Some s'" "free_list s' (c # xs)" "sss_mem s' = (pl_mem pl)[c := sss_first (pl_store pl)]"
    using storage_free_list [OF d(2) c'] by blast
  have "pool_rel pw (pl\<lparr>pl_store := s'\<rparr>) bs (c # xs) (filter (\<lambda>x. x \<notin> set [c]) held) \<and> kept pw (filter (\<lambda>x. x \<notin> set [c]) held) pl (pl\<lparr>pl_store := s'\<rparr>)"
    by (intro conjI give_back [OF r sub s'(2)]) (use s'(3) in auto)
  then show "\<exists>pl'. pool_free c pl = Some pl' \<and> pool_rel pw pl' bs (c # xs) (filter (\<lambda>x. x \<noteq> c) held) \<and> erase pl' = erase pl \<and> kept pw (filter (\<lambda>x. x \<noteq> c) held) pl pl'"
    using s'(1,3) by (simp add: pool_free_def store_call_def)
  obtain s2 where s2: "ordered_free c (pl_store pl) = Some s2" "free_list s2 (put_at c [c] xs)"
    "length (sss_mem s2) = length (pl_mem pl)" "\<forall>a. a \<notin> insert c (set xs) \<longrightarrow> sss_mem s2 ! a = pl_mem pl ! a"
    using ordered_free_list [OF d(2) c'] unfolding put_at_def by auto
  have "pool_rel pw (pl\<lparr>pl_store := s2\<rparr>) bs (put_at c [c] xs) (filter (\<lambda>x. x \<notin> set [c]) held) \<and> kept pw (filter (\<lambda>x. x \<notin> set [c]) held) pl (pl\<lparr>pl_store := s2\<rparr>)"
    by (intro conjI give_back [OF r sub s2(2,3)]) (use s2(4) in auto)
  then show "\<exists>pl'. pool_ordered_free c pl = Some pl' \<and> pool_rel pw pl' bs (put_at c [c] xs) (filter (\<lambda>x. x \<noteq> c) held) \<and> erase pl' = erase pl \<and> kept pw (filter (\<lambda>x. x \<noteq> c) held) pl pl'"
    using s2(1,3) by (simp add: pool_ordered_free_def store_call_def)
qed

lemma free_chunks:
  assumes r: "pool_rel pw pl bs xs held" and a: "alloc_size pl = Some (8 * pw)"
    and k: "k = num_chunks_of n (requested_size pl) (8 * pw)" and sub: "set (chunks_of pw p k) \<subseteq> set held"
  shows "\<exists>pl'. pool_free_n p n pl = Some pl' \<and> erase pl' = erase pl
      \<and> pool_rel pw pl' bs (chunks_of pw p k @ xs) (filter (\<lambda>x. x \<notin> set (chunks_of pw p k)) held) \<and> kept pw (filter (\<lambda>x. x \<notin> set (chunks_of pw p k)) held) pl pl'"
    and "\<exists>pl'. pool_ordered_free_n p n pl = Some pl' \<and> erase pl' = erase pl
      \<and> pool_rel pw pl' bs (put_at p (chunks_of pw p k) xs) (filter (\<lambda>x. x \<notin> set (chunks_of pw p k)) held) \<and> kept pw (filter (\<lambda>x. x \<notin> set (chunks_of pw p k)) held) pl pl'"
proof -
  note d = pool_relD [OF r] and hc = held_chunks(1,2) [OF pool_relD(4) [OF r] sub]
  have ps: "8 * pw div 8 = pw" by simp
  have eq: "pool_free_n p n pl = store_call (free_n p k pw (pl_store pl)) pl"
    "pool_ordered_free_n p n pl = store_call (ordered_free_n p k pw (pl_store pl)) pl"
    using a k by (simp_all add: pool_free_n_def pool_ordered_free_n_def)
  obtain s1 s2 where s1: "free_n p k pw (pl_store pl) = Some s1" "free_list s1 (chunks_of pw p k @ xs)"
      "length (sss_mem s1) = length (pl_mem pl)" "\<And>a. a \<notin> set (chunks_of pw p k) \<union> set xs \<Longrightarrow> sss_mem s1 ! a = pl_mem pl ! a"
    and s2: "ordered_free_n p k pw (pl_store pl) = Some s2" "free_list s2 (put_at p (chunks_of pw p k) xs)"
      "length (sss_mem s2) = length (pl_mem pl)" "\<And>a. a \<notin> set (chunks_of pw p k) \<union> set xs \<Longrightarrow> sss_mem s2 ! a = pl_mem pl ! a"
  proof (cases "k = 0")
    case True
    then show thesis using that d(2) by (simp add: free_n_def ordered_free_n_def put_at_def chunks_of_def)
  next
    case False
    have m: "p \<in> set (chunks_of pw p k)" "p + (k - 1) * pw \<in> set (chunks_of pw p k)"
      unfolding set_chunks using False by (auto intro: exI [of _ 0] exI [of _ "k - 1"])
    have prem: "pw \<le> k * pw" "p \<noteq> 0" "p + (k * pw div pw - 1) * pw < length (pl_mem pl)" "set (chunks_of pw p (k * pw div pw)) \<inter> set xs = {}"
      using False hc m d(5) by (simp_all add: hc)
    show thesis
      using add_block_list [OF d(2,5) prem] add_ordered_block_list [OF d(2,5) prem] False d(5) that
      by (fastforce simp: free_n_def ordered_free_n_def put_at_def)
  qed
  have "pool_rel pw (pl\<lparr>pl_store := s1\<rparr>) bs (chunks_of pw p k @ xs) (filter (\<lambda>x. x \<notin> set (chunks_of pw p k)) held)
      \<and> kept pw (filter (\<lambda>x. x \<notin> set (chunks_of pw p k)) held) pl (pl\<lparr>pl_store := s1\<rparr>)"
    by (intro conjI give_back [OF r sub s1(2,3)]) (use s1(4) in auto)
  then show "\<exists>pl'. pool_free_n p n pl = Some pl' \<and> erase pl' = erase pl
      \<and> pool_rel pw pl' bs (chunks_of pw p k @ xs) (filter (\<lambda>x. x \<notin> set (chunks_of pw p k)) held) \<and> kept pw (filter (\<lambda>x. x \<notin> set (chunks_of pw p k)) held) pl pl'"
    using s1(1,3) eq(1) by (simp add: store_call_def)
  have "pool_rel pw (pl\<lparr>pl_store := s2\<rparr>) bs (put_at p (chunks_of pw p k) xs) (filter (\<lambda>x. x \<notin> set (chunks_of pw p k)) held)
      \<and> kept pw (filter (\<lambda>x. x \<notin> set (chunks_of pw p k)) held) pl (pl\<lparr>pl_store := s2\<rparr>)"
    by (intro conjI give_back [OF r sub s2(2,3)]) (use s2(4) in auto)
  then show "\<exists>pl'. pool_ordered_free_n p n pl = Some pl' \<and> erase pl' = erase pl
      \<and> pool_rel pw pl' bs (put_at p (chunks_of pw p k) xs) (filter (\<lambda>x. x \<notin> set (chunks_of pw p k)) held) \<and> kept pw (filter (\<lambda>x. x \<notin> set (chunks_of pw p k)) held) pl pl'"
    using s2(1,3) eq(2) by (simp add: store_call_def)
qed

lemma chunks_append: "chunks_of pw p (i + j) = chunks_of pw p i @ chunks_of pw (p + i * pw) j"
  by (rule nth_equalityI) (auto simp: nth_append add_mult_distrib [symmetric])

lemma request_chunks_fresh:
  assumes s: "sizes_ok pw msz pl" and k: "k * (8 * pw) \<le> 2 ^ 62" "0 < k"
    and rq: "request_chunks um k (8 * pw) pl = (ptr, S, pl1)" and u: "user_ok msz bs um S"
  shows "\<exists>n. pl1 = pl\<lparr>next_size := n\<rparr>" and "sizes_ok pw msz pl1" and "k \<le> next_size pl1"
    and "ptr \<noteq> 0 \<Longrightarrow> fresh_block pw msz bs (ptr, S)" and "num_in pw (ptr, S) = next_size pl1"
    and "ptr \<noteq> 0 \<Longrightarrow> sizes_ok pw msz (grow_next_size (8 * pw) pl1)"
proof -
  obtain n where n: "request_chunks um k (8 * pw) pl = (um (n * (8 * pw) + 16), n * (8 * pw) + 16, pl\<lparr>next_size := n\<rparr>)"
    "k \<le> n" "0 < n" "n * (8 * pw) \<le> 2 ^ 62" using request_chunks_eq [OF s k] by blast
  then have eq: "ptr = um S" "S = n * (8 * pw) + 16" "pl1 = pl\<lparr>next_size := n\<rparr>" using rq by auto
  show "\<exists>n. pl1 = pl\<lparr>next_size := n\<rparr>" "k \<le> next_size pl1" using eq(3) n(2) by auto
  show s1: "sizes_ok pw msz pl1" unfolding eq(3) by (rule sizes_ok_next [OF s n(3,4)])
  show num: "num_in pw (ptr, S) = next_size pl1" using num_in_block [OF sizes_okD(10) [OF s]] eq(2,3) by simp
  assume p: "ptr \<noteq> 0"
  then show fr: "fresh_block pw msz bs (ptr, S)" using user_fresh(1) [OF u] eq(1,2) n(3) sizes_okD(10) [OF s] by blast
  have "next_size pl1 * pw + 2 \<le> msz" using fr num unfolding fresh_block_def block_ok_def by simp
  then show "sizes_ok pw msz (grow_next_size (8 * pw) pl1)" using grow_sizes_ok [OF s1] by simp
qed

text \<open>The first \<open>k\<close> chunks of a new block for the client, the others for the free list.\<close>

lemma split_block:
  assumes r: "pool_rel pw pl bs xs held" and b: "fresh_block pw (length (pl_mem pl)) bs b" and k: "k \<le> num_in pw b"
    and cs: "cs = chunks_of pw (fst b + k * pw) (num_in pw b - k)"
  shows "bchunks pw b = chunks_of pw (fst b) k @ cs"
    and "well_kept pw (length (pl_mem pl), put_at (fst b + k * pw) cs xs, chunks_of pw (fst b) k @ held, owned_of pw (b # bs))"
    and "k < num_in pw b \<Longrightarrow> \<exists>s'. add_ordered_block (fst b + k * pw) ((element_size b - k * (8 * pw)) div 8) pw (pl_store pl) = Some s'
      \<and> free_list s' (put_at (fst b + k * pw) cs xs) \<and> length (sss_mem s') = length (pl_mem pl)
      \<and> (\<forall>a. a \<notin> set cs \<union> set xs \<longrightarrow> sss_mem s' ! a = pl_mem pl ! a)"
proof -
  note d = pool_relD [OF r] and w = well_keptD [OF pool_relD(4) [OF r]]
  have bo: "block_ok pw (length (pl_mem pl)) b" using b by (simp add: fresh_block_def)
  show bc: "bchunks pw b = chunks_of pw (fst b) k @ cs"
    using chunks_append [of pw "fst b" k "num_in pw b - k"] k by (simp add: bchunks_def cs)
  note fn = fresh_new_block [OF b d(3)] and nc = new_block_chunks [OF d(4) fresh_new_block(1) [OF b d(3)]]
  have db: "distinct (bchunks pw b)" unfolding bchunks_def by (rule distinct_chunks [OF d(5)])
  have disj: "set (bchunks pw b) \<inter> set (owned_of pw bs) = {}" using nc(1) fn(2) by (simp add: bchunks_def)
  have w1: "well_kept pw (length (pl_mem pl), bchunks pw b @ xs, held, owned_of pw (b # bs))"
    using db disj w(2,7) by (intro well_kept_attach [OF d(4) b d(3)]) auto
  show "well_kept pw (length (pl_mem pl), put_at (fst b + k * pw) cs xs, chunks_of pw (fst b) k @ held, owned_of pw (b # bs))"
  proof (rule well_kept_move [OF w1])
    note w' = well_keptD [OF w1]
    show "distinct (put_at (fst b + k * pw) cs xs)" using db bc w'(2) by (intro distinct_put_at) auto
    show "set (put_at (fst b + k * pw) cs xs) \<union> set (chunks_of pw (fst b) k @ held) = set (owned_of pw (b # bs))"
      using w'(3) bc by auto
    have "set cs \<inter> set (chunks_of pw (fst b) k) = {}" "set xs \<inter> set (chunks_of pw (fst b) k) = {}" using w'(2) bc by auto
    then show "set (put_at (fst b + k * pw) cs xs) \<inter> set (chunks_of pw (fst b) k @ held) = {}" using w'(4) bc by auto
  qed
  assume lt: "k < num_in pw b"
  have sz: "(element_size b - k * (8 * pw)) div 8 = (num_in pw b - k) * pw"
    unfolding block_layout(8) [OF bo] by (simp add: diff_mult_distrib [symmetric])
  have m: "(num_in pw b - k) * pw div pw = num_in pw b - k" using d(5) by simp
  have "fst b + k * pw + (num_in pw b - k - 1) * pw = fst b + (num_in pw b - 1) * pw"
    using lt by (simp add: add_mult_distrib [symmetric])
  then have prem: "pw \<le> (num_in pw b - k) * pw" "fst b + k * pw \<noteq> 0"
    "fst b + k * pw + ((num_in pw b - k) * pw div pw - 1) * pw < length (pl_mem pl)"
    "set (chunks_of pw (fst b + k * pw) ((num_in pw b - k) * pw div pw)) \<inter> set xs = {}"
    unfolding m using lt nc(2,4) fn(2) d(5) disj bc w(7) cs by auto
  show "\<exists>s'. add_ordered_block (fst b + k * pw) ((element_size b - k * (8 * pw)) div 8) pw (pl_store pl) = Some s'
      \<and> free_list s' (put_at (fst b + k * pw) cs xs) \<and> length (sss_mem s') = length (pl_mem pl)
      \<and> (\<forall>a. a \<notin> set cs \<union> set xs \<longrightarrow> sss_mem s' ! a = pl_mem pl ! a)"
    using add_ordered_block_list [OF d(2,5) prem] unfolding sz m cs put_at_def .
qed

lemma malloc_n_found:
  assumes r: "pool_rel pw pl bs xs held" and k: "0 < k"
  shows "case find (contiguous_at pw k xs) [0..<length xs] of
      None \<Rightarrow> malloc_n k pw (pl_store pl) = Some (0, pl_store pl)
    | Some i \<Rightarrow> xs ! i \<noteq> 0 \<and> (\<exists>s'. malloc_n k pw (pl_store pl) = Some (xs ! i, s')
        \<and> pool_rel pw (pl\<lparr>pl_store := s'\<rparr>) bs (take i xs @ drop (i + k) xs) (take k (drop i xs) @ held)
        \<and> erase (pl\<lparr>pl_store := s'\<rparr>) = erase pl \<and> kept pw held pl (pl\<lparr>pl_store := s'\<rparr>))"
proof -
  note d = pool_relD [OF r] and w = well_keptD [OF pool_relD(4) [OF r]] and mf = malloc_n_find [OF pool_relD(2,5) [OF r] k]
  show ?thesis
  proof (cases "find (contiguous_at pw k xs) [0..<length xs]")
    case None
    then show ?thesis using mf by simp
  next
    case (Some i)
    then obtain s' where i: "i < length xs" and m: "malloc_n k pw (pl_store pl) = Some (xs ! i, s')"
      and s': "free_list s' (take i xs @ drop (i + k) xs)" "length (sss_mem s') = length (pl_mem pl)" using mf by auto
    have x: "xs ! i \<noteq> 0" using w(5) [OF w(7), of "xs ! i"] i by simp
    then have fr: "sss_mem s' ! a = pl_mem pl ! a" if "a \<notin> set xs" for a using malloc_n_list [OF d(2,5) k] m that by auto
    have xs: "xs = take i xs @ take k (drop i xs) @ drop (i + k) xs" by (metis append_take_drop_id drop_drop add.commute)
    have dist: "distinct (take i xs @ take k (drop i xs) @ drop (i + k) xs)" using w(2) xs by simp
    have setx: "set xs = set (take i xs) \<union> set (take k (drop i xs)) \<union> set (drop (i + k) xs)"
      using arg_cong [OF xs, of set] by (simp only: set_append Un_assoc)
    have "well_kept pw (length (pl_mem pl), take i xs @ drop (i + k) xs, take k (drop i xs) @ held, owned_of pw bs)"
    proof (rule well_kept_move [OF d(4)])
      show "distinct (take i xs @ drop (i + k) xs)" using s'(1) by (simp add: free_list_def)
      show "set (take i xs @ drop (i + k) xs) \<union> set (take k (drop i xs) @ held) = set (owned_of pw bs)" using w(3) setx by auto
      show "set (take i xs @ drop (i + k) xs) \<inter> set (take k (drop i xs) @ held) = {}" using w(4) setx dist by auto
    qed
    then have "pool_rel pw (pl\<lparr>pl_store := s'\<rparr>) bs (take i xs @ drop (i + k) xs) (take k (drop i xs) @ held)"
    proof (intro store_step [OF r s'])
      fix a assume "\<And>x off. x \<in> set (owned_of pw bs) \<Longrightarrow> off < pw \<Longrightarrow> a \<noteq> x + off"
      from this [of a 0] show "sss_mem s' ! a = pl_mem pl ! a" using d(5) fr [of a] w(7) [of a] by auto
    qed
    moreover have "kept pw held pl (pl\<lparr>pl_store := s'\<rparr>)" by (rule kept_free [OF r]) (use fr in auto)
    ultimately show ?thesis using Some m x s'(2) by simp
  qed
qed

lemma new_block_for_n:
  assumes r: "pool_rel pw pl bs xs held" and s: "sizes_ok pw (length (pl_mem pl)) pl" and k: "k * (8 * pw) \<le> 2 ^ 62" "0 < k" "0 < n"
    and kn: "k = num_chunks_of n (requested_size pl) (8 * pw)" and no: "malloc_n k pw (pl_store pl) = Some (0, pl_store pl)"
    and rq: "request_chunks um k (8 * pw) pl = (ptr, S, pl1)" and u: "user_ok (length (pl_mem pl)) bs um S"
  shows "ptr = 0 \<Longrightarrow> ordered_malloc_n um n pl = Some (0, pl1)"
    and "ptr \<noteq> 0 \<Longrightarrow> \<exists>pl'. ordered_malloc_n um n pl = Some (ptr, pl') \<and> erase pl' = grow_next_size (8 * pw) (erase pl1) \<and> kept pw held pl pl'
      \<and> pool_rel pw pl' (put_block (ptr, S) bs) (put_at (ptr + k * pw) (chunks_of pw (ptr + k * pw) (num_in pw (ptr, S) - k)) xs)
          (chunks_of pw ptr k @ held)"
proof -
  note d = sizes_okD [OF s] and rf = request_chunks_fresh [OF s k(1,2) rq u]
  have ps: "8 * pw div 8 = pw" by simp
  have al: "store_alloc (malloc_n k pw (pl_store pl)) pl = Some (0, pl)" using no by (simp add: store_alloc_def)
  have kk: "num_chunks_of n (requested_size pl) (8 * pw) = k" using kn by simp
  show "ordered_malloc_n um n pl = Some (0, pl1)" if "ptr = 0"
    using that d(1) rq al k(3) by (simp add: ordered_malloc_n_def kk)
  let ?b = "(ptr, S)" and ?cs = "chunks_of pw (ptr + k * pw) (num_in pw (ptr, S) - k)"
  obtain m where pl1: "pl1 = pl\<lparr>next_size := m\<rparr>" using rf(1) by blast
  assume p: "ptr \<noteq> 0"
  note fb = rf(4) [OF p]
  have kle: "k \<le> num_in pw ?b" using rf(3,5) by simp
  note sb = split_block [OF r fb kle refl]
  obtain s' where s': "free_list s' (put_at (ptr + k * pw) ?cs xs)" "length (sss_mem s') = length (pl_mem pl)"
      "\<And>a. a \<notin> set ?cs \<union> set xs \<Longrightarrow> sss_mem s' ! a = pl_mem pl ! a"
    and call: "(if next_size pl1 > k
                then store_call (add_ordered_block (ptr + k * pw) ((element_size ?b - k * (8 * pw)) div 8) pw (pl_store pl1)) pl1
                else Some pl1) = Some (pl1\<lparr>pl_store := s'\<rparr>)"
  proof (cases "k < num_in pw ?b")
    case True
    then show thesis using sb(3) [OF True] that rf(5) pl1 by (auto simp: store_call_def)
  next
    case False
    have "put_at (ptr + k * pw) ?cs xs = xs" using False by (simp add: put_at_def chunks_of_def)
    then show thesis using that [of "pl_store pl"] pool_relD(2) [OF r] False rf(5) pl1 by simp
  qed
  let ?pl4 = "grow_next_size (8 * pw) (pl1\<lparr>pl_store := s'\<rparr>)"
  have "pl_mem ?pl4 ! a = pl_mem pl ! a" if h: "a \<notin> set (bchunks pw ?b) \<union> set xs" for a
  proof -
    have "a \<notin> set ?cs \<union> set xs" using h sb(1) by auto
    then show ?thesis using s'(3) by simp
  qed
  then obtain pl5 where pl5: "insert_node ?b ?pl4 = Some pl5"
      "pool_rel pw pl5 (put_block ?b bs) (put_at (ptr + k * pw) ?cs xs) (chunks_of pw ptr k @ held)" "erase pl5 = erase ?pl4" "kept pw held pl pl5"
    using attach_block(1) [OF r fb, of ?pl4 "put_at (ptr + k * pw) ?cs xs" "chunks_of pw ptr k @ held"] s'(1,2) sb(2) pl1 by auto
  have "ordered_malloc_n um n pl = Some (ptr, pl5)"
    using d(1) rq p k(3) al call pl5(1) by (cases "k < next_size pl1") (simp_all add: ordered_malloc_n_def kk Let_def del: grow_simps)
  then show "\<exists>pl'. ordered_malloc_n um n pl = Some (ptr, pl') \<and> erase pl' = grow_next_size (8 * pw) (erase pl1) \<and> kept pw held pl pl'
      \<and> pool_rel pw pl' (put_block (ptr, S) bs) (put_at (ptr + k * pw) (chunks_of pw (ptr + k * pw) (num_in pw (ptr, S) - k)) xs)
          (chunks_of pw ptr k @ held)"
    using pl5(2-4) s'(2) pl1 by auto
qed

end
