(* ===== verification/Pool_Release.thy ===== *)
theory Pool_Release
  imports Pool_Members
begin

text \<open>
  \<^verbatim>\<open>release_memory\<close> and \<^verbatim>\<open>purge_memory\<close>: the two walks over the list of blocks that give memory back to the user
  allocator. A block that has been given back may hold anything: the proofs show that it is not read again.
\<close>

definition first_of :: "nat list \<Rightarrow> nat" where
  "first_of xs = (case xs of [] \<Rightarrow> 0 | x # _ \<Rightarrow> x)"

definition last_of :: "nat list \<Rightarrow> nat" where
  "last_of xs = (if xs = [] then 0 else last xs)"

definition last_block :: "PODptr list \<Rightarrow> PODptr" where
  "last_block bs = (if bs = [] then (0, 0) else last bs)"

lemma first_of_simps [simp]: "first_of [] = 0" "first_of (x # xs) = x"
  by (simp_all add: first_of_def)

lemma path_first: "path m p xs 0 \<Longrightarrow> p = first_of xs"
  unfolding first_of_def by (rule path_start)

subsection \<open>The two inner loops\<close>

text \<open>Are the next chunks of the free list all the chunks of the block?\<close>

lemma all_chunks_loop_path:
  assumes "path (sss_mem s) free_p ys 0" and "p \<noteq> 0" and pw: "0 < pw"
  shows "all_chunks_loop pw sf p (p + k * pw) free_p s =
    Some (if take k ys = chunks_of pw p k then (True, first_of (drop k ys)) else (False, sf))"
  using assms(1,2)
proof (induction k arbitrary: p free_p ys)
  case 0
  then show ?case using path_first by (simp add: all_chunks_loop.simps chunks_of_def)
next
  case (Suc k)
  have ne: "p \<noteq> p + Suc k * pw" and next_end: "p + Suc k * pw = (p + pw) + k * pw" using pw by simp_all
  show ?case
  proof (cases ys)
    case Nil
    then show ?thesis using Suc.prems ne by (simp add: all_chunks_loop.simps [of pw sf p] chunks_Suc)
  next
    case (Cons y zs)
    then have y: "free_p = y" "nextof y s = Some (sss_mem s ! y)" and zs: "path (sss_mem s) (sss_mem s ! y) zs 0"
      using Suc.prems(1) by (auto simp: nextof_eq)
    have "all_chunks_loop pw sf (p + pw) (p + pw + k * pw) (sss_mem s ! y) s =
        Some (if take k zs = chunks_of pw (p + pw) k then (True, first_of (drop k zs)) else (False, sf))"
      by (rule Suc.IH [OF zs]) (use Suc.prems(2) in simp)
    then show ?thesis using ne y Cons unfolding next_end
      by (auto simp: all_chunks_loop.simps [of pw sf p] chunks_Suc)
  qed
qed

text \<open>The free chunks of the block are passed over.\<close>

lemma skip_block_loop_path:
  assumes "path (sss_mem s) y (y # ys) 0"
  shows "skip_block_loop e y s = Some (last (y # takeWhile (\<lambda>x. x < e) ys), first_of (dropWhile (\<lambda>x. x < e) ys))"
  using assms
proof (induction ys arbitrary: y)
  case Nil
  then show ?case by (simp add: skip_block_loop.simps [of e y] nextof_eq)
next
  case (Cons z zs)
  then show ?case by (auto simp: skip_block_loop.simps [of e y] nextof_eq)
qed

subsection \<open>Unlinking a block\<close>

lemma unlink_block:
  assumes us: "podpath (pl_mem pl) (pl_list pl) us b" and vs: "podpath (pl_mem pl) b (b # vs) q"
    and ok: "blocks_ok pw (length (pl_mem pl)) (us @ b # vs)"
    and nxt: "nxt = (pl_mem pl ! pod_end b, pl_mem pl ! Suc (pod_end b))"
  shows "\<exists>pl1. (if pod_valid (last_block us) then store_call (set_pod_next (last_block us) nxt (pl_store pl)) pl
                else Some (pl\<lparr>pl_list := nxt\<rparr>)) = Some pl1
    \<and> podpath (pl_mem pl1) (pl_list pl1) us nxt \<and> podpath (pl_mem pl1) nxt vs q \<and> links_only pl pl1 (set us)"
proof (cases us rule: rev_cases)
  case Nil
  then show ?thesis using vs nxt by (simp add: last_block_def pod_valid_def links_only_def)
next
  case (snoc ts c)
  note ob = blocks_okD [OF ok]
  have c: "block_ok pw (length (pl_mem pl)) c" "c \<in> set us" "fst c \<noteq> 0" using ob(2) [of c] snoc by (auto simp: block_ok_def)
  have part: "block_ok pw (length (pl_mem pl)) x \<and> blocks_apart c x" if "x \<in> set ts \<union> set vs" for x
    using that ob(1) ob(2) [of x] ob(3) [of c x] snoc by auto
  let ?m = "set_links c nxt (pl_mem pl)" and ?pl = "pl\<lparr>pl_store := (pl_store pl)\<lparr>sss_mem := set_links c nxt (pl_mem pl)\<rparr>\<rparr>"
  have "store_call (set_pod_next c nxt (pl_store pl)) pl = Some ?pl" by (simp add: store_call_def set_pod_next_eq [OF c(1)])
  moreover have "podpath ?m (pl_list pl) (ts @ [c]) nxt"
    by (rule podpath_relink [of "pl_mem pl" "pl_list pl" ts c b])
      (use us snoc set_links_at [OF c(1), of nxt] set_links_other [OF c(1)] part in auto)
  moreover have "podpath ?m nxt vs q"
    by (rule podpath_set_links [OF _ c(1)]) (use vs nxt part in auto)
  moreover have "links_only pl ?pl (set us)" using c(2) by (auto simp: links_only_def)
  ultimately show ?thesis using snoc c(3) by (intro exI [of _ ?pl]) (simp add: last_block_def pod_valid_def)
qed

lemma user_free_simps [simp]:
  "pl_list (user_free junk b pl) = pl_list pl" "length (pl_mem (user_free junk b pl)) = length (pl_mem pl)"
  "sss_first (pl_store (user_free junk b pl)) = sss_first (pl_store pl)"
  "erase (user_free junk b pl) = (erase pl)\<lparr>pl_released := pl_released pl @ [fst b]\<rparr>"
  by (simp_all add: user_free_def Let_def erase_def)

lemma user_free_other:
  assumes "a < length (pl_mem pl)" and "a < fst b \<or> fst b + snd b div 8 \<le> a"
  shows "pl_mem (user_free junk b pl) ! a = pl_mem pl ! a"
  using assms by (auto simp: user_free_def Let_def)

text \<open>A block given back is outside the words that the rest of the pool uses.\<close>

lemma outside_block:
  assumes b: "block_ok pw msz b" and c: "block_ok pw msz c" and ap: "blocks_apart b c"
  shows "pod_end c < fst b \<or> fst b + snd b div 8 \<le> pod_end c"
    and "Suc (pod_end c) < fst b \<or> fst b + snd b div 8 \<le> Suc (pod_end c)"
    and "x \<in> set (bchunks pw c) \<Longrightarrow> x < fst b \<or> fst b + snd b div 8 \<le> x"
proof -
  note lc = block_layout(1,2) [OF c]
  show "pod_end c < fst b \<or> fst b + snd b div 8 \<le> pod_end c" "Suc (pod_end c) < fst b \<or> fst b + snd b div 8 \<le> Suc (pod_end c)"
    using ap lc by (auto simp: blocks_apart_def)
  show "x < fst b \<or> fst b + snd b div 8 \<le> x" if "x \<in> set (bchunks pw c)"
    using ap lc bchunks_range [OF that] by (auto simp: blocks_apart_def)
qed

lemma owned_append: "set (owned_of pw (us @ vs)) = set (owned_of pw us) \<union> set (owned_of pw vs)"
  by (simp add: set_owned_of)

lemma owned_Cons: "set (owned_of pw (b # vs)) = set (bchunks pw b) \<union> set (owned_of pw vs)"
  by (simp add: set_owned_of)

lemma well_kept_drop:
  assumes w: "well_kept pw (msz, fs @ bchunks pw b @ ys, held, owned_of pw (us @ b # vs))" and ok: "blocks_ok pw msz (us @ b # vs)"
  shows "well_kept pw (msz, fs @ ys, held, owned_of pw (us @ vs))" and "set (bchunks pw b) \<inter> set (owned_of pw (us @ vs)) = {}"
proof -
  note d = well_keptD [OF w] and ob = blocks_okD [OF ok]
  have own: "set (owned_of pw (us @ b # vs)) = set (bchunks pw b) \<union> set (owned_of pw (us @ vs))"
    by (auto simp: owned_append owned_Cons)
  show disj: "set (bchunks pw b) \<inter> set (owned_of pw (us @ vs)) = {}"
  proof -
    have "x \<notin> set (bchunks pw b)" if h: "x \<in> set (owned_of pw (us @ vs))" for x
    proof -
      obtain c where c: "c \<in> set (us @ vs)" "x \<in> set (bchunks pw c)" using h by (rule owned_ofE)
      then have "blocks_apart b c" "block_ok pw msz b" "block_ok pw msz c" using ob(1,2) ob(3) [of b c] by auto
      then show ?thesis using block_chunks_apart [of pw msz b c x x] c(2) d(1) by (auto simp: apart_def)
    qed
    then show ?thesis by blast
  qed
  have un: "set (fs @ ys) \<union> set held = set (owned_of pw (us @ vs))"
    using d(2,3,4) own disj by auto
  have sub: "x \<in> set (owned_of pw (us @ b # vs))" if "x \<in> set (owned_of pw (us @ vs))" for x using that own by simp
  have "well_kept pw (msz, fs @ ys, held, owned_of pw (us @ vs)) \<longleftrightarrow> (\<forall>a \<in> set (owned_of pw (us @ vs)).
      a \<noteq> 0 \<and> a + pw \<le> msz \<and> (\<forall>b \<in> set (owned_of pw (us @ vs)). a \<noteq> b \<longrightarrow> apart pw a b))"
    using un d(1,2,4) by (auto simp: well_kept_def)
  then show "well_kept pw (msz, fs @ ys, held, owned_of pw (us @ vs))" using d(5,6) [OF sub] sub by metis
qed

lemma relink_free:
  assumes f: "free_list (pl_store pl) (fs @ zs @ ys)"
  shows "\<exists>pl'. (if last_of fs \<noteq> 0 then store_call (set_nextof (last_of fs) (first_of ys) (pl_store pl)) pl
       else Some (pl\<lparr>pl_store := (pl_store pl)\<lparr>sss_first := first_of ys\<rparr>\<rparr>)) = Some pl'
    \<and> free_list (pl_store pl') (fs @ ys) \<and> length (pl_mem pl') = length (pl_mem pl) \<and> pl_list pl' = pl_list pl \<and> erase pl' = erase pl
    \<and> (\<forall>a. a \<notin> set fs \<longrightarrow> pl_mem pl' ! a = pl_mem pl ! a) \<and> pl_released pl' = pl_released pl"
proof -
  obtain q where q: "path (pl_mem pl) q ys 0" using f by (auto simp: free_list_def path_append)
  then have "q = first_of ys" by (rule path_first)
  then obtain s' where s': "set_nextof_place (place_after fs) (first_of ys) (pl_store pl) = Some s'" "free_list s' (fs @ ys)"
    "length (sss_mem s') = length (pl_mem pl)" "\<forall>a. a \<notin> set fs \<longrightarrow> sss_mem s' ! a = pl_mem pl ! a"
    using set_nextof_place_after [OF f q] by blast
  have "fs = [] \<longleftrightarrow> last_of fs = 0"
    using f path_valid [of "pl_mem pl" _ "fs @ zs @ ys" 0 "last fs"] by (auto simp: last_of_def free_list_def)
  then have "(if last_of fs \<noteq> 0 then store_call (set_nextof (last_of fs) (first_of ys) (pl_store pl)) pl
       else Some (pl\<lparr>pl_store := (pl_store pl)\<lparr>sss_first := first_of ys\<rparr>\<rparr>)) = Some (pl\<lparr>pl_store := s'\<rparr>)"
    using s'(1) by (cases "fs = []") (auto simp: place_after_def store_call_def last_of_def)
  then show ?thesis using s' by (intro exI [of _ "pl\<lparr>pl_store := s'\<rparr>"]) simp
qed

lemma drop_block:
  assumes r: "pool_rel pw pl (us @ b # vs) (fs @ bchunks pw b @ ys) held"
    and us: "podpath (pl_mem pl) (pl_list pl) us b" and vs: "podpath (pl_mem pl) b (b # vs) q" and q: "fst q = 0"
    and nxt: "nxt = (pl_mem pl ! pod_end b, pl_mem pl ! Suc (pod_end b))"
  shows "\<exists>pl1 pl2. (if pod_valid (last_block us) then store_call (set_pod_next (last_block us) nxt (pl_store pl)) pl
                else Some (pl\<lparr>pl_list := nxt\<rparr>)) = Some pl1
    \<and> (if last_of fs \<noteq> 0 then store_call (set_nextof (last_of fs) (first_of ys) (pl_store pl1)) pl1
       else Some (pl1\<lparr>pl_store := (pl_store pl1)\<lparr>sss_first := first_of ys\<rparr>\<rparr>)) = Some pl2
    \<and> pool_rel pw (user_free junk b pl2) (us @ vs) (fs @ ys) held
    \<and> podpath (pl_mem (user_free junk b pl2)) (pl_list (user_free junk b pl2)) us nxt
    \<and> podpath (pl_mem (user_free junk b pl2)) nxt vs q
    \<and> erase (user_free junk b pl2) = (erase pl)\<lparr>pl_released := pl_released pl @ [fst b]\<rparr>
    \<and> kept pw held pl (user_free junk b pl2)"
proof -
  note d = pool_relD [OF r] and ob = blocks_okD [OF pool_relD(3) [OF r]] and wd = well_kept_drop [OF pool_relD(4,3) [OF r]]
  obtain pl1 where pl1: "(if pod_valid (last_block us) then store_call (set_pod_next (last_block us) nxt (pl_store pl)) pl
                else Some (pl\<lparr>pl_list := nxt\<rparr>)) = Some pl1" "podpath (pl_mem pl1) (pl_list pl1) us nxt"
      "podpath (pl_mem pl1) nxt vs q" "links_only pl pl1 (set us)"
    using unlink_block [OF us vs d(3) nxt] by blast
  have len1: "length (pl_mem pl1) = length (pl_mem pl)" using pl1(4) by (simp add: links_only_def)
  have "pl_mem pl1 ! x = pl_mem pl ! x" if "x \<in> set (fs @ bchunks pw b @ ys)" for x
    using pl1(4) free_no_header [OF d(4,3) _ that] unfolding links_only_def by (metis UnCI set_append)
  then have "free_list ((pl_store pl)\<lparr>sss_mem := pl_mem pl1\<rparr>) (fs @ bchunks pw b @ ys)" using free_list_headers [OF d(2)] len1 by blast
  moreover have "pl_store pl1 = (pl_store pl)\<lparr>sss_mem := pl_mem pl1\<rparr>"
    using pl1(4) unfolding links_only_def by (metis pool.select_convs(1) pool.surjective pool.update_convs(1,2))
  ultimately have "free_list (pl_store pl1) (fs @ bchunks pw b @ ys)" by simp
  then obtain pl2 where pl2: "(if last_of fs \<noteq> 0 then store_call (set_nextof (last_of fs) (first_of ys) (pl_store pl1)) pl1
       else Some (pl1\<lparr>pl_store := (pl_store pl1)\<lparr>sss_first := first_of ys\<rparr>\<rparr>)) = Some pl2"
      "free_list (pl_store pl2) (fs @ ys)" "length (pl_mem pl2) = length (pl_mem pl1)" "pl_list pl2 = pl_list pl1" "erase pl2 = erase pl1"
      "\<forall>a. a \<notin> set fs \<longrightarrow> pl_mem pl2 ! a = pl_mem pl1 ! a"
    using relink_free by blast
  let ?pl = "user_free junk b pl2"
  have bo: "block_ok pw (length (pl_mem pl)) b" using ob(2) by simp
  have hdr: "pl_mem ?pl ! pod_end c = pl_mem pl1 ! pod_end c \<and> pl_mem ?pl ! Suc (pod_end c) = pl_mem pl1 ! Suc (pod_end c)"
    if c: "c \<in> set us \<union> set vs" for c
  proof -
    have co: "block_ok pw (length (pl_mem pl)) c" "blocks_apart b c" using c ob(1,2) ob(3) [of b c] by auto
    note out = outside_block [OF bo co] and lay = block_layout(5) [OF co(1)]
    have "pod_end c \<notin> set fs" "Suc (pod_end c) \<notin> set fs" using free_no_header [OF d(4,3), of c] c by fastforce+
    then show ?thesis using user_free_other [of _ pl2 b junk] out(1,2) lay len1 pl2(3,6) by simp
  qed
  have p: "podpath (pl_mem ?pl) (pl_list ?pl) us nxt" "podpath (pl_mem ?pl) nxt vs q"
    using podpath_frame [OF pl1(2), of "pl_mem ?pl"] podpath_frame [OF pl1(3), of "pl_mem ?pl"] hdr pl2(4) by auto
  have "pl_mem ?pl ! x = pl_mem pl2 ! x" if x: "x \<in> set (fs @ ys)" for x
  proof -
    have "x \<in> set (owned_of pw (us @ vs))" using well_keptD(7) [OF wd(1) x] .
    then obtain c where c: "c \<in> set (us @ vs)" "x \<in> set (bchunks pw c)" by (rule owned_ofE)
    have co: "block_ok pw (length (pl_mem pl)) c" "blocks_apart b c" using c ob(1,2) ob(3) [of b c] by auto
    have "x < length (pl_mem pl2)" using well_keptD(1) [OF wd(1)] well_keptD(5) [OF wd(1) well_keptD(7) [OF wd(1) x]] len1 pl2(3) by simp
    then show ?thesis using user_free_other outside_block(3) [OF bo co c(2)] by blast
  qed
  then have "path (pl_mem ?pl) (sss_first (pl_store pl2)) (fs @ ys) 0"
    using pl2(2) path_frame [of "pl_mem pl2" _ "fs @ ys" 0 "pl_mem ?pl"] by (simp add: free_list_def)
  then have f: "free_list (pl_store ?pl) (fs @ ys)" using pl2(2) by (simp add: free_list_def)
  have "blocks_ok pw (length (pl_mem ?pl)) (us @ vs)" using d(3) len1 pl2(3) by (auto simp: blocks_ok_def)
  then have rel: "pool_rel pw ?pl (us @ vs) (fs @ ys) held"
    unfolding pool_rel_def podpath_append using p q f wd(1) len1 pl2(3) by (intro conjI exI [of _ q] exI [of _ nxt]) simp_all
  have e: "erase pl1 = erase pl" using links_only_erase [OF pl1(4)] .
  have "pl_released pl2 = pl_released pl" using arg_cong [OF pl2(5), of pl_released] arg_cong [OF e, of pl_released] by simp
  then have "erase ?pl = (erase pl)\<lparr>pl_released := pl_released pl @ [fst b]\<rparr>" using e pl2(5) by simp
  moreover have "kept pw held pl ?pl"
    unfolding kept_def
  proof (intro ballI allI impI)
    fix x off assume x: "x \<in> set held" "off < pw"
    note wh = well_keptD(8) [OF wd(1) x(1)]
    obtain c where c: "c \<in> set (us @ vs)" "x \<in> set (bchunks pw c)" using wh by (rule owned_ofE)
    have co: "block_ok pw (length (pl_mem pl)) c" "blocks_apart b c" using c ob(1,2) ob(3) [of b c] by auto
    have out: "x + off < fst b \<or> fst b + snd b div 8 \<le> x + off"
      using co(2) bchunks_range [OF c(2)] block_layout(1) [OF co(1)] x(2) by (auto simp: blocks_apart_def)
    have "x + off < length (pl_mem pl2)" using well_keptD(5) [OF wd(1) wh] x(2) len1 pl2(3) by simp
    then have "pl_mem ?pl ! (x + off) = pl_mem pl2 ! (x + off)" using user_free_other [OF _ out] by blast
    also have "\<dots> = pl_mem pl1 ! (x + off)" using pl2(6) held_no_free [OF wd(1) x] by simp
    also have "\<dots> = pl_mem pl ! (x + off)"
      using pl1(4) owned_no_header [OF d(3) _ well_keptD(8) [OF d(4) x(1)] x(2)] unfolding links_only_def by (metis UnCI set_append)
    finally show "pl_mem ?pl ! (x + off) = pl_mem pl ! (x + off)" .
  qed
  ultimately show ?thesis using pl1(1) pl2(1) rel p by blast
qed

subsection \<open>The loop over the blocks\<close>

definition all_free :: "nat \<Rightarrow> nat list \<Rightarrow> PODptr \<Rightarrow> bool" where
  "all_free pw xs b \<longleftrightarrow> set (bchunks pw b) \<subseteq> set xs"

definition without :: "nat \<Rightarrow> PODptr list \<Rightarrow> nat list \<Rightarrow> nat list" where
  "without pw bs xs = filter (\<lambda>x. x \<notin> set (owned_of pw bs)) xs"

lemma sorted_dropWhile_ge: "sorted xs \<Longrightarrow> x \<in> set (dropWhile (\<lambda>y. y < e) xs) \<Longrightarrow> (e :: nat) \<le> x"
  by (induction xs) (auto split: if_splits)

text \<open>The free chunks of the first block come first.\<close>

lemma split_at_block:
  assumes ok: "blocks_ok pw msz (b # vs)" and sb: "sorted (map fst (b # vs))" and pw: "0 < pw"
    and sy: "sorted ys" "distinct ys" and ys: "set ys \<subseteq> set (owned_of pw (b # vs))"
    and y1: "ys1 = takeWhile (\<lambda>x. x < pod_end b) ys" and y2: "ys2 = dropWhile (\<lambda>x. x < pod_end b) ys"
  shows "set ys1 \<subseteq> set (bchunks pw b)" and "set ys2 \<subseteq> set (owned_of pw vs)" and "ys = ys1 @ ys2"
    and "\<And>c. c \<in> set vs \<Longrightarrow> all_free pw ys c \<longleftrightarrow> all_free pw ys2 c"
    and "\<And>x. x \<in> set (owned_of pw vs) \<Longrightarrow> x \<notin> set (bchunks pw b)"
    and "take (num_in pw b) ys = bchunks pw b \<longleftrightarrow> all_free pw ys b"
    and "all_free pw ys b \<Longrightarrow> ys1 = bchunks pw b"
proof -
  note ob = blocks_okD [OF ok]
  have bo: "block_ok pw msz b" using ob(2) by simp
  have lo: "x < pod_end b" if "x \<in> set (bchunks pw b)" for x
    using bchunks_range [OF that] block_layout(2) [OF bo] pw by simp
  have hi: "pod_end b \<le> x" if x: "x \<in> set (bchunks pw c)" and c: "c \<in> set vs" for x c
  proof -
    have "fst b \<le> fst c" "blocks_apart b c" "block_ok pw msz c" using c sb ob(1) ob(2) [of c] ob(3) [of b c] by auto
    then show ?thesis
      using bchunks_range [OF x] block_layout(1,2) [OF bo] block_layout(1) [of pw msz c] by (auto simp: blocks_apart_def)
  qed
  have hio: "pod_end b \<le> x" if h: "x \<in> set (owned_of pw vs)" for x
  proof -
    obtain c where "c \<in> set vs" "x \<in> set (bchunks pw c)" using h by (rule owned_ofE)
    then show ?thesis using hi by blast
  qed
  show eq: "ys = ys1 @ ys2" by (simp add: y1 y2)
  have ge: "pod_end b \<le> x" if "x \<in> set ys2" for x using sorted_dropWhile_ge [OF sy(1)] that y2 by blast
  have lt: "x < pod_end b" if "x \<in> set ys1" for x using that set_takeWhileD y1 by fastforce
  have own: "x \<in> set (bchunks pw b) \<or> x \<in> set (owned_of pw vs)" if "x \<in> set ys" for x
    using that ys unfolding owned_Cons by blast
  show s1: "set ys1 \<subseteq> set (bchunks pw b)" using own hio lt eq by fastforce
  show s2: "set ys2 \<subseteq> set (owned_of pw vs)" using own lo ge eq by fastforce
  show "x \<notin> set (bchunks pw b)" if "x \<in> set (owned_of pw vs)" for x using hio [OF that] lo [of x] by auto
  show "all_free pw ys c \<longleftrightarrow> all_free pw ys2 c" if c: "c \<in> set vs" for c
    using hi [OF _ c] lt eq unfolding all_free_def by fastforce
  have db: "distinct (bchunks pw b)" "sorted (bchunks pw b)" unfolding bchunks_def by (simp_all add: distinct_chunks [OF pw] sorted_chunks)
  show full: "ys1 = bchunks pw b" if "all_free pw ys b"
  proof (rule sorted_distinct_set_unique)
    show "sorted ys1" "distinct ys1" using sy unfolding y1 by (simp_all add: sorted_takeWhile distinct_takeWhile)
    show "set ys1 = set (bchunks pw b)" using that s1 lo ge eq unfolding all_free_def by fastforce
  qed (use db in simp_all)
  have len: "length (bchunks pw b) = num_in pw b" by (simp add: bchunks_def)
  show "take (num_in pw b) ys = bchunks pw b \<longleftrightarrow> all_free pw ys b"
  proof
    assume "take (num_in pw b) ys = bchunks pw b"
    then show "all_free pw ys b" using set_take_subset [of "num_in pw b" ys] by (simp add: all_free_def)
  next
    assume "all_free pw ys b"
    then show "take (num_in pw b) ys = bchunks pw b" using full len eq by simp
  qed
qed

text \<open>A block with chunks in use stays; the iterators move past its free chunks.\<close>

lemma skip_free:
  assumes ok: "blocks_ok pw msz (b # vs)" and sb: "sorted (map fst (b # vs))" and pw: "0 < pw"
    and sy: "sorted ys" "distinct ys" and ys: "set ys \<subseteq> set (owned_of pw (b # vs))" "ys \<noteq> []"
    and p: "path (sss_mem s) (first_of ys) ys 0"
  shows "(if is_from_block (first_of ys) (fst b) (element_size b) then skip_block_loop (pod_end b) (first_of ys) s
          else Some (last_of fs, first_of ys)) =
    Some (last_of (fs @ takeWhile (\<lambda>x. x < pod_end b) ys), first_of (dropWhile (\<lambda>x. x < pod_end b) ys))"
proof -
  note sp = split_at_block [OF ok sb pw sy ys(1) refl refl]
  have bo: "block_ok pw msz b" using blocks_okD(2) [OF ok] by simp
  obtain y zs where y: "ys = y # zs" using ys(2) by (cases ys) auto
  have "y < pod_end b \<Longrightarrow> fst b \<le> y" using sp(1) y bchunks_range [of y pw b] by auto
  then have from_iff: "is_from_block y (fst b) (element_size b) \<longleftrightarrow> y < pod_end b"
    using block_layout(2,7) [OF bo] by (auto simp: is_from_block_def)
  show ?thesis using from_iff skip_block_loop_path [of s y zs "pod_end b"] p unfolding y by (auto simp: last_of_def)
qed

text \<open>The state of the loop: blocks and free chunks already passed, and those still ahead.\<close>

definition at_block :: "nat \<Rightarrow> pool \<Rightarrow> PODptr list \<Rightarrow> PODptr list \<Rightarrow> nat list \<Rightarrow> nat list \<Rightarrow> nat list \<Rightarrow> PODptr \<Rightarrow> bool" where
  "at_block pw pl us vs fs ys held ptr \<longleftrightarrow>
     pool_rel pw pl (us @ vs) (fs @ ys) held \<and> podpath (pl_mem pl) (pl_list pl) us ptr \<and>
     (\<exists>q. podpath (pl_mem pl) ptr vs q \<and> fst q = 0) \<and> sorted (map fst vs) \<and> sorted ys \<and> set ys \<subseteq> set (owned_of pw vs)"

lemma at_blockD:
  assumes "at_block pw pl us vs fs ys held ptr"
  shows "pool_rel pw pl (us @ vs) (fs @ ys) held" and "podpath (pl_mem pl) (pl_list pl) us ptr"
    and "\<exists>q. podpath (pl_mem pl) ptr vs q \<and> fst q = 0" and "sorted (map fst vs)" and "sorted ys" and "set ys \<subseteq> set (owned_of pw vs)"
    and "path (pl_mem pl) (first_of ys) ys 0" and "first_of ys = 0 \<longleftrightarrow> ys = []" and "distinct ys"
    and "blocks_ok pw (length (pl_mem pl)) vs" and "0 < pw"
proof -
  show r: "pool_rel pw pl (us @ vs) (fs @ ys) held" and "podpath (pl_mem pl) (pl_list pl) us ptr"
    "\<exists>q. podpath (pl_mem pl) ptr vs q \<and> fst q = 0" "sorted (map fst vs)" "sorted ys" "set ys \<subseteq> set (owned_of pw vs)"
    using assms by (simp_all add: at_block_def)
  note d = pool_relD [OF r]
  obtain p where "path (pl_mem pl) p ys 0" using d(2) by (auto simp: free_list_def path_append)
  then show p: "path (pl_mem pl) (first_of ys) ys 0" using path_first by metis
  show "first_of ys = 0 \<longleftrightarrow> ys = []" using p by (cases ys) auto
  show "distinct ys" "0 < pw" using d(2,5) by (simp_all add: free_list_def)
  show "blocks_ok pw (length (pl_mem pl)) vs" using d(3) by (auto simp: blocks_ok_def)
qed

lemma without_skip:
  assumes "set ys1 \<subseteq> set (bchunks pw b)" and "\<And>x. x \<in> set (owned_of pw vs) \<Longrightarrow> x \<notin> set (bchunks pw b)" and "set bs \<subseteq> set vs"
  shows "without pw bs ys1 = ys1"
proof -
  have "x \<notin> set (owned_of pw bs)" if "x \<in> set ys1" for x using that assms unfolding set_owned_of by blast
  then show ?thesis by (simp add: without_def)
qed

lemma without_append: "without pw bs (xs @ ys) = without pw bs xs @ without pw bs ys"
  by (simp add: without_def)

lemma release_step:
  assumes a: "at_block pw pl us (b # vs) fs ys held ptr" and ne: "ys \<noteq> []"
    and y1: "ys1 = takeWhile (\<lambda>x. x < pod_end b) ys" and y2: "ys2 = dropWhile (\<lambda>x. x < pod_end b) ys"
  shows "\<not> all_free pw ys b \<Longrightarrow> \<exists>nxt. at_block pw pl (us @ [b]) vs (fs @ ys1) ys2 held nxt
      \<and> release_loop junk pw ptr (last_block us) (first_of ys) (last_of fs) ret pl
        = release_loop junk pw nxt (last_block (us @ [b])) (first_of ys2) (last_of (fs @ ys1)) ret pl"
    and "all_free pw ys b \<Longrightarrow> \<exists>nxt pl'. at_block pw pl' us vs fs ys2 held nxt
      \<and> erase pl' = (erase pl)\<lparr>pl_released := pl_released pl @ [fst b]\<rparr> \<and> kept pw held pl pl'
      \<and> release_loop junk pw ptr (last_block us) (first_of ys) (last_of fs) ret pl
        = release_loop junk pw nxt (last_block us) (first_of ys2) (last_of fs) True pl'"
proof -
  note d = at_blockD [OF a]
  note sp = split_at_block [OF d(10,4,11,5,9,6) y1 y2]
  have bo: "block_ok pw (length (pl_mem pl)) b" using blocks_okD(2) [OF d(10)] by simp
  obtain q where q: "podpath (pl_mem pl) ptr (b # vs) q" "fst q = 0" using d(3) by blast
  then have ptr: "ptr = b" "pod_valid ptr" using bo by (auto simp: pod_valid_def)
  let ?nxt = "(pl_mem pl ! pod_end b, pl_mem pl ! Suc (pod_end b))"
  have nx: "pod_next b (pl_store pl) = Some ?nxt" using pod_next_eq [OF bo] .
  have ac: "all_chunks_loop pw (first_of ys) (fst b) (pod_end b) (first_of ys) (pl_store pl) =
      Some (if all_free pw ys b then (True, first_of (drop (num_in pw b) ys)) else (False, first_of ys))"
    using all_chunks_loop_path [OF d(7), of "fst b" pw "first_of ys" "num_in pw b"] bo sp(6) d(11) block_layout(2) [OF bo]
    by (simp add: block_ok_def bchunks_def)
  have sorted: "sorted (map fst vs)" "sorted ys2" using d(4,5) y2 by (simp_all add: sorted_dropWhile)
  have lb: "last_block (us @ [b]) = b" by (simp add: last_block_def)
  have go: "\<not> (\<not> pod_valid ptr \<or> first_of ys = 0)" using ptr(2) d(8) ne by simp
  show "\<exists>nxt. at_block pw pl (us @ [b]) vs (fs @ ys1) ys2 held nxt
      \<and> release_loop junk pw ptr (last_block us) (first_of ys) (last_of fs) ret pl
        = release_loop junk pw nxt (last_block (us @ [b])) (first_of ys2) (last_of (fs @ ys1)) ret pl" if nf: "\<not> all_free pw ys b"
  proof (intro exI conjI)
    show "at_block pw pl (us @ [b]) vs (fs @ ys1) ys2 held ?nxt"
      unfolding at_block_def podpath_append using d(1,2) q sp(2,3) sorted bo ptr(1)
      by (intro conjI exI [of _ q] exI [of _ b]) (simp_all add: block_ok_def)
    show "release_loop junk pw ptr (last_block us) (first_of ys) (last_of fs) ret pl
        = release_loop junk pw ?nxt (last_block (us @ [b])) (first_of ys2) (last_of (fs @ ys1)) ret pl"
      using go ac nf nx skip_free [OF d(10,4,11,5,9,6) ne d(7), of fs]
      unfolding ptr(1) release_loop.simps [of junk pw b "last_block us"] y1 y2 by (simp add: lb)
  qed
  assume f: "all_free pw ys b"
  have ys: "ys = bchunks pw b @ ys2" using sp(3) sp(7) [OF f] by simp
  have len: "length (bchunks pw b) = num_in pw b" by (simp add: bchunks_def)
  have rel: "pool_rel pw pl (us @ b # vs) (fs @ bchunks pw b @ ys2) held" using d(1) ys by simp
  have us: "podpath (pl_mem pl) (pl_list pl) us b" and vs: "podpath (pl_mem pl) b (b # vs) q" using d(2) q(1) ptr(1) by simp_all
  obtain pl1 pl2 where pl2: "(if pod_valid (last_block us) then store_call (set_pod_next (last_block us) ?nxt (pl_store pl)) pl
                else Some (pl\<lparr>pl_list := ?nxt\<rparr>)) = Some pl1"
      "(if last_of fs \<noteq> 0 then store_call (set_nextof (last_of fs) (first_of ys2) (pl_store pl1)) pl1
       else Some (pl1\<lparr>pl_store := (pl_store pl1)\<lparr>sss_first := first_of ys2\<rparr>\<rparr>)) = Some pl2"
    and pl3: "pool_rel pw (user_free junk b pl2) (us @ vs) (fs @ ys2) held"
      "podpath (pl_mem (user_free junk b pl2)) (pl_list (user_free junk b pl2)) us ?nxt"
      "podpath (pl_mem (user_free junk b pl2)) ?nxt vs q"
      "erase (user_free junk b pl2) = (erase pl)\<lparr>pl_released := pl_released pl @ [fst b]\<rparr>" "kept pw held pl (user_free junk b pl2)"
    using drop_block [OF rel us vs q(2) refl, of junk] by blast
  have "at_block pw (user_free junk b pl2) us vs fs ys2 held ?nxt"
    unfolding at_block_def using pl3(1-3) q(2) sorted sp(2) by blast
  moreover have "release_loop junk pw ptr (last_block us) (first_of ys) (last_of fs) ret pl
      = release_loop junk pw ?nxt (last_block us) (first_of ys2) (last_of fs) True (user_free junk b pl2)"
    using go ac f nx pl2 ys len unfolding ptr(1) release_loop.simps [of junk pw b "last_block us"] by (simp del: user_free_simps)
  ultimately show "\<exists>nxt pl'. at_block pw pl' us vs fs ys2 held nxt
      \<and> erase pl' = (erase pl)\<lparr>pl_released := pl_released pl @ [fst b]\<rparr> \<and> kept pw held pl pl'
      \<and> release_loop junk pw ptr (last_block us) (first_of ys) (last_of fs) ret pl
        = release_loop junk pw nxt (last_block us) (first_of ys2) (last_of fs) True pl'"
    using pl3(4,5) by blast
qed

lemma release_loop_rel:
  assumes "at_block pw pl us vs fs ys held ptr"
  shows "\<exists>pl'. release_loop junk pw ptr (last_block us) (first_of ys) (last_of fs) ret pl =
      Some (ret \<or> filter (all_free pw ys) vs \<noteq> [], pl')
    \<and> pool_rel pw pl' (us @ filter (\<lambda>b. \<not> all_free pw ys b) vs) (fs @ without pw (filter (all_free pw ys) vs) ys) held
    \<and> erase pl' = (erase pl)\<lparr>pl_released := pl_released pl @ map fst (filter (all_free pw ys) vs)\<rparr> \<and> kept pw held pl pl'"
  using assms
proof (induction vs arbitrary: pl us fs ys ptr ret)
  case Nil
  note d = at_blockD [OF Nil]
  have "\<not> pod_valid ptr" using d(3) by (auto simp: pod_valid_def)
  then show ?case using d(1) by (simp add: release_loop.simps [of junk pw ptr] without_def owned_of_def kept_refl)
next
  case (Cons b vs)
  note d = at_blockD [OF Cons.prems]
  have nonempty: "bchunks pw c \<noteq> []" if "c \<in> set (b # vs)" for c
    using blocks_okD(2) [OF d(10) that] bchunks_Cons by fastforce
  show ?case
  proof (cases "ys = []")
    case True
    have none: "filter (all_free pw ys) (b # vs) = []" "filter (\<lambda>b. \<not> all_free pw ys b) (b # vs) = b # vs"
      using nonempty True unfolding filter_empty_conv filter_id_conv by (auto simp: all_free_def)
    have "release_loop junk pw ptr (last_block us) (first_of ys) (last_of fs) ret pl = Some (ret, pl)"
      using True by (simp add: release_loop.simps [of junk pw ptr])
    then show ?thesis unfolding none using d(1) by (simp add: without_def owned_of_def kept_refl)
  next
    case False
    define ys1 ys2 where "ys1 = takeWhile (\<lambda>x. x < pod_end b) ys" and "ys2 = dropWhile (\<lambda>x. x < pod_end b) ys"
    note sp = split_at_block [OF d(10,4,11,5,9,6) ys1_def ys2_def] and st = release_step [OF Cons.prems False ys1_def ys2_def, of junk ret]
    have same: "filter (all_free pw ys) vs = filter (all_free pw ys2) vs" "filter (\<lambda>b. \<not> all_free pw ys b) vs = filter (\<lambda>b. \<not> all_free pw ys2 b) vs"
      using sp(4) by (auto intro: filter_cong)
    let ?bs = "filter (all_free pw ys2) vs"
    have skip: "without pw ?bs ys1 = ys1" using sp(1,5) by (rule without_skip) auto
    show ?thesis
    proof (cases "all_free pw ys b")
      case nf: False
      then obtain nxt where nxt: "at_block pw pl (us @ [b]) vs (fs @ ys1) ys2 held nxt"
        "release_loop junk pw ptr (last_block us) (first_of ys) (last_of fs) ret pl
          = release_loop junk pw nxt (last_block (us @ [b])) (first_of ys2) (last_of (fs @ ys1)) ret pl" using st(1) by blast
      have "without pw ?bs ys = ys1 @ without pw ?bs ys2" using skip sp(3) without_append by metis
      then show ?thesis using Cons.IH [OF nxt(1), of ret] nxt(2) nf same by simp
    next
      case f: True
      then obtain nxt pl1 where nxt: "at_block pw pl1 us vs fs ys2 held nxt"
        "erase pl1 = (erase pl)\<lparr>pl_released := pl_released pl @ [fst b]\<rparr>" "kept pw held pl pl1"
        "release_loop junk pw ptr (last_block us) (first_of ys) (last_of fs) ret pl
          = release_loop junk pw nxt (last_block us) (first_of ys2) (last_of fs) True pl1" using st(2) by blast
      have rl: "pl_released pl1 = pl_released pl @ [fst b]" using arg_cong [OF nxt(2), of pl_released] by simp
      have "without pw (b # ?bs) ys1 = []" using sp(1) by (auto simp: without_def owned_Cons filter_empty_conv)
      moreover have "without pw (b # ?bs) ys2 = without pw ?bs ys2"
        unfolding without_def using sp(2,5) by (intro filter_cong) (auto simp: owned_Cons)
      ultimately have "without pw (b # ?bs) ys = without pw ?bs ys2" using sp(3) without_append by (metis append_Nil)
      then show ?thesis using Cons.IH [OF nxt(1), of True] nxt(2,4) f same rl kept_trans [OF nxt(3)] by auto
    qed
  qed
qed

text \<open>Exactly the blocks all of whose chunks are free are given back, in the order of their addresses.\<close>

lemma release_memory_rel:
  assumes r: "pool_rel pw pl bs xs held" and a: "alloc_size pl = Some (8 * pw)" and "sorted (map fst bs)" and "sorted xs"
  shows "\<exists>pl'. release_memory junk pl = Some (filter (all_free pw xs) bs \<noteq> [], pl')
    \<and> pool_rel pw pl' (filter (\<lambda>b. \<not> all_free pw xs b) bs) (without pw (filter (all_free pw xs) bs) xs) held
    \<and> erase pl' = (erase pl)\<lparr>pl_released := pl_released pl @ map fst (filter (all_free pw xs) bs), next_size := start_size pl\<rparr> \<and> kept pw held pl pl'"
proof -
  note d = pool_relD [OF r]
  have "set xs \<subseteq> set (owned_of pw bs)" using well_keptD(7) [OF d(4)] by blast
  then have "at_block pw pl [] bs [] xs held (pl_list pl)" unfolding at_block_def using r assms(3,4) d(1) by simp
  from release_loop_rel [OF this, of junk False] obtain pl' where
    pl': "release_loop junk pw (pl_list pl) (0, 0) (first_of xs) 0 False pl = Some (filter (all_free pw xs) bs \<noteq> [], pl')"
      "pool_rel pw pl' (filter (\<lambda>b. \<not> all_free pw xs b) bs) (without pw (filter (all_free pw xs) bs) xs) held"
      "erase pl' = (erase pl)\<lparr>pl_released := pl_released pl @ map fst (filter (all_free pw xs) bs)\<rparr>" "kept pw held pl pl'"
    by (auto simp: last_block_def last_of_def)
  have "sss_first (pl_store pl) = first_of xs" using d(2) path_first by (auto simp: free_list_def)
  moreover have "start_size pl' = start_size pl" using arg_cong [OF pl'(3), of start_size] by simp
  ultimately show ?thesis using a pl' by (simp add: release_memory_def kept_def)
qed

subsection \<open>Giving everything back\<close>

lemma purge_loop_rel:
  assumes "podpath (pl_mem pl) b (b # vs) q" and "fst q = 0" and "blocks_ok pw (length (pl_mem pl)) (b # vs)"
  shows "\<exists>pl'. purge_loop junk b pl = Some pl' \<and> length (pl_mem pl') = length (pl_mem pl)
    \<and> pl_list pl' = pl_list pl \<and> erase pl' = (erase pl)\<lparr>pl_released := pl_released pl @ map fst (b # vs)\<rparr>"
  using assms
proof (induction vs arbitrary: b pl)
  case Nil
  have bo: "block_ok pw (length (pl_mem pl)) b" using blocks_okD(2) [OF Nil.prems(3)] by simp
  show ?case using Nil.prems pod_next_eq [OF bo] by (simp add: purge_loop.simps [of junk b] pod_valid_def)
next
  case (Cons c vs)
  note ob = blocks_okD [OF Cons.prems(3)]
  have bo: "block_ok pw (length (pl_mem pl)) b" using ob(2) by simp
  have c: "(pl_mem pl ! pod_end b, pl_mem pl ! Suc (pod_end b)) = c" "fst c \<noteq> 0" and path: "podpath (pl_mem pl) c (c # vs) q"
    using Cons.prems(1) by auto
  let ?pl = "user_free junk b pl"
  have hdr: "pl_mem ?pl ! pod_end x = pl_mem pl ! pod_end x \<and> pl_mem ?pl ! Suc (pod_end x) = pl_mem pl ! Suc (pod_end x)"
    if x: "x \<in> set (c # vs)" for x
  proof -
    have xo: "block_ok pw (length (pl_mem pl)) x" "blocks_apart b x" using x ob(1,2) ob(3) [of b x] by auto
    note out = outside_block(1,2) [OF bo xo] and lay = block_layout(5) [OF xo(1)]
    show ?thesis using user_free_other [OF _ out(1), of pl] user_free_other [OF _ out(2), of pl] lay by simp
  qed
  have path': "podpath (pl_mem ?pl) c (c # vs) q" by (rule podpath_frame [OF path]) (rule hdr)
  have ok': "blocks_ok pw (length (pl_mem ?pl)) (c # vs)" using Cons.prems(3) by (auto simp: blocks_ok_def)
  obtain pl' where pl': "purge_loop junk c ?pl = Some pl'" "length (pl_mem pl') = length (pl_mem ?pl)" "pl_list pl' = pl_list ?pl"
    "erase pl' = (erase ?pl)\<lparr>pl_released := pl_released ?pl @ map fst (c # vs)\<rparr>"
    using Cons.IH [OF path' Cons.prems(2) ok'] by blast
  have "pl_released ?pl = pl_released pl @ [fst b]" by (simp add: user_free_def Let_def)
  moreover have "purge_loop junk b pl = Some pl'"
    using pl'(1) pod_next_eq [OF bo] c by (simp add: purge_loop.simps [of junk b] pod_valid_def del: user_free_simps)
  ultimately show ?case using pl'(2-4) by simp
qed

lemma pool_rel_list:
  assumes "pool_rel pw pl bs xs held"
  shows "pod_valid (pl_list pl) \<longleftrightarrow> bs \<noteq> []" and "bs \<noteq> [] \<Longrightarrow> pl_list pl = hd bs"
  using pool_relD(1) [OF assms] by (cases bs; auto simp: pod_valid_def)+

lemma purge_memory_rel:
  assumes r: "pool_rel pw pl bs xs held"
  shows "bs = [] \<Longrightarrow> purge_memory junk pl = Some (False, pl)"
    and "bs \<noteq> [] \<Longrightarrow> \<exists>pl'. purge_memory junk pl = Some (True, pl') \<and> pool_rel pw pl' [] [] [] \<and> length (pl_mem pl') = length (pl_mem pl)
      \<and> erase pl' = (erase pl)\<lparr>pl_released := pl_released pl @ map fst bs, next_size := start_size pl\<rparr>"
proof -
  note d = pool_relD [OF r] and l = pool_rel_list [OF r]
  show "purge_memory junk pl = Some (False, pl)" if "bs = []" using that l(1) by (simp add: purge_memory_def)
  assume "bs \<noteq> []"
  then obtain b vs where bs: "bs = b # vs" by (cases bs) auto
  then have lb: "pl_list pl = b" "pod_valid b" using l by auto
  obtain q where "podpath (pl_mem pl) b (b # vs) q" "fst q = 0" using d(1) bs lb(1) by blast
  then obtain pl1 where pl1: "purge_loop junk b pl = Some pl1" "length (pl_mem pl1) = length (pl_mem pl)"
    "erase pl1 = (erase pl)\<lparr>pl_released := pl_released pl @ map fst bs\<rparr>"
    using purge_loop_rel [of pl b vs q pw junk] d(3) bs by blast
  let ?pl = "pl1\<lparr>pl_list := (0, snd (pl_list pl1)), pl_store := (pl_store pl1)\<lparr>sss_first := 0\<rparr>, next_size := start_size pl1\<rparr>"
  have "purge_memory junk pl = Some (True, ?pl)" using lb pl1(1) by (simp add: purge_memory_def)
  moreover have "pool_rel pw ?pl [] [] []"
    using d(5) by (simp add: pool_rel_def free_list_def blocks_ok_def well_kept_def owned_of_def)
  moreover have "start_size pl1 = start_size pl" using arg_cong [OF pl1(3), of start_size] by simp
  ultimately show "\<exists>pl'. purge_memory junk pl = Some (True, pl') \<and> pool_rel pw pl' [] [] [] \<and> length (pl_mem pl') = length (pl_mem pl)
      \<and> erase pl' = (erase pl)\<lparr>pl_released := pl_released pl @ map fst bs, next_size := start_size pl\<rparr>"
    using pl1(2,3) by (intro exI [of _ ?pl]) simp
qed

subsection \<open>Where a pointer comes from\<close>

lemma find_POD_loop_path:
  assumes "podpath (sss_mem s) b bs q" and "fst q = 0" and "\<And>c. c \<in> set bs \<Longrightarrow> block_ok pw (length (sss_mem s)) c"
  shows "find_POD_loop p b s = Some (case find (\<lambda>c. is_from_block p (fst c) (element_size c)) bs of None \<Rightarrow> q | Some c \<Rightarrow> c)"
  using assms
proof (induction bs arbitrary: b)
  case Nil
  then show ?case by (simp add: find_POD_loop.simps [of p q] pod_valid_def)
next
  case (Cons c cs)
  then have "pod_next c s = Some (sss_mem s ! pod_end c, sss_mem s ! Suc (pod_end c))" using pod_next_eq [of pw s c] by simp
  then show ?case using Cons by (simp add: find_POD_loop.simps [of p c] pod_valid_def)
qed

lemma is_from_rel:
  assumes r: "pool_rel pw pl bs xs held"
  shows "is_from p pl = Some (\<exists>b \<in> set bs. fst b \<le> p \<and> p < pod_end b)"
proof -
  note d = pool_relD [OF r] and ob = blocks_okD [OF pool_relD(3) [OF r]]
  obtain q where q: "podpath (pl_mem pl) (pl_list pl) bs q" "fst q = 0" using d(1) by blast
  let ?P = "\<lambda>c. is_from_block p (fst c) (element_size c)"
  have iff: "?P c \<longleftrightarrow> fst c \<le> p \<and> p < pod_end c" if "c \<in> set bs" for c
    using block_layout(2,7) [OF ob(2) [OF that]] by (simp add: is_from_block_def)
  have valid: "pod_valid c" if "c \<in> set bs" for c using ob(2) [OF that] by (simp add: block_ok_def pod_valid_def)
  have "is_from p pl = Some (pod_valid (case find ?P bs of None \<Rightarrow> q | Some c \<Rightarrow> c))"
    using find_POD_loop_path [OF q, of pw p] ob(2) by (simp add: is_from_def)
  moreover have "pod_valid (case find ?P bs of None \<Rightarrow> q | Some c \<Rightarrow> c) \<longleftrightarrow> (\<exists>b \<in> set bs. ?P b)"
  proof (cases "find ?P bs")
    case None
    then have "\<not> (\<exists>b \<in> set bs. ?P b)" using find_None_iff [of ?P bs] by blast
    then show ?thesis using None q(2) by (simp add: pod_valid_def)
  next
    case (Some c)
    then have "c \<in> set bs" "?P c" by (auto simp: find_Some_iff)
    then show ?thesis using Some valid by auto
  qed
  ultimately show ?thesis using iff by auto
qed

end
