(* ===== verification/Pool_Properties.thy ===== *)
theory Pool_Properties
  imports Pool_Release
begin

text \<open>
  A client of \<^verbatim>\<open>pool\<close> (\<^verbatim>\<open>pool/pool.hpp\<close>) and what it can rely on: the specification speaks of the blocks the pool
  owns, of the list of its free chunks and of the chunks in the client's hands; the memory, with the free list and
  the list of blocks threaded through it, is gone. Operations carry the answers of the user allocator.
\<close>

datatype pool_op =
    Pool_Malloc "nat \<Rightarrow> nat"
  | Pool_Ordered_Malloc "nat \<Rightarrow> nat"
  | Pool_Ordered_Malloc_N "nat \<Rightarrow> nat" nat
  | Pool_Free nat
  | Pool_Ordered_Free nat
  | Pool_Free_N nat nat
  | Pool_Ordered_Free_N nat nat
  | Pool_Release "nat \<Rightarrow> nat"
  | Pool_Purge "nat \<Rightarrow> nat"
  | Pool_Set_Next_Size nat
  | Pool_Set_Max_Size nat
  | Pool_Write nat nat nat

type_synonym pool_client = "pool \<times> nat list"

type_synonym pool_view = "pool \<times> PODptr list \<times> nat list \<times> nat list"

subsection \<open>The specification\<close>

definition pool_ordered :: "pool_view \<Rightarrow> bool" where
  "pool_ordered v = (case v of (e, bs, xs, held) \<Rightarrow> sorted (map fst bs) \<and> sorted xs)"

definition chunks_for :: "nat \<Rightarrow> nat \<Rightarrow> pool \<Rightarrow> nat" where
  "chunks_for pw n e = num_chunks_of n (requested_size e) (8 * pw)"

text \<open>
  The preconditions in the documentation of the members: a pointer passed to a \<^verbatim>\<open>free\<close> came from the pool and has not been freed,
  \<^verbatim>\<open>release_memory\<close> needs an ordered pool, and the user allocator answers with memory outside the pool. The
  bounds keep the sizes from wrapping around.
\<close>

fun pool_allowed :: "nat \<Rightarrow> pool_op \<Rightarrow> pool_view \<Rightarrow> bool" where
  "pool_allowed pw (Pool_Malloc um) (e, bs, xs, held) =
     user_ok (length (pl_mem e)) bs um (fst (snd (request_block um (8 * pw) e)))"
| "pool_allowed pw (Pool_Ordered_Malloc um) (e, bs, xs, held) =
     user_ok (length (pl_mem e)) bs um (fst (snd (request_block um (8 * pw) e)))"
| "pool_allowed pw (Pool_Ordered_Malloc_N um n) (e, bs, xs, held) =
     (n * requested_size e \<le> 2 ^ 61 \<and>
      user_ok (length (pl_mem e)) bs um (fst (snd (request_chunks um (chunks_for pw n e) (8 * pw) e))))"
| "pool_allowed pw (Pool_Free c) (e, bs, xs, held) = (c \<in> set held)"
| "pool_allowed pw (Pool_Ordered_Free c) (e, bs, xs, held) = (c \<in> set held)"
| "pool_allowed pw (Pool_Free_N p n) (e, bs, xs, held) = (set (chunks_of pw p (chunks_for pw n e)) \<subseteq> set held)"
| "pool_allowed pw (Pool_Ordered_Free_N p n) (e, bs, xs, held) = (set (chunks_of pw p (chunks_for pw n e)) \<subseteq> set held)"
| "pool_allowed pw (Pool_Release junk) v = pool_ordered v"
| "pool_allowed pw (Pool_Purge junk) v = True"
| "pool_allowed pw (Pool_Set_Next_Size n) v = (0 < n \<and> n * (8 * pw) \<le> 2 ^ 62)"
| "pool_allowed pw (Pool_Set_Max_Size n) (e, bs, xs, held) = (n * requested_size e < 2 ^ 64)"
| "pool_allowed pw (Pool_Write p off val) (e, bs, xs, held) = (p \<in> set held \<and> off < pw)"

text \<open>A chunk from the free list, or from a new block that \<open>link\<close> puts among the others.\<close>

definition malloc_effect ::
  "nat \<Rightarrow> (nat \<Rightarrow> nat) \<Rightarrow> (PODptr \<Rightarrow> PODptr list \<Rightarrow> PODptr list) \<Rightarrow> pool_view \<Rightarrow> pool_view" where
  "malloc_effect pw um link v = (case v of (e, bs, xs, held) \<Rightarrow>
     case xs of
       x # ys \<Rightarrow> (e, bs, ys, x # held)
     | [] \<Rightarrow> let (ptr, S, e1) = request_block um (8 * pw) e
            in if ptr = 0 then (e1, bs, [], held)
               else (grow_next_size (8 * pw) e1, link (ptr, S) bs, tl (bchunks pw (ptr, S)), ptr # held))"

text \<open>The first run of adjacent free chunks, or the front of a new block.\<close>

definition malloc_n_effect :: "nat \<Rightarrow> (nat \<Rightarrow> nat) \<Rightarrow> nat \<Rightarrow> pool_view \<Rightarrow> pool_view" where
  "malloc_n_effect pw um n v = (case v of (e, bs, xs, held) \<Rightarrow>
     let k = chunks_for pw n e
     in if n = 0 then v
        else case find (contiguous_at pw k xs) [0..<length xs] of
          Some i \<Rightarrow> (e, bs, take i xs @ drop (i + k) xs, take k (drop i xs) @ held)
        | None \<Rightarrow> let (ptr, S, e1) = request_chunks um k (8 * pw) e
            in if ptr = 0 then (e1, bs, xs, held)
               else (grow_next_size (8 * pw) e1, put_block (ptr, S) bs,
                     put_at (ptr + k * pw) (chunks_of pw (ptr + k * pw) (num_in pw (ptr, S) - k)) xs,
                     chunks_of pw ptr k @ held))"

definition release_effect :: "nat \<Rightarrow> pool_view \<Rightarrow> pool_view" where
  "release_effect pw v = (case v of (e, bs, xs, held) \<Rightarrow>
     let gone = filter (all_free pw xs) bs
     in (e\<lparr>pl_released := pl_released e @ map fst gone, next_size := start_size e\<rparr>,
         filter (\<lambda>b. \<not> all_free pw xs b) bs, without pw gone xs, held))"

fun pool_effect :: "nat \<Rightarrow> pool_op \<Rightarrow> pool_view \<Rightarrow> pool_view" where
  "pool_effect pw (Pool_Malloc um) v = malloc_effect pw um (#) v"
| "pool_effect pw (Pool_Ordered_Malloc um) v = malloc_effect pw um put_block v"
| "pool_effect pw (Pool_Ordered_Malloc_N um n) v = malloc_n_effect pw um n v"
| "pool_effect pw (Pool_Free c) (e, bs, xs, held) = (e, bs, c # xs, filter (\<lambda>x. x \<noteq> c) held)"
| "pool_effect pw (Pool_Ordered_Free c) (e, bs, xs, held) = (e, bs, put_at c [c] xs, filter (\<lambda>x. x \<noteq> c) held)"
| "pool_effect pw (Pool_Free_N p n) (e, bs, xs, held) =
     (let cs = chunks_of pw p (chunks_for pw n e) in (e, bs, cs @ xs, filter (\<lambda>x. x \<notin> set cs) held))"
| "pool_effect pw (Pool_Ordered_Free_N p n) (e, bs, xs, held) =
     (let cs = chunks_of pw p (chunks_for pw n e) in (e, bs, put_at p cs xs, filter (\<lambda>x. x \<notin> set cs) held))"
| "pool_effect pw (Pool_Release junk) v = release_effect pw v"
| "pool_effect pw (Pool_Purge junk) (e, bs, xs, held) =
     (if bs = [] then (e, bs, xs, held)
      else (e\<lparr>pl_released := pl_released e @ map fst bs, next_size := start_size e\<rparr>, [], [], []))"
| "pool_effect pw (Pool_Set_Next_Size n) (e, bs, xs, held) = (set_next_size n e, bs, xs, held)"
| "pool_effect pw (Pool_Set_Max_Size n) (e, bs, xs, held) = (set_max_size n e, bs, xs, held)"
| "pool_effect pw (Pool_Write p off val) v = v"

definition pool_spec :: "nat \<Rightarrow> pool_op \<Rightarrow> pool_view \<Rightarrow> pool_view option" where
  "pool_spec pw c v = (if pool_allowed pw c v then Some (pool_effect pw c v) else None)"

subsection \<open>The client\<close>

fun pod_walk :: "nat \<Rightarrow> nat list \<Rightarrow> PODptr \<Rightarrow> PODptr list" where
  "pod_walk 0 memory b = []"
| "pod_walk (Suc k) memory b =
     (if fst b = 0 then [] else b # pod_walk k memory (memory ! pod_end b, memory ! Suc (pod_end b)))"

fun pool_view :: "pool_client \<Rightarrow> pool_view" where
  "pool_view (pl, held) =
     (erase pl, pod_walk (length (pl_mem pl)) (pl_mem pl) (pl_list pl),
      walk (length (pl_mem pl)) (pl_mem pl) (sss_first (pl_store pl)), held)"

fun pool_call :: "nat \<Rightarrow> pool_op \<Rightarrow> pool_client \<Rightarrow> pool_client option" where
  "pool_call pw (Pool_Malloc um) (pl, held) =
     map_option (\<lambda>(p, pl1). (pl1, if p = 0 then held else p # held)) (pool_malloc um pl)"
| "pool_call pw (Pool_Ordered_Malloc um) (pl, held) =
     map_option (\<lambda>(p, pl1). (pl1, if p = 0 then held else p # held)) (pool_ordered_malloc um pl)"
| "pool_call pw (Pool_Ordered_Malloc_N um n) (pl, held) =
     map_option (\<lambda>(p, pl1). (pl1, if p = 0 then held else chunks_of pw p (chunks_for pw n pl) @ held)) (ordered_malloc_n um n pl)"
| "pool_call pw (Pool_Free c) (pl, held) = map_option (\<lambda>pl1. (pl1, filter (\<lambda>x. x \<noteq> c) held)) (pool_free c pl)"
| "pool_call pw (Pool_Ordered_Free c) (pl, held) = map_option (\<lambda>pl1. (pl1, filter (\<lambda>x. x \<noteq> c) held)) (pool_ordered_free c pl)"
| "pool_call pw (Pool_Free_N p n) (pl, held) =
     map_option (\<lambda>pl1. (pl1, filter (\<lambda>x. x \<notin> set (chunks_of pw p (chunks_for pw n pl))) held)) (pool_free_n p n pl)"
| "pool_call pw (Pool_Ordered_Free_N p n) (pl, held) =
     map_option (\<lambda>pl1. (pl1, filter (\<lambda>x. x \<notin> set (chunks_of pw p (chunks_for pw n pl))) held)) (pool_ordered_free_n p n pl)"
| "pool_call pw (Pool_Release junk) (pl, held) = map_option (\<lambda>(freed, pl1). (pl1, held)) (release_memory junk pl)"
| "pool_call pw (Pool_Purge junk) (pl, held) =
     map_option (\<lambda>(freed, pl1). (pl1, if freed then [] else held)) (purge_memory junk pl)"
| "pool_call pw (Pool_Set_Next_Size n) (pl, held) = Some (set_next_size n pl, held)"
| "pool_call pw (Pool_Set_Max_Size n) (pl, held) = Some (set_max_size n pl, held)"
| "pool_call pw (Pool_Write p off val) (pl, held) =
     Some (pl\<lparr>pl_store := (pl_store pl)\<lparr>sss_mem := (pl_mem pl)[p + off := val]\<rparr>\<rparr>, held)"

definition pool_exec :: "nat \<Rightarrow> pool_op \<Rightarrow> pool_client \<Rightarrow> pool_client option" where
  "pool_exec pw c st = (if pool_allowed pw c (pool_view st) then pool_call pw c st else None)"

definition pool_valid :: "nat \<Rightarrow> pool_client \<Rightarrow> bool" where
  "pool_valid pw st \<longleftrightarrow> (case (st, pool_view st) of ((pl, held), (e, bs, xs, _)) \<Rightarrow>
     pool_rel pw pl bs xs held \<and> sizes_ok pw (length (pl_mem pl)) pl)"

subsection \<open>Reading the specification's state off the memory\<close>

lemma pod_walk_path: "podpath memory b bs q \<Longrightarrow> fst q = 0 \<Longrightarrow> length bs \<le> k \<Longrightarrow> pod_walk k memory b = bs"
proof (induction bs arbitrary: b k)
  case Nil
  then show ?case by (cases k) auto
next
  case (Cons c bs)
  then show ?case by (cases k) auto
qed

lemma pool_rel_view:
  assumes r: "pool_rel pw pl bs xs held"
  shows "pool_view (pl, held) = (erase pl, bs, xs, held)"
proof -
  note d = pool_relD [OF r] and ob = blocks_okD [OF pool_relD(3) [OF r]]
  obtain q where q: "podpath (pl_mem pl) (pl_list pl) bs q" "fst q = 0" using d(1) by blast
  have "inj_on pod_end (set bs)" using header_distinct(1) ob(2,3) by (intro inj_onI) metis
  then have "card (pod_end ` set bs) = length bs" using ob(1) by (simp add: card_image distinct_card)
  moreover have "pod_end ` set bs \<subseteq> {..<length (pl_mem pl)}" using block_layout(5) [OF ob(2)] by fastforce
  ultimately have "length bs \<le> length (pl_mem pl)" using card_mono [of "{..<length (pl_mem pl)}" "pod_end ` set bs"] by simp
  then show ?thesis using pod_walk_path [OF q] free_list_walk [OF d(2)] by simp
qed

lemma pool_validI:
  assumes "pool_rel pw pl bs xs held" and "sizes_ok pw (length (pl_mem pl)) pl"
  shows "pool_valid pw (pl, held)" and "pool_view (pl, held) = (erase pl, bs, xs, held)"
  using assms pool_rel_view [OF assms(1)] by (simp_all add: pool_valid_def)

lemma pool_validE:
  assumes "pool_valid pw (pl, held)"
  obtains bs xs where "pool_rel pw pl bs xs held" and "sizes_ok pw (length (pl_mem pl)) pl"
    and "pool_view (pl, held) = (erase pl, bs, xs, held)"
  using assms by (auto simp: pool_valid_def)

subsection \<open>Refinement\<close>

lemma erase_erase [simp]: "erase (erase pl) = erase pl"
  by (simp add: erase_def storage_ctor_def)

lemma sizes_ok_erased [simp]: "sizes_ok pw msz (erase pl) = sizes_ok pw msz pl"
  by (rule sizes_ok_erase) simp

text \<open>A call that ends in the state the specification prescribes and leaves the client's chunks alone.\<close>

definition call_ok :: "nat \<Rightarrow> pool_client \<Rightarrow> pool_client option \<Rightarrow> pool_view option \<Rightarrow> bool" where
  "call_ok pw st r m \<longleftrightarrow> agrees (pool_valid pw) pool_view r m \<and>
     (case r of None \<Rightarrow> True | Some st' \<Rightarrow> kept pw (filter (\<lambda>p. p \<in> set (snd st')) (snd st)) (fst st) (fst st'))"

lemma call_okI:
  assumes "pool_rel pw pl' bs' xs' held'" and "erase pl' = e'" and "sizes_ok pw (length (pl_mem e')) e'"
    and "kept pw h pl pl'" and "set held \<inter> set held' \<subseteq> set h"
  shows "call_ok pw (pl, held) (Some (pl', held')) (Some (e', bs', xs', held'))"
proof -
  have "kept pw (filter (\<lambda>p. p \<in> set held') held) pl pl'" using assms(4,5) unfolding kept_def by auto
  then show ?thesis using pool_validI [OF assms(1)] assms(2,3) by (auto simp: call_ok_def)
qed

lemma malloc_agrees:
  assumes r: "pool_rel pw pl bs xs held" and s: "sizes_ok pw (length (pl_mem pl)) pl"
    and a: "user_ok (length (pl_mem pl)) bs um (fst (snd (request_block um (8 * pw) (erase pl))))"
  shows "call_ok pw (pl, held) (pool_call pw (Pool_Malloc um) (pl, held)) (Some (malloc_effect pw um (#) (erase pl, bs, xs, held)))"
    and "call_ok pw (pl, held) (pool_call pw (Pool_Ordered_Malloc um) (pl, held)) (Some (malloc_effect pw um put_block (erase pl, bs, xs, held)))"
proof -
  note d = pool_relD [OF r]
  have emp: "storage_empty (pl_store pl) \<longleftrightarrow> xs = []" using store_empty_list [OF d(2)] .
  have "call_ok pw (pl, held) (pool_call pw (Pool_Malloc um) (pl, held)) (Some (malloc_effect pw um (#) (erase pl, bs, xs, held)))
    \<and> call_ok pw (pl, held) (pool_call pw (Pool_Ordered_Malloc um) (pl, held)) (Some (malloc_effect pw um put_block (erase pl, bs, xs, held)))"
  proof (cases xs)
    case (Cons x ys)
    obtain pl' where pl': "store_alloc (storage_malloc (pl_store pl)) pl = Some (x, pl')" "pool_rel pw pl' bs ys (x # held)" "erase pl' = erase pl" "kept pw held pl pl'"
      using pool_take r Cons by blast
    have "x \<noteq> 0" using well_keptD(5) [OF d(4) well_keptD(7) [OF d(4)], of x] Cons by simp
    then show ?thesis using pl' emp Cons call_okI [OF pl'(2,3) _ pl'(4), of held] s
      by (simp add: pool_malloc_def pool_ordered_malloc_def malloc_effect_def)
  next
    case Nil
    obtain ptr S pl1 where rq: "request_block um (8 * pw) pl = (ptr, S, pl1)" by (cases "request_block um (8 * pw) pl") auto
    then have rqe: "request_block um (8 * pw) (erase pl) = (ptr, S, erase pl1)" by (simp add: request_erase)
    have u: "user_ok (length (pl_mem pl)) bs um S" using a rqe by simp
    have r0: "pool_rel pw pl bs [] held" using r Nil by simp
    note nr = need_resize [OF r0 s rq u] and rf = request_block_fresh [OF s rq u]
    have len: "length (pl_mem pl1) = length (pl_mem pl)" "pool_rel pw pl1 bs [] held" "kept pw held pl pl1" using rf(1) r0 by (auto simp: kept_refl)
    have mem: "length (pl_mem (grow_next_size (8 * pw) (erase pl1))) = length (pl_mem pl)" using len(1) by simp
    have sg: "sizes_ok pw (length (pl_mem pl)) (grow_next_size (8 * pw) (erase pl1))" if "ptr \<noteq> 0"
      using rf(4) [OF that] sizes_ok_erased grow_simps(3) by metis
    show ?thesis
    proof (cases "ptr = 0")
      case True
      then show ?thesis using nr(1) emp Nil rqe call_okI [OF len(2) refl _ len(3), of held] rf(2) len(1)
        by (simp add: pool_malloc_def pool_ordered_malloc_def malloc_effect_def)
    next
      case False
      obtain pl2 pl3 where pl2: "malloc_need_resize um pl = Some (ptr, pl2)"
          "pool_rel pw pl2 ((ptr, S) # bs) (tl (bchunks pw (ptr, S))) (ptr # held)" "erase pl2 = grow_next_size (8 * pw) (erase pl1)" "kept pw held pl pl2"
        and pl3: "ordered_malloc_need_resize um pl = Some (ptr, pl3)"
          "pool_rel pw pl3 (put_block (ptr, S) bs) (tl (bchunks pw (ptr, S))) (ptr # held)" "erase pl3 = grow_next_size (8 * pw) (erase pl1)" "kept pw held pl pl3"
        using nr(2,3) [OF False] by blast
      show ?thesis using emp Nil rqe False pl2(1) pl3(1) call_okI [OF pl2(2,3) _ pl2(4), of held] call_okI [OF pl3(2,3) _ pl3(4), of held] sg mem
        by (simp add: pool_malloc_def pool_ordered_malloc_def malloc_effect_def)
    qed
  qed
  then show "call_ok pw (pl, held) (pool_call pw (Pool_Malloc um) (pl, held)) (Some (malloc_effect pw um (#) (erase pl, bs, xs, held)))"
    "call_ok pw (pl, held) (pool_call pw (Pool_Ordered_Malloc um) (pl, held)) (Some (malloc_effect pw um put_block (erase pl, bs, xs, held)))"
    by blast+
qed

lemma malloc_n_agrees:
  assumes r: "pool_rel pw pl bs xs held" and s: "sizes_ok pw (length (pl_mem pl)) pl" and n: "n * requested_size pl \<le> 2 ^ 61"
    and a: "user_ok (length (pl_mem pl)) bs um (fst (snd (request_chunks um (chunks_for pw n (erase pl)) (8 * pw) (erase pl))))"
  shows "call_ok pw (pl, held) (pool_call pw (Pool_Ordered_Malloc_N um n) (pl, held))
    (Some (malloc_n_effect pw um n (erase pl, bs, xs, held)))"
proof -
  note d = pool_relD [OF r] and sd = sizes_okD [OF s]
  define k where "k = num_chunks_of n (requested_size pl) (8 * pw)"
  have kf: "chunks_for pw n (erase pl) = k" "chunks_for pw n pl = k" by (simp_all add: chunks_for_def k_def)
  note kb = num_chunks_of_bound [OF n sd(4,10), folded k_def]
  show ?thesis
  proof (cases "n = 0")
    case True
    have "num_chunks_of 0 (requested_size pl) (8 * pw) = 0" by (simp add: num_chunks_of_def wrap_def)
    then have "ordered_malloc_n um n pl = Some (0, pl)"
      using sd(1) True by (simp add: ordered_malloc_n_def malloc_n_def store_alloc_def)
    then show ?thesis using True call_okI [OF r refl _ kept_refl [OF refl, where held = held], of held] s by (simp add: malloc_n_effect_def)
  next
    case False
    have k0: "0 < k" using kb(3) False sd(2) by simp
    note mf = malloc_n_found [OF r k0]
    show ?thesis
    proof (cases "find (contiguous_at pw k xs) [0..<length xs]")
      case (Some i)
      then obtain s' where i: "xs ! i \<noteq> 0" "malloc_n k pw (pl_store pl) = Some (xs ! i, s')"
        "pool_rel pw (pl\<lparr>pl_store := s'\<rparr>) bs (take i xs @ drop (i + k) xs) (take k (drop i xs) @ held)" "erase (pl\<lparr>pl_store := s'\<rparr>) = erase pl" "kept pw held pl (pl\<lparr>pl_store := s'\<rparr>)"
        using mf by auto
      have "contiguous_at pw k xs i" using Some by (auto simp: find_Some_iff)
      then have ck: "take k (drop i xs) = chunks_of pw (xs ! i) k" by (rule contiguous_take)
      have "ordered_malloc_n um n pl = Some (xs ! i, pl\<lparr>pl_store := s'\<rparr>)"
        using sd(1) i(1,2) by (simp add: ordered_malloc_n_def k_def [symmetric] store_alloc_def)
      then show ?thesis using Some False i(1) kf ck call_okI [OF i(3,4) _ i(5), of held] s by (simp add: malloc_n_effect_def Let_def)
    next
      case None
      then have no: "malloc_n k pw (pl_store pl) = Some (0, pl_store pl)" using mf by simp
      obtain ptr S pl1 where rq: "request_chunks um k (8 * pw) pl = (ptr, S, pl1)" by (cases "request_chunks um k (8 * pw) pl") auto
      then have rqe: "request_chunks um k (8 * pw) (erase pl) = (ptr, S, erase pl1)" by (simp add: request_erase)
      have u: "user_ok (length (pl_mem pl)) bs um S" using a rqe kf by simp
      note nb = new_block_for_n [OF r s kb(1) k0 _ k_def no rq u] and rf = request_chunks_fresh [OF s kb(1) k0 rq u]
      have len: "length (pl_mem pl1) = length (pl_mem pl)" "pool_rel pw pl1 bs xs held" "kept pw held pl pl1" using rf(1) r by (auto simp: kept_refl)
      have mem: "length (pl_mem (grow_next_size (8 * pw) (erase pl1))) = length (pl_mem pl)" using len(1) by simp
      have sg: "sizes_ok pw (length (pl_mem pl)) (grow_next_size (8 * pw) (erase pl1))" if "ptr \<noteq> 0"
        using rf(6) [OF that] sizes_ok_erased grow_simps(3) by metis
      show ?thesis
      proof (cases "ptr = 0")
        case True
        then show ?thesis using nb(1) False None rqe kf call_okI [OF len(2) refl _ len(3), of held] rf(2) len(1) by (simp add: malloc_n_effect_def Let_def)
      next
        case p: False
        then obtain pl' where pl': "ordered_malloc_n um n pl = Some (ptr, pl')" "erase pl' = grow_next_size (8 * pw) (erase pl1)" "kept pw held pl pl'"
          "pool_rel pw pl' (put_block (ptr, S) bs) (put_at (ptr + k * pw) (chunks_of pw (ptr + k * pw) (num_in pw (ptr, S) - k)) xs) (chunks_of pw ptr k @ held)"
          using nb(2) False by blast
        show ?thesis using p False None rqe kf pl'(1) call_okI [OF pl'(4,2) _ pl'(3), of held] sg mem by (simp add: malloc_n_effect_def Let_def)
      qed
    qed
  qed
qed

text \<open>What the client writes into its own chunks is no part of the pool's data.\<close>

lemma client_write_rel:
  assumes r: "pool_rel pw pl bs xs held" and p: "p \<in> set held" "off < pw"
  shows "pool_rel pw (pl\<lparr>pl_store := (pl_store pl)\<lparr>sss_mem := (pl_mem pl)[p + off := v]\<rparr>\<rparr>) bs xs held"
proof -
  note d = pool_relD [OF r] and w = well_keptD [OF pool_relD(4) [OF r]]
  have "p + off \<noteq> x" if x: "x \<in> set xs" for x
  proof -
    have "p \<noteq> x" using w(4) p(1) x by blast
    then show ?thesis using w(6) [OF w(8) [OF p(1)] w(7) [OF x]] p(2) by (auto simp: apart_def)
  qed
  then have "free_list ((pl_store pl)\<lparr>sss_mem := (pl_mem pl)[p + off := v]\<rparr>) xs"
    by (intro free_list_headers [OF d(2)]) auto
  moreover have "(pl_mem pl)[p + off := v] ! a = pl_mem pl ! a" if "\<And>x off. x \<in> set (owned_of pw bs) \<Longrightarrow> off < pw \<Longrightarrow> a \<noteq> x + off" for a
    using that [OF w(8) [OF p(1)] p(2)] by simp
  ultimately show ?thesis using d(4) by (intro store_step [OF r]) simp_all
qed

lemma pool_call_ok:
  assumes r: "pool_rel pw pl bs xs held" and s: "sizes_ok pw (length (pl_mem pl)) pl" and a: "pool_allowed pw c (erase pl, bs, xs, held)"
    and nw: "\<And>p off v. c \<noteq> Pool_Write p off v"
  shows "call_ok pw (pl, held) (pool_call pw c (pl, held)) (Some (pool_effect pw c (erase pl, bs, xs, held)))"
proof -
  note d = sizes_okD [OF s]
  have cf: "chunks_for pw n (erase pl) = chunks_for pw n pl" for n by (simp add: chunks_for_def)
  have s': "sizes_ok pw (length (pl_mem (erase pl))) (erase pl)" using s by simp
  show ?thesis
  proof (cases c)
    case (Pool_Malloc um)
    then show ?thesis using malloc_agrees(1) [OF r s, of um] a by simp
  next
    case (Pool_Ordered_Malloc um)
    then show ?thesis using malloc_agrees(2) [OF r s, of um] a by simp
  next
    case (Pool_Ordered_Malloc_N um n)
    then show ?thesis using malloc_n_agrees [OF r s, of n um] a by simp
  next
    case (Pool_Free x)
    then obtain pl' where pl': "pool_free x pl = Some pl'" "pool_rel pw pl' bs (x # xs) (filter (\<lambda>y. y \<noteq> x) held)" "erase pl' = erase pl"
      "kept pw (filter (\<lambda>y. y \<noteq> x) held) pl pl'" using free_chunk(1) [OF r] a by auto
    then show ?thesis using Pool_Free call_okI [OF pl'(2,3) s' pl'(4), of held] by auto
  next
    case (Pool_Ordered_Free x)
    then obtain pl' where pl': "pool_ordered_free x pl = Some pl'" "pool_rel pw pl' bs (put_at x [x] xs) (filter (\<lambda>y. y \<noteq> x) held)" "erase pl' = erase pl"
      "kept pw (filter (\<lambda>y. y \<noteq> x) held) pl pl'" using free_chunk(2) [OF r] a by auto
    then show ?thesis using Pool_Ordered_Free call_okI [OF pl'(2,3) s' pl'(4), of held] by auto
  next
    case (Pool_Free_N p n)
    let ?cs = "chunks_of pw p (chunks_for pw n pl)"
    obtain pl' where pl': "pool_free_n p n pl = Some pl'" "erase pl' = erase pl" "pool_rel pw pl' bs (?cs @ xs) (filter (\<lambda>x. x \<notin> set ?cs) held)"
      "kept pw (filter (\<lambda>x. x \<notin> set ?cs) held) pl pl'"
      using free_chunks(1) [OF r d(1), of "chunks_for pw n pl" n p] a cf Pool_Free_N by (auto simp: chunks_for_def)
    show ?thesis using Pool_Free_N pl'(1) cf call_okI [OF pl'(3,2) s' pl'(4), of held] by (auto simp: Let_def)
  next
    case (Pool_Ordered_Free_N p n)
    let ?cs = "chunks_of pw p (chunks_for pw n pl)"
    obtain pl' where pl': "pool_ordered_free_n p n pl = Some pl'" "erase pl' = erase pl"
      "pool_rel pw pl' bs (put_at p ?cs xs) (filter (\<lambda>x. x \<notin> set ?cs) held)" "kept pw (filter (\<lambda>x. x \<notin> set ?cs) held) pl pl'"
      using free_chunks(2) [OF r d(1), of "chunks_for pw n pl" n p] a cf Pool_Ordered_Free_N by (auto simp: chunks_for_def)
    show ?thesis using Pool_Ordered_Free_N pl'(1) cf call_okI [OF pl'(3,2) s' pl'(4), of held] by (auto simp: Let_def)
  next
    case (Pool_Release junk)
    then have "sorted (map fst bs)" "sorted xs" using a by (simp_all add: pool_ordered_def)
    from release_memory_rel [OF r d(1) this] obtain pl' where
      pl': "release_memory junk pl = Some (filter (all_free pw xs) bs \<noteq> [], pl')"
        "pool_rel pw pl' (filter (\<lambda>b. \<not> all_free pw xs b) bs) (without pw (filter (all_free pw xs) bs) xs) held"
        "erase pl' = (erase pl)\<lparr>pl_released := pl_released pl @ map fst (filter (all_free pw xs) bs), next_size := start_size pl\<rparr>"
        "kept pw held pl pl'" by blast
    have "sizes_ok pw (length (pl_mem pl)) ((erase pl)\<lparr>pl_released := pl_released pl @ map fst (filter (all_free pw xs) bs), next_size := start_size pl\<rparr>)"
      using s by (simp add: sizes_ok_def alloc_size_def)
    then show ?thesis using Pool_Release pl'(1) call_okI [OF pl'(2,3) _ pl'(4), of held] by (simp add: release_effect_def Let_def)
  next
    case (Pool_Purge junk)
    show ?thesis
    proof (cases "bs = []")
      case True
      then show ?thesis using Pool_Purge purge_memory_rel(1) [OF r] call_okI [OF r refl s' kept_refl [OF refl, where held = held], of held] by simp
    next
      case False
      then obtain pl' where pl': "purge_memory junk pl = Some (True, pl')" "pool_rel pw pl' [] [] []"
        "erase pl' = (erase pl)\<lparr>pl_released := pl_released pl @ map fst bs, next_size := start_size pl\<rparr>" using purge_memory_rel(2) [OF r] by blast
      have "sizes_ok pw (length (pl_mem pl)) ((erase pl)\<lparr>pl_released := pl_released pl @ map fst bs, next_size := start_size pl\<rparr>)"
        using s by (simp add: sizes_ok_def alloc_size_def)
      moreover have "kept pw [] pl pl'" by (simp add: kept_def)
      ultimately show ?thesis using Pool_Purge False pl'(1) call_okI [OF pl'(2,3), of "[]" pl held] by simp
    qed
  next
    case (Pool_Set_Next_Size n)
    have "sizes_ok pw (length (pl_mem pl)) (set_next_size n pl)"
      using s a Pool_Set_Next_Size by (simp add: sizes_ok_def alloc_size_def set_next_size_def)
    moreover have "pool_rel pw (set_next_size n pl) bs xs held" using r by (simp add: set_next_size_def)
    ultimately show ?thesis using Pool_Set_Next_Size pool_validI [of pw "set_next_size n pl" bs xs held]
      by (simp add: call_ok_def kept_def set_next_size_def)
  next
    case (Pool_Set_Max_Size n)
    have "sizes_ok pw (length (pl_mem pl)) (set_max_size n pl)"
      using s a Pool_Set_Max_Size by (simp add: sizes_ok_def alloc_size_def set_max_size_def)
    moreover have "pool_rel pw (set_max_size n pl) bs xs held" using r by (simp add: set_max_size_def)
    ultimately show ?thesis using Pool_Set_Max_Size pool_validI [of pw "set_max_size n pl" bs xs held]
      by (simp add: call_ok_def kept_def set_max_size_def)
  qed (use nw in simp)
qed

lemma pool_call_agrees:
  assumes r: "pool_rel pw pl bs xs held" and s: "sizes_ok pw (length (pl_mem pl)) pl" and a: "pool_allowed pw c (erase pl, bs, xs, held)"
  shows "agrees (pool_valid pw) pool_view (pool_call pw c (pl, held)) (Some (pool_effect pw c (erase pl, bs, xs, held)))"
proof (cases "\<exists>p off v. c = Pool_Write p off v")
  case True
  then obtain p off v where c: "c = Pool_Write p off v" by blast
  then have "pool_rel pw (pl\<lparr>pl_store := (pl_store pl)\<lparr>sss_mem := (pl_mem pl)[p + off := v]\<rparr>\<rparr>) bs xs held"
    using client_write_rel [OF r] a by simp
  from pool_validI [OF this] show ?thesis using s c by (simp add: sizes_ok_def alloc_size_def)
next
  case False
  then show ?thesis using pool_call_ok [OF r s a] by (simp add: call_ok_def)
qed

interpretation pool_impl: data_refinement "pool_valid pw" pool_view "\<lambda>_. True" "pool_exec pw" "pool_spec pw"
proof unfold_locales
  fix st c
  assume v: "pool_valid pw st"
  obtain pl held where st: "st = (pl, held)" by (cases st)
  with v have "pool_valid pw (pl, held)" by simp
  then obtain bs xs where r: "pool_rel pw pl bs xs held" "sizes_ok pw (length (pl_mem pl)) pl"
    and view: "pool_view (pl, held) = (erase pl, bs, xs, held)" by (rule pool_validE)
  show "agrees (pool_valid pw) pool_view (pool_exec pw c st) (pool_spec pw c (pool_view st))"
    unfolding st pool_exec_def pool_spec_def view using pool_call_agrees [OF r] by simp
qed

subsection \<open>The ordered members keep the pool ordered\<close>

fun pool_ordered_op :: "pool_op \<Rightarrow> bool" where
  "pool_ordered_op (Pool_Malloc um) = False"
| "pool_ordered_op (Pool_Free c) = False"
| "pool_ordered_op (Pool_Free_N p n) = False"
| "pool_ordered_op _ = True"

lemma sorted_put_block: "sorted (map fst bs) \<Longrightarrow> sorted (map fst (put_block b bs))"
proof (induction bs)
  case (Cons c bs)
  then show ?case by (auto simp: put_block_def dest: set_takeWhileD set_dropWhileD)
qed (simp add: put_block_def)

lemma put_at_apart:
  assumes w: "well_kept pw (msz, put_at q cs xs, held, owned)" and d: "set cs \<inter> set xs = {}"
  shows "\<And>c x. c \<in> set cs \<Longrightarrow> x \<in> set xs \<Longrightarrow> apart pw c x"
proof -
  fix c x assume cx: "c \<in> set cs" "x \<in> set xs"
  then have "c \<in> set (put_at q cs xs)" "x \<in> set (put_at q cs xs)" by simp_all
  then have "c \<in> set owned" "x \<in> set owned" using well_keptD(7) [OF w] by blast+
  moreover have "c \<noteq> x" using cx d by blast
  ultimately show "apart pw c x" using well_keptD(6) [OF w] by blast
qed

lemma sorted_take_drop: "sorted xs \<Longrightarrow> sorted (take i xs @ drop (i + k) xs)"
proof -
  assume "sorted xs"
  moreover have "xs = take i xs @ take k (drop i xs) @ drop (i + k) xs" by (metis append_take_drop_id drop_drop add.commute)
  ultimately have "sorted (take i xs @ take k (drop i xs) @ drop (i + k) xs)" by simp
  then show ?thesis by (auto simp only: sorted_append set_append)
qed

lemma pool_effect_ordered:
  assumes r: "pool_rel pw pl bs xs held" and r': "pool_view (pl', held') = pool_effect pw c (erase pl, bs, xs, held)"
    and v: "pool_valid pw (pl', held')" and o: "pool_ordered_op c" "pool_ordered (erase pl, bs, xs, held)"
    and a: "pool_allowed pw c (erase pl, bs, xs, held)" and s: "sizes_ok pw (length (pl_mem pl)) pl"
  shows "pool_ordered (pool_effect pw c (erase pl, bs, xs, held))"
proof -
  note d = pool_relD [OF r] and w = well_keptD [OF pool_relD(4) [OF r]]
  have so: "sorted (map fst bs)" "sorted xs" using o(2) by (simp_all add: pool_ordered_def)
  obtain bs' xs' where r2: "pool_rel pw pl' bs' xs' held'" and view: "pool_view (pl', held') = (erase pl', bs', xs', held')"
    using v by (rule pool_validE)
  note w' = pool_relD(4) [OF r2]
  have put: "sorted (put_at p (chunks_of pw p k) xs)" if "xs' = put_at p (chunks_of pw p k) xs" "set (chunks_of pw p k) \<inter> set xs = {}" for p k
    by (rule sorted_put_chunks [OF w(1) so(2)]) (use put_at_apart [of pw _ p "chunks_of pw p k" xs held'] w' that in auto)
  show ?thesis
  proof (cases c)
    case (Pool_Ordered_Malloc um)
    then show ?thesis using so sorted_put_block [OF so(1)] sorted_chunks
      by (auto simp: pool_ordered_def malloc_effect_def Let_def bchunks_def sorted_tl split: list.split prod.split)
  next
    case (Pool_Ordered_Free x)
    have one: "chunks_of pw x (Suc 0) = [x]" by (simp add: chunks_of_def)
    have "xs' = put_at x [x] xs" "x \<notin> set xs" using r' view Pool_Ordered_Free a w(4) by auto
    then have "sorted (put_at x (chunks_of pw x (Suc 0)) xs)" by (intro put) (simp_all add: one)
    then show ?thesis using Pool_Ordered_Free so by (simp add: pool_ordered_def one)
  next
    case (Pool_Ordered_Free_N p n)
    have "xs' = put_at p (chunks_of pw p (chunks_for pw n (erase pl))) xs" "set (chunks_of pw p (chunks_for pw n (erase pl))) \<inter> set xs = {}"
      using r' view Pool_Ordered_Free_N a w(4) by (auto simp: Let_def)
    then have "sorted (put_at p (chunks_of pw p (chunks_for pw n (erase pl))) xs)" by (rule put)
    then show ?thesis using Pool_Ordered_Free_N so by (simp add: pool_ordered_def Let_def)
  next
    case (Pool_Ordered_Malloc_N um n)
    define k where "k = chunks_for pw n (erase pl)"
    obtain ptr S e1 where rq: "request_chunks um k (8 * pw) (erase pl) = (ptr, S, e1)" by (cases "request_chunks um k (8 * pw) (erase pl)") auto
    let ?cs = "chunks_of pw (ptr + k * pw) (num_in pw (ptr, S) - k)"
    have disj: "set ?cs \<inter> set xs = {}" if "ptr \<noteq> 0" "n \<noteq> 0"
    proof -
      have u: "user_ok (length (pl_mem pl)) bs um S" using a Pool_Ordered_Malloc_N rq by (simp add: k_def)
      have n: "n * requested_size pl \<le> 2 ^ 61" using a Pool_Ordered_Malloc_N by simp
      note kb = num_chunks_of_bound [OF n sizes_okD(4,10) [OF s]]
      have k: "k = num_chunks_of n (requested_size pl) (8 * pw)" by (simp add: k_def chunks_for_def)
      have s': "sizes_ok pw (length (pl_mem pl)) (erase pl)" using s by simp
      have k0: "0 < k" using kb(3) that(2) sizes_okD(2) [OF s] k by simp
      note rf = request_chunks_fresh [OF s' kb(1) [folded k] k0 rq u]
      note sb = split_block(1) [OF r rf(4) [OF that(1)] _ refl, of k]
      have "set (bchunks pw (ptr, S)) \<inter> set (owned_of pw bs) = {}"
        using new_block_chunks(1) [OF d(4) fresh_new_block(1) [OF rf(4) [OF that(1)] d(3)]] fresh_new_block(2) [OF rf(4) [OF that(1)] d(3)]
        by (simp add: bchunks_def)
      then show ?thesis using sb rf(3,5) w(7) by auto
    qed
    have "sorted (put_at (ptr + k * pw) ?cs xs)" if "ptr \<noteq> 0" "n \<noteq> 0" "find (contiguous_at pw k xs) [0..<length xs] = None"
      by (rule put) (use r' view Pool_Ordered_Malloc_N that rq disj in \<open>auto simp: malloc_n_effect_def k_def [symmetric] Let_def\<close>)
    then show ?thesis using Pool_Ordered_Malloc_N so sorted_put_block [OF so(1)] sorted_take_drop [OF so(2)] rq
      by (auto simp: pool_ordered_def malloc_n_effect_def k_def [symmetric] Let_def split: option.split)
  qed (use o so in \<open>auto simp: pool_ordered_def release_effect_def without_def Let_def sorted_filter sorted_wrt_filter\<close>)
qed

lemma pool_ordered_run:
  assumes "pool_valid pw st" and "pool_ordered (pool_view st)" and "list_all pool_ordered_op cs" and "run_ops (pool_exec pw) cs st = Some st'"
  shows "pool_valid pw st' \<and> pool_ordered (pool_view st')"
  using assms
proof (induction cs arbitrary: st)
  case (Cons c cs)
  obtain pl held where st: "st = (pl, held)" by (cases st)
  have "pool_valid pw (pl, held)" using Cons.prems(1) st by simp
  then obtain bs xs where r: "pool_rel pw pl bs xs held" "sizes_ok pw (length (pl_mem pl)) pl"
    and view: "pool_view (pl, held) = (erase pl, bs, xs, held)" by (rule pool_validE)
  obtain st1 where st1: "pool_exec pw c st = Some st1" and run: "run_ops (pool_exec pw) cs st1 = Some st'"
    using Cons.prems(4) by (auto split: option.splits)
  obtain pl1 held1 where p1: "st1 = (pl1, held1)" by (cases st1)
  have ag: "agrees (pool_valid pw) pool_view (pool_exec pw c st) (pool_spec pw c (pool_view st))"
    using pool_impl.step_agrees [OF Cons.prems(1)] by simp
  have al: "pool_allowed pw c (erase pl, bs, xs, held)" using st1 st view by (simp add: pool_exec_def split: if_splits)
  have v1: "pool_valid pw (pl1, held1)" and e1: "pool_view (pl1, held1) = pool_effect pw c (erase pl, bs, xs, held)"
    using ag st1 p1 al st view by (auto simp: pool_spec_def)
  have "pool_ordered (pool_view (pl1, held1))"
    unfolding e1 by (rule pool_effect_ordered [OF r(1) e1 v1 _ _ al r(2)]) (use Cons.prems(2,3) st view in auto)
  then show ?case using Cons.IH [of st1] v1 run Cons.prems(3) p1 by simp
qed simp

lemma pool_new_rel: "0 < pw \<Longrightarrow> pool_rel pw (pool_ctor memory r n m) [] [] []"
  by (simp add: pool_rel_def pool_ctor_def storage_ctor_def free_list_def blocks_ok_def well_kept_def owned_of_def)

lemma pool_new:
  assumes "sizes_ok pw (length memory) (pool_ctor memory r n m)"
  shows "pool_valid pw (pool_ctor memory r n m, [])"
    and "pool_view (pool_ctor memory r n m, []) = (erase (pool_ctor memory r n m), [], [], [])"
proof -
  have "sizes_ok pw (length (pl_mem (pool_ctor memory r n m))) (pool_ctor memory r n m)"
    using assms by (simp add: pool_ctor_def storage_ctor_def)
  from pool_validI [OF pool_new_rel [OF sizes_okD(10) [OF assms]] this]
  show "pool_valid pw (pool_ctor memory r n m, [])"
    "pool_view (pool_ctor memory r n m, []) = (erase (pool_ctor memory r n m), [], [], [])" by blast+
qed

subsection \<open>Properties\<close>

text \<open>C7 (pools): a client of a newly constructed pool may call its members in any order and write into every word of the
  chunks it holds. As long as it keeps their preconditions and the user allocator answers with memory
  outside the pool, or with null, every call is defined, and the pool goes through exactly the states of the specification: the blocks
  obtained, the order of the free list, the chunks handed out, the growth of the next request and the blocks
  given back. Every chunk the client holds is recognised by \<^verbatim>\<open>is_from\<close>, the blocks do not overlap, and
  neither do chunks, free or held.\<close>

theorem pool_refines_spec:
  assumes "sizes_ok pw (length memory) (pool_ctor memory r n m)"
  shows "map_option pool_view (run_ops (pool_exec pw) cs (pool_ctor memory r n m, []))
      = run_ops (pool_spec pw) cs (erase (pool_ctor memory r n m), [], [], [])
    \<and> (case run_ops (pool_exec pw) cs (pool_ctor memory r n m, []) of None \<Rightarrow> True
       | Some (pl, held) \<Rightarrow> \<exists>bs xs. pool_view (pl, held) = (erase pl, bs, xs, held)
           \<and> (\<forall>b \<in> set bs. \<forall>c \<in> set bs. b \<noteq> c \<longrightarrow> blocks_apart b c)
           \<and> set xs \<inter> set held = {} \<and> (\<forall>p \<in> set held. is_from p pl = Some True)
           \<and> (\<forall>p \<in> set xs \<union> set held. \<forall>q \<in> set xs \<union> set held. p \<noteq> q \<longrightarrow> apart pw p q))"
proof (rule conjI)
  note new = pool_new [OF assms]
  have ok: "list_all (\<lambda>_. True) cs" by (simp add: list.pred_True)
  show "map_option pool_view (run_ops (pool_exec pw) cs (pool_ctor memory r n m, []))
      = run_ops (pool_spec pw) cs (erase (pool_ctor memory r n m), [], [], [])"
    using pool_impl.run_view [OF new(1) ok] by (simp only: new(2))
  show "case run_ops (pool_exec pw) cs (pool_ctor memory r n m, []) of None \<Rightarrow> True
       | Some (pl, held) \<Rightarrow> \<exists>bs xs. pool_view (pl, held) = (erase pl, bs, xs, held)
           \<and> (\<forall>b \<in> set bs. \<forall>c \<in> set bs. b \<noteq> c \<longrightarrow> blocks_apart b c)
           \<and> set xs \<inter> set held = {} \<and> (\<forall>p \<in> set held. is_from p pl = Some True)
           \<and> (\<forall>p \<in> set xs \<union> set held. \<forall>q \<in> set xs \<union> set held. p \<noteq> q \<longrightarrow> apart pw p q)"
  proof (cases "run_ops (pool_exec pw) cs (pool_ctor memory r n m, [])")
    case (Some st)
    obtain pl held where st: "st = (pl, held)" by (cases st)
    obtain bs xs where r: "pool_rel pw pl bs xs held" and view: "pool_view (pl, held) = (erase pl, bs, xs, held)"
      using pool_validE pool_impl.run_keeps_valid [OF new(1) ok Some] st by blast
    note d = pool_relD [OF r] and w = well_keptD [OF pool_relD(4) [OF r]]
    have "is_from p pl = Some True" if p: "p \<in> set held" for p
    proof -
      obtain b where b: "b \<in> set bs" "p \<in> set (bchunks pw b)" using w(8) [OF p] by (rule owned_ofE)
      have "fst b \<le> p" "p < pod_end b"
        using bchunks_range [OF b(2)] block_layout(2) [OF blocks_okD(2) [OF d(3) b(1)]] d(5) by simp_all
      then show ?thesis using is_from_rel [OF r] b(1) by auto
    qed
    moreover have "apart pw p q" if "p \<in> set xs \<union> set held" "q \<in> set xs \<union> set held" "p \<noteq> q" for p q
      using w(6) [of p q] w(3) that by auto
    ultimately show ?thesis unfolding Some option.case st prod.case
      using view blocks_okD(3) [OF d(3)] w(4) by (intro exI [of _ bs] exI [of _ xs] conjI ballI impI) blast+
  qed simp
qed

lemmas pool_eval = pool_spec_def malloc_effect_def malloc_n_effect_def request_block_def request_chunks_def chunks_for_def
  num_chunks_of_def wrap_def pod_size_def user_ok_def grow_next_size_def bchunks_def chunks_of_def num_in_def put_at_def put_block_def
  upt_rec contiguous_at_def blocks_apart_def release_effect_def all_free_def without_def owned_of_def pool_ordered_def Let_def

lemma example_sizes: "sizes_ok 1 (length (replicate 40 (0 :: nat))) (pool_ctor (replicate 40 0) 8 2 0)"
  by (simp add: sizes_ok_def alloc_size_def pool_ctor_def min_alloc_size_def min_align_def Let_def)

lemma example_run:
  "run_ops (pool_spec 1) [Pool_Malloc (\<lambda>_. 4), Pool_Write 4 0 7, Pool_Ordered_Malloc_N (\<lambda>_. 20) 3, Pool_Free 4] (erase (pool_ctor (replicate 40 0) 8 2 0), [], [], [])
   = Some ((erase (pool_ctor (replicate 40 0) 8 2 0))\<lparr>next_size := 8\<rparr>, [(4, 32), (20, 48)], [4, 5, 23], [20, 21, 22])"
  by (simp add: pool_eval pool_ctor_def erase_def storage_ctor_def)

theorem pool_refines_spec_witness:
  "map_option pool_view (run_ops (pool_exec 1) [Pool_Malloc (\<lambda>_. 4), Pool_Write 4 0 7, Pool_Ordered_Malloc_N (\<lambda>_. 20) 3, Pool_Free 4] (pool_ctor (replicate 40 0) 8 2 0, []))
   = Some ((erase (pool_ctor (replicate 40 0) 8 2 0))\<lparr>next_size := 8\<rparr>, [(4, 32), (20, 48)], [4, 5, 23], [20, 21, 22])"
  by (rule trans [OF conjunct1 [OF pool_refines_spec [OF example_sizes]] example_run])

lemma example_ordered_run:
  "\<exists>pl. run_ops (pool_exec 1) [Pool_Ordered_Malloc (\<lambda>_. 4), Pool_Ordered_Malloc_N (\<lambda>_. 20) 3, Pool_Ordered_Free 4] (pool_ctor (replicate 40 0) 8 2 0, [])
     = Some (pl, [20, 21, 22])"
proof -
  let ?cs = "[Pool_Ordered_Malloc (\<lambda>_. 4), Pool_Ordered_Malloc_N (\<lambda>_. 20) 3, Pool_Ordered_Free 4]"
  have "run_ops (pool_spec 1) ?cs (erase (pool_ctor (replicate 40 0) 8 2 0), [], [], [])
      = Some ((erase (pool_ctor (replicate 40 0) 8 2 0))\<lparr>next_size := 8\<rparr>, [(4, 32), (20, 48)], [4, 5, 23], [20, 21, 22])"
    by (simp add: pool_eval pool_ctor_def erase_def storage_ctor_def)
  then have "map_option pool_view (run_ops (pool_exec 1) ?cs (pool_ctor (replicate 40 0) 8 2 0, []))
      = Some ((erase (pool_ctor (replicate 40 0) 8 2 0))\<lparr>next_size := 8\<rparr>, [(4, 32), (20, 48)], [4, 5, 23], [20, 21, 22])"
    using pool_impl.run_view [OF pool_new(1) [OF example_sizes], of ?cs] pool_new(2) [OF example_sizes] by (simp only: list.pred_inject simp_thms)
  then show ?thesis by (auto simp del: run_ops.simps)
qed

text \<open>C32 (the client's data): no member of the pool writes into a chunk that the client keeps: every word of such a
  chunk is, after the call, what it was before, or what the client itself has written there.\<close>

theorem pool_keeps_client_data:
  assumes "sizes_ok pw (length memory) (pool_ctor memory r n m)"
    and "run_ops (pool_exec pw) cs (pool_ctor memory r n m, []) = Some (pl, held)"
    and "pool_exec pw c (pl, held) = Some (pl', held')"
    and "p \<in> set held" and "p \<in> set held'" and "off < pw"
  shows "pl_mem pl' ! (p + off) =
    (case c of Pool_Write q o' v \<Rightarrow> if p + off = q + o' then v else pl_mem pl ! (p + off) | _ \<Rightarrow> pl_mem pl ! (p + off))"
proof -
  have ok: "list_all (\<lambda>_. True) cs" by (simp add: list.pred_True)
  have "pool_valid pw (pl, held)" using pool_impl.run_keeps_valid [OF pool_new(1) [OF assms(1)] ok assms(2)] .
  then obtain bs xs where r: "pool_rel pw pl bs xs held" "sizes_ok pw (length (pl_mem pl)) pl"
    and view: "pool_view (pl, held) = (erase pl, bs, xs, held)" by (rule pool_validE)
  have a: "pool_allowed pw c (erase pl, bs, xs, held)" and call: "pool_call pw c (pl, held) = Some (pl', held')"
    using assms(3) view by (simp_all add: pool_exec_def split: if_splits)
  note w = pool_relD(4) [OF r(1)]
  show ?thesis
  proof (cases "\<exists>q o' v. c = Pool_Write q o' v")
    case True
    have "p + off < length (pl_mem pl)" using well_keptD(5) [OF w well_keptD(8) [OF w assms(4)]] assms(6) by simp
    then show ?thesis using True call by (auto simp: nth_list_update)
  next
    case False
    then have "call_ok pw (pl, held) (pool_call pw c (pl, held)) (Some (pool_effect pw c (erase pl, bs, xs, held)))"
      using pool_call_ok [OF r a] by blast
    then have "kept pw (filter (\<lambda>p. p \<in> set held') held) pl pl'" using call by (simp add: call_ok_def)
    then have "pl_mem pl' ! (p + off) = pl_mem pl ! (p + off)" using assms(4-6) by (simp add: kept_def)
    then show ?thesis using False by (auto split: pool_op.split)
  qed
qed

text \<open>C15 (giving memory back): a pool used through its ordered members only is always ordered, so that
  \<^verbatim>\<open>release_memory\<close> may be called at any time. It ends, gives back exactly those blocks none of whose chunks the
  client holds, in the order of their addresses, tells whether there were any, and the client's chunks stay valid. \<^verbatim>\<open>junk\<close> is what
  the user allocator leaves in the memory it gets back: the pool does not read it.\<close>

theorem ordered_pool_release:
  assumes "sizes_ok pw (length memory) (pool_ctor memory r n m)" and "list_all pool_ordered_op cs"
    and "run_ops (pool_exec pw) cs (pool_ctor memory r n m, []) = Some (pl, held)"
  shows "\<exists>bs xs pl' xs'. pool_view (pl, held) = (erase pl, bs, xs, held) \<and> sorted (map fst bs) \<and> sorted xs
    \<and> release_memory junk pl = Some (\<exists>b \<in> set bs. set (bchunks pw b) \<inter> set held = {}, pl')
    \<and> pool_view (pl', held) = (erase pl', filter (\<lambda>b. set (bchunks pw b) \<inter> set held \<noteq> {}) bs, xs', held)
    \<and> set xs' = {x \<in> set xs. \<exists>b \<in> set bs. x \<in> set (bchunks pw b) \<and> set (bchunks pw b) \<inter> set held \<noteq> {}}
    \<and> pl_released pl' = pl_released pl @ map fst (filter (\<lambda>b. set (bchunks pw b) \<inter> set held = {}) bs)
    \<and> next_size pl' = start_size pl"
proof -
  have "pool_ordered (pool_view (pool_ctor memory r n m, []))" using pool_new(2) [OF assms(1)] by (simp add: pool_ordered_def)
  from pool_ordered_run [OF pool_new(1) [OF assms(1)] this assms(2,3)]
  have v: "pool_valid pw (pl, held)" and o: "pool_ordered (pool_view (pl, held))" by blast+
  obtain bs xs where rel: "pool_rel pw pl bs xs held" "sizes_ok pw (length (pl_mem pl)) pl"
    and view: "pool_view (pl, held) = (erase pl, bs, xs, held)" using v by (rule pool_validE)
  note d = pool_relD [OF rel(1)] and w = well_keptD [OF pool_relD(4) [OF rel(1)]]
  have so: "sorted (map fst bs)" "sorted xs" using o view by (simp_all add: pool_ordered_def)
  have af: "all_free pw xs b \<longleftrightarrow> set (bchunks pw b) \<inter> set held = {}" if "b \<in> set bs" for b
  proof -
    have "set (bchunks pw b) \<subseteq> set (owned_of pw bs)" using that unfolding set_owned_of by blast
    then show ?thesis using w(3,4) unfolding all_free_def by blast
  qed
  then have eq: "filter (all_free pw xs) bs = filter (\<lambda>b. set (bchunks pw b) \<inter> set held = {}) bs"
    "filter (\<lambda>b. \<not> all_free pw xs b) bs = filter (\<lambda>b. set (bchunks pw b) \<inter> set held \<noteq> {}) bs" by (intro filter_cong refl; blast)+
  obtain pl' where pl': "release_memory junk pl = Some (filter (all_free pw xs) bs \<noteq> [], pl')"
      "pool_rel pw pl' (filter (\<lambda>b. \<not> all_free pw xs b) bs) (without pw (filter (all_free pw xs) bs) xs) held"
      "erase pl' = (erase pl)\<lparr>pl_released := pl_released pl @ map fst (filter (all_free pw xs) bs), next_size := start_size pl\<rparr>"
    using release_memory_rel [OF rel(1) sizes_okD(1) [OF rel(2)] so] by blast
  have kept_blocks: "set (without pw (filter (all_free pw xs) bs) xs)
      = {x \<in> set xs. \<exists>b \<in> set bs. x \<in> set (bchunks pw b) \<and> set (bchunks pw b) \<inter> set held \<noteq> {}}" (is "?l = ?r")
  proof
    show "?l \<subseteq> ?r" using w(7) af unfolding without_def set_owned_of by fastforce
    show "?r \<subseteq> ?l"
    proof
      fix x assume "x \<in> ?r"
      then obtain b where b: "x \<in> set xs" "b \<in> set bs" "x \<in> set (bchunks pw b)" "\<not> all_free pw xs b" using af by blast
      have "x \<notin> set (bchunks pw c)" if c: "c \<in> set bs" "all_free pw xs c" for c
      proof
        assume x: "x \<in> set (bchunks pw c)"
        have "b \<noteq> c" using b(4) c(2) by blast
        then have "apart pw x x"
          using block_chunks_apart [OF blocks_okD(2) [OF d(3) b(2)] blocks_okD(2) [OF d(3) c(1)] blocks_okD(3) [OF d(3) b(2) c(1)] b(3) x] by blast
        then show False using d(5) by (auto simp: apart_def)
      qed
      then show "x \<in> ?l" using b(1) unfolding without_def set_owned_of by auto
    qed
  qed
  have "filter (all_free pw xs) bs \<noteq> [] \<longleftrightarrow> (\<exists>b \<in> set bs. set (bchunks pw b) \<inter> set held = {})"
    using eq(1) filter_empty_conv [of "\<lambda>b. set (bchunks pw b) \<inter> set held = {}" bs] by metis
  then have "release_memory junk pl = Some (\<exists>b \<in> set bs. set (bchunks pw b) \<inter> set held = {}, pl')" using pl'(1) by (simp only:)
  moreover have "pl_released pl' = pl_released pl @ map fst (filter (\<lambda>b. set (bchunks pw b) \<inter> set held = {}) bs)"
    "next_size pl' = start_size pl"
    using arg_cong [OF pl'(3), of pl_released] arg_cong [OF pl'(3), of next_size] eq(1) by simp_all
  ultimately show ?thesis using view so pool_rel_view [OF pl'(2)] kept_blocks unfolding eq(2) by blast
qed

theorem ordered_pool_release_witness:
  "\<exists>pl bs xs pl' xs'. run_ops (pool_exec 1) [Pool_Ordered_Malloc (\<lambda>_. 4), Pool_Ordered_Malloc_N (\<lambda>_. 20) 3, Pool_Ordered_Free 4]
      (pool_ctor (replicate 40 0) 8 2 0, []) = Some (pl, [20, 21, 22])
    \<and> pool_view (pl, [20, 21, 22]) = (erase pl, bs, xs, [20, 21, 22])
    \<and> release_memory (\<lambda>_. 9) pl = Some (\<exists>b \<in> set bs. set (bchunks 1 b) \<inter> set [20, 21, 22] = {}, pl')
    \<and> pool_view (pl', [20, 21, 22]) = (erase pl', filter (\<lambda>b. set (bchunks 1 b) \<inter> set [20, 21, 22] \<noteq> {}) bs, xs', [20, 21, 22])"
proof -
  obtain pl where run: "run_ops (pool_exec 1) [Pool_Ordered_Malloc (\<lambda>_. 4), Pool_Ordered_Malloc_N (\<lambda>_. 20) 3, Pool_Ordered_Free 4]
      (pool_ctor (replicate 40 0) 8 2 0, []) = Some (pl, [20, 21, 22])" using example_ordered_run by blast
  have "list_all pool_ordered_op [Pool_Ordered_Malloc (\<lambda>_. 4), Pool_Ordered_Malloc_N (\<lambda>_. 20) 3, Pool_Ordered_Free 4]" by simp
  from ordered_pool_release [OF example_sizes this run, of "\<lambda>_. 9"] run show ?thesis by blast
qed

theorem pool_keeps_client_data_witness:
  "\<exists>pl pl'. run_ops (pool_exec 1) [Pool_Ordered_Malloc (\<lambda>_. 4), Pool_Ordered_Malloc_N (\<lambda>_. 20) 3, Pool_Ordered_Free 4]
      (pool_ctor (replicate 40 0) 8 2 0, []) = Some (pl, [20, 21, 22])
    \<and> pool_exec 1 (Pool_Write 21 0 5) (pl, [20, 21, 22]) = Some (pl', [20, 21, 22])
    \<and> pl_mem pl' ! 20 = pl_mem pl ! 20 \<and> pl_mem pl' ! 21 = 5"
proof -
  obtain pl where run: "run_ops (pool_exec 1) [Pool_Ordered_Malloc (\<lambda>_. 4), Pool_Ordered_Malloc_N (\<lambda>_. 20) 3, Pool_Ordered_Free 4]
      (pool_ctor (replicate 40 0) 8 2 0, []) = Some (pl, [20, 21, 22])" using example_ordered_run by blast
  let ?pl = "pl\<lparr>pl_store := (pl_store pl)\<lparr>sss_mem := (pl_mem pl)[21 + 0 := 5]\<rparr>\<rparr>"
  have ex: "pool_exec 1 (Pool_Write 21 0 5) (pl, [20, 21, 22]) = Some (?pl, [20, 21, 22])" by (simp add: pool_exec_def)
  note data = pool_keeps_client_data [OF example_sizes run ex]
  show ?thesis using run ex data [of 20 0] data [of 21 0] by auto
qed

text \<open>C33 (the size of an array): the chunks counted by \<^verbatim>\<open>ordered_malloc(n)\<close> have room for the \<open>n\<close> elements asked for exactly
  when \<^verbatim>\<open>n * requested_size\<close> does not wrap around.\<close>

theorem pool_request_room:
  assumes "0 < pw" and "8 * pw \<le> 2 ^ 64"
  shows "n * requested \<le> num_chunks_of n requested (8 * pw) * (8 * pw) \<longleftrightarrow> n * requested < 2 ^ 64"
proof -
  define t p k where "t = n * requested" and "p = 8 * pw" and "k = num_chunks_of n requested (8 * pw)"
  define u where "u = t mod 2 ^ 64"
  have k: "k = u div p + (if u mod p \<noteq> 0 then 1 else 0)" by (simp add: k_def u_def num_chunks_of_def wrap_def t_def p_def Let_def)
  have eq: "u = u div p * p + u mod p" by (rule div_mult_mod_eq [symmetric])
  have md: "u mod p < p" using assms(1) by (simp add: p_def)
  have "k * p = u div p * p + (if u mod p \<noteq> 0 then p else 0)" unfolding k by (simp add: add_mult_distrib)
  then have kp: "u mod p = 0 \<and> k * p = u div p * p \<or> 0 < u mod p \<and> k * p = u div p * p + p" by auto
  have le: "u \<le> k * p" "k * p < u + p" using kp eq md by linarith+
  have "t \<le> k * p \<longleftrightarrow> t < 2 ^ 64"
  proof (cases "t < 2 ^ 64")
    case True
    then show ?thesis using le(1) by (simp add: u_def)
  next
    case False
    have "t = t div 2 ^ 64 * 2 ^ 64 + u" unfolding u_def by (rule div_mult_mod_eq [symmetric])
    moreover have "0 < t div 2 ^ 64" using False by (simp add: div_greater_zero_iff)
    then have "2 ^ 64 \<le> t div 2 ^ 64 * 2 ^ 64" by simp
    ultimately have "2 ^ 64 + u \<le> t" by linarith
    moreover have "p \<le> 2 ^ 64" using assms(2) by (simp add: p_def)
    ultimately show ?thesis using False le(2) by linarith
  qed
  then show ?thesis by (simp only: t_def p_def k_def)
qed

theorem pool_request_room_witness:
  "(2 ^ 61 + 1) * 8 \<le> num_chunks_of (2 ^ 61 + 1) 8 (8 * 1) * (8 * 1) \<longleftrightarrow> (2 ^ 61 + 1) * (8 :: nat) < 2 ^ 64"
  by (rule pool_request_room) simp_all

text \<open>An array of \<open>2\<^sup>6\<^sup>1 + 1\<close> elements of eight bytes gets one chunk; the next \<^verbatim>\<open>malloc\<close> returns the address of its second element.\<close>

lemma ordered_malloc_overlap:
  "\<exists>pl1 pl2. ordered_malloc_n (\<lambda>_. 4) (2 ^ 61 + 1) (pool_ctor (replicate 40 0) 8 2 0) = Some (4, pl1)
    \<and> pool_malloc (\<lambda>_. 0) pl1 = Some (5, pl2)"
proof -
  let ?pl = "pool_ctor (replicate 40 0) 8 2 0"
  have r: "pool_rel 1 ?pl [] [] []" by (rule pool_new_rel) simp
  have s: "sizes_ok 1 (length (pl_mem ?pl)) ?pl" using example_sizes by (simp add: pool_ctor_def storage_ctor_def)
  have k: "(1 :: nat) = num_chunks_of (2 ^ 61 + 1) (requested_size ?pl) (8 * 1)" by (simp add: num_chunks_of_def wrap_def pool_ctor_def)
  have no: "malloc_n 1 1 (pl_store ?pl) = Some (0, pl_store ?pl)" using malloc_n_found [OF r, of 1] by simp
  have rq: "request_chunks (\<lambda>_. 4) 1 (8 * 1) ?pl = (4, 32, ?pl)"
    by (simp add: request_chunks_def pool_ctor_def pod_size_def wrap_def Let_def)
  have u: "user_ok (length (pl_mem ?pl)) [] (\<lambda>_. 4) 32" by (simp add: user_ok_def pool_ctor_def storage_ctor_def)
  have "put_at (4 + 1 * 1) (chunks_of 1 (4 + 1 * 1) (num_in 1 (4, 32) - 1)) [] = [5]" by (simp add: put_at_def chunks_of_def num_in_def)
  then obtain pl1 where pl1: "ordered_malloc_n (\<lambda>_. 4) (2 ^ 61 + 1) ?pl = Some (4, pl1)" and r1: "pool_rel 1 pl1 (put_block (4, 32) []) [5] (chunks_of 1 4 1 @ [])"
    using new_block_for_n(2) [OF r s _ _ _ k no rq u] by auto
  obtain pl2 where "store_alloc (storage_malloc (pl_store pl1)) pl1 = Some (5, pl2)" using pool_take [OF r1] by blast
  then have "pool_malloc (\<lambda>_. 0) pl1 = Some (5, pl2)" using store_empty_list [OF pool_relD(2) [OF r1]] by (simp add: pool_malloc_def)
  then show ?thesis using pl1 by blast
qed

end
