(* ===== verification/Object_Pool.thy ===== *)
theory Object_Pool
  imports Pool_Properties "HOL-Library.Multiset"
begin

text \<open>
  \<^verbatim>\<open>object_pool<T, UserAllocator>\<close> (\<^verbatim>\<open>pool/object_pool.hpp\<close>): a \<^verbatim>\<open>pool\<close> of chunks of \<^verbatim>\<open>sizeof(T)\<close> that constructs and
  destroys objects in them, and whose destructor destroys the objects that are left. The element type is a
  template parameter: a constructor or destructor call is its address, in the traces \<open>op_constructed\<close> and
  \<open>op_destroyed\<close>, and the words it leaves in the chunk of the object, an argument of the member; whether a
  constructor throws is an argument as well.
\<close>

subsection \<open>Definitions\<close>

record object_pool =
  op_store :: pool
  op_constructed :: "nat list"
  op_destroyed :: "nat list"

definition object_pool_ctor :: "nat list \<Rightarrow> nat \<Rightarrow> nat \<Rightarrow> nat \<Rightarrow> object_pool" where
  "object_pool_ctor memory sizeof_T arg_next_size arg_max_size =
     \<lparr>op_store = pool_ctor memory sizeof_T arg_next_size arg_max_size, op_constructed = [], op_destroyed = []\<rparr>"

text \<open>What the code of the element type does to the chunk of its object.\<close>

definition object_words :: "nat \<Rightarrow> nat \<Rightarrow> (nat \<Rightarrow> nat) \<Rightarrow> pool \<Rightarrow> pool" where
  "object_words p partition_size f pl =
     pl\<lparr>pl_store := (pl_store pl)\<lparr>sss_mem := fold (\<lambda>a m. m[a := f a]) [p..<p + partition_size] (pl_mem pl)\<rparr>\<rparr>"

definition call_destructor :: "nat \<Rightarrow> nat \<Rightarrow> (nat \<Rightarrow> nat) \<Rightarrow> object_pool \<Rightarrow> object_pool" where
  "call_destructor p partition_size f op =
     op\<lparr>op_store := object_words p partition_size f (op_store op), op_destroyed := op_destroyed op @ [p]\<rparr>"

definition op_malloc :: "(nat \<Rightarrow> nat) \<Rightarrow> object_pool \<Rightarrow> (nat \<times> object_pool) option" where
  "op_malloc um op = map_option (\<lambda>(p, pl). (p, op\<lparr>op_store := pl\<rparr>)) (pool_ordered_malloc um (op_store op))"

definition op_free :: "nat \<Rightarrow> object_pool \<Rightarrow> object_pool option" where
  "op_free chunk op = map_option (\<lambda>pl. op\<lparr>op_store := pl\<rparr>) (pool_ordered_free chunk (op_store op))"

definition op_is_from :: "nat \<Rightarrow> object_pool \<Rightarrow> bool option" where
  "op_is_from chunk op = is_from chunk (op_store op)"

definition op_set_next_size :: "nat \<Rightarrow> object_pool \<Rightarrow> object_pool" where
  "op_set_next_size x op = op\<lparr>op_store := set_next_size x (op_store op)\<rparr>"

datatype construct_error = Constructor_Throws

text \<open>The exception of the element type's constructor is passed on.\<close>

definition op_construct :: "(nat \<Rightarrow> nat) \<Rightarrow> bool \<Rightarrow> (nat \<Rightarrow> nat) \<Rightarrow> object_pool \<Rightarrow> ((construct_error + nat) \<times> object_pool) option" where
  "op_construct um throws f op = do {
     partition_size \<leftarrow> alloc_size (op_store op);
     (ret, op1) \<leftarrow> op_malloc um op;
     if ret = 0 then Some (Inr 0, op1)
     else do {
       let op2 = op1\<lparr>op_store := object_words ret (partition_size div 8) f (op_store op1)\<rparr>;
       if throws then do { op3 \<leftarrow> op_free ret op2; Some (Inl Constructor_Throws, op3) }
       else Some (Inr ret, op2\<lparr>op_constructed := op_constructed op2 @ [ret]\<rparr>) } }"

definition op_destroy :: "(nat \<Rightarrow> nat) \<Rightarrow> nat \<Rightarrow> object_pool \<Rightarrow> object_pool option" where
  "op_destroy f chunk op = do {
     partition_size \<leftarrow> alloc_size (op_store op);
     op_free chunk (call_destructor chunk (partition_size div 8) f op) }"

partial_function (option) destroy_chunks_loop ::
  "(nat \<Rightarrow> nat) \<Rightarrow> nat \<Rightarrow> nat \<Rightarrow> nat \<Rightarrow> nat \<Rightarrow> object_pool \<Rightarrow> (nat \<times> object_pool) option" where
  "destroy_chunks_loop f partition_size i block_end freed_iter op =
     (if i \<noteq> block_end then
        if i = freed_iter then do {
          freed1 \<leftarrow> nextof freed_iter (pl_store (op_store op));
          destroy_chunks_loop f partition_size (i + partition_size) block_end freed1 op }
        else destroy_chunks_loop f partition_size (i + partition_size) block_end freed_iter (call_destructor i partition_size f op)
      else Some (freed_iter, op))"

partial_function (option) destroy_blocks_loop ::
  "(nat \<Rightarrow> nat) \<Rightarrow> (nat \<Rightarrow> nat) \<Rightarrow> nat \<Rightarrow> PODptr \<Rightarrow> nat \<Rightarrow> object_pool \<Rightarrow> object_pool option" where
  "destroy_blocks_loop f junk partition_size iter freed_iter op = do {
     nxt \<leftarrow> pod_next iter (pl_store (op_store op));
     (freed1, op1) \<leftarrow> destroy_chunks_loop f partition_size (fst iter) (pod_end iter) freed_iter op;
     let op2 = op1\<lparr>op_store := user_free junk iter (op_store op1)\<rparr>;
     if pod_valid nxt then destroy_blocks_loop f junk partition_size nxt freed1 op2 else Some op2 }"

text \<open>The destructor, with that of the base class after it.\<close>

definition object_pool_body :: "(nat \<Rightarrow> nat) \<Rightarrow> (nat \<Rightarrow> nat) \<Rightarrow> object_pool \<Rightarrow> object_pool option" where
  "object_pool_body f junk op =
     (if \<not> pod_valid (pl_list (op_store op)) then Some op
      else do {
        partition_size \<leftarrow> alloc_size (op_store op);
        op1 \<leftarrow> destroy_blocks_loop f junk (partition_size div 8) (pl_list (op_store op)) (sss_first (pl_store (op_store op))) op;
        Some (op1\<lparr>op_store := (op_store op1)\<lparr>pl_list := (0, snd (pl_list (op_store op1)))\<rparr>\<rparr>) })"

definition object_pool_dtor :: "(nat \<Rightarrow> nat) \<Rightarrow> (nat \<Rightarrow> nat) \<Rightarrow> object_pool \<Rightarrow> object_pool option" where
  "object_pool_dtor f junk op = do {
     op1 \<leftarrow> object_pool_body f junk op;
     map_option (\<lambda>pl. op1\<lparr>op_store := pl\<rparr>) (pool_dtor junk (op_store op1)) }"

subsection \<open>Objects and the pool's data\<close>

lemma fold_update:
  "length (fold (\<lambda>a m. m[a := f a]) as m) = length m"
  "a \<notin> set as \<Longrightarrow> fold (\<lambda>a m. m[a := f a]) as m ! a = m ! a"
  by (induction as arbitrary: m) auto

lemma object_words_simps [simp]:
  "pl_list (object_words p k f pl) = pl_list pl" "length (pl_mem (object_words p k f pl)) = length (pl_mem pl)"
  "sss_first (pl_store (object_words p k f pl)) = sss_first (pl_store pl)" "erase (object_words p k f pl) = erase pl"
  "alloc_size (object_words p k f pl) = alloc_size pl" "pl_released (object_words p k f pl) = pl_released pl"
  by (simp_all add: object_words_def fold_update erase_def alloc_size_def)

lemma object_words_other:
  "a < p \<or> p + k \<le> a \<Longrightarrow> pl_mem (object_words p k f pl) ! a = pl_mem pl ! a"
  by (auto simp: object_words_def fold_update)

text \<open>The code of an element type works inside the chunk of its object.\<close>

lemma object_words_rel:
  assumes r: "pool_rel pw pl bs xs held" and p: "p \<in> set held"
  shows "pool_rel pw (object_words p pw f pl) bs xs held"
proof -
  note d = pool_relD [OF r] and w = well_keptD [OF pool_relD(4) [OF r]]
  let ?s = "pl_store (object_words p pw f pl)"
  have pl: "object_words p pw f pl = pl\<lparr>pl_store := ?s\<rparr>" by (simp add: object_words_def)
  have out: "a < p \<or> p + pw \<le> a" if h: "\<And>off. off < pw \<Longrightarrow> a \<noteq> p + off" for a using h [of "a - p"] by linarith
  have "sss_mem ?s ! x = pl_mem pl ! x" if x: "x \<in> set xs" for x
    by (rule object_words_other [OF out]) (use held_no_free [OF d(4) p] x in metis)
  then have "path (sss_mem ?s) (sss_first ?s) xs 0"
    using d(2) path_frame [of "pl_mem pl" _ xs 0 "sss_mem ?s"] by (simp add: free_list_def)
  then have "free_list ?s xs" using d(2) by (simp add: free_list_def)
  moreover have "sss_mem ?s ! a = pl_mem pl ! a" if h: "\<And>x off. x \<in> set (owned_of pw bs) \<Longrightarrow> off < pw \<Longrightarrow> a \<noteq> x + off" for a
    by (rule object_words_other [OF out]) (use h w(8) [OF p] in blast)
  ultimately show ?thesis by (subst pl, intro store_step [OF r]) (use d(4) in \<open>simp_all\<close>)
qed

subsection \<open>The destructor's loops\<close>

abbreviation op_mem :: "object_pool \<Rightarrow> nat list" where
  "op_mem op \<equiv> pl_mem (op_store op)"

lemma call_destructor_simps [simp]:
  "op_store (call_destructor p k f op) = object_words p k f (op_store op)"
  "op_destroyed (call_destructor p k f op) = op_destroyed op @ [p]" "op_constructed (call_destructor p k f op) = op_constructed op"
  by (simp_all add: call_destructor_def)

text \<open>The chunks of a block that are not in the free list are destroyed, and nothing outside them is written.\<close>

lemma destroy_chunks_loop_path:
  assumes "path (op_mem op) (first_of ys) ys 0" and "sorted ys" and "distinct ys" and "p \<noteq> 0" and pw: "0 < pw"
    and "set ys \<subseteq> set (chunks_of pw p k) \<union> {p + k * pw..}"
  shows "\<exists>op'. destroy_chunks_loop f pw p (p + k * pw) (first_of ys) op = Some (first_of (dropWhile (\<lambda>x. x < p + k * pw) ys), op')
    \<and> op_destroyed op' = op_destroyed op @ filter (\<lambda>c. c \<notin> set ys) (chunks_of pw p k) \<and> op_constructed op' = op_constructed op
    \<and> erase (op_store op') = erase (op_store op) \<and> pl_list (op_store op') = pl_list (op_store op)
    \<and> (\<forall>a. a < p \<or> p + k * pw \<le> a \<or> a \<in> set ys \<longrightarrow> op_mem op' ! a = op_mem op ! a)"
  using assms(1-4,6)
proof (induction k arbitrary: p ys op)
  case 0
  then have "\<And>y. y \<in> set ys \<Longrightarrow> \<not> y < p" by (auto simp: chunks_of_def)
  then have "dropWhile (\<lambda>x. x < p) ys = ys" by (cases ys) auto
  then show ?case by (simp add: destroy_chunks_loop.simps chunks_of_def)
next
  case (Suc k)
  let ?e = "p + Suc k * pw"
  have e: "p \<noteq> ?e" "?e = (p + pw) + k * pw" "p + pw \<noteq> 0" using pw by simp_all
  have cs: "chunks_of pw p (Suc k) = p # chunks_of pw (p + pw) k" by (rule chunks_Suc)
  have ge: "p + pw \<le> y" if "y \<in> set ys" "y \<noteq> p" for y
    using Suc.prems(5) that unfolding cs by (auto simp: set_chunks)
  have later: "p \<notin> set (chunks_of pw (p + pw) k)" using pw by (auto simp: set_chunks)
  show ?case
  proof (cases "p \<in> set ys")
    case True
    then obtain zs where ys: "ys = p # zs"
      using Suc.prems(2) ge pw by (cases ys) fastforce+
    have zs: "path (op_mem op) (first_of zs) zs 0" "nextof p (pl_store (op_store op)) = Some (first_of zs)"
      using Suc.prems(1) path_first [of "op_mem op" "op_mem op ! p" zs] unfolding ys by (auto simp: nextof_eq)
    have sub: "set zs \<subseteq> set (chunks_of pw (p + pw) k) \<union> {p + pw + k * pw..}"
      using Suc.prems(3,5) unfolding ys cs e(2) by auto
    obtain op' where op': "destroy_chunks_loop f pw (p + pw) (p + pw + k * pw) (first_of zs) op = Some (first_of (dropWhile (\<lambda>x. x < p + pw + k * pw) zs), op')"
        "op_destroyed op' = op_destroyed op @ filter (\<lambda>c. c \<notin> set zs) (chunks_of pw (p + pw) k)" "op_constructed op' = op_constructed op"
        "erase (op_store op') = erase (op_store op)" "pl_list (op_store op') = pl_list (op_store op)"
        "\<forall>a. a < p + pw \<or> p + pw + k * pw \<le> a \<or> a \<in> set zs \<longrightarrow> op_mem op' ! a = op_mem op ! a"
      using Suc.IH [OF zs(1) _ _ e(3) sub] Suc.prems(2,3) unfolding ys by auto
    have filt: "filter (\<lambda>c. c \<notin> set ys) (chunks_of pw p (Suc k)) = filter (\<lambda>c. c \<notin> set zs) (chunks_of pw (p + pw) k)"
      unfolding ys cs using later by (auto intro: filter_cong)
    have "destroy_chunks_loop f pw p ?e (first_of ys) op = Some (first_of (dropWhile (\<lambda>x. x < ?e) ys), op')"
      using e op'(1) zs(2) pw unfolding ys by (simp add: destroy_chunks_loop.simps [of f pw p] add.assoc)
    moreover have "\<forall>a. a < p \<or> ?e \<le> a \<or> a \<in> set ys \<longrightarrow> op_mem op' ! a = op_mem op ! a" using op'(6) pw unfolding ys e(2) by auto
    ultimately show ?thesis using op'(2-5) unfolding filt by blast
  next
    case False
    then have fst: "first_of ys \<noteq> p" using Suc.prems(4) by (cases ys) auto
    let ?op = "call_destructor p pw f op"
    have other: "op_mem ?op ! a = op_mem op ! a" if "a < p \<or> p + pw \<le> a" for a using object_words_other [OF that] by simp
    have "path (op_mem ?op) (first_of ys) ys 0"
      by (rule path_frame [OF Suc.prems(1)]) (use other ge False in auto)
    moreover have "set ys \<subseteq> set (chunks_of pw (p + pw) k) \<union> {p + pw + k * pw..}"
      using Suc.prems(5) False unfolding cs e(2) by auto
    ultimately obtain op' where op': "destroy_chunks_loop f pw (p + pw) (p + pw + k * pw) (first_of ys) ?op = Some (first_of (dropWhile (\<lambda>x. x < p + pw + k * pw) ys), op')"
        "op_destroyed op' = op_destroyed ?op @ filter (\<lambda>c. c \<notin> set ys) (chunks_of pw (p + pw) k)" "op_constructed op' = op_constructed ?op"
        "erase (op_store op') = erase (op_store ?op)" "pl_list (op_store op') = pl_list (op_store ?op)"
        "\<forall>a. a < p + pw \<or> p + pw + k * pw \<le> a \<or> a \<in> set ys \<longrightarrow> op_mem op' ! a = op_mem ?op ! a"
      using Suc.IH [OF _ Suc.prems(2,3) e(3)] by blast
    have "destroy_chunks_loop f pw p ?e (first_of ys) op = Some (first_of (dropWhile (\<lambda>x. x < ?e) ys), op')"
      using e fst op'(1) by (simp add: destroy_chunks_loop.simps [of f pw p] add.assoc)
    moreover have "op_mem op' ! a = op_mem op ! a" if a: "a < p \<or> ?e \<le> a \<or> a \<in> set ys" for a
    proof -
      have "a < p \<or> p + pw \<le> a" using a ge [of a] False by auto
      then show ?thesis using a op'(6) other [of a] unfolding e(2) by auto
    qed
    ultimately show ?thesis using op'(2-5) False unfolding cs by (intro exI [of _ op']) simp
  qed
qed

lemma block_range:
  assumes "block_ok pw msz b"
  shows "fst b + num_in pw b * pw = pod_end b" and "pod_end b < fst b + snd b div 8"
  using block_layout(1,2) [OF assms] by simp_all

lemma destroy_blocks_loop_path:
  assumes "podpath (op_mem op) b (b # vs) q" and q: "fst q = 0" and "blocks_ok pw (length (op_mem op)) (b # vs)"
    and "sorted (map fst (b # vs))" and pw: "0 < pw" and "path (op_mem op) (first_of ys) ys 0" and "sorted ys" and "distinct ys"
    and "set ys \<subseteq> set (owned_of pw (b # vs))"
  shows "\<exists>op'. destroy_blocks_loop f junk pw b (first_of ys) op = Some op'
    \<and> op_destroyed op' = op_destroyed op @ filter (\<lambda>c. c \<notin> set ys) (owned_of pw (b # vs)) \<and> op_constructed op' = op_constructed op
    \<and> erase (op_store op') = (erase (op_store op))\<lparr>pl_released := pl_released (op_store op) @ map fst (b # vs)\<rparr>"
  using assms(1,3,4,6-9)
proof (induction vs arbitrary: b op ys)
  case Nil
  have bo: "block_ok pw (length (op_mem op)) b" using blocks_okD(2) [OF Nil.prems(2)] by simp
  have "set ys \<subseteq> set (chunks_of pw (fst b) (num_in pw b)) \<union> {fst b + num_in pw b * pw..}"
    using Nil.prems(7) by (auto simp: owned_Cons bchunks_def owned_of_def)
  then obtain fr op1 where op1: "destroy_chunks_loop f pw (fst b) (pod_end b) (first_of ys) op = Some (fr, op1)"
      "op_destroyed op1 = op_destroyed op @ filter (\<lambda>c. c \<notin> set ys) (bchunks pw b)" "op_constructed op1 = op_constructed op"
      "erase (op_store op1) = erase (op_store op)"
    using destroy_chunks_loop_path [OF Nil.prems(4-6) _ pw, of "fst b" "num_in pw b" f] bo block_range(1) [OF bo]
    by (auto simp: block_ok_def bchunks_def)
  have "\<not> pod_valid (op_mem op ! pod_end b, op_mem op ! Suc (pod_end b))" using Nil.prems(1) q by (simp add: pod_valid_def)
  moreover have "pl_released (op_store op1) = pl_released (op_store op)" using arg_cong [OF op1(4), of pl_released] by simp
  ultimately show ?case using op1 pod_next_eq [OF bo] by (simp add: destroy_blocks_loop.simps [of f junk pw b] owned_of_def)
next
  case (Cons c vs)
  note ob = blocks_okD [OF Cons.prems(2)]
  have bo: "block_ok pw (length (op_mem op)) b" using ob(2) by simp
  define ys1 ys2 where "ys1 = takeWhile (\<lambda>x. x < pod_end b) ys" and "ys2 = dropWhile (\<lambda>x. x < pod_end b) ys"
  note sp = split_at_block [OF Cons.prems(2,3) pw Cons.prems(5-7) ys1_def ys2_def]
  have beyond: "fst b + snd b div 8 \<le> fst d" if d: "d \<in> set (c # vs)" for d
  proof -
    have "blocks_apart b d" "fst b \<le> fst d" "block_ok pw (length (op_mem op)) d" using d ob(1,2) ob(3) [of b d] Cons.prems(3) by auto
    then show ?thesis using block_layout(1) [of pw _ d] by (auto simp: blocks_apart_def)
  qed
  have far: "fst b + snd b div 8 \<le> x" if x: "x \<in> set (owned_of pw (c # vs))" for x
  proof -
    obtain d where "d \<in> set (c # vs)" "x \<in> set (bchunks pw d)" using x by (rule owned_ofE)
    then show ?thesis using beyond bchunks_range [of x pw d] by fastforce
  qed
  have "set ys \<subseteq> set (chunks_of pw (fst b) (num_in pw b)) \<union> {fst b + num_in pw b * pw..}"
    using Cons.prems(7) far block_range [OF bo] unfolding owned_Cons [of pw b] bchunks_def by fastforce
  then obtain op1 where op1: "destroy_chunks_loop f pw (fst b) (pod_end b) (first_of ys) op = Some (first_of ys2, op1)"
      "op_destroyed op1 = op_destroyed op @ filter (\<lambda>c. c \<notin> set ys) (bchunks pw b)" "op_constructed op1 = op_constructed op"
      "erase (op_store op1) = erase (op_store op)" "\<forall>a. a < fst b \<or> pod_end b \<le> a \<or> a \<in> set ys \<longrightarrow> op_mem op1 ! a = op_mem op ! a"
    using destroy_chunks_loop_path [OF Cons.prems(4-6) _ pw, of "fst b" "num_in pw b" f] bo block_range(1) [OF bo]
    by (auto simp: block_ok_def bchunks_def ys2_def)
  let ?op = "op1\<lparr>op_store := user_free junk b (op_store op1)\<rparr>"
  have len: "length (op_mem op1) = length (op_mem op)" using arg_cong [OF op1(4), of "\<lambda>e. length (pl_mem e)"] by simp
  have same: "op_mem ?op ! a = op_mem op ! a" if "fst b + snd b div 8 \<le> a" "a < length (op_mem op)" for a
  proof -
    have "op_mem ?op ! a = op_mem op1 ! a" using user_free_other [of a "op_store op1" b junk] that len by simp
    then show ?thesis using op1(5) that(1) block_range(2) [OF bo] by simp
  qed
  have c: "(op_mem op ! pod_end b, op_mem op ! Suc (pod_end b)) = c" "fst c \<noteq> 0" and pc: "podpath (op_mem op) c (c # vs) q"
    using Cons.prems(1) by auto
  have hdr: "op_mem ?op ! pod_end d = op_mem op ! pod_end d \<and> op_mem ?op ! Suc (pod_end d) = op_mem op ! Suc (pod_end d)"
    if d: "d \<in> set (c # vs)" for d
  proof -
    have do: "block_ok pw (length (op_mem op)) d" using d ob(2) by auto
    have "fst b + snd b div 8 \<le> pod_end d" using beyond [OF d] block_layout(2) [OF do] by linarith
    then show ?thesis using same [of "pod_end d"] same [of "Suc (pod_end d)"] block_layout(5) [OF do] by simp
  qed
  have p': "podpath (op_mem ?op) c (c # vs) q" by (rule podpath_frame [OF pc]) (rule hdr)
  have ok': "blocks_ok pw (length (op_mem ?op)) (c # vs)" using Cons.prems(2) len by (auto simp: blocks_ok_def)
  obtain r where "path (op_mem op) r ys2 0" using Cons.prems(4) sp(3) by (auto simp: path_append)
  then have "path (op_mem op) (first_of ys2) ys2 0" using path_first by metis
  then have y2: "path (op_mem ?op) (first_of ys2) ys2 0"
    by (rule path_frame) (use same far sp(2) path_valid [OF Cons.prems(4)] sp(3) len in auto)
  have s': "sorted (map fst (c # vs))" "sorted ys2" "distinct ys2" using Cons.prems(3,5,6) by (simp_all add: ys2_def sorted_dropWhile distinct_dropWhile)
  obtain op' where op': "destroy_blocks_loop f junk pw c (first_of ys2) ?op = Some op'"
      "op_destroyed op' = op_destroyed ?op @ filter (\<lambda>x. x \<notin> set ys2) (owned_of pw (c # vs))" "op_constructed op' = op_constructed ?op"
      "erase (op_store op') = (erase (op_store ?op))\<lparr>pl_released := pl_released (op_store ?op) @ map fst (c # vs)\<rparr>"
    using Cons.IH [OF p' ok' s'(1) y2 s'(2,3) sp(2)] by blast
  have rl: "pl_released (op_store ?op) = pl_released (op_store op) @ [fst b]"
    using arg_cong [OF op1(4), of pl_released] by (simp add: user_free_def Let_def)
  have "x \<notin> set ys \<longleftrightarrow> x \<notin> set ys2" if x: "x \<in> set (owned_of pw (c # vs))" for x
    using sp(1,3) sp(5) [OF x] by auto
  then have "filter (\<lambda>x. x \<notin> set ys) (owned_of pw (c # vs)) = filter (\<lambda>x. x \<notin> set ys2) (owned_of pw (c # vs))" by (intro filter_cong) auto
  then have filt: "filter (\<lambda>x. x \<notin> set ys) (owned_of pw (b # c # vs))
      = filter (\<lambda>x. x \<notin> set ys) (bchunks pw b) @ filter (\<lambda>x. x \<notin> set ys2) (owned_of pw (c # vs))" by (simp add: owned_of_def)
  have "destroy_blocks_loop f junk pw b (first_of ys) op = Some op'"
    using pod_next_eq [OF bo] op1(1) c op'(1) by (simp add: destroy_blocks_loop.simps [of f junk pw b] pod_valid_def del: user_free_simps)
  then show ?case using op'(2-4) op1(2-4) rl unfolding filt by simp
qed

lemma distinct_owned:
  assumes "blocks_ok pw msz bs" and pw: "0 < pw"
  shows "distinct (owned_of pw bs)"
  using assms(1)
proof (induction bs)
  case (Cons b bs)
  note ob = blocks_okD [OF Cons.prems]
  have "blocks_ok pw msz bs" using Cons.prems by (auto simp: blocks_ok_def)
  moreover have "distinct (bchunks pw b)" unfolding bchunks_def by (rule distinct_chunks [OF pw])
  moreover have "x \<notin> set (owned_of pw bs)" if x: "x \<in> set (bchunks pw b)" for x
  proof
    assume "x \<in> set (owned_of pw bs)"
    then obtain c where c: "c \<in> set bs" "x \<in> set (bchunks pw c)" by (rule owned_ofE)
    have "blocks_apart b c" using c(1) ob(1) ob(3) [of b c] by auto
    then have "apart pw x x" using block_chunks_apart [OF ob(2) ob(2) _ x c(2)] c(1) by simp
    then show False using pw by (auto simp: apart_def)
  qed
  ultimately show ?case using Cons.IH by (auto simp: owned_of_def)
qed (simp add: owned_of_def)

lemma object_pool_dtor_rel:
  assumes r: "pool_rel pw (op_store op) bs xs held" and a: "alloc_size (op_store op) = Some (8 * pw)"
    and so: "sorted (map fst bs)" "sorted xs"
  shows "\<exists>op' ds. object_pool_dtor f junk op = Some op' \<and> op_destroyed op' = op_destroyed op @ ds \<and> distinct ds \<and> set ds = set held
    \<and> op_constructed op' = op_constructed op \<and> pl_released (op_store op') = pl_released (op_store op) @ map fst bs"
proof -
  note d = pool_relD [OF r] and w = well_keptD [OF pool_relD(4) [OF r]] and l = pool_rel_list [OF r]
  have none: "pool_dtor junk (pl\<lparr>pl_list := (0, n)\<rparr>) = Some (pl\<lparr>pl_list := (0, n)\<rparr>)" for pl n
    by (simp add: pool_dtor_def purge_memory_def pod_valid_def)
  show ?thesis
  proof (cases bs)
    case Nil
    then have "held = []" using w(3) by (auto simp: owned_of_def)
    moreover have "\<not> pod_valid (pl_list (op_store op))" using l(1) Nil by simp
    ultimately show ?thesis using Nil by (simp add: object_pool_dtor_def object_pool_body_def pool_dtor_def purge_memory_def)
  next
    case (Cons b vs)
    have lb: "pl_list (op_store op) = b" "pod_valid b" using l Cons by auto
    obtain q where q: "podpath (op_mem op) b (b # vs) q" "fst q = 0" using d(1) Cons lb(1) by blast
    have fx: "sss_first (pl_store (op_store op)) = first_of xs" "path (op_mem op) (first_of xs) xs 0" "distinct xs"
      using d(2) path_first [of "op_mem op" "sss_first (pl_store (op_store op))" xs] by (auto simp: free_list_def)
    let ?ds = "filter (\<lambda>c. c \<notin> set xs) (owned_of pw bs)"
    obtain op1 where op1: "destroy_blocks_loop f junk pw b (first_of xs) op = Some op1" "op_destroyed op1 = op_destroyed op @ ?ds"
        "op_constructed op1 = op_constructed op"
        "erase (op_store op1) = (erase (op_store op))\<lparr>pl_released := pl_released (op_store op) @ map fst bs\<rparr>"
      using destroy_blocks_loop_path [OF q _ _ d(5) fx(2) so(2) fx(3), of f junk] d(3) so(1) w(7) Cons by blast
    have "object_pool_dtor f junk op = Some (op1\<lparr>op_store := (op_store op1)\<lparr>pl_list := (0, snd (pl_list (op_store op1)))\<rparr>\<rparr>)"
      using lb fx(1) a op1(1) none by (simp add: object_pool_dtor_def object_pool_body_def)
    moreover have "pl_released (op_store op1) = pl_released (op_store op) @ map fst bs" using arg_cong [OF op1(4), of pl_released] by simp
    moreover have "distinct ?ds" "set ?ds = set held" using distinct_owned [OF d(3,5)] w(3,4) by auto
    ultimately show ?thesis using op1(2,3) by (intro exI [of _ "op1\<lparr>op_store := (op_store op1)\<lparr>pl_list := (0, snd (pl_list (op_store op1)))\<rparr>\<rparr>"] exI [of _ ?ds]) simp
  qed
qed

subsection \<open>Clients\<close>

datatype object_op =
    Construct "nat \<Rightarrow> nat" bool "nat \<Rightarrow> nat"
  | Destroy "nat \<Rightarrow> nat" nat
  | Object_Malloc "nat \<Rightarrow> nat"
  | Object_Free nat
  | Object_Next_Size nat
  | Object_Write nat nat nat

fun object_allowed :: "nat \<Rightarrow> object_op \<Rightarrow> pool_view \<Rightarrow> bool" where
  "object_allowed pw (Construct um throws f) v = pool_allowed pw (Pool_Ordered_Malloc um) v"
| "object_allowed pw (Destroy f c) v = pool_allowed pw (Pool_Ordered_Free c) v"
| "object_allowed pw (Object_Malloc um) v = pool_allowed pw (Pool_Ordered_Malloc um) v"
| "object_allowed pw (Object_Free c) v = pool_allowed pw (Pool_Ordered_Free c) v"
| "object_allowed pw (Object_Next_Size n) v = pool_allowed pw (Pool_Set_Next_Size n) v"
| "object_allowed pw (Object_Write p off val) v = pool_allowed pw (Pool_Write p off val) v"

fun object_call :: "object_op \<Rightarrow> object_pool \<times> nat list \<Rightarrow> (object_pool \<times> nat list) option" where
  "object_call (Construct um throws f) (op, live) =
     map_option (\<lambda>(res, op1). (op1, case res of Inl _ \<Rightarrow> live | Inr p \<Rightarrow> if p = 0 then live else p # live)) (op_construct um throws f op)"
| "object_call (Destroy f c) (op, live) = map_option (\<lambda>op1. (op1, filter (\<lambda>x. x \<noteq> c) live)) (op_destroy f c op)"
| "object_call (Object_Malloc um) (op, live) = map_option (\<lambda>(p, op1). (op1, if p = 0 then live else p # live)) (op_malloc um op)"
| "object_call (Object_Free c) (op, live) = map_option (\<lambda>op1. (op1, filter (\<lambda>x. x \<noteq> c) live)) (op_free c op)"
| "object_call (Object_Next_Size n) (op, live) = Some (op_set_next_size n op, live)"
| "object_call (Object_Write p off val) (op, live) =
     Some (op\<lparr>op_store := (op_store op)\<lparr>pl_store := (pl_store (op_store op))\<lparr>sss_mem := (op_mem op)[p + off := val]\<rparr>\<rparr>\<rparr>, live)"

definition object_exec :: "nat \<Rightarrow> object_op \<Rightarrow> object_pool \<times> nat list \<Rightarrow> (object_pool \<times> nat list) option" where
  "object_exec pw c st = (if object_allowed pw c (pool_view (op_store (fst st), snd st)) then object_call c st else None)"

text \<open>Clients that only construct and destroy objects.\<close>

fun object_typed :: "object_op \<Rightarrow> bool" where
  "object_typed (Object_Malloc um) = False"
| "object_typed (Object_Free c) = False"
| "object_typed _ = True"

definition object_ok :: "nat \<Rightarrow> object_pool \<times> nat list \<Rightarrow> bool" where
  "object_ok pw st \<longleftrightarrow> pool_valid pw (op_store (fst st), snd st) \<and> pool_ordered (pool_view (op_store (fst st), snd st)) \<and> distinct (snd st)"

definition balanced :: "object_pool \<times> nat list \<Rightarrow> bool" where
  "balanced st \<longleftrightarrow> mset (op_constructed (fst st)) = mset (op_destroyed (fst st)) + mset (snd st)"

lemma pool_step:
  assumes "pool_valid pw st" and "pool_ordered (pool_view st)" and "pool_ordered_op c" and "pool_allowed pw c (pool_view st)"
  shows "\<exists>st'. pool_call pw c st = Some st' \<and> pool_valid pw st' \<and> pool_ordered (pool_view st')"
proof -
  have "agrees (pool_valid pw) pool_view (pool_exec pw c st) (pool_spec pw c (pool_view st))"
    using pool_impl.step_agrees [OF assms(1)] by simp
  then obtain st' where st': "pool_exec pw c st = Some st'" using assms(4) by (cases "pool_exec pw c st") (auto simp: pool_spec_def)
  then have "run_ops (pool_exec pw) [c] st = Some st'" by simp
  then have "pool_valid pw st' \<and> pool_ordered (pool_view st')" by (intro pool_ordered_run [OF assms(1,2), of "[c]"]) (simp_all add: assms(3))
  then show ?thesis using st' assms(4) by (simp add: pool_exec_def)
qed

lemma malloc_step:
  assumes v: "pool_valid pw (pl, live)" "pool_ordered (pool_view (pl, live))" and a: "pool_allowed pw (Pool_Ordered_Malloc um) (pool_view (pl, live))"
  shows "\<exists>p pl'. pool_ordered_malloc um pl = Some (p, pl') \<and> pool_valid pw (pl', if p = 0 then live else p # live)
    \<and> pool_ordered (pool_view (pl', if p = 0 then live else p # live)) \<and> p \<notin> set live"
proof -
  obtain bs xs where r: "pool_rel pw pl bs xs live" "sizes_ok pw (length (pl_mem pl)) pl"
    and view: "pool_view (pl, live) = (erase pl, bs, xs, live)" using v(1) by (rule pool_validE)
  obtain p pl' where m: "pool_ordered_malloc um pl = Some (p, pl')" "pool_valid pw (pl', if p = 0 then live else p # live)"
      "pool_ordered (pool_view (pl', if p = 0 then live else p # live))"
    using pool_step [OF v _ a] by auto
  note d = pool_relD [OF r(1)] and w = well_keptD [OF pool_relD(4) [OF r(1)]]
  have "p \<notin> set live"
  proof (cases xs)
    case (Cons x ys)
    then have rc: "pool_rel pw pl bs (x # ys) live" using r(1) by simp
    obtain pl2 where "store_alloc (storage_malloc (pl_store pl)) pl = Some (x, pl2)" using pool_take [OF rc] by blast
    then have "p = x" using m(1) store_empty_list [OF d(2)] Cons by (simp add: pool_ordered_malloc_def)
    then show ?thesis using w(4) Cons by auto
  next
    case Nil
    have rn: "pool_rel pw pl bs [] live" using r(1) Nil by simp
    obtain ptr S pl1 where rq: "request_block um (8 * pw) pl = (ptr, S, pl1)" by (cases "request_block um (8 * pw) pl") auto
    have u: "user_ok (length (pl_mem pl)) bs um S" using a view rq by (simp add: request_erase)
    note nr = need_resize [OF rn r(2) rq u] and rf = request_block_fresh(3) [OF r(2) rq u]
    have m2: "ordered_malloc_need_resize um pl = Some (p, pl')" using m(1) store_empty_list [OF d(2)] Nil by (simp add: pool_ordered_malloc_def)
    show ?thesis
    proof (cases "ptr = 0")
      case True
      then have "p = 0" using nr(1) m2 by simp
      then show ?thesis using w(5,8) by blast
    next
      case False
      then have p: "p = ptr" using nr(3) m2 by auto
      note fb = rf [OF False]
      have "ptr \<in> set (bchunks pw (ptr, S))" using bchunks_Cons [of pw "length (pl_mem pl)" "(ptr, S)"] fb
        unfolding fresh_block_def by (metis fst_conv list.set_intros(1))
      then have "ptr \<notin> set (owned_of pw bs)" using fresh_no_chunk [OF fb d(3), of ptr 0] d(5) by auto
      then show ?thesis using p w(8) by blast
    qed
  qed
  then show ?thesis using m by blast
qed

lemma words_step:
  assumes "pool_valid pw (pl, live)" and "pool_ordered (pool_view (pl, live))" and p: "p \<in> set live"
  shows "pool_valid pw (object_words p pw f pl, live)" and "pool_ordered (pool_view (object_words p pw f pl, live))"
proof -
  obtain bs xs where r: "pool_rel pw pl bs xs live" "sizes_ok pw (length (pl_mem pl)) pl"
    and view: "pool_view (pl, live) = (erase pl, bs, xs, live)" using assms(1) by (rule pool_validE)
  have s: "sizes_ok pw (length (pl_mem (object_words p pw f pl))) (object_words p pw f pl)"
    using r(2) sizes_ok_erase [of "object_words p pw f pl" pl] by simp
  from pool_validI [OF object_words_rel [OF r(1) p] s]
  show "pool_valid pw (object_words p pw f pl, live)" "pool_ordered (pool_view (object_words p pw f pl, live))"
    using assms(2) view by (simp_all add: pool_ordered_def)
qed

lemma free_step:
  assumes v: "pool_valid pw (pl, live)" "pool_ordered (pool_view (pl, live))" and c: "c \<in> set live"
  shows "\<exists>pl'. pool_ordered_free c pl = Some pl' \<and> pool_valid pw (pl', filter (\<lambda>x. x \<noteq> c) live)
    \<and> pool_ordered (pool_view (pl', filter (\<lambda>x. x \<noteq> c) live))"
  using pool_step [OF v, of "Pool_Ordered_Free c"] c by auto

lemma pool_valid_alloc: "pool_valid pw (pl, live) \<Longrightarrow> alloc_size pl = Some (8 * pw)"
  by (erule pool_validE) (simp add: sizes_okD)

lemma construct_step:
  assumes ok: "object_ok pw (op, live)" and a: "pool_allowed pw (Pool_Ordered_Malloc um) (pool_view (op_store op, live))"
  shows "\<exists>res op'. op_construct um throws f op = Some (res, op') \<and> op_destroyed op' = op_destroyed op
    \<and> (case res of
         Inl e \<Rightarrow> throws \<and> object_ok pw (op', live) \<and> op_constructed op' = op_constructed op
       | Inr p \<Rightarrow> if p = 0 then object_ok pw (op', live) \<and> op_constructed op' = op_constructed op
           else \<not> throws \<and> object_ok pw (op', p # live) \<and> op_constructed op' = op_constructed op @ [p])"
proof -
  have v: "pool_valid pw (op_store op, live)" "pool_ordered (pool_view (op_store op, live))" "distinct live"
    using ok by (simp_all add: object_ok_def)
  note al = pool_valid_alloc [OF v(1)]
  obtain p pl where m: "pool_ordered_malloc um (op_store op) = Some (p, pl)" "pool_valid pw (pl, if p = 0 then live else p # live)"
      "pool_ordered (pool_view (pl, if p = 0 then live else p # live))" "p \<notin> set live"
    using malloc_step [OF v(1,2) a] by blast
  let ?op1 = "op\<lparr>op_store := pl\<rparr>"
  have ma: "op_malloc um op = Some (p, ?op1)" using m(1) by (simp add: op_malloc_def)
  show ?thesis
  proof (cases "p = 0")
    case True
    then have "op_construct um throws f op = Some (Inr 0, ?op1)" using al ma by (simp add: op_construct_def)
    then show ?thesis using m(2,3) v(3) True by (simp add: object_ok_def)
  next
    case False
    let ?pl2 = "object_words p pw f pl"
    have v2: "pool_valid pw (?pl2, p # live)" "pool_ordered (pool_view (?pl2, p # live))"
      using words_step [of pw pl "p # live" p f] m(2,3) False by simp_all
    obtain pl3 where pl3: "pool_ordered_free p ?pl2 = Some pl3" "pool_valid pw (pl3, filter (\<lambda>x. x \<noteq> p) (p # live))"
        "pool_ordered (pool_view (pl3, filter (\<lambda>x. x \<noteq> p) (p # live)))" using free_step [OF v2, of p] by auto
    have "filter (\<lambda>x. x \<noteq> p) (p # live) = live" using m(4) by (auto simp: filter_id_conv)
    then have ok3: "object_ok pw (op\<lparr>op_store := pl3\<rparr>, live)" using pl3(2,3) v(3) by (simp add: object_ok_def)
    have ok2: "object_ok pw (op\<lparr>op_store := ?pl2, op_constructed := op_constructed op @ [p]\<rparr>, p # live)"
      using v2 v(3) m(4) by (simp add: object_ok_def)
    show ?thesis
    proof (cases throws)
      case True
      then have "op_construct um throws f op = Some (Inl Constructor_Throws, op\<lparr>op_store := pl3\<rparr>)"
        using al ma False pl3(1) by (simp add: op_construct_def op_free_def Let_def)
      then show ?thesis using ok3 True by simp
    next
      case nt: False
      then have "op_construct um throws f op = Some (Inr p, op\<lparr>op_store := ?pl2, op_constructed := op_constructed op @ [p]\<rparr>)"
        using al ma False by (simp add: op_construct_def Let_def)
      then show ?thesis using ok2 nt False by simp
    qed
  qed
qed

lemma mset_without:
  assumes "distinct xs" and "c \<in> set xs"
  shows "mset xs = add_mset c (mset (filter (\<lambda>x. x \<noteq> c) xs))"
proof -
  have "filter (\<lambda>x. x \<noteq> c) xs = remove1 c xs" using distinct_remove1_removeAll [OF assms(1)] by (auto simp: removeAll_filter_not_eq intro: filter_cong)
  then show ?thesis using assms(2) by (simp add: mset_remove1)
qed

lemma object_step:
  assumes ok: "object_ok pw st" and a: "object_allowed pw c (pool_view (op_store (fst st), snd st))"
  shows "\<exists>st'. object_call c st = Some st' \<and> object_ok pw st' \<and> (object_typed c \<and> balanced st \<longrightarrow> balanced st')"
proof -
  obtain op live where st: "st = (op, live)" by (cases st)
  have v: "pool_valid pw (op_store op, live)" "pool_ordered (pool_view (op_store op, live))" "distinct live"
    using ok by (simp_all add: object_ok_def st)
  note al = pool_valid_alloc [OF v(1)]
  have in_live: "c \<in> set live" if "pool_allowed pw (Pool_Ordered_Free c) (pool_view (op_store op, live))" for c
    using that v(1) by (auto elim: pool_validE)
  show ?thesis
  proof (cases c)
    case (Construct um throws f)
    then obtain res op' where c: "op_construct um throws f op = Some (res, op')" "op_destroyed op' = op_destroyed op"
        "case res of
         Inl e \<Rightarrow> throws \<and> object_ok pw (op', live) \<and> op_constructed op' = op_constructed op
       | Inr p \<Rightarrow> if p = 0 then object_ok pw (op', live) \<and> op_constructed op' = op_constructed op
           else \<not> throws \<and> object_ok pw (op', p # live) \<and> op_constructed op' = op_constructed op @ [p]"
      using construct_step [of pw op live um throws f] ok a st by auto
    then show ?thesis using Construct st by (cases res) (auto simp: balanced_def split: if_splits)
  next
    case (Destroy f p)
    then have p: "p \<in> set live" using in_live a st by simp
    let ?op = "call_destructor p pw f op"
    obtain pl' where pl': "pool_ordered_free p (op_store ?op) = Some pl'" "pool_valid pw (pl', filter (\<lambda>x. x \<noteq> p) live)"
        "pool_ordered (pool_view (pl', filter (\<lambda>x. x \<noteq> p) live))"
      using free_step [OF words_step [OF v(1,2) p, of f] p] by auto
    have "op_destroy f p op = Some (?op\<lparr>op_store := pl'\<rparr>)" using al pl'(1) by (simp add: op_destroy_def op_free_def)
    then show ?thesis using Destroy st pl'(2,3) v(3) mset_without [OF v(3) p] by (simp add: object_ok_def balanced_def)
  next
    case (Object_Malloc um)
    then obtain p pl' where "pool_ordered_malloc um (op_store op) = Some (p, pl')" "pool_valid pw (pl', if p = 0 then live else p # live)"
        "pool_ordered (pool_view (pl', if p = 0 then live else p # live))" "p \<notin> set live"
      using malloc_step [OF v(1,2), of um] a st by (auto simp del: pool_view.simps)
    then show ?thesis using Object_Malloc st v(3) by (auto simp: op_malloc_def object_ok_def simp del: pool_view.simps)
  next
    case (Object_Free p)
    then have "p \<in> set live" using in_live a st by simp
    then obtain pl' where "pool_ordered_free p (op_store op) = Some pl'" "pool_valid pw (pl', filter (\<lambda>x. x \<noteq> p) live)"
        "pool_ordered (pool_view (pl', filter (\<lambda>x. x \<noteq> p) live))" using free_step [OF v(1,2)] by blast
    then show ?thesis using Object_Free st v(3) by (simp add: op_free_def object_ok_def del: pool_view.simps)
  next
    case (Object_Next_Size n)
    then show ?thesis using pool_step [OF v(1,2), of "Pool_Set_Next_Size n"] a st v(3)
      by (auto simp: op_set_next_size_def object_ok_def balanced_def simp del: pool_view.simps)
  next
    case (Object_Write p off w)
    then show ?thesis using pool_step [OF v(1,2), of "Pool_Write p off w"] a st v(3)
      by (auto simp: object_ok_def balanced_def simp del: pool_view.simps)
  qed
qed

lemma object_run:
  assumes "object_ok pw st" and "run_ops (object_exec pw) cs st = Some st'"
  shows "object_ok pw st' \<and> (list_all object_typed cs \<and> balanced st \<longrightarrow> balanced st')"
  using assms
proof (induction cs arbitrary: st)
  case (Cons c cs)
  obtain st1 where st1: "object_exec pw c st = Some st1" "run_ops (object_exec pw) cs st1 = Some st'"
    using Cons.prems(2) by (auto split: option.splits)
  have a: "object_allowed pw c (pool_view (op_store (fst st), snd st))" and "object_call c st = Some st1"
    using st1(1) by (simp_all add: object_exec_def split: if_splits)
  then have "object_ok pw st1 \<and> (object_typed c \<and> balanced st \<longrightarrow> balanced st1)" using object_step [OF Cons.prems(1) a] by auto
  then show ?case using Cons.IH [of st1] st1(2) by simp
qed simp

lemma object_new:
  assumes "sizes_ok pw (length memory) (pool_ctor memory sizeof_T n m)"
  shows "object_ok pw (object_pool_ctor memory sizeof_T n m, [])" and "balanced (object_pool_ctor memory sizeof_T n m, [])"
  using pool_new [OF assms] by (simp_all add: object_ok_def balanced_def object_pool_ctor_def pool_ordered_def del: pool_view.simps)

subsection \<open>Properties\<close>

text \<open>C16 (objects and their destructors): whatever a client has done with an object pool, its preconditions kept, every
  further call that is allowed is defined, and the destructor ends: it calls the destructor of the element type exactly once for every
  chunk the client still holds, gives every block back to the user allocator exactly once, and leaves nothing for the
  destructor of the base class. If the client has only constructed and destroyed objects (with constructors that may
  throw), the objects constructed during the life of the pool are exactly the objects destroyed.\<close>

theorem object_pool_destroys_all:
  assumes "sizes_ok pw (length memory) (pool_ctor memory sizeof_T n m)"
    and "run_ops (object_exec pw) cs (object_pool_ctor memory sizeof_T n m, []) = Some (op, live)"
  shows "\<exists>bs xs op' ds. pool_view (op_store op, live) = (erase (op_store op), bs, xs, live)
    \<and> (\<forall>c. object_allowed pw c (pool_view (op_store op, live)) \<longrightarrow> object_exec pw c (op, live) \<noteq> None)
    \<and> object_pool_dtor f junk op = Some op' \<and> op_destroyed op' = op_destroyed op @ ds \<and> distinct ds \<and> set ds = set live
    \<and> pl_released (op_store op') = pl_released (op_store op) @ map fst bs
    \<and> (list_all object_typed cs \<longrightarrow> mset (op_constructed op') = mset (op_destroyed op'))"
proof -
  note new = object_new [OF assms(1)]
  have ok: "object_ok pw (op, live)" and bal: "list_all object_typed cs \<Longrightarrow> balanced (op, live)"
    using object_run [OF new(1) assms(2)] new(2) by blast+
  then have v: "pool_valid pw (op_store op, live)" "pool_ordered (pool_view (op_store op, live))" "distinct live"
    by (simp_all add: object_ok_def del: pool_view.simps)
  obtain bs xs where r: "pool_rel pw (op_store op) bs xs live" "sizes_ok pw (length (op_mem op)) (op_store op)"
    and view: "pool_view (op_store op, live) = (erase (op_store op), bs, xs, live)" using v(1) by (rule pool_validE)
  have so: "sorted (map fst bs)" "sorted xs" using v(2) view by (simp_all add: pool_ordered_def)
  obtain op' ds where d: "object_pool_dtor f junk op = Some op'" "op_destroyed op' = op_destroyed op @ ds" "distinct ds" "set ds = set live"
      "op_constructed op' = op_constructed op" "pl_released (op_store op') = pl_released (op_store op) @ map fst bs"
    using object_pool_dtor_rel [OF r(1) sizes_okD(1) [OF r(2)] so] by blast
  have "mset ds = mset live" using d(3,4) v(3) by (metis mset_set_set)
  then have "list_all object_typed cs \<longrightarrow> mset (op_constructed op') = mset (op_destroyed op')"
    using bal d(2,5) by (simp add: balanced_def)
  moreover have "\<forall>c. object_allowed pw c (pool_view (op_store op, live)) \<longrightarrow> object_exec pw c (op, live) \<noteq> None"
  proof (intro allI impI)
    fix c assume a: "object_allowed pw c (pool_view (op_store op, live))"
    then obtain st' where "object_call c (op, live) = Some st'" using object_step [OF ok, of c] by auto
    then show "object_exec pw c (op, live) \<noteq> None" using a by (simp add: object_exec_def del: pool_view.simps)
  qed
  ultimately show ?thesis using view d(1-4,6) by blast
qed

theorem object_pool_destroys_all_witness:
  "\<exists>op live op' ds. run_ops (object_exec 1) [Construct (\<lambda>_. 4) False (\<lambda>_. 7)] (object_pool_ctor (replicate 40 0) 8 2 0, []) = Some (op, live)
    \<and> object_pool_dtor (\<lambda>_. 1) (\<lambda>_. 9) op = Some op' \<and> op_destroyed op' = op_destroyed op @ ds \<and> set ds = set live
    \<and> mset (op_constructed op') = mset (op_destroyed op')"
proof -
  let ?op = "object_pool_ctor (replicate 40 0) 8 2 0" and ?c = "Construct (\<lambda>_. 4) False (\<lambda>_. 7)"
  have "object_allowed 1 ?c (pool_view (op_store (fst (?op, [])), snd (?op, [] :: nat list)))"
    using pool_new(2) [OF example_sizes] by (simp add: object_pool_ctor_def pool_eval pool_ctor_def erase_def storage_ctor_def)
  then obtain op live where run: "run_ops (object_exec 1) [?c] (?op, []) = Some (op, live)"
    using object_step [OF object_new(1) [OF example_sizes], of ?c] by (auto simp: object_exec_def simp del: pool_view.simps)
  have "list_all object_typed [?c]" by simp
  then show ?thesis using run object_pool_destroys_all [OF example_sizes run, of "\<lambda>_. 1" "\<lambda>_. 9"] by blast
qed

end
