(* ===== verification/D_Ary_Heap.thy ===== *)
theory D_Ary_Heap
  imports Data_Refinement "HOL-Library.Monad_Syntax" "HOL-Library.Multiset" "HOL-Library.Word"
begin

text \<open>
  \<^verbatim>\<open>boost::heap::d_ary_heap\<close> without handles (\<^verbatim>\<open>heap/d_ary_heap.hpp\<close>) and its base class \<^verbatim>\<open>heap_base\<close>
  (\<^verbatim>\<open>heap/detail/stable_heap.hpp\<close>). The class template is parametrised by its base class (the comparison, which may
  break ties by a stability counter), by the arity and by the index updater, which tells the elements their positions;
  these are the fields of \<open>heap_params\<close>. Comparison and updater may work on objects outside the
  vector: \<open>'s\<close> is their state, and \<open>None\<close> the result of an access to an object that does not exist.
\<close>

subsection \<open>The parameters\<close>

datatype heap_error = Counter_Overflow

record ('s, 'v, 'n, 'c) heap_base =
  hb_cmp :: "'s \<Rightarrow> 'n \<Rightarrow> 'n \<Rightarrow> bool option"
  make_node :: "'v \<Rightarrow> 'c \<Rightarrow> 'c \<times> (heap_error + 'n)"
  get_value :: "'n \<Rightarrow> 'v"
  initial_counter :: 'c

text \<open>Without stability the nodes are the values.\<close>

definition unstable_base :: "('s \<Rightarrow> 'v \<Rightarrow> 'v \<Rightarrow> bool option) \<Rightarrow> ('s, 'v, 'v, unit) heap_base" where
  "unstable_base cmp = \<lparr>hb_cmp = cmp, make_node = (\<lambda>v c. (c, Inr v)), get_value = (\<lambda>n. n), initial_counter = ()\<rparr>"

text \<open>With stability a node is a value with the number of its insertion; the counter type is a word.\<close>

definition internal_compare ::
  "('s \<Rightarrow> 'v \<Rightarrow> 'v \<Rightarrow> bool option) \<Rightarrow> 's \<Rightarrow> 'v \<times> 'w::len word \<Rightarrow> 'v \<times> 'w word \<Rightarrow> bool option" where
  "internal_compare cmp s lhs rhs = do {
     l \<leftarrow> cmp s (fst lhs) (fst rhs);
     if l then Some True
     else do {
       r \<leftarrow> cmp s (fst rhs) (fst lhs);
       if r then Some False else Some (snd lhs > snd rhs) } }"

definition stable_make_node :: "'v \<Rightarrow> 'w::len word \<Rightarrow> 'w word \<times> (heap_error + 'v \<times> 'w word)" where
  "stable_make_node val counter =
     (let count = counter + 1 in
      (count, if count = - 1 then Inl Counter_Overflow else Inr (val, count)))"

definition stable_base :: "('s \<Rightarrow> 'v \<Rightarrow> 'v \<Rightarrow> bool option) \<Rightarrow> ('s, 'v, 'v \<times> 'w::len word, 'w word) heap_base" where
  "stable_base cmp = \<lparr>hb_cmp = internal_compare cmp, make_node = stable_make_node, get_value = fst, initial_counter = 0\<rparr>"

record ('s, 'v, 'n, 'c) heap_params =
  super_t :: "('s, 'v, 'n, 'c) heap_base"
  arity :: nat
  index_run :: "'n \<Rightarrow> nat \<Rightarrow> 's \<Rightarrow> 's option"

definition nop_index_updater :: "'n \<Rightarrow> nat \<Rightarrow> 's \<Rightarrow> 's option" where
  "nop_index_updater n new_index s = Some s"

subsection \<open>The heap\<close>

record ('s, 'n, 'c) d_ary_heap =
  dh_q :: "'n list"
  dh_counter :: 'c
  outside :: 's

definition parent_index :: "nat \<Rightarrow> nat \<Rightarrow> nat" where
  "parent_index D index = (index - 1) div D"

definition first_child_index :: "nat \<Rightarrow> nat \<Rightarrow> nat" where
  "first_child_index D index = index * D + 1"

definition last_child_index :: "nat \<Rightarrow> nat \<Rightarrow> 'n list \<Rightarrow> nat" where
  "last_child_index D index q = min (first_child_index D index + D - 1) (length q - 1)"

definition not_leaf :: "nat \<Rightarrow> nat \<Rightarrow> 'n list \<Rightarrow> bool" where
  "not_leaf D index q = (first_child_index D index < length q)"

text \<open>The comparison of the elements at two positions.\<close>

definition cmp_at :: "('s, 'v, 'n, 'c) heap_params \<Rightarrow> nat \<Rightarrow> nat \<Rightarrow> ('s, 'n, 'c) d_ary_heap \<Rightarrow> bool option" where
  "cmp_at P i j h =
     (if i < length (dh_q h) \<and> j < length (dh_q h) then hb_cmp (super_t P) (outside h) (dh_q h ! i) (dh_q h ! j) else None)"

text \<open>\<^verbatim>\<open>std::max_element\<close> over the positions from \<open>i\<close> to \<open>last\<close>, with the largest so far.\<close>

function max_element :: "('s, 'v, 'n, 'c) heap_params \<Rightarrow> nat \<Rightarrow> nat \<Rightarrow> nat \<Rightarrow> ('s, 'n, 'c) d_ary_heap \<Rightarrow> nat option" where
  "max_element P largest i lastp h =
     (if i < lastp then do {
        less \<leftarrow> cmp_at P largest i h;
        max_element P (if less then i else largest) (i + 1) lastp h }
      else Some largest)"
  by pat_completeness auto
termination by (relation "measure (\<lambda>(P, largest, i, lastp, h). lastp - i)") auto

declare max_element.simps [simp del]

definition top_child_index :: "('s, 'v, 'n, 'c) heap_params \<Rightarrow> nat \<Rightarrow> ('s, 'n, 'c) d_ary_heap \<Rightarrow> nat option" where
  "top_child_index P index h =
     (let first_index = first_child_index (arity P) index;
          max_elements = length (dh_q h) - first_index;
          last_child = (if max_elements > arity P then first_index + arity P else length (dh_q h))
      in max_element P first_index (first_index + 1) last_child h)"

definition reset_index :: "('s, 'v, 'n, 'c) heap_params \<Rightarrow> nat \<Rightarrow> nat \<Rightarrow> ('s, 'n, 'c) d_ary_heap \<Rightarrow> ('s, 'n, 'c) d_ary_heap option" where
  "reset_index P index new_index h =
     (if index < length (dh_q h)
      then map_option (\<lambda>s. h\<lparr>outside := s\<rparr>) (index_run P (dh_q h ! index) new_index (outside h)) else None)"

definition swap_items :: "nat \<Rightarrow> nat \<Rightarrow> 'n list \<Rightarrow> 'n list" where
  "swap_items i j q = q[i := q ! j, j := q ! i]"

text \<open>The three statements that exchange two elements and update their positions.\<close>

definition exchange :: "('s, 'v, 'n, 'c) heap_params \<Rightarrow> nat \<Rightarrow> nat \<Rightarrow> ('s, 'n, 'c) d_ary_heap \<Rightarrow> ('s, 'n, 'c) d_ary_heap option" where
  "exchange P i j h = do {
     h1 \<leftarrow> reset_index P i j h;
     h2 \<leftarrow> reset_index P j i h1;
     Some (h2\<lparr>dh_q := swap_items j i (dh_q h2)\<rparr>) }"

partial_function (option) siftdown ::
  "('s, 'v, 'n, 'c) heap_params \<Rightarrow> nat \<Rightarrow> ('s, 'n, 'c) d_ary_heap \<Rightarrow> ('s, 'n, 'c) d_ary_heap option" where
  "siftdown P index h =
     (if not_leaf (arity P) index (dh_q h) then do {
        max_child_index \<leftarrow> top_child_index P index h;
        less \<leftarrow> cmp_at P max_child_index index h;
        if \<not> less then do {
          h1 \<leftarrow> exchange P index max_child_index h;
          siftdown P max_child_index h1 }
        else Some h }
      else Some h)"

function siftup :: "('s, 'v, 'n, 'c) heap_params \<Rightarrow> nat \<Rightarrow> ('s, 'n, 'c) d_ary_heap \<Rightarrow> ('s, 'n, 'c) d_ary_heap option" where
  "siftup P index h =
     (if index \<noteq> 0 then do {
        let parent = parent_index (arity P) index;
        less \<leftarrow> cmp_at P parent index h;
        if less then do {
          h1 \<leftarrow> exchange P index parent h;
          siftup P parent h1 }
        else Some h }
      else Some h)"
  by pat_completeness auto
termination
  by (relation "measure (\<lambda>(P, index, h). index)") (auto simp: parent_index_def intro: le_less_trans [OF div_le_dividend])

declare siftup.simps [simp del]

definition dh_construct :: "('s, 'v, 'n, 'c) heap_params \<Rightarrow> 's \<Rightarrow> ('s, 'n, 'c) d_ary_heap" where
  "dh_construct P s = \<lparr>dh_q = [], dh_counter = initial_counter (super_t P), outside = s\<rparr>"

text \<open>The move constructor, with what it leaves in \<open>rhs\<close>.\<close>

definition dh_move :: "('s, 'v, 'n, 'c) heap_params \<Rightarrow> ('s, 'n, 'c) d_ary_heap \<Rightarrow> ('s, 'n, 'c) d_ary_heap \<times> ('s, 'n, 'c) d_ary_heap" where
  "dh_move P rhs = (rhs, rhs\<lparr>dh_q := [], dh_counter := initial_counter (super_t P)\<rparr>)"

definition dh_swap :: "('s, 'n, 'c) d_ary_heap \<Rightarrow> ('s, 'n, 'c) d_ary_heap \<Rightarrow> ('s, 'n, 'c) d_ary_heap \<times> ('s, 'n, 'c) d_ary_heap" where
  "dh_swap h rhs = (h\<lparr>dh_q := dh_q rhs, dh_counter := dh_counter rhs\<rparr>, rhs\<lparr>dh_q := dh_q h, dh_counter := dh_counter h\<rparr>)"

definition dh_empty :: "('s, 'n, 'c) d_ary_heap \<Rightarrow> bool" where
  "dh_empty h = (dh_q h = [])"

definition dh_size :: "('s, 'n, 'c) d_ary_heap \<Rightarrow> nat" where
  "dh_size h = length (dh_q h)"

definition dh_clear :: "('s, 'n, 'c) d_ary_heap \<Rightarrow> ('s, 'n, 'c) d_ary_heap" where
  "dh_clear h = h\<lparr>dh_q := []\<rparr>"

definition dh_top :: "('s, 'v, 'n, 'c) heap_params \<Rightarrow> ('s, 'n, 'c) d_ary_heap \<Rightarrow> 'v option" where
  "dh_top P h = (if dh_empty h then None else Some (get_value (super_t P) (hd (dh_q h))))"

text \<open>An exception of \<^verbatim>\<open>make_node\<close> leaves the incremented counter behind.\<close>

definition dh_push ::
  "('s, 'v, 'n, 'c) heap_params \<Rightarrow> 'v \<Rightarrow> ('s, 'n, 'c) d_ary_heap \<Rightarrow> (('s, 'n, 'c) d_ary_heap \<times> (heap_error + unit)) option" where
  "dh_push P v h =
     (case make_node (super_t P) v (dh_counter h) of
        (c, Inl e) \<Rightarrow> Some (h\<lparr>dh_counter := c\<rparr>, Inl e)
      | (c, Inr n) \<Rightarrow> do {
          let h1 = h\<lparr>dh_counter := c, dh_q := dh_q h @ [n]\<rparr>;
          h2 \<leftarrow> reset_index P (dh_size h1 - 1) (dh_size h1 - 1) h1;
          h3 \<leftarrow> siftup P (dh_size h2 - 1) h2;
          Some (h3, Inr ()) })"

definition dh_pop :: "('s, 'v, 'n, 'c) heap_params \<Rightarrow> ('s, 'n, 'c) d_ary_heap \<Rightarrow> ('s, 'n, 'c) d_ary_heap option" where
  "dh_pop P h =
     (if dh_empty h then None
      else do {
        let h1 = h\<lparr>dh_q := butlast (swap_items 0 (length (dh_q h) - 1) (dh_q h))\<rparr>;
        if dh_empty h1 then Some h1
        else do {
          h2 \<leftarrow> reset_index P 0 0 h1;
          siftdown P 0 h2 } })"

definition dh_update :: "('s, 'v, 'n, 'c) heap_params \<Rightarrow> nat \<Rightarrow> ('s, 'n, 'c) d_ary_heap \<Rightarrow> ('s, 'n, 'c) d_ary_heap option" where
  "dh_update P index h =
     (if index = 0 then siftdown P index h
      else do {
        let parent = parent_index (arity P) index;
        less \<leftarrow> cmp_at P parent index h;
        if less then siftup P index h else siftdown P index h })"

function dh_erase_loop :: "('s, 'v, 'n, 'c) heap_params \<Rightarrow> nat \<Rightarrow> ('s, 'n, 'c) d_ary_heap \<Rightarrow> ('s, 'n, 'c) d_ary_heap option" where
  "dh_erase_loop P index h =
     (if index \<noteq> 0 then do {
        let parent = parent_index (arity P) index;
        h1 \<leftarrow> exchange P index parent h;
        dh_erase_loop P parent h1 }
      else Some h)"
  by pat_completeness auto
termination
  by (relation "measure (\<lambda>(P, index, h). index)") (auto simp: parent_index_def intro: le_less_trans [OF div_le_dividend])

declare dh_erase_loop.simps [simp del]

definition dh_erase :: "('s, 'v, 'n, 'c) heap_params \<Rightarrow> nat \<Rightarrow> ('s, 'n, 'c) d_ary_heap \<Rightarrow> ('s, 'n, 'c) d_ary_heap option" where
  "dh_erase P index h = Option.bind (dh_erase_loop P index h) (dh_pop P)"

definition dh_increase :: "('s, 'v, 'n, 'c) heap_params \<Rightarrow> nat \<Rightarrow> ('s, 'n, 'c) d_ary_heap \<Rightarrow> ('s, 'n, 'c) d_ary_heap option" where
  "dh_increase P index h = siftup P index h"

definition dh_decrease :: "('s, 'v, 'n, 'c) heap_params \<Rightarrow> nat \<Rightarrow> ('s, 'n, 'c) d_ary_heap \<Rightarrow> ('s, 'n, 'c) d_ary_heap option" where
  "dh_decrease P index h = siftdown P index h"

lemmas heap_unfold [code] = siftdown.simps

end
