(* ===== verification/Heap_Sift.thy ===== *)
theory Heap_Sift
  imports D_Ary_Heap
begin

text \<open>
  The order of a d-ary heap and how the loops restore it. The locale \<open>heap_laws\<close> states what the heap relies on: a comparison
  that is a strict weak order on the live nodes, and an index updater that changes neither the order
  nor which nodes are live. \<open>indexed_laws\<close> adds that the updater stores the positions.
\<close>

subsection \<open>Positions\<close>

lemma parent_lt: "0 < i \<Longrightarrow> parent_index D i < i"
  by (auto simp: parent_index_def intro: le_less_trans [OF div_le_dividend])

lemma parent_child:
  assumes "0 < D"
  shows "0 < j \<and> parent_index D j = i \<longleftrightarrow> first_child_index D i \<le> j \<and> j < first_child_index D i + D"
proof -
  have "0 < j \<Longrightarrow> (j - 1) div D = i \<longleftrightarrow> i * D \<le> j - 1 \<and> j - 1 < i * D + D"
    using assms div_nat_eqI [of D i "j - 1"] dividend_less_times_div [of D "j - 1"] times_div_less_eq_dividend [of D "j - 1"]
    by (auto simp: algebra_simps)
  then show ?thesis by (cases j) (auto simp: parent_index_def first_child_index_def)
qed

lemma child_gt: "0 < D \<Longrightarrow> i < first_child_index D i"
  by (cases D) (auto simp: first_child_index_def)

lemma swap_items_length [simp]: "length (swap_items i j q) = length q"
  by (simp add: swap_items_def)

lemma swap_items_nth:
  "i < length q \<Longrightarrow> j < length q \<Longrightarrow> k < length q \<Longrightarrow>
   swap_items i j q ! k = (if k = j then q ! i else if k = i then q ! j else q ! k)"
  by (auto simp: swap_items_def nth_list_update)

lemma swap_items_commute: "i < length q \<Longrightarrow> j < length q \<Longrightarrow> swap_items i j q = swap_items j i q"
  by (rule nth_equalityI) (simp_all add: swap_items_nth)

lemma mset_swap_items [simp]: "i < length q \<Longrightarrow> j < length q \<Longrightarrow> mset (swap_items i j q) = mset q"
  unfolding swap_items_def by (rule mset_swap)

text \<open>The loops change the heap by exchanges only.\<close>

inductive exchanged :: "('s, 'v, 'n, 'c) heap_params \<Rightarrow> ('s, 'n, 'c) d_ary_heap \<Rightarrow> ('s, 'n, 'c) d_ary_heap \<Rightarrow> bool"
  for P where
  stay: "exchanged P h h"
| move: "i < length (dh_q h) \<Longrightarrow> j < length (dh_q h) \<Longrightarrow> exchange P i j h = Some h1 \<Longrightarrow> exchanged P h1 h2 \<Longrightarrow> exchanged P h h2"

subsection \<open>The laws\<close>

locale heap_laws =
  fixes P :: "('s, 'v, 'n, 'c) heap_params" and lt :: "'s \<Rightarrow> 'n \<Rightarrow> 'n \<Rightarrow> bool" and live :: "'s \<Rightarrow> 'n \<Rightarrow> bool"
  assumes arity: "0 < arity P"
    and cmp: "live s n \<Longrightarrow> live s m \<Longrightarrow> hb_cmp (super_t P) s n m = Some (lt s n m)"
    and asym: "lt s n m \<Longrightarrow> \<not> lt s m n"
    and neg_trans: "\<not> lt s n m \<Longrightarrow> \<not> lt s m k \<Longrightarrow> \<not> lt s n k"
    and run_live: "live s n \<Longrightarrow> \<exists>s'. index_run P n i s = Some s' \<and> live s' = live s \<and> lt s' = lt s"
begin

abbreviation parent :: "nat \<Rightarrow> nat" where
  "parent \<equiv> parent_index (arity P)"

definition live_all :: "('s, 'n, 'c) d_ary_heap \<Rightarrow> bool" where
  "live_all h \<longleftrightarrow> (\<forall>n\<in>set (dh_q h). live (outside h) n)"

text \<open>The element at \<open>j\<close> is not above its parent.\<close>

definition below :: "('s, 'n, 'c) d_ary_heap \<Rightarrow> nat \<Rightarrow> bool" where
  "below h j \<longleftrightarrow> \<not> lt (outside h) (dh_q h ! parent j) (dh_q h ! j)"

definition heap_ordered :: "('s, 'n, 'c) d_ary_heap \<Rightarrow> bool" where
  "heap_ordered h \<longleftrightarrow> (\<forall>j < length (dh_q h). 0 < j \<longrightarrow> below h j)"

text \<open>The children of \<open>i\<close> are not above the parent of \<open>i\<close>.\<close>

definition grandparent :: "('s, 'n, 'c) d_ary_heap \<Rightarrow> nat \<Rightarrow> bool" where
  "grandparent h i \<longleftrightarrow> (\<forall>j < length (dh_q h). 0 < i \<and> 0 < j \<and> parent j = i \<longrightarrow> \<not> lt (outside h) (dh_q h ! parent i) (dh_q h ! j))"

text \<open>The order holds but for the element at \<open>i\<close>: against its parent, against its children, or both.\<close>

definition up_at :: "('s, 'n, 'c) d_ary_heap \<Rightarrow> nat \<Rightarrow> bool" where
  "up_at h i \<longleftrightarrow> (\<forall>j < length (dh_q h). 0 < j \<and> j \<noteq> i \<longrightarrow> below h j) \<and> grandparent h i"

definition down_at :: "('s, 'n, 'c) d_ary_heap \<Rightarrow> nat \<Rightarrow> bool" where
  "down_at h i \<longleftrightarrow> (\<forall>j < length (dh_q h). 0 < j \<and> parent j \<noteq> i \<longrightarrow> below h j) \<and> grandparent h i"

definition hole_at :: "('s, 'n, 'c) d_ary_heap \<Rightarrow> nat \<Rightarrow> bool" where
  "hole_at h i \<longleftrightarrow> (\<forall>j < length (dh_q h). 0 < j \<and> j \<noteq> i \<and> parent j \<noteq> i \<longrightarrow> below h j) \<and> grandparent h i"

lemma refl_lt: "\<not> lt s n n"
  using asym by blast

lemma ordered_grandparent: "heap_ordered h \<Longrightarrow> i < length (dh_q h) \<Longrightarrow> grandparent h i"
  unfolding heap_ordered_def grandparent_def below_def by (metis neg_trans)

lemma ordered_hole: "heap_ordered h \<Longrightarrow> i < length (dh_q h) \<Longrightarrow> hole_at h i"
  using ordered_grandparent by (auto simp: hole_at_def heap_ordered_def)

subsection \<open>Exchanges\<close>

text \<open>What every exchange keeps.\<close>

definition same_heap :: "('s, 'n, 'c) d_ary_heap \<Rightarrow> ('s, 'n, 'c) d_ary_heap \<Rightarrow> bool" where
  "same_heap h h' \<longleftrightarrow> mset (dh_q h') = mset (dh_q h) \<and> dh_counter h' = dh_counter h
     \<and> live (outside h') = live (outside h) \<and> lt (outside h') = lt (outside h)"

lemma same_heap_refl [simp]: "same_heap h h"
  by (simp add: same_heap_def)

lemma same_heap_trans [trans]: "same_heap h h' \<Longrightarrow> same_heap h' h'' \<Longrightarrow> same_heap h h''"
  by (simp add: same_heap_def)

lemma same_heapD:
  assumes "same_heap h h'"
  shows "length (dh_q h') = length (dh_q h)" "set (dh_q h') = set (dh_q h)" "live_all h' = live_all h"
  using assms by (auto simp: same_heap_def live_all_def dest: mset_eq_length mset_eq_setD)

lemma reset_live:
  assumes "live_all h" "i < length (dh_q h)"
  obtains s where "reset_index P i k h = Some (h\<lparr>outside := s\<rparr>)" "live s = live (outside h)" "lt s = lt (outside h)"
proof -
  have "live (outside h) (dh_q h ! i)" using assms by (simp add: live_all_def)
  from run_live [OF this, of k] show thesis using that assms by (auto simp: reset_index_def)
qed

lemma exchange_live:
  assumes "live_all h" "i < length (dh_q h)" "j < length (dh_q h)"
  obtains s where "exchange P i j h = Some (h\<lparr>outside := s, dh_q := swap_items i j (dh_q h)\<rparr>)"
    "live s = live (outside h)" "lt s = lt (outside h)"
proof -
  obtain s where s: "reset_index P i j h = Some (h\<lparr>outside := s\<rparr>)" "live s = live (outside h)" "lt s = lt (outside h)"
    using reset_live [OF assms(1,2)] .
  have "live_all (h\<lparr>outside := s\<rparr>)" using assms(1) s(2) by (simp add: live_all_def)
  then obtain s' where s': "reset_index P j i (h\<lparr>outside := s\<rparr>) = Some (h\<lparr>outside := s'\<rparr>)" "live s' = live s" "lt s' = lt s"
    using reset_live [of "h\<lparr>outside := s\<rparr>" j i] assms(3) by auto
  show thesis using s s' assms swap_items_commute [of i "dh_q h" j] by (intro that [of s']) (simp_all add: exchange_def)
qed

text \<open>Order after an exchange, read in the old heap.\<close>

lemma exchanged_below:
  assumes "i < length (dh_q h)" "p < length (dh_q h)" "j < length (dh_q h)" "0 < j" "lt s = lt (outside h)"
  shows "below (h\<lparr>outside := s, dh_q := swap_items i p (dh_q h)\<rparr>) j \<longleftrightarrow>
    \<not> lt (outside h) (if parent j = p then dh_q h ! i else if parent j = i then dh_q h ! p else dh_q h ! parent j)
       (if j = p then dh_q h ! i else if j = i then dh_q h ! p else dh_q h ! j)"
proof -
  have "parent j < length (dh_q h)" using parent_lt [OF assms(4), of "arity P"] assms(3) by simp
  then show ?thesis using assms by (simp add: below_def swap_items_nth)
qed

lemma exchanged_grandparent:
  assumes "i < length (dh_q h)" "p < length (dh_q h)" "lt s = lt (outside h)"
    and "\<And>j. j < length (dh_q h) \<Longrightarrow> 0 < k \<Longrightarrow> 0 < j \<Longrightarrow> parent j = k \<Longrightarrow>
      \<not> lt (outside h) (if parent k = p then dh_q h ! i else if parent k = i then dh_q h ! p else dh_q h ! parent k)
       (if j = p then dh_q h ! i else if j = i then dh_q h ! p else dh_q h ! j)"
  shows "grandparent (h\<lparr>outside := s, dh_q := swap_items i p (dh_q h)\<rparr>) k"
  unfolding grandparent_def
proof (intro allI impI, elim conjE)
  fix j assume j: "j < length (dh_q (h\<lparr>outside := s, dh_q := swap_items i p (dh_q h)\<rparr>))" "0 < k" "0 < j" "parent j = k"
  then have "parent k < length (dh_q h)" using parent_lt [of j "arity P"] parent_lt [of k "arity P"] by simp
  then show "\<not> lt (outside (h\<lparr>outside := s, dh_q := swap_items i p (dh_q h)\<rparr>)) (dh_q (h\<lparr>outside := s, dh_q := swap_items i p (dh_q h)\<rparr>) ! parent k)
     (dh_q (h\<lparr>outside := s, dh_q := swap_items i p (dh_q h)\<rparr>) ! j)"
    using assms j by (simp add: swap_items_nth)
qed

lemma up_step:
  assumes up: "up_at h i" and i: "0 < i" "i < length (dh_q h)" and l: "lt (outside h) (dh_q h ! parent i) (dh_q h ! i)"
    and s: "lt s = lt (outside h)"
  shows "up_at (h\<lparr>outside := s, dh_q := swap_items i (parent i) (dh_q h)\<rparr>) (parent i)"
proof -
  let ?p = "parent i" and ?q = "dh_q h" and ?lt = "lt (outside h)"
  have p: "?p < i" "?p < length ?q" using parent_lt [OF i(1), of "arity P"] i(2) by simp_all
  have b: "\<not> ?lt (?q ! parent j) (?q ! j)" if "j < length ?q" "0 < j" "j \<noteq> i" for j
    using up that by (simp add: up_at_def below_def)
  have g: "\<not> ?lt (?q ! ?p) (?q ! j)" if "j < length ?q" "0 < j" "parent j = i" for j
    using up that i by (simp add: up_at_def grandparent_def)
  have ge: "\<not> ?lt (?q ! i) (?q ! ?p)" using asym [OF l] .
  show ?thesis unfolding up_at_def
  proof (intro conjI allI impI, elim conjE)
    fix j assume j: "j < length (dh_q (h\<lparr>outside := s, dh_q := swap_items i ?p ?q\<rparr>))" "0 < j" "j \<noteq> ?p"
    then show "below (h\<lparr>outside := s, dh_q := swap_items i ?p ?q\<rparr>) j"
      using exchanged_below [OF i(2) p(2) _ j(2) s] b [of j] g [of j] ge neg_trans [OF ge, of "?q ! j"] p parent_lt [OF j(2), of "arity P"]
      by auto
  next
    show "grandparent (h\<lparr>outside := s, dh_q := swap_items i ?p ?q\<rparr>) ?p"
    proof (rule exchanged_grandparent [OF i(2) p(2) s])
      fix j assume j: "j < length ?q" "0 < ?p" "0 < j" "parent j = ?p"
      have "parent ?p < ?p" using parent_lt [OF j(2)] .
      moreover have "\<not> ?lt (?q ! parent ?p) (?q ! ?p)" using b [of ?p] p j(2) by simp
      moreover have "j \<noteq> i \<Longrightarrow> \<not> ?lt (?q ! parent ?p) (?q ! j)" using neg_trans [OF calculation(2), of "?q ! j"] b [OF j(1,3)] j(4) by simp
      ultimately show "\<not> ?lt (if parent ?p = ?p then ?q ! i else if parent ?p = i then ?q ! ?p else ?q ! parent ?p)
          (if j = ?p then ?q ! i else if j = i then ?q ! ?p else ?q ! j)"
        using p parent_lt [OF j(3), of "arity P"] j(4) by auto
    qed
  qed
qed

lemma hole_step:
  assumes hl: "hole_at h i" and i: "0 < i" "i < length (dh_q h)" and s: "lt s = lt (outside h)"
  shows "hole_at (h\<lparr>outside := s, dh_q := swap_items i (parent i) (dh_q h)\<rparr>) (parent i)"
proof -
  let ?p = "parent i" and ?q = "dh_q h" and ?lt = "lt (outside h)"
  have p: "?p < i" "?p < length ?q" using parent_lt [OF i(1), of "arity P"] i(2) by simp_all
  have b: "\<not> ?lt (?q ! parent j) (?q ! j)" if "j < length ?q" "0 < j" "j \<noteq> i" "parent j \<noteq> i" for j
    using hl that by (simp add: hole_at_def below_def)
  have g: "\<not> ?lt (?q ! ?p) (?q ! j)" if "j < length ?q" "0 < j" "parent j = i" for j
    using hl that i by (simp add: hole_at_def grandparent_def)
  show ?thesis unfolding hole_at_def
  proof (intro conjI allI impI, elim conjE)
    fix j assume j: "j < length (dh_q (h\<lparr>outside := s, dh_q := swap_items i ?p ?q\<rparr>))" "0 < j" "j \<noteq> ?p" "parent j \<noteq> ?p"
    then show "below (h\<lparr>outside := s, dh_q := swap_items i ?p ?q\<rparr>) j"
      using exchanged_below [OF i(2) p(2) _ j(2) s] b [of j] g [of j] p parent_lt [OF j(2), of "arity P"] by auto
  next
    show "grandparent (h\<lparr>outside := s, dh_q := swap_items i ?p ?q\<rparr>) ?p"
    proof (rule exchanged_grandparent [OF i(2) p(2) s])
      fix j assume j: "j < length ?q" "0 < ?p" "0 < j" "parent j = ?p"
      have "parent ?p < ?p" using parent_lt [OF j(2)] .
      moreover have "\<not> ?lt (?q ! parent ?p) (?q ! ?p)" using b [of ?p] p j(2) calculation by simp
      moreover have "j \<noteq> i \<Longrightarrow> \<not> ?lt (?q ! parent ?p) (?q ! j)" using neg_trans [OF calculation(2), of "?q ! j"] b [OF j(1,3)] j(4) p by simp
      ultimately show "\<not> ?lt (if parent ?p = ?p then ?q ! i else if parent ?p = i then ?q ! ?p else ?q ! parent ?p)
          (if j = ?p then ?q ! i else if j = i then ?q ! ?p else ?q ! j)"
        using p parent_lt [OF j(3), of "arity P"] j(4) by auto
    qed
  qed
qed

lemma down_step:
  assumes dn: "down_at h i" and m: "0 < m" "m < length (dh_q h)" "parent m = i"
    and mx: "\<And>j. j < length (dh_q h) \<Longrightarrow> 0 < j \<Longrightarrow> parent j = i \<Longrightarrow> \<not> lt (outside h) (dh_q h ! m) (dh_q h ! j)"
    and l: "\<not> lt (outside h) (dh_q h ! m) (dh_q h ! i)" and s: "lt s = lt (outside h)"
  shows "down_at (h\<lparr>outside := s, dh_q := swap_items i m (dh_q h)\<rparr>) m"
proof -
  let ?q = "dh_q h" and ?lt = "lt (outside h)"
  have i: "i < m" "i < length ?q" using parent_lt [OF m(1), of "arity P"] m by simp_all
  have b: "\<not> ?lt (?q ! parent j) (?q ! j)" if "j < length ?q" "0 < j" "parent j \<noteq> i" for j
    using dn that by (simp add: down_at_def below_def)
  have g: "\<not> ?lt (?q ! parent i) (?q ! m)" if "0 < i" using dn that m by (simp add: down_at_def grandparent_def)
  show ?thesis unfolding down_at_def
  proof (intro conjI allI impI, elim conjE)
    fix j assume j: "j < length (dh_q (h\<lparr>outside := s, dh_q := swap_items i m ?q\<rparr>))" "0 < j" "parent j \<noteq> m"
    then show "below (h\<lparr>outside := s, dh_q := swap_items i m ?q\<rparr>) j"
      using exchanged_below [OF i(2) m(2) _ j(2) s] b [of j] g mx [of j] l i m(3) parent_lt [OF j(2), of "arity P"] by auto
  next
    show "grandparent (h\<lparr>outside := s, dh_q := swap_items i m ?q\<rparr>) m"
    proof (rule exchanged_grandparent [OF i(2) m(2) s])
      fix j assume j: "j < length ?q" "0 < m" "0 < j" "parent j = m"
      then show "\<not> ?lt (if parent m = m then ?q ! i else if parent m = i then ?q ! m else ?q ! parent m)
          (if j = m then ?q ! i else if j = i then ?q ! m else ?q ! j)"
        using b [of j] i m(3) parent_lt [OF j(3), of "arity P"] by auto
    qed
  qed
qed

end

context heap_laws
begin

subsection \<open>The loops\<close>

lemma cmp_at_live: "live_all h \<Longrightarrow> i < length (dh_q h) \<Longrightarrow> j < length (dh_q h) \<Longrightarrow>
    cmp_at P i j h = Some (lt (outside h) (dh_q h ! i) (dh_q h ! j))"
  by (simp add: cmp_at_def cmp live_all_def)

lemma max_element_live:
  assumes "live_all h" "largest < i" "i \<le> lastp" "lastp \<le> length (dh_q h)"
  shows "\<exists>m. max_element P largest i lastp h = Some m \<and> (m = largest \<or> i \<le> m \<and> m < lastp)
    \<and> (\<forall>k. k = largest \<or> i \<le> k \<and> k < lastp \<longrightarrow> \<not> lt (outside h) (dh_q h ! m) (dh_q h ! k))"
  using assms(2,3)
proof (induction "lastp - i" arbitrary: largest i)
  case 0
  then show ?case using refl_lt by (subst max_element.simps) auto
next
  case (Suc k)
  let ?l = "if lt (outside h) (dh_q h ! largest) (dh_q h ! i) then i else largest"
  have st: "max_element P largest i lastp h = max_element P ?l (i + 1) lastp h"
    using Suc.hyps(2) Suc.prems assms(1,4) cmp_at_live [of h largest i] by (subst max_element.simps) auto
  have "k = lastp - (i + 1)" "?l < i + 1" "i + 1 \<le> lastp" using Suc.hyps(2) Suc.prems by auto
  from Suc.hyps(1) [OF this]
  obtain m where m: "max_element P ?l (i + 1) lastp h = Some m" "m = ?l \<or> i + 1 \<le> m \<and> m < lastp"
    "\<And>k. k = ?l \<or> i + 1 \<le> k \<and> k < lastp \<Longrightarrow> \<not> lt (outside h) (dh_q h ! m) (dh_q h ! k)" by blast
  have "\<not> lt (outside h) (dh_q h ! ?l) (dh_q h ! i)" "\<not> lt (outside h) (dh_q h ! ?l) (dh_q h ! largest)"
    using asym refl_lt by auto
  then have "\<not> lt (outside h) (dh_q h ! m) (dh_q h ! i)" "\<not> lt (outside h) (dh_q h ! m) (dh_q h ! largest)"
    using m(3) [of ?l] neg_trans by blast+
  moreover have "m = largest \<or> i \<le> m \<and> m < lastp" using m(2) Suc.hyps(2) by (auto split: if_splits)
  ultimately show ?case using m(1,3) st by (metis Suc_eq_plus1 Suc_leI le_neq_implies_less)
qed

lemma top_child_live:
  assumes "live_all h" "not_leaf (arity P) i (dh_q h)"
  obtains m where "top_child_index P i h = Some m" "0 < m" "m < length (dh_q h)" "parent m = i"
    "\<And>j. j < length (dh_q h) \<Longrightarrow> 0 < j \<Longrightarrow> parent j = i \<Longrightarrow> \<not> lt (outside h) (dh_q h ! m) (dh_q h ! j)"
proof -
  let ?f = "first_child_index (arity P) i" and ?n = "length (dh_q h)"
  let ?l = "if ?n - ?f > arity P then ?f + arity P else ?n"
  have f: "?f < ?n" using assms(2) by (simp add: not_leaf_def)
  have l: "?f + 1 \<le> ?l" "?l \<le> ?n" using f arity by auto
  have ch: "?f \<le> j \<and> j < ?l \<longleftrightarrow> 0 < j \<and> j < ?n \<and> parent j = i" for j
    using parent_child [OF arity, of j i] f by auto
  have "?f < ?f + 1" by simp
  from max_element_live [OF assms(1) this l]
  obtain m where m: "max_element P ?f (?f + 1) ?l h = Some m" "m = ?f \<or> ?f + 1 \<le> m \<and> m < ?l"
    "\<And>k. k = ?f \<or> ?f + 1 \<le> k \<and> k < ?l \<Longrightarrow> \<not> lt (outside h) (dh_q h ! m) (dh_q h ! k)" by blast
  have "?f \<le> m \<and> m < ?l" using m(2) l(1) by auto
  then have "0 < m" "m < ?n" "parent m = i" using ch by blast+
  moreover have "\<not> lt (outside h) (dh_q h ! m) (dh_q h ! j)" if "j < ?n" "0 < j" "parent j = i" for j
  proof -
    have "?f \<le> j \<and> j < ?l" using ch that by blast
    then show ?thesis using m(3) [of j] by (cases "j = ?f") auto
  qed
  moreover have "top_child_index P i h = Some m" using m(1) by (simp add: top_child_index_def Let_def)
  ultimately show thesis using that by blast
qed

lemma exchange_same:
  assumes "live_all h" "i < length (dh_q h)" "j < length (dh_q h)"
  obtains s h1 where "exchange P i j h = Some h1" "h1 = h\<lparr>outside := s, dh_q := swap_items i j (dh_q h)\<rparr>"
    "lt s = lt (outside h)" "same_heap h h1" "live_all h1"
proof -
  obtain s where "exchange P i j h = Some (h\<lparr>outside := s, dh_q := swap_items i j (dh_q h)\<rparr>)"
    "live s = live (outside h)" "lt s = lt (outside h)" using exchange_live [OF assms] .
  moreover have sm: "same_heap h (h\<lparr>outside := s, dh_q := swap_items i j (dh_q h)\<rparr>)"
    using calculation assms by (simp add: same_heap_def)
  ultimately show thesis using that same_heapD(3) [OF sm] assms(1) by blast
qed

lemma siftup_live:
  assumes "live_all h" "i < length (dh_q h)" "up_at h i"
  shows "\<exists>h'. siftup P i h = Some h' \<and> heap_ordered h' \<and> same_heap h h' \<and> exchanged P h h'"
  using assms
proof (induction i arbitrary: h rule: less_induct)
  case (less i)
  show ?case
  proof (cases "i = 0")
    case True
    then have "heap_ordered h" using less.prems(3) by (simp add: heap_ordered_def up_at_def)
    then show ?thesis using True by (subst siftup.simps) (auto intro: exchanged.stay)
  next
    case False
    let ?p = "parent i"
    have p: "?p < i" "?p < length (dh_q h)" using parent_lt [of i "arity P"] False less.prems(2) by auto
    show ?thesis
    proof (cases "lt (outside h) (dh_q h ! ?p) (dh_q h ! i)")
      case True
      obtain s h1 where h1: "exchange P i ?p h = Some h1" "h1 = h\<lparr>outside := s, dh_q := swap_items i ?p (dh_q h)\<rparr>"
        "lt s = lt (outside h)" "same_heap h h1" "live_all h1" using exchange_same [OF less.prems(1,2) p(2)] .
      have "up_at h1 ?p" unfolding h1(2) using less.prems False True h1(3) by (intro up_step) auto
      then obtain h' where "siftup P ?p h1 = Some h'" "heap_ordered h'" "same_heap h1 h'" "exchanged P h1 h'"
        using less.IH [OF p(1) h1(5)] p(2) same_heapD(1) [OF h1(4)] by auto
      moreover from this have "exchanged P h h'" using less.prems(2) p(2) h1(1) by (auto intro: exchanged.move)
      ultimately show ?thesis using False True h1(1,4) cmp_at_live [OF less.prems(1) p(2) less.prems(2)]
        by (subst siftup.simps) (auto intro: same_heap_trans simp: Let_def)
    next
      case nl: False
      then have "heap_ordered h" using less.prems(3) by (auto simp: heap_ordered_def up_at_def below_def)
      then show ?thesis using False nl cmp_at_live [OF less.prems(1) p(2) less.prems(2)]
        by (subst siftup.simps) (auto intro: exchanged.stay simp: Let_def)
    qed
  qed
qed

lemma siftdown_live:
  assumes "live_all h" "i < length (dh_q h)" "down_at h i"
  shows "\<exists>h'. siftdown P i h = Some h' \<and> heap_ordered h' \<and> same_heap h h' \<and> exchanged P h h'"
  using assms
proof (induction "length (dh_q h) - i" arbitrary: h i rule: less_induct)
  case less
  show ?case
  proof (cases "not_leaf (arity P) i (dh_q h)")
    case False
    have "parent j \<noteq> i" if "j < length (dh_q h)" "0 < j" for j
      using parent_child [OF arity, of j i] False that by (auto simp: not_leaf_def)
    then have "heap_ordered h" using less.prems(3) by (auto simp: heap_ordered_def down_at_def)
    then show ?thesis using False by (subst siftdown.simps) (auto intro: exchanged.stay)
  next
    case True
    obtain m where m: "top_child_index P i h = Some m" "0 < m" "m < length (dh_q h)" "parent m = i"
      "\<And>j. j < length (dh_q h) \<Longrightarrow> 0 < j \<Longrightarrow> parent j = i \<Longrightarrow> \<not> lt (outside h) (dh_q h ! m) (dh_q h ! j)"
      using top_child_live [OF less.prems(1) True] by blast
    have im: "i < m" using parent_lt [OF m(2), of "arity P"] m(4) by simp
    note cm = cmp_at_live [OF less.prems(1) m(3) less.prems(2)]
    show ?thesis
    proof (cases "lt (outside h) (dh_q h ! m) (dh_q h ! i)")
      case lt: True
      have "below h j" if "j < length (dh_q h)" "0 < j" for j
        using less.prems(3) that neg_trans [OF asym [OF lt]] m(5) [OF that] by (cases "parent j = i") (auto simp: down_at_def below_def)
      then have "heap_ordered h" by (simp add: heap_ordered_def)
      then show ?thesis using True lt m(1) cm by (subst siftdown.simps) (auto intro: exchanged.stay)
    next
      case nl: False
      obtain s h1 where h1: "exchange P i m h = Some h1" "h1 = h\<lparr>outside := s, dh_q := swap_items i m (dh_q h)\<rparr>"
        "lt s = lt (outside h)" "same_heap h h1" "live_all h1" using exchange_same [OF less.prems(1,2) m(3)] .
      have dn: "down_at h1 m" unfolding h1(2) using less.prems(3) m nl h1(3) by (intro down_step) auto
      have "length (dh_q h1) - m < length (dh_q h) - i" "m < length (dh_q h1)" using im m(3) same_heapD(1) [OF h1(4)] by auto
      from less.hyps [OF this(1) h1(5) this(2) dn]
      obtain h' where "siftdown P m h1 = Some h'" "heap_ordered h'" "same_heap h1 h'" "exchanged P h1 h'" by blast
      moreover from this have "exchanged P h h'" using less.prems(2) m(3) h1(1) by (auto intro: exchanged.move)
      ultimately show ?thesis using True nl m(1) cm h1(1,4)
        by (subst siftdown.simps) (auto intro: same_heap_trans)
    qed
  qed
qed

lemma erase_loop_live:
  assumes "live_all h" "i < length (dh_q h)" "hole_at h i"
  shows "\<exists>h'. dh_erase_loop P i h = Some h' \<and> hole_at h' 0 \<and> dh_q h' ! 0 = dh_q h ! i \<and> same_heap h h' \<and> exchanged P h h'"
  using assms
proof (induction i arbitrary: h rule: less_induct)
  case (less i)
  show ?case
  proof (cases "i = 0")
    case True
    then show ?thesis using less.prems by (subst dh_erase_loop.simps) (auto intro: exchanged.stay)
  next
    case False
    let ?p = "parent i"
    have p: "?p < i" "?p < length (dh_q h)" using parent_lt [of i "arity P"] False less.prems(2) by auto
    obtain s h1 where h1: "exchange P i ?p h = Some h1" "h1 = h\<lparr>outside := s, dh_q := swap_items i ?p (dh_q h)\<rparr>"
      "lt s = lt (outside h)" "same_heap h h1" "live_all h1" using exchange_same [OF less.prems(1,2) p(2)] .
    have "hole_at h1 ?p" unfolding h1(2) using less.prems False h1(3) by (intro hole_step) auto
    then obtain h' where "dh_erase_loop P ?p h1 = Some h'" "hole_at h' 0" "dh_q h' ! 0 = dh_q h1 ! ?p" "same_heap h1 h'" "exchanged P h1 h'"
      using less.IH [OF p(1) h1(5)] p(2) same_heapD(1) [OF h1(4)] by auto
    moreover from this have "exchanged P h h'" using less.prems(2) p(2) h1(1) by (auto intro: exchanged.move)
    moreover have "dh_q h1 ! ?p = dh_q h ! i" using less.prems(2) p(2) by (simp add: h1(2) swap_items_nth)
    ultimately show ?thesis using False h1(1,4) by (subst dh_erase_loop.simps) (auto intro: same_heap_trans simp: Let_def)
  qed
qed

end

context heap_laws
begin

subsection \<open>The members\<close>

lemma ordered_top:
  assumes "heap_ordered h" "j < length (dh_q h)"
  shows "\<not> lt (outside h) (dh_q h ! 0) (dh_q h ! j)"
  using assms(2)
proof (induction j rule: less_induct)
  case (less j)
  show ?case
  proof (cases "j = 0")
    case False
    have "parent j < j" using parent_lt [of j "arity P"] False by simp
    then have "\<not> lt (outside h) (dh_q h ! 0) (dh_q h ! parent j)" using less by simp
    moreover have "\<not> lt (outside h) (dh_q h ! parent j) (dh_q h ! j)"
      using assms(1) less.prems False by (simp add: heap_ordered_def below_def)
    ultimately show ?thesis by (rule neg_trans)
  qed (use refl_lt in simp)
qed

lemma push_live:
  assumes "live_all h" "heap_ordered h" "make_node (super_t P) v (dh_counter h) = (c, Inr n)" "live (outside h) n"
  obtains h1 h' where "dh_push P v h = Some (h', Inr ())" "heap_ordered h'" "same_heap (h\<lparr>dh_counter := c, dh_q := dh_q h @ [n]\<rparr>) h'"
    "reset_index P (length (dh_q h)) (length (dh_q h)) (h\<lparr>dh_counter := c, dh_q := dh_q h @ [n]\<rparr>) = Some h1"
    "exchanged P h1 h'" "live_all h1" "dh_q h1 = dh_q h @ [n]"
proof -
  let ?h = "h\<lparr>dh_counter := c, dh_q := dh_q h @ [n]\<rparr>" and ?n = "length (dh_q h)"
  have lv: "live_all ?h" using assms(1,4) by (simp add: live_all_def)
  then obtain s where s: "reset_index P ?n ?n ?h = Some (?h\<lparr>outside := s\<rparr>)" "live s = live (outside h)" "lt s = lt (outside h)"
    using reset_live [of ?h ?n ?n] by auto
  let ?h1 = "?h\<lparr>outside := s\<rparr>"
  have lv1: "live_all ?h1" using lv s(2) by (simp add: live_all_def)
  have "up_at ?h1 ?n"
  proof -
    have "below ?h1 j" if "j < Suc ?n" "0 < j" "j \<noteq> ?n" for j
    proof -
      have "j < ?n" "parent j < ?n" using that parent_lt [of j "arity P"] by auto
      then show ?thesis using assms(2) that s(3) by (simp add: heap_ordered_def below_def nth_append)
    qed
    moreover have "grandparent ?h1 ?n"
      unfolding grandparent_def
    proof (intro allI impI, elim conjE)
      fix j assume "j < length (dh_q ?h1)" "0 < j" "parent j = ?n"
      then show "\<not> lt (outside ?h1) (dh_q ?h1 ! parent ?n) (dh_q ?h1 ! j)" using parent_lt [of j "arity P"] by simp
    qed
    ultimately show ?thesis by (simp add: up_at_def)
  qed
  then obtain h' where h': "siftup P ?n ?h1 = Some h'" "heap_ordered h'" "same_heap ?h1 h'" "exchanged P ?h1 h'"
    using siftup_live [OF lv1, of ?n] by auto
  have "same_heap ?h h'" using h'(3) s by (simp add: same_heap_def)
  moreover have "dh_push P v h = Some (h', Inr ())"
    using assms(3) s(1) h'(1) by (simp add: dh_push_def dh_size_def Let_def)
  ultimately show thesis using that [of h' ?h1] s(1) h'(2,4) lv1 by simp
qed

lemma pop_vector:
  "butlast (swap_items 0 (length q - 1) q) = (if length q \<le> 1 then [] else last q # butlast (tl q))"
proof (cases q)
  case (Cons a xs)
  then show ?thesis by (cases xs rule: rev_cases) (auto simp: swap_items_def list_update_append)
qed (simp add: swap_items_def)

lemma pop_live:
  assumes "live_all h" "hole_at h 0" "dh_q h \<noteq> []"
  obtains h1 h' where "dh_pop P h = Some h'" "heap_ordered h'" "add_mset (dh_q h ! 0) (mset (dh_q h')) = mset (dh_q h)"
    "dh_counter h' = dh_counter h" "live (outside h') = live (outside h)" "lt (outside h') = lt (outside h)" "live_all h'"
    "dh_q h = [dh_q h ! 0] \<and> h1 = h\<lparr>dh_q := []\<rparr>
     \<or> 1 < length (dh_q h) \<and> reset_index P 0 0 (h\<lparr>dh_q := last (dh_q h) # butlast (tl (dh_q h))\<rparr>) = Some h1"
    "exchanged P h1 h'" "live_all h1" "mset (dh_q h1) = mset (dh_q h')"
proof (cases "length (dh_q h) = 1")
  case True
  then obtain a where a: "dh_q h = [a]" by (cases "dh_q h") auto
  let ?h = "h\<lparr>dh_q := []\<rparr>"
  have "dh_pop P h = Some ?h" using a by (simp add: dh_pop_def dh_empty_def swap_items_def)
  then show thesis using a by (intro that [of ?h ?h]) (simp_all add: heap_ordered_def live_all_def exchanged.stay)
next
  case False
  then obtain a ys b where q: "dh_q h = a # ys @ [b]"
    using assms(3) by (cases "dh_q h"; cases "tl (dh_q h)" rule: rev_cases) auto
  let ?h = "h\<lparr>dh_q := b # ys\<rparr>"
  have lv: "live_all ?h" using assms(1) q by (simp add: live_all_def)
  then obtain s where s: "reset_index P 0 0 ?h = Some (?h\<lparr>outside := s\<rparr>)" "live s = live (outside h)" "lt s = lt (outside h)"
    using reset_live [of ?h 0 0] by auto
  let ?h1 = "?h\<lparr>outside := s\<rparr>"
  have lv1: "live_all ?h1" using lv s(2) by (simp add: live_all_def)
  have "down_at ?h1 0"
  proof -
    have "below ?h1 j" if "j < length (b # ys)" "0 < j" "parent j \<noteq> 0" for j
    proof -
      have n: "(a # ys @ [b]) ! k = (b # ys) ! k" if "0 < k" "k < length (b # ys)" for k
        using that by (cases k) (auto simp: nth_append)
      have "parent j < length (b # ys)" using that parent_lt [of j "arity P"] by linarith
      moreover have "below h j" using assms(2) that q by (simp add: hole_at_def)
      ultimately show ?thesis using that n [of j] n [of "parent j"] q s(3) by (simp add: below_def)
    qed
    then show ?thesis by (simp add: down_at_def grandparent_def)
  qed
  then obtain h' where h': "siftdown P 0 ?h1 = Some h'" "heap_ordered h'" "same_heap ?h1 h'" "exchanged P ?h1 h'"
    using siftdown_live [OF lv1, of 0] by auto
  have "butlast (swap_items 0 (length (dh_q h) - 1) (dh_q h)) = b # ys" unfolding pop_vector using q by simp
  then have "dh_pop P h = Some h'" using s(1) h'(1) q by (simp add: dh_pop_def dh_empty_def)
  moreover have "add_mset (dh_q h ! 0) (mset (dh_q h')) = mset (dh_q h)" using h'(3) q by (simp add: same_heap_def)
  moreover have "last (dh_q h) # butlast (tl (dh_q h)) = b # ys" using q by simp
  ultimately show thesis using h' s lv1 same_heapD(3) [OF h'(3)] q
    by (intro that [of h' ?h1]) (simp_all add: same_heap_def)
qed

lemma update_live:
  assumes lv: "live_all h" and i: "i < length (dh_q h)" and hl: "hole_at h i"
  shows "\<exists>h'. dh_update P i h = Some h' \<and> heap_ordered h' \<and> same_heap h h' \<and> exchanged P h h'"
proof (cases "0 < i \<and> lt (outside h) (dh_q h ! parent i) (dh_q h ! i)")
  case True
  have p: "parent i < length (dh_q h)" using parent_lt [of i "arity P"] True i by simp
  have "below h j" if "j < length (dh_q h)" "0 < j" "parent j = i" for j
  proof -
    have "\<not> lt (outside h) (dh_q h ! parent i) (dh_q h ! j)" using hl that True by (simp add: hole_at_def grandparent_def)
    then show ?thesis using neg_trans [OF asym] True that(3) unfolding below_def by blast
  qed
  then have "up_at h i" using hl by (auto simp: up_at_def hole_at_def)
  then show ?thesis using siftup_live [OF lv i] cmp_at_live [OF lv p i] True by (simp add: dh_update_def Let_def)
next
  case False
  then have "down_at h i" using hl by (auto simp: down_at_def hole_at_def below_def)
  moreover have "dh_update P i h = siftdown P i h"
  proof (cases "i = 0")
    case nz: False
    then have "parent i < length (dh_q h)" using parent_lt [of i "arity P"] i by simp
    from cmp_at_live [OF lv this i] show ?thesis using nz False by (simp add: dh_update_def Let_def)
  qed (simp add: dh_update_def)
  ultimately show ?thesis using siftdown_live [OF lv i] by simp
qed

end

subsection \<open>Positions of the elements\<close>

locale indexed_laws = heap_laws P lt live
  for P :: "('s, 'v, 'n, 'c) heap_params" and lt :: "'s \<Rightarrow> 'n \<Rightarrow> 'n \<Rightarrow> bool" and live :: "'s \<Rightarrow> 'n \<Rightarrow> bool" +
  fixes key :: "'n \<Rightarrow> 'k" and pos :: "'s \<Rightarrow> 'k \<Rightarrow> nat"
  assumes run_pos: "live s n \<Longrightarrow> index_run P n i s = Some s' \<Longrightarrow> pos s' = (pos s)(key n := i)"
begin

definition indexed :: "('s, 'n, 'c) d_ary_heap \<Rightarrow> bool" where
  "indexed h \<longleftrightarrow> distinct (map key (dh_q h)) \<and> (\<forall>i < length (dh_q h). pos (outside h) (key (dh_q h ! i)) = i)"

lemma reset_pos:
  assumes "live_all h" "reset_index P i k h = Some h1"
  shows "pos (outside h1) = (pos (outside h))(key (dh_q h ! i) := k)" "dh_q h1 = dh_q h" "dh_counter h1 = dh_counter h"
    "i < length (dh_q h)" "live_all h1" "live (outside h1) = live (outside h)" "lt (outside h1) = lt (outside h)"
proof -
  show i: "i < length (dh_q h)" using assms(2) by (simp add: reset_index_def split: if_splits)
  then have lv: "live (outside h) (dh_q h ! i)" using assms(1) by (simp add: live_all_def)
  obtain s where s: "index_run P (dh_q h ! i) k (outside h) = Some s" "h1 = h\<lparr>outside := s\<rparr>"
    using assms(2) by (auto simp: reset_index_def split: if_splits)
  then show "pos (outside h1) = (pos (outside h))(key (dh_q h ! i) := k)" "dh_q h1 = dh_q h" "dh_counter h1 = dh_counter h"
    using run_pos [OF lv] by simp_all
  have "live s = live (outside h)" "lt s = lt (outside h)" using run_live [OF lv, of k] s(1) by auto
  then show "live_all h1" "live (outside h1) = live (outside h)" "lt (outside h1) = lt (outside h)"
    using assms(1) s(2) by (simp_all add: live_all_def)
qed

lemma exchange_indexed:
  assumes lv: "live_all h" and ix: "indexed h" and e: "exchange P i j h = Some h1"
  shows "indexed h1" "live_all h1"
proof -
  obtain h2 h3 where r: "reset_index P i j h = Some h2" "reset_index P j i h2 = Some h3" "h1 = h3\<lparr>dh_q := swap_items j i (dh_q h3)\<rparr>"
    using e by (auto simp: exchange_def bind_eq_Some_conv)
  note a = reset_pos [OF lv r(1)] note b = reset_pos [OF a(5) r(2)]
  let ?q = "dh_q h"
  have ij: "i < length ?q" "j < length ?q" using a(2,4) b(4) by simp_all
  have q: "dh_q h1 = swap_items j i ?q" using r(3) a(2) b(2) by simp
  have "mset (map key (dh_q h1)) = mset (map key ?q)" using ij by (simp add: q)
  then have d: "distinct (map key (dh_q h1))" using ix mset_eq_imp_distinct_iff by (auto simp only: indexed_def)
  have inj: "key (?q ! k) = key (?q ! l) \<longleftrightarrow> k = l" if "k < length ?q" "l < length ?q" for k l
    using ix that by (auto simp: indexed_def distinct_conv_nth)
  have "pos (outside h1) = (pos (outside h))(key (?q ! i) := j, key (?q ! j) := i)"
    using r(3) a(1,2) b(1) by simp
  then have "pos (outside h1) (key (dh_q h1 ! k)) = k" if "k < length (dh_q h1)" for k
    using ix ij that q inj by (auto simp: swap_items_nth indexed_def)
  with d show "indexed h1" by (simp add: indexed_def)
  have "set (dh_q h1) = set ?q" using mset_swap_items [OF ij(2,1)] q by (metis set_mset_mset)
  then show "live_all h1" using b(5) r(3) a(2) b(2) by (simp add: live_all_def)
qed

lemma exchanged_indexed: "exchanged P h h' \<Longrightarrow> live_all h \<Longrightarrow> indexed h \<Longrightarrow> indexed h'"
  by (induction rule: exchanged.induct) (auto dest: exchange_indexed)

lemma push_indexed:
  assumes "indexed h" "live_all h1" "dh_q h1 = dh_q h @ [n]" "exchanged P h1 h'"
    and r: "reset_index P (length (dh_q h)) (length (dh_q h)) (h\<lparr>dh_counter := c, dh_q := dh_q h @ [n]\<rparr>) = Some h1"
    and lv: "live_all (h\<lparr>dh_counter := c, dh_q := dh_q h @ [n]\<rparr>)" and n: "key n \<notin> key ` set (dh_q h)"
  shows "indexed h'"
proof -
  have "key (dh_q h ! i) \<noteq> key n" if "i < length (dh_q h)" for i using n imageI [OF nth_mem [OF that], of key] by auto
  then have "indexed h1" using assms(1,3) reset_pos(1) [OF lv r] n by (auto simp: indexed_def nth_append less_Suc_eq)
  then show ?thesis using exchanged_indexed assms(2,4) by blast
qed

lemma pop_indexed:
  assumes ix: "indexed h" and lv: "live_all h" "live_all h1" and e: "exchanged P h1 h'"
    and r: "dh_q h = [dh_q h ! 0] \<and> h1 = h\<lparr>dh_q := []\<rparr>
     \<or> 1 < length (dh_q h) \<and> reset_index P 0 0 (h\<lparr>dh_q := last (dh_q h) # butlast (tl (dh_q h))\<rparr>) = Some h1"
  shows "indexed h'"
proof -
  have "indexed h1"
  proof (cases "dh_q h = [dh_q h ! 0] \<and> h1 = h\<lparr>dh_q := []\<rparr>")
    case False
    then have l: "1 < length (dh_q h)" and r0: "reset_index P 0 0 (h\<lparr>dh_q := last (dh_q h) # butlast (tl (dh_q h))\<rparr>) = Some h1"
      using r by auto
    then obtain a ys b where q: "dh_q h = a # ys @ [b]" by (cases "dh_q h"; cases "tl (dh_q h)" rule: rev_cases) auto
    have lv0: "live_all (h\<lparr>dh_q := b # ys\<rparr>)" using lv(1) q by (simp add: live_all_def)
    note p = reset_pos [OF lv0, of 0 0 h1]
    have d: "distinct (map key (a # ys @ [b]))" using ix q by (simp add: indexed_def)
    have at: "pos (outside h) (key (ys ! i)) = Suc i" if "i < length ys" for i
    proof -
      have "Suc i < length (dh_q h)" using q that by simp
      then have "pos (outside h) (key (dh_q h ! Suc i)) = Suc i" using ix by (simp only: indexed_def)
      then show ?thesis using q that by (simp add: nth_append)
    qed
    have "key (ys ! i) \<noteq> key b" if "i < length ys" for i using d imageI [OF nth_mem [OF that], of key] by auto
    then show ?thesis using p(1,2) r0 q d at by (auto simp: indexed_def nth_Cons split: nat.splits)
  qed (simp add: indexed_def)
  then show ?thesis using exchanged_indexed e lv(2) by blast
qed

end

end
