(* ===== verification/Heap_Queue.thy ===== *)
theory Heap_Queue
  imports Heap_Sift
begin

text \<open>
  \<^verbatim>\<open>d_ary_heap\<close> without handles as a priority queue: the laws of the heap for every strict weak order and every
  arity, with and without stability; the stable heap as a list from which elements leave in the order of their
  priority and, among equivalent ones, of their insertion.
\<close>

subsection \<open>The two instances\<close>

definition plain_cmp :: "('v \<Rightarrow> 'v \<Rightarrow> bool) \<Rightarrow> unit \<Rightarrow> 'v \<Rightarrow> 'v \<Rightarrow> bool option" where
  "plain_cmp lt s x y = Some (lt x y)"

definition plain_params :: "nat \<Rightarrow> ('v \<Rightarrow> 'v \<Rightarrow> bool) \<Rightarrow> (unit, 'v, 'v, unit) heap_params" where
  "plain_params D lt = \<lparr>super_t = unstable_base (plain_cmp lt), arity = D, index_run = nop_index_updater\<rparr>"

definition stable_params :: "nat \<Rightarrow> ('v \<Rightarrow> 'v \<Rightarrow> bool) \<Rightarrow> (unit, 'v, 'v \<times> 'w::len word, 'w word) heap_params" where
  "stable_params D lt = \<lparr>super_t = stable_base (plain_cmp lt), arity = D, index_run = nop_index_updater\<rparr>"

definition stable_less :: "('v \<Rightarrow> 'v \<Rightarrow> bool) \<Rightarrow> 'v \<times> 'w::len word \<Rightarrow> 'v \<times> 'w word \<Rightarrow> bool" where
  "stable_less lt n m \<longleftrightarrow> lt (fst n) (fst m) \<or> \<not> lt (fst m) (fst n) \<and> snd m < snd n"

text \<open>What the client's comparison has to satisfy.\<close>

definition weak_order :: "('v \<Rightarrow> 'v \<Rightarrow> bool) \<Rightarrow> bool" where
  "weak_order lt \<longleftrightarrow> (\<forall>x y. lt x y \<longrightarrow> \<not> lt y x) \<and> (\<forall>x y z. \<not> lt x y \<longrightarrow> \<not> lt y z \<longrightarrow> \<not> lt x z)"

lemma weak_order_less: "weak_order ((<) :: 'a::linorder \<Rightarrow> 'a \<Rightarrow> bool)"
  by (auto simp: weak_order_def)

lemma weak_orderD:
  assumes "weak_order lt"
  shows "lt x y \<Longrightarrow> \<not> lt y x" "\<not> lt x y \<Longrightarrow> \<not> lt y z \<Longrightarrow> \<not> lt x z" "\<not> lt x x"
  using assms unfolding weak_order_def by blast+

lemma weak_order_stable: "weak_order lt \<Longrightarrow> weak_order (stable_less lt)"
  unfolding weak_order_def stable_less_def
proof (intro conjI allI impI, goal_cases)
  case (1 x y)
  then show ?case by (meson order_less_asym)
next
  case (2 x y z)
  then show ?case by (meson not_less order_trans)
qed

locale heap_order =
  fixes D :: nat and lt :: "'v \<Rightarrow> 'v \<Rightarrow> bool"
  assumes arity_pos: "0 < D" and weak: "weak_order lt"

sublocale heap_order \<subseteq> plain: heap_laws "plain_params D lt" "\<lambda>s. lt" "\<lambda>s n. True"
proof (unfold_locales, goal_cases)
  case 1
  then show ?case using arity_pos by (simp add: plain_params_def)
next
  case (2 s n m)
  then show ?case by (simp add: plain_params_def unstable_base_def plain_cmp_def)
next
  case (3 s n m)
  then show ?case by (rule weak_orderD(1) [OF weak])
next
  case (4 s n m k)
  then show ?case by (rule weak_orderD(2) [OF weak])
next
  case (5 s n i)
  then show ?case by (simp add: plain_params_def nop_index_updater_def)
qed

lemma internal_compare_plain: "internal_compare (plain_cmp lt) s n m = Some (stable_less lt n m)"
  by (auto simp: internal_compare_def plain_cmp_def stable_less_def)

sublocale heap_order \<subseteq> stable: heap_laws "stable_params D lt" "\<lambda>s. stable_less lt" "\<lambda>s n. True"
proof (unfold_locales, goal_cases)
  case 1
  then show ?case using arity_pos by (simp add: stable_params_def)
next
  case (2 s n m)
  then show ?case by (simp add: stable_params_def stable_base_def internal_compare_plain)
next
  case (3 s n m)
  then show ?case by (rule weak_orderD(1) [OF weak_order_stable [OF weak]])
next
  case (4 s n m k)
  then show ?case by (rule weak_orderD(2) [OF weak_order_stable [OF weak]])
next
  case (5 s n i)
  then show ?case by (simp add: stable_params_def nop_index_updater_def)
qed

interpretation less_heap: heap_order "Suc d" "(<) :: 'a::linorder \<Rightarrow> 'a \<Rightarrow> bool" for d
  by unfold_locales (simp_all add: weak_order_less)

text \<open>The order of the vector.\<close>

definition d_ary_ordered :: "nat \<Rightarrow> ('n \<Rightarrow> 'n \<Rightarrow> bool) \<Rightarrow> 'n list \<Rightarrow> bool" where
  "d_ary_ordered D lt q \<longleftrightarrow> (\<forall>j\<in>{1..<length q}. \<not> lt (q ! parent_index D j) (q ! j))"

context heap_laws
begin

lemma heap_ordered_vector: "heap_ordered h \<longleftrightarrow> d_ary_ordered (arity P) (lt (outside h)) (dh_q h)"
  by (auto simp: heap_ordered_def below_def d_ary_ordered_def Suc_le_eq)

text \<open>The members of a heap all of whose nodes are live.\<close>

lemma heap_push:
  assumes "live_all h" "d_ary_ordered (arity P) (lt (outside h)) (dh_q h)"
    and "make_node (super_t P) v (dh_counter h) = (c, Inr n)" "live (outside h) n"
  obtains h' where "dh_push P v h = Some (h', Inr ())" "d_ary_ordered (arity P) (lt (outside h')) (dh_q h')"
    "mset (dh_q h') = add_mset n (mset (dh_q h))" "dh_counter h' = c" "lt (outside h') = lt (outside h)"
  using push_live [OF assms(1) _ assms(3,4)] assms(2) by (auto simp: heap_ordered_vector same_heap_def)

lemma heap_top_pop:
  assumes "live_all h" "d_ary_ordered (arity P) (lt (outside h)) (dh_q h)" "dh_q h \<noteq> []"
  obtains h' where "dh_top P h = Some (get_value (super_t P) (dh_q h ! 0))" "\<And>n. n \<in> set (dh_q h) \<Longrightarrow> \<not> lt (outside h) (dh_q h ! 0) n"
    "dh_pop P h = Some h'" "d_ary_ordered (arity P) (lt (outside h')) (dh_q h')" "add_mset (dh_q h ! 0) (mset (dh_q h')) = mset (dh_q h)"
    "dh_counter h' = dh_counter h" "lt (outside h') = lt (outside h)"
proof -
  have o: "heap_ordered h" using assms(2) by (simp add: heap_ordered_vector)
  have "hole_at h 0" using ordered_hole [OF o] assms(3) by simp
  from pop_live [OF assms(1) this assms(3)] obtain h' where h': "dh_pop P h = Some h'" "heap_ordered h'"
    "add_mset (dh_q h ! 0) (mset (dh_q h')) = mset (dh_q h)" "dh_counter h' = dh_counter h" "lt (outside h') = lt (outside h)" by blast
  have "\<not> lt (outside h) (dh_q h ! 0) n" if "n \<in> set (dh_q h)" for n using ordered_top [OF o] that by (auto simp: in_set_conv_nth)
  moreover have "dh_top P h = Some (get_value (super_t P) (dh_q h ! 0))"
    using assms(3) by (simp add: dh_top_def dh_empty_def hd_conv_nth)
  ultimately show thesis using that [of h'] h' by (simp add: heap_ordered_vector)
qed

end

lemma heap_orderI: "0 < D \<Longrightarrow> weak_order lt \<Longrightarrow> heap_order D lt"
  by (rule heap_order.intro)

context heap_order
begin

lemma plain_push:
  assumes "d_ary_ordered D lt (dh_q h)"
  obtains h' where "dh_push (plain_params D lt) v h = Some (h', Inr ())" "d_ary_ordered D lt (dh_q h')"
    "mset (dh_q h') = add_mset v (mset (dh_q h))"
  using plain.heap_push [of h v] assms by (auto simp: plain.live_all_def plain_params_def unstable_base_def)

lemma plain_top_pop:
  assumes "d_ary_ordered D lt (dh_q h)" "dh_q h \<noteq> []"
  obtains h' where "dh_top (plain_params D lt) h = Some (dh_q h ! 0)" "\<And>x. x \<in> set (dh_q h) \<Longrightarrow> \<not> lt (dh_q h ! 0) x"
    "dh_pop (plain_params D lt) h = Some h'" "d_ary_ordered D lt (dh_q h')" "add_mset (dh_q h ! 0) (mset (dh_q h')) = mset (dh_q h)"
  using plain.heap_top_pop [of h] assms by (auto simp: plain.live_all_def plain_params_def unstable_base_def)

lemma stable_push:
  assumes "d_ary_ordered D (stable_less lt) (dh_q h)" "dh_counter h + 1 \<noteq> - 1"
  obtains h' where "dh_push (stable_params D lt) v h = Some (h', Inr ())" "d_ary_ordered D (stable_less lt) (dh_q h')"
    "mset (dh_q h') = add_mset (v, dh_counter h + 1) (mset (dh_q h))" "dh_counter h' = dh_counter h + 1"
  using stable.heap_push [of h v] assms by (auto simp: stable.live_all_def stable_params_def stable_base_def stable_make_node_def Let_def)

lemma stable_top_pop:
  assumes "d_ary_ordered D (stable_less lt) (dh_q h)" "dh_q h \<noteq> []"
  obtains h' where "dh_top (stable_params D lt) h = Some (fst (dh_q h ! 0))" "\<And>n. n \<in> set (dh_q h) \<Longrightarrow> \<not> stable_less lt (dh_q h ! 0) n"
    "dh_pop (stable_params D lt) h = Some h'" "d_ary_ordered D (stable_less lt) (dh_q h')"
    "add_mset (dh_q h ! 0) (mset (dh_q h')) = mset (dh_q h)" "dh_counter h' = dh_counter h"
  using stable.heap_top_pop [of h] assms by (auto simp: stable.live_all_def stable_params_def stable_base_def)

end

text \<open>C9 A \<^verbatim>\<open>d_ary_heap\<close> of any arity over any strict weak order is a priority queue: \<^verbatim>\<open>push\<close> adds the element, \<^verbatim>\<open>top\<close> returns
  an element that no other exceeds, \<^verbatim>\<open>pop\<close> removes that element and no other, and the vector stays ordered; only
  \<^verbatim>\<open>top\<close> and \<^verbatim>\<open>pop\<close> of an empty heap are refused.\<close>

theorem d_ary_heap_priority_queue:
  assumes "0 < D" "weak_order lt" "d_ary_ordered D lt (dh_q h)"
  shows "(\<exists>h'. dh_push (plain_params D lt) v h = Some (h', Inr ()) \<and> d_ary_ordered D lt (dh_q h')
      \<and> mset (dh_q h') = add_mset v (mset (dh_q h)))
    \<and> (if dh_empty h then dh_top (plain_params D lt) h = None \<and> dh_pop (plain_params D lt) h = None
       else (\<exists>t h'. dh_top (plain_params D lt) h = Some t \<and> filter (lt t) (dh_q h) = []
         \<and> dh_pop (plain_params D lt) h = Some h' \<and> d_ary_ordered D lt (dh_q h') \<and> add_mset t (mset (dh_q h')) = mset (dh_q h)))"
proof -
  note ord = heap_orderI [OF assms(1,2)]
  obtain h' where "dh_push (plain_params D lt) v h = Some (h', Inr ())" "d_ary_ordered D lt (dh_q h')"
    "mset (dh_q h') = add_mset v (mset (dh_q h))" using heap_order.plain_push [OF ord assms(3), of v] .
  moreover have "\<exists>t h'. dh_top (plain_params D lt) h = Some t \<and> filter (lt t) (dh_q h) = []
         \<and> dh_pop (plain_params D lt) h = Some h' \<and> d_ary_ordered D lt (dh_q h') \<and> add_mset t (mset (dh_q h')) = mset (dh_q h)"
    if "dh_q h \<noteq> []"
    by (rule heap_order.plain_top_pop [OF ord assms(3) that]) (auto simp: filter_empty_conv)
  ultimately show ?thesis by (auto simp: dh_empty_def dh_top_def dh_pop_def)
qed

definition example_heap :: "(unit, nat, unit) d_ary_heap" where
  "example_heap = \<lparr>dh_q = [9, 7, 8, 3, 5, 6, 2], dh_counter = (), outside = ()\<rparr>"

lemma d_ary_heap_priority_queue_witness:
  "\<exists>h'. dh_push (plain_params 3 (<)) 4 example_heap = Some (h', Inr ()) \<and> mset (dh_q h') = add_mset 4 (mset (dh_q example_heap))"
proof -
  have "d_ary_ordered 3 (<) (dh_q example_heap)" by code_simp
  then show ?thesis using d_ary_heap_priority_queue [of 3 "(<)" example_heap 4] weak_order_less by auto
qed

subsection \<open>Merging heaps\<close>

text \<open>\<^verbatim>\<open>heap_merge\<close> of heaps that have no merge of their own (\<^verbatim>\<open>heap/heap_merge.hpp\<close>): the elements of \<open>rhs\<close> are moved one by one. Reserving
  space has no effect on the contents.\<close>

partial_function (option) merge_loop ::
  "(unit, 'v, 'n, 'c) heap_params \<Rightarrow> (unit, 'n, 'c) d_ary_heap \<Rightarrow> (unit, 'n, 'c) d_ary_heap
    \<Rightarrow> ((unit, 'n, 'c) d_ary_heap \<times> (unit, 'n, 'c) d_ary_heap \<times> (heap_error + unit)) option" where
  "merge_loop P lhs rhs =
     (if dh_empty rhs then Some (lhs, rhs, Inr ())
      else do {
        v \<leftarrow> dh_top P rhs;
        (lhs1, r) \<leftarrow> dh_push P v lhs;
        (case r of Inl e \<Rightarrow> Some (lhs1, rhs, Inl e)
         | Inr u \<Rightarrow> do { rhs1 \<leftarrow> dh_pop P rhs; merge_loop P lhs1 rhs1 }) })"

definition heap_merge ::
  "(unit, 'v, 'n, 'c::linorder) heap_params \<Rightarrow> (unit, 'n, 'c) d_ary_heap \<Rightarrow> (unit, 'n, 'c) d_ary_heap
    \<Rightarrow> ((unit, 'n, 'c) d_ary_heap \<times> (unit, 'n, 'c) d_ary_heap \<times> (heap_error + unit)) option" where
  "heap_merge P lhs rhs = do {
     (lhs1, rhs1, r) \<leftarrow> merge_loop P lhs rhs;
     (case r of Inl e \<Rightarrow> Some (lhs1, rhs1, Inl e)
      | Inr u \<Rightarrow> Some (lhs1\<lparr>dh_counter := max (dh_counter lhs1) (dh_counter rhs1)\<rparr>,
          rhs1\<lparr>dh_counter := initial_counter (super_t P)\<rparr>, Inr ())) }"

lemmas merge_unfold [code] = merge_loop.simps

context heap_order
begin

lemma plain_merge_loop:
  assumes "d_ary_ordered D lt (dh_q l)" "d_ary_ordered D lt (dh_q r)"
  shows "\<exists>l' r'. merge_loop (plain_params D lt) l r = Some (l', r', Inr ()) \<and> d_ary_ordered D lt (dh_q l')
    \<and> mset (dh_q l') = mset (dh_q l) + mset (dh_q r) \<and> dh_q r' = []"
  using assms
proof (induction "length (dh_q r)" arbitrary: l r rule: less_induct)
  case less
  show ?case
  proof (cases "dh_q r = []")
    case True
    then show ?thesis using less.prems by (subst merge_loop.simps) (simp add: dh_empty_def)
  next
    case False
    obtain r1 where r1: "dh_top (plain_params D lt) r = Some (dh_q r ! 0)" "dh_pop (plain_params D lt) r = Some r1"
      "d_ary_ordered D lt (dh_q r1)" "add_mset (dh_q r ! 0) (mset (dh_q r1)) = mset (dh_q r)"
      using plain_top_pop [OF less.prems(2) False] .
    obtain l1 where l1: "dh_push (plain_params D lt) (dh_q r ! 0) l = Some (l1, Inr ())" "d_ary_ordered D lt (dh_q l1)"
      "mset (dh_q l1) = add_mset (dh_q r ! 0) (mset (dh_q l))" using plain_push [OF less.prems(1)] .
    have "length (dh_q r1) < length (dh_q r)" using arg_cong [OF r1(4), of size] by simp
    then obtain l' r' where "merge_loop (plain_params D lt) l1 r1 = Some (l', r', Inr ())" "d_ary_ordered D lt (dh_q l')"
      "mset (dh_q l') = mset (dh_q l1) + mset (dh_q r1)" "dh_q r' = []" using less.hyps l1(2) r1(3) by blast
    moreover have "mset (dh_q l1) + mset (dh_q r1) = mset (dh_q l) + mset (dh_q r)" using l1(3) r1(4) by (metis union_mset_add_mset_left union_mset_add_mset_right)
    ultimately show ?thesis using False l1(1) r1(1,2) by (subst merge_loop.simps) (simp add: dh_empty_def)
  qed
qed

end

text \<open>\<^verbatim>\<open>heap_merge\<close> ends; afterwards the first heap is ordered and holds the elements of both, and the second is empty.\<close>

theorem heap_merge_moves_all:
  assumes "0 < D" "weak_order lt" "d_ary_ordered D lt (dh_q l)" "d_ary_ordered D lt (dh_q r)"
  shows "\<exists>l' r'. heap_merge (plain_params D lt) l r = Some (l', r', Inr ()) \<and> d_ary_ordered D lt (dh_q l')
    \<and> mset (dh_q l') = mset (dh_q l) + mset (dh_q r) \<and> dh_q r' = []"
  using heap_order.plain_merge_loop [OF heap_orderI [OF assms(1,2)] assms(3,4)] by (auto simp: heap_merge_def)

lemma heap_merge_moves_all_witness:
  "\<exists>l' r'. heap_merge (plain_params 3 (<)) example_heap example_heap = Some (l', r', Inr ()) \<and> dh_q r' = []"
proof -
  have "d_ary_ordered 3 (<) (dh_q example_heap)" by code_simp
  then show ?thesis using heap_merge_moves_all [of 3 "(<)" example_heap example_heap] weak_order_less by auto
qed

subsection \<open>The stable heap as a list\<close>

text \<open>Insertion into a list in the order of removal: before the first node that the new one precedes.\<close>

fun pq_insert :: "('n \<Rightarrow> 'n \<Rightarrow> bool) \<Rightarrow> 'n \<Rightarrow> 'n list \<Rightarrow> 'n list" where
  "pq_insert lt n [] = [n]"
| "pq_insert lt n (m # ms) = (if lt n m then m # pq_insert lt n ms else n # m # ms)"

definition pq_sort :: "('n \<Rightarrow> 'n \<Rightarrow> bool) \<Rightarrow> 'n list \<Rightarrow> 'n list" where
  "pq_sort lt q = foldr (pq_insert lt) q []"

lemma mset_pq_insert [simp]: "mset (pq_insert lt n ms) = add_mset n (mset ms)"
  by (induction ms) auto

lemma mset_pq_sort [simp]: "mset (pq_sort lt q) = mset q"
  by (induction q) (auto simp: pq_sort_def)

lemma sorted_pq_insert:
  assumes w: "weak_order lt" and "sorted_wrt (\<lambda>a b. \<not> lt a b) ms"
  shows "sorted_wrt (\<lambda>a b. \<not> lt a b) (pq_insert lt n ms)"
  using assms(2)
proof (induction ms)
  case (Cons m ms)
  have set: "set (pq_insert lt n ms) = insert n (set ms)" using mset_pq_insert [of lt n ms] by (metis set_mset_add_mset_insert set_mset_mset)
  show ?case
  proof (cases "lt n m")
    case True
    then show ?thesis using Cons weak_orderD(1) [OF w True] set by auto
  next
    case False
    then show ?thesis using Cons.prems weak_orderD(2) [OF w False] by auto
  qed
qed simp

lemma sorted_pq_sort: "weak_order lt \<Longrightarrow> sorted_wrt (\<lambda>a b. \<not> lt a b) (pq_sort lt q)"
  by (induction q) (auto simp: pq_sort_def intro: sorted_pq_insert)

text \<open>Where any two elements are comparable, there is only one sorted list.\<close>

definition comparable :: "('n \<Rightarrow> 'n \<Rightarrow> bool) \<Rightarrow> 'n set \<Rightarrow> bool" where
  "comparable lt A \<longleftrightarrow> (\<forall>x\<in>A. \<forall>y\<in>A. x = y \<or> lt x y \<or> lt y x)"

lemma sorted_unique:
  assumes "comparable lt (set xs)" "sorted_wrt (\<lambda>a b. \<not> lt a b) xs" "sorted_wrt (\<lambda>a b. \<not> lt a b) ys" "mset xs = mset ys"
  shows "xs = ys"
  using assms
proof (induction xs arbitrary: ys)
  case (Cons x xs)
  then obtain y ys' where ys: "ys = y # ys'" by (cases ys) auto
  have s: "set (x # xs) = set ys" using Cons.prems(4) by (metis set_mset_mset)
  have "x = y"
  proof (rule ccontr)
    assume ne: "x \<noteq> y"
    then have "x \<in> set ys'" "y \<in> set xs" using s ys by auto
    then have "\<not> lt x y" "\<not> lt y x" using Cons.prems(2,3) ys by auto
    then show False using Cons.prems(1) ne s ys by (auto simp: comparable_def)
  qed
  then show ?case using Cons ys by (auto simp: comparable_def)
qed simp

lemma pq_sort_unique:
  assumes "weak_order lt" "comparable lt (set q)" "mset ns = mset q" "sorted_wrt (\<lambda>a b. \<not> lt a b) ns"
  shows "pq_sort lt q = ns"
proof -
  have "set (pq_sort lt q) = set q" by (metis mset_pq_sort set_mset_mset)
  then show ?thesis using sorted_unique [of lt "pq_sort lt q" ns] assms sorted_pq_sort [OF assms(1)] by simp
qed

text \<open>The members as commands; an exception refuses the command.\<close>

datatype 'v pq_command = PqPush 'v | PqPop | PqClear

fun stable_exec ::
  "nat \<Rightarrow> ('v \<Rightarrow> 'v \<Rightarrow> bool) \<Rightarrow> 'v pq_command \<Rightarrow> (unit, 'v \<times> 'w::len word, 'w word) d_ary_heap
    \<Rightarrow> (unit, 'v \<times> 'w word, 'w word) d_ary_heap option" where
  "stable_exec D lt (PqPush v) h =
     (case dh_push (stable_params D lt) v h of Some (h', Inr _) \<Rightarrow> Some h' | _ \<Rightarrow> None)"
| "stable_exec D lt PqPop h = dh_pop (stable_params D lt) h"
| "stable_exec D lt PqClear h = Some (dh_clear h)"

text \<open>The model: the number of insertions and the values in the order of removal. A new value goes behind all that it does not precede.\<close>

fun fifo_exec :: "nat \<Rightarrow> ('v \<Rightarrow> 'v \<Rightarrow> bool) \<Rightarrow> 'v pq_command \<Rightarrow> nat \<times> 'v list \<Rightarrow> (nat \<times> 'v list) option" where
  "fifo_exec mx lt (PqPush v) (c, xs) =
     (if c + 1 = mx then None else Some (c + 1, takeWhile (\<lambda>x. \<not> lt x v) xs @ v # dropWhile (\<lambda>x. \<not> lt x v) xs))"
| "fifo_exec mx lt PqPop (c, xs) = (if xs = [] then None else Some (c, tl xs))"
| "fifo_exec mx lt PqClear (c, xs) = Some (c, [])"

definition stable_valid :: "nat \<Rightarrow> ('v \<Rightarrow> 'v \<Rightarrow> bool) \<Rightarrow> (unit, 'v \<times> 'w::len word, 'w word) d_ary_heap \<Rightarrow> bool" where
  "stable_valid D lt h \<longleftrightarrow> d_ary_ordered D (stable_less lt) (dh_q h) \<and> distinct (map snd (dh_q h))
     \<and> list_all (\<lambda>n. snd n \<le> dh_counter h) (dh_q h) \<and> dh_counter h < - 1"

definition stable_view :: "('v \<Rightarrow> 'v \<Rightarrow> bool) \<Rightarrow> (unit, 'v \<times> 'w::len word, 'w word) d_ary_heap \<Rightarrow> nat \<times> 'v list" where
  "stable_view lt h = (unat (dh_counter h), map fst (pq_sort (stable_less lt) (dh_q h)))"

lemma comparable_stable:
  assumes "distinct (map snd q)"
  shows "comparable (stable_less lt) (set q)"
  unfolding comparable_def
proof (intro ballI)
  fix n m assume "n \<in> set q" "m \<in> set q"
  then have "n = m \<or> snd n \<noteq> snd m" using assms by (auto simp: distinct_map dest: inj_onD)
  then show "n = m \<or> stable_less lt n m \<or> stable_less lt m n" unfolding stable_less_def by (metis linorder_neqE)
qed

lemma pq_insert_newest:
  assumes "weak_order lt" "\<forall>m\<in>set ms. snd m < c"
  shows "map fst (pq_insert (stable_less lt) (v, c) ms)
    = takeWhile (\<lambda>x. \<not> lt x v) (map fst ms) @ v # dropWhile (\<lambda>x. \<not> lt x v) (map fst ms)"
  using assms(2)
proof (induction ms)
  case (Cons m ms)
  then have "stable_less lt (v, c) m \<longleftrightarrow> \<not> lt (fst m) v"
    using weak_orderD(1) [OF assms(1)] by (auto simp: stable_less_def)
  then show ?case using Cons by auto
qed simp

lemma counter_Suc:
  assumes "(c :: 'w::len word) < - 1"
  shows "unat (c + 1) = unat c + 1" "c + 1 = - 1 \<longleftrightarrow> unat c + 1 = 2 ^ LENGTH('w) - 1" "c < c + 1" "c + 1 \<noteq> - 1 \<Longrightarrow> c + 1 < - 1"
proof -
  have "1 + c \<noteq> 0" using assms by (auto simp: add_eq_0_iff)
  then show u: "unat (c + 1) = unat c + 1" using unatSuc [of c] by (simp add: add.commute)
  have "unat (- 1 :: 'w word) = 2 ^ LENGTH('w) - 1" by (simp add: unsigned_minus_1_eq_mask mask_eq_exp_minus_1)
  then show "c + 1 = - 1 \<longleftrightarrow> unat c + 1 = 2 ^ LENGTH('w) - 1" using u by (simp add: word_unat_eq_iff)
  show "c < c + 1" using u by (simp add: word_less_nat_alt)
  show "c + 1 < - 1" if "c + 1 \<noteq> - 1" using that by (simp only: word_order.not_eq_extremum)
qed

lemma stable_push_view:
  assumes o: "heap_order D lt" and v: "stable_valid D lt h" and c: "dh_counter h + 1 \<noteq> - 1"
  shows "\<exists>h'. dh_push (stable_params D lt) v h = Some (h', Inr ()) \<and> stable_valid D lt h'
    \<and> fifo_exec (2 ^ LENGTH('w) - 1) lt (PqPush v) (stable_view lt (h :: (unit, 'v \<times> 'w::len word, 'w word) d_ary_heap)) = Some (stable_view lt h')"
proof -
  have w: "weak_order lt" using o by (simp add: heap_order_def)
  let ?c = "dh_counter h" and ?n = "(v, dh_counter h + 1)"
  note cs = counter_Suc [of ?c]
  have lt: "?c < - 1" and le: "\<And>n. n \<in> set (dh_q h) \<Longrightarrow> snd n \<le> ?c" using v by (auto simp: stable_valid_def list_all_iff)
  have new: "snd n < ?c + 1" if "n \<in> set (dh_q h)" for n using le [OF that] cs(3) [OF lt] by simp
  obtain h' where h': "dh_push (stable_params D lt) v h = Some (h', Inr ())" "d_ary_ordered D (stable_less lt) (dh_q h')"
    "mset (dh_q h') = add_mset ?n (mset (dh_q h))" "dh_counter h' = ?c + 1"
    using heap_order.stable_push [OF o _ c, of v] v by (auto simp: stable_valid_def)
  have st: "set (dh_q h') = insert ?n (set (dh_q h))" using h'(3) by (metis set_mset_add_mset_insert set_mset_mset)
  have "mset (map snd (dh_q h')) = mset (map snd (?n # dh_q h))" using h'(3) by simp
  then have "distinct (map snd (dh_q h')) \<longleftrightarrow> distinct (map snd (?n # dh_q h))" by (rule mset_eq_imp_distinct_iff)
  moreover have "?c + 1 \<notin> snd ` set (dh_q h)" using new by (metis imageE order_less_irrefl)
  ultimately have d: "distinct (map snd (dh_q h'))" using v by (simp add: stable_valid_def)
  have "\<forall>n\<in>set (dh_q h'). snd n \<le> ?c + 1" using st new by (metis insert_iff order_less_imp_le order_refl snd_conv)
  then have "stable_valid D lt h'" using h'(2,4) d cs(4) [OF lt c] by (simp add: stable_valid_def list_all_iff)
  moreover have "pq_sort (stable_less lt) (dh_q h') = pq_insert (stable_less lt) ?n (pq_sort (stable_less lt) (dh_q h))"
    using d h'(3) by (intro pq_sort_unique comparable_stable sorted_pq_insert sorted_pq_sort weak_order_stable w) simp_all
  moreover have "set (pq_sort (stable_less lt) (dh_q h)) = set (dh_q h)" by (metis mset_pq_sort set_mset_mset)
  ultimately show ?thesis using h'(1,4) pq_insert_newest [OF w, of "pq_sort (stable_less lt) (dh_q h)" "?c + 1" v] new cs(1,2) [OF lt] c
    by (auto simp: stable_view_def)
qed

lemma stable_pop_view:
  assumes o: "heap_order D lt" and v: "stable_valid D lt h" and ne: "dh_q h \<noteq> []"
  obtains h' where "dh_pop (stable_params D lt) h = Some h'" "stable_valid D lt h'"
    "pq_sort (stable_less lt) (dh_q h) = dh_q h ! 0 # pq_sort (stable_less lt) (dh_q h')" "dh_counter h' = dh_counter h"
    "dh_top (stable_params D lt) h = Some (fst (dh_q h ! 0))"
proof -
  have w: "weak_order (stable_less lt)" using o weak_order_stable by (auto simp: heap_order_def)
  have "d_ary_ordered D (stable_less lt) (dh_q h)" using v by (simp add: stable_valid_def)
  from heap_order.stable_top_pop [OF o this ne] obtain h' where h': "dh_top (stable_params D lt) h = Some (fst (dh_q h ! 0))"
    "\<And>n. n \<in> set (dh_q h) \<Longrightarrow> \<not> stable_less lt (dh_q h ! 0) n" "dh_pop (stable_params D lt) h = Some h'"
    "d_ary_ordered D (stable_less lt) (dh_q h')" "add_mset (dh_q h ! 0) (mset (dh_q h')) = mset (dh_q h)" "dh_counter h' = dh_counter h" by blast
  have st: "set (dh_q h) = insert (dh_q h ! 0) (set (dh_q h'))" using h'(5) by (metis set_mset_add_mset_insert set_mset_mset)
  have "mset (map snd (dh_q h)) = mset (map snd (dh_q h ! 0 # dh_q h'))" using h'(5) by (simp flip: h'(5))
  then have "distinct (map snd (dh_q h)) \<longleftrightarrow> distinct (map snd (dh_q h ! 0 # dh_q h'))" by (rule mset_eq_imp_distinct_iff)
  then have "stable_valid D lt h'" using v h'(4,6) st by (auto simp: stable_valid_def list_all_iff)
  moreover have "set (pq_sort (stable_less lt) (dh_q h')) = set (dh_q h')" by (metis mset_pq_sort set_mset_mset)
  then have "pq_sort (stable_less lt) (dh_q h) = dh_q h ! 0 # pq_sort (stable_less lt) (dh_q h')"
    using v w h'(2,5) st sorted_pq_sort [OF w]
    by (intro pq_sort_unique comparable_stable) (auto simp: stable_valid_def)
  ultimately show thesis using that h' by blast
qed

lemma stable_exec_agrees:
  assumes o: "heap_order D lt" and v: "stable_valid D lt (h :: (unit, 'v \<times> 'w::len word, 'w word) d_ary_heap)"
  shows "agrees (stable_valid D lt) (stable_view lt) (stable_exec D lt c h) (fifo_exec (2 ^ LENGTH('w) - 1) lt c (stable_view lt h))"
proof (cases c)
  case (PqPush x)
  show ?thesis
  proof (cases "dh_counter h + 1 = - 1")
    case True
    then have "dh_push (stable_params D lt) x h = Some (h\<lparr>dh_counter := - 1\<rparr>, Inl Counter_Overflow)"
      by (simp add: dh_push_def stable_params_def stable_base_def stable_make_node_def)
    moreover have "dh_counter h < - 1" using v by (simp add: stable_valid_def)
    ultimately show ?thesis using PqPush True counter_Suc(2) [of "dh_counter h"] by (simp add: stable_view_def)
  next
    case False
    obtain h' where "dh_push (stable_params D lt) x h = Some (h', Inr ())" "stable_valid D lt h'"
      "fifo_exec (2 ^ LENGTH('w) - 1) lt (PqPush x) (stable_view lt h) = Some (stable_view lt h')"
      using stable_push_view [OF o v False, of x] by blast
    then show ?thesis using PqPush by (simp del: fifo_exec.simps)
  qed
next
  case PqPop
  show ?thesis
  proof (cases "dh_q h = []")
    case True
    then show ?thesis using PqPop by (simp add: dh_pop_def dh_empty_def stable_view_def pq_sort_def)
  next
    case False
    obtain h' where "dh_pop (stable_params D lt) h = Some h'" "stable_valid D lt h'"
      "pq_sort (stable_less lt) (dh_q h) = dh_q h ! 0 # pq_sort (stable_less lt) (dh_q h')" "dh_counter h' = dh_counter h"
      using stable_pop_view [OF o v False] by blast
    then show ?thesis using PqPop by (simp add: stable_view_def)
  qed
next
  case PqClear
  then show ?thesis using v by (simp add: dh_clear_def stable_valid_def stable_view_def d_ary_ordered_def pq_sort_def)
qed

context heap_order
begin

lemma stable_data_refinement:
  "data_refinement (stable_valid D lt) (stable_view lt :: (unit, 'v \<times> 'w::len word, 'w word) d_ary_heap \<Rightarrow> nat \<times> 'v list) (\<lambda>c. True)
     (stable_exec D lt) (fifo_exec (2 ^ LENGTH('w) - 1) lt)"
  by (rule data_refinement.intro) (rule stable_exec_agrees [OF heap_order_axioms])

end

text \<open>C8 A stable heap hands out its elements by priority and equivalent elements in the order of their insertion: every
  sequence of members from a valid heap behaves as on the list of the values in the order of removal, with a
  new value placed behind all values that it does not precede; \<^verbatim>\<open>top\<close> is the head of that list. A push is refused exactly when the counter
  would reach its maximum.\<close>

theorem stable_heap_refines_fifo:
  fixes h :: "(unit, 'v \<times> 'w::len word, 'w word) d_ary_heap"
  assumes "0 < D" "weak_order lt" "stable_valid D lt h"
  shows "agrees (stable_valid D lt) (stable_view lt) (run_ops (stable_exec D lt) cs h)
      (run_ops (fifo_exec (2 ^ LENGTH('w) - 1) lt) cs (stable_view lt h))
    \<and> dh_top (stable_params D lt) h = (case snd (stable_view lt h) of [] \<Rightarrow> None | x # xs \<Rightarrow> Some x)"
proof
  note o = heap_orderI [OF assms(1,2)]
  show "agrees (stable_valid D lt) (stable_view lt) (run_ops (stable_exec D lt) cs h)
      (run_ops (fifo_exec (2 ^ LENGTH('w) - 1) lt) cs (stable_view lt h))"
    using data_refinement.run_agrees [OF heap_order.stable_data_refinement [OF o] assms(3), of cs] by (simp add: list_all_iff)
  show "dh_top (stable_params D lt) h = (case snd (stable_view lt h) of [] \<Rightarrow> None | x # xs \<Rightarrow> Some x)"
  proof (cases "dh_q h = []")
    case True
    then show ?thesis by (simp add: dh_top_def dh_empty_def stable_view_def pq_sort_def)
  next
    case False
    show ?thesis by (rule stable_pop_view [OF o assms(3) False]) (simp add: stable_view_def)
  qed
qed

definition example_stable :: "(unit, (nat \<times> nat) \<times> 8 word, 8 word) d_ary_heap" where
  "example_stable = \<lparr>dh_q = [], dh_counter = 0, outside = ()\<rparr>"

definition by_key :: "nat \<times> nat \<Rightarrow> nat \<times> nat \<Rightarrow> bool" where
  "by_key x y \<longleftrightarrow> fst x < fst y"

lemma stable_heap_refines_fifo_witness:
  "map_option (stable_view by_key)
     (run_ops (stable_exec 2 by_key) [PqPush (1, 10), PqPush (2, 20), PqPush (1, 11), PqPush (2, 21), PqPop] example_stable)
   = Some (4, [(2, 21), (1, 10), (1, 11)])"
proof -
  let ?cs = "[PqPush (1, 10), PqPush (2, 20), PqPush (1, 11), PqPush (2, 21), PqPop] :: (nat \<times> nat) pq_command list"
  have "weak_order by_key" by (auto simp: weak_order_def by_key_def)
  moreover have "stable_valid 2 by_key example_stable" by code_simp
  moreover have "run_ops (fifo_exec (2 ^ LENGTH(8) - 1) by_key) ?cs (stable_view by_key example_stable) = Some (4, [(2, 21), (1, 10), (1, 11)])"
    by (simp add: stable_view_def example_stable_def pq_sort_def by_key_def)
  ultimately show ?thesis
    using stable_heap_refines_fifo [of 2 by_key example_stable ?cs]
    by (cases "run_ops (stable_exec 2 by_key) ?cs example_stable") (auto simp del: fifo_exec.simps run_ops.simps)
qed

end
