(* ===== verification/Heap_Iteration.thy ===== *)
theory Heap_Iteration
  imports Heap_Queue
begin

text \<open>
  The ordered iterators of \<^verbatim>\<open>d_ary_heap\<close> (\<^verbatim>\<open>heap/detail/ordered_adaptor_iterator.hpp\<close>) and the comparison of heaps that is built on
  them (\<^verbatim>\<open>heap/detail/heap_comparison.hpp\<close>). The iterator keeps the positions that are next in a \<^verbatim>\<open>std::priority_queue\<close>: a
  list, from which the argument \<open>pick\<close> chooses an element that no other exceeds. Which of several it chooses is
  not specified, and the theorems hold for every choice.
\<close>

subsection \<open>The iterator\<close>

record ordered_iterator =
  current_index :: nat
  unvisited_nodes :: "nat list"

definition compare_by_heap_value :: "('s, 'v, 'n, 'c) heap_params \<Rightarrow> ('s, 'n, 'c) d_ary_heap \<Rightarrow> nat \<Rightarrow> nat \<Rightarrow> bool" where
  "compare_by_heap_value P h lhs rhs = (cmp_at P lhs rhs h = Some True)"

definition discover_nodes :: "('s, 'v, 'n, 'c) heap_params \<Rightarrow> ('s, 'n, 'c) d_ary_heap \<Rightarrow> nat \<Rightarrow> nat list \<Rightarrow> nat list" where
  "discover_nodes P h index ns =
     (if \<not> not_leaf (arity P) index (dh_q h) then ns
      else ns @ [first_child_index (arity P) index ..< last_child_index (arity P) index (dh_q h) + 1])"

definition oi_at :: "('s, 'v, 'n, 'c) heap_params \<Rightarrow> ('s, 'n, 'c) d_ary_heap \<Rightarrow> nat \<Rightarrow> ordered_iterator" where
  "oi_at P h initial_index = \<lparr>current_index = initial_index, unvisited_nodes = discover_nodes P h initial_index []\<rparr>"

definition ordered_begin :: "('s, 'v, 'n, 'c) heap_params \<Rightarrow> ('s, 'n, 'c) d_ary_heap \<Rightarrow> ordered_iterator" where
  "ordered_begin P h = oi_at P h 0"

definition ordered_end :: "('s, 'v, 'n, 'c) heap_params \<Rightarrow> ('s, 'n, 'c) d_ary_heap \<Rightarrow> ordered_iterator" where
  "ordered_end P h = oi_at P h (dh_size h)"

definition oi_equal :: "ordered_iterator \<Rightarrow> ordered_iterator \<Rightarrow> bool" where
  "oi_equal it jt = (current_index it = current_index jt)"

type_synonym picker = "(nat \<Rightarrow> nat \<Rightarrow> bool) \<Rightarrow> nat list \<Rightarrow> nat"

definition oi_increment ::
  "picker \<Rightarrow> ('s, 'v, 'n, 'c) heap_params \<Rightarrow> ('s, 'n, 'c) d_ary_heap \<Rightarrow> ordered_iterator \<Rightarrow> ordered_iterator" where
  "oi_increment pick P h it =
     (if unvisited_nodes it = [] then it\<lparr>current_index := dh_size h - 1 + 1\<rparr>
      else (let i = pick (compare_by_heap_value P h) (unvisited_nodes it) in
            it\<lparr>current_index := i, unvisited_nodes := discover_nodes P h i (remove1 i (unvisited_nodes it))\<rparr>))"

definition oi_dereference ::
  "('s, 'v, 'n, 'c) heap_params \<Rightarrow> ('s, 'n, 'c) d_ary_heap \<Rightarrow> ordered_iterator \<Rightarrow> 'v option" where
  "oi_dereference P h it =
     (if current_index it < length (dh_q h) then Some (get_value (super_t P) (dh_q h ! current_index it)) else None)"

text \<open>The values from an iterator to the end.\<close>

partial_function (option) ordered_values ::
  "picker \<Rightarrow> ('s, 'v, 'n, 'c) heap_params \<Rightarrow> ('s, 'n, 'c) d_ary_heap \<Rightarrow> ordered_iterator \<Rightarrow> 'v list option" where
  "ordered_values pick P h it =
     (if oi_equal it (ordered_end P h) then Some []
      else do {
        x \<leftarrow> oi_dereference P h it;
        xs \<leftarrow> ordered_values pick P h (oi_increment pick P h it);
        Some (x # xs) })"

subsection \<open>Comparison of heaps\<close>

definition value_equality :: "('v \<Rightarrow> 'v \<Rightarrow> bool) \<Rightarrow> 'v \<Rightarrow> 'v \<Rightarrow> bool" where
  "value_equality cmp lval rval = (\<not> cmp lval rval \<and> \<not> cmp rval lval)"

partial_function (option) heap_equivalence_loop ::
  "picker \<Rightarrow> ('v \<Rightarrow> 'v \<Rightarrow> bool) \<Rightarrow> ('s, 'v, 'n, 'c) heap_params \<Rightarrow> ('s, 'n, 'c) d_ary_heap \<Rightarrow> ('s, 'n, 'c) d_ary_heap
    \<Rightarrow> ordered_iterator \<Rightarrow> ordered_iterator \<Rightarrow> bool option" where
  "heap_equivalence_loop pick cmp P lhs rhs it1 it2 = do {
     x \<leftarrow> oi_dereference P lhs it1;
     y \<leftarrow> oi_dereference P rhs it2;
     if \<not> value_equality cmp x y then Some False
     else (let jt1 = oi_increment pick P lhs it1; jt2 = oi_increment pick P rhs it2;
               end1 = oi_equal jt1 (ordered_end P lhs); end2 = oi_equal jt2 (ordered_end P rhs) in
       if end1 \<and> end2 then Some True
       else if end1 \<or> end2 then Some False
       else heap_equivalence_loop pick cmp P lhs rhs jt1 jt2) }"

definition heap_equality ::
  "picker \<Rightarrow> ('v \<Rightarrow> 'v \<Rightarrow> bool) \<Rightarrow> ('s, 'v, 'n, 'c) heap_params \<Rightarrow> ('s, 'n, 'c) d_ary_heap \<Rightarrow> ('s, 'n, 'c) d_ary_heap \<Rightarrow> bool option" where
  "heap_equality pick cmp P lhs rhs =
     (if dh_size lhs \<noteq> dh_size rhs then Some False
      else if dh_empty lhs \<and> dh_empty rhs then Some True
      else heap_equivalence_loop pick cmp P lhs rhs (ordered_begin P lhs) (ordered_begin P rhs))"

partial_function (option) heap_compare_loop ::
  "picker \<Rightarrow> ('v \<Rightarrow> 'v \<Rightarrow> bool) \<Rightarrow> ('s, 'v, 'n, 'c) heap_params \<Rightarrow> ('s, 'n, 'c) d_ary_heap \<Rightarrow> ('s, 'n, 'c) d_ary_heap
    \<Rightarrow> ordered_iterator \<Rightarrow> ordered_iterator \<Rightarrow> bool option" where
  "heap_compare_loop pick cmp P lhs rhs it1 it2 = do {
     x \<leftarrow> oi_dereference P lhs it1;
     y \<leftarrow> oi_dereference P rhs it2;
     if cmp x y then Some True
     else if cmp y x then Some False
     else (let jt1 = oi_increment pick P lhs it1; jt2 = oi_increment pick P rhs it2;
               end1 = oi_equal jt1 (ordered_end P lhs); end2 = oi_equal jt2 (ordered_end P rhs) in
       if end1 \<and> end2 then Some True
       else if end1 \<or> end2 then Some False
       else heap_compare_loop pick cmp P lhs rhs jt1 jt2) }"

definition heap_compare ::
  "picker \<Rightarrow> ('v \<Rightarrow> 'v \<Rightarrow> bool) \<Rightarrow> ('s, 'v, 'n, 'c) heap_params \<Rightarrow> ('s, 'n, 'c) d_ary_heap \<Rightarrow> ('s, 'n, 'c) d_ary_heap \<Rightarrow> bool option" where
  "heap_compare pick cmp P lhs rhs =
     (if dh_size lhs < dh_size rhs then Some True
      else if dh_size lhs > dh_size rhs then Some False
      else heap_compare_loop pick cmp P lhs rhs (ordered_begin P lhs) (ordered_begin P rhs))"

lemmas iteration_unfold [code] = ordered_values.simps heap_equivalence_loop.simps heap_compare_loop.simps

subsection \<open>The order of the visits\<close>

definition weak_order_on :: "nat set \<Rightarrow> (nat \<Rightarrow> nat \<Rightarrow> bool) \<Rightarrow> bool" where
  "weak_order_on A r \<longleftrightarrow> (\<forall>x\<in>A. \<forall>y\<in>A. r x y \<longrightarrow> \<not> r y x)
     \<and> (\<forall>x\<in>A. \<forall>y\<in>A. \<forall>z\<in>A. \<not> r x y \<longrightarrow> \<not> r y z \<longrightarrow> \<not> r x z)"

lemma weak_order_onD:
  assumes "weak_order_on A r" "x \<in> A" "y \<in> A"
  shows "\<not> r x x" "r x y \<Longrightarrow> \<not> r y x" "z \<in> A \<Longrightarrow> \<not> r x y \<Longrightarrow> \<not> r y z \<Longrightarrow> \<not> r x z"
  using assms unfolding weak_order_on_def by blast+

text \<open>What \<^verbatim>\<open>std::priority_queue::top\<close> promises.\<close>

definition picks_top :: "picker \<Rightarrow> bool" where
  "picks_top pick \<longleftrightarrow> (\<forall>r ns. ns \<noteq> [] \<and> weak_order_on (set ns) r \<longrightarrow> pick r ns \<in> set ns \<and> (\<forall>n\<in>set ns. \<not> r (pick r ns) n))"

context heap_laws
begin

definition frontier :: "('s, 'n, 'c) d_ary_heap \<Rightarrow> nat list \<Rightarrow> nat list \<Rightarrow> bool" where
  "frontier h V U \<longleftrightarrow> distinct (V @ U) \<and> set (V @ U) \<subseteq> {..<length (dh_q h)} \<and> 0 \<in> set V
     \<and> (\<forall>j. 0 < j \<and> j \<in> set (V @ U) \<longrightarrow> parent j \<in> set V)
     \<and> (\<forall>j < length (dh_q h). 0 < j \<and> parent j \<in> set V \<longrightarrow> j \<in> set (V @ U))
     \<and> (\<forall>v\<in>set V. \<forall>w < length (dh_q h). w \<notin> set V \<longrightarrow> \<not> lt (outside h) (dh_q h ! v) (dh_q h ! w))"

lemma frontier_covers:
  assumes "heap_ordered h" "frontier h V U" "w < length (dh_q h)" "w \<notin> set V"
  shows "\<exists>a\<in>set U. \<not> lt (outside h) (dh_q h ! a) (dh_q h ! w)"
  using assms(3,4)
proof (induction w rule: less_induct)
  case (less w)
  have w0: "0 < w" using assms(2) less.prems(2) by (auto simp: frontier_def intro: gr0I)
  show ?case
  proof (cases "parent w \<in> set V")
    case True
    then have "w \<in> set U" using assms(2) less.prems w0 by (auto simp: frontier_def)
    then show ?thesis using refl_lt by blast
  next
    case False
    have p: "parent w < w" using parent_lt [OF w0] .
    with less False obtain a where a: "a \<in> set U" "\<not> lt (outside h) (dh_q h ! a) (dh_q h ! parent w)" by auto
    have "\<not> lt (outside h) (dh_q h ! parent w) (dh_q h ! w)" using assms(1) less.prems w0 by (simp add: heap_ordered_def below_def)
    then show ?thesis using a neg_trans by blast
  qed
qed

lemma discover_children:
  "set (discover_nodes P h i ns) = set ns \<union> {j. 0 < j \<and> j < length (dh_q h) \<and> parent j = i}"
  "distinct ns \<Longrightarrow> (\<And>j. j \<in> set ns \<Longrightarrow> 0 < j \<Longrightarrow> parent j \<noteq> i) \<Longrightarrow> distinct (discover_nodes P h i ns)"
proof -
  let ?f = "first_child_index (arity P) i" and ?l = "last_child_index (arity P) i (dh_q h)"
  have ch: "j \<in> {?f..<?l + 1} \<longleftrightarrow> 0 < j \<and> j < length (dh_q h) \<and> parent j = i" if "not_leaf (arity P) i (dh_q h)" for j
    using parent_child [OF arity, of j i] that arity by (auto simp: not_leaf_def last_child_index_def)
  have nl: "\<not> (0 < j \<and> j < length (dh_q h) \<and> parent j = i)" if "\<not> not_leaf (arity P) i (dh_q h)" for j
    using parent_child [OF arity, of j i] that by (auto simp: not_leaf_def)
  have chs: "set [?f..<?l + 1] = {j. 0 < j \<and> j < length (dh_q h) \<and> parent j = i}" if "not_leaf (arity P) i (dh_q h)"
    unfolding set_upt using ch [OF that] by blast
  show "set (discover_nodes P h i ns) = set ns \<union> {j. 0 < j \<and> j < length (dh_q h) \<and> parent j = i}"
  proof (cases "not_leaf (arity P) i (dh_q h)")
    case True
    then show ?thesis unfolding discover_nodes_def using chs by (simp only: if_False not_True_eq_False set_append)
  next
    case False
    then have "{j. 0 < j \<and> j < length (dh_q h) \<and> parent j = i} = {}" using nl by blast
    then show ?thesis using False by (simp only: discover_nodes_def if_True not_False_eq_True Un_empty_right)
  qed
  show "distinct (discover_nodes P h i ns)" if d: "distinct ns" "\<And>j. j \<in> set ns \<Longrightarrow> 0 < j \<Longrightarrow> parent j \<noteq> i"
  proof (cases "not_leaf (arity P) i (dh_q h)")
    case True
    have "set ns \<inter> set [?f..<?l + 1] = {}" unfolding chs [OF True] using d(2) by blast
    then show ?thesis using d(1) True by (simp only: discover_nodes_def if_False not_True_eq_False distinct_append distinct_upt simp_thms)
  qed (use d in \<open>simp add: discover_nodes_def\<close>)
qed

lemma frontier_start:
  assumes "heap_ordered h" "dh_q h \<noteq> []"
  shows "frontier h [0] (unvisited_nodes (ordered_begin P h))"
proof -
  have U: "set (unvisited_nodes (ordered_begin P h)) = {j. 0 < j \<and> j < length (dh_q h) \<and> parent j = 0}"
    "distinct (unvisited_nodes (ordered_begin P h))"
    using discover_children(2) [of "[]" 0 h] by (simp_all add: ordered_begin_def oi_at_def discover_children(1))
  then show ?thesis using assms ordered_top [OF assms(1)] by (auto simp: frontier_def)
qed

lemma compare_weak:
  assumes "live_all h" "A \<subseteq> {..<length (dh_q h)}"
  shows "weak_order_on A (compare_by_heap_value P h)"
    and "x \<in> A \<Longrightarrow> y \<in> A \<Longrightarrow> compare_by_heap_value P h x y \<longleftrightarrow> lt (outside h) (dh_q h ! x) (dh_q h ! y)"
proof -
  have c: "compare_by_heap_value P h x y \<longleftrightarrow> lt (outside h) (dh_q h ! x) (dh_q h ! y)" if "x \<in> A" "y \<in> A" for x y
  proof -
    have "x < length (dh_q h)" "y < length (dh_q h)" using assms(2) that by auto
    then show ?thesis by (simp add: compare_by_heap_value_def cmp_at_live [OF assms(1)])
  qed
  then show "x \<in> A \<Longrightarrow> y \<in> A \<Longrightarrow> compare_by_heap_value P h x y \<longleftrightarrow> lt (outside h) (dh_q h ! x) (dh_q h ! y)" .
  show "weak_order_on A (compare_by_heap_value P h)" unfolding weak_order_on_def
  proof (intro conjI ballI impI)
    fix x y assume "x \<in> A" "y \<in> A" "compare_by_heap_value P h x y"
    then show "\<not> compare_by_heap_value P h y x" using c asym by blast
  next
    fix x y z assume "x \<in> A" "y \<in> A" "z \<in> A" "\<not> compare_by_heap_value P h x y" "\<not> compare_by_heap_value P h y z"
    then show "\<not> compare_by_heap_value P h x z" using c neg_trans by blast
  qed
qed

lemma frontier_step:
  assumes o: "heap_ordered h" and lv: "live_all h" and fr: "frontier h V U" and ne: "U \<noteq> []" and pk: "picks_top pick"
    and u: "u = pick (compare_by_heap_value P h) U"
  shows "u \<in> set U" "frontier h (V @ [u]) (discover_nodes P h u (remove1 u U))"
proof -
  let ?n = "length (dh_q h)" and ?U = "discover_nodes P h u (remove1 u U)"
  have sub: "set U \<subseteq> {..<?n}" using fr by (auto simp: frontier_def)
  have top: "u \<in> set U" "\<And>a. a \<in> set U \<Longrightarrow> \<not> compare_by_heap_value P h u a"
    using pk compare_weak(1) [OF lv sub] ne unfolding picks_top_def u by blast+
  show "u \<in> set U" by (rule top)
  have d: "distinct V" "distinct U" "set V \<inter> set U = {}" using fr by (auto simp: frontier_def)
  have sU: "set ?U = (set U - {u}) \<union> {j. 0 < j \<and> j < ?n \<and> parent j = u}" using d(2) by (simp add: discover_children)
  have par: "parent j \<in> set V" if "0 < j" "j \<in> set V \<union> set U" for j using fr that by (auto simp: frontier_def)
  have u0: "0 < u" "u < ?n" using top(1) d(3) fr sub by (auto simp: frontier_def intro: gr0I)
  have new: "j \<notin> set V \<union> set U" if "0 < j" "parent j = u" for j using par [OF that(1)] that(2) top(1) d(3) by auto
  have "distinct ?U" using d(2) new by (intro discover_children(2)) auto
  moreover have "set (V @ [u]) \<inter> set ?U = {}" using sU d(3) top(1) new u0 by auto
  ultimately have A: "distinct ((V @ [u]) @ ?U)" using d top(1) by auto
  have B: "set ((V @ [u]) @ ?U) \<subseteq> {..<?n}" "0 \<in> set (V @ [u])" using sU sub u0 fr by (auto simp: frontier_def)
  have C: "\<not> lt (outside h) (dh_q h ! v) (dh_q h ! w)" if v: "v \<in> set (V @ [u])" and w: "w < ?n" "w \<notin> set (V @ [u])" for v w
  proof (cases "v = u")
    case True
    obtain a where a: "a \<in> set U" "\<not> lt (outside h) (dh_q h ! a) (dh_q h ! w)" using frontier_covers [OF o fr, of w] w by auto
    then have "\<not> lt (outside h) (dh_q h ! u) (dh_q h ! a)" using top compare_weak(2) [OF lv sub] by blast
    then show ?thesis using a(2) neg_trans True by blast
  qed (use fr v w in \<open>auto simp: frontier_def\<close>)
  have E: "j \<in> set ((V @ [u]) @ ?U)" if "j < ?n" "0 < j" "parent j \<in> set (V @ [u])" for j
    using fr that sU by (auto simp: frontier_def)
  have F: "parent j \<in> set (V @ [u])" if "0 < j" "j \<in> set ((V @ [u]) @ ?U)" for j
    using par [OF that(1)] that sU top(1) by auto
  show "frontier h (V @ [u]) ?U" unfolding frontier_def using A B C E F by blast
qed

lemma frontier_complete:
  assumes "heap_ordered h" "frontier h V []"
  shows "set V = {..<length (dh_q h)}"
  using frontier_covers [OF assms] assms(2) by (auto simp: frontier_def)

lemma ordered_values_frontier:
  assumes o: "heap_ordered h" and lv: "live_all h" and pk: "picks_top pick"
    and "frontier h V U" "V \<noteq> []"
  shows "\<exists>ws. ordered_values pick P h \<lparr>current_index = last V, unvisited_nodes = U\<rparr>
        = Some (map (\<lambda>i. get_value (super_t P) (dh_q h ! i)) (last V # ws))
      \<and> mset (V @ ws) = mset [0..<length (dh_q h)]
      \<and> sorted_wrt (\<lambda>a b. \<not> lt (outside h) (dh_q h ! a) (dh_q h ! b)) (last V # ws)"
  using assms(4,5)
proof (induction "length (dh_q h) - length V" arbitrary: V U rule: less_induct)
  case less
  let ?n = "length (dh_q h)" and ?it = "\<lparr>current_index = last V, unvisited_nodes = U\<rparr>"
  have dV: "distinct V" "set V \<subseteq> {..<?n}" "distinct (V @ U)" "set (V @ U) \<subseteq> {..<?n}" using less.prems(1) by (auto simp: frontier_def)
  have l: "last V < ?n" using last_in_set [OF less.prems(2)] dV(2) by auto
  have e: "current_index (ordered_end P h) = ?n" by (simp add: ordered_end_def oi_at_def dh_size_def)
  have st: "ordered_values pick P h ?it
    = map_option (Cons (get_value (super_t P) (dh_q h ! last V))) (ordered_values pick P h (oi_increment pick P h ?it))"
    using l e by (subst ordered_values.simps) (auto simp: oi_equal_def oi_dereference_def map_option_case split: option.splits)
  show ?case
  proof (cases "U = []")
    case True
    have "set V = set [0..<?n]" using frontier_complete [OF o] less.prems(1) True by auto
    then have "mset V = mset [0..<?n]" using set_eq_iff_mset_eq_distinct [OF dV(1) distinct_upt] by blast
    moreover have "Suc (?n - Suc 0) = ?n" using l by simp
    then have "ordered_values pick P h (oi_increment pick P h ?it) = Some []"
      using True e by (subst ordered_values.simps) (simp add: oi_increment_def oi_equal_def dh_size_def)
    ultimately show ?thesis using st by (intro exI [of _ "[]"]) simp
  next
    case False
    define u where "u = pick (compare_by_heap_value P h) U"
    let ?U = "discover_nodes P h u (remove1 u U)"
    note fs = frontier_step [OF o lv less.prems(1) False pk u_def]
    have inc: "oi_increment pick P h ?it = \<lparr>current_index = last (V @ [u]), unvisited_nodes = ?U\<rparr>"
      using False by (simp add: oi_increment_def u_def Let_def)
    have "length V < ?n"
      using card_mono [OF _ dV(4)] distinct_card [OF dV(3)] False by (cases U) auto
    then have "?n - length (V @ [u]) < ?n - length V" by simp
    from less.hyps [OF this fs(2)] obtain ws where ws:
      "ordered_values pick P h \<lparr>current_index = last (V @ [u]), unvisited_nodes = ?U\<rparr>
        = Some (map (\<lambda>i. get_value (super_t P) (dh_q h ! i)) (last (V @ [u]) # ws))"
      "mset ((V @ [u]) @ ws) = mset [0..<?n]"
      "sorted_wrt (\<lambda>a b. \<not> lt (outside h) (dh_q h ! a) (dh_q h ! b)) (last (V @ [u]) # ws)" by blast
    have "distinct ((V @ [u]) @ ws) \<longleftrightarrow> distinct [0..<?n]" using ws(2) by (rule mset_eq_imp_distinct_iff)
    then have "distinct (V @ u # ws)" by simp
    moreover have "set (V @ u # ws) = {..<?n}"
      using mset_eq_setD [OF ws(2)] by (simp only: append_assoc append_Cons append_Nil set_upt lessThan_atLeast0)
    ultimately have out: "w < ?n \<and> w \<notin> set V" if "w \<in> set (u # ws)" for w
      using that unfolding distinct_append set_append by blast
    have "last V \<in> set V" using less.prems(2) by simp
    then have "\<not> lt (outside h) (dh_q h ! last V) (dh_q h ! w)" if "w \<in> set (u # ws)" for w
      using less.prems(1) out [OF that] unfolding frontier_def by blast
    then show ?thesis using st ws unfolding inc by (intro exI [of _ "u # ws"]) simp
  qed
qed

lemma ordered_iteration:
  assumes o: "heap_ordered h" and lv: "live_all h" and pk: "picks_top pick"
  obtains ns where "ordered_values pick P h (ordered_begin P h) = Some (map (get_value (super_t P)) ns)" "mset ns = mset (dh_q h)"
    "sorted_wrt (\<lambda>a b. \<not> lt (outside h) a b) ns"
proof (cases "dh_q h = []")
  case True
  then have "ordered_values pick P h (ordered_begin P h) = Some []"
    by (subst ordered_values.simps) (simp add: oi_equal_def ordered_begin_def ordered_end_def oi_at_def dh_size_def)
  then show thesis using that [of "[]"] True by simp
next
  case False
  have it: "ordered_begin P h = \<lparr>current_index = last [0], unvisited_nodes = unvisited_nodes (ordered_begin P h)\<rparr>"
    by (simp add: ordered_begin_def oi_at_def)
  obtain ws where ws: "ordered_values pick P h (ordered_begin P h) = Some (map (\<lambda>i. get_value (super_t P) (dh_q h ! i)) (0 # ws))"
    "mset (0 # ws) = mset [0..<length (dh_q h)]"
    "sorted_wrt (\<lambda>a b. \<not> lt (outside h) (dh_q h ! a) (dh_q h ! b)) (0 # ws)"
    using ordered_values_frontier [OF o lv pk frontier_start [OF o False]] it by auto
  have "mset (map ((!) (dh_q h)) (0 # ws)) = image_mset ((!) (dh_q h)) (mset (0 # ws))" by simp
  also have "\<dots> = mset (map ((!) (dh_q h)) [0..<length (dh_q h)])" unfolding ws(2) by simp
  finally have "mset (map ((!) (dh_q h)) (0 # ws)) = mset (dh_q h)" by (simp only: map_nth)
  then show thesis using ws(1,3) by (intro that [of "map ((!) (dh_q h)) (0 # ws)"]) (auto simp: sorted_wrt_map)
qed

end

lemma ordered_values_Cons:
  "ordered_values pick P h it = Some (x # xs) \<longleftrightarrow> \<not> oi_equal it (ordered_end P h) \<and> oi_dereference P h it = Some x
     \<and> ordered_values pick P h (oi_increment pick P h it) = Some xs"
  by (subst ordered_values.simps) (auto simp: bind_eq_Some_conv)

lemma ordered_values_Nil: "ordered_values pick P h it = Some [] \<longleftrightarrow> oi_equal it (ordered_end P h)"
  by (subst ordered_values.simps) (auto simp: bind_eq_Some_conv)

fun lexicographic_le :: "('v \<Rightarrow> 'v \<Rightarrow> bool) \<Rightarrow> 'v list \<Rightarrow> 'v list \<Rightarrow> bool" where
  "lexicographic_le cmp (x # xs) (y # ys) = (if cmp x y then True else if cmp y x then False else lexicographic_le cmp xs ys)"
| "lexicographic_le cmp _ _ = True"

lemma compare_loop_values:
  assumes "ordered_values pick P lhs it1 = Some xs" "ordered_values pick P rhs it2 = Some ys" "length xs = length ys" "xs \<noteq> []"
  shows "heap_compare_loop pick cmp P lhs rhs it1 it2 = Some (lexicographic_le cmp xs ys)"
  using assms
proof (induction xs arbitrary: ys it1 it2)
  case (Cons x xs)
  then obtain y ys' where ys: "ys = y # ys'" by (cases ys) auto
  let ?jt1 = "oi_increment pick P lhs it1" and ?jt2 = "oi_increment pick P rhs it2"
  have v: "oi_dereference P lhs it1 = Some x" "ordered_values pick P lhs ?jt1 = Some xs"
    "oi_dereference P rhs it2 = Some y" "ordered_values pick P rhs ?jt2 = Some ys'"
    using Cons.prems ys by (simp_all add: ordered_values_Cons)
  have e: "oi_equal ?jt1 (ordered_end P lhs) \<longleftrightarrow> xs = []" "oi_equal ?jt2 (ordered_end P rhs) \<longleftrightarrow> xs = []"
    using v(2,4) ordered_values_Nil [of pick P lhs ?jt1] ordered_values_Nil [of pick P rhs ?jt2] Cons.prems(3) ys by auto
  show ?case using v Cons.IH [OF v(2,4)] e Cons.prems(3) ys by (subst heap_compare_loop.simps) (cases xs, auto simp: Let_def)
qed simp

lemma equivalence_loop_values:
  assumes "ordered_values pick P lhs it1 = Some xs" "ordered_values pick P rhs it2 = Some ys" "length xs = length ys" "xs \<noteq> []"
  shows "heap_equivalence_loop pick cmp P lhs rhs it1 it2 = Some (list_all2 (value_equality cmp) xs ys)"
  using assms
proof (induction xs arbitrary: ys it1 it2)
  case (Cons x xs)
  then obtain y ys' where ys: "ys = y # ys'" by (cases ys) auto
  let ?jt1 = "oi_increment pick P lhs it1" and ?jt2 = "oi_increment pick P rhs it2"
  have v: "oi_dereference P lhs it1 = Some x" "ordered_values pick P lhs ?jt1 = Some xs"
    "oi_dereference P rhs it2 = Some y" "ordered_values pick P rhs ?jt2 = Some ys'"
    using Cons.prems ys by (simp_all add: ordered_values_Cons)
  have e: "oi_equal ?jt1 (ordered_end P lhs) \<longleftrightarrow> xs = []" "oi_equal ?jt2 (ordered_end P rhs) \<longleftrightarrow> xs = []"
    using v(2,4) ordered_values_Nil [of pick P lhs ?jt1] ordered_values_Nil [of pick P rhs ?jt2] Cons.prems(3) ys by auto
  show ?case using v Cons.IH [OF v(2,4)] e Cons.prems(3) ys by (subst heap_equivalence_loop.simps) (cases xs, auto simp: Let_def)
qed simp

subsection \<open>Properties\<close>

context heap_order
begin

lemma plain_iteration:
  assumes "d_ary_ordered D lt (dh_q h)" "picks_top pick"
  obtains xs where "ordered_values pick (plain_params D lt) h (ordered_begin (plain_params D lt) h) = Some xs"
    "mset xs = mset (dh_q h)" "sorted_wrt (\<lambda>x y. \<not> lt x y) xs"
proof -
  have g: "get_value (super_t (plain_params D lt)) = (\<lambda>n. n)" by (simp add: plain_params_def unstable_base_def)
  have "plain.heap_ordered h" "plain.live_all h" using assms(1) by (simp_all add: plain.heap_ordered_vector plain.live_all_def) (simp add: plain_params_def)
  from this assms(2) show thesis
    by (rule plain.ordered_iteration) (rule that, simp_all add: g)
qed

end

text \<open>C34 The ordered iterator of a heap reaches its end after visiting every element exactly once, in an order in which no
  element comes before a greater one, whatever choice \<^verbatim>\<open>std::priority_queue\<close> makes among equivalent positions.\<close>

theorem ordered_iterator_visits_all:
  assumes "0 < D" "weak_order lt" "d_ary_ordered D lt (dh_q h)" "picks_top pick"
  shows "\<exists>xs. ordered_values pick (plain_params D lt) h (ordered_begin (plain_params D lt) h) = Some xs
    \<and> mset xs = mset (dh_q h) \<and> sorted_wrt (\<lambda>x y. \<not> lt x y) xs"
  using heap_order.plain_iteration [OF heap_orderI [OF assms(1,2)] assms(3,4)] by blast

text \<open>A choice that keeps the promise: the first position that none exceeds.\<close>

fun pick_from :: "(nat \<Rightarrow> nat \<Rightarrow> bool) \<Rightarrow> nat \<Rightarrow> nat list \<Rightarrow> nat" where
  "pick_from r m [] = m"
| "pick_from r m (n # ns) = pick_from r (if r m n then n else m) ns"

definition pick_first :: picker where
  "pick_first r ns = (case ns of [] \<Rightarrow> 0 | m # ms \<Rightarrow> pick_from r m ms)"

lemma pick_from_top:
  assumes "weak_order_on A r" "m \<in> A" "set ns \<subseteq> A"
  shows "pick_from r m ns \<in> insert m (set ns) \<and> (\<forall>n\<in>insert m (set ns). \<not> r (pick_from r m ns) n)"
  using assms(2,3)
proof (induction ns arbitrary: m)
  case Nil
  then have "\<not> r m m" using assms(1) unfolding weak_order_on_def by blast
  then show ?case by simp
next
  case (Cons n ns)
  let ?m = "if r m n then n else m"
  have "?m \<in> A" "set ns \<subseteq> A" using Cons.prems by auto
  from Cons.IH [OF this] have ih: "pick_from r ?m ns \<in> insert ?m (set ns)" "\<not> r (pick_from r ?m ns) ?m"
    "\<forall>k\<in>set ns. \<not> r (pick_from r ?m ns) k" by auto
  have p: "pick_from r ?m ns \<in> A" using ih(1) Cons.prems by (auto split: if_splits)
  have m: "m \<in> A" "n \<in> A" using Cons.prems by simp_all
  have "\<not> r ?m m" "\<not> r ?m n"
    using weak_order_onD(1) [OF assms(1) m(1) m(2)] weak_order_onD(1) [OF assms(1) m(2) m(1)]
      weak_order_onD(2) [OF assms(1) m] by simp_all
  moreover have "\<not> r (pick_from r ?m ns) z" if "z \<in> A" "\<not> r ?m z" for z
    by (rule weak_order_onD(3) [OF assms(1) p \<open>?m \<in> A\<close> that(1) ih(2) that(2)])
  ultimately have "\<not> r (pick_from r ?m ns) m" "\<not> r (pick_from r ?m ns) n" using m by blast+
  moreover have "pick_from r m (n # ns) = pick_from r ?m ns" by simp
  ultimately show ?case using ih(1,3) by (simp del: pick_from.simps split: if_splits) blast
qed

lemma picks_first: "picks_top pick_first"
  unfolding picks_top_def
proof (intro allI impI, elim conjE)
  fix r :: "nat \<Rightarrow> nat \<Rightarrow> bool" and ns :: "nat list" assume "ns \<noteq> []" "weak_order_on (set ns) r"
  then show "pick_first r ns \<in> set ns \<and> (\<forall>n\<in>set ns. \<not> r (pick_first r ns) n)"
    using pick_from_top [of "set ns" r "hd ns" "tl ns"] by (cases ns) (auto simp: pick_first_def)
qed

lemma ordered_iterator_visits_all_witness:
  "\<exists>xs. ordered_values pick_first (plain_params 3 (<)) example_heap (ordered_begin (plain_params 3 (<)) example_heap) = Some xs
    \<and> mset xs = mset (dh_q example_heap)"
proof -
  have "d_ary_ordered 3 (<) (dh_q example_heap)" by code_simp
  then show ?thesis using ordered_iterator_visits_all [of 3 "(<)" example_heap pick_first] weak_order_less picks_first by auto
qed

end
