(* ===== verification/Heap_Compare.thy ===== *)
theory Heap_Compare
  imports Heap_Iteration
begin

text \<open>
  The two ways in which \<^verbatim>\<open>heap/detail/heap_comparison.hpp\<close> compares heaps: with ordered iterators, and for heaps that have none by
  removing the elements of two copies. Both read the elements in a descending order; such an order is unique up to equivalent elements,
  so that the results can be compared although the elements may come in different orders.
\<close>

subsection \<open>Comparison by copies\<close>

partial_function (option) equivalence_copy_loop ::
  "('v \<Rightarrow> 'v \<Rightarrow> bool) \<Rightarrow> ('s, 'v, 'n, 'c) heap_params \<Rightarrow> ('s, 'n, 'c) d_ary_heap \<Rightarrow> ('s, 'n, 'c) d_ary_heap \<Rightarrow> bool option" where
  "equivalence_copy_loop cmp P lhs_copy rhs_copy = do {
     x \<leftarrow> dh_top P lhs_copy;
     y \<leftarrow> dh_top P rhs_copy;
     if \<not> value_equality cmp x y then Some False
     else do {
       l \<leftarrow> dh_pop P lhs_copy;
       r \<leftarrow> dh_pop P rhs_copy;
       if dh_empty l \<and> dh_empty r then Some True
       else if dh_empty l then Some False
       else if dh_empty r then Some False
       else equivalence_copy_loop cmp P l r } }"

definition heap_equivalence_copy ::
  "('v \<Rightarrow> 'v \<Rightarrow> bool) \<Rightarrow> ('s, 'v, 'n, 'c) heap_params \<Rightarrow> ('s, 'n, 'c) d_ary_heap \<Rightarrow> ('s, 'n, 'c) d_ary_heap \<Rightarrow> bool option" where
  "heap_equivalence_copy cmp P lhs rhs =
     (if dh_size lhs \<noteq> dh_size rhs then Some False
      else if dh_empty lhs \<and> dh_empty rhs then Some True
      else equivalence_copy_loop cmp P lhs rhs)"

partial_function (option) compare_copy_loop ::
  "('v \<Rightarrow> 'v \<Rightarrow> bool) \<Rightarrow> ('s, 'v, 'n, 'c) heap_params \<Rightarrow> ('s, 'n, 'c) d_ary_heap \<Rightarrow> ('s, 'n, 'c) d_ary_heap \<Rightarrow> bool option" where
  "compare_copy_loop cmp P lhs_copy rhs_copy = do {
     x \<leftarrow> dh_top P lhs_copy;
     y \<leftarrow> dh_top P rhs_copy;
     if cmp x y then Some True
     else if cmp y x then Some False
     else do {
       l \<leftarrow> dh_pop P lhs_copy;
       r \<leftarrow> dh_pop P rhs_copy;
       if dh_empty l \<and> dh_empty r then Some False
       else compare_copy_loop cmp P l r } }"

definition heap_compare_copy ::
  "('v \<Rightarrow> 'v \<Rightarrow> bool) \<Rightarrow> ('s, 'v, 'n, 'c) heap_params \<Rightarrow> ('s, 'n, 'c) d_ary_heap \<Rightarrow> ('s, 'n, 'c) d_ary_heap \<Rightarrow> bool option" where
  "heap_compare_copy cmp P lhs rhs =
     (if dh_size lhs < dh_size rhs then Some True
      else if dh_size lhs > dh_size rhs then Some False
      else compare_copy_loop cmp P lhs rhs)"

lemmas copy_loop_unfold [code] = equivalence_copy_loop.simps compare_copy_loop.simps

subsection \<open>The sequence of the tops\<close>

inductive drained :: "('s, 'v, 'n, 'c) heap_params \<Rightarrow> ('s, 'n, 'c) d_ary_heap \<Rightarrow> 'v list \<Rightarrow> bool" for P where
  nothing: "dh_empty h \<Longrightarrow> drained P h []"
| next_top: "\<not> dh_empty h \<Longrightarrow> dh_top P h = Some x \<Longrightarrow> dh_pop P h = Some h' \<Longrightarrow> drained P h' xs \<Longrightarrow> drained P h (x # xs)"

inductive_cases drained_NilE: "drained P h []"
inductive_cases drained_ConsE: "drained P h (x # xs)"

lemma drained_empty: "drained P h xs \<Longrightarrow> dh_empty h \<longleftrightarrow> xs = []"
  by (cases rule: drained.cases) auto

fun lexicographic_less :: "('v \<Rightarrow> 'v \<Rightarrow> bool) \<Rightarrow> 'v list \<Rightarrow> 'v list \<Rightarrow> bool" where
  "lexicographic_less cmp (x # xs) (y # ys) = (if cmp x y then True else if cmp y x then False else lexicographic_less cmp xs ys)"
| "lexicographic_less cmp _ _ = False"

lemma copy_loops_values:
  assumes "drained P l xs" "drained P r ys" "length xs = length ys" "xs \<noteq> []"
  shows "equivalence_copy_loop cmp P l r = Some (list_all2 (value_equality cmp) xs ys)"
    and "compare_copy_loop cmp P l r = Some (lexicographic_less cmp xs ys)"
proof -
  have "equivalence_copy_loop cmp P l r = Some (list_all2 (value_equality cmp) xs ys)
      \<and> compare_copy_loop cmp P l r = Some (lexicographic_less cmp xs ys)"
    using assms
  proof (induction xs arbitrary: l r ys rule: list.induct)
    case (Cons x xs)
    then obtain y ys' where ys: "ys = y # ys'" by (cases ys) auto
    obtain l1 where l1: "dh_top P l = Some x" "dh_pop P l = Some l1" "drained P l1 xs" using Cons.prems(1) by (rule drained_ConsE)
    obtain r1 where r1: "dh_top P r = Some y" "dh_pop P r = Some r1" "drained P r1 ys'" using Cons.prems(2) unfolding ys by (rule drained_ConsE)
    have e: "dh_empty l1 \<longleftrightarrow> xs = []" "dh_empty r1 \<longleftrightarrow> xs = []"
      using drained_empty [OF l1(3)] drained_empty [OF r1(3)] Cons.prems(3) ys by auto
    have len: "length xs = length ys'" using Cons.prems(3) ys by simp
    show ?case
    proof (cases "xs = []")
      case True
      then show ?thesis using l1 r1 e ys len
        by (subst equivalence_copy_loop.simps, subst compare_copy_loop.simps) (auto simp: value_equality_def)
    next
      case False
      note ih = Cons.IH [OF l1(3) r1(3) len False]
      have "value_equality cmp x y \<longleftrightarrow> \<not> cmp x y \<and> \<not> cmp y x" by (simp add: value_equality_def)
      then show ?thesis using l1(1,2) r1(1,2) e ys False ih
        by (subst equivalence_copy_loop.simps, subst compare_copy_loop.simps) auto
    qed
  qed simp
  then show "equivalence_copy_loop cmp P l r = Some (list_all2 (value_equality cmp) xs ys)"
    and "compare_copy_loop cmp P l r = Some (lexicographic_less cmp xs ys)" by simp_all
qed

context heap_order
begin

lemma plain_drained:
  assumes "d_ary_ordered D lt (dh_q h)"
  shows "\<exists>xs. drained (plain_params D lt) h xs \<and> mset xs = mset (dh_q h) \<and> sorted_wrt (\<lambda>x y. \<not> lt x y) xs"
  using assms
proof (induction "length (dh_q h)" arbitrary: h rule: less_induct)
  case less
  show ?case
  proof (cases "dh_q h = []")
    case True
    then show ?thesis by (intro exI [of _ "[]"]) (simp add: dh_empty_def drained.nothing)
  next
    case False
    let ?x = "dh_q h ! 0"
    obtain h' where h': "dh_top (plain_params D lt) h = Some ?x" "\<And>x. x \<in> set (dh_q h) \<Longrightarrow> \<not> lt ?x x"
      "dh_pop (plain_params D lt) h = Some h'" "d_ary_ordered D lt (dh_q h')" "add_mset ?x (mset (dh_q h')) = mset (dh_q h)"
      by (rule plain_top_pop [OF less.prems False]) blast
    have "length (dh_q h') < length (dh_q h)" using arg_cong [OF h'(5), of size] by simp
    then obtain xs where xs: "drained (plain_params D lt) h' xs" "mset xs = mset (dh_q h')" "sorted_wrt (\<lambda>x y. \<not> lt x y) xs"
      using less.hyps h'(4) by blast
    have "drained (plain_params D lt) h (?x # xs)" using drained.next_top [OF _ h'(1,3) xs(1)] False by (simp add: dh_empty_def)
    moreover have "set xs \<subseteq> set (dh_q h)" using xs(2) h'(5) by (metis mset_eq_setD set_mset_mset set_mset_add_mset_insert subset_insertI)
    ultimately show ?thesis using xs(2,3) h'(2,5) by (intro exI [of _ "?x # xs"]) auto
  qed
qed

end

subsection \<open>Descending orders are unique up to equivalent elements\<close>

lemma value_equality_equiv:
  assumes "weak_order lt"
  shows "value_equality lt x x" "value_equality lt x y \<Longrightarrow> value_equality lt y x"
    "value_equality lt x y \<Longrightarrow> value_equality lt y z \<Longrightarrow> value_equality lt x z"
  using assms unfolding value_equality_def weak_order_def by blast+

lemma value_equality_less:
  assumes "weak_order lt" "value_equality lt x x'" "value_equality lt y y'"
  shows "lt x y \<longleftrightarrow> lt x' y'"
  using assms unfolding value_equality_def weak_order_def by metis

lemma matched_sorted:
  assumes w: "weak_order lt" and "list_all2 (value_equality lt) xs zs" "mset zs = mset ys"
    and "sorted_wrt (\<lambda>x y. \<not> lt x y) xs" "sorted_wrt (\<lambda>x y. \<not> lt x y) ys"
  shows "list_all2 (value_equality lt) xs ys"
  using assms(2-)
proof (induction xs arbitrary: ys zs)
  case (Cons x xs)
  let ?E = "value_equality lt"
  note eq = value_equality_equiv [OF w]
  obtain z zs' where zs: "zs = z # zs'" "?E x z" "list_all2 ?E xs zs'" using Cons.prems(1) by (auto simp: list_all2_Cons1)
  then obtain y ys' where ys: "ys = y # ys'" using Cons.prems(2) by (cases ys) auto
  have "\<not> lt x u" if "u \<in> set ys" for u
  proof -
    have "u \<in> set zs" using that Cons.prems(2) by (metis mset_eq_setD)
    then obtain x' where "x' \<in> set (x # xs)" "?E x' u" using Cons.prems(1) by (metis in_set_conv_nth list_all2_conv_all_nth)
    then show ?thesis using Cons.prems(3) value_equality_less [OF w eq(1) \<open>?E x' u\<close>, of x] eq(1) [of x] by (auto simp: value_equality_def)
  qed
  then have "\<not> lt x y" using ys by simp
  moreover have "z \<in> set ys" using Cons.prems(2) zs(1) by (metis list.set_intros(1) mset_eq_setD)
  then have "\<not> lt y z" using Cons.prems(4) ys eq(1) [of y] by (auto simp: value_equality_def)
  then have "\<not> lt y x" using value_equality_less [OF w eq(1) zs(2), of y] by simp
  ultimately have xy: "?E x y" by (simp add: value_equality_def)
  obtain ws where "list_all2 ?E xs ws" "mset ws = mset ys'"
  proof (cases "z = y")
    case True
    then show thesis using that [OF zs(3)] Cons.prems(2) zs(1) ys by simp
  next
    case False
    then have "y \<in> set zs'" using Cons.prems(2) zs(1) ys by (metis list.set_intros(1) mset_eq_setD set_ConsD)
    then obtain k where k: "k < length zs'" "zs' ! k = y" by (auto simp: in_set_conv_nth)
    have "list_all2 ?E xs (zs'[k := z])" using zs(3) k eq(3) [OF _ eq(3) [OF eq(2) [OF xy] zs(2)]]
      by (auto simp: list_all2_conv_all_nth nth_list_update)
    moreover have "add_mset y (mset (zs'[k := z])) = add_mset y (mset ys')"
      using k nth_mem [OF k(1)] Cons.prems(2) zs(1) ys by (simp add: mset_update add_mset_commute [of y z])
    then have "mset (zs'[k := z]) = mset ys'" by simp
    ultimately show thesis by (rule that)
  qed
  then have "list_all2 ?E xs ys'" using Cons.IH Cons.prems(3,4) ys by auto
  then show ?case using xy ys by simp
qed simp

lemma sorted_equivalent:
  assumes "weak_order lt" "mset xs = mset ys" "sorted_wrt (\<lambda>x y. \<not> lt x y) xs" "sorted_wrt (\<lambda>x y. \<not> lt x y) ys"
  shows "list_all2 (value_equality lt) xs ys"
  using matched_sorted [OF assms(1) list_all2_refl assms(2-4)] value_equality_equiv(1) [OF assms(1)] by blast

lemma lexicographic_cong:
  assumes w: "weak_order lt" and "list_all2 (value_equality lt) xs xs'" "list_all2 (value_equality lt) ys ys'"
  shows "list_all2 (value_equality lt) xs ys \<longleftrightarrow> list_all2 (value_equality lt) xs' ys'"
    and "lexicographic_less lt xs ys \<longleftrightarrow> lexicographic_less lt xs' ys'"
proof -
  have "(list_all2 (value_equality lt) xs ys \<longleftrightarrow> list_all2 (value_equality lt) xs' ys') \<and> (lexicographic_less lt xs ys \<longleftrightarrow> lexicographic_less lt xs' ys')"
    using assms(2,3)
  proof (induction xs xs' arbitrary: ys ys' rule: list_all2_induct)
    case (Cons x xs x' xs')
    show ?case
    proof (cases ys)
      case ys: (Cons y zs)
      then obtain y' zs' where ys': "ys' = y' # zs'" "value_equality lt y y'" "list_all2 (value_equality lt) zs zs'"
        using Cons.prems by (auto simp: list_all2_Cons1)
      have "lt x y \<longleftrightarrow> lt x' y'" "lt y x \<longleftrightarrow> lt y' x'" using value_equality_less [OF w] Cons.hyps(1) ys'(2) by blast+
      then show ?thesis using Cons.IH [OF ys'(3)] ys ys'(1) by (simp add: value_equality_def)
    qed (use Cons.prems in simp)
  qed auto
  then show "list_all2 (value_equality lt) xs ys \<longleftrightarrow> list_all2 (value_equality lt) xs' ys'"
    and "lexicographic_less lt xs ys \<longleftrightarrow> lexicographic_less lt xs' ys'" by simp_all
qed

lemma lexicographic_le_less:
  assumes "length xs = length ys"
  shows "lexicographic_le lt xs ys \<longleftrightarrow> lexicographic_less lt xs ys \<or> list_all2 (value_equality lt) xs ys"
    and "weak_order lt \<Longrightarrow> list_all2 (value_equality lt) xs ys \<Longrightarrow> \<not> lexicographic_less lt xs ys"
  using assms by (induction xs ys rule: list_induct2) (auto simp: value_equality_def)

subsection \<open>Properties\<close>

text \<open>C35 The two equality tests of heaps agree and always return. The two orders do not: they agree on heaps that are not equal, but of equal heaps that
  are not empty the comparison with iterators says that the first is less and the comparison of copies that it is not; on two empty
  heaps both read an element that does not exist.\<close>

theorem heap_comparisons_agree:
  assumes "0 < D" "weak_order lt" "d_ary_ordered D lt (dh_q l)" "d_ary_ordered D lt (dh_q r)" "picks_top pick"
  shows "\<exists>e. heap_equality pick lt (plain_params D lt) l r = Some e \<and> heap_equivalence_copy lt (plain_params D lt) l r = Some e
    \<and> (if dh_empty l \<and> dh_empty r then heap_compare pick lt (plain_params D lt) l r = None \<and> heap_compare_copy lt (plain_params D lt) l r = None
       else (\<exists>b. heap_compare_copy lt (plain_params D lt) l r = Some (b \<and> \<not> e) \<and> heap_compare pick lt (plain_params D lt) l r = Some (b \<or> e)))"
proof -
  let ?P = "plain_params D lt"
  note o = heap_orderI [OF assms(1,2)]
  obtain xs where xs: "ordered_values pick ?P l (ordered_begin ?P l) = Some xs" "mset xs = mset (dh_q l)" "sorted_wrt (\<lambda>x y. \<not> lt x y) xs"
    using heap_order.plain_iteration [OF o assms(3,5)] by blast
  obtain ys where ys: "ordered_values pick ?P r (ordered_begin ?P r) = Some ys" "mset ys = mset (dh_q r)" "sorted_wrt (\<lambda>x y. \<not> lt x y) ys"
    using heap_order.plain_iteration [OF o assms(4,5)] by blast
  obtain xs' where xs': "drained ?P l xs'" "mset xs' = mset (dh_q l)" "sorted_wrt (\<lambda>x y. \<not> lt x y) xs'"
    using heap_order.plain_drained [OF o assms(3)] by blast
  obtain ys' where ys': "drained ?P r ys'" "mset ys' = mset (dh_q r)" "sorted_wrt (\<lambda>x y. \<not> lt x y) ys'"
    using heap_order.plain_drained [OF o assms(4)] by blast
  have E: "list_all2 (value_equality lt) xs' xs" "list_all2 (value_equality lt) ys' ys"
    using sorted_equivalent [OF assms(2)] xs(2,3) ys(2,3) xs'(2,3) ys'(2,3) by simp_all
  note cong = lexicographic_cong [OF assms(2) E]
  have len: "length xs = dh_size l" "length xs' = dh_size l" "length ys = dh_size r" "length ys' = dh_size r"
    using xs(2) ys(2) xs'(2) ys'(2) by (auto simp: dh_size_def dest: mset_eq_length)
  have emp: "dh_empty l \<longleftrightarrow> dh_size l = 0" "dh_empty r \<longleftrightarrow> dh_size r = 0" by (simp_all add: dh_empty_def dh_size_def)
  consider "dh_size l \<noteq> dh_size r" | "dh_size l = 0" "dh_size r = 0" | "dh_size l = dh_size r" "dh_size l \<noteq> 0"
    by (cases "dh_size l = dh_size r"; cases "dh_size l = 0") simp_all
  then show ?thesis
  proof cases
    case 1
    then show ?thesis using emp
      by (auto simp: heap_equality_def heap_equivalence_copy_def heap_compare_def heap_compare_copy_def)
  next
    case 2
    have "heap_compare_loop pick lt ?P l r (ordered_begin ?P l) (ordered_begin ?P r) = None" "compare_copy_loop lt ?P l r = None"
      using 2 by (subst heap_compare_loop.simps compare_copy_loop.simps, simp add: oi_dereference_def dh_size_def dh_top_def dh_empty_def)+
    then show ?thesis using 2 emp by (intro exI [of _ True]) (simp add: heap_equality_def heap_equivalence_copy_def heap_compare_def heap_compare_copy_def)
  next
    case 3
    have n: "xs \<noteq> []" "xs' \<noteq> []" "length xs = length ys" "length xs' = length ys'" using 3 len by auto
    let ?e = "list_all2 (value_equality lt) xs ys" and ?b = "lexicographic_less lt xs ys"
    have ne: "\<not> dh_empty l" "\<not> dh_empty r" using 3 emp by simp_all
    have bl: "?b = (?b \<and> \<not> ?e)" "lexicographic_le lt xs ys = (?b \<or> ?e)"
      using lexicographic_le_less [OF n(3), of lt] assms(2) by blast+
    have "heap_equality pick lt ?P l r = Some ?e" "heap_compare pick lt ?P l r = Some (?b \<or> ?e)"
      using 3(1) ne compare_loop_values [OF xs(1) ys(1) n(3,1), of lt] equivalence_loop_values [OF xs(1) ys(1) n(3,1), of lt]
      unfolding bl(2) by (simp_all add: heap_equality_def heap_compare_def)
    moreover have "heap_equivalence_copy lt ?P l r = Some ?e" "heap_compare_copy lt ?P l r = Some ?b"
      using 3(1) ne copy_loops_values [OF xs'(1) ys'(1) n(4,2), of lt] cong by (simp_all add: heap_equivalence_copy_def heap_compare_copy_def)
    moreover from this(2) have "heap_compare_copy lt ?P l r = Some (?b \<and> \<not> ?e)" using bl(1) by (rule trans [OF _ arg_cong])
    ultimately show ?thesis using ne by (simp only: if_False simp_thms) blast
  qed
qed

lemma heap_comparisons_agree_witness:
  "\<exists>b. heap_compare_copy (<) (plain_params 3 (<)) example_heap example_heap = Some (b \<and> \<not> True)
    \<and> heap_compare pick_first (<) (plain_params 3 (<)) example_heap example_heap = Some (b \<or> True)"
proof -
  have "d_ary_ordered 3 (<) (dh_q example_heap)" "\<not> dh_empty example_heap"
    "heap_equality pick_first (<) (plain_params 3 (<)) example_heap example_heap = Some True" by code_simp+
  then show ?thesis using heap_comparisons_agree [OF _ weak_order_less _ _ picks_first, of 3 example_heap example_heap] by auto
qed

end
