(* ===== verification/Mutable_Heap.thy ===== *)
theory Mutable_Heap
  imports Heap_Queue
begin

text \<open>
  The mutable \<^verbatim>\<open>d_ary_heap\<close>: \<^verbatim>\<open>priority_queue_mutable_wrapper\<close> (\<^verbatim>\<open>heap/detail/mutable_heap.hpp\<close>). The elements
  are the nodes of a \<^verbatim>\<open>std::list\<close>, each a value with its position in the vector; the inner heap holds iterators of that
  list, compares them through the list and writes the positions into it; a handle is such an iterator. Iterators are addresses, and the
  store, the state outside the vector, maps the allocated ones to their nodes; an access to another address is \<open>None\<close>.
  The addresses that the list allocates are arguments. The default comparison object that the assertions of \<^verbatim>\<open>increase\<close> and \<^verbatim>\<open>decrease\<close>
  use is taken to be the one of the heap.
\<close>

subsection \<open>The wrapper\<close>

type_synonym 'v node_store = "nat \<Rightarrow> ('v \<times> nat) option"

definition indirect_cmp :: "('v \<Rightarrow> 'v \<Rightarrow> bool) \<Rightarrow> 'v node_store \<Rightarrow> nat \<Rightarrow> nat \<Rightarrow> bool option" where
  "indirect_cmp cmp s lhs rhs = do { x \<leftarrow> s lhs; y \<leftarrow> s rhs; Some (cmp (fst x) (fst y)) }"

definition index_updater :: "('v node_store, nat, 'n, 'c) heap_base \<Rightarrow> 'n \<Rightarrow> nat \<Rightarrow> 'v node_store \<Rightarrow> 'v node_store option" where
  "index_updater base it new_index s =
     (let a = get_value base it in map_option (\<lambda>x. s(a \<mapsto> (fst x, new_index))) (s a))"

definition mutable_params :: "nat \<Rightarrow> ('v node_store, nat, 'n, 'c) heap_base \<Rightarrow> ('v node_store, nat, 'n, 'c) heap_params" where
  "mutable_params D base = \<lparr>super_t = base, arity = D, index_run = index_updater base\<rparr>"

record ('v, 'n, 'c) mutable_heap =
  mh_q :: "('v node_store, 'n, 'c) d_ary_heap"
  mh_objects :: "nat list"

abbreviation mh_store :: "('v, 'n, 'c) mutable_heap \<Rightarrow> 'v node_store" where
  "mh_store w \<equiv> outside (mh_q w)"

text \<open>Writing a value through an iterator.\<close>

definition mh_assign :: "nat \<Rightarrow> 'v \<Rightarrow> ('v, 'n, 'c) mutable_heap \<Rightarrow> ('v, 'n, 'c) mutable_heap option" where
  "mh_assign a v w = map_option (\<lambda>x. w\<lparr>mh_q := (mh_q w)\<lparr>outside := (mh_store w)(a \<mapsto> (v, snd x))\<rparr>\<rparr>) (mh_store w a)"

text \<open>\<^verbatim>\<open>objects.erase\<close> frees the node.\<close>

definition erase_object :: "nat \<Rightarrow> ('v, 'n, 'c) mutable_heap \<Rightarrow> ('v, 'n, 'c) mutable_heap option" where
  "erase_object a w =
     (if a \<in> set (mh_objects w)
      then Some (w\<lparr>mh_q := (mh_q w)\<lparr>outside := (mh_store w)(a := None)\<rparr>, mh_objects := remove1 a (mh_objects w)\<rparr>) else None)"

definition mh_empty :: "('v, 'n, 'c) mutable_heap \<Rightarrow> bool" where
  "mh_empty w = dh_empty (mh_q w)"

definition mh_size :: "('v, 'n, 'c) mutable_heap \<Rightarrow> nat" where
  "mh_size w = dh_size (mh_q w)"

definition mh_clear :: "('v, 'n, 'c) mutable_heap \<Rightarrow> ('v, 'n, 'c) mutable_heap" where
  "mh_clear w =
     (let q = dh_clear (mh_q w) in
      w\<lparr>mh_q := q\<lparr>outside := outside q |` (- set (mh_objects w))\<rparr>, mh_objects := []\<rparr>)"

definition mh_top :: "('v node_store, nat, 'n, 'c) heap_params \<Rightarrow> ('v, 'n, 'c) mutable_heap \<Rightarrow> 'v option" where
  "mh_top P w = do { a \<leftarrow> dh_top P (mh_q w); x \<leftarrow> mh_store w a; Some (fst x) }"

definition mh_push ::
  "('v node_store, nat, 'n, 'c) heap_params \<Rightarrow> nat \<Rightarrow> 'v \<Rightarrow> ('v, 'n, 'c) mutable_heap
    \<Rightarrow> (('v, 'n, 'c) mutable_heap \<times> (heap_error + nat)) option" where
  "mh_push P a v w = do {
     let q = (mh_q w)\<lparr>outside := (mh_store w)(a \<mapsto> (v, 0))\<rparr>;
     (q', r) \<leftarrow> dh_push P a q;
     Some (w\<lparr>mh_q := q', mh_objects := a # mh_objects w\<rparr>, map_sum id (\<lambda>u. a) r) }"

definition mh_pop :: "('v node_store, nat, 'n, 'c) heap_params \<Rightarrow> ('v, 'n, 'c) mutable_heap \<Rightarrow> ('v, 'n, 'c) mutable_heap option" where
  "mh_pop P w = do {
     q_top \<leftarrow> dh_top P (mh_q w);
     q \<leftarrow> dh_pop P (mh_q w);
     erase_object q_top (w\<lparr>mh_q := q\<rparr>) }"

text \<open>The members with a handle, which read the position from the node: \<^verbatim>\<open>update\<close>, \<^verbatim>\<open>increase\<close> and \<^verbatim>\<open>decrease\<close> after the value has been changed.\<close>

definition mh_update :: "('v node_store, nat, 'n, 'c) heap_params \<Rightarrow> nat \<Rightarrow> ('v, 'n, 'c) mutable_heap \<Rightarrow> ('v, 'n, 'c) mutable_heap option" where
  "mh_update P handle w = do {
     x \<leftarrow> mh_store w handle;
     q \<leftarrow> dh_update P (snd x) (mh_q w);
     Some (w\<lparr>mh_q := q\<rparr>) }"

definition mh_increase :: "('v node_store, nat, 'n, 'c) heap_params \<Rightarrow> nat \<Rightarrow> ('v, 'n, 'c) mutable_heap \<Rightarrow> ('v, 'n, 'c) mutable_heap option" where
  "mh_increase P handle w = do {
     x \<leftarrow> mh_store w handle;
     q \<leftarrow> dh_increase P (snd x) (mh_q w);
     Some (w\<lparr>mh_q := q\<rparr>) }"

definition mh_decrease :: "('v node_store, nat, 'n, 'c) heap_params \<Rightarrow> nat \<Rightarrow> ('v, 'n, 'c) mutable_heap \<Rightarrow> ('v, 'n, 'c) mutable_heap option" where
  "mh_decrease P handle w = do {
     x \<leftarrow> mh_store w handle;
     q \<leftarrow> dh_decrease P (snd x) (mh_q w);
     Some (w\<lparr>mh_q := q\<rparr>) }"

definition mh_increase_to ::
  "('v node_store, nat, 'n, 'c) heap_params \<Rightarrow> ('v \<Rightarrow> 'v \<Rightarrow> bool) \<Rightarrow> nat \<Rightarrow> 'v \<Rightarrow> ('v, 'n, 'c) mutable_heap \<Rightarrow> ('v, 'n, 'c) mutable_heap option" where
  "mh_increase_to P cmp handle v w = do {
     x \<leftarrow> mh_store w handle;
     if cmp v (fst x) then None
     else do {
       w1 \<leftarrow> mh_assign handle v w;
       mh_increase P handle w1 } }"

definition mh_decrease_to ::
  "('v node_store, nat, 'n, 'c) heap_params \<Rightarrow> ('v \<Rightarrow> 'v \<Rightarrow> bool) \<Rightarrow> nat \<Rightarrow> 'v \<Rightarrow> ('v, 'n, 'c) mutable_heap \<Rightarrow> ('v, 'n, 'c) mutable_heap option" where
  "mh_decrease_to P cmp handle v w = do {
     x \<leftarrow> mh_store w handle;
     if cmp (fst x) v then None
     else do {
       w1 \<leftarrow> mh_assign handle v w;
       mh_decrease P handle w1 } }"

definition mh_update_to ::
  "('v node_store, nat, 'n, 'c) heap_params \<Rightarrow> ('v \<Rightarrow> 'v \<Rightarrow> bool) \<Rightarrow> nat \<Rightarrow> 'v \<Rightarrow> ('v, 'n, 'c) mutable_heap \<Rightarrow> ('v, 'n, 'c) mutable_heap option" where
  "mh_update_to P cmp handle v w = do {
     x \<leftarrow> mh_store w handle;
     if cmp v (fst x) then mh_decrease_to P cmp handle v w else mh_increase_to P cmp handle v w }"

definition mh_erase :: "('v node_store, nat, 'n, 'c) heap_params \<Rightarrow> nat \<Rightarrow> ('v, 'n, 'c) mutable_heap \<Rightarrow> ('v, 'n, 'c) mutable_heap option" where
  "mh_erase P handle w = do {
     x \<leftarrow> mh_store w handle;
     q \<leftarrow> dh_erase P (snd x) (mh_q w);
     erase_object handle (w\<lparr>mh_q := q\<rparr>) }"

subsection \<open>Copies\<close>

text \<open>The copy of the list \<open>bs\<close> at the addresses \<open>as\<close>.\<close>

fun list_copy :: "nat list \<Rightarrow> nat list \<Rightarrow> 'v node_store \<Rightarrow> 'v node_store option" where
  "list_copy [] [] s = Some s"
| "list_copy (a # as) (b # bs) s = Option.bind (s b) (\<lambda>x. list_copy as bs (s(a \<mapsto> x)))"
| "list_copy _ _ s = None"

text \<open>The loop that pushes the nodes of the new list.\<close>

fun push_all ::
  "('v node_store, nat, 'n, 'c) heap_params \<Rightarrow> nat list \<Rightarrow> ('v node_store, 'n, 'c) d_ary_heap
    \<Rightarrow> (('v node_store, 'n, 'c) d_ary_heap \<times> (heap_error + unit)) option" where
  "push_all P [] q = Some (q, Inr ())"
| "push_all P (it # its) q = do {
     (q', r) \<leftarrow> dh_push P it q;
     (case r of Inl e \<Rightarrow> Some (q', Inl e) | Inr u \<Rightarrow> push_all P its q') }"

text \<open>The results hold the store after the copy, which the source of the copy shares.\<close>

definition mh_copy ::
  "('v node_store, nat, 'n, 'c) heap_params \<Rightarrow> nat list \<Rightarrow> ('v, 'n, 'c) mutable_heap
    \<Rightarrow> (('v, 'n, 'c) mutable_heap \<times> (heap_error + unit)) option" where
  "mh_copy P as rhs = do {
     s \<leftarrow> list_copy as (mh_objects rhs) (mh_store rhs);
     (q, r) \<leftarrow> push_all P as ((mh_q rhs)\<lparr>outside := s\<rparr>);
     Some (\<lparr>mh_q = q, mh_objects = as\<rparr>, r) }"

text \<open>The assignment from another heap; \<open>rhs\<close> is read with the store of \<open>w\<close>. The nodes of the old list are freed.\<close>

definition mh_copy_assign ::
  "('v node_store, nat, 'n, 'c) heap_params \<Rightarrow> nat list \<Rightarrow> ('v, 'n, 'c) mutable_heap \<Rightarrow> ('v, 'n, 'c) mutable_heap
    \<Rightarrow> (('v, 'n, 'c) mutable_heap \<times> (heap_error + unit)) option" where
  "mh_copy_assign P as rhs w = do {
     let s0 = mh_store w |` (- set (mh_objects w));
     s \<leftarrow> list_copy as (mh_objects rhs) s0;
     (q, r) \<leftarrow> push_all P as (dh_clear ((mh_q rhs)\<lparr>outside := s\<rparr>));
     Some (\<lparr>mh_q = q, mh_objects = as\<rparr>, r) }"

text \<open>The move constructor and the move assignment, with what they leave in \<open>rhs\<close>, and \<^verbatim>\<open>swap\<close>; both heaps have the same store.\<close>

definition mh_move ::
  "('v node_store, nat, 'n, 'c) heap_params \<Rightarrow> ('v, 'n, 'c) mutable_heap \<Rightarrow> ('v, 'n, 'c) mutable_heap \<times> ('v, 'n, 'c) mutable_heap" where
  "mh_move P rhs = (let (q, q') = dh_move P (mh_q rhs) in (\<lparr>mh_q = q, mh_objects = mh_objects rhs\<rparr>, \<lparr>mh_q = q', mh_objects = []\<rparr>))"

definition mh_move_assign ::
  "('v node_store, nat, 'n, 'c) heap_params \<Rightarrow> ('v, 'n, 'c) mutable_heap \<Rightarrow> ('v, 'n, 'c) mutable_heap \<Rightarrow> ('v, 'n, 'c) mutable_heap \<times> ('v, 'n, 'c) mutable_heap" where
  "mh_move_assign P rhs w =
     (let s = mh_store w |` (- set (mh_objects w)); (q, q') = dh_move P ((mh_q rhs)\<lparr>outside := s\<rparr>)
      in (\<lparr>mh_q = q, mh_objects = mh_objects rhs\<rparr>, \<lparr>mh_q = q', mh_objects = []\<rparr>))"

definition mh_swap :: "('v, 'n, 'c) mutable_heap \<Rightarrow> ('v, 'n, 'c) mutable_heap \<Rightarrow> ('v, 'n, 'c) mutable_heap \<times> ('v, 'n, 'c) mutable_heap" where
  "mh_swap w rhs = (let (q, q') = dh_swap (mh_q w) (mh_q rhs) in (\<lparr>mh_q = q, mh_objects = mh_objects rhs\<rparr>, \<lparr>mh_q = q', mh_objects = mh_objects w\<rparr>))"

subsection \<open>The invariant and the map of the values\<close>

definition store_pos :: "'v node_store \<Rightarrow> nat \<Rightarrow> nat" where
  "store_pos s a = (case s a of None \<Rightarrow> 0 | Some x \<Rightarrow> snd x)"

definition mh_valid :: "('v node_store, nat, 'n, 'c) heap_params \<Rightarrow> ('v, 'n, 'c) mutable_heap \<Rightarrow> bool" where
  "mh_valid P w \<longleftrightarrow>
     (let q = dh_q (mh_q w); its = map (get_value (super_t P)) q in
      d_ary_ordered (arity P) (\<lambda>n m. hb_cmp (super_t P) (mh_store w) n m = Some True) q
      \<and> distinct (mh_objects w) \<and> mset its = mset (mh_objects w)
      \<and> list_all (\<lambda>a. mh_store w a \<noteq> None) (mh_objects w)
      \<and> map (store_pos (mh_store w)) its = [0..<length its])"

definition mh_map :: "('v, 'n, 'c) mutable_heap \<Rightarrow> nat \<Rightarrow> 'v option" where
  "mh_map w = (\<lambda>a. if a \<in> set (mh_objects w) then map_option fst (mh_store w a) else None)"

definition node_live :: "('v node_store, nat, 'n, 'c) heap_base \<Rightarrow> 'v node_store \<Rightarrow> 'n \<Rightarrow> bool" where
  "node_live base s n \<longleftrightarrow> s (get_value base n) \<noteq> None"

locale mutable_laws =
  indexed_laws P lt "node_live (super_t P)" "get_value (super_t P)" store_pos
  for P :: "('v node_store, nat, 'n, 'c) heap_params" and lt :: "'v node_store \<Rightarrow> 'n \<Rightarrow> 'n \<Rightarrow> bool" +
  fixes lower :: "'v \<Rightarrow> 'v \<Rightarrow> bool"
  assumes run_store: "index_run P = index_updater (super_t P)"
    and lt_local: "map_option fst (s (get_value (super_t P) n)) = map_option fst (s' (get_value (super_t P) n)) \<Longrightarrow>
      map_option fst (s (get_value (super_t P) m)) = map_option fst (s' (get_value (super_t P) m)) \<Longrightarrow> lt s n m = lt s' n m"
    and raise: "s a = Some (u, i) \<Longrightarrow> \<not> lower v u \<Longrightarrow> get_value (super_t P) n = a \<Longrightarrow> get_value (super_t P) m \<noteq> a \<Longrightarrow>
      lt (s(a \<mapsto> (v, i))) n m \<Longrightarrow> lt s n m"
    and drop: "s a = Some (u, i) \<Longrightarrow> \<not> lower u v \<Longrightarrow> get_value (super_t P) n = a \<Longrightarrow> get_value (super_t P) m \<noteq> a \<Longrightarrow>
      lt (s(a \<mapsto> (v, i))) m n \<Longrightarrow> lt s m n"
    and lower_lt: "s (get_value (super_t P) n) = Some x \<Longrightarrow> s (get_value (super_t P) m) = Some y \<Longrightarrow> lower (fst x) (fst y) \<Longrightarrow> lt s n m"
    and make: "make_node (super_t P) a c = (c', Inr n) \<Longrightarrow> get_value (super_t P) n = a"
begin

abbreviation key :: "'n \<Rightarrow> nat" where
  "key \<equiv> get_value (super_t P)"

text \<open>The loops change the stored positions of the elements of the vector, and nothing else of the store.\<close>

definition same_store :: "nat set \<Rightarrow> 'v node_store \<Rightarrow> 'v node_store \<Rightarrow> bool" where
  "same_store A s s' \<longleftrightarrow> (\<forall>a. map_option fst (s' a) = map_option fst (s a)) \<and> (\<forall>a. a \<notin> A \<longrightarrow> s' a = s a)"

lemma same_store_refl [simp]: "same_store A s s"
  by (simp add: same_store_def)

lemma same_store_trans: "same_store A s s' \<Longrightarrow> same_store A s' s'' \<Longrightarrow> same_store A s s''"
  by (simp add: same_store_def)

lemma same_store_dom: "same_store A s s' \<Longrightarrow> s' a = None \<longleftrightarrow> s a = None"
  unfolding same_store_def by (metis map_option_is_None)

lemma reset_store:
  assumes "reset_index P i k h = Some h1"
  shows "same_store (key ` set (dh_q h)) (outside h) (outside h1)" "dh_q h1 = dh_q h"
  using assms by (auto simp: reset_index_def run_store index_updater_def same_store_def Let_def split: if_splits)

lemma exchange_store:
  assumes "exchange P i j h = Some h1" "i < length (dh_q h)" "j < length (dh_q h)"
  shows "same_store (key ` set (dh_q h)) (outside h) (outside h1)" "set (dh_q h1) = set (dh_q h)"
proof -
  obtain h2 h3 where r: "reset_index P i j h = Some h2" "reset_index P j i h2 = Some h3" "h1 = h3\<lparr>dh_q := swap_items j i (dh_q h3)\<rparr>"
    using assms(1) by (auto simp: exchange_def bind_eq_Some_conv)
  note a = reset_store [OF r(1)] and b = reset_store [OF r(2)]
  have "mset (dh_q h1) = mset (dh_q h)" using r(3) a(2) b(2) assms(2,3) by simp
  then show "set (dh_q h1) = set (dh_q h)" by (rule mset_eq_setD)
  show "same_store (key ` set (dh_q h)) (outside h) (outside h1)" using a b r(3) same_store_trans [OF a(1)] by simp
qed

lemma exchanged_store: "exchanged P h h' \<Longrightarrow> same_store (key ` set (dh_q h)) (outside h) (outside h')"
proof (induction rule: exchanged.induct)
  case (move i h j h1 h2)
  then show ?case using exchange_store [OF move(3,1,2)] same_store_trans by simp
qed simp

end

context mutable_laws
begin

subsection \<open>The members\<close>

lemma valid_iff:
  "mh_valid P w \<longleftrightarrow> heap_ordered (mh_q w) \<and> live_all (mh_q w) \<and> indexed (mh_q w) \<and> distinct (mh_objects w)
     \<and> mset (map key (dh_q (mh_q w))) = mset (mh_objects w)"
proof (cases "distinct (mh_objects w) \<and> mset (map key (dh_q (mh_q w))) = mset (mh_objects w)")
  case True
  let ?q = "dh_q (mh_q w)"
  have st: "set (mh_objects w) = key ` set ?q" "distinct (map key ?q)"
    using True mset_eq_setD [of "map key ?q" "mh_objects w"] mset_eq_imp_distinct_iff [of "map key ?q" "mh_objects w"] by simp_all
  have lv: "list_all (\<lambda>a. mh_store w a \<noteq> None) (mh_objects w) \<longleftrightarrow> live_all (mh_q w)"
    by (simp add: live_all_def list_all_iff st(1) node_live_def)
  have "map (store_pos (mh_store w)) (map key ?q) = [0..<length (map key ?q)] \<longleftrightarrow> indexed (mh_q w)"
    using st(2) by (simp only: indexed_def list_eq_iff_nth_eq length_map length_upt diff_zero nth_map nth_upt add_0 simp_thms cong: conj_cong imp_cong)
  moreover have "d_ary_ordered (arity P) (\<lambda>n m. hb_cmp (super_t P) (mh_store w) n m = Some True) ?q \<longleftrightarrow> heap_ordered (mh_q w)"
    if l: "live_all (mh_q w)"
  proof -
    have c: "hb_cmp (super_t P) (mh_store w) (?q ! i) (?q ! j) = Some (lt (mh_store w) (?q ! i) (?q ! j))" if "i < length ?q" "j < length ?q" for i j
      using cmp_at_live [OF l that] that by (simp add: cmp_at_def)
    have "parent j < length ?q" if "j < length ?q" "0 < j" for j using parent_lt [OF that(2), of "arity P"] that(1) by simp
    then show ?thesis using c by (auto simp: d_ary_ordered_def heap_ordered_def below_def)
  qed
  ultimately show ?thesis using True lv by (auto simp: mh_valid_def Let_def)
qed (auto simp: mh_valid_def Let_def)

text \<open>A heap whose vector has been put in order by exchanges.\<close>

lemma moved_valid:
  assumes "live_all h" "indexed h" "distinct (mh_objects w)" "mset (map key (dh_q h)) = mset (mh_objects w)"
    and "heap_ordered h'" "same_heap h h'" "exchanged P h h'"
  shows "mh_valid P (w\<lparr>mh_q := h'\<rparr>)" "mh_map (w\<lparr>mh_q := h'\<rparr>) = mh_map (w\<lparr>mh_q := h\<rparr>)"
    "same_store (set (mh_objects w)) (outside h) (outside h')"
proof -
  have st: "same_store (key ` set (dh_q h)) (outside h) (outside h')" using assms(7) by (rule exchanged_store)
  have "key ` set (dh_q h) = set (mh_objects w)" using mset_eq_setD [OF assms(4)] by simp
  with st show "same_store (set (mh_objects w)) (outside h) (outside h')" by simp
  show "mh_map (w\<lparr>mh_q := h'\<rparr>) = mh_map (w\<lparr>mh_q := h\<rparr>)" using st by (simp add: mh_map_def same_store_def cong: if_cong)
  have "mset (map key (dh_q h')) = mset (mh_objects w)" using assms(4,6) by (simp add: same_heap_def)
  then show "mh_valid P (w\<lparr>mh_q := h'\<rparr>)"
    using assms(1,3,5) exchanged_indexed [OF assms(7,1,2)] same_heapD(3) [OF assms(6)] by (simp add: valid_iff)
qed

text \<open>What a new value at the address \<open>a\<close> does to the order.\<close>

lemma write_value:
  assumes w: "mh_valid P w" and a: "a \<in> set (mh_objects w)" "mh_store w a = Some (u, i)" and h: "h = (mh_q w)\<lparr>outside := (mh_store w)(a \<mapsto> (v, i))\<rparr>"
  shows "i < length (dh_q (mh_q w))" "key (dh_q (mh_q w) ! i) = a" "live_all h" "indexed h" "hole_at h i"
    "\<not> lower v u \<Longrightarrow> up_at h i" "\<not> lower u v \<Longrightarrow> down_at h i"
proof -
  let ?q = "dh_q (mh_q w)" and ?s = "mh_store w" and ?s' = "(mh_store w)(a \<mapsto> (v, i))"
  have o: "heap_ordered (mh_q w)" and l: "live_all (mh_q w)" and ix: "indexed (mh_q w)" using w by (simp_all add: valid_iff)
  have q: "dh_q h = ?q" "outside h = ?s'" by (simp_all add: h)
  have "a \<in> key ` set ?q" using a(1) w mset_eq_setD [of "map key ?q" "mh_objects w"] by (simp add: valid_iff)
  then obtain k where k: "k < length ?q" "key (?q ! k) = a" by (auto simp: in_set_conv_nth)
  then have "k = i" using ix a(2) by (auto simp: indexed_def store_pos_def)
  with k show i: "i < length ?q" "key (?q ! i) = a" by simp_all
  have ne: "key (?q ! j) \<noteq> a" if "j < length ?q" "j \<noteq> i" for j
    using ix i that by (auto simp: indexed_def distinct_conv_nth)
  show "live_all h" using l by (auto simp: live_all_def node_live_def q)
  have "store_pos ?s' = store_pos ?s" using a(2) by (auto simp: store_pos_def)
  then show "indexed h" using ix by (simp add: indexed_def q)
  have eq: "lt ?s' (?q ! j) (?q ! k) = lt ?s (?q ! j) (?q ! k)" if "j < length ?q" "k < length ?q" "j \<noteq> i" "k \<noteq> i" for j k
    using ne that by (intro lt_local) simp_all
  have pl: "parent j < j" if "0 < j" for j using parent_lt [OF that] .
  have b: "below h j" if "j < length ?q" "0 < j" "j \<noteq> i" "parent j \<noteq> i" for j
    using o that eq [of "parent j" j] pl [OF that(2)] by (simp add: heap_ordered_def below_def q)
  have g: "grandparent h i" unfolding grandparent_def q
  proof (intro allI impI, elim conjE)
    fix j assume j: "j < length ?q" "0 < i" "0 < j" "parent j = i"
    have "parent i < i" "i < j" using pl [OF j(2)] pl [OF j(3)] j(4) by simp_all
    moreover have "\<not> lt ?s (?q ! parent i) (?q ! j)" using ordered_grandparent [OF o i(1)] j by (simp add: grandparent_def)
    ultimately show "\<not> lt ?s' (?q ! parent i) (?q ! j)" using eq [of "parent i" j] j(1) i(1) by simp
  qed
  show "hole_at h i" using b g by (simp add: hole_at_def q)
  show "up_at h i" if v: "\<not> lower v u"
  proof -
    have "below h j" if "j < length ?q" "0 < j" "parent j = i" for j
    proof -
      have "j \<noteq> i" using pl [OF that(2)] that(3) by simp
      then have "lt ?s' (?q ! i) (?q ! j) \<Longrightarrow> lt ?s (?q ! i) (?q ! j)" using raise [of ?s a u i v "?q ! i" "?q ! j", OF a(2) v i(2)] ne that(1) by blast
      then show ?thesis using o that by (auto simp: heap_ordered_def below_def q)
    qed
    then show ?thesis using b g by (auto simp: up_at_def q)
  qed
  show "down_at h i" if v: "\<not> lower u v"
  proof -
    have "below h i" if "0 < i"
    proof -
      have p: "parent i < length ?q" "parent i \<noteq> i" using pl [OF that] i(1) by simp_all
      then have "lt ?s' (?q ! parent i) (?q ! i) \<Longrightarrow> lt ?s (?q ! parent i) (?q ! i)" using drop [of ?s a u i v "?q ! i" "?q ! parent i", OF a(2) v i(2)] ne by blast
      then show ?thesis using o that i(1) by (auto simp: heap_ordered_def below_def q)
    qed
    then show ?thesis using b g by (auto simp: down_at_def q)
  qed
qed

end

context mutable_laws
begin

lemma same_store_mono: "same_store A s s' \<Longrightarrow> A \<subseteq> B \<Longrightarrow> same_store B s s'"
  unfolding same_store_def by blast

lemma valid_object:
  assumes "mh_valid P w" "a \<in> set (mh_objects w)"
  obtains u i where "mh_store w a = Some (u, i)" "mh_map w a = Some u"
proof -
  have "mh_store w a \<noteq> None" using assms by (auto simp: mh_valid_def list_all_iff Let_def)
  then show thesis using that assms(2) by (auto simp: mh_map_def)
qed

lemma map_write: "a \<in> set (mh_objects w) \<Longrightarrow>
  mh_map (w\<lparr>mh_q := (mh_q w)\<lparr>outside := (mh_store w)(a \<mapsto> (v, i))\<rparr>\<rparr>) = (mh_map w)(a \<mapsto> v)"
  by (auto simp: mh_map_def)

text \<open>The members that put one changed element in its place.\<close>

lemma place_valid:
  assumes w: "mh_valid P w" and a: "a \<in> set (mh_objects w)" "mh_store w a = Some (u, i)"
    and h: "h = (mh_q w)\<lparr>outside := (mh_store w)(a \<mapsto> (v, i))\<rparr>"
    and f: "heap_ordered h'" "same_heap h h'" "exchanged P h h'"
  shows "mh_valid P (w\<lparr>mh_q := h'\<rparr>)" "mh_map (w\<lparr>mh_q := h'\<rparr>) = (mh_map w)(a \<mapsto> v)"
    "\<And>b. b \<notin> set (mh_objects w) \<Longrightarrow> outside h' b = mh_store w b"
proof -
  have d: "distinct (mh_objects w)" "mset (map key (dh_q h)) = mset (mh_objects w)" using w by (simp_all add: valid_iff h)
  note m = moved_valid [OF write_value(3,4) [OF w a h] d f]
  show "mh_valid P (w\<lparr>mh_q := h'\<rparr>)" by (rule m(1))
  show "mh_map (w\<lparr>mh_q := h'\<rparr>) = (mh_map w)(a \<mapsto> v)" using m(2) map_write [OF a(1)] by (simp add: h)
  show "outside h' b = mh_store w b" if "b \<notin> set (mh_objects w)" for b
    using m(3) that a(1) by (auto simp: same_store_def h)
qed

lemma update_valid:
  assumes "mh_valid P w" "a \<in> set (mh_objects w)"
  obtains w1 w' where "mh_assign a v w = Some w1" "mh_update P a w1 = Some w'" "mh_valid P w'" "mh_map w' = (mh_map w)(a \<mapsto> v)"
proof -
  obtain u i where s: "mh_store w a = Some (u, i)" using valid_object [OF assms] .
  let ?h = "(mh_q w)\<lparr>outside := (mh_store w)(a \<mapsto> (v, i))\<rparr>"
  note p = write_value [where v = v, OF assms s refl]
  obtain h' where h': "dh_update P i ?h = Some h'" "heap_ordered h'" "same_heap ?h h'" "exchanged P ?h h'"
    using update_live [OF p(3) _ p(5)] p(1) by auto
  show thesis using s h' place_valid [OF assms s refl h'(2-4)]
    by (intro that [of "w\<lparr>mh_q := ?h\<rparr>" "w\<lparr>mh_q := h'\<rparr>"]) (simp_all add: mh_assign_def mh_update_def)
qed

lemma increase_valid:
  assumes "mh_valid P w" "a \<in> set (mh_objects w)" "mh_map w a = Some u" "\<not> lower v u"
  obtains w' where "mh_increase_to P lower a v w = Some w'" "mh_valid P w'" "mh_map w' = (mh_map w)(a \<mapsto> v)"
proof -
  obtain i where s: "mh_store w a = Some (u, i)" using valid_object [OF assms(1,2)] assms(3) by auto
  let ?h = "(mh_q w)\<lparr>outside := (mh_store w)(a \<mapsto> (v, i))\<rparr>"
  note p = write_value [where v = v, OF assms(1,2) s refl]
  obtain h' where h': "dh_increase P i ?h = Some h'" "heap_ordered h'" "same_heap ?h h'" "exchanged P ?h h'"
    using siftup_live [OF p(3) _ p(6) [OF assms(4)]] p(1) by (auto simp: dh_increase_def)
  show thesis using s h' assms(4) place_valid [OF assms(1,2) s refl h'(2-4)]
    by (intro that) (simp_all add: mh_increase_to_def mh_assign_def mh_increase_def)
qed

lemma decrease_valid:
  assumes "mh_valid P w" "a \<in> set (mh_objects w)" "mh_map w a = Some u" "\<not> lower u v"
  obtains w' where "mh_decrease_to P lower a v w = Some w'" "mh_valid P w'" "mh_map w' = (mh_map w)(a \<mapsto> v)"
proof -
  obtain i where s: "mh_store w a = Some (u, i)" using valid_object [OF assms(1,2)] assms(3) by auto
  let ?h = "(mh_q w)\<lparr>outside := (mh_store w)(a \<mapsto> (v, i))\<rparr>"
  note p = write_value [where v = v, OF assms(1,2) s refl]
  obtain h' where h': "dh_decrease P i ?h = Some h'" "heap_ordered h'" "same_heap ?h h'" "exchanged P ?h h'"
    using siftdown_live [OF p(3) _ p(7) [OF assms(4)]] p(1) by (auto simp: dh_decrease_def)
  show thesis using s h' assms(4) place_valid [OF assms(1,2) s refl h'(2-4)]
    by (intro that) (simp_all add: mh_decrease_to_def mh_assign_def mh_decrease_def)
qed

text \<open>The removal of the element on top of the vector \<open>h\<close>, whose order is otherwise intact.\<close>

lemma pop_valid:
  assumes o: "live_all h" "indexed h" "hole_at h 0" "dh_q h \<noteq> []" and ob: "distinct (mh_objects w)" "mset (map key (dh_q h)) = mset (mh_objects w)"
    and a: "a = key (dh_q h ! 0)"
  obtains h' w' where "dh_pop P h = Some h'" "erase_object a (w\<lparr>mh_q := h'\<rparr>) = Some w'" "mh_valid P w'"
    "mh_map w' = (mh_map (w\<lparr>mh_q := h\<rparr>))(a := None)"
proof -
  obtain h1 h' where h': "dh_pop P h = Some h'" "heap_ordered h'" "add_mset (dh_q h ! 0) (mset (dh_q h')) = mset (dh_q h)"
    "dh_counter h' = dh_counter h" "node_live (super_t P) (outside h') = node_live (super_t P) (outside h)" "lt (outside h') = lt (outside h)" "live_all h'"
    "dh_q h = [dh_q h ! 0] \<and> h1 = h\<lparr>dh_q := []\<rparr>
     \<or> 1 < length (dh_q h) \<and> reset_index P 0 0 (h\<lparr>dh_q := last (dh_q h) # butlast (tl (dh_q h))\<rparr>) = Some h1"
    "exchanged P h1 h'" "live_all h1" "mset (dh_q h1) = mset (dh_q h')"
    using pop_live [OF o(1,3,4)] .
  have ix: "indexed h'" using pop_indexed [OF o(2,1) h'(10,9,8)] .
  have mo: "mset (mh_objects w) = add_mset a (mset (map key (dh_q h')))" using arg_cong [OF h'(3), of "image_mset key"] ob(2) a by simp
  have ka: "a \<in> set (mh_objects w)" "a \<notin> key ` set (dh_q h')"
    using mset_eq_setD [of "mh_objects w" "a # map key (dh_q h')"] mset_eq_imp_distinct_iff [of "mh_objects w" "a # map key (dh_q h')"] mo ob(1) by auto
  have "same_store (key ` set (dh_q h)) (outside h) (outside h1)"
  proof (cases "dh_q h = [dh_q h ! 0] \<and> h1 = h\<lparr>dh_q := []\<rparr>")
    case False
    then have "same_store (key ` set (last (dh_q h) # butlast (tl (dh_q h)))) (outside h) (outside h1)"
      using h'(8) reset_store(1) [of 0 0 "h\<lparr>dh_q := last (dh_q h) # butlast (tl (dh_q h))\<rparr>" h1] by auto
    moreover have "set (last (dh_q h) # butlast (tl (dh_q h))) \<subseteq> set (dh_q h)"
      using o(4) by (auto dest: in_set_butlastD list.set_sel(2))
    ultimately show ?thesis by (rule same_store_mono [OF _ image_mono])
  qed simp
  moreover have "same_store (key ` set (dh_q h)) (outside h1) (outside h')"
  proof -
    have "key ` set (dh_q h1) \<subseteq> key ` set (dh_q h)" using mset_eq_setD [OF h'(11)] arg_cong [OF h'(3), of set_mset] by auto
    from same_store_mono [OF exchanged_store [OF h'(9)] this] show ?thesis .
  qed
  ultimately have st: "same_store (key ` set (dh_q h)) (outside h) (outside h')" by (rule same_store_trans)
  let ?w = "w\<lparr>mh_q := h'\<lparr>outside := (outside h')(a := None)\<rparr>, mh_objects := remove1 a (mh_objects w)\<rparr>"
  have e: "erase_object a (w\<lparr>mh_q := h'\<rparr>) = Some ?w" using ka(1) by (simp add: erase_object_def)
  have same: "((outside h')(a := None)) (key n) = outside h' (key n)" if "n \<in> set (dh_q h')" for n using ka(2) that by auto
  have "lt ((outside h')(a := None)) n m = lt (outside h') n m" if "n \<in> set (dh_q h')" "m \<in> set (dh_q h')" for n m
    using same that by (intro lt_local) simp_all
  then have "heap_ordered (mh_q ?w)" using h'(2) parent_lt [of _ "arity P"] by (simp add: heap_ordered_def below_def) (meson less_trans nth_mem)
  moreover have "live_all (mh_q ?w)" using h'(7) same by (simp add: live_all_def node_live_def)
  moreover have "indexed (mh_q ?w)" using ix same by (simp add: indexed_def store_pos_def)
  ultimately have "mh_valid P ?w" using ob(1) mo by (simp add: valid_iff)
  moreover have "mh_map ?w = (mh_map (w\<lparr>mh_q := h\<rparr>))(a := None)"
    using st ob(1) by (auto simp: mh_map_def same_store_def)
  ultimately show thesis using that h'(1) e by blast
qed

end

context mutable_laws
begin

lemma top_valid:
  assumes "mh_valid P w" "\<not> mh_empty w"
  obtains a u where "dh_top P (mh_q w) = Some a" "a \<in> set (mh_objects w)" "a = key (dh_q (mh_q w) ! 0)" "mh_top P w = Some u" "mh_map w a = Some u"
    "\<forall>b v. mh_map w b = Some v \<longrightarrow> \<not> lower u v"
proof -
  let ?q = "dh_q (mh_q w)" and ?a = "key (dh_q (mh_q w) ! 0)"
  have ne: "?q \<noteq> []" using assms(2) by (simp add: mh_empty_def dh_empty_def)
  have ob: "set (mh_objects w) = key ` set ?q" using assms(1) mset_eq_setD [of "map key ?q" "mh_objects w"] by (simp add: valid_iff)
  have a: "?a \<in> set (mh_objects w)" using ne ob by simp
  have t: "dh_top P (mh_q w) = Some ?a" using ne by (simp add: dh_top_def dh_empty_def hd_conv_nth)
  obtain u i where u: "mh_store w ?a = Some (u, i)" "mh_map w ?a = Some u" using valid_object [OF assms(1) a] .
  have "\<not> lower u v" if b: "mh_map w b = Some v" for b v
  proof -
    obtain k where k: "k < length ?q" "b = key (?q ! k)" using b ob by (auto simp: mh_map_def in_set_conv_nth split: if_splits)
    have nl: "\<not> lt (mh_store w) (?q ! 0) (?q ! k)" using ordered_top [OF _ k(1)] assms(1) by (simp add: valid_iff)
    obtain j where "mh_store w (key (?q ! k)) = Some (v, j)" using b k(2) by (auto simp: mh_map_def split: if_splits)
    then show ?thesis using lower_lt [of "mh_store w" "?q ! 0" "(u, i)" "?q ! k" "(v, j)"] u(1) nl by auto
  qed
  then have "\<forall>b v. mh_map w b = Some v \<longrightarrow> \<not> lower u v" by blast
  then show thesis using that [OF t a refl _ u(2)] t u(1) by (simp add: mh_top_def)
qed

lemma pop_top_valid:
  assumes "mh_valid P w" "\<not> mh_empty w"
  obtains a u w' where "mh_pop P w = Some w'" "mh_valid P w'" "mh_map w a = Some u" "mh_map w' = (mh_map w)(a := None)"
    "mh_top P w = Some u" "\<forall>b v. mh_map w b = Some v \<longrightarrow> \<not> lower u v"
proof -
  obtain a u where a: "dh_top P (mh_q w) = Some a" "a \<in> set (mh_objects w)" "a = key (dh_q (mh_q w) ! 0)" "mh_top P w = Some u" "mh_map w a = Some u"
    "\<forall>b v. mh_map w b = Some v \<longrightarrow> \<not> lower u v" using top_valid [OF assms] .
  have ne: "dh_q (mh_q w) \<noteq> []" using assms(2) by (simp add: mh_empty_def dh_empty_def)
  have v: "live_all (mh_q w)" "indexed (mh_q w)" "hole_at (mh_q w) 0" "distinct (mh_objects w)" "mset (map key (dh_q (mh_q w))) = mset (mh_objects w)"
    using assms(1) ordered_hole [of "mh_q w" 0] ne by (simp_all add: valid_iff)
  obtain h' w' where "dh_pop P (mh_q w) = Some h'" "erase_object a (w\<lparr>mh_q := h'\<rparr>) = Some w'" "mh_valid P w'"
    "mh_map w' = (mh_map (w\<lparr>mh_q := mh_q w\<rparr>))(a := None)" using pop_valid [OF v(1-3) ne v(4,5) a(3)] .
  then show thesis using that [of w' a u] a by (simp add: mh_pop_def)
qed

lemma erase_valid:
  assumes "mh_valid P w" "a \<in> set (mh_objects w)"
  obtains w' where "mh_erase P a w = Some w'" "mh_valid P w'" "mh_map w' = (mh_map w)(a := None)"
proof -
  obtain u i where s: "mh_store w a = Some (u, i)" using valid_object [OF assms] .
  have w: "w\<lparr>mh_q := (mh_q w)\<lparr>outside := (mh_store w)(a \<mapsto> (u, i))\<rparr>\<rparr> = w" using s by (simp add: fun_upd_idem)
  note p = write_value [where v = u, OF assms s refl]
  have h: "live_all (mh_q w)" "indexed (mh_q w)" "heap_ordered (mh_q w)" "distinct (mh_objects w)" "mset (map key (dh_q (mh_q w))) = mset (mh_objects w)"
    using assms(1) by (simp_all add: valid_iff)
  obtain h1 where h1: "dh_erase_loop P i (mh_q w) = Some h1" "hole_at h1 0" "dh_q h1 ! 0 = dh_q (mh_q w) ! i" "same_heap (mh_q w) h1" "exchanged P (mh_q w) h1"
    using erase_loop_live [OF h(1) p(1) ordered_hole [OF h(3) p(1)]] by blast
  have l: "live_all h1" "dh_q h1 \<noteq> []" using same_heapD [OF h1(4)] h(1) p(1) by auto
  have ob: "mset (map key (dh_q h1)) = mset (mh_objects w)" using h1(4) h(5) by (simp add: same_heap_def)
  have ix: "indexed h1" using exchanged_indexed [OF h1(5) h(1,2)] .
  have ka: "a = key (dh_q h1 ! 0)" using h1(3) p(2) by simp
  obtain h' w' where r: "dh_pop P h1 = Some h'" "erase_object a (w\<lparr>mh_q := h'\<rparr>) = Some w'" "mh_valid P w'"
    "mh_map w' = (mh_map (w\<lparr>mh_q := h1\<rparr>))(a := None)" using pop_valid [OF l(1) ix h1(2) l(2) h(4) ob ka] .
  have "mh_map (w\<lparr>mh_q := h1\<rparr>) = mh_map w" using exchanged_store [OF h1(5)] by (simp add: mh_map_def same_store_def cong: if_cong)
  then show thesis using that [of w'] r h1(1) s by (simp add: mh_erase_def dh_erase_def)
qed

text \<open>The insertion of the node \<open>a\<close> of the list into the vector.\<close>

lemma insert_valid:
  assumes h: "heap_ordered h" "live_all h" "indexed h" and a: "outside h a \<noteq> None" "a \<notin> key ` set (dh_q h)"
    and m: "make_node (super_t P) a (dh_counter h) = (c, Inr n)"
  obtains h' where "dh_push P a h = Some (h', Inr ())" "heap_ordered h'" "live_all h'" "indexed h'" "mset (dh_q h') = add_mset n (mset (dh_q h))"
    "dh_counter h' = c" "same_store (insert a (key ` set (dh_q h))) (outside h) (outside h')"
proof -
  let ?h = "h\<lparr>dh_counter := c, dh_q := dh_q h @ [n]\<rparr>"
  have k: "key n = a" using make [OF m] .
  have ln: "node_live (super_t P) (outside h) n" using a(1) k by (simp add: node_live_def)
  obtain h1 h' where h': "dh_push P a h = Some (h', Inr ())" "heap_ordered h'" "same_heap ?h h'"
    "reset_index P (length (dh_q h)) (length (dh_q h)) ?h = Some h1" "exchanged P h1 h'" "live_all h1" "dh_q h1 = dh_q h @ [n]"
    using push_live [OF h(2,1) m ln] .
  have lv: "live_all ?h" using h(2) ln by (simp add: live_all_def)
  have "indexed h'" using push_indexed [OF h(3) h'(6,7,5,4) lv] a(2) k by simp
  moreover have "same_store (insert a (key ` set (dh_q h))) (outside h) (outside h')"
    using same_store_trans [of "insert a (key ` set (dh_q h))" "outside h" "outside h1" "outside h'"] reset_store(1) [OF h'(4)]
      exchanged_store [OF h'(5)] h'(7) k by simp
  moreover have "live_all h'" using lv same_heapD(3) [OF h'(3)] by simp
  ultimately show thesis using h'(1,2,3) by (intro that) (simp_all add: same_heap_def)
qed

lemma push_nodes:
  assumes w: "mh_valid P w" and a: "mh_store w a = None" and m: "make_node (super_t P) a (dh_counter (mh_q w)) = (c, Inr n)"
  obtains w' where "mh_push P a v w = Some (w', Inr a)" "mh_valid P w'" "mh_map w' = (mh_map w)(a \<mapsto> v)"
    "mset (dh_q (mh_q w')) = add_mset n (mset (dh_q (mh_q w)))" "dh_counter (mh_q w') = c" "mh_objects w' = a # mh_objects w"
    "\<forall>b. b \<noteq> a \<longrightarrow> (mh_store w' b = None \<longleftrightarrow> mh_store w b = None)"
proof -
  let ?h = "(mh_q w)\<lparr>outside := (mh_store w)(a \<mapsto> (v, 0))\<rparr>" and ?q = "dh_q (mh_q w)"
  have v: "heap_ordered (mh_q w)" "live_all (mh_q w)" "indexed (mh_q w)" "distinct (mh_objects w)" "mset (map key ?q) = mset (mh_objects w)"
    using w by (simp_all add: valid_iff)
  have na: "a \<notin> key ` set ?q" using v(2) a by (auto simp: live_all_def node_live_def)
  then have ob: "a \<notin> set (mh_objects w)" using mset_eq_setD [OF v(5)] by simp
  have same: "outside ?h (key x) = mh_store w (key x)" if "x \<in> set ?q" for x using na that by auto
  have "lt (outside ?h) x y = lt (mh_store w) x y" if "x \<in> set ?q" "y \<in> set ?q" for x y
    using same that by (intro lt_local) simp_all
  then have "heap_ordered ?h" using v(1) parent_lt [of _ "arity P"] by (simp add: heap_ordered_def below_def) (meson less_trans nth_mem)
  moreover have "live_all ?h" using v(2) by (simp add: live_all_def node_live_def)
  moreover have "indexed ?h" using v(3) same by (simp add: indexed_def store_pos_def)
  moreover have "outside ?h a \<noteq> None" "a \<notin> key ` set (dh_q ?h)" "make_node (super_t P) a (dh_counter ?h) = (c, Inr n)" using na m by simp_all
  ultimately obtain h' where h': "dh_push P a ?h = Some (h', Inr ())" "heap_ordered h'" "live_all h'" "indexed h'" "mset (dh_q h') = add_mset n (mset (dh_q ?h))"
    "dh_counter h' = c" "same_store (insert a (key ` set (dh_q ?h))) (outside ?h) (outside h')" using insert_valid by blast
  let ?w = "w\<lparr>mh_q := h', mh_objects := a # mh_objects w\<rparr>"
  have "mset (map key (dh_q h')) = add_mset (key n) (mset (map key ?q))" using h'(5) by simp
  then have "mh_valid P ?w" using h' v(4,5) ob make [OF m] by (simp add: valid_iff)
  moreover have "mh_map ?w = (mh_map w)(a \<mapsto> v)"
    using h'(7) by (auto simp: mh_map_def same_store_def fun_eq_iff)
  moreover have "mh_store ?w b = None \<longleftrightarrow> mh_store w b = None" if "b \<noteq> a" for b using same_store_dom [OF h'(7), of b] that by simp
  ultimately show thesis using that [of ?w] h'(1,5,6) by (simp add: mh_push_def Let_def)
qed

lemma push_valid:
  assumes "mh_valid P w" "mh_store w a = None" "make_node (super_t P) a (dh_counter (mh_q w)) = (c, Inr n)"
  obtains w' where "mh_push P a v w = Some (w', Inr a)" "mh_valid P w'" "mh_map w' = (mh_map w)(a \<mapsto> v)"
  by (rule push_nodes [OF assms]) (rule that)

lemma clear_valid: "mh_valid P (mh_clear w)" "mh_map (mh_clear w) = Map.empty"
  by (simp_all add: mh_valid_def mh_clear_def dh_clear_def mh_map_def d_ary_ordered_def)

end

end
