(* ===== verification/Mutable_Queue.thy ===== *)
theory Mutable_Queue
  imports Mutable_Heap
begin

text \<open>
  The mutable heap as a map from handles to values: the laws of \<open>mutable_laws\<close> for the heap with and without stability,
  the refinement of a map by every member, and the copies.
\<close>

subsection \<open>The two instances\<close>

definition node_value :: "'v node_store \<Rightarrow> nat \<Rightarrow> 'v" where
  "node_value s a = fst (the (s a))"

definition mutable_less :: "('v \<Rightarrow> 'v \<Rightarrow> bool) \<Rightarrow> 'v node_store \<Rightarrow> nat \<Rightarrow> nat \<Rightarrow> bool" where
  "mutable_less lt s n m = lt (node_value s n) (node_value s m)"

definition stable_mutable_less :: "('v \<Rightarrow> 'v \<Rightarrow> bool) \<Rightarrow> 'v node_store \<Rightarrow> nat \<times> 'w::len word \<Rightarrow> nat \<times> 'w word \<Rightarrow> bool" where
  "stable_mutable_less lt s n m = stable_less lt (node_value s (fst n), snd n) (node_value s (fst m), snd m)"

definition mplain_params :: "nat \<Rightarrow> ('v \<Rightarrow> 'v \<Rightarrow> bool) \<Rightarrow> ('v node_store, nat, nat, unit) heap_params" where
  "mplain_params D lt = mutable_params D (unstable_base (indirect_cmp lt))"

definition mstable_params :: "nat \<Rightarrow> ('v \<Rightarrow> 'v \<Rightarrow> bool) \<Rightarrow> ('v node_store, nat, nat \<times> 'w::len word, 'w word) heap_params" where
  "mstable_params D lt = mutable_params D (stable_base (indirect_cmp lt))"

lemma mplain_simps:
  "arity (mplain_params D lt) = D" "get_value (super_t (mplain_params D lt)) = (\<lambda>n. n)"
  "hb_cmp (super_t (mplain_params D lt)) = indirect_cmp lt" "make_node (super_t (mplain_params D lt)) a c = (c, Inr a)"
  "index_run (mplain_params D lt) = index_updater (super_t (mplain_params D lt))"
  by (simp_all add: mplain_params_def mutable_params_def unstable_base_def)

lemma mstable_simps:
  "arity (mstable_params D lt) = D" "get_value (super_t (mstable_params D lt)) = fst"
  "hb_cmp (super_t (mstable_params D lt)) = internal_compare (indirect_cmp lt)" "make_node (super_t (mstable_params D lt)) = stable_make_node"
  "index_run (mstable_params D lt) = index_updater (super_t (mstable_params D lt))"
  by (simp_all add: mstable_params_def mutable_params_def stable_base_def)

lemma node_value_same: "map_option fst (s a) = map_option fst (s' a) \<Longrightarrow> node_value s a = node_value s' a"
  by (cases "s a"; cases "s' a") (auto simp: node_value_def)

lemma node_value_simps [simp]:
  "node_value (s(a \<mapsto> (v, i))) b = (if b = a then v else node_value s b)" "s a = Some x \<Longrightarrow> node_value s a = fst x"
  by (simp_all add: node_value_def)

lemma updater_store:
  assumes "node_live base s n" "a = get_value base n"
  shows "index_updater base n i s = Some (s(a \<mapsto> (node_value s a, i)))"
    "node_live base (s(a \<mapsto> (node_value s a, i))) = node_live base s"
    "store_pos (s(a \<mapsto> (node_value s a, i))) = (store_pos s)(a := i)"
    "node_value (s(a \<mapsto> (node_value s a, i))) = node_value s"
  using assms by (auto simp: index_updater_def node_live_def store_pos_def Let_def fun_eq_iff node_value_def)

text \<open>The laws that hold of every comparison which reads the values through the store.\<close>

lemma updater_live:
  assumes "node_live (super_t P) s n" "index_run P = index_updater (super_t P)" "\<And>s s'. node_value s = node_value s' \<Longrightarrow> lt s = lt s'"
  shows "\<exists>s'. index_run P n i s = Some s' \<and> node_live (super_t P) s' = node_live (super_t P) s \<and> lt s' = lt s"
  using updater_store [OF assms(1) refl, of i] assms(2) assms(3) [OF updater_store(4) [OF assms(1) refl]] by auto

lemma updater_pos:
  assumes "node_live (super_t P) s n" "index_run P = index_updater (super_t P)" "index_run P n i s = Some s'"
  shows "store_pos s' = (store_pos s)(get_value (super_t P) n := i)"
  using updater_store [OF assms(1) refl, of i] assms(2,3) by simp

sublocale heap_order \<subseteq> mplain: mutable_laws "mplain_params D lt" "mutable_less lt" lt
proof (unfold_locales, goal_cases)
  case 1
  then show ?case using arity_pos by (simp add: mplain_simps)
next
  case (2 s n m)
  then show ?case by (auto simp: mplain_simps indirect_cmp_def node_live_def mutable_less_def)
next
  case (3 s n m)
  then show ?case unfolding mutable_less_def by (rule weak_orderD(1) [OF weak])
next
  case (4 s n m k)
  then show ?case unfolding mutable_less_def by (rule weak_orderD(2) [OF weak])
next
  case (5 s n i)
  then show ?case by (rule updater_live) (simp_all add: mplain_simps(5) mutable_less_def fun_eq_iff)
next
  case (6 s n i s')
  show ?case by (rule updater_pos [OF 6(1) mplain_simps(5) 6(2)])
next
  case 7
  then show ?case by (rule mplain_simps)
next
  case (8 s n s' m)
  then show ?case using node_value_same [of s n s'] node_value_same [of s m s'] by (simp add: mplain_simps mutable_less_def)
next
  case (9 s a u i v n m)
  then show ?case using weak_orderD(2) [OF weak, of v u "node_value s m"] by (auto simp: mplain_simps mutable_less_def)
next
  case (10 s a u i v n m)
  then show ?case using weak_orderD(2) [OF weak, of "node_value s m" u v] by (auto simp: mplain_simps mutable_less_def)
next
  case (11 s n x m y)
  then show ?case by (simp add: mplain_simps mutable_less_def)
next
  case (12 a c c' n)
  then show ?case by (simp add: mplain_simps)
qed

lemma internal_compare_store:
  assumes "s (fst n) \<noteq> None" "s (fst m) \<noteq> None"
  shows "internal_compare (indirect_cmp lt) s n m = Some (stable_mutable_less lt s n m)"
  using assms by (auto simp: internal_compare_def indirect_cmp_def stable_mutable_less_def stable_less_def)

sublocale heap_order \<subseteq> mstable: mutable_laws "mstable_params D lt :: ('v node_store, nat, nat \<times> 'w::len word, 'w word) heap_params" "stable_mutable_less lt" lt
proof (unfold_locales, goal_cases)
  case 1
  then show ?case using arity_pos by (simp add: mstable_simps)
next
  case (2 s n m)
  then show ?case by (simp add: mstable_simps node_live_def internal_compare_store)
next
  case (3 s n m)
  then show ?case unfolding stable_mutable_less_def by (rule weak_orderD(1) [OF weak_order_stable [OF weak]])
next
  case (4 s n m k)
  then show ?case unfolding stable_mutable_less_def by (rule weak_orderD(2) [OF weak_order_stable [OF weak]])
next
  case (5 s n i)
  then show ?case by (rule updater_live) (simp_all add: mstable_simps(5) stable_mutable_less_def fun_eq_iff)
next
  case (6 s n i s')
  show ?case by (rule updater_pos [OF 6(1) mstable_simps(5) 6(2)])
next
  case 7
  then show ?case by (rule mstable_simps)
next
  case (8 s n s' m)
  then show ?case using node_value_same [of s "fst n" s'] node_value_same [of s "fst m" s'] by (simp add: mstable_simps stable_mutable_less_def)
next
  case (9 s a u i v n m)
  then show ?case using weak_orderD(2) [OF weak, of v u "node_value s (fst m)"] weak_orderD(2) [OF weak, of "node_value s (fst m)" v u]
    by (auto simp: mstable_simps stable_mutable_less_def stable_less_def)
next
  case (10 s a u i v n m)
  then show ?case using weak_orderD(2) [OF weak, of "node_value s (fst m)" u v] weak_orderD(2) [OF weak, of u v "node_value s (fst m)"]
    by (auto simp: mstable_simps stable_mutable_less_def stable_less_def)
next
  case (11 s n x m y)
  then show ?case by (simp add: mstable_simps stable_mutable_less_def stable_less_def)
next
  case (12 a c c' n)
  then show ?case by (auto simp: mstable_simps stable_make_node_def Let_def split: if_splits)
qed

subsection \<open>Every member refines the map\<close>

datatype 'v heap_member =
  Push nat 'v
| Pop
| Assign_update nat 'v
| Update nat 'v
| Increase nat 'v
| Decrease nat 'v
| Erase nat
| Clear

fun mh_exec ::
  "('v node_store, nat, 'n, 'c) heap_params \<Rightarrow> ('v \<Rightarrow> 'v \<Rightarrow> bool) \<Rightarrow> 'v heap_member \<Rightarrow> ('v, 'n, 'c) mutable_heap
    \<Rightarrow> ('v, 'n, 'c) mutable_heap option" where
  "mh_exec P cmp (Push a v) w = Option.bind (mh_push P a v w) (\<lambda>(w', r). case r of Inl e \<Rightarrow> None | Inr h \<Rightarrow> Some w')"
| "mh_exec P cmp Pop w = mh_pop P w"
| "mh_exec P cmp (Assign_update a v) w = Option.bind (mh_assign a v w) (mh_update P a)"
| "mh_exec P cmp (Update a v) w = mh_update_to P cmp a v w"
| "mh_exec P cmp (Increase a v) w = mh_increase_to P cmp a v w"
| "mh_exec P cmp (Decrease a v) w = mh_decrease_to P cmp a v w"
| "mh_exec P cmp (Erase a) w = mh_erase P a w"
| "mh_exec P cmp Clear w = Some (mh_clear w)"

text \<open>When a member may be called: a new address for the node, a handle of this heap, a value on the announced side of the current one.\<close>

fun member_allowed :: "('v \<Rightarrow> 'v \<Rightarrow> bool) \<Rightarrow> 'v heap_member \<Rightarrow> ('v, 'n, 'c) mutable_heap \<Rightarrow> bool" where
  "member_allowed cmp (Push a v) w = (mh_store w a = None)"
| "member_allowed cmp Pop w = (\<not> mh_empty w)"
| "member_allowed cmp (Assign_update a v) w = (mh_map w a \<noteq> None)"
| "member_allowed cmp (Update a v) w = (mh_map w a \<noteq> None)"
| "member_allowed cmp (Increase a v) w = (case mh_map w a of None \<Rightarrow> False | Some u \<Rightarrow> \<not> cmp v u)"
| "member_allowed cmp (Decrease a v) w = (case mh_map w a of None \<Rightarrow> False | Some u \<Rightarrow> \<not> cmp u v)"
| "member_allowed cmp (Erase a) w = (mh_map w a \<noteq> None)"
| "member_allowed cmp Clear w = True"

text \<open>The specification: a map from handles to values, of which \<^verbatim>\<open>pop\<close> removes one that no other exceeds.\<close>

inductive map_step :: "('v \<Rightarrow> 'v \<Rightarrow> bool) \<Rightarrow> 'v heap_member \<Rightarrow> (nat \<Rightarrow> 'v option) \<Rightarrow> (nat \<Rightarrow> 'v option) \<Rightarrow> bool" for cmp where
  push: "m a = None \<Longrightarrow> map_step cmp (Push a v) m (m(a \<mapsto> v))"
| pop: "m a = Some u \<Longrightarrow> \<forall>b v. m b = Some v \<longrightarrow> \<not> cmp u v \<Longrightarrow> map_step cmp Pop m (m(a := None))"
| assign_update: "map_step cmp (Assign_update a v) m (m(a \<mapsto> v))"
| update: "map_step cmp (Update a v) m (m(a \<mapsto> v))"
| increase: "map_step cmp (Increase a v) m (m(a \<mapsto> v))"
| decrease: "map_step cmp (Decrease a v) m (m(a \<mapsto> v))"
| erase: "map_step cmp (Erase a) m (m(a := None))"
| clear: "map_step cmp Clear m Map.empty"

context mutable_laws
begin

lemma map_object: "mh_map w a = Some u \<Longrightarrow> a \<in> set (mh_objects w)"
  by (simp add: mh_map_def split: if_splits)

lemma update_to_valid:
  assumes "mh_valid P w" "mh_map w a = Some u" "lower v u \<Longrightarrow> \<not> lower u v"
  obtains w' where "mh_update_to P lower a v w = Some w'" "mh_valid P w'" "mh_map w' = (mh_map w)(a \<mapsto> v)"
proof -
  have a: "a \<in> set (mh_objects w)" using map_object [OF assms(2)] .
  obtain i where s: "mh_store w a = Some (u, i)" using valid_object [OF assms(1) a] assms(2) by auto
  show thesis
  proof (cases "lower v u")
    case True
    then show thesis using that s decrease_valid [OF assms(1) a assms(2) assms(3)] by (auto simp: mh_update_to_def)
  next
    case False
    then show thesis using that s increase_valid [OF assms(1) a assms(2)] by (auto simp: mh_update_to_def)
  qed
qed

lemma exec_refines:
  assumes w: "mh_valid P w" and ok: "member_allowed lower c w" and as: "\<And>u v. lower u v \<Longrightarrow> \<not> lower v u"
    and mk: "\<And>a v. c = Push a v \<Longrightarrow> \<exists>c n. make_node (super_t P) a (dh_counter (mh_q w)) = (c, Inr n)"
  shows "\<exists>w'. mh_exec P lower c w = Some w' \<and> mh_valid P w' \<and> map_step lower c (mh_map w) (mh_map w')"
proof (cases c)
  case (Push a v)
  then obtain c' n where "make_node (super_t P) a (dh_counter (mh_q w)) = (c', Inr n)" using mk by blast
  moreover have "mh_store w a = None" using ok Push by simp
  moreover from this have "mh_map w a = None" by (simp add: mh_map_def)
  ultimately show ?thesis using push_valid [OF w] Push map_step.push by (metis mh_exec.simps(1) bind.bind_lunit case_prod_conv sum.case(2))
next
  case Pop
  then show ?thesis using ok pop_top_valid [OF w] map_step.pop by (metis member_allowed.simps(2) mh_exec.simps(2))
next
  case (Assign_update a v)
  then obtain u where "mh_map w a = Some u" using ok by auto
  from map_object [OF this] show ?thesis using update_valid [OF w] Assign_update map_step.assign_update by (metis mh_exec.simps(3) bind.bind_lunit)
next
  case (Update a v)
  then obtain u where "mh_map w a = Some u" using ok by auto
  then show ?thesis using update_to_valid [OF w] as Update map_step.update by (metis mh_exec.simps(4))
next
  case (Increase a v)
  then obtain u where u: "mh_map w a = Some u" "\<not> lower v u" using ok by (auto split: option.splits)
  then show ?thesis using increase_valid [OF w map_object [OF u(1)] u] Increase map_step.increase by (metis mh_exec.simps(5))
next
  case (Decrease a v)
  then obtain u where u: "mh_map w a = Some u" "\<not> lower u v" using ok by (auto split: option.splits)
  then show ?thesis using decrease_valid [OF w map_object [OF u(1)] u] Decrease map_step.decrease by (metis mh_exec.simps(6))
next
  case (Erase a)
  then obtain u where "mh_map w a = Some u" using ok by auto
  from map_object [OF this] show ?thesis using erase_valid [OF w] Erase map_step.erase by (metis mh_exec.simps(7))
next
  case Clear
  then show ?thesis using clear_valid [of w] map_step.clear by simp
qed

end

context heap_order
begin

lemma mplain_refines:
  assumes "mh_valid (mplain_params D lt) w" "member_allowed lt c w"
  shows "\<exists>w'. mh_exec (mplain_params D lt) lt c w = Some w' \<and> mh_valid (mplain_params D lt) w' \<and> map_step lt c (mh_map w) (mh_map w')"
  using mplain.exec_refines [OF assms] weak_orderD(1) [OF weak] by (simp add: mplain_simps)

lemma mplain_top:
  assumes "mh_valid (mplain_params D lt) w"
  shows "mh_empty w \<or> (\<exists>a u. mh_top (mplain_params D lt) w = Some u \<and> mh_map w a = Some u \<and> (\<forall>b v. mh_map w b = Some v \<longrightarrow> \<not> lt u v))"
  using mplain.top_valid [OF assms] by metis

lemma mstable_refines:
  assumes "mh_valid (mstable_params D lt) w" "member_allowed lt c w" "dh_counter (mh_q w) + 1 \<noteq> - 1"
  shows "\<exists>w'. mh_exec (mstable_params D lt) lt c w = Some w' \<and> mh_valid (mstable_params D lt) w' \<and> map_step lt c (mh_map w) (mh_map w')"
  using mstable.exec_refines [OF assms(1,2)] weak_orderD(1) [OF weak] assms(3) by (simp add: mstable_simps stable_make_node_def Let_def)

end

text \<open>C3 Every member of the mutable heap, called within its preconditions on a heap in order, returns a heap in order and changes the map from
  handles to values as the specification says: the value of one handle is set or removed, the others stay; \<^verbatim>\<open>pop\<close> removes
  a value that no other exceeds, and \<^verbatim>\<open>top\<close> returns such a value. In order means that the vector is a heap, holds
  exactly the nodes of the list, and every node knows its position.\<close>

theorem mutable_heap_refines_map:
  assumes "0 < D" "weak_order lt" "mh_valid (mplain_params D lt) w" "member_allowed lt c w"
  shows "(\<exists>w'. mh_exec (mplain_params D lt) lt c w = Some w' \<and> mh_valid (mplain_params D lt) w' \<and> map_step lt c (mh_map w) (mh_map w'))
    \<and> (mh_empty w \<or> (\<exists>a u. mh_top (mplain_params D lt) w = Some u \<and> mh_map w a = Some u \<and> (\<forall>b v. mh_map w b = Some v \<longrightarrow> \<not> lt u v)))"
  using heap_order.mplain_refines [OF heap_orderI [OF assms(1,2)] assms(3,4)] heap_order.mplain_top [OF heap_orderI [OF assms(1,2)] assms(3)] by blast

definition example_mutable :: "(nat, nat, unit) mutable_heap" where
  "example_mutable = \<lparr>mh_q = \<lparr>dh_q = [12, 10, 11, 13], dh_counter = (),
     outside = [10 \<mapsto> (7, 1), 11 \<mapsto> (5, 2), 12 \<mapsto> (9, 0), 13 \<mapsto> (4, 3)]\<rparr>, mh_objects = [13, 12, 11, 10]\<rparr>"

lemma example_mutable_valid: "mh_valid (mplain_params 2 (<)) example_mutable"
  by code_simp

lemma mutable_heap_refines_map_witness:
  "\<exists>w'. mh_exec (mplain_params 2 (<)) (<) (Update 13 10) example_mutable = Some w' \<and> mh_map w' 13 = Some 10 \<and> mh_map w' 12 = Some 9"
proof -
  have "member_allowed (<) (Update 13 10) example_mutable" "mh_map example_mutable 12 = Some 9" by code_simp+
  then show ?thesis using mutable_heap_refines_map [OF _ weak_order_less example_mutable_valid, of "Update 13 10"]
    by (auto elim: map_step.cases)
qed

text \<open>The moves and \<^verbatim>\<open>swap\<close> hand over the nodes; a heap that has been moved from is empty.\<close>

lemma valid_nothing: "dh_q q = [] \<Longrightarrow> mh_valid P \<lparr>mh_q = q, mh_objects = []\<rparr>"
  by (simp add: mh_valid_def d_ary_ordered_def)

lemma move_valid:
  assumes "mh_valid P rhs"
  shows "mh_valid P (fst (mh_move P rhs)) \<and> mh_map (fst (mh_move P rhs)) = mh_map rhs
    \<and> mh_valid P (snd (mh_move P rhs)) \<and> mh_map (snd (mh_move P rhs)) = Map.empty"
  using assms by (cases rhs) (auto simp: mh_move_def dh_move_def mh_map_def intro: valid_nothing)

lemma swap_valid:
  assumes "mh_valid P w" "mh_valid P rhs" "mh_store rhs = mh_store w"
  shows "mh_valid P (fst (mh_swap w rhs)) \<and> mh_map (fst (mh_swap w rhs)) = mh_map rhs
    \<and> mh_valid P (snd (mh_swap w rhs)) \<and> mh_map (snd (mh_swap w rhs)) = mh_map w"
  using assms by (simp add: mh_swap_def dh_swap_def mh_map_def mh_valid_def Let_def cong: if_cong)

subsection \<open>Copies\<close>

text \<open>The nodes that the loop of a copy makes.\<close>

fun make_nodes :: "('s, 'v, 'n, 'c) heap_base \<Rightarrow> 'v list \<Rightarrow> 'c \<Rightarrow> ('n list \<times> 'c) option" where
  "make_nodes base [] c = Some ([], c)"
| "make_nodes base (a # as) c =
     (case make_node base a c of (c1, Inr n) \<Rightarrow> map_option (\<lambda>(ns, c2). (n # ns, c2)) (make_nodes base as c1) | (c1, Inl e) \<Rightarrow> None)"

lemma list_copy_store:
  assumes "length as = length bs" "distinct as" "set as \<inter> set bs = {}" "\<forall>b\<in>set bs. s b \<noteq> None"
  shows "\<exists>s'. list_copy as bs s = Some s' \<and> map s' as = map s bs \<and> (\<forall>x. x \<notin> set as \<longrightarrow> s' x = s x)"
  using assms
proof (induction as bs arbitrary: s rule: list_induct2)
  case (Cons a as b bs)
  obtain x where x: "s b = Some x" using Cons.prems by auto
  have "\<forall>c\<in>set bs. (s(a \<mapsto> x)) c \<noteq> None" using Cons.prems(3) by simp
  moreover have "distinct as" "set as \<inter> set bs = {}" using Cons.prems(1,2) by auto
  ultimately obtain s' where s': "list_copy as bs (s(a \<mapsto> x)) = Some s'" "map s' as = map (s(a \<mapsto> x)) bs" "\<forall>y. y \<notin> set as \<longrightarrow> s' y = (s(a \<mapsto> x)) y"
    using Cons.IH by blast
  have "map (s(a \<mapsto> x)) bs = map s bs" using Cons.prems(2) by simp
  then show ?case using Cons.prems x s' by (intro exI [of _ s']) simp
qed simp

context mutable_laws
begin

lemma push_all_valid:
  assumes "heap_ordered h" "live_all h" "indexed h" "distinct as" "set as \<inter> key ` set (dh_q h) = {}" "\<forall>a\<in>set as. outside h a \<noteq> None"
    and "make_nodes (super_t P) as (dh_counter h) = Some (ns, c)"
  shows "\<exists>h'. push_all P as h = Some (h', Inr ()) \<and> heap_ordered h' \<and> live_all h' \<and> indexed h' \<and> mset (dh_q h') = mset (dh_q h) + mset ns
    \<and> dh_counter h' = c \<and> same_store (set as \<union> key ` set (dh_q h)) (outside h) (outside h') \<and> map key ns = as"
  using assms
proof (induction as arbitrary: h ns)
  case (Cons a as)
  obtain c1 n ns' where n: "make_node (super_t P) a (dh_counter h) = (c1, Inr n)" "make_nodes (super_t P) as c1 = Some (ns', c)" "ns = n # ns'"
    using Cons.prems(7) by (auto split: prod.splits sum.splits)
  obtain h1 where h1: "dh_push P a h = Some (h1, Inr ())" "heap_ordered h1" "live_all h1" "indexed h1" "mset (dh_q h1) = add_mset n (mset (dh_q h))"
    "dh_counter h1 = c1" "same_store (insert a (key ` set (dh_q h))) (outside h) (outside h1)"
    using insert_valid [OF Cons.prems(1-3) _ _ n(1)] Cons.prems(5,6) by auto
  have k: "key n = a" using make [OF n(1)] .
  have q1: "key ` set (dh_q h1) = insert a (key ` set (dh_q h))" using arg_cong [OF h1(5), of set_mset] k by simp
  have "\<forall>b\<in>set as. outside h1 b \<noteq> None" using Cons.prems(6) same_store_dom [OF h1(7)] by simp
  moreover have "set as \<inter> key ` set (dh_q h1) = {}" using Cons.prems(4,5) by (auto simp: q1)
  moreover have "make_nodes (super_t P) as (dh_counter h1) = Some (ns', c)" using n(2) h1(6) by simp
  ultimately obtain h' where h': "push_all P as h1 = Some (h', Inr ())" "heap_ordered h'" "live_all h'" "indexed h'" "mset (dh_q h') = mset (dh_q h1) + mset ns'"
    "dh_counter h' = c" "same_store (set as \<union> key ` set (dh_q h1)) (outside h1) (outside h')" "map key ns' = as"
    using Cons.IH [OF h1(2-4)] Cons.prems(4) by auto
  have "same_store (set (a # as) \<union> key ` set (dh_q h)) (outside h) (outside h')"
    using same_store_trans [OF same_store_mono [OF h1(7)] same_store_mono [OF h'(7)], of "set (a # as) \<union> key ` set (dh_q h)"] q1 by auto
  then show ?case using h1 h' n(3) k by (intro exI [of _ h']) simp
qed simp

end

context mutable_laws
begin

text \<open>A change of the store away from the nodes of the list.\<close>

lemma valid_store:
  assumes w: "mh_valid P w" and s: "\<forall>a\<in>set (mh_objects w). s a = mh_store w a"
  shows "mh_valid P (w\<lparr>mh_q := (mh_q w)\<lparr>outside := s\<rparr>\<rparr>)" "mh_map (w\<lparr>mh_q := (mh_q w)\<lparr>outside := s\<rparr>\<rparr>) = mh_map w"
proof -
  let ?q = "dh_q (mh_q w)" and ?w = "w\<lparr>mh_q := (mh_q w)\<lparr>outside := s\<rparr>\<rparr>"
  have v: "heap_ordered (mh_q w)" "live_all (mh_q w)" "indexed (mh_q w)" "mset (map key ?q) = mset (mh_objects w)"
    using w by (simp_all add: valid_iff)
  have same: "s (key n) = mh_store w (key n)" if "n \<in> set ?q" for n using s mset_eq_setD [OF v(4)] that by auto
  have "lt s n m = lt (mh_store w) n m" if "n \<in> set ?q" "m \<in> set ?q" for n m using same that by (intro lt_local) simp_all
  then have "heap_ordered (mh_q ?w)" using v(1) parent_lt [of _ "arity P"] by (simp add: heap_ordered_def below_def) (meson less_trans nth_mem)
  moreover have "live_all (mh_q ?w)" using v(2) same by (simp add: live_all_def node_live_def)
  moreover have "indexed (mh_q ?w)" using v(3) same by (simp add: indexed_def store_pos_def)
  ultimately show "mh_valid P ?w" using w by (simp add: valid_iff)
  show "mh_map ?w = mh_map w" using s by (auto simp: mh_map_def)
qed

text \<open>The copy of the list of \<open>rhs\<close> to free addresses.\<close>

lemma copied_objects:
  assumes rhs: "mh_valid P rhs" and as: "length as = length (mh_objects rhs)" "distinct as" "\<forall>a\<in>set as. mh_store rhs a = None"
  obtains s where "list_copy as (mh_objects rhs) (mh_store rhs) = Some s" "map s as = map (mh_store rhs) (mh_objects rhs)"
    "\<forall>x. x \<notin> set as \<longrightarrow> s x = mh_store rhs x" "set as \<inter> set (mh_objects rhs) = {}" "\<forall>a\<in>set as. s a \<noteq> None"
proof -
  have l: "\<forall>b\<in>set (mh_objects rhs). mh_store rhs b \<noteq> None" using rhs by (auto simp: mh_valid_def Let_def list_all_iff)
  then have d: "set as \<inter> set (mh_objects rhs) = {}" using as(3) by blast
  obtain s where s: "list_copy as (mh_objects rhs) (mh_store rhs) = Some s" "map s as = map (mh_store rhs) (mh_objects rhs)"
    "\<forall>x. x \<notin> set as \<longrightarrow> s x = mh_store rhs x" using list_copy_store [OF as(1,2) d l] by blast
  have "s ` set as = mh_store rhs ` set (mh_objects rhs)" using arg_cong [OF s(2), of set] by simp
  then have "\<forall>a\<in>set as. s a \<noteq> None" using l by (metis imageE imageI)
  with s d show thesis using that by blast
qed

lemma copy_valid:
  assumes rhs: "mh_valid P rhs" and as: "length as = length (mh_objects rhs)" "distinct as" "\<forall>a\<in>set as. mh_store rhs a = None"
    and ns: "make_nodes (super_t P) as (dh_counter (mh_q rhs)) = Some (ns, c)"
  obtains w where "mh_copy P as rhs = Some (w, Inr ())" "mh_objects w = as" "mset (dh_q (mh_q w)) = mset (dh_q (mh_q rhs)) + mset ns"
    "length ns = length as" "indexed (mh_q w)"
proof -
  obtain s where s: "list_copy as (mh_objects rhs) (mh_store rhs) = Some s" "\<forall>x. x \<notin> set as \<longrightarrow> s x = mh_store rhs x"
    "set as \<inter> set (mh_objects rhs) = {}" "\<forall>a\<in>set as. s a \<noteq> None" using copied_objects [OF rhs as] .
  let ?h = "(mh_q rhs)\<lparr>outside := s\<rparr>"
  have "\<forall>a\<in>set (mh_objects rhs). s a = mh_store rhs a" using s(2,3) by blast
  then have "mh_valid P (rhs\<lparr>mh_q := ?h\<rparr>)" by (rule valid_store(1) [OF rhs])
  then have v: "heap_ordered ?h" "live_all ?h" "indexed ?h" "mset (map key (dh_q ?h)) = mset (mh_objects rhs)" by (simp_all add: valid_iff)
  have "set as \<inter> key ` set (dh_q ?h) = {}" using s(3) mset_eq_setD [OF v(4)] by simp
  from push_all_valid [OF v(1-3) as(2) this] obtain h' where h': "push_all P as ?h = Some (h', Inr ())" "indexed h'"
    "mset (dh_q h') = mset (dh_q (mh_q rhs)) + mset ns" "map key ns = as" using s(4) ns by auto
  have "length ns = length as" using arg_cong [OF h'(4), of length] by simp
  with h' s(1) show thesis by (intro that [of "\<lparr>mh_q = h', mh_objects = as\<rparr>"]) (simp_all add: mh_copy_def)
qed

lemma copy_assign_valid:
  assumes rhs: "mh_valid P (rhs\<lparr>mh_q := (mh_q rhs)\<lparr>outside := mh_store w\<rparr>\<rparr>)" and dj: "set (mh_objects w) \<inter> set (mh_objects rhs) = {}"
    and as: "length as = length (mh_objects rhs)" "distinct as" "\<forall>a\<in>set as. mh_store w a = None \<or> a \<in> set (mh_objects w)"
    and ns: "make_nodes (super_t P) as (dh_counter (mh_q rhs)) = Some (ns, c)"
  obtains w' where "mh_copy_assign P as rhs w = Some (w', Inr ())" "mh_objects w' = as" "mh_valid P w'" "mset (dh_q (mh_q w')) = mset ns"
    "map (mh_map w') as = map (mh_map (rhs\<lparr>mh_q := (mh_q rhs)\<lparr>outside := mh_store w\<rparr>\<rparr>)) (mh_objects rhs)"
    "\<forall>x. x \<notin> set as \<longrightarrow> mh_store w' x = (mh_store w |` (- set (mh_objects w))) x"
proof -
  let ?s0 = "mh_store w |` (- set (mh_objects w))" and ?rhs = "rhs\<lparr>mh_q := (mh_q rhs)\<lparr>outside := mh_store w |` (- set (mh_objects w))\<rparr>\<rparr>"
  have "\<forall>a\<in>set (mh_objects rhs). ?s0 a = mh_store w a" using dj by (auto simp: restrict_map_def)
  note r = valid_store [OF rhs, simplified, OF this]
  have f: "\<forall>a\<in>set as. mh_store ?rhs a = None" using as(3) by (auto simp: restrict_map_def)
  obtain s where s: "list_copy as (mh_objects rhs) ?s0 = Some s" "map s as = map ?s0 (mh_objects rhs)"
    "\<forall>x. x \<notin> set as \<longrightarrow> s x = ?s0 x" "\<forall>a\<in>set as. s a \<noteq> None" 
    by (rule copied_objects [OF r(1) _ as(2) f]) (simp_all add: as(1))
  let ?h = "dh_clear ((mh_q rhs)\<lparr>outside := s\<rparr>)"
  have "heap_ordered ?h" "live_all ?h" "indexed ?h" "set as \<inter> key ` set (dh_q ?h) = {}"
    by (simp_all add: dh_clear_def heap_ordered_def live_all_def indexed_def)
  from push_all_valid [OF this(1-3) as(2) this(4)] obtain h' where h': "push_all P as ?h = Some (h', Inr ())" "heap_ordered h'" "live_all h'" "indexed h'"
    "mset (dh_q h') = mset ns" "same_store (set as) s (outside h')" "map key ns = as" using s(4) ns by (auto simp: dh_clear_def)
  let ?w = "\<lparr>mh_q = h', mh_objects = as\<rparr>"
  have "mset (map key (dh_q h')) = mset as" using h'(5,7) by (metis mset_map)
  then have "mh_valid P ?w" using h'(2-4) as(2) by (simp add: valid_iff)
  moreover have "map (mh_map ?w) as = map (map_option fst \<circ> s) as" using h'(6) by (simp add: mh_map_def same_store_def)
  moreover have "\<dots> = map (mh_map ?rhs) (mh_objects rhs)" using arg_cong [OF s(2), of "map (map_option fst)"] by (simp add: mh_map_def comp_def)
  moreover have "\<forall>x. x \<notin> set as \<longrightarrow> mh_store ?w x = ?s0 x" using h'(6) s(3) by (simp add: same_store_def)
  ultimately show thesis using h'(1,5) s(1) r(2) by (intro that [of ?w]) (simp_all add: mh_copy_assign_def)
qed

end

lemma make_nodes_plain: "make_nodes (super_t (mplain_params D lt)) as c = Some (as, c)"
  by (induction as arbitrary: c) (simp_all add: mplain_simps)

lemma make_nodes_stable:
  assumes "unat c + length as < 2 ^ LENGTH('w) - 1"
  shows "make_nodes (super_t (mstable_params D lt)) as (c :: 'w::len word)
    = Some (zip as (map (\<lambda>i. c + 1 + of_nat i) [0..<length as]), c + of_nat (length as))"
  using assms
proof (induction as arbitrary: c)
  case (Cons a as)
  have "unat (- 1 :: 'w word) = 2 ^ LENGTH('w) - 1" by (simp add: unsigned_minus_1_eq_mask mask_eq_exp_minus_1)
  then have "c < - 1" using Cons.prems by (simp add: word_less_nat_alt)
  note u = counter_Suc [OF this]
  have "c + 1 \<noteq> - 1" using u(2) Cons.prems by simp
  moreover have "make_nodes (super_t (mstable_params D lt)) as (c + 1)
    = Some (zip as (map (\<lambda>i. c + 1 + 1 + of_nat i) [0..<length as]), c + 1 + of_nat (length as))"
    using Cons.IH [of "c + 1"] Cons.prems u(1) by simp
  moreover have "[0..<length (a # as)] = 0 # map Suc [0..<length as]" by (simp add: upt_conv_Cons map_Suc_upt del: upt_Suc)
  ultimately show ?case by (simp add: mstable_simps(4) stable_make_node_def Let_def comp_def ac_simps del: upt_Suc)
qed simp

text \<open>The addresses for a copy: as many as there are nodes, and free, after the nodes of the target have been freed.\<close>

definition copy_addresses :: "nat list \<Rightarrow> ('v, 'n, 'c) mutable_heap \<Rightarrow> 'v node_store \<Rightarrow> bool" where
  "copy_addresses as rhs s \<longleftrightarrow> length as = length (mh_objects rhs) \<and> distinct as \<and> list_all (\<lambda>a. s a = None) as"

text \<open>The heap \<open>rhs\<close> with the store as another heap has left it.\<close>

definition with_store :: "('v, 'n, 'c) mutable_heap \<Rightarrow> 'v node_store \<Rightarrow> ('v, 'n, 'c) mutable_heap" where
  "with_store rhs s = rhs\<lparr>mh_q := (mh_q rhs)\<lparr>outside := s\<rparr>\<rparr>"

context mutable_laws
begin

lemma assign_both:
  assumes rhs: "mh_valid P (with_store rhs (mh_store w))" and dj: "set (mh_objects w) \<inter> set (mh_objects rhs) = {}"
    and as: "copy_addresses as rhs (mh_store w |` (- set (mh_objects w)))"
    and ns: "make_nodes (super_t P) as (dh_counter (mh_q rhs)) = Some (ns, c)"
  obtains w' where "mh_copy_assign P as rhs w = Some (w', Inr ())" "mh_objects w' = as" "mh_valid P w'" "mset (dh_q (mh_q w')) = mset ns"
    "map (mh_map w') as = map (mh_map (with_store rhs (mh_store w))) (mh_objects rhs)"
    "mh_valid P (with_store rhs (mh_store w'))" "mh_map (with_store rhs (mh_store w')) = mh_map (with_store rhs (mh_store w))"
proof -
  have a: "length as = length (mh_objects rhs)" "distinct as" "\<forall>a\<in>set as. mh_store w a = None \<or> a \<in> set (mh_objects w)"
    using as unfolding copy_addresses_def list_all_iff restrict_map_def by (simp_all) (metis option.exhaust surj_pair)
  obtain w' where w': "mh_copy_assign P as rhs w = Some (w', Inr ())" "mh_objects w' = as" "mh_valid P w'" "mset (dh_q (mh_q w')) = mset ns"
    "map (mh_map w') as = map (mh_map (with_store rhs (mh_store w))) (mh_objects rhs)"
    "\<forall>x. x \<notin> set as \<longrightarrow> mh_store w' x = (mh_store w |` (- set (mh_objects w))) x"
    using copy_assign_valid [OF rhs [unfolded with_store_def] dj a ns] unfolding with_store_def .
  have "mh_store w' x = mh_store w x" if x: "x \<in> set (mh_objects rhs)" for x
  proof -
    have "mh_store w x \<noteq> None" using rhs x by (auto simp: mh_valid_def with_store_def Let_def list_all_iff)
    then have "x \<notin> set as" "x \<notin> set (mh_objects w)" using a(3) dj x by auto
    then show ?thesis using w'(6) by simp
  qed
  then have "mh_valid P (with_store rhs (mh_store w'))" "mh_map (with_store rhs (mh_store w')) = mh_map (with_store rhs (mh_store w))"
    using valid_store [OF rhs, of "mh_store w'"] by (simp_all add: with_store_def)
  with w'(1-5) show thesis using that by blast
qed

lemma valid_length: "mh_valid P w \<Longrightarrow> length (mh_objects w) = mh_size w"
  using mset_eq_length [of "map key (dh_q (mh_q w))" "mh_objects w"] by (simp add: valid_iff mh_size_def dh_size_def)

lemma copy_doubles:
  assumes rhs: "mh_valid P rhs" and as: "copy_addresses as rhs (mh_store rhs)"
    and ns: "make_nodes (super_t P) as (dh_counter (mh_q rhs)) = Some (ns, c)"
  shows "\<exists>w. mh_copy P as rhs = Some (w, Inr ()) \<and> mh_size w = 2 * mh_size rhs \<and> length (mh_objects w) = mh_size rhs
    \<and> (mh_valid P w \<longleftrightarrow> mh_empty rhs)"
proof -
  have a: "length as = length (mh_objects rhs)" "distinct as" "\<forall>a\<in>set as. mh_store rhs a = None"
    using as by (auto simp: copy_addresses_def list_all_iff)
  obtain w where w: "mh_copy P as rhs = Some (w, Inr ())" "mh_objects w = as" "mset (dh_q (mh_q w)) = mset (dh_q (mh_q rhs)) + mset ns"
    "length ns = length as" "indexed (mh_q w)" using copy_valid [OF rhs a ns] .
  have n: "length as = mh_size rhs" using a(1) valid_length [OF rhs] by simp
  have sz: "mh_size w = 2 * mh_size rhs" using arg_cong [OF w(3), of size] w(4) n by (simp add: mh_size_def dh_size_def)
  have "mh_valid P w \<Longrightarrow> mh_size w = length as" using w(2) valid_length [of w] by simp
  moreover have "mh_valid P w" if "mh_size rhs = 0" using that sz n w(2) by (simp add: mh_valid_def mh_size_def dh_size_def d_ary_ordered_def)
  ultimately have "mh_valid P w \<longleftrightarrow> mh_empty rhs" using sz n by (auto simp: mh_size_def mh_empty_def dh_empty_def dh_size_def)
  then show ?thesis using w(1,2) sz n by blast
qed

end

context heap_order
begin

lemma mplain_assign:
  assumes "mh_valid (mplain_params D lt) (with_store rhs (mh_store w))" "set (mh_objects w) \<inter> set (mh_objects rhs) = {}"
    and "copy_addresses as rhs (mh_store w |` (- set (mh_objects w)))"
  shows "\<exists>w'. mh_copy_assign (mplain_params D lt) as rhs w = Some (w', Inr ()) \<and> mh_valid (mplain_params D lt) w'
    \<and> map (mh_map w') as = map (mh_map (with_store rhs (mh_store w))) (mh_objects rhs)
    \<and> mh_valid (mplain_params D lt) (with_store rhs (mh_store w')) \<and> mh_map (with_store rhs (mh_store w')) = mh_map (with_store rhs (mh_store w))"
  by (rule mplain.assign_both [OF assms make_nodes_plain]) blast

lemma mplain_copy:
  assumes "mh_valid (mplain_params D lt) rhs" "copy_addresses as rhs (mh_store rhs)"
  shows "\<exists>w. mh_copy (mplain_params D lt) as rhs = Some (w, Inr ()) \<and> mh_size w = 2 * mh_size rhs \<and> length (mh_objects w) = mh_size rhs
    \<and> (mh_valid (mplain_params D lt) w \<longleftrightarrow> mh_empty rhs)"
  by (rule mplain.copy_doubles [OF assms make_nodes_plain])

end

text \<open>The assignment of a mutable heap to another gives a heap in order whose list holds the same values in the same order, at the
  addresses that the new list got; the source of the assignment keeps its order and its values.\<close>

theorem mutable_heap_copy_assign:
  assumes "0 < D" "weak_order lt" "mh_valid (mplain_params D lt) (with_store rhs (mh_store w))"
    and "set (mh_objects w) \<inter> set (mh_objects rhs) = {}" "copy_addresses as rhs (mh_store w |` (- set (mh_objects w)))"
  shows "\<exists>w'. mh_copy_assign (mplain_params D lt) as rhs w = Some (w', Inr ()) \<and> mh_valid (mplain_params D lt) w'
    \<and> map (mh_map w') as = map (mh_map (with_store rhs (mh_store w))) (mh_objects rhs)
    \<and> mh_valid (mplain_params D lt) (with_store rhs (mh_store w')) \<and> mh_map (with_store rhs (mh_store w')) = mh_map (with_store rhs (mh_store w))"
  by (rule heap_order.mplain_assign [OF heap_orderI [OF assms(1,2)] assms(3-5)])

definition example_target :: "(nat, nat, unit) mutable_heap" where
  "example_target = \<lparr>mh_q = \<lparr>dh_q = [20], dh_counter = (), outside = (mh_store example_mutable)(20 \<mapsto> (1, 0))\<rparr>, mh_objects = [20]\<rparr>"

lemma mutable_heap_copy_assign_witness:
  "\<exists>w'. mh_copy_assign (mplain_params 2 (<)) [20, 21, 22, 23] example_mutable example_target = Some (w', Inr ())
    \<and> map (mh_map w') [20, 21, 22, 23] = [Some 4, Some 9, Some 5, Some 7]"
proof -
  have "mh_valid (mplain_params 2 (<)) (with_store example_mutable (mh_store example_target))"
    "copy_addresses [20, 21, 22, 23] example_mutable (mh_store example_target |` (- set (mh_objects example_target)))"
    "map (mh_map (with_store example_mutable (mh_store example_target))) (mh_objects example_mutable) = [Some 4, Some 9, Some 5, Some 7]"
    by code_simp+
  moreover have "set (mh_objects example_target) \<inter> set (mh_objects example_mutable) = {}" by code_simp
  ultimately show ?thesis
    using mutable_heap_copy_assign [of 2 "(<)" example_mutable example_target "[20, 21, 22, 23]"] weak_order_less by auto
qed

text \<open>C36 The copy constructor copies the vector of iterators of the source and then pushes the iterators of the new list onto it: the copy of a heap
  with \<open>n\<close> elements has size \<open>2 * n\<close> but a list of \<open>n\<close> nodes, and is in order only when the source is empty.\<close>

theorem mutable_heap_copy_constructor:
  assumes "0 < D" "weak_order lt" "mh_valid (mplain_params D lt) rhs" "copy_addresses as rhs (mh_store rhs)"
  shows "\<exists>w. mh_copy (mplain_params D lt) as rhs = Some (w, Inr ()) \<and> mh_size w = 2 * mh_size rhs \<and> length (mh_objects w) = mh_size rhs
    \<and> (mh_valid (mplain_params D lt) w \<longleftrightarrow> mh_empty rhs)"
  by (rule heap_order.mplain_copy [OF heap_orderI [OF assms(1,2)] assms(3,4)])

lemma mutable_heap_copy_constructor_witness:
  "\<exists>w. mh_copy (mplain_params 2 (<)) [20, 21, 22, 23] example_mutable = Some (w, Inr ()) \<and> mh_size w = 8 \<and> length (mh_objects w) = 4"
proof -
  have "copy_addresses [20, 21, 22, 23] example_mutable (mh_store example_mutable)" "mh_size example_mutable = 4" by code_simp+
  then show ?thesis using mutable_heap_copy_constructor [of 2 "(<)" example_mutable "[20, 21, 22, 23]"] weak_order_less example_mutable_valid by auto
qed

end
