(* ===== verification/Mutable_Order.thy ===== *)
theory Mutable_Order
  imports Mutable_Queue
begin

text \<open>
  The order in which the elements of a mutable heap leave it, and what the assignment of a stable heap does to that order.
\<close>

subsection \<open>Filling and emptying\<close>

text \<open>A client that pushes a list of values, each at the address its node gets, and one that takes \<open>n\<close> elements off the top.\<close>

fun mh_pushes :: "('v node_store, nat, 'n, 'c) heap_params \<Rightarrow> (nat \<times> 'v) list \<Rightarrow> ('v, 'n, 'c) mutable_heap \<Rightarrow> ('v, 'n, 'c) mutable_heap option" where
  "mh_pushes P [] w = Some w"
| "mh_pushes P ((a, v) # ps) w = do {
     (w1, r) \<leftarrow> mh_push P a v w;
     (case r of Inl e \<Rightarrow> None | Inr b \<Rightarrow> mh_pushes P ps w1) }"

fun mh_drain :: "('v node_store, nat, 'n, 'c) heap_params \<Rightarrow> nat \<Rightarrow> ('v, 'n, 'c) mutable_heap \<Rightarrow> 'v list option" where
  "mh_drain P 0 w = Some []"
| "mh_drain P (Suc n) w = do {
     v \<leftarrow> mh_top P w;
     w1 \<leftarrow> mh_pop P w;
     vs \<leftarrow> mh_drain P n w1;
     Some (v # vs) }"

context mutable_laws
begin

lemma pushes_valid:
  assumes "mh_valid P w" "distinct (map fst ps)" "\<forall>a\<in>fst ` set ps. mh_store w a = None"
    and "make_nodes (super_t P) (map fst ps) (dh_counter (mh_q w)) = Some (ns, c)"
  shows "\<exists>w'. mh_pushes P ps w = Some w' \<and> mh_valid P w' \<and> mset (dh_q (mh_q w')) = mset (dh_q (mh_q w)) + mset ns
    \<and> dh_counter (mh_q w') = c \<and> mh_objects w' = rev (map fst ps) @ mh_objects w \<and> mh_map w' = mh_map w ++ map_of ps"
  using assms
proof (induction ps arbitrary: w ns)
  case (Cons p ps)
  obtain a v where p: "p = (a, v)" by (cases p)
  obtain c1 n ns' where n: "make_node (super_t P) a (dh_counter (mh_q w)) = (c1, Inr n)" "make_nodes (super_t P) (map fst ps) c1 = Some (ns', c)" "ns = n # ns'"
    using Cons.prems(4) by (auto simp: p split: prod.splits sum.splits)
  have "mh_store w a = None" using Cons.prems(3) by (simp add: p)
  from push_nodes [where v = v, OF Cons.prems(1) this n(1)] obtain w1 where w1: "mh_push P a v w = Some (w1, Inr a)" "mh_valid P w1" "mh_map w1 = (mh_map w)(a \<mapsto> v)"
    "mset (dh_q (mh_q w1)) = add_mset n (mset (dh_q (mh_q w)))" "dh_counter (mh_q w1) = c1" "mh_objects w1 = a # mh_objects w"
    "\<forall>b. b \<noteq> a \<longrightarrow> (mh_store w1 b = None \<longleftrightarrow> mh_store w b = None)" by blast
  have "\<forall>b\<in>fst ` set ps. mh_store w1 b = None" using Cons.prems(2,3) w1(7) by (auto simp: p) (metis fst_conv image_eqI)
  from Cons.IH [OF w1(2) _ this] obtain w' where w': "mh_pushes P ps w1 = Some w'" "mh_valid P w'" "mset (dh_q (mh_q w')) = mset (dh_q (mh_q w1)) + mset ns'"
    "dh_counter (mh_q w') = c" "mh_objects w' = rev (map fst ps) @ mh_objects w1" "mh_map w' = mh_map w1 ++ map_of ps"
    using Cons.prems(2) n(2) w1(5) by auto
  have "map_of ps a = None" using Cons.prems(2) by (simp add: p map_of_eq_None_iff)
  then have m: "mh_map w' = mh_map w ++ map_of (p # ps)" unfolding w'(6) by (auto simp: w1(3) p map_add_def fun_eq_iff split: option.splits)
  show ?case by (intro exI [of _ w'] conjI) (rule m | use w1 w'(1-5) n(3) in \<open>simp add: p\<close>)+
qed simp

lemma pop_node:
  assumes w: "mh_valid P w" "\<not> mh_empty w"
  obtains w' u where "mh_top P w = Some u" "mh_pop P w = Some w'" "mh_valid P w'" "mh_map w (key (dh_q (mh_q w) ! 0)) = Some u"
    "mh_map w' = (mh_map w)(key (dh_q (mh_q w) ! 0) := None)" "add_mset (dh_q (mh_q w) ! 0) (mset (dh_q (mh_q w'))) = mset (dh_q (mh_q w))"
proof -
  let ?h = "mh_q w" and ?a = "key (dh_q (mh_q w) ! 0)"
  obtain u where u: "dh_top P ?h = Some ?a" "mh_top P w = Some u" "mh_map w ?a = Some u" using top_valid [OF w] by metis
  have ne: "dh_q ?h \<noteq> []" using w(2) by (simp add: mh_empty_def dh_empty_def)
  have v: "live_all ?h" "indexed ?h" "hole_at ?h 0" "distinct (mh_objects w)" "mset (map key (dh_q ?h)) = mset (mh_objects w)"
    using w(1) ordered_hole [of ?h 0] ne by (simp_all add: valid_iff)
  obtain h' w' where r: "dh_pop P ?h = Some h'" "erase_object ?a (w\<lparr>mh_q := h'\<rparr>) = Some w'" "mh_valid P w'"
    "mh_map w' = (mh_map (w\<lparr>mh_q := ?h\<rparr>))(?a := None)" using pop_valid [OF v(1-3) ne v(4,5) refl] .
  have "add_mset (dh_q ?h ! 0) (mset (dh_q h')) = mset (dh_q ?h)" using pop_live [OF v(1,3) ne] r(1) by (metis option.inject)
  moreover have "dh_q (mh_q w') = dh_q h'" using r(2) by (auto simp: erase_object_def split: if_splits)
  ultimately show thesis using that [OF u(2) _ r(3) u(3)] u(1) r(1,2,4) by (simp add: mh_pop_def)
qed

text \<open>The elements leave in an order in which none is below a later one.\<close>

lemma drain_sorted:
  assumes "mh_valid P w" "mh_size w = n"
  shows "\<exists>ns. mset ns = mset (dh_q (mh_q w)) \<and> sorted_wrt (\<lambda>x y. \<not> lt (mh_store w) x y) ns
    \<and> mh_drain P n w = Some (map (\<lambda>x. the (mh_map w (key x))) ns)"
  using assms
proof (induction n arbitrary: w)
  case 0
  then show ?case by (intro exI [of _ "[]"]) (simp add: mh_size_def dh_size_def)
next
  case (Suc n)
  let ?q = "dh_q (mh_q w)" and ?x = "dh_q (mh_q w) ! 0"
  have ne: "\<not> mh_empty w" using Suc.prems(2) by (auto simp: mh_size_def mh_empty_def dh_size_def dh_empty_def)
  obtain w' u where w': "mh_top P w = Some u" "mh_pop P w = Some w'" "mh_valid P w'" "mh_map w (key ?x) = Some u"
    "mh_map w' = (mh_map w)(key ?x := None)" "add_mset ?x (mset (dh_q (mh_q w'))) = mset ?q" using pop_node [OF Suc.prems(1) ne] .
  have "mh_size w' = n" using Suc.prems(2) arg_cong [OF w'(6), of size] by (simp add: mh_size_def dh_size_def)
  from Suc.IH [OF w'(3) this] obtain ns where ns: "mset ns = mset (dh_q (mh_q w'))" "sorted_wrt (\<lambda>x y. \<not> lt (mh_store w') x y) ns"
    "mh_drain P n w' = Some (map (\<lambda>x. the (mh_map w' (key x))) ns)" by blast
  have q: "set ?q = insert ?x (set ns)" using arg_cong [OF w'(6), of set_mset] mset_eq_setD [OF ns(1)] by simp
  have ob: "distinct (map key (?x # ns))" "key ` set ns = set (mh_objects w')"
  proof -
    have "mset (map key (?x # ns)) = mset (mh_objects w)" using Suc.prems(1) w'(6) ns(1) by (simp add: valid_iff flip: image_mset_add_mset)
    then show "distinct (map key (?x # ns))" using Suc.prems(1) mset_eq_imp_distinct_iff by (metis valid_iff)
    have "mset (map key (dh_q (mh_q w'))) = mset (mh_objects w')" using w'(3) by (simp add: valid_iff)
    then show "key ` set ns = set (mh_objects w')" using mset_eq_setD [of "map key (dh_q (mh_q w'))" "mh_objects w'"] mset_eq_setD [OF ns(1)] by simp
  qed
  have st: "map_option fst (mh_store w' (key y)) = map_option fst (mh_store w (key y))" "mh_map w' (key y) = mh_map w (key y)" if "y \<in> set ns" for y
  proof -
    have k: "key y \<in> set (mh_objects w')" "key ?x \<notin> set (mh_objects w')" using ob that by auto
    then have "key y \<noteq> key ?x" by metis
    then show m: "mh_map w' (key y) = mh_map w (key y)" using w'(5) by simp
    have "mh_map w' (key y) \<noteq> None" using k(1) w'(3) valid_object by (metis option.distinct(1))
    then have "key y \<in> set (mh_objects w)" using m by (auto simp: mh_map_def split: if_splits)
    then show "map_option fst (mh_store w' (key y)) = map_option fst (mh_store w (key y))" using m k(1) by (simp add: mh_map_def)
  qed
  have "sorted_wrt (\<lambda>x y. \<not> lt (mh_store w) x y) ns"
    using ns(2) by (rule sorted_wrt_mono_rel [rotated]) (use lt_local st(1) in blast)
  moreover have "\<not> lt (mh_store w) ?x y" if "y \<in> set ns" for y
    using ordered_top [of "mh_q w"] Suc.prems(1) that q by (metis in_set_conv_nth insertCI valid_iff)
  moreover have "mh_drain P (Suc n) w = Some (map (\<lambda>x. the (mh_map w (key x))) (?x # ns))" using w'(1,2,4) ns(3) st(2) by simp
  ultimately show ?case using w'(6) ns(1) by (intro exI [of _ "?x # ns"]) simp
qed

end

subsection \<open>Equivalent elements\<close>

text \<open>Nodes with the numbers that follow \<open>c\<close>, in that order.\<close>

definition numbered :: "'w::len word \<Rightarrow> nat list \<Rightarrow> (nat \<times> 'w word) list" where
  "numbered c as = zip as (map (\<lambda>i. c + 1 + of_nat i) [0..<length as])"

lemma numbered_sorted:
  assumes "unat c + length as < 2 ^ LENGTH('w) - 1"
  shows "sorted (map snd (numbered c as))" "distinct (map snd (numbered (c :: 'w::len word) as))" "map fst (numbered c as) = as"
proof -
  have n: "map snd (numbered c as) = map (\<lambda>i. c + 1 + of_nat i) [0..<length as]" by (simp add: numbered_def)
  have u: "unat (c + 1 + of_nat i) = unat c + 1 + i" if "i < length as" for i
  proof -
    have "unat c + (1 + i) < 2 ^ LENGTH('w)" using assms that by linarith
    then have "unat (c + of_nat (1 + i)) = unat c + (1 + i)" by (simp only: unat_word_ariths(1) unat_of_nat mod_simps) simp
    then show ?thesis by (simp add: add.assoc)
  qed
  then have "sorted_wrt (<) (map snd (numbered c as))"
    unfolding n sorted_wrt_map by (intro sorted_wrt_mono_rel [OF _ sorted_wrt_upt]) (simp add: word_less_nat_alt)
  then show "sorted (map snd (numbered c as))" "distinct (map snd (numbered c as))" by (simp_all add: strict_sorted_iff)
  show "map fst (numbered c as) = as" by (simp add: numbered_def)
qed

lemma sorted_nodes_unique:
  assumes "mset ns = mset ms" "sorted (map snd ns)" "sorted (map snd ms)" "distinct (map snd ms)"
  shows "ns = ms"
proof (rule map_sorted_distinct_set_unique [of snd])
  show "distinct (map snd ns)" using assms(4) mset_eq_imp_distinct_iff [of "map snd ns" "map snd ms"] assms(1) by simp
  show "inj_on snd (set ns \<union> set ms)" using assms(4) mset_eq_setD [OF assms(1)] by (simp add: distinct_map)
qed (simp_all add: assms(2-4) mset_eq_setD [OF assms(1)])

context heap_order
begin

text \<open>Elements of which none is below another leave in the order of their numbers.\<close>

lemma mstable_drain:
  assumes w: "mh_valid (mstable_params D lt) w" and q: "mset (dh_q (mh_q w)) = mset (numbered (c :: 'w::len word) as)"
    and c: "unat c + length as < 2 ^ LENGTH('w) - 1"
    and eqv: "\<And>u v. u \<in> ran (mh_map w) \<Longrightarrow> v \<in> ran (mh_map w) \<Longrightarrow> \<not> lt u v"
  shows "mh_drain (mstable_params D lt) (length as) w = Some (map (\<lambda>a. the (mh_map w a)) as)"
proof -
  note num = numbered_sorted [OF c]
  have "mh_size w = length as" using arg_cong [OF q, of size] arg_cong [OF num(3), of length] by (simp add: mh_size_def dh_size_def)
  from mstable.drain_sorted [OF w this] obtain ns where ns: "mset ns = mset (dh_q (mh_q w))" "sorted_wrt (\<lambda>x y. \<not> stable_mutable_less lt (mh_store w) x y) ns"
    "mh_drain (mstable_params D lt) (length as) w = Some (map (\<lambda>x. the (mh_map w (fst x))) ns)" by (auto simp: mstable_simps)
  have val: "node_value (mh_store w) (fst x) \<in> ran (mh_map w)" if "x \<in> set ns" for x
  proof -
    have "fst x \<in> set (mh_objects w)" using w ns(1) that mset_eq_setD [of "map fst ns" "mh_objects w"] by (auto simp: mh_valid_def mstable_simps Let_def)
    then obtain u i where "mh_store w (fst x) = Some (u, i)" "mh_map w (fst x) = Some u" by (rule mstable.valid_object [OF w])
    then show ?thesis by (auto simp: ran_def)
  qed
  have "snd x \<le> snd y" if "x \<in> set ns" "y \<in> set ns" "\<not> stable_mutable_less lt (mh_store w) x y" for x y
    using that eqv [OF val val] by (auto simp: stable_mutable_less_def stable_less_def not_less)
  then have "sorted_wrt (\<lambda>x y. snd x \<le> snd y) ns" by (intro sorted_wrt_mono_rel [OF _ ns(2)])
  then have "sorted (map snd ns)" by (simp add: sorted_map)
  then have "ns = numbered c as" using ns(1) q by (intro sorted_nodes_unique num) simp_all
  then have "map fst ns = as" using num(3) by simp
  then show ?thesis using ns(3) by auto
qed

end

subsection \<open>Properties\<close>

definition mh_start :: "'c \<Rightarrow> 'v node_store \<Rightarrow> ('v, 'n, 'c) mutable_heap" where
  "mh_start c s = \<lparr>mh_q = \<lparr>dh_q = [], dh_counter = c, outside = s\<rparr>, mh_objects = []\<rparr>"

lemma start_valid: "mh_valid P (mh_start c s)"
  by (simp add: mh_valid_def mh_start_def d_ary_ordered_def)

context heap_order
begin

lemma mstable_assign_order:
  fixes c :: "'w::len word"
  assumes ps: "distinct (map fst ps)" "\<forall>a\<in>fst ` set ps. s a = None" "\<forall>u\<in>snd ` set ps. \<forall>v\<in>snd ` set ps. \<not> lt u v"
    and c: "unat c + 2 * length ps < 2 ^ LENGTH('w) - 1"
  obtains rhs where "mh_pushes (mstable_params D lt) ps (mh_start c s) = Some rhs" "mh_drain (mstable_params D lt) (length ps) rhs = Some (map snd ps)"
    "\<And>w as. mh_store w = mh_store rhs \<Longrightarrow> mh_objects w = [] \<Longrightarrow> copy_addresses as rhs (mh_store w) \<Longrightarrow>
       \<exists>w'. mh_copy_assign (mstable_params D lt) as rhs w = Some (w', Inr ()) \<and> mh_drain (mstable_params D lt) (length ps) w' = Some (rev (map snd ps))"
proof -
  let ?P = "mstable_params D lt :: ('v node_store, nat, nat \<times> 'w word, 'w word) heap_params"
  have c1: "unat c + length (map fst ps) < 2 ^ LENGTH('w) - 1" using c by simp
  note nodes = make_nodes_stable [OF c1, where D = D and lt = lt, folded numbered_def]
  have free: "\<forall>a\<in>fst ` set ps. mh_store (mh_start c s :: ('v, nat \<times> 'w word, 'w word) mutable_heap) a = None" using ps(2) by (simp add: mh_start_def)
  obtain rhs where r: "mh_pushes ?P ps (mh_start c s) = Some rhs" "mh_valid ?P rhs" "mset (dh_q (mh_q rhs)) = mset (numbered c (map fst ps))"
    "dh_counter (mh_q rhs) = c + of_nat (length (map fst ps))" "mh_objects rhs = rev (map fst ps)" "mh_map rhs = map_of ps"
    using mstable.pushes_valid [OF start_valid ps(1) free] nodes by (auto simp: mh_start_def mh_map_def)
  have vals: "map (\<lambda>a. the (map_of ps a)) (map fst ps) = map snd ps" using ps(1) by (simp add: map_of_eq_Some_iff cong: map_cong) (auto simp: map_of_is_SomeI)
  have eqv: "\<not> lt u v" if "u \<in> ran (map_of ps)" "v \<in> ran (map_of ps)" for u v using ps(3) that unfolding ran_distinct [OF ps(1)] by blast
  have "mh_drain ?P (length ps) rhs = Some (map snd ps)"
    using mstable_drain [OF r(2,3) c1] eqv vals r(6) by simp
  moreover have "\<exists>w'. mh_copy_assign ?P as rhs w = Some (w', Inr ()) \<and> mh_drain ?P (length ps) w' = Some (rev (map snd ps))"
    if w: "mh_store w = mh_store rhs" "mh_objects w = []" "copy_addresses as rhs (mh_store w)" for w as
  proof -
    have len: "length as = length ps" using w(3) r(5) by (simp add: copy_addresses_def)
    have "with_store rhs (mh_store w) = rhs" using w(1) by (simp add: with_store_def)
    then have v: "mh_valid ?P (with_store rhs (mh_store w))" "mh_map (with_store rhs (mh_store w)) = map_of ps" using r(2,6) by simp_all
    have "unat (dh_counter (mh_q rhs)) = unat c + length ps" using r(4) c by (simp add: unat_word_ariths(1) unat_of_nat mod_simps)
    then have c2: "unat (dh_counter (mh_q rhs)) + length as < 2 ^ LENGTH('w) - 1" using c len by simp
    have as: "copy_addresses as rhs (mh_store w |` (- set (mh_objects w)))" using w by (simp add: restrict_map_def)
    from mstable.assign_both [OF v(1) _ as make_nodes_stable [OF c2]] obtain w' where w': "mh_copy_assign ?P as rhs w = Some (w', Inr ())" "mh_objects w' = as" "mh_valid ?P w'"
      "mset (dh_q (mh_q w')) = mset (numbered (dh_counter (mh_q rhs)) as)" "map (mh_map w') as = map (map_of ps) (rev (map fst ps))"
      unfolding numbered_def v(2) r(5) using w(2) by auto
    have "mh_drain ?P (length as) w' = Some (map (\<lambda>a. the (mh_map w' a)) as)"
    proof (rule mstable_drain [OF w'(3,4) c2])
      have "ran (mh_map w') \<subseteq> ran (map_of ps)"
      proof
        fix u
        assume "u \<in> ran (mh_map w')"
        then obtain a where "a \<in> set as" "mh_map w' a = Some u" using w'(2) by (auto simp: ran_def mh_map_def split: if_splits)
        then have "Some u \<in> set (map (map_of ps) (rev (map fst ps)))" unfolding w'(5) [symmetric] by force
        then show "u \<in> ran (map_of ps)" by (auto simp: ran_def dest: sym)
      qed
      then show "\<not> lt u v" if "u \<in> ran (mh_map w')" "v \<in> ran (mh_map w')" for u v using eqv that by blast
    qed
    moreover have "map (\<lambda>a. the (mh_map w' a)) as = rev (map (\<lambda>a. the (map_of ps a)) (map fst ps))"
      using arg_cong [OF w'(5), of "map the"] by (simp add: comp_def rev_map)
    ultimately show ?thesis using w'(1) len vals by simp
  qed
  ultimately show thesis using that r(1) by blast
qed

end

text \<open>C37 The assignment of a stable mutable heap reverses the order of equivalent elements. When values of which none has priority over another are pushed onto an empty heap
  they leave it in the order of insertion; after the heap has been assigned to an empty one, which numbers the elements anew in the order of the list, of which every \<^verbatim>\<open>push\<close> extends the
  front, they leave that one in the reverse order.\<close>

theorem stable_assignment_reverses:
  fixes c :: "'w::len word"
  assumes "0 < D" "weak_order lt" "distinct (map fst ps)" "\<forall>a\<in>fst ` set ps. s a = None" "\<forall>u\<in>snd ` set ps. \<forall>v\<in>snd ` set ps. \<not> lt u v"
    and "unat c + 2 * length ps < 2 ^ LENGTH('w) - 1"
  shows "\<exists>rhs. mh_pushes (mstable_params D lt) ps (mh_start c s) = Some rhs \<and> mh_drain (mstable_params D lt) (length ps) rhs = Some (map snd ps)
    \<and> (\<forall>w as. mh_store w = mh_store rhs \<and> mh_objects w = [] \<and> copy_addresses as rhs (mh_store w) \<longrightarrow>
        (\<exists>w'. mh_copy_assign (mstable_params D lt) as rhs w = Some (w', Inr ()) \<and> mh_drain (mstable_params D lt) (length ps) w' = Some (rev (map snd ps))))"
  by (rule heap_order.mstable_assign_order [OF heap_orderI [OF assms(1,2)] assms(3-6)]) blast

lemma stable_assignment_reverses_witness:
  "\<exists>rhs w'. mh_pushes (mstable_params 2 by_key) [(10, (5, 1)), (11, (5, 2))] (mh_start (0 :: 8 word) Map.empty) = Some rhs
    \<and> mh_drain (mstable_params 2 by_key) 2 rhs = Some [(5, 1), (5, 2)]
    \<and> mh_copy_assign (mstable_params 2 by_key) [20, 21] rhs (mh_start 0 (mh_store rhs)) = Some (w', Inr ())
    \<and> mh_drain (mstable_params 2 by_key) 2 w' = Some [(5, 2), (5, 1)]"
proof -
  let ?ps = "[(10, (5, 1)), (11, (5, 2))] :: (nat \<times> nat \<times> nat) list" and ?P = "mstable_params 2 by_key"
  have v: "weak_order by_key" by (auto simp: weak_order_def by_key_def)
  have h: "distinct (map fst ?ps)" "\<forall>a\<in>fst ` set ?ps. Map.empty a = (None :: ((nat \<times> nat) \<times> nat) option)"
    "\<forall>u\<in>snd ` set ?ps. \<forall>v\<in>snd ` set ?ps. \<not> by_key u v" "unat (0 :: 8 word) + 2 * length ?ps < 2 ^ LENGTH(8) - 1"
    by (simp_all add: by_key_def)
  obtain rhs where r: "mh_pushes ?P ?ps (mh_start (0 :: 8 word) Map.empty) = Some rhs" "mh_drain ?P (length ?ps) rhs = Some (map snd ?ps)"
    "\<forall>w as. mh_store w = mh_store rhs \<and> mh_objects w = [] \<and> copy_addresses as rhs (mh_store w) \<longrightarrow>
        (\<exists>w'. mh_copy_assign ?P as rhs w = Some (w', Inr ()) \<and> mh_drain ?P (length ?ps) w' = Some (rev (map snd ?ps)))"
    using stable_assignment_reverses [OF _ v h, of 2] by auto
  have "map_option (\<lambda>rhs. copy_addresses [20, 21] rhs (mh_store rhs)) (mh_pushes ?P ?ps (mh_start (0 :: 8 word) Map.empty)) = Some True" by code_simp
  then have "copy_addresses [20, 21] rhs (mh_store rhs)" using r(1) by simp
  moreover have m: "length ?ps = 2" "map snd ?ps = [(5, 1), (5, 2)]" "rev (map snd ?ps) = [(5, 2), (5, 1)]" by simp_all
  moreover have "mh_store (mh_start 0 (mh_store rhs)) = mh_store rhs" "mh_objects (mh_start 0 (mh_store rhs)) = []" by (simp_all add: mh_start_def)
  ultimately show ?thesis using r(1) r(2,3) [unfolded m] by metis
qed

end
