(* ===== verification/Gregorian_Calendar.thy ===== *)
theory Gregorian_Calendar
  imports Boost_Prelude
begin

text \<open>
  The Gregorian calendar of \<^verbatim>\<open>date_time\<close> (\<^verbatim>\<open>gregorian_calendar.ipp\<close>, \<^verbatim>\<open>year_month_day.hpp\<close>, \<^verbatim>\<open>constrained_value.hpp\<close> and the
  constrained types under \<^verbatim>\<open>gregorian/\<close>). Integers are mathematical integers; the conversions to the unsigned types of
  16, 32 and 64 bits, which the source writes as casts or assignments, are \<open>u16\<close>, \<open>u32\<close> and \<open>u64\<close>.
\<close>

subsection \<open>Constrained values\<close>

definition u16 :: "int \<Rightarrow> int" where "u16 x = x mod 2 ^ 16"
definition u32 :: "int \<Rightarrow> int" where "u32 x = x mod 2 ^ 32"
definition u64 :: "int \<Rightarrow> int" where "u64 x = x mod 2 ^ 64"

lemma unsigned_id:
  "0 \<le> x \<Longrightarrow> x < 65536 \<Longrightarrow> u16 x = x" "0 \<le> x \<Longrightarrow> x < 4294967296 \<Longrightarrow> u32 x = x" "0 \<le> x \<Longrightarrow> x < 18446744073709551616 \<Longrightarrow> u64 x = x"
  by (simp_all add: u16_def u32_def u64_def)

datatype date_error = Bad_year | Bad_month | Bad_day_of_month | Bad_weekday | Bad_day_of_year | Invalid_argument | Undefined

definition sum_bind :: "'e + 'a \<Rightarrow> ('a \<Rightarrow> 'e + 'b) \<Rightarrow> 'e + 'b" where
  "sum_bind r f = (case r of Inl e \<Rightarrow> Inl e | Inr x \<Rightarrow> f x)"

lemma sum_bind_simps [simp]: "sum_bind (Inr x) f = f x" "sum_bind (Inl e) f = Inl e"
  by (simp_all add: sum_bind_def)

text \<open>\<^verbatim>\<open>constrained_value\<close> with the policy that throws.\<close>

definition constrained_value :: "int \<Rightarrow> int \<Rightarrow> date_error \<Rightarrow> int \<Rightarrow> date_error + int" where
  "constrained_value mn mx e v = (if v + 1 < mn + 1 then Inl e else if v > mx then Inl e else Inr v)"

definition greg_year :: "int \<Rightarrow> date_error + int" where
  "greg_year v = constrained_value 1400 10000 Bad_year (u16 v)"

definition greg_month :: "int \<Rightarrow> date_error + int" where
  "greg_month v = constrained_value 1 12 Bad_month (u16 v)"

definition greg_day :: "int \<Rightarrow> date_error + int" where
  "greg_day v = constrained_value 1 31 Bad_day_of_month (u16 v)"

definition greg_weekday :: "int \<Rightarrow> date_error + int" where
  "greg_weekday v = constrained_value 0 6 Bad_weekday (u16 v)"

definition greg_day_of_year :: "int \<Rightarrow> date_error + int" where
  "greg_day_of_year v = constrained_value 1 366 Bad_day_of_year (u16 v)"

record ymd =
  ymd_year :: int
  ymd_month :: int
  ymd_day :: int

definition make_ymd :: "int \<Rightarrow> int \<Rightarrow> int \<Rightarrow> date_error + ymd" where
  "make_ymd y m d =
     sum_bind (greg_year y) (\<lambda>y. sum_bind (greg_month m) (\<lambda>m. sum_bind (greg_day d) (\<lambda>d.
       Inr \<lparr>ymd_year = y, ymd_month = m, ymd_day = d\<rparr>)))"

subsection \<open>The calendar\<close>

definition is_leap_year :: "int \<Rightarrow> bool" where
  "is_leap_year year \<longleftrightarrow> year mod 4 = 0 \<and> (year mod 100 \<noteq> 0 \<or> year mod 400 = 0)"

definition end_of_month_day :: "int \<Rightarrow> int \<Rightarrow> int" where
  "end_of_month_day year month =
     (if month = 2 then (if is_leap_year year then 29 else 28)
      else if month = 4 \<or> month = 6 \<or> month = 9 \<or> month = 11 then 30
      else 31)"

definition cal_day_of_week :: "ymd \<Rightarrow> int" where
  "cal_day_of_week ymd =
     (let a = u16 ((14 - ymd_month ymd) div 12);
          y = u16 (ymd_year ymd - a);
          m = u16 (ymd_month ymd + 12 * a - 2)
      in u16 ((ymd_day ymd + y + y div 4 - y div 100 + y div 400 + (31 * m) div 12) mod 7))"

definition day_number :: "ymd \<Rightarrow> int" where
  "day_number ymd =
     (let a = u16 ((14 - ymd_month ymd) div 12);
          y = u16 (ymd_year ymd + 4800 - a);
          m = u16 (ymd_month ymd + 12 * a - 3);
          d = u64 (ymd_day ymd + (153 * m + 2) div 5 + 365 * y + y div 4 - y div 100 + y div 400 - 32045)
      in u32 d)"

definition julian_day_number :: "ymd \<Rightarrow> int" where
  "julian_day_number ymd = day_number ymd"

definition modjulian_day_number :: "ymd \<Rightarrow> int" where
  "modjulian_day_number ymd = u32 (julian_day_number ymd - 2400001)"

definition from_day_number :: "int \<Rightarrow> date_error + ymd" where
  "from_day_number dayNumber =
     (let a = u32 (dayNumber + 32044);
          b = u32 (4 * a + 3) div 146097;
          c = u32 (a - u32 (146097 * b) div 4);
          d = u32 (4 * c + 3) div 1461;
          e = u32 (c - u32 (1461 * d) div 4);
          m = u32 (5 * e + 2) div 153;
          day = u16 (u32 (e - u32 (153 * m + 2) div 5 + 1));
          month = u16 (u32 (m + 3 - 12 * (m div 10)));
          year = u16 (u32 (100 * b + d - 4800 + m div 10))
      in make_ymd year month day)"

definition from_julian_day_number :: "int \<Rightarrow> date_error + ymd" where
  "from_julian_day_number dayNumber =
     (let a = u32 (dayNumber + 32044);
          b = u32 (4 * a + 3) div 146097;
          c = u32 (a - u32 (146097 * b) div 4);
          d = u32 (4 * c + 3) div 1461;
          e = u32 (c - u32 (1461 * d) div 4);
          m = u32 (5 * e + 2) div 153;
          day = u16 (u32 (e - u32 (153 * m + 2) div 5 + 1));
          month = u16 (u32 (m + 3 - 12 * (m div 10)));
          year = u16 (u32 (100 * b + d - 4800 + m div 10))
      in make_ymd year month day)"

definition from_modjulian_day_number :: "int \<Rightarrow> date_error + ymd" where
  "from_modjulian_day_number dayNumber = (let jd = u32 (dayNumber + 2400001) in from_julian_day_number jd)"

definition cal_week_number :: "ymd \<Rightarrow> date_error + int" where
  "cal_week_number ymd =
     sum_bind (make_ymd (ymd_year ymd) 1 1) (\<lambda>start.
      let julianbegin = julian_day_number start;
          juliantoday = julian_day_number ymd;
          day = u64 (julianbegin + 3) mod 7;
          week = u64 (juliantoday + day - julianbegin + 4) div 7
      in if week \<ge> 1 \<and> week \<le> 52 then Inr week
         else if week = 53 then
           (if day = 6 \<or> day = 5 \<and> is_leap_year (ymd_year ymd) then Inr week else Inr 1)
         else if week = 0 then
           sum_bind (make_ymd (u16 (ymd_year ymd - 1)) 1 1) (\<lambda>start.
            let julianbegin = julian_day_number start;
                juliantoday = julian_day_number ymd;
                day = u64 (julianbegin + 3) mod 7;
                week = u64 (juliantoday + day - julianbegin + 4) div 7
            in Inr week)
         else Inr week)"

definition cal_epoch :: "date_error + ymd" where
  "cal_epoch = make_ymd 1400 1 1"

definition days_in_week :: int where
  "days_in_week = 7"

subsection \<open>Dates that exist\<close>

definition ymd_valid :: "ymd \<Rightarrow> bool" where
  "ymd_valid t \<longleftrightarrow> 1400 \<le> ymd_year t \<and> ymd_year t \<le> 10000 \<and> 1 \<le> ymd_month t \<and> ymd_month t \<le> 12
     \<and> 1 \<le> ymd_day t \<and> ymd_day t \<le> end_of_month_day (ymd_year t) (ymd_month t)"

lemma make_ymd_ok:
  "1400 \<le> y \<Longrightarrow> y \<le> 10000 \<Longrightarrow> 1 \<le> m \<Longrightarrow> m \<le> 12 \<Longrightarrow> 1 \<le> d \<Longrightarrow> d \<le> 31 \<Longrightarrow>
   make_ymd y m d = Inr \<lparr>ymd_year = y, ymd_month = m, ymd_day = d\<rparr>"
  by (simp add: make_ymd_def greg_year_def greg_month_def greg_day_def constrained_value_def unsigned_id)

lemma end_of_month_le: "28 \<le> end_of_month_day y m" "end_of_month_day y m \<le> 31"
  by (simp_all add: end_of_month_day_def)

lemma month_cases:
  assumes "1 \<le> m" "m \<le> (12::int)"
  obtains "m = 1" | "m = 2" | "m = 3" | "m = 4" | "m = 5" | "m = 6" | "m = 7" | "m = 8" | "m = 9" | "m = 10" | "m = 11" | "m = 12"
proof -
  have "m = 1 \<or> m = 2 \<or> m = 3 \<or> m = 4 \<or> m = 5 \<or> m = 6 \<or> m = 7 \<or> m = 8 \<or> m = 9 \<or> m = 10 \<or> m = 11 \<or> m = 12"
    using assms by presburger
  then show thesis using that by blast
qed

lemma div_bounds: "k * q \<le> x \<Longrightarrow> x < k * q + k \<Longrightarrow> x div k = q" for x k q :: int
  by (rule int_div_pos_eq [of x k q "x - k * q"]) auto

lemma div_range: "0 < k \<Longrightarrow> k * (x div k) \<le> x \<and> x < k * (x div k) + k" for x k :: int
  using mult_div_mod_eq [of k x] pos_mod_bound [of k x] pos_mod_sign [of k x] by linarith

lemma div4: "4 * (x div 4) \<le> x" "x < 4 * (x div 4) + 4" for x :: int
  using div_range [of 4 x] by simp_all

text \<open>The calendar year starts in March: the year and the month counted from there, and the days before the month.\<close>

definition march_year :: "ymd \<Rightarrow> int" where
  "march_year t = (if ymd_month t \<le> 2 then ymd_year t + 4799 else ymd_year t + 4800)"

definition march_month :: "ymd \<Rightarrow> int" where
  "march_month t = (if ymd_month t \<le> 2 then ymd_month t + 9 else ymd_month t - 3)"

definition march_day :: "ymd \<Rightarrow> int" where
  "march_day t = (153 * march_month t + 2) div 5 + ymd_day t - 1"

definition year_days :: "int \<Rightarrow> int" where
  "year_days y = 365 * y + y div 4 - y div 100 + y div 400"

lemma march_a: "1 \<le> m \<Longrightarrow> m \<le> 12 \<Longrightarrow> u16 ((14 - m) div 12) = (if m \<le> 2 then 1 else 0)"
  by (rule month_cases [of m]) (simp_all add: unsigned_id)

lemma month_days: "ymd_day t \<le> end_of_month_day (ymd_year t) m \<Longrightarrow>
  ymd_day t \<le> (if m = 2 then 29 else if m = 4 \<or> m = 6 \<or> m = 9 \<or> m = 11 then 30 else 31)"
  by (simp add: end_of_month_day_def split: if_splits)

lemma march_range:
  assumes "ymd_valid t"
  shows "6199 \<le> march_year t" "march_year t \<le> 14800" "0 \<le> march_month t" "march_month t \<le> 11" "0 \<le> march_day t" "march_day t \<le> 365"
proof -
  have v: "1 \<le> ymd_month t" "ymd_month t \<le> 12" "1 \<le> ymd_day t" "ymd_day t \<le> end_of_month_day (ymd_year t) (ymd_month t)"
    using assms by (simp_all add: ymd_valid_def)
  show "6199 \<le> march_year t" "march_year t \<le> 14800" "0 \<le> march_month t" "march_month t \<le> 11"
    using assms by (auto simp: ymd_valid_def march_year_def march_month_def)
  show "0 \<le> march_day t" "march_day t \<le> 365"
    using v(3) month_days [OF v(4)] by (rule_tac month_cases [OF v(1,2)]; simp add: march_day_def march_month_def)+
qed

lemma day_number_valid:
  assumes "ymd_valid t"
  shows "day_number t = march_day t + year_days (march_year t) - 32044"
proof -
  have v: "1 \<le> ymd_month t" "ymd_month t \<le> 12" "1400 \<le> ymd_year t" "ymd_year t \<le> 10000" using assms by (simp_all add: ymd_valid_def)
  note r = march_range [OF assms]
  let ?y = "march_year t"
  have y: "u16 (ymd_year t + 4800 - (if ymd_month t \<le> 2 then 1 else 0)) = ?y" "u16 (ymd_month t + 12 * (if ymd_month t \<le> 2 then 1 else 0) - 3) = march_month t"
    using v by (auto simp: unsigned_id march_year_def march_month_def)
  have "0 \<le> year_days ?y - 32044" "year_days ?y \<le> 10000000"
    using r(1,2) div4 [of ?y] div_range [of 100 ?y, simplified] div_range [of 400 ?y, simplified] unfolding year_days_def by linarith+
  then have "u32 (u64 (march_day t + year_days ?y - 32044)) = march_day t + year_days ?y - 32044" using r(5,6) by (simp add: unsigned_id)
  then show ?thesis using y unfolding day_number_def Let_def march_a [OF v(1,2)] by (simp add: march_day_def year_days_def algebra_simps)
qed


subsection \<open>From day numbers to dates\<close>

text \<open>A year that starts in March has 366 days exactly when the next calendar year is a leap year.\<close>

lemma leap_4800: "is_leap_year (y + 4800) = is_leap_year y"
  using mod_mult_self2 [of y 4 1200] mod_mult_self2 [of y 100 48] mod_mult_self2 [of y 400 12] by (simp add: is_leap_year_def)

lemma march_leap:
  assumes "ymd_valid t" "march_day t = 365"
  shows "is_leap_year (march_year t + 1)"
proof -
  have v: "1 \<le> ymd_month t" "ymd_month t \<le> 12" "ymd_day t \<le> end_of_month_day (ymd_year t) (ymd_month t)"
    using assms(1) by (simp_all add: ymd_valid_def)
  have "ymd_month t = 2 \<and> ymd_day t = 29"
    using month_days [OF v(3)] assms(2) by (rule_tac month_cases [OF v(1,2)]) (simp_all add: march_day_def march_month_def)
  then have "is_leap_year (ymd_year t)" using v(3) by (simp add: end_of_month_day_def split: if_splits)
  then show ?thesis using \<open>ymd_month t = 2 \<and> ymd_day t = 29\<close> leap_4800 [of "ymd_year t"] by (simp add: march_year_def add.commute)
qed

text \<open>Centuries and the years in them.\<close>

lemma quarter:
  "(146097 * b) div 4 = 36524 * b + b div 4" "(1461 * b) div 4 = 365 * b + b div 4" "(100 * b + d) div 4 = 25 * b + d div 4" for b d :: int
  using div_mult_self2 [of 4 b "36524 * b"] div_mult_self2 [of 4 b "365 * b"] div_mult_self2 [of 4 d "25 * b"] by (simp_all add: algebra_simps)

lemma century_split:
  assumes "0 \<le> d" "d < (100::int)"
  shows "year_days (100 * b + d) = (146097 * b) div 4 + (1461 * d) div 4"
proof -
  have c: "(100 * b + d) div 100 = b" using assms by (intro div_bounds) simp_all
  moreover have "(100 * b + d) div 400 = b div 4" using zdiv_zmult2_eq [of 4 "100 * b + d" 100] c by simp
  ultimately show ?thesis unfolding year_days_def quarter by simp
qed

lemma century_of:
  assumes d: "0 \<le> d" "d < (100::int)" and b: "0 \<le> b" and e: "0 \<le> e" "e \<le> 365"
    and leap: "e = 365 \<Longrightarrow> is_leap_year (100 * b + d + 1)"
    and c: "c = (1461 * d) div 4 + e" and a: "a = (146097 * b) div 4 + c"
  shows "(4 * a + 3) div 146097 = b" "(4 * c + 3) div 1461 = d"
proof -
  obtain q where q: "(146097 * b) div 4 = 36524 * b + q" "4 * q \<le> b" "b < 4 * q + 4" "b mod 4 = b - 4 * q"
    using quarter(1) [of b] div4 [of b] minus_mult_div_eq_mod [of b 4] by metis
  obtain p where p: "(1461 * d) div 4 = 365 * d + p" "4 * p \<le> d" "d < 4 * p + 4" "d mod 4 = d - 4 * p"
    using quarter(2) [of d] div4 [of d] minus_mult_div_eq_mod [of d 4] by metis
  have l4: "d - 4 * p = 3" if "e = 365"
  proof -
    have "(100 * b + d + 1) mod 4 = 0" using leap [OF that] by (simp add: is_leap_year_def)
    moreover have "(100 * b + d + 1) mod 4 = (d + 1) mod 4" using mod_mult_self2 [of "d + 1" 4 "25 * b"] by (simp add: algebra_simps)
    ultimately have "(d + 1) mod 4 = 0" by simp
    then have "d mod 4 = 3" by presburger
    then show ?thesis using p(4) by simp
  qed
  have l400: "b - 4 * q = 3" if "e = 365" "d = 99"
  proof -
    have "400 dvd 100 * (b + 1)" using leap [OF that(1)] that(2) by (auto simp: is_leap_year_def mod_eq_0_iff_dvd algebra_simps)
    then have "4 dvd b + 1" using dvd_mult_cancel_left [of 100 4 "b + 1"] by simp
    then have "b mod 4 = 3" by presburger
    then show ?thesis using q(4) by simp
  qed
  have c': "c = 365 * d + p + e" and a': "a = 36524 * b + q + c" using c a p(1) q(1) by simp_all
  have "4 * c + 3 < 1461 * d + 1461"
    using l4 e c' p(2,3) by (cases "e = 365") linarith+
  moreover have "1461 * d \<le> 4 * c + 3" using e c' p(3) by linarith
  ultimately show "(4 * c + 3) div 1461 = d" by (intro div_bounds)
  have "4 * a + 3 < 146097 * b + 146097"
  proof (cases "d = 99 \<and> e = 365")
    case True
    then show ?thesis using l4 l400 c' a' by simp
  next
    case False
    then have "c \<le> 36523" using d e c' p(2) by (cases "d = 99") linarith+
    then show ?thesis using a' q(2) by linarith
  qed
  moreover have "0 \<le> p" using d(1) p(3) by presburger
  then have "146097 * b \<le> 4 * a + 3" using a' c' d(1) e(1) q(3) by linarith
  ultimately show "(4 * a + 3) div 146097 = b" by (intro div_bounds)
qed

lemma march_split:
  assumes "ymd_valid t"
  shows "(5 * march_day t + 2) div 153 = march_month t"
    and "march_day t - (153 * march_month t + 2) div 5 + 1 = ymd_day t"
    and "march_month t + 3 - 12 * (march_month t div 10) = ymd_month t"
    and "march_year t - 4800 + march_month t div 10 = ymd_year t"
proof -
  have v: "1 \<le> ymd_month t" "ymd_month t \<le> 12" "1 \<le> ymd_day t" "ymd_day t \<le> end_of_month_day (ymd_year t) (ymd_month t)"
    using assms by (simp_all add: ymd_valid_def)
  show "march_day t - (153 * march_month t + 2) div 5 + 1 = ymd_day t" by (simp add: march_day_def)
  show "march_month t + 3 - 12 * (march_month t div 10) = ymd_month t" "march_year t - 4800 + march_month t div 10 = ymd_year t"
    by (rule month_cases [OF v(1,2)]; simp add: march_month_def march_year_def)+
  have "153 * march_month t \<le> 5 * march_day t + 2 \<and> 5 * march_day t + 2 < 153 * march_month t + 153"
    using v(3) month_days [OF v(4)] by (rule_tac month_cases [OF v(1,2)]) (simp_all add: march_day_def march_month_def)
  then show "(5 * march_day t + 2) div 153 = march_month t" by (intro div_bounds) auto
qed

lemma from_day_number_inverse:
  assumes "ymd_valid t"
  shows "from_day_number (day_number t) = Inr t"
proof -
  note r = march_range [OF assms]
  define b where "b = march_year t div 100"
  define d where "d = march_year t mod 100"
  define e where "e = march_day t"
  have y: "march_year t = 100 * b + d" and d: "0 \<le> d" "d < 100" and b: "0 \<le> b" "b \<le> 148" using r(1,2) by (auto simp: b_def d_def)
  have e: "0 \<le> e" "e \<le> 365" using r(5,6) by (simp_all add: e_def)
  define c where "c = (1461 * d) div 4 + e"
  define a where "a = (146097 * b) div 4 + c"
  have leap: "is_leap_year (100 * b + d + 1)" if "e = 365" using march_leap [OF assms] that by (simp add: y e_def)
  note cd = century_of [OF d b(1) e leap c_def a_def]
  have n: "day_number t + 32044 = a" using day_number_valid [OF assms] century_split [OF d, of b] y by (simp add: a_def c_def e_def)
  have qd: "0 \<le> (1461 * d) div 4" "(1461 * d) div 4 \<le> 36160" using d div_range [of 4 "1461 * d"] by simp_all
  have qb: "0 \<le> (146097 * b) div 4" "(146097 * b) div 4 \<le> 5405589" using b div_range [of 4 "146097 * b"] by simp_all
  have c: "0 \<le> c" "c \<le> 40000" using qd e unfolding c_def by simp_all
  have a: "0 \<le> a" "a \<le> 6000000" using qb c unfolding a_def by simp_all
  have m: "0 \<le> march_month t" "march_month t \<le> 11" using r by auto
  have id: "u32 x = x" if "0 \<le> x" "x \<le> 100000000" for x using that by (simp add: unsigned_id)
  have "u32 (day_number t + 32044) = a" using a by (simp add: n id)
  moreover have "u32 (4 * a + 3) div 146097 = b" using a by (simp add: id cd(1))
  moreover have "u32 (a - u32 (146097 * b) div 4) = c" using b c by (simp add: id a_def)
  moreover have "u32 (4 * c + 3) div 1461 = d" using c by (simp add: id cd(2))
  moreover have "u32 (c - u32 (1461 * d) div 4) = e" using d e by (simp add: id c_def)
  moreover have "u32 (5 * e + 2) div 153 = march_month t" using e march_split(1) [OF assms] by (simp add: id e_def)
  moreover have "u16 (u32 (e - u32 (153 * march_month t + 2) div 5 + 1)) = ymd_day t"
    using march_split(2) [OF assms] m assms end_of_month_le(2) [of "ymd_year t" "ymd_month t"] by (simp add: id unsigned_id(1) e_def ymd_valid_def)
  moreover have "u16 (u32 (march_month t + 3 - 12 * (march_month t div 10))) = ymd_month t"
    using march_split(3) [OF assms] assms by (simp add: id unsigned_id(1) ymd_valid_def)
  moreover have "u16 (u32 (100 * b + d - 4800 + march_month t div 10)) = ymd_year t"
    using march_split(4) [OF assms] assms by (simp add: id unsigned_id(1) y ymd_valid_def)
  moreover have "make_ymd (ymd_year t) (ymd_month t) (ymd_day t) = Inr t"
    using assms end_of_month_le(2) [of "ymd_year t" "ymd_month t"] by (subst make_ymd_ok) (auto simp: ymd_valid_def)
  ultimately show ?thesis by (simp only: from_day_number_def Let_def)
qed

subsection \<open>Successive days\<close>

definition next_day :: "ymd \<Rightarrow> ymd" where
  "next_day t =
     (if ymd_day t < end_of_month_day (ymd_year t) (ymd_month t) then t\<lparr>ymd_day := ymd_day t + 1\<rparr>
      else if ymd_month t < 12 then t\<lparr>ymd_month := ymd_month t + 1, ymd_day := 1\<rparr>
      else \<lparr>ymd_year = ymd_year t + 1, ymd_month = 1, ymd_day = 1\<rparr>)"

lemma div_Suc:
  fixes x k :: int
  assumes "0 < k"
  shows "(x + 1) div k = x div k + (if k dvd x + 1 then 1 else 0)"
proof -
  obtain q r where x: "x = k * q + r" "0 \<le> r" "r < k" "q = x div k"
    using that [of "x div k" "x mod k"] assms by simp
  show ?thesis
  proof (cases "r + 1 = k")
    case True
    then have "x + 1 = k * (q + 1)" using x(1) by (simp add: distrib_left)
    then show ?thesis using assms x(4) by simp
  next
    case False
    have "(x + 1) div k = q" using x False by (intro div_bounds) linarith+
    moreover have "\<not> k dvd x + 1"
    proof
      assume "k dvd x + 1"
      then have "k dvd r + 1" using x(1) by (simp add: add.assoc dvd_add_right_iff)
      then show False using zdvd_imp_le [of k "r + 1"] x(2,3) False by linarith
    qed
    ultimately show ?thesis using x(4) by simp
  qed
qed

lemma year_days_Suc: "year_days (y + 1) = year_days y + (if is_leap_year (y + 1) then 366 else 365)"
proof -
  have i: "100 dvd y + 1 \<Longrightarrow> 4 dvd y + 1" "400 dvd y + 1 \<Longrightarrow> 100 dvd y + 1"
    using dvd_trans [of 4 100 "y + 1"] dvd_trans [of 100 400 "y + 1"] by simp_all
  have l: "is_leap_year (y + 1) \<longleftrightarrow> 4 dvd y + 1 \<and> (\<not> 100 dvd y + 1 \<or> 400 dvd y + 1)" by (simp add: is_leap_year_def mod_eq_0_iff_dvd)
  have d: "(y + 1) div 4 = y div 4 + (if 4 dvd y + 1 then 1 else 0)" "(y + 1) div 100 = y div 100 + (if 100 dvd y + 1 then 1 else 0)"
    "(y + 1) div 400 = y div 400 + (if 400 dvd y + 1 then 1 else 0)" by (rule div_Suc; simp)+
  show ?thesis unfolding year_days_def d l using i by (cases "4 dvd y + 1"; cases "100 dvd y + 1"; cases "400 dvd y + 1") simp_all
qed

lemma next_day_valid: "ymd_valid t \<Longrightarrow> t \<noteq> \<lparr>ymd_year = 10000, ymd_month = 12, ymd_day = 31\<rparr> \<Longrightarrow> ymd_valid (next_day t)"
  using end_of_month_le(1) [of "ymd_year t" "ymd_month t + 1"] end_of_month_le(1) [of "ymd_year t + 1" 1]
  by (cases t) (auto simp: ymd_valid_def next_day_def end_of_month_day_def)

lemma next_day_number:
  assumes "ymd_valid t" "ymd_valid (next_day t)"
  shows "day_number (next_day t) = day_number t + 1"
proof -
  have v: "1 \<le> ymd_month t" "ymd_month t \<le> 12" using assms(1) by (simp_all add: ymd_valid_def)
  have "march_day (next_day t) + year_days (march_year (next_day t)) = march_day t + year_days (march_year t) + 1"
  proof (cases "ymd_day t < end_of_month_day (ymd_year t) (ymd_month t)")
    case True
    then show ?thesis by (simp add: next_day_def march_day_def march_year_def march_month_def)
  next
    case False
    then have e: "ymd_day t = end_of_month_day (ymd_year t) (ymd_month t)" using assms(1) by (simp add: ymd_valid_def)
    show ?thesis
    proof (cases "ymd_month t = 2")
      case True
      then have "march_day (next_day t) = 0" "march_year (next_day t) = march_year t + 1" "march_year t + 1 = ymd_year t + 4800"
        using False by (simp_all add: next_day_def march_day_def march_year_def march_month_def)
      moreover have "march_day t + 1 = (if is_leap_year (ymd_year t) then 366 else 365)"
        using True e by (simp add: march_day_def march_month_def end_of_month_day_def)
      ultimately show ?thesis using year_days_Suc [of "march_year t"] leap_4800 [of "ymd_year t"] by (simp add: add.commute)
    next
      case False
      then show ?thesis using e
        by (rule_tac month_cases [OF v]) (simp_all add: next_day_def march_day_def march_year_def march_month_def end_of_month_day_def add.commute)
    qed
  qed
  then show ?thesis using day_number_valid [OF assms(1)] day_number_valid [OF assms(2)] by simp
qed

lemma day_number_onto:
  assumes "2232400 \<le> n" "n \<le> 5373850"
  shows "\<exists>t. ymd_valid t \<and> day_number t = n"
  using assms
proof (induction "nat (n - 2232400)" arbitrary: n)
  case 0
  have "ymd_valid \<lparr>ymd_year = 1400, ymd_month = 1, ymd_day = 1\<rparr>" "day_number \<lparr>ymd_year = 1400, ymd_month = 1, ymd_day = 1\<rparr> = 2232400" by code_simp+
  then show ?case using 0 by auto
next
  case (Suc k)
  have "k = nat (n - 1 - 2232400)" "2232400 \<le> n - 1" "n - 1 \<le> 5373850" using Suc.hyps(2) Suc.prems by linarith+
  then obtain t where t: "ymd_valid t" "day_number t = n - 1" using Suc.hyps(1) [of "n - 1"] by auto
  have "day_number \<lparr>ymd_year = 10000, ymd_month = 12, ymd_day = 31\<rparr> = 5373850" by code_simp
  then have "t \<noteq> \<lparr>ymd_year = 10000, ymd_month = 12, ymd_day = 31\<rparr>" using t(2) Suc.prems by auto
  from next_day_valid [OF t(1) this] show ?case using next_day_number [OF t(1)] t(2) by (intro exI [of _ "next_day t"]) simp
qed

subsection \<open>Days of the week\<close>

lemma year_days_4800: "year_days (y + 4800) = year_days y + 1753164"
  using div_mult_self2 [of 4 y 1200] div_mult_self2 [of 100 y 48] div_mult_self2 [of 400 y 12] by (simp add: year_days_def)

lemma day_of_week_number:
  assumes "ymd_valid t"
  shows "cal_day_of_week t = (day_number t + 1) mod 7"
proof -
  have v: "1 \<le> ymd_month t" "ymd_month t \<le> 12" "1400 \<le> ymd_year t" "ymd_year t \<le> 10000" using assms by (simp_all add: ymd_valid_def)
  define y where "y = march_year t - 4800"
  let ?e = "ymd_day t + y + y div 4 - y div 100 + y div 400 + (31 * (march_month t + 1)) div 12"
  have "u16 (ymd_year t - (if ymd_month t \<le> 2 then 1 else 0)) = y" "u16 (ymd_month t + 12 * (if ymd_month t \<le> 2 then 1 else 0) - 2) = march_month t + 1"
    using v by (auto simp: unsigned_id y_def march_year_def march_month_def)
  moreover have "u16 (?e mod 7) = ?e mod 7" by (rule unsigned_id) (simp_all add: le_less_trans [OF less_imp_le [OF pos_mod_bound]])
  ultimately have w: "cal_day_of_week t = ?e mod 7" using march_a [OF v(1,2)] by (simp only: cal_day_of_week_def Let_def)
  have "year_days (march_year t) = year_days y + 1753164" using year_days_4800 [of y] by (simp add: y_def)
  then have "day_number t + 1 - ?e = ((153 * march_month t + 2) div 5 - (31 * (march_month t + 1)) div 12 + 1721120) + 7 * (52 * y)"
    using day_number_valid [OF assms] by (simp add: march_day_def year_days_def)
  moreover have "7 dvd (153 * march_month t + 2) div 5 - (31 * (march_month t + 1)) div 12 + 1721120"
    by (rule month_cases [OF v(1,2)]) (simp_all add: march_month_def)
  then have "7 dvd ((153 * march_month t + 2) div 5 - (31 * (march_month t + 1)) div 12 + 1721120) + 7 * (52 * y)" by (rule dvd_add) simp
  ultimately have "7 dvd day_number t + 1 - ?e" by (simp only:)
  then show ?thesis using w by (simp add: mod_eq_dvd_iff dvd_diff_commute)
qed

subsection \<open>Week numbers\<close>

text \<open>The first day of a year.\<close>

definition jan1 :: "int \<Rightarrow> int" where
  "jan1 y = year_days (y + 4799) - 31738"

lemma jan1_Suc: "jan1 (y + 1) = jan1 y + (if is_leap_year y then 366 else 365)"
  using year_days_Suc [of "y + 4799"] leap_4800 [of y] by (simp add: jan1_def add.commute)

lemma jan1_mono: "y \<le> z \<Longrightarrow> jan1 y \<le> jan1 z"
proof (induction z rule: int_ge_induct)
  case (step z)
  then show ?case using jan1_Suc [of z] by (simp split: if_splits)
qed simp

lemma jan1_number: "1400 \<le> y \<Longrightarrow> y \<le> 10000 \<Longrightarrow> day_number \<lparr>ymd_year = y, ymd_month = 1, ymd_day = 1\<rparr> = jan1 y"
  by (subst day_number_valid) (auto simp: ymd_valid_def end_of_month_day_def march_day_def march_month_def march_year_def jan1_def add.commute)

lemma year_range:
  assumes "ymd_valid t"
  shows "jan1 (ymd_year t) \<le> day_number t" "day_number t < jan1 (ymd_year t + 1)"
proof -
  have v: "1 \<le> ymd_month t" "ymd_month t \<le> 12" "1 \<le> ymd_day t" "ymd_day t \<le> end_of_month_day (ymd_year t) (ymd_month t)"
    using assms by (simp_all add: ymd_valid_def)
  let ?y = "ymd_year t"
  have y: "year_days (?y + 4800) = year_days (?y + 4799) + (if is_leap_year ?y then 366 else 365)"
    using jan1_Suc [of ?y] by (simp add: jan1_def add.commute)
  have j: "jan1 ?y = year_days (?y + 4799) - 31738" "jan1 (?y + 1) = year_days (?y + 4800) - 31738" by (simp_all add: jan1_def add.commute)
  have "jan1 ?y \<le> day_number t \<and> day_number t < jan1 (?y + 1)"
  proof (cases "ymd_month t \<le> 2")
    case True
    then have m: "march_year t = ?y + 4799" "306 \<le> march_day t" using v(1,3) by (auto simp: march_year_def march_day_def march_month_def)
    have "march_day t < (if is_leap_year ?y then 366 else 365)"
      using True v by (rule_tac month_cases [OF v(1,2)]) (simp_all add: march_day_def march_month_def end_of_month_day_def split: if_splits)
    then show ?thesis using m j y day_number_valid [OF assms] by (simp split: if_splits)
  next
    case False
    then have m: "march_year t = ?y + 4800" by (simp add: march_year_def)
    have "0 \<le> march_day t" "march_day t < 306"
      using False v(3) month_days [OF v(4)] by (rule_tac month_cases [OF v(1,2)]; simp add: march_day_def march_month_def)+
    then show ?thesis using m j y day_number_valid [OF assms] by (simp split: if_splits)
  qed
  then show "jan1 ?y \<le> day_number t" "day_number t < jan1 (?y + 1)" by simp_all
qed

lemma day_number_bounds:
  assumes "ymd_valid t"
  shows "2232400 \<le> day_number t" "day_number t \<le> 5373850"
proof -
  have "jan1 1400 = 2232400" "jan1 10001 = 5373851" by code_simp+
  then show "2232400 \<le> day_number t" "day_number t \<le> 5373850"
    using year_range [OF assms] jan1_mono [of 1400 "ymd_year t"] jan1_mono [of "ymd_year t + 1" 10001] assms by (auto simp: ymd_valid_def)
qed

lemma year_unique:
  assumes "ymd_valid t" "jan1 y \<le> day_number t" "day_number t < jan1 (y + 1)"
  shows "ymd_year t = y"
proof (rule ccontr)
  assume "ymd_year t \<noteq> y"
  then consider "ymd_year t + 1 \<le> y" | "y + 1 \<le> ymd_year t" by linarith
  then show False
    using jan1_mono [of "ymd_year t + 1" y] jan1_mono [of "y + 1" "ymd_year t"] year_range [OF assms(1)] assms(2,3) by cases auto
qed

text \<open>ISO 8601: the week belongs to the year of its Thursday, and the weeks of a year are counted by their Thursdays. Day numbers are 0 modulo 7 on Mondays.\<close>

definition iso_week_thursday :: "int \<Rightarrow> int" where
  "iso_week_thursday n = n - n mod 7 + 3"

definition iso_week :: "ymd \<Rightarrow> date_error + int" where
  "iso_week t =
     sum_bind (from_day_number (iso_week_thursday (day_number t))) (\<lambda>u.
       Inr ((day_number u - day_number \<lparr>ymd_year = ymd_year u, ymd_month = 1, ymd_day = 1\<rparr>) div 7 + 1))"

text \<open>The week as the source counts it from a first of January.\<close>

lemma week_count:
  fixes n j :: int
  shows "(n + (j + 3) mod 7 - j + 4) div 7 = (iso_week_thursday n - j) div 7 + 1"
proof -
  obtain q w where j: "j = 7 * q + w" "0 \<le> w" "w < 7" using that [of "j div 7" "j mod 7"] by simp
  obtain p v where n: "n = 7 * p + v" "0 \<le> v" "v < 7" using that [of "n div 7" "n mod 7"] by simp
  have t: "iso_week_thursday n = 7 * p + 3" using n by (simp add: iso_week_thursday_def)
  have d: "(j + 3) mod 7 = (if w \<le> 3 then w + 3 else w - 4)"
  proof -
    have "(j + 3) mod 7 = (w + 3) mod 7" using mod_mult_self2 [of "w + 3" 7 q] by (simp add: j(1) algebra_simps)
    also have "\<dots> = (if w \<le> 3 then w + 3 else w - 4)" using j(2,3) by presburger
    finally show ?thesis .
  qed
  show ?thesis
  proof (cases "w \<le> 3")
    case True
    then have "(n + (j + 3) mod 7 - j + 4) div 7 = p - q + 1" "(iso_week_thursday n - j) div 7 = p - q"
      unfolding d t using n j by (intro div_bounds; simp)+
    then show ?thesis by simp
  next
    case False
    then have "(n + (j + 3) mod 7 - j + 4) div 7 = p - q" "(iso_week_thursday n - j) div 7 = p - q - 1"
      unfolding d t using n j by (intro div_bounds; simp)+
    then show ?thesis by simp
  qed
qed

lemma thursday_mod:
  fixes x j :: int
  assumes "x mod 7 = 3"
  shows "j = x - 364 \<Longrightarrow> (j + 3) mod 7 = 6" "j = x - 365 \<Longrightarrow> (j + 3) mod 7 = 5"
  using assms by presburger+

lemma iso_week_year:
  assumes t: "ymd_valid t" and j: "jan1 y \<le> iso_week_thursday (day_number t)" "iso_week_thursday (day_number t) < jan1 (y + 1)"
  shows "iso_week t = Inr ((iso_week_thursday (day_number t) - jan1 y) div 7 + 1)"
proof -
  let ?n = "day_number t" and ?th = "iso_week_thursday (day_number t)"
  have n: "2232400 \<le> ?n" "?n \<le> 5373850" by (rule day_number_bounds [OF t])+
  have th: "?th = 7 * (?n div 7) + 3" using minus_mod_eq_mult_div [of ?n 7] by (simp add: iso_week_thursday_def)
  have "2232398 div 7 \<le> ?n div 7" "?n div 7 \<le> 5373850 div 7" using n by (intro zdiv_mono1; simp)+
  then have "2232400 \<le> ?th" "?th \<le> 5373850" unfolding th by simp_all
  then obtain u where u: "ymd_valid u" "day_number u = ?th" using day_number_onto by blast
  have "ymd_year u = y" using year_unique [OF u(1)] u(2) j by simp
  moreover have "1400 \<le> ymd_year u" "ymd_year u \<le> 10000" using u(1) by (simp_all add: ymd_valid_def)
  ultimately show ?thesis using u from_day_number_inverse [OF u(1)] jan1_number [of y] by (simp add: iso_week_def)
qed

lemma week_number_iso:
  assumes t: "ymd_valid t"
  shows "cal_week_number t = iso_week t"
proof -
  let ?y = "ymd_year t" and ?n = "day_number t" and ?th = "iso_week_thursday (day_number t)"
  have y: "1400 \<le> ?y" "?y \<le> 10000" using t by (simp_all add: ymd_valid_def)
  note r = year_range [OF t]
  have jy: "2232000 \<le> jan1 ?y" "jan1 ?y \<le> 6000000" and jp: "1000000 \<le> jan1 (?y - 1)"
  proof -
    have "jan1 1400 = 2232400" "jan1 10000 = 5373485" "jan1 1399 = 2232035" by code_simp+
    then show "2232000 \<le> jan1 ?y" "jan1 ?y \<le> 6000000" "1000000 \<le> jan1 (?y - 1)"
      using jan1_mono [of 1400 ?y] jan1_mono [of ?y 10000] jan1_mono [of 1399 "?y - 1"] y by auto
  qed
  have lp: "jan1 ?y = jan1 (?y - 1) + (if is_leap_year (?y - 1) then 366 else 365)" using jan1_Suc [of "?y - 1"] by simp
  have ln: "jan1 (?y + 1) = jan1 ?y + (if is_leap_year ?y then 366 else 365)" by (rule jan1_Suc)
  have th: "?n - 3 \<le> ?th" "?th \<le> ?n + 3" using pos_mod_bound [of 7 ?n] pos_mod_sign [of 7 ?n] by (simp_all add: iso_week_thursday_def)
  have tm: "?th mod 7 = 3" using mod_mult_self2 [of 3 7 "?n div 7"] minus_mod_eq_mult_div [of ?n 7] by (simp add: iso_week_thursday_def add.commute)
  have week: "u64 (?n + u64 (j + 3) mod 7 - j + 4) div 7 = (?th - j) div 7 + 1" if "0 \<le> j" "j \<le> 6000000" "j \<le> ?n" "?n \<le> 6000000" for j
  proof -
    have "u64 (j + 3) = j + 3" using that by (intro unsigned_id) simp_all
    moreover have "0 \<le> (j + 3) mod 7" "(j + 3) mod 7 < 7" by simp_all
    ultimately have "u64 (?n + u64 (j + 3) mod 7 - j + 4) = ?n + (j + 3) mod 7 - j + 4" using that by (simp add: unsigned_id)
    then show ?thesis using week_count [of ?n j] by simp
  qed
  have n6: "?n \<le> 6000000" using day_number_bounds(2) [OF t] by simp
  have w: "u64 (?n + u64 (jan1 ?y + 3) mod 7 - jan1 ?y + 4) div 7 = (?th - jan1 ?y) div 7 + 1" using week [of "jan1 ?y"] jy r(1) n6 by simp
  have d: "u64 (jan1 ?y + 3) mod 7 = (jan1 ?y + 3) mod 7" using jy by (simp add: unsigned_id)
  have mk: "make_ymd z 1 1 = Inr \<lparr>ymd_year = z, ymd_month = 1, ymd_day = 1\<rparr>" "day_number \<lparr>ymd_year = z, ymd_month = 1, ymd_day = 1\<rparr> = jan1 z"
    if "1400 \<le> z" "z \<le> 10000" for z using that by (simp_all add: make_ymd_ok jan1_number)
  let ?W = "(?th - jan1 ?y) div 7 + 1"
  have cal: "cal_week_number t = (if ?W \<ge> 1 \<and> ?W \<le> 52 then Inr ?W
    else if ?W = 53 then (if (jan1 ?y + 3) mod 7 = 6 \<or> (jan1 ?y + 3) mod 7 = 5 \<and> is_leap_year ?y then Inr ?W else Inr 1)
    else if ?W = 0 then sum_bind (make_ymd (u16 (?y - 1)) 1 1) (\<lambda>start.
      Inr (u64 (?n + u64 (day_number start + 3) mod 7 - day_number start + 4) div 7)) else Inr ?W)"
    by (simp only: cal_week_number_def Let_def mk [OF y] sum_bind_simps julian_day_number_def d w [unfolded d])
  consider "?th < jan1 ?y" | "jan1 ?y \<le> ?th" "?th < jan1 (?y + 1)" | "jan1 (?y + 1) \<le> ?th" by linarith
  then show ?thesis
  proof cases
    case 1
    then have W: "?W = 0" using th r(1) by (simp add: div_bounds [of 7 "- 1"])
    have "?y \<noteq> 1400"
    proof
      assume "?y = 1400"
      moreover have "jan1 1400 = 2232400" by code_simp
      ultimately have "?th = 2232397 \<or> ?th = 2232398 \<or> ?th = 2232399" using 1 th r(1) by auto
      then show False using tm by auto
    qed
    then have p: "1400 \<le> ?y - 1" "?y - 1 \<le> 10000" "u16 (?y - 1) = ?y - 1" using y by (simp_all add: unsigned_id)
    have "cal_week_number t = Inr ((?th - jan1 (?y - 1)) div 7 + 1)"
      using cal W mk [OF p(1,2)] p(3) week [of "jan1 (?y - 1)"] jp jy lp r(1) n6 by (simp split: if_splits)
    moreover have "jan1 (?y - 1) \<le> ?th" using th(1) r(1) lp by (simp split: if_splits)
    ultimately show ?thesis using iso_week_year [OF t, of "?y - 1"] 1 by simp
  next
    case 2
    then have iso: "iso_week t = Inr ?W" by (rule iso_week_year [OF t])
    have "0 \<le> (?th - jan1 ?y) div 7" "(?th - jan1 ?y) div 7 \<le> 365 div 7" using 2 ln by (simp split: if_splits, intro zdiv_mono1) (simp_all split: if_splits)
    then consider "1 \<le> ?W" "?W \<le> 52" | "?W = 53" by fastforce
    then show ?thesis
    proof cases
      case a: 2
      then have "364 \<le> ?th - jan1 ?y" using div_range [of 7 "?th - jan1 ?y"] by simp
      then consider "jan1 ?y = ?th - 364" | "jan1 ?y = ?th - 365" "is_leap_year ?y" using 2 ln by (fastforce split: if_splits)
      then have "(jan1 ?y + 3) mod 7 = 6 \<or> (jan1 ?y + 3) mod 7 = 5 \<and> is_leap_year ?y" using thursday_mod [OF tm] by cases auto
      then show ?thesis using cal iso a by simp
    qed (use cal iso in simp)
  next
    case 3
    then have W: "?W = 53" using th r(2) ln div_bounds [of 7 52 "?th - jan1 ?y"] by (simp split: if_splits)
    have "\<not> ((jan1 ?y + 3) mod 7 = 6 \<or> (jan1 ?y + 3) mod 7 = 5 \<and> is_leap_year ?y)"
    proof -
      obtain k where k: "?th = jan1 (?y + 1) + k" "0 \<le> k" "k \<le> 2" using 3 th r(2) that [of "?th - jan1 (?y + 1)"] by simp
      then have "k = 0 \<or> k = 1 \<or> k = 2" by presburger
      then show ?thesis using tm k(1) ln by (cases "is_leap_year ?y"; elim disjE; simp; presburger)
    qed
    then have "cal_week_number t = Inr 1" using cal W by simp
    moreover have "(?th - jan1 (?y + 1)) div 7 = 0" using 3 th r(2) by (intro div_bounds) simp_all
    moreover have "?th < jan1 (?y + 1 + 1)" using th r(2) jan1_Suc [of "?y + 1"] by (simp split: if_splits)
    ultimately show ?thesis using iso_week_year [OF t 3] by simp
  qed
qed

lemma julian_inverse: "from_julian_day_number n = from_day_number n"
  by (simp only: from_julian_day_number_def from_day_number_def)

lemma modjulian_inverse: "ymd_valid t \<Longrightarrow> from_modjulian_day_number (modjulian_day_number t) = Inr t"
  using day_number_bounds [of t] from_day_number_inverse [of t]
  by (cases "day_number t < 2400001")
    (auto simp: from_modjulian_day_number_def modjulian_day_number_def julian_day_number_def julian_inverse u32_def mod_simps)

subsection \<open>Properties\<close>

text \<open>C38 Day numbers count the days of the calendar: a date that exists is recovered from its day number, from its Julian and from its modified
  Julian day number, every number from 1400-01-01 to 10000-12-31 belongs to a date that exists, and the number of the next day of the
  calendar is the next number. The day of the week follows the day number, Sunday being 0, and the week number is that of ISO 8601: the number of the
  Thursday of the week among the Thursdays of its year.\<close>

theorem day_numbers_count_days:
  "(ymd_valid t \<longrightarrow> from_day_number (day_number t) = Inr t \<and> from_julian_day_number (julian_day_number t) = Inr t
      \<and> from_modjulian_day_number (modjulian_day_number t) = Inr t
      \<and> (t \<noteq> \<lparr>ymd_year = 10000, ymd_month = 12, ymd_day = 31\<rparr> \<longrightarrow> ymd_valid (next_day t) \<and> day_number (next_day t) = day_number t + 1)
      \<and> cal_day_of_week t = (day_number t + 1) mod 7 \<and> cal_week_number t = iso_week t)
    \<and> (2232400 \<le> n \<and> n \<le> 5373850 \<longrightarrow> (\<exists>u. ymd_valid u \<and> from_day_number n = Inr u \<and> day_number u = n))"
proof -
  have "\<exists>u. ymd_valid u \<and> from_day_number n = Inr u \<and> day_number u = n" if n: "2232400 \<le> n" "n \<le> 5373850"
  proof -
    obtain u where "ymd_valid u" "day_number u = n" using day_number_onto [OF n] by blast
    then show ?thesis using from_day_number_inverse [of u] by auto
  qed
  then show ?thesis
    using from_day_number_inverse [of t] modjulian_inverse [of t] next_day_valid [of t] next_day_number [of t] day_of_week_number [of t] week_number_iso [of t]
    by (auto simp: julian_inverse julian_day_number_def)
qed

lemma day_numbers_count_days_witness:
  "from_day_number (day_number \<lparr>ymd_year = 2000, ymd_month = 2, ymd_day = 29\<rparr>) = Inr \<lparr>ymd_year = 2000, ymd_month = 2, ymd_day = 29\<rparr>
    \<and> day_number \<lparr>ymd_year = 2000, ymd_month = 3, ymd_day = 1\<rparr> = day_number \<lparr>ymd_year = 2000, ymd_month = 2, ymd_day = 29\<rparr> + 1
    \<and> (\<exists>u. from_day_number 2451605 = Inr u)
    \<and> cal_week_number \<lparr>ymd_year = 2005, ymd_month = 1, ymd_day = 1\<rparr> = Inr 53 \<and> cal_day_of_week \<lparr>ymd_year = 2005, ymd_month = 1, ymd_day = 1\<rparr> = 6"
proof -
  let ?t = "\<lparr>ymd_year = 2000, ymd_month = 2, ymd_day = 29\<rparr>" and ?u = "\<lparr>ymd_year = 2005, ymd_month = 1, ymd_day = 1\<rparr>"
  have "ymd_valid ?t" "next_day ?t = \<lparr>ymd_year = 2000, ymd_month = 3, ymd_day = 1\<rparr>" "ymd_valid ?u" "iso_week ?u = Inr 53" "day_number ?u = 2453372" by code_simp+
  then show ?thesis using day_numbers_count_days [of ?t 2451605] day_numbers_count_days [of ?u 2451605] by auto
qed

end
