(* ===== verification/Int_Adapter.thy ===== *)
theory Int_Adapter
  imports Gregorian_Calendar "HOL-Library.Monad_Syntax"
begin

text \<open>
  \<^verbatim>\<open>date_time::int_adapter\<close> (\<^verbatim>\<open>int_adapter.hpp\<close>): an integer type in which three values stand for the infinities and for not-a-number. The
  type is an argument, signed or unsigned with a number of bits; the value is a mathematical integer in its range. Unsigned
  arithmetic wraps around, overflow of signed arithmetic and division by zero are undefined (\<open>None\<close>).
\<close>

subsection \<open>Integer types\<close>

record int_type =
  it_signed :: bool
  it_bits :: nat

definition it_max :: "int_type \<Rightarrow> int" where
  "it_max K = (if it_signed K then 2 ^ (it_bits K - 1) - 1 else 2 ^ it_bits K - 1)"

definition it_min :: "int_type \<Rightarrow> int" where
  "it_min K = (if it_signed K then - (2 ^ (it_bits K - 1)) else 0)"

definition it_cast :: "int_type \<Rightarrow> int \<Rightarrow> int" where
  "it_cast K x = (x - it_min K) mod 2 ^ it_bits K + it_min K"

definition it_arith :: "int_type \<Rightarrow> int \<Rightarrow> int option" where
  "it_arith K x = (if it_signed K then (if it_min K \<le> x \<and> x \<le> it_max K then Some x else None) else Some (it_cast K x))"

definition it_ok :: "int_type \<Rightarrow> int \<Rightarrow> bool" where
  "it_ok K x \<longleftrightarrow> it_min K \<le> x \<and> x \<le> it_max K"

subsection \<open>Special values\<close>

datatype special_values = not_a_date_time | neg_infin | pos_infin | min_date_time | max_date_time | not_special

definition pos_infinity :: "int_type \<Rightarrow> int" where "pos_infinity K = it_max K"
definition neg_infinity :: "int_type \<Rightarrow> int" where "neg_infinity K = it_min K"
definition not_a_number :: "int_type \<Rightarrow> int" where "not_a_number K = it_max K - 1"
definition ia_max :: "int_type \<Rightarrow> int" where "ia_max K = it_max K - 2"
definition ia_min :: "int_type \<Rightarrow> int" where "ia_min K = it_min K + 1"

definition from_special :: "int_type \<Rightarrow> special_values \<Rightarrow> int" where
  "from_special K sv =
     (case sv of not_a_date_time \<Rightarrow> not_a_number K | neg_infin \<Rightarrow> neg_infinity K | pos_infin \<Rightarrow> pos_infinity K
      | max_date_time \<Rightarrow> ia_max K | min_date_time \<Rightarrow> ia_min K | not_special \<Rightarrow> not_a_number K)"

definition is_neg_inf :: "int_type \<Rightarrow> int \<Rightarrow> bool" where "is_neg_inf K v \<longleftrightarrow> v = neg_infinity K"
definition is_pos_inf :: "int_type \<Rightarrow> int \<Rightarrow> bool" where "is_pos_inf K v \<longleftrightarrow> v = pos_infinity K"
definition is_inf :: "int_type \<Rightarrow> int \<Rightarrow> bool" where "is_inf K v \<longleftrightarrow> v = neg_infinity K \<or> v = pos_infinity K"
definition is_nan :: "int_type \<Rightarrow> int \<Rightarrow> bool" where "is_nan K v \<longleftrightarrow> v = not_a_number K"
definition is_special :: "int_type \<Rightarrow> int \<Rightarrow> bool" where "is_special K v \<longleftrightarrow> is_inf K v \<or> is_nan K v"

definition to_special :: "int_type \<Rightarrow> int \<Rightarrow> special_values" where
  "to_special K v =
     (if is_nan K v then not_a_date_time else if is_neg_inf K v then neg_infin else if is_pos_inf K v then pos_infin else not_special)"

subsection \<open>Comparison\<close>

definition ia_compare :: "int_type \<Rightarrow> int \<Rightarrow> int \<Rightarrow> int" where
  "ia_compare K v w =
     (let ordered = (if v < w then - 1 else if v > w then 1 else 0) in
      if is_special K v \<or> is_special K w then
        (if is_nan K v \<or> is_nan K w then (if is_nan K v \<and> is_nan K w then 0 else 2)
         else if is_neg_inf K v \<and> \<not> is_neg_inf K w \<or> is_pos_inf K w \<and> \<not> is_pos_inf K v then - 1
         else if is_pos_inf K v \<and> \<not> is_pos_inf K w \<or> is_neg_inf K w \<and> \<not> is_neg_inf K v then 1
         else ordered)
      else ordered)"

definition ia_eq :: "int_type \<Rightarrow> int \<Rightarrow> int \<Rightarrow> bool" where "ia_eq K v w \<longleftrightarrow> ia_compare K v w = 0"
definition ia_less :: "int_type \<Rightarrow> int \<Rightarrow> int \<Rightarrow> bool" where "ia_less K v w \<longleftrightarrow> ia_compare K v w = - 1"
definition ia_greater :: "int_type \<Rightarrow> int \<Rightarrow> int \<Rightarrow> bool" where "ia_greater K v w \<longleftrightarrow> ia_compare K v w = 1"

text \<open>The overloads for \<^verbatim>\<open>int\<close>, in which zero is not the negative infinity of an unsigned type.\<close>

definition ia_eq_int :: "int_type \<Rightarrow> int \<Rightarrow> int \<Rightarrow> bool" where
  "ia_eq_int K v w \<longleftrightarrow> \<not> (\<not> it_signed K \<and> is_neg_inf K v \<and> w = 0) \<and> ia_compare K v (it_cast K w) = 0"

definition ia_less_int :: "int_type \<Rightarrow> int \<Rightarrow> int \<Rightarrow> bool" where
  "ia_less_int K v w \<longleftrightarrow> \<not> it_signed K \<and> is_neg_inf K v \<and> w = 0 \<or> ia_compare K v (it_cast K w) = - 1"

subsection \<open>Arithmetic\<close>

text \<open>Addition and subtraction; the right operand may have another type \<open>L\<close>.\<close>

definition ia_add :: "int_type \<Rightarrow> int_type \<Rightarrow> int \<Rightarrow> int \<Rightarrow> int option" where
  "ia_add K L v w =
     (if is_nan K v \<or> is_nan L w then Some (not_a_number K)
      else if is_pos_inf K v \<and> is_neg_inf L w \<or> is_neg_inf K v \<and> is_pos_inf L w then Some (not_a_number K)
      else if is_inf K v then Some v
      else if is_pos_inf L w then Some (pos_infinity K)
      else if is_neg_inf L w then Some (neg_infinity K)
      else it_arith K (v + it_cast K w))"

definition ia_add_int :: "int_type \<Rightarrow> int \<Rightarrow> int \<Rightarrow> int option" where
  "ia_add_int K v w = (if is_nan K v then Some (not_a_number K) else if is_inf K v then Some v else it_arith K (v + w))"

definition ia_sub :: "int_type \<Rightarrow> int_type \<Rightarrow> int \<Rightarrow> int \<Rightarrow> int option" where
  "ia_sub K L v w =
     (if is_nan K v \<or> is_nan L w then Some (not_a_number K)
      else if is_pos_inf K v \<and> is_pos_inf L w \<or> is_neg_inf K v \<and> is_neg_inf L w then Some (not_a_number K)
      else if is_inf K v then Some v
      else if is_pos_inf L w then Some (neg_infinity K)
      else if is_neg_inf L w then Some (pos_infinity K)
      else it_arith K (v - it_cast K w))"

definition ia_sub_int :: "int_type \<Rightarrow> int \<Rightarrow> int \<Rightarrow> int option" where
  "ia_sub_int K v w = (if is_nan K v then Some (not_a_number K) else if is_inf K v then Some v else it_arith K (v - w))"

definition mult_div_specials :: "int_type \<Rightarrow> int \<Rightarrow> int \<Rightarrow> int" where
  "mult_div_specials K v w =
     (let min_value = (if it_signed K then 0 else 1) in
      if is_nan K v \<or> is_nan K w then not_a_number K
      else if ia_greater K v (it_cast K 0) \<and> ia_greater K w (it_cast K 0) \<or> ia_less_int K v min_value \<and> ia_less_int K w min_value then pos_infinity K
      else if ia_greater K v (it_cast K 0) \<and> ia_less_int K w min_value \<or> ia_less_int K v min_value \<and> ia_greater K w (it_cast K 0) then neg_infinity K
      else not_a_number K)"

definition mult_div_specials_int :: "int_type \<Rightarrow> int \<Rightarrow> int \<Rightarrow> int" where
  "mult_div_specials_int K v w =
     (let min_value = (if it_signed K then 0 else 1) in
      if is_nan K v then not_a_number K
      else if ia_greater K v (it_cast K 0) \<and> w > 0 \<or> ia_less_int K v min_value \<and> w < 0 then pos_infinity K
      else if ia_greater K v (it_cast K 0) \<and> w < 0 \<or> ia_less_int K v min_value \<and> w > 0 then neg_infinity K
      else not_a_number K)"

definition ia_mult :: "int_type \<Rightarrow> int \<Rightarrow> int \<Rightarrow> int option" where
  "ia_mult K v w = (if is_special K v \<or> is_special K w then Some (mult_div_specials K v w) else it_arith K (v * w))"

definition ia_mult_int :: "int_type \<Rightarrow> int \<Rightarrow> int \<Rightarrow> int option" where
  "ia_mult_int K v w = (if is_special K v then Some (mult_div_specials_int K v w) else it_arith K (v * it_cast K w))"

definition it_divide :: "int_type \<Rightarrow> int \<Rightarrow> int \<Rightarrow> int option" where
  "it_divide K v w = (if w = 0 then None else it_arith K (tdiv v w))"

definition it_modulo :: "int_type \<Rightarrow> int \<Rightarrow> int \<Rightarrow> int option" where
  "it_modulo K v w = (if w = 0 then None else it_arith K (tmod v w))"

definition ia_divide :: "int_type \<Rightarrow> int \<Rightarrow> int \<Rightarrow> int option" where
  "ia_divide K v w =
     (if is_special K v \<or> is_special K w then
        (if is_inf K v \<and> is_inf K w then Some (not_a_number K)
         else if \<not> ia_eq_int K w 0 then Some (mult_div_specials K v w)
         else it_divide K v w)
      else it_divide K v w)"

definition ia_divide_int :: "int_type \<Rightarrow> int \<Rightarrow> int \<Rightarrow> int option" where
  "ia_divide_int K v w = (if is_special K v \<and> w \<noteq> 0 then Some (mult_div_specials_int K v w) else it_divide K v (it_cast K w))"

definition ia_modulo :: "int_type \<Rightarrow> int \<Rightarrow> int \<Rightarrow> int option" where
  "ia_modulo K v w =
     (if is_special K v \<or> is_special K w then
        (if is_inf K v \<and> is_inf K w then Some (not_a_number K)
         else if \<not> ia_eq_int K w 0 then Some (mult_div_specials K v w)
         else it_modulo K v w)
      else it_modulo K v w)"

definition ia_modulo_int :: "int_type \<Rightarrow> int \<Rightarrow> int \<Rightarrow> int option" where
  "ia_modulo_int K v w = (if is_special K v \<and> w \<noteq> 0 then Some (mult_div_specials_int K v w) else it_modulo K v (it_cast K w))"

subsection \<open>Integers with infinities\<close>

datatype ext_int = NaN | NegInf | PosInf | Fin int

definition ia_abs :: "int_type \<Rightarrow> int \<Rightarrow> ext_int" where
  "ia_abs K v = (if is_nan K v then NaN else if is_neg_inf K v then NegInf else if is_pos_inf K v then PosInf else Fin v)"

fun ext_add :: "ext_int \<Rightarrow> ext_int \<Rightarrow> ext_int" where
  "ext_add (Fin x) (Fin y) = Fin (x + y)"
| "ext_add NaN b = NaN"
| "ext_add a NaN = NaN"
| "ext_add PosInf NegInf = NaN"
| "ext_add NegInf PosInf = NaN"
| "ext_add PosInf b = PosInf"
| "ext_add NegInf b = NegInf"
| "ext_add (Fin x) b = b"

fun ext_uminus :: "ext_int \<Rightarrow> ext_int" where
  "ext_uminus (Fin x) = Fin (- x)"
| "ext_uminus PosInf = NegInf"
| "ext_uminus NegInf = PosInf"
| "ext_uminus NaN = NaN"

fun ext_sgn :: "ext_int \<Rightarrow> int" where
  "ext_sgn (Fin x) = sgn x"
| "ext_sgn PosInf = 1"
| "ext_sgn NegInf = - 1"
| "ext_sgn NaN = 0"

definition ext_mult :: "ext_int \<Rightarrow> ext_int \<Rightarrow> ext_int" where
  "ext_mult a b =
     (case (a, b) of (Fin x, Fin y) \<Rightarrow> Fin (x * y)
      | _ \<Rightarrow> (if a = NaN \<or> b = NaN \<or> ext_sgn a * ext_sgn b = 0 then NaN else if ext_sgn a * ext_sgn b = 1 then PosInf else NegInf))"

fun ext_compare :: "ext_int \<Rightarrow> ext_int \<Rightarrow> int" where
  "ext_compare (Fin x) (Fin y) = (if x < y then - 1 else if x > y then 1 else 0)"
| "ext_compare NaN b = (if b = NaN then 0 else 2)"
| "ext_compare a NaN = 2"
| "ext_compare NegInf b = (if b = NegInf then 0 else - 1)"
| "ext_compare PosInf b = (if b = PosInf then 0 else 1)"
| "ext_compare (Fin x) b = (if b = PosInf then - 1 else 1)"

text \<open>Results that a type can hold beside its special values.\<close>

fun ext_fits :: "int_type \<Rightarrow> ext_int \<Rightarrow> bool" where
  "ext_fits K (Fin x) = (ia_min K \<le> x \<and> x \<le> ia_max K)"
| "ext_fits K a = True"

lemma it_range:
  assumes "4 \<le> it_bits K"
  shows "it_min K \<le> 0" "7 \<le> it_max K" "it_signed K \<Longrightarrow> it_min K \<le> - 8" "it_max K - it_min K = 2 ^ it_bits K - 1"
proof -
  have p: "(2::int) ^ 3 \<le> 2 ^ (it_bits K - 1)" "(2::int) ^ 4 \<le> 2 ^ it_bits K" using assms by (intro power_increasing; simp)+
  have "(2::int) * 2 ^ (it_bits K - 1) = 2 ^ it_bits K" using assms by (cases "it_bits K") simp_all
  then show "it_min K \<le> 0" "7 \<le> it_max K" "it_signed K \<Longrightarrow> it_min K \<le> - 8" "it_max K - it_min K = 2 ^ it_bits K - 1"
    using p by (auto simp: it_min_def it_max_def)
qed

lemma cast_id: "4 \<le> it_bits K \<Longrightarrow> it_ok K x \<Longrightarrow> it_cast K x = x"
  using it_range(4) [of K] by (simp add: it_cast_def it_ok_def)

lemma arith_id: "4 \<le> it_bits K \<Longrightarrow> it_ok K x \<Longrightarrow> it_arith K x = Some x"
  using cast_id [of K x] by (simp add: it_arith_def it_ok_def)

lemmas special_defs = is_special_def is_inf_def is_nan_def is_pos_inf_def is_neg_inf_def pos_infinity_def neg_infinity_def not_a_number_def

text \<open>A value is special or lies strictly between the special values.\<close>

lemma abs_cases:
  assumes "4 \<le> it_bits K" "it_ok K v"
  obtains "v = it_max K - 1" "ia_abs K v = NaN" | "v = it_min K" "ia_abs K v = NegInf" | "v = it_max K" "ia_abs K v = PosInf"
    | "it_min K < v" "v < it_max K - 1" "ia_abs K v = Fin v"
proof -
  consider "v = it_max K - 1" | "v = it_min K" | "v = it_max K" | "it_min K < v" "v < it_max K - 1" using assms(2) unfolding it_ok_def by linarith
  then show thesis using that it_range [OF assms(1)] by cases (auto simp: ia_abs_def special_defs)
qed

lemma fits_ok: "4 \<le> it_bits K \<Longrightarrow> ext_fits K (Fin x) \<Longrightarrow> it_arith K x = Some x \<and> ia_abs K x = Fin x"
  using arith_id [of K x] it_range [of K] by (auto simp: ia_min_def ia_max_def it_ok_def ia_abs_def special_defs)

lemma abs_special:
  assumes "4 \<le> it_bits K"
  shows "ia_abs K (it_max K - 1) = NaN" "ia_abs K (it_min K) = NegInf" "ia_abs K (it_max K) = PosInf"
  using it_range [OF assms] by (auto simp: ia_abs_def special_defs)

lemma compare_ext:
  assumes "4 \<le> it_bits K" "it_ok K v" "it_ok K w"
  shows "ia_compare K v w = ext_compare (ia_abs K v) (ia_abs K w)"
  using it_range [OF assms(1)]
  by (rule_tac abs_cases [OF assms(1,2)]; rule_tac abs_cases [OF assms(1,3)]) (auto simp: ia_compare_def special_defs)

lemma add_ext:
  assumes "4 \<le> it_bits K" "it_ok K v" "it_ok K w" "ext_fits K (ext_add (ia_abs K v) (ia_abs K w))"
  shows "\<exists>r. ia_add K K v w = Some r \<and> ia_abs K r = ext_add (ia_abs K v) (ia_abs K w)"
  using it_range [OF assms(1)] assms(4) fits_ok [OF assms(1), of "v + w"]
  by (rule_tac abs_cases [OF assms(1,2)]; rule_tac abs_cases [OF assms(1,3)])
    (auto simp: ia_add_def special_defs abs_special [OF assms(1)] cast_id [OF assms(1,3)])

lemma sub_ext:
  assumes "4 \<le> it_bits K" "it_ok K v" "it_ok K w" "ext_fits K (ext_add (ia_abs K v) (ext_uminus (ia_abs K w)))"
  shows "\<exists>r. ia_sub K K v w = Some r \<and> ia_abs K r = ext_add (ia_abs K v) (ext_uminus (ia_abs K w))"
  using it_range [OF assms(1)] assms(4) fits_ok [OF assms(1), of "v - w"]
  by (rule_tac abs_cases [OF assms(1,2)]; rule_tac abs_cases [OF assms(1,3)])
    (auto simp: ia_sub_def special_defs abs_special [OF assms(1)] cast_id [OF assms(1,3)])

lemma sign_tests:
  assumes "4 \<le> it_bits K" "it_signed K" "it_ok K v" "ia_abs K v \<noteq> NaN"
  shows "ia_greater K v (it_cast K 0) \<longleftrightarrow> ext_sgn (ia_abs K v) = 1" "ia_less_int K v 0 \<longleftrightarrow> ext_sgn (ia_abs K v) = - 1"
proof -
  note r = it_range [OF assms(1)]
  have z: "it_ok K 0" "ia_abs K 0 = Fin 0" using r assms(2) by (auto simp: it_ok_def ia_abs_def special_defs)
  have c: "ia_compare K v (it_cast K 0) = ext_compare (ia_abs K v) (Fin 0)" using compare_ext [OF assms(1,3) z(1)] cast_id [OF assms(1) z(1)] z(2) by simp
  show "ia_greater K v (it_cast K 0) \<longleftrightarrow> ext_sgn (ia_abs K v) = 1"
    using c assms(4) by (cases "ia_abs K v") (auto simp: ia_greater_def sgn_if)
  show "ia_less_int K v 0 \<longleftrightarrow> ext_sgn (ia_abs K v) = - 1"
    using c assms(2,4) by (cases "ia_abs K v") (auto simp: ia_less_int_def sgn_if)
qed

lemma mult_ext:
  assumes K: "4 \<le> it_bits K" "it_signed K" and v: "it_ok K v" and w: "it_ok K w" and f: "ext_fits K (ext_mult (ia_abs K v) (ia_abs K w))"
  shows "\<exists>r. ia_mult K v w = Some r \<and> ia_abs K r = ext_mult (ia_abs K v) (ia_abs K w)"
proof (cases "is_special K v \<or> is_special K w")
  case False
  then have "ia_abs K v = Fin v" "ia_abs K w = Fin w" by (auto simp: ia_abs_def special_defs)
  then show ?thesis using f fits_ok [OF K(1), of "v * w"] False by (auto simp: ia_mult_def ext_mult_def)
next
  case True
  have nan: "is_nan K x \<longleftrightarrow> ia_abs K x = NaN" for x by (simp add: ia_abs_def)
  have r: "ia_abs K (mult_div_specials K v w) = ext_mult (ia_abs K v) (ia_abs K w)"
  proof (cases "ia_abs K v = NaN \<or> ia_abs K w = NaN")
    case True
    then show ?thesis using abs_special [OF K(1)] by (auto simp: mult_div_specials_def nan ext_mult_def not_a_number_def split: ext_int.splits)
  next
    case nn: False
    then have t: "ia_greater K x (it_cast K 0) \<longleftrightarrow> ext_sgn (ia_abs K x) = 1" "ia_less_int K x 0 \<longleftrightarrow> ext_sgn (ia_abs K x) = - 1" if "x = v \<or> x = w" for x
      using sign_tests [OF K] v w that by auto
    have sp: "ia_abs K v \<in> {PosInf, NegInf} \<or> ia_abs K w \<in> {PosInf, NegInf}" using True nn by (auto simp: ia_abs_def special_defs split: if_splits)
    have "ia_abs K (mult_div_specials K v w) = (if ext_sgn (ia_abs K v) = 1 \<and> ext_sgn (ia_abs K w) = 1 \<or> ext_sgn (ia_abs K v) = - 1 \<and> ext_sgn (ia_abs K w) = - 1 then PosInf
        else if ext_sgn (ia_abs K v) = 1 \<and> ext_sgn (ia_abs K w) = - 1 \<or> ext_sgn (ia_abs K v) = - 1 \<and> ext_sgn (ia_abs K w) = 1 then NegInf else NaN)"
      using nn t K(2) abs_special [OF K(1)] by (simp add: mult_div_specials_def nan pos_infinity_def neg_infinity_def not_a_number_def)
    then show ?thesis using sp nn by (cases "ia_abs K v"; cases "ia_abs K w") (auto simp: ext_mult_def sgn_if)
  qed
  show ?thesis using True r by (simp add: ia_mult_def)
qed

subsection \<open>Properties\<close>

text \<open>Comparison, addition and subtraction of adapted integers, and their multiplication for signed types, are those of the integers with two infinities and
  not-a-number, as long as a finite result lies between the smallest and the greatest number of the type; no arithmetic
  on the underlying integers overflows then.\<close>

theorem int_adapter_refines_extended:
  assumes "4 \<le> it_bits K" "it_ok K v" "it_ok K w"
  shows "ia_compare K v w = ext_compare (ia_abs K v) (ia_abs K w)
    \<and> (ext_fits K (ext_add (ia_abs K v) (ia_abs K w)) \<longrightarrow> map_option (ia_abs K) (ia_add K K v w) = Some (ext_add (ia_abs K v) (ia_abs K w)))
    \<and> (ext_fits K (ext_add (ia_abs K v) (ext_uminus (ia_abs K w))) \<longrightarrow>
        map_option (ia_abs K) (ia_sub K K v w) = Some (ext_add (ia_abs K v) (ext_uminus (ia_abs K w))))
    \<and> (it_signed K \<and> ext_fits K (ext_mult (ia_abs K v) (ia_abs K w)) \<longrightarrow> map_option (ia_abs K) (ia_mult K v w) = Some (ext_mult (ia_abs K v) (ia_abs K w)))"
  using compare_ext [OF assms] add_ext [OF assms] sub_ext [OF assms] mult_ext [OF assms(1) _ assms(2,3)] by auto

lemma int_adapter_refines_extended_witness:
  "map_option (ia_abs \<lparr>it_signed = True, it_bits = 8\<rparr>) (ia_mult \<lparr>it_signed = True, it_bits = 8\<rparr> 127 (- 3)) = Some NegInf
    \<and> map_option (ia_abs \<lparr>it_signed = True, it_bits = 8\<rparr>) (ia_add \<lparr>it_signed = True, it_bits = 8\<rparr> \<lparr>it_signed = True, it_bits = 8\<rparr> 127 (- 3)) = Some PosInf"
proof -
  let ?K = "\<lparr>it_signed = True, it_bits = 8\<rparr>"
  have "ia_abs ?K 127 = PosInf" "ia_abs ?K (- 3) = Fin (- 3)" "it_ok ?K 127" "it_ok ?K (- 3)" by code_simp+
  then show ?thesis using int_adapter_refines_extended [of ?K 127 "- 3"] by (simp add: ext_mult_def)
qed

end
