(* ===== verification/Gregorian_Date.thy ===== *)
theory Gregorian_Date
  imports Int_Adapter
begin

text \<open>
  Dates and durations: \<^verbatim>\<open>date.hpp\<close>, \<^verbatim>\<open>gregorian/greg_date.hpp\<close>, \<^verbatim>\<open>date_duration.hpp\<close> and \<^verbatim>\<open>gregorian/greg_duration.hpp\<close>. A date is its day number in an
  adapted unsigned integer of 32 bits, a duration a number of days in an adapted signed integer of 64 bits. Undefined arithmetic is the error \<open>Undefined\<close>.
\<close>

subsection \<open>Dates\<close>

definition date_int :: int_type where "date_int = \<lparr>it_signed = False, it_bits = 32\<rparr>"
definition duration_int :: int_type where "duration_int = \<lparr>it_signed = True, it_bits = 64\<rparr>"

definition defined_result :: "'a option \<Rightarrow> date_error + 'a" where
  "defined_result r = (case r of None \<Rightarrow> Inl Undefined | Some x \<Rightarrow> Inr x)"

definition date_new :: "int \<Rightarrow> int \<Rightarrow> int \<Rightarrow> date_error + int" where
  "date_new y m d =
     sum_bind (make_ymd y m d) (\<lambda>t.
       if end_of_month_day (ymd_year t) (ymd_month t) < ymd_day t then Inl Bad_day_of_month else Inr (day_number t))"

definition date_of_special :: "special_values \<Rightarrow> date_error + int" where
  "date_of_special sv =
     (if sv = min_date_time then date_new 1400 1 1
      else if sv = max_date_time then date_new 9999 12 31
      else Inr (from_special date_int sv))"

definition date_ymd :: "int \<Rightarrow> date_error + ymd" where
  "date_ymd days = from_day_number days"

definition date_day_of_week :: "int \<Rightarrow> date_error + int" where
  "date_day_of_week days = sum_bind (from_day_number days) (\<lambda>t. greg_weekday (cal_day_of_week t))"

definition date_minus_date :: "int \<Rightarrow> int \<Rightarrow> date_error + int" where
  "date_minus_date days rhs =
     (if \<not> is_special date_int days \<and> \<not> is_special date_int rhs then defined_result (it_arith duration_int (days - rhs))
      else sum_bind (defined_result (ia_sub date_int date_int days rhs)) (\<lambda>val. Inr (from_special duration_int (to_special date_int val))))"

definition date_plus :: "int \<Rightarrow> int \<Rightarrow> date_error + int" where
  "date_plus days dd =
     (if is_special duration_int dd then defined_result (ia_add date_int duration_int days dd)
      else defined_result (ia_add_int date_int days (it_cast date_int dd)))"

definition date_minus :: "int \<Rightarrow> int \<Rightarrow> date_error + int" where
  "date_minus days dd =
     (if is_special duration_int dd then defined_result (ia_sub date_int duration_int days dd)
      else defined_result (ia_sub_int date_int days (it_cast date_int dd)))"

definition date_day_of_year :: "int \<Rightarrow> date_error + int" where
  "date_day_of_year days =
     sum_bind (date_ymd days) (\<lambda>t. sum_bind (date_new (ymd_year t) 1 1) (\<lambda>start.
       sum_bind (date_minus_date days start) (\<lambda>dd. greg_day_of_year (u16 (dd + 1)))))"

definition date_end_of_month :: "int \<Rightarrow> date_error + int" where
  "date_end_of_month days =
     sum_bind (date_ymd days) (\<lambda>t. date_new (ymd_year t) (ymd_month t) (end_of_month_day (ymd_year t) (ymd_month t)))"

definition date_week_number :: "int \<Rightarrow> date_error + int" where
  "date_week_number days = sum_bind (date_ymd days) cal_week_number"

definition date_julian_day :: "int \<Rightarrow> date_error + int" where
  "date_julian_day days = sum_bind (date_ymd days) (\<lambda>t. Inr (julian_day_number t))"

definition date_modjulian_day :: "int \<Rightarrow> date_error + int" where
  "date_modjulian_day days = sum_bind (date_ymd days) (\<lambda>t. Inr (modjulian_day_number t))"

subsection \<open>Durations\<close>

definition duration_less :: "int \<Rightarrow> int \<Rightarrow> bool" where
  "duration_less v w = ia_less duration_int v w"

definition duration_eq :: "int \<Rightarrow> int \<Rightarrow> bool" where
  "duration_eq v w = ia_eq duration_int v w"

definition duration_greater :: "int \<Rightarrow> int \<Rightarrow> bool" where
  "duration_greater v w \<longleftrightarrow> \<not> (duration_less v w \<or> duration_eq v w)"

definition duration_le :: "int \<Rightarrow> int \<Rightarrow> bool" where
  "duration_le v w \<longleftrightarrow> duration_less v w \<or> duration_eq v w"

definition duration_ge :: "int \<Rightarrow> int \<Rightarrow> bool" where
  "duration_ge v w \<longleftrightarrow> \<not> duration_less v w"

definition duration_minus :: "int \<Rightarrow> int \<Rightarrow> date_error + int" where
  "duration_minus v w = defined_result (ia_sub duration_int duration_int v w)"

definition duration_plus :: "int \<Rightarrow> int \<Rightarrow> date_error + int" where
  "duration_plus v w = defined_result (ia_add duration_int duration_int v w)"

definition duration_uminus :: "int \<Rightarrow> date_error + int" where
  "duration_uminus v = defined_result (ia_mult_int duration_int v (- 1))"

definition duration_divide :: "int \<Rightarrow> int \<Rightarrow> date_error + int" where
  "duration_divide v divisor = defined_result (ia_divide_int duration_int v divisor)"

definition duration_is_negative :: "int \<Rightarrow> bool" where
  "duration_is_negative v = ia_less_int duration_int v 0"

definition duration_unit :: int where
  "duration_unit = 1"

definition duration_weeks :: "int \<Rightarrow> date_error + int" where
  "duration_weeks w = defined_result (ia_mult_int duration_int w 7)"

subsection \<open>Arithmetic on dates that exist\<close>

text \<open>Numbers of dates that exist, with a margin for the days around the calendar.\<close>

definition plain_day :: "int \<Rightarrow> bool" where
  "plain_day n \<longleftrightarrow> 0 < n \<and> n < 100000000"

definition plain_days :: "int \<Rightarrow> bool" where
  "plain_days d \<longleftrightarrow> - 100000000 < d \<and> d < 100000000"

lemma date_limits:
  "it_min date_int = 0" "it_max date_int = 4294967295"
  "it_min duration_int = - 9223372036854775808" "it_max duration_int = 9223372036854775807"
  by code_simp+

lemma plain_not_special:
  "plain_day n \<Longrightarrow> \<not> is_special date_int n" "plain_days d \<Longrightarrow> \<not> is_special duration_int d"
  "plain_day n \<Longrightarrow> \<not> is_nan date_int n" "plain_day n \<Longrightarrow> \<not> is_inf date_int n"
  by (auto simp: special_defs date_limits plain_day_def plain_days_def)

lemma date_cast:
  "it_cast date_int x = x mod 4294967296"
  by (simp add: it_cast_def date_limits) (simp add: date_int_def)

lemma date_plus_plain: "plain_day n \<Longrightarrow> plain_days d \<Longrightarrow> plain_day (n + d) \<Longrightarrow> date_plus n d = Inr (n + d)"
  by (simp add: date_plus_def plain_not_special ia_add_int_def it_arith_def date_cast defined_result_def mod_simps)
    (simp add: date_int_def plain_day_def)

lemma date_minus_plain: "plain_day n \<Longrightarrow> plain_days d \<Longrightarrow> plain_day (n - d) \<Longrightarrow> date_minus n d = Inr (n - d)"
  by (simp add: date_minus_def plain_not_special ia_sub_int_def it_arith_def date_cast defined_result_def mod_simps)
    (simp add: date_int_def plain_day_def)

lemma date_diff_plain: "plain_day n \<Longrightarrow> plain_day m \<Longrightarrow> date_minus_date n m = Inr (n - m)"
  by (simp add: date_minus_date_def plain_not_special it_arith_def date_limits defined_result_def plain_day_def) (simp add: duration_int_def)

lemma valid_plain: "ymd_valid t \<Longrightarrow> plain_day (day_number t)"
  using day_number_bounds [of t] by (simp add: plain_day_def)

lemma date_ymd_number: "ymd_valid t \<Longrightarrow> date_ymd (day_number t) = Inr t"
  by (simp add: date_ymd_def from_day_number_inverse)

lemma date_new_valid: "ymd_valid t \<Longrightarrow> date_new (ymd_year t) (ymd_month t) (ymd_day t) = Inr (day_number t)"
  using end_of_month_le(2) [of "ymd_year t" "ymd_month t"] by (cases t) (auto simp: ymd_valid_def date_new_def make_ymd_ok)

lemma date_new_of: "ymd_valid \<lparr>ymd_year = y, ymd_month = m, ymd_day = d\<rparr> \<Longrightarrow> date_new y m d = Inr (day_number \<lparr>ymd_year = y, ymd_month = m, ymd_day = d\<rparr>)"
  using date_new_valid [of "\<lparr>ymd_year = y, ymd_month = m, ymd_day = d\<rparr>"] by simp

text \<open>The comparison \<^verbatim>\<open>>\<close> of durations is a negation: it holds between not-a-date-time and every other duration, in both directions.\<close>

lemma duration_greater_nan:
  assumes "v \<noteq> not_a_number duration_int"
  shows "duration_greater (not_a_number duration_int) v \<and> duration_greater v (not_a_number duration_int)"
  using assms by (simp add: duration_greater_def duration_less_def duration_eq_def ia_less_def ia_eq_def ia_compare_def is_nan_def is_special_def)

end
