(* ===== verification/Date_Adjust.thy ===== *)
theory Date_Adjust
  imports Gregorian_Date
begin

text \<open>
  The addition of days, weeks, months and years to dates: wrapping integers (\<^verbatim>\<open>wrapping_int.hpp\<close>), the functors of \<^verbatim>\<open>adjust_functors.hpp\<close>, the
  month and year durations of \<^verbatim>\<open>date_duration_types.hpp\<close> and the iterators of \<^verbatim>\<open>date_iterator.hpp\<close>.
\<close>

definition int_int :: int_type where "int_int = \<lparr>it_signed = True, it_bits = 32\<rparr>"

subsection \<open>Wrapping integers\<close>

definition s16 :: "int \<Rightarrow> int" where "s16 x = (x + 2 ^ 15) mod 2 ^ 16 - 2 ^ 15"

text \<open>\<^verbatim>\<open>wrapping_int2<short, wrap_min, wrap_max>\<close>.\<close>

definition wi2_init :: "int \<Rightarrow> int \<Rightarrow> int \<Rightarrow> int" where
  "wi2_init wrap_min wrap_max v = (let v1 = (if v < wrap_min then wrap_min else v) in if v1 > wrap_max then wrap_max else v1)"

definition wi2_calculate_wrap :: "int \<Rightarrow> int \<Rightarrow> int \<Rightarrow> int \<Rightarrow> int \<times> int" where
  "wi2_calculate_wrap wrap_min wrap_max v wrap =
     (if v > wrap_max then (s16 (v - (wrap_max - wrap_min + 1)), s16 (wrap + 1))
      else if v < wrap_min then (s16 (v + (wrap_max - wrap_min + 1)), s16 (wrap - 1))
      else (v, wrap))"

definition wi2_add :: "int \<Rightarrow> int \<Rightarrow> int \<Rightarrow> int \<Rightarrow> int \<times> int" where
  "wi2_add wrap_min wrap_max value v =
     (let remainder = s16 (tmod v (wrap_max - wrap_min + 1));
          overflow = s16 (tdiv v (wrap_max - wrap_min + 1))
      in wi2_calculate_wrap wrap_min wrap_max (s16 (value + remainder)) overflow)"

definition wi2_subtract :: "int \<Rightarrow> int \<Rightarrow> int \<Rightarrow> int \<Rightarrow> int \<times> int" where
  "wi2_subtract wrap_min wrap_max value v =
     (let remainder = s16 (tmod v (wrap_max - wrap_min + 1));
          underflow = s16 (- tdiv v (wrap_max - wrap_min + 1))
      in wi2_calculate_wrap wrap_min wrap_max (s16 (value - remainder)) underflow)"

subsection \<open>Months and years\<close>

text \<open>The functor remembers the day of the month from its first use: 0 before it, -1 for the end of the month.\<close>

definition orig_day_of_month :: "int \<Rightarrow> ymd \<Rightarrow> int" where
  "orig_day_of_month orig t =
     (if orig = 0 then (if end_of_month_day (ymd_year t) (ymd_month t) = ymd_day t then - 1 else ymd_day t) else orig)"

text \<open>The part that the two directions share, from the wrapped month and the number of years.\<close>

definition month_offset_to :: "int \<Rightarrow> int \<Rightarrow> ymd \<Rightarrow> int \<times> int \<Rightarrow> date_error + int" where
  "month_offset_to orig days t wi =
     (let year = s16 (snd wi + ymd_year t) in
      sum_bind (greg_year year) (\<lambda>y. sum_bind (greg_month (fst wi)) (\<lambda>m.
        let resultingEndOfMonthDay = end_of_month_day y m in
        if orig = - 1 then sum_bind (date_new year (fst wi) resultingEndOfMonthDay) (\<lambda>d. date_minus_date d days)
        else sum_bind (greg_day orig) (\<lambda>dayOfMonth.
          sum_bind (date_new year (fst wi) (if dayOfMonth > resultingEndOfMonthDay then resultingEndOfMonthDay else dayOfMonth))
            (\<lambda>d. date_minus_date d days)))))"

definition month_functor_offset :: "int \<Rightarrow> int \<Rightarrow> int \<Rightarrow> date_error + int \<times> int" where
  "month_functor_offset f orig days =
     sum_bind (date_ymd days) (\<lambda>t.
       let orig1 = orig_day_of_month orig t in
       sum_bind (month_offset_to orig1 days t (wi2_add 1 12 (wi2_init 1 12 (ymd_month t)) (s16 f))) (\<lambda>dd. Inr (dd, orig1)))"

definition month_functor_neg_offset :: "int \<Rightarrow> int \<Rightarrow> int \<Rightarrow> date_error + int \<times> int" where
  "month_functor_neg_offset f orig days =
     sum_bind (date_ymd days) (\<lambda>t.
       let orig1 = orig_day_of_month orig t in
       sum_bind (month_offset_to orig1 days t (wi2_subtract 1 12 (wi2_init 1 12 (ymd_month t)) (s16 f))) (\<lambda>dd. Inr (dd, orig1)))"



definition date_plus_years :: "int \<Rightarrow> int \<Rightarrow> date_error + int" where
  "date_plus_years days y =
     sum_bind (defined_result (it_arith int_int (y * 12))) (\<lambda>f. sum_bind (month_functor_offset f 0 days) (\<lambda>r. date_plus days (fst r)))"


subsection \<open>Days and weeks\<close>

definition day_functor_offset :: "int \<Rightarrow> int \<Rightarrow> date_error + int" where
  "day_functor_offset f days = sum_bind (date_ymd days) (\<lambda>_. Inr f)"

definition day_functor_neg_offset :: "int \<Rightarrow> int \<Rightarrow> date_error + int" where
  "day_functor_neg_offset f days = sum_bind (date_ymd days) (\<lambda>_. defined_result (it_arith int_int (- f)))"

definition week_functor_offset :: "int \<Rightarrow> int \<Rightarrow> date_error + int" where
  "week_functor_offset f days = sum_bind (date_ymd days) (\<lambda>_. defined_result (it_arith int_int (f * days_in_week)))"

definition week_functor_neg_offset :: "int \<Rightarrow> int \<Rightarrow> date_error + int" where
  "week_functor_neg_offset f days =
     sum_bind (date_ymd days) (\<lambda>_. sum_bind (defined_result (it_arith int_int (- f))) (\<lambda>g. defined_result (it_arith int_int (g * days_in_week))))"

subsection \<open>Iterators\<close>

text \<open>The functor of an iterator, with its factor, and the iterator: the current date and what its functor remembers. An iterator whose step threw is not followed any further.\<close>

datatype offset_functor = Day_functor int | Week_functor int | Month_functor int | Year_functor int

record date_itr =
  itr_functor :: offset_functor
  itr_orig :: int
  itr_current :: int

definition date_itr_new :: "offset_functor \<Rightarrow> int \<Rightarrow> date_error + date_itr" where
  "date_itr_new F d =
     (case F of Year_functor f \<Rightarrow> sum_bind (defined_result (it_arith int_int (f * 12))) (\<lambda>_. Inr \<lparr>itr_functor = F, itr_orig = 0, itr_current = d\<rparr>)
      | _ \<Rightarrow> Inr \<lparr>itr_functor = F, itr_orig = 0, itr_current = d\<rparr>)"

definition functor_offset :: "offset_functor \<Rightarrow> int \<Rightarrow> int \<Rightarrow> date_error + int \<times> int" where
  "functor_offset F orig d =
     (case F of Day_functor f \<Rightarrow> sum_bind (day_functor_offset f d) (\<lambda>dd. Inr (dd, orig))
      | Week_functor f \<Rightarrow> sum_bind (week_functor_offset f d) (\<lambda>dd. Inr (dd, orig))
      | Month_functor f \<Rightarrow> month_functor_offset f orig d
      | Year_functor f \<Rightarrow> month_functor_offset (f * 12) orig d)"

definition functor_neg_offset :: "offset_functor \<Rightarrow> int \<Rightarrow> int \<Rightarrow> date_error + int \<times> int" where
  "functor_neg_offset F orig d =
     (case F of Day_functor f \<Rightarrow> sum_bind (day_functor_neg_offset f d) (\<lambda>dd. Inr (dd, orig))
      | Week_functor f \<Rightarrow> sum_bind (week_functor_neg_offset f d) (\<lambda>dd. Inr (dd, orig))
      | Month_functor f \<Rightarrow> month_functor_neg_offset f orig d
      | Year_functor f \<Rightarrow> month_functor_neg_offset (f * 12) orig d)"

definition date_itr_inc :: "date_itr \<Rightarrow> date_error + date_itr" where
  "date_itr_inc it =
     sum_bind (functor_offset (itr_functor it) (itr_orig it) (itr_current it)) (\<lambda>(dd, orig1).
       sum_bind (date_plus (itr_current it) dd) (\<lambda>d. Inr (it\<lparr>itr_orig := orig1, itr_current := d\<rparr>)))"

definition date_itr_dec :: "date_itr \<Rightarrow> date_error + date_itr" where
  "date_itr_dec it =
     sum_bind (functor_neg_offset (itr_functor it) (itr_orig it) (itr_current it)) (\<lambda>(dd, orig1).
       sum_bind (date_plus (itr_current it) dd) (\<lambda>d. Inr (it\<lparr>itr_orig := orig1, itr_current := d\<rparr>)))"

subsection \<open>Wrapping months\<close>

lemma s16_id: "- 32768 \<le> x \<Longrightarrow> x \<le> 32767 \<Longrightarrow> s16 x = x"
  by (simp add: s16_def)

lemma tdiv_range:
  fixes v :: int
  assumes "- 32768 \<le> v" "v \<le> 32767"
  shows "v = 12 * tdiv v 12 + tmod v 12" "- 12 < tmod v 12" "tmod v 12 < 12" "- 2732 < tdiv v 12" "tdiv v 12 < 2732"
proof -
  show s: "v = 12 * tdiv v 12 + tmod v 12" by (simp add: tmod_def)
  have d: "tdiv v 12 = (if v < 0 then - ((- v) div 12) else v div 12)" by (simp add: tdiv_def sgn_if)
  show "- 12 < tmod v 12" "tmod v 12 < 12"
    using d s div_range [of 12 v] div_range [of 12 "- v"] by (simp_all split: if_splits)
  then show "- 2732 < tdiv v 12" "tdiv v 12 < 2732" using s assms by - linarith+
qed

lemma wrap_month:
  assumes "1 \<le> m" "m \<le> 12" "- 12 < u" "u < 12" "- 2732 < q" "q < 2732"
  shows "wi2_calculate_wrap 1 12 (m + u) q = ((m - 1 + (12 * q + u)) mod 12 + 1, (m - 1 + (12 * q + u)) div 12)"
proof -
  let ?k = "m - 1 + (12 * q + u)"
  consider "m + u > 12" | "m + u < 1" | "1 \<le> m + u" "m + u \<le> 12" by linarith
  then show ?thesis
  proof cases
    case 1
    then have "?k div 12 = q + 1" using assms by (intro div_bounds) simp_all
    then show ?thesis using 1 assms minus_mult_div_eq_mod [of ?k 12] by (simp add: wi2_calculate_wrap_def s16_id)
  next
    case 2
    then have "?k div 12 = q - 1" using assms by (intro div_bounds) simp_all
    then show ?thesis using 2 assms minus_mult_div_eq_mod [of ?k 12] by (simp add: wi2_calculate_wrap_def s16_id)
  next
    case 3
    then have "?k div 12 = q" using assms by (intro div_bounds) simp_all
    then show ?thesis using 3 assms minus_mult_div_eq_mod [of ?k 12] by (simp add: wi2_calculate_wrap_def)
  qed
qed

lemma wi2_month:
  assumes "1 \<le> m" "m \<le> 12" "- 32768 \<le> f" "f \<le> 32767"
  shows "wi2_add 1 12 (wi2_init 1 12 m) (s16 f) = ((m - 1 + f) mod 12 + 1, (m - 1 + f) div 12)"
    "wi2_subtract 1 12 (wi2_init 1 12 m) (s16 f) = ((m - 1 - f) mod 12 + 1, (m - 1 - f) div 12)"
proof -
  note r = tdiv_range [OF assms(3,4)]
  have e: "m - 1 + (12 * tdiv f 12 + tmod f 12) = m - 1 + f" "m - 1 + (12 * (- tdiv f 12) + - tmod f 12) = m - 1 - f" using r(1) by simp_all
  have "wi2_add 1 12 (wi2_init 1 12 m) (s16 f) = wi2_calculate_wrap 1 12 (m + tmod f 12) (tdiv f 12)"
    "wi2_subtract 1 12 (wi2_init 1 12 m) (s16 f) = wi2_calculate_wrap 1 12 (m + - tmod f 12) (- tdiv f 12)"
    using assms r(2-5) by (simp_all add: wi2_add_def wi2_subtract_def wi2_init_def s16_id)
  then show "wi2_add 1 12 (wi2_init 1 12 m) (s16 f) = ((m - 1 + f) mod 12 + 1, (m - 1 + f) div 12)"
    "wi2_subtract 1 12 (wi2_init 1 12 m) (s16 f) = ((m - 1 - f) mod 12 + 1, (m - 1 - f) div 12)"
    using wrap_month [OF assms(1,2), of "tmod f 12" "tdiv f 12"] wrap_month [OF assms(1,2), of "- tmod f 12" "- tdiv f 12"] r(2-5)
    unfolding e by simp_all
qed

subsection \<open>Months later\<close>

text \<open>The date so many months later, on the remembered day of the month or on the last day of a shorter month; \<open>- 1\<close> is always the last day.\<close>

definition months_later :: "int \<Rightarrow> ymd \<Rightarrow> int \<Rightarrow> ymd" where
  "months_later orig t n =
     (let k = 12 * ymd_year t + (ymd_month t - 1) + n; y = k div 12; m = k mod 12 + 1; e = end_of_month_day y m
      in \<lparr>ymd_year = y, ymd_month = m, ymd_day = if orig = - 1 then e else min orig e\<rparr>)"

definition year_ok :: "ymd \<Rightarrow> bool" where
  "year_ok t \<longleftrightarrow> 1400 \<le> ymd_year t \<and> ymd_year t \<le> 10000"

definition orig_ok :: "int \<Rightarrow> bool" where
  "orig_ok orig \<longleftrightarrow> orig = - 1 \<or> 1 \<le> orig \<and> orig \<le> 31"

lemma months_later_fields:
  "ymd_year (months_later orig t n) = ymd_year t + (ymd_month t - 1 + n) div 12"
  "ymd_month (months_later orig t n) = (ymd_month t - 1 + n) mod 12 + 1"
  "ymd_day (months_later orig t n) =
     (let e = end_of_month_day (ymd_year t + (ymd_month t - 1 + n) div 12) ((ymd_month t - 1 + n) mod 12 + 1) in if orig = - 1 then e else min orig e)"
proof -
  have "12 * ymd_year t + (ymd_month t - 1) + n = (ymd_month t - 1 + n) + 12 * ymd_year t" by simp
  then have "(12 * ymd_year t + (ymd_month t - 1) + n) div 12 = ymd_year t + (ymd_month t - 1 + n) div 12"
    "(12 * ymd_year t + (ymd_month t - 1) + n) mod 12 = (ymd_month t - 1 + n) mod 12"
    using mod_mult_self2 [of "ymd_month t - 1 + n" 12 "ymd_year t"] by (simp_all add: algebra_simps)
  then show "ymd_year (months_later orig t n) = ymd_year t + (ymd_month t - 1 + n) div 12"
    "ymd_month (months_later orig t n) = (ymd_month t - 1 + n) mod 12 + 1"
    "ymd_day (months_later orig t n) =
     (let e = end_of_month_day (ymd_year t + (ymd_month t - 1 + n) div 12) ((ymd_month t - 1 + n) mod 12 + 1) in if orig = - 1 then e else min orig e)"
    by (simp_all add: months_later_def Let_def)
qed

lemma months_later_valid:
  assumes "orig_ok orig" "year_ok (months_later orig t n)"
  shows "ymd_valid (months_later orig t n)"
proof -
  define y m where "y = ymd_year (months_later orig t n)" and "m = ymd_month (months_later orig t n)"
  have "1 \<le> m" "m \<le> 12" by (simp_all add: m_def months_later_fields)
  moreover have "ymd_day (months_later orig t n) = (if orig = - 1 then end_of_month_day y m else min orig (end_of_month_day y m))"
    by (simp add: y_def m_def months_later_fields Let_def)
  moreover have "1 \<le> end_of_month_day y m" using end_of_month_le(1) [of y m] by simp
  ultimately show ?thesis using assms by (auto simp: ymd_valid_def year_ok_def orig_ok_def y_def [symmetric] m_def [symmetric])
qed

lemma month_offset_later:
  assumes t: "ymd_valid t" and orig: "orig_ok orig" and n: "- 32768 \<le> n" "n \<le> 32768"
  shows "month_offset_to orig (day_number t) t ((ymd_month t - 1 + n) mod 12 + 1, (ymd_month t - 1 + n) div 12) =
    (if year_ok (months_later orig t n) then Inr (day_number (months_later orig t n) - day_number t) else Inl Bad_year)"
proof -
  define y where "y = ymd_year t + (ymd_month t - 1 + n) div 12"
  define m where "m = (ymd_month t - 1 + n) mod 12 + 1"
  have v: "1400 \<le> ymd_year t" "ymd_year t \<le> 10000" "1 \<le> ymd_month t" "ymd_month t \<le> 12" using t by (simp_all add: ymd_valid_def)
  have "- 1335 \<le> y" "y \<le> 12735" unfolding y_def using v n div_range [of 12 "ymd_month t - 1 + n"] by linarith+
  then have s: "s16 ((ymd_month t - 1 + n) div 12 + ymd_year t) = y" by (simp add: s16_id y_def add.commute)
  have m: "1 \<le> m" "m \<le> 12" by (simp_all add: m_def)
  define e where "e = end_of_month_day y m"
  have e: "28 \<le> e" "e \<le> 31" using end_of_month_le [of y m] by (simp_all add: e_def)
  have l: "months_later orig t n = \<lparr>ymd_year = y, ymd_month = m, ymd_day = if orig = - 1 then e else min orig e\<rparr>"
    by (rule ymd.equality) (simp_all add: months_later_fields y_def m_def e_def Let_def)
  have gm: "greg_month m = Inr m" using m by (simp add: greg_month_def constrained_value_def unsigned_id)
  show ?thesis
  proof (cases "1400 \<le> y \<and> y \<le> 10000")
    case False
    have "greg_year y = Inl Bad_year"
    proof (cases "y < 0")
      case True
      then have "u16 y = y + 65536" using \<open>- 1335 \<le> y\<close> mod_pos_pos_trivial [of "y + 65536" 65536] by (simp add: u16_def)
      then show ?thesis using \<open>- 1335 \<le> y\<close> by (simp add: greg_year_def constrained_value_def)
    qed (use False \<open>y \<le> 12735\<close> in \<open>auto simp: greg_year_def constrained_value_def unsigned_id\<close>)
    then show ?thesis using False s l by (simp add: month_offset_to_def year_ok_def)
  next
    case True
    then have ok: "year_ok (months_later orig t n)" using l by (simp add: year_ok_def)
    note val = months_later_valid [OF orig ok, unfolded l]
    have gy: "greg_year y = Inr y" using True by (simp add: greg_year_def constrained_value_def unsigned_id)
    have gd: "greg_day orig = Inr orig" if "orig \<noteq> - 1"
      using that orig by (simp add: orig_ok_def greg_day_def constrained_value_def unsigned_id)
    have d: "date_minus_date (day_number (months_later orig t n)) (day_number t) = Inr (day_number (months_later orig t n) - day_number t)"
      using val by (intro date_diff_plain valid_plain t) (simp add: l)
    have "month_offset_to orig (day_number t) t (m, (ymd_month t - 1 + n) div 12) =
      sum_bind (date_new y m (if orig = - 1 then e else min orig e)) (\<lambda>d. date_minus_date d (day_number t))"
      using gd by (auto simp: month_offset_to_def s gy gm e_def [symmetric] min_def Let_def)
    then show ?thesis using date_new_of [OF val] d ok l by (simp add: m_def [symmetric])
  qed
qed

lemma int_days:
  assumes "ymd_valid t" "ymd_valid u"
  shows "date_plus (day_number t) (day_number u - day_number t) = Inr (day_number u)"
  using date_plus_plain [of "day_number t" "day_number u - day_number t"] valid_plain [OF assms(1)] valid_plain [OF assms(2)]
  by (simp add: plain_day_def plain_days_def)

lemma orig_day_ok: "ymd_valid t \<Longrightarrow> orig = 0 \<or> orig_ok orig \<Longrightarrow> orig_ok (orig_day_of_month orig t)"
  using end_of_month_le(2) [of "ymd_year t" "ymd_month t"] by (auto simp: orig_day_of_month_def orig_ok_def ymd_valid_def)

lemma month_functor_later:
  assumes t: "ymd_valid t" and orig: "orig = 0 \<or> orig_ok orig" and f: "- 32768 \<le> f" "f \<le> 32767"
  defines "o1 \<equiv> orig_day_of_month orig t"
  shows "month_functor_offset f orig (day_number t) =
      (if year_ok (months_later o1 t f) then Inr (day_number (months_later o1 t f) - day_number t, o1) else Inl Bad_year)"
    "month_functor_neg_offset f orig (day_number t) =
      (if year_ok (months_later o1 t (- f)) then Inr (day_number (months_later o1 t (- f)) - day_number t, o1) else Inl Bad_year)"
proof -
  have m: "1 \<le> ymd_month t" "ymd_month t \<le> 12" using t by (simp_all add: ymd_valid_def)
  note o1 = orig_day_ok [OF t orig, folded o1_def]
  show "month_functor_offset f orig (day_number t) =
      (if year_ok (months_later o1 t f) then Inr (day_number (months_later o1 t f) - day_number t, o1) else Inl Bad_year)"
    using month_offset_later [OF t o1, of f] f
    by (simp add: month_functor_offset_def date_ymd_number [OF t] wi2_month [OF m f] o1_def [symmetric] Let_def)
  show "month_functor_neg_offset f orig (day_number t) =
      (if year_ok (months_later o1 t (- f)) then Inr (day_number (months_later o1 t (- f)) - day_number t, o1) else Inl Bad_year)"
    using month_offset_later [OF t o1, of "- f"] f
    by (simp add: month_functor_neg_offset_def date_ymd_number [OF t] wi2_month [OF m f] o1_def [symmetric] Let_def)
qed

text \<open>The addition of months as the documentation states it: the same day of the month, the last day when the month is shorter, and from a last day to a last day.\<close>

definition add_months :: "ymd \<Rightarrow> int \<Rightarrow> date_error + int" where
  "add_months t n =
     (let u = months_later (orig_day_of_month 0 t) t n in if year_ok u then Inr (day_number u) else Inl Bad_year)"



subsection \<open>Month iterators\<close>

text \<open>Moving an iterator forwards (true) and backwards, and the number of steps it has moved.\<close>

fun itr_moves :: "bool list \<Rightarrow> date_itr \<Rightarrow> date_error + date_itr" where
  "itr_moves [] it = Inr it"
| "itr_moves (b # bs) it = sum_bind (if b then date_itr_inc it else date_itr_dec it) (itr_moves bs)"

fun net_moves :: "bool list \<Rightarrow> int" where
  "net_moves [] = 0"
| "net_moves (b # bs) = (if b then 1 else - 1) + net_moves bs"

lemma months_later_add: "months_later orig (months_later orig1 t a) b = months_later orig t (a + b)"
proof -
  have "12 * ymd_year (months_later orig1 t a) + (ymd_month (months_later orig1 t a) - 1) + b = 12 * ymd_year t + (ymd_month t - 1) + (a + b)"
    by (simp add: months_later_def Let_def)
  then show ?thesis by (simp only: months_later_def [of orig "months_later orig1 t a" b] months_later_def [of orig t "a + b"])
qed

lemma months_later_0: "ymd_valid t \<Longrightarrow> months_later (orig_day_of_month 0 t) t 0 = t"
  by (rule ymd.equality) (auto simp: months_later_fields Let_def orig_day_of_month_def ymd_valid_def)

text \<open>An iterator over the months from \<open>t\<close>, \<open>n\<close> months away from it.\<close>

definition month_itr_at :: "int \<Rightarrow> ymd \<Rightarrow> int \<Rightarrow> date_itr \<Rightarrow> bool" where
  "month_itr_at f t n it \<longleftrightarrow>
     (itr_functor it = Month_functor f \<or> (\<exists>y. itr_functor it = Year_functor y \<and> f = y * 12))
     \<and> (itr_orig it = orig_day_of_month 0 t \<or> itr_orig it = 0 \<and> n = 0)
     \<and> itr_current it = day_number (months_later (orig_day_of_month 0 t) t n)"

lemma month_itr_move:
  assumes t: "ymd_valid t" and f: "- 32768 \<le> f" "f \<le> 32767" and it: "month_itr_at f t n it"
    and n: "year_ok (months_later (orig_day_of_month 0 t) t n)"
  shows "if year_ok (months_later (orig_day_of_month 0 t) t (n + f)) then \<exists>it'. date_itr_inc it = Inr it' \<and> month_itr_at f t (n + f) it' else date_itr_inc it = Inl Bad_year"
    "if year_ok (months_later (orig_day_of_month 0 t) t (n - f)) then \<exists>it'. date_itr_dec it = Inr it' \<and> month_itr_at f t (n - f) it' else date_itr_dec it = Inl Bad_year"
proof -
  define o1 where "o1 = orig_day_of_month 0 t"
  define u where "u = months_later o1 t n"
  have o1: "orig_ok o1" unfolding o1_def by (rule orig_day_ok [OF t]) simp
  have u: "ymd_valid u" using months_later_valid [OF o1] n by (simp add: u_def o1_def)
  have orig: "itr_orig it = 0 \<or> orig_ok (itr_orig it)" "orig_day_of_month (itr_orig it) u = o1"
    using it o1 months_later_0 [OF t] by (auto simp: month_itr_at_def u_def o1_def orig_ok_def orig_day_of_month_def split: if_splits)
  have off: "functor_offset (itr_functor it) (itr_orig it) (day_number u) = month_functor_offset f (itr_orig it) (day_number u)"
    "functor_neg_offset (itr_functor it) (itr_orig it) (day_number u) = month_functor_neg_offset f (itr_orig it) (day_number u)"
    using it by (auto simp: month_itr_at_def functor_offset_def functor_neg_offset_def)
  have cur: "itr_current it = day_number u" using it by (simp add: month_itr_at_def u_def o1_def)
  have add: "months_later o1 u f = months_later o1 t (n + f)" "months_later o1 u (- f) = months_later o1 t (n - f)" by (simp_all add: u_def months_later_add)
  note later = month_functor_later [OF u orig(1) f, unfolded orig(2) add]
  note days = int_days [OF u months_later_valid [OF o1]]
  define to where "to m = it\<lparr>itr_orig := o1, itr_current := day_number (months_later o1 t m)\<rparr>" for m
  have at: "month_itr_at f t m (to m)" for m using it by (simp add: month_itr_at_def to_def o1_def)
  have inc: "date_itr_inc it = (if year_ok (months_later o1 t (n + f)) then Inr (to (n + f)) else Inl Bad_year)"
    and dec: "date_itr_dec it = (if year_ok (months_later o1 t (n - f)) then Inr (to (n - f)) else Inl Bad_year)"
    by (simp_all add: date_itr_inc_def date_itr_dec_def cur off later days to_def)
  show "if year_ok (months_later (orig_day_of_month 0 t) t (n + f)) then \<exists>it'. date_itr_inc it = Inr it' \<and> month_itr_at f t (n + f) it' else date_itr_inc it = Inl Bad_year"
    "if year_ok (months_later (orig_day_of_month 0 t) t (n - f)) then \<exists>it'. date_itr_dec it = Inr it' \<and> month_itr_at f t (n - f) it' else date_itr_dec it = Inl Bad_year"
    using at unfolding inc dec o1_def [symmetric] by auto
qed

lemma month_itr_moves:
  assumes t: "ymd_valid t" and f: "- 32768 \<le> f" "f \<le> 32767"
  shows "month_itr_at f t n it \<Longrightarrow> (\<And>j. j \<le> length bs \<Longrightarrow> year_ok (months_later (orig_day_of_month 0 t) t (n + net_moves (take j bs) * f))) \<Longrightarrow>
    \<exists>it'. itr_moves bs it = Inr it' \<and> month_itr_at f t (n + net_moves bs * f) it'"
proof (induction bs arbitrary: n it)
  case Nil
  then show ?case by simp
next
  case (Cons b bs)
  define n' where "n' = (if b then n + f else n - f)"
  have "year_ok (months_later (orig_day_of_month 0 t) t n)" using Cons.prems(2) [of 0] by simp
  moreover have "n + net_moves (take 1 (b # bs)) * f = n'" by (simp add: n'_def)
  then have "year_ok (months_later (orig_day_of_month 0 t) t n')" using Cons.prems(2) [of 1] by simp
  ultimately obtain it' where it': "(if b then date_itr_inc it else date_itr_dec it) = Inr it'" "month_itr_at f t n' it'"
    using month_itr_move [OF t f Cons.prems(1)] by (auto simp: n'_def split: if_splits)
  have "year_ok (months_later (orig_day_of_month 0 t) t (n' + net_moves (take j bs) * f))" if "j \<le> length bs" for j
    using Cons.prems(2) [of "Suc j"] that by (simp add: n'_def algebra_simps split: if_splits)
  from Cons.IH [OF it'(2) this] show ?case using it'(1) by (simp add: n'_def algebra_simps split: if_splits)
qed

subsection \<open>Properties\<close>



text \<open>With 2731 years the number of months no longer fits the 16-bit integer to which the functor narrows it: adding them to 7000-01-01 gives
  4269-09-01, a date before it, and adding them to 1400-01-01 throws, although the year 4131 is in range.\<close>

lemma year_addition_wraps:
  "date_plus_years (day_number \<lparr>ymd_year = 7000, ymd_month = 1, ymd_day = 1\<rparr>) 2731 = Inr (day_number \<lparr>ymd_year = 4269, ymd_month = 9, ymd_day = 1\<rparr>)
    \<and> date_plus_years (day_number \<lparr>ymd_year = 1400, ymd_month = 1, ymd_day = 1\<rparr>) 2731 = Inl Bad_year
    \<and> add_months \<lparr>ymd_year = 1400, ymd_month = 1, ymd_day = 1\<rparr> (12 * 2731) = Inr (day_number \<lparr>ymd_year = 4131, ymd_month = 1, ymd_day = 1\<rparr>)"
  by code_simp

text \<open>A month iterator does not drift: after any sequence of steps forwards and backwards it stands on the date in the month that its net number of steps leads to from the start,
  on the start's day of the month or the last day of a shorter month; in particular it is back on the start when the steps cancel out. A step to a year outside
  1400 to 10000 throws.\<close>

theorem month_iterator_does_not_drift:
  assumes "ymd_valid t" "- 32768 \<le> f" "f \<le> 32767"
    and "\<forall>j\<le>length bs. year_ok (months_later (orig_day_of_month 0 t) t (net_moves (take j bs) * f))"
  shows "\<exists>it it'. date_itr_new (Month_functor f) (day_number t) = Inr it \<and> itr_moves bs it = Inr it'
    \<and> itr_current it' = day_number (months_later (orig_day_of_month 0 t) t (net_moves bs * f))
    \<and> (net_moves bs = 0 \<longrightarrow> itr_current it' = day_number t)
    \<and> (\<not> year_ok (months_later (orig_day_of_month 0 t) t ((net_moves bs + 1) * f)) \<longrightarrow> date_itr_inc it' = Inl Bad_year)"
proof -
  define it where "it = \<lparr>itr_functor = Month_functor f, itr_orig = 0, itr_current = day_number t\<rparr>"
  have new: "date_itr_new (Month_functor f) (day_number t) = Inr it" by (simp add: date_itr_new_def it_def)
  have "month_itr_at f t 0 it" using months_later_0 [OF assms(1)] by (simp add: month_itr_at_def it_def)
  then obtain it' where it': "itr_moves bs it = Inr it'" "month_itr_at f t (net_moves bs * f) it'"
    using month_itr_moves [OF assms(1-3), of 0 it bs] assms(4) by auto
  have "year_ok (months_later (orig_day_of_month 0 t) t (net_moves bs * f))" using assms(4) [rule_format, of "length bs"] by simp
  from month_itr_move(1) [OF assms(1-3) it'(2) this]
  have "\<not> year_ok (months_later (orig_day_of_month 0 t) t ((net_moves bs + 1) * f)) \<longrightarrow> date_itr_inc it' = Inl Bad_year" by (simp add: algebra_simps)
  then show ?thesis using new it' months_later_0 [OF assms(1)] by (auto simp: month_itr_at_def)
qed

lemma month_iterator_does_not_drift_witness:
  "\<exists>it it'. date_itr_new (Month_functor 1) (day_number \<lparr>ymd_year = 2003, ymd_month = 1, ymd_day = 30\<rparr>) = Inr it \<and> itr_moves [True, True] it = Inr it'
    \<and> itr_current it' = day_number \<lparr>ymd_year = 2003, ymd_month = 3, ymd_day = 30\<rparr>"
proof -
  let ?t = "\<lparr>ymd_year = 2003, ymd_month = 1, ymd_day = 30\<rparr>"
  have "ymd_valid ?t" "months_later (orig_day_of_month 0 ?t) ?t 2 = \<lparr>ymd_year = 2003, ymd_month = 3, ymd_day = 30\<rparr>" by code_simp+
  moreover have "year_ok (months_later (orig_day_of_month 0 ?t) ?t (net_moves (take j [True, True]) * 1))" if "j \<le> 2" for j
  proof -
    have "year_ok (months_later (orig_day_of_month 0 ?t) ?t 0)" "year_ok (months_later (orig_day_of_month 0 ?t) ?t 1)" "year_ok (months_later (orig_day_of_month 0 ?t) ?t 2)"
      by code_simp+
    moreover from that have "j = 0 \<or> j = Suc 0 \<or> j = 2" by linarith
    ultimately show ?thesis by (auto simp del: One_nat_def)
  qed
  ultimately show ?thesis using month_iterator_does_not_drift [of ?t 1 "[True, True]"] by auto
qed

end
