(* ===== verification/Date_Generators.thy ===== *)
theory Date_Generators
  imports Gregorian_Date
begin

text \<open>
  Date generators (\<^verbatim>\<open>date_generators.hpp\<close>): partial dates, the \<open>n\<close>-th, first and last weekday of a month, the first weekday after and before a date, and the
  next and previous weekday. A loop that steps from day to day is a partial function, whose value is \<open>None\<close> when it does not end.
\<close>

subsection \<open>Partial dates\<close>

record partial_date =
  pd_day :: int
  pd_month :: int

definition partial_date_new :: "int \<Rightarrow> int \<Rightarrow> date_error + partial_date" where
  "partial_date_new d m = sum_bind (greg_day d) (\<lambda>d. sum_bind (greg_month m) (\<lambda>m. Inr \<lparr>pd_day = d, pd_month = m\<rparr>))"

definition partial_date_of_days :: "int \<Rightarrow> date_error + partial_date" where
  "partial_date_of_days days =
     sum_bind (date_new 2000 1 1) (\<lambda>d1.
     sum_bind
       (if ia_greater duration_int days 1 then
          (let days1 = (if ia_greater duration_int days 366 then 366 else days) in
           sum_bind (defined_result (ia_sub_int duration_int days1 1)) (\<lambda>dd. date_plus d1 dd))
        else Inr d1) (\<lambda>d1.
     sum_bind (date_ymd d1) (\<lambda>t. Inr \<lparr>pd_day = ymd_day t, pd_month = ymd_month t\<rparr>)))"

definition partial_date_get_date :: "partial_date \<Rightarrow> int \<Rightarrow> date_error + int" where
  "partial_date_get_date pd y =
     sum_bind (greg_year y) (\<lambda>y.
       if pd_day pd = 29 \<and> pd_month pd = 2 \<and> \<not> is_leap_year y then Inl Invalid_argument
       else date_new y (pd_month pd) (pd_day pd))"

definition partial_date_less :: "partial_date \<Rightarrow> partial_date \<Rightarrow> bool" where
  "partial_date_less pd rhs =
     (if pd_month pd < pd_month rhs then True
      else if pd_month pd > pd_month rhs then False
      else pd_day pd < pd_day rhs)"

definition partial_date_eq :: "partial_date \<Rightarrow> partial_date \<Rightarrow> bool" where
  "partial_date_eq pd rhs \<longleftrightarrow> pd_month pd = pd_month rhs \<and> pd_day pd = pd_day rhs"

text \<open>The number that \<^verbatim>\<open>to_string\<close> prints.\<close>

definition partial_date_posix :: "partial_date \<Rightarrow> date_error + int" where
  "partial_date_posix pd =
     sum_bind (date_new 2004 (pd_month pd) (pd_day pd)) (\<lambda>d. sum_bind (date_day_of_year d) (\<lambda>c. Inr (u16 (c - 1))))"

subsection \<open>Weekdays of a month\<close>

partial_function (option) forward_to_weekday :: "int \<Rightarrow> int \<Rightarrow> (date_error + int) option" where
  "forward_to_weekday dow d =
     (case date_day_of_week d of Inl e \<Rightarrow> Some (Inl e)
      | Inr w \<Rightarrow>
        (if dow \<noteq> w then (case date_plus d 1 of Inl e \<Rightarrow> Some (Inl e) | Inr d1 \<Rightarrow> forward_to_weekday dow d1)
         else Some (Inr d)))"

partial_function (option) back_to_weekday :: "int \<Rightarrow> int \<Rightarrow> (date_error + int) option" where
  "back_to_weekday dow d =
     (case date_day_of_week d of Inl e \<Rightarrow> Some (Inl e)
      | Inr w \<Rightarrow>
        (if dow \<noteq> w then (case date_minus d 1 of Inl e \<Rightarrow> Some (Inl e) | Inr d1 \<Rightarrow> back_to_weekday dow d1)
         else Some (Inr d)))"

declare forward_to_weekday.simps [code] back_to_weekday.simps [code]

function add_weeks :: "int \<Rightarrow> int \<Rightarrow> int \<Rightarrow> date_error + int" where
  "add_weeks week wn d = (if week < wn then sum_bind (date_plus d 7) (\<lambda>d1. add_weeks (week + 1) wn d1) else Inr d)"

  by pat_completeness auto
termination
  by (relation "measure (\<lambda>(week, wn, d). nat (wn - week))") auto

declare add_weeks.simps [simp del]

text \<open>The rest of \<^verbatim>\<open>get_date\<close> after an error or a result.\<close>

definition option_sum_bind :: "('e + 'a) option \<Rightarrow> ('a \<Rightarrow> ('e + 'b) option) \<Rightarrow> ('e + 'b) option" where
  "option_sum_bind r f = (case r of None \<Rightarrow> None | Some (Inl e) \<Rightarrow> Some (Inl e) | Some (Inr x) \<Rightarrow> f x)"

definition nth_kday_of_month :: "int \<Rightarrow> int \<Rightarrow> int \<Rightarrow> int \<Rightarrow> (date_error + int) option" where
  "nth_kday_of_month wn dow month y =
     option_sum_bind (Some (date_new y month 1)) (\<lambda>d.
     option_sum_bind (forward_to_weekday dow d) (\<lambda>d.
     Some (sum_bind (add_weeks 1 wn d) (\<lambda>d.
       sum_bind (date_ymd d) (\<lambda>t. if ymd_month t \<noteq> month then date_minus d 7 else Inr d)))))"

definition first_kday_of_month :: "int \<Rightarrow> int \<Rightarrow> int \<Rightarrow> (date_error + int) option" where
  "first_kday_of_month dow month year = option_sum_bind (Some (date_new year month 1)) (forward_to_weekday dow)"

definition last_kday_of_month :: "int \<Rightarrow> int \<Rightarrow> int \<Rightarrow> (date_error + int) option" where
  "last_kday_of_month dow month year =
     option_sum_bind (Some (sum_bind (greg_year year) (\<lambda>year. date_new year month (end_of_month_day year month)))) (back_to_weekday dow)"

definition first_kday_after :: "int \<Rightarrow> int \<Rightarrow> (date_error + int) option" where
  "first_kday_after dow start_day = option_sum_bind (Some (date_plus start_day 1)) (forward_to_weekday dow)"

definition first_kday_before :: "int \<Rightarrow> int \<Rightarrow> (date_error + int) option" where
  "first_kday_before dow start_day = option_sum_bind (Some (date_minus start_day 1)) (back_to_weekday dow)"

definition days_until_weekday :: "int \<Rightarrow> int \<Rightarrow> date_error + int" where
  "days_until_weekday d wd =
     sum_bind (date_day_of_week d) (\<lambda>w. let dd = wd - w in duration_plus dd (if duration_is_negative dd then 7 else 0))"

definition days_before_weekday :: "int \<Rightarrow> int \<Rightarrow> date_error + int" where
  "days_before_weekday d wd =
     sum_bind (date_day_of_week d) (\<lambda>w. let dd = wd - w in sum_bind (duration_uminus dd) (\<lambda>n. duration_plus n (if dd > 0 then 7 else 0)))"

definition next_weekday :: "int \<Rightarrow> int \<Rightarrow> date_error + int" where
  "next_weekday d wd = sum_bind (days_until_weekday d wd) (date_plus d)"

definition previous_weekday :: "int \<Rightarrow> int \<Rightarrow> date_error + int" where
  "previous_weekday d wd = sum_bind (days_before_weekday d wd) (date_minus d)"

subsection \<open>Weekdays by number\<close>

definition weekday :: "int \<Rightarrow> int" where
  "weekday n = (n + 1) mod 7"

text \<open>The day of a weekday among the seven from, or up to, a day.\<close>

definition kday_from :: "int \<Rightarrow> int \<Rightarrow> int" where
  "kday_from n dow = n + (dow - weekday n) mod 7"

definition kday_to :: "int \<Rightarrow> int \<Rightarrow> int" where
  "kday_to n dow = n - (weekday n - dow) mod 7"

lemma kday_from_weekday:
  assumes "0 \<le> dow" "dow < 7"
  shows "weekday (kday_from n dow) = dow \<and> n \<le> kday_from n dow \<and> kday_from n dow < n + 7"
proof -
  have "weekday (kday_from n dow) = ((n + 1) + (dow - (n + 1))) mod 7"
    using mod_add_right_eq [of "n + 1" "dow - (n + 1)" 7] mod_diff_right_eq [of dow "n + 1" 7] by (simp add: weekday_def kday_from_def ac_simps)
  then show ?thesis using assms pos_mod_bound [of 7 "dow - weekday n"] pos_mod_sign [of 7 "dow - weekday n"] by (simp add: kday_from_def)
qed

lemma kday_to_weekday:
  assumes "0 \<le> dow" "dow < 7"
  shows "weekday (kday_to n dow) = dow \<and> n - 7 < kday_to n dow \<and> kday_to n dow \<le> n"
proof -
  have "weekday (kday_to n dow) = ((n + 1) - (n + 1 - dow)) mod 7"
    using mod_diff_right_eq [of "n + 1" "n + 1 - dow" 7] mod_diff_left_eq [of "n + 1" 7 dow] by (simp add: weekday_def kday_to_def algebra_simps)
  then show ?thesis using assms pos_mod_bound [of 7 "weekday n - dow"] pos_mod_sign [of 7 "weekday n - dow"] by (simp add: kday_to_def)
qed

lemma kday_unique:
  assumes "weekday r = weekday s" "a \<le> r" "r < a + 7" "a \<le> s" "s < a + 7"
  shows "r = s"
proof (rule ccontr)
  assume "r \<noteq> s"
  moreover have "7 dvd r - s" using assms(1) by (simp add: weekday_def mod_eq_dvd_iff)
  ultimately have "7 \<le> \<bar>r - s\<bar>" using dvd_imp_le_int [of "r - s" 7] by simp
  then show False using assms by linarith
qed

lemma day_of_week_plain:
  assumes "2232400 \<le> n" "n \<le> 5373850"
  shows "date_day_of_week n = Inr (weekday n)"
proof -
  obtain t where t: "ymd_valid t" "day_number t = n" using day_number_onto [OF assms] by blast
  have "from_day_number n = Inr t" using from_day_number_inverse [OF t(1)] t(2) by simp
  moreover have "cal_day_of_week t = weekday n" using day_of_week_number [OF t(1)] t(2) by (simp add: weekday_def)
  moreover have "0 \<le> weekday n" "weekday n < 7" by (simp_all add: weekday_def)
  ultimately show ?thesis by (simp add: date_day_of_week_def greg_weekday_def constrained_value_def unsigned_id)
qed

text \<open>The days around the calendar.\<close>

lemma outside_days: "list_all (\<lambda>n. from_day_number n = Inl Bad_year) ([5373851..5373885] @ [2232390..2232399])"
  by code_simp

lemma outside_calendar:
  assumes "5373851 \<le> n \<and> n \<le> 5373885 \<or> 2232390 \<le> n \<and> n \<le> 2232399"
  shows "from_day_number n = Inl Bad_year"
proof -
  have "n \<in> set ([5373851..5373885] @ [2232390..2232399])" using assms by (simp only: set_append set_upto Un_iff atLeastAtMost_iff)
  then show ?thesis by (rule bspec [OF outside_days [unfolded list_all_iff]])
qed

lemma plain_range: "2232300 \<le> n \<Longrightarrow> n \<le> 5374000 \<Longrightarrow> plain_day n"
  by (simp add: plain_day_def)

lemma step_day:
  assumes "2232300 \<le> n" "n \<le> 5373900" "- 50 \<le> d" "d \<le> 50"
  shows "date_plus n d = Inr (n + d)" "date_minus n d = Inr (n - d)"
  using assms date_plus_plain [of n d] date_minus_plain [of n d] by (simp_all add: plain_days_def plain_day_def)

lemma forward_to_weekday_from:
  assumes dow: "0 \<le> dow" "dow < 7" and n: "2232400 \<le> n" "n \<le> 5373851"
  shows "forward_to_weekday dow n = Some (if kday_from n dow \<le> 5373850 then Inr (kday_from n dow) else Inl Bad_year)"
  using n
proof (induction "nat (kday_from n dow - n)" arbitrary: n rule: less_induct)
  case less
  note k = kday_from_weekday [OF dow, of n]
  show ?case
  proof (cases "n = 5373851")
    case True
    then show ?thesis using k outside_calendar [of n]
      by (simp add: forward_to_weekday.simps [of dow 5373851] date_day_of_week_def)
  next
    case False
    then have w: "date_day_of_week n = Inr (weekday n)" using less.prems by (intro day_of_week_plain) simp_all
    show ?thesis
    proof (cases "dow = weekday n")
      case True
      then have "kday_from n dow = n" by (simp add: kday_from_def)
      then show ?thesis using True w False less.prems by (simp add: forward_to_weekday.simps [of "weekday n" n])
    next
      case ne: False
      then have "kday_from n dow \<noteq> n" using k by auto
      then have "n + 1 \<le> kday_from n dow" using k by simp
      have eq: "kday_from (n + 1) dow = kday_from n dow"
        by (rule kday_unique [of _ _ "n + 1"]) (use k kday_from_weekday [OF dow, of "n + 1"] \<open>n + 1 \<le> kday_from n dow\<close> in linarith)+
      have "nat (kday_from (n + 1) dow - (n + 1)) < nat (kday_from n dow - n)" "2232400 \<le> n + 1" "n + 1 \<le> 5373851"
        using less.prems False \<open>n + 1 \<le> kday_from n dow\<close> unfolding eq by linarith+
      from less.hyps [OF this] have "forward_to_weekday dow (n + 1) = Some (if kday_from n dow \<le> 5373850 then Inr (kday_from n dow) else Inl Bad_year)"
        unfolding eq .
      moreover have "date_plus n 1 = Inr (n + 1)" using step_day(1) [of n 1] less.prems by simp
      ultimately show ?thesis by (simp only: forward_to_weekday.simps [of dow n] w ne if_False if_True sum.case not_False_eq_True)
    qed
  qed
qed

lemma back_to_weekday_to:
  assumes dow: "0 \<le> dow" "dow < 7" and n: "2232399 \<le> n" "n \<le> 5373850"
  shows "back_to_weekday dow n = Some (if 2232400 \<le> kday_to n dow then Inr (kday_to n dow) else Inl Bad_year)"
  using n
proof (induction "nat (n - kday_to n dow)" arbitrary: n rule: less_induct)
  case less
  note k = kday_to_weekday [OF dow, of n]
  show ?case
  proof (cases "n = 2232399")
    case True
    then show ?thesis using k outside_calendar [of n]
      by (simp add: back_to_weekday.simps [of dow 2232399] date_day_of_week_def)
  next
    case False
    then have w: "date_day_of_week n = Inr (weekday n)" using less.prems by (intro day_of_week_plain) simp_all
    show ?thesis
    proof (cases "dow = weekday n")
      case True
      then have "kday_to n dow = n" by (simp add: kday_to_def)
      then show ?thesis using True w False less.prems by (simp add: back_to_weekday.simps [of "weekday n" n])
    next
      case ne: False
      then have "kday_to n dow \<noteq> n" using k by auto
      then have "kday_to n dow \<le> n - 1" using k by simp
      have eq: "kday_to (n - 1) dow = kday_to n dow"
        by (rule kday_unique [of _ _ "n - 7"]) (use k kday_to_weekday [OF dow, of "n - 1"] \<open>kday_to n dow \<le> n - 1\<close> in linarith)+
      have "nat (n - 1 - kday_to (n - 1) dow) < nat (n - kday_to n dow)" "2232399 \<le> n - 1" "n - 1 \<le> 5373850"
        using less.prems False \<open>kday_to n dow \<le> n - 1\<close> unfolding eq by linarith+
      from less.hyps [OF this] have "back_to_weekday dow (n - 1) = Some (if 2232400 \<le> kday_to n dow then Inr (kday_to n dow) else Inl Bad_year)"
        unfolding eq .
      moreover have "date_minus n 1 = Inr (n - 1)" using step_day(2) [of n 1] less.prems by simp
      ultimately show ?thesis by (simp only: back_to_weekday.simps [of dow n] w ne if_False if_True sum.case not_False_eq_True)
    qed
  qed
qed

subsection \<open>Months by number\<close>

definition month_start :: "int \<Rightarrow> int \<Rightarrow> int" where
  "month_start y m = day_number \<lparr>ymd_year = y, ymd_month = m, ymd_day = 1\<rparr>"

lemma month_day:
  assumes "ymd_valid \<lparr>ymd_year = y, ymd_month = m, ymd_day = d\<rparr>"
  shows "day_number \<lparr>ymd_year = y, ymd_month = m, ymd_day = d\<rparr> = month_start y m + d - 1"
proof -
  have "ymd_valid \<lparr>ymd_year = y, ymd_month = m, ymd_day = 1\<rparr>" using assms by (simp add: ymd_valid_def)
  then show ?thesis using day_number_valid [OF assms]
    by (simp add: month_start_def day_number_valid march_day_def march_month_def march_year_def)
qed

lemma in_month:
  assumes y: "1400 \<le> y" "y \<le> 10000" "1 \<le> m" "m \<le> 12" and n: "month_start y m \<le> n" "n < month_start y m + end_of_month_day y m"
  shows "date_ymd n = Inr \<lparr>ymd_year = y, ymd_month = m, ymd_day = n - month_start y m + 1\<rparr>" "2232400 \<le> n" "n \<le> 5373850"
proof -
  let ?t = "\<lparr>ymd_year = y, ymd_month = m, ymd_day = n - month_start y m + 1\<rparr>"
  have t: "ymd_valid ?t" using y n by (simp add: ymd_valid_def)
  then have "day_number ?t = n" using month_day [OF t] by simp
  then show "date_ymd n = Inr ?t" "2232400 \<le> n" "n \<le> 5373850" using date_ymd_number [OF t] day_number_bounds [OF t] by simp_all
qed

lemma next_month_start:
  assumes y: "1400 \<le> y" "y \<le> 10000" "1 \<le> m" "m \<le> 12" and "\<not> (y = 10000 \<and> m = 12)"
  shows "month_start y m + end_of_month_day y m = (if m = 12 then month_start (y + 1) 1 else month_start y (m + 1))"
proof -
  let ?t = "\<lparr>ymd_year = y, ymd_month = m, ymd_day = end_of_month_day y m\<rparr>"
  have t: "ymd_valid ?t" using y end_of_month_le(1) [of y m] by (simp add: ymd_valid_def)
  have "?t \<noteq> \<lparr>ymd_year = 10000, ymd_month = 12, ymd_day = 31\<rparr>" using assms(5) by auto
  from next_day_number [OF t next_day_valid [OF t this]] show ?thesis using month_day [OF t] y by (auto simp: next_day_def month_start_def split: if_splits)
qed

lemma month_of_late_day:
  assumes y: "1400 \<le> y" "y \<le> 10000" "1 \<le> m" "m \<le> 12"
    and n: "month_start y m + end_of_month_day y m \<le> n" "n < month_start y m + end_of_month_day y m + 7"
  shows "if y = 10000 \<and> m = 12 then date_ymd n = Inl Bad_year else \<exists>t. date_ymd n = Inr t \<and> ymd_month t \<noteq> m"
proof (cases "y = 10000 \<and> m = 12")
  case True
  have "month_start 10000 12 + end_of_month_day 10000 12 = 5373851" by code_simp
  then show ?thesis using True n outside_calendar [of n] by (simp add: date_ymd_def)
next
  case False
  note s = next_month_start [OF y False]
  show ?thesis
  proof (cases "m = 12")
    case True
    then have "date_ymd n = Inr \<lparr>ymd_year = y + 1, ymd_month = 1, ymd_day = n - month_start (y + 1) 1 + 1\<rparr>"
      using in_month(1) [of "y + 1" 1 n] s n y False end_of_month_le(1) [of "y + 1" 1] by simp
    then show ?thesis using True False by simp
  next
    case m: False
    then have "date_ymd n = Inr \<lparr>ymd_year = y, ymd_month = m + 1, ymd_day = n - month_start y (m + 1) + 1\<rparr>"
      using in_month(1) [of y "m + 1" n] s n y end_of_month_le(1) [of y "m + 1"] by simp
    then show ?thesis using m by simp
  qed
qed

lemma add_weeks_plain:
  assumes "2232400 \<le> n" "n + 7 * (wn - week) \<le> 5373900" "week \<le> wn"
  shows "add_weeks week wn n = Inr (n + 7 * (wn - week))"
  using assms
proof (induction week wn n rule: add_weeks.induct)
  case (1 week wn n)
  show ?case
  proof (cases "week < wn")
    case True
    then have "date_plus n 7 = Inr (n + 7)" using 1 step_day(1) [of n 7] by simp
    then show ?thesis using 1 True by (simp add: add_weeks.simps [of week wn n] algebra_simps)
  qed (use 1 in \<open>simp add: add_weeks.simps [of wn wn n]\<close>)
qed

lemma month_date:
  assumes "1400 \<le> y" "y \<le> 10000" "1 \<le> m" "m \<le> 12"
  shows "date_new y m 1 = Inr (month_start y m)" "date_new y m (end_of_month_day y m) = Inr (month_start y m + end_of_month_day y m - 1)"
    "2232400 \<le> month_start y m" "month_start y m + end_of_month_day y m \<le> 5373851"
proof -
  have v: "ymd_valid \<lparr>ymd_year = y, ymd_month = m, ymd_day = 1\<rparr>" "ymd_valid \<lparr>ymd_year = y, ymd_month = m, ymd_day = end_of_month_day y m\<rparr>"
    using assms end_of_month_le(1) [of y m] by (simp_all add: ymd_valid_def)
  show "date_new y m 1 = Inr (month_start y m)" "date_new y m (end_of_month_day y m) = Inr (month_start y m + end_of_month_day y m - 1)"
    using date_new_of [OF v(1)] date_new_of [OF v(2)] month_day [OF v(2)] by (simp_all add: month_start_def)
  show "2232400 \<le> month_start y m" "month_start y m + end_of_month_day y m \<le> 5373851"
    using day_number_bounds [OF v(1)] day_number_bounds [OF v(2)] month_day [OF v(2)] by (simp_all add: month_start_def)
qed

lemma first_kday_of_month_from:
  assumes "1400 \<le> y" "y \<le> 10000" "1 \<le> m" "m \<le> 12" "0 \<le> dow" "dow < 7"
  shows "first_kday_of_month dow m y = Some (Inr (kday_from (month_start y m) dow))"
  using month_date [OF assms(1-4)] forward_to_weekday_from [OF assms(5,6), of "month_start y m"] kday_from_weekday [OF assms(5,6), of "month_start y m"] end_of_month_le(1) [of y m]
  by (simp add: first_kday_of_month_def option_sum_bind_def)

lemma last_kday_of_month_to:
  assumes "1400 \<le> y" "y \<le> 10000" "1 \<le> m" "m \<le> 12" "0 \<le> dow" "dow < 7"
  shows "last_kday_of_month dow m y = Some (Inr (kday_to (month_start y m + end_of_month_day y m - 1) dow))"
proof -
  have "greg_year y = Inr y" using assms by (simp add: greg_year_def constrained_value_def unsigned_id)
  then show ?thesis using month_date [OF assms(1-4)] end_of_month_le(1) [of y m] back_to_weekday_to [OF assms(5,6), of "month_start y m + end_of_month_day y m - 1"]
      kday_to_weekday [OF assms(5,6), of "month_start y m + end_of_month_day y m - 1"]
    by (simp add: last_kday_of_month_def option_sum_bind_def)
qed

lemma nth_kday_of_month_from:
  assumes y: "1400 \<le> y" "y \<le> 10000" "1 \<le> m" "m \<le> 12" and dow: "0 \<le> dow" "dow < 7" and wn: "1 \<le> wn" "wn \<le> 5"
  defines "r \<equiv> kday_from (month_start y m) dow + 7 * (wn - 1)" and "e \<equiv> month_start y m + end_of_month_day y m"
  shows "nth_kday_of_month wn dow m y = Some (if r < e then Inr r else if y = 10000 \<and> m = 12 then Inl Bad_year else Inr (r - 7))"
proof -
  note d = month_date [OF y] and k = kday_from_weekday [OF dow, of "month_start y m"] and el = end_of_month_le [of y m]
  have "forward_to_weekday dow (month_start y m) = Some (Inr (kday_from (month_start y m) dow))"
    using forward_to_weekday_from [OF dow, of "month_start y m"] d(3,4) el k by simp
  moreover have "add_weeks 1 wn (kday_from (month_start y m) dow) = Inr r"
    unfolding r_def using d(3,4) k wn el by (intro add_weeks_plain) auto
  ultimately have nth: "nth_kday_of_month wn dow m y = Some (sum_bind (date_ymd r) (\<lambda>t. if ymd_month t \<noteq> m then date_minus r 7 else Inr r))"
    using d(1) by (simp add: nth_kday_of_month_def option_sum_bind_def)
  have r: "month_start y m \<le> r" "r < month_start y m + 35" using k wn by (simp_all add: r_def)
  show ?thesis
  proof (cases "r < e")
    case True
    then show ?thesis using nth in_month(1) [OF y, of r] r(1) by (simp add: e_def)
  next
    case False
    then have "if y = 10000 \<and> m = 12 then date_ymd r = Inl Bad_year else \<exists>t. date_ymd r = Inr t \<and> ymd_month t \<noteq> m"
      using month_of_late_day [OF y, of r] r el by (simp add: e_def)
    moreover have "date_minus r 7 = Inr (r - 7)" using step_day(2) [of r 7] r d(3,4) el by simp
    ultimately show ?thesis using nth False by (auto split: if_splits)
  qed
qed

subsection \<open>Neighbouring weekdays\<close>

lemma duration_small:
  assumes "- 50 \<le> a" "a \<le> 50" "- 50 \<le> b" "b \<le> 50"
  shows "duration_plus a b = Inr (a + b)" "duration_uminus a = Inr (- a)" "duration_is_negative a \<longleftrightarrow> a < 0"
proof -
  have 4: "4 \<le> it_bits duration_int" "it_signed duration_int" by code_simp+
  have sm: "\<not> is_special duration_int x" "it_ok duration_int x" "ia_abs duration_int x = Fin x" if "- 100 \<le> x" "x \<le> 100" for x
    using that by (auto simp: special_defs date_limits it_ok_def ia_abs_def)
  show "duration_plus a b = Inr (a + b)"
    using assms sm [of a] sm [of b] sm [of "a + b"] arith_id [OF 4(1), of "a + b"] cast_id [OF 4(1), of b]
    by (auto simp: duration_plus_def ia_add_def special_defs date_limits defined_result_def)
  show "duration_uminus a = Inr (- a)"
    using assms sm [of a] sm [of "- a"] arith_id [OF 4(1), of "- a"] cast_id [OF 4(1), of "- 1"] sm(2) [of "- 1"]
    by (auto simp: duration_uminus_def ia_mult_int_def defined_result_def)
  show "duration_is_negative a \<longleftrightarrow> a < 0"
    using assms sm [of a] sm [of 0] compare_ext [OF 4(1), of a 0] cast_id [OF 4(1), of 0] 4(2)
    by (auto simp: duration_is_negative_def ia_less_int_def)
qed

lemma next_weekday_from:
  assumes n: "2232400 \<le> n" "n \<le> 5373850" and dow: "0 \<le> dow" "dow < 7"
  shows "next_weekday n dow = Inr (kday_from n dow)" "previous_weekday n dow = Inr (kday_to n dow)"
proof -
  have w: "0 \<le> weekday n" "weekday n < 7" by (simp_all add: weekday_def)
  have "(dow - weekday n) mod 7 = (if dow < weekday n then dow - weekday n + 7 else dow - weekday n)"
    "(weekday n - dow) mod 7 = (if dow > weekday n then weekday n - dow + 7 else weekday n - dow)"
    using w dow mod_pos_pos_trivial [of "dow - weekday n + 7" 7] mod_pos_pos_trivial [of "weekday n - dow + 7" 7] by auto
  then show "next_weekday n dow = Inr (kday_from n dow)" "previous_weekday n dow = Inr (kday_to n dow)"
    using w dow n day_of_week_plain [OF n] step_day [of n]
    by (auto simp: next_weekday_def previous_weekday_def days_until_weekday_def days_before_weekday_def Let_def duration_small(1) duration_small(2,3) [of _ 0, simplified] kday_from_def kday_to_def)
qed

subsection \<open>Days of a year\<close>

lemma leap_years_apart:
  assumes "1 \<le> m" "m \<le> 12" "1 \<le> d" "d \<le> end_of_month_day 2000 m"
  shows "date_new 2004 m d = Inr (day_number \<lparr>ymd_year = 2000, ymd_month = m, ymd_day = d\<rparr> + 1461)"
proof -
  have "end_of_month_day 2000 m = end_of_month_day 2004 m" by (simp add: end_of_month_day_def is_leap_year_def)
  then have v: "ymd_valid \<lparr>ymd_year = 2000, ymd_month = m, ymd_day = d\<rparr>" "ymd_valid \<lparr>ymd_year = 2004, ymd_month = m, ymd_day = d\<rparr>"
    using assms by (simp_all add: ymd_valid_def)
  have "year_days 6804 = year_days 6800 + 1461" "year_days 6803 = year_days 6799 + 1461" by code_simp+
  then have "day_number \<lparr>ymd_year = 2004, ymd_month = m, ymd_day = d\<rparr> = day_number \<lparr>ymd_year = 2000, ymd_month = m, ymd_day = d\<rparr> + 1461"
    using v by (simp add: day_number_valid march_day_def march_month_def march_year_def)
  then show ?thesis using date_new_of [OF v(2)] by simp
qed

lemma day_of_year_2004:
  assumes "0 \<le> k" "k \<le> 365"
  shows "date_day_of_year (2453006 + k) = Inr (k + 1)"
proof -
  have jan: "jan1 2004 = 2453006" "jan1 (2004 + 1) = 2453372" by code_simp+
  have "2232400 \<le> 2453006 + k" "2453006 + k \<le> 5373850" using assms by simp_all
  then obtain t where t: "ymd_valid t" "day_number t = 2453006 + k" using day_number_onto by blast
  have y: "ymd_year t = 2004" using year_unique [OF t(1), of 2004] jan t(2) assms by simp
  have "date_new 2004 1 1 = Inr 2453006" by code_simp
  then show ?thesis using date_ymd_number [OF t(1)] t(2) y date_diff_plain [of "2453006 + k" 2453006] assms
    by (simp add: date_day_of_year_def plain_day_def unsigned_id greg_day_of_year_def constrained_value_def)
qed

lemma partial_date_day:
  assumes "0 \<le> k" "k \<le> 365"
  shows "\<exists>m d. date_ymd (2451545 + k) = Inr \<lparr>ymd_year = 2000, ymd_month = m, ymd_day = d\<rparr> \<and> date_new 2004 m d = Inr (2453006 + k)"
proof -
  have jan: "jan1 2000 = 2451545" "jan1 (2000 + 1) = 2451911" by code_simp+
  have "2232400 \<le> 2451545 + k" "2451545 + k \<le> 5373850" using assms by simp_all
  then obtain t where t: "ymd_valid t" "day_number t = 2451545 + k" using day_number_onto by blast
  obtain y m d where e: "t = \<lparr>ymd_year = y, ymd_month = m, ymd_day = d\<rparr>" by (cases t)
  have "y = 2000" using year_unique [OF t(1), of 2000] jan t(2) assms e by simp
  then have "date_new 2004 m d = Inr (2453006 + k)" using leap_years_apart [of m d] t e by (simp add: ymd_valid_def)
  then show ?thesis using date_ymd_number [OF t(1)] t(2) e \<open>y = 2000\<close> by auto
qed

text \<open>The number of days into the year that a partial date takes, at least 1 and at most 366.\<close>

definition clamp_day :: "int \<Rightarrow> int" where
  "clamp_day n = max 1 (min 366 n)"

lemma partial_date_of_days_eq:
  assumes "it_ok duration_int n" "\<not> is_special duration_int n"
  shows "partial_date_of_days n = sum_bind (date_ymd (2451545 + (clamp_day n - 1))) (\<lambda>t. Inr \<lparr>pd_day = ymd_day t, pd_month = ymd_month t\<rparr>)"
proof -
  have 4: "4 \<le> it_bits duration_int" by code_simp
  have sp: "\<not> is_special duration_int x" "it_ok duration_int x" "ia_abs duration_int x = Fin x" if "1 \<le> x" "x \<le> 366" for x
    using that by (auto simp: special_defs date_limits it_ok_def ia_abs_def)
  have n: "ia_abs duration_int n = Fin n" using assms(2) by (auto simp: ia_abs_def is_special_def is_inf_def is_neg_inf_def is_pos_inf_def)
  have gt: "ia_greater duration_int n x \<longleftrightarrow> n > x" if "x = 1 \<or> x = 366" for x
    using compare_ext [OF 4 assms(1), of x] sp [of x] n that by (auto simp: ia_greater_def split: if_splits)
  have d1: "date_new 2000 1 1 = Inr 2451545" by code_simp
  have sub: "ia_sub_int duration_int x 1 = Some (x - 1)" if "1 \<le> x" "x \<le> 366" for x
    using sp [OF that] arith_id [OF 4, of "x - 1"] that by (auto simp: ia_sub_int_def is_special_def it_ok_def date_limits)
  have add: "date_plus 2451545 x = Inr (2451545 + x)" if "0 \<le> x" "x \<le> 365" for x
    using that by (intro date_plus_plain) (simp_all add: plain_day_def plain_days_def)
  consider "n \<le> 1" | "1 < n" "n \<le> 366" | "366 < n" by linarith
  then show ?thesis
    by cases (use d1 gt sub [of n] sub [of 366] add [of "n - 1"] add [of 365] in \<open>simp_all add: partial_date_of_days_def clamp_day_def defined_result_def\<close>)
qed

subsection \<open>Properties\<close>

text \<open>C40 The generators for weekdays of a month return, for every year from 1400 to 10000, month and weekday: the first is the one among the first seven days of the month, the last the one among
  its last seven days, the \<open>n\<close>-th the one among the \<open>n\<close>-th seven days, and the fifth is the last one, whether or not the month has five, except
  when the fifth would be past December 10000, the end of the calendar: then a bad year is reported.\<close>

theorem weekdays_of_a_month:
  assumes "1400 \<le> y" "y \<le> 10000" "1 \<le> m" "m \<le> 12" "0 \<le> dow" "dow < 7"
  shows "(\<exists>r. first_kday_of_month dow m y = Some (Inr r) \<and> date_day_of_week r = Inr dow \<and> month_start y m \<le> r \<and> r < month_start y m + 7)
    \<and> (\<exists>r. last_kday_of_month dow m y = Some (Inr r) \<and> date_day_of_week r = Inr dow
          \<and> month_start y m + end_of_month_day y m - 7 \<le> r \<and> r < month_start y m + end_of_month_day y m)
    \<and> (\<forall>wn. 1 \<le> wn \<and> wn \<le> 4 \<longrightarrow> (\<exists>r. nth_kday_of_month wn dow m y = Some (Inr r) \<and> date_day_of_week r = Inr dow
          \<and> month_start y m + 7 * (wn - 1) \<le> r \<and> r < month_start y m + 7 * wn))
    \<and> nth_kday_of_month 5 dow m y =
        (if y = 10000 \<and> m = 12 \<and> 5373850 < kday_from (month_start y m) dow + 28 then Some (Inl Bad_year) else last_kday_of_month dow m y)"
proof -
  let ?s = "month_start y m" and ?e = "month_start y m + end_of_month_day y m"
  note d = month_date [OF assms(1-4)] and el = end_of_month_le [of y m]
  note k = kday_from_weekday [OF assms(5,6), of ?s] and l = kday_to_weekday [OF assms(5,6), of "?e - 1"]
  have w: "date_day_of_week r = Inr dow" if "weekday r = dow" "?s \<le> r" "r < ?e" for r using day_of_week_plain [of r] that d(3,4) by simp
  have w7: "weekday (r + 7 * j) = weekday r" for r j using mod_mult_self2 [of "r + 1" 7 j] by (simp add: weekday_def algebra_simps)
  let ?k = "kday_from ?s dow" and ?l = "kday_to (?e - 1) dow"
  have 1: "\<exists>r. first_kday_of_month dow m y = Some (Inr r) \<and> date_day_of_week r = Inr dow \<and> ?s \<le> r \<and> r < ?s + 7"
    using first_kday_of_month_from [OF assms] k el w [of ?k] by (intro exI [of _ ?k]) simp
  have 2: "\<exists>r. last_kday_of_month dow m y = Some (Inr r) \<and> date_day_of_week r = Inr dow \<and> ?e - 7 \<le> r \<and> r < ?e"
    using last_kday_of_month_to [OF assms] l el w [of ?l] by (intro exI [of _ ?l]) simp
  have 3: "\<exists>r. nth_kday_of_month wn dow m y = Some (Inr r) \<and> date_day_of_week r = Inr dow \<and> ?s + 7 * (wn - 1) \<le> r \<and> r < ?s + 7 * wn"
    if "1 \<le> wn" "wn \<le> 4" for wn
    using nth_kday_of_month_from [OF assms, of wn] k el that w7 [of ?k "wn - 1"] w [of "?k + 7 * (wn - 1)"]
    by (intro exI [of _ "?k + 7 * (wn - 1)"]) simp
  have five: "?l = (if ?k + 28 < ?e then ?k + 28 else ?k + 21)"
    by (rule kday_unique [of _ _ "?e - 7"]) (use k l el w7 [of ?k 4] w7 [of ?k 3] in auto)
  have last: "?e = 5373851" if "y = 10000" "m = 12"
  proof -
    have "month_start 10000 12 + end_of_month_day 10000 12 = 5373851" by code_simp
    then show ?thesis using that by simp
  qed
  have 4: "nth_kday_of_month 5 dow m y = (if y = 10000 \<and> m = 12 \<and> 5373850 < ?k + 28 then Some (Inl Bad_year) else last_kday_of_month dow m y)"
    using nth_kday_of_month_from [OF assms, of 5] last_kday_of_month_to [OF assms] five last by auto
  show ?thesis using 1 2 3 4 by simp
qed

lemma weekdays_of_a_month_witness:
  "nth_kday_of_month 5 0 2 2004 = last_kday_of_month 0 2 2004 \<and> nth_kday_of_month 5 0 12 10000 = last_kday_of_month 0 12 10000
    \<and> nth_kday_of_month 5 1 12 10000 = Some (Inl Bad_year)"
proof -
  have "5373850 < kday_from (month_start 10000 12) 1 + 28" "\<not> 5373850 < kday_from (month_start 10000 12) 0 + 28" by code_simp+
  then show ?thesis using weekdays_of_a_month [of 2004 2 0] weekdays_of_a_month [of 10000 12 0] weekdays_of_a_month [of 10000 12 1] by simp
qed

text \<open>The weekday generators around a date: the next weekday is the one among the seven days from the date, the previous weekday the one among the seven days up to it, the first one
  after it and the first one before it lie strictly after and before; these two report a bad year when the day is outside the calendar. Every loop ends.\<close>

theorem weekdays_around_a_date:
  assumes "2232400 \<le> n" "n \<le> 5373850" "0 \<le> dow" "dow < 7"
  shows "(\<exists>r. next_weekday n dow = Inr r \<and> weekday r = dow \<and> n \<le> r \<and> r < n + 7)
    \<and> (\<exists>r. previous_weekday n dow = Inr r \<and> weekday r = dow \<and> n - 7 < r \<and> r \<le> n)
    \<and> (\<exists>r. first_kday_after dow n = Some (if r \<le> 5373850 then Inr r else Inl Bad_year) \<and> weekday r = dow \<and> n < r \<and> r \<le> n + 7)
    \<and> (\<exists>r. first_kday_before dow n = Some (if 2232400 \<le> r then Inr r else Inl Bad_year) \<and> weekday r = dow \<and> n - 7 \<le> r \<and> r < n)"
proof -
  have "first_kday_after dow n = Some (if kday_from (n + 1) dow \<le> 5373850 then Inr (kday_from (n + 1) dow) else Inl Bad_year)"
    using forward_to_weekday_from [OF assms(3,4), of "n + 1"] step_day(1) [of n 1] assms(1,2) by (simp add: first_kday_after_def option_sum_bind_def)
  moreover have "first_kday_before dow n = Some (if 2232400 \<le> kday_to (n - 1) dow then Inr (kday_to (n - 1) dow) else Inl Bad_year)"
    using back_to_weekday_to [OF assms(3,4), of "n - 1"] step_day(2) [of n 1] assms(1,2) by (simp add: first_kday_before_def option_sum_bind_def)
  moreover have "n < kday_from (n + 1) dow" "kday_from (n + 1) dow \<le> n + 7" "n - 7 \<le> kday_to (n - 1) dow" "kday_to (n - 1) dow < n"
    using kday_from_weekday [OF assms(3,4), of "n + 1"] kday_to_weekday [OF assms(3,4), of "n - 1"] by linarith+
  ultimately show ?thesis
    using kday_from_weekday [OF assms(3,4)] kday_to_weekday [OF assms(3,4)] next_weekday_from [OF assms] by blast
qed

lemma weekdays_around_a_date_witness:
  "(\<exists>r. next_weekday 2453135 2 = Inr r \<and> weekday r = 2 \<and> 2453135 \<le> r \<and> r < 2453142) \<and> (\<exists>r. first_kday_after 2 2453135 = Some (Inr r))"
  using weekdays_around_a_date [of 2453135 2] by auto

text \<open>A partial date from a number of days into the year stands for that day of a leap year, the first or the last day when the number is out of range: the number it prints for
  time zone rules, which count from 0, is one less, and it gives the same day in every leap year.\<close>

theorem partial_date_counts_days:
  assumes "it_ok duration_int n" "\<not> is_special duration_int n"
  shows "sum_bind (partial_date_of_days n) partial_date_posix = Inr (clamp_day n - 1)
    \<and> sum_bind (partial_date_of_days n) (\<lambda>pd. partial_date_get_date pd 2004) = Inr (2453005 + clamp_day n)"
proof -
  have c: "0 \<le> clamp_day n - 1" "clamp_day n - 1 \<le> 365" by (simp_all add: clamp_day_def)
  obtain m d where md: "date_ymd (2451545 + (clamp_day n - 1)) = Inr \<lparr>ymd_year = 2000, ymd_month = m, ymd_day = d\<rparr>"
      "date_new 2004 m d = Inr (2453006 + (clamp_day n - 1))"
    using partial_date_day [OF c] by blast
  have "greg_year 2004 = Inr 2004" "is_leap_year 2004" by code_simp+
  then show ?thesis using md day_of_year_2004 [OF c] c
    by (simp add: partial_date_of_days_eq [OF assms] partial_date_posix_def partial_date_get_date_def unsigned_id)
qed

lemma partial_date_counts_days_witness:
  "sum_bind (partial_date_of_days 60) partial_date_posix = Inr 59
    \<and> sum_bind (partial_date_of_days 1000) (\<lambda>pd. partial_date_get_date pd 2004) = Inr (day_number \<lparr>ymd_year = 2004, ymd_month = 12, ymd_day = 31\<rparr>)"
proof -
  have "it_ok duration_int 60" "\<not> is_special duration_int 60" "it_ok duration_int 1000" "\<not> is_special duration_int 1000"
    "clamp_day 60 = 60" "clamp_day 1000 = 366" "day_number \<lparr>ymd_year = 2004, ymd_month = 12, ymd_day = 31\<rparr> = 2453371" by code_simp+
  then show ?thesis using partial_date_counts_days [of 60] partial_date_counts_days [of 1000] by simp
qed

end
