(* ===== verification/Date_Period.thy ===== *)
theory Date_Period
  imports Gregorian_Date
begin

text \<open>
  Periods (\<^verbatim>\<open>period.hpp\<close>): the template over points and durations, whose arithmetic is an argument, and its instance for dates. The locale \<open>point_laws\<close> states what the
  period relies on: adding and subtracting the unit of duration leads to the next point and back.
\<close>

subsection \<open>Periods\<close>

record ('p, 'd) point_ops =
  pt_plus :: "'p \<Rightarrow> 'd \<Rightarrow> 'p"
  pt_minus :: "'p \<Rightarrow> 'd \<Rightarrow> 'p"
  pt_diff :: "'p \<Rightarrow> 'p \<Rightarrow> 'd"
  pt_unit :: 'd

record 'p period =
  period_begin :: 'p
  period_last :: 'p

definition period_of_points :: "('p, 'd) point_ops \<Rightarrow> 'p \<Rightarrow> 'p \<Rightarrow> 'p period" where
  "period_of_points A first_point end_point = \<lparr>period_begin = first_point, period_last = pt_minus A end_point (pt_unit A)\<rparr>"

definition period_of_length :: "('p, 'd) point_ops \<Rightarrow> 'p \<Rightarrow> 'd \<Rightarrow> 'p period" where
  "period_of_length A first_point len = \<lparr>period_begin = first_point, period_last = pt_minus A (pt_plus A first_point len) (pt_unit A)\<rparr>"

definition period_end :: "('p, 'd) point_ops \<Rightarrow> 'p period \<Rightarrow> 'p" where
  "period_end A P = pt_plus A (period_last P) (pt_unit A)"

definition period_is_null :: "('p::linorder, 'd) point_ops \<Rightarrow> 'p period \<Rightarrow> bool" where
  "period_is_null A P \<longleftrightarrow> period_end A P \<le> period_begin P"

definition period_length :: "('p::linorder, 'd) point_ops \<Rightarrow> 'p period \<Rightarrow> 'd" where
  "period_length A P =
     (if period_last P < period_begin P then pt_diff A (pt_plus A (period_last P) (pt_unit A)) (period_begin P)
      else pt_diff A (period_end A P) (period_begin P))"

definition period_eq :: "'p period \<Rightarrow> 'p period \<Rightarrow> bool" where
  "period_eq P rhs \<longleftrightarrow> period_begin P = period_begin rhs \<and> period_last P = period_last rhs"

definition period_less :: "'p::linorder period \<Rightarrow> 'p period \<Rightarrow> bool" where
  "period_less P rhs \<longleftrightarrow> period_last P < period_begin rhs"

definition period_shift :: "('p, 'd) point_ops \<Rightarrow> 'd \<Rightarrow> 'p period \<Rightarrow> 'p period" where
  "period_shift A d P = \<lparr>period_begin = pt_plus A (period_begin P) d, period_last = pt_plus A (period_last P) d\<rparr>"

definition period_expand :: "('p, 'd) point_ops \<Rightarrow> 'd \<Rightarrow> 'p period \<Rightarrow> 'p period" where
  "period_expand A d P = \<lparr>period_begin = pt_minus A (period_begin P) d, period_last = pt_plus A (period_last P) d\<rparr>"

definition period_contains_point :: "'p::linorder period \<Rightarrow> 'p \<Rightarrow> bool" where
  "period_contains_point P point \<longleftrightarrow> period_begin P \<le> point \<and> point \<le> period_last P"

definition period_contains :: "'p::linorder period \<Rightarrow> 'p period \<Rightarrow> bool" where
  "period_contains P other \<longleftrightarrow> period_begin P \<le> period_begin other \<and> period_last other \<le> period_last P"

definition period_is_adjacent :: "('p, 'd) point_ops \<Rightarrow> 'p period \<Rightarrow> 'p period \<Rightarrow> bool" where
  "period_is_adjacent A P other \<longleftrightarrow> period_begin other = period_end A P \<or> period_begin P = period_end A other"

definition period_is_after :: "('p::linorder, 'd) point_ops \<Rightarrow> 'p period \<Rightarrow> 'p \<Rightarrow> bool" where
  "period_is_after A P t = (if period_is_null A P then False else t < period_begin P)"

definition period_is_before :: "('p::linorder, 'd) point_ops \<Rightarrow> 'p period \<Rightarrow> 'p \<Rightarrow> bool" where
  "period_is_before A P t = (if period_is_null A P then False else period_last P < t)"

definition period_intersects :: "'p::linorder period \<Rightarrow> 'p period \<Rightarrow> bool" where
  "period_intersects P other \<longleftrightarrow>
     period_contains_point P (period_begin other) \<or> period_contains_point other (period_begin P)
     \<or> period_begin other < period_begin P \<and> period_begin P \<le> period_last other"

definition period_intersection :: "('p::linorder, 'd) point_ops \<Rightarrow> 'p period \<Rightarrow> 'p period \<Rightarrow> 'p period" where
  "period_intersection A P other =
     (if period_begin P > period_begin other then
        (if period_last P \<le> period_last other then P
         else period_of_points A (period_begin P) (period_end A other))
      else
        (if period_last P \<le> period_last other then period_of_points A (period_begin other) (period_end A P)
         else other))"

definition period_merge :: "('p::linorder, 'd) point_ops \<Rightarrow> 'p period \<Rightarrow> 'p period \<Rightarrow> 'p period" where
  "period_merge A P other =
     (if period_intersects P other then
        (if period_begin P < period_begin other then
           period_of_points A (period_begin P) (if period_last P > period_last other then period_end A P else period_end A other)
         else period_of_points A (period_begin other) (if period_last P > period_last other then period_end A P else period_end A other))
      else period_of_points A (period_begin P) (period_begin P))"

definition period_span :: "('p::linorder, 'd) point_ops \<Rightarrow> 'p period \<Rightarrow> 'p period \<Rightarrow> 'p period" where
  "period_span A P other =
     (let start = (if period_begin P < period_begin other then period_begin P else period_begin other);
          newend = (if period_last P < period_last other then period_end A other else period_end A P)
      in period_of_points A start newend)"

subsection \<open>Periods as sets of points\<close>

definition period_points :: "'p::linorder period \<Rightarrow> 'p set" where
  "period_points P = {period_begin P..period_last P}"

lemma interval_join:
  fixes a b c d :: "'p::linorder"
  assumes "a \<le> b" "c \<le> d" and n: "\<And>x. x < c \<longleftrightarrow> x \<le> b"
  shows "{a..b} \<inter> {c..d} = {}" "{min a c..max b d} = {a..b} \<union> {c..d}"
proof -
  have bc: "b < c" using n by simp
  then have e: "min a c = a" "max b d = d" "a \<le> c" "b \<le> d" using assms(1,2) by auto
  have "x \<le> b \<or> c \<le> x" for x using n [of x] by (simp add: not_less [symmetric] disj_commute) 
  then show "{min a c..max b d} = {a..b} \<union> {c..d}" unfolding e(1,2) using e(3,4) by fastforce
  show "{a..b} \<inter> {c..d} = {}" using bc by auto
qed

text \<open>Two intervals that do not meet lie one before the other.\<close>

lemma interval_apart:
  fixes a b c d :: "'p::linorder"
  assumes "a \<le> b" "c \<le> d" "{a..b} \<inter> {c..d} = {}"
  shows "b < c \<or> d < a"
proof (rule ccontr)
  assume "\<not> (b < c \<or> d < a)"
  then have "max a c \<in> {a..b} \<inter> {c..d}" using assms(1,2) by (auto simp: max_def not_less)
  then show False using assms(3) by simp
qed

lemma interval_gap:
  fixes a b c d s :: "'p::linorder"
  assumes "a \<le> b" "c \<le> d" "{min a c..max b d} \<subseteq> {a..b} \<union> {c..d}" "b < s" "s \<le> c"
  shows "s = c"
proof -
  have "a \<le> s" "s \<le> d" using assms by auto
  then have "s \<in> {min a c..max b d}" by (simp add: min.coboundedI1 max.coboundedI2)
  then have "s \<in> {a..b} \<union> {c..d}" using assms(3) by blast
  then show ?thesis using assms(4,5) by auto
qed

lemma interval_meet:
  fixes a b c d :: "'p::linorder"
  assumes "a \<le> b" "c \<le> d" "{a..b} \<inter> {c..d} \<noteq> {}"
  shows "{min a c..max b d} = {a..b} \<union> {c..d}"
proof -
  have "a \<le> d" "c \<le> b" using assms by auto
  then have "x \<le> b \<or> c \<le> x" "x \<le> d \<or> a \<le> x" for x by auto
  then show ?thesis using assms(1,2) by (auto simp: min_le_iff_disj le_max_iff_disj) blast+
qed

lemma intersects_points:
  assumes "period_points P \<noteq> {}" "period_points Q \<noteq> {}"
  shows "period_intersects P Q \<longleftrightarrow> period_points P \<inter> period_points Q \<noteq> {}"
proof -
  have e: "period_begin P \<le> period_last P" "period_begin Q \<le> period_last Q" using assms by (simp_all add: period_points_def)
  have "period_intersects P Q \<longleftrightarrow> \<not> (period_last P < period_begin Q \<or> period_last Q < period_begin P)"
    using e by (auto simp: period_intersects_def period_contains_point_def)
  also have "\<dots> \<longleftrightarrow> period_points P \<inter> period_points Q \<noteq> {}"
    using interval_apart [OF e] by (auto simp: period_points_def)
  finally show ?thesis .
qed

lemma contains_points:
  assumes "period_points Q \<noteq> {}"
  shows "period_contains P Q \<longleftrightarrow> period_points Q \<subseteq> period_points P"
  using assms by (auto simp: period_contains_def period_points_def)

lemma less_points:
  assumes "period_points P \<noteq> {}" "period_points Q \<noteq> {}"
  shows "period_less P Q \<longleftrightarrow> (\<forall>p\<in>period_points P. \<forall>q\<in>period_points Q. p < q)"
proof
  assume "period_less P Q"
  then show "\<forall>p\<in>period_points P. \<forall>q\<in>period_points Q. p < q"
    by (auto simp: period_less_def period_points_def elim!: le_less_trans less_le_trans)
next
  assume *: "\<forall>p\<in>period_points P. \<forall>q\<in>period_points Q. p < q"
  have "period_last P \<in> period_points P" "period_begin Q \<in> period_points Q" using assms by (simp_all add: period_points_def)
  then show "period_less P Q" using * by (simp add: period_less_def)
qed

locale point_laws =
  fixes A :: "('p::linorder, 'd) point_ops" and point_ok :: "'p \<Rightarrow> bool"
  assumes unit_inverse: "point_ok p \<Longrightarrow> pt_minus A (pt_plus A p (pt_unit A)) (pt_unit A) = p"
    and unit_next: "point_ok p \<Longrightarrow> q < pt_plus A p (pt_unit A) \<longleftrightarrow> q \<le> p"
    and unit_before: "point_ok p \<Longrightarrow> pt_minus A p (pt_unit A) < p"
begin

lemma of_end: "point_ok (period_last P) \<Longrightarrow> period_of_points A b (period_end A P) = \<lparr>period_begin = b, period_last = period_last P\<rparr>"
  by (simp add: period_of_points_def period_end_def unit_inverse)

lemma null_empty: "point_ok (period_last P) \<Longrightarrow> period_is_null A P \<longleftrightarrow> period_points P = {}"
  using unit_next [of "period_last P" "period_begin P"] by (auto simp: period_is_null_def period_end_def period_points_def not_less)

lemma intersection_points:
  "point_ok (period_last P) \<Longrightarrow> point_ok (period_last Q) \<Longrightarrow> period_points (period_intersection A P Q) = period_points P \<inter> period_points Q"
  by (auto simp: period_intersection_def of_end period_points_def)

lemma before_after:
  assumes "point_ok (period_last P)" "period_points P \<noteq> {}"
  shows "period_is_before A P x \<longleftrightarrow> (\<forall>p\<in>period_points P. p < x)" "period_is_after A P x \<longleftrightarrow> (\<forall>p\<in>period_points P. x < p)"
  using assms null_empty [OF assms(1)] by (auto simp: period_is_before_def period_is_after_def period_points_def)

lemma merge_points:
  assumes "point_ok (period_begin P)" "point_ok (period_last P)" "point_ok (period_last Q)" "period_points P \<noteq> {}" "period_points Q \<noteq> {}"
  shows "period_points (period_merge A P Q) = (if period_points P \<inter> period_points Q = {} then {} else period_points P \<union> period_points Q)"
proof (cases "period_points P \<inter> period_points Q = {}")
  case True
  then show ?thesis using unit_before [OF assms(1)] intersects_points [OF assms(4,5)]
    by (simp add: period_merge_def period_points_def period_of_points_def)
next
  case False
  have e: "period_begin P \<le> period_last P" "period_begin Q \<le> period_last Q" using assms(4,5) by (simp_all add: period_points_def)
  have "period_merge A P Q = \<lparr>period_begin = min (period_begin P) (period_begin Q), period_last = max (period_last P) (period_last Q)\<rparr>"
    using intersects_points [OF assms(4,5)] False by (simp add: period_merge_def of_end assms(2,3) min_def max_def not_less less_le not_le)
  then show ?thesis using False e by (simp add: period_points_def interval_meet)
qed

lemma span_points:
  assumes "point_ok (period_last P)" "point_ok (period_last Q)"
  shows "period_points (period_span A P Q) = {min (period_begin P) (period_begin Q)..max (period_last P) (period_last Q)}"
  using assms by (auto simp: period_span_def of_end period_points_def Let_def)

lemma adjacent_points:
  assumes P: "point_ok (period_last P)" "period_points P \<noteq> {}" and Q: "point_ok (period_last Q)" "period_points Q \<noteq> {}"
  shows "period_is_adjacent A P Q \<longleftrightarrow>
    period_points P \<inter> period_points Q = {} \<and> period_points (period_span A P Q) = period_points P \<union> period_points Q"
proof -
  have n: "x < period_end A P \<longleftrightarrow> x \<le> period_last P" "x < period_end A Q \<longleftrightarrow> x \<le> period_last Q" for x
    using unit_next P(1) Q(1) by (simp_all add: period_end_def)
  have e: "period_begin P \<le> period_last P" "period_begin Q \<le> period_last Q" using P(2) Q(2) by (simp_all add: period_points_def)
  show ?thesis
  proof
    assume "period_is_adjacent A P Q"
    then consider "period_begin Q = period_end A P" | "period_begin P = period_end A Q" by (auto simp: period_is_adjacent_def)
    then show "period_points P \<inter> period_points Q = {} \<and> period_points (period_span A P Q) = period_points P \<union> period_points Q"
    proof cases
      case 1
      show ?thesis using interval_join [OF e n(1) [folded 1]] by (simp add: span_points P(1) Q(1)) (simp add: period_points_def)
    next
      case 2
      note j = interval_join [OF e(2,1) n(2) [folded 2]]
      show ?thesis
        unfolding span_points [OF P(1) Q(1)] unfolding period_points_def
        using j(1) j(2) [unfolded min.commute [of "period_begin Q"] max.commute [of "period_last Q"]] by blast
    qed
  next
    assume *: "period_points P \<inter> period_points Q = {} \<and> period_points (period_span A P Q) = period_points P \<union> period_points Q"
    then have disj: "period_last P < period_begin Q \<or> period_last Q < period_begin P"
      using e by (intro interval_apart) (simp_all add: period_points_def)
    have gap: "{min (period_begin P) (period_begin Q)..max (period_last P) (period_last Q)} \<subseteq> {period_begin P..period_last P} \<union> {period_begin Q..period_last Q}"
      using * unfolding span_points [OF P(1) Q(1)] by (simp add: period_points_def)
    from disj show "period_is_adjacent A P Q"
    proof
      assume "period_last P < period_begin Q"
      then have "period_end A P \<le> period_begin Q" "period_last P < period_end A P" using n(1) [of "period_begin Q"] n(1) [of "period_last P"] by auto
      then show ?thesis using interval_gap [OF e gap, of "period_end A P"] by (simp add: period_is_adjacent_def)
    next
      assume "period_last Q < period_begin P"
      then have "period_end A Q \<le> period_begin P" "period_last Q < period_end A Q" using n(2) [of "period_begin P"] n(2) [of "period_last Q"] by auto
      then show ?thesis
        using interval_gap [OF e(2,1) gap [unfolded min.commute [of "period_begin P"] max.commute [of "period_last P"] Un_commute [of "{period_begin P..period_last P}"]], of "period_end A Q"]
        by (simp add: period_is_adjacent_def)
    qed
  qed
qed

end

subsection \<open>Periods of dates\<close>

text \<open>\<^verbatim>\<open>gregorian::date_period\<close>. The arithmetic of dates is unsigned and always has a value; \<^verbatim>\<open>date::operator<\<close> compares the day numbers.\<close>

definition date_ops :: "(int, int) point_ops" where
  "date_ops = \<lparr>pt_plus = (\<lambda>p d. projr (date_plus p d)), pt_minus = (\<lambda>p d. projr (date_minus p d)),
     pt_diff = (\<lambda>p q. projr (date_minus_date p q)), pt_unit = duration_unit\<rparr>"

lemma date_arith_defined: "\<exists>r. date_plus p d = Inr r" "\<exists>r. date_minus p d = Inr r"
  by (auto simp: date_plus_def date_minus_def defined_result_def ia_add_def ia_sub_def ia_add_int_def ia_sub_int_def it_arith_def date_int_def)

text \<open>Dates with another date before and after them.\<close>

definition inner_day :: "int \<Rightarrow> bool" where
  "inner_day n \<longleftrightarrow> plain_day (n - 1) \<and> plain_day n \<and> plain_day (n + 1)"

lemma date_ops_unit:
  assumes "inner_day p"
  shows "pt_plus date_ops p (pt_unit date_ops) = p + 1" "pt_minus date_ops p (pt_unit date_ops) = p - 1"
    "pt_minus date_ops (p + 1) (pt_unit date_ops) = p"
proof -
  have "plain_days 1" by (simp add: plain_days_def)
  then show "pt_plus date_ops p (pt_unit date_ops) = p + 1" "pt_minus date_ops p (pt_unit date_ops) = p - 1"
    "pt_minus date_ops (p + 1) (pt_unit date_ops) = p"
    using assms by (simp_all add: date_ops_def duration_unit_def date_plus_plain date_minus_plain inner_day_def)
qed

interpretation dates: point_laws date_ops inner_day
  by unfold_locales (simp_all add: date_ops_unit)

definition date_period_ok :: "int period \<Rightarrow> bool" where
  "date_period_ok P \<longleftrightarrow> inner_day (period_begin P) \<and> inner_day (period_last P) \<and> period_begin P \<le> period_last P"

lemma period_okD:
  assumes "date_period_ok P"
  shows "inner_day (period_begin P)" "inner_day (period_last P)" "period_points P \<noteq> {}"
  using assms by (simp_all add: date_period_ok_def period_points_def)

lemma date_period_length:
  assumes "date_period_ok P"
  shows "period_length date_ops P = int (card (period_points P))"
proof -
  have "period_end date_ops P = period_last P + 1" using period_okD(2) [OF assms] by (simp add: period_end_def date_ops_unit)
  moreover have "date_minus_date (period_last P + 1) (period_begin P) = Inr (period_last P + 1 - period_begin P)"
    using period_okD [OF assms] by (intro date_diff_plain) (simp_all add: inner_day_def)
  ultimately show ?thesis using assms by (simp add: period_length_def date_ops_def date_period_ok_def period_points_def)
qed

text \<open>Constructors and moves, for arguments that stay among the dates.\<close>

lemma date_period_points:
  assumes "inner_day b" "inner_day (b + l)" "plain_days l"
  shows "period_points (period_of_points date_ops b (b + l)) = {b..<b + l}" "period_points (period_of_length date_ops b l) = {b..<b + l}"
proof -
  have p: "pt_plus date_ops b l = b + l" using assms by (simp add: date_ops_def date_plus_plain inner_day_def)
  have m: "pt_minus date_ops (b + l) (pt_unit date_ops) = b + l - 1" using date_ops_unit(2) [OF assms(2)] .
  show "period_points (period_of_points date_ops b (b + l)) = {b..<b + l}" "period_points (period_of_length date_ops b l) = {b..<b + l}"
    by (auto simp: period_of_points_def period_of_length_def period_points_def p m)
qed

lemma date_period_shift:
  assumes P: "date_period_ok P" and d: "plain_days d" "plain_day (period_begin P + d)" "plain_day (period_last P + d)"
  shows "period_points (period_shift date_ops d P) = (\<lambda>p. p + d) ` period_points P"
proof -
  have "pt_plus date_ops (period_begin P) d = period_begin P + d" "pt_plus date_ops (period_last P) d = period_last P + d"
    using period_okD [OF P] d by (simp_all add: date_ops_def date_plus_plain inner_day_def)
  then show ?thesis by (simp add: period_shift_def period_points_def)
qed

lemma span_hull:
  assumes "date_period_ok P" "date_period_ok Q"
  shows "period_points (period_span date_ops P Q) = {x. \<exists>p\<in>period_points P \<union> period_points Q. \<exists>q\<in>period_points P \<union> period_points Q. p \<le> x \<and> x \<le> q}"
proof -
  have e: "period_begin P \<le> period_last P" "period_begin Q \<le> period_last Q" using assms by (simp_all add: date_period_ok_def)
  have "x \<in> {min (period_begin P) (period_begin Q)..max (period_last P) (period_last Q)} \<longleftrightarrow>
      (\<exists>p\<in>period_points P \<union> period_points Q. \<exists>q\<in>period_points P \<union> period_points Q. p \<le> x \<and> x \<le> q)" (is "?l \<longleftrightarrow> ?r") for x
  proof
    assume ?l
    moreover have "min (period_begin P) (period_begin Q) \<in> period_points P \<union> period_points Q" "max (period_last P) (period_last Q) \<in> period_points P \<union> period_points Q"
      using e by (auto simp: period_points_def min_def max_def)
    ultimately show ?r by (meson atLeastAtMost_iff)
  next
    assume ?r
    then show ?l by (auto simp: period_points_def)
  qed
  then show ?thesis using dates.span_points [OF period_okD(2) [OF assms(1)] period_okD(2) [OF assms(2)]] by blast
qed

subsection \<open>Properties\<close>

text \<open>A period of dates is the set of its days: the predicates on two periods that are not empty are those on sets of days, \<^verbatim>\<open>intersection\<close> is the intersection, \<^verbatim>\<open>merge\<close>
  the union of two periods that share a day and otherwise a period without days, \<^verbatim>\<open>span\<close> the least period that contains both; two periods are adjacent when they share no day and
  their union is their span; \<^verbatim>\<open>length\<close> is the number of days.\<close>

theorem date_periods_are_sets:
  assumes "date_period_ok P" "date_period_ok Q"
  shows "period_points (period_intersection date_ops P Q) = period_points P \<inter> period_points Q
    \<and> period_points (period_merge date_ops P Q) = (if period_points P \<inter> period_points Q = {} then {} else period_points P \<union> period_points Q)
    \<and> period_points (period_span date_ops P Q) = {x. \<exists>p\<in>period_points P \<union> period_points Q. \<exists>q\<in>period_points P \<union> period_points Q. p \<le> x \<and> x \<le> q}
    \<and> (period_contains_point P x \<longleftrightarrow> x \<in> period_points P) \<and> (period_contains P Q \<longleftrightarrow> period_points Q \<subseteq> period_points P)
    \<and> (period_intersects P Q \<longleftrightarrow> period_points P \<inter> period_points Q \<noteq> {})
    \<and> (period_is_adjacent date_ops P Q \<longleftrightarrow>
        period_points P \<inter> period_points Q = {} \<and> period_points (period_span date_ops P Q) = period_points P \<union> period_points Q)
    \<and> (period_less P Q \<longleftrightarrow> (\<forall>p\<in>period_points P. \<forall>q\<in>period_points Q. p < q))
    \<and> (period_is_before date_ops P x \<longleftrightarrow> (\<forall>p\<in>period_points P. p < x)) \<and> (period_is_after date_ops P x \<longleftrightarrow> (\<forall>p\<in>period_points P. x < p))
    \<and> (period_eq P Q \<longleftrightarrow> period_points P = period_points Q) \<and> \<not> period_is_null date_ops P
    \<and> period_length date_ops P = int (card (period_points P))"
proof (intro conjI)
  note P = period_okD [OF assms(1)] and Q = period_okD [OF assms(2)]
  show "period_contains_point P x \<longleftrightarrow> x \<in> period_points P" by (simp add: period_contains_point_def period_points_def)
  show "period_eq P Q \<longleftrightarrow> period_points P = period_points Q" using P(3) by (simp add: period_eq_def period_points_def Icc_eq_Icc)
  show "\<not> period_is_null date_ops P" using dates.null_empty P by blast
qed (rule dates.intersection_points dates.merge_points span_hull contains_points intersects_points dates.adjacent_points less_points dates.before_after
    date_period_length assms period_okD [OF assms(1)] period_okD [OF assms(2)])+

lemma date_periods_are_sets_witness:
  "period_points (period_intersection date_ops \<lparr>period_begin = 2453006, period_last = 2453036\<rparr> \<lparr>period_begin = 2453020, period_last = 2453371\<rparr>) = {2453020..2453036}
    \<and> \<not> period_is_adjacent date_ops \<lparr>period_begin = 2453006, period_last = 2453036\<rparr> \<lparr>period_begin = 2453020, period_last = 2453371\<rparr>"
proof -
  let ?P = "\<lparr>period_begin = 2453006, period_last = 2453036\<rparr> :: int period" and ?Q = "\<lparr>period_begin = 2453020, period_last = 2453371\<rparr> :: int period"
  have "date_period_ok ?P" "date_period_ok ?Q" by code_simp+
  moreover have "period_points ?P \<inter> period_points ?Q = {2453020..2453036}" by (simp add: period_points_def)
  ultimately show ?thesis using date_periods_are_sets [of ?P ?Q] by simp
qed

end
