(* ===== verification/Spec2Isabelle.thy ===== *)
theory Spec2Isabelle
  imports Bitset_Properties Circular_Properties Rational_Properties Mutex_Properties Crc Spsc_Threads
    Object_Pool Heap_Compare Mutable_Order Date_Adjust Date_Generators Date_Period
begin

text \<open>
  A verification library for components of Boost 1.63, under \<^verbatim>\<open>src/Boost-1.63.0\<close>. The repository collects
  the headers of Boost and, beside them, the sources of Redis, Lua, Memcached, Libevent, Skynet and the SGI
  STL; the development models Boost headers with algorithmic content and a state of their own. All file
  names below are relative to \<^verbatim>\<open>src/Boost-1.63.0\<close>. The root theory only gathers the component theories;
  every property stands in the theory of its component, after a text block with its number.

  \<^bold>\<open>Conventions.\<close> A class is a \<open>record\<close> of its data members, a member function a definition of the
  same name (with a prefix where two classes share it). A failed assertion, an access outside a buffer, a wrong
  use of an object's lifetime and other undefined behaviour is the value \<^term>\<open>None\<close>; an exception is a value
  of the component's error type. Loops that end for a structural reason or by a measure are recursive
  functions; loops that need not end for every argument are \<open>partial_function (option)\<close>, and the theorems
  say that they return. No fuel is used. Machine integers whose overflow matters are words; counts of
  objects in memory are natural numbers. A template parameter is a type variable or an argument: block types
  and CRC registers are words of any width.

  \<^bold>\<open>Shared theories.\<close>
  \<^item> \<open>Boost_Prelude\<close>: the parts of the C++ library that the sources call, and lemmas on lists and words.
  \<^item> \<open>Data_Refinement\<close>: the locale \<open>data_refinement\<close>, the contract of a container with its abstract model
    (every accepted operation has the effect of the model's operation and keeps the invariant; the same
    operations are refused), and its consequences for sequences of operations. It is interpreted on
    bit-sets (\<open>bs_impl\<close>), circular buffers (\<open>cb_impl\<close>), rationals (\<open>rat_impl\<close>), the queue (\<open>spsc_alone\<close>), the
    free list (\<open>storage_impl\<close>), the pool (\<open>pool_impl\<close>), and used by the stable heap
    (\<open>stable_data_refinement\<close>).

  \<^bold>\<open>\<^verbatim>\<open>dynamic_bitset/dynamic_bitset.hpp\<close>\<close> (with \<^verbatim>\<open>detail/dynamic_bitset.hpp\<close>, \<^verbatim>\<open>integer/integer_log2.hpp\<close> and
  \<^verbatim>\<open>pending/lowest_bit.hpp\<close>). The record of the block vector and the number of bits, for every block width.
  \<^item> \<open>Dynamic_Bitset\<close>: the record, shifts, element access and the set operations; \<open>flat\<close> reads a block vector
    as one sequence of bits, and the lemmas give the bits after every operation.
  \<^item> \<open>Bitset_Growth\<close>: \<^verbatim>\<open>push_back\<close>, \<^verbatim>\<open>pop_back\<close>, \<^verbatim>\<open>append\<close>. \<open>Bitset_Query\<close>: counting with the byte table and block
    by block, searching, subset tests, comparison. \<open>Bitset_Convert\<close>: \<^verbatim>\<open>unsigned long\<close>, strings, streams.
  \<^item> \<open>Bitset_Properties\<close>: all modifying members refine operations on lists of Booleans and keep
    \<^verbatim>\<open>m_check_invariants\<close> (unused bits are zero); counts, searches and comparisons mean what they say; round trips.

  \<^bold>\<open>\<^verbatim>\<open>circular_buffer/base.hpp\<close> and \<^verbatim>\<open>details.hpp\<close>\<close>. The memory as a list of slots that may or may not hold an
  object, with the pointers as slot numbers.
  \<^item> \<open>Circular_Buffer\<close>: most definitions. \<open>Circular_Ring\<close>: the memory read from \<^verbatim>\<open>m_first\<close> on, and the members at the
    two ends. \<open>Circular_Insert\<close>, \<open>Circular_Rinsert\<close>, \<open>Circular_Erase\<close>, \<open>Circular_Capacity\<close>, \<open>Circular_Multi\<close>: insertion and
    removal in the middle, changes of the capacity, insertion of ranges. \<open>Circular_Linearize\<close>: \<^verbatim>\<open>linearize\<close>, an in-place
    rotation of the memory. \<open>Circular_Input\<close>: the members that read input iterators, \<^verbatim>\<open>swap\<close> and the moves.
  \<^item> \<open>Circular_Properties\<close>: refinement of a list with a capacity, construction and destruction of elements
    included; access and its exceptions; copies and comparisons; the condition under which the insertion of a range assigns
    to live elements only, and an example outside it.

  \<^bold>\<open>\<^verbatim>\<open>thread/v2/shared_mutex.hpp\<close>\<close>. Threads share a state word, a mutex and two condition variables; the code between
  two waits is one step, because it runs under the mutex.
  \<^item> \<open>Gated_Lock\<close>: threads, steps (calls, notifications, timeouts, spurious wake-ups), reachable states, the
    specification of a lock over (writer entered, upgrade owner, number of readers) and the locales
    \<open>gated_lock\<close> (mutual exclusion from conformance to the specification) and \<open>untimed_lock\<close> (no lost wake-up).
  \<^item> \<open>Upgrade_Mutex\<close>, \<open>Shared_Mutex\<close>: the members of the two classes on the 32-bit word, their conformance, and the
    interpretations \<open>um\<close>, \<open>um_untimed\<close>, \<open>sm\<close>, \<open>sm_untimed\<close>.
  \<^item> \<open>Mutex_Properties\<close>: exclusion, the state word, refinement, absence of deadlock without deadlines, conversions that nobody notifies,
    and examples of two defects of the members with deadlines.

  \<^bold>\<open>\<^verbatim>\<open>integer/common_factor_rt.hpp\<close> and \<^verbatim>\<open>rational.hpp\<close>\<close>.
  \<^item> \<open>Common_Factor\<close>: the Euclidean and the binary algorithm, on unbounded integers, on words, and on the built-in signed types, where \<^verbatim>\<open>lcm\<close> may
    overflow; the locale \<open>gcd_laws\<close> that rational arithmetic relies on and its interpretation \<open>int_gcd\<close>.
  \<^item> \<open>Rational\<close>, \<open>Rational_Properties\<close>: operators, comparison by continued fractions, conversion, streams; refinement of
    the field of rational numbers, over a number type without overflow, with \<^verbatim>\<open>bad_rational\<close> exactly where a divisor is zero. \<open>Rational_Narrow\<close>: \<^verbatim>\<open>normalize\<close>
    over a built-in type narrower than \<^verbatim>\<open>int\<close>, whose least value has no negation, with the second reason to throw.

  \<^bold>\<open>\<^verbatim>\<open>crc.hpp\<close>\<close>. \<open>Crc\<close>: \<^verbatim>\<open>crc_basic\<close>, the lookup table, \<^verbatim>\<open>crc_optimal\<close>, \<^verbatim>\<open>crc\<close>, \<^verbatim>\<open>augmented_crc\<close>; all are compared with
  polynomial division by one bit, whose linearity gives the equivalence of table and bitwise computation
  for every register size and both reflections.

  \<^bold>\<open>\<^verbatim>\<open>lockfree/spsc_queue.hpp\<close>\<close>. \<open>Spsc_Queue\<close>: index arithmetic on 64-bit words, the decision each member takes from
  the two indices, and the members of a thread that is alone, as a bounded queue. \<open>Spsc_Threads\<close>: producer and
  consumer interleaved slot by slot, with loads that may return old values; first-in first-out order, defined
  behaviour and absence of data races. The size of the buffer is bounded by \<open>2\<^sup>6\<^sup>3\<close>, because the source adds two
  numbers below it in a 64-bit word.

  \<^bold>\<open>\<^verbatim>\<open>pool/simple_segregated_storage.hpp\<close>, \<^verbatim>\<open>pool/pool.hpp\<close>, \<^verbatim>\<open>pool/object_pool.hpp\<close>\<close>. Three classes, each built on the one
  before, over one memory of pointer-sized words that also holds the client's data: the free list runs through
  the free chunks, the list of blocks through two words at the end of every block. The user allocator is an argument: its answers to
  requests, and what it leaves in blocks given back.
  \<^item> \<open>Segregated_Storage\<close>, \<open>Storage_Properties\<close>: segregation of a block, the members on the free list, ordered and not, and runs
    of adjacent chunks; the memory always contains the list of a specification on addresses (\<open>storage_impl\<close>), and a search for
    adjacent chunks in an ordered list is complete.
  \<^item> \<open>Pool\<close>: \<^verbatim>\<open>PODptr\<close>, the members of \<^verbatim>\<open>pool\<close>, and the relation \<open>pool_rel\<close> between the memory and its blocks, free and held
    chunks. \<open>Pool_Members\<close>: the members that allocate and free. \<open>Pool_Release\<close>: \<^verbatim>\<open>release_memory\<close>, \<^verbatim>\<open>purge_memory\<close>, \<^verbatim>\<open>is_from\<close>.
    \<open>Pool_Properties\<close>: refinement of a specification without memory (\<open>pool_impl\<close>), the blocks given back by \<^verbatim>\<open>release_memory\<close>,
    the client's data untouched, and the size of arrays. Sizes are natural numbers with the wrap-around at \<open>2\<^sup>6\<^sup>4\<close> written out;
    the refinement assumes a memory of at most \<open>2\<^sup>5\<^sup>8\<close> words, chunks up to \<open>2\<^sup>6\<^sup>1\<close> bytes and requests up to \<open>2\<^sup>6\<^sup>2\<close> bytes, so that no size wraps.
  \<^item> \<open>Object_Pool\<close>: \<^verbatim>\<open>construct\<close>, also with a constructor that throws, \<^verbatim>\<open>destroy\<close> and the destructor, which destroys
    exactly the objects that are left.

  \<^bold>\<open>\<^verbatim>\<open>heap/d_ary_heap.hpp\<close>\<close> (with \<^verbatim>\<open>heap/detail/stable_heap.hpp\<close>, \<^verbatim>\<open>ordered_adaptor_iterator.hpp\<close>, \<^verbatim>\<open>heap_comparison.hpp\<close>, \<^verbatim>\<open>mutable_heap.hpp\<close>
  and \<^verbatim>\<open>heap/heap_merge.hpp\<close>). One vector with the comparison, the arity and the index updater as parameters; with an
  updater that does nothing it is the heap without handles, and with one that writes into list nodes the inside of the mutable heap.
  \<^item> \<open>D_Ary_Heap\<close>: the base class with and without stability counter, and all members. \<open>Heap_Sift\<close>: the locales \<open>heap_laws\<close> (a strict weak order on live
    nodes that the updater does not change) and \<open>indexed_laws\<close> (the updater stores positions); the loops restore the order from
    invariants that are broken at one position, and every element knows its position afterwards.
  \<^item> \<open>Heap_Queue\<close>: the locale \<open>heap_order\<close> (any arity, any strict weak order) as an instance of these laws; the heap as a priority queue, \<^verbatim>\<open>heap_merge\<close>, and
    the stable heap as a list in the order of removal. \<open>Heap_Iteration\<close>: ordered iterators, with the choice of \<^verbatim>\<open>std::priority_queue\<close> among
    equivalent positions as an argument. \<open>Heap_Compare\<close>: equality and order of heaps, by iterators and by copies.
  \<^item> \<open>Mutable_Heap\<close>: \<^verbatim>\<open>priority_queue_mutable_wrapper\<close> on a store of list nodes, and the locale \<open>mutable_laws\<close>, in which its members are verified.
    \<open>Mutable_Queue\<close>: the instances with and without stability, the refinement of a map from handles to values, and the copy constructor, which keeps the iterators of its source.
    \<open>Mutable_Order\<close>: the order in which a stable mutable heap hands out equivalent elements, and how assignment reverses it.

  \<^bold>\<open>\<^verbatim>\<open>date_time/\<close>\<close> (the calendar, dates, durations, periods and generators; file names relative to that directory). A date is a day number, kept as an integer with the conversions to the
  types of the source written out; exceptions are values of \<open>date_error\<close>.
  \<^item> \<open>Gregorian_Calendar\<close> (\<^verbatim>\<open>gregorian_calendar.ipp\<close>, \<^verbatim>\<open>constrained_value.hpp\<close>, \<^verbatim>\<open>gregorian/greg_*.hpp\<close>): day numbers and back, weekdays, week numbers; they count the days of the
    calendar, and week numbers are those of ISO 8601.
  \<^item> \<open>Int_Adapter\<close> (\<^verbatim>\<open>int_adapter.hpp\<close>): integers with infinities and not-a-number, as an implementation of extended integers. \<open>Gregorian_Date\<close> (\<^verbatim>\<open>date.hpp\<close>, \<^verbatim>\<open>date_duration.hpp\<close> and
    the Gregorian types): dates and durations.
  \<^item> \<open>Date_Adjust\<close> (\<^verbatim>\<open>wrapping_int.hpp\<close>, \<^verbatim>\<open>adjust_functors.hpp\<close>, \<^verbatim>\<open>date_duration_types.hpp\<close>, \<^verbatim>\<open>date_iterator.hpp\<close>): months and years added to dates, and iterators, which do not drift.
    \<open>Date_Generators\<close> (\<^verbatim>\<open>date_generators.hpp\<close>): partial dates and weekdays of a month or around a date; their loops end.
  \<^item> \<open>Date_Period\<close> (\<^verbatim>\<open>period.hpp\<close>): periods over any points, the locale \<open>point_laws\<close> of what they rely on, its interpretation \<open>dates\<close>, and periods of dates as sets of days.

  \<^bold>\<open>Not modelled.\<close> Allocators and failed allocations outside the pools; exceptions thrown by element types; locale facets and stream
  formatting flags; clocks; the debug support of \<^verbatim>\<open>circular_buffer\<close>; overflow in the operators of \<^verbatim>\<open>rational\<close> over built-in integers; weak memory beyond out-of-date loads of the
  queue's indices. The other libraries of Boost, and the other programs of the repository, are listed in
  the manifest with the reason.

  \<^bold>\<open>Possible extensions.\<close> The node-based heaps of \<^verbatim>\<open>heap/\<close>, times of day and time zones in \<^verbatim>\<open>date_time/\<close> and the arithmetic of \<^verbatim>\<open>multiprecision/cpp_int\<close>.
\<close>

end
